(* ===== verification/Prelude.thy ===== *)
theory Prelude
  imports Complex_Main "HOL-Library.Multiset"
begin

text \<open>
  Facts shared by the components: moves of one cell inside an array seen through the
  filter of its occupied cells, sorted lists, unsigned 64-bit arithmetic, ceiling division
  and bit lengths. Nothing here models code of the repository by itself, except the
  integer conventions of the C code: \<open>u64\<close> is the reduction of an unsigned 64-bit value, \<open>s64\<close> of a signed one.
\<close>

named_theorems arr_simps \<open>facts on array updates, used as simp rules by the component proofs\<close>

section \<open>Unsigned 64-bit arithmetic\<close>

definition u64 :: "int \<Rightarrow> nat" where
  "u64 x = nat (x mod 2 ^ 64)"

lemma u64_small: "0 \<le> x \<Longrightarrow> x < 2 ^ 64 \<Longrightarrow> u64 x = nat x"
  by (simp add: u64_def)

lemma u64_less: "u64 x < 2 ^ 64"
proof -
  have "x mod 2 ^ 64 < (2 ^ 64 :: int)" by simp
  then show ?thesis unfolding u64_def by simp
qed

lemma u64_minus_one: "u64 (- 1) = 2 ^ 64 - 1"
  by (simp add: u64_def)

text \<open>The value of a \<open>uint32_t\<close>.\<close>

definition u32 :: "nat \<Rightarrow> nat" where
  "u32 n = n mod 2 ^ 32"

lemma u32_id: "n < 2 ^ 32 \<Longrightarrow> u32 n = n"
  by (simp add: u32_def)

section \<open>Signed 64-bit sums\<close>

text \<open>\<open>s64\<close> is the value of an \<open>int64_t\<close> after a computation, in two's complement; \<open>sum64\<close> is a loop that adds up its elements.\<close>

definition s64 :: "int \<Rightarrow> int" where
  "s64 x = (x + 2 ^ 63) mod 2 ^ 64 - 2 ^ 63"

fun sum64 :: "int \<Rightarrow> int list \<Rightarrow> int" where
  "sum64 a [] = a"
| "sum64 a (x # xs) = sum64 (s64 (a + x)) xs"

lemma s64_id: "- (2 ^ 63) \<le> x \<Longrightarrow> x < 2 ^ 63 \<Longrightarrow> s64 x = x"
  by (simp add: s64_def)

lemma s64_small [simp]: "s64 0 = 0" "s64 1 = 1" "numeral n < (2 ^ 63 :: int) \<Longrightarrow> s64 (numeral n) = numeral n"
  by (simp_all add: s64_id)

lemma s64_add: "s64 (s64 a + b) = s64 (a + b)"
proof -
  have "s64 a + b + 2 ^ 63 = (a + 2 ^ 63) mod 2 ^ 64 + b" by (simp add: s64_def)
  then have "(s64 a + b + 2 ^ 63) mod 2 ^ 64 = (a + 2 ^ 63 + b) mod 2 ^ 64" by (simp only: mod_add_left_eq)
  then show ?thesis unfolding s64_def[of "s64 a + b"] s64_def[of "a + b"] by (simp only: add_ac)
qed

lemma sum64_append [simp]: "sum64 a (xs @ ys) = sum64 (sum64 a xs) ys"
  by (induction xs arbitrary: a) simp_all

lemma sum64_s64: "sum64 (s64 a) xs = s64 (a + sum_list xs)"
proof (induction xs arbitrary: a)
  case (Cons x xs)
  have "sum64 (s64 a) (x # xs) = sum64 (s64 (a + x)) xs" by (simp add: s64_add)
  then show ?case unfolding Cons.IH by (simp add: add.assoc)
qed simp

lemma sum64_0: "sum64 0 xs = s64 (sum_list xs)"
  using sum64_s64[of 0 xs] by simp

section \<open>Moving one cell of an array\<close>

text \<open>
  \<open>filter P xs\<close> is the content of a gapped array whose occupied cells satisfy \<open>P\<close>.
  Moving a cell over free cells keeps it.
\<close>

lemma filter_empty_range:
  assumes "\<And>k. a \<le> k \<Longrightarrow> k < b \<Longrightarrow> k < length xs \<Longrightarrow> \<not> P (xs ! k)"
  shows "filter P (drop a (take b xs)) = []"
proof -
  have "\<not> P x" if "x \<in> set (drop a (take b xs))" for x
  proof -
    from that obtain i where i: "i < length (drop a (take b xs))" "x = drop a (take b xs) ! i"
      by (metis in_set_conv_nth)
    then have "a + i < b" "a + i < length xs" and a: "a \<le> length (take b xs)" by auto
    moreover have "x = xs ! (a + i)" using i(2) calculation by (simp add: nth_drop[OF a])
    ultimately have "a + i < b" "a + i < length xs" "x = xs ! (a + i)" by auto
    then show ?thesis using assms[of "a + i"] by simp
  qed
  then show ?thesis by (simp add: filter_empty_conv)
qed

lemma list_split3:
  assumes "r < w" "w < length xs"
  shows "xs = take r xs @ xs ! r # drop (Suc r) (take w xs) @ xs ! w # drop (Suc w) xs"
proof -
  have 1: "xs = take w xs @ xs ! w # drop (Suc w) xs"
    using assms by (simp add: id_take_nth_drop)
  have "take w xs = take r (take w xs) @ take w xs ! r # drop (Suc r) (take w xs)"
    using assms by (intro id_take_nth_drop) simp
  then have "take w xs = take r xs @ xs ! r # drop (Suc r) (take w xs)"
    using assms by (simp add: min_absorb1)
  with 1 show ?thesis by (metis append.assoc append_Cons)
qed

lemma list_update2_split:
  assumes "r < w" "w < length xs"
  shows "xs[w := a, r := b]
    = take r xs @ b # drop (Suc r) (take w xs) @ a # drop (Suc w) xs"
proof (rule nth_equalityI)
  show "length (xs[w := a, r := b])
      = length (take r xs @ b # drop (Suc r) (take w xs) @ a # drop (Suc w) xs)"
    using assms by simp
next
  fix i assume "i < length (xs[w := a, r := b])"
  then have i: "i < length xs" by simp
  consider "i < r" | "i = r" | "r < i" "i < w" | "i = w" | "w < i" by linarith
  then show "xs[w := a, r := b] ! i
      = (take r xs @ b # drop (Suc r) (take w xs) @ a # drop (Suc w) xs) ! i"
    using assms i by cases (auto simp: nth_append nth_Cons' nth_list_update)
qed

lemma filter_move_right:
  assumes "r < w" "w < length xs" "\<not> P e"
    and free: "\<And>k. r < k \<Longrightarrow> k \<le> w \<Longrightarrow> \<not> P (xs ! k)"
  shows "filter P (xs[w := xs ! r, r := e]) = filter P xs"
proof -
  have mid: "filter P (drop (Suc r) (take w xs)) = []"
    using free by (intro filter_empty_range) simp
  have nw: "\<not> P (xs ! w)" using free assms(1) by simp
  show ?thesis
    by (subst (2) list_split3[OF assms(1,2)], subst list_update2_split[OF assms(1,2)])
      (simp add: mid nw assms(3))
qed

lemma filter_move_left:
  assumes "w < r" "r < length xs" "\<not> P e"
    and free: "\<And>k. w \<le> k \<Longrightarrow> k < r \<Longrightarrow> \<not> P (xs ! k)"
  shows "filter P (xs[w := xs ! r, r := e]) = filter P xs"
proof -
  have mid: "filter P (drop (Suc w) (take r xs)) = []"
    using free by (intro filter_empty_range) simp
  have nw: "\<not> P (xs ! w)" using free assms(1) by simp
  have sw: "xs[w := xs ! r, r := e] = xs[r := e, w := xs ! r]"
    using assms(1) by (simp add: list_update_swap)
  show ?thesis
    unfolding sw
    by (subst (3) list_split3[OF assms(1,2)], subst list_update2_split[OF assms(1,2)])
      (simp add: mid nw assms(3))
qed

section \<open>Bit lengths and ceiling division\<close>

fun bit_len :: "nat \<Rightarrow> nat" where
  "bit_len x = (if x = 0 then 0 else Suc (bit_len (x div 2)))"

declare bit_len.simps [simp del]

lemma bit_len_0 [simp]: "bit_len 0 = 0"
  by (simp add: bit_len.simps)

lemma bit_len_pos: "0 < x \<Longrightarrow> 0 < bit_len x"
  by (simp add: bit_len.simps[of x])

lemma bit_len_upper: "x < 2 ^ bit_len x"
proof (induction x rule: bit_len.induct)
  case (1 x)
  show ?case
  proof (cases "x = 0")
    case False
    with 1 have "x div 2 < 2 ^ bit_len (x div 2)" by simp
    then show ?thesis using False by (simp add: bit_len.simps[of x])
  qed simp
qed

lemma bit_len_lower: "0 < x \<Longrightarrow> 2 ^ (bit_len x - 1) \<le> x"
proof (induction x rule: bit_len.induct)
  case (1 x)
  show ?case
  proof (cases "x div 2 = 0")
    case True
    then show ?thesis using "1.prems" by (simp add: bit_len.simps[of x])
  next
    case False
    with 1 have IH: "2 ^ (bit_len (x div 2) - 1) \<le> x div 2" by simp
    from False have "0 < bit_len (x div 2)" by (simp add: bit_len_pos)
    then have "(2::nat) ^ bit_len (x div 2) = 2 * 2 ^ (bit_len (x div 2) - 1)"
      by (metis Suc_diff_1 power_Suc)
    with IH have "2 ^ bit_len (x div 2) \<le> x" by linarith
    with 1 show ?thesis by (simp add: bit_len.simps[of x])
  qed
qed

lemma bit_len_le: "x < 2 ^ k \<Longrightarrow> bit_len x \<le> k"
proof (rule ccontr)
  assume x: "x < 2 ^ k" and "\<not> bit_len x \<le> k"
  then have k: "k \<le> bit_len x - 1" and pos: "0 < x"
    by (auto intro: gr0I)
  have "(2::nat) ^ k \<le> 2 ^ (bit_len x - 1)" using k by simp
  also have "\<dots> \<le> x" using bit_len_lower[OF pos] .
  finally show False using x by simp
qed

lemma bit_len_power: "bit_len (2 ^ k) = Suc k"
  by (induction k) (simp_all add: bit_len.simps)

definition div_up :: "nat \<Rightarrow> nat \<Rightarrow> nat" where
  "div_up x y = 1 + (x - 1) div y"

lemma div_up_mult_ge: "0 < x \<Longrightarrow> 0 < y \<Longrightarrow> x \<le> div_up x y * y"
proof -
  assume x: "0 < x" and y: "0 < y"
  have "x - 1 = (x - 1) div y * y + (x - 1) mod y" by simp
  moreover have "(x - 1) mod y < y" using y by simp
  ultimately have "x - 1 < (x - 1) div y * y + y" by linarith
  then show ?thesis using x by (simp add: div_up_def)
qed

lemma div_up_mult_less: "0 < x \<Longrightarrow> 0 < y \<Longrightarrow> div_up x y * y < x + y"
proof -
  assume x: "0 < x" and y: "0 < y"
  have "(x - 1) div y * y \<le> x - 1" by simp
  then have "(x - 1) div y * y + y < x + y" using x by linarith
  then show ?thesis by (simp add: div_up_def add.commute)
qed

lemma div_up_least: "0 < x \<Longrightarrow> 0 < y \<Longrightarrow> x \<le> k * y \<Longrightarrow> div_up x y \<le> k"
  unfolding div_up_def
  by (metis One_nat_def Suc_leI add.commute div_less_iff_less_mult le_add_diff_inverse2
      less_le_trans lessI plus_1_eq_Suc le_antisym Suc_pred)


section \<open>Ordered content of a gapped array\<close>

lemma sorted_wrt_filter_nth:
  "sorted_wrt R (filter P xs)
    \<longleftrightarrow> (\<forall>i j. i < j \<longrightarrow> j < length xs \<longrightarrow> P (xs ! i) \<longrightarrow> P (xs ! j) \<longrightarrow> R (xs ! i) (xs ! j))"
  (is "_ \<longleftrightarrow> ?nth xs")
proof (induction xs)
  case (Cons x xs)
  have "?nth (x # xs) \<longleftrightarrow> (P x \<longrightarrow> (\<forall>j < length xs. P (xs ! j) \<longrightarrow> R x (xs ! j))) \<and> ?nth xs"
  proof (intro iffI conjI)
    assume n: "?nth (x # xs)"
    show "P x \<longrightarrow> (\<forall>j < length xs. P (xs ! j) \<longrightarrow> R x (xs ! j))"
    proof (intro impI allI)
      fix j assume "P x" "j < length xs" "P (xs ! j)"
      then show "R x (xs ! j)" using n[rule_format, of 0 "Suc j"] by simp
    qed
    show "?nth xs"
    proof (intro impI allI)
      fix i j assume "i < j" "j < length xs" "P (xs ! i)" "P (xs ! j)"
      then show "R (xs ! i) (xs ! j)" using n[rule_format, of "Suc i" "Suc j"] by simp
    qed
  next
    assume r: "(P x \<longrightarrow> (\<forall>j < length xs. P (xs ! j) \<longrightarrow> R x (xs ! j))) \<and> ?nth xs"
    show "?nth (x # xs)"
    proof (intro impI allI)
      fix i j assume a: "i < j" "j < length (x # xs)" "P ((x # xs) ! i)" "P ((x # xs) ! j)"
      then obtain j' where j: "j = Suc j'" by (cases j) auto
      with a r show "R ((x # xs) ! i) ((x # xs) ! j)" by (cases i) auto
    qed
  qed
  moreover have "sorted_wrt R (filter P (x # xs))
      \<longleftrightarrow> (P x \<longrightarrow> (\<forall>j < length xs. P (xs ! j) \<longrightarrow> R x (xs ! j))) \<and> sorted_wrt R (filter P xs)"
    by (auto simp: in_set_conv_nth)
  ultimately show ?case using Cons.IH by blast
qed simp

text \<open>Inserting before position \<open>a\<close> and giving up a free cell to the right or to the left.\<close>

lemma filter_take_drop: "filter P xs = filter P (take a xs) @ filter P (drop a xs)"
  by (metis append_take_drop_id filter_append)

lemma drop_take_Suc:
  assumes "a \<le> j" "j < length xs"
  shows "drop a xs = drop a (take j xs) @ xs ! j # drop (Suc j) xs"
proof -
  have "xs = take j xs @ xs ! j # drop (Suc j) xs" using assms(2) by (simp add: id_take_nth_drop)
  then have "drop a xs = drop a (take j xs @ xs ! j # drop (Suc j) xs)" by simp
  then show ?thesis using assms by simp
qed

lemma length_filter_range_split:
  assumes "a \<le> b" "b \<le> c"
  shows "length (filter P (drop a (take c xs)))
    = length (filter P (drop a (take b xs))) + length (filter P (drop b (take c xs)))"
proof -
  have "drop a (take c xs) = drop a (take b xs) @ drop b (take c xs)"
  proof -
    have "take c xs = take b (take c xs) @ drop b (take c xs)" by (rule append_take_drop_id[symmetric])
    also have "take b (take c xs) = take b xs" using assms(2) by simp
    finally have "drop a (take c xs) = drop a (take b xs @ drop b (take c xs))" by simp
    also have "\<dots> = drop a (take b xs) @ drop b (take c xs)"
    proof (cases "b \<le> length xs")
      case True
      then show ?thesis using assms(1) by simp
    next
      case False
      then show ?thesis by simp
    qed
    finally show ?thesis .
  qed
  then show ?thesis by simp
qed

lemma length_filter_range_one:
  "b < length xs \<Longrightarrow> length (filter P (drop b (take (Suc b) xs))) = (if P (xs ! b) then 1 else 0)"
  by (simp add: take_Suc_conv_app_nth)

lemma length_filter_range_le: "length (filter P (drop a (take b xs))) \<le> b - a"
  by (rule order_trans[OF length_filter_le]) simp


lemma drop_take_cong:
  assumes "length xs = length ys" "\<And>k. a \<le> k \<Longrightarrow> k < b \<Longrightarrow> k < length xs \<Longrightarrow> xs ! k = ys ! k"
  shows "drop a (take b xs) = drop a (take b ys)"
proof (rule nth_equalityI)
  fix i assume i: "i < length (drop a (take b xs))"
  then have a: "a \<le> length (take b xs)" "a \<le> length (take b ys)" using assms(1) by auto
  have "a + i < b" "a + i < length xs" using i by auto
  then show "drop a (take b xs) ! i = drop a (take b ys) ! i"
    using assms(2)[of "a + i"] by (simp add: nth_drop[OF a(1)] nth_drop[OF a(2)])
qed (simp add: assms(1))


lemma div_less_step: "0 < k \<Longrightarrow> a + k \<le> b \<Longrightarrow> a div k < b div (k :: nat)"
  using div_le_mono[of "a + k" b k] by simp

end
