(* ===== verification/Doubles.thy ===== *)
theory Doubles
  imports Prelude
begin

text \<open>
  IEEE-754 double precision arithmetic as the C and C++ code uses it: a double is the
  rational number it denotes, and an operation is the exact operation followed by \<open>rnd\<close>,
  rounding to the nearest multiple of the unit in the last place of a 53-bit significand,
  ties to even. Every double of the modelled code stays between \<open>2 ^ -1022\<close> and
  \<open>2 ^ 1023\<close> in magnitude or is zero, so subnormal numbers, infinities and NaN are left out;
  a division by zero is never modelled by \<open>ddiv\<close>: the components test for it.
\<close>

named_theorems dbl_simps \<open>exact cases of rounding\<close>

type_synonym double = rat

section \<open>Rounding to nearest, ties to even\<close>

definition rhe :: "rat \<Rightarrow> int" where
  "rhe z = (let f = \<lfloor>z\<rfloor>; d = z - of_int f in
     if d < 1 / 2 then f else if 1 / 2 < d then f + 1 else if even f then f else f + 1)"

lemma rhe_cases:
  obtains f d where "z = of_int f + d" "0 \<le> d" "d < 1" "\<lfloor>z\<rfloor> = f"
    "rhe z = (if d < 1 / 2 then f else if 1 / 2 < d then f + 1 else if even f then f else f + 1)"
proof -
  have "0 \<le> z - of_int \<lfloor>z\<rfloor>" "z - of_int \<lfloor>z\<rfloor> < 1" by linarith+
  then show ?thesis using that[of "\<lfloor>z\<rfloor>" "z - of_int \<lfloor>z\<rfloor>"] by (simp add: rhe_def Let_def)
qed

lemma rhe_of_int [simp, dbl_simps]: "rhe (of_int n) = n"
  by (simp add: rhe_def)

lemma rhe_err: "\<bar>of_int (rhe z) - z\<bar> \<le> 1 / 2"
  by (rule rhe_cases[of z]) (auto simp: abs_le_iff)

lemma rhe_lower: "n \<le> rhe z \<Longrightarrow> of_int n - 1 / 2 \<le> z"
proof -
  assume "n \<le> rhe z"
  then have "(of_int n :: rat) \<le> of_int (rhe z)" by simp
  then show ?thesis using rhe_err[of z] by linarith
qed

lemma rhe_ge_even:
  assumes "of_int n - 1 / 2 \<le> z" "even n"
  shows "n \<le> rhe z"
proof (rule rhe_cases[of z])
  fix f d
  assume z: "z = of_int f + d" "0 \<le> d" "d < 1"
    and r: "rhe z = (if d < 1 / 2 then f else if 1 / 2 < d then f + 1 else if even f then f else f + 1)"
  have "(of_int n :: rat) < of_int f + 1 + 1" using assms(1) z by linarith
  then have n: "n \<le> f + 1" by (metis of_int_1 of_int_add of_int_less_iff zless_add1_eq
        less_le zle_add1_eq_le)
  show ?thesis
  proof (cases "n \<le> f")
    case False
    with n have nf: "n = f + 1" by simp
    with assms(1) z have "1 / 2 \<le> d" by simp
    moreover have "odd f" using nf assms(2) by simp
    ultimately show ?thesis using r nf by simp
  qed (use r in auto)
qed

lemma rhe_mono: "x \<le> y \<Longrightarrow> rhe x \<le> rhe y"
proof (rule rhe_cases[of x], rule rhe_cases[of y])
  fix f d g e
  assume xy: "x \<le> y" and x: "x = of_int f + d" "0 \<le> d" "d < 1"
    and rx: "rhe x = (if d < 1 / 2 then f else if 1 / 2 < d then f + 1 else if even f then f else f + 1)"
    and y: "y = of_int g + e" "0 \<le> e" "e < 1"
    and ry: "rhe y = (if e < 1 / 2 then g else if 1 / 2 < e then g + 1 else if even g then g else g + 1)"
  have "(of_int f :: rat) < of_int g + 1" using xy x y by linarith
  then have "f \<le> g" by (metis of_int_1 of_int_add of_int_less_iff zle_add1_eq_le)
  then consider "f = g" | "f < g" by linarith
  then show ?thesis
  proof cases
    case 1
    then have "d \<le> e" using xy x y by simp
    then show ?thesis using 1 rx ry by auto
  qed (use rx ry in auto)
qed

section \<open>The exponent of a positive double\<close>

definition fexp :: "rat \<Rightarrow> int" where
  "fexp x = (let (p, q) = quotient_of x; b = int (bit_len (nat p)) - int (bit_len (nat q)) in
     if 2 powi b \<le> x then b else b - 1)"

lemma fexp_bounds:
  assumes "0 < x"
  shows "2 powi fexp x \<le> x" "x < 2 powi (fexp x + 1)"
proof -
  obtain p q where pq: "quotient_of x = (p, q)" by force
  then have q: "0 < q" and x: "x = of_int p / of_int q"
    by (auto dest: quotient_of_denom_pos quotient_of_div)
  with assms have p: "0 < p" by (simp add: zero_less_divide_iff)
  define a b where "a = bit_len (nat p)" and "b = bit_len (nat q)"
  have ab: "0 < a" "0 < b" using p q by (simp_all add: a_def b_def bit_len_pos)
  have pu: "of_int p < (2 :: rat) ^ a" and pl: "(2 :: rat) ^ (a - 1) \<le> of_int p"
    using bit_len_upper[of "nat p"] bit_len_lower[of "nat p"] p unfolding a_def
    by (metis nat_less_iff of_int_less_iff of_int_power_eq_of_int_cancel_iff of_nat_numeral of_nat_power order_less_imp_le of_int_numeral,
        metis int_nat_eq nat_less_eq_zless of_int_le_iff of_int_numeral of_int_power of_nat_le_iff of_nat_numeral of_nat_power order_less_imp_le zero_less_nat_eq)
  have qu: "of_int q < (2 :: rat) ^ b" and ql: "(2 :: rat) ^ (b - 1) \<le> of_int q"
    using bit_len_upper[of "nat q"] bit_len_lower[of "nat q"] q unfolding b_def
    by (metis nat_less_iff of_int_less_iff of_int_power_eq_of_int_cancel_iff of_nat_numeral of_nat_power order_less_imp_le of_int_numeral,
        metis int_nat_eq nat_less_eq_zless of_int_le_iff of_int_numeral of_int_power of_nat_le_iff of_nat_numeral of_nat_power order_less_imp_le zero_less_nat_eq)
  have up: "x < 2 powi (int a - int b + 1)"
  proof -
    have "x * 2 ^ (b - 1) \<le> x * of_int q" using ql assms by (simp add: mult_left_mono)
    also have "\<dots> = of_int p" using x q by simp
    also have "\<dots> < 2 ^ a" using pu .
    finally have "x < 2 ^ a / 2 ^ (b - 1)" by (simp add: field_simps)
    also have "\<dots> = 2 powi (int a - int (b - 1))"
      by (simp add: power_int_diff power_int_of_nat)
    also have "int a - int (b - 1) = int a - int b + 1" using ab by simp
    finally show ?thesis .
  qed
  have lo: "2 powi (int a - int b - 1) \<le> x"
  proof -
    have "2 powi (int a - int b - 1) = 2 powi (int (a - 1) - int b)" using ab by (simp add: algebra_simps)
    also have "\<dots> = (2 :: rat) ^ (a - 1) / 2 ^ b" by (simp add: power_int_diff power_int_of_nat)
    also have "\<dots> \<le> of_int p / 2 ^ b" using pl by (simp add: divide_right_mono)
    also have "\<dots> \<le> of_int p / of_int q" using qu p q by (simp add: frac_le)
    finally show ?thesis using x by simp
  qed
  have f: "fexp x = (if 2 powi (int a - int b) \<le> x then int a - int b else int a - int b - 1)"
    by (simp add: fexp_def pq a_def b_def Let_def)
  show "2 powi fexp x \<le> x" "x < 2 powi (fexp x + 1)"
    using up lo by (auto simp: f)
qed


lemma fexp_mono: "0 < x \<Longrightarrow> x \<le> y \<Longrightarrow> fexp x \<le> fexp y"
proof (rule ccontr)
  assume x: "0 < x" and xy: "x \<le> y" and "\<not> fexp x \<le> fexp y"
  then have "fexp y + 1 \<le> fexp x" by simp
  then have "(2 :: rat) powi (fexp y + 1) \<le> 2 powi fexp x" by (intro power_int_increasing) simp_all
  also have "\<dots> \<le> x" by (rule fexp_bounds(1)[OF x])
  finally show False using xy fexp_bounds(2)[of y] x by simp
qed

section \<open>Rounding\<close>

definition ulp :: "rat \<Rightarrow> rat" where
  "ulp x = 2 powi (fexp x - 52)"

definition rnd_pos :: "rat \<Rightarrow> rat" where
  "rnd_pos x = of_int (rhe (x / ulp x)) * ulp x"

definition rnd :: "rat \<Rightarrow> double" where
  "rnd x = (if x = 0 then 0 else if 0 < x then rnd_pos x else - rnd_pos (- x))"

lemma ulp_pos [simp]: "0 < ulp x"
  by (simp add: ulp_def)

lemma ulp_mono: "0 < x \<Longrightarrow> x \<le> y \<Longrightarrow> ulp x \<le> ulp y"
  unfolding ulp_def by (intro power_int_increasing) (simp_all add: fexp_mono)

text \<open>Every power of two at least one unit in the last place is a multiple of it.\<close>

lemma ulp_dvd_pow:
  assumes "fexp x - 52 \<le> k"
  shows "\<exists>m. (2 :: rat) powi k = of_int (2 ^ m) * ulp x"
proof -
  have "(2 :: rat) powi k = 2 powi (k - (fexp x - 52)) * ulp x"
    unfolding ulp_def by (simp flip: power_int_add)
  also have "(2 :: rat) powi (k - (fexp x - 52)) = of_int (2 ^ nat (k - (fexp x - 52)))"
    using assms by (simp add: power_int_def)
  finally show ?thesis by blast
qed

lemma rnd_pos_bounds:
  assumes "0 < x"
  shows "2 powi fexp x \<le> rnd_pos x" "rnd_pos x \<le> 2 powi (fexp x + 1)"
proof -
  obtain m where m: "(2 :: rat) powi fexp x = of_int (2 ^ m) * ulp x"
    using ulp_dvd_pow[of x "fexp x"] by auto
  obtain m' where m': "(2 :: rat) powi (fexp x + 1) = of_int (2 ^ m') * ulp x"
    using ulp_dvd_pow[of x "fexp x + 1"] by auto
  have "of_int (2 ^ m) \<le> x / ulp x" using fexp_bounds(1)[OF assms] m by (simp add: field_simps)
  then have "rhe (of_int (2 ^ m)) \<le> rhe (x / ulp x)" by (rule rhe_mono)
  then have "2 ^ m \<le> rhe (x / ulp x)" by (simp only: rhe_of_int)
  then have "(of_int (2 ^ m) :: rat) \<le> of_int (rhe (x / ulp x))" by (simp only: of_int_le_iff)
  then show "2 powi fexp x \<le> rnd_pos x"
    unfolding m rnd_pos_def by (rule mult_right_mono) (simp add: less_imp_le)
  have "x / ulp x \<le> of_int (2 ^ m')" using fexp_bounds(2)[OF assms] m' by (simp add: field_simps)
  then have "rhe (x / ulp x) \<le> rhe (of_int (2 ^ m'))" by (rule rhe_mono)
  then have "rhe (x / ulp x) \<le> 2 ^ m'" by (simp only: rhe_of_int)
  then have "(of_int (rhe (x / ulp x)) :: rat) \<le> of_int (2 ^ m')" by (simp only: of_int_le_iff)
  then show "rnd_pos x \<le> 2 powi (fexp x + 1)"
    unfolding m' rnd_pos_def by (rule mult_right_mono) (simp add: less_imp_le)
qed

lemma rnd_pos_mono:
  assumes "0 < x" "x \<le> y"
  shows "rnd_pos x \<le> rnd_pos y"
proof (cases "fexp x = fexp y")
  case True
  then have u: "ulp x = ulp y" by (simp add: ulp_def)
  have "x / ulp x \<le> y / ulp y" using assms u by (simp add: divide_right_mono less_imp_le)
  then have "(of_int (rhe (x / ulp x)) :: rat) \<le> of_int (rhe (y / ulp y))"
    by (simp add: rhe_mono)
  then show ?thesis using u by (simp add: rnd_pos_def mult_right_mono less_imp_le)
next
  case False
  with fexp_mono[OF assms] have "fexp x + 1 \<le> fexp y" by simp
  then have "(2 :: rat) powi (fexp x + 1) \<le> 2 powi fexp y" by (intro power_int_increasing) simp_all
  then show ?thesis using rnd_pos_bounds(2)[OF assms(1)] rnd_pos_bounds(1)[of y] assms by linarith
qed

lemma rnd_pos_pos: "0 < x \<Longrightarrow> 0 < rnd_pos x"
  using rnd_pos_bounds(1)[of x] by (meson order_less_le_trans zero_less_numeral zero_less_power_int)

theorem rnd_mono: "x \<le> y \<Longrightarrow> rnd x \<le> rnd y"
proof -
  assume xy: "x \<le> y"
  consider "0 < x" | "x \<le> 0" "0 \<le> y" | "y < 0" using xy by linarith
  then show ?thesis
  proof cases
    case 1
    then show ?thesis using xy by (simp add: rnd_def rnd_pos_mono)
  next
    case 2
    then have "rnd x \<le> 0" "0 \<le> rnd y"
      using rnd_pos_pos[of "- x"] rnd_pos_pos[of y] by (auto simp: rnd_def)
    then show ?thesis by simp
  next
    case 3
    then show ?thesis using xy rnd_pos_mono[of "- y" "- x"] by (simp add: rnd_def)
  qed
qed

lemma rnd_0 [simp, dbl_simps]: "rnd 0 = 0"
  by (simp add: rnd_def)

lemma rnd_nonneg: "0 \<le> x \<Longrightarrow> 0 \<le> rnd x"
  using rnd_mono[of 0 x] by simp

lemma rnd_positive: "0 < x \<Longrightarrow> 0 < rnd x"
  by (simp add: rnd_def rnd_pos_pos)

lemma rnd_minus: "rnd (- x) = - rnd x"
  by (simp add: rnd_def)

text \<open>Integers of at most 53 bits are doubles.\<close>

lemma rnd_of_nat [dbl_simps]:
  assumes "n < 2 ^ 53"
  shows "rnd (of_nat n) = of_nat n"
proof (cases "n = 0")
  case False
  then have pos: "(0 :: rat) < of_nat n" by simp
  have "2 powi fexp (of_nat n) \<le> (of_nat n :: rat)" by (rule fexp_bounds(1)[OF pos])
  also have "(of_nat n :: rat) < of_nat (2 ^ 53)" using assms by (simp only: of_nat_less_iff)
  also have "\<dots> = 2 powi 53" by simp
  finally have "(2 :: rat) powi fexp (of_nat n) < 2 powi 53" .
  then have "fexp (of_nat n) < 53"
    by (metis leD not_less power_int_increasing one_le_numeral)
  then obtain m where "(2 :: rat) powi 0 = of_int (2 ^ m) * ulp (of_nat n)"
    using ulp_dvd_pow[of "of_nat n" 0] by auto
  then have m: "of_int (2 ^ m) * ulp (of_nat n) = 1" by simp
  then have "(of_nat n :: rat) = of_int (int n * 2 ^ m) * ulp (of_nat n)"
    by (metis mult.assoc mult.right_neutral of_int_mult of_int_of_nat_eq)
  then have "(of_nat n :: rat) / ulp (of_nat n) = of_int (int n * 2 ^ m)"
    by (metis nonzero_mult_div_cancel_right ulp_pos less_irrefl)
  then have "rnd_pos (of_nat n) = of_int (int n * 2 ^ m) * ulp (of_nat n)"
    unfolding rnd_pos_def by (simp only: rhe_of_int)
  also have "\<dots> = of_nat n" using m by (simp add: mult.assoc)
  finally show ?thesis using pos by (simp add: rnd_def)
qed simp

lemma rnd_1 [simp, dbl_simps]: "rnd 1 = 1"
  using rnd_of_nat[of 1] by simp


lemma rnd_pos_err:
  assumes "0 < x"
  shows "\<bar>rnd_pos x - x\<bar> \<le> ulp x / 2"
proof -
  have "rnd_pos x - x = (of_int (rhe (x / ulp x)) - x / ulp x) * ulp x"
    by (simp add: rnd_pos_def left_diff_distrib less_imp_neq[OF ulp_pos, symmetric])
  then have "\<bar>rnd_pos x - x\<bar> = \<bar>of_int (rhe (x / ulp x)) - x / ulp x\<bar> * ulp x"
    by (simp add: abs_mult less_imp_le)
  also have "\<dots> \<le> 1 / 2 * ulp x" using rhe_err by (rule mult_right_mono) (simp add: less_imp_le)
  finally show ?thesis by simp
qed

lemma ulp_le: "0 < x \<Longrightarrow> ulp x \<le> x / 2 ^ 52"
proof -
  assume x: "0 < x"
  have "ulp x = 2 powi fexp x / 2 ^ 52" by (simp add: ulp_def power_int_diff)
  then show ?thesis using fexp_bounds(1)[OF x] by (simp add: divide_right_mono)
qed

text \<open>The relative error of one operation is at most \<open>2 ^ -53\<close>.\<close>

lemma rnd_err: "0 \<le> x \<Longrightarrow> \<bar>rnd x - x\<bar> \<le> x / 2 ^ 53"
proof (cases "x = 0")
  case False
  assume "0 \<le> x"
  with False have x: "0 < x" by simp
  then have "\<bar>rnd x - x\<bar> \<le> ulp x / 2" using rnd_pos_err[OF x] by (simp add: rnd_def)
  also have "\<dots> \<le> x / 2 ^ 53" using ulp_le[OF x] by (simp add: field_simps)
  finally show ?thesis .
qed simp

text \<open>Integer parts below \<open>2 ^ 51\<close> sit on an even multiple of the unit in the last place.\<close>

lemma ulp_even:
  assumes "0 < x" "x < 2 ^ 51"
  obtains e where "even (e :: int)" "of_int e * ulp x = 1"
proof -
  have "(2 :: rat) powi fexp x < 2 powi 51"
    using fexp_bounds(1)[OF assms(1)] assms(2) by simp
  then have "fexp x < 51" by (metis leD not_less power_int_increasing one_le_numeral)
  then obtain m where "(2 :: rat) powi (- 1) = of_int (2 ^ m) * ulp x"
    using ulp_dvd_pow[of x "- 1"] by auto
  then have "of_int (2 * 2 ^ m) * ulp x = 1" by simp
  then show ?thesis using that[of "2 * 2 ^ m"] by simp
qed

text \<open>
  Arguments at least one apart keep different integer parts after rounding: the fact that
  makes \<open>(int)(i * dist)\<close> injective in \<open>i\<close> for \<open>dist \<ge> 1\<close>.
\<close>

lemma floor_rnd_step:
  assumes x: "0 \<le> x" and xy: "x + 1 \<le> y" and y: "y < 2 ^ 51"
  shows "\<lfloor>rnd x\<rfloor> + 1 \<le> \<lfloor>rnd y\<rfloor>"
proof -
  define k where "k = \<lfloor>rnd x\<rfloor>"
  have k0: "0 \<le> k" using rnd_nonneg[OF x] by (simp add: k_def)
  have kx: "of_int k \<le> rnd x" by (simp add: k_def)
  have exact: "rnd (of_int (k + 1)) = of_int (k + 1)" if "of_int (k + 1) \<le> y"
  proof -
    have "(of_int (k + 1) :: rat) < of_int (2 ^ 53)" using that y by simp
    then have "k + 1 < 2 ^ 53" by (simp only: of_int_less_iff)
    then have "rnd (of_nat (nat (k + 1))) = of_nat (nat (k + 1))" using k0 by (intro rnd_of_nat) simp
    then show ?thesis using k0 by (simp add: of_nat_nat)
  qed
  show ?thesis
  proof (cases "of_int (k + 1) \<le> y")
    case True
    then have "of_int (k + 1) \<le> rnd y" using rnd_mono[OF True] exact by simp
    then show ?thesis by (simp add: k_def le_floor_iff)
  next
    case False
    with xy have xk: "x < of_int k" by simp
    have "x \<noteq> 0" using xk by (auto simp: k_def)
    with x xy xk have pos: "0 < x" "0 < y" "x < of_int k" by simp_all
    obtain e where e: "of_int e * ulp x = 1"
      using ulp_even[OF pos(1)] xy y by fastforce
    obtain e' where e': "even e'" "of_int e' * ulp y = 1"
      using ulp_even[OF pos(2) y] by blast
    have "of_int (k * e) * ulp x \<le> rnd x" using kx e by (simp add: mult.assoc)
    also have "rnd x = of_int (rhe (x / ulp x)) * ulp x" using pos(1) by (simp add: rnd_def rnd_pos_def)
    finally have "(of_int (k * e) :: rat) \<le> of_int (rhe (x / ulp x))"
      by (rule mult_right_le_imp_le) simp
    then have "k * e \<le> rhe (x / ulp x)" by (simp only: of_int_le_iff)
    then have "of_int (k * e) - 1 / 2 \<le> x / ulp x" by (rule rhe_lower)
    then have "(of_int (k * e) - 1 / 2) * ulp x \<le> x / ulp x * ulp x"
      by (rule mult_right_mono) (simp add: less_imp_le)
    also have "x / ulp x * ulp x = x" by (simp add: less_imp_neq[OF ulp_pos, symmetric])
    finally have "of_int k - ulp x / 2 \<le> x"
      using e by (simp add: left_diff_distrib mult.assoc)
    then have "of_int (k + 1) - ulp y / 2 \<le> y"
      using ulp_mono[of x y] pos xy by simp
    then have "of_int ((k + 1) * e') * ulp y - ulp y / 2 \<le> y" using e'(2) by (simp add: mult.assoc)
    then have "(of_int ((k + 1) * e') - 1 / 2) * ulp y \<le> y" by (simp add: left_diff_distrib)
    then have "of_int ((k + 1) * e') - 1 / 2 \<le> y / ulp y" by (simp only: pos_le_divide_eq[OF ulp_pos])
    then have "(k + 1) * e' \<le> rhe (y / ulp y)" using e'(1) by (intro rhe_ge_even) simp_all
    then have "of_int ((k + 1) * e') * ulp y \<le> rnd_pos y"
      unfolding rnd_pos_def by (intro mult_right_mono) (simp_all add: less_imp_le del: of_int_mult)
    then have "of_int (k + 1) \<le> rnd y" using e'(2) pos by (simp add: rnd_def mult.assoc)
    then show ?thesis by (simp add: k_def le_floor_iff)
  qed
qed

text \<open>Dividing by a power of two only changes the exponent: dyadic values are exact.\<close>

lemma fexp_half: "0 < x \<Longrightarrow> fexp (x / 2) = fexp x - 1"
proof (rule antisym)
  assume x: "0 < x"
  then have h: "0 < x / 2" by simp
  have "(2 :: rat) powi (fexp x - 1) = 2 powi fexp x / 2" by (simp add: power_int_diff)
  also have "\<dots> \<le> x / 2" using fexp_bounds(1)[OF x] by simp
  finally have "(2 :: rat) powi (fexp x - 1) < 2 powi (fexp (x / 2) + 1)"
    using fexp_bounds(2)[OF h] by linarith
  then show "fexp x - 1 \<le> fexp (x / 2)"
    by (metis linorder_not_le nle_le one_le_numeral power_int_increasing zle_add1_eq_le)
  have "(2 :: rat) powi (fexp (x / 2)) \<le> x / 2" by (rule fexp_bounds(1)[OF h])
  also have "\<dots> < 2 powi (fexp x + 1) / 2" using fexp_bounds(2)[OF x] by simp
  also have "\<dots> = 2 powi fexp x" by (simp add: power_int_add)
  finally show "fexp (x / 2) \<le> fexp x - 1"
    by (metis linorder_not_le nle_le one_le_numeral power_int_increasing zle_diff1_eq)
qed

lemma rnd_half: "rnd (x / 2) = rnd x / 2"
proof -
  have p: "rnd_pos (y / 2) = rnd_pos y / 2" if "0 < y" for y
  proof -
    have "ulp (y / 2) = ulp y / 2"
    proof -
      have "fexp (y / 2) - 52 = fexp y - 52 - 1" using fexp_half[OF that] by simp
      then have "ulp (y / 2) = 2 powi (fexp y - 52 - 1)" by (simp only: ulp_def)
      also have "\<dots> = 2 powi (fexp y - 52) / 2 powi 1" by (rule power_int_diff) simp
      finally show ?thesis by (simp add: ulp_def)
    qed
    then show ?thesis unfolding rnd_pos_def by (simp only:) simp
  qed
  show ?thesis
    by (cases x "0 :: rat" rule: linorder_cases) (use p[of x] p[of "- x"] in \<open>simp_all add: rnd_def\<close>)
qed

lemma rnd_dyadic: "n < 2 ^ 53 \<Longrightarrow> rnd (of_nat n / 2 ^ m) = of_nat n / 2 ^ m"
proof (induction m)
  case 0
  then show ?case by (simp add: rnd_of_nat)
next
  case (Suc m)
  then show ?case using rnd_half[of "of_nat n / 2 ^ m"] by (simp add: mult.commute)
qed

section \<open>The operations\<close>

definition dadd :: "double \<Rightarrow> double \<Rightarrow> double" where "dadd x y = rnd (x + y)"
definition dsub :: "double \<Rightarrow> double \<Rightarrow> double" where "dsub x y = rnd (x - y)"
definition dmul :: "double \<Rightarrow> double \<Rightarrow> double" where "dmul x y = rnd (x * y)"
definition ddiv :: "double \<Rightarrow> double \<Rightarrow> double" where "ddiv x y = rnd (x / y)"

text \<open>Conversion from an integer type, and the cast to an integer type (towards zero).\<close>

definition d_of_nat :: "nat \<Rightarrow> double" where "d_of_nat n = rnd (of_nat n)"
definition d_trunc :: "double \<Rightarrow> int" where "d_trunc x = (if 0 \<le> x then \<lfloor>x\<rfloor> else \<lceil>x\<rceil>)"

lemma d_of_nat_exact [dbl_simps]: "n < 2 ^ 53 \<Longrightarrow> d_of_nat n = of_nat n"
  by (simp add: d_of_nat_def rnd_of_nat)

text \<open>
  The array position \<open>(int)(i * dist)\<close> with \<open>dist = size / (double) count\<close>, which the code
  uses to spread \<open>count\<close> elements over \<open>size\<close> cells.
\<close>

definition spaced :: "nat \<Rightarrow> nat \<Rightarrow> nat \<Rightarrow> nat" where
  "spaced sz cnt i = nat (d_trunc (dmul (d_of_nat i) (ddiv (d_of_nat sz) (d_of_nat cnt))))"

lemma spaced_floor:
  assumes "0 < c" "c \<le> s" "s < 2 ^ 50" "i \<le> c"
  shows "spaced s c i = nat \<lfloor>rnd (of_nat i * rnd (of_nat s / of_nat c))\<rfloor>"
proof -
  have "0 \<le> rnd (of_nat i * rnd (of_nat s / of_nat c))" by (simp add: rnd_nonneg)
  then show ?thesis using assms by (simp add: spaced_def dmul_def ddiv_def d_of_nat_exact d_trunc_def)
qed

lemma spaced_dist:
  assumes "0 < c" "c \<le> s" "s < 2 ^ 50"
  defines "d \<equiv> rnd (of_nat s / of_nat c)"
  shows "1 \<le> d" "of_nat c * d \<le> of_nat s + 1 / 8"
proof -
  have "1 \<le> (of_nat s / of_nat c :: rat)" using assms(1,2) by simp
  then show "1 \<le> d" using rnd_mono[of 1 "of_nat s / of_nat c"] by (simp add: d_def)
  have "d \<le> of_nat s / of_nat c + of_nat s / of_nat c / 2 ^ 53"
    using rnd_err[of "of_nat s / of_nat c"] unfolding d_def abs_le_iff by simp
  then have "of_nat c * d \<le> of_nat c * (of_nat s / of_nat c + of_nat s / of_nat c / 2 ^ 53)"
    by (rule mult_left_mono) simp
  also have "\<dots> = of_nat s + of_nat s / 2 ^ 53" using assms(1) by (simp add: field_simps)
  also have "\<dots> \<le> of_nat s + 1 / 8"
  proof -
    have "(of_nat s :: rat) < of_nat (2 ^ 50)" using assms(3) by (simp only: of_nat_less_iff)
    then show ?thesis by simp
  qed
  finally show "of_nat c * d \<le> of_nat s + 1 / 8" .
qed

lemma spaced_bound:
  assumes "i \<le> c"
    and "0 < c" "c \<le> s" "s < 2 ^ 50"
  shows "of_nat i * rnd (of_nat s / of_nat c) < (2 :: rat) ^ 51"
proof -
  define d where "d = rnd (of_nat s / of_nat c)"
  note d = spaced_dist[OF assms(2-4), folded d_def]
  have "of_nat i * d \<le> of_nat c * d" using assms(1) d(1) by (simp add: mult_right_mono)
  also have "\<dots> \<le> of_nat s + 1 / 8" by (rule d(2))
  also have "\<dots> < 2 ^ 51"
  proof -
    have "(of_nat s :: rat) < of_nat (2 ^ 50)" using assms(4) by (simp only: of_nat_less_iff)
    then show ?thesis by simp
  qed
  finally show ?thesis by (simp add: d_def)
qed

lemma spaced_Suc:
  assumes "0 < c" "c \<le> s" "s < 2 ^ 50" "Suc i \<le> c"
  shows "spaced s c i < spaced s c (Suc i)"
proof -
  define d where "d = rnd (of_nat s / of_nat c)"
  note d = spaced_dist[OF assms(1-3), folded d_def]
  have "\<lfloor>rnd (of_nat i * d)\<rfloor> + 1 \<le> \<lfloor>rnd (of_nat (Suc i) * d)\<rfloor>"
  proof (rule floor_rnd_step)
    show "0 \<le> of_nat i * d" "of_nat i * d + 1 \<le> of_nat (Suc i) * d"
      using d(1) by (simp_all add: algebra_simps)
    show "of_nat (Suc i) * d < 2 ^ 51"
      unfolding d_def by (rule spaced_bound[OF assms(4,1,2,3)])
  qed
  moreover have "0 \<le> \<lfloor>rnd (of_nat i * d)\<rfloor>" using d(1) by (simp add: rnd_nonneg)
  ultimately have "nat \<lfloor>rnd (of_nat i * d)\<rfloor> < nat \<lfloor>rnd (of_nat (Suc i) * d)\<rfloor>" by linarith
  then show ?thesis using assms by (simp only: spaced_floor[OF assms(1-3)] d_def Suc_leD le_refl)
qed

lemma spaced_strict:
  assumes "0 < c" "c \<le> s" "s < 2 ^ 50" "i < j" "j \<le> c"
  shows "spaced s c i < spaced s c j"
  using assms(4,5)
proof (induction j)
  case (Suc j)
  then have "spaced s c j < spaced s c (Suc j)" by (intro spaced_Suc[OF assms(1-3)])
  then show ?case using Suc by (cases "i = j") auto
qed simp

lemma spaced_top:
  assumes "0 < c" "c \<le> s" "s < 2 ^ 50"
  shows "spaced s c c \<le> s"
proof -
  define y where "y = of_nat c * rnd (of_nat s / of_nat c)"
  have y: "0 \<le> y" "y \<le> of_nat s + 1 / 8"
    using spaced_dist[OF assms] by (simp_all add: y_def)
  have "(of_nat s :: rat) < of_nat (2 ^ 50)" using assms(3) by (simp only: of_nat_less_iff)
  then have "y / 2 ^ 53 \<le> 1 / 4" using y by simp
  then have "rnd y < of_nat s + 1" using rnd_err[OF y(1)] y(2) by linarith
  then have "\<lfloor>rnd y\<rfloor> < int s + 1" unfolding floor_less_iff by simp
  then show ?thesis using assms by (simp add: spaced_floor y_def)
qed

lemma spaced_less: "0 < c \<Longrightarrow> c \<le> s \<Longrightarrow> s < 2 ^ 50 \<Longrightarrow> i < c \<Longrightarrow> spaced s c i < s"
  using spaced_strict[of c s i c] spaced_top[of c s] by simp

lemma spaced_0: "spaced s c 0 = 0"
  by (simp add: spaced_def dmul_def d_of_nat_def d_trunc_def)

text \<open>
  Away from the integers the rounding does not matter: the position is the quotient. This
  also holds for more elements than cells.
\<close>

lemma spaced_quotient:
  assumes c: "0 < c" "c < 2 ^ 20" and s: "s < 2 ^ 20" and i: "i < c" and frac: "i * s mod c \<noteq> 0"
  shows "spaced s c i = i * s div c"
proof -
  define d where "d = rnd (of_nat s / of_nat c)"
  define q where "q = i * s div c"
  define r where "r = i * s mod c"
  define x where "x = of_nat (i * s) / (of_nat c :: rat)"
  have qr: "i * s = q * c + r" "0 < r" "r < c" using frac c(1) by (simp_all add: q_def r_def)
  have cpos: "(0 :: rat) < of_nat c" using c(1) by simp
  have xq: "x = of_nat q + of_nat r / of_nat c" using cpos unfolding x_def qr(1) by (simp add: field_simps)
  have "(of_nat 1 :: rat) \<le> of_nat r" "(of_nat (r + 1) :: rat) \<le> of_nat c"
    using qr(2,3) by (simp_all only: of_nat_le_iff Suc_le_eq One_nat_def Suc_eq_plus1[symmetric])
  then have "1 / of_nat c \<le> of_nat r / (of_nat c :: rat)" "(of_nat r + 1) / of_nat c \<le> (1 :: rat)"
    using cpos by (simp_all add: divide_right_mono)
  then have x: "of_nat q + 1 / of_nat c \<le> x" "x \<le> of_nat q + 1 - 1 / of_nat c"
    unfolding xq by (simp_all add: add_divide_distrib)
  have c20: "(of_nat c :: rat) < 2 ^ 20" "(of_nat s :: rat) < 2 ^ 20"
    using c(2) s of_nat_less_iff[of c "2 ^ 20", where ?'a = rat] of_nat_less_iff[of s "2 ^ 20", where ?'a = rat]
    by simp_all
  have gap: "(1 :: rat) / 2 ^ 20 < 1 / of_nat c" using c20(1) cpos by (simp add: frac_less2)
  have sc: "0 \<le> of_nat s / (of_nat c :: rat)" by simp
  have ilec: "(of_nat i :: rat) \<le> of_nat c" using i by simp
  have x0: "0 \<le> x" by (simp add: x_def)
  have xs: "x \<le> 2 ^ 20"
  proof -
    have "x = of_nat i * (of_nat s / of_nat c)" by (simp add: x_def)
    also have "\<dots> \<le> of_nat c * (of_nat s / of_nat c)" using ilec sc by (rule mult_right_mono)
    also have "\<dots> = of_nat s" using cpos by simp
    finally show ?thesis using c20(2) by simp
  qed
  have e1: "\<bar>of_nat i * d - x\<bar> \<le> x / 2 ^ 53"
  proof -
    have "of_nat i * d - x = of_nat i * (d - of_nat s / of_nat c)"
      by (simp add: x_def right_diff_distrib)
    then have "\<bar>of_nat i * d - x\<bar> = of_nat i * \<bar>d - of_nat s / of_nat c\<bar>" by (simp add: abs_mult)
    also have "\<dots> \<le> of_nat i * (of_nat s / of_nat c / 2 ^ 53)"
      using rnd_err[OF sc] by (intro mult_left_mono) (simp_all add: d_def)
    finally show ?thesis by (simp add: x_def)
  qed
  have d0: "0 \<le> of_nat i * d" by (simp add: d_def rnd_nonneg)
  have small: "x / 2 ^ 53 \<le> 1 / 2 ^ 33" using xs by simp
  have e1': "\<bar>of_nat i * d - x\<bar> \<le> 1 / 2 ^ 33" using e1 small by linarith
  have "(2 :: rat) ^ 20 + 1 / 2 ^ 33 \<le> 2 ^ 21" by simp
  then have "of_nat i * d \<le> 2 ^ 21" using abs_le_D1[OF e1'] xs by linarith
  then have "of_nat i * d / 2 ^ 53 \<le> 2 ^ 21 / 2 ^ 53" by (rule divide_right_mono) simp
  then have "of_nat i * d / 2 ^ 53 \<le> 1 / 2 ^ 32" by simp
  then have e2: "\<bar>rnd (of_nat i * d) - of_nat i * d\<bar> \<le> 1 / 2 ^ 32"
    using rnd_err[OF d0] by linarith
  have tiny: "(1 :: rat) / 2 ^ 33 + 1 / 2 ^ 32 < 1 / 2 ^ 20" by simp
  have lo: "of_nat q \<le> rnd (of_nat i * d)" and hi: "rnd (of_nat i * d) < of_nat q + 1"
    using e1' e2 x gap tiny unfolding abs_le_iff by linarith+
  have fl: "\<lfloor>rnd (of_nat i * d)\<rfloor> = int q" using lo hi by (simp add: floor_eq_iff)
  have "0 \<le> rnd (of_nat i * d)" using d0 by (rule rnd_nonneg)
  then have "spaced s c i = nat \<lfloor>rnd (of_nat i * d)\<rfloor>"
    using c s i by (simp add: spaced_def dmul_def ddiv_def d_of_nat_exact d_trunc_def d_def)
  then show ?thesis using fl by (simp add: q_def)
qed

end
