(* ===== verification/Montes.thy ===== *)
theory Montes
  imports Doubles "HOL-Library.Monad_Syntax"
begin

text \<open>
  The packed memory array of \<open>pma/external/montes\<close> (\<open>keyval.h\<close>, \<open>util.h\<close>, \<open>pma.c\<close>):
  one array of cells kept in key order, with empty cells (key \<open>-1\<close>) between them.

  A result \<open>None\<close> is a failed \<open>assert\<close>, a division by zero, an access outside the array
  or another undefined behaviour of the C code; the theorems of \<open>Montes_Proofs\<close> show where it
  cannot occur. The values in memory that \<open>malloc\<close> and \<open>realloc\<close> return are not specified;
  the code clears the keys of those cells before it reads them, and the model takes 0 for
  the value part, which is never read. Keys and values are mathematical integers: the code
  only compares and copies them. Sizes and indices are natural numbers, with the
  wrap-around of \<open>uint64_t\<close> written out (\<open>u64\<close>) where the code can reach it, and the
  8-bit fields \<open>s\<close> reduced modulo 256.
\<close>

section \<open>keyval.h\<close>

record pma_element_t =
  e_key :: int
  e_val :: int

definition keyval_empty :: "pma_element_t \<Rightarrow> bool" where
  "keyval_empty e \<longleftrightarrow> e_key e = - 1"

definition keyval_clear :: "pma_element_t \<Rightarrow> pma_element_t" where
  "keyval_clear e = e\<lparr>e_key := - 1\<rparr>"

definition blank :: pma_element_t where
  "blank = \<lparr>e_key = - 1, e_val = 0\<rparr>"

section \<open>util.h\<close>

text \<open>\<open>64 - __builtin_clzll x\<close> is the number of bits of a positive \<open>x\<close>.\<close>

definition last_bit_set :: "nat \<Rightarrow> nat option" where
  "last_bit_set x = (if x = 0 then None else Some (bit_len x))"

definition floor_lg :: "nat \<Rightarrow> nat option" where
  "floor_lg x = do { b \<leftarrow> last_bit_set x; Some (b - 1) }"

definition ceil_lg :: "nat \<Rightarrow> nat option" where
  "ceil_lg x = last_bit_set (u64 (int x - 1))"

text \<open>\<open>1 << k\<close> on \<open>int\<close>: undefined when the bit does not fit a positive \<open>int\<close>.\<close>

definition shl_one :: "nat \<Rightarrow> nat option" where
  "shl_one k = (if k < 31 then Some (2 ^ k) else None)"

definition hyperfloor :: "nat \<Rightarrow> nat option" where
  "hyperfloor x = do { k \<leftarrow> floor_lg x; shl_one k }"

definition hyperceil :: "nat \<Rightarrow> nat option" where
  "hyperceil x = do { k \<leftarrow> ceil_lg x; shl_one k }"

definition ceil_div :: "nat \<Rightarrow> nat \<Rightarrow> nat option" where
  "ceil_div x y = (if x = 0 \<or> y = 0 then None else Some (1 + (x - 1) div y))"

section \<open>The state\<close>

definition t_h :: double where "t_h = 3 / 4"
definition t_0 :: double where "t_0 = 1"
definition p_h :: double where "p_h = 1 / 2"
definition p_0 :: double where "p_0 = 1 / 4"

definition max_sparseness :: nat where "max_sparseness = 4"
definition largest_empty_segment :: nat where "largest_empty_segment = 4"
definition MAX_SIZE :: nat where "MAX_SIZE = 2 ^ 56 - 1"

record pma_t =
  p_n :: nat
  p_m :: nat
  p_s :: nat
  p_num_segments :: nat
  p_h' :: nat
  p_delta_t :: double
  p_delta_p :: double
  p_array :: "pma_element_t list"

definition height_deltas :: "nat \<Rightarrow> double \<times> double" where
  "height_deltas h = (ddiv (dsub t_0 t_h) (d_of_nat h), ddiv (dsub p_h p_0) (d_of_nat h))"

definition clear_array :: "pma_element_t list \<Rightarrow> pma_element_t list" where
  "clear_array arr = map keyval_clear arr"

definition pma_create :: "pma_t option" where
  "pma_create = do {
     let s = largest_empty_segment;
     let m = 2 ^ largest_empty_segment;
     let num = m div s;
     fl \<leftarrow> floor_lg num;
     let h = fl + 1;
     let (dt, dp) = height_deltas h;
     Some \<lparr>p_n = 0, p_m = m, p_s = s, p_num_segments = num, p_h' = h,
           p_delta_t = dt, p_delta_p = dp, p_array = clear_array (replicate m blank)\<rparr> }"

definition compute_capacity :: "nat \<Rightarrow> (nat \<times> nat \<times> nat) option" where
  "compute_capacity n = do {
     cl \<leftarrow> ceil_lg n;
     let s = cl mod 256;
     num \<leftarrow> ceil_div n s;
     num \<leftarrow> hyperceil num;
     cd \<leftarrow> ceil_div n num;
     let s = cd mod 256;
     let m = s * num;
     let m = max_sparseness * m;
     let s = (max_sparseness * s) mod 256;
     if m \<le> MAX_SIZE \<and> n < m then Some (s, num, m) else None }"

section \<open>Search\<close>

function scan_left :: "pma_element_t list \<Rightarrow> int \<Rightarrow> int \<Rightarrow> int" where
  "scan_left arr i from =
     (if from \<le> i \<and> keyval_empty (arr ! nat i) then scan_left arr (i - 1) from else i)"
  by pat_completeness auto
termination
  by (relation "measure (\<lambda>(arr, i, from). nat (i - from + 1))") auto

declare scan_left.simps [simp del]

lemma scan_left_le: "scan_left arr i from \<le> i"
proof (induction arr i "from" rule: scan_left.induct)
  case (1 arr i "from")
  then show ?case by (subst scan_left.simps) auto
qed

function find_loop :: "pma_element_t list \<Rightarrow> int \<Rightarrow> int \<Rightarrow> int \<Rightarrow> bool \<times> int" where
  "find_loop arr key from to =
     (if from \<le> to then
        let mid = from + (to - from) div 2;
            i = scan_left arr mid from in
        if i < from then find_loop arr key (mid + 1) to
        else if e_key (arr ! nat i) = key then (True, i)
        else if e_key (arr ! nat i) < key then find_loop arr key (mid + 1) to
        else find_loop arr key from (i - 1)
      else (False, scan_left arr to 0))"
  by pat_completeness auto
termination
proof (relation "measure (\<lambda>(arr, key, from, to). nat (to - from + 1))", goal_cases)
  case (4 arr key "from" to mid i)
  have "i \<le> mid" unfolding 4(3) by (rule scan_left_le)
  moreover have "mid \<le> to" using 4(1) unfolding 4(2) by presburger
  ultimately have "i \<le> to" by linarith
  with 4(1) show ?case by simp
qed auto

declare find_loop.simps [simp del]

definition pma_find :: "pma_t \<Rightarrow> int \<Rightarrow> bool \<times> int" where
  "pma_find p key = find_loop (p_array p) key 0 (int (p_m p) - 1)"

section \<open>Packing and spreading a window\<close>

function pack_loop :: "pma_element_t list \<Rightarrow> nat \<Rightarrow> nat \<Rightarrow> nat \<Rightarrow> (pma_element_t list \<times> nat) option" where
  "pack_loop arr read_index write_index to =
     (if read_index < to then
        if length arr \<le> read_index then None
        else if \<not> keyval_empty (arr ! read_index) then
          let arr' = (if write_index < read_index
                      then arr[write_index := arr ! read_index,
                               read_index := keyval_clear (arr ! read_index)] else arr)
          in pack_loop arr' (read_index + 1) (write_index + 1) to
        else pack_loop arr (read_index + 1) write_index to
      else Some (arr, write_index))"
  by pat_completeness auto
termination
  by (relation "measure (\<lambda>(arr, r, w, to). to - r)") auto

declare pack_loop.simps [simp del]

definition pack :: "pma_element_t list \<Rightarrow> nat \<Rightarrow> nat \<Rightarrow> nat \<Rightarrow> pma_element_t list option" where
  "pack arr from to n =
     (if from < to then do {
        (arr', write_index) \<leftarrow> pack_loop arr from from to;
        if n = write_index - from then Some arr' else None }
      else None)"

function spread_loop :: "pma_element_t list \<Rightarrow> nat \<Rightarrow> nat \<Rightarrow> nat \<Rightarrow> pma_element_t list option" where
  "spread_loop arr read_index write_index frequency =
     (if read_index < write_index div 2 ^ 8 then
        if write_index div 2 ^ 8 < length arr then
          spread_loop (arr[write_index div 2 ^ 8 := arr ! read_index,
                           read_index := keyval_clear (arr ! read_index)])
            (u64 (int read_index - 1)) (u64 (int write_index - int frequency)) frequency
        else None
      else Some arr)"
  by pat_completeness auto
termination
proof (relation "measure (\<lambda>(arr, r, w, f). if r < w div 2 ^ 8 then r + 1 else 0)", goal_cases)
  case (2 arr r w f)
  let ?r = "u64 (int r - 1)" and ?w = "u64 (int w - int f)"
  have w: "?w div 2 ^ 8 < 2 ^ 64" using u64_less[of "int w - int f"] by simp
  show ?case
  proof (cases "r = 0")
    case True
    then have "?r = 2 ^ 64 - 1" by (simp add: u64_minus_one)
    then have "\<not> ?r < ?w div 2 ^ 8" using w by simp
    then show ?thesis using 2 by simp
  next
    case False
    have "u64 (int r - 1) \<le> r - 1"
    proof -
      have "(int r - 1) mod 2 ^ 64 \<le> int r - 1" using False by (intro zmod_le_nonneg_dividend) simp
      then show ?thesis unfolding u64_def by linarith
    qed
    then show ?thesis using 2 False by auto
  qed
qed simp

declare spread_loop.simps [simp del]

definition spread :: "pma_element_t list \<Rightarrow> nat \<Rightarrow> nat \<Rightarrow> nat \<Rightarrow> pma_element_t list option" where
  "spread arr from to n =
     (if from < to \<and> n \<noteq> 0 then
        let capacity = to - from;
            frequency = u64 (int capacity * 2 ^ 8) div n;
            read_index = u64 (int from + int n - 1);
            write_index = u64 (int (u64 (int to * 2 ^ 8)) - int frequency)
        in spread_loop arr read_index write_index frequency
      else None)"

section \<open>Resizing and rebalancing\<close>

text \<open>\<open>realloc\<close> keeps the common prefix; the added cells are not initialised.\<close>

definition realloc_cells :: "pma_element_t list \<Rightarrow> nat \<Rightarrow> pma_element_t list" where
  "realloc_cells arr m = take m arr @ replicate (m - length arr) blank"

definition clear_from :: "pma_element_t list \<Rightarrow> nat \<Rightarrow> pma_element_t list" where
  "clear_from arr n = take n arr @ map keyval_clear (drop n arr)"

definition resize :: "pma_t \<Rightarrow> pma_t option" where
  "resize p = do {
     arr \<leftarrow> pack (p_array p) 0 (p_m p) (p_n p);
     (s, num, m) \<leftarrow> compute_capacity (p_n p);
     fl \<leftarrow> floor_lg num;
     let h = fl + 1;
     let (dt, dp) = height_deltas h;
     arr \<leftarrow> spread (clear_from (realloc_cells arr m) (p_n p)) 0 m (p_n p);
     Some (p\<lparr>p_m := m, p_s := s, p_num_segments := num, p_h' := h,
             p_delta_t := dt, p_delta_p := dp, p_array := arr\<rparr>) }"

function count_left :: "pma_element_t list \<Rightarrow> int \<Rightarrow> int \<Rightarrow> nat \<Rightarrow> nat \<times> int" where
  "count_left arr left_index window_start occupancy =
     (if window_start \<le> left_index
      then count_left arr (left_index - 1) window_start
             (if keyval_empty (arr ! nat left_index) then occupancy else occupancy + 1)
      else (occupancy, left_index))"
  by pat_completeness auto
termination
  by (relation "measure (\<lambda>(arr, l, w, occ). nat (l - w + 1))") auto

declare count_left.simps [simp del]

function count_right :: "pma_element_t list \<Rightarrow> nat \<Rightarrow> nat \<Rightarrow> nat \<Rightarrow> nat \<times> nat" where
  "count_right arr right_index window_end occupancy =
     (if right_index < window_end
      then count_right arr (right_index + 1) window_end
             (if keyval_empty (arr ! right_index) then occupancy else occupancy + 1)
      else (occupancy, right_index))"
  by pat_completeness auto
termination
  by (relation "measure (\<lambda>(arr, r, w, occ). w - r)") auto

declare count_right.simps [simp del]

text \<open>
  The do-while loop of \<open>rebalance\<close>. \<open>pma->s * (1 << height)\<close> is computed in \<open>int\<close>, and
  is undefined from \<open>2 ^ 31\<close> on. The result is the window, its occupancy and whether its
  density is within the thresholds.
\<close>

function window_loop :: "pma_t \<Rightarrow> nat \<Rightarrow> nat \<Rightarrow> nat \<Rightarrow> int \<Rightarrow> nat \<Rightarrow> (nat \<times> nat \<times> nat \<times> bool) option" where
  "window_loop p i height occupancy left_index right_index =
     (let window_size = p_s p * 2 ^ height in
      if 31 \<le> height \<or> 2 ^ 31 \<le> window_size \<or> window_size = 0 then None
      else
        let window = i div window_size;
            window_start = window * window_size;
            window_end = window_start + window_size in
        if length (p_array p) < window_end then None
        else
          let (occ1, left1) = count_left (p_array p) left_index (int window_start) occupancy;
              (occ2, right1) = count_right (p_array p) right_index window_end occ1;
              density = ddiv (d_of_nat occ2) (d_of_nat window_size);
              t_height = dsub t_0 (dmul (d_of_nat height) (p_delta_t p));
              p_height = dadd p_0 (dmul (d_of_nat height) (p_delta_p p)) in
          if (density < p_height \<or> t_height \<le> density) \<and> height + 1 < p_h' p
          then window_loop p i (height + 1) occ2 left1 right1
          else Some (window_start, window_end, occ2, p_height \<le> density \<and> density < t_height))"
  by pat_completeness auto
termination
  by (relation "measure (\<lambda>(p, i, height, occ, l, r). p_h' p - height)") auto

declare window_loop.simps [simp del]

definition rebalance :: "pma_t \<Rightarrow> int \<Rightarrow> pma_t option" where
  "rebalance p i =
     (if i < 0 \<or> int (length (p_array p)) \<le> i then None
      else do {
        let occupancy = (if keyval_empty (p_array p ! nat i) then 0 else 1);
        (window_start, window_end, occupancy, ok) \<leftarrow>
          window_loop p (nat i) 0 occupancy (i - 1) (nat i + 1);
        if ok then do {
          arr \<leftarrow> pack (p_array p) window_start window_end occupancy;
          arr \<leftarrow> spread arr window_start window_end occupancy;
          Some (p\<lparr>p_array := arr\<rparr>) }
        else resize p })"

section \<open>Insertion and deletion\<close>

function free_right :: "pma_element_t list \<Rightarrow> nat \<Rightarrow> nat \<Rightarrow> nat" where
  "free_right arr j m = (if j < m \<and> \<not> keyval_empty (arr ! j) then free_right arr (j + 1) m else j)"
  by pat_completeness auto
termination
  by (relation "measure (\<lambda>(arr, j, m). m - j)") auto

declare free_right.simps [simp del]

function free_left :: "pma_element_t list \<Rightarrow> int \<Rightarrow> int" where
  "free_left arr j = (if 0 \<le> j \<and> \<not> keyval_empty (arr ! nat j) then free_left arr (j - 1) else j)"
  by pat_completeness auto
termination
  by (relation "measure (\<lambda>(arr, j). nat (j + 1))") auto

declare free_left.simps [simp del]

text \<open>\<open>while (j > i + 1) \<dots>\<close> and \<open>while (j < i) \<dots>\<close>: push the elements by one cell.\<close>

fun push_right :: "pma_element_t list \<Rightarrow> nat \<Rightarrow> nat \<Rightarrow> pma_element_t list" where
  "push_right arr 0 target = arr"
| "push_right arr (Suc j) target =
     (if target < Suc j then push_right (arr[Suc j := arr ! j]) j target else arr)"

function push_left :: "pma_element_t list \<Rightarrow> nat \<Rightarrow> nat \<Rightarrow> pma_element_t list" where
  "push_left arr j i = (if j < i then push_left (arr[j := arr ! (j + 1)]) (j + 1) i else arr)"
  by pat_completeness auto
termination
  by (relation "measure (\<lambda>(arr, j, i). i - j)") auto

declare push_left.simps [simp del]

definition pma_insert_after :: "pma_t \<Rightarrow> int \<Rightarrow> int \<Rightarrow> int \<Rightarrow> pma_t option" where
  "pma_insert_after p i key val =
     (if i < - 1 \<or> int (p_m p) \<le> i then None
      else
        let arr = p_array p;
            j = free_right arr (nat (i + 1)) (p_m p);
            e = \<lparr>e_key = key, e_val = val\<rparr>;
            (arr', i') =
              (if j < p_m p
               then ((push_right arr j (nat (i + 1)))[nat (i + 1) := e], i + 1)
               else
                 let j = free_left arr (i - 1) in
                 if 0 \<le> j then ((push_left arr (nat j) (nat i))[nat i := e], i)
                 else (arr, i))
        in rebalance (p\<lparr>p_n := p_n p + 1, p_array := arr'\<rparr>) i')"

definition pma_insert :: "pma_t \<Rightarrow> int \<Rightarrow> int \<Rightarrow> (bool \<times> pma_t) option" where
  "pma_insert p key val =
     (let (found, i) = pma_find p key in
      if \<not> found then do { p' \<leftarrow> pma_insert_after p i key val; Some (True, p') }
      else Some (False, p))"

definition pma_delete_at :: "pma_t \<Rightarrow> int \<Rightarrow> pma_t option" where
  "pma_delete_at p i =
     (if i < 0 \<or> int (p_m p) \<le> i then None
      else rebalance (p\<lparr>p_array := (p_array p)[nat i := keyval_clear (p_array p ! nat i)]\<rparr>) i)"

definition pma_delete :: "pma_t \<Rightarrow> int \<Rightarrow> (bool \<times> pma_t) option" where
  "pma_delete p key =
     (let (found, i) = pma_find p key in
      if found then do { p' \<leftarrow> pma_delete_at p i; Some (True, p') }
      else Some (False, p))"

definition pma_get :: "pma_t \<Rightarrow> int \<Rightarrow> pma_element_t option" where
  "pma_get p i = (if 0 \<le> i \<and> i < int (p_m p) then Some (p_array p ! nat i) else None)"

definition pma_capacity :: "pma_t \<Rightarrow> nat" where "pma_capacity p = p_m p"
definition pma_count :: "pma_t \<Rightarrow> nat" where "pma_count p = p_n p"
definition pma_segment_size :: "pma_t \<Rightarrow> nat" where "pma_segment_size p = p_s p"

definition pma_from_array :: "pma_element_t list \<Rightarrow> nat \<Rightarrow> pma_t option" where
  "pma_from_array array n =
     (if n = 0 \<or> length array < n then None
      else do {
        (s, num, m) \<leftarrow> compute_capacity n;
        fl \<leftarrow> floor_lg num;
        let h = fl + 1;
        let (dt, dp) = height_deltas h;
        let cells = map (\<lambda>i. if i < n then array ! i else keyval_clear blank) [0..<m];
        arr \<leftarrow> spread cells 0 m n;
        Some \<lparr>p_n = n, p_m = m, p_s = s, p_num_segments = num, p_h' = h,
              p_delta_t = dt, p_delta_p = dp, p_array = arr\<rparr> })"

end
