(* ===== verification/Montes_Proofs.thy ===== *)
theory Montes_Proofs
  imports Montes
begin

text \<open>
  Correctness of the packed memory array of \<open>pma/external/montes\<close>: the binary search over
  an array with gaps, packing and spreading as moves that keep the ordered content, the
  choice of the window, and insertion as insertion into the ordered content.
\<close>

section \<open>The ordered content\<close>

abbreviation occupied :: "pma_element_t \<Rightarrow> bool" where
  "occupied e \<equiv> \<not> keyval_empty e"

definition content :: "pma_element_t list \<Rightarrow> pma_element_t list" where
  "content arr = filter occupied arr"

definition keys_sorted :: "pma_element_t list \<Rightarrow> bool" where
  "keys_sorted arr \<longleftrightarrow> sorted_wrt (\<lambda>x y. e_key x < e_key y) (content arr)"

definition count_range :: "pma_element_t list \<Rightarrow> nat \<Rightarrow> nat \<Rightarrow> nat" where
  "count_range arr a b = length (filter occupied (drop a (take b arr)))"

lemma keys_sorted_nth:
  "keys_sorted arr \<Longrightarrow> i < j \<Longrightarrow> j < length arr \<Longrightarrow> occupied (arr ! i) \<Longrightarrow> occupied (arr ! j)
    \<Longrightarrow> e_key (arr ! i) < e_key (arr ! j)"
  unfolding keys_sorted_def content_def sorted_wrt_filter_nth by blast

lemma empty_clear [simp]: "keyval_empty (keyval_clear e)"
  by (simp add: keyval_empty_def keyval_clear_def)

lemma empty_blank [simp]: "keyval_empty blank"
  by (simp add: keyval_empty_def blank_def)

lemma content_clear [simp]: "content (map keyval_clear xs) = []"
  by (simp add: content_def filter_empty_conv)

section \<open>Binary search\<close>

lemma scan_left_spec:
  assumes "from - 1 \<le> i"
  shows "from - 1 \<le> scan_left arr i from"
    and "from \<le> scan_left arr i from \<Longrightarrow> occupied (arr ! nat (scan_left arr i from))"
    and "\<And>j. scan_left arr i from < j \<Longrightarrow> j \<le> i \<Longrightarrow> keyval_empty (arr ! nat j)"
  using assms
proof (induction arr i "from" rule: scan_left.induct)
  case (1 arr i "from")
  { case 1
    then show ?case using "1.IH" by (subst scan_left.simps) auto
  next
    case 2
    then show ?case using "1.IH" scan_left.simps[of arr i "from"] by (auto split: if_splits)
  next
    case (3 j)
    then show ?case using "1.IH" scan_left.simps[of arr i "from"]
      by (cases "j = i") (auto split: if_splits) }
qed

text \<open>What a search returns: a cell holding the key, or the predecessor's cell.\<close>

definition found_at :: "pma_element_t list \<Rightarrow> int \<Rightarrow> bool \<times> int \<Rightarrow> bool" where
  "found_at arr k r = (case r of
     (True, i) \<Rightarrow> 0 \<le> i \<and> i < int (length arr) \<and> occupied (arr ! nat i) \<and> e_key (arr ! nat i) = k
   | (False, i) \<Rightarrow> - 1 \<le> i \<and> i < int (length arr)
       \<and> (0 \<le> i \<longrightarrow> occupied (arr ! nat i))
       \<and> (\<forall>j < length arr. occupied (arr ! j) \<longrightarrow> int j \<le> i \<longrightarrow> e_key (arr ! j) < k)
       \<and> (\<forall>j < length arr. occupied (arr ! j) \<longrightarrow> i < int j \<longrightarrow> k < e_key (arr ! j)))"

lemma find_loop_spec:
  assumes "keys_sorted arr" "0 \<le> from" "to < int (length arr)" "from \<le> to + 1"
    and "\<forall>j < length arr. occupied (arr ! j) \<longrightarrow> int j < from \<longrightarrow> e_key (arr ! j) < k"
    and "\<forall>j < length arr. occupied (arr ! j) \<longrightarrow> to < int j \<longrightarrow> k < e_key (arr ! j)"
  shows "found_at arr k (find_loop arr k from to)"
  using assms
proof (induction arr k "from" to rule: find_loop.induct)
  case (1 arr k "from" to)
  note sorted = "1.prems"(1) and below = "1.prems"(5) and above = "1.prems"(6)
  show ?case
  proof (cases "from \<le> to")
    case False
    define i where "i = scan_left arr to 0"
    have eq: "find_loop arr k from to = (False, i)" using False by (simp add: find_loop.simps i_def)
    have ft: "from = to + 1" using False "1.prems"(4) by simp
    have i: "- 1 \<le> i" "i \<le> to" "0 \<le> i \<longrightarrow> occupied (arr ! nat i)"
      "\<And>j. i < j \<Longrightarrow> j \<le> to \<Longrightarrow> keyval_empty (arr ! nat j)"
      using scan_left_spec[of 0 to arr] scan_left_le[of arr to 0] "1.prems"(2) ft
      by (auto simp: i_def)
    have "k < e_key (arr ! j)" if "j < length arr" "occupied (arr ! j)" "i < int j" for j
      using that above i(4)[of "int j"] by (cases "to < int j") auto
    then show ?thesis using i below ft "1.prems"(3) unfolding eq found_at_def by auto
  next
    case True
    define mid where "mid = from + (to - from) div 2"
    define i where "i = scan_left arr mid from"
    have m: "from \<le> mid" "mid \<le> to" using True unfolding mid_def by presburger+
    have i: "from - 1 \<le> i" "i \<le> mid" "from \<le> i \<longrightarrow> occupied (arr ! nat i)"
      "\<And>j. i < j \<Longrightarrow> j \<le> mid \<Longrightarrow> keyval_empty (arr ! nat j)"
      using scan_left_spec[of "from" mid arr] scan_left_le[of arr mid "from"] m
      by (auto simp: i_def)
    have unfold: "find_loop arr k from to =
      (if i < from then find_loop arr k (mid + 1) to
       else if e_key (arr ! nat i) = k then (True, i)
       else if e_key (arr ! nat i) < k then find_loop arr k (mid + 1) to
       else find_loop arr k from (i - 1))"
      using True by (subst find_loop.simps) (simp add: Let_def mid_def i_def)
    note IH = "1.IH"[OF True mid_def i_def]
    consider (none) "i < from" | (eq) "from \<le> i" "e_key (arr ! nat i) = k"
      | (lt) "from \<le> i" "e_key (arr ! nat i) < k" | (gt) "from \<le> i" "k < e_key (arr ! nat i)"
      by linarith
    then show ?thesis
    proof cases
      case none
      have "e_key (arr ! j) < k" if "j < length arr" "occupied (arr ! j)" "int j < mid + 1" for j
        using that below i(4)[of "int j"] none by (cases "int j < from") auto
      then show ?thesis using none IH(1) "1.prems" m by (simp add: unfold)
    next
      case eq
      then show ?thesis using i m "1.prems"(2,3) by (simp add: unfold found_at_def)
    next
      case lt
      have "e_key (arr ! j) < k" if j: "j < length arr" "occupied (arr ! j)" "int j < mid + 1" for j
      proof (cases "int j" i rule: linorder_cases)
        case less
        then have "e_key (arr ! j) < e_key (arr ! nat i)"
          using keys_sorted_nth[OF sorted, of j "nat i"] j i lt(1) m "1.prems"(2,3) by auto
        then show ?thesis using lt(2) by simp
      next
        case equal
        then have "j = nat i" by simp
        then show ?thesis using lt(2) by simp
      next
        case greater
        then show ?thesis using i(4)[of "int j"] j by simp
      qed
      then show ?thesis using lt IH(2) "1.prems" m by (simp add: unfold)
    next
      case gt
      have "k < e_key (arr ! j)" if j: "j < length arr" "occupied (arr ! j)" "i - 1 < int j" for j
      proof (cases "int j = i")
        case True
        then have "j = nat i" by simp
        then show ?thesis using gt(2) by simp
      next
        case False
        then have "nat i < j" using j(3) gt(1) "1.prems"(2) by linarith
        then have "e_key (arr ! nat i) < e_key (arr ! j)"
          using keys_sorted_nth[OF sorted, of "nat i" j] j i gt(1) by auto
        then show ?thesis using gt(2) by simp
      qed
      then show ?thesis using gt IH(3) "1.prems" m i(2) by (simp add: unfold)
    qed
  qed
qed


section \<open>Packing\<close>

lemma pack_loop_spec:
  assumes "w \<le> r" "r \<le> to" "to \<le> length arr"
    and "\<And>k. w \<le> k \<Longrightarrow> k < r \<Longrightarrow> keyval_empty (arr ! k)"
  shows "\<exists>arr'. pack_loop arr r w to = Some (arr', w + count_range arr r to)
    \<and> length arr' = length arr \<and> content arr' = content arr
    \<and> (\<forall>k. w + count_range arr r to \<le> k \<longrightarrow> k < to \<longrightarrow> keyval_empty (arr' ! k))"
  using assms
proof (induction arr r w to rule: pack_loop.induct)
  case (1 arr r w to)
  show ?case
  proof (cases "r < to")
    case False
    then have "count_range arr r to = 0" by (simp add: count_range_def)
    then show ?thesis using False "1.prems" by (simp add: pack_loop.simps)
  next
    case True
    then have rl: "r < length arr" using "1.prems" by simp
    have cnt: "count_range arr r to = (if occupied (arr ! r) then 1 else 0) + count_range arr (r + 1) to"
      using length_filter_range_split[of r "r + 1" to occupied arr] True rl
        length_filter_range_one[OF rl, of occupied]
      by (simp add: count_range_def)
    show ?thesis
    proof (cases "occupied (arr ! r)")
      case False
      have "\<exists>arr'. pack_loop arr (r + 1) w to = Some (arr', w + count_range arr (r + 1) to)
        \<and> length arr' = length arr \<and> content arr' = content arr
        \<and> (\<forall>k. w + count_range arr (r + 1) to \<le> k \<longrightarrow> k < to \<longrightarrow> keyval_empty (arr' ! k))"
        using "1.prems" True rl False by (intro "1.IH"(2)) (auto simp: less_Suc_eq)
      then show ?thesis using True rl False cnt by (subst pack_loop.simps) simp
    next
      case occ: True
      define arr1 where "arr1 = (if w < r then arr[w := arr ! r, r := keyval_clear (arr ! r)] else arr)"
      have len: "length arr1 = length arr" by (simp add: arr1_def)
      have con: "content arr1 = content arr"
        unfolding arr1_def content_def using filter_move_left[of w r arr occupied] rl "1.prems"(4)
        by auto
      have same: "arr1 ! k = arr ! k" if "r < k" for k
        using that by (simp add: arr1_def)
      have free: "keyval_empty (arr1 ! k)" if "w + 1 \<le> k" "k < r + 1" for k
        using that rl "1.prems"(4)[of k] by (cases "k = r") (auto simp: arr1_def)
      have cnt1: "count_range arr1 (r + 1) to = count_range arr (r + 1) to"
        unfolding count_range_def
        by (subst drop_take_cong[OF len]) (simp_all add: same)
      have "\<exists>arr'. pack_loop arr1 (r + 1) (w + 1) to = Some (arr', (w + 1) + count_range arr1 (r + 1) to)
        \<and> length arr' = length arr1 \<and> content arr' = content arr1
        \<and> (\<forall>k. (w + 1) + count_range arr1 (r + 1) to \<le> k \<longrightarrow> k < to \<longrightarrow> keyval_empty (arr' ! k))"
        using "1.prems" True rl occ free len
        by (intro "1.IH"(1)) (auto simp: arr1_def)
      then show ?thesis using True rl occ cnt cnt1 con len
        by (subst pack_loop.simps) (simp add: arr1_def Let_def)
    qed
  qed
qed

lemma pack_spec:
  assumes "from < to" "to \<le> length arr" "n = count_range arr from to"
  shows "\<exists>arr'. pack arr from to n = Some arr' \<and> length arr' = length arr
    \<and> content arr' = content arr
    \<and> (\<forall>k. from + n \<le> k \<longrightarrow> k < to \<longrightarrow> keyval_empty (arr' ! k))"
  using pack_loop_spec[of "from" "from" to arr] assms by (auto simp: pack_def)

section \<open>Spreading\<close>

text \<open>
  \<open>spread\<close> moves the packed elements to the right, starting from the last one. The cell
  written in step \<open>k\<close> is \<open>(256 * to - k * frequency) / 256\<close>, the cell read is
  \<open>from + n - k\<close>. The loop may go on below \<open>from\<close> (for \<open>n > 256\<close> the remainder of the
  fixed-point division can exceed one cell), so the invariant covers every step \<open>k \<ge> 1\<close>.
\<close>

lemma spread_no_wrap:
  fixes cap n f rem fr j :: int
  assumes f: "256 * cap = n * f + rem" "0 \<le> rem" "rem < n" and n: "0 < n" "n \<le> cap"
    and win: "cap \<le> fr" and j: "0 \<le> j" "j < fr"
    and guard: "256 * (fr - j + 1) \<le> 256 * fr + rem - j * f"
  shows "f \<le> 256 * fr + rem - j * f"
proof -
  have f256: "256 \<le> f"
  proof (rule ccontr)
    assume "\<not> 256 \<le> f"
    then have "n * f + n \<le> n * 256" using n(1) by (metis add1_zle_eq distrib_left
          mult.right_neutral mult_left_mono not_le order_less_imp_le zle_add1_eq_le)
    then show False using f n by linarith
  qed
  show ?thesis
  proof (cases "f = 256")
    case True
    have "256 * (fr - j + 1) \<le> 256 * fr + rem - j * 256" using guard True by simp
    moreover have "256 * 2 \<le> 256 * (fr - j + 1)" using j by simp
    ultimately show ?thesis using True by simp
  next
    case False
    with f256 have f1: "1 \<le> f - 256" by simp
    have "j * (f - 256) \<le> rem - 256" using guard by (simp add: algebra_simps)
    moreover have "j * 1 \<le> j * (f - 256)" using f1 j(1) by (rule mult_left_mono)
    ultimately have jb: "j \<le> rem - 256" by simp
    then have n256: "256 < n" using f(3) j(1) by linarith
    have "n * (f - 256) \<le> 256 * (cap - n)" using f by (simp add: algebra_simps)
    moreover have "256 * (f - 256) \<le> n * (f - 256)" using n256 f1 by (intro mult_right_mono) simp_all
    ultimately have "256 * (f - 256) \<le> 256 * (cap - n)" by (rule order_trans[rotated])
    then have "f - 256 \<le> cap - n" by simp
    then show ?thesis using guard jb f(3) win n by (simp add: algebra_simps)
  qed
qed

lemma spread_loop_spec:
  assumes f: "f = 256 * (to - from) div n" and n: "0 < n" "n \<le> to - from"
    and len: "to \<le> length arr" "length arr < 2 ^ 56"
    and win: "from = 0 \<or> to - from \<le> from"
    and k: "1 \<le> k"
    and r: "int r = int from + int n - int k" and w: "int w = 256 * int to - int k * int f"
    and free: "\<And>c. r < c \<Longrightarrow> c \<le> w div 256 \<Longrightarrow> keyval_empty (arr ! c)"
  shows "\<exists>arr'. spread_loop arr r w f = Some arr' \<and> length arr' = length arr
    \<and> content arr' = content arr"
  using len k r w free f
proof (induction arr r w f arbitrary: k rule: spread_loop.induct)
  case (1 arr r w f)
  note len = "1.prems"(1,2) and k = "1.prems"(3) and r = "1.prems"(4) and w = "1.prems"(5)
    and free = "1.prems"(6) and f = "1.prems"(7)
  define c where "c = w div 2 ^ 8"
  have f256: "256 \<le> f"
  proof -
    have "256 = 256 * n div n" using n(1) by simp
    also have "\<dots> \<le> 256 * (to - from) div n" using n(2) by (intro div_le_mono) simp
    also have "\<dots> = f" by (rule f[symmetric])
    finally show ?thesis .
  qed
  show ?case
  proof (cases "r < c")
    case False
    then show ?thesis by (subst spread_loop.simps) (simp add: c_def)
  next
    case True
    have kf: "f \<le> k * f" using k by simp
    have "int (w + k * f) = int (256 * to)" using w by simp
    then have "w + k * f = 256 * to" by (simp only: of_nat_eq_iff)
    then have "w + 256 \<le> 256 * to" using kf f256 by linarith
    then have ct: "c < to" by (simp add: c_def)
    define arr1 where "arr1 = arr[c := arr ! r, r := keyval_clear (arr ! r)]"
    have con: "content arr1 = content arr"
      unfolding arr1_def content_def
      using True ct len free by (intro filter_move_right) (simp_all add: c_def)
    have unf: "spread_loop arr r w f
        = spread_loop arr1 (u64 (int r - 1)) (u64 (int w - int f)) f"
      using True ct len by (subst spread_loop.simps) (simp add: c_def arr1_def)
    show ?thesis
    proof (cases "r = 0")
      case True
      then have "u64 (int r - 1) = 2 ^ 64 - 1" by (simp add: u64_minus_one)
      moreover have "u64 (int w - int f) div 2 ^ 8 < 2 ^ 64 - 1"
        using u64_less[of "int w - int f"] by simp
      ultimately have "spread_loop arr r w f = Some arr1" by (simp add: unf spread_loop.simps[of arr1])
      then show ?thesis using con by (simp add: arr1_def)
    next
      case False
      have "r < w div 256" using True by (simp add: c_def)
      then have "r + 1 \<le> w div 256" by simp
      then have "(r + 1) * 256 \<le> w" by (subst (asm) less_eq_div_iff_mult_less_eq) simp_all
      then have wr: "256 * (int r + 1) \<le> int w" by simp
      have capf: "256 * int (to - from) = int n * int f + int (256 * (to - from) mod n)"
        using mult_div_mod_eq[of n "256 * (to - from)"] unfolding f by (simp flip: of_nat_mult of_nat_add)
      have tf: "int (to - from) = int to - int from" using n by simp
      have fw: "int f \<le> int w"
      proof (cases "k < n")
        case True
        then have "int (k + 1) * int f \<le> int n * int f" by (intro mult_right_mono) simp_all
        then show ?thesis using w capf tf by (simp add: algebra_simps)
      next
        case False
        have weq: "int w = 256 * int from + int (256 * (to - from) mod n) - (int k - int n) * int f"
          using w capf tf by (simp add: algebra_simps)
        have win': "int (to - from) \<le> int from" using win r False \<open>r \<noteq> 0\<close> by auto
        show ?thesis unfolding weq
        proof (rule spread_no_wrap[OF capf _ _ _ _ win'])
          show "0 \<le> int (256 * (to - from) mod n)" "int (256 * (to - from) mod n) < int n"
            "0 < int n" "int n \<le> int (to - from)" using n by simp_all
          show "0 \<le> int k - int n" "int k - int n < int from" using False r \<open>r \<noteq> 0\<close> by simp_all
          show "256 * (int from - (int k - int n) + 1)
            \<le> 256 * int from + int (256 * (to - from) mod n) - (int k - int n) * int f"
            using wr r unfolding weq by simp
        qed
      qed
      have w64: "w < 2 ^ 64" using ct len unfolding c_def by simp
      have r': "u64 (int r - 1) = r - 1" using False True w64 unfolding c_def by (simp add: u64_small)
      have w': "u64 (int w - int f) = w - f" using fw w64 by (simp add: u64_small)
      have "\<exists>arr'. spread_loop arr1 (u64 (int r - 1)) (u64 (int w - int f)) f = Some arr'
        \<and> length arr' = length arr1 \<and> content arr' = content arr1"
        unfolding arr1_def c_def
      proof (rule "1.IH")
        show "r < w div 2 ^ 8" "w div 2 ^ 8 < length arr" using True ct len by (simp_all add: c_def)
        show "to \<le> length (arr[w div 2 ^ 8 := arr ! r, r := keyval_clear (arr ! r)])"
          "length (arr[w div 2 ^ 8 := arr ! r, r := keyval_clear (arr ! r)]) < 2 ^ 56"
          using len by simp_all
        show "1 \<le> k + 1" by simp
        show "int (u64 (int r - 1)) = int from + int n - int (k + 1)"
          unfolding r' using r False by (simp add: of_nat_diff)
        show "int (u64 (int w - int f)) = 256 * int to - int (k + 1) * int f"
          using w fw by (simp add: w' algebra_simps)
        fix x assume x: "u64 (int r - 1) < x" "x \<le> u64 (int w - int f) div 256"
        have "(w - f) div 256 < w div 256" using f256 fw by (intro div_less_step) simp_all
        then have "(w - f) div 256 < c" by (simp add: c_def)
        then have xc: "x < c" using x(2) w' by simp
        have rl: "r < length arr" using True ct len by simp
        show "keyval_empty (arr[w div 2 ^ 8 := arr ! r, r := keyval_clear (arr ! r)] ! x)"
        proof (cases "x = r")
          case True
          then show ?thesis using rl by simp
        next
          case False
          then show ?thesis using x(1) r' xc free[of x] unfolding c_def by simp
        qed
      qed (rule f)
      then show ?thesis using con by (simp add: unf arr1_def)
    qed
  qed
qed


lemma spread_spec:
  assumes "from < to" "to \<le> length arr" "length arr < 2 ^ 56" "0 < n" "n \<le> to - from"
    and win: "from = 0 \<or> to - from \<le> from"
    and free: "\<And>c. from + n \<le> c \<Longrightarrow> c < to \<Longrightarrow> keyval_empty (arr ! c)"
  shows "\<exists>arr'. spread arr from to n = Some arr' \<and> length arr' = length arr
    \<and> content arr' = content arr"
proof -
  define f where "f = 256 * (to - from) div n"
  have f256: "256 \<le> f"
  proof -
    have "256 = 256 * n div n" using assms(4) by simp
    also have "\<dots> \<le> 256 * (to - from) div n" using assms(5) by (intro div_le_mono) simp
    finally show ?thesis by (simp add: f_def)
  qed
  have "n * f \<le> 256 * (to - from)" unfolding f_def by (simp add: mult.commute)
  moreover have "f \<le> n * f" using assms(4) by simp
  ultimately have ft: "f \<le> 256 * to" by linarith
  have eqs: "u64 (int (to - from) * 2 ^ 8) = 256 * (to - from)"
    "u64 (int from + int n - 1) = from + n - 1" "u64 (int to * 2 ^ 8) = 256 * to"
    using assms by (simp_all add: u64_small)
  have eq4: "u64 (int (256 * to) - int f) = 256 * to - f"
    using ft assms(2,3) by (simp add: u64_small)
  have "\<exists>arr'. spread_loop arr (from + n - 1) (256 * to - f) f = Some arr'
    \<and> length arr' = length arr \<and> content arr' = content arr"
  proof (rule spread_loop_spec[OF f_def assms(4,5,2,3) win, of 1])
    show "int (from + n - 1) = int from + int n - int 1" using assms(4) by simp
    show "int (256 * to - f) = 256 * int to - int 1 * int f" using ft by simp
    fix c assume c: "from + n - 1 < c" "c \<le> (256 * to - f) div 256"
    have "(256 * to - f) div 256 < 256 * to div 256" using f256 ft by (intro div_less_step) simp_all
    then have "(256 * to - f) div 256 < to" by simp
    then show "keyval_empty (arr ! c)" using c free by simp
  qed simp
  then show ?thesis
    unfolding spread_def Let_def eqs f_def[symmetric] eq4 using assms(1,4) by simp
qed


section \<open>The window of a rebalance\<close>

lemma count_range_self [simp]: "count_range arr a a = 0"
  by (simp add: count_range_def)

lemma count_range_split:
  "a \<le> b \<Longrightarrow> b \<le> c \<Longrightarrow> count_range arr a c = count_range arr a b + count_range arr b c"
  unfolding count_range_def by (rule length_filter_range_split)

lemma count_range_Suc:
  "a < length arr \<Longrightarrow> count_range arr a (Suc a) = (if keyval_empty (arr ! a) then 0 else 1)"
  unfolding count_range_def by (simp add: length_filter_range_one)

lemma count_range_le: "count_range arr a b \<le> b - a"
  unfolding count_range_def by (rule length_filter_range_le)

lemma count_left_spec:
  "left < int (length arr) \<Longrightarrow> int ws \<le> left + 1
    \<Longrightarrow> count_left arr left (int ws) occ = (occ + count_range arr ws (nat (left + 1)), int ws - 1)"
proof (induction arr left "int ws" occ rule: count_left.induct)
  case (1 arr left occ)
  show ?case
  proof (cases "int ws \<le> left")
    case False
    then have "left = int ws - 1" using "1.prems" by simp
    then show ?thesis by (simp add: count_left.simps)
  next
    case True
    then have n: "nat (left + 1) = Suc (nat left)" "nat left < length arr" "ws \<le> nat left"
      using "1.prems" by auto
    have "count_range arr ws (Suc (nat left)) = count_range arr ws (nat left)
        + count_range arr (nat left) (Suc (nat left))"
      using n by (intro count_range_split) simp_all
    also have "count_range arr (nat left) (Suc (nat left)) = (if keyval_empty (arr ! nat left) then 0 else 1)"
      using n(2) by (rule count_range_Suc)
    finally have c: "count_range arr ws (nat (left + 1)) = count_range arr ws (nat left)
        + (if keyval_empty (arr ! nat left) then 0 else 1)" by (simp add: n(1))
    have "count_left arr (left - 1) (int ws) (if keyval_empty (arr ! nat left) then occ else occ + 1)
      = ((if keyval_empty (arr ! nat left) then occ else occ + 1) + count_range arr ws (nat (left - 1 + 1)),
         int ws - 1)"
      using True "1.prems" by (intro "1.hyps") simp_all
    then show ?thesis using True c by (subst count_left.simps) auto
  qed
qed

lemma count_right_spec:
  "right \<le> we \<Longrightarrow> we \<le> length arr
    \<Longrightarrow> count_right arr right we occ = (occ + count_range arr right we, we)"
proof (induction arr right we occ rule: count_right.induct)
  case (1 arr right we occ)
  show ?case
  proof (cases "right < we")
    case False
    then show ?thesis using "1.prems" by (simp add: count_right.simps)
  next
    case True
    then have "count_range arr right we = count_range arr right (Suc right) + count_range arr (Suc right) we"
      by (intro count_range_split) simp_all
    also have "count_range arr right (Suc right) = (if keyval_empty (arr ! right) then 0 else 1)"
      using True "1.prems" by (intro count_range_Suc) simp
    finally show ?thesis using True "1.IH" "1.prems" by (subst count_right.simps) auto
  qed
qed

text \<open>Windows of doubled size are aligned, so they nest.\<close>

lemma window_nested:
  fixes i u :: nat
  assumes "0 < u"
  shows "i div (2 * u) * (2 * u) \<le> i div u * u" "i div u * u + u \<le> i div (2 * u) * (2 * u) + 2 * u"
proof -
  define q where "q = i div u"
  have d: "i div (2 * u) = q div 2" by (simp add: div_mult2_eq mult.commute q_def)
  have "q div 2 * 2 \<le> q" by simp
  then have 1: "q div 2 * 2 * u \<le> q * u" by (rule mult_le_mono1)
  have "q + 1 \<le> q div 2 * 2 + 2" by presburger
  then have 2: "(q + 1) * u \<le> (q div 2 * 2 + 2) * u" by (rule mult_le_mono1)
  show "i div (2 * u) * (2 * u) \<le> i div u * u" "i div u * u + u \<le> i div (2 * u) * (2 * u) + 2 * u"
    using 1 2 unfolding d q_def[symmetric] by (simp_all add: algebra_simps)
qed

lemma window_contains: "0 < u \<Longrightarrow> i div u * u \<le> i \<and> i < i div u * u + (u :: nat)"
  using dividend_less_div_times[of u i] by (simp add: add.commute)

lemma window_in_array:
  assumes "0 < u" "u dvd m" "i < m"
  shows "i div u * u + u \<le> (m :: nat)"
proof -
  obtain q where q: "m = u * q" using assms(2) by (rule dvdE)
  then have "i div u < q" using assms by (simp add: div_less_iff_less_mult mult.commute)
  then have "(i div u + 1) * u \<le> q * u" by (intro mult_le_mono1) simp
  then show ?thesis using q by (simp add: algebra_simps)
qed


text \<open>The geometry of the array: a power of two of segments, in an array \<open>int\<close> can index.\<close>

definition geometry :: "pma_t \<Rightarrow> bool" where
  "geometry p \<longleftrightarrow> length (p_array p) = p_m p \<and> 0 < p_s p \<and> 0 < p_h' p
     \<and> p_num_segments p = 2 ^ (p_h' p - 1) \<and> p_m p = p_s p * p_num_segments p
     \<and> p_m p < 2 ^ 31 \<and> 0 \<le> p_delta_t p \<and> 0 \<le> p_delta_p p"

lemma full_window_dense:
  assumes "0 < u" "u < 2 ^ 31" "0 \<le> dt"
  shows "dsub t_0 (dmul (d_of_nat h) dt) \<le> ddiv (d_of_nat u) (d_of_nat u)"
proof -
  have "0 \<le> d_of_nat h" by (simp add: d_of_nat_def rnd_nonneg)
  then have "0 \<le> dmul (d_of_nat h) dt" using assms(3) by (simp add: dmul_def rnd_nonneg)
  then have "dsub t_0 (dmul (d_of_nat h) dt) \<le> 1"
    using rnd_mono[of "1 - dmul (d_of_nat h) dt" 1] by (simp add: dsub_def t_0_def)
  moreover have "ddiv (d_of_nat u) (d_of_nat u) = 1"
    using assms(1,2) by (simp add: ddiv_def d_of_nat_exact)
  ultimately show ?thesis by simp
qed

definition window_ok :: "pma_t \<Rightarrow> nat \<Rightarrow> nat \<times> nat \<times> nat \<times> bool \<Rightarrow> bool" where
  "window_ok p i w = (case w of (ws, we, occ, ok) \<Rightarrow>
     ws \<le> i \<and> i < we \<and> we \<le> length (p_array p) \<and> (ws = 0 \<or> we - ws \<le> ws)
     \<and> occ = count_range (p_array p) ws we \<and> (ok \<longrightarrow> occ < we - ws))"

text \<open>One iteration of the loop: the window at height \<open>h\<close> and what it counts.\<close>

definition window_start_at :: "pma_t \<Rightarrow> nat \<Rightarrow> nat \<Rightarrow> nat" where
  "window_start_at p i h = i div (p_s p * 2 ^ h) * (p_s p * 2 ^ h)"

lemma window_facts:
  assumes g: "geometry p" and i: "i < p_m p" and h: "h < p_h' p"
  defines "u \<equiv> p_s p * 2 ^ h" and "ws \<equiv> window_start_at p i h"
  shows "0 < u" "u < 2 ^ 31" "h < 31" "ws \<le> i" "i < ws + u" "ws + u \<le> length (p_array p)"
    "ws = 0 \<or> u \<le> ws"
proof -
  have len: "length (p_array p) = p_m p" and s0: "0 < p_s p"
    and m: "p_m p = p_s p * 2 ^ (p_h' p - 1)" "p_m p < 2 ^ 31"
    using g by (auto simp: geometry_def)
  show u0: "0 < u" using s0 by (simp add: u_def)
  have um: "u dvd p_m p" unfolding u_def m(1) using h by (simp add: le_imp_power_dvd mult_dvd_mono)
  have "u \<le> p_m p" using um i by (intro dvd_imp_le) simp_all
  then show u31: "u < 2 ^ 31" using m(2) by (rule le_less_trans)
  have "(2::nat) ^ h \<le> u" using s0 by (simp add: u_def)
  then have "(2::nat) ^ h < 2 ^ 31" using u31 by (rule le_less_trans)
  then show "h < 31" by (rule power_less_imp_less_exp[rotated]) simp
  show "ws + u \<le> length (p_array p)"
    unfolding ws_def window_start_at_def len u_def[symmetric] by (rule window_in_array[OF u0 um i])
  show "ws \<le> i" "i < ws + u"
    using window_contains[OF u0, of i] by (simp_all add: ws_def window_start_at_def u_def)
  show "ws = 0 \<or> u \<le> ws"
    unfolding ws_def window_start_at_def u_def[symmetric] by (cases "i div u") auto
qed

lemma window_loop_step:
  assumes g: "geometry p" and i: "i < p_m p" and h: "h < p_h' p"
    and ab: "ws \<le> a" "a \<le> b" "b \<le> ws + u" and occ: "occ = count_range (p_array p) a b"
    and u: "u = p_s p * 2 ^ h" and ws: "ws = window_start_at p i h"
    and occ2: "occ2 = count_range (p_array p) ws (ws + u)"
    and density: "density = ddiv (d_of_nat occ2) (d_of_nat u)"
    and th: "th = dsub t_0 (dmul (d_of_nat h) (p_delta_t p))"
    and ph: "ph = dadd p_0 (dmul (d_of_nat h) (p_delta_p p))"
  shows "window_loop p i h occ (int a - 1) b =
      (if (density < ph \<or> th \<le> density) \<and> h + 1 < p_h' p
       then window_loop p i (h + 1) occ2 (int ws - 1) (ws + u)
       else Some (ws, ws + u, occ2, ph \<le> density \<and> density < th))"
proof -
  note f = window_facts[OF g i h, folded u ws]
  have blen: "b \<le> length (p_array p)" using ab(3) f(6) by simp
  have cl: "count_left (p_array p) (int a - 1) (int ws) occ
      = (occ + count_range (p_array p) ws a, int ws - 1)"
    using count_left_spec[of "int a - 1" "p_array p" ws occ] ab blen by simp
  have cr: "count_right (p_array p) b (ws + u) (occ + count_range (p_array p) ws a)
      = (occ + count_range (p_array p) ws a + count_range (p_array p) b (ws + u), ws + u)"
    by (rule count_right_spec[OF ab(3) f(6)])
  have oc: "occ + count_range (p_array p) ws a + count_range (p_array p) b (ws + u) = occ2"
    using ab count_range_split[of ws a "ws + u" "p_array p"] count_range_split[of a b "ws + u" "p_array p"]
    by (simp add: occ2 occ)
  show ?thesis
    using f by (subst window_loop.simps)
      (simp add: Let_def cl cr oc flip: u ws[unfolded window_start_at_def, folded u] density th ph)
qed

lemma window_loop_spec:
  assumes g: "geometry p" and i: "i < p_m p" and h: "h < p_h' p"
    and ab: "window_start_at p i h \<le> a" "a \<le> b" "b \<le> window_start_at p i h + p_s p * 2 ^ h"
    and occ: "occ = count_range (p_array p) a b"
  shows "\<exists>w. window_loop p i h occ (int a - 1) b = Some w \<and> window_ok p i w"
  using h ab occ
proof (induction "p_h' p - h" arbitrary: h a b occ rule: less_induct)
  case less
  note h = less.prems(1)
  define u where "u = p_s p * 2 ^ h"
  define ws where "ws = window_start_at p i h"
  define occ2 where "occ2 = count_range (p_array p) ws (ws + u)"
  define density where "density = ddiv (d_of_nat occ2) (d_of_nat u)"
  define th where "th = dsub t_0 (dmul (d_of_nat h) (p_delta_t p))"
  define ph where "ph = dadd p_0 (dmul (d_of_nat h) (p_delta_p p))"
  note f = window_facts[OF g i h, folded u_def ws_def]
  note unf = window_loop_step[OF g i h less.prems(2-4)[folded u_def ws_def] less.prems(5) u_def ws_def
      occ2_def density_def th_def ph_def]
  show ?case
  proof (cases "(density < ph \<or> th \<le> density) \<and> h + 1 < p_h' p")
    case False
    have "occ2 < u" if "density < th"
    proof (rule ccontr)
      assume "\<not> occ2 < u"
      then have "occ2 = u" using count_range_le[of "p_array p" ws "ws + u"] by (simp add: occ2_def)
      moreover have "0 \<le> p_delta_t p" using g by (simp add: geometry_def)
      ultimately have "th \<le> density"
        using full_window_dense[OF f(1,2)] by (simp add: density_def th_def)
      then show False using that by simp
    qed
    then show ?thesis using False f by (auto simp: unf window_ok_def occ2_def)
  next
    case True
    have u2: "p_s p * 2 ^ (h + 1) = 2 * u" by (simp add: u_def)
    have wn: "window_start_at p i (h + 1) \<le> ws" "ws + u \<le> window_start_at p i (h + 1) + 2 * u"
      using window_nested[OF f(1), of i] unfolding window_start_at_def u2 ws_def u_def[symmetric]
      by simp_all
    have "\<exists>w. window_loop p i (h + 1) occ2 (int ws - 1) (ws + u) = Some w \<and> window_ok p i w"
    proof (rule less.hyps)
      show "p_h' p - (h + 1) < p_h' p - h" using h by linarith
      show "h + 1 < p_h' p" "ws \<le> ws + u" using True by simp_all
      show "window_start_at p i (h + 1) \<le> ws"
        "ws + u \<le> window_start_at p i (h + 1) + p_s p * 2 ^ (h + 1)"
        unfolding u2 by (rule wn)+
      show "occ2 = count_range (p_array p) ws (ws + u)" by (rule occ2_def)
    qed
    then show ?thesis using True by (simp add: unf)
  qed
qed

text \<open>
  A segment between a quarter full and not full is within the thresholds: an update there
  stays in its segment.
\<close>

lemma window_loop_leaf:
  assumes g: "geometry p" and i: "i < p_m p"
    and oc: "oc = count_range (p_array p) (window_start_at p i 0) (window_start_at p i 0 + p_s p)"
    and b: "p_s p \<le> 4 * oc" "oc < p_s p"
    and occ: "occ = count_range (p_array p) i (i + 1)"
  shows "window_loop p i 0 occ (int i - 1) (i + 1)
    = Some (window_start_at p i 0, window_start_at p i 0 + p_s p, oc, True)"
proof -
  have h: "0 < p_h' p" using g by (simp add: geometry_def)
  have u: "p_s p = p_s p * 2 ^ 0" by simp
  note f = window_facts[OF g i h, simplified]
  have q: "(1 / 4 :: rat) \<le> of_nat oc / of_nat (p_s p)"
  proof -
    have "(of_nat (p_s p) :: rat) \<le> of_nat (4 * oc)" using b(1) by (simp only: of_nat_le_iff)
    then show ?thesis using f(1) by (simp add: field_simps)
  qed
  have t: "rnd (of_nat oc / of_nat (p_s p)) < 1"
  proof -
    let ?x = "of_nat oc / of_nat (p_s p) :: rat"
    have "p_s p < 2 ^ 31" using f(2) by simp
    then have s31: "(of_nat (p_s p) :: rat) < of_nat (2 ^ 31)" by (simp only: of_nat_less_iff)
    have x1: "?x \<le> 1 - 1 / of_nat (p_s p)"
    proof -
      have "(of_nat (oc + 1) :: rat) \<le> of_nat (p_s p)" using b(2) by (simp only: of_nat_le_iff)
      then show ?thesis using f(1) by (simp add: field_simps)
    qed
    have e: "rnd ?x - ?x \<le> ?x / 2 ^ 53" using abs_le_D1[OF rnd_err[of ?x]] by simp
    have x2: "?x / 2 ^ 53 < 1 / 2 ^ 52" using x1 f(1) by (simp add: field_simps)
    have "(1 / 2 ^ 52 :: rat) < 1 / 2 ^ 31" by simp
    also have "\<dots> < 1 / of_nat (p_s p)" using s31 f(1) by (simp add: field_simps)
    finally show ?thesis using e x1 x2 by linarith
  qed
  have dn: "d_of_nat oc = of_nat oc" using b(2) f(2) by (intro d_of_nat_exact) simp
  show ?thesis
    using f t rnd_mono[OF q]
    by (subst window_loop_step[OF g i h _ _ _ occ u refl oc refl refl refl])
      (simp_all add: dn d_of_nat_exact ddiv_def dsub_def dadd_def dmul_def t_0_def p_0_def)
qed

text \<open>An array without elements is below the lower threshold of every window.\<close>

lemma window_loop_none:
  assumes g: "geometry p" and i: "i < p_m p" and h: "h < p_h' p"
    and ab: "window_start_at p i h \<le> a" "a \<le> b" "b \<le> window_start_at p i h + p_s p * 2 ^ h"
    and none: "content (p_array p) = []"
  shows "\<exists>ws we oc. window_loop p i h 0 (int a - 1) b = Some (ws, we, oc, False)"
  using h ab
proof (induction "p_h' p - h" arbitrary: h a b rule: less_induct)
  case less
  note h = less.prems(1)
  have zero: "count_range (p_array p) x y = 0" for x y
  proof -
    have "set (drop x (take y (p_array p))) \<subseteq> set (p_array p)"
      by (meson set_drop_subset set_take_subset subset_trans)
    then show ?thesis using none by (auto simp: count_range_def content_def filter_empty_conv)
  qed
  define u where "u = p_s p * 2 ^ h"
  define ws where "ws = window_start_at p i h"
  define density where "density = ddiv (d_of_nat 0) (d_of_nat u)"
  define th where "th = dsub t_0 (dmul (d_of_nat h) (p_delta_t p))"
  define ph where "ph = dadd p_0 (dmul (d_of_nat h) (p_delta_p p))"
  note f = window_facts[OF g i h, folded u_def ws_def]
  have unf: "window_loop p i h 0 (int a - 1) b =
      (if (density < ph \<or> th \<le> density) \<and> h + 1 < p_h' p
       then window_loop p i (h + 1) 0 (int ws - 1) (ws + u)
       else Some (ws, ws + u, 0, ph \<le> density \<and> density < th))"
    by (rule window_loop_step[OF g i h less.prems(2-4)[folded u_def ws_def] _ u_def ws_def
        _ density_def th_def ph_def]) (simp_all add: zero)
  have "0 \<le> dmul (d_of_nat h) (p_delta_p p)"
    using g by (simp add: dmul_def d_of_nat_def rnd_nonneg geometry_def)
  then have "rnd (1 / 4) \<le> ph" by (simp add: ph_def dadd_def p_0_def rnd_mono)
  moreover have "0 < rnd (1 / 4)" by (simp add: rnd_def rnd_pos_pos)
  ultimately have d: "density < ph" by (simp add: density_def ddiv_def d_of_nat_def)
  show ?case
  proof (cases "h + 1 < p_h' p")
    case False
    then show ?thesis using d by (simp add: unf)
  next
    case True
    have u2: "p_s p * 2 ^ (h + 1) = 2 * u" by (simp add: u_def)
    have wn: "window_start_at p i (h + 1) \<le> ws" "ws + u \<le> window_start_at p i (h + 1) + 2 * u"
      using window_nested[OF f(1), of i] unfolding window_start_at_def u2 ws_def u_def[symmetric]
      by simp_all
    have "\<exists>ws' we' oc'. window_loop p i (h + 1) 0 (int ws - 1) (ws + u) = Some (ws', we', oc', False)"
      using True h wn u2 by (intro less.hyps) simp_all
    then show ?thesis using True d by (simp add: unf)
  qed
qed

section \<open>Capacity and resizing\<close>

text \<open>
  \<open>compute_capacity\<close> succeeds from two elements on: a power of two of segments, each at
  most a quarter full, with the segment size still fitting 8 bits.
\<close>

lemma ceil_lg_bounds:
  assumes "2 \<le> n" "n \<le> 2 ^ 26"
  shows "\<exists>s. ceil_lg n = Some s \<and> 0 < s \<and> s \<le> 26"
proof -
  have u: "u64 (int n - 1) = n - 1"
    using assms by (simp add: u64_small nat_diff_distrib')
  have "0 < bit_len (n - 1)" using assms by (intro bit_len_pos) simp
  moreover have "bit_len (n - 1) \<le> 26" using assms by (intro bit_len_le) simp
  ultimately show ?thesis using assms by (simp add: ceil_lg_def u last_bit_set_def)
qed

lemma hyperceil_bounds:
  assumes "2 \<le> x" "x \<le> 2 ^ 26"
  shows "\<exists>k. hyperceil x = Some (2 ^ k) \<and> 0 < k \<and> k \<le> 26 \<and> x \<le> 2 ^ k \<and> 2 ^ k < 2 * x"
proof -
  have u: "u64 (int x - 1) = x - 1"
    using assms by (simp add: u64_small nat_diff_distrib')
  define k where "k = bit_len (x - 1)"
  have k0: "0 < k" using assms by (simp add: k_def bit_len_pos)
  have k26: "k \<le> 26" unfolding k_def using assms by (intro bit_len_le) simp
  have "x - 1 < 2 ^ k" using bit_len_upper[of "x - 1"] by (simp add: k_def)
  then have lo: "x \<le> 2 ^ k" using assms by simp
  have "2 ^ (k - 1) \<le> x - 1" using bit_len_lower[of "x - 1"] assms by (simp add: k_def)
  moreover have "(2::nat) ^ k = 2 * 2 ^ (k - 1)" using k0 by (metis Suc_diff_1 power_Suc)
  ultimately have hi: "2 ^ k < 2 * x" using assms by simp
  show ?thesis using assms k0 k26 lo hi
    by (simp add: hyperceil_def ceil_lg_def u last_bit_set_def shl_one_def k_def)
qed

lemma compute_capacity_spec:
  assumes n: "2 \<le> n" "n \<le> 2 ^ 26"
  shows "\<exists>s k. compute_capacity n = Some (s, 2 ^ k, s * 2 ^ k) \<and> 0 < s \<and> 0 < k \<and> k \<le> 26
    \<and> 4 * n \<le> s * 2 ^ k \<and> s * 2 ^ k < 2 ^ 31"
proof -
  obtain s1 where s1: "ceil_lg n = Some s1" "0 < s1" "s1 \<le> 26" using ceil_lg_bounds[OF n] by blast
  define x where "x = div_up n s1"
  have "x \<le> n" unfolding x_def using n s1(2) by (intro div_up_least) simp_all
  then have x26: "x \<le> 2 ^ 26" using n(2) by simp
  have x2: "2 \<le> x"
  proof (rule ccontr)
    assume "\<not> 2 \<le> x"
    then have "x = 1" by (simp add: x_def div_up_def)
    then have "n \<le> s1" using div_up_mult_ge[of n s1] n s1(2) by (simp add: x_def)
    moreover have "bit_len (n - 1) < n"
    proof -
      have "bit_len (n - 1) \<le> n - 1" by (intro bit_len_le less_exp)
      then show ?thesis using n by simp
    qed
    moreover have "bit_len (n - 1) = s1"
      using s1(1) n by (auto simp: ceil_lg_def last_bit_set_def u64_small nat_diff_distrib' split: if_splits)
    ultimately show False by simp
  qed
  obtain k where k: "hyperceil x = Some (2 ^ k)" "0 < k" "k \<le> 26" "x \<le> 2 ^ k" "2 ^ k < 2 * x"
    using hyperceil_bounds[OF x2 x26] by blast
  define s2 where "s2 = div_up n (2 ^ k)"
  have s2: "s2 \<le> s1" unfolding s2_def
  proof (rule div_up_least)
    have "n \<le> x * s1" unfolding x_def using n s1(2) by (intro div_up_mult_ge) simp_all
    also have "\<dots> \<le> s1 * 2 ^ k" using k(4) by simp
    finally show "n \<le> s1 * 2 ^ k" .
  qed (use n in simp_all)
  have s20: "0 < s2" by (simp add: s2_def div_up_def)
  have lo: "n \<le> s2 * 2 ^ k" unfolding s2_def using n by (intro div_up_mult_ge) simp_all
  have "s2 * 2 ^ k < n + 2 ^ k" unfolding s2_def using n by (intro div_up_mult_less) simp_all
  then have hi: "s2 * 2 ^ k < 3 * 2 ^ 26" using k(5) \<open>x \<le> n\<close> n(2) by simp
  have cd: "ceil_div n s1 = Some x" "ceil_div n (2 ^ k) = Some s2"
    using n s1(2) by (simp_all add: ceil_div_def x_def s2_def div_up_def)
  have md: "s1 mod 256 = s1" "s2 mod 256 = s2" "4 * s2 mod 256 = 4 * s2" using s1(3) s2 by simp_all
  have "compute_capacity n = Some (4 * s2, 2 ^ k, 4 * s2 * 2 ^ k)"
    using k n lo hi s20
    by (simp add: compute_capacity_def s1(1) md cd max_sparseness_def MAX_SIZE_def)
  then show ?thesis using s20 k lo hi by auto
qed


lemma height_deltas_nonneg: "0 \<le> fst (height_deltas h)" "0 \<le> snd (height_deltas h)"
proof -
  have "0 \<le> d_of_nat h" by (simp add: d_of_nat_def rnd_nonneg)
  moreover have "0 \<le> dsub t_0 t_h" "0 \<le> dsub p_h p_0"
    by (simp_all add: dsub_def rnd_nonneg t_0_def t_h_def p_h_def p_0_def)
  ultimately show "0 \<le> fst (height_deltas h)" "0 \<le> snd (height_deltas h)"
    by (simp_all add: height_deltas_def ddiv_def rnd_nonneg)
qed

lemma content_clear_from:
  "(\<And>c. n \<le> c \<Longrightarrow> c < length arr \<Longrightarrow> keyval_empty (arr ! c)) \<Longrightarrow> n \<le> m
    \<Longrightarrow> content (clear_from (realloc_cells arr m) n) = content arr"
proof -
  assume free: "\<And>c. n \<le> c \<Longrightarrow> c < length arr \<Longrightarrow> keyval_empty (arr ! c)" and nm: "n \<le> m"
  have "filter occupied (drop n (take (length arr) arr)) = []"
    using free by (intro filter_empty_range) simp
  then have arr: "filter occupied arr = filter occupied (take n arr)"
    by (subst filter_take_drop[of _ _ n]) simp
  have t: "filter occupied (take n (realloc_cells arr m)) = filter occupied (take n arr)"
  proof (cases "n \<le> length arr")
    case True
    then show ?thesis using nm by (simp add: realloc_cells_def min_absorb1)
  next
    case False
    then show ?thesis using nm by (simp add: realloc_cells_def filter_empty_conv)
  qed
  show ?thesis
    using arr t by (simp add: content_def clear_from_def filter_empty_conv)
qed

lemma clear_from_free:
  "n \<le> c \<Longrightarrow> c < length arr \<Longrightarrow> keyval_empty (clear_from arr n ! c)"
  by (simp add: clear_from_def nth_append)

lemma length_clear_from [simp]: "length (clear_from arr n) = length arr"
  by (simp add: clear_from_def)

lemma length_realloc_cells [simp]: "length (realloc_cells arr m) = m"
  by (simp add: realloc_cells_def)

lemma resize_spec:
  assumes len: "length (p_array p) = p_m p" and n: "p_n p = length (content (p_array p))"
    and b: "2 \<le> p_n p" "p_n p \<le> 2 ^ 26"
  shows "\<exists>q. resize p = Some q \<and> geometry q \<and> p_n q = p_n p \<and> p_n q < p_m q
    \<and> content (p_array q) = content (p_array p)"
proof -
  have cr: "p_n p = count_range (p_array p) 0 (p_m p)"
    unfolding n using len by (simp add: count_range_def content_def)
  have "0 < p_m p" using b cr count_range_le[of "p_array p" 0 "p_m p"] by simp
  then obtain arr where arr: "pack (p_array p) 0 (p_m p) (p_n p) = Some arr" "length arr = p_m p"
    "content arr = content (p_array p)" "\<And>c. p_n p \<le> c \<Longrightarrow> c < p_m p \<Longrightarrow> keyval_empty (arr ! c)"
    using pack_spec[of 0 "p_m p" "p_array p" "p_n p"] cr len by auto
  obtain s k where cc: "compute_capacity (p_n p) = Some (s, 2 ^ k, s * 2 ^ k)" "0 < s" "0 < k"
    "4 * p_n p \<le> s * 2 ^ k" "s * 2 ^ k < 2 ^ 31"
    using compute_capacity_spec[OF b] by blast
  define m where "m = s * 2 ^ k"
  have fl: "floor_lg (2 ^ k) = Some k" by (simp add: floor_lg_def last_bit_set_def bit_len_power)
  define cells where "cells = clear_from (realloc_cells arr m) (p_n p)"
  have con: "content cells = content (p_array p)"
    unfolding cells_def using arr cc(4) by (subst content_clear_from) (simp_all add: m_def)
  obtain arr2 where arr2: "spread cells 0 m (p_n p) = Some arr2" "length arr2 = m"
    "content arr2 = content cells"
    using spread_spec[of 0 m cells "p_n p"] cc b
    by (auto simp: cells_def m_def clear_from_free)
  obtain dt dp where hd: "height_deltas (k + 1) = (dt, dp)" "0 \<le> dt" "0 \<le> dp"
    using height_deltas_nonneg[of "k + 1"] by (cases "height_deltas (k + 1)") auto
  define q where "q = p\<lparr>p_m := m, p_s := s, p_num_segments := 2 ^ k, p_h' := k + 1,
      p_delta_t := dt, p_delta_p := dp, p_array := arr2\<rparr>"
  have "resize p = Some q"
    using arr(1) cc(1) fl hd(1) arr2(1) by (simp add: resize_def q_def m_def cells_def)
  moreover have "geometry q" using cc arr2 hd by (simp add: geometry_def q_def m_def)
  ultimately show ?thesis using con arr2 cc(4) b by (simp add: q_def m_def)
qed

section \<open>Rebalancing\<close>

lemma rebalance_spec:
  assumes g: "geometry p" and n: "p_n p = length (content (p_array p))"
    and i: "i < p_m p" and occ: "occupied (p_array p ! i)"
    and b: "p_n p < 2 \<longrightarrow> p_s p = 4" "p_n p \<le> 2 ^ 26"
  shows "\<exists>q. rebalance p (int i) = Some q \<and> geometry q \<and> p_n q = p_n p \<and> p_n q < p_m q
    \<and> (p_n p < 2 \<longrightarrow> p_s q = p_s p) \<and> content (p_array q) = content (p_array p)"
proof -
  have len: "length (p_array p) = p_m p" and m31: "p_m p < 2 ^ 31" and h: "0 < p_h' p"
    and s0: "0 < p_s p"
    using g by (auto simp: geometry_def)
  have oc1: "count_range (p_array p) i (i + 1) = 1"
    using count_range_Suc[of i "p_array p"] occ i len by simp
  have "\<exists>w. window_loop p i 0 1 (int i - 1) (i + 1) = Some w \<and> window_ok p i w"
    using window_facts[OF g i h] oc1 by (intro window_loop_spec[OF g i h]) simp_all
  then obtain ws we oc ok where w: "window_loop p i 0 1 (int i - 1) (i + 1) = Some (ws, we, oc, ok)"
    "ws \<le> i" "i < we" "we \<le> p_m p" "ws = 0 \<or> we - ws \<le> ws"
    "oc = count_range (p_array p) ws we" "ok \<longrightarrow> oc < we - ws"
    using len by (auto simp: window_ok_def)
  have oc0: "0 < oc"
  proof -
    have "count_range (p_array p) ws we = count_range (p_array p) ws i
        + (count_range (p_array p) i (Suc i) + count_range (p_array p) (Suc i) we)"
      using w(2,3) by (simp flip: count_range_split)
    then show ?thesis using count_range_Suc[of i "p_array p"] occ i len w(6) by simp
  qed
  have nm: "p_n p < p_m p" if "ok"
  proof -
    have "p_n p = count_range (p_array p) 0 (p_m p)" using n len by (simp add: count_range_def content_def)
    also have "\<dots> = count_range (p_array p) 0 ws + (oc + count_range (p_array p) we (p_m p))"
      using w(2-4,6) by (simp flip: count_range_split)
    also have "\<dots> < ws + ((we - ws) + (p_m p - we))"
      using count_range_le[of "p_array p" 0 ws] count_range_le[of "p_array p" we "p_m p"] w(7) that
      by linarith
    also have "\<dots> = p_m p" using w(2-4) by simp
    finally show ?thesis .
  qed
  have unf: "rebalance p (int i) = (if ok then do {
        arr \<leftarrow> pack (p_array p) ws we oc;
        arr \<leftarrow> spread arr ws we oc;
        Some (p\<lparr>p_array := arr\<rparr>) } else resize p)"
    using i len occ w(1) by (simp add: rebalance_def Let_def nat_add_distrib)
  show ?thesis
  proof (cases ok)
    case True
    obtain arr where arr: "pack (p_array p) ws we oc = Some arr" "length arr = p_m p"
      "content arr = content (p_array p)" "\<And>c. ws + oc \<le> c \<Longrightarrow> c < we \<Longrightarrow> keyval_empty (arr ! c)"
      using pack_spec[of ws we "p_array p" oc] w len by auto
    obtain arr2 where arr2: "spread arr ws we oc = Some arr2" "length arr2 = p_m p"
      "content arr2 = content arr"
      using spread_spec[of ws we arr oc] w arr oc0 True m31 by auto
    have "geometry (p\<lparr>p_array := arr2\<rparr>)" using g arr2(2) by (auto simp: geometry_def)
    then show ?thesis using True unf arr(1,3) arr2 nm by simp
  next
    case False
    have "2 \<le> p_n p"
    proof (rule ccontr)
      assume n2: "\<not> 2 \<le> p_n p"
      let ?w = "window_start_at p i 0"
      have s4: "p_s p = 4" using n2 b(1) by simp
      have wf: "?w \<le> i" "i < ?w + 4" "?w + 4 \<le> p_m p"
        using window_facts[OF g i h] s4 len by simp_all
      have "count_range (p_array p) 0 (p_m p) \<le> 1" using n len n2 by (simp add: count_range_def content_def)
      moreover have "count_range (p_array p) 0 (p_m p) = count_range (p_array p) 0 ?w
          + (count_range (p_array p) ?w (?w + 4) + count_range (p_array p) (?w + 4) (p_m p))"
        using wf by (simp flip: count_range_split)
      moreover have "count_range (p_array p) ?w (?w + 4) = count_range (p_array p) ?w i
          + (count_range (p_array p) i (i + 1) + count_range (p_array p) (i + 1) (?w + 4))"
        using wf by (simp flip: count_range_split)
      ultimately have "count_range (p_array p) ?w (?w + 4) = 1" using oc1 by linarith
      then show False using window_loop_leaf[OF g i _ _ _ oc1[symmetric]] w(1) False s4 by simp
    qed
    then show ?thesis using resize_spec[OF len n] b unf False by auto
  qed
qed


section \<open>Insertion\<close>

lemma length_push_right [simp]: "length (push_right arr j t) = length arr"
  by (induction arr j t rule: push_right.induct) simp_all

lemma push_right_eq:
  "t \<le> j \<Longrightarrow> j < length arr
    \<Longrightarrow> (push_right arr j t)[t := e] = take t arr @ e # drop t (take j arr) @ drop (Suc j) arr"
proof (induction arr j t rule: push_right.induct)
  case (1 arr t)
  then show ?case by (simp add: upd_conv_take_nth_drop)
next
  case (2 arr j t)
  show ?case
  proof (cases "t < Suc j")
    case False
    then have "t = Suc j" using "2.prems" by simp
    then show ?thesis using "2.prems" by (simp add: upd_conv_take_nth_drop)
  next
    case True
    let ?arr = "arr[Suc j := arr ! j]"
    have "(push_right ?arr j t)[t := e] = take t ?arr @ e # drop t (take j ?arr) @ drop (Suc j) ?arr"
      using 2 True by simp
    also have "drop (Suc j) ?arr = arr ! j # drop (Suc (Suc j)) arr"
      using "2.prems" by (simp add: drop_update_swap flip: Cons_nth_drop_Suc)
    also have "drop t (take j ?arr) = drop t (take j arr)" by simp
    also have "take t ?arr = take t arr" using True by simp
    also have "drop t (take (Suc j) arr) = drop t (take j arr) @ [arr ! j]"
      using True "2.prems" by (simp add: take_Suc_conv_app_nth)
    then have "drop t (take j arr) @ arr ! j # drop (Suc (Suc j)) arr
        = drop t (take (Suc j) arr) @ drop (Suc (Suc j)) arr" by simp
    finally show ?thesis using True by simp
  qed
qed

lemma push_left_eq:
  "j \<le> i \<Longrightarrow> i < length arr
    \<Longrightarrow> (push_left arr j i)[i := e] = take j arr @ drop (Suc j) (take (Suc i) arr) @ e # drop (Suc i) arr"
proof (induction arr j i rule: push_left.induct)
  case (1 arr j i)
  show ?case
  proof (cases "j < i")
    case False
    then show ?thesis using "1.prems" by (simp add: push_left.simps upd_conv_take_nth_drop)
  next
    case True
    let ?arr = "arr[j := arr ! (j + 1)]"
    have "(push_left ?arr (j + 1) i)[i := e]
        = take (j + 1) ?arr @ drop (Suc (j + 1)) (take (Suc i) ?arr) @ e # drop (Suc i) ?arr"
      using 1 True by simp
    also have "take (j + 1) ?arr = take j arr @ [arr ! (j + 1)]"
      using True "1.prems" by (simp add: take_Suc_conv_app_nth)
    also have "drop (Suc i) ?arr = drop (Suc i) arr" using True by simp
    also have "drop (Suc (j + 1)) (take (Suc i) ?arr) = drop (Suc (j + 1)) (take (Suc i) arr)"
      by (intro drop_take_cong) simp_all
    also have "drop (Suc j) (take (Suc i) arr) = arr ! (j + 1) # drop (Suc (j + 1)) (take (Suc i) arr)"
      using True "1.prems" by (simp add: Cons_nth_drop_Suc[symmetric])
    then have "(take j arr @ [arr ! (j + 1)]) @ drop (Suc (j + 1)) (take (Suc i) arr) @ e # drop (Suc i) arr
        = take j arr @ drop (Suc j) (take (Suc i) arr) @ e # drop (Suc i) arr" by simp
    finally show ?thesis using True by (simp add: push_left.simps[of arr])
  qed
qed

lemma free_right_spec:
  "j \<le> m \<Longrightarrow> j \<le> free_right arr j m \<and> free_right arr j m \<le> m
    \<and> (free_right arr j m < m \<longrightarrow> keyval_empty (arr ! free_right arr j m))
    \<and> (\<forall>k. j \<le> k \<longrightarrow> k < free_right arr j m \<longrightarrow> occupied (arr ! k))"
proof (induction arr j m rule: free_right.induct)
  case (1 arr j m)
  show ?case
  proof (cases "j < m \<and> occupied (arr ! j)")
    case True
    then have "occupied (arr ! k)" if "j \<le> k" "k < free_right arr (j + 1) m" for k
      using that 1 by (cases "j = k") auto
    then show ?thesis using 1 True by (simp add: free_right.simps[of arr j])
  next
    case False
    then show ?thesis using "1.prems" by (auto simp: free_right.simps[of arr j])
  qed
qed

lemma free_left_spec:
  "- 1 \<le> j \<Longrightarrow> - 1 \<le> free_left arr j \<and> free_left arr j \<le> j
    \<and> (0 \<le> free_left arr j \<longrightarrow> keyval_empty (arr ! nat (free_left arr j)))
    \<and> (\<forall>k. free_left arr j < k \<longrightarrow> k \<le> j \<longrightarrow> occupied (arr ! nat k))"
proof (induction arr j rule: free_left.induct)
  case (1 arr j)
  show ?case
  proof (cases "0 \<le> j \<and> occupied (arr ! nat j)")
    case True
    then have "occupied (arr ! nat k)" if "free_left arr (j - 1) < k" "k \<le> j" for k
      using that 1 by (cases "j = k") auto
    then show ?thesis using 1 True by (simp add: free_left.simps[of arr j])
  next
    case False
    then show ?thesis using "1.prems" by (auto simp: free_left.simps[of arr j])
  qed
qed

text \<open>
  The cell for a new element, right after the predecessor at \<open>i\<close>: elements are pushed to the
  nearest free cell on the right, or else on the left.
\<close>

definition placed :: "pma_t \<Rightarrow> int \<Rightarrow> pma_element_t \<Rightarrow> pma_element_t list \<times> int" where
  "placed p i e =
     (let arr = p_array p; j = free_right arr (nat (i + 1)) (p_m p) in
      if j < p_m p then ((push_right arr j (nat (i + 1)))[nat (i + 1) := e], i + 1)
      else let j = free_left arr (i - 1) in
        if 0 \<le> j then ((push_left arr (nat j) (nat i))[nat i := e], i) else (arr, i))"

lemma placed_spec:
  assumes len: "length (p_array p) = p_m p" and i: "- 1 \<le> i" "i < int (p_m p)"
    and pred: "0 \<le> i \<longrightarrow> occupied (p_array p ! nat i)"
    and room: "length (content (p_array p)) < p_m p" and e: "occupied e"
  shows "\<exists>arr i'. placed p i e = (arr, int i') \<and> length arr = p_m p \<and> i' < p_m p
    \<and> occupied (arr ! i')
    \<and> content arr = content (take (nat (i + 1)) (p_array p)) @ e # content (drop (nat (i + 1)) (p_array p))"
proof -
  define arr where "arr = p_array p"
  define a where "a = nat (i + 1)"
  define j where "j = free_right arr a (p_m p)"
  have a: "a \<le> p_m p" "i + 1 = int a" using i by (simp_all add: a_def)
  note fr = free_right_spec[OF a(1), of arr, folded j_def]
  show ?thesis
  proof (cases "j < p_m p")
    case True
    define arr' where "arr' = take a arr @ e # drop a (take j arr) @ drop (Suc j) arr"
    have pr: "(push_right arr j a)[a := e] = arr'"
      unfolding arr'_def using fr True len by (intro push_right_eq) (simp_all add: arr_def)
    have p: "placed p i e = (arr', int a)"
      using True pr by (simp add: placed_def Let_def a(2) flip: arr_def j_def)
    have len': "length arr' = p_m p"
      using True fr len by (simp add: flip: pr) (simp add: arr_def)
    have "content (drop a arr) = content (drop a (take j arr)) @ content (drop (Suc j) arr)"
      using drop_take_Suc[of a j arr] fr True len by (simp add: content_def arr_def)
    then have con: "content arr' = content (take a arr) @ e # content (drop a arr)"
      using e by (simp add: arr'_def content_def)
    have "arr' ! a = e" using fr True len by (simp add: arr'_def nth_append arr_def)
    then show ?thesis using p len' con e fr True
      by (intro exI[of _ arr'] exI[of _ a]) (simp add: arr_def flip: a_def)
  next
    case nr: False
    then have jm: "j = p_m p" using fr by simp
    have i0: "0 \<le> i"
    proof (rule ccontr)
      assume "\<not> 0 \<le> i"
      then have "a = 0" using i by (simp add: a_def)
      then have "\<forall>x \<in> set arr. occupied x" using fr jm len by (auto simp: in_set_conv_nth arr_def)
      then have "content arr = arr" by (simp add: content_def filter_id_conv)
      then show False using room len by (simp add: arr_def)
    qed
    define l where "l = free_left arr (i - 1)"
    have fl: "- 1 \<le> l" "l \<le> i - 1" "0 \<le> l \<longrightarrow> keyval_empty (arr ! nat l)"
      "\<forall>k. l < k \<longrightarrow> k \<le> i - 1 \<longrightarrow> occupied (arr ! nat k)"
      using free_left_spec[of "i - 1" arr] i0 by (simp_all add: l_def)
    have l0: "0 \<le> l"
    proof (rule ccontr)
      assume l: "\<not> 0 \<le> l"
      have "occupied (arr ! k)" if "k < p_m p" for k
      proof (cases "int k" i rule: linorder_cases)
        case less
        then show ?thesis using fl(4)[rule_format, of "int k"] l by simp
      next
        case equal
        then show ?thesis using pred i0 by (metis arr_def nat_int)
      next
        case greater
        then show ?thesis using fr jm that a by simp
      qed
      then have "\<forall>x \<in> set arr. occupied x" using len by (auto simp: in_set_conv_nth arr_def)
      then have "content arr = arr" by (simp add: content_def filter_id_conv)
      then show False using room len by (simp add: arr_def)
    qed
    define arr' where "arr' = take (nat l) arr @ drop (Suc (nat l)) (take (Suc (nat i)) arr) @ e # drop (Suc (nat i)) arr"
    have il: "nat l \<le> nat i" "nat i < length arr" "a = Suc (nat i)"
      using fl(2) i i0 len by (simp_all add: arr_def a_def nat_add_distrib)
    have pl: "(push_left arr (nat l) (nat i))[nat i := e] = arr'"
      unfolding arr'_def using il(1,2) by (rule push_left_eq)
    have p: "placed p i e = (arr', i)"
      using nr pl l0 by (simp add: placed_def Let_def a(2) flip: arr_def j_def l_def)
    have len': "length arr' = p_m p"
      using il len l0 fl(2) i0 by (simp add: arr'_def arr_def)
    have "take a arr = take (nat l) arr @ arr ! nat l # drop (Suc (nat l)) (take a arr)"
      using il fl(2) l0 i0 id_take_nth_drop[of "nat l" "take a arr"] by (simp add: min_absorb1)
    then have "content (take a arr) = content (take (nat l) arr) @ content (drop (Suc (nat l)) (take a arr))"
      using fl(3) l0 by (metis (no_types, lifting) content_def filter.simps(2) filter_append)
    then have con: "content arr' = content (take a arr) @ e # content (drop a arr)"
      using e il(3) by (simp add: arr'_def content_def)
    have "arr' = (push_left arr (nat l) (nat i))[nat i := e]" by (rule pl[symmetric])
    moreover have "length (push_left arr (nat l) (nat i)) = p_m p" using pl len' by (metis length_list_update)
    ultimately have "arr' ! nat i = e" using il(2) len by (simp add: arr_def)
    then show ?thesis using p len' con e i i0 by (intro exI[of _ arr'] exI[of _ "nat i"]) (simp add: arr_def a_def)
  qed
qed


section \<open>The invariant and the specification of the operations\<close>

definition montes_inv :: "pma_t \<Rightarrow> bool" where
  "montes_inv p \<longleftrightarrow> geometry p \<and> keys_sorted (p_array p) \<and> p_n p = length (content (p_array p))
     \<and> p_n p < p_m p \<and> (p_n p < 2 \<longrightarrow> p_s p = 4)"

definition insert_spec :: "pma_element_t \<Rightarrow> pma_element_t list \<Rightarrow> pma_element_t list" where
  "insert_spec e c = filter (\<lambda>x. e_key x < e_key e) c @ e # filter (\<lambda>x. e_key e < e_key x) c"

lemma sorted_insert_spec:
  "sorted_wrt (\<lambda>x y. e_key x < e_key y) c \<Longrightarrow> sorted_wrt (\<lambda>x y. e_key x < e_key y) (insert_spec e c)"
  by (auto simp: insert_spec_def sorted_wrt_append sorted_wrt_filter)

lemma content_nth:
  "x \<in> set (content arr) \<longleftrightarrow> (\<exists>j < length arr. occupied (arr ! j) \<and> x = arr ! j)"
  by (auto simp: content_def in_set_conv_nth)

lemma pma_find_spec:
  assumes "montes_inv p"
  shows "found_at (p_array p) k (pma_find p k)"
proof -
  have "length (p_array p) = p_m p" "keys_sorted (p_array p)"
    using assms by (simp_all add: montes_inv_def geometry_def)
  then show ?thesis unfolding pma_find_def by (intro find_loop_spec) simp_all
qed

lemma pma_find_absent:
  assumes inv: "montes_inv p" and f: "pma_find p k = (False, i)"
  shows "k \<notin> e_key ` set (content (p_array p))"
    and "\<And>e. e_key e = k \<Longrightarrow>
      content (take (nat (i + 1)) (p_array p)) @ e # content (drop (nat (i + 1)) (p_array p))
        = insert_spec e (content (p_array p))"
proof -
  have fa: "found_at (p_array p) k (False, i)" using pma_find_spec[OF inv, of k] f by simp
  then have lo: "\<forall>j < length (p_array p). occupied (p_array p ! j) \<longrightarrow> int j \<le> i \<longrightarrow> e_key (p_array p ! j) < k"
    and hi: "\<forall>j < length (p_array p). occupied (p_array p ! j) \<longrightarrow> i < int j \<longrightarrow> k < e_key (p_array p ! j)"
    and i: "- 1 \<le> i" by (auto simp: found_at_def)
  show "k \<notin> e_key ` set (content (p_array p))"
  proof
    assume "k \<in> e_key ` set (content (p_array p))"
    then obtain j where "j < length (p_array p)" "occupied (p_array p ! j)" "e_key (p_array p ! j) = k"
      by (auto simp: content_nth)
    then show False using lo hi by (cases "int j \<le> i") auto
  qed
  let ?a = "nat (i + 1)"
  have tk: "\<forall>x \<in> set (content (take ?a (p_array p))). e_key x < k"
    using lo i by (auto simp: content_nth)
  have dr: "\<forall>x \<in> set (content (drop ?a (p_array p))). k < e_key x"
    using hi i by (auto simp: content_nth)
  have split: "content (p_array p) = content (take ?a (p_array p)) @ content (drop ?a (p_array p))"
    unfolding content_def by (rule filter_take_drop)
  fix e :: pma_element_t assume e: "e_key e = k"
  have "filter (\<lambda>x. e_key x < k) (content (p_array p)) = content (take ?a (p_array p))"
    "filter (\<lambda>x. k < e_key x) (content (p_array p)) = content (drop ?a (p_array p))"
    using tk dr unfolding split by (auto simp: filter_id_conv filter_empty_conv dest!: bspec)
  then show "content (take ?a (p_array p)) @ e # content (drop ?a (p_array p))
      = insert_spec e (content (p_array p))" using e by (simp add: insert_spec_def)
qed

lemma pma_insert_after_placed:
  assumes "- 1 \<le> i" "i < int (p_m p)" "placed p i \<lparr>e_key = k, e_val = v\<rparr> = (arr, i')"
  shows "pma_insert_after p i k v = rebalance (p\<lparr>p_n := p_n p + 1, p_array := arr\<rparr>) i'"
  using assms unfolding pma_insert_after_def placed_def Let_def by (auto split: if_splits)

lemma pma_insert_absent:
  assumes inv: "montes_inv p" and f: "pma_find p k = (False, i)" and k: "k \<noteq> - 1"
    and b: "p_n p < 2 ^ 26"
    and e_def: "e = \<lparr>e_key = k, e_val = v\<rparr>"
  shows "\<exists>q. pma_insert_after p i k v = Some q \<and> montes_inv q \<and> p_n q = p_n p + 1
    \<and> content (p_array q) = insert_spec e (content (p_array p))"
proof -
  have g: "geometry p" and len: "length (p_array p) = p_m p" and srt: "keys_sorted (p_array p)"
    and n: "p_n p = length (content (p_array p))" and nm: "p_n p < p_m p"
    and s4: "p_n p < 2 \<longrightarrow> p_s p = 4"
    using inv by (auto simp: montes_inv_def geometry_def)
  have fa: "found_at (p_array p) k (False, i)" using pma_find_spec[OF inv, of k] f by simp
  have i: "- 1 \<le> i" "i < int (p_m p)" "0 \<le> i \<longrightarrow> occupied (p_array p ! nat i)"
    using fa len by (auto simp: found_at_def)
  have e: "occupied e" using k by (simp add: e_def keyval_empty_def)
  obtain arr i' where pl: "placed p i e = (arr, int i')" "length arr = p_m p" "i' < p_m p"
    "occupied (arr ! i')"
    "content arr = content (take (nat (i + 1)) (p_array p)) @ e # content (drop (nat (i + 1)) (p_array p))"
    using placed_spec[OF len i _ e] nm n by auto
  have con: "content arr = insert_spec e (content (p_array p))"
    using pl(5) pma_find_absent(2)[OF inv f, of e] by (simp add: e_def)
  have lc: "length (content arr) = p_n p + 1"
  proof -
    have "length (content (take (nat (i + 1)) (p_array p))) + length (content (drop (nat (i + 1)) (p_array p)))
        = length (content (p_array p))"
      unfolding content_def by (subst (3) filter_take_drop[of _ _ "nat (i + 1)"]) simp
    then show ?thesis using pl(5) n by simp
  qed
  define p1 where "p1 = p\<lparr>p_n := p_n p + 1, p_array := arr\<rparr>"
  have g1: "geometry p1" using g pl(2) by (auto simp: p1_def geometry_def)
  obtain q where q: "rebalance p1 (int i') = Some q" "geometry q" "p_n q = p_n p1" "p_n q < p_m q"
    "p_n p1 < 2 \<longrightarrow> p_s q = p_s p1" "content (p_array q) = content arr"
    using rebalance_spec[OF g1, of i'] pl(3,4) lc s4 b by (auto simp: p1_def)
  have "pma_insert_after p i k v = Some q"
    using pma_insert_after_placed[OF i(1,2) pl(1)[unfolded e_def]] q(1) by (simp add: p1_def)
  moreover have "keys_sorted (p_array q)"
    using srt sorted_insert_spec q(6) con by (simp add: keys_sorted_def)
  ultimately show ?thesis using q con lc s4 by (auto simp: montes_inv_def p1_def)
qed

end
