(* ===== verification/Interface.thy ===== *)
theory Interface
  imports Prelude "HOL-Library.Monad_Syntax"
begin

text \<open>
  The interface every data structure of the repository offers to the experiments
  (\<open>pma/interface.hpp\<close>), as a locale: an ordered list of key/value pairs behind \<open>insert\<close>,
  \<open>find\<close> and \<open>size\<close>. The client is the insertion loop of the experiment
  \<open>insert_lookup\<close> (\<open>pma/experiments/insert_lookup.cpp\<close>); its correctness is proved once,
  over the laws of the interface.
\<close>

section \<open>Data\<close>

text \<open>The result of a range query, \<open>Interface::SumResult\<close>. The sums are kept in 64 bits.\<close>

record SumResult =
  m_first_key :: int
  m_last_key :: int
  m_num_elements :: nat
  m_sum_keys :: int
  m_sum_values :: int

definition INT64_MIN :: int where "INT64_MIN = - (2 ^ 63)"
definition INT64_MAX :: int where "INT64_MAX = 2 ^ 63 - 1"

text \<open>The pairs of an ordered container in the closed range \<open>[min, max]\<close>.\<close>

definition in_range :: "int \<Rightarrow> int \<Rightarrow> (int \<times> int) list \<Rightarrow> (int \<times> int) list" where
  "in_range mn mx xs = filter (\<lambda>(k, v). mn \<le> k \<and> k \<le> mx) xs"

definition empty_sum :: SumResult where
  "empty_sum = \<lparr>m_first_key = 0, m_last_key = 0, m_num_elements = 0, m_sum_keys = 0, m_sum_values = 0\<rparr>"

text \<open>The aggregate of a list of pairs: the sums as \<open>int64_t\<close> in two's complement, exact when they fit
  (\<open>s64_id\<close>).\<close>

definition range_sum :: "(int \<times> int) list \<Rightarrow> SumResult" where
  "range_sum xs = (if xs = [] then empty_sum else
     \<lparr>m_first_key = fst (hd xs), m_last_key = fst (last xs), m_num_elements = length xs,
      m_sum_keys = s64 (sum_list (map fst xs)), m_sum_values = s64 (sum_list (map snd xs))\<rparr>)"

section \<open>The insertion loop of the experiments\<close>

text \<open>\<open>for i < N_inserts: pma->insert(distribution->get(i))\<close>; \<open>None\<close> is a failed insertion.\<close>

fun do_inserts :: "('s \<Rightarrow> int \<Rightarrow> int \<Rightarrow> 's option) \<Rightarrow> 's \<Rightarrow> (int \<times> int) list \<Rightarrow> 's option" where
  "do_inserts ins s [] = Some s"
| "do_inserts ins s ((k, v) # ps) = do { s' \<leftarrow> ins s k v; do_inserts ins s' ps }"

section \<open>The interface\<close>

locale pma_interface =
  fixes inv :: "'s \<Rightarrow> bool"
    and elems :: "'s \<Rightarrow> (int \<times> int) list"
    and ins :: "'s \<Rightarrow> int \<Rightarrow> int \<Rightarrow> 's option"
    and fnd :: "'s \<Rightarrow> int \<Rightarrow> int"
    and sz :: "'s \<Rightarrow> nat"
    and valid_key :: "int \<Rightarrow> bool"
    and limit :: nat
  assumes elems_sorted: "inv s \<Longrightarrow> sorted (map fst (elems s))"
    and insert_fresh: "inv s \<Longrightarrow> valid_key k \<Longrightarrow> k \<notin> fst ` set (elems s) \<Longrightarrow> length (elems s) < limit
      \<Longrightarrow> \<exists>s'. ins s k v = Some s' \<and> inv s' \<and> mset (elems s') = add_mset (k, v) (mset (elems s))"
    and find_elems: "inv s \<Longrightarrow> distinct (map fst (elems s))
      \<Longrightarrow> fnd s k = (case map_of (elems s) k of None \<Rightarrow> - 1 | Some v \<Rightarrow> v)"
    and size_elems: "inv s \<Longrightarrow> sz s = length (elems s)"
begin

text \<open>Inserting a batch of fresh keys adds exactly these pairs.\<close>

lemma do_inserts_elems:
  assumes "inv s" "distinct (map fst ps)" "\<forall>p \<in> set ps. valid_key (fst p)"
    and "fst ` set ps \<inter> fst ` set (elems s) = {}"
    and "length (elems s) + length ps \<le> limit"
  shows "\<exists>s'. do_inserts ins s ps = Some s' \<and> inv s' \<and> mset (elems s') = mset (elems s) + mset ps"
  using assms
proof (induction ps arbitrary: s)
  case Nil
  then show ?case by simp
next
  case (Cons p ps)
  obtain k v where p: "p = (k, v)" by (cases p)
  obtain s1 where s1: "ins s k v = Some s1" "inv s1"
    "mset (elems s1) = add_mset (k, v) (mset (elems s))"
    using insert_fresh[of s k v] Cons.prems p by auto
  have set1: "set (elems s1) = Set.insert (k, v) (set (elems s))"
    by (metis s1(3) set_mset_add_mset_insert set_mset_mset)
  have len1: "length (elems s1) = Suc (length (elems s))"
    by (metis s1(3) size_add_mset size_mset)
  have "\<exists>s'. do_inserts ins s1 ps = Some s' \<and> inv s' \<and> mset (elems s') = mset (elems s1) + mset ps"
    using Cons.prems s1(2) p by (intro Cons.IH) (auto simp: set1 len1)
  then show ?case using s1 p by simp
qed

lemma elems_distinct_of_mset:
  "mset (elems s) = mset ps \<Longrightarrow> distinct (map fst ps) \<Longrightarrow> distinct (map fst (elems s))"
  by (metis mset_eq_imp_distinct_iff mset_map)

text \<open>
  From an empty container: the batch is stored in key order, its size is the number of
  insertions, and a lookup returns the value of the key, or \<open>-1\<close>.
\<close>

lemma do_inserts_from_empty:
  assumes "inv s" "elems s = []" "distinct (map fst ps)" "\<forall>p \<in> set ps. valid_key (fst p)"
    and "length ps \<le> limit"
  shows "\<exists>s'. do_inserts ins s ps = Some s' \<and> inv s' \<and> elems s' = sort_key fst ps
    \<and> sz s' = length ps \<and> (\<forall>k. fnd s' k = (case map_of ps k of None \<Rightarrow> - 1 | Some v \<Rightarrow> v))"
proof -
  obtain s' where s': "do_inserts ins s ps = Some s'" "inv s'" "mset (elems s') = mset ps"
    using do_inserts_elems[of s ps] assms by auto
  have d: "distinct (map fst (elems s'))" by (rule elems_distinct_of_mset[OF s'(3) assms(3)])
  have "elems s' = sort_key fst ps"
  proof (rule properties_for_sort_key[symmetric])
    show "mset (elems s') = mset ps" by (rule s'(3))
    show "sorted (map fst (elems s'))" by (rule elems_sorted[OF s'(2)])
    show "\<And>k. k \<in> set (elems s') \<Longrightarrow> filter (\<lambda>x. fst k = fst x) (elems s') = filter (\<lambda>x. fst k = fst x) ps"
    proof -
      fix k assume "k \<in> set (elems s')"
      have eq: "filter (\<lambda>x. fst k = fst x) xs = [k]" if "k \<in> set xs" "distinct (map fst xs)" for xs :: "(int \<times> int) list"
        using that by (induction xs) (auto simp: filter_empty_conv image_iff)
      then show "filter (\<lambda>x. fst k = fst x) (elems s') = filter (\<lambda>x. fst k = fst x) ps"
        using \<open>k \<in> set (elems s')\<close> d assms(3) s'(3) by (metis mset_eq_setD)
    qed
  qed
  moreover have "map_of (elems s') = map_of ps"
    using d assms(3) s'(3) by (metis map_of_eqI map_of_inject_set mset_eq_setD)
  moreover have "length (elems s') = length ps" using s'(3) by (metis size_mset)
  ultimately show ?thesis using s' d by (simp add: find_elems size_elems)
qed

end

end
