(* ===== verification/Montes_Wrapper.thy ===== *)
theory Montes_Wrapper
  imports Montes_Proofs Interface
begin

text \<open>
  The class \<open>PMA_Montes\<close> of \<open>pma/external.cpp\<close>: the interface of the repository on top of
  the C array, with its range sum and its iterator. A result \<open>None\<close> is a failed assertion
  or, for the loops of \<open>sum\<close>, a run that does not end.
\<close>

section \<open>Insertion, lookup, size\<close>

definition PMA_Montes_insert :: "pma_t \<Rightarrow> int \<Rightarrow> int \<Rightarrow> pma_t option" where
  "PMA_Montes_insert p key value = do { (_, p') \<leftarrow> pma_insert p key value; Some p' }"

definition PMA_Montes_find :: "pma_t \<Rightarrow> int \<Rightarrow> int" where
  "PMA_Montes_find p key =
     (let (result, index) = pma_find p key in
      if result then (case pma_get p index of Some e \<Rightarrow> e_val e | None \<Rightarrow> - 1) else - 1)"

definition PMA_Montes_size :: "pma_t \<Rightarrow> nat" where
  "PMA_Montes_size p = pma_count p"

section \<open>Range queries\<close>

definition find_interval :: "pma_t \<Rightarrow> int \<Rightarrow> int \<Rightarrow> int \<times> int" where
  "find_interval p mn mx =
     (let (found, start) = pma_find p mn;
          start = (if start = - 1 then 0 else if \<not> found then start + 1 else start);
          (found, end') = pma_find p mx;
          end' = (if end' = - 1 then 0 else end' + 1)
      in (start, end'))"

text \<open>
  The two loops that look for the first and the last element run while the key is still
  the marker \<open>INT64_MIN\<close>; an element with that key keeps them running.
\<close>

partial_function (option) sum_first :: "pma_t \<Rightarrow> int \<Rightarrow> int \<Rightarrow> int \<Rightarrow> (int \<times> int) option" where
  [code]: "sum_first p first start end' =
     (if first = INT64_MIN \<and> start < end' then
        (case pma_get p start of None \<Rightarrow> None
         | Some e \<Rightarrow> if \<not> keyval_empty e then sum_first p (e_key e) start end'
                     else sum_first p first (start + 1) end')
      else Some (first, start))"

partial_function (option) sum_last :: "pma_t \<Rightarrow> int \<Rightarrow> int \<Rightarrow> int \<Rightarrow> (int \<times> int) option" where
  [code]: "sum_last p lst start end' =
     (if lst = INT64_MIN \<and> start < end' then
        (case pma_get p (end' - 1) of None \<Rightarrow> None
         | Some e \<Rightarrow> if \<not> keyval_empty e then sum_last p (e_key e) start end'
                     else sum_last p lst start (end' - 1))
      else Some (lst, end'))"

fun sum_loop :: "pma_element_t list \<Rightarrow> SumResult \<Rightarrow> SumResult" where
  "sum_loop [] s = s"
| "sum_loop (e # es) s =
     sum_loop es (if \<not> keyval_empty e
       then s\<lparr>m_sum_keys := s64 (m_sum_keys s + e_key e), m_sum_values := s64 (m_sum_values s + e_val e),
              m_num_elements := m_num_elements s + 1\<rparr> else s)"

definition PMA_Montes_sum :: "pma_t \<Rightarrow> int \<Rightarrow> int \<Rightarrow> SumResult option" where
  "PMA_Montes_sum p mn mx =
     (let (start, end') = find_interval p mn mx in do {
        (first, start) \<leftarrow> sum_first p INT64_MIN start end';
        (lst, end') \<leftarrow> sum_last p INT64_MIN start end';
        if int (length (p_array p)) < end' then None
        else Some (sum_loop (drop (nat start) (take (nat end') (p_array p)))
          \<lparr>m_first_key = first, m_last_key = lst, m_num_elements = 0,
           m_sum_keys = 0, m_sum_values = 0\<rparr>) })"

section \<open>The iterator\<close>

record montes_iterator =
  m_position :: nat
  m_end :: nat

function iter_move :: "pma_element_t list \<Rightarrow> montes_iterator \<Rightarrow> montes_iterator" where
  "iter_move arr it =
     (if m_position it < m_end it \<and> keyval_empty (arr ! m_position it)
      then iter_move arr (it\<lparr>m_position := m_position it + 1\<rparr>) else it)"
  by pat_completeness auto
termination
  by (relation "measure (\<lambda>(arr, it). m_end it - m_position it)") auto

declare iter_move.simps [simp del]

definition iter_new :: "pma_t \<Rightarrow> int \<Rightarrow> int \<Rightarrow> montes_iterator option" where
  "iter_new p begin' end' =
     (if 0 \<le> begin' \<and> end' \<le> int (pma_capacity p)
      then Some (iter_move (p_array p) \<lparr>m_position = nat begin', m_end = nat end'\<rparr>) else None)"

definition iter_hasNext :: "montes_iterator \<Rightarrow> bool" where
  "iter_hasNext it \<longleftrightarrow> m_position it < m_end it"

definition iter_next :: "pma_element_t list \<Rightarrow> montes_iterator \<Rightarrow> ((int \<times> int) \<times> montes_iterator) option" where
  "iter_next arr it =
     (if m_position it < m_end it \<and> \<not> keyval_empty (arr ! m_position it)
      then let e = arr ! m_position it in
        Some ((e_key e, e_val e), iter_move arr (it\<lparr>m_position := m_position it + 1\<rparr>))
      else None)"

text \<open>A client that drains the iterator: \<open>while (it->hasNext()) it->next()\<close>.\<close>

fun iter_drain :: "nat \<Rightarrow> pma_element_t list \<Rightarrow> montes_iterator \<Rightarrow> (int \<times> int) list option" where
  "iter_drain 0 arr it = None"
| "iter_drain (Suc fuel) arr it =
     (if iter_hasNext it then
        (case iter_next arr it of None \<Rightarrow> None
         | Some (kv, it') \<Rightarrow> map_option ((#) kv) (iter_drain fuel arr it'))
      else Some [])"

definition find_range :: "pma_t \<Rightarrow> int \<Rightarrow> int \<Rightarrow> montes_iterator option" where
  "find_range p mn mx = (let (b, e) = find_interval p mn mx in iter_new p b e)"

section \<open>Proofs: the interval of a range\<close>

definition pair_of :: "pma_element_t \<Rightarrow> int \<times> int" where
  "pair_of e = (e_key e, e_val e)"

definition montes_elems :: "pma_t \<Rightarrow> (int \<times> int) list" where
  "montes_elems p = map pair_of (content (p_array p))"

lemma filter_middle:
  assumes "s \<le> e" "e \<le> length xs"
    and "\<forall>j < length xs. P (xs ! j) \<longrightarrow> (Q (xs ! j) \<longleftrightarrow> s \<le> j \<and> j < e)"
  shows "filter (\<lambda>x. P x \<and> Q x) xs = filter P (drop s (take e xs))"
proof -
  have xs: "xs = take s xs @ drop s (take e xs) @ drop e xs"
    by (metis append.assoc append_take_drop_id assms(1) min.absorb1 take_take)
  have 1: "filter (\<lambda>x. P x \<and> Q x) (take s xs) = []"
    using assms by (auto simp: filter_empty_conv in_set_conv_nth)
  have 3: "filter (\<lambda>x. P x \<and> Q x) (drop e xs) = []"
    using assms by (auto simp: filter_empty_conv in_set_conv_nth)
  have 2: "filter (\<lambda>x. P x \<and> Q x) (drop s (take e xs)) = filter P (drop s (take e xs))"
  proof (rule filter_cong[OF refl])
    fix x assume "x \<in> set (drop s (take e xs))"
    then obtain i where i: "i < length (drop s (take e xs))" "x = drop s (take e xs) ! i"
      by (metis in_set_conv_nth)
    then have "s + i < e" "s + i < length xs" and a: "s \<le> length (take e xs)" by auto
    moreover have "x = xs ! (s + i)" using i(2) calculation by (simp add: nth_drop[OF a])
    ultimately show "(P x \<and> Q x) = P x" using assms(3) by auto
  qed
  show ?thesis by (subst xs) (simp add: 1 2 3)
qed

text \<open>The interval holds exactly the elements of the range.\<close>

lemma find_interval_spec:
  assumes inv: "montes_inv p"
  shows "\<exists>s e. find_interval p mn mx = (int s, int e) \<and> s \<le> length (p_array p)
    \<and> e \<le> length (p_array p)
    \<and> (\<forall>j < length (p_array p). occupied (p_array p ! j)
        \<longrightarrow> ((mn \<le> e_key (p_array p ! j) \<and> e_key (p_array p ! j) \<le> mx) \<longleftrightarrow> s \<le> j \<and> j < e))"
proof -
  let ?arr = "p_array p"
  have srt: "keys_sorted ?arr" using inv by (simp add: montes_inv_def)
  obtain f1 i1 where f1: "pma_find p mn = (f1, i1)" by force
  obtain f2 i2 where f2: "pma_find p mx = (f2, i2)" by force
  have a1: "found_at ?arr mn (f1, i1)" and a2: "found_at ?arr mx (f2, i2)"
    using pma_find_spec[OF inv, of mn] pma_find_spec[OF inv, of mx] f1 f2 by simp_all
  define s where "s = (if i1 = - 1 then 0 else if \<not> f1 then i1 + 1 else i1)"
  define e where "e = (if i2 = - 1 then 0 else i2 + 1)"
  have s: "0 \<le> s" "s \<le> int (length ?arr)" using a1 by (auto simp: s_def found_at_def split: bool.splits)
  have e: "0 \<le> e" "e \<le> int (length ?arr)" using a2 by (auto simp: e_def found_at_def split: bool.splits)
  have lo: "mn \<le> e_key (?arr ! j) \<longleftrightarrow> s \<le> int j" if j: "j < length ?arr" "occupied (?arr ! j)" for j
  proof (cases f1)
    case True
    then obtain a where a: "i1 = int a" "a < length ?arr" "occupied (?arr ! a)" "e_key (?arr ! a) = mn"
      using a1 by (auto simp: found_at_def dest!: zero_le_imp_eq_int)
    have "s = int a" using True a(1) by (simp add: s_def)
    moreover have "a < j \<Longrightarrow> mn < e_key (?arr ! j)" "j < a \<Longrightarrow> e_key (?arr ! j) < mn"
      using keys_sorted_nth[OF srt] a j by metis+
    ultimately show ?thesis using a(4) by (cases j a rule: linorder_cases) auto
  next
    case False
    then have "s = i1 + 1" by (simp add: s_def)
    moreover have "int j \<le> i1 \<Longrightarrow> e_key (?arr ! j) < mn" "i1 < int j \<Longrightarrow> mn < e_key (?arr ! j)"
      using a1 False j by (simp_all add: found_at_def)
    ultimately show ?thesis by (cases "int j \<le> i1") auto
  qed
  have hi: "e_key (?arr ! j) \<le> mx \<longleftrightarrow> int j < e" if j: "j < length ?arr" "occupied (?arr ! j)" for j
  proof (cases f2)
    case True
    then obtain a where a: "i2 = int a" "a < length ?arr" "occupied (?arr ! a)" "e_key (?arr ! a) = mx"
      using a2 by (auto simp: found_at_def dest!: zero_le_imp_eq_int)
    have "e = int a + 1" using a(1) by (simp add: e_def)
    moreover have "a < j \<Longrightarrow> mx < e_key (?arr ! j)" "j < a \<Longrightarrow> e_key (?arr ! j) < mx"
      using keys_sorted_nth[OF srt] a j by metis+
    ultimately show ?thesis using a(4) by (cases j a rule: linorder_cases) auto
  next
    case False
    then have "e = i2 + 1" by (simp add: e_def)
    moreover have "int j \<le> i2 \<Longrightarrow> e_key (?arr ! j) < mx" "i2 < int j \<Longrightarrow> mx < e_key (?arr ! j)"
      using a2 False j by (simp_all add: found_at_def)
    ultimately show ?thesis by (cases "int j \<le> i2") auto
  qed
  have "find_interval p mn mx = (int (nat s), int (nat e))"
    using f1 f2 s(1) e(1) by (simp add: find_interval_def Let_def s_def e_def)
  then show ?thesis using s e lo hi by (intro exI[of _ "nat s"] exI[of _ "nat e"]) auto
qed

text \<open>The elements of the cells \<open>s \<dots> e - 1\<close>; the pairs of the range, read off the interval.\<close>

abbreviation cells :: "pma_t \<Rightarrow> nat \<Rightarrow> nat \<Rightarrow> pma_element_t list" where
  "cells p s e \<equiv> content (drop s (take e (p_array p)))"

lemma content_Nil [simp]: "content [] = []"
  by (simp add: content_def)

lemma cells_out [simp]: "e \<le> s \<Longrightarrow> cells p s e = []"
  by (simp add: content_def)

lemma cells_first:
  assumes "s < e" "e \<le> length (p_array p)"
  shows "cells p s e = (if keyval_empty (p_array p ! s) then [] else [p_array p ! s]) @ cells p (Suc s) e"
  using assms by (simp add: content_def Cons_nth_drop_Suc[symmetric, of s "take e (p_array p)"])

lemma cells_last:
  assumes "s < e" "e \<le> length (p_array p)"
  shows "cells p s e = cells p s (e - 1) @ (if keyval_empty (p_array p ! (e - 1)) then [] else [p_array p ! (e - 1)])"
proof -
  have "take e (p_array p) = take (e - 1) (p_array p) @ [p_array p ! (e - 1)]"
    using assms take_Suc_conv_app_nth[of "e - 1" "p_array p"] by simp
  then show ?thesis using assms by (simp add: content_def)
qed

lemma in_range_cells:
  assumes inv: "montes_inv p"
  shows "\<exists>s e. find_interval p mn mx = (int s, int e) \<and> s \<le> length (p_array p)
    \<and> e \<le> length (p_array p) \<and> in_range mn mx (montes_elems p) = map pair_of (cells p s e)"
proof -
  let ?Q = "\<lambda>x. mn \<le> e_key x \<and> e_key x \<le> mx"
  obtain s e where se: "find_interval p mn mx = (int s, int e)" "s \<le> length (p_array p)"
    "e \<le> length (p_array p)"
    and ex: "\<forall>j < length (p_array p). occupied (p_array p ! j) \<longrightarrow> (?Q (p_array p ! j) \<longleftrightarrow> s \<le> j \<and> j < e)"
    using find_interval_spec[OF inv, of mn mx] by blast
  have "filter (\<lambda>x. occupied x \<and> ?Q x) (p_array p) = cells p s e"
  proof (cases "s \<le> e")
    case True
    show ?thesis unfolding content_def by (rule filter_middle[OF True se(3) ex])
  next
    case False
    then have "\<not> (occupied x \<and> ?Q x)" if "x \<in> set (p_array p)" for x
      using that ex by (auto simp: in_set_conv_nth)
    then have "filter (\<lambda>x. occupied x \<and> ?Q x) (p_array p) = []" by (simp add: filter_empty_conv)
    with False show ?thesis by simp
  qed
  then have "in_range mn mx (montes_elems p) = map pair_of (cells p s e)"
    by (simp add: in_range_def montes_elems_def filter_map comp_def pair_of_def content_def conj_commute)
  with se show ?thesis by blast
qed

section \<open>Proofs: the range sum\<close>

lemma sum_loop_content:
  "sum_loop es s = s\<lparr>m_sum_keys := sum64 (m_sum_keys s) (map e_key (content es)),
     m_sum_values := sum64 (m_sum_values s) (map e_val (content es)),
     m_num_elements := m_num_elements s + length (content es)\<rparr>"
  by (induction es arbitrary: s) (simp_all add: content_def)

lemma pma_get_cell: "length (p_array p) = p_m p \<Longrightarrow> j < p_m p \<Longrightarrow> pma_get p (int j) = Some (p_array p ! j)"
  by (simp add: pma_get_def)

lemma sum_first_spec:
  assumes "length (p_array p) = p_m p" "e \<le> p_m p" "\<forall>x \<in> set (cells p s e). e_key x \<noteq> INT64_MIN"
  shows "\<exists>s'. sum_first p INT64_MIN (int s) (int e)
      = Some (case cells p s e of [] \<Rightarrow> INT64_MIN | x # _ \<Rightarrow> e_key x, int s')
    \<and> cells p s' e = cells p s e"
  using assms
proof (induction "e - s" arbitrary: s)
  case 0
  then show ?case by (intro exI[of _ s]) (simp add: sum_first.simps)
next
  case (Suc d)
  then have se: "s < e" by simp
  have get: "pma_get p (int s) = Some (p_array p ! s)" using Suc.prems se by (simp add: pma_get_cell)
  have first: "cells p s e = (if keyval_empty (p_array p ! s) then [] else [p_array p ! s]) @ cells p (Suc s) e"
    using se Suc.prems by (intro cells_first) simp_all
  show ?case
  proof (cases "keyval_empty (p_array p ! s)")
    case True
    obtain s' where "sum_first p INT64_MIN (int (Suc s)) (int e)
        = Some (case cells p (Suc s) e of [] \<Rightarrow> INT64_MIN | x # _ \<Rightarrow> e_key x, int s')"
      "cells p s' e = cells p (Suc s) e"
    proof -
      have "d = e - Suc s" using Suc.hyps(2) by simp
      moreover have "\<forall>x \<in> set (cells p (Suc s) e). e_key x \<noteq> INT64_MIN" using Suc.prems(3) first True by simp
      ultimately show ?thesis using Suc.hyps(1)[of "Suc s"] Suc.prems that by blast
    qed
    moreover have "sum_first p INT64_MIN (int s) (int e) = sum_first p INT64_MIN (int (Suc s)) (int e)"
      using se get True by (subst sum_first.simps) (simp add: add.commute)
    ultimately show ?thesis using first True by (intro exI[of _ s']) simp
  next
    case False
    then have "e_key (p_array p ! s) \<noteq> INT64_MIN" using Suc.prems(3) first by simp
    then have "sum_first p (e_key (p_array p ! s)) (int s) (int e) = Some (e_key (p_array p ! s), int s)"
      by (subst sum_first.simps) simp
    then show ?thesis using se get first False
      by (intro exI[of _ s]) (subst sum_first.simps, simp)
  qed
qed

lemma sum_last_spec:
  assumes "length (p_array p) = p_m p" "e \<le> p_m p" "\<forall>x \<in> set (cells p s e). e_key x \<noteq> INT64_MIN"
  shows "\<exists>e'. sum_last p INT64_MIN (int s) (int e)
      = Some (if cells p s e = [] then INT64_MIN else e_key (last (cells p s e)), int e')
    \<and> e' \<le> e \<and> cells p s e' = cells p s e"
  using assms
proof (induction "e - s" arbitrary: e)
  case 0
  then show ?case by (intro exI[of _ e]) (simp add: sum_last.simps)
next
  case (Suc d)
  then have se: "s < e" by simp
  then have e1: "int e - 1 = int (e - 1)" by simp
  have get: "pma_get p (int e - 1) = Some (p_array p ! (e - 1))"
    unfolding e1 using Suc.prems se by (intro pma_get_cell) simp_all
  have lst: "cells p s e = cells p s (e - 1) @ (if keyval_empty (p_array p ! (e - 1)) then [] else [p_array p ! (e - 1)])"
    using se Suc.prems by (intro cells_last) simp_all
  show ?case
  proof (cases "keyval_empty (p_array p ! (e - 1))")
    case True
    obtain e' where "sum_last p INT64_MIN (int s) (int (e - 1))
        = Some (if cells p s (e - 1) = [] then INT64_MIN else e_key (last (cells p s (e - 1))), int e')"
      "e' \<le> e - 1" "cells p s e' = cells p s (e - 1)"
    proof -
      have "d = e - 1 - s" "e - 1 \<le> p_m p" using Suc.hyps(2) Suc.prems(2) by simp_all
      moreover have "\<forall>x \<in> set (cells p s (e - 1)). e_key x \<noteq> INT64_MIN" using Suc.prems(3) lst True by simp
      ultimately show ?thesis using Suc.hyps(1)[of "e - 1"] Suc.prems that by blast
    qed
    moreover have "sum_last p INT64_MIN (int s) (int e) = sum_last p INT64_MIN (int s) (int (e - 1))"
      unfolding e1[symmetric] using se get True by (subst sum_last.simps) simp
    ultimately show ?thesis using lst True by (intro exI[of _ e']) simp
  next
    case False
    then have "e_key (p_array p ! (e - 1)) \<noteq> INT64_MIN" using Suc.prems(3) lst by simp
    then have "sum_last p (e_key (p_array p ! (e - 1))) (int s) (int e) = Some (e_key (p_array p ! (e - 1)), int e)"
      by (subst sum_last.simps) simp
    then show ?thesis using se get lst False
      by (intro exI[of _ e]) (subst sum_last.simps, simp)
  qed
qed

definition sum_spec :: "(int \<times> int) list \<Rightarrow> SumResult" where
  "sum_spec xs =
     \<lparr>m_first_key = (if xs = [] then INT64_MIN else fst (hd xs)),
      m_last_key = (if xs = [] then INT64_MIN else fst (last xs)),
      m_num_elements = length xs,
      m_sum_keys = s64 (sum_list (map fst xs)), m_sum_values = s64 (sum_list (map snd xs))\<rparr>"

lemma sum_spec_pairs:
  "sum_spec (map pair_of c) = \<lparr>m_first_key = (case c of [] \<Rightarrow> INT64_MIN | x # _ \<Rightarrow> e_key x),
     m_last_key = (if c = [] then INT64_MIN else e_key (last c)), m_num_elements = length c,
     m_sum_keys = s64 (sum_list (map e_key c)), m_sum_values = s64 (sum_list (map e_val c))\<rparr>"
  by (simp add: sum_spec_def pair_of_def comp_def last_map split: list.splits)

lemma PMA_Montes_sum_elems:
  assumes inv: "montes_inv p" and k: "\<forall>x \<in> set (montes_elems p). fst x \<noteq> INT64_MIN"
  shows "PMA_Montes_sum p mn mx = Some (sum_spec (in_range mn mx (montes_elems p)))"
proof -
  have len: "length (p_array p) = p_m p" using inv by (simp add: montes_inv_def geometry_def)
  obtain s e where se: "find_interval p mn mx = (int s, int e)" "s \<le> length (p_array p)"
    "e \<le> length (p_array p)" "in_range mn mx (montes_elems p) = map pair_of (cells p s e)"
    using in_range_cells[OF inv, of mn mx] by blast
  have em: "e \<le> p_m p" using se(3) len by simp
  have kc: "\<forall>x \<in> set (cells p s e). e_key x \<noteq> INT64_MIN"
  proof
    fix x assume "x \<in> set (cells p s e)"
    then have "x \<in> set (content (p_array p))"
      by (auto simp: content_def dest: in_set_dropD in_set_takeD)
    then have "pair_of x \<in> set (montes_elems p)" by (simp add: montes_elems_def)
    then show "e_key x \<noteq> INT64_MIN" using k by (auto simp: pair_of_def)
  qed
  obtain s' where s': "sum_first p INT64_MIN (int s) (int e)
      = Some (case cells p s e of [] \<Rightarrow> INT64_MIN | x # _ \<Rightarrow> e_key x, int s')" "cells p s' e = cells p s e"
    using sum_first_spec[OF len em kc] by blast
  have kc': "\<forall>x \<in> set (cells p s' e). e_key x \<noteq> INT64_MIN" using kc s'(2) by simp
  obtain e' where e': "sum_last p INT64_MIN (int s') (int e)
      = Some (if cells p s' e = [] then INT64_MIN else e_key (last (cells p s' e)), int e')"
      "e' \<le> e" "cells p s' e' = cells p s' e"
    using sum_last_spec[OF len em kc'] by blast
  have "int e' \<le> int (length (p_array p))" using e'(2) em len by simp
  then show ?thesis using se(1) s' e' unfolding se(4)
    by (simp add: PMA_Montes_sum_def sum_loop_content sum_spec_pairs sum64_0 not_less)
qed

section \<open>Proofs: the iterator\<close>

lemma iter_move_spec:
  assumes "m_end it \<le> length (p_array p)"
  shows "m_end (iter_move (p_array p) it) = m_end it"
    and "cells p (m_position (iter_move (p_array p) it)) (m_end it) = cells p (m_position it) (m_end it)"
    and "m_position (iter_move (p_array p) it) < m_end it
      \<Longrightarrow> occupied (p_array p ! m_position (iter_move (p_array p) it))"
    and "m_position it \<le> m_position (iter_move (p_array p) it)"
proof -
  have "m_end (iter_move (p_array p) it) = m_end it
    \<and> cells p (m_position (iter_move (p_array p) it)) (m_end it) = cells p (m_position it) (m_end it)
    \<and> (m_position (iter_move (p_array p) it) < m_end it
      \<longrightarrow> occupied (p_array p ! m_position (iter_move (p_array p) it)))
    \<and> m_position it \<le> m_position (iter_move (p_array p) it)"
    using assms
  proof (induction "m_end it - m_position it" arbitrary: it)
    case 0
    then have "iter_move (p_array p) it = it" by (subst iter_move.simps) simp
    then show ?case using 0 by simp
  next
    case (Suc d)
    show ?case
    proof (cases "keyval_empty (p_array p ! m_position it)")
      case True
      have c: "cells p (m_position it) (m_end it) = cells p (Suc (m_position it)) (m_end it)"
        using Suc.hyps(2) Suc.prems True by (subst cells_first) simp_all
      have m: "iter_move (p_array p) it = iter_move (p_array p) (it\<lparr>m_position := Suc (m_position it)\<rparr>)"
        using Suc.hyps(2) True by (subst iter_move.simps) simp
      have d: "d = m_end it - Suc (m_position it)" using Suc.hyps(2) by simp
      show ?thesis
        unfolding m c using Suc.hyps(1)[of "it\<lparr>m_position := Suc (m_position it)\<rparr>"] d Suc.prems
        by (auto simp: Suc_le_eq)
    next
      case False
      then have "iter_move (p_array p) it = it" by (subst iter_move.simps) simp
      then show ?thesis using False by simp
    qed
  qed
  then show "m_end (iter_move (p_array p) it) = m_end it"
    and "cells p (m_position (iter_move (p_array p) it)) (m_end it) = cells p (m_position it) (m_end it)"
    and "m_position (iter_move (p_array p) it) < m_end it
      \<Longrightarrow> occupied (p_array p ! m_position (iter_move (p_array p) it))"
    and "m_position it \<le> m_position (iter_move (p_array p) it)"
    by simp_all
qed

lemma iter_drain_spec:
  assumes "m_end it \<le> length (p_array p)" "m_end it - m_position it < fuel"
    and "m_position it < m_end it \<Longrightarrow> occupied (p_array p ! m_position it)"
  shows "iter_drain fuel (p_array p) it = Some (map pair_of (cells p (m_position it) (m_end it)))"
  using assms
proof (induction fuel arbitrary: it)
  case 0
  then show ?case by simp
next
  case (Suc fuel)
  show ?case
  proof (cases "m_position it < m_end it")
    case False
    then show ?thesis by (simp add: iter_hasNext_def)
  next
    case True
    let ?it = "it\<lparr>m_position := Suc (m_position it)\<rparr>"
    let ?next = "iter_move (p_array p) ?it"
    have e: "m_end ?it \<le> length (p_array p)" using Suc.prems(1) by simp
    note mv = iter_move_spec[OF e]
    have "iter_drain fuel (p_array p) ?next = Some (map pair_of (cells p (m_position ?next) (m_end ?next)))"
      using mv Suc.prems True by (intro Suc.IH) simp_all
    then show ?thesis
      using True Suc.prems mv(1,2) cells_first[OF True Suc.prems(1)]
      by (simp add: iter_hasNext_def iter_next_def pair_of_def Let_def)
  qed
qed

lemma iter_new_drain:
  assumes len: "length (p_array p) = p_m p" and b: "s \<le> p_m p" "e \<le> p_m p"
  shows "\<exists>it. iter_new p (int s) (int e) = Some it
    \<and> iter_drain (Suc (pma_capacity p)) (p_array p) it = Some (map pair_of (cells p s e))"
proof -
  let ?it = "\<lparr>m_position = s, m_end = e\<rparr>"
  have e: "m_end ?it \<le> length (p_array p)" using b len by simp
  note mv = iter_move_spec[OF e]
  have "iter_drain (Suc (p_m p)) (p_array p) (iter_move (p_array p) ?it)
      = Some (map pair_of (cells p (m_position (iter_move (p_array p) ?it)) (m_end (iter_move (p_array p) ?it))))"
    using mv e b by (intro iter_drain_spec) simp_all
  then show ?thesis using mv b by (simp add: iter_new_def pma_capacity_def)
qed

end
