(* ===== verification/Montes_Properties.thy ===== *)
theory Montes_Properties
  imports Montes_Wrapper
begin

text \<open>
  What the packed memory array of \<open>pma/external/montes\<close> and its wrapper promise: the
  creation, the insertion, the lookup and the range queries refine an ordered map, and the
  wrapper is an instance of the interface of the experiments. Deletion removes the element
  but not its count; the theorems show what follows from that.
\<close>

section \<open>Creation\<close>

lemma floor_lg_4: "floor_lg 4 = Some 2"
  using bit_len_power[of 2] by (simp add: floor_lg_def last_bit_set_def)

definition empty_montes :: pma_t where
  "empty_montes = \<lparr>p_n = 0, p_m = 16, p_s = 4, p_num_segments = 4, p_h' = 3,
     p_delta_t = fst (height_deltas 3), p_delta_p = snd (height_deltas 3),
     p_array = clear_array (replicate 16 blank)\<rparr>"

lemma pma_create_eq: "pma_create = Some empty_montes"
  by (simp add: pma_create_def empty_montes_def largest_empty_segment_def Let_def floor_lg_4
      case_prod_beta)

lemma empty_montes_content [simp]: "content (p_array empty_montes) = []" "p_n empty_montes = 0"
  by (simp_all add: empty_montes_def clear_array_def del: map_replicate)

lemma empty_montes_inv: "montes_inv empty_montes"
proof -
  have "keys_sorted (p_array empty_montes)" unfolding keys_sorted_def by simp
  moreover have "geometry empty_montes"
    using height_deltas_nonneg[of 3] by (simp add: geometry_def empty_montes_def clear_array_def)
  moreover have "p_m empty_montes = 16" "p_s empty_montes = 4" by (simp_all add: empty_montes_def)
  ultimately show ?thesis by (simp add: montes_inv_def)
qed

section \<open>Insertion and lookup\<close>

lemma pma_find_true_iff:
  assumes "montes_inv p"
  shows "fst (pma_find p k) \<longleftrightarrow> k \<in> e_key ` set (content (p_array p))"
proof (cases "pma_find p k")
  case (Pair f i)
  show ?thesis
  proof (cases f)
    case False
    then show ?thesis using pma_find_absent(1)[OF assms] Pair by auto
  next
    case True
    have "found_at (p_array p) k (True, i)" using pma_find_spec[OF assms, of k] Pair True by simp
    then have i: "nat i < length (p_array p)" "occupied (p_array p ! nat i)"
      "e_key (p_array p ! nat i) = k"
      by (auto simp: found_at_def)
    then have "p_array p ! nat i \<in> set (content (p_array p))" using content_nth by blast
    moreover note i(3)
    ultimately have "p_array p ! nat i \<in> set (content (p_array p))" "e_key (p_array p ! nat i) = k"
      by simp_all
    then show ?thesis using Pair True by (metis fst_conv image_eqI)
  qed
qed

lemma pma_insert_spec:
  assumes inv: "montes_inv p" and k: "k \<noteq> - 1" and b: "p_n p < 2 ^ 26"
  shows "if k \<in> e_key ` set (content (p_array p)) then pma_insert p k v = Some (False, p)
    else \<exists>q. pma_insert p k v = Some (True, q) \<and> montes_inv q \<and> p_n q = p_n p + 1
      \<and> content (p_array q) = insert_spec \<lparr>e_key = k, e_val = v\<rparr> (content (p_array p))"
proof (cases "pma_find p k")
  case (Pair f i)
  then have f: "f \<longleftrightarrow> k \<in> e_key ` set (content (p_array p))" using pma_find_true_iff[OF inv, of k] by simp
  show ?thesis
  proof (cases f)
    case True
    then show ?thesis using f Pair by (simp add: pma_insert_def)
  next
    case False
    then obtain q where "pma_insert_after p i k v = Some q" "montes_inv q" "p_n q = p_n p + 1"
      "content (p_array q) = insert_spec \<lparr>e_key = k, e_val = v\<rparr> (content (p_array p))"
      using pma_insert_absent[OF inv _ k b refl, of i v] Pair by auto
    then show ?thesis using f False Pair by (simp add: pma_insert_def)
  qed
qed

lemma fst_montes_elems: "fst ` set (montes_elems p) = e_key ` set (content (p_array p))"
  by (force simp: montes_elems_def pair_of_def)

lemma montes_elems_sorted:
  assumes "montes_inv p"
  shows "sorted_wrt (<) (map fst (montes_elems p))"
  using assms
  by (simp add: montes_inv_def keys_sorted_def montes_elems_def pair_of_def comp_def sorted_wrt_map)

lemma montes_elems_map_of:
  assumes inv: "montes_inv p" and j: "j < length (p_array p)" "occupied (p_array p ! j)"
  shows "map_of (montes_elems p) (e_key (p_array p ! j)) = Some (e_val (p_array p ! j))"
proof (rule map_of_is_SomeI)
  show "distinct (map fst (montes_elems p))"
    using montes_elems_sorted[OF inv] strict_sorted_iff by blast
  have "p_array p ! j \<in> set (content (p_array p))" using j content_nth by blast
  then show "(e_key (p_array p ! j), e_val (p_array p ! j)) \<in> set (montes_elems p)"
    by (force simp: montes_elems_def pair_of_def)
qed

lemma PMA_Montes_find_elems:
  assumes inv: "montes_inv p"
  shows "PMA_Montes_find p k = (case map_of (montes_elems p) k of None \<Rightarrow> - 1 | Some v \<Rightarrow> v)"
proof (cases "pma_find p k")
  case (Pair f i)
  show ?thesis
  proof (cases f)
    case False
    have "k \<notin> fst ` set (montes_elems p)"
      using pma_find_true_iff[OF inv, of k] False Pair unfolding fst_montes_elems by simp
    then have "map_of (montes_elems p) k = None" by (simp add: map_of_eq_None_iff)
    then show ?thesis using False Pair by (simp add: PMA_Montes_find_def)
  next
    case True
    have "found_at (p_array p) k (True, i)" using pma_find_spec[OF inv, of k] Pair True by simp
    then have i: "0 \<le> i" "nat i < length (p_array p)" "occupied (p_array p ! nat i)"
      "e_key (p_array p ! nat i) = k"
      by (auto simp: found_at_def)
    have "length (p_array p) = p_m p" using inv unfolding montes_inv_def geometry_def by blast
    then have "pma_get p i = Some (p_array p ! nat i)" using i(1,2) by (simp add: pma_get_def)
    then show ?thesis
      using montes_elems_map_of[OF inv i(2,3)] i(4) Pair True by (simp add: PMA_Montes_find_def)
  qed
qed

lemma length_montes_elems: "montes_inv p \<Longrightarrow> length (montes_elems p) = p_n p"
  by (simp add: montes_elems_def montes_inv_def)

lemma mset_insert_spec:
  assumes "e_key e \<notin> e_key ` set c"
  shows "mset (insert_spec e c) = add_mset e (mset c)"
proof -
  have "filter (\<lambda>x. e_key e < e_key x) c = filter (\<lambda>x. \<not> e_key x < e_key e) c"
    using assms by (intro filter_cong) (auto simp: image_iff)
  then show ?thesis by (simp add: insert_spec_def multiset_partition[symmetric])
qed

interpretation montes: pma_interface montes_inv montes_elems PMA_Montes_insert PMA_Montes_find
  PMA_Montes_size "\<lambda>k. k \<noteq> - 1" "2 ^ 26"
proof unfold_locales
  fix s :: pma_t and k v :: int
  assume inv: "montes_inv s" and k: "k \<noteq> - 1" "k \<notin> fst ` set (montes_elems s)"
    and len: "length (montes_elems s) < 2 ^ 26"
  have k2: "k \<notin> e_key ` set (content (p_array s))" using k(2) by (simp add: fst_montes_elems)
  have b: "p_n s < 2 ^ 26" using len length_montes_elems[OF inv] by simp
  obtain q where q: "pma_insert s k v = Some (True, q)" "montes_inv q"
    "content (p_array q) = insert_spec \<lparr>e_key = k, e_val = v\<rparr> (content (p_array s))"
    using pma_insert_spec[OF inv k(1) b, of v] k2 by auto
  have "mset (montes_elems q) = add_mset (k, v) (mset (montes_elems s))"
    using mset_insert_spec[of "\<lparr>e_key = k, e_val = v\<rparr>" "content (p_array s)"] k2 q(3)
    by (simp add: montes_elems_def pair_of_def)
  then show "\<exists>s'. PMA_Montes_insert s k v = Some s' \<and> montes_inv s'
      \<and> mset (montes_elems s') = add_mset (k, v) (mset (montes_elems s))"
    using q by (simp add: PMA_Montes_insert_def)
qed (auto simp: PMA_Montes_find_elems PMA_Montes_size_def pma_count_def length_montes_elems
    dest: montes_elems_sorted strict_sorted_imp_sorted)

section \<open>Rebalancing any window\<close>

lemma window_loop_pos:
  assumes "0 \<le> p_delta_p p" "window_loop p i h occ l r = Some (ws, we, oc, True)"
  shows "0 < oc"
  using assms
proof (induction p i h occ l r rule: window_loop.induct)
  case (1 p i h occ l r)
  have "0 \<le> dmul (d_of_nat h) (p_delta_p p)" using "1.prems"(1) by (simp add: dmul_def d_of_nat_def rnd_nonneg)
  then have "rnd (1 / 4) \<le> dadd p_0 (dmul (d_of_nat h) (p_delta_p p))" by (simp add: dadd_def p_0_def rnd_mono)
  moreover have "0 < rnd (1 / 4)" by (simp add: rnd_def rnd_pos_pos)
  ultimately have pos: "\<not> dadd p_0 (dmul (d_of_nat h) (p_delta_p p)) \<le> ddiv (d_of_nat 0) x" for x
    by (simp add: ddiv_def d_of_nat_def)
  define u where "u = p_s p * 2 ^ h"
  define st where "st = i div u * u"
  obtain o1 l1 where cl: "count_left (p_array p) l (int st) occ = (o1, l1)" by force
  obtain o2 r1 where cr: "count_right (p_array p) r (st + u) o1 = (o2, r1)" by force
  let ?d = "ddiv (d_of_nat o2) (d_of_nat u)"
  let ?t = "dsub t_0 (dmul (d_of_nat h) (p_delta_t p))"
  let ?p = "dadd p_0 (dmul (d_of_nat h) (p_delta_p p))"
  have ne: "\<not> (31 \<le> h \<or> 2 ^ 31 \<le> u \<or> u = 0)" "\<not> length (p_array p) < st + u"
    using "1.prems"(2) by (subst (asm) window_loop.simps, simp add: Let_def u_def st_def split: if_splits)+
  have w: "window_loop p i h occ l r =
      (if (?d < ?p \<or> ?t \<le> ?d) \<and> h + 1 < p_h' p then window_loop p i (h + 1) o2 l1 r1
       else Some (st, st + u, o2, ?p \<le> ?d \<and> ?d < ?t))"
    using ne cl cr unfolding u_def st_def
    by (subst window_loop.simps) (simp add: Let_def del: of_nat_mult)
  show ?case
  proof (cases "(?d < ?p \<or> ?t \<le> ?d) \<and> h + 1 < p_h' p")
    case True
    then have "window_loop p i (h + 1) o2 l1 r1 = Some (ws, we, oc, True)" using "1.prems"(2) w by simp
    then show ?thesis
      using "1.IH"[OF u_def ne(1) refl st_def refl ne(2) cl[symmetric] refl cr[symmetric] refl refl refl refl True]
        "1.prems"(1) by simp
  next
    case False
    then have "Some (st, st + u, o2, ?p \<le> ?d \<and> ?d < ?t) = Some (ws, we, oc, True)"
      using "1.prems"(2) w by (simp only: if_False)
    then have "?p \<le> ?d" "o2 = oc" by blast+
    then show ?thesis using pos[of "d_of_nat u"] by (cases "oc = 0") auto
  qed
qed

text \<open>
  Rebalancing after any update of a cell: either a window is packed and spread, which keeps
  the elements, or the array is resized.
\<close>

lemma rebalance_cases:
  assumes g: "geometry p" and i: "i < p_m p"
  shows "(\<exists>arr. rebalance p (int i) = Some (p\<lparr>p_array := arr\<rparr>) \<and> length arr = p_m p
      \<and> content arr = content (p_array p)) \<or> rebalance p (int i) = resize p"
proof -
  have len: "length (p_array p) = p_m p" and m31: "p_m p < 2 ^ 31" and h: "0 < p_h' p"
    and d: "0 \<le> p_delta_p p"
    using g by (auto simp: geometry_def)
  define occ where "occ = (if keyval_empty (p_array p ! i) then 0 else 1 :: nat)"
  have occ: "occ = count_range (p_array p) i (i + 1)"
    using count_range_Suc[of i "p_array p"] i len by (simp add: occ_def)
  have "\<exists>w. window_loop p i 0 occ (int i - 1) (i + 1) = Some w \<and> window_ok p i w"
    using window_facts[OF g i h] occ by (intro window_loop_spec[OF g i h]) simp_all
  then obtain ws we oc ok where w: "window_loop p i 0 occ (int i - 1) (i + 1) = Some (ws, we, oc, ok)"
    "ws \<le> i" "i < we" "we \<le> p_m p" "ws = 0 \<or> we - ws \<le> ws"
    "oc = count_range (p_array p) ws we" "ok \<longrightarrow> oc < we - ws"
    using len by (auto simp: window_ok_def)
  have unf: "rebalance p (int i) = (if ok then do {
        arr \<leftarrow> pack (p_array p) ws we oc;
        arr \<leftarrow> spread arr ws we oc;
        Some (p\<lparr>p_array := arr\<rparr>) } else resize p)"
    using i len w(1) by (simp add: rebalance_def Let_def nat_add_distrib occ_def)
  show ?thesis
  proof (cases ok)
    case True
    have oc0: "0 < oc" using window_loop_pos[OF d] w(1) True by simp
    obtain arr where arr: "pack (p_array p) ws we oc = Some arr" "length arr = p_m p"
      "content arr = content (p_array p)" "\<And>c. ws + oc \<le> c \<Longrightarrow> c < we \<Longrightarrow> keyval_empty (arr ! c)"
      using pack_spec[of ws we "p_array p" oc] w len by auto
    obtain arr2 where arr2: "spread arr ws we oc = Some arr2" "length arr2 = p_m p"
      "content arr2 = content arr"
      using spread_spec[of ws we arr oc] w arr oc0 True m31 by auto
    then show ?thesis using True unf arr(1,3) by (intro disjI1 exI[of _ arr2]) simp
  qed (simp add: unf)
qed

lemma rebalance_leaf:
  assumes g: "geometry p" and i: "i < p_m p"
    and oc: "oc = count_range (p_array p) (window_start_at p i 0) (window_start_at p i 0 + p_s p)"
    and b: "p_s p \<le> 4 * oc" "oc < p_s p"
  shows "\<exists>arr. rebalance p (int i) = Some (p\<lparr>p_array := arr\<rparr>) \<and> length arr = p_m p
    \<and> content arr = content (p_array p)"
proof -
  have len: "length (p_array p) = p_m p" and m31: "p_m p < 2 ^ 31" and h: "0 < p_h' p"
    using g by (auto simp: geometry_def)
  define occ where "occ = (if keyval_empty (p_array p ! i) then 0 else 1 :: nat)"
  have occ: "occ = count_range (p_array p) i (i + 1)"
    using count_range_Suc[of i "p_array p"] i len by (simp add: occ_def)
  note wl = window_loop_leaf[OF g i oc b occ]
  let ?ws = "window_start_at p i 0"
  have f: "?ws + p_s p \<le> p_m p" "?ws = 0 \<or> p_s p \<le> ?ws" "0 < p_s p"
    using window_facts[OF g i h] len by simp_all
  have oc0: "0 < oc" using b f(3) by simp
  have r: "rebalance p (int i) = do {
        arr \<leftarrow> pack (p_array p) ?ws (?ws + p_s p) oc;
        arr \<leftarrow> spread arr ?ws (?ws + p_s p) oc;
        Some (p\<lparr>p_array := arr\<rparr>) }"
    using i len wl by (simp add: rebalance_def Let_def nat_add_distrib occ_def)
  obtain arr where arr: "pack (p_array p) ?ws (?ws + p_s p) oc = Some arr" "length arr = p_m p"
    "content arr = content (p_array p)"
    "\<And>c. ?ws + oc \<le> c \<Longrightarrow> c < ?ws + p_s p \<Longrightarrow> keyval_empty (arr ! c)"
    using pack_spec[of ?ws "?ws + p_s p" "p_array p" oc] oc f len by auto
  obtain arr2 where "spread arr ?ws (?ws + p_s p) oc = Some arr2" "length arr2 = p_m p"
    "content arr2 = content arr"
    using spread_spec[of ?ws "?ws + p_s p" arr oc] f arr oc0 b m31 by auto
  then show ?thesis using r arr by (intro exI[of _ arr2]) simp
qed

section \<open>Deletion\<close>

text \<open>\<open>resize\<close> packs the whole array and asserts that it found \<open>n\<close> elements.\<close>

lemma resize_stale:
  assumes "length (p_array p) = p_m p" "p_n p \<noteq> length (content (p_array p))"
  shows "resize p = None"
proof (cases "0 < p_m p")
  case True
  have "\<exists>arr'. pack_loop (p_array p) 0 0 (p_m p) = Some (arr', 0 + count_range (p_array p) 0 (p_m p))"
    using pack_loop_spec[of 0 0 "p_m p" "p_array p"] assms(1) by auto
  moreover have "count_range (p_array p) 0 (p_m p) = length (content (p_array p))"
    using assms(1) by (simp add: count_range_def content_def)
  ultimately show ?thesis using assms(2) True by (auto simp: resize_def pack_def)
qed (simp add: resize_def pack_def)

lemma content_update_clear:
  assumes "keys_sorted arr" "j < length arr" "occupied (arr ! j)"
  shows "content (arr[j := keyval_clear (arr ! j)])
    = filter (\<lambda>x. e_key x \<noteq> e_key (arr ! j)) (content arr)"
proof -
  have arr: "arr = take j arr @ arr ! j # drop (Suc j) arr" using assms(2) by (rule id_take_nth_drop)
  have l: "filter (\<lambda>x. e_key x \<noteq> e_key (arr ! j)) (content (take j arr)) = content (take j arr)"
  proof (rule filter_True, rule ballI)
    fix x assume "x \<in> set (content (take j arr))"
    then obtain k where "k < j" "x = arr ! k" "occupied x" using assms(2) by (auto simp: content_nth)
    then show "e_key x \<noteq> e_key (arr ! j)"
      using keys_sorted_nth[OF assms(1), of k j] assms by auto
  qed
  have r: "filter (\<lambda>x. e_key x \<noteq> e_key (arr ! j)) (content (drop (Suc j) arr)) = content (drop (Suc j) arr)"
  proof (rule filter_True, rule ballI)
    fix x assume "x \<in> set (content (drop (Suc j) arr))"
    then have "\<exists>k. Suc j + k < length arr \<and> x = arr ! (Suc j + k) \<and> occupied x"
      unfolding content_nth using assms(2) by force
    then obtain k where "Suc j + k < length arr" "x = arr ! (Suc j + k)" "occupied x" by blast
    then show "e_key x \<noteq> e_key (arr ! j)"
      using keys_sorted_nth[OF assms(1), of j "Suc j + k"] assms by auto
  qed
  have "content arr = content (take j arr) @ arr ! j # content (drop (Suc j) arr)"
    using assms(3) by (subst arr) (simp add: content_def)
  moreover have "content (arr[j := keyval_clear (arr ! j)]) = content (take j arr) @ content (drop (Suc j) arr)"
    using assms(2) by (simp add: content_def upd_conv_take_nth_drop)
  ultimately show ?thesis using l r by simp
qed

lemma length_filter_key:
  assumes "sorted_wrt (\<lambda>x y. e_key x < e_key y) c" "k \<in> e_key ` set c"
  shows "length (filter (\<lambda>x. e_key x \<noteq> k) c) + 1 = length c"
  using assms
proof (induction c)
  case (Cons a c)
  show ?case
  proof (cases "e_key a = k")
    case True
    then have "filter (\<lambda>x. e_key x \<noteq> k) c = c" using Cons.prems by (intro filter_True) auto
    then show ?thesis using True by simp
  qed (use Cons in auto)
qed simp

lemma pma_delete_cases:
  assumes inv: "montes_inv p" and k: "k \<in> e_key ` set (content (p_array p))"
    and d: "pma_delete p k = Some (b, q)"
  shows "b \<and> geometry q \<and> keys_sorted (p_array q) \<and> p_n q = p_n p
    \<and> content (p_array q) = filter (\<lambda>x. e_key x \<noteq> k) (content (p_array p))
    \<and> p_n q = length (content (p_array q)) + 1 \<and> resize q = None"
proof -
  have g: "geometry p" and len: "length (p_array p) = p_m p" and srt: "keys_sorted (p_array p)"
    and n: "p_n p = length (content (p_array p))"
    using inv by (auto simp: montes_inv_def geometry_def)
  obtain i where f: "pma_find p k = (True, i)"
    using pma_find_true_iff[OF inv, of k] k by (cases "pma_find p k") auto
  obtain j where j: "i = int j" "j < p_m p" "occupied (p_array p ! j)" "e_key (p_array p ! j) = k"
    using pma_find_spec[OF inv, of k] f len by (auto simp: found_at_def dest!: zero_le_imp_eq_int)
  define p1 where "p1 = p\<lparr>p_array := (p_array p)[j := keyval_clear (p_array p ! j)]\<rparr>"
  have g1: "geometry p1" and jm: "j < p_m p1" using g j by (auto simp: p1_def geometry_def)
  have c1: "content (p_array p1) = filter (\<lambda>x. e_key x \<noteq> k) (content (p_array p))"
    using content_update_clear[OF srt] j len by (simp add: p1_def)
  have l1: "length (content (p_array p1)) + 1 = p_n p"
    unfolding c1 n using srt k by (intro length_filter_key) (simp_all add: keys_sorted_def)
  have r1: "resize p1 = None" using l1 len by (intro resize_stale) (simp_all add: p1_def)
  have "rebalance p1 (int j) = Some q" and bt: "b"
    using d f j len by (simp_all add: pma_delete_def pma_delete_at_def p1_def split: bind_splits)
  then obtain arr where arr: "q = p1\<lparr>p_array := arr\<rparr>" "length arr = p_m p1" "content arr = content (p_array p1)"
    using rebalance_cases[OF g1 jm] r1 by auto
  have geo: "geometry q" using g1 arr by (auto simp: geometry_def)
  have "resize q = None" using arr l1 by (intro resize_stale) (simp_all add: p1_def)
  then show ?thesis
    using geo arr c1 l1 bt srt by (simp add: keys_sorted_def sorted_wrt_filter p1_def)
qed

lemma delete_finds:
  assumes inv: "montes_inv p" and k: "k \<in> e_key ` set (content (p_array p))"
  obtains j where "pma_find p k = (True, int j)" "j < p_m p" "occupied (p_array p ! j)"
    "e_key (p_array p ! j) = k"
    "pma_delete p k = do { p' \<leftarrow> rebalance
        (p\<lparr>p_array := (p_array p)[j := keyval_clear (p_array p ! j)]\<rparr>) (int j); Some (True, p') }"
proof -
  have len: "length (p_array p) = p_m p" using inv by (auto simp: montes_inv_def geometry_def)
  obtain i where f: "pma_find p k = (True, i)"
    using pma_find_true_iff[OF inv, of k] k by (cases "pma_find p k") auto
  obtain j where j: "i = int j" "j < p_m p" "occupied (p_array p ! j)" "e_key (p_array p ! j) = k"
    using pma_find_spec[OF inv, of k] f len by (auto simp: found_at_def dest!: zero_le_imp_eq_int)
  show thesis
    using f j that[of j] by (simp add: pma_delete_def pma_delete_at_def)
qed

section \<open>Building from a sorted array\<close>

lemma pma_from_array_spec:
  assumes n: "2 \<le> n" "n \<le> 2 ^ 26" and arr: "n \<le> length xs" "\<forall>x \<in> set (take n xs). occupied x"
    and srt: "sorted_wrt (\<lambda>x y. e_key x < e_key y) (take n xs)"
  shows "\<exists>q. pma_from_array xs n = Some q \<and> montes_inv q \<and> p_n q = n \<and> content (p_array q) = take n xs"
proof -
  obtain s k where cc: "compute_capacity n = Some (s, 2 ^ k, s * 2 ^ k)" "0 < s" "0 < k"
    "4 * n \<le> s * 2 ^ k" "s * 2 ^ k < 2 ^ 31"
    using compute_capacity_spec[OF n] by blast
  define m where "m = s * 2 ^ k"
  have fl: "floor_lg (2 ^ k) = Some k" by (simp add: floor_lg_def last_bit_set_def bit_len_power)
  define cells where "cells = map (\<lambda>i. if i < n then xs ! i else keyval_clear blank) [0..<m]"
  have nm: "n \<le> m" "n < m" using cc(4) n by (simp_all add: m_def)
  have "cells = take n xs @ map keyval_clear (replicate (m - n) blank)"
    using nm arr(1) by (intro nth_equalityI) (auto simp: cells_def nth_append)
  then have con: "content cells = take n xs"
    using arr(2) by (simp add: content_def filter_empty_conv)
  obtain arr2 where arr2: "spread cells 0 m n = Some arr2" "length arr2 = m" "content arr2 = content cells"
    using spread_spec[of 0 m cells n] cc(5) n nm by (fastforce simp: cells_def m_def)
  obtain dt dp where hd: "height_deltas (k + 1) = (dt, dp)" "0 \<le> dt" "0 \<le> dp"
    using height_deltas_nonneg[of "k + 1"] by (cases "height_deltas (k + 1)") auto
  define q where "q = \<lparr>p_n = n, p_m = m, p_s = s, p_num_segments = 2 ^ k, p_h' = k + 1,
      p_delta_t = dt, p_delta_p = dp, p_array = arr2\<rparr>"
  have "pma_from_array xs n = Some q"
    using n arr(1) cc(1) fl hd(1) arr2(1) by (simp add: pma_from_array_def q_def cells_def m_def)
  moreover have "geometry q" using cc arr2 hd by (simp add: geometry_def q_def m_def)
  moreover have "content (p_array q) = take n xs" using arr2(3) con by (simp add: q_def)
  ultimately show ?thesis using nm n arr(1) srt by (simp add: montes_inv_def keys_sorted_def q_def)
qed

lemma pma_delete_leaf:
  assumes "montes_inv p" "pma_find p k = (True, int j)"
    and "p_s p \<le> 4 * (count_range (p_array p) (window_start_at p j 0) (window_start_at p j 0 + p_s p) - 1)"
  shows "\<exists>arr. pma_delete p k = Some (True, p\<lparr>p_array := arr\<rparr>)
    \<and> content arr = filter (\<lambda>x. e_key x \<noteq> k) (content (p_array p))"
proof -
  have g: "geometry p" and len: "length (p_array p) = p_m p" and srt: "keys_sorted (p_array p)"
    and h: "0 < p_h' p" and s0: "0 < p_s p"
    using assms(1) by (auto simp: montes_inv_def geometry_def)
  have j: "j < p_m p" "occupied (p_array p ! j)" "e_key (p_array p ! j) = k"
    using pma_find_spec[OF assms(1), of k] assms(2) len by (auto simp: found_at_def)
  let ?arr = "(p_array p)[j := keyval_clear (p_array p ! j)]"
  let ?w = "window_start_at p j 0"
  define p1 where "p1 = p\<lparr>p_array := ?arr\<rparr>"
  have g1: "geometry p1" and j1: "j < p_m p1" using g j by (auto simp: p1_def geometry_def)
  have w: "?w \<le> j" "j < ?w + p_s p" "?w + p_s p \<le> p_m p"
    using window_facts[OF g j(1) h] len by simp_all
  have c: "count_range arr ?w (?w + p_s p) = count_range arr ?w j
      + (count_range arr j (j + 1) + count_range arr (j + 1) (?w + p_s p))" for arr
    using w by (simp flip: count_range_split)
  have "count_range ?arr ?w j = count_range (p_array p) ?w j"
    "count_range ?arr (j + 1) (?w + p_s p) = count_range (p_array p) (j + 1) (?w + p_s p)"
    unfolding count_range_def by (simp_all add: drop_take)
  moreover have "count_range ?arr j (j + 1) = 0" "count_range (p_array p) j (j + 1) = 1"
    using count_range_Suc[of j ?arr] count_range_Suc[of j "p_array p"] j len by simp_all
  ultimately have oc: "count_range ?arr ?w (?w + p_s p) = count_range (p_array p) ?w (?w + p_s p) - 1"
    and pos: "0 < count_range (p_array p) ?w (?w + p_s p)"
    using c[of ?arr] c[of "p_array p"] by simp_all
  have less: "count_range ?arr ?w (?w + p_s p) < p_s p"
    using oc pos count_range_le[of "p_array p" ?w "?w + p_s p"] by linarith
  obtain arr where arr: "rebalance p1 (int j) = Some (p1\<lparr>p_array := arr\<rparr>)" "content arr = content ?arr"
    using rebalance_leaf[OF g1 j1] oc less assms(3) by (auto simp: p1_def window_start_at_def)
  have "pma_delete p k = Some (True, p\<lparr>p_array := arr\<rparr>)"
    using arr(1) assms(2) j(1) by (simp add: pma_delete_def pma_delete_at_def p1_def)
  moreover have "content arr = filter (\<lambda>x. e_key x \<noteq> k) (content (p_array p))"
    using content_update_clear[OF srt, of j] arr(2) j len by simp
  ultimately show ?thesis by blast
qed

section \<open>A small array\<close>

definition three_montes :: pma_t where
  "three_montes = empty_montes\<lparr>p_n := 3, p_array :=
     [\<lparr>e_key = 1, e_val = 10\<rparr>, \<lparr>e_key = 2, e_val = 20\<rparr>, \<lparr>e_key = 3, e_val = 30\<rparr>]
       @ replicate 13 blank\<rparr>"

lemma three_montes_content [simp]: "content (p_array three_montes) =
    [\<lparr>e_key = 1, e_val = 10\<rparr>, \<lparr>e_key = 2, e_val = 20\<rparr>, \<lparr>e_key = 3, e_val = 30\<rparr>]"
  by (simp add: three_montes_def content_def keyval_empty_def filter_empty_conv blank_def)

lemma three_montes_inv: "montes_inv three_montes"
proof -
  have "geometry three_montes"
    using empty_montes_inv by (auto simp: montes_inv_def geometry_def three_montes_def empty_montes_def)
  moreover have "p_m three_montes = 16" "p_n three_montes = 3" "p_s three_montes = 4"
    by (simp_all add: three_montes_def empty_montes_def)
  moreover have "keys_sorted (p_array three_montes)" unfolding keys_sorted_def by simp
  ultimately show ?thesis by (simp add: montes_inv_def)
qed

lemma three_montes_find: "pma_find three_montes 2 = (True, int 1)"
proof -
  obtain i where i: "pma_find three_montes 2 = (True, i)"
    using pma_find_true_iff[OF three_montes_inv, of 2] by (cases "pma_find three_montes 2") auto
  then obtain j where j: "i = int j" "j < 16" "e_key (p_array three_montes ! j) = 2"
    using pma_find_spec[OF three_montes_inv, of 2]
    by (auto simp: found_at_def three_montes_def dest!: zero_le_imp_eq_int)
  have "e_key (p_array three_montes ! c) = (if c = 0 then 1 else if c = 1 then 2 else if c = 2 then 3 else - 1)"
    if "c < 16" for c
    using that by (auto simp: three_montes_def nth_Cons blank_def split: nat.splits)
  then have "j = 1" using j(2,3) by (auto split: if_splits)
  with i j(1) show ?thesis by simp
qed

lemma three_montes_dense: "p_s three_montes \<le> 4 * (count_range (p_array three_montes)
    (window_start_at three_montes 1 0) (window_start_at three_montes 1 0 + p_s three_montes) - 1)"
  by (simp add: three_montes_def empty_montes_def count_range_def window_start_at_def
      keyval_empty_def blank_def)

section \<open>Properties\<close>

text \<open>A lookup in the packed memory array returns the value stored with the key, and
  \<open>-1\<close> when the key is absent: the binary search over an array with gaps agrees with the
  association list of the elements.\<close>

theorem montes_find_correct:
  assumes "montes_inv p"
  shows "PMA_Montes_find p k = (case map_of (montes_elems p) k of None \<Rightarrow> - 1 | Some v \<Rightarrow> v)"
  by (rule PMA_Montes_find_elems[OF assms])

theorem montes_find_correct_witness: "PMA_Montes_find empty_montes 7 = - 1"
  using montes_find_correct[OF empty_montes_inv, of 7] by (simp add: montes_elems_def)

text \<open>C12. An insertion of a key other than the empty mark succeeds below \<open>2 ^ 26\<close> elements
  (no assertion fails, no access leaves the array): a present key changes nothing, an absent one
  is put at its place in key order, counted, and the invariant holds again - also when the
  array is rebalanced or resized.\<close>

theorem montes_insert_correct:
  assumes "montes_inv p" "k \<noteq> - 1" "p_n p < 2 ^ 26"
  shows "if k \<in> fst ` set (montes_elems p) then pma_insert p k v = Some (False, p)
    else \<exists>q. pma_insert p k v = Some (True, q) \<and> montes_inv q \<and> pma_count q = pma_count p + 1
      \<and> montes_elems q = filter (\<lambda>x. fst x < k) (montes_elems p) @ (k, v)
          # filter (\<lambda>x. k < fst x) (montes_elems p)"
  using pma_insert_spec[OF assms, of v] unfolding fst_montes_elems
  by (auto simp: pma_count_def insert_spec_def montes_elems_def pair_of_def
      filter_map comp_def split: if_splits)

theorem montes_insert_correct_witness:
  "\<exists>q. pma_insert empty_montes 5 50 = Some (True, q) \<and> montes_inv q \<and> montes_elems q = [(5, 50)]"
  using montes_insert_correct[OF empty_montes_inv, of 5 50] by (auto simp: montes_elems_def)

text \<open>C19. The insertion loop of the experiments on a fresh array: any batch of at most
  \<open>2 ^ 26\<close> distinct keys is stored completely, in key order, with the right size, and
  every later lookup finds exactly the inserted values.\<close>

theorem montes_batch_insert:
  assumes "pma_create = Some p" "distinct (map fst ps)" "\<forall>x \<in> set ps. fst x \<noteq> - 1" "length ps \<le> 2 ^ 26"
  shows "\<exists>q. do_inserts PMA_Montes_insert p ps = Some q \<and> montes_elems q = sort_key fst ps
    \<and> PMA_Montes_size q = length ps
    \<and> (\<forall>k. PMA_Montes_find q k = (case map_of ps k of None \<Rightarrow> - 1 | Some v \<Rightarrow> v))"
  using montes.do_inserts_from_empty[of p ps] assms empty_montes_inv
  by (auto simp: pma_create_eq montes_elems_def)

theorem montes_batch_insert_witness:
  "\<exists>p q. pma_create = Some p \<and> do_inserts PMA_Montes_insert p [(3, 30), (1, 10), (2, 20)] = Some q
    \<and> montes_elems q = [(1, 10), (2, 20), (3, 30)]"
  using montes_batch_insert[OF pma_create_eq, of "[(3, 30), (1, 10), (2, 20)]"] pma_create_eq
  by auto

text \<open>The range sum returns the aggregate of the elements with a key in \<open>[min, max]\<close> -
  their number, the sums of the keys and values in 64 bits, the first and the last key - whenever no
  stored key is \<open>INT64_MIN\<close>, and its loops end.\<close>

theorem montes_sum_correct:
  assumes "montes_inv p" "\<forall>x \<in> set (montes_elems p). fst x \<noteq> INT64_MIN"
  shows "PMA_Montes_sum p mn mx = Some (sum_spec (in_range mn mx (montes_elems p)))"
  by (rule PMA_Montes_sum_elems[OF assms])

theorem montes_sum_correct_witness:
  "PMA_Montes_sum empty_montes 1 9 = Some \<lparr>m_first_key = INT64_MIN, m_last_key = INT64_MIN,
     m_num_elements = 0, m_sum_keys = 0, m_sum_values = 0\<rparr>"
  using montes_sum_correct[OF empty_montes_inv, of 1 9]
  by (simp add: montes_elems_def in_range_def sum_spec_def)

text \<open>Draining the iterator of a range query yields exactly the elements of the range
  in key order; its assertions hold and it ends after at most capacity + 1 steps.\<close>

theorem montes_range_iterator:
  assumes "montes_inv p"
  shows "\<exists>it. find_range p mn mx = Some it
    \<and> iter_drain (Suc (pma_capacity p)) (p_array p) it = Some (in_range mn mx (montes_elems p))"
proof -
  have len: "length (p_array p) = p_m p" using assms by (auto simp: montes_inv_def geometry_def)
  obtain s e where se: "find_interval p mn mx = (int s, int e)" "s \<le> p_m p" "e \<le> p_m p"
    "in_range mn mx (montes_elems p) = map pair_of (cells p s e)"
    using in_range_cells[OF assms, of mn mx] len by auto
  show ?thesis using iter_new_drain[OF len se(2,3)] se(1,4) by (simp add: find_range_def)
qed

theorem montes_range_iterator_witness:
  "\<exists>it. find_range empty_montes 0 9 = Some it \<and> iter_drain 17 (p_array empty_montes) it = Some []"
proof -
  have "Suc (pma_capacity empty_montes) = 17" by (simp add: pma_capacity_def empty_montes_def)
  then show ?thesis
    using montes_range_iterator[OF empty_montes_inv, of 0 9] by (simp add: montes_elems_def in_range_def)
qed

text \<open>C35. A deletion that returns has removed exactly the element with the key; the
  element count is not updated, so that the next resize of this array fails its assertion.\<close>

theorem montes_delete_stale_count:
  assumes "montes_inv p" "k \<in> fst ` set (montes_elems p)" "pma_delete p k = Some (b, q)"
  shows "b \<and> geometry q \<and> keys_sorted (p_array q)
    \<and> montes_elems q = filter (\<lambda>x. fst x \<noteq> k) (montes_elems p)
    \<and> pma_count q = length (montes_elems q) + 1 \<and> resize q = None"
  using pma_delete_cases[OF assms(1) _ assms(3)] assms(2)
  by (auto simp: fst_montes_elems pma_count_def montes_elems_def pair_of_def filter_map comp_def)

theorem montes_delete_stale_count_witness:
  "\<exists>q. pma_delete three_montes 2 = Some (True, q) \<and> montes_elems q = [(1, 10), (3, 30)]
    \<and> pma_count q = 3 \<and> resize q = None"
proof -
  obtain arr where d: "pma_delete three_montes 2 = Some (True, three_montes\<lparr>p_array := arr\<rparr>)"
    using pma_delete_leaf[OF three_montes_inv three_montes_find three_montes_dense] by auto
  then show ?thesis
    using montes_delete_stale_count[OF three_montes_inv _ d]
    by (auto simp: montes_elems_def pair_of_def dest: arg_cong[of _ _ length])
qed

text \<open>Deleting from a segment that stays at least a quarter full rebalances that segment
  only: the deletion returns, without touching the geometry of the array.\<close>

theorem montes_delete_local:
  assumes "montes_inv p" "pma_find p k = (True, int j)"
    and "p_s p \<le> 4 * (count_range (p_array p) (window_start_at p j 0) (window_start_at p j 0 + p_s p) - 1)"
  shows "\<exists>arr. pma_delete p k = Some (True, p\<lparr>p_array := arr\<rparr>)
    \<and> content arr = filter (\<lambda>x. e_key x \<noteq> k) (content (p_array p))"
  by (rule pma_delete_leaf[OF assms])

theorem montes_delete_local_witness:
  "\<exists>arr. pma_delete three_montes 2 = Some (True, three_montes\<lparr>p_array := arr\<rparr>)
    \<and> map e_key (content arr) = [1, 3]"
  using montes_delete_local[OF three_montes_inv three_montes_find] three_montes_dense by auto

text \<open>Deleting the only element of an array fails an assertion: the empty array is below
  every threshold, and the resize counts no element where \<open>n\<close> still says one.\<close>

theorem montes_delete_last_aborts:
  assumes "montes_inv p" "montes_elems p = [(k, v)]"
  shows "pma_delete p k = None"
proof -
  have g: "geometry p" and len: "length (p_array p) = p_m p" and srt: "keys_sorted (p_array p)"
    and n: "p_n p = length (content (p_array p))" and h: "0 < p_h' p"
    using assms(1) by (auto simp: montes_inv_def geometry_def)
  obtain x where x: "content (p_array p) = [x]" "e_key x = k"
    using assms(2) by (auto simp: montes_elems_def pair_of_def)
  obtain j where j: "j < p_m p" "occupied (p_array p ! j)" "e_key (p_array p ! j) = k"
    "pma_delete p k = do { p' \<leftarrow> rebalance
        (p\<lparr>p_array := (p_array p)[j := keyval_clear (p_array p ! j)]\<rparr>) (int j); Some (True, p') }"
    using delete_finds[OF assms(1), of k] x by auto
  define p1 where "p1 = p\<lparr>p_array := (p_array p)[j := keyval_clear (p_array p ! j)]\<rparr>"
  have g1: "geometry p1" and j1: "j < p_m p1" using g j by (auto simp: p1_def geometry_def)
  have c1: "content (p_array p1) = []"
    using content_update_clear[OF srt, of j] j len x by (simp add: p1_def)
  have h1: "0 < p_h' p1" using h by (simp add: p1_def)
  have e1: "keyval_empty (p_array p1 ! j)" using j len by (simp add: p1_def)
  have "\<exists>ws we oc. window_loop p1 j 0 0 (int j - 1) (j + 1) = Some (ws, we, oc, False)"
    using window_facts[OF g1 j1 h1] by (intro window_loop_none[OF g1 j1 h1]) (simp_all add: c1)
  then have "rebalance p1 (int j) = resize p1"
    using j len e1 by (auto simp: rebalance_def Let_def nat_add_distrib p1_def)
  moreover have "resize p1 = None" using c1 n x len by (intro resize_stale) (simp_all add: p1_def)
  ultimately show ?thesis using j(4) by (simp add: p1_def)
qed

theorem montes_delete_last_aborts_witness:
  "\<exists>q. pma_insert empty_montes 5 50 = Some (True, q) \<and> pma_delete q 5 = None"
proof -
  obtain q where q: "pma_insert empty_montes 5 50 = Some (True, q)" "montes_inv q"
    "content (p_array q) = insert_spec \<lparr>e_key = 5, e_val = 50\<rparr> []"
    using pma_insert_spec[OF empty_montes_inv, of 5 50] by auto
  then show ?thesis
    using montes_delete_last_aborts[of q 5 50] by (simp add: montes_elems_def insert_spec_def pair_of_def)
qed

text \<open>Building the array from \<open>n\<close> sorted elements, from two to \<open>2 ^ 26\<close> of them, stores
  these elements and satisfies the invariant.\<close>

theorem montes_from_array_correct:
  assumes "2 \<le> n" "n \<le> 2 ^ 26" "n \<le> length xs" "\<forall>x \<in> set (take n xs). \<not> keyval_empty x"
    and "sorted_wrt (\<lambda>x y. e_key x < e_key y) (take n xs)"
  shows "\<exists>q. pma_from_array xs n = Some q \<and> montes_inv q \<and> pma_count q = n
    \<and> montes_elems q = map pair_of (take n xs)"
  using pma_from_array_spec[OF assms] by (auto simp: montes_elems_def pma_count_def)

theorem montes_from_array_correct_witness:
  "\<exists>q. pma_from_array [\<lparr>e_key = 1, e_val = 10\<rparr>, \<lparr>e_key = 2, e_val = 20\<rparr>] 2 = Some q
    \<and> montes_inv q \<and> montes_elems q = [(1, 10), (2, 20)]"
  using montes_from_array_correct[of 2 "[\<lparr>e_key = 1, e_val = 10\<rparr>, \<lparr>e_key = 2, e_val = 20\<rparr>]"]
  by (auto simp: keyval_empty_def pair_of_def)

text \<open>Building the array from a single element fails an assertion:
  \<open>ceil_lg (1)\<close> asks for the last bit set of zero.\<close>

theorem montes_from_one_aborts: "pma_from_array [e] 1 = None"
  by (simp add: pma_from_array_def compute_capacity_def ceil_lg_def last_bit_set_def u64_small)

text \<open>Spreading a packed window keeps its elements and their order: writing from right to
  left in steps of the fixed-point frequency never overwrites a cell still to be read, for every
  window that is aligned as the windows of the array are.\<close>

theorem montes_spread_keeps_content:
  assumes "from < to" "to \<le> length arr" "length arr < 2 ^ 56" "0 < n" "n \<le> to - from"
    and "from = 0 \<or> to - from \<le> from" "\<forall>c. from + n \<le> c \<longrightarrow> c < to \<longrightarrow> keyval_empty (arr ! c)"
  shows "\<exists>arr'. spread arr from to n = Some arr' \<and> length arr' = length arr \<and> content arr' = content arr"
  using assms by (intro spread_spec) simp_all

theorem montes_spread_keeps_content_witness:
  "\<exists>arr'. spread [\<lparr>e_key = 4, e_val = 1\<rparr>, blank, blank, blank] 0 4 1 = Some arr'
    \<and> content arr' = [\<lparr>e_key = 4, e_val = 1\<rparr>]"
  using montes_spread_keeps_content[of 0 4 "[\<lparr>e_key = 4, e_val = 1\<rparr>, blank, blank, blank]" 1]
  by (fastforce simp: content_def keyval_empty_def blank_def nth_Cons split: nat.splits)

text \<open>\<open>compute_capacity\<close> gives a power of two of segments that together hold at least
  four times the elements, and fits the 8-bit segment size, for two to \<open>2 ^ 26\<close> elements.\<close>

theorem montes_capacity_bounds:
  assumes "2 \<le> n" "n \<le> 2 ^ 26"
  shows "\<exists>s k. compute_capacity n = Some (s, 2 ^ k, s * 2 ^ k) \<and> 0 < s \<and> 0 < k \<and> k \<le> 26
    \<and> 4 * n \<le> s * 2 ^ k \<and> s * 2 ^ k < 2 ^ 31"
  by (rule compute_capacity_spec[OF assms])

theorem montes_capacity_bounds_witness:
  "\<exists>s k. compute_capacity 1000 = Some (s, 2 ^ k, s * 2 ^ k) \<and> 4000 \<le> s * 2 ^ k"
  using montes_capacity_bounds[of 1000] by auto

end
