(* ===== verification/Raizes.thy ===== *)
theory Raizes
  imports Doubles "HOL-Library.Word" "HOL-Library.Monad_Syntax"
begin

unbundle bit_operations_syntax

text \<open>
  The packed memory array of \<open>pma/external/raizes\<close> (\<open>pkd_mem_arr.h\<close>, \<open>pkd_mem_arr.c\<close>): an array
  of elements with a bitmap of the used cells, and the class \<open>PMA_Raizes\<close> of
  \<open>pma/external.cpp\<close> over it.

  Indices are integers, as in the code, since \<open>-1\<close> is both a limit and an error value. A result
  \<open>None\<close> is a write outside the new array, a loop that does not end or a logarithm of a
  number that is no power of two (which the invariant excludes). The fresh memory of
  \<open>malloc\<close> is taken to be zero; cells whose bit is not set are never read.
\<close>

section \<open>Data\<close>

record raizes_PMA_element =
  key :: int
  elem_value :: int

record raizes_PMA =
  r_array :: "raizes_PMA_element list"
  r_bitmap :: "8 word list"
  r_size :: nat
  r_count :: int

definition unset :: raizes_PMA_element where
  "unset = \<lparr>key = 0, elem_value = 0\<rparr>"

definition U_TRHLD :: double where "U_TRHLD = 1 / 2"
definition L_TRHLD :: double where "L_TRHLD = 1 / 4"
definition BASE_SIZE :: nat where "BASE_SIZE = 8"
definition U_FACTOR :: double where "U_FACTOR = 2"
definition D_FACTOR :: double where "D_FACTOR = 1 / 2"

text \<open>The macros on the bitmap, a list of bytes.\<close>

definition SETBIT :: "8 word list \<Rightarrow> nat \<Rightarrow> 8 word list" where
  "SETBIT A k = A[k div 8 := (A ! (k div 8)) OR push_bit (k mod 8) 1]"

definition CLRBIT :: "8 word list \<Rightarrow> nat \<Rightarrow> 8 word list" where
  "CLRBIT A k = A[k div 8 := (A ! (k div 8)) AND NOT (push_bit (k mod 8) 1)]"

definition GETBIT :: "8 word list \<Rightarrow> nat \<Rightarrow> 8 word" where
  "GETBIT A k = drop_bit (k mod 8) ((A ! (k div 8)) AND push_bit (k mod 8) 1)"

text \<open>Division of \<open>int\<close> by two, towards zero.\<close>

definition half :: "int \<Rightarrow> int" where
  "half x = (if 0 \<le> x then x div 2 else - ((- x) div 2))"

text \<open>\<open>log2 (pma->size)\<close>, for a power of two.\<close>

definition log2_size :: "nat \<Rightarrow> nat option" where
  "log2_size n = (if n = 2 ^ (bit_len n - 1) then Some (bit_len n - 1) else None)"

definition PMA_new :: raizes_PMA where
  "PMA_new = \<lparr>r_array = replicate BASE_SIZE unset, r_bitmap = replicate (BASE_SIZE div 8) 0,
     r_size = BASE_SIZE, r_count = 0\<rparr>"

section \<open>Search\<close>

function next_greater_loop :: "raizes_PMA \<Rightarrow> int \<Rightarrow> int" where
  "next_greater_loop p index =
     (if index < int (r_size p) then
        if GETBIT (r_bitmap p) (nat index) \<noteq> 0 then index else next_greater_loop p (index + 1)
      else - 1)"
  by pat_completeness auto
termination
  by (relation "measure (\<lambda>(p, i). nat (int (r_size p) - i))") auto

declare next_greater_loop.simps [simp del]

definition next_greater :: "raizes_PMA \<Rightarrow> int \<Rightarrow> int" where
  "next_greater p index = next_greater_loop p (index + 1)"

function closest_loop :: "8 word list \<Rightarrow> int \<Rightarrow> int \<Rightarrow> int \<Rightarrow> int \<Rightarrow> int" where
  "closest_loop bm index b_lim t_lim radius =
     (let up = index + radius < t_lim;
          down = b_lim < index - radius;
          closest = (if up \<and> GETBIT bm (nat (index + radius)) \<noteq> 0 then index + radius else - 1);
          closest = (if down \<and> GETBIT bm (nat (index - radius)) \<noteq> 0 then index - radius else closest)
      in if closest \<noteq> - 1 \<or> (\<not> up \<and> \<not> down) then closest
         else closest_loop bm index b_lim t_lim (radius + 1))"
  by pat_completeness auto
termination
  by (relation "measure (\<lambda>(bm, i, b, t, r). nat (t - (i + r)) + nat ((i - r) - b))") auto

declare closest_loop.simps [simp del]

definition closest_in_range :: "raizes_PMA \<Rightarrow> int \<Rightarrow> int \<Rightarrow> int \<Rightarrow> int" where
  "closest_in_range p index b_lim t_lim = closest_loop (r_bitmap p) index b_lim t_lim 0"

definition closest_at :: "8 word list \<Rightarrow> int \<Rightarrow> int \<Rightarrow> int \<Rightarrow> int \<Rightarrow> int" where
  "closest_at bm i b t r =
     (if b < i - r \<and> GETBIT bm (nat (i - r)) \<noteq> 0 then i - r
      else if i + r < t \<and> GETBIT bm (nat (i + r)) \<noteq> 0 then i + r else - 1)"

lemma closest_loop_step:
  "closest_loop bm i b t r =
     (if closest_at bm i b t r \<noteq> - 1 \<or> (\<not> i + r < t \<and> \<not> b < i - r) then closest_at bm i b t r
      else closest_loop bm i b t (r + 1))"
  by (subst closest_loop.simps) (simp add: Let_def closest_at_def)

lemma closest_loop_range:
  assumes "b < i" "i < t" "0 \<le> r" "closest_loop bm i b t r \<noteq> - 1"
  shows "b < closest_loop bm i b t r \<and> closest_loop bm i b t r < t"
  using assms
proof (induction bm i b t r rule: closest_loop.induct)
  case (1 bm i b t r)
  have c: "closest_at bm i b t r \<noteq> - 1 \<Longrightarrow> b < closest_at bm i b t r \<and> closest_at bm i b t r < t"
    using "1.prems"(1-3) by (auto simp: closest_at_def)
  show ?case
  proof (cases "closest_at bm i b t r \<noteq> - 1 \<or> (\<not> i + r < t \<and> \<not> b < i - r)")
    case True
    then have "closest_loop bm i b t r = closest_at bm i b t r" by (simp add: closest_loop_step[of bm i b t r])
    then show ?thesis using c "1.prems"(4) by simp
  next
    case False
    have eq: "closest_loop bm i b t r = closest_loop bm i b t (r + 1)"
      unfolding closest_loop_step[of bm i b t r] by (rule if_not_P[OF False])
    have "b < closest_loop bm i b t (r + 1) \<and> closest_loop bm i b t (r + 1) < t"
      using "1.prems" eq False
      by (intro "1.IH"[OF refl refl refl refl]) (simp_all add: closest_at_def split: if_splits)
    then show ?thesis by (simp add: eq)
  qed
qed

lemma half_between: "b + 1 < t \<Longrightarrow> b < half (b + t) \<and> half (b + t) < t"
  unfolding half_def by auto

function recursive_find :: "raizes_PMA \<Rightarrow> int \<Rightarrow> int \<Rightarrow> int \<Rightarrow> int \<times> int \<times> int" where
  "recursive_find p k b_lim t_lim =
     (if t_lim - b_lim \<le> 1 then (b_lim, t_lim, - 1)
      else
        let cur = closest_in_range p (half (b_lim + t_lim)) b_lim t_lim in
        if cur = - 1 \<or> key (r_array p ! nat cur) = k then (b_lim, t_lim, cur)
        else if k < key (r_array p ! nat cur) then recursive_find p k b_lim cur
        else recursive_find p k cur t_lim)"
  by pat_completeness auto
termination
proof (relation "measure (\<lambda>(p, k, b, t). nat (t - b))", goal_cases)
  case (2 p k b t cur)
  then have "b < half (b + t)" "half (b + t) < t" using half_between[of b t] by auto
  then show ?case
    using 2 closest_loop_range[of b "half (b + t)" t 0 "r_bitmap p"] by (simp add: closest_in_range_def)
next
  case (3 p k b t cur)
  then have "b < half (b + t)" "half (b + t) < t" using half_between[of b t] by auto
  then show ?case
    using 3 closest_loop_range[of b "half (b + t)" t 0 "r_bitmap p"] by (simp add: closest_in_range_def)
qed simp

declare recursive_find.simps [simp del]

definition raizes_find :: "raizes_PMA \<Rightarrow> int \<Rightarrow> bool \<Rightarrow> int" where
  "raizes_find p k exact =
     (let (b, t, m) = recursive_find p k (- 1) (int (r_size p)) in
      if exact then m
      else if m \<noteq> - 1 then
        let next = next_greater p m;
            next = (if next = - 1 then int (r_size p) - 1 else next)
        in half (m + next)
      else half (b + t))"

definition PMA_find :: "raizes_PMA \<Rightarrow> int \<Rightarrow> int" where
  "PMA_find p k = raizes_find p k True"

text \<open>The pointer \<open>pma->array + index\<close> as the index, \<open>NULL\<close> as \<open>None\<close>.\<close>

definition PMA_get_pointer :: "raizes_PMA \<Rightarrow> int \<Rightarrow> nat option" where
  "PMA_get_pointer p k = (let index = raizes_find p k True in if index = - 1 then None else Some (nat index))"

definition PMA_get_count :: "raizes_PMA \<Rightarrow> int" where
  "PMA_get_count p = r_count p"

section \<open>Neighbourhoods\<close>

function count_loop :: "raizes_PMA \<Rightarrow> int \<Rightarrow> int \<Rightarrow> nat \<Rightarrow> nat" where
  "count_loop p i t_lim n =
     (if i < t_lim then count_loop p (i + 1) t_lim (n + unat (GETBIT (r_bitmap p) (nat i))) else n)"
  by pat_completeness auto
termination
  by (relation "measure (\<lambda>(p, i, t, n). nat (t - i))") auto

declare count_loop.simps [simp del]

definition count_in_range :: "raizes_PMA \<Rightarrow> int \<Rightarrow> int \<Rightarrow> nat" where
  "count_in_range p b_lim t_lim = count_loop p (b_lim + 1) t_lim 0"

text \<open>
  The window is widened while it is denser than the threshold (an insertion) or sparser
  (a removal), up to the size of the array. \<open>index / width\<close> is a division of integers.
\<close>

function upper_loop :: "raizes_PMA \<Rightarrow> nat \<Rightarrow> nat \<Rightarrow> nat \<Rightarrow> nat \<Rightarrow> nat \<Rightarrow> double \<Rightarrow> double \<Rightarrow> nat \<times> nat \<times> nat" where
  "upper_loop p index width lo hi n local_thrhld progression =
     (if 0 < width \<and> width < r_size p \<and> local_thrhld < ddiv (d_of_nat n) (d_of_nat width) then
        let width' = width * 2;
            lo' = index div width' * width';
            hi' = lo' + width';
            n1 = n + count_in_range p (int lo' - 1) (int lo);
            n2 = n1 + count_in_range p (int hi - 1) (int hi')
        in upper_loop p index width' lo' hi' n2 (dsub local_thrhld progression) progression
      else (lo, hi, n))"
  by pat_completeness auto
termination
  by (relation "measure (\<lambda>(p, i, w, b, t, n, l, pr). r_size p - w)") auto

declare upper_loop.simps [simp del]

definition find_upper_neighborhood :: "raizes_PMA \<Rightarrow> nat \<Rightarrow> (nat \<times> nat \<times> nat) option" where
  "find_upper_neighborhood p index = do {
     l \<leftarrow> log2_size (r_size p);
     let width = 2;
     let lo = index div width * width;
     let hi = lo + width;
     let progression = ddiv U_TRHLD (d_of_nat l);
     let local_thrhld = dsub 1 progression;
     let n = count_in_range p (int lo - 1) (int hi) + 1;
     Some (upper_loop p index width lo hi n local_thrhld progression) }"

function lower_loop :: "raizes_PMA \<Rightarrow> nat \<Rightarrow> nat \<Rightarrow> nat \<Rightarrow> nat \<Rightarrow> nat \<Rightarrow> double \<Rightarrow> double \<Rightarrow> nat \<times> nat \<times> nat" where
  "lower_loop p index width lo hi n local_thrhld progression =
     (if 0 < width \<and> width < r_size p \<and> ddiv (d_of_nat n) (d_of_nat width) < local_thrhld then
        let width' = width * 2;
            lo' = index div width' * width';
            hi' = lo' + width';
            n1 = n + count_in_range p (int lo' - 1) (int lo);
            n2 = n1 + count_in_range p (int hi - 1) (int hi')
        in lower_loop p index width' lo' hi' n2 (dadd local_thrhld progression) progression
      else (lo, hi, n))"
  by pat_completeness auto
termination
  by (relation "measure (\<lambda>(p, i, w, b, t, n, l, pr). r_size p - w)") auto

declare lower_loop.simps [simp del]

definition find_lower_neighborhood :: "raizes_PMA \<Rightarrow> nat \<Rightarrow> (nat \<times> nat \<times> nat) option" where
  "find_lower_neighborhood p index = do {
     l \<leftarrow> log2_size (r_size p);
     let width = 2;
     let lo = index div width * width;
     let hi = lo + width;
     let progression = ddiv L_TRHLD (d_of_nat l);
     let local_thrhld = progression;
     let n = count_in_range p (int lo - 1) (int hi);
     Some (lower_loop p index width lo hi n local_thrhld progression) }"

section \<open>Resizing and redistributing\<close>

text \<open>
  The loop of \<open>resize\<close>. \<open>next_greater\<close> restarts from the left after it returned \<open>-1\<close>; with
  a correct count the loop has ended by then. The argument \<open>ins\<close> is the pair to insert
  while the flag \<open>insert\<close> of the code is set.
\<close>

definition put_cell :: "raizes_PMA_element list \<times> 8 word list \<Rightarrow> nat \<Rightarrow> raizes_PMA_element
    \<Rightarrow> (raizes_PMA_element list \<times> 8 word list) option" where
  "put_cell s i e = (case s of (arr, bm) \<Rightarrow>
     if i < length arr then Some (arr[i := e], SETBIT bm i) else None)"

partial_function (option) resize_loop :: "raizes_PMA \<Rightarrow> nat \<Rightarrow> raizes_PMA_element list \<times> 8 word list
    \<Rightarrow> raizes_PMA_element option \<Rightarrow> int \<Rightarrow> nat \<Rightarrow> (raizes_PMA_element list \<times> 8 word list) option" where
  [code]: "resize_loop p new_size s ins cur n =
     (if int n < r_count p then do {
        let cur = next_greater p cur;
        (s, ins, n) \<leftarrow> (case ins of
            Some e \<Rightarrow>
              if cur = - 1 \<or> key e < key (r_array p ! nat cur)
              then do { s \<leftarrow> put_cell s (spaced new_size (nat (r_count p)) n) e; Some (s, None, n + 1) }
              else Some (s, ins, n)
          | None \<Rightarrow> Some (s, ins, n));
        (s, n) \<leftarrow>
          (if cur \<noteq> - 1
           then do { s \<leftarrow> put_cell s (spaced new_size (nat (r_count p)) n) (r_array p ! nat cur);
                     Some (s, n + 1) }
           else Some (s, n));
        resize_loop p new_size s ins cur n }
      else Some s)"

definition raizes_resize :: "raizes_PMA \<Rightarrow> double \<Rightarrow> raizes_PMA_element option \<Rightarrow> raizes_PMA option" where
  "raizes_resize p factor ins = do {
     let new_size = nat \<lceil>dmul (d_of_nat (r_size p)) factor\<rceil>;
     (arr, bm) \<leftarrow> resize_loop p new_size
       (replicate new_size unset, replicate (nat \<lceil>ddiv (d_of_nat new_size) 8\<rceil>) 0) ins (- 1) 0;
     Some (p\<lparr>r_array := arr, r_bitmap := bm, r_size := new_size\<rparr>) }"

text \<open>
  The first loop of \<open>redistribute\<close> moves the neighbourhood to \<open>temp\<close>, which has room for
  \<open>nbrhd[2]\<close> elements.
\<close>

definition push_temp :: "nat \<Rightarrow> raizes_PMA_element list \<Rightarrow> raizes_PMA_element \<Rightarrow> raizes_PMA_element list option" where
  "push_temp n temp e = (if length temp < n then Some (temp @ [e]) else None)"

partial_function (option) collect_loop :: "raizes_PMA \<Rightarrow> nat \<Rightarrow> nat \<Rightarrow> raizes_PMA_element list
    \<Rightarrow> raizes_PMA_element option \<Rightarrow> int \<Rightarrow> (raizes_PMA \<times> raizes_PMA_element list) option" where
  [code]: "collect_loop p hi n temp ins cur =
     (if length temp < n then do {
        let cur = next_greater p cur;
        (temp, ins) \<leftarrow> (case ins of
            Some e \<Rightarrow>
              if int hi \<le> cur \<or> cur = - 1 \<or> key e < key (r_array p ! nat cur)
              then do { temp \<leftarrow> push_temp n temp e; Some (temp, None) }
              else Some (temp, ins)
          | None \<Rightarrow> Some (temp, ins));
        (p, temp) \<leftarrow>
          (if cur < int hi \<and> cur \<noteq> - 1
           then do { temp \<leftarrow> push_temp n temp (r_array p ! nat cur);
                     Some (p\<lparr>r_bitmap := CLRBIT (r_bitmap p) (nat cur)\<rparr>, temp) }
           else Some (p, temp));
        collect_loop p hi n temp ins cur }
      else Some (p, temp))"

fun place_loop :: "raizes_PMA_element list \<times> 8 word list \<Rightarrow> nat \<Rightarrow> nat \<Rightarrow> nat \<Rightarrow> nat \<Rightarrow> raizes_PMA_element list
    \<Rightarrow> (raizes_PMA_element list \<times> 8 word list) option" where
  "place_loop s lo width n i [] = Some s"
| "place_loop s lo width n i (e # es) = do {
     s \<leftarrow> put_cell s (lo + spaced width n i) e;
     place_loop s lo width n (i + 1) es }"

definition redistribute :: "raizes_PMA \<Rightarrow> nat \<times> nat \<times> nat \<Rightarrow> raizes_PMA_element option \<Rightarrow> raizes_PMA option" where
  "redistribute p nbrhd ins = (case nbrhd of (lo, hi, n) \<Rightarrow> do {
     (p, temp) \<leftarrow> collect_loop p hi n [] ins (int lo - 1);
     (arr, bm) \<leftarrow> place_loop (r_array p, r_bitmap p) lo (hi - lo) n 0 temp;
     Some (p\<lparr>r_array := arr, r_bitmap := bm\<rparr>) })"

definition raizes_rebalance :: "raizes_PMA \<Rightarrow> nat \<Rightarrow> raizes_PMA_element option \<Rightarrow> (nat \<times> raizes_PMA) option" where
  "raizes_rebalance p index ins = do {
     (lo, hi, n) \<leftarrow> (if ins \<noteq> None then find_upper_neighborhood p index
                      else find_lower_neighborhood p index);
     p' \<leftarrow> (if lo = 0 \<and> hi = r_size p
           then raizes_resize p (if ins \<noteq> None then U_FACTOR else D_FACTOR) ins
           else redistribute p (lo, hi, n) ins);
     Some (n, p') }"

section \<open>Insertion and removal\<close>

definition PMA_insert :: "raizes_PMA \<Rightarrow> int \<Rightarrow> int \<Rightarrow> (nat \<times> raizes_PMA) option" where
  "PMA_insert p k v =
     (let index = nat (raizes_find p k False);
          p = p\<lparr>r_count := r_count p + 1\<rparr>;
          e = \<lparr>key = k, elem_value = v\<rparr> in
      if GETBIT (r_bitmap p) index \<noteq> 0 then raizes_rebalance p index (Some e)
      else do {
        (arr, bm) \<leftarrow> put_cell (r_array p, r_bitmap p) index e;
        Some (0, p\<lparr>r_array := arr, r_bitmap := bm\<rparr>) })"

definition PMA_remove :: "raizes_PMA \<Rightarrow> int \<Rightarrow> (nat \<times> raizes_PMA) option" where
  "PMA_remove p k =
     (let index = raizes_find p k True in
      if index = - 1 then Some (0, p)
      else raizes_rebalance
        (p\<lparr>r_bitmap := CLRBIT (r_bitmap p) (nat index), r_count := r_count p - 1\<rparr>) (nat index) None)"

section \<open>The class PMA_Raizes\<close>

definition PMA_Raizes_insert :: "raizes_PMA \<Rightarrow> int \<Rightarrow> int \<Rightarrow> raizes_PMA option" where
  "PMA_Raizes_insert p k v = map_option snd (PMA_insert p k v)"

definition PMA_Raizes_find :: "raizes_PMA \<Rightarrow> int \<Rightarrow> int" where
  "PMA_Raizes_find p k =
     (let index = PMA_find p k in if 0 \<le> index then elem_value (r_array p ! nat index) else - 1)"

definition PMA_Raizes_size :: "raizes_PMA \<Rightarrow> nat" where
  "PMA_Raizes_size p = nat (PMA_get_count p)"

function raizes_move :: "raizes_PMA \<Rightarrow> nat \<Rightarrow> nat" where
  "raizes_move p pos =
     (if pos < r_size p \<and> GETBIT (r_bitmap p) pos = 0 then raizes_move p (pos + 1) else pos)"
  by pat_completeness auto
termination
  by (relation "measure (\<lambda>(p, i). r_size p - i)") auto

declare raizes_move.simps [simp del]

definition raizes_hasNext :: "raizes_PMA \<Rightarrow> nat \<Rightarrow> bool" where
  "raizes_hasNext p pos \<longleftrightarrow> pos < r_size p"

definition raizes_next :: "raizes_PMA \<Rightarrow> nat \<Rightarrow> ((int \<times> int) \<times> nat) option" where
  "raizes_next p pos =
     (if pos < r_size p \<and> GETBIT (r_bitmap p) pos \<noteq> 0
      then let e = r_array p ! pos in Some ((key e, elem_value e), raizes_move p (pos + 1)) else None)"

fun raizes_drain :: "nat \<Rightarrow> raizes_PMA \<Rightarrow> nat \<Rightarrow> (int \<times> int) list option" where
  "raizes_drain 0 p pos = None"
| "raizes_drain (Suc fuel) p pos =
     (if raizes_hasNext p pos then
        (case raizes_next p pos of None \<Rightarrow> None
         | Some (kv, pos') \<Rightarrow> map_option ((#) kv) (raizes_drain fuel p pos'))
      else Some [])"

definition raizes_iterate :: "raizes_PMA \<Rightarrow> (int \<times> int) list option" where
  "raizes_iterate p = raizes_drain (Suc (r_size p)) p (raizes_move p 0)"

end
