(* ===== verification/Raizes_Proofs.thy ===== *)
theory Raizes_Proofs
  imports Raizes
begin

unbundle bit_operations_syntax

text \<open>
  The bitmap array keeps a sorted multiset: the binary search over used cells, the two
  neighbourhoods, the redistribution of a window and the resizing, seen as changes of the list of
  the elements in used cells.
\<close>

section \<open>The bitmap\<close>

definition bit_of :: "8 word list \<Rightarrow> nat \<Rightarrow> bool" where
  "bit_of bm j = bit (bm ! (j div 8)) (j mod 8)"

lemma GETBIT_bit_of: "GETBIT bm j = of_bool (bit_of bm j)"
  unfolding GETBIT_def bit_of_def by (rule bit_eqI) (auto simp: bit_simps)

lemma GETBIT_zero [simp]: "GETBIT bm j = 0 \<longleftrightarrow> \<not> bit_of bm j"
  by (simp add: GETBIT_bit_of)

lemma same_bit: "j div 8 = k div 8 \<and> j mod 8 = k mod 8 \<longleftrightarrow> j = (k :: nat)"
  by (metis div_mult_mod_eq)

lemma bit_of_SETBIT:
  assumes "k div 8 < length bm"
  shows "bit_of (SETBIT bm k) j \<longleftrightarrow> j = k \<or> bit_of bm j"
  using assms same_bit[of j k]
  by (auto simp: bit_of_def SETBIT_def nth_list_update bit_simps)

lemma bit_of_CLRBIT:
  assumes "k div 8 < length bm"
  shows "bit_of (CLRBIT bm k) j \<longleftrightarrow> j \<noteq> k \<and> bit_of bm j"
  using assms same_bit[of j k]
  by (auto simp: bit_of_def CLRBIT_def nth_list_update bit_simps)

lemma length_bits [simp]: "length (SETBIT bm k) = length bm" "length (CLRBIT bm k) = length bm"
  by (simp_all add: SETBIT_def CLRBIT_def)

lemma bit_of_zero [simp]: "j < 8 * n \<Longrightarrow> \<not> bit_of (replicate n 0) j"
  by (simp add: bit_of_def)

section \<open>Elements in used cells\<close>

definition elems_in :: "raizes_PMA_element list \<Rightarrow> 8 word list \<Rightarrow> nat \<Rightarrow> nat \<Rightarrow> raizes_PMA_element list" where
  "elems_in arr bm a b = map ((!) arr) (filter (bit_of bm) [a..<b])"

definition rcontent :: "raizes_PMA \<Rightarrow> raizes_PMA_element list" where
  "rcontent p = elems_in (r_array p) (r_bitmap p) 0 (r_size p)"

lemma elems_in_out [simp]: "b \<le> a \<Longrightarrow> elems_in arr bm a b = []"
  by (simp add: elems_in_def)

lemma elems_in_split: "a \<le> b \<Longrightarrow> b \<le> c \<Longrightarrow> elems_in arr bm a c = elems_in arr bm a b @ elems_in arr bm b c"
proof -
  assume "a \<le> b" "b \<le> c"
  then have "[a..<c] = [a..<b] @ [b..<c]" by (metis le_add_diff_inverse upt_add_eq_append)
  then show ?thesis by (simp add: elems_in_def)
qed

lemma elems_in_first:
  "a < b \<Longrightarrow> elems_in arr bm a b = (if bit_of bm a then [arr ! a] else []) @ elems_in arr bm (Suc a) b"
  by (simp add: elems_in_def upt_conv_Cons)

lemma elems_in_empty: "(\<And>j. a \<le> j \<Longrightarrow> j < b \<Longrightarrow> \<not> bit_of bm j) \<Longrightarrow> elems_in arr bm a b = []"
  by (simp add: elems_in_def filter_empty_conv)

lemma elems_in_cong:
  assumes "\<And>j. a \<le> j \<Longrightarrow> j < b \<Longrightarrow> bit_of bm j = bit_of bm' j"
    and "\<And>j. a \<le> j \<Longrightarrow> j < b \<Longrightarrow> bit_of bm j \<Longrightarrow> arr ! j = arr' ! j"
  shows "elems_in arr bm a b = elems_in arr' bm' a b"
proof -
  have "filter (bit_of bm) [a..<b] = filter (bit_of bm') [a..<b]"
    using assms(1) by (intro filter_cong) auto
  moreover have "map ((!) arr) (filter (bit_of bm) [a..<b]) = map ((!) arr') (filter (bit_of bm) [a..<b])"
    using assms(2) by (intro map_cong) auto
  ultimately show ?thesis by (simp add: elems_in_def)
qed

lemma set_elems_in: "x \<in> set (elems_in arr bm a b) \<longleftrightarrow> (\<exists>j. a \<le> j \<and> j < b \<and> bit_of bm j \<and> x = arr ! j)"
  by (auto simp: elems_in_def)

lemma length_elems_in: "length (elems_in arr bm a b) = length (filter (bit_of bm) [a..<b])"
  by (simp add: elems_in_def)

lemma length_elems_in_le: "length (elems_in arr bm a b) \<le> b - a"
  unfolding length_elems_in by (rule order_trans[OF length_filter_le]) simp

lemma sorted_elems_in:
  "sorted (map key (elems_in arr bm a b))
    \<longleftrightarrow> (\<forall>i j. a \<le> i \<longrightarrow> i < j \<longrightarrow> j < b \<longrightarrow> bit_of bm i \<longrightarrow> bit_of bm j \<longrightarrow> key (arr ! i) \<le> key (arr ! j))"
proof (induction "b - a" arbitrary: a)
  case 0
  then show ?case by auto
next
  case (Suc d)
  then have ab: "a < b" and IH: "sorted (map key (elems_in arr bm (Suc a) b))
    \<longleftrightarrow> (\<forall>i j. Suc a \<le> i \<longrightarrow> i < j \<longrightarrow> j < b \<longrightarrow> bit_of bm i \<longrightarrow> bit_of bm j \<longrightarrow> key (arr ! i) \<le> key (arr ! j))"
    by simp_all
  have split: "(\<forall>i j. a \<le> i \<longrightarrow> i < j \<longrightarrow> j < b \<longrightarrow> Q i j) \<longleftrightarrow>
    (\<forall>j. a < j \<longrightarrow> j < b \<longrightarrow> Q a j) \<and> (\<forall>i j. Suc a \<le> i \<longrightarrow> i < j \<longrightarrow> j < b \<longrightarrow> Q i j)" for Q
    by (metis Suc_leD Suc_leI le_eq_less_or_eq)
  have "sorted (map key (elems_in arr bm a b)) \<longleftrightarrow>
      (\<forall>j. a < j \<longrightarrow> j < b \<longrightarrow> bit_of bm a \<longrightarrow> bit_of bm j \<longrightarrow> key (arr ! a) \<le> key (arr ! j))
      \<and> sorted (map key (elems_in arr bm (Suc a) b))"
  proof -
    have "(\<forall>x \<in> set (elems_in arr bm (Suc a) b). R x) \<longleftrightarrow> (\<forall>j. a < j \<longrightarrow> j < b \<longrightarrow> bit_of bm j \<longrightarrow> R (arr ! j))" for R
      by (metis set_elems_in Suc_le_eq)
    then show ?thesis by (subst elems_in_first[OF ab]) auto
  qed
  then show ?case unfolding IH by (subst split) blast
qed

section \<open>Well-formed arrays\<close>

definition r_wf :: "raizes_PMA \<Rightarrow> bool" where
  "r_wf p \<longleftrightarrow> length (r_array p) = r_size p \<and> r_size p \<le> 8 * length (r_bitmap p)
     \<and> (\<exists>k. r_size p = 2 ^ k \<and> 1 \<le> k \<and> k \<le> 29)"

definition raizes_inv :: "raizes_PMA \<Rightarrow> bool" where
  "raizes_inv p \<longleftrightarrow> r_wf p \<and> sorted (map key (rcontent p)) \<and> r_count p = int (length (rcontent p))"

abbreviation used :: "raizes_PMA \<Rightarrow> nat \<Rightarrow> bool" where
  "used p \<equiv> bit_of (r_bitmap p)"

abbreviation cell_key :: "raizes_PMA \<Rightarrow> nat \<Rightarrow> int" where
  "cell_key p j \<equiv> key (r_array p ! j)"

lemma rcontent_sorted_nth:
  "sorted (map key (rcontent p)) \<Longrightarrow> i < j \<Longrightarrow> j < r_size p \<Longrightarrow> used p i \<Longrightarrow> used p j
    \<Longrightarrow> cell_key p i \<le> cell_key p j"
  unfolding rcontent_def sorted_elems_in by simp

section \<open>Search\<close>

lemma next_greater_loop_spec:
  "next_greater_loop p (int a) =
     (if \<exists>j. a \<le> j \<and> j < r_size p \<and> used p j
      then int (LEAST j. a \<le> j \<and> j < r_size p \<and> used p j) else - 1)"
proof (induction p "int a" arbitrary: a rule: next_greater_loop.induct)
  case (1 p)
  show ?case
  proof (cases "a < r_size p")
    case False
    then show ?thesis by (subst next_greater_loop.simps) auto
  next
    case ap: True
    show ?thesis
    proof (cases "used p a")
      case True
      then have "(LEAST j. a \<le> j \<and> j < r_size p \<and> used p j) = a"
        using ap by (intro Least_equality) auto
      then show ?thesis using True ap by (subst next_greater_loop.simps) auto
    next
      case False
      have IH: "next_greater_loop p (int (Suc a)) =
          (if \<exists>j. Suc a \<le> j \<and> j < r_size p \<and> used p j
           then int (LEAST j. Suc a \<le> j \<and> j < r_size p \<and> used p j) else - 1)"
        using "1.hyps"[of "Suc a"] ap False by simp
      have same: "(Suc a \<le> j \<and> j < r_size p \<and> used p j) = (a \<le> j \<and> j < r_size p \<and> used p j)" for j
        using False by (metis Suc_leD Suc_leI le_eq_less_or_eq)
      have "next_greater_loop p (int a) = next_greater_loop p (int (Suc a))"
        using ap False by (subst next_greater_loop.simps) (simp add: add.commute)
      then show ?thesis using IH unfolding same by simp
    qed
  qed
qed

lemma next_greater_cases:
  obtains (none) "next_greater p (int a - 1) = - 1" "\<And>j. a \<le> j \<Longrightarrow> j < r_size p \<Longrightarrow> \<not> used p j"
  | (some) n where "next_greater p (int a - 1) = int n" "a \<le> n" "n < r_size p" "used p n"
      "\<And>j. a \<le> j \<Longrightarrow> j < n \<Longrightarrow> \<not> used p j"
proof (cases "\<exists>j. a \<le> j \<and> j < r_size p \<and> used p j")
  case False
  then show thesis using none next_greater_loop_spec[of p a] by (auto simp: next_greater_def)
next
  case True
  define n where "n = (LEAST j. a \<le> j \<and> j < r_size p \<and> used p j)"
  have "a \<le> n \<and> n < r_size p \<and> used p n" unfolding n_def by (rule LeastI_ex[OF True])
  moreover have "\<not> used p j" if "a \<le> j" "j < n" for j
    using not_less_Least[of j "\<lambda>j. a \<le> j \<and> j < r_size p \<and> used p j"] that calculation
    by (auto simp: n_def)
  moreover have "next_greater p (int a - 1) = int n"
    using next_greater_loop_spec[of p a] True by (simp add: next_greater_def n_def)
  ultimately show thesis using some by blast
qed

lemma closest_loop_spec:
  assumes "- 1 \<le> b" "b < i" "i < t" "0 \<le> r"
    and "\<And>j. i - r < j \<Longrightarrow> j < i + r \<Longrightarrow> b < j \<Longrightarrow> j < t \<Longrightarrow> \<not> bit_of bm (nat j)"
  shows "closest_loop bm i b t r = - 1 \<and> (\<forall>j. b < j \<longrightarrow> j < t \<longrightarrow> \<not> bit_of bm (nat j))
    \<or> b < closest_loop bm i b t r \<and> closest_loop bm i b t r < t \<and> bit_of bm (nat (closest_loop bm i b t r))"
  using assms
proof (induction bm i b t r rule: closest_loop.induct)
  case (1 bm i b t r)
  have c: "closest_at bm i b t r \<noteq> - 1 \<Longrightarrow> b < closest_at bm i b t r \<and> closest_at bm i b t r < t
      \<and> bit_of bm (nat (closest_at bm i b t r))"
    using "1.prems"(2-4) by (auto simp: closest_at_def split: if_splits)
  show ?case
  proof (cases "closest_at bm i b t r \<noteq> - 1 \<or> (\<not> i + r < t \<and> \<not> b < i - r)")
    case True
    then have eq: "closest_loop bm i b t r = closest_at bm i b t r" by (simp add: closest_loop_step[of bm i b t r])
    show ?thesis
    proof (cases "closest_at bm i b t r = - 1")
      case cm: True
      then have "\<not> i + r < t" "\<not> b < i - r" using True by simp_all
      then show ?thesis using "1.prems"(5) eq cm by auto
    next
      case False
      then show ?thesis using c eq by simp
    qed
  next
    case False
    have eq: "closest_loop bm i b t r = closest_loop bm i b t (r + 1)"
      unfolding closest_loop_step[of bm i b t r] by (rule if_not_P[OF False])
    have at: "closest_at bm i b t r = - 1" using False by simp
    have free: "\<not> bit_of bm (nat j)" if "i - (r + 1) < j" "j < i + (r + 1)" "b < j" "j < t" for j
    proof (cases "i - r < j \<and> j < i + r")
      case True
      then show ?thesis using "1.prems"(5) that by blast
    next
      case False
      have j: "j \<noteq> - 1" using "1.prems"(1) that by linarith
      have "j = i - r \<or> j = i + r" using that False by linarith
      then show ?thesis
      proof
        assume e: "j = i - r"
        then show ?thesis using at that(3) j unfolding closest_at_def e[symmetric] by (auto split: if_splits)
      next
        assume e: "j = i + r"
        have "0 \<le> i - r \<Longrightarrow> i - r \<noteq> - 1" by simp
        then show ?thesis
          using at that(4) j "1.prems"(1) unfolding closest_at_def e[symmetric] by (auto split: if_splits)
      qed
    qed
    show ?thesis
      unfolding eq
    proof (rule "1.IH"[OF refl refl refl refl], goal_cases)
      case 1
      then show ?case using False by (simp add: closest_at_def split: if_splits)
    next
      case (6 j)
      then show ?case by (rule free)
    qed (use "1.prems"(1-4) in simp_all)
  qed
qed

text \<open>
  The range that \<open>recursive_find\<close> returns is bounded by used cells with smaller and greater
  keys (or by the ends of the array); its third component is a cell with the key, or \<open>-1\<close> and
  then no cell of the range is used.
\<close>

definition found_range :: "raizes_PMA \<Rightarrow> int \<Rightarrow> int \<Rightarrow> int \<Rightarrow> bool" where
  "found_range p k b t \<longleftrightarrow> - 1 \<le> b \<and> b < t \<and> t \<le> int (r_size p)
     \<and> (b = - 1 \<or> used p (nat b) \<and> cell_key p (nat b) < k)
     \<and> (t = int (r_size p) \<or> used p (nat t) \<and> k < cell_key p (nat t))"

lemma recursive_find_spec:
  assumes "found_range p k b t"
  shows "\<exists>b' t' m. recursive_find p k b t = (b', t', m) \<and> found_range p k b' t'
    \<and> (if m = - 1 then \<forall>j. b' < j \<longrightarrow> j < t' \<longrightarrow> \<not> used p (nat j)
       else b' < m \<and> m < t' \<and> used p (nat m) \<and> cell_key p (nat m) = k)"
  using assms
proof (induction p k b t rule: recursive_find.induct)
  case (1 p k b t)
  show ?case
  proof (cases "t - b \<le> 1")
    case True
    then have "recursive_find p k b t = (b, t, - 1)" by (subst recursive_find.simps) simp
    then show ?thesis using "1.prems" True by auto
  next
    case False
    define cur where "cur = closest_in_range p (half (b + t)) b t"
    have bt: "- 1 \<le> b" "b < half (b + t)" "half (b + t) < t"
      using "1.prems" False half_between[of b t] by (simp_all add: found_range_def)
    have c: "cur = - 1 \<and> (\<forall>j. b < j \<longrightarrow> j < t \<longrightarrow> \<not> used p (nat j)) \<or> b < cur \<and> cur < t \<and> used p (nat cur)"
      unfolding cur_def closest_in_range_def by (intro closest_loop_spec[OF bt]) simp_all
    have unf: "recursive_find p k b t =
        (if cur = - 1 \<or> cell_key p (nat cur) = k then (b, t, cur)
         else if k < cell_key p (nat cur) then recursive_find p k b cur else recursive_find p k cur t)"
      using False by (subst recursive_find.simps) (simp add: Let_def cur_def)
    consider "cur = - 1" | "cur \<noteq> - 1" "cell_key p (nat cur) = k"
      | "cur \<noteq> - 1" "cell_key p (nat cur) < k" | "cur \<noteq> - 1" "k < cell_key p (nat cur)" by linarith
    then show ?thesis
    proof cases
      case 1
      then show ?thesis using c "1.prems" bt unf by auto
    next
      case 2
      then show ?thesis using c "1.prems" unf by auto
    next
      case 3
      then have "found_range p k cur t" using c "1.prems" bt by (auto simp: found_range_def)
      then show ?thesis using 3 unf "1.IH"(2)[OF False cur_def] by simp
    next
      case 4
      then have "found_range p k b cur" using c "1.prems" bt by (auto simp: found_range_def)
      then show ?thesis using 4 unf "1.IH"(1)[OF False cur_def] by simp
    qed
  qed
qed

lemma find_range_start: "0 < r_size p \<Longrightarrow> found_range p k (- 1) (int (r_size p))"
  by (simp add: found_range_def)

text \<open>The place for an insertion: no used cell before it is greater, none after it is smaller.\<close>

lemma used_below:
  assumes "sorted (map key (rcontent p))" "used p i" "j \<le> i" "i < r_size p" "used p j"
  shows "cell_key p j \<le> cell_key p i"
  using assms rcontent_sorted_nth[of p j i] by (cases "j = i") simp_all

lemma raizes_find_place:
  assumes wf: "r_wf p" and srt: "sorted (map key (rcontent p))"
  shows "\<exists>i. raizes_find p k False = int i \<and> i < r_size p
    \<and> (\<forall>j < i. used p j \<longrightarrow> cell_key p j \<le> k)
    \<and> (\<forall>j. i < j \<longrightarrow> j < r_size p \<longrightarrow> used p j \<longrightarrow> k \<le> cell_key p j)"
proof -
  have sz: "0 < r_size p" using wf by (auto simp: r_wf_def)
  obtain b t m where rf: "recursive_find p k (- 1) (int (r_size p)) = (b, t, m)" "found_range p k b t"
    "if m = - 1 then \<forall>j. b < j \<longrightarrow> j < t \<longrightarrow> \<not> used p (nat j)
       else b < m \<and> m < t \<and> used p (nat m) \<and> cell_key p (nat m) = k"
    using recursive_find_spec[OF find_range_start[OF sz], of k] by blast
  show ?thesis
  proof (cases "m = - 1")
    case False
    then have m: "b < m" "m < t" "used p (nat m)" "cell_key p (nat m) = k" using rf(3) by simp_all
    define a where "a = nat m"
    have a: "m = int a" "a < r_size p" "used p a" "cell_key p a = k"
      using m rf(2) by (auto simp: a_def found_range_def)
    have next_at: "next_greater p m = next_greater p (int (Suc a) - 1)" using a(1) by simp
    show ?thesis
    proof (cases rule: next_greater_cases[where p = p and a = "Suc a"])
      case none
      define i where "i = (a + (r_size p - 1)) div 2"
      have i: "a \<le> i" "i < r_size p" using a(2) by (auto simp: i_def)
      have "raizes_find p k False = int i"
        using rf(1) False none(1) next_at a(1,2) sz
        by (simp add: raizes_find_def half_def i_def of_nat_diff zdiv_int)
      moreover have "cell_key p j \<le> k" if "j < i" "used p j" for j
      proof -
        have "j < r_size p" using that i(2) by simp
        then have "\<not> Suc a \<le> j" using none(2) that(2) by blast
        then show ?thesis using used_below[OF srt a(3) _ a(2) that(2)] a(4) by simp
      qed
      moreover have "\<forall>j. i < j \<longrightarrow> j < r_size p \<longrightarrow> used p j \<longrightarrow> k \<le> cell_key p j"
        using none(2) i(1) by auto
      ultimately show ?thesis using i(2) by blast
    next
      case (some n)
      define i where "i = (a + n) div 2"
      have i: "a \<le> i" "i < n" using some(2) by (auto simp: i_def)
      have "raizes_find p k False = int i"
        using rf(1) False some(1) next_at a(1) by (simp add: raizes_find_def half_def i_def zdiv_int)
      moreover have "cell_key p j \<le> k" if "j < i" "used p j" for j
      proof -
        have "j < n" using that i(2) by simp
        then have "\<not> Suc a \<le> j" using some(5) that(2) by blast
        then show ?thesis using used_below[OF srt a(3) _ a(2) that(2)] a(4) by simp
      qed
      moreover have "k \<le> cell_key p j" if "i < j" "j < r_size p" "used p j" for j
        using used_below[OF srt that(3) _ that(2) a(3)] a(4) i(1) that(1) by simp
      moreover have "i < r_size p" using i(2) some(3) by simp
      ultimately show ?thesis by blast
    qed
  next
    case True
    then have free: "\<not> used p (nat j)" if "b < j" "j < t" for j using rf(3) that by simp
    have bt: "- 1 \<le> b" "b < t" "t \<le> int (r_size p)"
      and b: "b = - 1 \<or> used p (nat b) \<and> cell_key p (nat b) < k"
      and t: "t = int (r_size p) \<or> used p (nat t) \<and> k < cell_key p (nat t)"
      using rf(2) by (auto simp: found_range_def)
    define i where "i = half (b + t)"
    have i: "0 \<le> i" "b \<le> i" "i < t \<or> i = 0 \<and> t = 0" using bt by (auto simp: i_def half_def)
    have lo: "cell_key p j \<le> k" if "int j \<le> b" "used p j" for j
    proof -
      have "b \<noteq> - 1" using that by linarith
      then have "cell_key p j \<le> cell_key p (nat b)" "cell_key p (nat b) < k"
        using b used_below[OF srt, of "nat b" j] that bt by auto
      then show ?thesis by simp
    qed
    have hi: "k \<le> cell_key p j" if "t \<le> int j" "used p j" "j < r_size p" for j
    proof -
      have "t \<noteq> int (r_size p)" using that by linarith
      then have "cell_key p (nat t) \<le> cell_key p j" "k < cell_key p (nat t)"
        using t used_below[OF srt that(2) _ that(3), of "nat t"] that by auto
      then show ?thesis by simp
    qed
    have "\<forall>j < nat i. used p j \<longrightarrow> cell_key p j \<le> k"
    proof (intro allI impI)
      fix j assume j: "j < nat i" "used p j"
      then have "int j \<le> b \<or> t \<le> int j" using free[of "int j"] by force
      then show "cell_key p j \<le> k" using lo j i by auto
    qed
    moreover have "\<forall>j. nat i < j \<longrightarrow> j < r_size p \<longrightarrow> used p j \<longrightarrow> k \<le> cell_key p j"
    proof (intro allI impI)
      fix j assume j: "nat i < j" "j < r_size p" "used p j"
      then have "t \<le> int j" using free[of "int j"] i by force
      then show "k \<le> cell_key p j" using hi j by blast
    qed
    moreover have "raizes_find p k False = int (nat i)"
      using rf(1) True i(1) by (simp add: raizes_find_def i_def)
    moreover have "nat i < r_size p" using i bt sz by auto
    ultimately show ?thesis by blast
  qed
qed

lemma raizes_find_exact:
  assumes wf: "r_wf p" and srt: "sorted (map key (rcontent p))"
  shows "PMA_find p k = - 1 \<and> k \<notin> key ` set (rcontent p)
    \<or> (\<exists>i < r_size p. PMA_find p k = int i \<and> used p i \<and> cell_key p i = k)"
proof -
  have sz: "0 < r_size p" using wf by (auto simp: r_wf_def)
  obtain b t m where rf: "recursive_find p k (- 1) (int (r_size p)) = (b, t, m)" "found_range p k b t"
    "if m = - 1 then \<forall>j. b < j \<longrightarrow> j < t \<longrightarrow> \<not> used p (nat j)
       else b < m \<and> m < t \<and> used p (nat m) \<and> cell_key p (nat m) = k"
    using recursive_find_spec[OF find_range_start[OF sz], of k] by blast
  have pf: "PMA_find p k = m" using rf(1) by (simp add: PMA_find_def raizes_find_def)
  show ?thesis
  proof (cases "m = - 1")
    case False
    then have m: "b < m" "m < t" "used p (nat m)" "cell_key p (nat m) = k" using rf(3) by simp_all
    then have "0 \<le> m" "nat m < r_size p" using rf(2) by (auto simp: found_range_def)
    then show ?thesis using m(3,4) pf by (intro disjI2 exI[of _ "nat m"]) simp
  next
    case True
    have "cell_key p j \<noteq> k" if j: "j < r_size p" "used p j" for j
    proof -
      have "\<not> (b < int j \<and> int j < t)" using rf(3) True j(2) by auto
      then have "int j \<le> b \<or> t \<le> int j" by linarith
      then show ?thesis
      proof
        assume "int j \<le> b"
        then have "0 \<le> b" "used p (nat b)" "cell_key p (nat b) < k" "j \<le> nat b" "nat b < r_size p"
          using rf(2) by (auto simp: found_range_def)
        then show ?thesis using used_below[OF srt, of "nat b" j] j by simp
      next
        assume "t \<le> int j"
        then have "used p (nat t)" "k < cell_key p (nat t)" "nat t \<le> j"
          using rf(2) j(1) by (auto simp: found_range_def)
        then show ?thesis using used_below[OF srt j(2) _ j(1), of "nat t"] by simp
      qed
    qed
    then have "\<forall>x \<in> set (rcontent p). key x \<noteq> k" unfolding rcontent_def Ball_def set_elems_in by blast
    then have "k \<notin> key ` set (rcontent p)" by blast
    then show ?thesis using pf True by simp
  qed
qed

section \<open>Inserting into a sorted list\<close>

fun ins_elem :: "raizes_PMA_element \<Rightarrow> raizes_PMA_element list \<Rightarrow> raizes_PMA_element list" where
  "ins_elem e [] = [e]"
| "ins_elem e (x # xs) = (if key e < key x then e # x # xs else x # ins_elem e xs)"

fun ins_opt :: "raizes_PMA_element option \<Rightarrow> raizes_PMA_element list \<Rightarrow> raizes_PMA_element list" where
  "ins_opt None xs = xs"
| "ins_opt (Some e) xs = ins_elem e xs"

lemma mset_ins_elem [simp]: "mset (ins_elem e xs) = add_mset e (mset xs)"
  by (induction e xs rule: ins_elem.induct) simp_all

lemma set_ins_elem [simp]: "set (ins_elem e xs) = insert e (set xs)"
  by (induction e xs rule: ins_elem.induct) auto

lemma length_ins_elem [simp]: "length (ins_elem e xs) = Suc (length xs)"
  by (induction e xs rule: ins_elem.induct) simp_all

lemma length_ins_opt: "length (ins_opt ins xs) = length xs + (if ins = None then 0 else 1)"
  by (cases ins) simp_all

lemma ins_opt_Nil: "ins_opt ins [] = (case ins of None \<Rightarrow> [] | Some e \<Rightarrow> [e])"
  by (cases ins) simp_all

lemma sorted_ins_elem: "sorted (map key xs) \<Longrightarrow> sorted (map key (ins_elem e xs))"
  by (induction e xs rule: ins_elem.induct) auto

section \<open>Placing elements at spaced positions\<close>

lemma place_loop_spec:
  assumes "i + length es = n" "n \<le> w" "w < 2 ^ 50" "lo + w \<le> length arr" "length arr \<le> 8 * length bm"
    and "\<And>j. lo + spaced w n i \<le> j \<Longrightarrow> j < lo + w \<Longrightarrow> \<not> bit_of bm j"
  shows "\<exists>arr' bm'. place_loop (arr, bm) lo w n i es = Some (arr', bm')
    \<and> length arr' = length arr \<and> length bm' = length bm
    \<and> elems_in arr' bm' (lo + spaced w n i) (lo + w) = es
    \<and> (\<forall>j. j < lo + spaced w n i \<or> lo + w \<le> j \<longrightarrow> arr' ! j = arr ! j \<and> bit_of bm' j = bit_of bm j)"
  using assms
proof (induction es arbitrary: i arr bm)
  case Nil
  then show ?case by (auto intro!: elems_in_empty)
next
  case (Cons e es)
  let ?f = "spaced w n"
  have i: "i < n" "0 < n" using Cons.prems(1) by simp_all
  have fw: "?f i < w" by (rule spaced_less) (use i Cons.prems in simp_all)
  have fS: "?f i < ?f (Suc i)" by (rule spaced_Suc) (use i Cons.prems in simp_all)
  have fSw: "?f (Suc i) \<le> w"
  proof (cases "Suc i < n")
    case True
    then show ?thesis using spaced_less[of n w "Suc i"] Cons.prems(2,3) i(2) by simp
  next
    case False
    then have "Suc i = n" using i(1) by simp
    then show ?thesis using spaced_top[of n w] Cons.prems(2,3) i(2) by simp
  qed
  define k where "k = lo + ?f i"
  have k: "k < length arr" "k div 8 < length bm" using fw Cons.prems(4,5) by (auto simp: k_def)
  define arr1 where "arr1 = arr[k := e]"
  define bm1 where "bm1 = SETBIT bm k"
  have b1: "bit_of bm1 j \<longleftrightarrow> j = k \<or> bit_of bm j" for j using k(2) by (simp add: bm1_def bit_of_SETBIT)
  have "\<exists>arr' bm'. place_loop (arr1, bm1) lo w n (Suc i) es = Some (arr', bm')
    \<and> length arr' = length arr1 \<and> length bm' = length bm1
    \<and> elems_in arr' bm' (lo + ?f (Suc i)) (lo + w) = es
    \<and> (\<forall>j. j < lo + ?f (Suc i) \<or> lo + w \<le> j \<longrightarrow> arr' ! j = arr1 ! j \<and> bit_of bm' j = bit_of bm1 j)"
  proof (rule Cons.IH)
    show "\<And>j. lo + ?f (Suc i) \<le> j \<Longrightarrow> j < lo + w \<Longrightarrow> \<not> bit_of bm1 j"
      using Cons.prems(6) fS by (simp add: b1 k_def)
  qed (use Cons.prems in \<open>simp_all add: arr1_def bm1_def\<close>)
  then obtain arr' bm' where r: "place_loop (arr1, bm1) lo w n (Suc i) es = Some (arr', bm')"
    "length arr' = length arr1" "length bm' = length bm1"
    "elems_in arr' bm' (lo + ?f (Suc i)) (lo + w) = es"
    "\<And>j. j < lo + ?f (Suc i) \<or> lo + w \<le> j \<Longrightarrow> arr' ! j = arr1 ! j \<and> bit_of bm' j = bit_of bm1 j"
    by blast
  have at: "arr' ! k = e" "bit_of bm' k" using r(5)[of k] fS k(1) b1 by (simp_all add: arr1_def k_def)
  have gap: "elems_in arr' bm' (Suc k) (lo + ?f (Suc i)) = []"
  proof (rule elems_in_empty)
    fix j assume j: "Suc k \<le> j" "j < lo + ?f (Suc i)"
    then have "\<not> bit_of bm j" using Cons.prems(6)[of j] fSw by (simp add: k_def)
    then show "\<not> bit_of bm' j" using r(5)[of j] j b1 by simp
  qed
  have "elems_in arr' bm' k (lo + w) = e # elems_in arr' bm' (Suc k) (lo + w)"
    using at fw by (subst elems_in_first) (simp_all add: k_def)
  also have "elems_in arr' bm' (Suc k) (lo + w) = es"
    using elems_in_split[of "Suc k" "lo + ?f (Suc i)" "lo + w" arr' bm'] gap r(4) fS fSw by (simp add: k_def)
  finally have el: "elems_in arr' bm' (lo + ?f i) (lo + w) = e # es" by (simp add: k_def)
  have "place_loop (arr, bm) lo w n i (e # es) = Some (arr', bm')"
    using r(1) k(1) by (simp add: put_cell_def arr1_def bm1_def k_def)
  moreover have "\<forall>j. j < lo + ?f i \<or> lo + w \<le> j \<longrightarrow> arr' ! j = arr ! j \<and> bit_of bm' j = bit_of bm j"
  proof (intro allI impI)
    fix j assume j: "j < lo + ?f i \<or> lo + w \<le> j"
    then have "j \<noteq> k" using fw by (auto simp: k_def)
    moreover have "j < lo + ?f (Suc i) \<or> lo + w \<le> j" using j fS by auto
    ultimately show "arr' ! j = arr ! j \<and> bit_of bm' j = bit_of bm j"
      using r(5)[of j] by (simp add: arr1_def b1)
  qed
  ultimately show ?case using el r(2,3) by (simp add: arr1_def bm1_def)
qed

section \<open>The loops of resize and redistribute\<close>

lemma elems_in_next:
  assumes "a \<le> n" "n < b" "bit_of bm n" "\<And>j. a \<le> j \<Longrightarrow> j < n \<Longrightarrow> \<not> bit_of bm j"
  shows "elems_in arr bm a b = arr ! n # elems_in arr bm (Suc n) b"
  using assms elems_in_split[of a n b arr bm] elems_in_empty[of a n bm arr]
  by (simp add: elems_in_first[of n b])

text \<open>With a correct count the loop of \<open>resize\<close> ends and places the elements in order.\<close>

lemma resize_loop_spec:
  assumes "r_count p = int N" "N = n + length (ins_opt ins (elems_in (r_array p) (r_bitmap p) a (r_size p)))"
  shows "resize_loop p ns s ins (int a - 1) n
    = place_loop s 0 ns N n (ins_opt ins (elems_in (r_array p) (r_bitmap p) a (r_size p)))"
  using assms
proof (induction "r_size p - a" arbitrary: a ins n s rule: less_induct)
  case less
  let ?E = "\<lambda>a. elems_in (r_array p) (r_bitmap p) a (r_size p)"
  show ?case
  proof (cases "n < N")
    case False
    then have "ins_opt ins (?E a) = []" using less.prems(2) by simp
    then show ?thesis using False less.prems(1) by (subst resize_loop.simps) simp
  next
    case True
    show ?thesis
    proof (cases rule: next_greater_cases[where p = p and a = a])
      case none
      have Ea: "?E a = []" by (rule elems_in_empty) (use none(2) in blast)
      then obtain e where ins: "ins = Some e" using True less.prems(2) by (cases ins) auto
      have N: "N = Suc n" using less.prems(2) Ea ins by simp
      have fin: "resize_loop p ns s' None (- 1) N = Some s'" for s'
        using less.prems(1) by (subst resize_loop.simps) simp
      have nN: "nat (1 + int n) = Suc n" by simp
      show ?thesis using True less.prems(1) none(1) Ea ins N fin nN
        by (subst resize_loop.simps) (auto split: Option.bind_split)
    next
      case (some m)
      have Ea: "?E a = r_array p ! m # ?E (Suc m)"
        by (rule elems_in_next) (use some in blast)+
      have dec: "r_size p - Suc m < r_size p - a" using some(2,3) by simp
      have m1: "int m \<noteq> - 1" by simp
      show ?thesis
      proof (cases "\<exists>e. ins = Some e \<and> key e < key (r_array p ! m)")
        case True
        then obtain e where e: "ins = Some e" "key e < key (r_array p ! m)" by blast
        have N: "N = Suc (Suc n) + length (ins_opt None (?E (Suc m)))" using less.prems(2) Ea e by simp
        have IH: "resize_loop p ns s' None (int m) (Suc (Suc n))
            = place_loop s' 0 ns N (Suc (Suc n)) (?E (Suc m))" for s'
          using less.hyps[OF dec less.prems(1) N, of s'] by simp
        show ?thesis using \<open>n < N\<close> less.prems(1) some(1) Ea e IH
          by (subst resize_loop.simps) (auto split: Option.bind_split)
      next
        case False
        have opt: "ins_opt ins (?E a) = r_array p ! m # ins_opt ins (?E (Suc m))"
          using False Ea by (cases ins) auto
        have N: "N = Suc n + length (ins_opt ins (?E (Suc m)))" using less.prems(2) opt by simp
        have IH: "resize_loop p ns s' ins (int m) (Suc n)
            = place_loop s' 0 ns N (Suc n) (ins_opt ins (?E (Suc m)))" for s'
          using less.hyps[OF dec less.prems(1) N, of s'] by simp
        have step: "(case ins of
            Some e \<Rightarrow>
              if int m = - 1 \<or> key e < key (r_array p ! nat (int m))
              then do { s \<leftarrow> put_cell s (spaced ns (nat (r_count p)) n) e; Some (s, None, n + 1) }
              else Some (s, ins, n)
          | None \<Rightarrow> Some (s, ins, n)) = Some (s, ins, n)"
          using False by (cases ins) auto
        show ?thesis unfolding opt using \<open>n < N\<close> less.prems(1) some(1) IH
          by (subst resize_loop.simps) (simp add: step m1 split: Option.bind_split)
      qed
    qed
  qed
qed

text \<open>
  The first loop of \<open>redistribute\<close> collects the neighbourhood with the new element in its
  place, and clears the bits of the cells it read.
\<close>

lemma elems_in_clear:
  assumes "m < a"
  shows "elems_in arr (CLRBIT bm m) a b = elems_in arr bm a b"
proof (cases "m div 8 < length bm")
  case True
  then show ?thesis using assms by (intro elems_in_cong) (simp_all add: bit_of_CLRBIT)
qed (simp add: CLRBIT_def list_update_beyond)

lemma collect_loop_spec:
  assumes "r_size p \<le> 8 * length (r_bitmap p)" "hi \<le> r_size p"
    and "n = length temp + length (ins_opt ins (elems_in (r_array p) (r_bitmap p) a hi))"
  shows "\<exists>bm. collect_loop p hi n temp ins (int a - 1)
      = Some (p\<lparr>r_bitmap := bm\<rparr>, temp @ ins_opt ins (elems_in (r_array p) (r_bitmap p) a hi))
    \<and> length bm = length (r_bitmap p)
    \<and> (\<forall>j. bit_of bm j \<longleftrightarrow> used p j \<and> \<not> (a \<le> j \<and> j < hi))"
  using assms
proof (induction "r_size p - a" arbitrary: a ins temp p rule: less_induct)
  case less
  let ?E = "\<lambda>a. elems_in (r_array p) (r_bitmap p) a hi"
  show ?case
  proof (cases "length temp < n")
    case False
    then have em: "ins_opt ins (?E a) = []" using less.prems(3) by simp
    then have "?E a = []" by (cases ins; cases "?E a") (simp_all split: if_splits)
    then have "\<not> (a \<le> j \<and> j < hi \<and> used p j)" for j
      using set_elems_in[of "r_array p ! j" "r_array p" "r_bitmap p" a hi] by auto
    then show ?thesis using False em
      by (intro exI[of _ "r_bitmap p"]) (subst collect_loop.simps, auto)
  next
    case True
    have outside: "\<exists>bm. collect_loop p hi n temp ins (int a - 1)
        = Some (p\<lparr>r_bitmap := bm\<rparr>, temp @ ins_opt ins (?E a)) \<and> length bm = length (r_bitmap p)
        \<and> (\<forall>j. bit_of bm j \<longleftrightarrow> used p j \<and> \<not> (a \<le> j \<and> j < hi))"
      if c: "int hi \<le> c \<or> c = - 1" "next_greater p (int a - 1) = c"
        and free: "\<And>j. a \<le> j \<Longrightarrow> j < hi \<Longrightarrow> \<not> used p j" for c
    proof -
      have Ea: "?E a = []" by (rule elems_in_empty) (use free in blast)
      then obtain e where ins: "ins = Some e" using True less.prems(3) by (cases ins) auto
      have n: "n = Suc (length temp)" using less.prems(3) Ea ins by simp
      have fin: "collect_loop p hi n (temp @ [e]) None c = Some (p, temp @ [e])"
        by (subst collect_loop.simps) (simp add: n)
      have "collect_loop p hi n temp ins (int a - 1) = collect_loop p hi n (temp @ [e]) None c"
        using True c ins n
        by (subst collect_loop.simps) (simp add: push_temp_def, use c(1) in force)
      then show ?thesis using Ea ins free fin by (intro exI[of _ "r_bitmap p"]) auto
    qed
    show ?thesis
    proof (cases rule: next_greater_cases[where p = p and a = a])
      case none
      then show ?thesis using less.prems(2) by (intro outside[of "- 1"]) auto
    next
      case (some m)
      show ?thesis
      proof (cases "m < hi")
        case False
        then show ?thesis using some by (intro outside[of "int m"]) auto
      next
        case mh: True
        have Ea: "?E a = r_array p ! m # ?E (Suc m)"
          by (rule elems_in_next) (use some mh in blast)+
        have m8: "m div 8 < length (r_bitmap p)" using less.prems(1) some(3) by auto
        define p1 where "p1 = p\<lparr>r_bitmap := CLRBIT (r_bitmap p) m\<rparr>"
        have dec: "r_size p1 - Suc m < r_size p - a" using some(2,3) by (simp add: p1_def)
        have E1: "elems_in (r_array p1) (r_bitmap p1) (Suc m) hi = ?E (Suc m)"
          by (simp add: p1_def elems_in_clear)
        have pr: "r_size p1 \<le> 8 * length (r_bitmap p1)" "hi \<le> r_size p1"
          using less.prems(1,2) by (simp_all add: p1_def)
        have bits: "(\<forall>j. bit_of bm j \<longleftrightarrow> used p1 j \<and> \<not> (Suc m \<le> j \<and> j < hi))
            \<longrightarrow> (\<forall>j. bit_of bm j \<longleftrightarrow> used p j \<and> \<not> (a \<le> j \<and> j < hi))" for bm
        proof (intro impI allI)
          fix j assume h: "\<forall>j. bit_of bm j \<longleftrightarrow> used p1 j \<and> \<not> (Suc m \<le> j \<and> j < hi)"
          have "used p1 j \<longleftrightarrow> j \<noteq> m \<and> used p j" using m8 by (simp add: p1_def bit_of_CLRBIT)
          moreover have "a \<le> j \<Longrightarrow> j < m \<Longrightarrow> \<not> used p j" by (rule some(5))
          ultimately show "bit_of bm j \<longleftrightarrow> used p j \<and> \<not> (a \<le> j \<and> j < hi)"
            using h some(2) mh by (cases j m rule: linorder_cases) auto
        qed
        show ?thesis
        proof (cases "\<exists>e. ins = Some e \<and> key e < key (r_array p ! m)")
          case True
          then obtain e where e: "ins = Some e" "key e < key (r_array p ! m)" by blast
          let ?temp = "temp @ [e, r_array p ! m]"
          have n: "n = length ?temp + length (ins_opt None (?E (Suc m)))" using less.prems(3) Ea e by simp
          obtain bm where bm: "collect_loop p1 hi n ?temp None (int m)
              = Some (p1\<lparr>r_bitmap := bm\<rparr>, ?temp @ ?E (Suc m))" "length bm = length (r_bitmap p1)"
            "\<forall>j. bit_of bm j \<longleftrightarrow> used p1 j \<and> \<not> (Suc m \<le> j \<and> j < hi)"
            using less.hyps[OF dec pr, of ?temp None] n unfolding E1 by auto
          have "collect_loop p hi n temp ins (int a - 1) = collect_loop p1 hi n ?temp None (int m)"
            using \<open>length temp < n\<close> some(1) mh e n
            by (subst collect_loop.simps) (simp add: push_temp_def p1_def)
          then show ?thesis using bm bits[of bm] Ea e by (intro exI[of _ bm]) (simp add: p1_def)
        next
          case False
          have opt: "ins_opt ins (?E a) = r_array p ! m # ins_opt ins (?E (Suc m))"
            using False Ea by (cases ins) auto
          let ?temp = "temp @ [r_array p ! m]"
          have n: "n = length ?temp + length (ins_opt ins (?E (Suc m)))" using less.prems(3) opt by simp
          obtain bm where bm: "collect_loop p1 hi n ?temp ins (int m)
              = Some (p1\<lparr>r_bitmap := bm\<rparr>, ?temp @ ins_opt ins (?E (Suc m)))" "length bm = length (r_bitmap p1)"
            "\<forall>j. bit_of bm j \<longleftrightarrow> used p1 j \<and> \<not> (Suc m \<le> j \<and> j < hi)"
            using less.hyps[OF dec pr, of ?temp ins] n unfolding E1 by auto
          have "collect_loop p hi n temp ins (int a - 1) = collect_loop p1 hi n ?temp ins (int m)"
            using \<open>length temp < n\<close> some(1) mh False
            by (subst collect_loop.simps) (cases ins, auto simp: push_temp_def p1_def Let_def)
          then show ?thesis using bm bits[of bm] opt by (intro exI[of _ bm]) (simp add: p1_def)
        qed
      qed
    qed
  qed
qed

section \<open>Neighbourhoods\<close>

abbreviation win_count :: "raizes_PMA \<Rightarrow> nat \<Rightarrow> nat \<Rightarrow> nat" where
  "win_count p a b \<equiv> length (elems_in (r_array p) (r_bitmap p) a b)"

lemma count_loop_spec: "count_loop p (int a) (int b) n = n + win_count p a b"
proof (induction "b - a" arbitrary: a n)
  case 0
  then show ?case by (subst count_loop.simps) simp
next
  case (Suc d)
  then have ab: "a < b" by simp
  have "count_loop p (int a) (int b) n = count_loop p (int (Suc a)) (int b) (n + of_bool (used p a))"
    using ab by (subst count_loop.simps) (simp add: GETBIT_bit_of add.commute)
  also have "\<dots> = n + of_bool (used p a) + win_count p (Suc a) b"
    using Suc.hyps(1)[of "Suc a"] Suc.hyps(2) by simp
  also have "\<dots> = n + win_count p a b" by (simp add: elems_in_first[OF ab])
  finally show ?case .
qed

lemma count_in_range_spec: "count_in_range p (int a - 1) (int b) = win_count p a b"
  using count_loop_spec[of p a b 0] by (simp add: count_in_range_def)

lemma win_count_split: "a \<le> b \<Longrightarrow> b \<le> c \<Longrightarrow> win_count p a c = win_count p a b + win_count p b c"
  by (simp add: elems_in_split[of a b c])

text \<open>The window of width \<open>w\<close> around a cell, and the window twice as wide.\<close>

lemma window_double:
  fixes i w :: nat
  assumes "0 < w"
  shows "i div (w * 2) * (w * 2) \<le> i div w * w" "i div w * w + w \<le> i div (w * 2) * (w * 2) + w * 2"
proof -
  define q where "q = i div w"
  have d: "i div (w * 2) = q div 2" by (simp add: div_mult2_eq q_def)
  have "q div 2 * 2 \<le> q" by simp
  then have 1: "q div 2 * 2 * w \<le> q * w" by (rule mult_le_mono1)
  have "q + 1 \<le> q div 2 * 2 + 2" by presburger
  then have 2: "(q + 1) * w \<le> (q div 2 * 2 + 2) * w" by (rule mult_le_mono1)
  show "i div (w * 2) * (w * 2) \<le> i div w * w" "i div w * w + w \<le> i div (w * 2) * (w * 2) + w * 2"
    using 1 2 unfolding d q_def[symmetric] by (simp_all add: algebra_simps)
qed

lemma widen_count:
  assumes "0 < w" "lo = i div w * w" "hi = lo + w" "lo' = i div (w * 2) * (w * 2)" "hi' = lo' + w * 2"
  shows "win_count p lo hi + count_in_range p (int lo' - 1) (int lo) + count_in_range p (int hi - 1) (int hi')
    = win_count p lo' hi'"
proof -
  have o: "lo' \<le> lo" "hi \<le> hi'" "lo \<le> hi" using window_double[OF assms(1), of i] assms(2-5) by simp_all
  have "win_count p lo' hi' = win_count p lo' lo + (win_count p lo hi + win_count p hi hi')"
    using win_count_split[of lo' lo hi' p] win_count_split[of lo hi hi' p] o by simp
  then show ?thesis by (simp add: count_in_range_spec)
qed

definition window_at :: "raizes_PMA \<Rightarrow> nat \<Rightarrow> nat \<times> nat \<times> nat \<Rightarrow> nat \<Rightarrow> nat \<Rightarrow> bool" where
  "window_at p i r w extra = (case r of (lo, hi, c) \<Rightarrow>
     lo = i div w * w \<and> hi = lo + w \<and> c = win_count p lo hi + extra)"

lemma ddiv_gt_one:
  assumes "w < c" "0 < w" "w < 2 ^ 31" "c < 2 ^ 53"
  shows "1 < ddiv (d_of_nat c) (d_of_nat w)"
proof -
  let ?x = "of_nat c / of_nat w :: rat"
  have "(of_nat (w + 1) :: rat) \<le> of_nat c" using assms(1) by (simp only: of_nat_le_iff)
  then have "(of_nat w + 1) / of_nat w \<le> ?x" by (intro divide_right_mono) simp_all
  then have x: "1 + 1 / of_nat w \<le> ?x" using assms(2) by (simp add: add_divide_distrib)
  have "(of_nat w :: rat) < of_nat (2 ^ 31)" using assms(3) by (simp only: of_nat_less_iff)
  then have "(1 / 2 ^ 31 :: rat) < 1 / of_nat w" using assms(2) by (simp add: field_simps)
  then have x1: "1 + 1 / 2 ^ 31 < ?x" using x by linarith
  have "1 + 1 / 2 ^ 31 - (1 + 1 / 2 ^ 31) / 2 ^ 53 \<le> rnd (1 + 1 / 2 ^ 31)"
    using abs_le_D2[OF rnd_err[of "1 + 1 / 2 ^ 31"]] by simp
  then have "1 < rnd (1 + 1 / 2 ^ 31)" by simp
  also have "\<dots> \<le> rnd ?x" using x1 by (intro rnd_mono) simp
  finally show ?thesis using assms by (simp add: ddiv_def d_of_nat_exact)
qed

lemma upper_loop_spec:
  assumes "r_size p = 2 ^ k" "k \<le> 29" "i < r_size p" "w = 2 ^ j" "1 \<le> j" "j \<le> k"
    and "window_at p i (lo, hi, c) w 1" "th \<le> 1" "0 \<le> pr"
  shows "\<exists>j'. j \<le> j' \<and> j' \<le> k \<and> window_at p i (upper_loop p i w lo hi c th pr) (2 ^ j') 1
    \<and> (j' < k \<longrightarrow> snd (snd (upper_loop p i w lo hi c th pr)) \<le> 2 ^ j')"
  using assms
proof (induction p i w lo hi c th pr arbitrary: j rule: upper_loop.induct)
  case (1 p i w lo hi c th pr)
  have w0: "0 < w" using "1.prems"(4) by simp
  show ?case
  proof (cases "0 < w \<and> w < r_size p \<and> th < ddiv (d_of_nat c) (d_of_nat w)")
    case False
    then have r: "upper_loop p i w lo hi c th pr = (lo, hi, c)"
      unfolding upper_loop.simps[of p i w lo hi c th pr] by (rule if_not_P)
    have "c \<le> 2 ^ j" if "j < k"
    proof (rule ccontr)
      assume "\<not> c \<le> 2 ^ j"
      then have cw: "w < c" using "1.prems"(4) by simp
      have "(2 :: nat) ^ j < 2 ^ k" using that by simp
      then have wsz: "w < r_size p" using "1.prems"(1,4) by simp
      have "(2 :: nat) ^ k \<le> 2 ^ 29" using "1.prems"(2) by (intro power_increasing) simp_all
      then have s29: "r_size p \<le> 2 ^ 29" using "1.prems"(1) by simp
      have "c \<le> w + 1"
        using "1.prems"(7) length_elems_in_le[of "r_array p" "r_bitmap p" lo hi] by (auto simp: window_at_def)
      then have "1 < ddiv (d_of_nat c) (d_of_nat w)"
        using cw w0 wsz s29 by (intro ddiv_gt_one) simp_all
      then show False using False "1.prems"(8) w0 wsz by auto
    qed
    then show ?thesis using r "1.prems" by (intro exI[of _ j]) simp
  next
    case True
    define lo' where "lo' = i div (w * 2) * (w * 2)"
    define hi' where "hi' = lo' + w * 2"
    define c' where "c' = c + count_in_range p (int lo' - 1) (int lo) + count_in_range p (int hi - 1) (int hi')"
    have r: "upper_loop p i w lo hi c th pr = upper_loop p i (w * 2) lo' hi' c' (dsub th pr) pr"
      using True by (subst upper_loop.simps) (simp add: Let_def lo'_def hi'_def c'_def)
    have jk: "j < k" using True "1.prems"(1,4) by simp
    have w2: "w * 2 = 2 ^ Suc j" using "1.prems"(4) by simp
    have "th - pr \<le> 1" using "1.prems"(8,9) by simp
    then have th: "dsub th pr \<le> 1" using rnd_mono[of "th - pr" 1] by (simp add: dsub_def)
    have wa: "window_at p i (lo', hi', c') (w * 2) 1"
      using "1.prems"(7) widen_count[OF w0 _ _ lo'_def hi'_def, of lo hi p]
      by (simp add: window_at_def c'_def hi'_def lo'_def)
    have "\<exists>j'. Suc j \<le> j' \<and> j' \<le> k \<and> window_at p i (upper_loop p i (w * 2) lo' hi' c' (dsub th pr) pr) (2 ^ j') 1
      \<and> (j' < k \<longrightarrow> snd (snd (upper_loop p i (w * 2) lo' hi' c' (dsub th pr) pr)) \<le> 2 ^ j')"
      using "1.IH"[OF True refl lo'_def hi'_def refl c'_def "1.prems"(1-3) w2 _ _ wa th "1.prems"(9)] jk by simp
    then show ?thesis unfolding r by (meson Suc_leD)
  qed
qed

lemma lower_loop_spec:
  assumes "r_size p = 2 ^ k" "w = 2 ^ j" "1 \<le> j" "j \<le> k" "window_at p i (lo, hi, c) w 0"
  shows "\<exists>j'. j \<le> j' \<and> j' \<le> k \<and> window_at p i (lower_loop p i w lo hi c th pr) (2 ^ j') 0"
  using assms
proof (induction p i w lo hi c th pr arbitrary: j rule: lower_loop.induct)
  case (1 p i w lo hi c th pr)
  have w0: "0 < w" using "1.prems"(2) by simp
  show ?case
  proof (cases "0 < w \<and> w < r_size p \<and> ddiv (d_of_nat c) (d_of_nat w) < th")
    case False
    then have r: "lower_loop p i w lo hi c th pr = (lo, hi, c)"
      unfolding lower_loop.simps[of p i w lo hi c th pr] by (rule if_not_P)
    then show ?thesis using "1.prems" by (intro exI[of _ j]) simp
  next
    case True
    define lo' where "lo' = i div (w * 2) * (w * 2)"
    define hi' where "hi' = lo' + w * 2"
    define c' where "c' = c + count_in_range p (int lo' - 1) (int lo) + count_in_range p (int hi - 1) (int hi')"
    have r: "lower_loop p i w lo hi c th pr = lower_loop p i (w * 2) lo' hi' c' (dadd th pr) pr"
      using True by (subst lower_loop.simps) (simp add: Let_def lo'_def hi'_def c'_def)
    have jk: "j < k" using True "1.prems"(1,2) by simp
    have w2: "w * 2 = 2 ^ Suc j" using "1.prems"(2) by simp
    have wa: "window_at p i (lo', hi', c') (w * 2) 0"
      using "1.prems"(5) widen_count[OF w0 _ _ lo'_def hi'_def, of lo hi p]
      by (simp add: window_at_def c'_def hi'_def lo'_def)
    have "\<exists>j'. Suc j \<le> j' \<and> j' \<le> k \<and> window_at p i (lower_loop p i (w * 2) lo' hi' c' (dadd th pr) pr) (2 ^ j') 0"
      using "1.IH"[OF True refl lo'_def hi'_def refl c'_def "1.prems"(1) w2 _ _ wa] jk by simp
    then show ?thesis unfolding r by (meson Suc_leD)
  qed
qed

section \<open>Redistributing and resizing\<close>

lemma rcontent_split3:
  "lo \<le> hi \<Longrightarrow> hi \<le> r_size p \<Longrightarrow> rcontent p = elems_in (r_array p) (r_bitmap p) 0 lo
    @ elems_in (r_array p) (r_bitmap p) lo hi @ elems_in (r_array p) (r_bitmap p) hi (r_size p)"
  unfolding rcontent_def using elems_in_split[of 0 lo "r_size p"] elems_in_split[of lo hi "r_size p"] by simp

lemma redistribute_spec:
  assumes wf: "r_wf p" and w: "hi = lo + w" "hi \<le> r_size p"
    and n: "n = length (ins_opt ins (elems_in (r_array p) (r_bitmap p) lo hi))" "n \<le> w"
  shows "\<exists>p'. redistribute p (lo, hi, n) ins = Some p' \<and> r_wf p' \<and> r_size p' = r_size p \<and> r_count p' = r_count p
    \<and> rcontent p' = elems_in (r_array p) (r_bitmap p) 0 lo
      @ ins_opt ins (elems_in (r_array p) (r_bitmap p) lo hi)
      @ elems_in (r_array p) (r_bitmap p) hi (r_size p)"
proof -
  let ?es = "ins_opt ins (elems_in (r_array p) (r_bitmap p) lo hi)"
  have len: "length (r_array p) = r_size p" "r_size p \<le> 8 * length (r_bitmap p)"
    using wf by (auto simp: r_wf_def)
  obtain k where k: "r_size p = 2 ^ k" "k \<le> 29" using wf by (auto simp: r_wf_def)
  have "(2 :: nat) ^ k \<le> 2 ^ 29" using k(2) by (intro power_increasing) simp_all
  then have sz: "r_size p \<le> 2 ^ 29" using k(1) by simp
  obtain bm where bm: "collect_loop p hi n [] ins (int lo - 1) = Some (p\<lparr>r_bitmap := bm\<rparr>, ?es)"
    "length bm = length (r_bitmap p)" "\<And>j. bit_of bm j \<longleftrightarrow> used p j \<and> \<not> (lo \<le> j \<and> j < hi)"
    using collect_loop_spec[OF len(2) w(2), of n "[]" ins lo] n(1) by auto
  have "\<exists>arr' bm'. place_loop (r_array p, bm) lo w n 0 ?es = Some (arr', bm')
    \<and> length arr' = length (r_array p) \<and> length bm' = length bm
    \<and> elems_in arr' bm' (lo + spaced w n 0) (lo + w) = ?es
    \<and> (\<forall>j. j < lo + spaced w n 0 \<or> lo + w \<le> j \<longrightarrow> arr' ! j = r_array p ! j \<and> bit_of bm' j = bit_of bm j)"
    using n w sz len bm(2,3) by (intro place_loop_spec) simp_all
  then obtain arr' bm' where r: "place_loop (r_array p, bm) lo w n 0 ?es = Some (arr', bm')"
    "length arr' = length (r_array p)" "length bm' = length bm" "elems_in arr' bm' lo hi = ?es"
    "\<And>j. j < lo \<or> hi \<le> j \<Longrightarrow> arr' ! j = r_array p ! j \<and> bit_of bm' j = bit_of bm j"
    using w(1) by (auto simp: spaced_0)
  define p' where "p' = p\<lparr>r_array := arr', r_bitmap := bm'\<rparr>"
  have "redistribute p (lo, hi, n) ins = Some p'"
    using bm(1) r(1) w(1) by (simp add: redistribute_def p'_def)
  moreover have "r_wf p'" using wf r(2,3) bm(2) by (auto simp: r_wf_def p'_def)
  moreover have "elems_in arr' bm' 0 lo = elems_in (r_array p) (r_bitmap p) 0 lo"
    using r(5) bm(3) by (intro elems_in_cong) auto
  moreover have "elems_in arr' bm' hi (r_size p) = elems_in (r_array p) (r_bitmap p) hi (r_size p)"
    using r(5) bm(3) by (intro elems_in_cong) auto
  ultimately show ?thesis
    using r(4) w rcontent_split3[of lo hi p'] by (simp add: p'_def)
qed

lemma bitmap_bytes:
  assumes "ns = 2 ^ m" "m \<le> 50"
  shows "ns \<le> 8 * nat \<lceil>ddiv (d_of_nat ns) 8\<rceil>"
proof -
  have "(2 :: nat) ^ m \<le> 2 ^ 50" using assms(2) by (intro power_increasing) simp_all
  then have b: "ns < 2 ^ 53" using assms(1) by simp
  show ?thesis
  proof (cases "m < 3")
    case True
    have "(2 :: nat) ^ m \<le> 2 ^ 3" using True by (intro power_increasing) simp_all
    then have "ns \<le> 8" using assms(1) by simp
    moreover have "0 < rnd (of_nat ns / 8)" using assms(1) by (simp add: rnd_def rnd_pos_pos)
    then have "1 \<le> \<lceil>ddiv (d_of_nat ns) 8\<rceil>" using b by (simp add: ddiv_def d_of_nat_exact)
    ultimately show ?thesis by linarith
  next
    case False
    then have ns: "ns = 8 * 2 ^ (m - 3)" using assms(1) power_add[of "2 :: nat" 3 "m - 3"] by simp
    have "rnd (of_nat ns / 8) = of_nat (2 ^ (m - 3))"
      using rnd_of_nat[of "2 ^ (m - 3)"] b by (simp add: ns)
    then show ?thesis using b by (simp add: ddiv_def d_of_nat_exact ns)
  qed
qed

lemma raizes_resize_spec:
  assumes ns: "nat \<lceil>dmul (d_of_nat (r_size p)) factor\<rceil> = 2 ^ m" "1 \<le> m" "m \<le> 29"
    and n: "r_count p = int (length (ins_opt ins (rcontent p)))" "length (ins_opt ins (rcontent p)) \<le> 2 ^ m"
  shows "\<exists>p'. raizes_resize p factor ins = Some p' \<and> r_wf p' \<and> r_size p' = 2 ^ m \<and> r_count p' = r_count p
    \<and> rcontent p' = ins_opt ins (rcontent p)"
proof -
  let ?ns = "2 ^ m :: nat"
  let ?es = "ins_opt ins (rcontent p)"
  let ?N = "length ?es"
  let ?arr = "replicate ?ns unset"
  let ?bm = "replicate (nat \<lceil>ddiv (d_of_nat ?ns) 8\<rceil>) (0 :: 8 word)"
  have bytes: "?ns \<le> 8 * length ?bm" using bitmap_bytes[of ?ns m] ns(3) by simp
  have "(2 :: nat) ^ m \<le> 2 ^ 29" using ns(3) by (intro power_increasing) simp_all
  then have b: "?ns < 2 ^ 50" by simp
  have rl: "resize_loop p ?ns (?arr, ?bm) ins (- 1) 0 = place_loop (?arr, ?bm) 0 ?ns ?N 0 ?es"
    using resize_loop_spec[of p ?N 0 ins 0 ?ns "(?arr, ?bm)"] n(1) by (simp add: rcontent_def)
  have zero: "\<not> bit_of ?bm j" if "j < ?ns" for j using that bytes by (intro bit_of_zero) simp
  have "\<exists>arr' bm'. place_loop (?arr, ?bm) 0 ?ns ?N 0 ?es = Some (arr', bm')
    \<and> length arr' = length ?arr \<and> length bm' = length ?bm
    \<and> elems_in arr' bm' (0 + spaced ?ns ?N 0) (0 + ?ns) = ?es
    \<and> (\<forall>j. j < 0 + spaced ?ns ?N 0 \<or> 0 + ?ns \<le> j \<longrightarrow> arr' ! j = ?arr ! j \<and> bit_of bm' j = bit_of ?bm j)"
    using n(2) b bytes zero by (intro place_loop_spec) simp_all
  then obtain arr' bm' where r: "place_loop (?arr, ?bm) 0 ?ns ?N 0 ?es = Some (arr', bm')"
    "length arr' = ?ns" "length bm' = length ?bm" "elems_in arr' bm' 0 ?ns = ?es"
    by (auto simp: spaced_0)
  define p' where "p' = p\<lparr>r_array := arr', r_bitmap := bm', r_size := ?ns\<rparr>"
  have "raizes_resize p factor ins = Some p'"
    unfolding raizes_resize_def ns(1) Let_def using rl r(1) by (simp add: p'_def)
  moreover have "r_wf p'" unfolding r_wf_def using ns(2,3) r(2,3) bytes by (auto simp: p'_def)
  ultimately show ?thesis using r(4) by (simp add: p'_def rcontent_def)
qed

lemma pow2_exact:
  assumes "k \<le> 52"
  shows "rnd (2 ^ k) = 2 ^ k" "d_of_nat (2 ^ k) = 2 ^ k"
proof -
  have "(2 :: nat) ^ k \<le> 2 ^ 52" using assms by (intro power_increasing) simp_all
  then have "(2 :: nat) ^ k < 2 ^ 53" by simp
  then show "rnd (2 ^ k) = 2 ^ k" "d_of_nat (2 ^ k) = 2 ^ k"
    using rnd_of_nat[of "2 ^ k"] d_of_nat_exact[of "2 ^ k"] by simp_all
qed

lemma ceiling_pow2: "nat \<lceil>(2 :: rat) ^ k\<rceil> = 2 ^ k"
  by (metis ceiling_of_nat nat_int of_nat_numeral of_nat_power)

lemma size_double:
  assumes "k \<le> 50"
  shows "nat \<lceil>dmul (d_of_nat (2 ^ k)) U_FACTOR\<rceil> = 2 ^ Suc k"
proof -
  have "dmul (d_of_nat (2 ^ k)) U_FACTOR = rnd (2 ^ Suc k)"
    using pow2_exact(2)[of k] assms by (simp add: dmul_def U_FACTOR_def mult.commute)
  also have "\<dots> = 2 ^ Suc k" using assms by (intro pow2_exact(1)) simp
  finally show ?thesis by (simp only: ceiling_pow2)
qed

lemma size_halve:
  assumes "1 \<le> k" "k \<le> 50"
  shows "nat \<lceil>dmul (d_of_nat (2 ^ k)) D_FACTOR\<rceil> = 2 ^ (k - 1)"
proof -
  have "(2 :: rat) ^ k = 2 * 2 ^ (k - 1)" using assms(1) by (simp flip: power_Suc)
  then have "dmul (d_of_nat (2 ^ k)) D_FACTOR = rnd (2 ^ (k - 1))"
    using pow2_exact(2)[of k] assms by (simp add: dmul_def D_FACTOR_def)
  also have "\<dots> = 2 ^ (k - 1)" using assms by (intro pow2_exact(1)) simp
  finally show ?thesis by (simp only: ceiling_pow2)
qed

section \<open>Rebalancing, insertion, removal\<close>

lemma log2_size_pow: "log2_size (2 ^ k) = Some k"
  by (simp add: log2_size_def bit_len_power)

lemma window_in_size:
  assumes "i < 2 ^ k" "j \<le> k"
  shows "i div 2 ^ j * 2 ^ j + 2 ^ j \<le> (2 :: nat) ^ k"
proof -
  have e: "(2 :: nat) ^ k = 2 ^ (k - j) * 2 ^ j" using assms(2) by (simp flip: power_add)
  then have "i div 2 ^ j < 2 ^ (k - j)" using assms(1) by (simp add: div_less_iff_less_mult)
  then have "(i div 2 ^ j + 1) * 2 ^ j \<le> 2 ^ (k - j) * 2 ^ j" by (intro mult_le_mono1) simp
  then show ?thesis using e by simp
qed

lemma window_contains': "0 < w \<Longrightarrow> i div w * w \<le> i \<and> i < i div w * w + (w :: nat)"
  using dividend_less_div_times[of w i] by (simp add: add.commute)

text \<open>
  The window only grows to the whole array when a window of half its size is at least an eighth
  full: the size of the array stays linear in the number of elements.
\<close>

lemma half_dense:
  assumes "1 / 4 < ddiv (d_of_nat c) (d_of_nat w)" "0 < w" "w < 2 ^ 53" "c < 2 ^ 53"
  shows "w < 8 * c"
proof (rule ccontr)
  assume "\<not> w < 8 * c"
  then have "8 * c \<le> w" by simp
  then have "(of_nat (8 * c) :: rat) \<le> of_nat w" by (simp only: of_nat_le_iff)
  then have "of_nat c / of_nat w \<le> (1 / 8 :: rat)" using assms(2) by (simp add: field_simps)
  then have "rnd (of_nat c / of_nat w) \<le> rnd (1 / 8)" by (rule rnd_mono)
  also have "\<dots> \<le> 1 / 8 + 1 / 8 / 2 ^ 53" using abs_le_D1[OF rnd_err[of "1 / 8"]] by simp
  finally show False using assms by (simp add: ddiv_def d_of_nat_exact)
qed

lemma upper_loop_dense:
  assumes "r_size p = 2 ^ k" "k \<le> 29" "i < r_size p" "w = 2 ^ j" "j < k"
    and "window_at p i (lo, hi, c) w 1" "th \<le> 1" "0 \<le> pr"
    and "1 / 4 + of_nat (k - 1 - j) * (pr + 1 / 2 ^ 53) \<le> th"
    and "window_at p i (upper_loop p i w lo hi c th pr) (2 ^ k) 1"
  shows "r_size p < 16 * (length (rcontent p) + 1)"
  using assms
proof (induction p i w lo hi c th pr arbitrary: j rule: upper_loop.induct)
  case (1 p i w lo hi c th pr)
  have w0: "0 < w" using "1.prems"(4) by simp
  have jk2: "(2 :: nat) ^ j < 2 ^ k" using "1.prems"(5) by simp
  then have wsz: "w < r_size p" using "1.prems"(1,4) by simp
  have cont: "0 < w \<and> w < r_size p \<and> th < ddiv (d_of_nat c) (d_of_nat w)"
  proof (rule ccontr)
    assume F: "\<not> (0 < w \<and> w < r_size p \<and> th < ddiv (d_of_nat c) (d_of_nat w))"
    have "upper_loop p i w lo hi c th pr = (lo, hi, c)"
      unfolding upper_loop.simps[of p i w lo hi c th pr] by (rule if_not_P[OF F])
    then show False using "1.prems"(4,6,10) jk2 by (simp add: window_at_def)
  qed
  define lo' where "lo' = i div (w * 2) * (w * 2)"
  define hi' where "hi' = lo' + w * 2"
  define c' where "c' = c + count_in_range p (int lo' - 1) (int lo) + count_in_range p (int hi - 1) (int hi')"
  have r: "upper_loop p i w lo hi c th pr = upper_loop p i (w * 2) lo' hi' c' (dsub th pr) pr"
    using cont by (subst upper_loop.simps) (simp add: Let_def lo'_def hi'_def c'_def)
  have w2: "w * 2 = 2 ^ Suc j" using "1.prems"(4) by simp
  have hb: "lo \<le> hi" "hi \<le> r_size p"
    using "1.prems"(1,3-6) window_in_size[of i k j] by (simp_all add: window_at_def)
  have cc: "c \<le> length (rcontent p) + 1"
    using "1.prems"(6) rcontent_split3[OF hb] by (simp add: window_at_def)
  show ?case
  proof (cases "Suc j = k")
    case True
    have "(2 :: nat) ^ k \<le> 2 ^ 29" using "1.prems"(2) by (intro power_increasing) simp_all
    then have s29: "r_size p \<le> 2 ^ 29" using "1.prems"(1) by simp
    have "c \<le> w + 1"
      using "1.prems"(6) length_elems_in_le[of "r_array p" "r_bitmap p" lo hi] by (auto simp: window_at_def)
    moreover have "1 / 4 < ddiv (d_of_nat c) (d_of_nat w)" using cont "1.prems"(9) True by simp
    ultimately have "w < 8 * c" using w0 wsz s29 by (intro half_dense) simp_all
    moreover have "r_size p = w * 2" using "1.prems"(1) w2 True by simp
    ultimately have "r_size p < 16 * c" by simp
    also have "\<dots> \<le> 16 * (length (rcontent p) + 1)" using cc by (rule mult_le_mono2)
    finally show ?thesis .
  next
    case False
    then have jk: "Suc j < k" using "1.prems"(5) by simp
    have num: "k - 1 - j = Suc (k - 1 - Suc j)" using jk by simp
    have budget: "1 / 4 + of_nat (k - 1 - Suc j) * (pr + 1 / 2 ^ 53) + (pr + 1 / 2 ^ 53) \<le> th"
    proof -
      define y where "y = pr + 1 / 2 ^ 53"
      have "of_nat (Suc (k - 1 - Suc j)) * y = of_nat (k - 1 - Suc j) * y + y"
        by (simp only: of_nat_Suc distrib_right mult_1 add.commute)
      then show ?thesis using "1.prems"(9) unfolding num y_def[symmetric] by linarith
    qed
    have pos: "0 \<le> of_nat (k - 1 - Suc j) * (pr + 1 / 2 ^ 53 :: rat)" using "1.prems"(8) by simp
    have "(0 :: rat) \<le> 1 / 2 ^ 53" by simp
    then have d0: "0 \<le> th - pr" "th - pr \<le> 1" using budget pos "1.prems"(7,8) by linarith+
    have "th - pr - (th - pr) / 2 ^ 53 \<le> dsub th pr"
      using abs_le_D2[OF rnd_err[OF d0(1)]] unfolding dsub_def by linarith
    moreover have "(th - pr) / 2 ^ 53 \<le> 1 / 2 ^ 53" using d0(2) by (intro divide_right_mono) simp_all
    ultimately have step: "th - pr - 1 / 2 ^ 53 \<le> dsub th pr" by linarith
    have b': "1 / 4 + of_nat (k - 1 - Suc j) * (pr + 1 / 2 ^ 53) \<le> dsub th pr" using budget step by linarith
    have th: "dsub th pr \<le> 1" using rnd_mono[OF d0(2)] by (simp add: dsub_def)
    have wa: "window_at p i (lo', hi', c') (w * 2) 1"
      using "1.prems"(6) widen_count[OF w0 _ _ lo'_def hi'_def, of lo hi p]
      by (simp add: window_at_def c'_def hi'_def lo'_def)
    show ?thesis
      by (rule "1.IH"[OF cont refl lo'_def hi'_def refl c'_def "1.prems"(1-3) w2 jk wa th "1.prems"(8) b'
          "1.prems"(10)[unfolded r]])
  qed
qed

lemma upper_start_budget:
  assumes "2 \<le> k" "k \<le> 29"
  defines "pr \<equiv> ddiv U_TRHLD (d_of_nat k)"
  shows "1 / 4 + of_nat (k - 1 - 1) * (pr + 1 / 2 ^ 53) \<le> dsub 1 pr"
proof -
  define x :: rat where "x = 1 / 2 / of_nat k"
  have "(of_nat k :: rat) \<le> of_nat 29" "(of_nat 2 :: rat) \<le> of_nat k"
    using assms(1,2) by (simp_all only: of_nat_le_iff)
  then have kk: "(of_nat k :: rat) \<le> 29" "(2 :: rat) \<le> of_nat k" by simp_all
  have x: "0 \<le> x" "x \<le> 1 / 4" using kk by (simp_all add: x_def field_simps)
  have pr: "pr = rnd x" using assms(2) by (simp add: pr_def ddiv_def U_TRHLD_def d_of_nat_exact x_def)
  have p1: "0 \<le> pr" unfolding pr using x(1) by (rule rnd_nonneg)
  have "rnd x \<le> x + x / 2 ^ 53" using abs_le_D1[OF rnd_err[OF x(1)]] by simp
  moreover have "x / 2 ^ 53 \<le> 1 / 2 ^ 53" using x(2) by (intro divide_right_mono) simp_all
  ultimately have p2: "pr \<le> x + 1 / 2 ^ 53" unfolding pr by (meson add_left_mono order_trans)
  have "(1 :: rat) / 2 ^ 53 \<le> 1 / 4" by simp
  then have d0: "0 \<le> 1 - pr" using p2 x by linarith
  have "1 - pr - (1 - pr) / 2 ^ 53 \<le> dsub 1 pr" using abs_le_D2[OF rnd_err[OF d0]] unfolding dsub_def by linarith
  moreover have "(1 - pr) / 2 ^ 53 \<le> 1 / 2 ^ 53" using p1 by (intro divide_right_mono) simp_all
  ultimately have d: "1 - pr - 1 / 2 ^ 53 \<le> dsub 1 pr" by linarith
  have "of_nat (k - 1 - 1) * (pr + 1 / 2 ^ 53) + (pr + 1 / 2 ^ 53) \<le> of_nat k * (pr + 1 / 2 ^ 53)"
  proof -
    define y where "y = pr + 1 / 2 ^ 53"
    have y: "0 \<le> y" using p1 by (simp add: y_def)
    have "(of_nat (k - 1 - 1 + 1) :: rat) \<le> of_nat k" by (simp only: of_nat_le_iff) (use assms(1) in simp)
    then have "of_nat (k - 1 - 1 + 1) * y \<le> of_nat k * y" using y by (rule mult_right_mono)
    then show ?thesis unfolding y_def[symmetric] by (simp only: of_nat_add of_nat_1 distrib_right mult_1)
  qed
  also have "\<dots> \<le> of_nat k * (x + 2 / 2 ^ 53)" using p2 by (intro mult_left_mono) simp_all
  also have "\<dots> = 1 / 2 + of_nat k * (2 / 2 ^ 53)" using kk by (simp add: x_def field_simps)
  also have "\<dots> \<le> 1 / 2 + 29 * (2 / 2 ^ 53)" using kk(1) by (intro add_left_mono mult_right_mono) simp_all
  also have "\<dots> \<le> 3 / 4" by simp
  finally show ?thesis using d by linarith
qed

lemma rebalance_insert_spec:
  assumes wf: "r_wf p" and sz: "r_size p \<le> 2 ^ 28" and i: "i < r_size p"
    and n: "r_count p = int (length (rcontent p)) + 1"
  shows "\<exists>m p' lo hi. raizes_rebalance p i (Some e) = Some (m, p') \<and> r_wf p' \<and> r_count p' = r_count p
    \<and> lo \<le> i \<and> i < hi \<and> hi \<le> r_size p
    \<and> r_size p' \<le> max (r_size p) (32 * (length (rcontent p) + 1))
    \<and> rcontent p' = elems_in (r_array p) (r_bitmap p) 0 lo
      @ ins_elem e (elems_in (r_array p) (r_bitmap p) lo hi)
      @ elems_in (r_array p) (r_bitmap p) hi (r_size p)"
proof -
  obtain k where k: "r_size p = 2 ^ k" "1 \<le> k" using wf by (auto simp: r_wf_def)
  have k28: "k \<le> 28" using sz unfolding k(1) by (metis nat_power_less_imp_less not_le_imp_less one_less_numeral_iff power_increasing_iff semiring_norm(76))
  let ?pr = "ddiv U_TRHLD (d_of_nat k)"
  have pr: "0 \<le> ?pr" by (simp add: ddiv_def d_of_nat_def rnd_nonneg U_TRHLD_def)
  have th: "dsub 1 ?pr \<le> 1" using rnd_mono[of "1 - ?pr" 1] pr by (simp add: dsub_def)
  let ?c = "count_in_range p (int (i div 2 * 2) - 1) (int (i div 2 * 2 + 2)) + 1"
  have wa: "window_at p i (i div 2 * 2, i div 2 * 2 + 2, ?c) 2 1"
    using count_in_range_spec[of p "i div 2 * 2" "i div 2 * 2 + 2"] by (simp add: window_at_def)
  define r where "r = upper_loop p i 2 (i div 2 * 2) (i div 2 * 2 + 2) ?c (dsub 1 ?pr) ?pr"
  obtain lo hi c where rr: "r = (lo, hi, c)" by (cases r)
  have fu: "find_upper_neighborhood p i = Some (lo, hi, c)"
    unfolding find_upper_neighborhood_def k(1) log2_size_pow Let_def
    using rr[unfolded r_def] by simp
  have k29: "k \<le> 29" using k28 by simp
  obtain j where j: "1 \<le> j" "j \<le> k" "window_at p i (lo, hi, c) (2 ^ j) 1" "j < k \<longrightarrow> c \<le> 2 ^ j"
    using upper_loop_spec[OF k(1) k29 i _ _ _ wa th pr, of 1] k(2) unfolding r_def[symmetric] rr by auto
  have w: "lo = i div 2 ^ j * 2 ^ j" "hi = lo + 2 ^ j" "c = win_count p lo hi + 1"
    using j(3) by (simp_all add: window_at_def)
  have b: "lo \<le> i" "i < hi" "hi \<le> r_size p"
    using window_contains'[of "2 ^ j" i] window_in_size[of i k j] i j(2) k(1) w by simp_all
  show ?thesis
  proof (cases "j = k")
    case True
    then have lohi: "lo = 0" "hi = r_size p" using w i k(1) by simp_all
    have "length (rcontent p) \<le> 2 ^ k"
      using length_elems_in_le[of "r_array p" "r_bitmap p" 0 "r_size p"] k(1) by (simp add: rcontent_def)
    moreover have "(1 :: nat) \<le> 2 ^ k" by simp
    ultimately have "length (rcontent p) + 1 \<le> 2 ^ k + 2 ^ k" by (intro add_mono)
    then have le: "length (ins_opt (Some e) (rcontent p)) \<le> 2 ^ Suc k" by simp
    have ns: "nat \<lceil>dmul (d_of_nat (r_size p)) U_FACTOR\<rceil> = 2 ^ Suc k"
      using size_double[of k] k28 k(1) by simp
    have "\<exists>p'. raizes_resize p U_FACTOR (Some e) = Some p' \<and> r_wf p' \<and> r_size p' = 2 ^ Suc k
      \<and> r_count p' = r_count p \<and> rcontent p' = ins_opt (Some e) (rcontent p)"
      using k28 n le by (intro raizes_resize_spec[OF ns]) simp_all
    then obtain p' where p': "raizes_resize p U_FACTOR (Some e) = Some p'" "r_wf p'"
      "r_count p' = r_count p" "rcontent p' = ins_elem e (rcontent p)" "r_size p' = 2 * r_size p"
      using k(1) by auto
    have "2 * r_size p \<le> 32 * (length (rcontent p) + 1)"
    proof (cases "k = 1")
      case True
      then show ?thesis using k(1) by simp
    next
      case False
      then have k2: "2 \<le> k" "1 < k" using k(2) by simp_all
      have "r_size p < 16 * (length (rcontent p) + 1)"
        using upper_loop_dense[OF k(1) k29 i _ k2(2) wa th pr upper_start_budget[OF k2(1) k29]]
          j(3) \<open>j = k\<close> unfolding r_def[symmetric] rr by simp
      then show ?thesis by simp
    qed
    then show ?thesis
      using fu lohi b p' by (intro exI[of _ c] exI[of _ p'] exI[of _ lo] exI[of _ hi])
        (simp add: raizes_rebalance_def rcontent_def)
  next
    case False
    then have jk: "j < k" using j(2) by simp
    then have "(2 :: nat) ^ j < 2 ^ k" by simp
    then have ne: "\<not> (lo = 0 \<and> hi = r_size p)" using w(2) k(1) by auto
    have "\<exists>p'. redistribute p (lo, hi, c) (Some e) = Some p' \<and> r_wf p' \<and> r_size p' = r_size p \<and> r_count p' = r_count p
      \<and> rcontent p' = elems_in (r_array p) (r_bitmap p) 0 lo
        @ ins_opt (Some e) (elems_in (r_array p) (r_bitmap p) lo hi)
        @ elems_in (r_array p) (r_bitmap p) hi (r_size p)"
      using w(3) j(4) jk by (intro redistribute_spec[OF wf w(2) b(3)]) simp_all
    then obtain p' where p': "redistribute p (lo, hi, c) (Some e) = Some p'" "r_wf p'" "r_count p' = r_count p"
      "r_size p' = r_size p"
      "rcontent p' = elems_in (r_array p) (r_bitmap p) 0 lo
        @ ins_elem e (elems_in (r_array p) (r_bitmap p) lo hi)
        @ elems_in (r_array p) (r_bitmap p) hi (r_size p)" by auto
    then show ?thesis
      using fu ne b by (intro exI[of _ c] exI[of _ p'] exI[of _ lo] exI[of _ hi])
        (auto simp: raizes_rebalance_def)
  qed
qed

lemma rebalance_remove_spec:
  assumes wf: "r_wf p" and i: "i < r_size p"
    and n: "r_count p = int (length (rcontent p))" and fits: "2 * length (rcontent p) \<le> r_size p" and s4: "4 \<le> r_size p"
  shows "\<exists>m p'. raizes_rebalance p i None = Some (m, p') \<and> r_wf p' \<and> r_count p' = r_count p
    \<and> rcontent p' = rcontent p"
proof -
  obtain k where k: "r_size p = 2 ^ k" "1 \<le> k" "k \<le> 29" using wf by (auto simp: r_wf_def)
  have k2: "2 \<le> k"
  proof (rule ccontr)
    assume "\<not> 2 \<le> k"
    then have "k = 1" using k(2) by simp
    then show False using s4 k(1) by simp
  qed
  let ?pr = "ddiv L_TRHLD (d_of_nat k)"
  let ?c = "count_in_range p (int (i div 2 * 2) - 1) (int (i div 2 * 2 + 2))"
  have wa: "window_at p i (i div 2 * 2, i div 2 * 2 + 2, ?c) 2 0"
    using count_in_range_spec[of p "i div 2 * 2" "i div 2 * 2 + 2"] by (simp add: window_at_def)
  define r where "r = lower_loop p i 2 (i div 2 * 2) (i div 2 * 2 + 2) ?c ?pr ?pr"
  obtain lo hi c where rr: "r = (lo, hi, c)" by (cases r)
  have fl: "find_lower_neighborhood p i = Some (lo, hi, c)"
    unfolding find_lower_neighborhood_def k(1) log2_size_pow Let_def
    using rr[unfolded r_def] by simp
  obtain j where j: "1 \<le> j" "j \<le> k" "window_at p i (lo, hi, c) (2 ^ j) 0"
    using lower_loop_spec[OF k(1) _ _ _ wa, of 1 ?pr ?pr] k(2) unfolding r_def[symmetric] rr by auto
  have w: "lo = i div 2 ^ j * 2 ^ j" "hi = lo + 2 ^ j" "c = win_count p lo hi"
    using j(3) by (simp_all add: window_at_def)
  have b: "lo \<le> i" "i < hi" "hi \<le> r_size p"
    using window_contains'[of "2 ^ j" i] window_in_size[of i k j] i j(2) k(1) w by simp_all
  show ?thesis
  proof (cases "j = k")
    case True
    then have lohi: "lo = 0" "hi = r_size p" using w i k(1) by simp_all
    have "(2 :: nat) ^ k = 2 * 2 ^ (k - 1)" using k(2) by (simp flip: power_Suc)
    then have le: "length (ins_opt None (rcontent p)) \<le> 2 ^ (k - 1)" using fits k(1) by simp
    have ns: "nat \<lceil>dmul (d_of_nat (r_size p)) D_FACTOR\<rceil> = 2 ^ (k - 1)"
      using size_halve[of k] k by simp
    have "\<exists>p'. raizes_resize p D_FACTOR None = Some p' \<and> r_wf p' \<and> r_size p' = 2 ^ (k - 1)
      \<and> r_count p' = r_count p \<and> rcontent p' = ins_opt None (rcontent p)"
      using k k2 n le by (intro raizes_resize_spec[OF ns]) simp_all
    then obtain p' where p': "raizes_resize p D_FACTOR None = Some p'" "r_wf p'"
      "r_count p' = r_count p" "rcontent p' = rcontent p" by auto
    then show ?thesis
      using fl lohi by (intro exI[of _ c] exI[of _ p']) (simp add: raizes_rebalance_def)
  next
    case False
    then have jk: "j < k" using j(2) by simp
    then have "(2 :: nat) ^ j < 2 ^ k" by simp
    then have ne: "\<not> (lo = 0 \<and> hi = r_size p)" using w(2) k(1) by auto
    have cw: "c \<le> 2 ^ j" using w(2,3) length_elems_in_le[of "r_array p" "r_bitmap p" lo hi] by simp
    have "\<exists>p'. redistribute p (lo, hi, c) None = Some p' \<and> r_wf p' \<and> r_size p' = r_size p \<and> r_count p' = r_count p
      \<and> rcontent p' = elems_in (r_array p) (r_bitmap p) 0 lo
        @ ins_opt None (elems_in (r_array p) (r_bitmap p) lo hi)
        @ elems_in (r_array p) (r_bitmap p) hi (r_size p)"
      using w(3) cw by (intro redistribute_spec[OF wf w(2) b(3)]) simp_all
    then obtain p' where p': "redistribute p (lo, hi, c) None = Some p'" "r_wf p'" "r_count p' = r_count p"
      "rcontent p' = rcontent p" using rcontent_split3[of lo hi p] w(2) b(3) by auto
    then show ?thesis
      using fl ne by (intro exI[of _ c] exI[of _ p']) (auto simp: raizes_rebalance_def)
  qed
qed

lemma sorted_insert_between:
  assumes "sorted (map key (A @ B @ C))" "\<forall>x \<in> set A. key x \<le> key e" "\<forall>x \<in> set C. key e \<le> key x"
  shows "sorted (map key (A @ ins_elem e B @ C))"
  using assms by (auto simp: sorted_append sorted_ins_elem)

lemma PMA_insert_spec:
  assumes inv: "raizes_inv p" and sz: "r_size p \<le> 2 ^ 28"
  shows "\<exists>m p'. PMA_insert p k v = Some (m, p') \<and> raizes_inv p'
    \<and> r_size p' \<le> max (r_size p) (32 * (length (rcontent p) + 1))
    \<and> mset (rcontent p') = add_mset \<lparr>key = k, elem_value = v\<rparr> (mset (rcontent p))"
proof -
  have wf: "r_wf p" and srt: "sorted (map key (rcontent p))" and cnt: "r_count p = int (length (rcontent p))"
    using inv by (simp_all add: raizes_inv_def)
  define e where "e = \<lparr>key = k, elem_value = v\<rparr>"
  let ?E = "elems_in (r_array p) (r_bitmap p)"
  obtain i where i: "raizes_find p k False = int i" "i < r_size p"
    "\<And>j. j < i \<Longrightarrow> used p j \<Longrightarrow> cell_key p j \<le> k"
    "\<And>j. i < j \<Longrightarrow> j < r_size p \<Longrightarrow> used p j \<Longrightarrow> k \<le> cell_key p j"
    using raizes_find_place[OF wf srt, of k] by blast
  have lo: "\<forall>x \<in> set (?E 0 lo). key x \<le> key e" if "lo \<le> i" for lo
    using i(3) that by (auto simp: elems_in_def e_def)
  have hi: "\<forall>x \<in> set (?E hi (r_size p)). key e \<le> key x" if "i < hi" for hi
    using i(4) that by (auto simp: elems_in_def e_def)
  define p1 where "p1 = p\<lparr>r_count := r_count p + 1\<rparr>"
  have p1: "r_wf p1" "r_size p1 = r_size p" "r_array p1 = r_array p" "r_bitmap p1 = r_bitmap p"
    "rcontent p1 = rcontent p" "r_count p1 = int (length (rcontent p1)) + 1"
    using wf cnt by (simp_all add: p1_def r_wf_def rcontent_def)
  have unf: "PMA_insert p k v = (if used p i then raizes_rebalance p1 i (Some e)
      else do { (arr, bm) \<leftarrow> put_cell (r_array p, r_bitmap p) i e;
        Some (0, p1\<lparr>r_array := arr, r_bitmap := bm\<rparr>) })"
    using i(1) by (simp add: PMA_insert_def p1_def e_def)
  have "\<exists>m p' lo hi. PMA_insert p k v = Some (m, p') \<and> r_wf p' \<and> r_count p' = r_count p + 1
    \<and> lo \<le> i \<and> i < hi \<and> hi \<le> r_size p
    \<and> r_size p' \<le> max (r_size p) (32 * (length (rcontent p) + 1))
    \<and> rcontent p' = ?E 0 lo @ ins_elem e (?E lo hi) @ ?E hi (r_size p)"
  proof (cases "used p i")
    case True
    then show ?thesis
      using rebalance_insert_spec[OF p1(1) _ _ p1(6), of i e] sz i(2) unf p1 by (simp add: p1_def)
  next
    case False
    have len: "length (r_array p) = r_size p" "i div 8 < length (r_bitmap p)"
      using wf i(2) by (auto simp: r_wf_def)
    define p' where "p' = p1\<lparr>r_array := (r_array p)[i := e], r_bitmap := SETBIT (r_bitmap p) i\<rparr>"
    have eq: "PMA_insert p k v = Some (0, p')"
      using unf False len i(2) by (simp add: put_cell_def p'_def)
    have "r_wf p'" using wf by (auto simp: r_wf_def p'_def p1_def)
    moreover have "rcontent p' = ?E 0 i @ ins_elem e (?E i (Suc i)) @ ?E (Suc i) (r_size p)"
    proof -
      let ?E' = "elems_in (r_array p') (r_bitmap p')"
      have b: "used p' j \<longleftrightarrow> j = i \<or> used p j" for j using len by (simp add: p'_def bit_of_SETBIT)
      have a: "r_array p' ! j = (if j = i then e else r_array p ! j)" for j
        using i(2) len by (simp add: p'_def nth_list_update)
      have "?E' 0 i = ?E 0 i" "?E' (Suc i) (r_size p) = ?E (Suc i) (r_size p)"
        by (intro elems_in_cong; simp add: a b)+
      moreover have "?E' i (Suc i) = [e]" "?E i (Suc i) = []"
        using a b False by (simp_all add: elems_in_first)
      ultimately show ?thesis
        using rcontent_split3[of i "Suc i" p'] i(2) by (simp add: p'_def p1_def)
    qed
    ultimately show ?thesis
      using eq i(2) by (intro exI[of _ 0] exI[of _ p'] exI[of _ i] exI[of _ "Suc i"]) (simp add: p'_def p1_def)
  qed
  then obtain m p' lo' hi' where r: "PMA_insert p k v = Some (m, p')" "r_wf p'" "r_count p' = r_count p + 1"
    "lo' \<le> i" "i < hi'" "hi' \<le> r_size p"
    "rcontent p' = ?E 0 lo' @ ins_elem e (?E lo' hi') @ ?E hi' (r_size p)"
    "r_size p' \<le> max (r_size p) (32 * (length (rcontent p) + 1))" by blast
  have split: "rcontent p = ?E 0 lo' @ ?E lo' hi' @ ?E hi' (r_size p)"
    using rcontent_split3[of lo' hi' p] r(4-6) by simp
  have "sorted (map key (rcontent p'))"
    unfolding r(7) using srt[unfolded split] lo[OF r(4)] hi[OF r(5)] by (rule sorted_insert_between)
  moreover have ms: "mset (rcontent p') = add_mset e (mset (rcontent p))" unfolding r(7) split by simp
  moreover have "r_count p' = int (length (rcontent p'))"
  proof -
    have "length (rcontent p') = Suc (length (rcontent p))" by (metis ms size_add_mset size_mset)
    then show ?thesis using r(3) cnt by simp
  qed
  ultimately show ?thesis using r(1,2,8) by (auto simp: raizes_inv_def e_def)
qed

lemma PMA_remove_spec:
  assumes inv: "raizes_inv p" and k: "k \<in> key ` set (rcontent p)"
    and s4: "4 \<le> r_size p" and fits: "2 * (length (rcontent p) - 1) \<le> r_size p"
  shows "\<exists>m p' i. PMA_find p k = int i \<and> used p i \<and> cell_key p i = k \<and> i < r_size p
    \<and> PMA_remove p k = Some (m, p') \<and> raizes_inv p'
    \<and> mset (rcontent p) = add_mset (r_array p ! i) (mset (rcontent p'))"
proof -
  have wf: "r_wf p" and srt: "sorted (map key (rcontent p))" and cnt: "r_count p = int (length (rcontent p))"
    using inv by (simp_all add: raizes_inv_def)
  let ?E = "elems_in (r_array p) (r_bitmap p)"
  obtain i where i: "i < r_size p" "PMA_find p k = int i" "used p i" "cell_key p i = k"
    using raizes_find_exact[OF wf srt, of k] k by blast
  have len: "length (r_array p) = r_size p" "i div 8 < length (r_bitmap p)"
    using wf i(1) by (auto simp: r_wf_def)
  define p1 where "p1 = p\<lparr>r_bitmap := CLRBIT (r_bitmap p) i, r_count := r_count p - 1\<rparr>"
  have b: "used p1 j \<longleftrightarrow> j \<noteq> i \<and> used p j" for j using len by (simp add: p1_def bit_of_CLRBIT)
  have c1: "rcontent p1 = ?E 0 i @ ?E (Suc i) (r_size p)"
  proof -
    let ?E' = "elems_in (r_array p1) (r_bitmap p1)"
    have "?E' 0 i = ?E 0 i" "?E' (Suc i) (r_size p) = ?E (Suc i) (r_size p)"
      by (intro elems_in_cong; simp add: b p1_def[THEN arg_cong, of r_array])+
    moreover have "?E' i (Suc i) = []" using b by (simp add: elems_in_first)
    ultimately show ?thesis using rcontent_split3[of i "Suc i" p1] i(1) by (simp add: p1_def)
  qed
  have c: "rcontent p = ?E 0 i @ r_array p ! i # ?E (Suc i) (r_size p)"
    using rcontent_split3[of i "Suc i" p] i(1,3) by (simp add: elems_in_first)
  have n1: "r_count p1 = int (length (rcontent p1))" using cnt unfolding c c1 by (simp add: p1_def)
  have wf1: "r_wf p1" using wf by (simp add: r_wf_def p1_def)
  have "\<exists>m p'. raizes_rebalance p1 i None = Some (m, p') \<and> r_wf p' \<and> r_count p' = r_count p1
    \<and> rcontent p' = rcontent p1"
  proof (rule rebalance_remove_spec[OF wf1 _ n1])
    show "2 * length (rcontent p1) \<le> r_size p1" using fits unfolding c c1 by (simp add: p1_def)
  qed (use i(1) s4 in \<open>simp_all add: p1_def\<close>)
  then obtain m p' where r: "raizes_rebalance p1 i None = Some (m, p')" "r_wf p'" "r_count p' = r_count p1"
    "rcontent p' = rcontent p1" by blast
  have "PMA_remove p k = Some (m, p')"
    using i(2) r(1) by (simp add: PMA_remove_def PMA_find_def p1_def)
  moreover have "raizes_inv p'"
    using r n1 srt unfolding c by (auto simp: raizes_inv_def c1 sorted_append)
  ultimately show ?thesis using i c c1 r(4) by (intro exI[of _ m] exI[of _ p'] exI[of _ i]) simp
qed

end
