(* ===== verification/Raizes_Properties.thy ===== *)
theory Raizes_Properties
  imports Raizes_Proofs Interface
begin

text \<open>
  What the bitmap array of \<open>pma/external/raizes\<close> and its wrapper promise: lookup and insertion
  refine a sorted multiset, the iterator lists it, and the wrapper is an instance of the interface
  of the experiments. A removal is correct as long as the elements fit half the array; the
  last section shows an array for which they do not, and an element is lost.
\<close>

section \<open>The new array\<close>

lemma PMA_new_content [simp]: "rcontent PMA_new = []" "r_count PMA_new = 0" "r_size PMA_new = 8"
proof -
  show "rcontent PMA_new = []" unfolding rcontent_def
    by (rule elems_in_empty) (simp add: PMA_new_def BASE_SIZE_def bit_of_def)
qed (simp_all add: PMA_new_def BASE_SIZE_def)

lemma PMA_new_inv: "raizes_inv PMA_new"
proof -
  have "\<exists>k. (8 :: nat) = 2 ^ k \<and> 1 \<le> k \<and> k \<le> 29" by (rule exI[of _ 3]) simp
  then have "r_wf PMA_new" by (simp add: r_wf_def PMA_new_def BASE_SIZE_def)
  then show ?thesis by (simp add: raizes_inv_def)
qed

section \<open>The wrapper as an instance of the interface\<close>

definition rpair :: "raizes_PMA_element \<Rightarrow> int \<times> int" where
  "rpair e = (key e, elem_value e)"

definition raizes_elems :: "raizes_PMA \<Rightarrow> (int \<times> int) list" where
  "raizes_elems p = map rpair (rcontent p)"

text \<open>The invariant of the insertions also bounds the size by the number of elements.\<close>

definition raizes_linear :: "raizes_PMA \<Rightarrow> bool" where
  "raizes_linear p \<longleftrightarrow> raizes_inv p \<and> r_size p \<le> 32 * (length (rcontent p) + 1)"

lemma rpair_eq: "rpair e = (k, v) \<longleftrightarrow> e = \<lparr>key = k, elem_value = v\<rparr>"
  by (cases e) (auto simp: rpair_def)

lemma fst_raizes_elems: "fst ` set (raizes_elems p) = key ` set (rcontent p)"
  by (force simp: raizes_elems_def rpair_def)

lemma map_fst_raizes_elems: "map fst (raizes_elems p) = map key (rcontent p)"
  by (simp add: raizes_elems_def rpair_def)

lemma used_in_elems:
  "i < r_size p \<Longrightarrow> used p i \<Longrightarrow> rpair (r_array p ! i) \<in> set (raizes_elems p)"
  by (auto simp: raizes_elems_def rcontent_def elems_in_def)

lemma raizes_find_found:
  assumes inv: "raizes_inv p"
  shows "PMA_Raizes_find p k = - 1 \<and> k \<notin> fst ` set (raizes_elems p)
    \<or> (k, PMA_Raizes_find p k) \<in> set (raizes_elems p)"
proof -
  have wf: "r_wf p" and srt: "sorted (map key (rcontent p))" using inv by (simp_all add: raizes_inv_def)
  consider "PMA_find p k = - 1" "k \<notin> key ` set (rcontent p)"
    | i where "i < r_size p" "PMA_find p k = int i" "used p i" "cell_key p i = k"
    using raizes_find_exact[OF wf srt, of k] by blast
  then show ?thesis
  proof cases
    case 1
    then show ?thesis by (simp add: PMA_Raizes_find_def fst_raizes_elems)
  next
    case 2
    then have "rpair (r_array p ! i) = (k, PMA_Raizes_find p k)" by (simp add: PMA_Raizes_find_def rpair_def)
    then show ?thesis using used_in_elems[OF 2(1,3)] by simp
  qed
qed

lemma raizes_find_map_of:
  assumes inv: "raizes_inv p" and d: "distinct (map fst (raizes_elems p))"
  shows "PMA_Raizes_find p k = (case map_of (raizes_elems p) k of None \<Rightarrow> - 1 | Some v \<Rightarrow> v)"
  using raizes_find_found[OF inv, of k] map_of_is_SomeI[OF d] map_of_eq_None_iff[of "raizes_elems p" k]
  by fastforce

lemma PMA_Raizes_insert_spec:
  assumes inv: "raizes_inv p" and sz: "r_size p \<le> 2 ^ 28"
  shows "\<exists>p'. PMA_Raizes_insert p k v = Some p' \<and> raizes_inv p'
    \<and> r_size p' \<le> max (r_size p) (32 * (length (rcontent p) + 1))
    \<and> mset (raizes_elems p') = add_mset (k, v) (mset (raizes_elems p))"
proof -
  obtain m p' where p': "PMA_insert p k v = Some (m, p')" "raizes_inv p'"
    "r_size p' \<le> max (r_size p) (32 * (length (rcontent p) + 1))"
    "mset (rcontent p') = add_mset \<lparr>key = k, elem_value = v\<rparr> (mset (rcontent p))"
    using PMA_insert_spec[OF inv sz, of k v] by blast
  have "mset (raizes_elems p') = add_mset (k, v) (mset (raizes_elems p))"
    using p'(4) by (simp add: raizes_elems_def rpair_def)
  then show ?thesis using p' by (simp add: PMA_Raizes_insert_def)
qed

lemma raizes_linear_insert:
  assumes l: "raizes_linear p" and len: "length (raizes_elems p) < 2 ^ 22"
  shows "\<exists>p'. PMA_Raizes_insert p k v = Some p' \<and> raizes_linear p'
    \<and> mset (raizes_elems p') = add_mset (k, v) (mset (raizes_elems p))"
proof -
  have inv: "raizes_inv p" and b: "r_size p \<le> 32 * (length (rcontent p) + 1)"
    using l by (simp_all add: raizes_linear_def)
  have le: "length (rcontent p) = length (raizes_elems p)" by (simp add: raizes_elems_def)
  have sz: "r_size p \<le> 2 ^ 28" using b len le by simp
  obtain p' where p': "PMA_Raizes_insert p k v = Some p'" "raizes_inv p'"
    "r_size p' \<le> max (r_size p) (32 * (length (rcontent p) + 1))"
    "mset (raizes_elems p') = add_mset (k, v) (mset (raizes_elems p))"
    using PMA_Raizes_insert_spec[OF inv sz, of k v] by blast
  have "length (raizes_elems p') = Suc (length (raizes_elems p))" by (metis p'(4) size_add_mset size_mset)
  then have "length (rcontent p') = Suc (length (rcontent p))" by (simp add: raizes_elems_def)
  then have "raizes_linear p'" using p'(2,3) b by (simp add: raizes_linear_def)
  then show ?thesis using p' by blast
qed

interpretation raizes: pma_interface raizes_linear raizes_elems PMA_Raizes_insert PMA_Raizes_find
  PMA_Raizes_size "\<lambda>k. True" "2 ^ 22"
proof unfold_locales
  fix s :: raizes_PMA and k v :: int
  assume "raizes_linear s" "length (raizes_elems s) < 2 ^ 22"
  then show "\<exists>s'. PMA_Raizes_insert s k v = Some s' \<and> raizes_linear s'
      \<and> mset (raizes_elems s') = add_mset (k, v) (mset (raizes_elems s))"
    by (rule raizes_linear_insert)
next
  fix s :: raizes_PMA assume "raizes_linear s"
  then have "sorted (map key (rcontent s))" "r_count s = int (length (rcontent s))"
    by (simp_all add: raizes_linear_def raizes_inv_def)
  then show "sorted (map fst (raizes_elems s))" "PMA_Raizes_size s = length (raizes_elems s)"
    unfolding map_fst_raizes_elems by (simp_all add: PMA_Raizes_size_def PMA_get_count_def raizes_elems_def)
next
  fix s :: raizes_PMA and k :: int
  assume "raizes_linear s" "distinct (map fst (raizes_elems s))"
  then show "PMA_Raizes_find s k = (case map_of (raizes_elems s) k of None \<Rightarrow> - 1 | Some v \<Rightarrow> v)"
    by (intro raizes_find_map_of) (simp_all add: raizes_linear_def)
qed

section \<open>The iterator\<close>

lemma raizes_move_spec:
  assumes "pos \<le> r_size p"
  shows "pos \<le> raizes_move p pos \<and> raizes_move p pos \<le> r_size p
    \<and> elems_in (r_array p) (r_bitmap p) (raizes_move p pos) (r_size p)
      = elems_in (r_array p) (r_bitmap p) pos (r_size p)
    \<and> (raizes_move p pos < r_size p \<longrightarrow> used p (raizes_move p pos))"
  using assms
proof (induction p pos rule: raizes_move.induct)
  case (1 p pos)
  show ?case
  proof (cases "pos < r_size p \<and> GETBIT (r_bitmap p) pos = 0")
    case False
    then have "raizes_move p pos = pos" by (subst raizes_move.simps) auto
    then show ?thesis using False "1.prems" by auto
  next
    case True
    then have eq: "raizes_move p pos = raizes_move p (pos + 1)" by (subst raizes_move.simps) simp
    have "elems_in (r_array p) (r_bitmap p) pos (r_size p) = elems_in (r_array p) (r_bitmap p) (pos + 1) (r_size p)"
      using True by (simp add: elems_in_first[of pos])
    then show ?thesis using "1.IH"[OF True] True unfolding eq by auto
  qed
qed

lemma raizes_drain_spec:
  assumes "pos \<le> r_size p" "r_size p - pos < fuel" "pos < r_size p \<longrightarrow> used p pos"
  shows "raizes_drain fuel p pos = Some (map rpair (elems_in (r_array p) (r_bitmap p) pos (r_size p)))"
  using assms
proof (induction fuel arbitrary: pos)
  case (Suc fuel)
  show ?case
  proof (cases "pos < r_size p")
    case False
    then show ?thesis by (simp add: raizes_hasNext_def)
  next
    case True
    have mv: "Suc pos \<le> raizes_move p (Suc pos)" "raizes_move p (Suc pos) \<le> r_size p"
      "elems_in (r_array p) (r_bitmap p) (raizes_move p (Suc pos)) (r_size p)
        = elems_in (r_array p) (r_bitmap p) (Suc pos) (r_size p)"
      "raizes_move p (Suc pos) < r_size p \<longrightarrow> used p (raizes_move p (Suc pos))"
      using raizes_move_spec[of "Suc pos" p] True by auto
    have "raizes_drain fuel p (raizes_move p (Suc pos))
        = Some (map rpair (elems_in (r_array p) (r_bitmap p) (raizes_move p (Suc pos)) (r_size p)))"
      using mv Suc.prems(2) True by (intro Suc.IH) auto
    then show ?thesis
      using True Suc.prems(3) mv(3)
      by (simp add: raizes_hasNext_def raizes_next_def Let_def elems_in_first[OF True] rpair_def)
  qed
qed simp

lemma raizes_iterate_spec: "raizes_iterate p = Some (raizes_elems p)"
  using raizes_move_spec[of 0 p] raizes_drain_spec[of "raizes_move p 0" p "Suc (r_size p)"]
  by (simp add: raizes_iterate_def raizes_elems_def rcontent_def)

section \<open>A removal that loses an element\<close>

definition cell :: "int \<Rightarrow> int \<Rightarrow> raizes_PMA_element" where
  "cell k v = \<lparr>key = k, elem_value = v\<rparr>"

definition three_cells :: raizes_PMA where
  "three_cells = \<lparr>r_array = [unset, unset, unset, cell 10 1, cell 30 3, cell 50 2, unset, unset],
     r_bitmap = [56], r_size = 8, r_count = 3\<rparr>"

definition four_cells :: raizes_PMA where
  "four_cells = \<lparr>r_array = [cell 10 1, unset, unset, unset, cell 30 3, unset, unset, unset,
       cell 40 4, unset, unset, unset, cell 50 2, unset, unset, unset],
     r_bitmap = [17, 17], r_size = 16, r_count = 4\<rparr>"

definition right_full :: raizes_PMA where
  "right_full = \<lparr>r_array = [cell 10 1, unset, unset, unset, cell 30 3, unset, unset, unset,
       cell 40 4, cell 42 6, cell 45 5, cell 47 7, cell 50 2, cell 55 9, cell 60 8, cell 65 10],
     r_bitmap = [17, 255], r_size = 16, r_count = 10\<rparr>"

definition seven_left :: raizes_PMA where
  "seven_left = \<lparr>r_array = [cell 40 4, cell 42 6, cell 45 5, cell 47 7, cell 50 2, cell 55 9, cell 60 8, cell 65 10],
     r_bitmap = [255], r_size = 8, r_count = 9\<rparr>"

lemma first_three: "do_inserts PMA_Raizes_insert PMA_new [(10, 1), (50, 2), (30, 3)] = Some three_cells"
  by code_simp

lemma six_more: "do_inserts PMA_Raizes_insert four_cells
    [(45, 5), (42, 6), (47, 7), (60, 8), (55, 9), (65, 10)] = Some right_full"
  by code_simp


lemma rnd_numeral: "(numeral n :: nat) < 2 ^ 53 \<Longrightarrow> rnd (numeral n) = numeral n"
  using rnd_of_nat[of "numeral n"] by simp

lemma spaced_16_4: "spaced 16 4 0 = 0" "spaced 16 4 (Suc 0) = 4" "spaced 16 4 (Suc (Suc 0)) = 8" "spaced 16 4 (Suc (Suc (Suc 0))) = 12"
  by (simp_all add: spaced_def ddiv_def dmul_def d_of_nat_exact rnd_numeral d_trunc_def)

lemma spaced_8_9: "spaced 8 9 0 = 0" "spaced 8 9 (Suc 0) = 0" "spaced 8 9 (Suc (Suc 0)) = 1" "spaced 8 9 (Suc (Suc (Suc 0))) = 2" "spaced 8 9 (Suc (Suc (Suc (Suc 0)))) = 3" "spaced 8 9 (Suc (Suc (Suc (Suc (Suc 0))))) = 4" "spaced 8 9 (Suc (Suc (Suc (Suc (Suc (Suc 0)))))) = 5" "spaced 8 9 (Suc (Suc (Suc (Suc (Suc (Suc (Suc 0))))))) = 6" "spaced 8 9 (Suc (Suc (Suc (Suc (Suc (Suc (Suc (Suc 0)))))))) = 7"
  by (simp_all add: spaced_0 spaced_quotient)

lemma fourth_window:
  "find_upper_neighborhood (three_cells\<lparr>r_count := 4\<rparr>) 4 = Some (0, 8, 4)"
proof -
  let ?p = "three_cells\<lparr>r_count := 4\<rparr>"
  define pr where "pr = ddiv U_TRHLD (d_of_nat 3)"
  have pr: "5 / 32 \<le> pr" "pr \<le> 1"
  proof -
    have e: "pr = rnd (1 / 2 / 3)" by (simp add: pr_def ddiv_def U_TRHLD_def d_of_nat_exact)
    have "rnd (of_nat 5 / 2 ^ 5) \<le> rnd (1 / 2 / 3)" by (rule rnd_mono) simp
    then show "5 / 32 \<le> pr" using rnd_dyadic[of 5 5] by (simp add: e)
    have "rnd (1 / 2 / 3) \<le> rnd 1" by (rule rnd_mono) simp
    then show "pr \<le> 1" by (simp add: e)
  qed
  have t1: "dsub 1 pr \<le> 27 / 32"
    using rnd_mono[of "1 - pr" "of_nat 27 / 2 ^ 5"] pr rnd_dyadic[of 27 5] by (simp add: dsub_def)
  have t2: "dsub (dsub 1 pr) pr \<le> 11 / 16"
    using rnd_mono[of "dsub 1 pr - pr" "of_nat 11 / 2 ^ 4"] pr t1 rnd_dyadic[of 11 4] by (simp add: dsub_def)
  have d: "ddiv (d_of_nat 3) (d_of_nat 2) = 3 / 2" "ddiv (d_of_nat 3) (d_of_nat 4) = 3 / 4"
    using rnd_dyadic[of 3 1] rnd_dyadic[of 3 2] by (simp_all add: ddiv_def d_of_nat_exact)
  have n: "count_in_range ?p 3 6 = 2" "count_in_range ?p 3 4 = 0" "count_in_range ?p 5 8 = 0"
    "count_in_range ?p (- 1) 4 = 1" "count_in_range ?p 7 8 = 0"
    by code_simp+
  have l: "log2_size (r_size ?p) = Some 3" by code_simp
  have sz: "r_size ?p = 8" by (simp add: three_cells_def)
  have "upper_loop ?p 4 8 0 8 4 t pr = (0, 8, 4)" for t by (subst upper_loop.simps) (simp add: sz)
  then have "upper_loop ?p 4 4 4 8 3 (dsub (dsub 1 pr) pr) pr = (0, 8, 4)"
    using t2 by (subst upper_loop.simps) (simp add: sz d n Let_def)
  then have "upper_loop ?p 4 2 4 6 3 (dsub 1 pr) pr = (0, 8, 4)"
    using t1 by (subst upper_loop.simps) (simp add: sz d n Let_def)
  then show ?thesis using l n by (simp add: find_upper_neighborhood_def pr_def)
qed

lemma fourth: "PMA_Raizes_insert three_cells 40 4 = Some four_cells"
proof -
  let ?p = "three_cells\<lparr>r_count := 4\<rparr>"
  have f: "raizes_find three_cells 40 False = 4" by code_simp
  have "GETBIT (r_bitmap three_cells) 4 \<noteq> 0" by code_simp
  then have g: "used three_cells 4" by simp
  have c: "elems_in (r_array ?p) (r_bitmap ?p) 0 (r_size ?p) = [cell 10 1, cell 30 3, cell 50 2]"
    by code_simp
  have i: "ins_opt (Some (cell 40 4)) [cell 10 1, cell 30 3, cell 50 2]
      = [cell 10 1, cell 30 3, cell 40 4, cell 50 2]"
    by code_simp
  have rl: "resize_loop ?p 16 s (Some (cell 40 4)) (- 1) 0
      = place_loop s 0 16 4 0 [cell 10 1, cell 30 3, cell 40 4, cell 50 2]" for s
    using resize_loop_spec[of ?p 4 0 "Some (cell 40 4)" 0 16 s] unfolding c i by simp
  have pl: "place_loop (replicate 16 unset, [0, 0]) 0 16 4 0 [cell 10 1, cell 30 3, cell 40 4, cell 50 2]
      = Some (r_array four_cells, r_bitmap four_cells)"
    by (simp add: spaced_16_4, code_simp)
  have ns: "nat \<lceil>dmul (d_of_nat (r_size ?p)) U_FACTOR\<rceil> = 16"
    using size_double[of 3] by (simp add: three_cells_def)
  have by2: "replicate (nat \<lceil>ddiv (d_of_nat 16) 8\<rceil>) (0 :: 8 word) = [0, 0]"
  proof -
    have "\<lceil>ddiv (d_of_nat 16) 8\<rceil> = 2" by (simp add: ddiv_def d_of_nat_exact rnd_numeral)
    then show ?thesis by (simp add: numeral_2_eq_2)
  qed
  have "raizes_resize ?p U_FACTOR (Some (cell 40 4))
      = Some (?p\<lparr>r_array := r_array four_cells, r_bitmap := r_bitmap four_cells, r_size := 16\<rparr>)"
    unfolding raizes_resize_def ns Let_def by2 rl pl by simp
  also have "\<dots> = Some four_cells" by (simp add: three_cells_def four_cells_def)
  finally have "raizes_rebalance ?p 4 (Some (cell 40 4)) = Some (4, four_cells)"
    using fourth_window by (simp add: raizes_rebalance_def three_cells_def)
  moreover have "three_cells\<lparr>r_count := r_count three_cells + 1\<rparr> = ?p" by (simp add: three_cells_def)
  ultimately show ?thesis
    using f g by (simp add: PMA_Raizes_insert_def PMA_insert_def cell_def Let_def)
qed

lemma fourth_insert: "do_inserts PMA_Raizes_insert three_cells [(40, 4)] = Some four_cells"
  by (simp add: fourth)

lemma right_full_window: "find_lower_neighborhood
    (right_full\<lparr>r_bitmap := CLRBIT (r_bitmap right_full) 4, r_count := 9\<rparr>) 4 = Some (0, 16, 9)"
proof -
  let ?p = "right_full\<lparr>r_bitmap := CLRBIT (r_bitmap right_full) 4, r_count := 9\<rparr>"
  have pr: "ddiv L_TRHLD (d_of_nat 4) = 1 / 16"
    using rnd_dyadic[of 1 4] by (simp add: ddiv_def L_TRHLD_def d_of_nat_exact)
  have t: "dadd (1 / 16) (1 / 16) = 1 / 8" "dadd (1 / 8) (1 / 16) = 3 / 16"
    using rnd_dyadic[of 1 3] rnd_dyadic[of 3 4] by (simp_all add: dadd_def)
  have d: "ddiv (d_of_nat 0) (d_of_nat w) = 0" "ddiv (d_of_nat (Suc 0)) (d_of_nat 8) = 1 / 8" for w
    using rnd_dyadic[of 1 3] by (simp_all add: ddiv_def d_of_nat_exact d_of_nat_def rnd_numeral)
  have n: "count_in_range ?p 3 6 = 0" "count_in_range ?p 3 4 = 0" "count_in_range ?p 5 8 = 0"
    "count_in_range ?p (- 1) 4 = 1" "count_in_range ?p 7 8 = 0" "count_in_range ?p (- 1) 0 = 0"
    "count_in_range ?p 7 16 = 8"
    by code_simp+
  have l: "log2_size (r_size ?p) = Some 4" by code_simp
  have sz: "r_size ?p = 16" by (simp add: right_full_def)
  have "lower_loop ?p 4 16 0 16 9 t pr = (0, 16, 9)" for t pr by (subst lower_loop.simps) (simp add: sz)
  then have "lower_loop ?p 4 8 0 8 1 (3 / 16) (1 / 16) = (0, 16, 9)"
    by (subst lower_loop.simps) (simp add: sz d n Let_def)
  then have "lower_loop ?p 4 4 4 8 0 (1 / 8) (1 / 16) = (0, 16, 9)"
    by (subst lower_loop.simps) (simp add: sz d n t Let_def)
  then have "lower_loop ?p 4 2 4 6 0 (1 / 16) (1 / 16) = (0, 16, 9)"
    by (subst lower_loop.simps) (simp add: sz d n t Let_def)
  then show ?thesis using l n by (simp add: find_lower_neighborhood_def pr)
qed

lemma remove_right_full: "PMA_remove right_full 30 = Some (9, seven_left)"
proof -
  let ?p = "right_full\<lparr>r_bitmap := CLRBIT (r_bitmap right_full) 4, r_count := 9\<rparr>"
  let ?es = "[cell 10 1, cell 40 4, cell 42 6, cell 45 5, cell 47 7, cell 50 2, cell 55 9, cell 60 8, cell 65 10]"
  have f: "raizes_find right_full 30 True = 4" by code_simp
  have c: "elems_in (r_array ?p) (r_bitmap ?p) 0 (r_size ?p) = ?es" by code_simp
  have rl: "resize_loop ?p 8 s None (- 1) 0 = place_loop s 0 8 9 0 ?es" for s
    using resize_loop_spec[of ?p 9 0 None 0 8 s] unfolding c by simp
  have pl: "place_loop (replicate 8 unset, [0]) 0 8 9 0 ?es = Some (r_array seven_left, r_bitmap seven_left)"
    by (simp add: spaced_8_9, code_simp)
  have ns: "nat \<lceil>dmul (d_of_nat (r_size ?p)) D_FACTOR\<rceil> = 8"
    using size_halve[of 4] by (simp add: right_full_def)
  have by1: "replicate (nat \<lceil>ddiv (d_of_nat 8) 8\<rceil>) (0 :: 8 word) = [0]"
    by (simp add: ddiv_def d_of_nat_exact)
  have "raizes_resize ?p D_FACTOR None
      = Some (?p\<lparr>r_array := r_array seven_left, r_bitmap := r_bitmap seven_left, r_size := 8\<rparr>)"
    unfolding raizes_resize_def ns Let_def by1 rl pl by simp
  also have "\<dots> = Some seven_left" by (simp add: right_full_def seven_left_def)
  finally have "raizes_rebalance ?p 4 None = Some (9, seven_left)"
    using right_full_window by (simp add: raizes_rebalance_def right_full_def)
  moreover have "right_full\<lparr>r_bitmap := CLRBIT (r_bitmap right_full) 4, r_count := r_count right_full - 1\<rparr> = ?p"
    by (simp add: right_full_def)
  ultimately show ?thesis using f by (simp add: PMA_remove_def)
qed

lemma do_inserts_append:
  "do_inserts ins s (xs @ ys) = Option.bind (do_inserts ins s xs) (\<lambda>s'. do_inserts ins s' ys)"
  by (induction xs arbitrary: s) (auto simp: Option.bind_assoc split: prod.splits)

section \<open>Shrinking to one cell\<close>

text \<open>Removing the only element halves the array, down to a single cell.\<close>

lemma lower_loop_empty:
  assumes "rcontent p = []" "r_size p = 2 ^ k" "i < r_size p" "w = 2 ^ j" "j \<le> k" "0 < th" "0 < pr"
    and "lo = i div w * w" "hi = lo + w"
  shows "lower_loop p i w lo hi 0 th pr = (0, r_size p, 0)"
  using assms
proof (induction "k - j" arbitrary: j w lo hi th)
  case 0
  then have "w = r_size p" by simp
  then show ?case using "0.prems" by (subst lower_loop.simps) simp
next
  case (Suc d)
  have w0: "0 < w" using Suc.prems(4) by simp
  have jk: "j < k" using Suc.hyps(2) by simp
  then have "(2 :: nat) ^ j < 2 ^ k" by simp
  then have wsz: "w < r_size p" using Suc.prems(2,4) by simp
  have zero: "win_count p a b = 0" if "b \<le> r_size p" for a b
  proof -
    have "\<not> used p x" if "x < r_size p" for x
      using Suc.prems(1) that set_elems_in[of "r_array p ! x" "r_array p" "r_bitmap p" 0 "r_size p"]
      by (auto simp: rcontent_def)
    then have "elems_in (r_array p) (r_bitmap p) a b = []" using that by (intro elems_in_empty) auto
    then show ?thesis by simp
  qed
  define lo' where "lo' = i div (w * 2) * (w * 2)"
  define hi' where "hi' = lo' + w * 2"
  have w2: "w * 2 = 2 ^ Suc j" using Suc.prems(4) by simp
  have hi_le: "hi' \<le> r_size p"
    using window_in_size[of i k "Suc j"] Suc.prems(2,3) jk by (simp add: hi'_def lo'_def w2)
  have c: "0 + count_in_range p (int lo' - 1) (int lo) + count_in_range p (int hi - 1) (int hi') = 0"
    using widen_count[OF w0 Suc.prems(8,9) lo'_def hi'_def, of p] zero[OF hi_le, of lo'] by simp
  have "0 < rnd (th + pr)" using Suc.prems(6,7) by (simp add: rnd_def rnd_pos_pos)
  then have th: "0 < dadd th pr" by (simp add: dadd_def)
  have "lower_loop p i (w * 2) lo' hi' 0 (dadd th pr) pr = (0, r_size p, 0)"
    by (rule Suc.hyps(1)[of "Suc j", OF _ Suc.prems(1-3) w2 _ th Suc.prems(7) lo'_def hi'_def])
      (use Suc.hyps(2) jk in simp_all)
  then show ?case using wsz w0 Suc.prems(6) c
    by (subst lower_loop.simps) (simp add: Let_def lo'_def hi'_def ddiv_def d_of_nat_def del: of_nat_mult)
qed

lemma remove_only:
  assumes inv: "raizes_inv p" and c: "rcontent p = [e]" and k: "key e = k"
  shows "PMA_remove p k = Some (0, \<lparr>r_array = replicate (r_size p div 2) unset,
    r_bitmap = replicate (nat \<lceil>ddiv (d_of_nat (r_size p div 2)) 8\<rceil>) 0,
    r_size = r_size p div 2, r_count = 0\<rparr>)"
proof -
  have wf: "r_wf p" and srt: "sorted (map key (rcontent p))" and cnt: "r_count p = 1"
    using inv c by (simp_all add: raizes_inv_def)
  obtain n where n: "r_size p = 2 ^ n" "1 \<le> n" "n \<le> 29" using wf by (auto simp: r_wf_def)
  obtain i where i: "i < r_size p" "PMA_find p k = int i" "used p i" "cell_key p i = k"
    using raizes_find_exact[OF wf srt, of k] c k by auto
  have len: "i div 8 < length (r_bitmap p)" using wf i(1) by (auto simp: r_wf_def)
  define p1 where "p1 = p\<lparr>r_bitmap := CLRBIT (r_bitmap p) i, r_count := 0\<rparr>"
  have c1: "rcontent p1 = []"
  proof -
    have b: "used p1 j \<longleftrightarrow> j \<noteq> i \<and> used p j" for j using len by (simp add: p1_def bit_of_CLRBIT)
    have "length (filter (used p) [0..<r_size p]) = 1"
      using c unfolding rcontent_def elems_in_def by (metis length_Cons length_map list.size(3) One_nat_def)
    then obtain x where x: "filter (used p) [0..<r_size p] = [x]" by (metis One_nat_def length_0_conv length_Suc_conv)
    have "i \<in> set (filter (used p) [0..<r_size p])" using i by simp
    then have "x = i" using x by simp
    have "\<not> used p1 j" if "j < r_size p" for j
    proof
      assume "used p1 j"
      then have "j \<noteq> i" "j \<in> set (filter (used p) [0..<r_size p])" using that b by auto
      then show False using x \<open>x = i\<close> by simp
    qed
    then show ?thesis unfolding rcontent_def by (intro elems_in_empty) (simp add: p1_def)
  qed
  let ?pr = "ddiv L_TRHLD (d_of_nat n)"
  have pr: "0 < ?pr"
  proof -
    have "0 < L_TRHLD / d_of_nat n" using n by (simp add: L_TRHLD_def d_of_nat_exact)
    then show ?thesis unfolding ddiv_def by (rule rnd_positive)
  qed
  have sz1: "r_size p1 = 2 ^ n" "i < r_size p1" using n i(1) by (simp_all add: p1_def)
  have hi2: "i div 2 * 2 + 2 \<le> r_size p1"
    using window_in_size[of i n 1] sz1 n(2) by simp
  have zero: "count_in_range p1 (int (i div 2 * 2) - 1) (int (i div 2 * 2 + 2)) = 0"
  proof -
    have "elems_in (r_array p1) (r_bitmap p1) (i div 2 * 2) (i div 2 * 2 + 2) = []"
      using rcontent_split3[of "i div 2 * 2" "i div 2 * 2 + 2" p1] c1 hi2 by simp
    then show ?thesis by (simp only: count_in_range_spec list.size)
  qed
  have "find_lower_neighborhood p1 i = Some (0, r_size p1, 0)"
    unfolding find_lower_neighborhood_def sz1(1) log2_size_pow Let_def zero
    using lower_loop_empty[OF c1 sz1(1,2) _ n(2) pr pr refl refl, of 2] sz1(1) by simp
  moreover have "raizes_resize p1 D_FACTOR None = Some \<lparr>r_array = replicate (r_size p div 2) unset,
    r_bitmap = replicate (nat \<lceil>ddiv (d_of_nat (r_size p div 2)) 8\<rceil>) 0,
    r_size = r_size p div 2, r_count = 0\<rparr>"
  proof -
    have "(2 :: nat) ^ n div 2 = 2 ^ (n - 1)" using n(2) by (cases n) simp_all
    then have "nat \<lceil>dmul (d_of_nat (r_size p1)) D_FACTOR\<rceil> = r_size p div 2"
      using size_halve[of n] n sz1 by simp
    moreover have "resize_loop p1 ns s None (- 1) 0 = Some s" for ns s
      by (subst resize_loop.simps) (simp add: p1_def)
    ultimately show ?thesis unfolding raizes_resize_def Let_def by (simp add: p1_def)
  qed
  ultimately have "raizes_rebalance p1 i None = Some (0, \<lparr>r_array = replicate (r_size p div 2) unset,
    r_bitmap = replicate (nat \<lceil>ddiv (d_of_nat (r_size p div 2)) 8\<rceil>) 0,
    r_size = r_size p div 2, r_count = 0\<rparr>)"
    by (simp add: raizes_rebalance_def)
  then show ?thesis using i(2) cnt by (simp add: PMA_remove_def PMA_find_def p1_def)
qed

definition one_cell :: "raizes_PMA_element \<Rightarrow> raizes_PMA" where
  "one_cell e = \<lparr>r_array = [e], r_bitmap = [1], r_size = 1, r_count = 1\<rparr>"

lemma one_cell_bits: "GETBIT [1] 0 = 1" "GETBIT [1] (Suc 0) = 0" "CLRBIT [1] 0 = [0]" "GETBIT [0] 0 = 0"
  by code_simp+

lemma one_cell_next: "next_greater (one_cell e) (- 1) = 0" "next_greater (one_cell e) 0 = - 1"
  by (simp_all add: next_greater_def next_greater_loop.simps one_cell_def one_cell_bits del: GETBIT_zero)

lemma one_cell_find: "raizes_find (one_cell e) k False = 0"
proof -
  have cl: "closest_in_range (one_cell e) 0 (- 1) 1 = 0"
    by (simp add: closest_in_range_def closest_loop.simps one_cell_def one_cell_bits del: GETBIT_zero)
  have "recursive_find (one_cell e) k (- 1) 1 = (if key e = k then (- 1, 1, 0)
      else if k < key e then (- 1, 0, - 1) else (0, 1, - 1))"
    using cl by (simp add: recursive_find.simps[of "one_cell e" k] half_def Let_def) (simp add: one_cell_def)
  then show ?thesis
    using one_cell_next by (simp add: raizes_find_def half_def Let_def) (simp add: one_cell_def half_def)
qed

text \<open>
  In an array of one cell the smallest neighbourhood has two: a second insertion writes
  outside the array.
\<close>

lemma one_cell_insert: "PMA_insert (one_cell e) k v = None"
proof -
  let ?e = "\<lparr>key = k, elem_value = v\<rparr>"
  define p where "p = one_cell e\<lparr>r_count := 2\<rparr>"
  have n1: "next_greater p (- 1) = 0" "next_greater p 0 = - 1"
    by (simp_all add: p_def next_greater_def next_greater_loop.simps one_cell_def one_cell_bits del: GETBIT_zero)
  have l: "log2_size (r_size p) = Some 0" by (simp add: p_def one_cell_def log2_size_def bit_len.simps)
  have c: "count_in_range p (- 1) 2 = 1"
    by (simp add: count_in_range_def count_loop.simps p_def one_cell_def one_cell_bits del: GETBIT_zero)
  have fu: "find_upper_neighborhood p 0 = Some (0, 2, 2)"
    using l c by (simp add: find_upper_neighborhood_def upper_loop.simps p_def one_cell_def)
  define p0 where "p0 = p\<lparr>r_bitmap := [0]\<rparr>"
  have fin: "collect_loop q 2 2 [a, b] i cur = Some (q, [a, b])" for q a b i cur
    by (subst collect_loop.simps) simp
  have n0: "next_greater p0 0 = - 1"
    by (simp add: p0_def p_def next_greater_def next_greater_loop.simps one_cell_def)
  have st: "nat (0 :: int) = 0" "r_array p ! 0 = e" "CLRBIT (r_bitmap p) 0 = [0]"
    by (simp_all add: p_def one_cell_def one_cell_bits)
  have col: "collect_loop p 2 2 [] (Some ?e) (- 1) = Some (p0, if k < key e then [?e, e] else [e, ?e])"
  proof (cases "k < key e")
    case True
    then show ?thesis
      by (subst collect_loop.simps) (simp add: n1 st push_temp_def fin p0_def[symmetric])
  next
    case False
    have "collect_loop p0 2 2 [e] (Some ?e) 0 = Some (p0, [e, ?e])"
      by (subst collect_loop.simps) (simp add: n0 push_temp_def fin)
    then show ?thesis using False
      by (subst collect_loop.simps) (simp add: n1 st push_temp_def fin p0_def[symmetric])
  qed
  have sp: "spaced 2 2 (Suc 0) = 1"
    by (simp add: spaced_def ddiv_def dmul_def d_of_nat_exact d_trunc_def)
  have "place_loop (r_array p0, r_bitmap p0) 0 2 2 0 [a, b] = None" for a b
    by (simp add: put_cell_def spaced_0 sp p0_def p_def one_cell_def)
  then have "redistribute p (0, 2, 2) (Some ?e) = None"
    using col by (simp add: redistribute_def)
  then have "raizes_rebalance p 0 (Some ?e) = None"
    using fu by (simp add: raizes_rebalance_def p_def one_cell_def)
  moreover have "GETBIT (r_bitmap p) 0 \<noteq> 0"
    by (simp add: one_cell_bits p_def one_cell_def del: GETBIT_zero)
  moreover have "one_cell e\<lparr>r_count := r_count (one_cell e) + 1\<rparr> = p" by (simp add: p_def one_cell_def)
  ultimately show ?thesis using one_cell_find by (simp add: PMA_insert_def Let_def del: GETBIT_zero)
qed

text \<open>Inserting and removing the same key.\<close>

definition ins_rem :: "raizes_PMA \<Rightarrow> int \<Rightarrow> int \<Rightarrow> raizes_PMA option" where
  "ins_rem p k v = do { p \<leftarrow> PMA_Raizes_insert p k v; (m, p) \<leftarrow> PMA_remove p k; Some p }"

definition empty_cells :: "nat \<Rightarrow> nat \<Rightarrow> raizes_PMA" where
  "empty_cells n b = \<lparr>r_array = replicate n unset, r_bitmap = replicate b 0, r_size = n, r_count = 0\<rparr>"

lemma empty_cells_inv:
  assumes "n = 2 ^ k" "1 \<le> k" "k \<le> 29" "n \<le> 8 * b"
  shows "raizes_inv (empty_cells n b)" "rcontent (empty_cells n b) = []"
proof -
  show c: "rcontent (empty_cells n b) = []" unfolding rcontent_def
    by (rule elems_in_empty) (use assms in \<open>simp add: empty_cells_def\<close>)
  then show "raizes_inv (empty_cells n b)" using assms by (auto simp: raizes_inv_def r_wf_def empty_cells_def)
qed

lemma ins_rem_empty:
  assumes "raizes_inv p" "rcontent p = []" "r_size p \<le> 2 ^ 28"
    and same: "\<And>q. PMA_Raizes_insert p k v = Some q \<Longrightarrow> r_size q = r_size p"
  shows "ins_rem p k v = Some (empty_cells (r_size p div 2) (nat \<lceil>ddiv (d_of_nat (r_size p div 2)) 8\<rceil>))"
proof -
  obtain m q where q: "PMA_insert p k v = Some (m, q)" "raizes_inv q"
    "mset (rcontent q) = {#\<lparr>key = k, elem_value = v\<rparr>#}"
    using PMA_insert_spec[OF assms(1,3), of k v] assms(2) by auto
  have c: "rcontent q = [\<lparr>key = k, elem_value = v\<rparr>]" using q(3) by (simp add: mset_single_iff)
  have i: "PMA_Raizes_insert p k v = Some q" using q(1) by (simp add: PMA_Raizes_insert_def)
  then have "r_size q = r_size p" by (rule same)
  then show ?thesis using remove_only[OF q(2) c] i by (simp add: ins_rem_def empty_cells_def)
qed

lemma one_byte: "0 < n \<Longrightarrow> n \<le> 8 \<Longrightarrow> nat \<lceil>ddiv (d_of_nat n) 8\<rceil> = 1"
proof -
  assume n: "0 < n" "n \<le> 8"
  have "(of_nat n :: rat) \<le> of_nat 8" using n(2) by (simp only: of_nat_le_iff)
  then have "rnd (of_nat n / 8) \<le> rnd 1" by (intro rnd_mono) simp
  moreover have "0 < rnd (of_nat n / 8)" using n(1) by (intro rnd_positive) simp
  moreover have "ddiv (d_of_nat n) 8 = rnd (of_nat n / 8)" using n(2) by (simp add: ddiv_def d_of_nat_exact)
  ultimately have "\<lceil>ddiv (d_of_nat n) 8\<rceil> = 1" by (simp add: ceiling_eq_iff)
  then show ?thesis by simp
qed

lemma shrink_to_two:
  "ins_rem PMA_new k v = Some (empty_cells 4 1)" "ins_rem (empty_cells 4 1) k v = Some (empty_cells 2 1)"
proof -
  have f: "raizes_find PMA_new k False = 3" "raizes_find (empty_cells 4 1) k False = 1"
    by code_simp+
  have g: "GETBIT (r_bitmap PMA_new) 3 = 0" "GETBIT (r_bitmap (empty_cells 4 1)) 1 = 0" by code_simp+
  have s: "r_size q = 8" if "PMA_Raizes_insert PMA_new k v = Some q" for q
    using that f(1) g(1)
    by (auto simp: PMA_Raizes_insert_def PMA_insert_def Let_def put_cell_def simp del: GETBIT_zero
        split: bind_splits if_splits)
  have s': "r_size q = 4" if "PMA_Raizes_insert (empty_cells 4 1) k v = Some q" for q
    using that f(2) g(2)
    by (auto simp: PMA_Raizes_insert_def PMA_insert_def Let_def put_cell_def empty_cells_def simp del: GETBIT_zero
        split: bind_splits if_splits)
  have "nat \<lceil>ddiv (d_of_nat 4) 8\<rceil> = 1" "nat \<lceil>ddiv (d_of_nat 2) 8\<rceil> = 1"
    by (simp_all add: one_byte)
  moreover have "r_size (empty_cells 4 1) = 4" by (simp add: empty_cells_def)
  ultimately show "ins_rem PMA_new k v = Some (empty_cells 4 1)" "ins_rem (empty_cells 4 1) k v = Some (empty_cells 2 1)"
    using ins_rem_empty[of PMA_new k v] s PMA_new_inv ins_rem_empty[of "empty_cells 4 1" k v] s'
      empty_cells_inv[of 4 2 1] by simp_all
qed

lemma shrink_to_one: "ins_rem (empty_cells 2 1) k v = Some (empty_cells 1 1)"
proof -
  have f: "raizes_find (empty_cells 2 1) k False = 0" by code_simp
  have g: "GETBIT (r_bitmap (empty_cells 2 1)) 0 = 0" by code_simp
  have s: "r_size q = 2" if "PMA_Raizes_insert (empty_cells 2 1) k v = Some q" for q
    using that f g
    by (auto simp: PMA_Raizes_insert_def PMA_insert_def Let_def put_cell_def empty_cells_def simp del: GETBIT_zero
        split: bind_splits if_splits)
  have "nat \<lceil>ddiv (d_of_nat 1) 8\<rceil> = 1" by (simp add: one_byte)
  moreover have "r_size (empty_cells 2 1) = 2" by (simp add: empty_cells_def)
  ultimately show ?thesis
    using ins_rem_empty[of "empty_cells 2 1" k v] s empty_cells_inv[of 2 1 1] by simp
qed

lemma insert_empty_one: "PMA_Raizes_insert (empty_cells 1 1) k v = Some (one_cell \<lparr>key = k, elem_value = v\<rparr>)"
proof -
  have f: "raizes_find (empty_cells 1 1) k False = 0" by code_simp
  have g: "GETBIT (r_bitmap (empty_cells 1 1)) 0 = 0" "SETBIT [0] 0 = [1]" by code_simp+
  show ?thesis using f g
    by (simp add: PMA_Raizes_insert_def PMA_insert_def Let_def put_cell_def empty_cells_def one_cell_def
        del: GETBIT_zero)
qed

section \<open>Properties\<close>

text \<open>C22. Insertion keeps the array sorted, well formed and counted, and adds exactly the
  new pair, whether it uses a free cell, redistributes a window or resizes the array (no write
  leaves the array); duplicate keys are kept.\<close>

theorem raizes_insert_correct:
  assumes "raizes_inv p" "r_size p \<le> 2 ^ 28"
  shows "\<exists>m q. PMA_insert p k v = Some (m, q) \<and> raizes_inv q
    \<and> mset (raizes_elems q) = add_mset (k, v) (mset (raizes_elems p))"
  using PMA_insert_spec[OF assms, of k v] by (auto simp: raizes_elems_def rpair_def)

theorem raizes_insert_correct_witness:
  "\<exists>m q. PMA_insert PMA_new 7 70 = Some (m, q) \<and> raizes_inv q \<and> mset (raizes_elems q) = {#(7, 70)#}"
  using raizes_insert_correct[OF PMA_new_inv, of 7 70] by (simp add: raizes_elems_def)

text \<open>The search finds a used cell with the key exactly when the key is stored, and
  returns \<open>-1\<close> otherwise.\<close>

theorem raizes_find_correct:
  assumes "raizes_inv p"
  shows "if k \<in> fst ` set (raizes_elems p)
    then \<exists>i < r_size p. PMA_find p k = int i \<and> PMA_get_pointer p k = Some i
      \<and> GETBIT (r_bitmap p) i = 1 \<and> key (r_array p ! i) = k
    else PMA_find p k = - 1 \<and> PMA_get_pointer p k = None"
proof -
  have wf: "r_wf p" and srt: "sorted (map key (rcontent p))" using assms by (simp_all add: raizes_inv_def)
  consider "PMA_find p k = - 1" "k \<notin> key ` set (rcontent p)"
    | i where "i < r_size p" "PMA_find p k = int i" "used p i" "cell_key p i = k"
    using raizes_find_exact[OF wf srt, of k] by blast
  then show ?thesis
  proof cases
    case 1
    then show ?thesis unfolding fst_raizes_elems by (simp add: PMA_get_pointer_def PMA_find_def)
  next
    case 2
    then have "fst (rpair (r_array p ! i)) \<in> fst ` set (raizes_elems p)" using used_in_elems by blast
    then have "k \<in> fst ` set (raizes_elems p)" using 2(4) by (simp add: rpair_def)
    then show ?thesis using 2 by (auto simp: PMA_get_pointer_def PMA_find_def GETBIT_bit_of)
  qed
qed

theorem raizes_find_correct_witness: "PMA_find PMA_new 3 = - 1 \<and> PMA_get_pointer PMA_new 3 = None"
  using raizes_find_correct[OF PMA_new_inv, of 3] by (simp add: raizes_elems_def)

text \<open>The insertion loop of the experiments on a new array stores any batch of at most
  \<open>2 ^ 22\<close> distinct keys, the lookups find exactly the inserted values, and the iterator
  lists the batch in key order. The size of the array stays below \<open>32\<close> cells per element.\<close>

theorem raizes_batch_insert:
  assumes "distinct (map fst ps)" "length ps \<le> 2 ^ 22"
  shows "\<exists>q. do_inserts PMA_Raizes_insert PMA_new ps = Some q \<and> raizes_iterate q = Some (sort_key fst ps)
    \<and> PMA_Raizes_size q = length ps \<and> r_size q \<le> 32 * (length ps + 1)
    \<and> (\<forall>k. PMA_Raizes_find q k = (case map_of ps k of None \<Rightarrow> - 1 | Some v \<Rightarrow> v))"
proof -
  have "raizes_linear PMA_new" using PMA_new_inv by (simp add: raizes_linear_def)
  moreover have "raizes_elems PMA_new = []" by (simp add: raizes_elems_def)
  ultimately obtain q where q: "do_inserts PMA_Raizes_insert PMA_new ps = Some q" "raizes_linear q"
    "raizes_elems q = sort_key fst ps" "PMA_Raizes_size q = length ps"
    "\<forall>k. PMA_Raizes_find q k = (case map_of ps k of None \<Rightarrow> - 1 | Some v \<Rightarrow> v)"
    using raizes.do_inserts_from_empty[of PMA_new ps] assms by auto
  have "length (rcontent q) = length ps" using q(3) by (metis length_map length_sort raizes_elems_def)
  then show ?thesis using q raizes_iterate_spec[of q] by (auto simp: raizes_linear_def)
qed

theorem raizes_batch_insert_witness:
  "\<exists>q. do_inserts PMA_Raizes_insert PMA_new [(5, 50), (- 1, 10), (3, 30)] = Some q
    \<and> raizes_iterate q = Some [(- 1, 10), (3, 30), (5, 50)]"
  using raizes_batch_insert[of "[(5, 50), (- 1, 10), (3, 30)]"] by auto

text \<open>C23. Removing a stored key removes exactly the element at the found cell, as long as the
  remaining elements fit half the array and the array has at least four cells.\<close>

theorem raizes_remove_correct:
  assumes "raizes_inv p" "k \<in> fst ` set (raizes_elems p)" "4 \<le> r_size p"
    and "2 * (length (raizes_elems p) - 1) \<le> r_size p"
  shows "\<exists>m q v. PMA_remove p k = Some (m, q) \<and> raizes_inv q
    \<and> mset (raizes_elems p) = add_mset (k, v) (mset (raizes_elems q))"
proof -
  have k: "k \<in> key ` set (rcontent p)" using assms(2) by (simp add: fst_raizes_elems)
  have "2 * (length (rcontent p) - 1) \<le> r_size p" using assms(4) by (simp add: raizes_elems_def)
  then obtain m q i where r: "cell_key p i = k" "PMA_remove p k = Some (m, q)" "raizes_inv q"
    "mset (rcontent p) = add_mset (r_array p ! i) (mset (rcontent q))"
    using PMA_remove_spec[OF assms(1) k assms(3)] by blast
  have "mset (raizes_elems p) = add_mset (k, elem_value (r_array p ! i)) (mset (raizes_elems q))"
    using r(1,4) by (simp add: raizes_elems_def rpair_def)
  then show ?thesis using r(2,3) by blast
qed

theorem raizes_remove_correct_witness:
  "\<exists>m p q. PMA_insert PMA_new 4 40 = Some (m, p) \<and> PMA_remove p 4 = Some q
    \<and> raizes_inv (snd q) \<and> raizes_elems (snd q) = []"
proof -
  obtain m p where p: "PMA_insert PMA_new 4 40 = Some (m, p)" "raizes_inv p"
    "mset (rcontent p) = {#\<lparr>key = 4, elem_value = 40\<rparr>#}"
    using PMA_insert_spec[OF PMA_new_inv, of 4 40] by auto
  then have c: "raizes_elems p = [(4, 40)]" by (simp add: raizes_elems_def mset_single_iff rpair_def)
  have f: "raizes_find PMA_new 4 False = 3" by code_simp
  have g: "GETBIT (r_bitmap PMA_new) 3 = 0" by code_simp
  have "r_size p = 8" using p(1) f g
    by (auto simp: PMA_insert_def Let_def put_cell_def simp del: GETBIT_zero split: bind_splits if_splits)
  then show ?thesis using raizes_remove_correct[OF p(2), of 4] p(1) c by fastforce
qed

text \<open>C24. A removal can lose another element: after ten insertions into a new array, the
  removal of key 30 shrinks the array below the number of its elements; key 10 is gone, and the
  count says nine where eight elements are left.\<close>

theorem raizes_remove_loses_element:
  "\<exists>p q. do_inserts PMA_Raizes_insert PMA_new [(10, 1), (50, 2), (30, 3), (40, 4), (45, 5), (42, 6),
      (47, 7), (60, 8), (55, 9), (65, 10)] = Some p
    \<and> PMA_Raizes_find p 10 = 1 \<and> PMA_remove p 30 = Some (9, q) \<and> PMA_Raizes_find q 10 = - 1
    \<and> PMA_get_count q = 9
    \<and> raizes_iterate q = Some [(40, 4), (42, 6), (45, 5), (47, 7), (50, 2), (55, 9), (60, 8), (65, 10)]"
proof -
  have "do_inserts PMA_Raizes_insert PMA_new ([(10, 1), (50, 2), (30, 3)] @ [(40, 4)]
      @ [(45, 5), (42, 6), (47, 7), (60, 8), (55, 9), (65, 10)]) = Some right_full"
    by (simp only: do_inserts_append first_three fourth_insert six_more bind.bind_lunit)
  moreover have "PMA_Raizes_find right_full 10 = 1" "PMA_Raizes_find seven_left 10 = - 1" by code_simp+
  moreover have "raizes_elems seven_left = [(40, 4), (42, 6), (45, 5), (47, 7), (50, 2), (55, 9), (60, 8), (65, 10)]"
    by code_simp
  moreover have "PMA_get_count seven_left = 9" by (simp add: PMA_get_count_def seven_left_def)
  ultimately show ?thesis using remove_right_full raizes_iterate_spec[of seven_left] by auto
qed

text \<open>Inserting and removing one key three times shrinks a new array to a single cell;
  the second insertion after that writes outside the array.\<close>

theorem raizes_one_cell_overflow:
  "\<exists>p q. do { p \<leftarrow> ins_rem PMA_new k v; p \<leftarrow> ins_rem p k v; ins_rem p k v } = Some p
    \<and> r_size p = 1 \<and> PMA_Raizes_insert p k v = Some q \<and> PMA_insert q k2 v2 = None"
  using shrink_to_two[of k v] shrink_to_one[of k v] insert_empty_one[of k v] one_cell_insert
  by (simp add: empty_cells_def)

end
