(* ===== verification/Circular_Array.thy ===== *)
theory Circular_Array
  imports Prelude "HOL-Library.Monad_Syntax"
begin

text \<open>
  The double-ended queue of \<open>circular_array.hpp\<close>: a ring in an array that doubles when it is
  full. A result \<open>None\<close> is the exception of \<open>pop\<close> or of an index out of bounds. Fresh cells of
  \<open>new T[capacity]\<close> are not specified: their value is the parameter \<open>junk\<close> of the operations
  that allocate. The queue is shown to refine a list, through the interface of a queue.
\<close>

section \<open>State and operations\<close>

record 'a circular =
  m_array :: "'a list"
  m_start :: nat
  m_end :: nat
  m_capacity :: nat
  m_empty :: bool

definition ca_new :: "'a \<Rightarrow> nat \<Rightarrow> 'a circular" where
  "ca_new junk capacity =
     \<lparr>m_array = replicate capacity junk, m_start = 0, m_end = 0, m_capacity = capacity, m_empty = True\<rparr>"

definition ca_empty :: "'a circular \<Rightarrow> bool" where
  "ca_empty q = m_empty q"

definition ca_full :: "'a circular \<Rightarrow> bool" where
  "ca_full q \<longleftrightarrow> \<not> ca_empty q \<and> m_start q = m_end q"

definition ca_size :: "'a circular \<Rightarrow> nat" where
  "ca_size q =
     (if ca_empty q then 0
      else if m_start q < m_end q then m_end q - m_start q
      else m_end q + (m_capacity q - m_start q))"

text \<open>\<open>resize\<close> copies the one or two parts of the ring to the front of a new array.\<close>

definition copy_cells :: "'a list \<Rightarrow> nat \<Rightarrow> 'a list \<Rightarrow> 'a list" where
  "copy_cells dst i src = take i dst @ src @ drop (i + length src) dst"

definition ca_resize :: "'a \<Rightarrow> 'a circular \<Rightarrow> nat \<Rightarrow> 'a circular" where
  "ca_resize junk q capacity =
     (let arr = replicate capacity junk;
          arr = (if \<not> ca_empty q then
                   if m_start q < m_end q then
                     copy_cells arr 0 (take (m_end q - m_start q) (drop (m_start q) (m_array q)))
                   else
                     copy_cells (copy_cells arr 0 (drop (m_start q) (m_array q)))
                       (m_capacity q - m_start q) (take (m_end q) (m_array q))
                 else arr)
      in q\<lparr>m_array := arr, m_end := ca_size q, m_start := 0, m_capacity := capacity\<rparr>)"

definition grow_if_full :: "'a \<Rightarrow> 'a circular \<Rightarrow> 'a circular" where
  "grow_if_full junk q = (if ca_full q then ca_resize junk q (m_capacity q * 2 mod 2 ^ 64) else q)"

definition ca_append :: "'a \<Rightarrow> 'a \<Rightarrow> 'a circular \<Rightarrow> 'a circular" where
  "ca_append junk item q =
     (let q = grow_if_full junk q;
          e = m_end q + 1
      in q\<lparr>m_array := (m_array q)[m_end q := item],
           m_end := (if e = m_capacity q then 0 else e), m_empty := False\<rparr>)"

definition ca_prepend :: "'a \<Rightarrow> 'a \<Rightarrow> 'a circular \<Rightarrow> 'a circular" where
  "ca_prepend junk item q =
     (let q = grow_if_full junk q;
          s = (if m_start q = 0 then m_capacity q - 1 else m_start q - 1)
      in q\<lparr>m_start := s, m_array := (m_array q)[s := item], m_empty := False\<rparr>)"

definition ca_pop :: "'a circular \<Rightarrow> 'a circular option" where
  "ca_pop q =
     (if ca_empty q then None
      else let s = m_start q + 1; s = (if m_capacity q \<le> s then 0 else s)
           in Some (q\<lparr>m_start := s, m_empty := (s = m_end q)\<rparr>))"

definition to_array_index :: "'a circular \<Rightarrow> int \<Rightarrow> nat option" where
  "to_array_index q index =
     (if int (ca_size q) \<le> index \<or> index < 0 then None
      else if m_start q < m_end q then Some (m_start q + nat index)
      else if index < int (m_capacity q - m_start q) then Some (m_start q + nat index)
      else Some (nat index - (m_capacity q - m_start q)))"

definition ca_at :: "'a circular \<Rightarrow> int \<Rightarrow> 'a option" where
  "ca_at q i = map_option ((!) (m_array q)) (to_array_index q i)"

definition ca_clear :: "'a \<Rightarrow> 'a circular \<Rightarrow> nat \<Rightarrow> 'a circular" where
  "ca_clear junk q capacity =
     (let q = q\<lparr>m_start := 0, m_end := 0, m_empty := True\<rparr> in
      if 0 < capacity \<and> capacity \<noteq> m_capacity q
      then q\<lparr>m_array := replicate capacity junk, m_capacity := capacity\<rparr> else q)"

text \<open>The loop of \<open>dump\<close> over all positions, as the list of what it prints.\<close>

definition ca_dump :: "'a circular \<Rightarrow> 'a list option" where
  "ca_dump q = those (map (\<lambda>i. ca_at q (int i)) [0..<ca_size q])"

section \<open>The list a ring stands for\<close>

definition ca_inv :: "'a circular \<Rightarrow> bool" where
  "ca_inv q \<longleftrightarrow> length (m_array q) = m_capacity q \<and> m_start q < m_capacity q \<and> m_end q < m_capacity q
     \<and> (m_empty q \<longrightarrow> m_start q = m_end q)"

definition view :: "'a circular \<Rightarrow> 'a list" where
  "view q =
     (if m_empty q then []
      else if m_start q < m_end q then take (m_end q - m_start q) (drop (m_start q) (m_array q))
      else drop (m_start q) (m_array q) @ take (m_end q) (m_array q))"

lemma ca_size_view: "ca_inv q \<Longrightarrow> ca_size q = length (view q)"
  by (auto simp: ca_size_def view_def ca_inv_def ca_empty_def)

lemma copy_cells_0: "length src \<le> length dst \<Longrightarrow> copy_cells dst 0 src = src @ drop (length src) dst"
  by (simp add: copy_cells_def)

lemma resize_array:
  assumes "ca_inv q" "m_capacity q \<le> c"
  shows "m_array (ca_resize junk q c) = view q @ replicate (c - length (view q)) junk"
  using assms
  by (auto simp: ca_resize_def Let_def copy_cells_def view_def ca_empty_def ca_inv_def min_def)

lemma resize_fields [simp]:
  "m_start (ca_resize junk q c) = 0" "m_end (ca_resize junk q c) = ca_size q"
  "m_capacity (ca_resize junk q c) = c" "m_empty (ca_resize junk q c) = m_empty q"
  by (simp_all add: ca_resize_def Let_def)

lemma view_full: "ca_inv q \<Longrightarrow> ca_full q \<Longrightarrow> length (view q) = m_capacity q"
  by (auto simp: ca_full_def view_def ca_inv_def ca_empty_def)

text \<open>After \<open>grow_if_full\<close> there is room: the ring is the same list and is not full.\<close>

lemma grow_spec:
  assumes inv: "ca_inv q" and c: "m_capacity q < 2 ^ 63"
  shows "ca_inv (grow_if_full junk q)" "view (grow_if_full junk q) = view q" "\<not> ca_full (grow_if_full junk q)"
    "m_capacity (grow_if_full junk q) \<le> 2 * m_capacity q"
    "ca_full q \<longrightarrow> m_capacity q \<le> length (view q)"
proof -
  have "ca_inv (grow_if_full junk q) \<and> view (grow_if_full junk q) = view q \<and> \<not> ca_full (grow_if_full junk q)
    \<and> m_capacity (grow_if_full junk q) \<le> 2 * m_capacity q"
  proof (cases "ca_full q")
    case False
    then show ?thesis using inv by (simp add: grow_if_full_def)
  next
    case True
    let ?r = "ca_resize junk q (m_capacity q * 2)"
    have cap: "0 < m_capacity q" using inv by (auto simp: ca_inv_def)
    have n: "length (view q) = m_capacity q" by (rule view_full[OF inv True])
    have g: "grow_if_full junk q = ?r" using True c by (simp add: grow_if_full_def)
    have arr: "m_array ?r = view q @ replicate (m_capacity q) junk"
      using resize_array[OF inv, of "m_capacity q * 2" junk] n by simp
    have ne: "\<not> m_empty q" using True by (simp add: ca_full_def ca_empty_def)
    have sz: "ca_size q = m_capacity q" using n ca_size_view[OF inv] by simp
    have "ca_inv ?r" using arr n cap sz ne by (simp add: ca_inv_def)
    moreover have "view ?r = view q" using arr n cap sz ne by (simp add: view_def)
    moreover have "\<not> ca_full ?r" using cap sz by (simp add: ca_full_def)
    ultimately show ?thesis using g by simp
  qed
  then show "ca_inv (grow_if_full junk q)" "view (grow_if_full junk q) = view q" "\<not> ca_full (grow_if_full junk q)"
    "m_capacity (grow_if_full junk q) \<le> 2 * m_capacity q" by simp_all
  show "ca_full q \<longrightarrow> m_capacity q \<le> length (view q)" using view_full[OF inv] by simp
qed

lemma append_room:
  assumes inv: "ca_inv q" and room: "\<not> ca_full q"
    and q'_def: "q' = q\<lparr>m_array := (m_array q)[m_end q := x],
           m_end := (if m_end q + 1 = m_capacity q then 0 else m_end q + 1), m_empty := False\<rparr>"
  shows "ca_inv q'" "view q' = view q @ [x]"
proof -
  have e: "m_end q < length (m_array q)" using inv by (simp add: ca_inv_def)
  have ft: "take (Suc (m_end q)) ((m_array q)[m_end q := x]) = take (m_end q) (m_array q) @ [x]"
    using e by (simp add: take_Suc_conv_app_nth)
  show "ca_inv q'" using inv by (auto simp: ca_inv_def q'_def)
  show "view q' = view q @ [x]"
  proof (cases "m_empty q")
    case True
    then have se: "m_start q = m_end q" using inv by (simp add: ca_inv_def)
    have "drop (m_end q) ((m_array q)[m_end q := x]) = x # drop (Suc (m_end q)) (m_array q)"
      using e by (simp add: upd_conv_take_nth_drop)
    then show ?thesis using True se e inv
      by (auto simp: view_def q'_def ca_inv_def)
  next
    case False
    then have ne: "m_start q \<noteq> m_end q" using room by (simp add: ca_full_def ca_empty_def)
    show ?thesis
    proof (cases "m_start q < m_end q")
      case True
      have "take (Suc (m_end q) - m_start q) (drop (m_start q) ((m_array q)[m_end q := x]))
          = take (m_end q - m_start q) (drop (m_start q) (m_array q)) @ [x]"
        using arg_cong[OF ft, of "drop (m_start q)"] True e by (simp add: drop_take Suc_diff_le)
      moreover have "drop (m_start q) ((m_array q)[m_end q := x])
          = take (Suc (m_end q) - m_start q) (drop (m_start q) ((m_array q)[m_end q := x]))"
        if "Suc (m_end q) = m_capacity q"
        using that inv by (simp add: ca_inv_def)
      ultimately show ?thesis using True False by (auto simp: view_def q'_def)
    next
      case ge: False
      then have "m_end q < m_start q" using ne by simp
      moreover have "m_start q < m_capacity q" using inv by (simp add: ca_inv_def)
      ultimately show ?thesis using False ft by (auto simp: view_def q'_def)
    qed
  qed
qed

lemma prepend_room:
  assumes inv: "ca_inv q" and room: "\<not> ca_full q"
    and s_def: "s = (if m_start q = 0 then m_capacity q - 1 else m_start q - 1)"
    and q'_def: "q' = q\<lparr>m_start := s, m_array := (m_array q)[s := x], m_empty := False\<rparr>"
  shows "ca_inv q'" "view q' = x # view q"
proof -
  have cap: "length (m_array q) = m_capacity q" "m_start q < m_capacity q" "m_end q < m_capacity q"
    using inv by (simp_all add: ca_inv_def)
  have s: "s < length (m_array q)" using cap by (auto simp: s_def)
  have dr: "drop s ((m_array q)[s := x]) = x # drop (Suc s) (m_array q)"
    using s by (simp add: upd_conv_take_nth_drop)
  show "ca_inv q'" using inv s by (auto simp: ca_inv_def q'_def)
  show "view q' = x # view q"
  proof (cases "m_empty q")
    case True
    then have se: "m_start q = m_end q" using inv by (simp add: ca_inv_def)
    show ?thesis
    proof (cases "m_start q = 0")
      case z: True
      then have "Suc s = length (m_array q)" using cap by (simp add: s_def)
      then show ?thesis using True se z dr by (simp add: view_def q'_def)
    next
      case False
      then have "Suc s = m_end q" "m_end q - s = 1" using se by (simp_all add: s_def)
      then show ?thesis using True dr by (auto simp: view_def q'_def)
    qed
  next
    case False
    then have ne: "m_start q \<noteq> m_end q" using room by (simp add: ca_full_def ca_empty_def)
    show ?thesis
    proof (cases "m_start q = 0")
      case z: True
      then have S: "Suc s = length (m_array q)" "m_end q \<le> s" using cap by (simp_all add: s_def)
      then have "take (m_end q) ((m_array q)[s := x]) = take (m_end q) (m_array q)" by simp
      then show ?thesis using False ne z dr S by (simp add: view_def q'_def)
    next
      case nz: False
      then have S: "Suc s = m_start q" by (simp add: s_def)
      show ?thesis
      proof (cases "m_start q < m_end q")
        case True
        then have "m_end q - s = Suc (m_end q - m_start q)" using S by simp
        then show ?thesis using False True S dr by (simp add: view_def q'_def)
      next
        case ge: False
        then have "m_end q \<le> s" using S ne by simp
        then have "take (m_end q) ((m_array q)[s := x]) = take (m_end q) (m_array q)" by simp
        then show ?thesis using False ge S dr \<open>m_end q \<le> s\<close> by (simp add: view_def q'_def)
      qed
    qed
  qed
qed

lemma append_spec:
  assumes "ca_inv q" "m_capacity q < 2 ^ 63"
  shows "ca_inv (ca_append junk x q)" "view (ca_append junk x q) = view q @ [x]"
    "m_capacity (ca_append junk x q) \<le> max (m_capacity q) (2 * length (view q))"
proof -
  note g = grow_spec(1-4)[OF assms, of junk] grow_spec(5)[OF assms]
  note a = append_room[OF g(1,3) refl]
  have e: "ca_append junk x q = (grow_if_full junk q)\<lparr>m_array := (m_array (grow_if_full junk q))[m_end (grow_if_full junk q) := x],
    m_end := (if m_end (grow_if_full junk q) + 1 = m_capacity (grow_if_full junk q) then 0
              else m_end (grow_if_full junk q) + 1), m_empty := False\<rparr>"
    by (simp add: ca_append_def Let_def)
  show "ca_inv (ca_append junk x q)" "view (ca_append junk x q) = view q @ [x]"
    using a g(2) unfolding e by simp_all
  have "m_capacity (grow_if_full junk q) \<le> max (m_capacity q) (2 * length (view q))"
    using g(4,5) by (cases "ca_full q") (auto simp: grow_if_full_def)
  then show "m_capacity (ca_append junk x q) \<le> max (m_capacity q) (2 * length (view q))"
    unfolding e by simp
qed

lemma prepend_spec:
  assumes "ca_inv q" "m_capacity q < 2 ^ 63"
  shows "ca_inv (ca_prepend junk x q)" "view (ca_prepend junk x q) = x # view q"
    "m_capacity (ca_prepend junk x q) \<le> max (m_capacity q) (2 * length (view q))"
proof -
  note g = grow_spec(1-4)[OF assms, of junk] grow_spec(5)[OF assms]
  note a = prepend_room[OF g(1,3) refl refl]
  have e: "ca_prepend junk x q = (grow_if_full junk q)
    \<lparr>m_start := (if m_start (grow_if_full junk q) = 0 then m_capacity (grow_if_full junk q) - 1
                 else m_start (grow_if_full junk q) - 1),
     m_array := (m_array (grow_if_full junk q))[(if m_start (grow_if_full junk q) = 0
                 then m_capacity (grow_if_full junk q) - 1 else m_start (grow_if_full junk q) - 1) := x],
     m_empty := False\<rparr>"
    by (simp add: ca_prepend_def Let_def)
  show "ca_inv (ca_prepend junk x q)" "view (ca_prepend junk x q) = x # view q"
    using a g(2) unfolding e by simp_all
  have "m_capacity (grow_if_full junk q) \<le> max (m_capacity q) (2 * length (view q))"
    using g(4,5) by (cases "ca_full q") (auto simp: grow_if_full_def)
  then show "m_capacity (ca_prepend junk x q) \<le> max (m_capacity q) (2 * length (view q))"
    unfolding e by simp
qed

lemma pop_spec:
  assumes inv: "ca_inv q"
  shows "case view q of [] \<Rightarrow> ca_pop q = None
    | x # xs \<Rightarrow> \<exists>q'. ca_pop q = Some q' \<and> ca_inv q' \<and> view q' = xs \<and> m_capacity q' = m_capacity q"
proof (cases "m_empty q")
  case True
  then show ?thesis by (simp add: view_def ca_pop_def ca_empty_def)
next
  case False
  have cap: "length (m_array q) = m_capacity q" "m_start q < m_capacity q" "m_end q < m_capacity q"
    using inv by (simp_all add: ca_inv_def)
  define s where "s = (if m_capacity q \<le> m_start q + 1 then 0 else m_start q + 1)"
  define q' where "q' = q\<lparr>m_start := s, m_empty := (s = m_end q)\<rparr>"
  have p: "ca_pop q = Some q'" using False by (simp add: ca_pop_def ca_empty_def q'_def s_def Let_def)
  have i: "ca_inv q'" using inv by (auto simp: ca_inv_def q'_def s_def)
  have dr: "drop (m_start q) (m_array q) = m_array q ! m_start q # drop (Suc (m_start q)) (m_array q)"
    using cap by (simp add: Cons_nth_drop_Suc)
  have "view q = m_array q ! m_start q # view q'"
  proof (cases "m_start q < m_end q")
    case True
    then have "m_end q - m_start q = Suc (m_end q - Suc (m_start q))" by simp
    then show ?thesis using True False dr cap by (auto simp: view_def q'_def s_def)
  next
    case ge: False
    show ?thesis
    proof (cases "Suc (m_start q) = m_capacity q")
      case True
      then have "drop (Suc (m_start q)) (m_array q) = []" using cap by simp
      then show ?thesis using True False ge dr cap by (auto simp: view_def q'_def s_def)
    next
      case n: False
      then show ?thesis using False ge dr cap by (auto simp: view_def q'_def s_def)
    qed
  qed
  then show ?thesis using p i by (simp add: q'_def)
qed

lemma at_spec:
  assumes inv: "ca_inv q"
  shows "ca_at q i = (if 0 \<le> i \<and> i < int (length (view q)) then Some (view q ! nat i) else None)"
proof (cases "0 \<le> i \<and> i < int (length (view q))")
  case False
  then show ?thesis using ca_size_view[OF inv] by (auto simp: ca_at_def to_array_index_def)
next
  case True
  then have ne: "\<not> m_empty q" by (auto simp: view_def)
  have cap: "length (m_array q) = m_capacity q" "m_start q < m_capacity q" "m_end q < m_capacity q"
    using inv by (simp_all add: ca_inv_def)
  obtain k where k: "i = int k" "k < length (view q)" using True by (metis nat_0_le nat_less_iff)
  show ?thesis
    using k ne cap ca_size_view[OF inv]
    by (auto simp: ca_at_def to_array_index_def view_def nth_append add.commute)
qed

lemma new_spec: "0 < c \<Longrightarrow> ca_inv (ca_new junk c) \<and> view (ca_new junk c) = [] \<and> m_capacity (ca_new junk c) = c"
  by (simp add: ca_inv_def ca_new_def view_def)

lemma clear_spec:
  assumes "ca_inv q"
  shows "ca_inv (ca_clear junk q c)" "view (ca_clear junk q c) = []"
    "m_capacity (ca_clear junk q c) = (if 0 < c then c else m_capacity q)"
  using assms by (auto simp: ca_inv_def ca_clear_def view_def Let_def)

section \<open>The interface of a queue\<close>

datatype 'a qop = Append 'a | Prepend 'a | Pop | Clear nat

text \<open>The capacity an operation asks for.\<close>

definition op_room :: "'a qop \<Rightarrow> nat" where
  "op_room p = (case p of Clear c \<Rightarrow> c | _ \<Rightarrow> 0)"

text \<open>The operations on a list.\<close>

fun list_step :: "'a qop \<Rightarrow> 'a list \<Rightarrow> 'a list option" where
  "list_step (Append x) xs = Some (xs @ [x])"
| "list_step (Prepend x) xs = Some (x # xs)"
| "list_step Pop [] = None"
| "list_step Pop (x # xs) = Some xs"
| "list_step (Clear c) xs = Some []"

text \<open>The same operations given by four functions, and a run of operations.\<close>

fun deque_step :: "('a \<Rightarrow> 'q \<Rightarrow> 'q) \<Rightarrow> ('a \<Rightarrow> 'q \<Rightarrow> 'q) \<Rightarrow> ('q \<Rightarrow> 'q option) \<Rightarrow> ('q \<Rightarrow> nat \<Rightarrow> 'q)
    \<Rightarrow> 'a qop \<Rightarrow> 'q \<Rightarrow> 'q option" where
  "deque_step push_b push_f pop wipe (Append x) q = Some (push_b x q)"
| "deque_step push_b push_f pop wipe (Prepend x) q = Some (push_f x q)"
| "deque_step push_b push_f pop wipe Pop q = pop q"
| "deque_step push_b push_f pop wipe (Clear c) q = Some (wipe q c)"

fun run_steps :: "('p \<Rightarrow> 'q \<Rightarrow> 'q option) \<Rightarrow> 'p list \<Rightarrow> 'q \<Rightarrow> 'q option" where
  "run_steps st [] q = Some q"
| "run_steps st (p # ps) q = do { q' \<leftarrow> st p q; run_steps st ps q' }"

lemma list_step_length: "list_step p xs = Some ys \<Longrightarrow> length ys \<le> Suc (length xs)"
  by (cases p; cases xs) auto

locale deque =
  fixes inv :: "'q \<Rightarrow> bool"
    and elems :: "'q \<Rightarrow> 'a list"
    and room :: "'q \<Rightarrow> nat"
    and push_back :: "'a \<Rightarrow> 'q \<Rightarrow> 'q"
    and push_front :: "'a \<Rightarrow> 'q \<Rightarrow> 'q"
    and pop_front :: "'q \<Rightarrow> 'q option"
    and wipe :: "'q \<Rightarrow> nat \<Rightarrow> 'q"
    and limit :: nat
  assumes push_back_law: "inv q \<Longrightarrow> room q < limit \<Longrightarrow> inv (push_back x q) \<and> elems (push_back x q) = elems q @ [x]
      \<and> room (push_back x q) \<le> max (room q) (2 * length (elems q))"
    and push_front_law: "inv q \<Longrightarrow> room q < limit \<Longrightarrow> inv (push_front x q) \<and> elems (push_front x q) = x # elems q
      \<and> room (push_front x q) \<le> max (room q) (2 * length (elems q))"
    and pop_empty: "inv q \<Longrightarrow> elems q = [] \<Longrightarrow> pop_front q = None"
    and pop_law: "inv q \<Longrightarrow> elems q = x # xs
      \<Longrightarrow> \<exists>q'. pop_front q = Some q' \<and> inv q' \<and> elems q' = xs \<and> room q' = room q"
    and wipe_law: "inv q \<Longrightarrow> inv (wipe q c) \<and> elems (wipe q c) = [] \<and> room (wipe q c) = (if 0 < c then c else room q)"
begin

abbreviation step :: "'a qop \<Rightarrow> 'q \<Rightarrow> 'q option" where
  "step \<equiv> deque_step push_back push_front pop_front wipe"

lemma step_refines:
  assumes "inv q" "room q < limit"
  shows "case list_step p (elems q) of None \<Rightarrow> step p q = None
    | Some ys \<Rightarrow> \<exists>q'. step p q = Some q' \<and> inv q' \<and> elems q' = ys
        \<and> room q' \<le> max (op_room p) (max (room q) (2 * length (elems q)))"
proof (cases p)
  case Pop
  show ?thesis
  proof (cases "elems q")
    case Nil
    then show ?thesis using pop_empty[OF assms(1)] Pop by simp
  next
    case (Cons x xs)
    then show ?thesis using pop_law[OF assms(1) Cons] Pop by auto
  qed
next
  case (Clear c)
  then show ?thesis using wipe_law[OF assms(1), of c] by (simp add: op_room_def)
qed (use push_back_law[OF assms] push_front_law[OF assms] in \<open>auto simp: op_room_def\<close>)

text \<open>Every run is the run on lists, exceptions included, while the ring stays below the limit.\<close>

lemma run_refines:
  assumes "inv q" "room q < limit" "2 * (length (elems q) + length ps) < limit" "\<forall>p \<in> set ps. op_room p < limit"
  shows "case run_steps list_step ps (elems q) of None \<Rightarrow> run_steps step ps q = None
    | Some ys \<Rightarrow> \<exists>q'. run_steps step ps q = Some q' \<and> inv q' \<and> elems q' = ys"
  using assms
proof (induction ps arbitrary: q)
  case (Cons p ps)
  note s = step_refines[OF Cons.prems(1,2), of p]
  show ?case
  proof (cases "list_step p (elems q)")
    case None
    then show ?thesis using s by simp
  next
    case (Some ys)
    then obtain q' where q': "step p q = Some q'" "inv q'" "elems q' = ys"
      "room q' \<le> max (op_room p) (max (room q) (2 * length (elems q)))" using s by auto
    have "length ys \<le> Suc (length (elems q))" by (rule list_step_length[OF Some])
    then have "room q' < limit" "2 * (length (elems q') + length ps) < limit"
      using q'(3,4) Cons.prems(2-4) by auto
    then show ?thesis using Cons.IH[OF q'(2)] Cons.prems(4) Some q'(1,3) by (auto split: option.splits)
  qed
qed simp

end

interpretation ring: deque ca_inv view m_capacity "ca_append junk" "ca_prepend junk" ca_pop "ca_clear junk" "2 ^ 63"
  for junk :: 'a
proof unfold_locales
  fix q :: "'a circular" and x xs
  assume "ca_inv q"
  then show "view q = [] \<Longrightarrow> ca_pop q = None"
    and "view q = x # xs \<Longrightarrow> \<exists>q'. ca_pop q = Some q' \<and> ca_inv q' \<and> view q' = xs \<and> m_capacity q' = m_capacity q"
    using pop_spec[of q] by auto
qed (simp_all add: append_spec prepend_spec clear_spec)

text \<open>One operation on the ring.\<close>

definition ca_step :: "'a \<Rightarrow> 'a qop \<Rightarrow> 'a circular \<Rightarrow> 'a circular option" where
  "ca_step junk = deque_step (ca_append junk) (ca_prepend junk) ca_pop (ca_clear junk)"

lemma dump_spec: "ca_inv q \<Longrightarrow> ca_dump q = Some (view q)"
proof -
  assume inv: "ca_inv q"
  have m: "map (\<lambda>i. ca_at q (int i)) [0..<length (view q)] = map Some (view q)"
    using at_spec[OF inv] by (intro nth_equalityI) simp_all
  have "those (map Some xs) = Some xs" for xs :: "'a list" by (induction xs) simp_all
  then show ?thesis by (simp add: ca_dump_def ca_size_view[OF inv] m)
qed

section \<open>Properties\<close>

text \<open>C25. The circular array refines a double-ended list: any run of appends, prepends,
  pops and clears, with or without a new capacity, on a new array of any positive capacity gives the
  list of the same run - a pop of the empty queue throws in both, a clear leaves the empty list -
  through every wrap-around of the ring and every change of its capacity; size, accessor and dump
  show this list.\<close>

theorem circular_refines_list:
  assumes "0 < c" "c < 2 ^ 63" "2 * length ps < (2 :: nat) ^ 63" "\<forall>p \<in> set ps. op_room p < 2 ^ 63"
  shows "case run_steps list_step ps [] of None \<Rightarrow> run_steps (ca_step junk) ps (ca_new junk c) = None
    | Some xs \<Rightarrow> \<exists>q. run_steps (ca_step junk) ps (ca_new junk c) = Some q \<and> ca_size q = length xs \<and> ca_dump q = Some xs
        \<and> (\<forall>i. ca_at q i = (if 0 \<le> i \<and> i < int (length xs) then Some (xs ! nat i) else None))"
proof -
  have n: "ca_inv (ca_new junk c)" "view (ca_new junk c) = []" "m_capacity (ca_new junk c) = c"
    using new_spec[OF assms(1), of junk] by simp_all
  have "case run_steps list_step ps [] of None \<Rightarrow> run_steps (ca_step junk) ps (ca_new junk c) = None
    | Some xs \<Rightarrow> \<exists>q. run_steps (ca_step junk) ps (ca_new junk c) = Some q \<and> ca_inv q \<and> view q = xs"
    using ring.run_refines[OF n(1), of ps junk] assms n unfolding ca_step_def by simp
  then show ?thesis
    by (auto simp: ca_size_view dump_spec at_spec split: option.splits)
qed

theorem circular_refines_list_witness:
  "\<exists>q. run_steps (ca_step 0) [Append 1, Append 2, Prepend (3 :: int), Pop, Append 4, Clear 3, Append 5, Prepend 6, Append 7, Prepend 8, Clear 0,
        Prepend 9, Append 10] (ca_new 0 2) = Some q \<and> ca_dump q = Some [9, 10]"
  using circular_refines_list[of 2 "[Append 1, Append 2, Prepend (3 :: int), Pop, Append 4, Clear 3, Append 5, Prepend 6, Append 7,
    Prepend 8, Clear 0, Prepend 9, Append 10]" 0] by (auto simp: op_room_def)

end
