(* ===== verification/Density_Bounds.thy ===== *)
theory Density_Bounds
  imports Doubles "HOL-Library.Monad_Syntax"
begin

text \<open>
  The density thresholds of the calibrator tree (\<open>pma/density_bounds.hpp\<close>,
  \<open>pma/density_bounds.cpp\<close>), over IEEE doubles with their rounding. A result \<open>None\<close> is the
  configuration exception of the constructor or a failed assertion on the heights.
\<close>

section \<open>DensityBounds\<close>

record DensityBounds =
  rho_0 :: double
  rho_h :: double
  theta_h :: double
  theta_0 :: double

definition new_density_bounds :: "double \<Rightarrow> double \<Rightarrow> double \<Rightarrow> double \<Rightarrow> DensityBounds option" where
  "new_density_bounds r0 rh th t0 =
     (if \<not> 0 \<le> r0 then None
      else if \<not> r0 < rh then None
      else if \<not> rh \<le> th then None
      else if \<not> th < t0 then None
      else if \<not> t0 \<le> 1 then None
      else Some \<lparr>rho_0 = r0, rho_h = rh, theta_h = th, theta_0 = t0\<rparr>)"

definition scaled :: "DensityBounds \<Rightarrow> double \<Rightarrow> double \<times> double" where
  "scaled b scale =
     (let delta_r = dsub (rho_h b) (rho_0 b);
          rho = dsub (rho_h b) (dmul delta_r scale);
          delta_t = dsub (theta_0 b) (theta_h b);
          theta = dadd (theta_h b) (dmul delta_t scale)
      in (rho, theta))"

definition thresholds_int :: "DensityBounds \<Rightarrow> nat \<Rightarrow> nat \<Rightarrow> (double \<times> double) option" where
  "thresholds_int b tree_height current_height =
     (if \<not> (1 \<le> current_height \<and> current_height \<le> tree_height) then None
      else if tree_height = 1 then Some (rho_0 b, theta_0 b)
      else let scale = ddiv (d_of_nat (tree_height - current_height)) (d_of_nat (tree_height - 1))
           in Some (scaled b scale))"

definition thresholds_dec :: "DensityBounds \<Rightarrow> nat \<Rightarrow> double \<Rightarrow> (double \<times> double) option" where
  "thresholds_dec b tree_height current_height =
     (if \<not> (1 \<le> current_height \<and> current_height \<le> d_of_nat tree_height) then None
      else if tree_height = 1 then Some (rho_0 b, theta_0 b)
      else let scale = ddiv (dsub (d_of_nat tree_height) current_height) (d_of_nat (tree_height - 1))
           in Some (scaled b scale))"

section \<open>CachedDensityBounds\<close>

record CachedDensityBounds =
  m_density_bounds :: DensityBounds
  m_cached_densities :: "(double \<times> double) list"

definition new_cached :: "double \<Rightarrow> double \<Rightarrow> double \<Rightarrow> double \<Rightarrow> CachedDensityBounds option" where
  "new_cached r0 rh th t0 =
     map_option (\<lambda>b. \<lparr>m_density_bounds = b, m_cached_densities = []\<rparr>) (new_density_bounds r0 rh th t0)"

definition rebuild_cached_densities :: "CachedDensityBounds \<Rightarrow> nat \<Rightarrow> CachedDensityBounds option" where
  "rebuild_cached_densities c tree_height = do {
     ds \<leftarrow> those (map (\<lambda>i. thresholds_int (m_density_bounds c) tree_height i) [1..<tree_height + 1]);
     Some (c\<lparr>m_cached_densities := ds\<rparr>) }"

definition thresholds_cached :: "CachedDensityBounds \<Rightarrow> nat \<Rightarrow> (double \<times> double) option" where
  "thresholds_cached c current_height =
     (if 1 \<le> current_height \<and> current_height \<le> length (m_cached_densities c)
      then Some (m_cached_densities c ! (current_height - 1)) else None)"

definition thresholds_tree :: "CachedDensityBounds \<Rightarrow> nat \<Rightarrow> nat \<Rightarrow> ((double \<times> double) \<times> CachedDensityBounds) option" where
  "thresholds_tree c tree_height current_height =
     (if 1 \<le> current_height \<and> current_height \<le> tree_height then do {
        c \<leftarrow> (if length (m_cached_densities c) \<noteq> tree_height
             then rebuild_cached_densities c tree_height else Some c);
        Some (m_cached_densities c ! (current_height - 1), c) }
      else None)"

definition get_upper_threshold_root :: "CachedDensityBounds \<Rightarrow> double" where
  "get_upper_threshold_root c = theta_h (m_density_bounds c)"

definition get_upper_threshold_leaves :: "CachedDensityBounds \<Rightarrow> double" where
  "get_upper_threshold_leaves c = theta_0 (m_density_bounds c)"

definition densities :: "CachedDensityBounds \<Rightarrow> DensityBounds" where
  "densities c = m_density_bounds c"

definition get_calibrator_tree_height :: "CachedDensityBounds \<Rightarrow> nat" where
  "get_calibrator_tree_height c = length (m_cached_densities c)"

section \<open>Proofs\<close>

text \<open>
  What the constructor checked, for values that are doubles. The thresholds are numbers the
  rounding does not change.
\<close>

definition bounds_ok :: "DensityBounds \<Rightarrow> bool" where
  "bounds_ok b \<longleftrightarrow> 0 \<le> rho_0 b \<and> rho_0 b < rho_h b \<and> rho_h b \<le> theta_h b \<and> theta_h b < theta_0 b \<and> theta_0 b \<le> 1
     \<and> rnd (rho_0 b) = rho_0 b \<and> rnd (rho_h b) = rho_h b \<and> rnd (theta_h b) = theta_h b \<and> rnd (theta_0 b) = theta_0 b"

lemma new_density_bounds_ok:
  assumes "new_density_bounds r0 rh th t0 = Some b" "rnd r0 = r0" "rnd rh = rh" "rnd th = th" "rnd t0 = t0"
  shows "bounds_ok b"
  using assms by (auto simp: new_density_bounds_def bounds_ok_def split: if_splits)

lemma scaled_bounds:
  assumes ok: "bounds_ok b" and s: "0 \<le> s" "s \<le> 1"
  shows "0 \<le> fst (scaled b s)" "fst (scaled b s) \<le> rho_h b" "theta_h b \<le> snd (scaled b s)"
proof -
  note o = ok[unfolded bounds_ok_def]
  have dr: "0 \<le> dsub (rho_h b) (rho_0 b)" "dsub (rho_h b) (rho_0 b) \<le> rho_h b"
    using o rnd_nonneg[of "rho_h b - rho_0 b"] rnd_mono[of "rho_h b - rho_0 b" "rho_h b"]
    by (simp_all add: dsub_def)
  have dt: "0 \<le> dsub (theta_0 b) (theta_h b)"
    using o rnd_nonneg[of "theta_0 b - theta_h b"] by (simp add: dsub_def)
  have "dsub (rho_h b) (rho_0 b) * s \<le> rho_h b"
    using mult_left_mono[OF s(2) dr(1)] dr(2) by linarith
  then have m: "0 \<le> dmul (dsub (rho_h b) (rho_0 b)) s" "dmul (dsub (rho_h b) (rho_0 b)) s \<le> rho_h b"
    using o dr(1) s(1) rnd_nonneg[of "dsub (rho_h b) (rho_0 b) * s"]
      rnd_mono[of "dsub (rho_h b) (rho_0 b) * s" "rho_h b"]
    by (simp_all add: dmul_def)
  show "0 \<le> fst (scaled b s)" "fst (scaled b s) \<le> rho_h b"
    using m o rnd_nonneg[of "rho_h b - dmul (dsub (rho_h b) (rho_0 b)) s"]
      rnd_mono[of "rho_h b - dmul (dsub (rho_h b) (rho_0 b)) s" "rho_h b"]
    by (simp_all add: scaled_def Let_def dsub_def)
  have "0 \<le> dmul (dsub (theta_0 b) (theta_h b)) s" using dt s(1) by (simp add: dmul_def rnd_nonneg)
  then show "theta_h b \<le> snd (scaled b s)"
    using o rnd_mono[of "theta_h b" "theta_h b + dmul (dsub (theta_0 b) (theta_h b)) s"]
    by (simp add: scaled_def Let_def dadd_def)
qed

lemma scaled_mono:
  assumes ok: "bounds_ok b" and st: "s \<le> t"
  shows "fst (scaled b t) \<le> fst (scaled b s)" "snd (scaled b s) \<le> snd (scaled b t)"
proof -
  note o = ok[unfolded bounds_ok_def]
  have dr: "0 \<le> dsub (rho_h b) (rho_0 b)" "0 \<le> dsub (theta_0 b) (theta_h b)"
    using o rnd_nonneg[of "rho_h b - rho_0 b"] rnd_nonneg[of "theta_0 b - theta_h b"]
    by (simp_all add: dsub_def)
  have "dmul (dsub (rho_h b) (rho_0 b)) s \<le> dmul (dsub (rho_h b) (rho_0 b)) t"
    "dmul (dsub (theta_0 b) (theta_h b)) s \<le> dmul (dsub (theta_0 b) (theta_h b)) t"
    using mult_left_mono[OF st dr(1)] mult_left_mono[OF st dr(2)] by (simp_all add: dmul_def rnd_mono)
  then show "fst (scaled b t) \<le> fst (scaled b s)" "snd (scaled b s) \<le> snd (scaled b t)"
    unfolding scaled_def Let_def dsub_def[of "rho_h b"] dadd_def by (simp_all add: rnd_mono)
qed

lemma scale_range:
  assumes "1 \<le> h" "h \<le> H" "1 < H" "H < 2 ^ 31"
  shows "0 \<le> ddiv (d_of_nat (H - h)) (d_of_nat (H - 1))" "ddiv (d_of_nat (H - h)) (d_of_nat (H - 1)) \<le> 1"
proof -
  have e: "ddiv (d_of_nat (H - h)) (d_of_nat (H - 1)) = rnd (of_nat (H - h) / of_nat (H - 1))"
    using assms by (simp add: ddiv_def d_of_nat_exact)
  show "0 \<le> ddiv (d_of_nat (H - h)) (d_of_nat (H - 1))" unfolding e by (rule rnd_nonneg) simp
  have "H - h \<le> H - 1" using assms by simp
  then have "(of_nat (H - h) :: rat) \<le> of_nat (H - 1)" by (simp only: of_nat_le_iff)
  then have "(of_nat (H - h) / of_nat (H - 1) :: rat) \<le> 1" using assms(3) by (simp add: divide_le_eq_1)
  then show "ddiv (d_of_nat (H - h)) (d_of_nat (H - 1)) \<le> 1" unfolding e using rnd_mono[of _ 1] by simp
qed

lemma scale_mono:
  assumes "h \<le> h'" "H < 2 ^ 31"
  shows "ddiv (d_of_nat (H - h')) (d_of_nat (H - 1)) \<le> ddiv (d_of_nat (H - h)) (d_of_nat (H - 1))"
proof -
  have "H - h' \<le> H - h" using assms(1) by simp
  then have "(of_nat (H - h') :: rat) \<le> of_nat (H - h)" by (simp only: of_nat_le_iff)
  then show ?thesis using assms by (simp add: ddiv_def d_of_nat_exact rnd_mono divide_right_mono)
qed

lemma thresholds_int_some:
  "1 \<le> h \<Longrightarrow> h \<le> H \<Longrightarrow> thresholds_int b H h \<noteq> None"
  by (simp add: thresholds_int_def Let_def)

lemma those_all: "(\<And>x. x \<in> set xs \<Longrightarrow> f x \<noteq> None) \<Longrightarrow> those (map f xs) = Some (map (\<lambda>x. the (f x)) xs)"
proof (induction xs)
  case (Cons x xs)
  obtain y where "f x = Some y" using Cons.prems[of x] by auto
  then show ?case using Cons by simp
qed simp

lemma height_nth: "1 \<le> h \<Longrightarrow> h \<le> H \<Longrightarrow> [1..<H + 1] ! (h - 1) = h"
  by (subst nth_upt) simp_all

lemma rebuild_spec:
  "rebuild_cached_densities c H
    = Some (c\<lparr>m_cached_densities := map (\<lambda>i. the (thresholds_int (m_density_bounds c) H i)) [1..<H + 1]\<rparr>)"
proof -
  have "those (map (thresholds_int (m_density_bounds c) H) [1..<H + 1])
      = Some (map (\<lambda>i. the (thresholds_int (m_density_bounds c) H i)) [1..<H + 1])"
  proof (rule those_all)
    fix i assume "i \<in> set [1..<H + 1]"
    then have "1 \<le> i" "i \<le> H" by auto
    then show "thresholds_int (m_density_bounds c) H i \<noteq> None" by (rule thresholds_int_some)
  qed
  then show ?thesis by (simp add: rebuild_cached_densities_def)
qed

text \<open>The cache always belongs to the tree height it has the length of.\<close>

definition cache_inv :: "CachedDensityBounds \<Rightarrow> bool" where
  "cache_inv c \<longleftrightarrow> m_cached_densities c
     = map (\<lambda>i. the (thresholds_int (m_density_bounds c) (length (m_cached_densities c)) i))
         [1..<length (m_cached_densities c) + 1]"

lemma thresholds_tree_spec:
  assumes inv: "cache_inv c" and h: "1 \<le> h" "h \<le> H"
  shows "\<exists>c'. thresholds_tree c H h = Some (the (thresholds_int (m_density_bounds c) H h), c') \<and> cache_inv c'
    \<and> m_density_bounds c' = m_density_bounds c \<and> get_calibrator_tree_height c' = H"
proof -
  define ds where "ds = map (\<lambda>i. the (thresholds_int (m_density_bounds c) H i)) [1..<H + 1]"
  define c' where "c' = c\<lparr>m_cached_densities := ds\<rparr>"
  have len: "length ds = H" by (simp add: ds_def)
  have nth: "ds ! (h - 1) = the (thresholds_int (m_density_bounds c) H h)"
    using h height_nth[OF h] by (simp add: ds_def del: upt_Suc)
  have c: "(if length (m_cached_densities c) \<noteq> H then rebuild_cached_densities c H else Some c) = Some c'"
  proof (cases "length (m_cached_densities c) = H")
    case True
    then have "m_cached_densities c = ds" using inv by (simp add: cache_inv_def ds_def)
    then show ?thesis using True by (simp add: c'_def)
  next
    case False
    then show ?thesis unfolding rebuild_spec by (simp add: c'_def ds_def)
  qed
  have "cache_inv c'" unfolding cache_inv_def by (simp add: c'_def len del: upt_Suc) (simp add: ds_def)
  moreover have "thresholds_tree c H h = Some (ds ! (h - 1), c')"
    using h c by (simp add: thresholds_tree_def c'_def)
  ultimately show ?thesis using nth len by (simp add: c'_def get_calibrator_tree_height_def)
qed

section \<open>Properties\<close>

text \<open>At every height of the calibrator tree the thresholds lie between the configured
  bounds, in floating point: \<open>0 \<le> rho \<le> rho_h \<le> theta_h \<le> theta\<close>.\<close>

theorem thresholds_within_bounds:
  assumes "bounds_ok b" "1 \<le> h" "h \<le> H" "H < 2 ^ 31"
  shows "\<exists>rho theta. thresholds_int b H h = Some (rho, theta)
    \<and> 0 \<le> rho \<and> rho \<le> rho_h b \<and> rho_h b \<le> theta_h b \<and> theta_h b \<le> theta"
proof (cases "H = 1")
  case True
  then show ?thesis using assms by (auto simp: thresholds_int_def bounds_ok_def)
next
  case False
  then have "1 < H" using assms(2,3) by simp
  then show ?thesis
    using scaled_bounds[OF assms(1) scale_range[OF assms(2,3) _ assms(4)]] assms
    by (simp add: thresholds_int_def Let_def prod_eq_iff bounds_ok_def)
qed

text \<open>A configuration with doubles: \<open>rho_0 = 1/4, rho_h = 1/2, theta_h = 3/4, theta_0 = 1\<close>.\<close>

definition quarter_bounds :: DensityBounds where
  "quarter_bounds = \<lparr>rho_0 = 1 / 4, rho_h = 1 / 2, theta_h = 3 / 4, theta_0 = 1\<rparr>"

lemma quarter_bounds_ok: "bounds_ok quarter_bounds"
proof -
  have "rnd (1 / 2) = 1 / 2" by (simp add: rnd_half)
  moreover have "rnd (1 / 4) = 1 / 4" using rnd_half[of "1 / 2"] by (simp add: rnd_half)
  moreover have "rnd (3 / 4) = 3 / 4" using rnd_dyadic[of 3 2] by simp
  ultimately show ?thesis by (simp add: bounds_ok_def quarter_bounds_def)
qed

theorem thresholds_within_bounds_witness:
  "\<exists>rho theta. thresholds_int quarter_bounds 5 2 = Some (rho, theta) \<and> 0 \<le> rho \<and> rho \<le> 1 / 2 \<and> 3 / 4 \<le> theta"
  using thresholds_within_bounds[OF quarter_bounds_ok, of 2 5] by (auto simp: quarter_bounds_def)

text \<open>Towards the root the windows must be more evenly filled: the lower threshold
  does not decrease and the upper one does not increase with the height, rounding included.\<close>

theorem thresholds_monotone:
  assumes "bounds_ok b" "1 \<le> h" "h \<le> h'" "h' \<le> H" "H < 2 ^ 31"
    and "thresholds_int b H h = Some (rho, theta)" "thresholds_int b H h' = Some (rho', theta')"
  shows "rho \<le> rho' \<and> theta' \<le> theta"
proof (cases "H = 1")
  case True
  then show ?thesis using assms by (simp add: thresholds_int_def)
next
  case False
  then have "scaled b (ddiv (d_of_nat (H - h)) (d_of_nat (H - 1))) = (rho, theta)"
    "scaled b (ddiv (d_of_nat (H - h')) (d_of_nat (H - 1))) = (rho', theta')"
    using assms by (simp_all add: thresholds_int_def Let_def)
  then show ?thesis using scaled_mono[OF assms(1) scale_mono[OF assms(3,5)]] by simp
qed

theorem thresholds_monotone_witness:
  "fst (the (thresholds_int quarter_bounds 5 2)) \<le> fst (the (thresholds_int quarter_bounds 5 4))"
  using thresholds_monotone[OF quarter_bounds_ok, of 2 4 5 "fst (the (thresholds_int quarter_bounds 5 2))"
      "snd (the (thresholds_int quarter_bounds 5 2))" "fst (the (thresholds_int quarter_bounds 5 4))"
      "snd (the (thresholds_int quarter_bounds 5 4))"]
  by (simp add: thresholds_int_def Let_def)

text \<open>A sequence of queries.\<close>

fun ask_all :: "CachedDensityBounds \<Rightarrow> (nat \<times> nat) list \<Rightarrow> CachedDensityBounds option" where
  "ask_all c [] = Some c"
| "ask_all c ((H, h) # qs) = do { (_, c) \<leftarrow> thresholds_tree c H h; ask_all c qs }"

lemma ask_all_inv:
  "cache_inv c \<Longrightarrow> \<forall>(H, h) \<in> set qs. 1 \<le> h \<and> h \<le> H
    \<Longrightarrow> \<exists>c'. ask_all c qs = Some c' \<and> cache_inv c' \<and> m_density_bounds c' = m_density_bounds c"
proof (induction qs arbitrary: c)
  case (Cons q qs)
  obtain H h where q: "q = (H, h)" by force
  then have h: "1 \<le> h" "h \<le> H" using Cons.prems(2) by auto
  obtain c1 where "thresholds_tree c H h = Some (the (thresholds_int (m_density_bounds c) H h), c1)"
    "cache_inv c1" "m_density_bounds c1 = m_density_bounds c"
    using thresholds_tree_spec[OF Cons.prems(1) h] by blast
  then show ?case using Cons.IH[of c1] Cons.prems(2) q by auto
qed simp

text \<open>The cache is transparent: after any sequence of queries with any tree heights, a
  query returns what the direct computation returns, and the cache belongs to that tree height.\<close>

theorem cache_transparent:
  assumes "new_cached r0 rh th t0 = Some c" "\<forall>(H, h) \<in> set qs. 1 \<le> h \<and> h \<le> H" "1 \<le> h" "h \<le> H"
  shows "\<exists>c' c''. ask_all c qs = Some c'
    \<and> thresholds_tree c' H h = Some (the (thresholds_int (densities c) H h), c'')
    \<and> thresholds_cached c'' h = Some (the (thresholds_int (densities c) H h))
    \<and> get_calibrator_tree_height c'' = H"
proof -
  have "cache_inv c" using assms(1) by (auto simp: new_cached_def cache_inv_def)
  then obtain c1 where c1: "ask_all c qs = Some c1" "cache_inv c1" "m_density_bounds c1 = m_density_bounds c"
    using ask_all_inv assms(2) by blast
  obtain c2 where c2: "thresholds_tree c1 H h = Some (the (thresholds_int (m_density_bounds c1) H h), c2)"
    "cache_inv c2" "m_density_bounds c2 = m_density_bounds c1" "get_calibrator_tree_height c2 = H"
    using thresholds_tree_spec[OF c1(2) assms(3,4)] by blast
  have len: "length (m_cached_densities c2) = H" using c2(4) by (simp add: get_calibrator_tree_height_def)
  have "m_cached_densities c2 = map (\<lambda>i. the (thresholds_int (m_density_bounds c2) H i)) [1..<H + 1]"
    using c2(2) len by (simp add: cache_inv_def)
  then have "m_cached_densities c2 ! (h - 1) = the (thresholds_int (m_density_bounds c2) H h)"
    using assms(3,4) height_nth[OF assms(3,4)] by (simp del: upt_Suc)
  then have "thresholds_cached c2 h = Some (the (thresholds_int (m_density_bounds c2) H h))"
    using assms(3,4) len by (simp add: thresholds_cached_def)
  then show ?thesis using c1 c2 by (simp add: densities_def)
qed

theorem cache_transparent_witness:
  "\<exists>c c' c''. new_cached (1 / 4) (1 / 2) (3 / 4) 1 = Some c \<and> ask_all c [(3, 2), (5, 1)] = Some c'
    \<and> thresholds_tree c' 3 1 = Some (the (thresholds_int (densities c) 3 1), c'')"
proof -
  obtain c where "new_cached (1 / 4) (1 / 2) (3 / 4) 1 = Some c"
    by (simp add: new_cached_def new_density_bounds_def)
  then show ?thesis using cache_transparent[of "1 / 4" "1 / 2" "3 / 4" 1 c "[(3, 2), (5, 1)]" 1 3] by auto
qed

text \<open>The two overloads agree: at an integer height the floating-point version computes the
  same thresholds as the integer version.\<close>

theorem thresholds_dec_int:
  assumes "1 \<le> h" "h \<le> H" "H < 2 ^ 31"
  shows "thresholds_dec b H (d_of_nat h) = thresholds_int b H h"
proof -
  have d: "d_of_nat h = of_nat h" "d_of_nat H = of_nat H" "d_of_nat (H - h) = of_nat (H - h)"
    using assms by (simp_all add: d_of_nat_exact)
  have "dsub (of_nat H) (of_nat h) = of_nat (H - h)"
    using assms rnd_of_nat[of "H - h"] by (simp add: dsub_def of_nat_diff)
  then show ?thesis using assms d by (simp add: thresholds_dec_def thresholds_int_def)
qed

theorem thresholds_dec_int_witness:
  "thresholds_dec quarter_bounds 4 (d_of_nat 3) = thresholds_int quarter_bounds 4 3"
  using thresholds_dec_int[of 3 4 quarter_bounds] by simp

end
