(* ===== verification/Static_Index.thy ===== *)
theory Static_Index
  imports Prelude "HOL-Library.Monad_Syntax"
begin

text \<open>
  The static (a,b)-tree index of \<open>pma/generic/static_index.cpp\<close>: the separator keys of the
  segments of a packed memory array, laid out in one array, with a table of the shapes of the
  rightmost subtrees.

  A result \<open>None\<close> is an exception, a failed assertion, an access outside the array of keys
  or a loop that does not end. The height \<open>ceil (log2 (N) / log2 (B))\<close> goes through doubles, and \<open>log2\<close> is only
  specified up to rounding: it is the parameter \<open>levels\<close>, a function of the node size and the number of
  entries. Its value over the reals is \<open>ceil_log\<close> (\<open>ceil_log_real\<close>). The powers \<open>pow (B, h)\<close> are exact: they are
  below \<open>2 ^ 53\<close> for every capacity that fits \<open>int32_t\<close>. Keys that were not set yet are the parameter \<open>junk\<close>.
\<close>

section \<open>State\<close>

record StaticIndex =
  m_node_size :: nat
  m_height :: nat
  m_capacity :: int
  m_keys :: "int list"
  m_key_minimum :: int
  m_rightmost :: "(nat \<times> nat) list"

definition m_rightmost_sz :: nat where "m_rightmost_sz = 8"

definition KEY_MAX :: int where "KEY_MAX = 2 ^ 63 - 1"

text \<open>The exact height, which the expression of the code is compared with. The arrays use it with base 2, for
  \<open>ceil (log2 (n))\<close> of numbers that fit 32 bits, where rounding to doubles does not pass an integer.\<close>

function ceil_log :: "nat \<Rightarrow> nat \<Rightarrow> nat" where
  "ceil_log B N = (if N \<le> 1 \<or> B \<le> 1 then 0 else 1 + ceil_log B (div_up N B))"
  by pat_completeness auto
termination
proof (relation "measure (\<lambda>(B, N). N)", goal_cases)
  case (2 B N)
  then have "(N - 1) div B < N - 1" by (intro div_less_dividend) simp_all
  then show ?case by (simp add: div_up_def)
qed simp

declare ceil_log.simps [simp del]

section \<open>Building\<close>

lemma ceil_log_upper: "1 < B \<Longrightarrow> N \<le> B ^ ceil_log B N"
proof (induction B N rule: ceil_log.induct)
  case (1 B N)
  show ?case
  proof (cases "N \<le> 1")
    case True
    then show ?thesis using "1.prems" by (simp add: ceil_log.simps[of B N])
  next
    case False
    have "N \<le> div_up N B * B" using False "1.prems" by (intro div_up_mult_ge) simp_all
    also have "\<dots> \<le> B ^ ceil_log B (div_up N B) * B" using 1 False by (intro mult_le_mono1) simp
    finally show ?thesis using False "1.prems" by (simp add: ceil_log.simps[of B N] mult.commute)
  qed
qed

lemma ceil_log_least: "1 < B \<Longrightarrow> N \<le> B ^ k \<Longrightarrow> ceil_log B N \<le> k"
proof (induction B N arbitrary: k rule: ceil_log.induct)
  case (1 B N)
  show ?case
  proof (cases "N \<le> 1")
    case True
    then show ?thesis by (simp add: ceil_log.simps[of B N])
  next
    case False
    then obtain j where k: "k = Suc j" using "1.prems"(2) by (cases k) auto
    have "div_up N B \<le> B ^ j" using "1.prems" False k by (intro div_up_least) (simp_all add: mult.commute)
    then have "ceil_log B (div_up N B) \<le> j" using 1 False by simp
    then show ?thesis using False "1.prems"(1) k by (simp add: ceil_log.simps[of B N])
  qed
qed

lemma ceil_log_lower: "1 < B \<Longrightarrow> 1 < N \<Longrightarrow> 0 < ceil_log B N \<and> B ^ (ceil_log B N - 1) < N"
proof -
  assume B: "1 < B" and N: "1 < N"
  have pos: "0 < ceil_log B N" using B N by (simp add: ceil_log.simps[of B N])
  moreover have "\<not> N \<le> B ^ (ceil_log B N - 1)"
    using ceil_log_least[OF B, of N "ceil_log B N - 1"] pos by auto
  ultimately show ?thesis by simp
qed

lemma ceil_log_power: "1 < B \<Longrightarrow> ceil_log B (B ^ h) = h"
proof (rule antisym)
  assume B: "1 < B"
  show "ceil_log B (B ^ h) \<le> h" by (rule ceil_log_least[OF B]) simp
  show "h \<le> ceil_log B (B ^ h)"
    using ceil_log_upper[OF B, of "B ^ h"] B power_increasing_iff[of B h "ceil_log B (B ^ h)"] by simp
qed

text \<open>The exact logarithm is the value of the expression of the code over the reals.\<close>

lemma ceil_log_real:
  assumes "1 < B" "0 < N"
  shows "int (ceil_log B N) = \<lceil>log 2 (real N) / log 2 (real B)\<rceil>"
proof -
  have e: "log 2 (real N) / log 2 (real B) = log (real B) (real N)"
    using assms by (simp add: log_def)
  show ?thesis unfolding e
  proof (rule ceiling_unique[symmetric])
    have "real N \<le> real B ^ ceil_log B N"
      using ceil_log_upper[OF assms(1), of N] by (metis of_nat_le_iff of_nat_power)
    then show "log (real B) (real N) \<le> of_int (int (ceil_log B N))"
      using assms by (simp add: log_le_iff powr_realpow)
    show "of_int (int (ceil_log B N)) - 1 < log (real B) (real N)"
    proof (cases "N = 1")
      case True
      then show ?thesis using assms by (simp add: ceil_log.simps)
    next
      case False
      then have l: "0 < ceil_log B N" "B ^ (ceil_log B N - 1) < N"
        using ceil_log_lower[OF assms(1), of N] assms(2) by simp_all
      have "real (B ^ (ceil_log B N - 1)) < real N" using l(2) by (simp only: of_nat_less_iff)
      then have "log (real B) (real B ^ (ceil_log B N - 1)) < log (real B) (real N)"
        using assms by (subst log_less_cancel_iff) simp_all
      then show ?thesis using l(1) assms by (simp add: log_nat_power of_nat_diff)
    qed
  qed
qed

text \<open>The loop that sets the shapes of the rightmost subtrees, from the root down.\<close>

function set_rightmost :: "(nat \<Rightarrow> nat \<Rightarrow> nat) \<Rightarrow> nat \<Rightarrow> (nat \<times> nat) list \<Rightarrow> nat \<Rightarrow> nat \<Rightarrow> (nat \<times> nat) list option" where
  "set_rightmost levels B rm N height =
     (if 0 < height then
        let subtree_sz = B ^ (height - 1);
            root_sz = (N - 1) div subtree_sz mod 2 ^ 16
        in if root_sz = 0 \<or> length rm < height then None
        else
          let rightmost_subtree_sz = (N - 1) mod subtree_sz;
              n = (if rightmost_subtree_sz = 0 then 0 else rightmost_subtree_sz + 1);
              rightmost_subtree_height = (if rightmost_subtree_sz = 0 then 0 else levels B n)
          in set_rightmost levels B (rm[height - 1 := (root_sz, rightmost_subtree_height)]) n rightmost_subtree_height
      else Some rm)"
  by pat_completeness auto
termination
proof (relation "measure (\<lambda>(levels, B, rm, N, h). N)", goal_cases)
  case (2 levels B rm N h)
  define S where "S = B ^ (h - 1)"
  have d: "(N - 1) div S \<noteq> 0"
  proof
    assume "(N - 1) div S = 0"
    then show False using 2 by (simp add: S_def)
  qed
  then have "0 < S" "S \<le> N - 1" by (auto simp: div_eq_0_iff)
  moreover from this have "(N - 1) mod S < S" by simp
  ultimately have "(if (N - 1) mod S = 0 then 0 else (N - 1) mod S + 1) < N" by auto
  then show ?case using 2 by (auto simp: S_def split: if_splits)
qed simp

declare set_rightmost.simps [simp del]

definition rebuild :: "(nat \<Rightarrow> nat \<Rightarrow> nat) \<Rightarrow> int \<Rightarrow> StaticIndex \<Rightarrow> nat \<Rightarrow> StaticIndex option" where
  "rebuild levels junk idx N =
     (if N = 0 \<or> m_node_size idx < 2 then None
      else
        let height = levels (m_node_size idx) N in
        if m_rightmost_sz < height then None
        else
          let tree_sz = m_node_size idx ^ height - 1;
              idx = (if height \<noteq> m_height idx
                     then idx\<lparr>m_keys := replicate tree_sz junk, m_height := height\<rparr> else idx);
              idx = idx\<lparr>m_capacity := (int N + 2 ^ 31) mod 2 ^ 32 - 2 ^ 31\<rparr>
          in do { rm \<leftarrow> set_rightmost levels (m_node_size idx) (m_rightmost idx) N height;
                  Some (idx\<lparr>m_rightmost := rm\<rparr>) })"

definition new_index :: "(nat \<Rightarrow> nat \<Rightarrow> nat) \<Rightarrow> int \<Rightarrow> nat \<Rightarrow> nat \<Rightarrow> StaticIndex option" where
  "new_index levels junk node_size num_segments =
     (if 2 ^ 16 - 1 < node_size then None
      else rebuild levels junk \<lparr>m_node_size = node_size, m_height = 0, m_capacity = 0, m_keys = [],
             m_key_minimum = KEY_MAX, m_rightmost = replicate m_rightmost_sz (0, 0)\<rparr> num_segments)"

definition memory_footprint :: "StaticIndex \<Rightarrow> nat" where
  "memory_footprint idx = (m_node_size idx ^ m_height idx - 1) * 8"

definition minimum :: "StaticIndex \<Rightarrow> int" where
  "minimum idx = m_key_minimum idx"

section \<open>Separator keys\<close>

text \<open>
  One descent: the height and the size of the subtree with number \<open>subtree_id\<close>. At height 0 the
  code computes \<open>pow (B, -1)\<close>, which the cast truncates to 0.
\<close>

definition pow_height :: "nat \<Rightarrow> nat \<Rightarrow> nat" where
  "pow_height B height = (if height = 0 then 0 else B ^ (height - 1))"

definition descend :: "StaticIndex \<Rightarrow> nat \<Rightarrow> nat \<Rightarrow> bool \<Rightarrow> nat \<Rightarrow> nat \<times> bool \<times> nat" where
  "descend idx height subtree_sz rightmost subtree_id =
     (let rightmost = (rightmost \<and> fst (m_rightmost idx ! (height - 1)) \<le> subtree_id) in
      if rightmost then
        let h = snd (m_rightmost idx ! (height - 1)) in (h, rightmost, pow_height (m_node_size idx) h)
      else (height - 1, rightmost, subtree_sz div m_node_size idx))"

partial_function (option) get_slot_loop :: "StaticIndex \<Rightarrow> nat \<Rightarrow> nat \<Rightarrow> nat \<Rightarrow> bool \<Rightarrow> nat \<Rightarrow> nat option" where
  [code]: "get_slot_loop idx base offset height rightmost subtree_sz =
     (if 0 < height then
        let subtree_id = offset div subtree_sz;
            modulo = offset mod subtree_sz in
        if modulo = 0 then (if 0 < subtree_id then Some (base + subtree_id - 1) else None)
        else
          let (h, r, s) = descend idx height subtree_sz rightmost subtree_id
          in get_slot_loop idx (base + (m_node_size idx - 1) + subtree_id * (subtree_sz - 1))
               (offset - subtree_id * subtree_sz) h r s
      else Some (base + offset))"

definition get_slot :: "StaticIndex \<Rightarrow> nat \<Rightarrow> nat option" where
  "get_slot idx segment_id =
     (if 0 < segment_id \<and> int segment_id < m_capacity idx mod 2 ^ 64
      then get_slot_loop idx 0 segment_id (m_height idx) True (pow_height (m_node_size idx) (m_height idx))
      else None)"

definition get_separator_key :: "StaticIndex \<Rightarrow> nat \<Rightarrow> int option" where
  "get_separator_key idx segment_id =
     (if segment_id = 0 then Some (m_key_minimum idx)
      else do { p \<leftarrow> get_slot idx segment_id;
                if p < length (m_keys idx) then Some (m_keys idx ! p) else None })"

definition set_separator_key :: "StaticIndex \<Rightarrow> nat \<Rightarrow> int \<Rightarrow> StaticIndex option" where
  "set_separator_key idx segment_id k =
     (if segment_id = 0 then Some (idx\<lparr>m_key_minimum := k\<rparr>)
      else do { p \<leftarrow> get_slot idx segment_id;
                if p < length (m_keys idx) then Some (idx\<lparr>m_keys := (m_keys idx)[p := k]\<rparr>) else None })"

section \<open>Search\<close>

text \<open>The scans of one node: from the left while the keys are at most (below) the key, or from
  the right while they are greater.\<close>

fun scan_up :: "(int \<Rightarrow> bool) \<Rightarrow> int list \<Rightarrow> nat \<Rightarrow> nat \<Rightarrow> nat \<Rightarrow> nat option" where
  "scan_up P keys base 0 i = Some i"
| "scan_up P keys base (Suc n) i =
     (if length keys \<le> base + i then None
      else if P (keys ! (base + i)) then scan_up P keys base n (i + 1) else Some i)"

fun scan_down :: "(int \<Rightarrow> bool) \<Rightarrow> int list \<Rightarrow> nat \<Rightarrow> nat \<Rightarrow> nat option" where
  "scan_down P keys base 0 = Some 0"
| "scan_down P keys base (Suc i) =
     (if length keys \<le> base + i then None
      else if \<not> P (keys ! (base + i)) then scan_down P keys base i else Some (Suc i))"

definition node_le :: "int \<Rightarrow> int list \<Rightarrow> nat \<Rightarrow> nat \<Rightarrow> nat option" where
  "node_le k keys base root_sz = scan_up (\<lambda>x. x \<le> k) keys base root_sz 0"

definition node_lt :: "int \<Rightarrow> int list \<Rightarrow> nat \<Rightarrow> nat \<Rightarrow> nat option" where
  "node_lt k keys base root_sz = scan_up (\<lambda>x. x < k) keys base root_sz 0"

definition node_gt :: "int \<Rightarrow> int list \<Rightarrow> nat \<Rightarrow> nat \<Rightarrow> nat option" where
  "node_gt k keys base root_sz = scan_down (\<lambda>x. x \<le> k) keys base root_sz"

text \<open>The descent that \<open>find\<close>, \<open>find_first\<close> and \<open>find_last\<close> share, for a scan of the node.\<close>

partial_function (option) find_loop :: "(int list \<Rightarrow> nat \<Rightarrow> nat \<Rightarrow> nat option) \<Rightarrow> StaticIndex
    \<Rightarrow> nat \<Rightarrow> nat \<Rightarrow> nat \<Rightarrow> bool \<Rightarrow> nat \<Rightarrow> nat option" where
  [code]: "find_loop scan idx base offset height rightmost subtree_sz =
     (if 0 < height then do {
        let root_sz = (if rightmost then fst (m_rightmost idx ! (height - 1)) else m_node_size idx - 1);
        subtree_id \<leftarrow> scan (m_keys idx) base root_sz;
        let (h, r, s) = descend idx height subtree_sz rightmost subtree_id;
        find_loop scan idx (base + (m_node_size idx - 1) + subtree_id * (subtree_sz - 1))
          (offset + subtree_id * subtree_sz) h r s }
      else Some offset)"

definition find_from_root :: "(int list \<Rightarrow> nat \<Rightarrow> nat \<Rightarrow> nat option) \<Rightarrow> StaticIndex \<Rightarrow> nat option" where
  "find_from_root scan idx =
     find_loop scan idx 0 0 (m_height idx) True (pow_height (m_node_size idx) (m_height idx))"

definition index_find :: "StaticIndex \<Rightarrow> int \<Rightarrow> nat option" where
  "index_find idx k = (if k \<le> m_key_minimum idx then Some 0 else find_from_root (node_le k) idx)"

definition find_first :: "StaticIndex \<Rightarrow> int \<Rightarrow> nat option" where
  "find_first idx k = (if k < m_key_minimum idx then Some 0 else find_from_root (node_lt k) idx)"

definition find_last :: "StaticIndex \<Rightarrow> int \<Rightarrow> nat option" where
  "find_last idx k = (if k < m_key_minimum idx then Some 0 else find_from_root (node_gt k) idx)"

end
