(* ===== verification/Static_Index_Proofs.thy ===== *)
theory Static_Index_Proofs
  imports Static_Index
begin

text \<open>
  The layout of the static index: the position of each separator key as a recursive function of
  the number of entries below a node, its range and injectivity, and the searches as prefixes of
  the separator keys in order.
\<close>

section \<open>Nodes\<close>

text \<open>A node indexes \<open>n\<close> entries; \<open>stride\<close> is the number of entries of each of its children but the
  last.\<close>

definition stride :: "nat \<Rightarrow> nat \<Rightarrow> nat" where
  "stride B n = B ^ (ceil_log B n - 1)"

definition child :: "nat \<Rightarrow> nat \<Rightarrow> nat \<Rightarrow> nat" where
  "child B n c = (if c < (n - 1) div stride B n then stride B n else (n - 1) mod stride B n + 1)"

lemma stride_pos: "1 < B \<Longrightarrow> 0 < stride B n"
  by (simp add: stride_def)

lemma stride_less: "1 < B \<Longrightarrow> 1 < n \<Longrightarrow> stride B n < n"
  using ceil_log_lower[of B n] by (simp add: stride_def)

lemma height_pos: "1 < B \<Longrightarrow> 0 < ceil_log B n \<longleftrightarrow> 1 < n"
  using ceil_log_lower[of B n] by (cases "1 < n") (simp_all add: ceil_log.simps[of B n])

lemma stride_mult: "1 < B \<Longrightarrow> 1 < n \<Longrightarrow> B * stride B n = B ^ ceil_log B n"
  using ceil_log_lower[of B n] by (simp add: stride_def power_eq_if)

lemma child_le: "1 < B \<Longrightarrow> child B n c \<le> stride B n"
  using stride_pos[of B n] by (simp add: child_def Suc_le_eq)

lemma child_pos: "1 < B \<Longrightarrow> 0 < child B n c"
  using stride_pos[of B n] by (simp add: child_def)

lemma child_less: "1 < B \<Longrightarrow> 1 < n \<Longrightarrow> child B n c < n"
  using child_le[of B n c] stride_less[of B n] by linarith

lemma root_size_le: "1 < B \<Longrightarrow> 0 < n \<Longrightarrow> (n - 1) div stride B n \<le> B - 1"
proof (cases "1 < n")
  case True
  assume B: "1 < B"
  have "n - 1 < B * stride B n"
    using ceil_log_upper[OF B, of n] True unfolding stride_mult[OF B True] by linarith
  then have "(n - 1) div stride B n < B" using stride_pos[OF B] by (simp add: less_mult_imp_div_less)
  then show ?thesis by simp
qed (simp add: stride_def)

lemma root_size_pos: "1 < B \<Longrightarrow> 1 < n \<Longrightarrow> 0 < (n - 1) div stride B n"
  using stride_less[of B n] stride_pos[of B n] by (simp add: div_greater_zero_iff)

text \<open>The entries of a node: one of the root of the node, or one of a child.\<close>

lemma entry_child:
  assumes "1 < B" "j < n"
  shows "j div stride B n \<le> (n - 1) div stride B n" "j mod stride B n < child B n (j div stride B n)"
proof -
  show le: "j div stride B n \<le> (n - 1) div stride B n" using assms(2) by (intro div_le_mono) simp
  show "j mod stride B n < child B n (j div stride B n)"
  proof (cases "j div stride B n < (n - 1) div stride B n")
    case True
    then show ?thesis using stride_pos[OF assms(1)] by (simp add: child_def)
  next
    case False
    then have e: "j div stride B n = (n - 1) div stride B n" using le by simp
    have "stride B n * (j div stride B n) + j mod stride B n \<le> stride B n * ((n - 1) div stride B n) + (n - 1) mod stride B n"
      using assms(2) by (simp only: mult_div_mod_eq)
    then have "j mod stride B n \<le> (n - 1) mod stride B n" unfolding e by (rule add_le_imp_le_left)
    then show ?thesis using e by (simp add: child_def)
  qed
qed

lemma child_entry_less:
  assumes "1 < B" "0 < n" "c \<le> (n - 1) div stride B n" "j < child B n c"
  shows "c * stride B n + j < n"
proof (cases "c < (n - 1) div stride B n")
  case True
  then have "(c + 1) * stride B n \<le> (n - 1) div stride B n * stride B n" by (intro mult_le_mono1) simp
  also have "\<dots> \<le> n - 1" by simp
  finally show ?thesis using assms(4) True assms(2) by (simp add: child_def)
next
  case False
  then have "c * stride B n + j \<le> (n - 1) div stride B n * stride B n + (n - 1) mod stride B n"
    using assms(3,4) by (simp add: child_def)
  also have "\<dots> = n - 1" by (simp only: div_mult_mod_eq)
  finally show ?thesis using assms(2) by linarith
qed

lemma child_last:
  assumes "1 < B" "0 < n" "c = (n - 1) div stride B n"
  shows "c * stride B n + child B n c = n"
proof -
  have "c * stride B n + (n - 1) mod stride B n = n - 1" unfolding assms(3) by (simp only: div_mult_mod_eq)
  then show ?thesis using assms by (simp add: child_def)
qed

section \<open>Positions\<close>

function slot :: "nat \<Rightarrow> nat \<Rightarrow> nat \<Rightarrow> nat" where
  "slot B n j =
     (if B \<le> 1 \<or> n \<le> 1 then 0
      else if j mod stride B n = 0 then j div stride B n - 1
      else (B - 1) + j div stride B n * (stride B n - 1)
             + slot B (child B n (j div stride B n)) (j mod stride B n))"
  by pat_completeness auto
termination by (relation "measure (\<lambda>(B, n, j). n)") (auto simp: child_less)

declare slot.simps [simp del]

lemma slot_root: "1 < B \<Longrightarrow> 1 < n \<Longrightarrow> j mod stride B n = 0 \<Longrightarrow> slot B n j = j div stride B n - 1"
  by (simp add: slot.simps[of B n])

lemma slot_child:
  "1 < B \<Longrightarrow> 1 < n \<Longrightarrow> 0 < j mod stride B n \<Longrightarrow>
    slot B n j = (B - 1) + j div stride B n * (stride B n - 1)
      + slot B (child B n (j div stride B n)) (j mod stride B n)"
  by (simp add: slot.simps[of B n])

lemma slot_less:
  "1 < B \<Longrightarrow> 0 < j \<Longrightarrow> j < n \<Longrightarrow> slot B n j < B ^ ceil_log B n - 1"
proof (induction n arbitrary: j rule: less_induct)
  case (less n)
  have n: "1 < n" using less.prems by simp
  let ?S = "stride B n" and ?c = "j div stride B n"
  have S: "0 < ?S" using less.prems by (simp add: stride_pos)
  have c: "?c \<le> B - 1" using entry_child(1)[OF less.prems(1,3)] root_size_le[OF less.prems(1), of n] n by simp
  have BS: "B ^ ceil_log B n = B * ?S" using stride_mult[OF less.prems(1) n] by simp
  show ?case
  proof (cases "j mod ?S = 0")
    case True
    then have "0 < ?c" using less.prems(2) by (metis mod_0 mod_div_trivial mult_div_mod_eq add_0_right mult_0_right gr0I)
    then have "?c - 1 < B - 1" using c less.prems(1) by linarith
    also have "\<dots> \<le> B * ?S - 1" using S by (simp add: Suc_le_eq diff_le_mono)
    finally show ?thesis using slot_root[OF less.prems(1) n True] BS by simp
  next
    case False
    let ?n = "child B n ?c"
    have "slot B ?n (j mod ?S) < B ^ ceil_log B ?n - 1"
      using less.IH[OF child_less[OF less.prems(1) n] less.prems(1)] False entry_child(2)[OF less.prems(1,3)] by simp
    also have "B ^ ceil_log B ?n \<le> ?S"
    proof -
      have "ceil_log B ?n \<le> ceil_log B n - 1"
        using child_le[OF less.prems(1), of n ?c] unfolding stride_def by (rule ceil_log_least[OF less.prems(1)])
      then show ?thesis unfolding stride_def using less.prems(1) by (intro power_increasing) simp_all
    qed
    then have "B ^ ceil_log B ?n - 1 \<le> ?S - 1" by (rule diff_le_mono)
    finally have i: "slot B ?n (j mod ?S) < ?S - 1" .
    have "?c * (?S - 1) \<le> (B - 1) * (?S - 1)" using c by (rule mult_le_mono1)
    then have "slot B n j < (B - 1) + (B - 1) * (?S - 1) + (?S - 1)"
      using i slot_child[OF less.prems(1) n, of j] False by linarith
    also have "\<dots> = B * ?S - 1"
    proof -
      obtain b s where "B = Suc b" "?S = Suc s" using less.prems(1) S by (metis Suc_pred less_trans zero_less_one)
      then show ?thesis by simp
    qed
    finally show ?thesis using BS by simp
  qed
qed

text \<open>A position below a child stays inside the block of the child.\<close>

lemma slot_child_less:
  assumes "1 < B" "0 < j" "j < child B n c"
  shows "slot B (child B n c) j < stride B n - 1"
proof -
  have "ceil_log B (child B n c) \<le> ceil_log B n - 1"
    using child_le[OF assms(1), of n c] unfolding stride_def by (rule ceil_log_least[OF assms(1)])
  then have "B ^ ceil_log B (child B n c) \<le> stride B n"
    unfolding stride_def using assms(1) by (intro power_increasing) simp_all
  then show ?thesis using slot_less[OF assms] by linarith
qed

lemma block_disjoint:
  "x < s \<Longrightarrow> y < s \<Longrightarrow> c * s + x = d * s + y \<Longrightarrow> c = d \<and> x = (y :: nat)"
  by (metis add.commute div_mult_self3 div_less less_nat_zero_code mod_less mod_mult_self3 add_0_right)

lemma slot_inj:
  "1 < B \<Longrightarrow> 0 < i \<Longrightarrow> i < n \<Longrightarrow> 0 < j \<Longrightarrow> j < n \<Longrightarrow> slot B n i = slot B n j \<Longrightarrow> i = j"
proof (induction n arbitrary: i j rule: less_induct)
  case (less n)
  have n: "1 < n" using less.prems by simp
  have B: "1 < B" by (rule less.prems)
  let ?S = "stride B n"
  have S: "0 < ?S" using B by (simp add: stride_pos)
  have c: "k div ?S \<le> B - 1" if "k < n" for k
    using entry_child(1)[OF B that] root_size_le[OF B, of n] n by simp
  have pos: "0 < k div ?S" if "0 < k" "k mod ?S = 0" for k
    using that by (metis mult_div_mod_eq add_0_right mult_0_right gr0I not_less_zero)
  have eq: "i = j" if "i div ?S = j div ?S" "i mod ?S = j mod ?S"
    using that by (metis mult_div_mod_eq)
  consider "i mod ?S = 0" "j mod ?S = 0" | "i mod ?S = 0" "0 < j mod ?S"
    | "0 < i mod ?S" "j mod ?S = 0" | "0 < i mod ?S" "0 < j mod ?S" by linarith
  then show ?case
  proof cases
    case 1
    then have "i div ?S - 1 = j div ?S - 1" using less.prems slot_root[OF B n] by simp
    then show ?thesis using pos[of i] pos[of j] 1 less.prems eq by linarith
  next
    case 2
    then have "slot B n i < B - 1" using slot_root[OF B n 2(1)] pos[of i] c[of i] less.prems by linarith
    then show ?thesis using slot_child[OF B n 2(2)] less.prems(6) by linarith
  next
    case 3
    then have "slot B n j < B - 1" using slot_root[OF B n 3(2)] pos[of j] c[of j] less.prems by linarith
    then show ?thesis using slot_child[OF B n 3(1)] less.prems(6) by linarith
  next
    case 4
    have e: "i div ?S * (?S - 1) + slot B (child B n (i div ?S)) (i mod ?S)
        = j div ?S * (?S - 1) + slot B (child B n (j div ?S)) (j mod ?S)"
      using less.prems(6) slot_child[OF B n 4(1)] slot_child[OF B n 4(2)] by linarith
    have ch: "i mod ?S < child B n (i div ?S)" "j mod ?S < child B n (j div ?S)"
      using entry_child(2)[OF B] less.prems by blast+
    note ds = block_disjoint[OF slot_child_less[OF B 4(1) ch(1)] slot_child_less[OF B 4(2) ch(2)] e]
    have d: "i div ?S = j div ?S" using ds by (rule conjunct1)
    have s: "slot B (child B n (i div ?S)) (i mod ?S) = slot B (child B n (j div ?S)) (j mod ?S)"
      using ds by (rule conjunct2)
    have "i mod ?S = j mod ?S"
      using less.IH[OF child_less[OF B n, of "i div ?S"] B 4(1) ch(1)] 4(2) ch(2) s d by simp
    then show ?thesis using eq d by simp
  qed
qed

text \<open>The separator at position \<open>i\<close> of the root of a node, and those of a child.\<close>

lemma slot_of_root:
  "1 < B \<Longrightarrow> 1 < n \<Longrightarrow> slot B n (Suc i * stride B n) = i"
  using slot_root[of B n "Suc i * stride B n"] stride_pos[of B n] by simp

lemma slot_of_child:
  assumes "1 < B" "1 < n" "0 < j" "j < child B n c"
  shows "slot B n (c * stride B n + j) = (B - 1) + c * (stride B n - 1) + slot B (child B n c) j"
proof -
  have "j < stride B n" using assms child_le[OF assms(1), of n c] by linarith
  then have "(c * stride B n + j) div stride B n = c" "(c * stride B n + j) mod stride B n = j"
    using stride_pos[OF assms(1), of n] by simp_all
  then show ?thesis using slot_child[OF assms(1,2), of "c * stride B n + j"] assms(3) by simp
qed

section \<open>The table of the rightmost subtrees\<close>

function rightmost_ok :: "nat \<Rightarrow> (nat \<times> nat) list \<Rightarrow> nat \<Rightarrow> bool" where
  "rightmost_ok B rm n =
     (if B \<le> 1 \<or> n \<le> 1 then True
      else rm ! (ceil_log B n - 1)
             = ((n - 1) div stride B n, ceil_log B (child B n ((n - 1) div stride B n)))
           \<and> rightmost_ok B rm (child B n ((n - 1) div stride B n)))"
  by pat_completeness auto
termination by (relation "measure (\<lambda>(B, rm, n). n)") (auto intro: child_less[simplified])

declare rightmost_ok.simps [simp del]

lemma child_height_less: "1 < B \<Longrightarrow> 1 < n \<Longrightarrow> ceil_log B (child B n c) < ceil_log B n"
proof -
  assume B: "1 < B" and n: "1 < n"
  have "ceil_log B (child B n c) \<le> ceil_log B n - 1"
    using child_le[OF B, of n c] unfolding stride_def by (rule ceil_log_least[OF B])
  then show ?thesis using height_pos[OF B, of n] n by linarith
qed

lemma rightmost_ok_update:
  "1 < B \<Longrightarrow> ceil_log B n \<le> i \<Longrightarrow> rightmost_ok B (rm[i := x]) n = rightmost_ok B rm n"
proof (induction n rule: less_induct)
  case (less n)
  show ?case
  proof (cases "n \<le> 1")
    case True
    then show ?thesis by (simp add: rightmost_ok.simps)
  next
    case False
    let ?c = "child B n ((n - 1) div stride B n)"
    have h: "0 < ceil_log B n" using height_pos[of B n] less.prems(1) False by simp
    have "rightmost_ok B (rm[i := x]) ?c = rightmost_ok B rm ?c"
      using less.IH[OF child_less] child_height_less[of B n "(n - 1) div stride B n"] less.prems False by simp
    moreover have "rm[i := x] ! (ceil_log B n - 1) = rm ! (ceil_log B n - 1)"
      using h less.prems(2) by (intro nth_list_update_neq) linarith
    ultimately show ?thesis by (simp add: rightmost_ok.simps[of B _ n])
  qed
qed

lemma rightmost_ok_step:
  assumes "1 < B" "1 < n" "rightmost_ok B rm n"
  shows "rm ! (ceil_log B n - 1) = ((n - 1) div stride B n, ceil_log B (child B n ((n - 1) div stride B n)))"
    and "rightmost_ok B rm (child B n ((n - 1) div stride B n))"
  using assms by (simp_all add: rightmost_ok.simps[of B rm n])

text \<open>
  The numbers of entries whose height a (re)build of \<open>n\<close> segments computes: those of the tree and of its rightmost
  subtrees. The index is built right when the expression of the code rounds to the exact height for each of them.
\<close>

function index_sizes :: "nat \<Rightarrow> nat \<Rightarrow> nat list" where
  "index_sizes B n = (if B \<le> 1 \<or> n \<le> 1 then [n] else n # index_sizes B (child B n ((n - 1) div stride B n)))"
  by pat_completeness auto
termination by (relation "measure (\<lambda>(B, n). n)") (auto intro: child_less[simplified])

declare index_sizes.simps [simp del]

definition heights_exact :: "(nat \<Rightarrow> nat \<Rightarrow> nat) \<Rightarrow> nat \<Rightarrow> nat \<Rightarrow> bool" where
  "heights_exact levels B n \<longleftrightarrow> (\<forall>m \<in> set (index_sizes B n). levels B m = ceil_log B m)"

lemma heights_exact_ceil_log [simp]: "heights_exact ceil_log B n"
  by (simp add: heights_exact_def)

lemma heights_exact_root: "heights_exact levels B n \<Longrightarrow> levels B n = ceil_log B n"
  by (simp add: heights_exact_def index_sizes.simps[of B n] split: if_splits)

lemma heights_exact_child:
  "1 < B \<Longrightarrow> 1 < n \<Longrightarrow> heights_exact levels B n \<Longrightarrow> heights_exact levels B (child B n ((n - 1) div stride B n))"
  by (simp add: heights_exact_def index_sizes.simps[of B n])

lemma set_rightmost_ok:
  "1 < B \<Longrightarrow> B < 2 ^ 16 \<Longrightarrow> ceil_log B n \<le> length rm \<Longrightarrow> heights_exact levels B n \<Longrightarrow>
    \<exists>rm'. set_rightmost levels B rm n (ceil_log B n) = Some rm' \<and> length rm' = length rm \<and> rightmost_ok B rm' n
      \<and> (\<forall>i. ceil_log B n \<le> i \<longrightarrow> rm' ! i = rm ! i)"
proof (induction n arbitrary: rm rule: less_induct)
  case (less n)
  note B = less.prems(1)
  show ?case
  proof (cases "n \<le> 1")
    case True
    then have "ceil_log B n = 0" using height_pos[OF B, of n] by simp
    then show ?thesis using True by (simp add: set_rightmost.simps rightmost_ok.simps)
  next
    case False
    then have n: "1 < n" by simp
    let ?r = "(n - 1) div stride B n" and ?h = "ceil_log B n"
    let ?c = "child B n ?r"
    let ?n = "if (n - 1) mod stride B n = 0 then 0 else (n - 1) mod stride B n + 1"
    have h: "0 < ?h" using height_pos[OF B] n by simp
    have ex: "heights_exact levels B ?c" by (rule heights_exact_child[OF B n less.prems(4)])
    have r: "0 < ?r" "?r mod 2 ^ 16 = ?r"
      using root_size_pos[OF B n] root_size_le[OF B, of n] n less.prems(2) by simp_all
    have c: "?c = (n - 1) mod stride B n + 1" by (simp add: child_def)
    have hn: "(if (n - 1) mod stride B n = 0 then 0 else levels B ?n) = ceil_log B ?c"
      using c heights_exact_root[OF ex] by (simp add: ceil_log.simps[of B "Suc 0"])
    let ?rm = "rm[?h - 1 := (?r, ceil_log B ?c)]"
    have step: "set_rightmost levels B rm n ?h = set_rightmost levels B ?rm ?n (ceil_log B ?c)"
      using h r hn less.prems(3) unfolding set_rightmost.simps[of levels B rm n ?h] Let_def stride_def[symmetric] by simp
    have same: "set_rightmost levels B ?rm ?n (ceil_log B ?c) = set_rightmost levels B ?rm ?c (ceil_log B ?c)"
    proof (cases "(n - 1) mod stride B n = 0")
      case True
      then have "ceil_log B ?c = 0" using c by (simp add: ceil_log.simps[of B "Suc 0"])
      then show ?thesis by (simp add: set_rightmost.simps)
    next
      case False
      then have "?n = ?c" using c by simp
      then show ?thesis by (rule arg_cong)
    qed
    have ch: "ceil_log B ?c < ?h" by (rule child_height_less[OF B n])
    obtain rm' where rm': "set_rightmost levels B ?rm ?c (ceil_log B ?c) = Some rm'" "length rm' = length rm"
        "rightmost_ok B rm' ?c" "\<forall>i. ceil_log B ?c \<le> i \<longrightarrow> rm' ! i = ?rm ! i"
      using less.IH[OF child_less[OF B n] B less.prems(2), of ?r ?rm] ch less.prems(3) ex by auto
    have "rm' ! (?h - 1) = (?r, ceil_log B ?c)"
      using rm'(4) ch h less.prems(3) by simp
    then have ok: "rightmost_ok B rm' n" using rm'(3) n B by (simp add: rightmost_ok.simps[of B rm' n])
    have "rm' ! i = rm ! i" if "?h \<le> i" for i
    proof -
      have "rm' ! i = ?rm ! i" using rm'(4) ch that by simp
      also have "\<dots> = rm ! i" using that h by (intro nth_list_update_neq) linarith
      finally show ?thesis .
    qed
    then show ?thesis using step same rm'(1,2) ok by simp
  qed
qed

text \<open>The assertion of the code fails when one of the heights is rounded up.\<close>

lemma set_rightmost_rounded:
  assumes B: "1 < B" and lv: "levels B 1 = 0" "\<forall>m. levels B m = ceil_log B m \<or> levels B m = ceil_log B m + 1"
  shows "0 < n \<Longrightarrow> \<not> heights_exact levels B n \<Longrightarrow> set_rightmost levels B rm n (levels B n) = None"
proof (induction n arbitrary: rm rule: less_induct)
  case (less n)
  have n: "1 < n"
  proof (rule ccontr)
    assume "\<not> 1 < n"
    then have "n = 1" using less.prems(1) by simp
    then show False using less.prems(2) lv(1) by (simp add: heights_exact_def index_sizes.simps ceil_log.simps)
  qed
  show ?case
  proof (cases "levels B n = ceil_log B n")
    case False
    then have l: "levels B n = Suc (ceil_log B n)" using lv(2) by (metis Suc_eq_plus1)
    have "n - 1 < B ^ ceil_log B n" using ceil_log_upper[OF B, of n] n by linarith
    then show ?thesis by (simp add: l set_rightmost.simps[of levels B rm n])
  next
    case True
    let ?r = "(n - 1) div stride B n" and ?h = "ceil_log B n"
    let ?c = "child B n ?r"
    let ?n = "if (n - 1) mod stride B n = 0 then 0 else (n - 1) mod stride B n + 1"
    have h: "0 < ?h" using height_pos[OF B] n by simp
    have c: "?c = (n - 1) mod stride B n + 1" by (simp add: child_def)
    have bad: "\<not> heights_exact levels B ?c"
      using less.prems(2) True n B by (simp add: heights_exact_def index_sizes.simps[of B n])
    have nz: "(n - 1) mod stride B n \<noteq> 0"
    proof
      assume "(n - 1) mod stride B n = 0"
      then show False using bad c lv(1) by (simp add: heights_exact_def index_sizes.simps ceil_log.simps)
    qed
    have "set_rightmost levels B rm' ?c (levels B ?c) = None" for rm'
      by (rule less.IH[OF child_less[OF B n]]) (use bad c in simp_all)
    then show ?thesis unfolding True set_rightmost.simps[of levels B rm n ?h] Let_def stride_def[symmetric]
      using h nz c by simp
  qed
qed

text \<open>
  The quotient of the two rounded logarithms can only pass the exact height when it should be a whole number: for
  the powers of the node size. It is exact when both are powers of two, whose logarithms are not rounded.
  Node sizes are kept in 16 bits and the numbers of segments in 31.
\<close>

definition quotient_law :: "(nat \<Rightarrow> nat \<Rightarrow> nat) \<Rightarrow> bool" where
  "quotient_law levels \<longleftrightarrow>
     (\<forall>B m. 1 < B \<longrightarrow> B < 2 ^ 16 \<longrightarrow> 0 < m \<longrightarrow> m < 2 ^ 31 \<longrightarrow> (\<forall>h. m \<noteq> B ^ h) \<or> m \<le> B \<or> (\<exists>i j. B = 2 ^ i \<and> m = 2 ^ j) \<longrightarrow> levels B m = ceil_log B m)"

lemma index_sizes_pos: "m \<in> set (index_sizes B n) \<Longrightarrow> 0 < n \<Longrightarrow> 0 < m"
proof (induction B n rule: index_sizes.induct)
  case (1 B n)
  then show ?case by (auto simp: index_sizes.simps[of B n] child_def split: if_splits)
qed

lemma index_sizes_le:
  assumes "1 < B"
  shows "m \<in> set (index_sizes B n) \<Longrightarrow> m \<le> n"
proof (induction n rule: less_induct)
  case (less n)
  show ?case
  proof (cases "n \<le> 1 \<or> m = n")
    case False
    let ?c = "child B n ((n - 1) div stride B n)"
    have c: "?c < n" using child_less[OF assms] False by simp
    have "m \<in> set (index_sizes B ?c)" using less.prems False assms by (auto simp: index_sizes.simps[of B n])
    from less.IH[OF c this] c show ?thesis by simp
  qed (use less.prems in \<open>auto simp: index_sizes.simps\<close>)
qed

lemma index_sizes_power:
  assumes "1 < B" and "0 < n" and "B ^ h \<in> set (index_sizes B n)"
  shows "B ^ h dvd n"
  using assms(2,3)
proof (induction n rule: less_induct)
  case (less n)
  show ?case
  proof (cases "n \<le> 1 \<or> B ^ h = n")
    case True
    then show ?thesis using less.prems by (auto simp: index_sizes.simps)
  next
    case False
    then have n: "1 < n" by simp
    let ?c = "child B n ((n - 1) div stride B n)"
    have c: "?c = (n - 1) mod stride B n + 1" by (simp add: child_def)
    have m: "B ^ h \<in> set (index_sizes B ?c)" using less.prems False assms(1) by (auto simp: index_sizes.simps[of B n])
    have d: "B ^ h dvd ?c" by (rule less.IH[OF child_less[OF assms(1) n] _ m]) (unfold c, simp)
    have "B ^ h \<le> ?c" by (rule dvd_imp_le[OF d]) (unfold c, simp)
    also have "?c \<le> stride B n" using child_le[OF assms(1), of n] by simp
    finally have "h \<le> ceil_log B n - 1" using assms(1) by (simp add: stride_def)
    then have s: "B ^ h dvd stride B n" by (simp add: stride_def le_imp_power_dvd)
    have "n = stride B n * ((n - 1) div stride B n) + ?c" using n unfolding c by simp
    then show ?thesis using s d by (metis dvd_add dvd_mult2)
  qed
qed

lemma dvd_two_power: "(B :: nat) dvd 2 ^ a \<Longrightarrow> \<exists>i. B = 2 ^ i"
proof (induction a arbitrary: B)
  case (Suc a)
  show ?case
  proof (cases "even B")
    case True
    then obtain C where C: "B = 2 * C" by (elim evenE)
    then have "C dvd 2 ^ a" using Suc.prems by simp
    then obtain i where "C = 2 ^ i" using Suc.IH by blast
    then have "B = 2 ^ Suc i" using C by simp
    then show ?thesis by blast
  next
    case False
    then have "coprime B 2" by (simp add: coprime_right_2_iff_odd)
    then have "B dvd 2 ^ a" using Suc.prems by (simp add: coprime_dvd_mult_right_iff)
    then show ?thesis by (rule Suc.IH)
  qed
qed (auto intro: exI[of _ 0])

text \<open>So the heights are exact whenever the number of segments is a power of two, whatever the node size.\<close>

lemma heights_exact_pow2:
  assumes "quotient_law levels" and "1 < B" and "B < 2 ^ 16" and "(2 :: nat) ^ a < 2 ^ 31"
  shows "heights_exact levels B (2 ^ a)"
  unfolding heights_exact_def
proof
  fix m assume m: "m \<in> set (index_sizes B (2 ^ a))"
  have pos: "0 < m" by (rule index_sizes_pos[OF m]) simp
  have less: "m < 2 ^ 31" using index_sizes_le[OF assms(2) m] assms(4) by linarith
  show "levels B m = ceil_log B m"
  proof (cases "\<exists>h. m = B ^ h")
    case True
    then obtain h where h: "m = B ^ h" by blast
    have "B ^ h dvd 2 ^ a" by (rule index_sizes_power[OF assms(2)]) (use m h in simp_all)
    show ?thesis
    proof (cases h)
      case 0
      then show ?thesis using assms(1-3) h unfolding quotient_law_def by simp
    next
      case (Suc k)
      then have "B dvd 2 ^ a" using \<open>B ^ h dvd 2 ^ a\<close> by (metis dvd_trans dvd_triv_left power_Suc)
      then obtain i where "B = 2 ^ i" using dvd_two_power by blast
      moreover from this have "m = 2 ^ (i * h)" by (simp add: h power_mult)
      ultimately show ?thesis using assms(1-3) pos less unfolding quotient_law_def by blast
    qed
  qed (use assms(1-3) pos less in \<open>auto simp: quotient_law_def\<close>)
qed

section \<open>Descents\<close>

text \<open>The state of a descent that stands at a node of \<open>n\<close> entries.\<close>

definition at_node :: "StaticIndex \<Rightarrow> nat \<Rightarrow> bool \<Rightarrow> nat \<Rightarrow> nat \<Rightarrow> bool" where
  "at_node idx height rightmost subtree_sz n \<longleftrightarrow>
     0 < n \<and> height = ceil_log (m_node_size idx) n \<and> subtree_sz = pow_height (m_node_size idx) height \<and>
     (if rightmost then rightmost_ok (m_node_size idx) (m_rightmost idx) n else n = m_node_size idx ^ height)"

lemma at_node_stride:
  "at_node idx h r s n \<Longrightarrow> 0 < h \<Longrightarrow> s = stride (m_node_size idx) n"
  by (simp add: at_node_def pow_height_def stride_def)

lemma full_node:
  fixes B h :: nat
  assumes "1 < B" "0 < h"
  shows "(B ^ h - 1) div B ^ (h - 1) = B - 1" "(B ^ h - 1) mod B ^ (h - 1) = B ^ (h - 1) - 1"
proof -
  define S where "S = B ^ (h - 1)"
  have S: "0 < S" using assms by (simp add: S_def)
  have e: "B ^ h - 1 = (B - 1) * S + (S - 1)"
  proof -
    have "B ^ h = B * S" using assms by (simp add: S_def power_eq_if)
    also have "\<dots> = (B - 1) * S + S" using assms(1) by (cases B) simp_all
    finally show ?thesis using S by simp
  qed
  show "(B ^ h - 1) div B ^ (h - 1) = B - 1" "(B ^ h - 1) mod B ^ (h - 1) = B ^ (h - 1) - 1"
  proof -
    obtain t where t: "S = Suc t" using S by (cases S) auto
    show "(B ^ h - 1) div B ^ (h - 1) = B - 1" "(B ^ h - 1) mod B ^ (h - 1) = B ^ (h - 1) - 1"
      unfolding S_def[symmetric] e t by (simp_all del: mult_Suc_right)
  qed
qed

lemma stride_power: "1 < B \<Longrightarrow> stride B (B ^ h) = B ^ (h - 1)"
  by (simp only: stride_def ceil_log_power)

lemma at_node_root_size:
  assumes "at_node idx h r s n" "0 < h" "1 < m_node_size idx"
  shows "(if r then fst (m_rightmost idx ! (h - 1)) else m_node_size idx - 1)
    = (n - 1) div stride (m_node_size idx) n"
proof (cases r)
  case True
  have h: "h = ceil_log (m_node_size idx) n" using assms(1) by (simp add: at_node_def)
  have "1 < n" using height_pos[OF assms(3), of n] assms(2) h by simp
  moreover have "rightmost_ok (m_node_size idx) (m_rightmost idx) n"
    using assms(1) True by (simp add: at_node_def)
  ultimately show ?thesis using True rightmost_ok_step(1)[OF assms(3)] h by simp
next
  case False
  then have n: "n = m_node_size idx ^ h" using assms(1) by (metis at_node_def)
  show ?thesis unfolding n stride_power[OF assms(3)] full_node(1)[OF assms(3,2)] using False by simp
qed

lemma descend_node:
  assumes at: "at_node idx h r s n" and h: "0 < h" and B: "1 < m_node_size idx"
    and c: "c \<le> (n - 1) div stride (m_node_size idx) n"
    and d: "descend idx h s r c = (h', r', s')"
  shows "at_node idx h' r' s' (child (m_node_size idx) n c)"
proof -
  let ?B = "m_node_size idx"
  have hn: "h = ceil_log ?B n" "0 < n" using at by (simp_all add: at_node_def)
  have n: "1 < n" using height_pos[OF B, of n] h hn by simp
  have s: "s = stride ?B n" using at_node_stride[OF at h] .
  have pos: "0 < child ?B n c" by (rule child_pos[OF B])
  show ?thesis
  proof (cases "r \<and> fst (m_rightmost idx ! (h - 1)) \<le> c")
    case True
    then have rm: "rightmost_ok ?B (m_rightmost idx) n" using at by (simp add: at_node_def)
    note rs = rightmost_ok_step[OF B n rm]
    have e: "c = (n - 1) div stride ?B n" using True rs(1) hn c by simp
    show ?thesis using True d rs hn pos unfolding e by (auto simp: descend_def at_node_def Let_def)
  next
    case False
    have full: "child ?B n c = stride ?B n"
    proof (cases r)
      case True
      then have rm: "rightmost_ok ?B (m_rightmost idx) n" using at by (simp add: at_node_def)
      have "c < (n - 1) div stride ?B n" using False True rightmost_ok_step(1)[OF B n rm] hn by simp
      then show ?thesis by (simp add: child_def)
    next
      case False
      then have e: "n = ?B ^ h" using at by (metis at_node_def)
      have "(n - 1) mod stride ?B n = stride ?B n - 1"
        unfolding e stride_power[OF B] by (rule full_node(2)[OF B h])
      then show ?thesis using stride_pos[OF B, of n] by (simp add: child_def)
    qed
    have e: "h' = h - 1" "r' = False" "s' = s div ?B" using d False by (auto simp: descend_def)
    have S: "stride ?B n = ?B ^ (h - 1)" using hn by (simp add: stride_def)
    have "?B ^ (h - 1) div ?B = pow_height ?B (h - 1)"
    proof (cases "h - 1")
      case (Suc k)
      then show ?thesis using B by (simp only: pow_height_def power_Suc nonzero_mult_div_cancel_left) simp
    qed (use B in \<open>simp add: pow_height_def\<close>)
    then have "s div ?B = pow_height ?B (h - 1)" unfolding s S .
    then show ?thesis using e full S B by (simp add: at_node_def ceil_log_power)
  qed
qed

lemma get_slot_loop_slot:
  "1 < m_node_size idx \<Longrightarrow> at_node idx h r s n \<Longrightarrow> 0 < j \<Longrightarrow> j < n \<Longrightarrow>
    get_slot_loop idx base j h r s = Some (base + slot (m_node_size idx) n j)"
proof (induction n arbitrary: base j h r s rule: less_induct)
  case (less n)
  let ?B = "m_node_size idx"
  note B = less.prems(1) and at = less.prems(2)
  have n: "1 < n" using less.prems by simp
  have h: "0 < h" using at height_pos[OF B, of n] n by (simp add: at_node_def)
  have s: "s = stride ?B n" using at_node_stride[OF at h] .
  show ?case
  proof (cases "j mod s = 0")
    case True
    then have "0 < j div s" using less.prems(3) by (metis mult_div_mod_eq add_0_right mult_0_right gr0I not_less_zero)
    then show ?thesis using True h slot_root[OF B n, of j] s by (simp add: get_slot_loop.simps)
  next
    case False
    obtain h' r' s' where d: "descend idx h s r (j div s) = (h', r', s')" by (metis prod_cases3)
    have e: "j div s \<le> (n - 1) div stride ?B n" "j mod s < child ?B n (j div s)"
      using entry_child[OF B less.prems(4)] s by simp_all
    have "get_slot_loop idx (base + (?B - 1) + j div s * (s - 1)) (j mod s) h' r' s'
        = Some (base + (?B - 1) + j div s * (s - 1) + slot ?B (child ?B n (j div s)) (j mod s))"
      using less.IH[OF child_less[OF B n] B descend_node[OF at h B e(1) d]] False e(2) by simp
    moreover have "j - j div s * s = j mod s" by (rule minus_div_mult_eq_mod)
    moreover have "slot ?B n j = (?B - 1) + j div s * (s - 1) + slot ?B (child ?B n (j div s)) (j mod s)"
      using slot_child[OF B n, of j] False s by simp
    ultimately show ?thesis
      unfolding get_slot_loop.simps[of idx base j h r s] Let_def using False h d by simp
  qed
qed

section \<open>Searches\<close>

text \<open>A scan of a node finds how many of its keys satisfy \<open>P\<close>, when those come first.\<close>

definition scan_spec :: "(int \<Rightarrow> bool) \<Rightarrow> (int list \<Rightarrow> nat \<Rightarrow> nat \<Rightarrow> nat option) \<Rightarrow> bool" where
  "scan_spec P scan \<longleftrightarrow> (\<forall>keys base sz. base + sz \<le> length keys \<longrightarrow>
     (\<forall>i j. i < j \<longrightarrow> j < sz \<longrightarrow> P (keys ! (base + j)) \<longrightarrow> P (keys ! (base + i))) \<longrightarrow>
     (\<exists>c \<le> sz. scan keys base sz = Some c \<and> (\<forall>i < c. P (keys ! (base + i)))
        \<and> (\<forall>i. c \<le> i \<longrightarrow> i < sz \<longrightarrow> \<not> P (keys ! (base + i)))))"

lemma scan_up_result:
  "base + i + n \<le> length keys \<Longrightarrow> (\<forall>k < i. P (keys ! (base + k))) \<Longrightarrow>
    \<exists>c. scan_up P keys base n i = Some c \<and> i \<le> c \<and> c \<le> i + n \<and> (\<forall>k < c. P (keys ! (base + k)))
      \<and> (c < i + n \<longrightarrow> \<not> P (keys ! (base + c)))"
proof (induction n arbitrary: i)
  case (Suc n)
  show ?case
  proof (cases "P (keys ! (base + i))")
    case True
    then have "\<forall>k < i + 1. P (keys ! (base + k))" using Suc.prems(2) by (simp add: less_Suc_eq)
    then obtain c where "scan_up P keys base n (i + 1) = Some c" "i + 1 \<le> c" "c \<le> i + 1 + n"
        "\<forall>k < c. P (keys ! (base + k))" "c < i + 1 + n \<longrightarrow> \<not> P (keys ! (base + c))"
      using Suc.IH[of "i + 1"] Suc.prems(1) by auto
    then show ?thesis using True Suc.prems(1) by (intro exI[of _ c]) auto
  next
    case False
    then show ?thesis using Suc.prems by (intro exI[of _ i]) auto
  qed
qed simp

lemma scan_down_result:
  "base + n \<le> length keys \<Longrightarrow>
    \<exists>c \<le> n. scan_down P keys base n = Some c \<and> (\<forall>k. c \<le> k \<longrightarrow> k < n \<longrightarrow> \<not> P (keys ! (base + k)))
      \<and> (0 < c \<longrightarrow> P (keys ! (base + (c - 1))))"
proof (induction n)
  case (Suc n)
  show ?case
  proof (cases "P (keys ! (base + n))")
    case True
    then show ?thesis using Suc.prems by (intro exI[of _ "Suc n"]) auto
  next
    case False
    obtain c where "c \<le> n" "scan_down P keys base n = Some c"
        "\<forall>k. c \<le> k \<longrightarrow> k < n \<longrightarrow> \<not> P (keys ! (base + k))" "0 < c \<longrightarrow> P (keys ! (base + (c - 1)))"
      using Suc.IH Suc.prems by auto
    then show ?thesis using False Suc.prems by (intro exI[of _ c]) (auto simp: less_Suc_eq)
  qed
qed simp

lemma scan_up_spec: "scan_spec P (\<lambda>keys base sz. scan_up P keys base sz 0)"
  unfolding scan_spec_def
proof (intro allI impI)
  fix keys :: "int list" and base sz
  assume b: "base + sz \<le> length keys"
    and mono: "\<forall>i j. i < j \<longrightarrow> j < sz \<longrightarrow> P (keys ! (base + j)) \<longrightarrow> P (keys ! (base + i))"
  obtain c where c: "scan_up P keys base sz 0 = Some c" "c \<le> sz" "\<forall>k < c. P (keys ! (base + k))"
      "c < sz \<longrightarrow> \<not> P (keys ! (base + c))"
    using scan_up_result[of base 0 sz keys P] b by auto
  have "\<not> P (keys ! (base + i))" if "c \<le> i" "i < sz" for i
    using mono[rule_format, of c i] c(4) that by (cases "c = i") auto
  then show "\<exists>c\<le>sz. scan_up P keys base sz 0 = Some c \<and> (\<forall>i<c. P (keys ! (base + i)))
      \<and> (\<forall>i. c \<le> i \<longrightarrow> i < sz \<longrightarrow> \<not> P (keys ! (base + i)))"
    using c by blast
qed

lemma scan_down_spec: "scan_spec P (scan_down P)"
  unfolding scan_spec_def
proof (intro allI impI)
  fix keys :: "int list" and base sz
  assume b: "base + sz \<le> length keys"
    and mono: "\<forall>i j. i < j \<longrightarrow> j < sz \<longrightarrow> P (keys ! (base + j)) \<longrightarrow> P (keys ! (base + i))"
  obtain c where c: "c \<le> sz" "scan_down P keys base sz = Some c"
      "\<forall>k. c \<le> k \<longrightarrow> k < sz \<longrightarrow> \<not> P (keys ! (base + k))" "0 < c \<longrightarrow> P (keys ! (base + (c - 1)))"
    using scan_down_result[OF b] by blast
  have "P (keys ! (base + i))" if "i < c" for i
    using mono[rule_format, of i "c - 1"] c(1,4) that by (cases "i = c - 1") auto
  then show "\<exists>c\<le>sz. scan_down P keys base sz = Some c \<and> (\<forall>i<c. P (keys ! (base + i)))
      \<and> (\<forall>i. c \<le> i \<longrightarrow> i < sz \<longrightarrow> \<not> P (keys ! (base + i)))"
    using c by blast
qed

lemma node_scans:
  "scan_spec (\<lambda>x. x \<le> k) (node_le k)" "scan_spec (\<lambda>x. x < k) (node_lt k)" "scan_spec (\<lambda>x. x \<le> k) (node_gt k)"
  using scan_up_spec[of "\<lambda>x. x \<le> k"] scan_up_spec[of "\<lambda>x. x < k"] scan_down_spec[of "\<lambda>x. x \<le> k"]
  by (simp_all add: scan_spec_def node_le_def node_lt_def node_gt_def)

lemma child_block:
  assumes B: "1 < B" and n: "1 < n" and c: "c \<le> (n - 1) div stride B n"
  shows "(B - 1) + c * (stride B n - 1) + (B ^ ceil_log B (child B n c) - 1) \<le> B ^ ceil_log B n - 1"
proof -
  let ?S = "stride B n"
  have S: "0 < ?S" by (rule stride_pos[OF B])
  have "ceil_log B (child B n c) \<le> ceil_log B n - 1"
    using child_le[OF B, of n c] unfolding stride_def by (rule ceil_log_least[OF B])
  then have "B ^ ceil_log B (child B n c) \<le> ?S"
    unfolding stride_def using B by (intro power_increasing) simp_all
  moreover have "c * (?S - 1) \<le> (B - 1) * (?S - 1)"
    using c root_size_le[OF B, of n] n by (intro mult_le_mono1) linarith
  ultimately have "(B - 1) + c * (?S - 1) + (B ^ ceil_log B (child B n c) - 1)
      \<le> (B - 1) + (B - 1) * (?S - 1) + (?S - 1)" by linarith
  also have "\<dots> = B * ?S - 1"
  proof -
    obtain b s where "B = Suc b" "?S = Suc s" using B S by (metis Suc_pred less_trans zero_less_one)
    then show ?thesis by simp
  qed
  finally show ?thesis using stride_mult[OF B n] by simp
qed

lemma find_loop_prefix:
  assumes "scan_spec P scan" "1 < m_node_size idx"
  shows "at_node idx h rr s n \<Longrightarrow> base + (m_node_size idx ^ ceil_log (m_node_size idx) n - 1) \<le> length (m_keys idx) \<Longrightarrow>
    (\<And>i j. 0 < i \<Longrightarrow> i < j \<Longrightarrow> j < n \<Longrightarrow> P (m_keys idx ! (base + slot (m_node_size idx) n j))
       \<Longrightarrow> P (m_keys idx ! (base + slot (m_node_size idx) n i))) \<Longrightarrow>
    \<exists>r < n. find_loop scan idx base off h rr s = Some (off + r)
      \<and> (\<forall>j. 0 < j \<longrightarrow> j \<le> r \<longrightarrow> P (m_keys idx ! (base + slot (m_node_size idx) n j)))
      \<and> (\<forall>j. r < j \<longrightarrow> j < n \<longrightarrow> \<not> P (m_keys idx ! (base + slot (m_node_size idx) n j)))"
proof (induction n arbitrary: base off h rr s rule: less_induct)
  case (less n)
  let ?B = "m_node_size idx"
  let ?key = "\<lambda>j. m_keys idx ! (base + slot ?B n j)"
  note at = less.prems(1) and B = assms(2) and mono = less.prems(3)
  have n0: "0 < n" and hn: "h = ceil_log ?B n" using at by (simp_all add: at_node_def)
  show ?case
  proof (cases "n = 1")
    case True
    then have "h = 0" using hn height_pos[OF B, of n] by simp
    then show ?thesis using True by (simp add: find_loop.simps)
  next
    case False
    then have n: "1 < n" using n0 by simp
    have h: "0 < h" using hn height_pos[OF B, of n] n by simp
    have s: "s = stride ?B n" using at_node_stride[OF at h] .
    let ?R = "(n - 1) div s"
    have inside: "Suc i * s < n" if "i < ?R" for i
    proof -
      have "Suc i * s \<le> ?R * s" using that by (intro mult_le_mono1) simp
      also have "\<dots> \<le> n - 1" by simp
      finally show ?thesis using n by linarith
    qed
    have rk: "m_keys idx ! (base + i) = ?key (Suc i * s)" for i
      using slot_of_root[OF B n, of i] s by simp
    have s0: "0 < s" using stride_pos[OF B] s by simp
    have len: "base + ?R \<le> length (m_keys idx)"
    proof -
      have "?R \<le> ?B - 1" using root_size_le[OF B n0] s by simp
      also have "\<dots> \<le> ?B ^ ceil_log ?B n - 1"
        using B h hn self_le_power[of ?B h] by (intro diff_le_mono) simp
      finally show ?thesis using less.prems(2) by linarith
    qed
    have nm: "P (m_keys idx ! (base + i))" if "i < j" "j < ?R" "P (m_keys idx ! (base + j))" for i j
      using mono[of "Suc i * s" "Suc j * s"] inside[OF that(2)] that s0 unfolding rk[of i] rk[of j] by simp
    have sc: "\<exists>c \<le> ?R. scan (m_keys idx) base ?R = Some c \<and> (\<forall>i < c. P (m_keys idx ! (base + i)))
        \<and> (\<forall>i. c \<le> i \<longrightarrow> i < ?R \<longrightarrow> \<not> P (m_keys idx ! (base + i)))"
      using assms(1) len nm unfolding scan_spec_def by blast
    then obtain c where c: "c \<le> ?R" "scan (m_keys idx) base ?R = Some c"
      and c3: "\<forall>i < c. P (m_keys idx ! (base + i))"
      and c4: "\<forall>i. c \<le> i \<longrightarrow> i < ?R \<longrightarrow> \<not> P (m_keys idx ! (base + i))" by blast
    have below: "P (?key (Suc i * s))" if "i < c" for i using c3 that unfolding rk[of i, symmetric] by blast
    have above: "\<not> P (?key (Suc i * s))" if "c \<le> i" "i < ?R" for i
      using c4 that unfolding rk[of i, symmetric] by blast
    obtain h' r' s' where d: "descend idx h s rr c = (h', r', s')" by (metis prod_cases3)
    let ?n = "child ?B n c" and ?base = "base + (?B - 1) + c * (s - 1)"
    have ck: "m_keys idx ! (?base + slot ?B ?n j) = ?key (c * s + j)" if "0 < j" "j < ?n" for j
      using slot_of_child[OF B n that] s by (simp add: add.assoc)
    have less_n: "c * s + j < n" if "j < ?n" for j
      using child_entry_less[OF B n0 _ that] c(1) s by simp
    have at': "at_node idx h' r' s' ?n" using descend_node[OF at h B _ d] c(1) s by simp
    have len': "?base + (?B ^ ceil_log ?B ?n - 1) \<le> length (m_keys idx)"
      using child_block[OF B n, of c] c(1) s less.prems(2) by simp
    have mono': "P (m_keys idx ! (?base + slot ?B ?n i))"
      if "0 < i" "i < j" "j < ?n" "P (m_keys idx ! (?base + slot ?B ?n j))" for i j
    proof -
      have "0 < j" "i < ?n" using that by simp_all
      then show ?thesis
        using mono[of "c * s + i" "c * s + j"] that less_n[OF that(3)]
        unfolding ck[OF that(1) \<open>i < ?n\<close>] ck[OF \<open>0 < j\<close> that(3)] by simp
    qed
    have "\<exists>r < ?n. find_loop scan idx ?base (off + c * s) h' r' s' = Some (off + c * s + r)
        \<and> (\<forall>j. 0 < j \<longrightarrow> j \<le> r \<longrightarrow> P (m_keys idx ! (?base + slot ?B ?n j)))
        \<and> (\<forall>j. r < j \<longrightarrow> j < ?n \<longrightarrow> \<not> P (m_keys idx ! (?base + slot ?B ?n j)))"
      by (rule less.IH[OF child_less[OF B n] at' len']) (rule mono')
    then obtain r where r: "r < ?n" "find_loop scan idx ?base (off + c * s) h' r' s' = Some (off + c * s + r)"
      and r3: "\<forall>j. 0 < j \<longrightarrow> j \<le> r \<longrightarrow> P (m_keys idx ! (?base + slot ?B ?n j))"
      and r4: "\<forall>j. r < j \<longrightarrow> j < ?n \<longrightarrow> \<not> P (m_keys idx ! (?base + slot ?B ?n j))"
      by (elim exE conjE)
    have step: "find_loop scan idx base off h rr s = Some (off + (c * s + r))"
      using at_node_root_size[OF at h B] s r(2) d h c(2)
      unfolding find_loop.simps[of scan idx base off h rr s] by (simp add: Let_def add.assoc)
    have low: "P (?key j)" if j: "0 < j" "j \<le> c * s + r" for j
    proof (cases "j \<le> c * s")
      case True
      then have c0: "0 < c" using j(1) by (cases c) auto
      then have "P (?key (c * s))" using below[of "c - 1"] by simp
      then show ?thesis using mono[of j "c * s"] j(1) True less_n[of 0] child_pos[OF B] by (cases "j = c * s") auto
    next
      case False
      then have k: "0 < j - c * s" "j - c * s \<le> r" "j - c * s < ?n" "c * s + (j - c * s) = j"
        using j(2) r(1) by linarith+
      have "P (m_keys idx ! (?base + slot ?B ?n (j - c * s)))" using r3 k(1,2) by blast
      then show ?thesis unfolding ck[OF k(1,3)] k(4) .
    qed
    have high: "\<not> P (?key j)" if j: "c * s + r < j" "j < n" for j
    proof (cases "j < c * s + ?n")
      case True
      then have k: "r < j - c * s" "0 < j - c * s" "j - c * s < ?n" "c * s + (j - c * s) = j"
        using j(1) by linarith+
      have "\<not> P (m_keys idx ! (?base + slot ?B ?n (j - c * s)))" using r4 k(1,3) by blast
      then show ?thesis unfolding ck[OF k(2,3)] k(4) .
    next
      case False
      then have "c \<noteq> ?R" using child_last[OF B n0, of c] s j(2) by auto
      then have cR: "c < ?R" using c(1) by simp
      then have "Suc c * s \<le> j" using False s by (simp add: child_def)
      moreover have "\<not> P (?key (Suc c * s))" using above[of c] cR by simp
      ultimately show ?thesis using mono[of "Suc c * s" j] s0 j(2) by (cases "Suc c * s = j") auto
    qed
    show ?thesis
      using less_n[OF r(1)] step low high by blast
  qed
qed

end
