(* ===== verification/Static_Index_Properties.thy ===== *)
theory Static_Index_Properties
  imports Static_Index_Proofs
begin

text \<open>
  The contract of the static index (\<open>segment_index\<close>: what the packed memory arrays rely on when
  they route a key to a segment), its interpretation on the model of
  \<open>pma/generic/static_index.cpp\<close>, and the properties of the component.
\<close>

section \<open>The contract\<close>

text \<open>Setting the separators of consecutive segments, as the rebalances do.\<close>

fun load_keys :: "('i \<Rightarrow> nat \<Rightarrow> int \<Rightarrow> 'i option) \<Rightarrow> 'i \<Rightarrow> nat \<Rightarrow> int list \<Rightarrow> 'i option" where
  "load_keys set_key i j [] = Some i"
| "load_keys set_key i j (k # ks) = do { i' \<leftarrow> set_key i j k; load_keys set_key i' (j + 1) ks }"

locale segment_index =
  fixes ok :: "'i \<Rightarrow> nat \<Rightarrow> bool"
    and set_key :: "'i \<Rightarrow> nat \<Rightarrow> int \<Rightarrow> 'i option"
    and get_key :: "'i \<Rightarrow> nat \<Rightarrow> int option"
    and find_key :: "'i \<Rightarrow> int \<Rightarrow> nat option"
    and first_key :: "'i \<Rightarrow> int \<Rightarrow> nat option"
    and last_key :: "'i \<Rightarrow> int \<Rightarrow> nat option"
  assumes set_get: "ok i n \<Longrightarrow> j < n \<Longrightarrow>
      \<exists>i'. set_key i j k = Some i' \<and> ok i' n
        \<and> (\<forall>l < n. get_key i' l = (if l = j then Some k else get_key i l))"
    and searches: "ok i (length ks) \<Longrightarrow> sorted ks \<Longrightarrow> (\<forall>j < length ks. get_key i j = Some (ks ! j)) \<Longrightarrow>
      find_key i k = Some (if k \<le> hd ks then 0 else length (takeWhile (\<lambda>x. x \<le> k) (tl ks)))
      \<and> first_key i k = Some (length (takeWhile (\<lambda>x. x < k) (tl ks)))
      \<and> last_key i k = Some (length (takeWhile (\<lambda>x. x \<le> k) (tl ks)))"
begin

lemma load:
  "ok i n \<Longrightarrow> j + length ks \<le> n \<Longrightarrow>
    \<exists>i'. load_keys set_key i j ks = Some i' \<and> ok i' n
      \<and> (\<forall>l < n. get_key i' l = (if j \<le> l \<and> l < j + length ks then Some (ks ! (l - j)) else get_key i l))"
proof (induction ks arbitrary: i j)
  case (Cons k ks)
  obtain i1 where i1: "set_key i j k = Some i1" "ok i1 n"
      "\<forall>l < n. get_key i1 l = (if l = j then Some k else get_key i l)"
    using set_get[of i n j k] Cons.prems by auto
  obtain i' where i': "load_keys set_key i1 (j + 1) ks = Some i'" "ok i' n"
      "\<forall>l < n. get_key i' l = (if j + 1 \<le> l \<and> l < j + 1 + length ks then Some (ks ! (l - (j + 1))) else get_key i1 l)"
    using Cons.IH[OF i1(2), of "j + 1"] Cons.prems(2) by auto
  have "get_key i' l = (if j \<le> l \<and> l < j + length (k # ks) then Some ((k # ks) ! (l - j)) else get_key i l)"
    if "l < n" for l
    using i'(3)[rule_format, OF that] i1(3)[rule_format, OF that]
    by (cases "l = j") (auto simp: nth_Cons' split: if_splits)
  then show ?case using i1(1) i'(1,2) by auto
next
  case Nil
  then show ?case by (intro exI[of _ i]) auto
qed

lemma load_all:
  "ok i (length ks) \<Longrightarrow> \<exists>i'. load_keys set_key i 0 ks = Some i' \<and> ok i' (length ks)
      \<and> (\<forall>l < length ks. get_key i' l = Some (ks ! l))"
  using load[of i "length ks" 0 ks] by auto

lemma load_find:
  assumes "ok i (length ks)" "sorted ks" "load_keys set_key i 0 ks = Some i'"
  shows "find_key i' k = Some (if k \<le> hd ks then 0 else length (takeWhile (\<lambda>x. x \<le> k) (tl ks)))"
    and "first_key i' k = Some (length (takeWhile (\<lambda>x. x < k) (tl ks)))"
    and "last_key i' k = Some (length (takeWhile (\<lambda>x. x \<le> k) (tl ks)))"
  using load_all[OF assms(1)] assms searches[of i' ks k] by auto

end

section \<open>Prefixes of sorted lists\<close>

lemma prefix_length_takeWhile:
  assumes "r < length ks" "\<forall>j. 0 < j \<longrightarrow> j \<le> r \<longrightarrow> P (ks ! j)" "\<forall>j. r < j \<longrightarrow> j < length ks \<longrightarrow> \<not> P (ks ! j)"
  shows "length (takeWhile P (tl ks)) = r"
proof -
  have "takeWhile P (tl ks) = take r (tl ks)"
  proof (rule takeWhile_eq_take_P_nth)
    show "P (tl ks ! j)" if "j < r" "j < length (tl ks)" for j
      using assms(2)[rule_format, of "Suc j"] that by (simp add: nth_tl)
    show "r < length (tl ks) \<Longrightarrow> \<not> P (tl ks ! r)"
      using assms(3)[rule_format, of "Suc r"] by (simp add: nth_tl)
  qed
  then show ?thesis using assms(1) by simp
qed

lemma takeWhile_length_le:
  assumes "j \<le> length xs" "j < length xs \<Longrightarrow> \<not> P (xs ! j)"
  shows "length (takeWhile P xs) \<le> j"
proof (rule ccontr)
  assume "\<not> length (takeWhile P xs) \<le> j"
  then have l: "j < length (takeWhile P xs)" by simp
  then have "P (takeWhile P xs ! j)" by (metis nth_mem set_takeWhileD)
  then have "P (xs ! j)" using takeWhile_nth[OF l] by simp
  moreover have "j < length xs" using l length_takeWhile_le[of P xs] by linarith
  ultimately show False using assms(2) by simp
qed

lemma le_takeWhile_length:
  assumes "j \<le> length xs" "\<And>i. i < j \<Longrightarrow> P (xs ! i)"
  shows "j \<le> length (takeWhile P xs)"
  using assms nth_length_takeWhile[of P xs] by (metis leI less_le_trans)

section \<open>The model of the index\<close>

definition index_ok :: "StaticIndex \<Rightarrow> nat \<Rightarrow> bool" where
  "index_ok idx n \<longleftrightarrow>
     1 < m_node_size idx \<and> m_node_size idx < 2 ^ 16 \<and> 0 < n \<and> n < 2 ^ 31
     \<and> m_height idx = ceil_log (m_node_size idx) n \<and> m_height idx \<le> m_rightmost_sz
     \<and> m_capacity idx = int n \<and> length (m_keys idx) = m_node_size idx ^ m_height idx - 1
     \<and> length (m_rightmost idx) = m_rightmost_sz
     \<and> rightmost_ok (m_node_size idx) (m_rightmost idx) n"

lemma rebuild_index:
  assumes "1 < m_node_size idx" "m_node_size idx < 2 ^ 16" "length (m_rightmost idx) = m_rightmost_sz"
    "length (m_keys idx) = m_node_size idx ^ m_height idx - 1"
    "0 < n" "n < 2 ^ 31" "n \<le> m_node_size idx ^ 8" "heights_exact levels (m_node_size idx) n"
  shows "\<exists>idx'. rebuild levels junk idx n = Some idx' \<and> index_ok idx' n
    \<and> m_node_size idx' = m_node_size idx \<and> m_key_minimum idx' = m_key_minimum idx"
proof -
  let ?B = "m_node_size idx" and ?h = "ceil_log (m_node_size idx) n"
  have h: "?h \<le> m_rightmost_sz" using ceil_log_least[OF assms(1,7)] by (simp add: m_rightmost_sz_def)
  obtain rm where rm: "set_rightmost levels ?B (m_rightmost idx) n ?h = Some rm" "length rm = m_rightmost_sz"
      "rightmost_ok ?B rm n"
    using set_rightmost_ok[OF assms(1,2), of n "m_rightmost idx" levels] h assms(3,8) by auto
  have cap: "(int n + 2 ^ 31) mod 2 ^ 32 - 2 ^ 31 = int n" using assms(6) by simp
  show ?thesis
    using assms(1-6) h rm cap heights_exact_root[OF assms(8)] by (auto simp: rebuild_def Let_def index_ok_def)
qed

lemma index_at_root:
  "index_ok idx n \<Longrightarrow> at_node idx (m_height idx) True (pow_height (m_node_size idx) (m_height idx)) n"
  by (simp add: index_ok_def at_node_def)

lemma get_slot_ok:
  assumes "index_ok idx n" "0 < j" "j < n"
  shows "get_slot idx j = Some (slot (m_node_size idx) n j)"
    and "slot (m_node_size idx) n j < length (m_keys idx)"
proof -
  have B: "1 < m_node_size idx" using assms(1) by (simp add: index_ok_def)
  have "int j < m_capacity idx mod 2 ^ 64" using assms by (simp add: index_ok_def)
  then show "get_slot idx j = Some (slot (m_node_size idx) n j)"
    using get_slot_loop_slot[OF B index_at_root[OF assms(1)] assms(2,3), of 0] assms(2)
    by (simp add: get_slot_def)
  show "slot (m_node_size idx) n j < length (m_keys idx)"
    using slot_less[OF B assms(2,3)] assms(1) by (simp add: index_ok_def)
qed

lemma get_separator_ok:
  assumes "index_ok idx n" "j < n"
  shows "get_separator_key idx j
    = Some (if j = 0 then m_key_minimum idx else m_keys idx ! slot (m_node_size idx) n j)"
  using get_slot_ok[OF assms(1), of j] assms(2) by (simp add: get_separator_key_def)

lemma set_separator_ok:
  assumes ok: "index_ok idx n" and j: "j < n"
  shows "\<exists>idx'. set_separator_key idx j k = Some idx' \<and> index_ok idx' n
    \<and> (\<forall>l < n. get_separator_key idx' l = (if l = j then Some k else get_separator_key idx l))"
proof (cases "j = 0")
  case True
  let ?idx = "idx\<lparr>m_key_minimum := k\<rparr>"
  have ok': "index_ok ?idx n" using ok by (simp add: index_ok_def)
  have "\<forall>l < n. get_separator_key ?idx l = (if l = j then Some k else get_separator_key idx l)"
    using get_separator_ok[OF ok] get_separator_ok[OF ok'] True by simp
  then show ?thesis using ok' True by (simp add: set_separator_key_def)
next
  case False
  let ?B = "m_node_size idx"
  let ?p = "slot ?B n j"
  let ?idx = "idx\<lparr>m_keys := (m_keys idx)[?p := k]\<rparr>"
  have p: "get_slot idx j = Some ?p" "?p < length (m_keys idx)" using get_slot_ok[OF ok] False j by simp_all
  have ok': "index_ok ?idx n" using ok by (simp add: index_ok_def)
  have "get_separator_key ?idx l = (if l = j then Some k else get_separator_key idx l)" if l: "l < n" for l
  proof -
    have B: "1 < ?B" using ok by (simp add: index_ok_def)
    have "slot ?B n l \<noteq> ?p" if "0 < l" "l \<noteq> j"
      using slot_inj[OF B, of l n j] that l j False by blast
    then show ?thesis
      using get_separator_ok[OF ok l] get_separator_ok[OF ok' l] p(2) False by (cases "l = 0") auto
  qed
  then show ?thesis using ok' p False by (simp add: set_separator_key_def)
qed

lemma find_from_root_ok:
  assumes ok: "index_ok idx (length ks)" and seps: "\<forall>j < length ks. get_separator_key idx j = Some (ks ! j)"
    and scan: "scan_spec P scan" and mono: "\<And>x y. x \<le> y \<Longrightarrow> P y \<Longrightarrow> P x" and sorted: "sorted ks"
  shows "find_from_root scan idx = Some (length (takeWhile P (tl ks)))"
proof -
  let ?B = "m_node_size idx" and ?n = "length ks"
  let ?key = "\<lambda>j. m_keys idx ! (0 + slot ?B ?n j)"
  have B: "1 < ?B" using ok by (simp add: index_ok_def)
  have len: "0 + (?B ^ ceil_log ?B ?n - 1) \<le> length (m_keys idx)" using ok by (simp add: index_ok_def)
  have key: "?key j = ks ! j" if "0 < j" "j < ?n" for j
    using get_separator_ok[OF ok that(2)] seps that by simp
  have mono': "P (?key i)" if "0 < i" "i < j" "j < ?n" "P (?key j)" for i j
  proof -
    have "ks ! i \<le> ks ! j" using sorted that by (simp add: sorted_nth_mono)
    then show ?thesis using mono that key[of i] key[of j] by simp
  qed
  have "\<exists>r < ?n. find_loop scan idx 0 0 (m_height idx) True (pow_height ?B (m_height idx)) = Some (0 + r)
      \<and> (\<forall>j. 0 < j \<longrightarrow> j \<le> r \<longrightarrow> P (?key j)) \<and> (\<forall>j. r < j \<longrightarrow> j < ?n \<longrightarrow> \<not> P (?key j))"
    by (rule find_loop_prefix[OF scan B index_at_root[OF ok] len]) (rule mono')
  then obtain r where r: "r < ?n"
      "find_loop scan idx 0 0 (m_height idx) True (pow_height ?B (m_height idx)) = Some (0 + r)"
    and low: "\<forall>j. 0 < j \<longrightarrow> j \<le> r \<longrightarrow> P (?key j)" and high: "\<forall>j. r < j \<longrightarrow> j < ?n \<longrightarrow> \<not> P (?key j)"
    by (elim exE conjE)
  have low': "\<forall>j. 0 < j \<longrightarrow> j \<le> r \<longrightarrow> P (ks ! j)" using low key r(1) by (metis le_less_trans)
  have high': "\<forall>j. r < j \<longrightarrow> j < ?n \<longrightarrow> \<not> P (ks ! j)" using high key by (metis gr_zeroI not_less0)
  show ?thesis unfolding find_from_root_def using r(2) prefix_length_takeWhile[OF r(1) low' high'] by simp
qed

lemma takeWhile_all_greater: "sorted ks \<Longrightarrow> ks \<noteq> [] \<Longrightarrow> k < hd ks \<Longrightarrow> (\<And>x. k < x \<Longrightarrow> \<not> P x) \<Longrightarrow> takeWhile P (tl ks) = []"
  by (cases ks; cases "tl ks") auto

lemma searches_ok:
  assumes ok: "index_ok idx (length ks)" and sorted: "sorted ks"
    and seps: "\<forall>j < length ks. get_separator_key idx j = Some (ks ! j)"
  shows "index_find idx k = Some (if k \<le> hd ks then 0 else length (takeWhile (\<lambda>x. x \<le> k) (tl ks)))
    \<and> find_first idx k = Some (length (takeWhile (\<lambda>x. x < k) (tl ks)))
    \<and> find_last idx k = Some (length (takeWhile (\<lambda>x. x \<le> k) (tl ks)))"
proof -
  have ne: "ks \<noteq> []" using ok by (auto simp: index_ok_def)
  then have hd: "m_key_minimum idx = hd ks"
    using seps get_separator_ok[OF ok, of 0] by (simp add: hd_conv_nth)
  have f: "find_from_root (node_le k) idx = Some (length (takeWhile (\<lambda>x. x \<le> k) (tl ks)))"
      "find_from_root (node_lt k) idx = Some (length (takeWhile (\<lambda>x. x < k) (tl ks)))"
      "find_from_root (node_gt k) idx = Some (length (takeWhile (\<lambda>x. x \<le> k) (tl ks)))"
    using find_from_root_ok[OF ok seps node_scans(1) _ sorted, of k]
      find_from_root_ok[OF ok seps node_scans(2) _ sorted, of k]
      find_from_root_ok[OF ok seps node_scans(3) _ sorted, of k] by simp_all
  show ?thesis
    using f takeWhile_all_greater[OF sorted ne, of k "\<lambda>x. x \<le> k"] takeWhile_all_greater[OF sorted ne, of k "\<lambda>x. x < k"]
    by (auto simp: index_find_def find_first_def find_last_def hd)
qed

interpretation static_index: segment_index index_ok set_separator_key get_separator_key index_find
  find_first find_last
  by unfold_locales (use set_separator_ok searches_ok in auto)

lemma new_index_ok:
  assumes "1 < B" "B < 2 ^ 16" "0 < n" "n < 2 ^ 31" "n \<le> B ^ 8" "heights_exact levels B n"
  shows "\<exists>idx. new_index levels junk B n = Some idx \<and> index_ok idx n"
proof -
  let ?idx = "\<lparr>m_node_size = B, m_height = 0, m_capacity = 0, m_keys = [],
    m_key_minimum = KEY_MAX, m_rightmost = replicate m_rightmost_sz (0, 0)\<rparr>"
  show ?thesis using rebuild_index[of ?idx n levels junk] assms by (auto simp: new_index_def)
qed

section \<open>Properties\<close>

text \<open>C27. Building the index: for every node size of at least 2 and every number of segments that
  fits 31 bits and a tree of eight levels, when the expression of the code for the height gives the
  exact height or one level more, the constructor returns an index exactly when it is exact for the
  tree and all its rightmost subtrees, and fails its assertion otherwise. A \<open>rebuild\<close> of the index to such a
  number of segments then keeps the minimum and returns an index again. In it every segment
  but the first has a slot of its own, inside the allocated array.\<close>

theorem index_build_correct:
  assumes B: "1 < B" "B < 2 ^ 16" and n: "0 < n" "n < 2 ^ 31" "n \<le> B ^ 8" and m: "0 < m" "m < 2 ^ 31" "m \<le> B ^ 8"
    and lv: "levels B 1 = 0" "\<forall>k. levels B k = ceil_log B k \<or> levels B k = ceil_log B k + 1"
  shows "((\<exists>idx. new_index levels junk B n = Some idx) \<longleftrightarrow> heights_exact levels B n)
    \<and> (heights_exact levels B n \<and> heights_exact levels B m \<longrightarrow>
        (\<exists>idx idx'. new_index levels junk B n = Some idx \<and> rebuild levels junk idx m = Some idx'
          \<and> minimum idx' = minimum idx \<and> m_node_size idx' = B
          \<and> (\<exists>f. inj_on f {0<..<m} \<and> (\<forall>j \<in> {0<..<m}. get_slot idx' j = Some (f j) \<and> f j < length (m_keys idx')))))"
proof (intro conjI impI iffI)
  show "heights_exact levels B n" if "\<exists>idx. new_index levels junk B n = Some idx"
  proof (rule ccontr)
    assume "\<not> heights_exact levels B n"
    then have "set_rightmost levels B (replicate m_rightmost_sz (0, 0)) n (levels B n) = None"
      using set_rightmost_rounded[where levels = levels and B = B, OF B(1) lv n(1)] by blast
    then show False using that by (auto simp: new_index_def rebuild_def Let_def split: if_splits)
  qed
  show "\<exists>idx. new_index levels junk B n = Some idx" if "heights_exact levels B n"
    using new_index_ok[OF B n that] by blast
next
  assume ex: "heights_exact levels B n \<and> heights_exact levels B m"
  obtain idx where idx: "new_index levels junk B n = Some idx" "index_ok idx n"
    using new_index_ok[OF B n] ex by blast
  then have sz: "m_node_size idx = B"
    by (auto simp: new_index_def rebuild_def Let_def split: if_splits Option.bind_splits)
  obtain idx' where idx': "rebuild levels junk idx m = Some idx'" "index_ok idx' m" "m_node_size idx' = B"
      "m_key_minimum idx' = m_key_minimum idx"
    using rebuild_index[of idx m levels junk] idx(2) m ex unfolding sz by (auto simp: index_ok_def sz)
  have "inj_on (slot B m) {0<..<m}"
  proof (rule inj_onI)
    fix i j assume "i \<in> {0<..<m}" "j \<in> {0<..<m}" "slot B m i = slot B m j"
    then show "i = j" using slot_inj[OF B(1), of i m j] by simp
  qed
  moreover have "\<forall>j \<in> {0<..<m}. get_slot idx' j = Some (slot B m j) \<and> slot B m j < length (m_keys idx')"
    using get_slot_ok[OF idx'(2)] idx'(3) by auto
  ultimately show "\<exists>idx idx'. new_index levels junk B n = Some idx \<and> rebuild levels junk idx m = Some idx'
      \<and> minimum idx' = minimum idx \<and> m_node_size idx' = B
      \<and> (\<exists>f. inj_on f {0<..<m} \<and> (\<forall>j \<in> {0<..<m}. get_slot idx' j = Some (f j) \<and> f j < length (m_keys idx')))"
    using idx(1) idx' by (auto simp: minimum_def)
qed

text \<open>The double quotient rounds up for the node size 3 and 243 segments: the logarithm that is one too large there.\<close>

definition rounded_levels :: "nat \<Rightarrow> nat \<Rightarrow> nat" where
  "rounded_levels B n = (if B = 3 \<and> n = 243 then 6 else ceil_log B n)"

lemma rounded_levels_243:
  "rounded_levels B 1 = 0" "rounded_levels B k = ceil_log B k \<or> rounded_levels B k = ceil_log B k + 1"
  "\<not> heights_exact rounded_levels 3 243"
proof -
  have c: "ceil_log 3 243 = 5" using ceil_log_power[of 3 5] by simp
  show "rounded_levels B 1 = 0" by (simp add: rounded_levels_def ceil_log.simps)
  show "rounded_levels B k = ceil_log B k \<or> rounded_levels B k = ceil_log B k + 1" by (auto simp: rounded_levels_def c)
  show "\<not> heights_exact rounded_levels 3 243"
    using heights_exact_root[of rounded_levels 3 243] by (auto simp: rounded_levels_def c)
qed

theorem index_build_correct_witness:
  "(\<exists>idx idx'. new_index ceil_log 0 4 3 = Some idx \<and> rebuild ceil_log 0 idx 23 = Some idx'
      \<and> minimum idx' = minimum idx \<and> m_node_size idx' = 4
      \<and> (\<exists>f. inj_on f {0<..<23} \<and> (\<forall>j \<in> {0<..<23}. get_slot idx' j = Some (f j) \<and> f j < length (m_keys idx'))))
   \<and> new_index rounded_levels 0 3 243 = None"
proof -
  have l: "ceil_log 4 1 = 0" by (simp add: ceil_log.simps)
  show ?thesis
    using index_build_correct[of 4 3 23 ceil_log 0] index_build_correct[of 3 243 1 rounded_levels 0] l rounded_levels_243 by auto
qed

text \<open>Separators are stored and read back: after the separators of all segments are set, one
  by one, \<open>get_separator_key\<close> returns each of them, and setting one more separator changes that
  one only.\<close>

theorem index_separators_roundtrip:
  assumes "1 < B" "B < 2 ^ 16" "ks \<noteq> []" "length ks < 2 ^ 31" "length ks \<le> B ^ 8" "j < length ks"
    and "heights_exact levels B (length ks)"
  shows "\<exists>idx idx' idx''. new_index levels junk B (length ks) = Some idx
    \<and> load_keys set_separator_key idx 0 ks = Some idx'
    \<and> map (get_separator_key idx') [0..<length ks] = map Some ks
    \<and> set_separator_key idx' j k = Some idx''
    \<and> map (get_separator_key idx'') [0..<length ks] = map Some (ks[j := k])"
proof -
  have pos: "0 < length ks" using assms(3) by simp
  obtain idx where idx: "new_index levels junk B (length ks) = Some idx" "index_ok idx (length ks)"
    using new_index_ok[OF assms(1,2) pos assms(4,5,7)] by blast
  obtain idx' where idx': "load_keys set_separator_key idx 0 ks = Some idx'" "index_ok idx' (length ks)"
      "\<forall>l < length ks. get_separator_key idx' l = Some (ks ! l)"
    using static_index.load_all[OF idx(2)] by blast
  obtain idx'' where idx'': "set_separator_key idx' j k = Some idx''"
      "\<forall>l < length ks. get_separator_key idx'' l = (if l = j then Some k else get_separator_key idx' l)"
    using static_index.set_get[OF idx'(2) assms(6)] by blast
  have "map (get_separator_key idx') [0..<length ks] = map Some ks"
    using idx'(3) by (intro nth_equalityI) simp_all
  moreover have "map (get_separator_key idx'') [0..<length ks] = map Some (ks[j := k])"
    using idx'(3) idx''(2) by (intro nth_equalityI) (simp_all add: nth_list_update)
  ultimately show ?thesis using idx(1) idx'(1) idx''(1) by blast
qed

theorem index_separators_roundtrip_witness:
  "\<exists>idx idx' idx''. new_index ceil_log 0 3 (length [10, 20, 30, 40, 50 :: int]) = Some idx
    \<and> load_keys set_separator_key idx 0 [10, 20, 30, 40, 50] = Some idx'
    \<and> map (get_separator_key idx') [0..<length [10, 20, 30, 40, 50 :: int]] = map Some [10, 20, 30, 40, 50]
    \<and> set_separator_key idx' 3 45 = Some idx''
    \<and> map (get_separator_key idx'') [0..<length [10, 20, 30, 40, 50 :: int]] = map Some ([10, 20, 30, 40, 50][3 := 45])"
  by (rule index_separators_roundtrip) simp_all

text \<open>C26. The searches over sorted separators: \<open>find\<close> returns the last segment whose separator is at
  most the key (the first segment when the key is at most the minimum), \<open>find_first\<close> the number
  of separators below the key and \<open>find_last\<close> the number of separators up to the key, both
  without the separator of the first segment; for an index whose heights are computed exactly. The scan from the left of \<open>find\<close> and the scan from
  the right of \<open>find_last\<close> agree.\<close>

theorem index_searches_correct:
  assumes "1 < B" "B < 2 ^ 16" "ks \<noteq> []" "length ks < 2 ^ 31" "length ks \<le> B ^ 8" "sorted ks"
    and "heights_exact levels B (length ks)"
  shows "\<exists>idx idx'. new_index levels junk B (length ks) = Some idx \<and> load_keys set_separator_key idx 0 ks = Some idx'
    \<and> index_find idx' k = Some (if k \<le> hd ks then 0 else length (takeWhile (\<lambda>x. x \<le> k) (tl ks)))
    \<and> find_first idx' k = Some (length (takeWhile (\<lambda>x. x < k) (tl ks)))
    \<and> find_last idx' k = Some (length (takeWhile (\<lambda>x. x \<le> k) (tl ks)))"
proof -
  have pos: "0 < length ks" using assms(3) by simp
  obtain idx where idx: "new_index levels junk B (length ks) = Some idx" "index_ok idx (length ks)"
    using new_index_ok[OF assms(1,2) pos assms(4,5,7)] by blast
  obtain idx' where idx': "load_keys set_separator_key idx 0 ks = Some idx'"
    using static_index.load_all[OF idx(2)] by blast
  show ?thesis using idx(1) idx' static_index.load_find[OF idx(2) assms(6) idx'] by blast
qed

theorem index_searches_correct_witness:
  "\<exists>idx idx'. new_index ceil_log 0 3 (length [10, 20, 20, 40, 50 :: int]) = Some idx
    \<and> load_keys set_separator_key idx 0 [10, 20, 20, 40, 50] = Some idx'
    \<and> index_find idx' 20 = Some (if 20 \<le> hd [10, 20, 20, 40, 50 :: int] then 0
         else length (takeWhile (\<lambda>x. x \<le> 20) (tl [10, 20, 20, 40, 50 :: int])))
    \<and> find_first idx' 20 = Some (length (takeWhile (\<lambda>x. x < 20) (tl [10, 20, 20, 40, 50 :: int])))
    \<and> find_last idx' 20 = Some (length (takeWhile (\<lambda>x. x \<le> 20) (tl [10, 20, 20, 40, 50 :: int])))"
  by (rule index_searches_correct) simp_all

text \<open>C29. Routing never misses a segment: when the separators are sorted and the key lies between
  the separator of segment \<open>j\<close> and the separator of the next segment, \<open>j\<close> is between \<open>find_first\<close>
  and \<open>find_last\<close>, whatever separators are repeated; and when the key is below the next separator
  and above the minimum (or \<open>j\<close> is the first segment), \<open>find\<close> returns \<open>j\<close> itself. The index is one whose heights are
  computed exactly.\<close>

theorem index_routes_key:
  assumes "1 < B" "B < 2 ^ 16" "length ks < 2 ^ 31" "length ks \<le> B ^ 8" "sorted ks"
    and j: "j < length ks" "ks ! j \<le> k" "Suc j < length ks \<longrightarrow> k \<le> ks ! Suc j" and ex: "heights_exact levels B (length ks)"
  shows "\<exists>idx idx' lo hi. new_index levels junk B (length ks) = Some idx
    \<and> load_keys set_separator_key idx 0 ks = Some idx'
    \<and> find_first idx' k = Some lo \<and> find_last idx' k = Some hi \<and> lo \<le> j \<and> j \<le> hi
    \<and> ((Suc j < length ks \<longrightarrow> k < ks ! Suc j) \<longrightarrow> j = 0 \<or> hd ks < k \<longrightarrow> index_find idx' k = Some j)"
proof -
  have pos: "0 < length ks" and ne: "ks \<noteq> []" using j(1) by auto
  obtain idx where idx: "new_index levels junk B (length ks) = Some idx" "index_ok idx (length ks)"
    using new_index_ok[OF assms(1,2) pos assms(3,4) ex] by blast
  obtain idx' where idx': "load_keys set_separator_key idx 0 ks = Some idx'"
    using static_index.load_all[OF idx(2)] by blast
  note s = static_index.load_find[OF idx(2) assms(5) idx', of k]
  have lo: "length (takeWhile (\<lambda>x. x < k) (tl ks)) \<le> j"
  proof (rule takeWhile_length_le)
    show "j < length (tl ks) \<Longrightarrow> \<not> tl ks ! j < k" using j(3) by (auto simp: nth_tl)
  qed (use j(1) in simp)
  have hi: "j \<le> length (takeWhile (\<lambda>x. x \<le> k) (tl ks))"
  proof (rule le_takeWhile_length)
    show "tl ks ! i \<le> k" if "i < j" for i
    proof -
      have "ks ! Suc i \<le> ks ! j" using assms(5) j(1) that by (simp add: sorted_nth_mono)
      then show ?thesis using j(1,2) that by (simp add: nth_tl)
    qed
  qed (use j(1) in simp)
  have "length (takeWhile (\<lambda>x. x \<le> k) (tl ks)) \<le> j" if "Suc j < length ks \<longrightarrow> k < ks ! Suc j"
  proof (rule takeWhile_length_le)
    show "j < length (tl ks) \<Longrightarrow> \<not> tl ks ! j \<le> k" using that by (auto simp: nth_tl)
  qed (use j(1) in simp)
  moreover have "hd ks \<le> ks ! j" using assms(5) j(1) ne by (simp add: hd_conv_nth sorted_nth_mono)
  ultimately have "index_find idx' k = Some j"
    if "Suc j < length ks \<longrightarrow> k < ks ! Suc j" "j = 0 \<or> hd ks < k"
    using s(1) hi that by (auto intro: antisym)
  then show ?thesis using idx(1) idx' s(2,3) lo hi by blast
qed

theorem index_routes_key_witness:
  "\<exists>idx idx' lo hi. new_index ceil_log 0 3 (length [10, 20, 20, 40, 50 :: int]) = Some idx
    \<and> load_keys set_separator_key idx 0 [10, 20, 20, 40, 50] = Some idx'
    \<and> find_first idx' 20 = Some lo \<and> find_last idx' 20 = Some hi \<and> lo \<le> 2 \<and> 2 \<le> hi
    \<and> ((Suc 2 < length [10, 20, 20, 40, 50 :: int] \<longrightarrow> 20 < [10, 20, 20, 40, 50 :: int] ! Suc 2) \<longrightarrow>
        (2 :: nat) = 0 \<or> hd [10, 20, 20, 40, 50 :: int] < 20 \<longrightarrow> index_find idx' 20 = Some 2)"
  by (rule index_routes_key) simp_all

end
