(* ===== verification/Rewired_Memory.thy ===== *)
theory Rewired_Memory
  imports Prelude "HOL-Library.Monad_Syntax"
begin

text \<open>
  Memory rewiring: \<open>rewired_memory.cpp\<close> and \<open>buffered_rewired_memory.cpp\<close>.

  The operating system is part of the state: the physical memory behind the handle is the list of
  its extents (\<open>m_physical\<close>, what \<open>ftruncate\<close> sized), and the page table of the reserved region
  maps a virtual extent to a physical one (\<open>m_page_table\<close>, what \<open>mmap\<close> sets). The class keeps its
  own copy of the mapping, \<open>m_translation_map\<close>. Addresses are byte offsets from the start of the
  region. The system calls are taken to succeed; a raised exception, a failed assertion and an
  access past the physical memory are \<open>None\<close>. \<open>zero\<close> is the content of a fresh extent. The entries
  of the map are \<open>uint32_t\<close> in the code: the model is that of a region of at most \<open>2 ^ 32\<close> extents.
\<close>

section \<open>RewiredMemory\<close>

record 'a RewiredMemory =
  m_page_size :: nat
  m_num_pages_per_extent :: nat
  m_max_memory :: nat
  m_translation_map :: "nat list"
  m_page_table :: "nat list"
  m_physical :: "'a list list"

definition get_extent_size :: "'a RewiredMemory \<Rightarrow> nat" where
  "get_extent_size m = m_page_size m * m_num_pages_per_extent m"

definition get_allocated_extents :: "'a RewiredMemory \<Rightarrow> nat" where
  "get_allocated_extents m = length (m_translation_map m)"

definition get_allocated_memory_size :: "'a RewiredMemory \<Rightarrow> nat" where
  "get_allocated_memory_size m = get_extent_size m * get_allocated_extents m"

definition get_max_memory :: "'a RewiredMemory \<Rightarrow> nat" where
  "get_max_memory m = m_max_memory m"

definition new_rewired :: "nat \<Rightarrow> 'a list \<Rightarrow> nat \<Rightarrow> nat \<Rightarrow> nat \<Rightarrow> 'a RewiredMemory option" where
  "new_rewired page_size zero pages_per_extent num_extents max_memory =
     (if pages_per_extent = 0 \<or> num_extents = 0 then None
      else if max_memory < page_size * pages_per_extent * num_extents then None
      else Some \<lparr>m_page_size = page_size, m_num_pages_per_extent = pages_per_extent,
             m_max_memory = max_memory, m_translation_map = [0..<num_extents],
             m_page_table = [0..<max_memory div (page_size * pages_per_extent)],
             m_physical = replicate num_extents zero\<rparr>)"

definition validate_address :: "'a RewiredMemory \<Rightarrow> int \<Rightarrow> bool" where
  "validate_address m address \<longleftrightarrow>
     address mod int (get_extent_size m) = 0 \<and> 0 \<le> address \<and> address < int (get_allocated_memory_size m)"

text \<open>\<open>mmap\<close> with \<open>MAP_FIXED\<close>: map the virtual extent to the physical one.\<close>

definition mmap_fixed :: "nat \<Rightarrow> nat \<Rightarrow> 'a RewiredMemory \<Rightarrow> 'a RewiredMemory" where
  "mmap_fixed vextent pextent m = m\<lparr>m_page_table := (m_page_table m)[vextent := pextent]\<rparr>"

definition swap_extents :: "'a RewiredMemory \<Rightarrow> int \<Rightarrow> int \<Rightarrow> 'a RewiredMemory option" where
  "swap_extents m addr1 addr2 =
     (if \<not> validate_address m addr1 \<or> \<not> validate_address m addr2 \<or> addr1 = addr2 then None
      else let trmap_off1 = nat (addr1 div int (get_extent_size m));
               ppage1 = m_translation_map m ! trmap_off1;
               trmap_off2 = nat (addr2 div int (get_extent_size m));
               ppage2 = m_translation_map m ! trmap_off2;
               m = mmap_fixed trmap_off1 ppage2 m;
               m = mmap_fixed trmap_off2 ppage1 m
           in Some (m\<lparr>m_translation_map := (m_translation_map m)[trmap_off1 := ppage2, trmap_off2 := ppage1]\<rparr>))"

definition extend_memory :: "'a list \<Rightarrow> 'a RewiredMemory \<Rightarrow> nat \<Rightarrow> 'a RewiredMemory option" where
  "extend_memory zero m num_extents =
     (if num_extents = 0 then Some m
      else let memory_in_bytes = get_allocated_memory_size m + num_extents * get_extent_size m in
        if get_max_memory m < memory_in_bytes then None
        else let start_fd = length (m_translation_map m) in
          Some (m\<lparr>m_physical := m_physical m
                    @ replicate (memory_in_bytes div get_extent_size m - length (m_physical m)) zero,
                  m_translation_map := m_translation_map m @ map (\<lambda>i. start_fd + i) [0..<num_extents]\<rparr>))"

text \<open>What the program reads and writes through the virtual extent \<open>v\<close>; past the physical memory
  the kernel raises SIGBUS.\<close>

definition load_extent :: "'a RewiredMemory \<Rightarrow> nat \<Rightarrow> 'a list option" where
  "load_extent m v =
     (if v < length (m_page_table m) \<and> m_page_table m ! v < length (m_physical m)
      then Some (m_physical m ! (m_page_table m ! v)) else None)"

definition store_extent :: "'a RewiredMemory \<Rightarrow> nat \<Rightarrow> 'a list \<Rightarrow> 'a RewiredMemory option" where
  "store_extent m v x =
     (if v < length (m_page_table m) \<and> m_page_table m ! v < length (m_physical m)
      then Some (m\<lparr>m_physical := (m_physical m)[m_page_table m ! v := x]\<rparr>) else None)"

section \<open>BufferedRewiredMemory\<close>

record 'a BufferedRewiredMemory =
  m_instance :: "'a RewiredMemory"
  m_buffer_start_address :: int
  m_allocated_buffers :: nat
  m_buffers :: "int list"

definition new_buffered :: "nat \<Rightarrow> 'a list \<Rightarrow> nat \<Rightarrow> nat \<Rightarrow> 'a BufferedRewiredMemory option" where
  "new_buffered page_size zero pages_per_extent num_extents = do {
     m \<leftarrow> new_rewired page_size zero pages_per_extent num_extents (2 ^ 35);
     Some \<lparr>m_instance = m, m_buffer_start_address = int (get_allocated_memory_size m),
           m_allocated_buffers = 0, m_buffers = []\<rparr> }"

definition get_total_buffers :: "'a BufferedRewiredMemory \<Rightarrow> nat" where
  "get_total_buffers b = m_allocated_buffers b"

definition get_used_buffers :: "'a BufferedRewiredMemory \<Rightarrow> nat option" where
  "get_used_buffers b =
     (if length (m_buffers b) \<le> m_allocated_buffers b
      then Some (m_allocated_buffers b - length (m_buffers b)) else None)"

definition add_buffers :: "'a list \<Rightarrow> 'a BufferedRewiredMemory \<Rightarrow> nat \<Rightarrow> 'a BufferedRewiredMemory option" where
  "add_buffers zero b num_extents = do {
     m \<leftarrow> extend_memory zero (m_instance b) num_extents;
     let buffer_space = m_buffer_start_address b + int (get_extent_size m * get_total_buffers b);
     let buffers = fold (\<lambda>i ds. (buffer_space + int (i * get_extent_size m)) # ds) [0..<num_extents] (m_buffers b);
     Some (b\<lparr>m_instance := m, m_buffers := buffers, m_allocated_buffers := m_allocated_buffers b + num_extents\<rparr>) }"

text \<open>The conversion of \<open>m_allocated_buffers * 0.5\<close> to \<open>size_t\<close> truncates.\<close>

definition acquire_buffer :: "'a list \<Rightarrow> 'a BufferedRewiredMemory \<Rightarrow> (int \<times> 'a BufferedRewiredMemory) option" where
  "acquire_buffer zero b = do {
     b \<leftarrow> (if m_buffers b = [] then add_buffers zero b (max 4 (m_allocated_buffers b div 2)) else Some b);
     if m_buffers b = [] then None
     else Some (last (m_buffers b), b\<lparr>m_buffers := butlast (m_buffers b)\<rparr>) }"

definition swap_and_release :: "'a BufferedRewiredMemory \<Rightarrow> int \<Rightarrow> int \<Rightarrow> 'a BufferedRewiredMemory option" where
  "swap_and_release b addr1 addr2 =
     (let start_address_buffers = m_buffer_start_address b;
          ptrs = (if start_address_buffers \<le> addr1 then Some (addr1, addr2) else None)
      in if start_address_buffers \<le> addr2 \<and> ptrs \<noteq> None then None
      else
        let ptrs = (if start_address_buffers \<le> addr2 then Some (addr2, addr1) else ptrs)
        in do { (ptr_bufferspace, ptr_userspace) \<leftarrow> ptrs;
                m \<leftarrow> swap_extents (m_instance b) ptr_userspace ptr_bufferspace;
                Some (b\<lparr>m_instance := m, m_buffers := m_buffers b @ [ptr_bufferspace]\<rparr>) })"

definition extend_buffered :: "'a list \<Rightarrow> 'a BufferedRewiredMemory \<Rightarrow> nat \<Rightarrow> 'a BufferedRewiredMemory option" where
  "extend_buffered zero b num_extents =
     (if num_extents = 0 then None else do {
        used \<leftarrow> get_used_buffers b;
        if used \<noteq> 0 then None
        else
          let num_extents_buffer = get_total_buffers b;
              extent_size = get_extent_size (m_instance b)
          in if num_extents < num_extents_buffer then
               let start = m_buffer_start_address b + int (num_extents * extent_size);
                   n = num_extents_buffer - num_extents
               in Some (b\<lparr>m_buffer_start_address := start, m_allocated_buffers := n,
                          m_buffers := fold (\<lambda>i ds. (start + int (i * extent_size)) # ds) [0..<n] []\<rparr>)
             else do {
               m \<leftarrow> extend_memory zero (m_instance b) (num_extents - num_extents_buffer);
               Some (b\<lparr>m_instance := m, m_allocated_buffers := 0, m_buffers := [],
                       m_buffer_start_address := int (get_allocated_memory_size m)\<rparr>) } })"

definition shrink_buffered :: "'a BufferedRewiredMemory \<Rightarrow> nat \<Rightarrow> 'a BufferedRewiredMemory option" where
  "shrink_buffered b num_extents =
     (if num_extents = 0 then None else do {
        used \<leftarrow> get_used_buffers b;
        if used \<noteq> 0 then None
        else if get_allocated_extents (m_instance b) - get_total_buffers b < num_extents then None
        else
          let extent_size = get_extent_size (m_instance b);
              start = m_buffer_start_address b
          in Some (b\<lparr>m_buffers := fold (\<lambda>i ds. (start - int (Suc i * extent_size)) # ds) [0..<num_extents] (m_buffers b),
                     m_allocated_buffers := m_allocated_buffers b + num_extents,
                     m_buffer_start_address := start - int (num_extents * extent_size)\<rparr>) })"

end
