(* ===== verification/Rewired_Proofs.thy ===== *)
theory Rewired_Proofs
  imports Rewired_Memory
begin

text \<open>
  The invariants of the rewired memory (the translation map is a permutation of the physical
  extents and mirrors the page table) and of its buffers, the contents of the virtual extents
  after each operation, and the contract of rewiring: writing an extent through a buffer.
\<close>

section \<open>RewiredMemory\<close>

definition rm_ok :: "'a RewiredMemory \<Rightarrow> bool" where
  "rm_ok m \<longleftrightarrow> 0 < get_extent_size m
     \<and> length (m_page_table m) = m_max_memory m div get_extent_size m
     \<and> length (m_translation_map m) \<le> length (m_page_table m)
     \<and> length (m_physical m) = length (m_translation_map m)
     \<and> (\<forall>i < length (m_translation_map m). m_page_table m ! i = m_translation_map m ! i
          \<and> m_translation_map m ! i < length (m_translation_map m))
     \<and> (\<forall>i. length (m_translation_map m) \<le> i \<longrightarrow> i < length (m_page_table m) \<longrightarrow> m_page_table m ! i = i)
     \<and> distinct (m_translation_map m)"

text \<open>The contents of the virtual extents.\<close>

definition view :: "'a RewiredMemory \<Rightarrow> 'a list list" where
  "view m = map (\<lambda>p. m_physical m ! p) (m_translation_map m)"

definition addr_of :: "'a RewiredMemory \<Rightarrow> nat \<Rightarrow> int" where
  "addr_of m i = int (i * get_extent_size m)"

definition num_extents :: "'a RewiredMemory \<Rightarrow> nat" where
  "num_extents m = length (m_translation_map m)"

lemma length_view [simp]: "length (view m) = num_extents m"
  by (simp add: view_def num_extents_def)

lemma load_view:
  assumes "rm_ok m" "i < num_extents m"
  shows "load_extent m i = Some (view m ! i)"
  using assms by (simp add: rm_ok_def load_extent_def view_def num_extents_def)

lemma validate_addr_of:
  "rm_ok m \<Longrightarrow> i < num_extents m \<Longrightarrow> validate_address m (addr_of m i)"
  by (auto simp: rm_ok_def validate_address_def addr_of_def get_allocated_memory_size_def
      get_allocated_extents_def num_extents_def mult.commute)

lemma validate_address_extent:
  assumes "rm_ok m" "validate_address m a"
  shows "\<exists>i < num_extents m. a = addr_of m i"
proof -
  have e: "0 < get_extent_size m" using assms(1) by (simp add: rm_ok_def)
  have a: "a = a div int (get_extent_size m) * int (get_extent_size m)"
    using assms(2) by (auto simp: validate_address_def)
  have "0 \<le> a div int (get_extent_size m)" using assms(2) e by (simp add: validate_address_def pos_imp_zdiv_nonneg_iff)
  then obtain i where i: "a div int (get_extent_size m) = int i" by (metis nonneg_int_cases)
  have "int (i * get_extent_size m) < int (get_extent_size m * num_extents m)"
    using assms(2) a i by (simp add: validate_address_def get_allocated_memory_size_def
        get_allocated_extents_def num_extents_def)
  then have "i < num_extents m" using e by (simp only: of_nat_less_iff mult.commute[of i] mult_less_cancel1)
  then show ?thesis using a i by (auto simp: addr_of_def)
qed

lemma addr_of_div: "rm_ok m \<Longrightarrow> nat (addr_of m i div int (get_extent_size m)) = i"
  by (simp add: rm_ok_def addr_of_def)

lemma distinct_addrs:
  assumes "rm_ok m" "inj_on f (set xs)" "distinct xs"
  shows "distinct (map (\<lambda>i. addr_of m (f i)) xs)"
  using assms by (auto simp: distinct_map inj_on_def addr_of_def rm_ok_def)

lemma addr_of_inj: "rm_ok m \<Longrightarrow> addr_of m i = addr_of m j \<longleftrightarrow> i = j"
  by (simp add: rm_ok_def addr_of_def)

lemma distinct_swap: "distinct xs \<Longrightarrow> i < length xs \<Longrightarrow> j < length xs \<Longrightarrow> distinct (xs[i := xs ! j, j := xs ! i])"
  using distinct_swap[of i xs j] by simp

lemma swap_extents_view:
  assumes ok: "rm_ok m" and i: "i < num_extents m" and j: "j < num_extents m" and ij: "i \<noteq> j"
  shows "\<exists>m'. swap_extents m (addr_of m i) (addr_of m j) = Some m' \<and> rm_ok m'
    \<and> view m' = (view m)[i := view m ! j, j := view m ! i] \<and> get_extent_size m' = get_extent_size m
    \<and> m_max_memory m' = m_max_memory m"
proof -
  let ?t = "m_translation_map m"
  let ?t' = "?t[i := ?t ! j, j := ?t ! i]"
  let ?m = "m\<lparr>m_page_table := (m_page_table m)[i := ?t ! j, j := ?t ! i], m_translation_map := ?t'\<rparr>"
  have s: "swap_extents m (addr_of m i) (addr_of m j) = Some ?m"
    using validate_addr_of[OF ok i] validate_addr_of[OF ok j] addr_of_inj[OF ok, of i j] ij
    by (simp add: swap_extents_def Let_def addr_of_div[OF ok] mmap_fixed_def)
  have e: "get_extent_size ?m = get_extent_size m" by (simp add: get_extent_size_def)
  have "rm_ok ?m"
    using ok i j distinct_swap[of ?t i j] unfolding rm_ok_def e num_extents_def
    by (auto simp: nth_list_update)
  moreover have "view ?m = (view m)[i := view m ! j, j := view m ! i]"
    using i j by (simp add: view_def num_extents_def map_update)
  ultimately show ?thesis using s e by (intro exI[of _ ?m]) simp
qed

lemma store_view:
  assumes ok: "rm_ok m" and i: "i < num_extents m"
  shows "\<exists>m'. store_extent m i x = Some m' \<and> rm_ok m' \<and> view m' = (view m)[i := x]
    \<and> get_extent_size m' = get_extent_size m \<and> m_max_memory m' = m_max_memory m"
proof -
  let ?p = "m_translation_map m ! i"
  let ?m = "m\<lparr>m_physical := (m_physical m)[?p := x]\<rparr>"
  have p: "m_page_table m ! i = ?p" "?p < length (m_physical m)" "i < length (m_page_table m)"
    using ok i by (simp_all add: rm_ok_def num_extents_def)
  have e: "get_extent_size ?m = get_extent_size m" by (simp add: get_extent_size_def)
  have "rm_ok ?m" using ok unfolding rm_ok_def e by simp
  moreover have "view ?m = (view m)[i := x]"
  proof (rule nth_equalityI)
    fix k assume "k < length (view ?m)"
    then have k: "k < length (m_translation_map m)" by (simp add: num_extents_def)
    have "m_translation_map m ! k = ?p \<longleftrightarrow> k = i"
      using ok i k by (simp add: rm_ok_def num_extents_def nth_eq_iff_index_eq)
    then show "view ?m ! k = (view m)[i := x] ! k"
      using k p(2) i by (auto simp: view_def nth_list_update num_extents_def)
  qed (simp add: num_extents_def)
  ultimately show ?thesis using p e by (intro exI[of _ ?m]) (simp add: store_extent_def)
qed

lemma extend_view:
  assumes ok: "rm_ok m" and room: "get_extent_size m * (num_extents m + n) \<le> m_max_memory m"
  shows "\<exists>m'. extend_memory zero m n = Some m' \<and> rm_ok m' \<and> view m' = view m @ replicate n zero
    \<and> get_extent_size m' = get_extent_size m \<and> m_max_memory m' = m_max_memory m"
proof (cases "n = 0")
  case True
  then show ?thesis using ok by (simp add: extend_memory_def)
next
  case False
  let ?len = "num_extents m" and ?E = "get_extent_size m"
  let ?m = "m\<lparr>m_physical := m_physical m @ replicate n zero,
    m_translation_map := m_translation_map m @ map (\<lambda>i. ?len + i) [0..<n]\<rparr>"
  have E: "0 < ?E" and lp: "length (m_physical m) = ?len" using ok by (simp_all add: rm_ok_def num_extents_def)
  have bytes: "get_allocated_memory_size m + n * ?E = ?E * (?len + n)"
    by (simp add: get_allocated_memory_size_def get_allocated_extents_def num_extents_def algebra_simps)
  have x: "extend_memory zero m n = Some ?m"
    using False room E unfolding extend_memory_def Let_def bytes
    by (simp add: get_max_memory_def lp num_extents_def)
  have e: "get_extent_size ?m = ?E" by (simp add: get_extent_size_def)
  have t: "m_translation_map ?m = m_translation_map m @ [?len..<?len + n]"
    by (simp add: map_add_upt add.commute)
  have pt: "?len + n \<le> length (m_page_table m)"
    using ok room E by (simp add: rm_ok_def less_eq_div_iff_mult_less_eq mult.commute)
  have lt: "m_translation_map m ! i < ?len" if "i < ?len" for i
    using ok that by (simp add: rm_ok_def num_extents_def)
  then have "distinct (m_translation_map ?m)"
    using ok unfolding t by (auto simp: rm_ok_def in_set_conv_nth num_extents_def dest!: leD)
  then have "rm_ok ?m"
    using ok pt E lt unfolding rm_ok_def e t
    by (auto simp: rm_ok_def num_extents_def nth_append less_imp_le intro: less_le_trans)
  moreover have "view ?m = view m @ replicate n zero"
  proof (rule nth_equalityI)
    fix k assume "k < length (view ?m)"
    then have k: "k < ?len + n" by (simp add: num_extents_def)
    show "view ?m ! k = (view m @ replicate n zero) ! k"
    proof (cases "k < ?len")
      case True
      then have "m_translation_map m ! k < length (m_physical m)"
        using ok by (simp add: rm_ok_def num_extents_def)
      then show ?thesis using True by (simp add: view_def nth_append num_extents_def)
    next
      case False
      then show ?thesis using k lp by (simp add: view_def nth_append num_extents_def)
    qed
  qed (simp add: num_extents_def)
  ultimately show ?thesis using x e by (intro exI[of _ ?m]) simp
qed

lemma new_rewired_view:
  assumes "0 < page_size" "0 < pages" "0 < n" "page_size * pages * n \<le> max_memory"
  shows "\<exists>m. new_rewired page_size zero pages n max_memory = Some m \<and> rm_ok m \<and> view m = replicate n zero
    \<and> get_extent_size m = page_size * pages \<and> m_max_memory m = max_memory"
proof -
  have "n \<le> max_memory div (page_size * pages)"
    using assms by (simp add: less_eq_div_iff_mult_less_eq mult.commute)
  then show ?thesis
    using assms by (auto simp: new_rewired_def rm_ok_def view_def get_extent_size_def intro!: nth_equalityI)
qed

section \<open>BufferedRewiredMemory\<close>

text \<open>The user space is the first \<open>user b\<close> extents; the buffers are the extents behind it.\<close>

definition user :: "'a BufferedRewiredMemory \<Rightarrow> nat" where
  "user b = num_extents (m_instance b) - m_allocated_buffers b"

definition buf_ok :: "'a BufferedRewiredMemory \<Rightarrow> bool" where
  "buf_ok b \<longleftrightarrow> rm_ok (m_instance b) \<and> m_allocated_buffers b \<le> num_extents (m_instance b)
     \<and> m_buffer_start_address b = addr_of (m_instance b) (user b)
     \<and> length (m_buffers b) \<le> m_allocated_buffers b \<and> distinct (m_buffers b)
     \<and> (\<forall>a \<in> set (m_buffers b). \<exists>i. user b \<le> i \<and> i < num_extents (m_instance b) \<and> a = addr_of (m_instance b) i)"

definition user_view :: "'a BufferedRewiredMemory \<Rightarrow> 'a list list" where
  "user_view b = take (user b) (view (m_instance b))"

lemma length_user_view [simp]: "length (user_view b) = user b"
  by (simp add: user_view_def user_def)

lemma addr_of_less: "rm_ok m \<Longrightarrow> addr_of m i < addr_of m j \<longleftrightarrow> i < j"
  by (simp add: addr_of_def rm_ok_def)

lemma addr_of_cong: "get_extent_size m' = get_extent_size m \<Longrightarrow> addr_of m' = addr_of m"
  by (simp add: addr_of_def fun_eq_iff)

lemma fold_push_front: "fold (\<lambda>i ds. f i # ds) xs ys = rev (map f xs) @ ys"
  by (induction xs arbitrary: ys) simp_all

lemma add_buffers_ok:
  assumes ok: "buf_ok b" and empty: "m_buffers b = []" and n: "0 < n"
    and room: "get_extent_size (m_instance b) * (num_extents (m_instance b) + n) \<le> m_max_memory (m_instance b)"
  shows "\<exists>b'. add_buffers zero b n = Some b' \<and> buf_ok b' \<and> user_view b' = user_view b \<and> user b' = user b
    \<and> length (m_buffers b') = n \<and> m_allocated_buffers b' = m_allocated_buffers b + n
    \<and> get_extent_size (m_instance b') = get_extent_size (m_instance b)"
proof -
  let ?m = "m_instance b" and ?N = "num_extents (m_instance b)"
  have rm: "rm_ok ?m" and le: "m_allocated_buffers b \<le> ?N" using ok by (simp_all add: buf_ok_def)
  obtain m' where m': "extend_memory zero ?m n = Some m'" "rm_ok m'" "view m' = view ?m @ replicate n zero"
      "get_extent_size m' = get_extent_size ?m"
    using extend_view[OF rm room] by blast
  have N: "num_extents m' = ?N + n" using arg_cong[OF m'(3), of length] by simp
  let ?space = "m_buffer_start_address b + int (get_extent_size m' * get_total_buffers b)"
  let ?bufs = "rev (map (\<lambda>i. ?space + int (i * get_extent_size m')) [0..<n])"
  let ?b = "b\<lparr>m_instance := m', m_buffers := ?bufs, m_allocated_buffers := m_allocated_buffers b + n\<rparr>"
  have r: "add_buffers zero b n = Some ?b"
    using m'(1) empty by (simp add: add_buffers_def Let_def fold_push_front)
  have u: "user ?b = user b" using N le by (simp add: user_def)
  have sp: "?space + int (i * get_extent_size m') = addr_of m' (?N + i)" for i
  proof -
    have "int (user b * get_extent_size m') + int (get_extent_size m' * m_allocated_buffers b)
        = int (?N * get_extent_size m')"
      using le by (simp add: user_def algebra_simps of_nat_diff flip: of_nat_mult of_nat_add)
    then show ?thesis
      using ok m'(4) by (simp add: buf_ok_def addr_of_def get_total_buffers_def algebra_simps)
  qed
  have bufs: "?bufs = rev (map (\<lambda>i. addr_of m' (?N + i)) [0..<n])" by (simp only: sp)
  have "distinct ?bufs" unfolding sp distinct_rev by (rule distinct_addrs[OF m'(2)]) simp_all
  moreover have "\<exists>i. user ?b \<le> i \<and> i < num_extents m' \<and> a = addr_of m' i" if am: "a \<in> set ?bufs" for a
  proof -
    obtain k where "k < n" "a = addr_of m' (?N + k)" using am unfolding bufs by auto
    then show ?thesis using N unfolding u by (intro exI[of _ "?N + k"]) (simp add: user_def)
  qed
  moreover have "m_buffer_start_address b = addr_of m' (user ?b)"
    using ok addr_of_cong[OF m'(4)] unfolding u by (simp add: buf_ok_def)
  ultimately have "buf_ok ?b" using m'(2) N le by (simp add: buf_ok_def)
  moreover have "user_view ?b = user_view b" using u m'(3) by (simp add: user_view_def user_def)
  ultimately show ?thesis using r u m'(4) by (intro exI[of _ ?b]) simp
qed

text \<open>How many extents the buffers may still grow by.\<close>

definition buffer_room :: "'a BufferedRewiredMemory \<Rightarrow> bool" where
  "buffer_room b \<longleftrightarrow>
     get_extent_size (m_instance b) * (num_extents (m_instance b) + max 4 (m_allocated_buffers b div 2))
       \<le> m_max_memory (m_instance b)"

lemma acquire_ok:
  assumes ok: "buf_ok b" and room: "m_buffers b \<noteq> [] \<or> buffer_room b"
  shows "\<exists>i b'. acquire_buffer zero b = Some (addr_of (m_instance b) i, b') \<and> buf_ok b'
    \<and> user_view b' = user_view b \<and> user b \<le> i \<and> i < num_extents (m_instance b')
    \<and> addr_of (m_instance b) i \<notin> set (m_buffers b') \<and> length (m_buffers b') < m_allocated_buffers b'
    \<and> user b' = user b \<and> get_extent_size (m_instance b') = get_extent_size (m_instance b)
    \<and> m_allocated_buffers b' - length (m_buffers b') = Suc (m_allocated_buffers b - length (m_buffers b))
    \<and> m_allocated_buffers b' = m_allocated_buffers b + (if m_buffers b = [] then max 4 (m_allocated_buffers b div 2) else 0)"
proof -
  obtain b1 where b1: "(if m_buffers b = [] then add_buffers zero b (max 4 (m_allocated_buffers b div 2)) else Some b) = Some b1"
    "buf_ok b1" "user_view b1 = user_view b" "user b1 = user b" "m_buffers b1 \<noteq> []"
    "get_extent_size (m_instance b1) = get_extent_size (m_instance b)"
    "m_allocated_buffers b1 - length (m_buffers b1) = m_allocated_buffers b - length (m_buffers b)"
    "m_allocated_buffers b1 = m_allocated_buffers b + (if m_buffers b = [] then max 4 (m_allocated_buffers b div 2) else 0)"
  proof (cases "m_buffers b = []")
    case True
    let ?n = "max 4 (m_allocated_buffers b div 2)"
    have "0 < ?n" by simp
    then obtain b1 where b1: "add_buffers zero b ?n = Some b1" "buf_ok b1" "user_view b1 = user_view b" "user b1 = user b"
        "length (m_buffers b1) = ?n" "m_allocated_buffers b1 = m_allocated_buffers b + ?n"
        "get_extent_size (m_instance b1) = get_extent_size (m_instance b)"
      using add_buffers_ok[OF ok True, of ?n zero] room True unfolding buffer_room_def by blast
    moreover have "m_buffers b1 \<noteq> []" using b1(5) by auto
    ultimately show ?thesis using that[of b1] True ok by (simp add: buf_ok_def)
  next
    case False
    then show ?thesis using that[of b] ok by simp
  qed
  have len: "length (m_buffers b1) \<le> m_allocated_buffers b1" and d: "distinct (m_buffers b1)"
    using b1(2) by (simp_all add: buf_ok_def)
  let ?b = "b1\<lparr>m_buffers := butlast (m_buffers b1)\<rparr>"
  obtain i where i: "user b1 \<le> i" "i < num_extents (m_instance b1)" "last (m_buffers b1) = addr_of (m_instance b1) i"
    using b1(2,5) last_in_set[OF b1(5)] unfolding buf_ok_def by blast
  have u: "user ?b = user b1" by (simp add: user_def)
  have "buf_ok ?b"
    using b1(2) len unfolding buf_ok_def u by (auto simp: distinct_butlast dest: in_set_butlastD)
  moreover have "last (m_buffers b1) \<notin> set (butlast (m_buffers b1))"
    using d b1(5) by (metis append_butlast_last_id distinct_append not_distinct_conv_prefix distinct_butlast
        disjoint_iff list.set_intros(1))
  moreover have "acquire_buffer zero b = Some (last (m_buffers b1), ?b)"
    using b1(1,5) by (simp add: acquire_buffer_def)
  moreover have "user_view ?b = user_view b1" by (simp add: user_view_def user_def)
  moreover have "0 < length (m_buffers b1)" using b1(5) by simp
  then have "m_allocated_buffers b1 - (length (m_buffers b1) - 1) = Suc (m_allocated_buffers b - length (m_buffers b))
      \<and> length (m_buffers b1) - 1 < m_allocated_buffers b1"
    using len b1(7) by linarith
  then have "m_allocated_buffers ?b - length (m_buffers ?b) = Suc (m_allocated_buffers b - length (m_buffers b))"
    "length (m_buffers ?b) < m_allocated_buffers ?b" by simp_all
  moreover have "addr_of (m_instance b1) = addr_of (m_instance b)" by (rule addr_of_cong[OF b1(6)])
  ultimately show ?thesis
    using i b1(3,4,6) b1(8)[symmetric] u by (intro exI[of _ i] exI[of _ ?b]) simp
qed

lemma swap_and_release_ok:
  assumes ok: "buf_ok b" and i: "i < user b" and j: "user b \<le> j" "j < num_extents (m_instance b)"
    and free: "addr_of (m_instance b) j \<notin> set (m_buffers b)" "length (m_buffers b) < m_allocated_buffers b"
  shows "\<exists>b'. swap_and_release b (addr_of (m_instance b) i) (addr_of (m_instance b) j) = Some b' \<and> buf_ok b'
    \<and> user b' = user b \<and> user_view b' = (user_view b)[i := view (m_instance b) ! j]
    \<and> get_extent_size (m_instance b') = get_extent_size (m_instance b)
    \<and> m_buffers b' = m_buffers b @ [addr_of (m_instance b) j] \<and> m_allocated_buffers b' = m_allocated_buffers b"
proof -
  let ?m = "m_instance b"
  have rm: "rm_ok ?m" and start: "m_buffer_start_address b = addr_of ?m (user b)"
    using ok by (simp_all add: buf_ok_def)
  have iN: "i < num_extents ?m" using i by (simp add: user_def)
  obtain m' where m': "swap_extents ?m (addr_of ?m i) (addr_of ?m j) = Some m'" "rm_ok m'"
      "view m' = (view ?m)[i := view ?m ! j, j := view ?m ! i]" "get_extent_size m' = get_extent_size ?m"
    using swap_extents_view[OF rm iN j(2)] i j(1) by auto
  let ?b = "b\<lparr>m_instance := m', m_buffers := m_buffers b @ [addr_of ?m j]\<rparr>"
  have "\<not> m_buffer_start_address b \<le> addr_of ?m i" "m_buffer_start_address b \<le> addr_of ?m j"
    using i j start addr_of_less[OF rm] by (simp_all add: not_less[symmetric])
  then have r: "swap_and_release b (addr_of ?m i) (addr_of ?m j) = Some ?b"
    using m'(1) by (simp add: swap_and_release_def)
  have N: "num_extents m' = num_extents ?m" using arg_cong[OF m'(3), of length] by simp
  have u: "user ?b = user b" using N by (simp add: user_def)
  have a: "addr_of m' = addr_of ?m" by (rule addr_of_cong[OF m'(4)])
  have "buf_ok ?b" using ok m'(2) N free j unfolding buf_ok_def u by (auto simp: a)
  moreover have "user_view ?b = (user_view b)[i := view ?m ! j]"
    using m'(3) u i j(1) by (simp add: user_view_def take_update_swap list_update_beyond)
  ultimately show ?thesis using r u m'(4) by (intro exI[of _ ?b]) simp
qed

lemma store_buffer_ok:
  assumes ok: "buf_ok b" and j: "user b \<le> j" "j < num_extents (m_instance b)"
  shows "\<exists>m'. store_extent (m_instance b) j x = Some m' \<and> buf_ok (b\<lparr>m_instance := m'\<rparr>)
    \<and> user (b\<lparr>m_instance := m'\<rparr>) = user b \<and> user_view (b\<lparr>m_instance := m'\<rparr>) = user_view b
    \<and> view m' ! j = x \<and> get_extent_size m' = get_extent_size (m_instance b) \<and> num_extents m' = num_extents (m_instance b)"
proof -
  have rm: "rm_ok (m_instance b)" using ok by (simp add: buf_ok_def)
  obtain m' where m': "store_extent (m_instance b) j x = Some m'" "rm_ok m'" "view m' = (view (m_instance b))[j := x]"
      "get_extent_size m' = get_extent_size (m_instance b)"
    using store_view[OF rm j(2)] by blast
  have N: "num_extents m' = num_extents (m_instance b)" using arg_cong[OF m'(3), of length] by simp
  have u: "user (b\<lparr>m_instance := m'\<rparr>) = user b" using N by (simp add: user_def)
  have a: "addr_of m' = addr_of (m_instance b)" by (rule addr_of_cong[OF m'(4)])
  have "buf_ok (b\<lparr>m_instance := m'\<rparr>)" using ok m'(2) N unfolding buf_ok_def u by (simp add: a)
  moreover have "user_view (b\<lparr>m_instance := m'\<rparr>) = user_view b"
    using m'(3) u j(1) by (simp add: user_view_def)
  ultimately show ?thesis using m' u N j(2) by simp
qed

lemma extend_buffered_ok:
  assumes ok: "buf_ok b" and idle: "get_used_buffers b = Some 0" and n: "0 < n"
    and room: "get_extent_size (m_instance b) * (user b + n) \<le> m_max_memory (m_instance b)"
  shows "\<exists>b'. extend_buffered zero b n = Some b' \<and> buf_ok b' \<and> get_used_buffers b' = Some 0
    \<and> user b' = user b + n \<and> take (user b) (user_view b') = user_view b"
proof (cases "n < m_allocated_buffers b")
  case True
  let ?m = "m_instance b" and ?E = "get_extent_size (m_instance b)"
  let ?start = "m_buffer_start_address b + int (n * ?E)" and ?k = "m_allocated_buffers b - n"
  let ?bufs = "rev (map (\<lambda>i. ?start + int (i * ?E)) [0..<?k])"
  let ?b = "b\<lparr>m_buffer_start_address := ?start, m_allocated_buffers := ?k, m_buffers := ?bufs\<rparr>"
  have rm: "rm_ok ?m" and le: "m_allocated_buffers b \<le> num_extents ?m" using ok by (simp_all add: buf_ok_def)
  have r: "extend_buffered zero b n = Some ?b"
    using True n idle by (simp add: extend_buffered_def get_total_buffers_def Let_def fold_push_front)
  have u: "user ?b = user b + n" using True le by (simp add: user_def)
  have sp: "?start + int (i * ?E) = addr_of ?m (user b + n + i)" for i
    using ok by (simp add: buf_ok_def addr_of_def algebra_simps)
  have bufs: "?bufs = rev (map (\<lambda>i. addr_of ?m (user b + n + i)) [0..<?k])" by (simp only: sp)
  have "distinct ?bufs" unfolding sp distinct_rev by (rule distinct_addrs[OF rm]) simp_all
  moreover have "\<exists>i. user ?b \<le> i \<and> i < num_extents ?m \<and> a = addr_of ?m i" if am: "a \<in> set ?bufs" for a
  proof -
    obtain k where "k < ?k" "a = addr_of ?m (user b + n + k)" using am unfolding bufs by auto
    then show ?thesis using le True unfolding u by (intro exI[of _ "user b + n + k"]) (simp add: user_def, linarith)
  qed
  moreover have "?start = addr_of ?m (user ?b)" using sp[of 0] unfolding u by simp
  ultimately have "buf_ok ?b" using rm le by (simp add: buf_ok_def)
  moreover have "take (user b) (user_view ?b) = user_view b" using u by (simp add: user_view_def)
  ultimately show ?thesis using r u by (intro exI[of _ ?b]) (simp add: get_used_buffers_def)
next
  case False
  let ?m = "m_instance b"
  have rm: "rm_ok ?m" and le: "m_allocated_buffers b \<le> num_extents ?m" using ok by (simp_all add: buf_ok_def)
  let ?a = "n - m_allocated_buffers b"
  have "num_extents ?m + ?a = user b + n" using False le by (simp add: user_def)
  then obtain m' where m': "extend_memory zero ?m ?a = Some m'" "rm_ok m'" "view m' = view ?m @ replicate ?a zero"
      "get_extent_size m' = get_extent_size ?m"
    using extend_view[OF rm, of ?a zero] room by auto
  have N: "num_extents m' = user b + n" using arg_cong[OF m'(3), of length] False le by (simp add: user_def)
  let ?b = "b\<lparr>m_instance := m', m_allocated_buffers := 0, m_buffers := [],
    m_buffer_start_address := int (get_allocated_memory_size m')\<rparr>"
  have r: "extend_buffered zero b n = Some ?b"
    using False n idle m'(1) by (simp add: extend_buffered_def get_total_buffers_def Let_def)
  have "buf_ok ?b" using m'(2)
    by (simp add: buf_ok_def user_def addr_of_def get_allocated_memory_size_def get_allocated_extents_def num_extents_def)
  moreover have "take (user b) (user_view ?b) = user_view b"
    using m'(3) N by (simp add: user_view_def user_def)
  ultimately show ?thesis using r N by (intro exI[of _ ?b]) (simp add: user_def get_used_buffers_def)
qed

lemma shrink_buffered_ok:
  assumes ok: "buf_ok b" and idle: "get_used_buffers b = Some 0" and n: "0 < n" "n \<le> user b"
  shows "\<exists>b'. shrink_buffered b n = Some b' \<and> buf_ok b' \<and> get_used_buffers b' = Some 0
    \<and> user b' = user b - n \<and> user_view b' = take (user b - n) (user_view b)
    \<and> m_instance b' = m_instance b \<and> m_allocated_buffers b' = m_allocated_buffers b + n"
proof -
  let ?m = "m_instance b" and ?E = "get_extent_size (m_instance b)"
  have rm: "rm_ok ?m" and le: "m_allocated_buffers b \<le> num_extents ?m"
    and start: "m_buffer_start_address b = addr_of ?m (user b)" using ok by (simp_all add: buf_ok_def)
  let ?new = "rev (map (\<lambda>i. m_buffer_start_address b - int (Suc i * ?E)) [0..<n])"
  let ?b = "b\<lparr>m_buffers := ?new @ m_buffers b, m_allocated_buffers := m_allocated_buffers b + n,
    m_buffer_start_address := m_buffer_start_address b - int (n * ?E)\<rparr>"
  have r: "shrink_buffered b n = Some ?b"
    using n idle le by (simp add: shrink_buffered_def get_total_buffers_def get_allocated_extents_def Let_def
        fold_push_front user_def num_extents_def)
  have u: "user ?b = user b - n" using n(2) by (simp add: user_def)
  have sp: "m_buffer_start_address b - int (k * ?E) = addr_of ?m (user b - k)" if "k \<le> n" for k
    using start that n(2) by (simp add: addr_of_def algebra_simps of_nat_diff)
  have new: "a \<in> set ?new \<longleftrightarrow> (\<exists>k < n. a = addr_of ?m (user b - Suc k))" for a
    using sp[of "Suc _"] by (auto simp del: of_nat_mult of_nat_Suc mult_Suc)
  have "distinct ?new"
  proof -
    have "inj_on (\<lambda>i. m_buffer_start_address b - int (Suc i * ?E)) {0..<n}"
    proof (rule inj_onI)
      fix x y assume "x \<in> {0..<n}" "y \<in> {0..<n}"
        "m_buffer_start_address b - int (Suc x * ?E) = m_buffer_start_address b - int (Suc y * ?E)"
      then have "addr_of ?m (user b - Suc x) = addr_of ?m (user b - Suc y)"
        by (metis Suc_leI atLeastLessThan_iff sp)
      then have "user b - Suc x = user b - Suc y" using addr_of_inj[OF rm] by simp
      then show "x = y" using n(2) \<open>x \<in> _\<close> \<open>y \<in> _\<close> by simp
    qed
    then show ?thesis by (simp add: distinct_map del: of_nat_mult of_nat_Suc mult_Suc)
  qed
  moreover have "a \<notin> set (m_buffers b)" if an: "a \<in> set ?new" for a
  proof
    assume "a \<in> set (m_buffers b)"
    then obtain i where "user b \<le> i" "a = addr_of ?m i" using ok by (auto simp: buf_ok_def)
    moreover obtain k where "k < n" "a = addr_of ?m (user b - Suc k)" using an new by blast
    ultimately show False using addr_of_inj[OF rm] n(2) by auto
  qed
  moreover have "\<exists>i. user ?b \<le> i \<and> i < num_extents ?m \<and> a = addr_of ?m i" if au: "a \<in> set ?new \<union> set (m_buffers b)" for a
  proof (cases "a \<in> set ?new")
    case True
    then obtain k where "k < n" "a = addr_of ?m (user b - Suc k)" using new by blast
    then show ?thesis using n(2) unfolding u by (intro exI[of _ "user b - Suc k"]) (auto simp: user_def)
  next
    case False
    then show ?thesis using au ok unfolding u buf_ok_def by (meson Un_iff diff_le_self le_trans)
  qed
  ultimately have "buf_ok ?b"
    using ok n(2) sp[of n] unfolding buf_ok_def u by (auto simp: user_def)
  moreover have "user_view ?b = take (user b - n) (user_view b)" using u by (simp add: user_view_def)
  moreover have "get_used_buffers ?b = Some 0" using idle by (auto simp: get_used_buffers_def split: if_splits)
  ultimately show ?thesis using r u by (intro exI[of _ ?b]) simp
qed

end
