(* ===== verification/Rewired_Properties.thy ===== *)
theory Rewired_Properties
  imports Rewired_Proofs
begin

text \<open>
  The contract of rewiring that the spreads of the packed memory arrays rely on (\<open>rewiring\<close>), its
  interpretation on \<open>BufferedRewiredMemory\<close>, and the properties of the two classes.
\<close>

section \<open>Runs of operations on the rewired memory\<close>

datatype 'a rop = Swap nat nat | Store nat "'a list" | Extend nat

fun list_op :: "'a list \<Rightarrow> nat \<Rightarrow> 'a rop \<Rightarrow> 'a list list \<Rightarrow> 'a list list option" where
  "list_op zero limit (Swap i j) xs =
     (if i < length xs \<and> j < length xs \<and> i \<noteq> j then Some (xs[i := xs ! j, j := xs ! i]) else None)"
| "list_op zero limit (Store i x) xs = (if i < length xs then Some (xs[i := x]) else None)"
| "list_op zero limit (Extend n) xs = (if length xs + n \<le> limit then Some (xs @ replicate n zero) else None)"

fun memory_op :: "'a list \<Rightarrow> 'a rop \<Rightarrow> 'a RewiredMemory \<Rightarrow> 'a RewiredMemory option" where
  "memory_op zero (Swap i j) m = swap_extents m (int (i * get_extent_size m)) (int (j * get_extent_size m))"
| "memory_op zero (Store i x) m = store_extent m i x"
| "memory_op zero (Extend n) m = extend_memory zero m n"

fun run_ops :: "('p \<Rightarrow> 's \<Rightarrow> 's option) \<Rightarrow> 'p list \<Rightarrow> 's \<Rightarrow> 's option" where
  "run_ops f [] s = Some s"
| "run_ops f (p # ps) s = do { s' \<leftarrow> f p s; run_ops f ps s' }"

lemma memory_op_list:
  assumes ok: "rm_ok m" and limit: "get_extent_size m * limit \<le> m_max_memory m"
    and op: "list_op zero limit p (view m) = Some xs"
  shows "\<exists>m'. memory_op zero p m = Some m' \<and> rm_ok m' \<and> view m' = xs
    \<and> get_extent_size m' = get_extent_size m \<and> m_max_memory m' = m_max_memory m"
proof (cases p)
  case (Swap i j)
  then show ?thesis
    using op swap_extents_view[OF ok, of i j] by (auto simp: addr_of_def split: if_splits)
next
  case (Store i x)
  then show ?thesis using op store_view[OF ok, of i x] by (auto split: if_splits)
next
  case (Extend n)
  then have n: "num_extents m + n \<le> limit" "xs = view m @ replicate n zero" using op by (auto split: if_splits)
  have "get_extent_size m * (num_extents m + n) \<le> get_extent_size m * limit" using n(1) by (rule mult_le_mono2)
  also note limit
  finally show ?thesis using extend_view[OF ok, of n zero] Extend n(2) by auto
qed

lemma run_memory_list:
  "rm_ok m \<Longrightarrow> get_extent_size m * limit \<le> m_max_memory m \<Longrightarrow> run_ops (list_op zero limit) ps (view m) = Some xs \<Longrightarrow>
    \<exists>m'. run_ops (memory_op zero) ps m = Some m' \<and> rm_ok m' \<and> view m' = xs"
proof (induction ps arbitrary: m)
  case (Cons p ps)
  obtain ys where ys: "list_op zero limit p (view m) = Some ys" "run_ops (list_op zero limit) ps ys = Some xs"
    using Cons.prems(3) by (auto split: Option.bind_splits)
  obtain m1 where m1: "memory_op zero p m = Some m1" "rm_ok m1" "view m1 = ys"
      "get_extent_size m1 = get_extent_size m" "m_max_memory m1 = m_max_memory m"
    using memory_op_list[OF Cons.prems(1,2) ys(1)] by blast
  then show ?case using Cons.IH[of m1] Cons.prems(2) ys(2) by simp
qed simp

section \<open>The contract of rewiring\<close>

locale rewiring =
  fixes ok :: "'b \<Rightarrow> bool"
    and content :: "'b \<Rightarrow> 'a list list"
    and rewrite :: "'b \<Rightarrow> nat \<Rightarrow> 'a list \<Rightarrow> 'b option"
  assumes rewrite_content: "ok b \<Longrightarrow> i < length (content b) \<Longrightarrow>
      \<exists>b'. rewrite b i x = Some b' \<and> ok b' \<and> content b' = (content b)[i := x]"
begin

lemma rewrite_all:
  "ok b \<Longrightarrow> \<forall>(i, x) \<in> set ps. i < length (content b) \<Longrightarrow>
    \<exists>b'. run_ops (\<lambda>(i, x) b. rewrite b i x) ps b = Some b' \<and> ok b'
      \<and> content b' = fold (\<lambda>(i, x) xs. xs[i := x]) ps (content b)"
proof (induction ps arbitrary: b)
  case (Cons p ps)
  obtain i x where p: "p = (i, x)" by (cases p)
  obtain b1 where b1: "rewrite b i x = Some b1" "ok b1" "content b1 = (content b)[i := x]"
    using rewrite_content[OF Cons.prems(1), of i x] Cons.prems(2) p by auto
  have "\<forall>(i, x) \<in> set ps. i < length (content b1)" using Cons.prems(2) b1(3) by auto
  then show ?case using Cons.IH[OF b1(2)] b1 p by auto
qed simp

end

text \<open>What a spread does for one extent: take a buffer, fill it, swap it with the extent.\<close>

definition rewrite_extent :: "'a list \<Rightarrow> 'a BufferedRewiredMemory \<Rightarrow> nat \<Rightarrow> 'a list \<Rightarrow> 'a BufferedRewiredMemory option" where
  "rewrite_extent zero b i x = do {
     (buffer, b) \<leftarrow> acquire_buffer zero b;
     m \<leftarrow> store_extent (m_instance b) (nat (buffer div int (get_extent_size (m_instance b)))) x;
     swap_and_release (b\<lparr>m_instance := m\<rparr>) (int (i * get_extent_size m)) buffer }"

definition idle_ok :: "nat \<Rightarrow> 'a BufferedRewiredMemory \<Rightarrow> bool" where
  "idle_ok K b \<longleftrightarrow> buf_ok b \<and> m_allocated_buffers b \<le> max 4 K \<and> get_used_buffers b = Some 0 \<and> (m_buffers b \<noteq> [] \<or> buffer_room b)"

lemma rewrite_extent_ok:
  assumes ok: "idle_ok K b" and i: "i < user b"
  shows "\<exists>b'. rewrite_extent zero b i x = Some b' \<and> idle_ok K b' \<and> user_view b' = (user_view b)[i := x]"
proof -
  have bok: "buf_ok b" and room: "m_buffers b \<noteq> [] \<or> buffer_room b" and
    used: "m_allocated_buffers b - length (m_buffers b) = 0"
    using ok by (auto simp: idle_ok_def get_used_buffers_def split: if_splits)
  let ?E = "get_extent_size (m_instance b)"
  have E: "0 < ?E" using bok by (simp add: buf_ok_def rm_ok_def)
  obtain j b1 where b1: "acquire_buffer zero b = Some (addr_of (m_instance b) j, b1)" "buf_ok b1"
      "user_view b1 = user_view b" "user b \<le> j" "j < num_extents (m_instance b1)"
      "addr_of (m_instance b) j \<notin> set (m_buffers b1)" "length (m_buffers b1) < m_allocated_buffers b1"
      "user b1 = user b" "get_extent_size (m_instance b1) = ?E"
      "m_allocated_buffers b1 - length (m_buffers b1) = Suc (m_allocated_buffers b - length (m_buffers b))"
      "m_allocated_buffers b1 = m_allocated_buffers b + (if m_buffers b = [] then max 4 (m_allocated_buffers b div 2) else 0)"
    using acquire_ok[OF bok room] by blast
  have a: "addr_of (m_instance b) = addr_of (m_instance b1)" by (rule addr_of_cong[OF b1(9)[symmetric]])
  have j: "nat (addr_of (m_instance b) j div int ?E) = j" using E by (simp add: addr_of_def)
  obtain m' where m': "store_extent (m_instance b1) j x = Some m'" "buf_ok (b1\<lparr>m_instance := m'\<rparr>)"
      "user (b1\<lparr>m_instance := m'\<rparr>) = user b1" "user_view (b1\<lparr>m_instance := m'\<rparr>) = user_view b1"
      "view m' ! j = x" "get_extent_size m' = get_extent_size (m_instance b1)" "num_extents m' = num_extents (m_instance b1)"
    using store_buffer_ok[OF b1(2), of j x] b1(4,5,8) by auto
  let ?b = "b1\<lparr>m_instance := m'\<rparr>"
  have a': "addr_of m' = addr_of (m_instance b)" using a addr_of_cong[OF m'(6)] by simp
  obtain b' where b': "swap_and_release ?b (addr_of m' i) (addr_of m' j) = Some b'" "buf_ok b'" "user b' = user ?b"
      "user_view b' = (user_view ?b)[i := x]" "m_buffers b' = m_buffers b1 @ [addr_of m' j]"
      "m_allocated_buffers b' = m_allocated_buffers b1"
    using swap_and_release_ok[OF m'(2), of i j] i b1(4,5,6,7,8) m'(3,5,7) a' by auto
  have ai: "int (i * get_extent_size m') = addr_of m' i" by (simp add: addr_of_def)
  have re: "rewrite_extent zero b i x = Some b'"
    using b1(1,9) j m'(1) b'(1) a' by (simp add: rewrite_extent_def ai del: of_nat_mult)
  have "length (m_buffers b') = m_allocated_buffers b'"
    using b'(5,6) b1(7,10) used by simp
  moreover have "m_allocated_buffers b' \<le> max 4 K" using b1(11) b'(6) used ok by (auto simp: idle_ok_def split: if_splits)
  ultimately have "idle_ok K b'" using b'(2,5) by (simp add: idle_ok_def get_used_buffers_def)
  then show ?thesis using re b'(4) m'(4) b1(3) by simp
qed

interpretation buffered: rewiring "idle_ok K" user_view "rewrite_extent zero" for zero K
  by unfold_locales (use rewrite_extent_ok in auto)

lemma new_buffered_ok:
  assumes "0 < page_size" "0 < pages" "0 < n" "page_size * pages * (n + 4) \<le> 2 ^ 35"
  shows "\<exists>b. new_buffered page_size zero pages n = Some b \<and> idle_ok K b \<and> user_view b = replicate n zero
    \<and> get_extent_size (m_instance b) = page_size * pages"
proof -
  have "page_size * pages * n \<le> page_size * pages * (n + 4)" by (rule mult_le_mono2) simp
  also note assms(4)
  finally obtain m where m: "new_rewired page_size zero pages n (2 ^ 35) = Some m" "rm_ok m" "view m = replicate n zero"
      "get_extent_size m = page_size * pages" "m_max_memory m = 2 ^ 35"
    using new_rewired_view[OF assms(1-3), of "2 ^ 35" zero] by blast
  have N: "num_extents m = n" using arg_cong[OF m(3), of length] by simp
  let ?b = "\<lparr>m_instance = m, m_buffer_start_address = int (get_allocated_memory_size m), m_allocated_buffers = 0, m_buffers = []\<rparr>"
  have "new_buffered page_size zero pages n = Some ?b" using m(1) by (simp add: new_buffered_def)
  moreover have "idle_ok K ?b"
    using m(2,4,5) N assms(4) by (simp add: idle_ok_def buf_ok_def user_def addr_of_def get_allocated_memory_size_def
        get_allocated_extents_def num_extents_def get_used_buffers_def buffer_room_def mult.commute)
  moreover have "user_view ?b = replicate n zero" using m(3) N by (simp add: user_view_def user_def)
  ultimately show ?thesis using m(4) by auto
qed

lemma length_fold_update: "length (fold (\<lambda>(i, x) xs. xs[i := x]) ps (replicate n z)) = n"
  by (induction ps rule: rev_induct) auto

lemma load_user_prefix:
  assumes ok: "buf_ok b" and k: "k \<le> user b"
  shows "map (load_extent (m_instance b)) [0..<k] = map Some (take k (user_view b))"
proof (rule nth_equalityI)
  fix i assume "i < length (map (load_extent (m_instance b)) [0..<k])"
  then have "i < k" "i < user b" "i < num_extents (m_instance b)" using k by (simp_all add: user_def)
  then show "map (load_extent (m_instance b)) [0..<k] ! i = map Some (take k (user_view b)) ! i"
    using load_view[of "m_instance b" i] ok k by (simp add: buf_ok_def user_view_def)
qed (use k in simp)

lemma load_user: "idle_ok K b \<Longrightarrow> user b = n \<Longrightarrow> map (load_extent (m_instance b)) [0..<n] = map Some (user_view b)"
  using load_user_prefix[of b n] by (simp add: idle_ok_def)

lemma extend_shrunk_ok:
  assumes ok: "buf_ok b" and idle: "get_used_buffers b = Some 0" and n: "0 < n" "n \<le> m_allocated_buffers b"
  shows "\<exists>b'. extend_buffered zero b n = Some b' \<and> buf_ok b' \<and> get_used_buffers b' = Some 0
    \<and> user b' = user b + n \<and> take (user b) (user_view b') = user_view b
    \<and> num_extents (m_instance b') = num_extents (m_instance b)"
proof -
  let ?m = "m_instance b" and ?E = "get_extent_size (m_instance b)"
  have rm: "rm_ok ?m" and le: "m_allocated_buffers b \<le> num_extents ?m" using ok by (simp_all add: buf_ok_def)
  have "num_extents ?m \<le> m_max_memory ?m div ?E" using rm by (simp add: rm_ok_def num_extents_def)
  then have "num_extents ?m * ?E \<le> m_max_memory ?m" using rm by (simp add: rm_ok_def less_eq_div_iff_mult_less_eq)
  moreover have "user b + n \<le> num_extents ?m" using n(2) le by (simp add: user_def)
  then have "?E * (user b + n) \<le> num_extents ?m * ?E" by (simp add: mult.commute)
  ultimately have room: "?E * (user b + n) \<le> m_max_memory ?m" by (rule order_trans[rotated])
  obtain b' where b': "extend_buffered zero b n = Some b'" "buf_ok b'" "get_used_buffers b' = Some 0"
      "user b' = user b + n" "take (user b) (user_view b') = user_view b"
    using extend_buffered_ok[OF ok idle n(1) room] by blast
  have "num_extents (m_instance b') = num_extents ?m"
    using b'(1) n idle by (auto simp: extend_buffered_def extend_memory_def get_total_buffers_def Let_def split: if_splits)
  then show ?thesis using b' by blast
qed

section \<open>Properties\<close>

text \<open>C37. Rewired memory refines a list of extents: from a new memory, every run of rewirings,
  writes and extensions that is possible on the list (indices in range, distinct extents swapped,
  at most the reserved size) is performed by the class, and what is then read through the virtual
  addresses is the content of the list: only the mapping moved, no extent was lost or copied.\<close>

theorem rewired_refines_extents:
  assumes "0 < page_size" "0 < pages" "0 < n" "page_size * pages * limit \<le> max_memory" "n \<le> limit"
    and "run_ops (list_op zero limit) ps (replicate n zero) = Some xs"
  shows "\<exists>m m'. new_rewired page_size zero pages n max_memory = Some m \<and> run_ops (memory_op zero) ps m = Some m'
    \<and> get_allocated_extents m' = length xs \<and> map (load_extent m') [0..<length xs] = map Some xs"
proof -
  have "page_size * pages * n \<le> page_size * pages * limit" using assms(5) by (rule mult_le_mono2)
  also note assms(4)
  finally obtain m where m: "new_rewired page_size zero pages n max_memory = Some m" "rm_ok m"
      "view m = replicate n zero" "get_extent_size m = page_size * pages" "m_max_memory m = max_memory"
    using new_rewired_view[OF assms(1-3), of max_memory zero] by blast
  obtain m' where m': "run_ops (memory_op zero) ps m = Some m'" "rm_ok m'" "view m' = xs"
    using run_memory_list[OF m(2), of limit zero ps xs] assms(4,6) m(3-5) by auto
  have N: "num_extents m' = length xs" using arg_cong[OF m'(3), of length] by simp
  have "map (load_extent m') [0..<length xs] = map Some xs"
    using load_view[OF m'(2)] N m'(3) by (intro nth_equalityI) simp_all
  then show ?thesis using m(1) m'(1) N by (auto simp: get_allocated_extents_def num_extents_def)
qed

theorem rewired_refines_extents_witness:
  "\<exists>m m'. new_rewired 4096 [0 :: int] 2 2 65536 = Some m
    \<and> run_ops (memory_op [0]) [Store 0 [7], Swap 0 1, Extend 2, Swap 1 3] m = Some m'
    \<and> get_allocated_extents m' = length [[0], [0], [0], [7 :: int]]
    \<and> map (load_extent m') [0..<length [[0], [0], [0], [7 :: int]]] = map Some [[0], [0], [0], [7]]"
  by (rule rewired_refines_extents[where limit = 4]) (simp_all add: numeral_2_eq_2 numeral_3_eq_3)

text \<open>C38. Writing extents through buffers: from a new memory, any sequence of rewrites of user extents
  (take a buffer, fill it, swap it with the extent and release it) succeeds, changes exactly the
  extents it names, and leaves no buffer in use; the buffers are recycled, whatever the length of
  the sequence.\<close>

theorem buffered_rewrites_extents:
  assumes "0 < page_size" "0 < pages" "0 < n" "page_size * pages * (n + 4) \<le> 2 ^ 35" "\<forall>(i, x) \<in> set ps. i < n"
  shows "\<exists>b b'. new_buffered page_size zero pages n = Some b
    \<and> run_ops (\<lambda>(i, x) b. rewrite_extent zero b i x) ps b = Some b' \<and> get_used_buffers b' = Some 0
    \<and> get_total_buffers b' \<le> 4
    \<and> map (load_extent (m_instance b')) [0..<n] = map Some (fold (\<lambda>(i, x) xs. xs[i := x]) ps (replicate n zero))"
proof -
  obtain b where b: "new_buffered page_size zero pages n = Some b" "idle_ok 4 b" "user_view b = replicate n zero"
    using new_buffered_ok[OF assms(1-4), of zero 4] by blast
  obtain b' where b': "run_ops (\<lambda>(i, x) b. rewrite_extent zero b i x) ps b = Some b'" "idle_ok 4 b'"
      "user_view b' = fold (\<lambda>(i, x) xs. xs[i := x]) ps (replicate n zero)"
    using buffered.rewrite_all[OF b(2), of ps zero] assms(5) b(3) by auto
  have "length (fold (\<lambda>(i, x) xs. xs[i := x]) ps (replicate n zero)) = n" by (rule length_fold_update)
  then have "user b' = n" using b'(3) by (metis length_user_view)
  then have "map (load_extent (m_instance b')) [0..<n] = map Some (user_view b')" by (rule load_user[OF b'(2)])
  then show ?thesis using b(1) b' by (auto simp: idle_ok_def get_total_buffers_def)
qed

theorem buffered_rewrites_extents_witness:
  "\<exists>b b'. new_buffered 4096 [0 :: int] 1 2 = Some b
    \<and> run_ops (\<lambda>(i, x) b. rewrite_extent [0] b i x) [(0, [5]), (1, [6]), (0, [7])] b = Some b'
    \<and> get_used_buffers b' = Some 0 \<and> get_total_buffers b' \<le> 4
    \<and> map (load_extent (m_instance b')) [0..<2]
        = map Some (fold (\<lambda>(i, x) xs. xs[i := x]) [(0, [5]), (1, [6]), (0, [7])] (replicate 2 [0]))"
  by (rule buffered_rewrites_extents) simp_all

text \<open>Shrinking and extending: after any rewrites, giving up the last \<open>k\<close> extents and asking for
  \<open>k\<close> extents again succeeds without more physical memory than before, and the remaining extents
  keep their contents, in order, through both operations.\<close>

theorem buffered_shrink_extend:
  assumes "0 < page_size" "0 < pages" "0 < n" "page_size * pages * (n + 4) \<le> 2 ^ 35" "\<forall>(i, x) \<in> set ps. i < n"
    and "0 < k" "k \<le> n"
  shows "\<exists>b b1 b2 b3. new_buffered page_size zero pages n = Some b
    \<and> run_ops (\<lambda>(i, x) b. rewrite_extent zero b i x) ps b = Some b1
    \<and> shrink_buffered b1 k = Some b2 \<and> extend_buffered zero b2 k = Some b3 \<and> get_used_buffers b3 = Some 0
    \<and> get_allocated_extents (m_instance b3) = get_allocated_extents (m_instance b1)
    \<and> map (load_extent (m_instance b3)) [0..<n - k]
        = map Some (take (n - k) (fold (\<lambda>(i, x) xs. xs[i := x]) ps (replicate n zero)))"
proof -
  obtain b where b: "new_buffered page_size zero pages n = Some b" "idle_ok 4 b" "user_view b = replicate n zero"
    using new_buffered_ok[OF assms(1-4), of zero 4] by blast
  let ?xs = "fold (\<lambda>(i, x) xs. xs[i := x]) ps (replicate n zero)"
  obtain b1 where b1: "run_ops (\<lambda>(i, x) b. rewrite_extent zero b i x) ps b = Some b1" "idle_ok 4 b1" "user_view b1 = ?xs"
    using buffered.rewrite_all[OF b(2), of ps zero] assms(5) b(3) by auto
  have "length ?xs = n" by (rule length_fold_update)
  then have n: "user b1 = n" using b1(3) by (metis length_user_view)
  have ok1: "buf_ok b1" "get_used_buffers b1 = Some 0" using b1(2) by (simp_all add: idle_ok_def)
  obtain b2 where b2: "shrink_buffered b1 k = Some b2" "buf_ok b2" "get_used_buffers b2 = Some 0"
      "user b2 = n - k" "user_view b2 = take (n - k) ?xs" "m_instance b2 = m_instance b1"
      "m_allocated_buffers b2 = m_allocated_buffers b1 + k"
    using shrink_buffered_ok[OF ok1 assms(6)] n assms(7) b1(3) by auto
  obtain b3 where b3: "extend_buffered zero b2 k = Some b3" "buf_ok b3" "get_used_buffers b3 = Some 0"
      "user b3 = n - k + k" "take (n - k) (user_view b3) = user_view b2"
      "num_extents (m_instance b3) = num_extents (m_instance b2)"
    using extend_shrunk_ok[OF b2(2,3) assms(6), of zero] b2(4,7) by auto
  have "map (load_extent (m_instance b3)) [0..<n - k] = map Some (take (n - k) (user_view b3))"
    by (rule load_user_prefix[OF b3(2)]) (simp add: b3(4))
  then show ?thesis
    using b(1) b1(1) b2(1,5,6) b3(1,3,5,6) by (auto simp: get_allocated_extents_def num_extents_def)
qed

theorem buffered_shrink_extend_witness:
  "\<exists>b b1 b2 b3. new_buffered 4096 [0 :: int] 1 3 = Some b
    \<and> run_ops (\<lambda>(i, x) b. rewrite_extent [0] b i x) [(0, [5]), (2, [6])] b = Some b1
    \<and> shrink_buffered b1 1 = Some b2 \<and> extend_buffered [0] b2 1 = Some b3 \<and> get_used_buffers b3 = Some 0
    \<and> get_allocated_extents (m_instance b3) = get_allocated_extents (m_instance b1)
    \<and> map (load_extent (m_instance b3)) [0..<3 - 1]
        = map Some (take (3 - 1) (fold (\<lambda>(i, x) xs. xs[i := x]) [(0, [5]), (2, [6])] (replicate 3 [0])))"
  by (rule buffered_shrink_extend) simp_all

end
