(* ===== verification/Detector.thy ===== *)
theory Detector
  imports Doubles "HOL-Library.Monad_Syntax"
begin

text \<open>
  The detector of hammered segments (\<open>pma/adaptive/int1/detector.cpp\<close>, \<open>knobs.cpp\<close>, shared by the
  versions int1 to int3) and the relocation of its entries
  (\<open>pma/adaptive/int3/move_detector_info.cpp\<close>).

  The buffer is the list of its entries. In memory an entry is \<open>m_modulus + 3\<close> words: four 16-bit
  fields packed in the first word, the two keys and the ring of timestamps; a block of zero bytes
  is \<open>zero_section\<close>. The 16-bit fields, the head included, wrap around. \<open>None\<close> is a failed assertion, an exception, a
  division by zero or an access outside the buffer or, for a timestamp, outside the ring of its entry.
\<close>

section \<open>Knobs\<close>

record Knobs =
  m_rank_threshold :: double
  m_segment_threshold :: nat
  m_sequence_threshold :: nat
  m_max_sequence_counter :: nat
  m_max_segment_counter :: nat
  m_sampling_rate :: double
  m_sampling_percentage :: int
  m_thresholds_switch :: int

definition new_knobs :: Knobs where
  "new_knobs = \<lparr>m_rank_threshold = rnd (99 / 100), m_segment_threshold = 6, m_sequence_threshold = 6,
     m_max_sequence_counter = 8, m_max_segment_counter = 10, m_sampling_rate = 1,
     m_sampling_percentage = 100, m_thresholds_switch = 64\<rparr>"

definition set_sampling_rate :: "Knobs \<Rightarrow> double \<Rightarrow> Knobs option" where
  "set_sampling_rate k value =
     (if 0 \<le> value \<and> value \<le> 1
      then Some (k\<lparr>m_sampling_rate := value, m_sampling_percentage := \<lfloor>dmul value 100\<rfloor>\<rparr>) else None)"

definition set_thresholds_switch :: "Knobs \<Rightarrow> int \<Rightarrow> Knobs option" where
  "set_thresholds_switch k value = (if 1 \<le> value then Some (k\<lparr>m_thresholds_switch := value\<rparr>) else None)"

section \<open>Detector\<close>

definition s16 :: "int \<Rightarrow> int" where
  "s16 x = (x + 2 ^ 15) mod 2 ^ 16 - 2 ^ 15"

record Section =
  head :: int
  count_fwd :: int
  count_bwd :: int
  count_segment :: int
  key_fwd :: int
  key_bwd :: int
  timestamps :: "int list"

definition zero_section :: "nat \<Rightarrow> Section" where
  "zero_section modulus = \<lparr>head = 0, count_fwd = 0, count_bwd = 0, count_segment = 0, key_fwd = 0, key_bwd = 0,
     timestamps = replicate modulus 0\<rparr>"

record Detector =
  m_buffer :: "Section list"
  m_modulus :: nat
  m_counter :: int

definition new_detector :: "nat \<Rightarrow> nat \<Rightarrow> Detector" where
  "new_detector num_segments modulus =
     \<lparr>m_buffer = replicate num_segments (zero_section modulus), m_modulus = modulus, m_counter = 0\<rparr>"

definition detector_capacity :: "Detector \<Rightarrow> nat" where
  "detector_capacity d = length (m_buffer d)"

definition sizeof_entry :: "Detector \<Rightarrow> nat" where
  "sizeof_entry d = m_modulus d + 3"

definition clear_all :: "Detector \<Rightarrow> Detector" where
  "clear_all d = d\<lparr>m_buffer := replicate (detector_capacity d) (zero_section (m_modulus d))\<rparr>"

definition clear_section :: "Detector \<Rightarrow> nat \<Rightarrow> Detector option" where
  "clear_section d segment_id =
     (if segment_id < detector_capacity d
      then Some (d\<lparr>m_buffer := (m_buffer d)[segment_id := zero_section (m_modulus d)]\<rparr>) else None)"

definition detector_resize :: "Detector \<Rightarrow> nat \<Rightarrow> Detector" where
  "detector_resize d num_segments = d\<lparr>m_buffer := replicate num_segments (zero_section (m_modulus d))\<rparr>"

text \<open>The three parts of \<open>update\<close>: the segment counter, the sequence counters, the timestamp.\<close>

definition update_segment_counter :: "Knobs \<Rightarrow> int \<Rightarrow> Section \<Rightarrow> Section" where
  "update_segment_counter knobs increment s =
     (if 0 \<le> count_segment s * increment then
        if count_segment s * increment < s16 (int (m_max_segment_counter knobs))
        then s\<lparr>count_segment := s16 (count_segment s + increment)\<rparr> else s
      else s\<lparr>count_segment := s16 (count_segment s + 2 * increment)\<rparr>)"

definition may_count :: "Knobs \<Rightarrow> int \<Rightarrow> int \<Rightarrow> bool" where
  "may_count knobs increment counter \<longleftrightarrow>
     (let sequence_count_max = s16 (int (m_max_sequence_counter knobs)); sequence_count_min = s16 (- sequence_count_max)
      in 0 < increment \<and> counter < sequence_count_max \<or> increment < 0 \<and> sequence_count_min < counter)"

definition update_sequence_counters :: "Knobs \<Rightarrow> int \<Rightarrow> int \<Rightarrow> int \<Rightarrow> Section \<Rightarrow> Section" where
  "update_sequence_counters knobs increment predecessor successor s =
     (if successor = key_bwd s then
        if may_count knobs increment (count_bwd s) then s\<lparr>count_bwd := s16 (count_bwd s + increment)\<rparr> else s
      else if predecessor = key_fwd s then
        if may_count knobs increment (count_fwd s) then s\<lparr>count_fwd := s16 (count_fwd s + increment)\<rparr> else s
      else
        let s = (if count_fwd s = 0 then s\<lparr>count_fwd := s16 (count_fwd s + increment), key_fwd := predecessor\<rparr>
                 else s\<lparr>count_fwd := s16 (count_fwd s - increment)\<rparr>)
        in if count_bwd s = 0 then s\<lparr>count_bwd := s16 (count_bwd s + increment), key_bwd := successor\<rparr>
           else s\<lparr>count_bwd := s16 (count_bwd s - increment)\<rparr>)"

text \<open>\<open>head\<close> is an \<open>int16_t\<close>: past 32767 it turns negative. A head outside the ring of the entry writes
  somewhere else, and a modulus of 0 has no ring and divides by zero.\<close>

definition update_timestamp :: "nat \<Rightarrow> int \<Rightarrow> Section \<Rightarrow> Section option" where
  "update_timestamp modulus timestamp s =
     (if modulus = 0 \<or> head s < 0 \<or> int (length (timestamps s)) \<le> head s then None
      else Some (s\<lparr>timestamps := (timestamps s)[nat (head s) := timestamp], head := s16 ((head s + 1) mod int modulus)\<rparr>))"

definition detector_update :: "Knobs \<Rightarrow> int \<Rightarrow> Detector \<Rightarrow> nat \<Rightarrow> int \<Rightarrow> int \<Rightarrow> Detector option" where
  "detector_update knobs increment d segment predecessor successor =
     (let timestamp = m_counter d + 1; d = d\<lparr>m_counter := timestamp\<rparr> in
      if segment < detector_capacity d then
        let s = m_buffer d ! segment;
            s = update_segment_counter knobs increment s;
            s = update_sequence_counters knobs increment predecessor successor s
        in do {
          s \<leftarrow> update_timestamp (m_modulus d) timestamp s;
          Some (d\<lparr>m_buffer := (m_buffer d)[segment := s]\<rparr>) }
      else None)"

definition detector_insert :: "Knobs \<Rightarrow> Detector \<Rightarrow> nat \<Rightarrow> int \<Rightarrow> int \<Rightarrow> Detector option" where
  "detector_insert knobs d segment predecessor successor = detector_update knobs 1 d segment predecessor successor"

definition detector_remove :: "Knobs \<Rightarrow> Detector \<Rightarrow> nat \<Rightarrow> int \<Rightarrow> int \<Rightarrow> Detector option" where
  "detector_remove knobs d segment predecessor successor = detector_update knobs (- 1) d segment predecessor successor"

text \<open>The timestamps \<open>dump\<close> lists for a segment: from the head backwards, around the ring.\<close>

definition dump_timestamps :: "nat \<Rightarrow> Section \<Rightarrow> int list" where
  "dump_timestamps modulus s =
     filter (\<lambda>t. t \<noteq> 0) (map (\<lambda>h. timestamps s ! h) (rev [0..<nat (head s)] @ rev [nat (head s)..<modulus]))"

section \<open>MoveDetectorInfo\<close>

record MoveDetectorInfo =
  m_registered_segments :: "(nat \<times> nat) list"
  m_registered_segments_capacity :: nat

definition new_move_info :: MoveDetectorInfo where
  "new_move_info = \<lparr>m_registered_segments = [], m_registered_segments_capacity = 0\<rparr>"

definition move_info_resize :: "MoveDetectorInfo \<Rightarrow> nat \<Rightarrow> MoveDetectorInfo option" where
  "move_info_resize i capacity =
     (if capacity < length (m_registered_segments i) then None
      else Some (i\<lparr>m_registered_segments_capacity := capacity\<rparr>))"

definition move_section :: "MoveDetectorInfo \<Rightarrow> nat \<Rightarrow> nat \<Rightarrow> MoveDetectorInfo option" where
  "move_section i from_segment to_segment =
     (if m_registered_segments_capacity i \<le> length (m_registered_segments i) then None
      else if from_segment \<noteq> to_segment
        then Some (i\<lparr>m_registered_segments := m_registered_segments i @ [(from_segment, to_segment)]\<rparr>)
      else Some i)"

text \<open>The destructor moves the entries: each is copied to a buffer and zeroed, in order, then all are
  written to their destinations.\<close>

fun gather_sections :: "nat \<Rightarrow> (nat \<times> nat) list \<Rightarrow> Section list \<Rightarrow> (Section list \<times> Section list) option" where
  "gather_sections modulus [] buffer = Some ([], buffer)"
| "gather_sections modulus ((src, dst) # rs) buffer =
     (if src < length buffer then do {
        (xs, buffer') \<leftarrow> gather_sections modulus rs (buffer[src := zero_section modulus]);
        Some (buffer ! src # xs, buffer') }
      else None)"

fun scatter_sections :: "(nat \<times> nat) list \<Rightarrow> Section list \<Rightarrow> Section list \<Rightarrow> Section list option" where
  "scatter_sections ((src, dst) # rs) (x # xs) buffer =
     (if dst < length buffer then scatter_sections rs xs (buffer[dst := x]) else None)"
| "scatter_sections rs xs buffer = Some buffer"

definition move_sections :: "MoveDetectorInfo \<Rightarrow> nat \<Rightarrow> Detector \<Rightarrow> Detector option" where
  "move_sections i segment_start d = do {
     (xs, window) \<leftarrow> gather_sections (m_modulus d) (m_registered_segments i) (drop segment_start (m_buffer d));
     window \<leftarrow> scatter_sections (m_registered_segments i) xs window;
     Some (d\<lparr>m_buffer := take segment_start (m_buffer d) @ window\<rparr>) }"

end
