(* ===== verification/Detector_Properties.thy ===== *)
theory Detector_Properties
  imports Detector
begin

text \<open>
  The contract of the detector towards the packed memory arrays, its counters and its ring of
  timestamps over runs of updates, and the relocation of entries.
\<close>

section \<open>Runs of updates\<close>

text \<open>An update is a sign (insertion or removal), a segment and the two neighbours of the element.\<close>

type_synonym det_op = "int \<times> nat \<times> int \<times> int"

fun run_updates :: "Knobs \<Rightarrow> det_op list \<Rightarrow> Detector \<Rightarrow> Detector option" where
  "run_updates knobs [] d = Some d"
| "run_updates knobs ((increment, segment, predecessor, successor) # ops) d = do {
     d' \<leftarrow> detector_update knobs increment d segment predecessor successor;
     run_updates knobs ops d' }"

text \<open>The entries of a detector, for moduli whose positions fit the 16 bits of the head.\<close>

definition section_ok :: "nat \<Rightarrow> Section \<Rightarrow> bool" where
  "section_ok M s \<longleftrightarrow> length (timestamps s) = M \<and> 0 \<le> head s \<and> head s < int M"

definition detector_ok :: "Detector \<Rightarrow> bool" where
  "detector_ok d \<longleftrightarrow> 0 < m_modulus d \<and> m_modulus d \<le> 2 ^ 15 \<and> (\<forall>s \<in> set (m_buffer d). section_ok (m_modulus d) s)"

lemma detector_okD: "detector_ok d \<Longrightarrow> 0 < m_modulus d"
  by (simp add: detector_ok_def)

lemma s16_id: "- (2 ^ 15) \<le> x \<Longrightarrow> x < 2 ^ 15 \<Longrightarrow> s16 x = x"
  by (simp add: s16_def)

lemma zero_section_ok: "0 < M \<Longrightarrow> section_ok M (zero_section M)"
  by (simp add: section_ok_def zero_section_def)

lemma new_detector_ok: "0 < M \<Longrightarrow> M \<le> 2 ^ 15 \<Longrightarrow> detector_ok (new_detector n M)"
  by (simp add: detector_ok_def new_detector_def zero_section_ok)

lemma detector_ok_resize: "detector_ok d \<Longrightarrow> detector_ok (detector_resize d n)"
  by (simp add: detector_ok_def detector_resize_def zero_section_ok)

lemma detector_ok_change: "detector_ok d \<Longrightarrow> section_ok (m_modulus d) s \<Longrightarrow> detector_ok (d\<lparr>m_buffer := (m_buffer d)[i := s]\<rparr>)"
  using set_update_subset_insert[of "m_buffer d" i s] by (auto simp: detector_ok_def)

lemma clear_section_ok: "clear_section d i = Some d' \<Longrightarrow> detector_ok d \<Longrightarrow> detector_ok d'"
  using detector_ok_change[of d "zero_section (m_modulus d)" i]
  by (auto simp: clear_section_def detector_okD zero_section_ok split: if_splits)

lemma timestamps_counters [simp]:
  "timestamps (update_segment_counter knobs c s) = timestamps s" "head (update_segment_counter knobs c s) = head s"
  "timestamps (update_sequence_counters knobs c p q s) = timestamps s" "head (update_sequence_counters knobs c p q s) = head s"
  by (simp_all add: update_segment_counter_def update_sequence_counters_def Let_def)

text \<open>The timestamp of an entry of the ring, where its head does not wrap.\<close>

definition stamped :: "nat \<Rightarrow> int \<Rightarrow> Section \<Rightarrow> Section" where
  "stamped M t s = s\<lparr>timestamps := (timestamps s)[nat (head s) := t], head := (head s + 1) mod int M\<rparr>"

lemma update_timestamp_ok:
  assumes "0 < M" and "M \<le> 2 ^ 15" and "length (timestamps s) = M" and "0 \<le> head s" and "head s < int M"
  shows "update_timestamp M t s = Some (stamped M t s)" and "section_ok M (stamped M t s)"
proof -
  have h: "0 \<le> (head s + 1) mod int M" "(head s + 1) mod int M < int M" using assms(1) by simp_all
  have "int M \<le> 2 ^ 15" using assms(2) by (metis of_nat_le_iff of_nat_numeral of_nat_power)
  then have "s16 ((head s + 1) mod int M) = (head s + 1) mod int M" using h by (intro s16_id) simp_all
  then show "update_timestamp M t s = Some (stamped M t s)" using assms by (simp add: update_timestamp_def stamped_def)
  show "section_ok M (stamped M t s)" using h assms(3) by (simp add: section_ok_def stamped_def)
qed

lemma detector_update_total:
  assumes ok: "detector_ok d" and seg: "segment < detector_capacity d"
  shows "\<exists>d'. detector_update knobs increment d segment predecessor successor = Some d' \<and> detector_ok d'
    \<and> detector_capacity d' = detector_capacity d \<and> m_modulus d' = m_modulus d \<and> m_counter d' = m_counter d + 1
    \<and> m_buffer d' = (m_buffer d)[segment := stamped (m_modulus d) (m_counter d + 1)
        (update_sequence_counters knobs increment predecessor successor
          (update_segment_counter knobs increment (m_buffer d ! segment)))]"
proof -
  let ?s = "update_sequence_counters knobs increment predecessor successor (update_segment_counter knobs increment (m_buffer d ! segment))"
  have m: "0 < m_modulus d" "m_modulus d \<le> 2 ^ 15" using ok by (simp_all add: detector_ok_def)
  have "section_ok (m_modulus d) (m_buffer d ! segment)" using ok seg by (simp add: detector_ok_def detector_capacity_def)
  then have s: "length (timestamps ?s) = m_modulus d" "0 \<le> head ?s" "head ?s < int (m_modulus d)" by (simp_all add: section_ok_def)
  note u = update_timestamp_ok[OF m s, of "m_counter d + 1"]
  let ?d = "d\<lparr>m_counter := m_counter d + 1\<rparr>"
  have "detector_ok ?d" using ok by (simp add: detector_ok_def)
  then have "detector_ok (?d\<lparr>m_buffer := (m_buffer ?d)[segment := stamped (m_modulus d) (m_counter d + 1) ?s]\<rparr>)"
    by (rule detector_ok_change) (use u(2) in simp)
  then show ?thesis using seg u(1) by (simp add: detector_update_def Let_def detector_capacity_def)
qed

locale recorder =
  fixes ok :: "'d \<Rightarrow> bool"
    and capacity :: "'d \<Rightarrow> nat"
    and record_insert :: "'d \<Rightarrow> nat \<Rightarrow> int \<Rightarrow> int \<Rightarrow> 'd option"
    and record_remove :: "'d \<Rightarrow> nat \<Rightarrow> int \<Rightarrow> int \<Rightarrow> 'd option"
    and clear_entry :: "'d \<Rightarrow> nat \<Rightarrow> 'd option"
    and set_capacity :: "'d \<Rightarrow> nat \<Rightarrow> 'd"
  assumes insert_total: "ok d \<Longrightarrow> i < capacity d \<Longrightarrow> \<exists>d'. record_insert d i p s = Some d' \<and> ok d' \<and> capacity d' = capacity d"
    and remove_total: "ok d \<Longrightarrow> i < capacity d \<Longrightarrow> \<exists>d'. record_remove d i p s = Some d' \<and> ok d' \<and> capacity d' = capacity d"
    and clear_total: "ok d \<Longrightarrow> i < capacity d \<Longrightarrow> \<exists>d'. clear_entry d i = Some d' \<and> ok d' \<and> capacity d' = capacity d"
    and capacity_resize: "ok d \<Longrightarrow> ok (set_capacity d n) \<and> capacity (set_capacity d n) = n"
begin

lemma insert_resized: "ok d \<Longrightarrow> i < n \<Longrightarrow> \<exists>d'. record_insert (set_capacity d n) i p s = Some d' \<and> ok d' \<and> capacity d' = n"
  using insert_total[of "set_capacity d n" i] capacity_resize[of d n] by simp

end

lemma clear_section_total: "i < detector_capacity d \<Longrightarrow> detector_ok d \<Longrightarrow> \<exists>d'. clear_section d i = Some d' \<and> detector_ok d' \<and> detector_capacity d' = detector_capacity d"
  using clear_section_ok[of d i] by (auto simp: clear_section_def detector_capacity_def)

interpretation detector: recorder detector_ok detector_capacity "detector_insert knobs" "detector_remove knobs"
  clear_section detector_resize for knobs
proof unfold_locales
  show "\<exists>d'. detector_insert knobs d i p s = Some d' \<and> detector_ok d' \<and> detector_capacity d' = detector_capacity d"
    if "detector_ok d" "i < detector_capacity d" for d i p s
    using detector_update_total[OF that] unfolding detector_insert_def by blast
  show "\<exists>d'. detector_remove knobs d i p s = Some d' \<and> detector_ok d' \<and> detector_capacity d' = detector_capacity d"
    if "detector_ok d" "i < detector_capacity d" for d i p s
    using detector_update_total[OF that] unfolding detector_remove_def by blast
qed (use clear_section_total in \<open>auto simp: detector_ok_resize\<close>, simp add: detector_capacity_def detector_resize_def)

section \<open>The ring of timestamps\<close>

text \<open>The cells of a ring of \<open>M\<close> cells after the writes \<open>w\<close>, oldest first.\<close>

definition ring_cell :: "nat \<Rightarrow> int list \<Rightarrow> nat \<Rightarrow> int" where
  "ring_cell M w p =
     (let n = length w; q = n div M in
      if p < n mod M then w ! (q * M + p) else if q = 0 then 0 else w ! ((q - 1) * M + p))"

definition ring_ok :: "nat \<Rightarrow> int list \<Rightarrow> Section \<Rightarrow> bool" where
  "ring_ok M w s \<longleftrightarrow> length (timestamps s) = M \<and> head s = int (length w mod M)
     \<and> (\<forall>p < M. timestamps s ! p = ring_cell M w p)"

lemma ring_cell_append:
  assumes "0 < M" "p < M"
  shows "ring_cell M (w @ [t]) p = (if p = length w mod M then t else ring_cell M w p)"
proof -
  let ?n = "length w"
  have n: "?n = ?n div M * M + ?n mod M" by simp
  have lt: "?n mod M < M" using assms(1) by simp
  show ?thesis
  proof (cases "Suc (?n mod M) = M")
    case True
    then have e: "Suc ?n = Suc (?n div M) * M" using n by (metis add_Suc_right mult_Suc add.commute)
    have s: "Suc ?n mod M = 0" "Suc ?n div M = Suc (?n div M)" unfolding e using assms(1) by simp_all
    show ?thesis
    proof (cases "p = ?n mod M")
      case True
      then have "?n div M * M + p = ?n" using n by simp
      then show ?thesis using s True by (simp add: ring_cell_def nth_append)
    next
      case False
      then have "p < ?n mod M" using assms(2) True by linarith
      moreover have "?n div M * M + p < ?n" using n calculation by linarith
      ultimately show ?thesis using s False by (simp add: ring_cell_def nth_append)
    qed
  next
    case False
    then have "Suc (?n mod M) < M" using lt by linarith
    then have s: "Suc ?n mod M = Suc (?n mod M)" "Suc ?n div M = ?n div M"
      by (simp_all add: mod_Suc div_Suc)
    have le: "?n div M * M + ?n mod M = ?n" by simp
    have q: "(?n div M - 1) * M + p < ?n" if "?n div M \<noteq> 0"
    proof -
      have "(?n div M - 1) * M + p < ?n div M * M" using that assms(2) by (cases "?n div M") simp_all
      then show ?thesis using le by linarith
    qed
    consider "p < ?n mod M" | "p = ?n mod M" | "?n mod M < p" by linarith
    then show ?thesis
    proof cases
      case 1
      then have "?n div M * M + p < ?n" using le by linarith
      then show ?thesis using s 1 by (simp add: ring_cell_def nth_append)
    next
      case 2
      then have "?n div M * M + p = ?n" using le by simp
      then show ?thesis using s 2 by (simp add: ring_cell_def nth_append)
    next
      case 3
      then show ?thesis using s q by (auto simp: ring_cell_def nth_append Let_def)
    qed
  qed
qed

lemma ring_update:
  assumes "0 < M" "ring_ok M w s"
  shows "ring_ok M (w @ [t]) (stamped M t s)"
proof -
  have "(int (length w mod M) + 1) mod int M = int (Suc (length w) mod M)"
    by (simp add: zmod_int mod_simps add.commute)
  then show ?thesis using assms ring_cell_append[OF assms(1)]
    by (auto simp: ring_ok_def stamped_def nth_list_update)
qed

lemma ring_dump:
  assumes M: "0 < M" and ok: "ring_ok M w s" and nz: "0 \<notin> set w"
  shows "dump_timestamps M s = take M (rev w)"
proof (cases "length w < M")
  case True
  then have "map (\<lambda>h. timestamps s ! h) (rev [0..<nat (head s)]) = rev w"
    using ok by (intro nth_equalityI) (auto simp: ring_ok_def ring_cell_def rev_nth)
  moreover have "map (\<lambda>h. timestamps s ! h) (rev [nat (head s)..<M]) = replicate (M - length w) 0"
    using ok True by (intro nth_equalityI) (auto simp: ring_ok_def ring_cell_def rev_nth)
  moreover have "filter (\<lambda>t. t \<noteq> 0) (rev w) = rev w" using nz by (auto simp: filter_id_conv)
  ultimately show ?thesis using True by (simp add: dump_timestamps_def)
next
  case False
  let ?n = "length w" and ?h = "length w mod M" and ?q = "length w div M"
  have h: "nat (head s) = ?h" and lt: "?h < M" using ok M by (simp_all add: ring_ok_def)
  have q: "0 < ?q" using False M by (simp add: div_greater_zero_iff)
  have n: "?q * M + ?h = ?n" by simp
  have n1: "(?q - 1) * M + M = ?q * M" using q by (cases ?q) simp_all
  have "map (\<lambda>h. timestamps s ! h) (rev [0..<nat (head s)] @ rev [nat (head s)..<M]) = take M (rev w)"
  proof (rule nth_equalityI)
    fix i assume "i < length (map (\<lambda>h. timestamps s ! h) (rev [0..<nat (head s)] @ rev [nat (head s)..<M]))"
    then have i: "i < M" using h lt by simp
    show "map (\<lambda>h. timestamps s ! h) (rev [0..<nat (head s)] @ rev [nat (head s)..<M]) ! i = take M (rev w) ! i"
    proof (cases "i < ?h")
      case True
      have e: "?q * M + (?h - Suc i) = ?n - Suc i" using n True by linarith
      have "timestamps s ! (?h - Suc i) = ring_cell M w (?h - Suc i)" using ok lt by (simp add: ring_ok_def)
      also have "\<dots> = w ! (?q * M + (?h - Suc i))" using True by (simp add: ring_cell_def Let_def)
      finally have "timestamps s ! (?h - Suc i) = w ! (?n - Suc i)" unfolding e .
      then show ?thesis using True i h False by (simp add: nth_append rev_nth)
    next
      case i2: False
      have p: "\<not> M - Suc (i - ?h) < ?h" using i lt i2 by linarith
      have e: "(?q - 1) * M + (M - Suc (i - ?h)) = ?n - Suc i" using n n1 i i2 by linarith
      have "timestamps s ! (M - Suc (i - ?h)) = ring_cell M w (M - Suc (i - ?h))" using ok M by (simp add: ring_ok_def)
      also have "\<dots> = w ! ((?q - 1) * M + (M - Suc (i - ?h)))" using p q by (simp add: ring_cell_def Let_def)
      finally have "timestamps s ! (M - Suc (i - ?h)) = w ! (?n - Suc i)" unfolding e .
      then show ?thesis using i2 i h False lt by (simp add: nth_append rev_nth add.commute)
    qed
  qed (use h lt False in simp)
  moreover have "filter (\<lambda>t. t \<noteq> 0) (take M (rev w)) = take M (rev w)"
    using nz by (auto simp: filter_id_conv dest: in_set_takeD)
  ultimately show ?thesis by (simp add: dump_timestamps_def)
qed

text \<open>The times, counted from 1, of the updates of a segment.\<close>

definition times_of :: "nat \<Rightarrow> det_op list \<Rightarrow> int list" where
  "times_of s ops = map (\<lambda>i. int (Suc i)) (filter (\<lambda>i. fst (snd (ops ! i)) = s) [0..<length ops])"

lemma times_of_snoc:
  "times_of s (ops @ [(c, g, p, q)]) = times_of s ops @ (if g = s then [int (Suc (length ops))] else [])"
proof -
  have "filter (\<lambda>i. fst (snd ((ops @ [(c, g, p, q)]) ! i)) = s) [0..<length ops]
      = filter (\<lambda>i. fst (snd (ops ! i)) = s) [0..<length ops]"
    by (rule filter_cong) (simp_all add: nth_append)
  then show ?thesis by (simp add: times_of_def)
qed

lemma run_updates_append:
  "run_updates knobs (as @ bs) d = (case run_updates knobs as d of None \<Rightarrow> None | Some d' \<Rightarrow> run_updates knobs bs d')"
proof (induction as arbitrary: d)
  case (Cons a as)
  obtain c g p q where "a = (c, g, p, q)" by (metis prod_cases4)
  then show ?case using Cons.IH by (cases "detector_update knobs c d g p q") simp_all
qed simp

lemma run_updates_inv:
  assumes init: "J [] d"
    and step: "\<And>ops d c g p q. J ops d \<Longrightarrow> R (c, g, p, q) \<Longrightarrow> \<exists>d'. detector_update knobs c d g p q = Some d' \<and> J (ops @ [(c, g, p, q)]) d'"
  shows "\<forall>op \<in> set ops. R op \<Longrightarrow> \<exists>d'. run_updates knobs ops d = Some d' \<and> J ops d'"
proof (induction ops rule: rev_induct)
  case (snoc op ops)
  obtain c g p q where op: "op = (c, g, p, q)" by (metis prod_cases4)
  obtain d1 where d1: "run_updates knobs ops d = Some d1" "J ops d1" using snoc by auto
  obtain d2 where "detector_update knobs c d1 g p q = Some d2" "J (ops @ [op]) d2"
    using step[OF d1(2), of c g p q] snoc.prems op by auto
  then show ?case using d1(1) op by (simp add: run_updates_append)
qed (use init in simp)

definition history_ok :: "nat \<Rightarrow> nat \<Rightarrow> det_op list \<Rightarrow> Detector \<Rightarrow> bool" where
  "history_ok n M ops d \<longleftrightarrow> detector_ok d \<and> detector_capacity d = n \<and> m_modulus d = M \<and> m_counter d = int (length ops)
     \<and> (\<forall>s < n. ring_ok M (times_of s ops) (m_buffer d ! s))"

lemma ring_ok_cong: "timestamps s' = timestamps s \<Longrightarrow> head s' = head s \<Longrightarrow> ring_ok M w s' = ring_ok M w s"
  by (simp add: ring_ok_def)

lemma history_step:
  assumes M: "0 < M" and h: "history_ok n M ops d" and g: "g < n"
  shows "\<exists>d'. detector_update knobs c d g p q = Some d' \<and> history_ok n M (ops @ [(c, g, p, q)]) d'"
proof -
  have cap: "g < detector_capacity d" using h g by (simp add: history_ok_def)
  let ?s = "update_sequence_counters knobs c p q (update_segment_counter knobs c (m_buffer d ! g))"
  obtain d' where d': "detector_update knobs c d g p q = Some d'" "detector_capacity d' = detector_capacity d"
      "m_modulus d' = m_modulus d" "m_counter d' = m_counter d + 1"
      "m_buffer d' = (m_buffer d)[g := stamped (m_modulus d) (m_counter d + 1) ?s]" "detector_ok d'"
    using detector_update_total[OF _ cap] h unfolding history_ok_def by blast
  have t: "m_counter d + 1 = int (Suc (length ops))" using h by (simp add: history_ok_def)
  have "ring_ok M (times_of s (ops @ [(c, g, p, q)])) (m_buffer d' ! s)" if s: "s < n" for s
  proof (cases "s = g")
    case True
    have "ring_ok M (times_of g ops) ?s"
      using h g ring_ok_cong[of ?s "m_buffer d ! g"] by (simp add: history_ok_def)
    then have "ring_ok M (times_of g ops @ [m_counter d + 1]) (stamped M (m_counter d + 1) ?s)"
      by (rule ring_update[OF M])
    then show ?thesis using True d'(5) cap h t by (simp add: times_of_snoc history_ok_def detector_capacity_def)
  next
    case False
    then show ?thesis using s d'(5) h by (simp add: times_of_snoc history_ok_def)
  qed
  then show ?thesis using d' h by (auto simp: history_ok_def)
qed

lemma history_new: "0 < M \<Longrightarrow> M \<le> 2 ^ 15 \<Longrightarrow> history_ok n M [] (new_detector n M)"
  using new_detector_ok[of M n] by (simp add: history_ok_def new_detector_def detector_capacity_def ring_ok_def ring_cell_def times_of_def zero_section_def)

section \<open>Counters\<close>

definition counters_ok :: "Knobs \<Rightarrow> bool \<Rightarrow> Section \<Rightarrow> bool" where
  "counters_ok knobs growing s \<longleftrightarrow> \<bar>count_segment s\<bar> \<le> int (m_max_segment_counter knobs)
     \<and> (growing \<longrightarrow> 0 \<le> count_segment s \<and> 0 \<le> count_fwd s \<and> count_fwd s \<le> int (m_max_sequence_counter knobs)
          \<and> 0 \<le> count_bwd s \<and> count_bwd s \<le> int (m_max_sequence_counter knobs))"

definition knobs_ok :: "Knobs \<Rightarrow> bool" where
  "knobs_ok k \<longleftrightarrow> 0 < m_max_segment_counter k \<and> m_max_segment_counter k < 2 ^ 8
     \<and> 0 < m_max_sequence_counter k \<and> m_max_sequence_counter k < 2 ^ 8"

lemma counters_step:
  assumes k: "knobs_ok knobs" and c: "c = 1 \<or> c = - 1" and g: "growing \<Longrightarrow> c = 1" and ok: "counters_ok knobs growing s"
  shows "counters_ok knobs growing (stamped M t (update_sequence_counters knobs c p q (update_segment_counter knobs c s)))"
proof -
  have ms: "s16 (int (m_max_segment_counter knobs)) = int (m_max_segment_counter knobs)"
    "s16 (int (m_max_sequence_counter knobs)) = int (m_max_sequence_counter knobs)"
    using k by (simp_all add: knobs_ok_def s16_id)
  have b: "\<bar>count_segment s\<bar> < 2 ^ 8" using ok k by (auto simp: counters_ok_def knobs_ok_def)
  let ?s = "update_segment_counter knobs c s"
  have seg: "\<bar>count_segment ?s\<bar> \<le> int (m_max_segment_counter knobs) \<and> (growing \<longrightarrow> 0 \<le> count_segment ?s)"
    using c g ok k b unfolding update_segment_counter_def ms counters_ok_def knobs_ok_def
    by (auto simp: s16_id)
  have same: "count_segment (update_sequence_counters knobs c p q ?s) = count_segment ?s"
    "count_fwd ?s = count_fwd s" "count_bwd ?s = count_bwd s"
    by (simp_all add: update_sequence_counters_def update_segment_counter_def Let_def)
  have "0 \<le> count_fwd (update_sequence_counters knobs c p q ?s) \<and> count_fwd (update_sequence_counters knobs c p q ?s) \<le> int (m_max_sequence_counter knobs)
      \<and> 0 \<le> count_bwd (update_sequence_counters knobs c p q ?s) \<and> count_bwd (update_sequence_counters knobs c p q ?s) \<le> int (m_max_sequence_counter knobs)"
    if growing
    using that g ok k same(2,3) unfolding update_sequence_counters_def may_count_def Let_def ms counters_ok_def knobs_ok_def
    by (auto simp: s16_id)
  then show ?thesis using seg same(1) by (simp add: counters_ok_def stamped_def)
qed

definition drifted :: "nat \<Rightarrow> Detector \<Rightarrow> bool" where
  "drifted k d \<longleftrightarrow> detector_ok d \<and> detector_capacity d = 1 \<and> count_fwd (m_buffer d ! 0) = s16 (- 1 - int k)
     \<and> count_bwd (m_buffer d ! 0) = s16 (- 1 - int k) \<and> key_fwd (m_buffer d ! 0) = 1 \<and> key_bwd (m_buffer d ! 0) = 2"

lemma drift_next:
  assumes "drifted k d" "k < 2 ^ 15"
  shows "\<exists>d'. detector_update new_knobs 1 d 0 3 4 = Some d' \<and> drifted (Suc k) d'"
proof -
  have cap: "0 < detector_capacity d" using assms(1) by (simp add: drifted_def)
  obtain d' where d': "detector_update new_knobs 1 d 0 3 4 = Some d'" "detector_capacity d' = detector_capacity d"
    "detector_ok d'" "m_buffer d' = (m_buffer d)[0 := stamped (m_modulus d) (m_counter d + 1)
        (update_sequence_counters new_knobs 1 3 4 (update_segment_counter new_knobs 1 (m_buffer d ! 0)))]"
    using detector_update_total[OF _ cap] assms(1) unfolding drifted_def by blast
  let ?s = "update_segment_counter new_knobs 1 (m_buffer d ! 0)"
  have same: "count_fwd ?s = s16 (- 1 - int k)" "count_bwd ?s = s16 (- 1 - int k)" "key_fwd ?s = 1" "key_bwd ?s = 2"
    using assms(1) by (simp_all add: drifted_def update_segment_counter_def)
  have nz: "s16 (- 1 - int k) = - 1 - int k" using assms(2) by (simp add: s16_id)
  then have "s16 (- 1 - int k) \<noteq> 0" by simp
  then have "drifted (Suc k) d'"
    using d'(2-4) cap same nz assms(1)
    by (simp add: drifted_def update_sequence_counters_def stamped_def detector_capacity_def algebra_simps)
  then show ?thesis using d'(1) by blast
qed

lemma drift_run:
  "k \<le> 2 ^ 15 \<Longrightarrow> \<exists>d. run_updates new_knobs ((- 1, 0, 1, 2) # replicate k (1, 0, 3, 4)) (new_detector 1 8) = Some d \<and> drifted k d"
proof (induction k)
  case 0
  show ?case
    by (simp add: drifted_def detector_ok_def section_ok_def detector_update_def new_detector_def detector_capacity_def Let_def zero_section_def
        update_segment_counter_def update_sequence_counters_def update_timestamp_def s16_def new_knobs_def)
next
  case (Suc k)
  obtain d where d: "run_updates new_knobs ((- 1, 0, 1, 2) # replicate k (1, 0, 3, 4)) (new_detector 1 8) = Some d"
    "drifted k d" using Suc by auto
  obtain d' where d': "detector_update new_knobs 1 d 0 3 4 = Some d'" "drifted (Suc k) d'"
    using drift_next[OF d(2)] Suc.prems by auto
  have "(- 1, 0, 1, 2) # replicate (Suc k) (1, 0, 3, 4) = ((- 1, 0, 1, 2) # replicate k (1, 0, 3, 4)) @ [(1, 0, 3, 4) :: det_op]"
    by (simp add: replicate_append_same)
  then have "run_updates new_knobs ((- 1, 0, 1, 2) # replicate (Suc k) (1, 0, 3, 4)) (new_detector 1 8) = Some d'"
    using d(1) d'(1) by (simp only: run_updates_append) simp
  then show ?case using d'(2) by blast
qed

section \<open>Properties\<close>

text \<open>C39. The ring of timestamps: after any sequence of insertions and removals recorded on the
  segments of a new detector of at most 32768 timestamps per segment (its positions are kept in 16
  bits), no update fails and the entry of a segment lists the times of the
  last \<open>modulus\<close> updates of that segment, the most recent first.\<close>

theorem detector_remembers_last:
  assumes "0 < M" "M \<le> 2 ^ 15" "\<forall>(c, g, p, q) \<in> set ops. g < n" "s < n"
  shows "\<exists>d. run_updates knobs ops (new_detector n M) = Some d
    \<and> dump_timestamps M (m_buffer d ! s) = take M (rev (times_of s ops))"
proof -
  have "\<exists>d. run_updates knobs ops (new_detector n M) = Some d \<and> history_ok n M ops d"
    by (rule run_updates_inv[where R = "\<lambda>(c, g, p, q). g < n"])
      (use history_new[OF assms(1,2)] history_step[OF assms(1)] assms(3) in auto)
  then obtain d where d: "run_updates knobs ops (new_detector n M) = Some d" "ring_ok M (times_of s ops) (m_buffer d ! s)"
    using assms(4) by (auto simp: history_ok_def)
  moreover have "0 \<notin> set (times_of s ops)" by (auto simp: times_of_def)
  ultimately show ?thesis using ring_dump[OF assms(1)] by blast
qed

theorem detector_remembers_last_witness:
  "\<exists>d. run_updates new_knobs [(1, 0, 5, 7), (1, 1, 2, 3), (- 1, 0, 5, 9), (1, 0, 6, 7)] (new_detector 2 2) = Some d
    \<and> dump_timestamps 2 (m_buffer d ! 0) = take 2 (rev (times_of 0 [(1, 0, 5, 7), (1, 1, 2, 3), (- 1, 0, 5, 9), (1, 0, 6, 7)]))"
  by (rule detector_remembers_last) simp_all

text \<open>C40. The counters stay within the knobs: over any mix of insertions and removals the counter of
  a segment never exceeds its maximum in absolute value, and as long as only insertions are
  recorded all three counters stay between 0 and their maxima, so no 16-bit counter wraps. The detector
  has from 1 to 32768 timestamps per segment.\<close>

theorem detector_counters_bounded:
  assumes "knobs_ok knobs" "\<forall>(c, g, p, q) \<in> set ops. (c = 1 \<or> c = - 1) \<and> g < n" "s < n" "0 < M" "M \<le> 2 ^ 15"
  shows "\<exists>d. run_updates knobs ops (new_detector n M) = Some d
    \<and> \<bar>count_segment (m_buffer d ! s)\<bar> \<le> int (m_max_segment_counter knobs)
    \<and> ((\<forall>(c, g, p, q) \<in> set ops. c = 1) \<longrightarrow> count_fwd (m_buffer d ! s) \<in> {0..int (m_max_sequence_counter knobs)}
        \<and> count_bwd (m_buffer d ! s) \<in> {0..int (m_max_sequence_counter knobs)} \<and> 0 \<le> count_segment (m_buffer d ! s))"
proof -
  define gr where "gr \<longleftrightarrow> (\<forall>(c, g, p, q) \<in> set ops. c = 1)"
  let ?J = "\<lambda>(_ :: det_op list) d. detector_ok d \<and> detector_capacity d = n \<and> (\<forall>i < n. counters_ok knobs gr (m_buffer d ! i))"
  have step: "\<exists>d'. detector_update knobs c d g p q = Some d' \<and> ?J (os @ [(c, g, p, q)]) d'"
    if J: "?J os d" and R: "(c = 1 \<or> c = - 1) \<and> g < n \<and> (gr \<longrightarrow> c = 1)" for os d c g p q
  proof -
    have cap: "g < detector_capacity d" using J R by simp
    obtain d' where d': "detector_update knobs c d g p q = Some d'" "detector_capacity d' = detector_capacity d"
      "detector_ok d'" "m_buffer d' = (m_buffer d)[g := stamped (m_modulus d) (m_counter d + 1)
          (update_sequence_counters knobs c p q (update_segment_counter knobs c (m_buffer d ! g)))]"
      using detector_update_total[OF _ cap] J by blast
    have "counters_ok knobs gr (m_buffer d' ! i)" if "i < n" for i
    proof (cases "i = g")
      case True
      then show ?thesis using d'(4) cap R J counters_step[OF assms(1), of c gr "m_buffer d ! g"]
        by (simp add: detector_capacity_def)
    next
      case False
      then show ?thesis using d'(4) J that by simp
    qed
    then show ?thesis using d'(1-3) J by simp
  qed
  have new: "?J [] (new_detector n M)"
    using new_detector_ok[OF assms(4,5), of n] by (simp add: new_detector_def detector_capacity_def zero_section_def counters_ok_def)
  have "\<exists>d. run_updates knobs ops (new_detector n M) = Some d \<and> ?J ops d"
    by (rule run_updates_inv[where R = "\<lambda>(c, g, p, q). (c = 1 \<or> c = - 1) \<and> g < n \<and> (gr \<longrightarrow> c = 1)"])
      (use new step assms(2) in \<open>auto simp: gr_def\<close>)
  then show ?thesis using assms(3) unfolding gr_def[symmetric] by (auto simp: counters_ok_def)
qed

theorem detector_counters_bounded_witness:
  "\<exists>d. run_updates new_knobs [(1, 0, 5, 7), (1, 1, 2, 3), (1, 0, 6, 7)] (new_detector 2 8) = Some d
    \<and> \<bar>count_segment (m_buffer d ! 0)\<bar> \<le> int (m_max_segment_counter new_knobs)
    \<and> ((\<forall>(c, g, p, q) \<in> set [(1 :: int, 0 :: nat, 5 :: int, 7 :: int), (1, 1, 2, 3), (1, 0, 6, 7)]. c = 1) \<longrightarrow>
        count_fwd (m_buffer d ! 0) \<in> {0..int (m_max_sequence_counter new_knobs)}
        \<and> count_bwd (m_buffer d ! 0) \<in> {0..int (m_max_sequence_counter new_knobs)} \<and> 0 \<le> count_segment (m_buffer d ! 0))"
  by (rule detector_counters_bounded) (simp_all add: new_knobs_def knobs_ok_def)

text \<open>With removals the sequence counters are not bounded by the knobs: one removal followed by
  insertions at other places drives \<open>count_fwd\<close> and \<open>count_bwd\<close> away from zero by one per
  insertion, below the minimum the code computes, until the 16-bit counters wrap to the positive
  maximum.\<close>

theorem detector_counter_drift:
  assumes "k \<le> 2 ^ 15"
  shows "\<exists>d. run_updates new_knobs ((- 1, 0, 1, 2) # replicate k (1, 0, 3, 4)) (new_detector 1 8) = Some d
    \<and> count_fwd (m_buffer d ! 0) = (if k < 2 ^ 15 then - 1 - int k else 2 ^ 15 - 1)
    \<and> count_bwd (m_buffer d ! 0) = (if k < 2 ^ 15 then - 1 - int k else 2 ^ 15 - 1)"
  using drift_run[OF assms] assms by (auto simp: drifted_def s16_def)

theorem detector_counter_drift_witness:
  "\<exists>d. run_updates new_knobs ((- 1, 0, 1, 2) # replicate (2 ^ 15) (1, 0, 3, 4)) (new_detector 1 8) = Some d
    \<and> count_fwd (m_buffer d ! 0) = (if (2 :: nat) ^ 15 < 2 ^ 15 then - 1 - int (2 ^ 15) else 2 ^ 15 - 1)
    \<and> count_bwd (m_buffer d ! 0) = (if (2 :: nat) ^ 15 < 2 ^ 15 then - 1 - int (2 ^ 15) else 2 ^ 15 - 1)"
  by (rule detector_counter_drift) simp

text \<open>Moving entries: registering two destinations for the same source (which the special rule of
  the adaptive rebalancing does for a full segment split in two) gives the entry to the first
  destination only, the second one is zeroed, because the source is cleared after its first copy.\<close>

theorem move_twice_loses_second:
  assumes "length (m_buffer d) = n" "src < n" "dst < n" "dst' < n" "src \<noteq> dst" "src \<noteq> dst'" "dst \<noteq> dst'"
  shows "\<exists>i1 i2 i3 d'. move_info_resize new_move_info 2 = Some i1 \<and> move_section i1 src dst = Some i2
    \<and> move_section i2 src dst' = Some i3 \<and> move_sections i3 0 d = Some d'
    \<and> m_buffer d' ! dst = m_buffer d ! src \<and> m_buffer d' ! dst' = zero_section (m_modulus d)
    \<and> m_buffer d' ! src = zero_section (m_modulus d)"
  using assms by (simp add: move_info_resize_def new_move_info_def move_section_def move_sections_def)

theorem move_twice_loses_second_witness:
  "\<exists>i1 i2 i3 d'. move_info_resize new_move_info 2 = Some i1 \<and> move_section i1 2 0 = Some i2
    \<and> move_section i2 2 1 = Some i3 \<and> move_sections i3 0 (new_detector 3 8) = Some d'
    \<and> m_buffer d' ! 0 = m_buffer (new_detector 3 8) ! 2 \<and> m_buffer d' ! 1 = zero_section (m_modulus (new_detector 3 8))
    \<and> m_buffer d' ! 2 = zero_section (m_modulus (new_detector 3 8))"
  by (rule move_twice_loses_second[where n = 3]) (simp_all add: new_detector_def)

end
