(* ===== verification/Dense_Array.thy ===== *)
theory Dense_Array
  imports Static_Index_Properties Interface
begin

text \<open>
  The dense array, \<open>abtree/dense_array.cpp\<close>: two arrays with the keys and the values in key order, below
  a static index with one separator for every \<open>node_size\<close> elements. Insertions are appended to a delta,
  which takes part in no search until \<open>build\<close> merges it.

  \<open>srt\<close> is \<open>std::sort\<close> by key: any function that sorts, since the order it leaves equal keys in is not
  specified; \<open>levels\<close> is the expression for the height of the index (\<open>Static_Index\<close>). Sums are \<open>int64_t\<close>. The
  physical memory is not part of the state. \<open>None\<close> is an exception of the index or an access out of bounds.
\<close>

section \<open>State\<close>

record DenseArray =
  m_index :: StaticIndex
  m_keys :: "int list"
  m_values :: "int list"
  m_cardinality :: nat
  m_delta :: "(int \<times> int) list"

definition new_dense_array :: "(nat \<Rightarrow> nat \<Rightarrow> nat) \<Rightarrow> int \<Rightarrow> nat \<Rightarrow> DenseArray option" where
  "new_dense_array levels junk node_size = do {
     idx \<leftarrow> new_index levels junk node_size 1;
     Some \<lparr>m_index = idx, m_keys = [], m_values = [], m_cardinality = 0, m_delta = []\<rparr> }"

definition dense_insert :: "DenseArray \<Rightarrow> int \<Rightarrow> int \<Rightarrow> DenseArray" where
  "dense_insert d k v = d\<lparr>m_delta := m_delta d @ [(k, v)]\<rparr>"

definition dense_size :: "DenseArray \<Rightarrow> nat" where
  "dense_size d = m_cardinality d"

definition dense_empty :: "DenseArray \<Rightarrow> bool" where
  "dense_empty d \<longleftrightarrow> m_cardinality d = 0"

section \<open>Build\<close>

text \<open>The three loops of the merge, from the positions \<open>i\<close> of the old arrays and \<open>j\<close> of the delta; the
  elements are written one after the other.\<close>

function merge_delta :: "int list \<Rightarrow> int list \<Rightarrow> nat \<Rightarrow> (int \<times> int) list \<Rightarrow> nat \<Rightarrow> nat \<Rightarrow> (int \<times> int) list" where
  "merge_delta keys_old values_old cardinality_old delta i j =
     (if i < cardinality_old \<and> j < length delta then
        if keys_old ! i < fst (delta ! j)
        then (keys_old ! i, values_old ! i) # merge_delta keys_old values_old cardinality_old delta (i + 1) j
        else delta ! j # merge_delta keys_old values_old cardinality_old delta i (j + 1)
      else map (\<lambda>i. (keys_old ! i, values_old ! i)) [i..<cardinality_old] @ drop j delta)"
  by pat_completeness auto
termination
  by (relation "measure (\<lambda>(keys, vals, n, delta, i, j). (n - i) + (length delta - j))") auto

declare merge_delta.simps [simp del]

definition cardinality_index :: "nat \<Rightarrow> nat \<Rightarrow> nat" where
  "cardinality_index cardinality node_size = cardinality div node_size + (if 0 < cardinality mod node_size then 1 else 0)"

text \<open>The separators from the segment \<open>i\<close> on, \<open>n\<close> of them.\<close>

fun set_separators :: "int list \<Rightarrow> nat \<Rightarrow> StaticIndex \<Rightarrow> nat \<Rightarrow> nat \<Rightarrow> StaticIndex option" where
  "set_separators keys node_size idx i 0 = Some idx"
| "set_separators keys node_size idx i (Suc n) = do {
     idx \<leftarrow> (if i * node_size < length keys then set_separator_key idx i (keys ! (i * node_size)) else None);
     set_separators keys node_size idx (i + 1) n }"

definition dense_build :: "((int \<times> int) list \<Rightarrow> (int \<times> int) list) \<Rightarrow> (nat \<Rightarrow> nat \<Rightarrow> nat) \<Rightarrow> int \<Rightarrow> DenseArray \<Rightarrow> DenseArray option" where
  "dense_build srt levels junk d =
     (if m_delta d = [] then Some d
      else do {
        let delta = srt (m_delta d);
        let cardinality_new = m_cardinality d + length delta;
        let merged = merge_delta (m_keys d) (m_values d) (m_cardinality d) delta 0 0;
        let keys_new = map fst merged;
        let values_new = map snd merged;
        let node_size = m_node_size (m_index d);
        let n = cardinality_index cardinality_new node_size;
        idx \<leftarrow> rebuild levels junk (m_index d) n;
        idx \<leftarrow> set_separators keys_new node_size idx 0 n;
        Some \<lparr>m_index = idx, m_keys = keys_new, m_values = values_new, m_cardinality = cardinality_new, m_delta = []\<rparr> })"

definition get_amount_memory_needed :: "nat \<Rightarrow> nat \<Rightarrow> nat" where
  "get_amount_memory_needed page_size cardinality =
     (let num_pages = cardinality * 8 div page_size + (if 0 < cardinality * 8 mod page_size then 1 else 0)
      in page_size * num_pages)"

definition dense_memory_footprint :: "nat \<Rightarrow> DenseArray \<Rightarrow> nat" where
  "dense_memory_footprint page_size d =
     get_amount_memory_needed page_size (m_cardinality d) * 2 + memory_footprint (m_index d)"

section \<open>Find\<close>

text \<open>\<open>while (i < n && P (keys[i])) i++\<close>\<close>

function skip_while :: "(int \<Rightarrow> bool) \<Rightarrow> int list \<Rightarrow> nat \<Rightarrow> nat \<Rightarrow> nat" where
  "skip_while P keys n i = (if i < n \<and> P (keys ! i) then skip_while P keys n (i + 1) else i)"
  by pat_completeness auto
termination by (relation "measure (\<lambda>(P, keys, n, i). n - i)") auto

declare skip_while.simps [simp del]

definition dense_find :: "DenseArray \<Rightarrow> int \<Rightarrow> int option" where
  "dense_find d key =
     (if dense_empty d then Some (- 1)
      else do {
        f \<leftarrow> find_first (m_index d) key;
        let i = skip_while (\<lambda>x. x < key) (m_keys d) (m_cardinality d) (f * m_node_size (m_index d));
        Some (if i < m_cardinality d \<and> m_keys d ! i = key then m_values d ! i else - 1) })"

text \<open>The two ends of a range, which the iterator and the sum start from.\<close>

definition range_start :: "DenseArray \<Rightarrow> int \<Rightarrow> nat option" where
  "range_start d mn = do {
     f \<leftarrow> find_first (m_index d) mn;
     Some (skip_while (\<lambda>x. x < mn) (m_keys d) (m_cardinality d) (f * m_node_size (m_index d))) }"

definition range_end :: "DenseArray \<Rightarrow> int \<Rightarrow> nat option" where
  "range_end d mx = do {
     l \<leftarrow> find_last (m_index d) mx;
     Some (skip_while (\<lambda>x. x \<le> mx) (m_keys d) (m_cardinality d) (l * m_node_size (m_index d))) }"

record InternalIterator =
  i_keys :: "int list"
  i_values :: "int list"
  m_offset :: nat
  m_end :: nat

definition new_internal_iterator :: "DenseArray \<Rightarrow> nat \<Rightarrow> nat \<Rightarrow> InternalIterator" where
  "new_internal_iterator d first last' = \<lparr>i_keys = m_keys d, i_values = m_values d, m_offset = first, m_end = last'\<rparr>"

definition dense_hasNext :: "InternalIterator \<Rightarrow> bool" where
  "dense_hasNext it \<longleftrightarrow> m_offset it < m_end it"

definition dense_next :: "InternalIterator \<Rightarrow> ((int \<times> int) \<times> InternalIterator) option" where
  "dense_next it =
     (if m_offset it < length (i_keys it)
      then Some ((i_keys it ! m_offset it, i_values it ! m_offset it), it\<lparr>m_offset := m_offset it + 1\<rparr>) else None)"

definition dense_find_range :: "DenseArray \<Rightarrow> int \<Rightarrow> int \<Rightarrow> InternalIterator option" where
  "dense_find_range d mn mx =
     (if mx < mn \<or> dense_empty d then Some (new_internal_iterator d 0 0)
      else do {
        index_first \<leftarrow> range_start d mn;
        index_last \<leftarrow> range_end d mx;
        Some (new_internal_iterator d index_first index_last) })"

definition dense_iterator :: "DenseArray \<Rightarrow> InternalIterator" where
  "dense_iterator d = new_internal_iterator d 0 (m_cardinality d)"

text \<open>What a client reads: \<open>while (it->hasNext ()) it->next ()\<close>.\<close>

function dense_drain :: "InternalIterator \<Rightarrow> (int \<times> int) list option" where
  "dense_drain it =
     (if dense_hasNext it then do {
        (x, it') \<leftarrow> dense_next it;
        xs \<leftarrow> dense_drain it';
        Some (x # xs) }
      else Some [])"
  by pat_completeness auto
termination
  by (relation "measure (\<lambda>it. m_end it - m_offset it)") (auto simp: dense_hasNext_def dense_next_def split: if_splits)

declare dense_drain.simps [simp del]

section \<open>Sum\<close>

definition dense_sum :: "DenseArray \<Rightarrow> int \<Rightarrow> int \<Rightarrow> SumResult option" where
  "dense_sum d mn mx =
     (if mx < mn \<or> dense_empty d then Some empty_sum
      else do {
        offset \<leftarrow> range_start d mn;
        end' \<leftarrow> range_end d mx;
        if end' \<le> offset then Some empty_sum
        else if length (m_keys d) < end' then None
        else
          let result = empty_sum\<lparr>m_first_key := m_keys d ! offset, m_last_key := m_keys d ! (end' - 1), m_num_elements := end' - offset\<rparr>
          in Some (foldl (\<lambda>r i. r\<lparr>m_sum_keys := s64 (m_sum_keys r + m_keys d ! i), m_sum_values := s64 (m_sum_values r + m_values d ! i)\<rparr>)
               result [offset..<end']) })"

end
