(* ===== verification/Dense_Array_Properties.thy ===== *)
theory Dense_Array_Properties
  imports Dense_Array
begin

text \<open>
  The dense array is the list of its pairs in key order: a build merges the delta into it, and the search,
  the ranges and the sums agree with the list.
\<close>

section \<open>The state\<close>

definition dense_elems :: "DenseArray \<Rightarrow> (int \<times> int) list" where
  "dense_elems d = zip (m_keys d) (m_values d)"

text \<open>The number of segments of the index; a new array has one, although it has no elements.\<close>

definition dense_segments :: "DenseArray \<Rightarrow> nat" where
  "dense_segments d = max 1 (cardinality_index (m_cardinality d) (m_node_size (m_index d)))"

definition dense_inv :: "DenseArray \<Rightarrow> bool" where
  "dense_inv d \<longleftrightarrow> length (m_keys d) = m_cardinality d \<and> length (m_values d) = m_cardinality d \<and> sorted (m_keys d)
     \<and> index_ok (m_index d) (dense_segments d)
     \<and> (\<forall>i<cardinality_index (m_cardinality d) (m_node_size (m_index d)).
          get_separator_key (m_index d) i = Some (m_keys d ! (i * m_node_size (m_index d))))"

lemma dense_elems_simps [simp]:
  assumes "dense_inv d"
  shows "map fst (dense_elems d) = m_keys d" and "length (dense_elems d) = m_cardinality d"
  using assms by (simp_all add: dense_inv_def dense_elems_def)

lemma index_okD:
  assumes "index_ok idx n"
  shows "1 < m_node_size idx" and "m_node_size idx < 2 ^ 16" and "length (m_rightmost idx) = m_rightmost_sz"
    and "length (StaticIndex.m_keys idx) = m_node_size idx ^ m_height idx - 1"
  using assms by (simp_all add: index_ok_def)

section \<open>The merge\<close>

fun merge_pairs :: "(int \<times> int) list \<Rightarrow> (int \<times> int) list \<Rightarrow> (int \<times> int) list" where
  "merge_pairs [] ys = ys"
| "merge_pairs xs [] = xs"
| "merge_pairs (x # xs) (y # ys) = (if fst x < fst y then x # merge_pairs xs (y # ys) else y # merge_pairs (x # xs) ys)"

lemma merge_pairs_Nil [simp]: "merge_pairs xs [] = xs"
  by (cases xs) auto

lemma merge_pairs_mset: "mset (merge_pairs xs ys) = mset xs + mset ys"
  by (induction xs ys rule: merge_pairs.induct) auto

lemma merge_pairs_sorted:
  "sorted (map fst xs) \<Longrightarrow> sorted (map fst ys) \<Longrightarrow> sorted (map fst (merge_pairs xs ys))"
proof (induction xs ys rule: merge_pairs.induct)
  case (3 x xs y ys)
  have m: "set (merge_pairs us vs) = set us \<union> set vs" for us vs
    using arg_cong[OF merge_pairs_mset[of us vs], of set_mset] by simp
  show ?case using 3 by (auto simp: m)
qed auto

lemma merge_delta_pairs:
  "n = length keys_old \<Longrightarrow> length values_old = n \<Longrightarrow>
    merge_delta keys_old values_old n delta i j = merge_pairs (drop i (zip keys_old values_old)) (drop j delta)"
proof (induction keys_old values_old n delta i j rule: merge_delta.induct)
  case (1 ko vo n delta i j)
  note ms = merge_delta.simps[of ko vo n delta i j]
  show ?case
  proof (cases "i < n \<and> j < length delta")
    case True
    have "drop i (zip ko vo) = zip ko vo ! i # drop (Suc i) (zip ko vo)" using True "1.prems" by (intro Cons_nth_drop_Suc[symmetric]) simp
    then have old: "drop i (zip ko vo) = (ko ! i, vo ! i) # drop (Suc i) (zip ko vo)" using True "1.prems" by simp
    have new: "drop j delta = delta ! j # drop (Suc j) delta" using True by (intro Cons_nth_drop_Suc[symmetric]) simp
    show ?thesis
    proof (cases "ko ! i < fst (delta ! j)")
      case lt: True
      have "merge_delta ko vo n delta i j = (ko ! i, vo ! i) # merge_delta ko vo n delta (i + 1) j" using ms True lt by simp
      then show ?thesis using "1.IH"(1)[OF True lt "1.prems"] lt by (simp add: old new)
    next
      case ge: False
      have "merge_delta ko vo n delta i j = delta ! j # merge_delta ko vo n delta i (j + 1)" using ms True ge by simp
      then show ?thesis using "1.IH"(2)[OF True ge "1.prems"] ge by (simp add: old new)
    qed
  next
    case False
    have "map (\<lambda>i. (ko ! i, vo ! i)) [i..<n] = drop i (zip ko vo)" using "1.prems" by (intro nth_equalityI) auto
    then show ?thesis using ms False "1.prems" by auto
  qed
qed

lemma set_separators_ok:
  assumes "index_ok idx n"
  shows "i + m \<le> n \<Longrightarrow> (\<forall>l<i + m. i \<le> l \<longrightarrow> l * B < length keys) \<Longrightarrow> index_ok idx n \<Longrightarrow>
    \<exists>idx'. set_separators keys B idx i m = Some idx' \<and> index_ok idx' n \<and> m_node_size idx' = m_node_size idx
      \<and> (\<forall>l<n. get_separator_key idx' l = (if i \<le> l \<and> l < i + m then Some (keys ! (l * B)) else get_separator_key idx l))"
proof (induction m arbitrary: i idx)
  case (Suc m)
  have i: "i < n" "i * B < length keys" using Suc.prems by auto
  obtain idx1 where idx1: "set_separator_key idx i (keys ! (i * B)) = Some idx1" "index_ok idx1 n"
      "\<forall>l<n. get_separator_key idx1 l = (if l = i then Some (keys ! (i * B)) else get_separator_key idx l)"
    using static_index.set_get[OF Suc.prems(3) i(1)] by blast
  have B: "m_node_size idx1 = m_node_size idx"
    using idx1(1) by (auto simp: set_separator_key_def split: if_splits Option.bind_splits)
  obtain idx' where idx': "set_separators keys B idx1 (i + 1) m = Some idx'" "index_ok idx' n" "m_node_size idx' = m_node_size idx1"
      "\<forall>l<n. get_separator_key idx' l = (if i + 1 \<le> l \<and> l < i + 1 + m then Some (keys ! (l * B)) else get_separator_key idx1 l)"
    using Suc.IH[of "i + 1" idx1] Suc.prems idx1(2) by auto
  have "get_separator_key idx' l = (if i \<le> l \<and> l < i + Suc m then Some (keys ! (l * B)) else get_separator_key idx l)" if "l < n" for l
    using idx'(4) idx1(3) that by (cases "l = i") auto
  then show ?case using idx' idx1(1) i(2) B by auto
qed auto

section \<open>The searches\<close>

lemma skip_while_prefix:
  "i \<le> length (takeWhile P xs) \<Longrightarrow> skip_while P xs (length xs) i = length (takeWhile P xs)"
proof (induction "length (takeWhile P xs) - i" arbitrary: i)
  case 0
  then have i: "i = length (takeWhile P xs)" by simp
  have "\<not> (i < length xs \<and> P (xs ! i))" using i nth_length_takeWhile[of P xs] by blast
  then show ?case using skip_while.simps[of P xs "length xs" i] i by (simp only: if_False)
next
  case (Suc n)
  then have i: "i < length (takeWhile P xs)" by simp
  then have "P (xs ! i)" "i < length xs"
    using set_takeWhileD[of "takeWhile P xs ! i" P xs] nth_mem[OF i] takeWhile_nth[OF i] length_takeWhile_le[of P xs] by auto
  then show ?case using Suc i by (simp add: skip_while.simps[of P xs "length xs" i])
qed

text \<open>The separators of the blocks: the block a search starts from begins before the place it looks for.\<close>

lemma block_before:
  fixes keys :: "int list"
  assumes srt: "sorted keys" and down: "\<And>x y. P y \<Longrightarrow> x \<le> y \<Longrightarrow> P x" and n: "\<forall>i<n. i * B < length keys"
  shows "length (takeWhile P (tl (map (\<lambda>i. keys ! (i * B)) [0..<n]))) * B \<le> length (takeWhile P keys)"
proof -
  let ?ks = "map (\<lambda>i. keys ! (i * B)) [0..<n]"
  define f where "f = length (takeWhile P (tl ?ks))"
  show ?thesis
  proof (cases "f = 0")
    case False
    then have f: "f - 1 < length (takeWhile P (tl ?ks))" by (simp add: f_def)
    then have "P (tl ?ks ! (f - 1))" by (metis nth_mem set_takeWhileD takeWhile_nth)
    moreover have fn: "f < n" using f length_takeWhile_le[of P "tl ?ks"] by simp
    ultimately have P: "P (keys ! (f * B))" using False by (simp add: nth_tl)
    have "\<not> length (takeWhile P keys) < f * B"
    proof
      assume l: "length (takeWhile P keys) < f * B"
      have fb: "f * B < length keys" using n fn by simp
      then have "keys ! length (takeWhile P keys) \<le> keys ! (f * B)" using srt l by (simp add: sorted_nth_mono)
      then have "P (keys ! length (takeWhile P keys))" by (rule down[OF P])
      then show False using nth_length_takeWhile[of P keys] l fb by simp
    qed
    then show ?thesis by (simp add: f_def)
  qed (simp add: f_def)
qed

lemma cardinality_index_bounds:
  assumes "1 < B"
  shows "i < cardinality_index c B \<Longrightarrow> i * B < c" and "0 < cardinality_index c B \<longleftrightarrow> 0 < c" and "cardinality_index c B \<le> c"
proof -
  have c: "c = c div B * B + c mod B" by simp
  show "i < cardinality_index c B \<Longrightarrow> i * B < c"
  proof -
    assume i: "i < cardinality_index c B"
    show "i * B < c"
    proof (cases "i < c div B")
      case True
      then have "(i + 1) * B \<le> c div B * B" by (intro mult_le_mono1) simp
      then have "(i + 1) * B \<le> c" using c by linarith
      then show ?thesis using assms by simp
    next
      case False
      have "i = c div B" "0 < c mod B" using False i by (simp_all add: cardinality_index_def split: if_splits)
      moreover have "c div B * B < c" using c calculation(2) by linarith
      ultimately show ?thesis by simp
    qed
  qed
  show "0 < cardinality_index c B \<longleftrightarrow> 0 < c"
    using assms by (auto simp: cardinality_index_def div_greater_zero_iff mod_if not_less)
  show "cardinality_index c B \<le> c"
  proof (cases "c = 0")
    case True
    then show ?thesis by (simp add: cardinality_index_def)
  next
    case False
    have "c div B < c" using False assms by simp
    then show ?thesis using False by (simp add: cardinality_index_def Suc_le_eq)
  qed
qed

lemma range_bounds:
  assumes inv: "dense_inv d" and ne: "\<not> dense_empty d"
  shows "range_start d mn = Some (length (takeWhile (\<lambda>x. x < mn) (m_keys d)))"
    and "range_end d mx = Some (length (takeWhile (\<lambda>x. x \<le> mx) (m_keys d)))"
proof -
  let ?B = "m_node_size (m_index d)" and ?c = "m_cardinality d"
  let ?n = "cardinality_index ?c ?B"
  let ?ks = "map (\<lambda>i. m_keys d ! (i * ?B)) [0..<?n]"
  note i = inv[unfolded dense_inv_def]
  have B: "1 < ?B" using i index_okD(1) by blast
  note b = cardinality_index_bounds(1)[OF B, of _ ?c] cardinality_index_bounds(2)[OF B, of ?c]
  have c: "0 < ?c" using ne by (simp add: dense_empty_def)
  have n: "dense_segments d = ?n" using b(2) c by (simp add: dense_segments_def)
  have len: "\<forall>i<?n. i * ?B < length (m_keys d)" using b(1) i by simp
  have "sorted ?ks"
    using i len by (auto simp: sorted_wrt_iff_nth_less intro!: sorted_nth_mono mult_le_mono1)
  moreover have "index_ok (m_index d) (length ?ks)" using i n by simp
  moreover have "\<forall>j<length ?ks. get_separator_key (m_index d) j = Some (?ks ! j)" using i by simp
  ultimately have s: "find_first (m_index d) k = Some (length (takeWhile (\<lambda>x. x < k) (tl ?ks)))"
      "find_last (m_index d) k = Some (length (takeWhile (\<lambda>x. x \<le> k) (tl ?ks)))" for k
    using static_index.searches[of "m_index d" ?ks k] by blast+
  have srt: "sorted (m_keys d)" and l: "length (m_keys d) = ?c" using i by blast+
  have "length (takeWhile (\<lambda>x. x < mn) (tl ?ks)) * ?B \<le> length (takeWhile (\<lambda>x. x < mn) (m_keys d))"
    by (rule block_before[OF srt _ len]) simp
  then show "range_start d mn = Some (length (takeWhile (\<lambda>x. x < mn) (m_keys d)))"
    unfolding range_start_def s(1) using skip_while_prefix[of _ "\<lambda>x. x < mn" "m_keys d"] l by simp
  have "length (takeWhile (\<lambda>x. x \<le> mx) (tl ?ks)) * ?B \<le> length (takeWhile (\<lambda>x. x \<le> mx) (m_keys d))"
    by (rule block_before[OF srt _ len]) simp
  then show "range_end d mx = Some (length (takeWhile (\<lambda>x. x \<le> mx) (m_keys d)))"
    unfolding range_end_def s(2) using skip_while_prefix[of _ "\<lambda>x. x \<le> mx" "m_keys d"] l by simp
qed

lemma in_range_slice:
  "sorted (map fst xs) \<Longrightarrow> mn \<le> mx \<Longrightarrow>
    in_range mn mx xs = drop (length (takeWhile (\<lambda>x. x < mn) (map fst xs))) (take (length (takeWhile (\<lambda>x. x \<le> mx) (map fst xs))) xs)"
proof (induction xs)
  case (Cons x xs)
  have none: "in_range mn mx xs = []" if "mx < fst x"
    using Cons.prems(1) that by (auto simp: in_range_def filter_empty_conv)
  have all: "takeWhile (\<lambda>x. x < mn) (map fst xs) = []" if "mn \<le> fst x"
    using Cons.prems(1) that by (cases xs) auto
  show ?case using Cons none all by (cases x) (auto simp: in_range_def)
qed (simp add: in_range_def)

lemma dense_drain_slice:
  "m_end it \<le> length (i_keys it) \<Longrightarrow> length (i_values it) = length (i_keys it) \<Longrightarrow>
    dense_drain it = Some (drop (m_offset it) (take (m_end it) (zip (i_keys it) (i_values it))))"
proof (induction it rule: dense_drain.induct)
  case (1 it)
  show ?case
  proof (cases "dense_hasNext it")
    case False
    then show ?thesis by (simp add: dense_drain.simps[of it] dense_hasNext_def)
  next
    case True
    let ?it = "it\<lparr>m_offset := m_offset it + 1\<rparr>"
    have n: "dense_next it = Some ((i_keys it ! m_offset it, i_values it ! m_offset it), ?it)"
      using True 1 by (simp add: dense_next_def dense_hasNext_def)
    have "dense_drain ?it = Some (drop (m_offset it + 1) (take (m_end it) (zip (i_keys it) (i_values it))))"
      using "1.IH"[OF True n refl] "1.prems" by simp
    moreover have "drop (m_offset it) (take (m_end it) (zip (i_keys it) (i_values it)))
        = (i_keys it ! m_offset it, i_values it ! m_offset it) # drop (m_offset it + 1) (take (m_end it) (zip (i_keys it) (i_values it)))"
      using True 1 Cons_nth_drop_Suc[of "m_offset it" "take (m_end it) (zip (i_keys it) (i_values it))"] by (simp add: dense_hasNext_def)
    ultimately show ?thesis using True n by (simp add: dense_drain.simps[of it])
  qed
qed

lemma sum_fold:
  "foldl (\<lambda>r i. r\<lparr>m_sum_keys := s64 (m_sum_keys r + f i), m_sum_values := s64 (m_sum_values r + g i)\<rparr>) r is
    = r\<lparr>m_sum_keys := sum64 (m_sum_keys r) (map f is), m_sum_values := sum64 (m_sum_values r) (map g is)\<rparr>"
  by (induction "is" arbitrary: r) simp_all

section \<open>Ranges\<close>

lemma takeWhile_le_mono:
  assumes "mn \<le> (mx :: int)"
  shows "length (takeWhile (\<lambda>x. x < mn) xs) \<le> length (takeWhile (\<lambda>x. x \<le> mx) xs)"
  using assms by (induction xs) auto

lemma dense_find_range_slice:
  assumes inv: "dense_inv d" and le: "mn \<le> mx"
  obtains it where "dense_find_range d mn mx = Some it" and "dense_drain it = Some (in_range mn mx (dense_elems d))"
proof (cases "dense_empty d")
  case True
  then have "dense_elems d = []" using inv by (simp add: dense_inv_def dense_empty_def dense_elems_def)
  then show ?thesis using that[of "new_internal_iterator d 0 0"] True
    by (simp add: dense_find_range_def dense_drain.simps dense_hasNext_def new_internal_iterator_def in_range_def)
next
  case False
  note i = inv[unfolded dense_inv_def] and e = dense_elems_simps[OF inv]
  let ?it = "new_internal_iterator d (length (takeWhile (\<lambda>x. x < mn) (m_keys d))) (length (takeWhile (\<lambda>x. x \<le> mx) (m_keys d)))"
  have "dense_drain ?it = Some (in_range mn mx (dense_elems d))"
    using in_range_slice[of "dense_elems d" mn mx] le i e dense_drain_slice[of ?it] length_takeWhile_le[of "\<lambda>x. x \<le> mx" "m_keys d"]
    by (simp add: new_internal_iterator_def dense_elems_def)
  then show ?thesis using that[of ?it] False le range_bounds[OF inv False] by (simp add: dense_find_range_def)
qed

lemma dense_sum_range:
  assumes inv: "dense_inv d" and le: "mn \<le> mx"
  shows "dense_sum d mn mx = Some (range_sum (in_range mn mx (dense_elems d)))"
proof (cases "dense_empty d")
  case True
  then have "dense_elems d = []" using inv by (simp add: dense_inv_def dense_empty_def dense_elems_def)
  then show ?thesis using True by (simp add: dense_sum_def in_range_def range_sum_def)
next
  case False
  note i = inv[unfolded dense_inv_def] and e = dense_elems_simps[OF inv]
  define b where "b = length (takeWhile (\<lambda>x. x < mn) (m_keys d))"
  define f where "f = length (takeWhile (\<lambda>x. x \<le> mx) (m_keys d))"
  have bf: "b \<le> f" "f \<le> length (m_keys d)" using takeWhile_le_mono[OF le] length_takeWhile_le by (auto simp: b_def f_def)
  have r: "in_range mn mx (dense_elems d) = drop b (take f (dense_elems d))"
    using in_range_slice[of "dense_elems d" mn mx] le i e by (simp add: b_def f_def)
  have run: "range_start d mn = Some b" "range_end d mx = Some f" using range_bounds[OF inv False] by (simp_all add: b_def f_def)
  have keys: "map fst (drop b (take f (dense_elems d))) = map ((!) (m_keys d)) [b..<f]"
    "map snd (drop b (take f (dense_elems d))) = map ((!) (m_values d)) [b..<f]"
    using bf i by (auto intro!: nth_equalityI simp: dense_elems_def)
  show ?thesis
  proof (cases "f \<le> b")
    case True
    then show ?thesis using False le run bf by (simp add: dense_sum_def r range_sum_def)
  next
    case lt: False
    let ?xs = "drop b (take f (dense_elems d))"
    have len: "length ?xs = f - b" "?xs \<noteq> []" using bf lt i e by auto
    have "fst (hd ?xs) = m_keys d ! b" "fst (last ?xs) = m_keys d ! (f - 1)"
      using len(2) keys(1) lt hd_map[OF len(2), of fst] last_map[OF len(2), of fst] by (simp_all add: last_conv_nth hd_conv_nth)
    then show ?thesis using False le run lt bf len keys
      by (simp add: dense_sum_def r range_sum_def sum_fold empty_sum_def sum64_0)
  qed
qed

lemma dense_find_elems:
  assumes inv: "dense_inv d"
  shows "\<exists>v. dense_find d key = Some v \<and> (if key \<in> fst ` set (dense_elems d) then (key, v) \<in> set (dense_elems d) else v = - 1)"
proof (cases "dense_empty d")
  case True
  then have "dense_elems d = []" using inv by (simp add: dense_inv_def dense_empty_def dense_elems_def)
  then show ?thesis using True by (simp add: dense_find_def)
next
  case False
  note i = inv[unfolded dense_inv_def] and e = dense_elems_simps[OF inv]
  define n where "n = length (takeWhile (\<lambda>x. x < key) (m_keys d))"
  have "dense_find d key = Some (if n < m_cardinality d \<and> m_keys d ! n = key then m_values d ! n else - 1)"
    using range_bounds(1)[OF inv False, of key] False by (auto simp: dense_find_def range_start_def n_def Let_def split: Option.bind_splits)
  moreover have "n < m_cardinality d \<and> m_keys d ! n = key \<longleftrightarrow> key \<in> set (m_keys d)"
  proof
    assume "key \<in> set (m_keys d)"
    then obtain j where j: "j < length (m_keys d)" "m_keys d ! j = key" by (auto simp: in_set_conv_nth)
    have nj: "n \<le> j"
    proof (rule ccontr)
      assume "\<not> n \<le> j"
      then have "m_keys d ! j < key" using set_takeWhileD[of "takeWhile (\<lambda>x. x < key) (m_keys d) ! j" "\<lambda>x. x < key" "m_keys d"]
        takeWhile_nth[of j "\<lambda>x. x < key" "m_keys d"] nth_mem[of j "takeWhile (\<lambda>x. x < key) (m_keys d)"] by (simp add: n_def)
      then show False using j(2) by simp
    qed
    then have "\<not> m_keys d ! n < key" "m_keys d ! n \<le> m_keys d ! j"
      using nth_length_takeWhile[of "\<lambda>x. x < key" "m_keys d"] j(1) i by (auto simp: n_def intro: sorted_nth_mono)
    then show "n < m_cardinality d \<and> m_keys d ! n = key" using nj j i by simp
  qed (use i in auto)
  moreover have "fst ` set (dense_elems d) = set (m_keys d)" using e(1) by (metis list.set_map)
  moreover have "(m_keys d ! n, m_values d ! n) \<in> set (dense_elems d)" if "n < m_cardinality d"
    using that i by (auto simp: dense_elems_def set_zip)
  ultimately show ?thesis by auto
qed

section \<open>Construction and build\<close>

definition sorts :: "((int \<times> int) list \<Rightarrow> (int \<times> int) list) \<Rightarrow> bool" where
  "sorts srt \<longleftrightarrow> (\<forall>xs. mset (srt xs) = mset xs \<and> sorted (map fst (srt xs)))"

lemma new_dense_ok:
  assumes "1 < B" and "B < 2 ^ 16" and "levels B 1 = 0"
  obtains d where "new_dense_array levels junk B = Some d" and "dense_inv d" and "dense_elems d = []" and "m_delta d = []"
    and "m_node_size (m_index d) = B" and "m_cardinality d = 0"
proof -
  obtain idx where idx: "new_index levels junk B 1 = Some idx" "index_ok idx 1" using new_index_ok[OF assms(1,2), of 1 levels junk] one_le_power[of B 8] assms by (auto simp: heights_exact_def index_sizes.simps ceil_log.simps)
  have "m_node_size idx = B" using idx(1) by (auto simp: new_index_def rebuild_def Let_def split: if_splits Option.bind_splits)
  then show ?thesis using that idx
    by (simp add: new_dense_array_def dense_inv_def dense_elems_def dense_segments_def cardinality_index_def)
qed

lemma dense_build_ok:
  assumes inv: "dense_inv d" and srt: "sorts srt"
    and lim: "m_cardinality d + length (m_delta d) < 2 ^ 31" "m_cardinality d + length (m_delta d) \<le> m_node_size (m_index d) ^ 8"
    and ex: "heights_exact levels (m_node_size (m_index d)) (cardinality_index (m_cardinality d + length (m_delta d)) (m_node_size (m_index d)))"
  obtains d' where "dense_build srt levels junk d = Some d'" and "dense_inv d'" and "m_delta d' = []"
    and "mset (dense_elems d') = mset (dense_elems d) + mset (m_delta d)"
    and "m_cardinality d' = m_cardinality d + length (m_delta d)" and "m_node_size (m_index d') = m_node_size (m_index d)"
proof (cases "m_delta d = []")
  case True
  then show ?thesis using that[of d] inv by (simp add: dense_build_def)
next
  case False
  note i = inv[unfolded dense_inv_def]
  let ?B = "m_node_size (m_index d)"
  define delta where "delta = srt (m_delta d)"
  have delta: "mset delta = mset (m_delta d)" "sorted (map fst delta)" using srt by (simp_all add: sorts_def delta_def)
  have len: "length delta = length (m_delta d)" using delta(1) by (metis size_mset)
  define c where "c = m_cardinality d + length delta"
  define xs where "xs = merge_delta (m_keys d) (m_values d) (m_cardinality d) delta 0 0"
  have xs: "xs = merge_pairs (dense_elems d) delta" using merge_delta_pairs[of "m_cardinality d" "m_keys d" "m_values d"] i by (simp add: xs_def dense_elems_def)
  have ms: "mset xs = mset (dense_elems d) + mset (m_delta d)" by (simp add: xs merge_pairs_mset delta)
  have sx: "sorted (map fst xs)" unfolding xs using merge_pairs_sorted[of "dense_elems d" delta] delta(2) dense_elems_simps(1)[OF inv] i by simp
  have lx: "length xs = c" using arg_cong[OF ms, of size] dense_elems_simps(2)[OF inv] len by (simp add: c_def)
  define n where "n = cardinality_index c ?B"
  have ok: "index_ok (m_index d) (dense_segments d)" using i by blast
  note B = index_okD[OF ok]
  have n: "0 < n" "n \<le> c" using cardinality_index_bounds(2,3)[OF B(1), of c] False len by (simp_all add: n_def c_def)
  obtain idx where idx: "rebuild levels junk (m_index d) n = Some idx" "index_ok idx n" "m_node_size idx = ?B"
    using rebuild_index[OF B n(1), of levels junk] n(2) lim ex len by (auto simp: c_def n_def)
  have pos: "\<forall>l<0 + n. 0 \<le> l \<longrightarrow> l * ?B < length (map fst xs)"
    using cardinality_index_bounds(1)[OF B(1), of _ c] lx by (simp add: n_def)
  obtain idx' where idx': "set_separators (map fst xs) ?B idx 0 n = Some idx'" "index_ok idx' n" "m_node_size idx' = ?B"
      "\<forall>l<n. get_separator_key idx' l = Some (map fst xs ! (l * ?B))"
    using set_separators_ok[OF idx(2) _ pos idx(2)] idx(3) by auto
  let ?d = "\<lparr>m_index = idx', m_keys = map fst xs, m_values = map snd xs, m_cardinality = c, m_delta = []\<rparr>"
  have "dense_build srt levels junk d = Some ?d"
    using False idx(1) idx'(1) by (simp add: dense_build_def Let_def flip: delta_def xs_def c_def n_def)
  moreover have "dense_inv ?d" using lx sx idx' n(1) by (simp add: dense_inv_def dense_segments_def flip: n_def)
  moreover have "dense_elems ?d = xs" by (simp add: dense_elems_def zip_map_fst_snd)
  ultimately show ?thesis using that[of ?d] ms idx'(3) len by (simp add: c_def)
qed

section \<open>Properties\<close>

text \<open>C31. A build merges the elements inserted since the last one: the arrays hold the old elements and those
  of the delta and no other, in key order, the delta is empty and the index has the separators of the
  new arrays; nothing is an error as long as the index can hold the separators and the expression of the
  code for its height is exact for them (\<open>index_build_correct\<close> says what happens when it is not).\<close>

theorem dense_build_correct:
  assumes "dense_inv d" and "sorts srt" and "m_cardinality d + length (m_delta d) < 2 ^ 31"
    and "m_cardinality d + length (m_delta d) \<le> m_node_size (m_index d) ^ 8"
    and "heights_exact levels (m_node_size (m_index d)) (cardinality_index (m_cardinality d + length (m_delta d)) (m_node_size (m_index d)))"
  shows "\<exists>d'. dense_build srt levels junk d = Some d' \<and> dense_inv d' \<and> m_delta d' = [] \<and> sorted (map fst (dense_elems d'))
    \<and> mset (dense_elems d') = mset (dense_elems d) + mset (m_delta d) \<and> dense_size d' = dense_size d + length (m_delta d)"
proof -
  obtain d' where d': "dense_build srt levels junk d = Some d'" "dense_inv d'" "m_delta d' = []"
      "mset (dense_elems d') = mset (dense_elems d) + mset (m_delta d)" "m_cardinality d' = m_cardinality d + length (m_delta d)"
    by (rule dense_build_ok[OF assms])
  have "sorted (map fst (dense_elems d'))" using dense_elems_simps(1)[OF d'(2)] d'(2) by (simp add: dense_inv_def)
  then show ?thesis using d' by (simp add: dense_size_def)
qed

lemma sorts_sort_key: "sorts (sort_key fst)"
  by (simp add: sorts_def)

lemma dense_inserts:
  "dense_inv (dense_insert d k v) = dense_inv d" "dense_elems (dense_insert d k v) = dense_elems d"
  "m_delta (dense_insert d k v) = m_delta d @ [(k, v)]" "m_cardinality (dense_insert d k v) = m_cardinality d"
  "m_index (dense_insert d k v) = m_index d"
  by (simp_all add: dense_insert_def dense_inv_def dense_elems_def dense_segments_def)

theorem dense_build_correct_witness:
  "\<exists>d d'. new_dense_array ceil_log 7 2 = Some d \<and> dense_build (sort_key fst) ceil_log 7 (dense_insert (dense_insert (dense_insert d 5 50) 3 30) 4 40) = Some d'
    \<and> dense_size d' = 3 \<and> mset (dense_elems d') = {#(3, 30), (4, 40), (5, 50)#}"
proof -
  obtain d where d: "new_dense_array ceil_log 7 2 = Some d" "dense_inv d" "dense_elems d = []" "m_delta d = []" "m_node_size (m_index d) = 2" "m_cardinality d = 0"
    by (rule new_dense_ok[of 2 ceil_log 7]) (simp_all add: ceil_log.simps)
  let ?d = "dense_insert (dense_insert (dense_insert d 5 50) 3 30) 4 40"
  show ?thesis using dense_build_correct[of ?d "sort_key fst" ceil_log 7] d sorts_sort_key by (auto simp: dense_inserts dense_size_def)
qed

text \<open>C32. The searches see exactly the elements of the arrays: \<open>find\<close> returns the value of a pair with the key, or
  -1 when there is none; the iterator of a range ends after the pairs of the range in key order; the sum is
  their aggregate, added up in 64 bits; the iterator of the container gives all pairs.\<close>

theorem dense_queries_correct:
  assumes "dense_inv d" and "mn \<le> mx"
  shows "(\<exists>v. dense_find d key = Some v \<and> (if key \<in> fst ` set (dense_elems d) then (key, v) \<in> set (dense_elems d) else v = - 1))
    \<and> (\<exists>it. dense_find_range d mn mx = Some it \<and> dense_drain it = Some (in_range mn mx (dense_elems d)))
    \<and> dense_sum d mn mx = Some (range_sum (in_range mn mx (dense_elems d)))
    \<and> dense_drain (dense_iterator d) = Some (dense_elems d)"
proof -
  have "dense_drain (dense_iterator d) = Some (dense_elems d)"
    using assms(1) dense_drain_slice[of "dense_iterator d"] by (simp add: dense_iterator_def new_internal_iterator_def dense_inv_def dense_elems_def)
  then show ?thesis
    using dense_find_elems[OF assms(1), of key] dense_find_range_slice[OF assms] dense_sum_range[OF assms] by metis
qed

theorem dense_queries_correct_witness:
  "\<exists>d d'. new_dense_array ceil_log 7 2 = Some d \<and> dense_build (sort_key fst) ceil_log 7 (dense_insert (dense_insert (dense_insert d 5 50) 3 30) 4 40) = Some d'
    \<and> dense_find d' 4 = Some 40 \<and> dense_find d' 6 = Some (- 1)
    \<and> dense_sum d' 4 9 = Some \<lparr>m_first_key = 4, m_last_key = 5, m_num_elements = 2, m_sum_keys = 9, m_sum_values = 90\<rparr>"
proof -
  obtain d where d: "new_dense_array ceil_log 7 2 = Some d" "dense_inv d" "dense_elems d = []" "m_delta d = []" "m_node_size (m_index d) = 2" "m_cardinality d = 0"
    by (rule new_dense_ok[of 2 ceil_log 7]) (simp_all add: ceil_log.simps)
  let ?d = "dense_insert (dense_insert (dense_insert d 5 50) 3 30) 4 40"
  obtain d' where d': "dense_build (sort_key fst) ceil_log 7 ?d = Some d'" "dense_inv d'" "mset (dense_elems d') = {#(3, 30), (4, 40), (5, 50)#}"
    by (rule dense_build_ok[of ?d "sort_key fst" ceil_log 7]) (use d sorts_sort_key in \<open>simp_all add: dense_inserts\<close>)
  have "sorted (map fst (dense_elems d'))" using dense_elems_simps(1)[OF d'(2)] d'(2) by (simp add: dense_inv_def)
  moreover have m: "mset [(3, 30), (4, 40), (5, 50)] = mset (dense_elems d')" using d'(3) by simp
  ultimately have "sort_key fst [(3, 30), (4, 40), (5, 50)] = dense_elems d'" by (intro sort_key_inj_key_eq) auto
  then have e: "dense_elems d' = [(3, 30), (4, 40), (5, 50)]" by simp
  show ?thesis
    using dense_queries_correct[OF d'(2), of 4 9 4] dense_queries_correct[OF d'(2), of 4 9 6] d(1) d'(1) e
    by (auto simp: in_range_def range_sum_def)
qed

end
