(* ===== verification/Sequential.thy ===== *)
theory Sequential
  imports Doubles Interface
begin

text \<open>
  The array without an index, \<open>pma/sequential/pma_v4.cpp\<close>: one array of pairs cut into segments, the
  elements of a segment at its start. A binary search over the segments stands for the index. There is no
  removal.

  \<open>new element_t[n]\<close> constructs the pairs, so a fresh cell is \<open>(0, 0)\<close>. The workspace of a spread is a list.
  \<open>None\<close> is a failed assertion, an exception or an access out of bounds. \<open>pow (2, ceil (log2 (x)))\<close> is taken
  as exact. The positions of \<open>rebalance\<close> are of type \<open>int\<close>: they are naturals here, and the properties are about
  fewer than \<open>2 ^ 30\<close> elements, which are in at most \<open>2 ^ 30\<close> segments.
\<close>

section \<open>State\<close>

record PMA_Impl4 =
  m_elements :: "(int \<times> int) list"
  m_capacity :: nat
  m_segments :: "nat list"
  m_segment_capacity :: nat
  m_height :: nat
  m_cardinality :: nat

definition seq_hyperceil :: "nat \<Rightarrow> nat" where
  "seq_hyperceil x = (if x = 0 then 0 else 2 ^ bit_len (x - 1))"

definition floor_log2 :: "nat \<Rightarrow> nat" where
  "floor_log2 x = bit_len x - 1"

definition seq_size :: "PMA_Impl4 \<Rightarrow> nat" where
  "seq_size s = m_cardinality s"

definition seq_empty :: "PMA_Impl4 \<Rightarrow> bool" where
  "seq_empty s \<longleftrightarrow> m_cardinality s = 0"

definition get_num_segments :: "PMA_Impl4 \<Rightarrow> nat" where
  "get_num_segments s = m_capacity s div m_segment_capacity s"

definition min_capacity :: nat where "min_capacity = 8"

definition initialize :: "nat \<Rightarrow> PMA_Impl4 option" where
  "initialize capacity =
     (let c = seq_hyperceil capacity
      in if 65535 \<le> capacity then None
         else Some \<lparr>m_elements = replicate c (0, 0), m_capacity = c, m_segments = [0], m_segment_capacity = c,
           m_height = 1, m_cardinality = 0\<rparr>)"

definition new_seq :: "PMA_Impl4 option" where
  "new_seq = initialize min_capacity"

definition seq_clear :: "PMA_Impl4 \<Rightarrow> PMA_Impl4 option" where
  "seq_clear s = initialize min_capacity"

section \<open>Iterator\<close>

record SeqIterator =
  m_instance :: PMA_Impl4
  m_segment :: nat
  m_current :: nat
  m_stop :: nat
  m_end :: nat

definition seq_iterator :: "PMA_Impl4 \<Rightarrow> SeqIterator" where
  "seq_iterator s = \<lparr>m_instance = s, m_segment = 0, m_current = 0, m_stop = m_segments s ! 0, m_end = m_capacity s\<rparr>"

definition seq_move :: "SeqIterator \<Rightarrow> SeqIterator" where
  "seq_move it =
     (let s = m_instance it; current = m_current it + 1
      in if m_stop it \<le> current then
           let segment = m_segment it + 1; current = m_segment_capacity s * segment;
               stop = (if current < m_end it then
                         let stop = (if segment < get_num_segments s then current + m_segments s ! segment else m_stop it)
                         in if m_end it < stop then m_end it else stop
                       else m_stop it)
           in it\<lparr>m_segment := segment, m_current := current, m_stop := stop\<rparr>
         else it\<lparr>m_current := current\<rparr>)"

definition seq_hasNext :: "SeqIterator \<Rightarrow> bool" where
  "seq_hasNext it \<longleftrightarrow> m_current it < m_stop it"

definition seq_next :: "SeqIterator \<Rightarrow> ((int \<times> int) \<times> SeqIterator) option" where
  "seq_next it =
     (if seq_hasNext it \<and> m_current it < length (m_elements (m_instance it))
      then Some (m_elements (m_instance it) ! m_current it, seq_move it) else None)"

text \<open>\<open>n\<close> calls of \<open>next\<close>.\<close>

fun seq_take :: "nat \<Rightarrow> SeqIterator \<Rightarrow> ((int \<times> int) list \<times> SeqIterator) option" where
  "seq_take 0 it = Some ([], it)"
| "seq_take (Suc n) it = do {
     (x, it) \<leftarrow> seq_next it;
     (xs, it) \<leftarrow> seq_take n it;
     Some (x # xs, it) }"

section \<open>Rebalance\<close>

text \<open>The sizes of \<open>n\<close> segments for \<open>c\<close> elements: the first ones have one more when \<open>n\<close> does not divide \<open>c\<close>.\<close>

definition seq_sizes :: "nat \<Rightarrow> nat \<Rightarrow> nat list" where
  "seq_sizes c n = map (\<lambda>i. c div n + (if i < c mod n then 1 else 0)) [0..<n]"

text \<open>\<open>memcpy\<close> of \<open>xs\<close> to the position \<open>off\<close> of an array.\<close>

definition seq_copy :: "'a list \<Rightarrow> nat \<Rightarrow> 'a list \<Rightarrow> 'a list option" where
  "seq_copy E off xs = (if off + length xs \<le> length E then Some (take off E @ xs @ drop (off + length xs) E) else None)"

text \<open>The elements of the iterator, segment by segment, into the new array.\<close>

fun copy_segments :: "nat \<Rightarrow> nat \<Rightarrow> nat list \<Rightarrow> SeqIterator \<Rightarrow> (int \<times> int) list \<Rightarrow> (int \<times> int) list option" where
  "copy_segments segment_size i [] it E = Some E"
| "copy_segments segment_size i (sz # sizes) it E = do {
     (xs, it) \<leftarrow> seq_take sz it;
     E \<leftarrow> seq_copy E (segment_size * i) xs;
     copy_segments segment_size (i + 1) sizes it E }"

definition seq_resize :: "PMA_Impl4 \<Rightarrow> PMA_Impl4 option" where
  "seq_resize s =
     (let capacity = m_capacity s * 2; segment_size = seq_hyperceil (floor_log2 capacity);
          num_segments = capacity div segment_size; segments = seq_sizes (m_cardinality s) num_segments
      in do {
        elements \<leftarrow> copy_segments segment_size 0 segments (seq_iterator s) (replicate capacity (0, 0));
        Some (s\<lparr>m_elements := elements, m_capacity := capacity, m_segments := segments, m_segment_capacity := segment_size,
          m_height := floor_log2 (capacity div segment_size) + 1\<rparr>) })"

text \<open>The two loops of the spread: the elements of the segments \<open>i\<close> to \<open>i + n\<close>, and back into segments of the
  sizes \<open>m_segments\<close>.\<close>

fun load_window :: "PMA_Impl4 \<Rightarrow> nat \<Rightarrow> nat \<Rightarrow> (int \<times> int) list" where
  "load_window s i 0 = []"
| "load_window s i (Suc n) = take (m_segments s ! i) (drop (i * m_segment_capacity s) (m_elements s)) @ load_window s (i + 1) n"

fun save_window :: "nat \<Rightarrow> nat \<Rightarrow> nat list \<Rightarrow> (int \<times> int) list \<Rightarrow> (int \<times> int) list \<Rightarrow> (int \<times> int) list option" where
  "save_window segment_capacity i [] tmp E = Some E"
| "save_window segment_capacity i (sz # sizes) tmp E = do {
     E \<leftarrow> seq_copy E (i * segment_capacity) (take sz tmp);
     save_window segment_capacity (i + 1) sizes (drop sz tmp) E }"

definition seq_spread :: "PMA_Impl4 \<Rightarrow> nat \<Rightarrow> nat \<Rightarrow> nat \<Rightarrow> PMA_Impl4 option" where
  "seq_spread s num_elements window_start window_length =
     (let tmp = load_window s window_start window_length; sizes = seq_sizes num_elements window_length
      in do {
        E \<leftarrow> save_window (m_segment_capacity s) window_start sizes tmp (m_elements s);
        segments \<leftarrow> seq_copy (m_segments s) window_start sizes;
        Some (s\<lparr>m_elements := E, m_segments := segments\<rparr>) })"

definition seq_thresholds :: "PMA_Impl4 \<Rightarrow> nat \<Rightarrow> (double \<times> double) option" where
  "seq_thresholds s height =
     (if 0 < height \<and> height \<le> m_height s then
        let diff = ddiv (dsub (d_of_nat (m_height s)) (d_of_nat height)) (d_of_nat (m_height s))
        in Some (dsub (1 / 2) (dmul (1 / 4) diff), dadd (3 / 4) (dmul (1 / 4) diff))
      else None)"

text \<open>\<open>while (index_left >= window_start) num_elements += m_segments[index_left--];\<close> and likewise to the right.\<close>

function add_left :: "nat list \<Rightarrow> nat \<Rightarrow> int \<Rightarrow> nat \<Rightarrow> nat \<times> int" where
  "add_left segs window_start index_left num =
     (if int window_start \<le> index_left then add_left segs window_start (index_left - 1) (num + segs ! nat index_left)
      else (num, index_left))"
  by pat_completeness auto
termination by (relation "measure (\<lambda>(segs, w, l, n). nat (l + 1))") auto

function add_right :: "nat list \<Rightarrow> nat \<Rightarrow> nat \<Rightarrow> nat \<Rightarrow> (nat \<times> nat) option" where
  "add_right segs window_end index_right num =
     (if index_right < window_end
      then if index_right < length segs then add_right segs window_end (index_right + 1) (num + segs ! index_right) else None
      else Some (num, index_right))"
  by pat_completeness auto
termination by (relation "measure (\<lambda>(segs, w, r, n). w - r)") auto

record SeqWindow =
  w_density :: double
  w_theta :: double
  w_num_elements :: nat
  w_start :: nat
  w_length :: nat

function seq_windows :: "PMA_Impl4 \<Rightarrow> nat \<Rightarrow> nat \<Rightarrow> nat \<Rightarrow> int \<Rightarrow> nat \<Rightarrow> nat \<Rightarrow> SeqWindow option" where
  "seq_windows s height window_length window_id index_left index_right num_elements =
     (let height = height + 1; window_length = window_length * 2; window_id = window_id div 2;
          window_start = window_id * window_length; window_end = window_start + window_length
      in do {
        (rho, theta) \<leftarrow> seq_thresholds s height;
        let (num_elements, index_left) = add_left (m_segments s) window_start index_left num_elements;
        (num_elements, index_right) \<leftarrow> add_right (m_segments s) window_end index_right num_elements;
        let density = ddiv (d_of_nat num_elements) (d_of_nat (window_length * m_segment_capacity s));
        if theta \<le> density \<and> height < m_height s
        then seq_windows s height window_length window_id index_left index_right num_elements
        else Some \<lparr>w_density = density, w_theta = theta, w_num_elements = num_elements, w_start = window_start, w_length = window_length\<rparr> })"
  by pat_completeness auto
termination by (relation "measure (\<lambda>(s, h, _). m_height s - h)") auto

declare add_left.simps [simp del] add_right.simps [simp del] seq_windows.simps [simp del]

definition seq_rebalance :: "PMA_Impl4 \<Rightarrow> nat \<Rightarrow> PMA_Impl4 option" where
  "seq_rebalance s segment_id = do {
     let num_elements = m_segments s ! segment_id;
     w \<leftarrow> (if 1 < m_height s then seq_windows s 1 1 segment_id (int segment_id - 1) (segment_id + 1) num_elements
          else Some \<lparr>w_density = 1, w_theta = 3 / 4, w_num_elements = num_elements, w_start = segment_id, w_length = 1\<rparr>);
     if w_theta w \<le> w_density w then seq_resize s else seq_spread s (w_num_elements w) (w_start w) (w_length w) }"

section \<open>Find\<close>

text \<open>The binary search. With the pivot 0, \<open>ub = pivot - 1\<close> wraps around to \<open>2 ^ 64 - 1\<close>, and the next pivot is
  outside of the array.\<close>

function search_segment :: "PMA_Impl4 \<Rightarrow> int \<Rightarrow> nat \<Rightarrow> nat \<Rightarrow> nat option" where
  "search_segment s key lb ub =
     (if lb < ub then
        let pivot = (lb + ub) div 2; first = pivot * m_segment_capacity s
        in if pivot < length (m_segments s) \<and> 0 < m_segments s ! pivot then
             if key < fst (m_elements s ! first) then if pivot = 0 then None else search_segment s key lb (pivot - 1)
             else if key \<le> fst (m_elements s ! (first + m_segments s ! pivot - 1)) then Some pivot
             else search_segment s key (pivot + 1) ub
           else None
      else Some lb)"
  by pat_completeness auto
termination by (relation "measure (\<lambda>(s, k, lb, ub). ub - lb)") auto

declare search_segment.simps [simp del]

definition find_segment :: "PMA_Impl4 \<Rightarrow> int \<Rightarrow> nat option" where
  "find_segment s key = (if seq_empty s then Some 0 else search_segment s key 0 (get_num_segments s - 1))"

text \<open>The loop over the \<open>n\<close> cells from the position \<open>i\<close>.\<close>

fun scan_cells :: "(int \<times> int) list \<Rightarrow> int \<Rightarrow> nat \<Rightarrow> nat \<Rightarrow> int" where
  "scan_cells E key i 0 = - 1"
| "scan_cells E key i (Suc n) = (if fst (E ! i) = key then snd (E ! i) else scan_cells E key (i + 1) n)"

definition seq_find :: "PMA_Impl4 \<Rightarrow> int \<Rightarrow> int option" where
  "seq_find s key = do {
     segment_id \<leftarrow> find_segment s key;
     if segment_id < length (m_segments s)
     then Some (scan_cells (m_elements s) key (m_segment_capacity s * segment_id) (m_segments s ! segment_id)) else None }"

section \<open>Insertion\<close>

text \<open>The cells \<open>b\<close> to \<open>b + i\<close>: greater elements move one cell to the right; the result is the free cell.\<close>

fun shift_greater :: "(int \<times> int) list \<Rightarrow> nat \<Rightarrow> int \<Rightarrow> nat \<Rightarrow> (int \<times> int) list \<times> nat" where
  "shift_greater E b key 0 = (E, 0)"
| "shift_greater E b key (Suc i) =
     (if key < fst (E ! (b + i)) then shift_greater (E[b + Suc i := E ! (b + i)]) b key i else (E, Suc i))"

definition seq_insert :: "PMA_Impl4 \<Rightarrow> int \<Rightarrow> int \<Rightarrow> PMA_Impl4 option" where
  "seq_insert s key value = do {
     segment_id \<leftarrow> find_segment s key;
     if segment_id < length (m_segments s) \<and> m_segments s ! segment_id < m_segment_capacity s then do {
       let b = m_segment_capacity s * segment_id;
       let (E, i) = shift_greater (m_elements s) b key (m_segments s ! segment_id);
       let s = s\<lparr>m_elements := E[b + i := (key, value)], m_segments := (m_segments s)[segment_id := m_segments s ! segment_id + 1],
         m_cardinality := m_cardinality s + 1\<rparr>;
       if m_segments s ! segment_id = m_segment_capacity s then seq_rebalance s segment_id else Some s }
     else None }"

section \<open>Sum\<close>

fun skip_smaller :: "(int \<times> int) list \<Rightarrow> nat \<Rightarrow> int \<Rightarrow> nat \<Rightarrow> nat \<Rightarrow> nat" where
  "skip_smaller E b mn i 0 = i"
| "skip_smaller E b mn i (Suc n) = (if fst (E ! (b + i)) < mn then skip_smaller E b mn (i + 1) n else i)"

fun sum_cells :: "(int \<times> int) list \<Rightarrow> nat \<Rightarrow> int \<Rightarrow> nat \<Rightarrow> nat \<Rightarrow> SumResult \<Rightarrow> SumResult \<times> nat" where
  "sum_cells E b mx i 0 r = (r, i)"
| "sum_cells E b mx i (Suc n) r =
     (if fst (E ! (b + i)) \<le> mx
      then sum_cells E b mx (i + 1) n (r\<lparr>m_sum_keys := s64 (m_sum_keys r + fst (E ! (b + i))), m_sum_values := s64 (m_sum_values r + snd (E ! (b + i))),
        m_last_key := fst (E ! (b + i)), m_num_elements := m_num_elements r + 1\<rparr>)
      else (r, i))"

text \<open>The segments in between: all their elements, which do not change \<open>m_last_key\<close>.\<close>

definition sum_segment :: "PMA_Impl4 \<Rightarrow> SumResult \<Rightarrow> nat \<Rightarrow> SumResult" where
  "sum_segment s r segment_id =
     (let b = m_segment_capacity s * segment_id
      in foldl (\<lambda>r i. r\<lparr>m_sum_keys := s64 (m_sum_keys r + fst (m_elements s ! (b + i))),
           m_sum_values := s64 (m_sum_values r + snd (m_elements s ! (b + i))), m_num_elements := m_num_elements r + 1\<rparr>)
         r [0..<m_segments s ! segment_id])"

definition seq_sum :: "PMA_Impl4 \<Rightarrow> int \<Rightarrow> int \<Rightarrow> SumResult option" where
  "seq_sum s mn mx =
     (if seq_empty s \<or> mx < mn then Some empty_sum
      else do {
        segment_start \<leftarrow> find_segment s mn;
        segment_end \<leftarrow> find_segment s mx;
        if length (m_segments s) \<le> segment_start \<or> length (m_segments s) \<le> segment_end then None
        else
          let E = m_elements s; b = m_segment_capacity s * segment_start; sz = m_segments s ! segment_start;
              i = skip_smaller E b mn 0 sz
          in if i = sz \<or> mx < fst (E ! (b + i)) then Some empty_sum
             else
               let (r, j) = sum_cells E b mx i (sz - i) (empty_sum\<lparr>m_first_key := fst (E ! (b + i))\<rparr>)
               in if j < sz \<or> segment_start = segment_end then Some r
                  else
                    let r = foldl (sum_segment s) r [segment_start + 1..<segment_end]
                    in Some (fst (sum_cells E (m_segment_capacity s * segment_end) mx 0 (m_segments s ! segment_end) r)) })"

end
