(* ===== verification/Sequential_Proofs.thy ===== *)
theory Sequential_Proofs
  imports Sequential
begin

text \<open>
  The array without an index as a list of rows, one for each segment (\<open>layout\<close>): the invariant \<open>seq_inv\<close>,
  the copies, the iterator, the search for a segment, the rebalances and the insertion.
\<close>

section \<open>Rows\<close>

definition seq_row :: "PMA_Impl4 \<Rightarrow> nat \<Rightarrow> (int \<times> int) list" where
  "seq_row s i = take (m_segments s ! i) (drop (i * m_segment_capacity s) (m_elements s))"

definition seq_rows :: "PMA_Impl4 \<Rightarrow> (int \<times> int) list list" where
  "seq_rows s = map (seq_row s) [0..<length (m_segments s)]"

definition seq_elems :: "PMA_Impl4 \<Rightarrow> (int \<times> int) list" where
  "seq_elems s = concat (seq_rows s)"

text \<open>The first cells of every block of \<open>c\<close> cells hold the elements of its row.\<close>

definition layout :: "nat \<Rightarrow> 'a list \<Rightarrow> 'a list list \<Rightarrow> bool" where
  "layout c E rows \<longleftrightarrow> length E = length rows * c \<and>
     (\<forall>i<length rows. length (rows ! i) \<le> c \<and> take (length (rows ! i)) (drop (i * c) E) = rows ! i)"

lemma layout_row_fits: "layout c E rows \<Longrightarrow> i < length rows \<Longrightarrow> i * c + c \<le> length E"
proof -
  assume a: "layout c E rows" "i < length rows"
  then have "(i + 1) * c \<le> length rows * c" by (intro mult_le_mono1) simp
  then show ?thesis using a by (simp add: layout_def)
qed

lemma layout_nth:
  assumes "layout c E rows" "i < length rows" "j < length (rows ! i)"
  shows "E ! (i * c + j) = rows ! i ! j"
proof -
  have "rows ! i = take (length (rows ! i)) (drop (i * c) E)" "length (rows ! i) \<le> c" using assms by (simp_all add: layout_def)
  then have "rows ! i ! j = drop (i * c) E ! j" using assms(3) by (metis nth_take)
  then show ?thesis using layout_row_fits[OF assms(1,2)] by simp
qed

lemma layoutI:
  assumes "length E = length rows * c" and "\<And>i. i < length rows \<Longrightarrow> length (rows ! i) \<le> c"
    and "\<And>i j. i < length rows \<Longrightarrow> j < length (rows ! i) \<Longrightarrow> E ! (i * c + j) = rows ! i ! j"
  shows "layout c E rows"
  unfolding layout_def
proof (intro conjI allI impI)
  fix i assume i: "i < length rows"
  then have "(i + 1) * c \<le> length rows * c" by (intro mult_le_mono1) simp
  then have "i * c + length (rows ! i) \<le> length E" using assms(1) assms(2)[OF i] by simp
  then show "take (length (rows ! i)) (drop (i * c) E) = rows ! i" using assms(3)[OF i] by (intro nth_equalityI) auto
qed (use assms in auto)

text \<open>A copy into the start of a block replaces its row.\<close>

lemma cells_disjoint:
  fixes c :: nat
  assumes "t \<noteq> i" "j < c"
  shows "t * c + j < i * c \<or> i * c + c \<le> t * c + j"
proof (cases "t < i")
  case True
  then have "(t + 1) * c \<le> i * c" by (intro mult_le_mono1) simp
  then show ?thesis using assms by simp
next
  case False
  then have "(i + 1) * c \<le> t * c" using assms(1) by (intro mult_le_mono1) simp
  then show ?thesis by simp
qed

lemma layout_copy:
  assumes lay: "layout c E rows" and i: "i < length rows" and xs: "length xs \<le> c"
  obtains E' where "seq_copy E (i * c) xs = Some E'" and "layout c E' (rows[i := xs])"
proof -
  note fits = layout_row_fits[OF lay i]
  let ?E = "take (i * c) E @ xs @ drop (i * c + length xs) E"
  have "seq_copy E (i * c) xs = Some ?E" using fits xs by (simp add: seq_copy_def)
  moreover have "layout c ?E (rows[i := xs])"
  proof (rule layoutI)
    show "length ?E = length (rows[i := xs]) * c" using lay fits xs by (simp add: layout_def)
    show "\<And>j. j < length (rows[i := xs]) \<Longrightarrow> length (rows[i := xs] ! j) \<le> c"
      using lay xs i by (auto simp: layout_def nth_list_update)
    fix t j assume t: "t < length (rows[i := xs])" and j: "j < length (rows[i := xs] ! t)"
    show "?E ! (t * c + j) = rows[i := xs] ! t ! j"
    proof (cases "t = i")
      case True
      then show ?thesis using i j fits xs by (simp add: nth_append)
    next
      case False
      have r: "length (rows ! t) \<le> c" "j < length (rows ! t)" using False t j lay by (auto simp: layout_def)
      have "t * c + c \<le> length E" using layout_row_fits[OF lay] t by simp
      then have "?E ! (t * c + j) = E ! (t * c + j)"
        using cells_disjoint[OF False, of j c] r fits xs by (auto simp: nth_append)
      then show ?thesis using layout_nth[OF lay _ r(2)] False t by simp
    qed
  qed
  ultimately show thesis by (rule that)
qed

lemma layout_fresh: "layout c (replicate (n * c) x) (replicate n [])"
  by (simp add: layout_def)

section \<open>Sizes\<close>

lemma seq_sizes_props:
  assumes "0 < n"
  shows "length (seq_sizes c n) = n" "sum_list (seq_sizes c n) = c"
    and "c \<le> n * M \<Longrightarrow> x \<in> set (seq_sizes c n) \<Longrightarrow> x \<le> M" "n \<le> c \<Longrightarrow> x \<in> set (seq_sizes c n) \<Longrightarrow> 0 < x"
proof -
  show "length (seq_sizes c n) = n" by (simp add: seq_sizes_def)
  have count: "(\<Sum>i<n. if i < r then 1 else 0) = (r :: nat)" if "r \<le> n" for r
  proof -
    have "{..<n} \<inter> {i. i < r} = {..<r}" using that by auto
    then show ?thesis by (simp add: sum.If_cases)
  qed
  have "sum_list (seq_sizes c n) = (\<Sum>i<n. c div n + (if i < c mod n then 1 else 0))"
    by (simp add: seq_sizes_def interv_sum_list_conv_sum_set_nat lessThan_atLeast0)
  also have "\<dots> = n * (c div n) + c mod n" using count[of "c mod n"] assms by (simp add: sum.distrib)
  finally show "sum_list (seq_sizes c n) = c" by simp
  show "x \<le> M" if le: "c \<le> n * M" and elem: "x \<in> set (seq_sizes c n)"
  proof -
    obtain i where x: "x = c div n + (if i < c mod n then 1 else 0)" using elem by (auto simp: seq_sizes_def)
    have "c div n \<le> M" using assms div_le_mono[OF le, of n] by simp
    moreover have "c div n < M" if r: "0 < c mod n"
    proof (rule ccontr)
      assume "\<not> c div n < M"
      then have "n * M \<le> n * (c div n)" by simp
      then show False using r le mult_div_mod_eq[of n c] by linarith
    qed
    ultimately show ?thesis using x by (auto split: if_splits)
  qed
  show "0 < x" if le: "n \<le> c" and elem: "x \<in> set (seq_sizes c n)"
  proof -
    have "0 < c div n" using le assms by (simp add: div_greater_zero_iff)
    then show ?thesis using elem by (auto simp: seq_sizes_def)
  qed
qed

text \<open>A list cut into rows of given lengths.\<close>

fun cut_rows :: "nat list \<Rightarrow> 'a list \<Rightarrow> 'a list list" where
  "cut_rows [] xs = []"
| "cut_rows (n # ns) xs = take n xs # cut_rows ns (drop n xs)"

lemma cut_rows_props:
  "length (cut_rows ns xs) = length ns"
  "sum_list ns = length xs \<Longrightarrow> concat (cut_rows ns xs) = xs"
  "sum_list ns = length xs \<Longrightarrow> map length (cut_rows ns xs) = ns"
  by (induction ns xs rule: cut_rows.induct) auto

lemma save_window_layout:
  "layout c E rows \<Longrightarrow> i + length sizes \<le> length rows \<Longrightarrow> \<forall>z \<in> set sizes. z \<le> c \<Longrightarrow>
    \<exists>E'. save_window c i sizes tmp E = Some E' \<and> layout c E' (take i rows @ cut_rows sizes tmp @ drop (i + length sizes) rows)"
proof (induction sizes arbitrary: i tmp E rows)
  case Nil
  then show ?case by simp
next
  case (Cons z sizes)
  have i: "i < length rows" and z: "length (take z tmp) \<le> c" using Cons.prems by auto
  obtain E1 where E1: "seq_copy E (i * c) (take z tmp) = Some E1" "layout c E1 (rows[i := take z tmp])"
    by (rule layout_copy[OF Cons.prems(1) i z])
  obtain E' where E': "save_window c (i + 1) sizes (drop z tmp) E1 = Some E'"
      "layout c E' (take (i + 1) (rows[i := take z tmp]) @ cut_rows sizes (drop z tmp) @ drop (i + 1 + length sizes) (rows[i := take z tmp]))"
    using Cons.IH[OF E1(2), of "i + 1" "drop z tmp"] Cons.prems by auto
  have "take (i + 1) (rows[i := take z tmp]) = take i rows @ [take z tmp]" using i by (simp add: take_Suc_conv_app_nth)
  then show ?case using E1(1) E' i by simp
qed

section \<open>Invariant\<close>

text \<open>The shape is a function of the capacity \<open>2 ^ k\<close>: one segment of 8 cells, or segments of \<open>2 ^ bit_len (k - 1)\<close>
  cells. The segments are not full and, but for a single one, not empty.\<close>

definition seq_shape :: "PMA_Impl4 \<Rightarrow> nat \<Rightarrow> bool" where
  "seq_shape s k \<longleftrightarrow> m_capacity s = 2 ^ k \<and>
     (k = 3 \<and> m_segment_capacity s = 8 \<and> length (m_segments s) = 1 \<and> m_height s = 1
      \<or> 4 \<le> k \<and> m_segment_capacity s = 2 ^ bit_len (k - 1) \<and> length (m_segments s) = 2 ^ (k - bit_len (k - 1))
        \<and> m_height s = k - bit_len (k - 1) + 1)"

definition seq_wf :: "PMA_Impl4 \<Rightarrow> bool" where
  "seq_wf s \<longleftrightarrow> layout (m_segment_capacity s) (m_elements s) (seq_rows s)
     \<and> m_segments s = map length (seq_rows s) \<and> m_cardinality s = length (seq_elems s) \<and> sorted (map fst (seq_elems s))"

definition seq_inv :: "PMA_Impl4 \<Rightarrow> bool" where
  "seq_inv s \<longleftrightarrow> seq_wf s \<and> (\<exists>k. seq_shape s k)
     \<and> (\<forall>r \<in> set (seq_rows s). length r < m_segment_capacity s \<and> (1 < length (m_segments s) \<longrightarrow> r \<noteq> []))"

lemma length_seq_rows [simp]: "length (seq_rows s) = length (m_segments s)"
  by (simp add: seq_rows_def)

text \<open>A state with a layout has its rows.\<close>

lemma layout_rows:
  assumes "layout (m_segment_capacity s) (m_elements s) rows" and "m_segments s = map length rows"
  shows "seq_rows s = rows"
proof (rule nth_equalityI)
  fix i assume "i < length (seq_rows s)"
  then show "seq_rows s ! i = rows ! i" using assms by (simp add: layout_def seq_rows_def seq_row_def)
qed (simp add: assms(2))

lemma seq_wf_row:
  assumes "seq_wf s" "i < length (m_segments s)"
  shows "m_segments s ! i = length (seq_rows s ! i)" "seq_rows s ! i = seq_row s i"
    and "\<And>j. j < length (seq_rows s ! i) \<Longrightarrow> m_elements s ! (i * m_segment_capacity s + j) = seq_rows s ! i ! j"
proof -
  have lay: "layout (m_segment_capacity s) (m_elements s) (seq_rows s)" and m: "m_segments s = map length (seq_rows s)"
    using assms(1) unfolding seq_wf_def by blast+
  show "m_segments s ! i = length (seq_rows s ! i)" using assms(2) by (subst m) simp
  show "seq_rows s ! i = seq_row s i" using assms(2) by (simp add: seq_rows_def)
  show "\<And>j. j < length (seq_rows s ! i) \<Longrightarrow> m_elements s ! (i * m_segment_capacity s + j) = seq_rows s ! i ! j"
    by (rule layout_nth[OF lay]) (use assms(2) in simp_all)
qed

text \<open>The numbers of the shape.\<close>

lemma bit_len_shape:
  assumes "4 \<le> k"
  shows "bit_len (k - 1) + 2 \<le> k" "k \<le> 2 ^ bit_len (k - 1)" "4 \<le> (2::nat) ^ bit_len (k - 1)"
proof -
  have "k - 1 < 2 ^ (k - 2)" using assms
  proof (induction k rule: dec_induct)
    case (step n)
    then have "Suc n - 2 = Suc (n - 2)" by simp
    then have "(2::nat) ^ (Suc n - 2) = 2 * 2 ^ (n - 2)" by (simp only: power_Suc)
    then show ?case using step by linarith
  qed simp
  then have "bit_len (k - 1) \<le> k - 2" by (rule bit_len_le)
  then show "bit_len (k - 1) + 2 \<le> k" using assms by simp
  show le: "k \<le> 2 ^ bit_len (k - 1)" using bit_len_upper[of "k - 1"] by linarith
  show "4 \<le> (2::nat) ^ bit_len (k - 1)" using le assms by linarith
qed

lemma seq_shape_num:
  assumes "seq_shape s k"
  shows "m_capacity s = length (m_segments s) * m_segment_capacity s" "0 < m_segment_capacity s" "0 < length (m_segments s)"
    and "get_num_segments s = length (m_segments s)" "length (m_segments s) = 2 ^ (m_height s - 1)" "length (m_segments s) \<noteq> 2"
    and "1 \<le> m_height s" "m_height s = 1 \<or> 3 \<le> m_height s \<and> m_height s \<le> m_segment_capacity s" "4 \<le> m_segment_capacity s"
proof -
  consider "k = 3" "m_segment_capacity s = 8" "length (m_segments s) = 1" "m_height s = 1" "m_capacity s = 8"
    | "4 \<le> k" "m_segment_capacity s = 2 ^ bit_len (k - 1)" "length (m_segments s) = 2 ^ (k - bit_len (k - 1))"
      "m_height s = k - bit_len (k - 1) + 1" "m_capacity s = 2 ^ k"
    using assms by (auto simp: seq_shape_def)
  then have "m_capacity s = length (m_segments s) * m_segment_capacity s \<and> length (m_segments s) = 2 ^ (m_height s - 1)
      \<and> length (m_segments s) \<noteq> 2 \<and> (m_height s = 1 \<or> 3 \<le> m_height s \<and> m_height s \<le> m_segment_capacity s) \<and> 4 \<le> m_segment_capacity s"
  proof cases
    case 2
    note b = bit_len_shape[OF 2(1)]
    have p: "(2::nat) ^ k = 2 ^ (k - bit_len (k - 1)) * 2 ^ bit_len (k - 1)" using b(1) by (simp flip: power_add)
    have "(2::nat) ^ 2 \<le> 2 ^ (k - bit_len (k - 1))" using b(1) by (intro power_increasing) simp_all
    then have "length (m_segments s) \<noteq> 2" using 2(3) by simp
    moreover have "0 < bit_len (k - 1)" using b(3) by (intro gr0I) simp
    then have "3 \<le> m_height s \<and> m_height s \<le> m_segment_capacity s" unfolding 2(2,4) using b(1,2) by linarith
    moreover have "4 \<le> m_segment_capacity s" "m_capacity s = length (m_segments s) * m_segment_capacity s" using 2 p b(3) by simp_all
    ultimately show ?thesis using 2(3,4) by simp
  qed simp
  then show "m_capacity s = length (m_segments s) * m_segment_capacity s" "length (m_segments s) = 2 ^ (m_height s - 1)" "length (m_segments s) \<noteq> 2"
    and h: "m_height s = 1 \<or> 3 \<le> m_height s \<and> m_height s \<le> m_segment_capacity s" and c: "4 \<le> m_segment_capacity s" by blast+
  then show "0 < m_segment_capacity s" "0 < length (m_segments s)" "get_num_segments s = length (m_segments s)" "1 \<le> m_height s"
    by (auto simp: get_num_segments_def)
qed

section \<open>Iterator\<close>

text \<open>The elements an iterator has still to give.\<close>

definition it_rest :: "SeqIterator \<Rightarrow> (int \<times> int) list" where
  "it_rest it = (let s = m_instance it
     in drop (m_current it - m_segment it * m_segment_capacity s) (seq_row s (m_segment it)) @ concat (drop (Suc (m_segment it)) (seq_rows s)))"

text \<open>The iterators of a state without empty segments.\<close>

definition it_ok :: "SeqIterator \<Rightarrow> bool" where
  "it_ok it \<longleftrightarrow> (let s = m_instance it; c = m_segment_capacity s; n = length (m_segments s)
     in m_end it = n * c
       \<and> (m_segment it < n \<and> m_segment it * c \<le> m_current it \<and> m_current it < m_stop it
             \<and> m_stop it = m_segment it * c + length (seq_rows s ! m_segment it)
          \<or> m_stop it \<le> m_current it \<and> it_rest it = []))"

lemma seq_next_rest:
  assumes wf: "seq_wf s" and shape: "seq_shape s k" and ne: "\<forall>r \<in> set (seq_rows s). r \<noteq> []"
    and it: "it_ok it" "m_instance it = s"
  shows "seq_hasNext it \<longleftrightarrow> it_rest it \<noteq> []"
    and "it_rest it = x # xs \<Longrightarrow> seq_next it = Some (x, seq_move it) \<and> it_ok (seq_move it) \<and> m_instance (seq_move it) = s \<and> it_rest (seq_move it) = xs"
proof -
  let ?c = "m_segment_capacity s" and ?n = "length (m_segments s)" and ?i = "m_segment it"
  note num = seq_shape_num[OF shape]
  have lay: "layout ?c (m_elements s) (seq_rows s)" using wf unfolding seq_wf_def by blast
  have rows: "seq_row s j = seq_rows s ! j" if "j < ?n" for j using that by (simp add: seq_rows_def)
  have act: "?i < ?n \<and> ?i * ?c \<le> m_current it \<and> m_current it < m_stop it \<and> m_stop it = ?i * ?c + length (seq_rows s ! ?i)"
    if "m_current it < m_stop it" using it that by (auto simp: it_ok_def Let_def)
  have ended: "it_rest it = []" if "\<not> m_current it < m_stop it" using it that by (auto simp: it_ok_def Let_def)
  have rest: "it_rest it = drop (m_current it - ?i * ?c) (seq_rows s ! ?i) @ concat (drop (Suc ?i) (seq_rows s))" if "?i < ?n"
    using it(2) rows[OF that] by (simp add: it_rest_def Let_def)
  show hn: "seq_hasNext it \<longleftrightarrow> it_rest it \<noteq> []"
  proof (cases "m_current it < m_stop it")
    case True
    note a = act[OF True]
    have "?i * ?c \<le> m_current it" "m_current it < ?i * ?c + length (seq_rows s ! ?i)" using a by auto
    then have "m_current it - ?i * ?c < length (seq_rows s ! ?i)" by linarith
    then show ?thesis using True rest a by (simp add: seq_hasNext_def)
  next
    case False
    then show ?thesis using ended by (simp add: seq_hasNext_def)
  qed
  assume r: "it_rest it = x # xs"
  then have lt: "m_current it < m_stop it" using hn by (simp add: seq_hasNext_def)
  note a = act[OF lt]
  have i: "?i < ?n" using a by blast
  define j where "j = m_current it - ?i * ?c"
  have "?i * ?c \<le> m_current it" "m_current it < ?i * ?c + length (seq_rows s ! ?i)" using a by auto
  then have j: "j < length (seq_rows s ! ?i)" "m_current it = ?i * ?c + j" unfolding j_def by linarith+
  have dj: "drop j (seq_rows s ! ?i) = seq_rows s ! ?i ! j # drop (Suc j) (seq_rows s ! ?i)" using j(1) by (simp add: Cons_nth_drop_Suc)
  have x: "x = m_elements s ! m_current it" and xs: "xs = drop (Suc j) (seq_rows s ! ?i) @ concat (drop (Suc ?i) (seq_rows s))"
    using r rest[OF i] dj seq_wf_row(3)[OF wf i j(1)] j(2) by (simp_all flip: j_def)
  have "?i * ?c + ?c \<le> length (m_elements s)" "length (seq_rows s ! ?i) \<le> ?c"
    using layout_row_fits[OF lay, of ?i] lay i by (simp_all add: layout_def)
  then have "m_current it < length (m_elements s)" using j by linarith
  then have nx: "seq_next it = Some (x, seq_move it)" using lt x it(2) by (simp add: seq_next_def seq_hasNext_def)
  have me: "m_end it = ?n * ?c" using it by (simp add: it_ok_def Let_def)
  have mv: "it_ok (seq_move it) \<and> m_instance (seq_move it) = s \<and> it_rest (seq_move it) = xs"
  proof (cases "Suc j < length (seq_rows s ! ?i)")
    case True
    then have "seq_move it = it\<lparr>m_current := m_current it + 1\<rparr>" using a j by (simp add: seq_move_def Let_def)
    then show ?thesis using True a j it me rows[OF i] xs by (simp add: it_ok_def it_rest_def Let_def)
  next
    case last: False
    then have stop: "m_stop it \<le> m_current it + 1" using a j by linarith
    have xs': "xs = concat (drop (Suc ?i) (seq_rows s))" using xs last by simp
    show ?thesis
    proof (cases "Suc ?i < ?n")
      case True
      let ?r = "seq_rows s ! Suc ?i"
      have r0: "?r \<in> set (seq_rows s)" using True by simp
      then have rne: "0 < length ?r" using ne by blast
      have lenr: "length ?r \<le> ?c" using lay True by (simp add: layout_def)
      have "(Suc ?i + 1) * ?c \<le> ?n * ?c" using True by (intro mult_le_mono1) simp
      then have le: "Suc ?i * ?c + ?c \<le> ?n * ?c" by simp
      have cur: "?c * (?i + 1) < m_end it" using le num(2) me by (simp add: mult.commute)
      have "seq_move it = it\<lparr>m_segment := Suc ?i, m_current := Suc ?i * ?c, m_stop := Suc ?i * ?c + length ?r\<rparr>"
        using stop cur le lenr me True num(4) it(2) seq_wf_row(1)[OF wf True]
        by (simp add: seq_move_def Let_def mult.commute)
      moreover have "drop (Suc ?i) (seq_rows s) = ?r # drop (Suc (Suc ?i)) (seq_rows s)" using True by (simp add: Cons_nth_drop_Suc)
      ultimately show ?thesis using True rne it(2) me rows[OF True] xs' by (simp add: it_ok_def it_rest_def Let_def)
    next
      case False
      then have n: "?n = Suc ?i" using i by simp
      have e: "?c * (?i + 1) = m_end it" using me n by (simp add: mult.commute)
      have m: "seq_move it = it\<lparr>m_segment := Suc ?i, m_current := m_end it\<rparr>"
        using stop e it(2) by (simp add: seq_move_def Let_def)
      have "m_stop it \<le> m_end it" using a me n lay i by (simp add: layout_def)
      moreover have "xs = []" using xs' n by simp
      moreover have "length (m_elements s) = m_end it" using lay me by (simp add: layout_def)
      then have "it_rest (seq_move it) = []" unfolding m using me n it(2) by (simp add: it_rest_def Let_def seq_row_def)
      ultimately show ?thesis using m it(2) me by (simp add: it_ok_def Let_def)
    qed
  qed
  show "seq_next it = Some (x, seq_move it) \<and> it_ok (seq_move it) \<and> m_instance (seq_move it) = s \<and> it_rest (seq_move it) = xs"
    using nx mv by blast
qed

lemma seq_take_rest:
  assumes wf: "seq_wf s" and shape: "seq_shape s k" and ne: "\<forall>r \<in> set (seq_rows s). r \<noteq> []"
  shows "it_ok it \<Longrightarrow> m_instance it = s \<Longrightarrow> n \<le> length (it_rest it) \<Longrightarrow>
    \<exists>it'. seq_take n it = Some (take n (it_rest it), it') \<and> it_ok it' \<and> m_instance it' = s \<and> it_rest it' = drop n (it_rest it)"
proof (induction n arbitrary: it)
  case (Suc n)
  obtain x xs where x: "it_rest it = x # xs" using Suc.prems(3) by (cases "it_rest it") auto
  note nx = seq_next_rest(2)[OF wf shape ne Suc.prems(1,2) x]
  have "n \<le> length (it_rest (seq_move it))" using nx x Suc.prems(3) by simp
  then obtain it' where "seq_take n (seq_move it) = Some (take n xs, it')" "it_ok it'" "m_instance it' = s" "it_rest it' = drop n xs"
    using Suc.IH[of "seq_move it"] nx by auto
  then show ?case using nx x by simp
qed auto

lemma seq_iterator_start:
  assumes "seq_wf s" "seq_shape s k" "\<forall>r \<in> set (seq_rows s). r \<noteq> []"
  shows "it_ok (seq_iterator s)" "m_instance (seq_iterator s) = s" "it_rest (seq_iterator s) = seq_elems s"
proof -
  note num = seq_shape_num[OF assms(2)]
  obtain r rs where r: "seq_rows s = r # rs" using num(3) by (cases "seq_rows s") (auto simp: seq_rows_def)
  have n: "m_segments s ! 0 = length r" "seq_row s 0 = r" using seq_wf_row(1,2)[OF assms(1) num(3)] r by simp_all
  show "m_instance (seq_iterator s) = s" by (simp add: seq_iterator_def)
  show rest: "it_rest (seq_iterator s) = seq_elems s"
    using r n by (simp add: it_rest_def seq_iterator_def seq_elems_def Let_def)
  show "it_ok (seq_iterator s)"
    using r n assms(3) num(1,3) by (simp add: it_ok_def seq_iterator_def Let_def)
qed

lemma copy_segments_layout:
  assumes wf: "seq_wf s" and shape: "seq_shape s k" and ne: "\<forall>r \<in> set (seq_rows s). r \<noteq> []"
  shows "layout c E rows \<Longrightarrow> i + length sizes = length rows \<Longrightarrow> \<forall>z \<in> set sizes. z \<le> c \<Longrightarrow>
    it_ok it \<Longrightarrow> m_instance it = s \<Longrightarrow> sum_list sizes \<le> length (it_rest it) \<Longrightarrow>
    \<exists>E'. copy_segments c i sizes it E = Some E' \<and> layout c E' (take i rows @ cut_rows sizes (it_rest it))"
proof (induction sizes arbitrary: i it E rows)
  case Nil
  then show ?case by simp
next
  case (Cons z sizes)
  have "z \<le> length (it_rest it)" using Cons.prems(6) by simp
  then obtain it' where it': "seq_take z it = Some (take z (it_rest it), it')" "it_ok it'" "m_instance it' = s" "it_rest it' = drop z (it_rest it)"
    using seq_take_rest[OF wf shape ne Cons.prems(4,5)] by blast
  have i: "i < length rows" and z: "length (take z (it_rest it)) \<le> c" using Cons.prems by auto
  have sum: "sum_list sizes \<le> length (it_rest it')" using Cons.prems(6) it'(4) by simp
  obtain E1 where E1: "seq_copy E (i * c) (take z (it_rest it)) = Some E1" "layout c E1 (rows[i := take z (it_rest it)])"
    by (rule layout_copy[OF Cons.prems(1) i z])
  obtain E' where E': "copy_segments c (i + 1) sizes it' E1 = Some E'"
      "layout c E' (take (i + 1) (rows[i := take z (it_rest it)]) @ cut_rows sizes (drop z (it_rest it)))"
    using Cons.IH[OF E1(2), of "i + 1" it'] Cons.prems(2,3) it' sum by auto
  have "take (i + 1) (rows[i := take z (it_rest it)]) = take i rows @ [take z (it_rest it)]" using i by (simp add: take_Suc_conv_app_nth)
  then show ?case using E1(1) E' it'(1) by (simp add: mult.commute)
qed

section \<open>Resize and spread\<close>

lemma seq_wfI:
  assumes "layout (m_segment_capacity s) (m_elements s) rows" "m_segments s = map length rows"
    and "m_cardinality s = length (concat rows)" "sorted (map fst (concat rows))"
  shows "seq_wf s" "seq_rows s = rows" "seq_elems s = concat rows"
proof -
  show r: "seq_rows s = rows" by (rule layout_rows[OF assms(1,2)])
  show e: "seq_elems s = concat rows" by (simp add: seq_elems_def r)
  show "seq_wf s" unfolding seq_wf_def r e using assms by blast
qed

lemma bit_len_double: "0 < x \<Longrightarrow> bit_len (2 * x) = Suc (bit_len x)"
  by (simp add: bit_len.simps[of "2 * x"])

lemma seq_resize_ok:
  assumes wf: "seq_wf s" and shape: "seq_shape s k" and ne: "\<forall>r \<in> set (seq_rows s). r \<noteq> []"
    and enough: "3 * 2 ^ k \<le> 4 * m_cardinality s" and most: "m_cardinality s \<le> 2 ^ k"
  obtains s' where "seq_resize s = Some s'" and "seq_inv s'" and "seq_elems s' = seq_elems s"
proof -
  let ?k = "Suc k" and ?b = "bit_len k"
  have k: "4 \<le> ?k" using shape by (auto simp: seq_shape_def)
  note b = bit_len_shape[OF k, simplified]
  let ?c = "2 ^ ?b :: nat" and ?n = "2 ^ (?k - ?b) :: nat"
  let ?xs = "seq_elems s"
  have cap: "m_capacity s * 2 = 2 ^ ?k" using shape by (simp add: seq_shape_def)
  have lg: "floor_log2 (2 ^ j) = j" for j by (simp add: floor_log2_def bit_len_power)
  have prod: "(2::nat) ^ ?k = ?n * ?c" using b(1) by (simp flip: power_add)
  have hs: "seq_hyperceil ?k = ?c" by (simp add: seq_hyperceil_def)
  have num: "2 ^ ?k div ?c = ?n" unfolding prod by simp
  define sizes where "sizes = seq_sizes (m_cardinality s) ?n"
  have n0: "0 < ?n" by simp
  note es = seq_sizes_props[OF n0, of "m_cardinality s", folded sizes_def]
  have half: "2 ^ k = ?n * (?c div 2)"
  proof -
    obtain b' where b': "?b = Suc b'" using b(3) by (cases ?b) auto
    have "2 * (2::nat) ^ k = 2 * (?n * 2 ^ b')" using prod unfolding b' by (simp add: mult.assoc mult.left_commute)
    then show ?thesis unfolding b' by simp
  qed
  have le: "z \<le> ?c div 2" if "z \<in> set sizes" for z by (rule es(3)[OF _ that]) (use most half in simp)
  have "4 * ?n \<le> ?c * ?n" using b(3) by (intro mult_le_mono1) simp
  then have "4 * ?n \<le> 2 ^ ?k" using prod by (simp only: mult.commute)
  moreover have "(2::nat) ^ ?k = 2 * 2 ^ k" by simp
  ultimately have "?n \<le> m_cardinality s" using enough by linarith
  then have pos: "0 < z" if "z \<in> set sizes" for z by (rule es(4)[OF _ that])
  have card: "m_cardinality s = length ?xs" using wf by (simp add: seq_wf_def)
  have sm: "sum_list sizes = length ?xs" using es(2) card by simp
  note it = seq_iterator_start[OF wf shape ne]
  obtain E where E: "copy_segments ?c 0 sizes (seq_iterator s) (replicate (2 ^ ?k) (0, 0)) = Some E" "layout ?c E (cut_rows sizes ?xs)"
  proof -
    have fresh: "layout ?c (replicate (2 ^ ?k) (0 :: int, 0 :: int)) (replicate ?n [])" unfolding prod by (rule layout_fresh)
    show thesis
      using copy_segments_layout[OF wf shape ne fresh, of 0 sizes "seq_iterator s"] it es(1) sm le that by fastforce
  qed
  let ?s = "s\<lparr>m_elements := E, m_capacity := 2 ^ ?k, m_segments := sizes, m_segment_capacity := ?c, m_height := ?k - ?b + 1\<rparr>"
  have res: "seq_resize s = Some ?s" unfolding seq_resize_def Let_def cap hs num lg sizes_def[symmetric] E(1) by simp
  note c = cut_rows_props[of sizes ?xs]
  have pre: "layout (m_segment_capacity ?s) (m_elements ?s) (cut_rows sizes ?xs)" "m_segments ?s = map length (cut_rows sizes ?xs)"
      "m_cardinality ?s = length (concat (cut_rows sizes ?xs))" "sorted (map fst (concat (cut_rows sizes ?xs)))"
    using E(2) c(2,3)[OF sm] card wf by (simp_all add: seq_wf_def)
  note w = seq_wfI[OF pre]
  have lens: "length r \<in> set sizes" if "r \<in> set (cut_rows sizes ?xs)" for r using that c(3)[OF sm] by (metis image_eqI list.set_map)
  have "?c div 2 < ?c" using b(3) by simp
  then have rows: "length r < ?c \<and> r \<noteq> []" if "r \<in> set (cut_rows sizes ?xs)" for r
    using le_less_trans[OF le[OF lens[OF that]]] pos[OF lens[OF that]] by blast
  have "seq_shape ?s ?k" using k es(1) by (simp add: seq_shape_def)
  then have "seq_inv ?s" using w rows unfolding seq_inv_def by auto
  then show thesis using that[OF res] w(3) c(2)[OF sm] by simp
qed

lemma load_window_rows:
  "i + n \<le> length (m_segments s) \<Longrightarrow> load_window s i n = concat (take n (drop i (seq_rows s)))"
proof (induction n arbitrary: i)
  case (Suc n)
  then have "drop i (seq_rows s) = seq_row s i # drop (Suc i) (seq_rows s)" by (simp add: seq_rows_def flip: Cons_nth_drop_Suc)
  then show ?case using Suc by (simp add: seq_row_def)
qed simp

lemma seq_spread_ok:
  assumes wf: "seq_wf s" and win: "a + l \<le> length (m_segments s)" "0 < l"
    and num: "num = length (concat (take l (drop a (seq_rows s))))" and room: "num \<le> l * (m_segment_capacity s - 1)" "l \<le> num"
    and cap: "0 < m_segment_capacity s"
  obtains s' W where "seq_spread s num a l = Some s'" and "seq_wf s'" and "seq_elems s' = seq_elems s"
    and "seq_rows s' = take a (seq_rows s) @ W @ drop (a + l) (seq_rows s)"
    and "\<forall>r \<in> set W. r \<noteq> [] \<and> length r < m_segment_capacity s"
    and "m_segment_capacity s' = m_segment_capacity s" "m_capacity s' = m_capacity s" "m_height s' = m_height s"
      "length (m_segments s') = length (m_segments s)"
proof -
  let ?c = "m_segment_capacity s" and ?rows = "seq_rows s"
  define tmp where "tmp = concat (take l (drop a ?rows))"
  define sizes where "sizes = seq_sizes num l"
  note es = seq_sizes_props[OF win(2), of num, folded sizes_def]
  have lay: "layout ?c (m_elements s) ?rows" and segs: "m_segments s = map length ?rows" using wf unfolding seq_wf_def by blast+
  have le: "z \<le> ?c - 1" if "z \<in> set sizes" for z by (rule es(3)[OF room(1) that])
  have pos: "0 < z" if "z \<in> set sizes" for z by (rule es(4)[OF room(2) that])
  have sm: "sum_list sizes = length tmp" using es(2) num by (simp add: tmp_def)
  let ?W = "cut_rows sizes tmp"
  let ?rows' = "take a ?rows @ ?W @ drop (a + l) ?rows"
  note c = cut_rows_props(1)[of sizes tmp] cut_rows_props(2,3)[OF sm]
  have "a + length sizes \<le> length ?rows" "\<forall>z \<in> set sizes. z \<le> ?c"
    using win es(1) le order_trans[OF le diff_le_self] by auto
  then obtain E where E: "save_window ?c a sizes tmp (m_elements s) = Some E" "layout ?c E ?rows'"
    using save_window_layout[OF lay, of a sizes tmp] es(1) by auto
  have ld: "load_window s a l = tmp" using load_window_rows[OF win(1)] by (simp add: tmp_def)
  have ml: "take a (m_segments s) @ sizes @ drop (a + l) (m_segments s) = map length ?rows'"
    by (subst (1 2) segs) (simp add: c(3) take_map drop_map)
  have cp: "seq_copy (m_segments s) a sizes = Some (map length ?rows')"
    using win es(1) ml by (simp add: seq_copy_def)
  let ?s = "s\<lparr>m_elements := E, m_segments := map length ?rows'\<rparr>"
  have res: "seq_spread s num a l = Some ?s" unfolding seq_spread_def Let_def ld sizes_def[symmetric] E(1) cp by simp
  have el: "concat ?rows' = seq_elems s"
  proof -
    have "?rows = take a ?rows @ take l (drop a ?rows) @ drop (a + l) ?rows" by (metis append_take_drop_id drop_drop add.commute)
    then have "concat ?rows = concat (take a ?rows) @ tmp @ concat (drop (a + l) ?rows)" unfolding tmp_def by (metis concat_append)
    then show ?thesis using c(2) by (simp add: seq_elems_def)
  qed
  have cs: "m_cardinality s = length (seq_elems s)" "sorted (map fst (seq_elems s))" using wf unfolding seq_wf_def by blast+
  have pre: "layout (m_segment_capacity ?s) (m_elements ?s) ?rows'" "m_segments ?s = map length ?rows'"
      "m_cardinality ?s = length (concat ?rows')" "sorted (map fst (concat ?rows'))"
    unfolding el using E(2) cs by simp_all
  note w = seq_wfI[OF pre]
  have rows: "\<forall>r \<in> set ?W. r \<noteq> [] \<and> length r < ?c"
  proof
    fix r assume "r \<in> set ?W"
    then have r: "length r \<in> set sizes" using c(3) by (metis image_eqI list.set_map)
    then have "length r < ?c" using le_less_trans[OF le[OF r]] cap by simp
    then show "r \<noteq> [] \<and> length r < ?c" using pos[OF r] by blast
  qed
  have "length (map length ?rows') = length (m_segments s)" using win es(1) c(1) by simp
  then show thesis by (intro that[OF res w(1) _ w(2) rows]) (use w(3) el in simp_all)
qed

section \<open>Windows\<close>

lemma add_left_sum:
  "add_left segs w l num = (if int w \<le> l then (num + sum_list (take (nat (l + 1) - w) (drop w segs)), int w - 1) else (num, l))"
  if "l < int (length segs)"
  using that
proof (induction segs w l num rule: add_left.induct)
  case (1 segs w l num)
  show ?case
  proof (cases "int w \<le> l")
    case False
    then show ?thesis by (simp add: add_left.simps[of segs w l])
  next
    case True
    define j where "j = nat l - w"
    have j: "nat (l + 1) - w = Suc j" "w + j = nat l" "w + j < length segs" using True 1(2) by (auto simp: j_def)
    have tk: "take (Suc j) (drop w segs) = take j (drop w segs) @ [segs ! nat l]" using j by (simp add: take_Suc_conv_app_nth)
    have r: "add_left segs w (l - 1) (num + segs ! nat l) =
        (if int w \<le> l - 1 then (num + segs ! nat l + sum_list (take j (drop w segs)), int w - 1) else (num + segs ! nat l, l - 1))"
      using "1.IH"[OF True] 1(2) by (simp add: j_def)
    have "j = 0" "l = int w" if "\<not> int w \<le> l - 1" using that True by (simp_all add: j_def)
    then show ?thesis using True r tk j(1) by (auto simp: add_left.simps[of segs w l])
  qed
qed

lemma add_right_sum:
  "r \<le> w \<Longrightarrow> w \<le> length segs \<Longrightarrow> add_right segs w r num = Some (num + sum_list (take (w - r) (drop r segs)), w)"
proof (induction segs w r num rule: add_right.induct)
  case (1 segs w r num)
  show ?case
  proof (cases "r < w")
    case True
    have "take (w - r) (drop r segs) = segs ! r # take (w - Suc r) (drop (Suc r) segs)"
      using True 1(3) by (simp add: Suc_diff_Suc flip: Cons_nth_drop_Suc take_Suc_Cons)
    then show ?thesis using True 1 by (simp add: add_right.simps[of segs w r])
  next
    case False
    then show ?thesis using 1(2) by (simp add: add_right.simps[of segs w r num] add_right.simps[of segs w w num])
  qed
qed

text \<open>The thresholds: a window that is less dense than its upper threshold has a free cell for each of its
  segments. The exact bound is a double, so rounding does not matter.\<close>

lemma seq_thresholds_top:
  assumes "1 \<le> m_height s" "m_height s < 2 ^ 53"
  shows "\<exists>rho. seq_thresholds s (m_height s) = Some (rho, 3 / 4)"
proof -
  have "rnd (of_nat 3 / 2 ^ 2) = (of_nat 3 / 2 ^ 2 :: rat)" by (rule rnd_dyadic) simp
  then have r: "rnd (3 / 4) = 3 / 4" by simp
  show ?thesis using assms by (simp add: seq_thresholds_def Let_def dsub_def ddiv_def dmul_def dadd_def r)
qed

lemma nat_frac_le: "0 < b \<Longrightarrow> 0 < d \<Longrightarrow> a * d \<le> c * b \<Longrightarrow> (of_nat a / of_nat b :: rat) \<le> of_nat c / of_nat d"
  by (simp add: divide_le_eq le_divide_eq field_simps flip: of_nat_mult)

lemma rnd_le_dyadic: "n < 2 ^ 53 \<Longrightarrow> x \<le> of_nat n / 2 ^ m \<Longrightarrow> rnd x \<le> of_nat n / 2 ^ m"
  using rnd_mono[of x "of_nat n / 2 ^ m"] rnd_dyadic[of n m] by simp

lemma four_windows: "2 \<le> h \<Longrightarrow> 4 * (2 ^ (h - 1) - 1) \<le> h * (2 ^ (h - 1) :: nat)"
proof -
  assume "2 \<le> h"
  then consider "h = 2" | "h = 3" | "4 \<le> h" by linarith
  then show ?thesis
  proof cases
    case 3
    have "4 * (2 ^ (h - 1) - 1) \<le> 4 * (2 ^ (h - 1) :: nat)" by simp
    also have "\<dots> \<le> h * 2 ^ (h - 1)" using 3 by (intro mult_le_mono1)
    finally show ?thesis .
  qed simp_all
qed

lemma seq_thresholds_room:
  assumes h: "2 \<le> h" "h \<le> m_height s" and H: "m_height s \<le> 2 ^ b" and b: "b + h < 50" "2 \<le> b"
    and thr: "seq_thresholds s h = Some (rho, theta)"
  shows "theta \<le> of_nat (2 ^ (h - 1) * (2 ^ b - 1) + 1) / 2 ^ (h - 1 + b)"
proof -
  let ?H = "m_height s" and ?m = "h - 1 + b"
  define l q where "l = (2 ^ (h - 1) :: nat)" and "q = (2 ^ (b - 2) :: nat)"
  have lq: "0 < l" "0 < q" by (simp_all add: l_def q_def)
  have "(2::nat) ^ b = 2 ^ (b - 2) * 2 ^ 2" using b(2) by (metis le_add_diff_inverse2 power_add)
  then have c: "2 ^ b = 4 * q" by (simp add: q_def)
  have N: "(2 :: nat) ^ ?m = l * (4 * q)" by (simp add: power_add l_def flip: c)
  then have NR: "(2 :: rat) ^ ?m = of_nat (l * (4 * q))" by (metis of_nat_numeral of_nat_power)
  have "(2 :: nat) ^ ?m < 2 ^ 50" using b by (intro power_strict_increasing) simp_all
  then have small: "l * (4 * q) < 2 ^ 50" by (simp only: N)
  define X Y Z where "X = l * (4 * q - 1) + 1" and "Y = l * (4 * q - 4) + 4" and "Z = l * (q - 1) + 1"
  have le: "l * (4 * q - 1) \<le> l * (4 * q)" "l * (4 * q - 4) \<le> l * (4 * q)" "l * (q - 1) \<le> l * (4 * q)" by (intro mult_le_mono2; linarith)+
  have sm: "n + 4 < 2 ^ 53" if "n \<le> l * (4 * q)" for n using small that by simp
  have sm: "X < 2 ^ 53" "Y < 2 ^ 53" "Z < 2 ^ 53"
    using sm[OF le(1)] sm[OF le(2)] sm[OF le(3)] unfolding X_def Y_def Z_def by linarith+
  have "(2::nat) ^ b < 2 ^ 50" using b by (intro power_strict_increasing) simp_all
  then have H1: "?H < 2 ^ 53" using H by simp
  have "h < 2 ^ 53" using h(2) H1 by linarith
  define diff where "diff = ddiv (dsub (d_of_nat ?H) (d_of_nat h)) (d_of_nat ?H)"
  have theta: "theta = dadd (3 / 4) (dmul (1 / 4) diff)" using thr by (auto simp: seq_thresholds_def Let_def diff_def split: if_splits)
  have d: "diff = rnd ((of_nat ?H - of_nat h) / of_nat ?H)"
    using h H1 \<open>h < 2 ^ 53\<close> by (simp add: diff_def dsub_def ddiv_def dbl_simps flip: of_nat_diff)
  have "4 * (l - 1) * ?H \<le> h * l * (4 * q)" using four_windows[OF h(1)] H unfolding c l_def by (rule mult_le_mono)
  moreover have "Y + 4 * (l - 1) = l * (4 * q)" using lq by (cases l; cases q) (simp_all add: Y_def algebra_simps)
  then have "?H * (l * (4 * q)) = Y * ?H + 4 * (l - 1) * ?H" by (metis add_mult_distrib mult.commute)
  moreover have "(?H - h) * (l * (4 * q)) = ?H * (l * (4 * q)) - h * (l * (4 * q))" by (rule diff_mult_distrib)
  moreover have "h * l * (4 * q) = h * (l * (4 * q))" by (rule mult.assoc)
  ultimately have "(?H - h) * (l * (4 * q)) \<le> Y * ?H" by linarith
  then have "of_nat (?H - h) / of_nat ?H \<le> (of_nat Y / of_nat (l * (4 * q)) :: rat)" using h lq by (intro nat_frac_le) simp_all
  then have "(of_nat ?H - of_nat h) / of_nat ?H \<le> (of_nat Y / 2 ^ ?m :: rat)" using h(2) by (simp only: NR of_nat_diff)
  then have "diff \<le> of_nat Y / 2 ^ ?m" unfolding d by (rule rnd_le_dyadic[OF sm(2)])
  moreover have "Y = 4 * Z" using lq by (cases q) (simp_all add: Y_def Z_def algebra_simps)
  then have "of_nat Y = (4 * of_nat Z :: rat)" by simp
  ultimately have "1 / 4 * diff \<le> of_nat Z / 2 ^ ?m" by (simp add: mult.commute)
  then have "dmul (1 / 4) diff \<le> of_nat Z / 2 ^ ?m" unfolding dmul_def by (rule rnd_le_dyadic[OF sm(3)])
  moreover have "of_nat X / 2 ^ ?m = (3 / 4 + of_nat Z / 2 ^ ?m :: rat)"
  proof -
    have "X = 3 * (l * q) + Z" using lq by (cases q) (simp_all add: X_def Z_def algebra_simps)
    then show ?thesis unfolding NR using lq by (simp add: field_simps)
  qed
  ultimately have "3 / 4 + dmul (1 / 4) diff \<le> of_nat X / 2 ^ ?m" by simp
  then have "theta \<le> of_nat X / 2 ^ ?m" unfolding theta dadd_def by (rule rnd_le_dyadic[OF sm(1)])
  then show ?thesis unfolding X_def l_def c .
qed

lemma slice_append: "a \<le> b \<Longrightarrow> b \<le> c \<Longrightarrow> take (c - a) (drop a xs) = take (b - a) (drop a xs) @ take (c - b) (drop b xs)"
  using take_add[of "b - a" "c - b" "drop a xs"] by simp

lemma aligned_inside: "g < 2 ^ a \<Longrightarrow> e \<le> a \<Longrightarrow> g div 2 ^ e * 2 ^ e + 2 ^ e \<le> (2 ^ a :: nat)"
proof -
  assume g: "g < 2 ^ a" and e: "e \<le> a"
  have p: "(2::nat) ^ a = 2 ^ (a - e) * 2 ^ e" using e by (simp flip: power_add)
  have "g div 2 ^ e < 2 ^ (a - e)" using g unfolding p by (simp add: less_mult_imp_div_less)
  then have "(g div 2 ^ e + 1) * 2 ^ e \<le> 2 ^ (a - e) * (2::nat) ^ e" by (intro mult_le_mono1) simp
  then show ?thesis unfolding p by simp
qed

lemma window_grows:
  fixes t l :: nat
  shows "t div 2 * (l * 2) \<le> t * l" "t * l + l \<le> t div 2 * (l * 2) + l * 2"
proof -
  have "t div 2 * 2 * l \<le> t * l" "(t + 1) * l \<le> (t div 2 * 2 + 2) * l" by (intro mult_le_mono1; linarith)+
  then show "t div 2 * (l * 2) \<le> t * l" "t * l + l \<le> t div 2 * (l * 2) + l * 2" by (simp_all add: algebra_simps)
qed

definition window_ok :: "PMA_Impl4 \<Rightarrow> nat \<Rightarrow> nat \<Rightarrow> SeqWindow \<Rightarrow> bool" where
  "window_ok s g h w \<longleftrightarrow> h \<le> m_height s \<and> w_length w = 2 ^ (h - 1) \<and> w_start w = g div 2 ^ (h - 1) * 2 ^ (h - 1)
     \<and> w_num_elements w = sum_list (take (w_length w) (drop (w_start w) (m_segments s)))
     \<and> (\<exists>rho. seq_thresholds s h = Some (rho, w_theta w))
     \<and> w_density w = ddiv (d_of_nat (w_num_elements w)) (d_of_nat (w_length w * m_segment_capacity s))
     \<and> (w_theta w \<le> w_density w \<longrightarrow> h = m_height s)"

lemma seq_windows_ok:
  assumes n: "length (m_segments s) = 2 ^ (m_height s - 1)" and g: "g < length (m_segments s)"
  shows "1 \<le> h \<Longrightarrow> h < m_height s \<Longrightarrow> l = 2 ^ (h - 1) \<Longrightarrow> a = g div l * l \<Longrightarrow>
    \<exists>w h'. seq_windows s h l (g div l) (int a - 1) (a + l) (sum_list (take l (drop a (m_segments s)))) = Some w
      \<and> h < h' \<and> window_ok s g h' w"
proof (induction "m_height s - h" arbitrary: h l a)
  case 0
  then show ?case by simp
next
  case (Suc d)
  let ?segs = "m_segments s"
  define L A where "L = l * 2" and "A = g div l div 2 * L"
  have L: "L = 2 ^ h" using Suc.prems(1,3) by (simp add: L_def flip: power_Suc2)
  have gl: "g div l div 2 = g div L" by (simp add: L_def div_mult2_eq)
  have A': "g div L * L = A" by (simp add: A_def gl)
  have in': "A + L \<le> length ?segs" using aligned_inside[of g "m_height s - 1" h] g n Suc.prems(2) by (simp add: A_def gl L)
  have ord: "A \<le> a" "a \<le> a + l" "a + l \<le> A + L" using window_grows[of "g div l" l] Suc.prems(4) by (simp_all add: A_def L_def)
  obtain rho theta where thr: "seq_thresholds s (h + 1) = Some (rho, theta)" using Suc.prems(2) by (simp add: seq_thresholds_def Let_def)
  let ?sum = "\<lambda>x y. sum_list (take (y - x) (drop x ?segs))"
  have sum: "?sum a (a + l) + ?sum A a + ?sum (a + l) (A + L) = ?sum A (A + L)"
    unfolding slice_append[OF ord(1) order_trans[OF ord(2,3)], of ?segs] slice_append[OF ord(2,3), of ?segs] by simp
  have left: "add_left ?segs A (int a - 1) (?sum a (a + l)) = (?sum a (a + l) + ?sum A a, int A - 1)"
    using add_left_sum[of "int a - 1" ?segs A "?sum a (a + l)"] ord in' by (cases "A = a") auto
  have right: "add_right ?segs (A + L) (a + l) (?sum a (a + l) + ?sum A a) = Some (?sum A (A + L), A + L)"
    using add_right_sum[OF ord(3) in'] sum by simp
  let ?density = "ddiv (d_of_nat (?sum A (A + L))) (d_of_nat (L * m_segment_capacity s))"
  have step: "seq_windows s h l (g div l) (int a - 1) (a + l) (?sum a (a + l))
      = (if theta \<le> ?density \<and> h + 1 < m_height s then seq_windows s (h + 1) L (g div L) (int A - 1) (A + L) (?sum A (A + L))
         else Some \<lparr>w_density = ?density, w_theta = theta, w_num_elements = ?sum A (A + L), w_start = A, w_length = L\<rparr>)"
    by (subst seq_windows.simps)
      (simp only: Let_def thr bind.bind_lunit prod.case left right L_def[symmetric] gl A')
  show ?case
  proof (cases "theta \<le> ?density \<and> h + 1 < m_height s")
    case True
    have "\<exists>w h'. seq_windows s (h + 1) L (g div L) (int A - 1) (A + L) (sum_list (take L (drop A ?segs))) = Some w
        \<and> h + 1 < h' \<and> window_ok s g h' w"
      by (rule Suc.hyps(1)[of "h + 1" L A]) (use Suc.hyps(2) True L A' in simp_all)
    then show ?thesis using step True by (auto intro: Suc_lessD)
  next
    case False
    let ?w = "\<lparr>w_density = ?density, w_theta = theta, w_num_elements = ?sum A (A + L), w_start = A, w_length = L\<rparr>"
    have "window_ok s g (h + 1) ?w" using False Suc.prems(2) thr L by (auto simp: window_ok_def A_def gl)
    then show ?thesis using step False by auto
  qed
qed

section \<open>Rebalance\<close>

lemma seq_shape_small:
  assumes shape: "seq_shape s k" and n: "length (m_segments s) < 2 ^ 43"
  shows "k < 49"
proof (rule ccontr)
  assume "\<not> k < 49"
  then have k: "49 \<le> k" by simp
  have "k - 1 < 2 ^ (k - 43)" using k
  proof (induction k rule: dec_induct)
    case (step n)
    then have "Suc n - 43 = Suc (n - 43)" by simp
    then have "(2::nat) ^ (Suc n - 43) = 2 * 2 ^ (n - 43)" by (simp only: power_Suc)
    then show ?case using step by linarith
  qed simp
  then have "bit_len (k - 1) \<le> k - 43" by (rule bit_len_le)
  then have "(2::nat) ^ 43 \<le> 2 ^ (k - bit_len (k - 1))" using k by (intro power_increasing) simp_all
  moreover have "length (m_segments s) = 2 ^ (k - bit_len (k - 1))" using shape k by (auto simp: seq_shape_def)
  ultimately show False using n by simp
qed

lemma sum_list_bounds:
  "\<forall>x \<in> set xs. lo \<le> x \<and> x \<le> hi \<Longrightarrow> length xs * lo \<le> sum_list xs \<and> sum_list xs \<le> length xs * (hi :: nat)"
  by (induction xs) auto

lemma seq_rebalance_ok:
  assumes wf: "seq_wf s" and shape: "seq_shape s k" and g: "g < length (m_segments s)"
    and full: "length (seq_rows s ! g) = m_segment_capacity s"
    and others: "\<forall>i<length (m_segments s). i \<noteq> g \<longrightarrow> seq_rows s ! i \<noteq> [] \<and> length (seq_rows s ! i) < m_segment_capacity s"
    and small: "length (m_segments s) < 2 ^ 43"
  obtains s' where "seq_rebalance s g = Some s'" and "seq_inv s'" and "seq_elems s' = seq_elems s"
proof -
  let ?c = "m_segment_capacity s" and ?n = "length (m_segments s)" and ?rows = "seq_rows s" and ?H = "m_height s"
  note num = seq_shape_num[OF shape]
  have k: "k < 49" by (rule seq_shape_small[OF shape small])
  have lens: "m_segments s = map length ?rows" and card: "m_cardinality s = length (seq_elems s)" using wf unfolding seq_wf_def by blast+
  have each: "?rows ! i \<noteq> [] \<and> length (?rows ! i) \<le> ?c" if "i < ?n" for i using others full num(2) that by (cases "i = g") auto
  have ne: "\<forall>r \<in> set ?rows. r \<noteq> []" using each by (auto simp: in_set_conv_nth)
  have between: "\<forall>x \<in> set (m_segments s). 1 \<le> x \<and> x \<le> ?c" using each by (subst lens) (auto simp: in_set_conv_nth Suc_le_eq)
  have cs: "m_cardinality s = sum_list (m_segments s)" unfolding card seq_elems_def by (subst lens) (simp add: length_concat)
  have most: "m_cardinality s \<le> 2 ^ k" using sum_list_bounds[OF between] cs num(1) shape by (simp add: seq_shape_def)
  show thesis
  proof (cases "?H = 1")
    case True
    then have n1: "?n = 1" using num(5) by simp
    have "k = 3" "?c = 8" using shape True bit_len_shape(1)[of k] by (auto simp: seq_shape_def)
    moreover obtain x where x: "m_segments s = [x]" using n1 by (cases "m_segments s") auto
    then have "g = 0" using g by simp
    then have "m_cardinality s = ?c" using cs x full seq_wf_row(1)[OF wf g] by simp
    ultimately have "3 * 2 ^ k \<le> 4 * m_cardinality s" by simp
    from seq_resize_ok[OF wf shape ne this most]
    obtain s' where "seq_resize s = Some s'" "seq_inv s'" "seq_elems s' = seq_elems s" by blast
    then show thesis using that True by (simp add: seq_rebalance_def Let_def)
  next
    case False
    obtain b where b: "?c = 2 ^ b" "2 \<le> b" "?H + b = k + 1" "2 ^ k = ?n * ?c"
    proof -
      have "4 \<le> k" "?c = 2 ^ bit_len (k - 1)" "?H = k - bit_len (k - 1) + 1" "m_capacity s = 2 ^ k" using shape False by (auto simp: seq_shape_def)
      moreover have "2 \<le> bit_len (k - 1)"
      proof (rule ccontr)
        assume "\<not> 2 \<le> bit_len (k - 1)"
        then have "(2::nat) ^ bit_len (k - 1) \<le> 2 ^ 1" by (intro power_increasing) simp_all
        then show False using bit_len_shape(3)[OF \<open>4 \<le> k\<close>] by simp
      qed
      ultimately show thesis using that[of "bit_len (k - 1)"] bit_len_shape(1)[of k] num(1) by simp
    qed
    have H: "3 \<le> ?H" "?H \<le> 2 ^ b" using num(8) False b(1) by auto
    obtain w h where w: "seq_windows s 1 1 g (int g - 1) (g + 1) (m_segments s ! g) = Some w" "1 < h" "window_ok s g h w"
    proof -
      have "sum_list (take 1 (drop g (m_segments s))) = m_segments s ! g" using g by (simp add: take_Suc_conv_app_nth)
      then show thesis using seq_windows_ok[OF num(5) g, of 1 1 g] H(1) that by auto
    qed
    have reb: "seq_rebalance s g = (if w_theta w \<le> w_density w then seq_resize s else seq_spread s (w_num_elements w) (w_start w) (w_length w))"
      using H(1) w(1) by (simp add: seq_rebalance_def Let_def)
    let ?l = "w_length w" and ?a = "w_start w" and ?m = "w_num_elements w"
    note wo = w(3)[unfolded window_ok_def]
    have l: "?l = 2 ^ (h - 1)" "h \<le> ?H" using wo by blast+
    have l0: "0 < ?l" unfolding l(1) by simp
    have aw: "?a = g div 2 ^ (h - 1) * 2 ^ (h - 1)" using wo by blast
    have inw: "?a + ?l \<le> ?n" using aligned_inside[of g "?H - 1" "h - 1"] g l unfolding aw l(1) num(5) by simp
    have gin: "?a \<le> g" "g < ?a + ?l"
      unfolding aw l(1) by (simp, metis div_mult_mod_eq add_less_cancel_left mod_less_divisor zero_less_numeral zero_less_power)
    have msum: "?m = sum_list (take ?l (drop ?a (m_segments s)))" using wo by blast
    have "\<forall>x \<in> set (take ?l (drop ?a (m_segments s))). 1 \<le> x \<and> x \<le> ?c" using between by (meson in_set_takeD in_set_dropD)
    from sum_list_bounds[OF this] have mb: "?l \<le> ?m" "?m \<le> ?l * ?c" using inw msum by simp_all
    have N: "?l * ?c = 2 ^ (h - 1 + b)" using l(1) b(1) by (simp add: power_add)
    have "h - 1 + b < 53" using l(2) b(3) k H(1) by linarith
    then have N53: "(2::nat) ^ (h - 1 + b) < 2 ^ 53" by (intro power_strict_increasing) simp_all
    have m53: "?m < 2 ^ 53" using mb(2) N53 unfolding N by linarith
    have dens: "w_density w = of_nat ?m / 2 ^ (h - 1 + b)"
    proof -
      have "w_density w = ddiv (d_of_nat ?m) (d_of_nat (?l * ?c))" using wo by blast
      also have "\<dots> = rnd (of_nat ?m / of_nat (2 ^ (h - 1 + b)))" unfolding N ddiv_def d_of_nat_exact[OF m53] d_of_nat_exact[OF N53] ..
      finally show ?thesis using rnd_dyadic[OF m53, of "h - 1 + b"] by simp
    qed
    obtain rho where thr: "seq_thresholds s h = Some (rho, w_theta w)" using wo by blast
    show thesis
    proof (cases "w_theta w \<le> w_density w")
      case True
      then have h: "h = ?H" using wo by blast
      have "?H < 2 ^ 53" using b(3) k by simp
      then have "w_theta w = 3 / 4" using thr seq_thresholds_top[of s] num(7) unfolding h by auto
      moreover have "?a = 0" "?l = ?n" unfolding aw l(1) h using num(5) g by simp_all
      then have "?m = m_cardinality s" using msum cs by simp
      moreover have "h - 1 + b = k" using h b(3) H(1) by simp
      ultimately have "3 / 4 \<le> (of_nat (m_cardinality s) / 2 ^ k :: rat)" using True dens by metis
      then have "(of_nat (3 * 2 ^ k) :: rat) \<le> of_nat (4 * m_cardinality s)" by (simp add: field_simps)
      then have "3 * 2 ^ k \<le> 4 * m_cardinality s" by (simp only: of_nat_le_iff)
      then obtain s' where "seq_resize s = Some s'" "seq_inv s'" "seq_elems s' = seq_elems s"
        by (rule seq_resize_ok[OF wf shape ne _ most])
      then show thesis using that True reb by simp
    next
      case False
      have "b + h < 50" using l(2) b(3) k by linarith
      moreover have "2 \<le> h" using w(2) by simp
      ultimately have "w_theta w \<le> of_nat (?l * (?c - 1) + 1) / 2 ^ (h - 1 + b)"
        unfolding l(1) b(1) using seq_thresholds_room[OF _ l(2) H(2) _ b(2) thr] by blast
      then have "(of_nat ?m :: rat) / 2 ^ (h - 1 + b) < of_nat (?l * (?c - 1) + 1) / 2 ^ (h - 1 + b)" using False dens by simp
      then have "(of_nat ?m :: rat) < of_nat (?l * (?c - 1) + 1)" by (simp only: divide_less_cancel) simp
      then have "?m < ?l * (?c - 1) + 1" by (simp only: of_nat_less_iff)
      then have room: "?m \<le> ?l * (?c - 1)" by simp
      have mc: "?m = length (concat (take ?l (drop ?a ?rows)))" unfolding msum by (subst lens) (simp add: length_concat take_map drop_map)
      obtain s' W where s': "seq_spread s ?m ?a ?l = Some s'" "seq_wf s'" "seq_elems s' = seq_elems s"
          "seq_rows s' = take ?a ?rows @ W @ drop (?a + ?l) ?rows" "\<forall>r \<in> set W. r \<noteq> [] \<and> length r < ?c"
          "m_segment_capacity s' = ?c" "m_capacity s' = m_capacity s" "m_height s' = m_height s" "length (m_segments s') = ?n"
        by (rule seq_spread_ok[OF wf inw l0 mc room mb(1) num(2)])
      have "r \<noteq> [] \<and> length r < ?c" if r: "r \<in> set (seq_rows s')" for r
      proof -
        consider "r \<in> set W" | i where "i < ?n" "i \<noteq> g" "r = ?rows ! i"
        proof -
          assume a: "r \<in> set W \<Longrightarrow> thesis" "\<And>i. i < ?n \<Longrightarrow> i \<noteq> g \<Longrightarrow> r = ?rows ! i \<Longrightarrow> thesis"
          consider "r \<in> set W" | "r \<in> set (take ?a ?rows)" | "r \<in> set (drop (?a + ?l) ?rows)" using r s'(4) by auto
          then show thesis
          proof cases
            case 2
            then obtain i where "i < ?a" "i < ?n" "r = ?rows ! i" by (auto simp: in_set_conv_nth)
            then show thesis using a(2)[of i] gin by simp
          next
            case 3
            then obtain i where "i < ?n - (?a + ?l)" "r = ?rows ! (?a + ?l + i)" using inw by (auto simp: in_set_conv_nth)
            moreover from this have "?a + ?l + i < ?n" by linarith
            ultimately show thesis using a(2)[of "?a + ?l + i"] gin by simp
          qed (rule a(1))
        qed
        then show ?thesis using s'(5) others by cases auto
      qed
      moreover have "seq_shape s' k" using shape s'(6-9) by (simp add: seq_shape_def)
      ultimately have "seq_inv s'" unfolding seq_inv_def using s'(2,6) by auto
      then show thesis using that s'(1,3) reb False by simp
    qed
  qed
qed

section \<open>Insertion into a segment\<close>

lemma shift_greater_ok:
  "b + i < length E \<Longrightarrow> shift_greater E b key i = (E', j) \<Longrightarrow>
    j \<le> i \<and> E'[b + j := x] = take (b + j) E @ x # drop (b + j) (take (b + i) E) @ drop (b + i + 1) E
    \<and> (\<forall>t. j \<le> t \<longrightarrow> t < i \<longrightarrow> key < fst (E ! (b + t))) \<and> (0 < j \<longrightarrow> fst (E ! (b + j - 1)) \<le> key)"
proof (induction i arbitrary: E)
  case 0
  then show ?case by (auto simp: upd_conv_take_nth_drop)
next
  case (Suc i)
  show ?case
  proof (cases "key < fst (E ! (b + i))")
    case False
    then have "E' = E" "j = Suc i" using Suc.prems(2) by auto
    then show ?thesis using False Suc.prems(1) by (auto simp: upd_conv_take_nth_drop)
  next
    case True
    let ?E = "E[b + Suc i := E ! (b + i)]"
    have run: "shift_greater ?E b key i = (E', j)" using True Suc.prems(2) by simp
    have "b + i < length ?E" using Suc.prems(1) by simp
    note IH = Suc.IH[OF this run]
    have nth: "?E ! (b + t) = E ! (b + t)" if "t \<le> i" for t using that by simp
    have d: "drop (b + i + 1) ?E = E ! (b + i) # drop (b + Suc i + 1) E"
      using Suc.prems(1) by (subst Cons_nth_drop_Suc[symmetric]) simp_all
    have tk: "take (b + Suc i) E = take (b + i) E @ [E ! (b + i)]" using Suc.prems(1) by (simp add: take_Suc_conv_app_nth)
    have j: "j \<le> i" using IH by blast
    have "E'[b + j := x] = take (b + j) E @ x # drop (b + j) (take (b + i) E) @ E ! (b + i) # drop (b + Suc i + 1) E"
      using IH j unfolding d by simp
    also have "drop (b + j) (take (b + i) E) @ E ! (b + i) # drop (b + Suc i + 1) E
        = drop (b + j) (take (b + Suc i) E) @ drop (b + Suc i + 1) E"
      unfolding tk using j Suc.prems(1) by simp
    finally have e: "E'[b + j := x] = take (b + j) E @ x # drop (b + j) (take (b + Suc i) E) @ drop (b + Suc i + 1) E" .
    have "\<forall>t. j \<le> t \<longrightarrow> t < Suc i \<longrightarrow> key < fst (E ! (b + t))" using IH True nth by (auto simp: less_Suc_eq)
    moreover have "0 < j \<longrightarrow> fst (E ! (b + j - 1)) \<le> key" using IH j by auto
    ultimately show ?thesis using e j by auto
  qed
qed

section \<open>The segment of a key\<close>

lemma concat_split: "i < length rows \<Longrightarrow> concat rows = concat (take i rows) @ rows ! i @ concat (drop (Suc i) rows)"
  by (metis concat.simps(2) concat_append id_take_nth_drop)

lemma rows_ordered:
  assumes "sorted (map fst (concat rows))" "i < j" "j < length rows" "x \<in> set (rows ! i)" "y \<in> set (rows ! j)"
  shows "fst x \<le> (fst y :: int)"
proof -
  have "x \<in> set (concat (take j rows))" using assms(2-4) by (force simp: in_set_conv_nth set_concat)
  moreover have "sorted (map fst (concat (take j rows)) @ map fst (rows ! j) @ map fst (concat (drop (Suc j) rows)))"
    using assms(1) unfolding concat_split[OF assms(3)] by simp
  ultimately show ?thesis using assms(5) by (auto simp: sorted_append)
qed

lemma row_sorted: "sorted (map fst (concat rows)) \<Longrightarrow> i < length rows \<Longrightarrow> sorted (map fst (rows ! i) :: int list)"
  using concat_split[of i rows] by (simp add: sorted_append)

lemma sorted_ends: "sorted (map fst xs) \<Longrightarrow> x \<in> set xs \<Longrightarrow> (fst (hd xs) :: int) \<le> fst x \<and> fst x \<le> fst (last xs)"
  by (induction xs) (auto dest: last_in_set)

text \<open>What the binary search finds: the segment that brackets the key, or the one where the smaller keys end.\<close>

definition segment_for :: "(int \<times> int) list list \<Rightarrow> int \<Rightarrow> nat \<Rightarrow> bool" where
  "segment_for rows key g \<longleftrightarrow> g < length rows \<and>
     ((\<forall>i<g. \<forall>x \<in> set (rows ! i). fst x < key) \<and> (\<forall>i<length rows. g < i \<longrightarrow> (\<forall>x \<in> set (rows ! i). key < fst x))
      \<or> rows ! g \<noteq> [] \<and> fst (hd (rows ! g)) \<le> key \<and> key \<le> fst (last (rows ! g)))"

text \<open>The pivot is never 0 while there is more than one candidate: the upper bounds that are reached with the
  lower bound 0 are \<open>2 ^ m - 1\<close> and \<open>2 ^ m - 2\<close>, and there are not two segments.\<close>

definition pivots :: "nat \<Rightarrow> nat \<Rightarrow> bool" where
  "pivots lb ub \<longleftrightarrow> lb = 0 \<longrightarrow> (\<exists>m. m \<noteq> 1 \<and> ub + 1 = 2 ^ m \<or> ub + 2 = 2 ^ m)"

lemma pivots_step:
  assumes "pivots lb ub" "lb < ub"
  shows "0 < (lb + ub) div 2" "pivots lb ((lb + ub) div 2 - 1)"
proof -
  have "0 < (lb + ub) div 2 \<and> pivots lb ((lb + ub) div 2 - 1)"
  proof (cases "lb = 0")
    case True
    then obtain m where m: "m \<noteq> 1 \<and> ub + 1 = 2 ^ m \<or> ub + 2 = 2 ^ m" using assms by (auto simp: pivots_def)
    obtain m' where m': "m = Suc m'" using m assms(2) by (cases m) auto
    have u: "ub div 2 + 1 = 2 ^ m'" using m unfolding m' by auto
    have "m' \<noteq> 0" using m assms(2) unfolding m' by (intro notI) auto
    then have "(2::nat) ^ 1 \<le> 2 ^ m'" by (intro power_increasing) simp_all
    then have "0 < ub div 2" using u by simp
    then show ?thesis using True u by (auto simp: pivots_def intro!: exI[of _ m'])
  qed (use assms in \<open>auto simp: pivots_def\<close>)
  then show "0 < (lb + ub) div 2" "pivots lb ((lb + ub) div 2 - 1)" by blast+
qed

lemma search_segment_ok:
  assumes wf: "seq_wf s" and ne: "1 < length (m_segments s) \<longrightarrow> (\<forall>r \<in> set (seq_rows s). r \<noteq> [])"
  shows "ub < length (m_segments s) \<Longrightarrow> lb < length (m_segments s) \<Longrightarrow> lb \<le> ub + 1 \<Longrightarrow> pivots lb ub \<Longrightarrow>
    (\<forall>i<lb. \<forall>x \<in> set (seq_rows s ! i). fst x < key) \<Longrightarrow> (\<forall>i<length (m_segments s). ub < i \<longrightarrow> (\<forall>x \<in> set (seq_rows s ! i). key < fst x)) \<Longrightarrow>
    \<exists>g. search_segment s key lb ub = Some g \<and> segment_for (seq_rows s) key g"
proof (induction "ub - lb" arbitrary: lb ub rule: less_induct)
  case less
  let ?rows = "seq_rows s" and ?n = "length (m_segments s)"
  have srt: "sorted (map fst (concat ?rows))" using wf by (simp add: seq_wf_def seq_elems_def)
  show ?case
  proof (cases "lb < ub")
    case False
    then have "segment_for ?rows key lb" using less.prems by (simp add: segment_for_def)
    then show ?thesis using False by (simp add: search_segment.simps)
  next
    case True
    define p where "p = (lb + ub) div 2"
    have p: "lb \<le> p" "p < ub" "p < ?n" using True less.prems(1) by (auto simp: p_def)
    have p0: "0 < p" "pivots lb (p - 1)" using pivots_step[OF less.prems(4) True] by (simp_all add: p_def)
    let ?r = "?rows ! p"
    have rne: "?r \<noteq> []" using ne p less.prems(1) by simp
    note row = seq_wf_row[OF wf p(3)]
    have first: "m_elements s ! (p * m_segment_capacity s) = hd ?r" using row(3)[of 0] rne by (simp add: hd_conv_nth)
    have last: "m_elements s ! (p * m_segment_capacity s + length ?r - Suc 0) = last ?r"
      using row(3)[of "length ?r - 1"] row(1) rne by (simp add: last_conv_nth Suc_leI)
    have step: "search_segment s key lb ub = (if key < fst (hd ?r) then search_segment s key lb (p - 1)
        else if key \<le> fst (last ?r) then Some p else search_segment s key (p + 1) ub)"
      using True p(3) p0(1) rne row(1) by (subst search_segment.simps) (simp add: Let_def first last flip: p_def)
    have rs: "sorted (map fst ?r)" by (rule row_sorted[OF srt]) (use p in simp)
    have bounds: "fst (hd ?r) \<le> fst x" "fst x \<le> fst (last ?r)" if "x \<in> set ?r" for x
      using sorted_ends[OF rs that] by blast+
    show ?thesis
    proof (cases "key < fst (hd ?r)")
      case lt: True
      have "\<forall>i<?n. p - 1 < i \<longrightarrow> (\<forall>x \<in> set (?rows ! i). key < fst x)"
      proof (intro allI impI ballI)
        fix i x assume i: "i < ?n" "p - 1 < i" and x: "x \<in> set (?rows ! i)"
        have "fst (hd ?r) \<le> fst x"
        proof (cases "i = p")
          case False
          then show ?thesis using rows_ordered[OF srt, of p i "hd ?r" x] i x rne by simp
        qed (use bounds x in simp)
        then show "key < fst x" using lt by simp
      qed
      then have "\<exists>g. search_segment s key lb (p - 1) = Some g \<and> segment_for ?rows key g"
        using less.prems p p0 by (intro less.hyps) auto
      then show ?thesis using step lt by simp
    next
      case ge: False
      show ?thesis
      proof (cases "key \<le> fst (last ?r)")
        case True
        then show ?thesis using step ge p rne by (simp add: segment_for_def)
      next
        case gt: False
        have "\<forall>i<p + 1. \<forall>x \<in> set (?rows ! i). fst x < key"
        proof (intro allI impI ballI)
          fix i x assume i: "i < p + 1" and x: "x \<in> set (?rows ! i)"
          have "fst x \<le> fst (last ?r)"
          proof (cases "i = p")
            case False
            then show ?thesis using rows_ordered[OF srt, of i p x "last ?r"] i x rne p by simp
          qed (use bounds x in simp)
          then show "fst x < key" using gt by simp
        qed
        moreover have "pivots (p + 1) ub" by (simp add: pivots_def)
        ultimately have "\<exists>g. search_segment s key (p + 1) ub = Some g \<and> segment_for ?rows key g"
          using less.prems p by (intro less.hyps) auto
        then show ?thesis using step ge gt by simp
      qed
    qed
  qed
qed

lemma find_segment_ok:
  assumes inv: "seq_inv s"
  obtains g where "find_segment s key = Some g" and "segment_for (seq_rows s) key g"
proof -
  obtain k where wf: "seq_wf s" and shape: "seq_shape s k" using inv by (auto simp: seq_inv_def)
  note num = seq_shape_num[OF shape]
  show thesis
  proof (cases "seq_empty s")
    case True
    then have "seq_elems s = []" using wf by (simp add: seq_wf_def seq_empty_def)
    then have "\<forall>r \<in> set (seq_rows s). r = []" by (simp add: seq_elems_def)
    then have "seq_rows s ! i = []" if "i < length (m_segments s)" for i using nth_mem[of i "seq_rows s"] that by simp
    then have "segment_for (seq_rows s) key 0" using num(3) by (simp add: segment_for_def)
    then show thesis using that True by (simp add: find_segment_def)
  next
    case False
    let ?n = "length (m_segments s)"
    have "m_height s - 1 \<noteq> 1" using num(5,6) by auto
    then have piv: "pivots 0 (?n - 1)" using num(3,5) by (auto simp: pivots_def)
    have "\<exists>g. search_segment s key 0 (?n - 1) = Some g \<and> segment_for (seq_rows s) key g"
      by (rule search_segment_ok[OF wf]) (use inv num(3) piv in \<open>auto simp: seq_inv_def\<close>)
    then show thesis using that False num(4) by (auto simp: find_segment_def)
  qed
qed

section \<open>Insertion\<close>

text \<open>A segment for the key: the keys before it are at most the key, those after it at least the key.\<close>

lemma segment_for_weak:
  assumes "sorted (map fst (concat rows))" "segment_for rows key g"
  shows "g < length rows" "x \<in> set (concat (take g rows)) \<Longrightarrow> fst x \<le> key" "x \<in> set (concat (drop (Suc g) rows)) \<Longrightarrow> key \<le> fst x"
proof -
  show g: "g < length rows" using assms(2) by (simp add: segment_for_def)
  have ends: "fst y \<le> fst (hd (rows ! g))" "fst (last (rows ! g)) \<le> fst z"
    if "rows ! g \<noteq> []" "i < g" "y \<in> set (rows ! i)" "g < j" "j < length rows" "z \<in> set (rows ! j)" for i j y z
    using rows_ordered[OF assms(1) that(2) g that(3)] rows_ordered[OF assms(1) that(4,5) _ that(6)] that(1) by simp_all
  show "fst x \<le> key" if x: "x \<in> set (concat (take g rows))"
  proof -
    obtain r where "r \<in> set (take g rows)" and xr: "x \<in> set r" using x by auto
    then obtain i where "i < length (take g rows)" and ri: "take g rows ! i = r" by (metis in_set_conv_nth)
    then have i: "i < g" "x \<in> set (rows ! i)" using xr by auto
    then have "rows ! g \<noteq> [] \<Longrightarrow> fst x \<le> fst (hd (rows ! g))" using rows_ordered[OF assms(1) i(1) g i(2)] by simp
    then show ?thesis using assms(2) i unfolding segment_for_def by fastforce
  qed
  show "key \<le> fst x" if x: "x \<in> set (concat (drop (Suc g) rows))"
  proof -
    obtain r where "r \<in> set (drop (Suc g) rows)" and xr: "x \<in> set r" using x by auto
    then obtain i where i: "i < length (drop (Suc g) rows)" "drop (Suc g) rows ! i = r" by (metis in_set_conv_nth)
    define j where "j = Suc g + i"
    have j: "g < j" "j < length rows" "x \<in> set (rows ! j)" using i xr g by (auto simp: j_def)
    then have "rows ! g \<noteq> [] \<Longrightarrow> fst (last (rows ! g)) \<le> fst x" using rows_ordered[OF assms(1) j(1,2) _ j(3)] by simp
    then show ?thesis using assms(2) j unfolding segment_for_def by fastforce
  qed
qed

text \<open>The row of a segment after an insertion, and the cells that hold it.\<close>

lemma insert_row:
  assumes wf: "seq_wf s" and g: "g < length (m_segments s)" and room: "length (seq_rows s ! g) < m_segment_capacity s"
    and cap: "m_capacity s = length (m_segments s) * m_segment_capacity s"
    and run: "shift_greater (m_elements s) (m_segment_capacity s * g) key (m_segments s ! g) = (E, j)"
  shows "j \<le> length (seq_rows s ! g)"
    and "layout (m_segment_capacity s) (E[m_segment_capacity s * g + j := (key, v)])
      ((seq_rows s)[g := take j (seq_rows s ! g) @ (key, v) # drop j (seq_rows s ! g)])"
    and "x \<in> set (drop j (seq_rows s ! g)) \<Longrightarrow> key < fst x" and "x \<in> set (take j (seq_rows s ! g)) \<Longrightarrow> fst x \<le> key"
proof -
  let ?c = "m_segment_capacity s" and ?r = "seq_rows s ! g" and ?E = "m_elements s"
  let ?b = "?c * g"
  note row = seq_wf_row[OF wf g]
  have lay: "layout ?c ?E (seq_rows s)" and srt: "sorted (map fst (concat (seq_rows s)))"
    using wf by (simp_all add: seq_wf_def seq_elems_def)
  have fits: "?b + ?c \<le> length ?E" using layout_row_fits[OF lay, of g] g by (simp add: mult.commute)
  have "?b + length ?r < length ?E" using fits room by simp
  note sg = shift_greater_ok[OF this run[unfolded row(1)], of "(key, v)"]
  have nth: "?E ! (?b + t) = ?r ! t" if "t < length ?r" for t using row(3)[OF that] by (simp add: mult.commute)
  show j: "j \<le> length ?r" using sg by blast
  have r: "take (length ?r) (drop ?b ?E) = ?r" using lay g by (simp add: layout_def mult.commute)
  have "take (?b + j) ?E = take ?b ?E @ take j ?r"
  proof -
    have "take j ?r = take j (drop ?b ?E)" by (subst r[symmetric]) (use j in simp)
    then show ?thesis by (simp add: take_add)
  qed
  moreover have "drop (?b + j) (take (?b + length ?r) ?E) = drop j ?r"
  proof -
    have "drop j ?r = drop j (take (length ?r) (drop ?b ?E))" by (simp only: r)
    also have "\<dots> = drop (?b + j) (take (?b + length ?r) ?E)" by (simp add: drop_take add.commute)
    finally show ?thesis by simp
  qed
  ultimately have e: "E[?b + j := (key, v)] = take ?b ?E @ (take j ?r @ (key, v) # drop j ?r) @ drop (?b + length ?r + 1) ?E"
    using sg by simp
  let ?r' = "take j ?r @ (key, v) # drop j ?r"
  have l: "length ?r' = length ?r + 1" using j by simp
  obtain E' where E': "seq_copy ?E (g * ?c) ?r' = Some E'" "layout ?c E' ((seq_rows s)[g := ?r'])"
    by (rule layout_copy[OF lay, of g ?r']) (use g room l in simp_all)
  have "E' = take ?b ?E @ ?r' @ drop (?b + length ?r + 1) ?E" using E'(1) l by (simp add: seq_copy_def mult.commute split: if_splits)
  then show "layout ?c (E[?b + j := (key, v)]) ((seq_rows s)[g := ?r'])" using E'(2) e by simp
  show "key < fst x" if x: "x \<in> set (drop j ?r)"
  proof -
    obtain t where "t < length ?r - j" "x = ?r ! (j + t)" using x j by (auto simp: in_set_conv_nth)
    moreover from this have "j + t < length ?r" by linarith
    moreover have "\<forall>t. j \<le> t \<longrightarrow> t < length ?r \<longrightarrow> key < fst (?E ! (?b + t))" using sg by blast
    ultimately show ?thesis using nth[of "j + t"] by (metis le_add1)
  qed
  show "fst x \<le> key" if x: "x \<in> set (take j ?r)"
  proof -
    have tne: "take j ?r \<noteq> []" using x by (cases "take j ?r") simp_all
    then have j0: "0 < j" by (metis gr0I take_0)
    have "sorted (map fst (take j ?r))" using row_sorted[OF srt, of g] g by (simp add: sorted_wrt_take flip: take_map)
    then have "fst x \<le> fst (last (take j ?r))" using sorted_ends x by blast
    also have "last (take j ?r) = ?r ! (j - 1)" using j j0 tne by (simp add: last_conv_nth min_def)
    also have "\<dots> = ?E ! (?b + j - 1)" using nth[of "j - 1"] j j0 by simp
    also have "fst \<dots> \<le> key" using sg j0 by blast
    finally show ?thesis .
  qed
qed

lemma sorted_insert_at:
  "sorted (map fst (us @ vs)) \<Longrightarrow> \<forall>x \<in> set us. fst x \<le> k \<Longrightarrow> \<forall>x \<in> set vs. k \<le> fst x \<Longrightarrow> sorted (map fst (us @ (k :: int, v) # vs))"
  by (force simp: sorted_append)

lemma seq_insert_ok:
  assumes inv: "seq_inv s" and small: "length (m_segments s) < 2 ^ 43"
  obtains s' us vs where "seq_insert s key v = Some s'" and "seq_inv s'" and "seq_elems s = us @ vs" and "seq_elems s' = us @ (key, v) # vs"
proof -
  obtain k where wf: "seq_wf s" and shape: "seq_shape s k"
    and rows: "\<forall>r \<in> set (seq_rows s). length r < m_segment_capacity s \<and> (1 < length (m_segments s) \<longrightarrow> r \<noteq> [])"
    using inv by (auto simp: seq_inv_def)
  let ?rows = "seq_rows s" and ?c = "m_segment_capacity s" and ?n = "length (m_segments s)"
  note num = seq_shape_num[OF shape]
  have srt: "sorted (map fst (concat ?rows))" and card: "m_cardinality s = length (concat ?rows)"
    using wf by (simp_all add: seq_wf_def seq_elems_def)
  obtain g where fs: "find_segment s key = Some g" and sf: "segment_for ?rows key g" by (rule find_segment_ok[OF inv])
  note sw = segment_for_weak[OF srt sf]
  have g: "g < ?n" using sw(1) by simp
  let ?r = "?rows ! g"
  have room: "length ?r < ?c" using rows g by simp
  obtain E j where run: "shift_greater (m_elements s) (?c * g) key (m_segments s ! g) = (E, j)" by force
  note ir = insert_row[OF wf g room num(1) run]
  let ?r' = "take j ?r @ (key, v) # drop j ?r"
  let ?rows' = "?rows[g := ?r']"
  let ?us = "concat (take g ?rows) @ take j ?r" and ?vs = "drop j ?r @ concat (drop (Suc g) ?rows)"
  have old: "concat ?rows = ?us @ ?vs" using concat_split[of g ?rows] g by simp
  have new: "concat ?rows' = ?us @ (key, v) # ?vs" using concat_split[of g ?rows'] g by simp
  have us: "fst x \<le> key" if "x \<in> set ?us" for x using that sw(2)[of x] ir(4)[of x] unfolding set_append Un_iff by blast
  have vs: "key \<le> fst x" if "x \<in> set ?vs" for x using that sw(3)[of x] ir(3)[of x] less_imp_le unfolding set_append Un_iff by blast
  have srt': "sorted (map fst (concat ?rows'))"
    using sorted_insert_at[of ?us ?vs key v] srt us vs unfolding new old by blast
  let ?s = "s\<lparr>m_elements := E[?c * g + j := (key, v)], m_segments := (m_segments s)[g := m_segments s ! g + 1], m_cardinality := m_cardinality s + 1\<rparr>"
  have segs: "(m_segments s)[g := m_segments s ! g + 1] = map length ?rows'"
  proof -
    have "m_segments s = map length ?rows" using wf unfolding seq_wf_def by blast
    then show ?thesis using seq_wf_row(1)[OF wf g] ir(1) by (metis (no_types, lifting) Suc_eq_plus1 add_Suc_right append_take_drop_id length_Cons length_append map_update)
  qed
  have pre: "layout (m_segment_capacity ?s) (m_elements ?s) ?rows'" "m_segments ?s = map length ?rows'"
      "m_cardinality ?s = length (concat ?rows')" "sorted (map fst (concat ?rows'))"
    using ir(2) segs srt' card unfolding new old by simp_all
  note w = seq_wfI[OF pre]
  have shape': "seq_shape ?s k" using shape by (simp add: seq_shape_def)
  have ins: "seq_insert s key v = (if m_segments s ! g + 1 = ?c then seq_rebalance ?s g else Some ?s)"
    using fs g room run seq_wf_row(1)[OF wf g] by (simp add: seq_insert_def)
  have old_rows: "length (?rows ! i) < ?c \<and> (1 < ?n \<longrightarrow> ?rows ! i \<noteq> [])" if "i < ?n" for i using rows that by simp
  have lr: "length ?r' = m_segments s ! g + 1" using ir(1) seq_wf_row(1)[OF wf g] by simp
  show thesis
  proof (cases "m_segments s ! g + 1 = ?c")
    case True
    have "\<forall>i<length (m_segments ?s). i \<noteq> g \<longrightarrow> seq_rows ?s ! i \<noteq> [] \<and> length (seq_rows ?s ! i) < m_segment_capacity ?s"
      unfolding w(2) using old_rows g by auto
    moreover have "length (seq_rows ?s ! g) = m_segment_capacity ?s" unfolding w(2) using g lr True by simp
    moreover have "g < length (m_segments ?s)" "length (m_segments ?s) < 2 ^ 43" using g small by simp_all
    ultimately obtain s' where "seq_rebalance ?s g = Some s'" "seq_inv s'" "seq_elems s' = seq_elems ?s"
      by (metis seq_rebalance_ok[OF w(1) shape'])
    then show thesis using that[of s' ?us ?vs] ins True w(3) new old by (simp add: seq_elems_def)
  next
    case False
    have "length r < ?c \<and> (1 < ?n \<longrightarrow> r \<noteq> [])" if r: "r \<in> set ?rows'" for r
    proof -
      obtain i where i: "i < ?n" "r = ?rows' ! i" using r by (auto simp: in_set_conv_nth)
      show ?thesis using i old_rows[OF i(1)] lr False room seq_wf_row(1)[OF wf g] by (cases "i = g") auto
    qed
    then have "seq_inv ?s" unfolding seq_inv_def w(2) using w(1) shape' by auto
    then show thesis using that[of ?s ?us ?vs] ins False w(3) new old by (simp add: seq_elems_def)
  qed
qed

end
