(* ===== verification/Sequential_Properties.thy ===== *)
theory Sequential_Properties
  imports Sequential_Proofs
begin

text \<open>
  The array without an index: the searches and the sum over the rows, the interpretation of the interface of
  the containers, and the properties.
\<close>

section \<open>Find\<close>

lemma scan_cells_row:
  "(\<And>j. j < length r \<Longrightarrow> E ! (b + j) = r ! j) \<Longrightarrow> n = length r \<Longrightarrow>
    scan_cells E key b n = (case map_of r key of None \<Rightarrow> - 1 | Some v \<Rightarrow> v)"
proof (induction n arbitrary: b r)
  case (Suc n)
  then obtain x xs where r: "r = x # xs" by (cases r) auto
  have "E ! b = x" using Suc.prems(1)[of 0] r by simp
  moreover have "scan_cells E key (Suc b) n = (case map_of xs key of None \<Rightarrow> - 1 | Some v \<Rightarrow> v)"
    using Suc.prems(1)[of "Suc j" for j] Suc.prems(2) r by (intro Suc.IH) auto
  ultimately show ?case using r by (cases x) auto
qed simp

text \<open>A stored key is in the segment that is searched.\<close>

lemma segment_for_member:
  assumes srt: "sorted (map fst (concat rows))" and sf: "segment_for rows key g" and key: "key \<in> fst ` set (concat rows)"
  shows "key \<in> fst ` set (rows ! g)"
proof -
  have g: "g < length rows" using sf by (simp add: segment_for_def)
  obtain r v where "r \<in> set rows" and v: "(key, v) \<in> set r" using key by auto
  then obtain i where i: "i < length rows" "(key, v) \<in> set (rows ! i)" by (metis in_set_conv_nth)
  show ?thesis
  proof (cases "i = g")
    case True
    then show ?thesis using i by force
  next
    case False
    then have b: "rows ! g \<noteq> []" "fst (hd (rows ! g)) \<le> key" "key \<le> fst (last (rows ! g))"
    proof -
      have "\<not> ((\<forall>i<g. \<forall>x \<in> set (rows ! i). fst x < key) \<and> (\<forall>i<length rows. g < i \<longrightarrow> (\<forall>x \<in> set (rows ! i). key < fst x)))"
        using i False by (metis fst_conv less_irrefl linorder_neqE_nat)
      then show "rows ! g \<noteq> []" "fst (hd (rows ! g)) \<le> key" "key \<le> fst (last (rows ! g))" using sf unfolding segment_for_def by blast+
    qed
    then have m: "hd (rows ! g) \<in> set (rows ! g)" "last (rows ! g) \<in> set (rows ! g)" by simp_all
    consider "i < g" | "g < i" using False by linarith
    then show ?thesis
    proof cases
      case 1
      then have "key \<le> fst (hd (rows ! g))" using rows_ordered[OF srt 1 g i(2) m(1)] by simp
      then have "key = fst (hd (rows ! g))" using b(2) by simp
      then show ?thesis using m(1) by blast
    next
      case 2
      then have "fst (last (rows ! g)) \<le> key" using rows_ordered[OF srt 2 i(1) m(2) i(2)] by simp
      then have "key = fst (last (rows ! g))" using b(3) by simp
      then show ?thesis using m(2) by blast
    qed
  qed
qed

lemma seq_inv_rows:
  assumes "seq_inv s"
  shows "sorted (map fst (concat (seq_rows s)))" "seq_wf s" "get_num_segments s = length (m_segments s)"
    and "seq_size s = length (seq_elems s)" "0 < length (m_segments s)"
proof -
  obtain k where wf: "seq_wf s" and shape: "seq_shape s k" using assms by (auto simp: seq_inv_def)
  show "seq_wf s" "get_num_segments s = length (m_segments s)" "0 < length (m_segments s)"
    by (rule wf, rule seq_shape_num(4)[OF shape], rule seq_shape_num(3)[OF shape])
  show "sorted (map fst (concat (seq_rows s)))" "seq_size s = length (seq_elems s)"
    using wf by (simp_all add: seq_wf_def seq_elems_def seq_size_def)
qed

lemma seq_find_elems:
  assumes inv: "seq_inv s"
  shows "\<exists>v. seq_find s key = Some v \<and> (if key \<in> fst ` set (seq_elems s) then (key, v) \<in> set (seq_elems s) else v = - 1)"
proof -
  note i = seq_inv_rows[OF inv]
  obtain g where fs: "find_segment s key = Some g" and sf: "segment_for (seq_rows s) key g" by (rule find_segment_ok[OF inv])
  have g: "g < length (m_segments s)" using sf by (simp add: segment_for_def)
  let ?r = "seq_rows s ! g"
  note row = seq_wf_row[OF i(2) g]
  define v where "v = (case map_of ?r key of None \<Rightarrow> - 1 | Some v \<Rightarrow> v)"
  have "scan_cells (m_elements s) key (m_segment_capacity s * g) (m_segments s ! g) = v"
    unfolding v_def by (rule scan_cells_row) (use row in \<open>simp_all add: mult.commute\<close>)
  then have "seq_find s key = Some v" using fs g by (simp add: seq_find_def)
  moreover have sub: "set ?r \<subseteq> set (seq_elems s)" using g nth_mem[of g "seq_rows s"] by (simp add: seq_elems_def UN_upper)
  moreover have "(key, v) \<in> set ?r" if "key \<in> fst ` set ?r"
    using that map_of_SomeD[of ?r key] by (auto simp: v_def map_of_eq_None_iff split: option.splits)
  moreover have "v = - 1" if "key \<notin> fst ` set ?r"
    using that map_of_eq_None_iff[of ?r key] by (simp add: v_def)
  moreover have "key \<in> fst ` set ?r" if "key \<in> fst ` set (seq_elems s)" using segment_for_member[OF i(1) sf] that by (simp add: seq_elems_def)
  ultimately show ?thesis by (auto simp: image_subset_iff)
qed

section \<open>The interface\<close>

lemma seq_segments_few:
  assumes "seq_inv s"
  shows "length (m_segments s) \<le> length (seq_elems s) + 1"
proof (cases "1 < length (m_segments s)")
  case True
  have "length xs \<le> length (concat xs)" if "\<forall>r \<in> set xs. r \<noteq> []" for xs :: "(int \<times> int) list list"
    using that by (induction xs) (auto simp: Suc_le_eq neq_Nil_conv)
  moreover have "\<forall>r \<in> set (seq_rows s). r \<noteq> []" using assms True unfolding seq_inv_def by blast
  ultimately have "length (seq_rows s) \<le> length (concat (seq_rows s))" by blast
  then show ?thesis by (simp add: seq_elems_def)
qed simp

lemma new_seq_ok: "\<exists>s. new_seq = Some s \<and> seq_inv s \<and> seq_elems s = []"
proof -
  have b: "bit_len 7 = 3" by (simp add: bit_len.simps)
  let ?s = "\<lparr>m_elements = replicate 8 (0, 0), m_capacity = 8, m_segments = [0], m_segment_capacity = 8, m_height = 1, m_cardinality = 0\<rparr>"
  have n: "new_seq = Some ?s" by (simp add: new_seq_def initialize_def min_capacity_def seq_hyperceil_def b)
  have "layout (m_segment_capacity ?s) (m_elements ?s) [[]]" by (simp add: layout_def)
  note w = seq_wfI[OF this]
  have "seq_shape ?s 3" by (simp add: seq_shape_def)
  then have "seq_inv ?s" using w unfolding seq_inv_def by auto
  then show ?thesis using n w(3) by auto
qed

interpretation sequential: pma_interface seq_inv seq_elems seq_insert "\<lambda>s k. the (seq_find s k)" seq_size "\<lambda>k. True" "2 ^ 30"
proof unfold_locales
  fix s k v assume inv: "seq_inv s" and "length (seq_elems s) < 2 ^ 30"
  then have "length (m_segments s) < 2 ^ 43" using seq_segments_few[OF inv] by simp
  then show "\<exists>s'. seq_insert s k v = Some s' \<and> seq_inv s' \<and> mset (seq_elems s') = add_mset (k, v) (mset (seq_elems s))"
    by (rule seq_insert_ok[OF inv]) auto
next
  fix s and k :: int assume inv: "seq_inv s" and d: "distinct (map fst (seq_elems s))"
  obtain v where v: "seq_find s k = Some v" "if k \<in> fst ` set (seq_elems s) then (k, v) \<in> set (seq_elems s) else v = - 1"
    using seq_find_elems[OF inv] by blast
  then show "the (seq_find s k) = (case map_of (seq_elems s) k of None \<Rightarrow> - 1 | Some v \<Rightarrow> v)"
    using d map_of_is_SomeI[of "seq_elems s" k v] map_of_eq_None_iff[of "seq_elems s" k] by (auto split: if_splits)
qed (use seq_inv_rows in \<open>auto simp: seq_elems_def\<close>)

section \<open>Iterator\<close>

lemma seq_iterator_all:
  assumes inv: "seq_inv s"
  shows "\<exists>it. seq_take (seq_size s) (seq_iterator s) = Some (seq_elems s, it) \<and> \<not> seq_hasNext it"
proof -
  note i = seq_inv_rows[OF inv]
  obtain k where shape: "seq_shape s k" using inv by (auto simp: seq_inv_def)
  show ?thesis
  proof (cases "\<forall>r \<in> set (seq_rows s). r \<noteq> []")
    case True
    note it = seq_iterator_start[OF i(2) shape True]
    show ?thesis
      using seq_take_rest[OF i(2) shape True it(1,2), of "seq_size s"] seq_next_rest(1)[OF i(2) shape True] i(4) it(3) by auto
  next
    case False
    then obtain r where r: "r \<in> set (seq_rows s)" "r = []" by blast
    then have "\<not> 1 < length (m_segments s)" using inv unfolding seq_inv_def by blast
    then have "length (seq_rows s) = Suc 0" using i(5) unfolding length_seq_rows by linarith
    then obtain y where "seq_rows s = [y]" by (metis length_0_conv length_Suc_conv)
    then have "seq_rows s = [[]]" using r by simp
    then show ?thesis using seq_wf_row(1)[OF i(2) i(5)] i(4) by (simp add: seq_elems_def seq_iterator_def seq_hasNext_def)
  qed
qed

section \<open>Sum\<close>

text \<open>The effect of the loops on a result: the elements added, and the last key where it is recorded.\<close>

definition add_pairs :: "SumResult \<Rightarrow> (int \<times> int) list \<Rightarrow> SumResult" where
  "add_pairs r xs = r\<lparr>m_num_elements := m_num_elements r + length xs, m_sum_keys := sum64 (m_sum_keys r) (map fst xs),
     m_sum_values := sum64 (m_sum_values r) (map snd xs)\<rparr>"

definition with_last :: "SumResult \<Rightarrow> (int \<times> int) list \<Rightarrow> SumResult" where
  "with_last r xs = (if xs = [] then r else r\<lparr>m_last_key := fst (last xs)\<rparr>)"

lemma add_pairs_append: "add_pairs (add_pairs r xs) ys = add_pairs r (xs @ ys)"
  by (simp add: add_pairs_def)

lemma with_last_add: "with_last (add_pairs r xs) ys = add_pairs (with_last r ys) xs"
  by (simp add: with_last_def add_pairs_def)

lemma sum_cells_run:
  "(\<And>j. j < length xs \<Longrightarrow> E ! (b + i + j) = xs ! j) \<Longrightarrow> n = length xs \<Longrightarrow>
    sum_cells E b mx i n r = (let t = takeWhile (\<lambda>x. fst x \<le> mx) xs in (with_last (add_pairs r t) t, i + length t))"
proof (induction n arbitrary: xs i r)
  case 0
  then show ?case by (simp add: with_last_def add_pairs_def)
next
  case (Suc n)
  then obtain x ys where xs: "xs = x # ys" by (cases xs) auto
  have x: "E ! (b + i) = x" using Suc.prems(1)[of 0] xs by simp
  have "\<And>j. j < length ys \<Longrightarrow> E ! (b + Suc i + j) = ys ! j" using Suc.prems(1)[of "Suc j" for j] xs by simp
  note IH = Suc.IH[OF this]
  show ?case using xs x Suc.prems(2) IH by (auto simp: Let_def with_last_def add_pairs_def add.assoc)
qed

lemma skip_smaller_run:
  "(\<And>j. j < length xs \<Longrightarrow> E ! (b + i + j) = xs ! j) \<Longrightarrow> n = length xs \<Longrightarrow>
    skip_smaller E b mn i n = i + length (takeWhile (\<lambda>x. fst x < mn) xs)"
proof (induction n arbitrary: xs i)
  case (Suc n)
  then obtain x ys where xs: "xs = x # ys" by (cases xs) auto
  have x: "E ! (b + i) = x" using Suc.prems(1)[of 0] xs by simp
  have "\<And>j. j < length ys \<Longrightarrow> E ! (b + Suc i + j) = ys ! j" using Suc.prems(1)[of "Suc j" for j] xs by simp
  then have "skip_smaller E b mn (Suc i) n = Suc i + length (takeWhile (\<lambda>x. fst x < mn) ys)"
    using xs Suc.prems(2) by (intro Suc.IH) auto
  then show ?case using xs x by simp
qed simp

lemma sum_segment_run:
  assumes "seq_wf s" "i < length (m_segments s)"
  shows "sum_segment s r i = add_pairs r (seq_rows s ! i)"
proof -
  let ?b = "m_segment_capacity s * i" and ?row = "seq_rows s ! i"
  note row = seq_wf_row[OF assms]
  have "foldl (\<lambda>r i. r\<lparr>m_sum_keys := s64 (m_sum_keys r + fst (m_elements s ! (?b + i))), m_sum_values := s64 (m_sum_values r + snd (m_elements s ! (?b + i))),
      m_num_elements := m_num_elements r + 1\<rparr>) r [0..<n] = add_pairs r (take n ?row)" if "n \<le> length ?row" for n
    using that
  proof (induction n)
    case (Suc n)
    then have "m_elements s ! (?b + n) = ?row ! n" using row(3)[of n] by (simp add: mult.commute)
    then show ?case using Suc by (simp add: take_Suc_conv_app_nth add_pairs_def)
  qed (simp add: add_pairs_def)
  from this[of "length ?row"] show ?thesis using row(1) by (simp add: sum_segment_def Let_def)
qed

lemma sum_segments_run:
  assumes "seq_wf s"
  shows "i + n \<le> length (m_segments s) \<Longrightarrow> foldl (sum_segment s) r [i..<i + n] = add_pairs r (concat (take n (drop i (seq_rows s))))"
proof (induction n)
  case 0
  then show ?case by (simp add: add_pairs_def)
next
  case (Suc n)
  have "take (Suc n) (drop i (seq_rows s)) = take n (drop i (seq_rows s)) @ [seq_rows s ! (i + n)]"
    using Suc.prems by (simp add: take_Suc_conv_app_nth)
  then show ?case using Suc sum_segment_run[OF assms, of "i + n"] by (simp add: add_pairs_append)
qed

lemma distinct_keys_apart: "distinct (map fst (us @ vs @ ws)) \<Longrightarrow> x \<in> set us \<Longrightarrow> y \<in> set vs \<Longrightarrow> fst x \<noteq> fst y"
proof -
  assume d: "distinct (map fst (us @ vs @ ws))" and x: "x \<in> set us" and y: "y \<in> set vs"
  have "set (map fst us) \<inter> set (map fst (vs @ ws)) = {}" using d by (simp only: map_append distinct_append set_append)
  moreover have "fst x \<in> set (map fst us)" "fst y \<in> set (map fst (vs @ ws))" using x y by simp_all
  ultimately show ?thesis by (metis IntI empty_iff)
qed

lemma rows_strict:
  assumes "sorted (map fst (concat rows))" "distinct (map fst (concat rows))" "i < j" "j < length rows" "x \<in> set (rows ! i)" "y \<in> set (rows ! j)"
  shows "fst x < (fst y :: int)"
proof -
  have "x \<in> set (concat (take j rows))" using assms(3-5) by (force simp: in_set_conv_nth set_concat)
  then have "fst x \<noteq> fst y" using distinct_keys_apart[OF assms(2)[unfolded concat_split[OF assms(4)]]] assms(6) by blast
  then show ?thesis using rows_ordered[OF assms(1,3-6)] by simp
qed

lemma segment_for_strict:
  assumes srt: "sorted (map fst (concat rows))" "distinct (map fst (concat rows))" and sf: "segment_for rows key g"
  shows "i < g \<Longrightarrow> x \<in> set (rows ! i) \<Longrightarrow> fst x < key" "g < i \<Longrightarrow> i < length rows \<Longrightarrow> x \<in> set (rows ! i) \<Longrightarrow> key < fst x"
proof -
  have g: "g < length rows" using sf by (simp add: segment_for_def)
  show "fst x < key" if i: "i < g" and x: "x \<in> set (rows ! i)"
  proof -
    have "rows ! g \<noteq> [] \<Longrightarrow> fst x < fst (hd (rows ! g))" using rows_strict[OF srt i g x] by simp
    then show ?thesis using sf i x unfolding segment_for_def by fastforce
  qed
  show "key < fst x" if i: "g < i" "i < length rows" and x: "x \<in> set (rows ! i)"
  proof -
    have "rows ! g \<noteq> [] \<Longrightarrow> fst (last (rows ! g)) < fst x" using rows_strict[OF srt i _ x] by simp
    then show ?thesis using sf i x unfolding segment_for_def by fastforce
  qed
qed

lemma in_concat_nth: "x \<in> set (concat xs) \<Longrightarrow> \<exists>i<length xs. x \<in> set (xs ! i)"
proof -
  assume "x \<in> set (concat xs)"
  then obtain r where "r \<in> set xs" "x \<in> set r" by auto
  then show ?thesis by (metis in_set_conv_nth)
qed

lemma in_range_middle:
  "\<forall>x \<in> set us. fst x < mn \<Longrightarrow> \<forall>x \<in> set xs. mn \<le> fst x \<and> fst x \<le> mx \<Longrightarrow> \<forall>x \<in> set vs. mx < fst x \<Longrightarrow>
    in_range mn mx (us @ xs @ vs) = xs"
proof -
  assume a: "\<forall>x \<in> set us. fst x < mn" "\<forall>x \<in> set xs. mn \<le> fst x \<and> fst x \<le> mx" "\<forall>x \<in> set vs. mx < fst x"
  have "in_range mn mx us = []" "in_range mn mx vs = []" "in_range mn mx xs = xs"
    unfolding in_range_def filter_empty_conv filter_id_conv using a by fastforce+
  then show ?thesis by (simp add: in_range_def)
qed

lemma range_sum_pairs:
  "xs \<noteq> [] \<Longrightarrow> range_sum xs = with_last (add_pairs (empty_sum\<lparr>m_first_key := fst (hd xs)\<rparr>) xs) xs"
  by (simp add: range_sum_def with_last_def add_pairs_def empty_sum_def sum64_0)

text \<open>The two runs that give the sum.\<close>

lemma takeWhile_rest:
  assumes "sorted (map fst xs)" "x \<in> set (dropWhile (\<lambda>x. fst x \<le> mx) xs)"
  shows "mx < (fst x :: int)"
  using assms
proof (induction xs)
  case (Cons y ys)
  then show ?case by (cases "fst y \<le> mx") (auto intro: less_le_trans)
qed simp

section \<open>The rows of a range\<close>

definition row_from :: "int \<Rightarrow> (int \<times> int) list \<Rightarrow> (int \<times> int) list" where
  "row_from mn r = dropWhile (\<lambda>x. fst x < mn) r"

definition row_upto :: "int \<Rightarrow> (int \<times> int) list \<Rightarrow> (int \<times> int) list" where
  "row_upto mx r = takeWhile (\<lambda>x. fst x \<le> mx) r"

definition rows_before :: "int \<Rightarrow> (int \<times> int) list list \<Rightarrow> nat \<Rightarrow> (int \<times> int) list" where
  "rows_before mn rows a = concat (take a rows) @ takeWhile (\<lambda>x. fst x < mn) (rows ! a)"

lemma row_upto_split: "r = row_upto mx r @ dropWhile (\<lambda>x. fst x \<le> mx) r"
  by (simp add: row_upto_def)

lemma row_upto_le: "x \<in> set (row_upto mx r) \<Longrightarrow> fst x \<le> mx"
  by (auto simp: row_upto_def dest: set_takeWhileD)

lemma first_row:
  assumes srt: "sorted (map fst (concat rows))" and ds: "distinct (map fst (concat rows))" and sa: "segment_for rows mn a"
    and mn: "mn \<in> fst ` set (concat rows)"
  shows "row_from mn (rows ! a) \<noteq> []" "fst (hd (row_from mn (rows ! a))) = mn" "sorted (map fst (row_from mn (rows ! a)))"
    and "concat rows = rows_before mn rows a @ row_from mn (rows ! a) @ concat (drop (Suc a) rows)"
    and "\<forall>x \<in> set (rows_before mn rows a). fst x < mn"
    and "\<forall>x \<in> set (row_from mn (rows ! a) @ concat (drop (Suc a) rows)). mn \<le> fst x"
proof -
  let ?A = "rows ! a" and ?R = "row_from mn (rows ! a)"
  have a: "a < length rows" using sa by (simp add: segment_for_def)
  have mnA: "mn \<in> fst ` set ?A" by (rule segment_for_member[OF srt sa mn])
  then show ne: "?R \<noteq> []" by (auto simp: row_from_def dropWhile_eq_Nil_conv)
  have split_A: "?A = takeWhile (\<lambda>x. fst x < mn) ?A @ ?R" by (simp add: row_from_def)
  have "sorted (map fst (takeWhile (\<lambda>x. fst x < mn) ?A @ ?R))" using row_sorted[OF srt a] split_A by simp
  then show sR: "sorted (map fst ?R)" by (simp add: sorted_append)
  have "mn \<le> fst (hd ?R)" using hd_dropWhile[of "\<lambda>x. fst x < mn" ?A] ne unfolding row_from_def by auto
  moreover have "mn \<in> fst ` set ?R"
  proof -
    have "mn \<notin> fst ` set (takeWhile (\<lambda>x. fst x < mn) ?A)" by (auto dest: set_takeWhileD)
    then show ?thesis using mnA by (subst (asm) split_A) (simp add: image_Un)
  qed
  ultimately show hdR: "fst (hd ?R) = mn" using sorted_ends[OF sR] by fastforce
  show e: "concat rows = rows_before mn rows a @ ?R @ concat (drop (Suc a) rows)"
    using concat_split[OF a] split_A unfolding rows_before_def by (metis append.assoc)
  have "fst x < mn" if x: "x \<in> set (concat (take a rows))" for x
  proof -
    obtain i where "i < length (take a rows)" "x \<in> set (take a rows ! i)" using in_concat_nth[OF x] by blast
    then show ?thesis using segment_for_strict(1)[OF srt ds sa, of i x] by simp
  qed
  then show "\<forall>x \<in> set (rows_before mn rows a). fst x < mn" unfolding rows_before_def by (auto dest: set_takeWhileD)
  have "sorted (map fst (?R @ concat (drop (Suc a) rows)))" using srt unfolding e map_append sorted_append by blast
  from sorted_ends[OF this] show "\<forall>x \<in> set (?R @ concat (drop (Suc a) rows)). mn \<le> fst x" using hdR ne by (simp add: hd_append)
qed

lemma after_row:
  assumes "x \<in> set (concat (drop (Suc a) rows))"
  obtains j where "a < j" "j < length rows" "x \<in> set (rows ! j)"
proof -
  obtain j where "j < length (drop (Suc a) rows)" "x \<in> set (drop (Suc a) rows ! j)" using in_concat_nth[OF assms] by blast
  then show thesis using that[of "Suc a + j"] by auto
qed

text \<open>The range ends in the row it starts in: the elements of that row.\<close>

lemma range_one_row:
  assumes srt: "sorted (map fst (concat rows))" and ds: "distinct (map fst (concat rows))"
    and sa: "segment_for rows mn a" and se: "segment_for rows mx e" and mn: "mn \<in> fst ` set (concat rows)"
    and one: "length (row_upto mx (row_from mn (rows ! a))) < length (row_from mn (rows ! a)) \<or> a = e"
  shows "in_range mn mx (concat rows) = row_upto mx (row_from mn (rows ! a))"
proof -
  let ?R = "row_from mn (rows ! a)"
  note f = first_row[OF srt ds sa mn]
  have a: "a < length rows" using sa by (simp add: segment_for_def)
  have "mx < fst x" if x: "x \<in> set (concat (drop (Suc a) rows))" for x
  proof -
    obtain j where j: "a < j" "j < length rows" "x \<in> set (rows ! j)" by (rule after_row[OF x])
    show ?thesis
    proof (cases "a = e")
      case True
      then show ?thesis using segment_for_strict(2)[OF srt ds se] j by simp
    next
      case False
      then have "dropWhile (\<lambda>x. fst x \<le> mx) ?R \<noteq> []" using one row_upto_split[of ?R mx] by (metis append_Nil2 less_irrefl)
      then obtain y where y: "y \<in> set (dropWhile (\<lambda>x. fst x \<le> mx) ?R)" by (meson list.set_sel(1))
      then have "y \<in> set (rows ! a)" unfolding row_from_def by (meson set_dropWhileD)
      then have "fst y \<le> fst x" using rows_ordered[OF srt j(1,2)] j(3) by blast
      then show ?thesis using takeWhile_rest[OF f(3) y] by simp
    qed
  qed
  then have "\<forall>x \<in> set (dropWhile (\<lambda>x. fst x \<le> mx) ?R @ concat (drop (Suc a) rows)). mx < fst x"
    using takeWhile_rest[OF f(3)] by (auto simp del: set_concat)
  moreover have "\<forall>x \<in> set (row_upto mx ?R). mn \<le> fst x \<and> fst x \<le> mx"
    using f(6) row_upto_le by (auto simp: row_upto_def dest: set_takeWhileD)
  ultimately have "in_range mn mx (rows_before mn rows a @ row_upto mx ?R @ dropWhile (\<lambda>x. fst x \<le> mx) ?R @ concat (drop (Suc a) rows)) = row_upto mx ?R"
    by (intro in_range_middle f(5))
  then show ?thesis using f(4) row_upto_split[of ?R mx] by (metis append.assoc)
qed

text \<open>The range ends in a later row: the rest of the first row, the rows in between and the start of the last one.\<close>

lemma range_many_rows:
  assumes srt: "sorted (map fst (concat rows))" and ds: "distinct (map fst (concat rows))"
    and sa: "segment_for rows mn a" and se: "segment_for rows mx e" and mn: "mn \<in> fst ` set (concat rows)"
    and lt: "a < e" and all: "row_upto mx (row_from mn (rows ! a)) = row_from mn (rows ! a)"
  shows "in_range mn mx (concat rows)
    = row_from mn (rows ! a) @ concat (take (e - Suc a) (drop (Suc a) rows)) @ row_upto mx (rows ! e)"
proof -
  let ?R = "row_from mn (rows ! a)" and ?M = "concat (take (e - Suc a) (drop (Suc a) rows))" and ?F = "row_upto mx (rows ! e)"
  let ?vs = "dropWhile (\<lambda>x. fst x \<le> mx) (rows ! e) @ concat (drop (Suc e) rows)"
  note f = first_row[OF srt ds sa mn]
  have e: "e < length rows" using se by (simp add: segment_for_def)
  have post: "concat (drop (Suc a) rows) = ?M @ ?F @ ?vs"
  proof -
    have "drop (Suc a) rows = take (e - Suc a) (drop (Suc a) rows) @ rows ! e # drop (Suc e) rows"
      using id_take_nth_drop[of "e - Suc a" "drop (Suc a) rows"] lt e by simp
    then have "concat (drop (Suc a) rows) = ?M @ rows ! e @ concat (drop (Suc e) rows)" by (metis concat.simps(2) concat_append)
    then show ?thesis using row_upto_split[of "rows ! e" mx] by (metis append.assoc)
  qed
  have "mx < fst x" if x: "x \<in> set (concat (drop (Suc e) rows))" for x
    by (rule after_row[OF x]) (rule segment_for_strict(2)[OF srt ds se])
  then have vs: "\<forall>x \<in> set ?vs. mx < fst x" using takeWhile_rest[OF row_sorted[OF srt e]] by (auto simp del: set_concat)
  have "fst x \<le> mx" if x: "x \<in> set ?M" for x
  proof -
    obtain j where "j < length (take (e - Suc a) (drop (Suc a) rows))" "x \<in> set (take (e - Suc a) (drop (Suc a) rows) ! j)"
      using in_concat_nth[OF x] by blast
    then have "Suc a + j < e" "x \<in> set (rows ! (Suc a + j))" using e by auto
    from segment_for_strict(1)[OF srt ds se this] show ?thesis by simp
  qed
  then have "\<forall>x \<in> set (?R @ ?M @ ?F). mn \<le> fst x \<and> fst x \<le> mx"
    using f(6) row_upto_le all unfolding post by (auto simp del: set_concat) (metis fst_conv)
  then have "in_range mn mx (rows_before mn rows a @ (?R @ ?M @ ?F) @ ?vs) = ?R @ ?M @ ?F" by (intro in_range_middle f(5) vs)
  then show ?thesis using f(4) unfolding post by simp
qed

section \<open>The loops of the sum\<close>

lemma length_row_from: "length (row_from mn r) = length r - length (takeWhile (\<lambda>x. fst x < mn) r)"
  by (metis row_from_def dropWhile_eq_drop length_drop)

lemma seq_sum_steps:
  assumes inv: "seq_inv s" and ne: "seq_elems s \<noteq> []" and le: "mn \<le> mx"
    and fa: "find_segment s mn = Some a" "a < length (m_segments s)" and fe: "find_segment s mx = Some e" "e < length (m_segments s)"
    and R: "row_from mn (seq_rows s ! a) \<noteq> []" "fst (hd (row_from mn (seq_rows s ! a))) = mn" and ae: "a \<le> e"
  shows "seq_sum s mn mx = Some (let R = row_from mn (seq_rows s ! a); t = row_upto mx R;
      r = with_last (add_pairs (empty_sum\<lparr>m_first_key := mn\<rparr>) t) t; F = row_upto mx (seq_rows s ! e)
    in if length t < length R \<or> a = e then r
       else with_last (add_pairs (add_pairs r (concat (take (e - Suc a) (drop (Suc a) (seq_rows s))))) F) F)"
proof -
  let ?E = "m_elements s" and ?A = "seq_rows s ! a" and ?b = "m_segment_capacity s * a"
  let ?R = "row_from mn ?A"
  let ?t = "row_upto mx ?R" and ?r0 = "empty_sum\<lparr>m_first_key := mn\<rparr>" and ?i = "length (takeWhile (\<lambda>x. fst x < mn) ?A)"
  note wf = seq_inv_rows(2)[OF inv]
  note rowa = seq_wf_row[OF wf fa(2)] and rowe = seq_wf_row[OF wf fe(2)]
  have R_drop: "?R = drop ?i ?A" unfolding row_from_def by (rule dropWhile_eq_drop)
  have nthA: "?E ! (?b + j) = ?A ! j" if "j < length ?A" for j using rowa(3)[OF that] by (simp add: mult.commute)
  have skip: "skip_smaller ?E ?b mn 0 (m_segments s ! a) = ?i"
    using skip_smaller_run[of ?A ?E ?b 0 "m_segments s ! a" mn] nthA rowa(1) by simp
  have i: "?i < length ?A" using R(1) unfolding R_drop by simp
  have first: "fst (?E ! (?b + ?i)) = mn" using nthA[OF i] R unfolding R_drop by (simp add: hd_drop_conv_nth)
  have run: "sum_cells ?E ?b mx ?i (m_segments s ! a - ?i) ?r0 = (with_last (add_pairs ?r0 ?t) ?t, ?i + length ?t)"
    using sum_cells_run[of ?R ?E ?b ?i "m_segments s ! a - ?i" mx ?r0] nthA rowa(1) by (simp add: R_drop row_upto_def Let_def add.assoc)
  have mid: "foldl (sum_segment s) r [a + 1..<e] = add_pairs r (concat (take (e - Suc a) (drop (Suc a) (seq_rows s))))" if "a < e" for r
    using sum_segments_run[OF wf, of "Suc a" "e - Suc a" r] that fe(2) by simp
  have last: "sum_cells ?E (m_segment_capacity s * e) mx 0 (m_segments s ! e) r
      = (with_last (add_pairs r (row_upto mx (seq_rows s ! e))) (row_upto mx (seq_rows s ! e)), length (row_upto mx (seq_rows s ! e)))" for r
    using sum_cells_run[of "seq_rows s ! e" ?E "m_segment_capacity s * e" 0 "m_segments s ! e" mx r] rowe
    by (simp add: row_upto_def Let_def mult.commute)
  have ends: "?i + length ?t < length ?A \<longleftrightarrow> length ?t < length ?R" using i by (auto simp: length_row_from)
  have nempty: "\<not> seq_empty s" using ne wf by (simp add: seq_empty_def seq_wf_def)
  show ?thesis
    using nempty le fa fe skip i first run rowa(1) mid last ae ends by (simp add: seq_sum_def Let_def)
qed

lemma range_sum_parts:
  assumes "R \<noteq> []" "fst (hd R) = mn"
  shows "(with_last (add_pairs (add_pairs (with_last (add_pairs (empty_sum\<lparr>m_first_key := mn\<rparr>) R) R) M) F) F)\<lparr>m_last_key := 0\<rparr>
      = (range_sum (R @ M @ F))\<lparr>m_last_key := 0\<rparr>"
    and "F \<noteq> [] \<Longrightarrow> with_last (add_pairs (add_pairs (with_last (add_pairs (empty_sum\<lparr>m_first_key := mn\<rparr>) R) R) M) F) F = range_sum (R @ M @ F)"
  using assms by (simp_all add: range_sum_pairs with_last_def add_pairs_def)

lemma seq_sum_ok:
  assumes inv: "seq_inv s" and d: "distinct (map fst (seq_elems s))" and le: "mn \<le> mx" and mn: "mn \<in> fst ` set (seq_elems s)"
  shows "\<exists>r. seq_sum s mn mx = Some r \<and> r\<lparr>m_last_key := 0\<rparr> = (range_sum (in_range mn mx (seq_elems s)))\<lparr>m_last_key := 0\<rparr>
    \<and> (mx \<in> fst ` set (seq_elems s) \<longrightarrow> r = range_sum (in_range mn mx (seq_elems s)))"
proof -
  let ?rows = "seq_rows s"
  note srt = seq_inv_rows(1)[OF inv]
  have ds: "distinct (map fst (concat ?rows))" and mn': "mn \<in> fst ` set (concat ?rows)" using d mn by (simp_all only: seq_elems_def)
  obtain a where fa: "find_segment s mn = Some a" and sa: "segment_for ?rows mn a" by (rule find_segment_ok[OF inv])
  obtain e where fe: "find_segment s mx = Some e" and se: "segment_for ?rows mx e" by (rule find_segment_ok[OF inv])
  have a: "a < length (m_segments s)" and e: "e < length (m_segments s)" using sa se by (simp_all add: segment_for_def)
  note f = first_row[OF srt ds sa mn']
  have ae: "a \<le> e"
  proof (rule ccontr)
    assume "\<not> a \<le> e"
    then have "mx < mn" using segment_for_strict(2)[OF srt ds se, of a] segment_for_member[OF srt sa mn'] a by auto
    then show False using le by simp
  qed
  let ?R = "row_from mn (?rows ! a)"
  have ne: "seq_elems s \<noteq> []" using mn by auto
  note steps = seq_sum_steps[OF inv ne le fa a fe e f(1,2) ae]
  show ?thesis
  proof (cases "length (row_upto mx ?R) < length ?R \<or> a = e")
    case True
    have "row_upto mx ?R \<noteq> []" "hd (row_upto mx ?R) = hd ?R" using f(1,2) le by (cases ?R; simp add: row_upto_def)+
    then have "seq_sum s mn mx = Some (range_sum (row_upto mx ?R))" using steps True f(2) by (simp add: Let_def range_sum_pairs)
    moreover have "in_range mn mx (seq_elems s) = row_upto mx ?R"
      using range_one_row[OF srt ds sa se mn' True] by (simp only: seq_elems_def)
    ultimately show ?thesis by simp
  next
    case False
    then have t: "row_upto mx ?R = ?R" and lt: "a < e"
      using ae row_upto_split[of ?R mx] by (metis append_Nil2 append_eq_conv_conj linorder_not_less take_all_iff, simp)
    let ?M = "concat (take (e - Suc a) (drop (Suc a) ?rows))" and ?F = "row_upto mx (?rows ! e)"
    let ?r = "with_last (add_pairs (add_pairs (with_last (add_pairs (empty_sum\<lparr>m_first_key := mn\<rparr>) ?R) ?R) ?M) ?F) ?F"
    have res: "seq_sum s mn mx = Some ?r" using steps False t by (simp add: Let_def)
    have rng: "in_range mn mx (seq_elems s) = ?R @ ?M @ ?F"
      using range_many_rows[OF srt ds sa se mn' lt t] by (simp only: seq_elems_def)
    have last: "?F \<noteq> []" if mx: "mx \<in> fst ` set (seq_elems s)"
    proof -
      have "mx \<in> fst ` set (?rows ! e)" by (rule segment_for_member[OF srt se]) (use mx in \<open>simp only: seq_elems_def\<close>)
      then obtain v where v: "(mx, v) \<in> set (?rows ! e)" by auto
      then have "fst (hd (?rows ! e)) \<le> mx" using sorted_ends[OF row_sorted[OF srt] v] e by simp
      then show ?thesis using v by (cases "?rows ! e") (auto simp: row_upto_def)
    qed
    have "?r\<lparr>m_last_key := 0\<rparr> = (range_sum (?R @ ?M @ ?F))\<lparr>m_last_key := 0\<rparr>" by (rule range_sum_parts(1)[OF f(1,2)])
    moreover have "?F \<noteq> [] \<Longrightarrow> ?r = range_sum (?R @ ?M @ ?F)" by (rule range_sum_parts(2)[OF f(1,2)])
    ultimately show ?thesis unfolding rng using res last by blast
  qed
qed

section \<open>Properties\<close>

text \<open>C20. An insertion returns, puts the pair between the elements with smaller and those with greater keys and keeps
  the invariant, whether it finds a free cell, spreads a window of segments or doubles the array: no segment is
  full or empty afterwards, so the assertions of the next insertion and search hold.\<close>

theorem seq_insert_correct:
  assumes "seq_inv s" and "length (seq_elems s) < 2 ^ 30"
  shows "\<exists>s' us vs. seq_insert s key v = Some s' \<and> seq_inv s' \<and> seq_elems s = us @ vs \<and> seq_elems s' = us @ (key, v) # vs
    \<and> sorted (map fst (seq_elems s')) \<and> seq_size s' = seq_size s + 1"
proof -
  have "length (m_segments s) < 2 ^ 43" using seq_segments_few[OF assms(1)] assms(2) by simp
  then obtain s' us vs where s': "seq_insert s key v = Some s'" "seq_inv s'" "seq_elems s = us @ vs" "seq_elems s' = us @ (key, v) # vs"
    by (rule seq_insert_ok[OF assms(1)])
  have "sorted (map fst (seq_elems s'))" using seq_inv_rows(1)[OF s'(2)] by (simp only: seq_elems_def)
  then show ?thesis using s' seq_inv_rows(4)[OF assms(1)] seq_inv_rows(4)[OF s'(2)] by auto
qed

theorem seq_insert_correct_witness:
  "\<exists>s s'. new_seq = Some s \<and> seq_insert s 5 50 = Some s' \<and> seq_inv s' \<and> seq_elems s' = [(5, 50)]"
proof -
  obtain s where "new_seq = Some s" "seq_inv s" "seq_elems s = []" using new_seq_ok by blast
  then show ?thesis using seq_insert_correct[of s 5 50] by auto
qed

text \<open>C21. The insertion loop of the experiments on a new array stores any batch of distinct keys: the iterator gives
  the pairs in key order and then ends, and a search finds every stored key and no other.\<close>

theorem seq_batch_insert:
  assumes "distinct (map fst ps)" and "length ps \<le> 2 ^ 30"
  shows "\<exists>s s' it. new_seq = Some s \<and> do_inserts seq_insert s ps = Some s' \<and> seq_size s' = length ps
    \<and> seq_take (length ps) (seq_iterator s') = Some (sort_key fst ps, it) \<and> \<not> seq_hasNext it
    \<and> (\<forall>k. seq_find s' k = Some (case map_of ps k of None \<Rightarrow> - 1 | Some v \<Rightarrow> v))"
proof -
  obtain s where s: "new_seq = Some s" "seq_inv s" "seq_elems s = []" using new_seq_ok by blast
  obtain s' where s': "do_inserts seq_insert s ps = Some s'" "seq_inv s'" "seq_elems s' = sort_key fst ps" "seq_size s' = length ps"
      "\<forall>k. the (seq_find s' k) = (case map_of ps k of None \<Rightarrow> - 1 | Some v \<Rightarrow> v)"
    using sequential.do_inserts_from_empty[OF s(2,3) assms(1) _ assms(2)] by blast
  have "seq_find s' k \<noteq> None" for k using seq_find_elems[OF s'(2), of k] by auto
  then have "seq_find s' k = Some (case map_of ps k of None \<Rightarrow> - 1 | Some v \<Rightarrow> v)" for k
    using s'(5) by (metis option.collapse)
  then show ?thesis using s(1) s'(1,3,4) seq_iterator_all[OF s'(2)] by auto
qed

text \<open>Eight keys: the last insertion makes four segments of two elements.\<close>

definition eight_pairs :: "(int \<times> int) list" where
  "eight_pairs = map (\<lambda>i. (10 * i, i)) [1..8]"

theorem seq_batch_insert_witness:
  "\<exists>s s'. new_seq = Some s \<and> do_inserts seq_insert s eight_pairs = Some s' \<and> seq_find s' 30 = Some 3 \<and> seq_find s' 35 = Some (- 1)"
proof -
  have "distinct (map fst eight_pairs)" "length eight_pairs \<le> 2 ^ 30" by (simp_all add: eight_pairs_def upto.simps)
  then obtain s s' where s: "new_seq = Some s" "do_inserts seq_insert s eight_pairs = Some s'"
      "\<forall>k. seq_find s' k = Some (case map_of eight_pairs k of None \<Rightarrow> - 1 | Some v \<Rightarrow> v)"
    using seq_batch_insert by blast
  have "seq_find s' 30 = Some 3" "seq_find s' 35 = Some (- 1)" unfolding s(3)[rule_format] by (simp_all add: eight_pairs_def upto.simps)
  then show ?thesis using s(1,2) by blast
qed

text \<open>The sum of a range that starts at a stored key has the count, the sums (in 64 bits) and the first key of the pairs in the
  range; the last key is theirs too when the range ends at a stored key.\<close>

theorem seq_sum_correct:
  assumes "seq_inv s" and "distinct (map fst (seq_elems s))" and "mn \<le> mx" and "mn \<in> fst ` set (seq_elems s)"
  shows "\<exists>r. seq_sum s mn mx = Some r \<and> r\<lparr>m_last_key := 0\<rparr> = (range_sum (in_range mn mx (seq_elems s)))\<lparr>m_last_key := 0\<rparr>
    \<and> (mx \<in> fst ` set (seq_elems s) \<longrightarrow> r = range_sum (in_range mn mx (seq_elems s)))"
  by (rule seq_sum_ok[OF assms])

theorem seq_sum_correct_witness:
  "\<exists>s s'. new_seq = Some s \<and> do_inserts seq_insert s eight_pairs = Some s' \<and>
    seq_sum s' 20 70 = Some \<lparr>m_first_key = 20, m_last_key = 70, m_num_elements = 6, m_sum_keys = 270, m_sum_values = 27\<rparr>"
proof -
  obtain s where s: "new_seq = Some s" "seq_inv s" "seq_elems s = []" using new_seq_ok by blast
  have "distinct (map fst eight_pairs)" "length eight_pairs \<le> 2 ^ 30" by (simp_all add: eight_pairs_def upto.simps)
  then obtain s' where s': "do_inserts seq_insert s eight_pairs = Some s'" "seq_inv s'" "seq_elems s' = sort_key fst eight_pairs"
    using sequential.do_inserts_from_empty[OF s(2,3)] by blast
  have e: "seq_elems s' = eight_pairs" unfolding s'(3) by (intro sort_key_id_if_sorted) (simp add: eight_pairs_def upto.simps)
  have "seq_sum s' 20 70 = Some \<lparr>m_first_key = 20, m_last_key = 70, m_num_elements = 6, m_sum_keys = 270, m_sum_values = 27\<rparr>"
    using seq_sum_correct[OF s'(2), of 20 70] unfolding e by (simp add: eight_pairs_def upto.simps in_range_def range_sum_def)
  then show ?thesis using s(1) s'(1) by blast
qed

text \<open>The array they make.\<close>

definition eight_cells :: "(int \<times> int) list" where
  "eight_cells = [(10, 1), (20, 2), (0, 0), (0, 0), (30, 3), (40, 4), (0, 0), (0, 0), (50, 5), (60, 6), (0, 0), (0, 0), (70, 7), (80, 8), (0, 0), (0, 0)]"

definition eight_array :: PMA_Impl4 where
  "eight_array = \<lparr>m_elements = eight_cells, m_capacity = 16, m_segments = [2, 2, 2, 2], m_segment_capacity = 4, m_height = 3, m_cardinality = 8\<rparr>"

definition one_segment :: "(int \<times> int) list \<Rightarrow> PMA_Impl4" where
  "one_segment xs = \<lparr>m_elements = xs @ replicate (8 - length xs) (0, 0), m_capacity = 8, m_segments = [length xs], m_segment_capacity = 8,
     m_height = 1, m_cardinality = length xs\<rparr>"

lemma insert_at_end:
  assumes "length xs < 7" "\<forall>x \<in> set xs. fst x \<le> key"
  shows "seq_insert (one_segment xs) key v = Some (one_segment (xs @ [(key, v)]))"
proof -
  have fs: "find_segment (one_segment xs) key = Some 0"
    by (simp add: find_segment_def one_segment_def get_num_segments_def search_segment.simps)
  have sg: "shift_greater (xs @ zs) 0 key (length xs) = (xs @ zs, length xs)" for zs
    using assms(2) by (cases xs rule: rev_cases) auto
  have "(xs @ replicate (8 - length xs) (0, 0))[length xs := (key, v)] = (xs @ [(key, v)]) @ replicate (8 - length (xs @ [(key, v)])) (0, 0)"
  proof -
    have "8 - length xs = Suc (7 - length xs)" using assms(1) by simp
    then show ?thesis by (simp add: list_update_append)
  qed
  then show ?thesis using fs sg assms(1) by (simp add: seq_insert_def one_segment_def)
qed

lemma eight_array_run: "\<exists>s. new_seq = Some s \<and> do_inserts seq_insert s eight_pairs = Some eight_array"
proof -
  have b: "bit_len 7 = 3" by (simp add: bit_len.simps)
  have "new_seq = Some (one_segment [])" by (simp add: new_seq_def initialize_def min_capacity_def seq_hyperceil_def b one_segment_def)
  moreover have "seq_insert (one_segment (butlast eight_pairs)) 80 8 = Some eight_array" by code_simp
  then have "do_inserts seq_insert (one_segment []) eight_pairs = Some eight_array"
    by (simp add: eight_pairs_def upto.simps insert_at_end)
  ultimately show ?thesis by blast
qed

text \<open>A range that starts in the gap between two segments: the search for its start ends at the segment before
  the gap, the sum finds no element there and returns the empty result, although six elements are in the range. A
  range that ends in such a gap reports the last key of the first segment, 20 in place of 40.\<close>

theorem seq_sum_gap:
  "\<exists>s s'. new_seq = Some s \<and> do_inserts seq_insert s eight_pairs = Some s'
    \<and> seq_sum s' 25 80 = Some empty_sum \<and> length (in_range 25 80 (seq_elems s')) = 6
    \<and> map_option m_last_key (seq_sum s' 10 45) = Some 20 \<and> map_option m_num_elements (seq_sum s' 10 45) = Some 4"
proof -
  have "seq_sum eight_array 25 80 = Some empty_sum" by code_simp
  moreover have "length (in_range 25 80 (seq_elems eight_array)) = 6" by code_simp
  moreover have "map_option m_last_key (seq_sum eight_array 10 45) = Some 20 \<and> map_option m_num_elements (seq_sum eight_array 10 45) = Some 4" by code_simp
  ultimately show ?thesis using eight_array_run by blast
qed

end
