(* ===== verification/Random_Permutation.thy ===== *)
theory Random_Permutation
  imports Prelude "HOL-Library.Monad_Syntax" "HOL-Library.Word"
begin

unbundle bit_operations_syntax

text \<open>
  The keys of the experiments: the arrays of integers of a few bytes (\<open>distribution/cbytearray.cpp\<close>), the views
  of them (\<open>distribution/cbyteview.cpp\<close>) and the random permutations (\<open>distribution/random_permutation.cpp\<close>).

  A generator is a state of a type \<open>'g\<close>; \<open>draw g a b\<close> is what \<open>uniform_int_distribution{a, b}(g)\<close> returns, and
  the next state. The tasks of the parallel permutation write to memory of their own only, so they run one after
  the other here. A byte of fresh memory is the parameter \<open>junk\<close>. \<open>None\<close> is a failed assertion, an exception, an
  access out of bounds or a division by zero; \<open>log2\<close> is taken as exact, while the one of the code is a double,
  which differs for counts past \<open>2 ^ 48\<close> only, of arrays larger than any memory.
\<close>

section \<open>Byte arrays\<close>

record CByteArray =
  m_bytes_per_element :: nat
  m_capacity :: nat
  m_array :: "8 word list"

text \<open>\<open>ceil (ceil (log2 (value)) / 8)\<close>\<close>

definition bytes_for :: "nat \<Rightarrow> nat" where
  "bytes_for value = (bit_len (value - 1) + 7) div 8"

definition new_cbyte_array :: "8 word \<Rightarrow> nat \<Rightarrow> nat \<Rightarrow> CByteArray option" where
  "new_cbyte_array junk bytes_per_element capacity =
     (if bytes_per_element = 0 \<or> 8 < bytes_per_element then None
      else Some \<lparr>m_bytes_per_element = bytes_per_element, m_capacity = capacity, m_array = replicate (bytes_per_element * capacity) junk\<rparr>)"

definition new_cbyte_array_for :: "8 word \<Rightarrow> nat \<Rightarrow> CByteArray option" where
  "new_cbyte_array_for junk capacity = (if capacity = 0 then None else new_cbyte_array junk (bytes_for capacity) capacity)"

text \<open>The union of an integer and its bytes, the least significant one first.\<close>

fun le_value :: "8 word list \<Rightarrow> 64 word" where
  "le_value [] = 0"
| "le_value (b # bs) = ucast b OR push_bit 8 (le_value bs)"

definition le_byte :: "64 word \<Rightarrow> nat \<Rightarrow> 8 word" where
  "le_byte v i = ucast (drop_bit (8 * i) v)"

definition get_value_at :: "CByteArray \<Rightarrow> nat \<Rightarrow> 64 word option" where
  "get_value_at a index =
     (let n = m_bytes_per_element a; base = index * n
      in if base + n \<le> length (m_array a) then Some (le_value (take n (drop base (m_array a)))) else None)"

definition set_value_at :: "CByteArray \<Rightarrow> nat \<Rightarrow> 64 word \<Rightarrow> CByteArray option" where
  "set_value_at a index value =
     (let n = m_bytes_per_element a; base = index * n
      in if base + n \<le> length (m_array a)
         then Some (a\<lparr>m_array := fold (\<lambda>i A. A[base + i := le_byte value i]) [0..<n] (m_array a)\<rparr>) else None)"

text \<open>\<open>swap\<close> of two references.\<close>

definition swap_values :: "CByteArray \<Rightarrow> nat \<Rightarrow> nat \<Rightarrow> CByteArray option" where
  "swap_values a i j = do {
     tmp \<leftarrow> get_value_at a i;
     y \<leftarrow> get_value_at a j;
     a \<leftarrow> set_value_at a i y;
     set_value_at a j tmp }"

fun set_values :: "CByteArray \<Rightarrow> nat \<Rightarrow> 64 word list \<Rightarrow> CByteArray option" where
  "set_values a index [] = Some a"
| "set_values a index (v # vs) = do { a \<leftarrow> set_value_at a index v; set_values a (index + 1) vs }"

text \<open>\<open>std::sort\<close> of the elements in \<open>[start, end)\<close> as signed integers.\<close>

definition cbyte_sort :: "CByteArray \<Rightarrow> nat \<Rightarrow> nat \<Rightarrow> CByteArray option" where
  "cbyte_sort a start end' =
     (if \<not> start < m_capacity a then None
      else do {
        vs \<leftarrow> those (map (get_value_at a) [start..<min end' (m_capacity a)]);
        set_values a start (sort_key sint vs) })"

text \<open>The arrays that are not null: their capacity and the bytes of an element, which have to agree.\<close>

fun merge_widths :: "CByteArray option list \<Rightarrow> nat \<Rightarrow> nat \<Rightarrow> (nat \<times> nat) option" where
  "merge_widths [] capacity bytes_per_element = Some (capacity, bytes_per_element)"
| "merge_widths (None # as) capacity bytes_per_element = merge_widths as capacity bytes_per_element"
| "merge_widths (Some a # as) capacity bytes_per_element =
     (if bytes_per_element = 0 \<or> bytes_per_element = m_bytes_per_element a
      then merge_widths as (capacity + m_capacity a) (m_bytes_per_element a) else None)"

fun merge_bytes :: "nat \<Rightarrow> CByteArray option list \<Rightarrow> 8 word list" where
  "merge_bytes bytes_per_element [] = []"
| "merge_bytes bytes_per_element (None # as) = merge_bytes bytes_per_element as"
| "merge_bytes bytes_per_element (Some a # as) = take (bytes_per_element * m_capacity a) (m_array a) @ merge_bytes bytes_per_element as"

definition cbyte_merge :: "8 word \<Rightarrow> CByteArray option list \<Rightarrow> CByteArray option" where
  "cbyte_merge junk arrays = do {
     (capacity, bytes_per_element) \<leftarrow> merge_widths arrays 0 0;
     bytes_per_element \<leftarrow> (if bytes_per_element = 0 then if capacity = 0 then Some 1 else None else Some bytes_per_element);
     result \<leftarrow> new_cbyte_array junk bytes_per_element capacity;
     let bytes = merge_bytes bytes_per_element arrays;
     Some (result\<lparr>m_array := bytes @ drop (length bytes) (m_array result)\<rparr>) }"

section \<open>Views\<close>

record CByteView =
  v_container :: CByteArray
  v_begin :: nat
  v_end :: nat

definition new_view :: "CByteArray \<Rightarrow> CByteView" where
  "new_view a = \<lparr>v_container = a, v_begin = 0, v_end = m_capacity a\<rparr>"

definition view_size :: "CByteView \<Rightarrow> nat" where
  "view_size w = v_end w - v_begin w"

definition view_key :: "CByteView \<Rightarrow> nat \<Rightarrow> int option" where
  "view_key w index = (if index < view_size w then map_option (\<lambda>v. sint v + 1) (get_value_at (v_container w) (v_begin w + index)) else None)"

definition view_get :: "CByteView \<Rightarrow> nat \<Rightarrow> (int \<times> int) option" where
  "view_get w index = map_option (\<lambda>k. (k, k * 10)) (view_key w index)"

definition view_sort :: "CByteView \<Rightarrow> CByteView option" where
  "view_sort w = map_option (\<lambda>a. w\<lparr>v_container := a\<rparr>) (cbyte_sort (v_container w) (v_begin w) (v_end w))"

definition view_view :: "CByteView \<Rightarrow> nat \<Rightarrow> nat \<Rightarrow> CByteView option" where
  "view_view w start len =
     (let start = start + v_begin w; end' = start + len
      in if m_capacity (v_container w) \<le> start \<or> m_capacity (v_container w) < end' then None
         else Some \<lparr>v_container = v_container w, v_begin = start, v_end = end'\<rparr>)"

section \<open>Permutations\<close>

text \<open>\<open>RandomPermutationLegacy\<close>: the pairs themselves, from the position \<open>i\<close> on.\<close>

fun legacy_loop :: "('g \<Rightarrow> nat \<Rightarrow> nat \<Rightarrow> nat \<times> 'g) \<Rightarrow> 'g \<Rightarrow> nat \<Rightarrow> nat \<Rightarrow> (int \<times> int) list \<Rightarrow> (int \<times> int) list" where
  "legacy_loop draw g i 0 A = A"
| "legacy_loop draw g i (Suc n) A =
     (let (j, g) = draw g 0 (i - 1); A = A[i := A ! j] in legacy_loop draw g (i + 1) n (A[j := (int (i + 1), int (i + 1) * 10)]))"

definition legacy_permutation :: "('g \<Rightarrow> nat \<Rightarrow> nat \<Rightarrow> nat \<times> 'g) \<Rightarrow> (nat \<Rightarrow> 'g) \<Rightarrow> nat \<Rightarrow> nat \<Rightarrow> (int \<times> int) list option" where
  "legacy_permutation draw seeded seed sz =
     (if sz = 0 then None else Some (legacy_loop draw (seeded seed) 1 (sz - 1) ((replicate sz (0, 0))[0 := (1, 10)])))"

text \<open>\<open>RandomPermutationCompressed\<close>: the indices, in a byte array.\<close>

definition permutation_bytes :: "nat \<Rightarrow> nat" where
  "permutation_bytes sz = max (bytes_for sz) 1"

fun compressed_loop :: "('g \<Rightarrow> nat \<Rightarrow> nat \<Rightarrow> nat \<times> 'g) \<Rightarrow> 'g \<Rightarrow> nat \<Rightarrow> nat \<Rightarrow> CByteArray \<Rightarrow> CByteArray option" where
  "compressed_loop draw g i 0 a = Some a"
| "compressed_loop draw g i (Suc n) a = do {
     let (j, g) = draw g 0 (i - 1);
     v \<leftarrow> get_value_at a j;
     a \<leftarrow> set_value_at a i v;
     a \<leftarrow> set_value_at a j (of_nat i);
     compressed_loop draw g (i + 1) n a }"

definition do_permutation :: "('g \<Rightarrow> nat \<Rightarrow> nat \<Rightarrow> nat \<times> 'g) \<Rightarrow> (nat \<Rightarrow> 'g) \<Rightarrow> nat \<Rightarrow> CByteArray \<Rightarrow> CByteArray option" where
  "do_permutation draw seeded seed a = do {
     a \<leftarrow> set_value_at a 0 0;
     compressed_loop draw (seeded seed) 1 (m_capacity a - 1) a }"

definition compressed_permutation :: "8 word \<Rightarrow> ('g \<Rightarrow> nat \<Rightarrow> nat \<Rightarrow> nat \<times> 'g) \<Rightarrow> (nat \<Rightarrow> 'g) \<Rightarrow> nat \<Rightarrow> nat \<Rightarrow> CByteArray option" where
  "compressed_permutation junk draw seeded seed sz = do {
     a \<leftarrow> new_cbyte_array junk (permutation_bytes sz) sz;
     do_permutation draw seeded seed a }"

text \<open>\<open>get\<close> of the compressed and the parallel permutation.\<close>

definition permutation_get :: "CByteArray \<Rightarrow> nat \<Rightarrow> (int \<times> int) option" where
  "permutation_get a index =
     (if m_capacity a < index then None else map_option (\<lambda>v. let key = sint v + 1 in (key, key * 10)) (get_value_at a index))"

section \<open>The parallel permutation\<close>

text \<open>\<open>create_partition\<close>: the elements of a range, each in the store of a random bucket.\<close>

fun create_partition :: "('g \<Rightarrow> nat \<Rightarrow> nat \<Rightarrow> nat \<times> 'g) \<Rightarrow> nat \<Rightarrow> 'g \<Rightarrow> nat list \<Rightarrow> nat list list \<Rightarrow> nat list list \<times> 'g" where
  "create_partition draw no_buckets g [] stores = (stores, g)"
| "create_partition draw no_buckets g (i # is) stores =
     (let (t, g) = draw g 0 (no_buckets - 1) in create_partition draw no_buckets g is (stores[t := stores ! t @ [i]]))"

text \<open>The ranges of the buckets: the first \<open>range_mod\<close> of them have one more element.\<close>

fun bucket_ranges :: "nat \<Rightarrow> nat \<Rightarrow> nat \<Rightarrow> nat \<Rightarrow> nat \<Rightarrow> (nat \<times> nat) list" where
  "bucket_ranges range_step range_mod i range_start 0 = []"
| "bucket_ranges range_step range_mod i range_start (Suc n) =
     (let range_end = range_start + range_step + (if i < range_mod then 1 else 0)
      in (range_start, range_end) # bucket_ranges range_step range_mod (i + 1) range_end n)"

text \<open>\<open>local_permutation\<close>: the swaps from the position \<open>i\<close> on.\<close>

fun local_swaps :: "('g \<Rightarrow> nat \<Rightarrow> nat \<Rightarrow> nat \<times> 'g) \<Rightarrow> 'g \<Rightarrow> nat \<Rightarrow> nat \<Rightarrow> CByteArray \<Rightarrow> CByteArray option" where
  "local_swaps draw g i 0 a = Some a"
| "local_swaps draw g i (Suc n) a = do {
     let (j, g) = draw g i (m_capacity a - 1);
     a \<leftarrow> swap_values a i j;
     local_swaps draw g (i + 1) n a }"

definition local_permutation :: "8 word \<Rightarrow> ('g \<Rightarrow> nat \<Rightarrow> nat \<Rightarrow> nat \<times> 'g) \<Rightarrow> nat \<Rightarrow> 'g \<Rightarrow> nat list list \<Rightarrow> CByteArray option" where
  "local_permutation junk draw bytes_per_element g chunks = do {
     let values = concat chunks;
     let capacity = length values;
     a \<leftarrow> new_cbyte_array junk bytes_per_element capacity;
     a \<leftarrow> set_values a 0 (map of_nat values);
     if 2 \<le> capacity then local_swaps draw g 0 (capacity - 2) a else Some a }"

text \<open>The generator of a bucket is seeded with the sum of the seed it is given, \<open>seed + i\<close>, and its number.\<close>

definition parallel_permutation :: "8 word \<Rightarrow> ('g \<Rightarrow> nat \<Rightarrow> nat \<Rightarrow> nat \<times> 'g) \<Rightarrow> (nat \<Rightarrow> 'g) \<Rightarrow> nat \<Rightarrow> nat \<Rightarrow> nat \<Rightarrow> CByteArray option" where
  "parallel_permutation junk draw seeded sz no_buckets seed =
     (let no_buckets = min no_buckets sz
      in if no_buckets = 0 then None
      else do {
        let ranges = bucket_ranges (sz div no_buckets) (sz mod no_buckets) 0 0 no_buckets;
        let parts = map (\<lambda>b. create_partition draw no_buckets (seeded ((seed + b + b) mod 2 ^ 64))
              [fst (ranges ! b)..<snd (ranges ! b)] (replicate no_buckets [])) [0..<no_buckets];
        partitions \<leftarrow> those (map (\<lambda>b. local_permutation junk draw (permutation_bytes sz) (snd (parts ! b))
              (map (\<lambda>c. fst (parts ! c) ! b) [0..<no_buckets])) [0..<no_buckets]);
        cbyte_merge junk (map Some partitions) })"

text \<open>\<open>RandomPermutationParallel::get_view (start, length)\<close>\<close>

definition permutation_view :: "CByteArray \<Rightarrow> nat \<Rightarrow> nat \<Rightarrow> CByteView option" where
  "permutation_view a start len =
     (if m_capacity a < start + len then None else Some \<lparr>v_container = a, v_begin = start, v_end = start + len\<rparr>)"

end
