(* ===== verification/Random_Permutation_Properties.thy ===== *)
theory Random_Permutation_Properties
  imports Random_Permutation "HOL-Library.Multiset"
begin

text \<open>
  The byte arrays as lists of integers (\<open>cb_list\<close>), and the permutations: whatever the generator draws, the
  elements are those of the range, each of them once.
\<close>

section \<open>Bytes\<close>

lemma le_value_bytes: "le_value (map (le_byte v) [0..<n]) = take_bit (8 * n) v"
proof -
  have "le_value (map (le_byte v) [i..<i + n]) = take_bit (8 * n) (drop_bit (8 * i) v)" for i
  proof (induction n arbitrary: i)
    case (Suc n)
    have "[i..<i + Suc n] = i # [Suc i..<Suc i + n]" by (simp add: upt_conv_Cons)
    then have "le_value (map (le_byte v) [i..<i + Suc n]) = ucast (le_byte v i) OR push_bit 8 (le_value (map (le_byte v) [Suc i..<Suc i + n]))"
      by (simp only: list.map le_value.simps)
    also have "\<dots> = ucast (ucast (drop_bit (8 * i) v) :: 8 word) OR push_bit 8 (take_bit (8 * n) (drop_bit (8 * Suc i) v))"
      by (simp only: Suc le_byte_def)
    also have "\<dots> = take_bit (8 * Suc n) (drop_bit (8 * i) v)"
      by (rule bit_word_eqI) (auto simp: bit_simps add.commute add.left_commute)
    finally show ?case .
  qed simp
  from this[of 0] show ?thesis by simp
qed

definition cb_ok :: "CByteArray \<Rightarrow> bool" where
  "cb_ok a \<longleftrightarrow> 0 < m_bytes_per_element a \<and> m_bytes_per_element a \<le> 8 \<and> length (m_array a) = m_bytes_per_element a * m_capacity a"

definition cb_value :: "CByteArray \<Rightarrow> nat \<Rightarrow> 64 word" where
  "cb_value a i = le_value (take (m_bytes_per_element a) (drop (i * m_bytes_per_element a) (m_array a)))"

definition cb_list :: "CByteArray \<Rightarrow> 64 word list" where
  "cb_list a = map (cb_value a) [0..<m_capacity a]"

lemma cb_fits: "cb_ok a \<Longrightarrow> i < m_capacity a \<Longrightarrow> i * m_bytes_per_element a + m_bytes_per_element a \<le> length (m_array a)"
proof -
  assume a: "cb_ok a" "i < m_capacity a"
  then have "(i + 1) * m_bytes_per_element a \<le> m_capacity a * m_bytes_per_element a" by (intro mult_le_mono1) simp
  then show ?thesis using a(1) by (simp add: cb_ok_def mult.commute)
qed

lemma get_value: "cb_ok a \<Longrightarrow> i < m_capacity a \<Longrightarrow> get_value_at a i = Some (cb_list a ! i)"
  using cb_fits[of a i] by (simp add: get_value_at_def cb_value_def cb_list_def Let_def)

lemma fold_bytes_nth:
  "base + n \<le> length A \<Longrightarrow> fold (\<lambda>i A. A[base + i := f i]) [0..<n] A = take base A @ map f [0..<n] @ drop (base + n) A"
proof (induction n)
  case (Suc n)
  then have "fold (\<lambda>i A. A[base + i := f i]) [0..<n] A = take base A @ map f [0..<n] @ drop (base + n) A" by simp
  then show ?case using Suc.prems by (simp add: list_update_append Cons_nth_drop_Suc[symmetric, of "base + n"])
qed simp

text \<open>The integers an array can hold.\<close>

definition fits :: "nat \<Rightarrow> 64 word \<Rightarrow> bool" where
  "fits n v \<longleftrightarrow> take_bit (8 * n) v = v"

lemma set_value_truncated:
  assumes ok: "cb_ok a" and i: "i < m_capacity a"
  obtains a' where "set_value_at a i v = Some a'" and "cb_ok a'" and "cb_list a' = (cb_list a)[i := take_bit (8 * m_bytes_per_element a) v]"
    and "m_capacity a' = m_capacity a" "m_bytes_per_element a' = m_bytes_per_element a"
proof -
  let ?n = "m_bytes_per_element a"
  let ?b = "i * ?n"
  let ?A = "take ?b (m_array a) @ map (le_byte v) [0..<?n] @ drop (?b + ?n) (m_array a)"
  let ?a = "a\<lparr>m_array := ?A\<rparr>"
  note f = cb_fits[OF ok i]
  have s: "set_value_at a i v = Some ?a" using f fold_bytes_nth[OF f] by (simp add: set_value_at_def Let_def)
  have "length ?A = length (m_array a)" using f by simp
  then have ok': "cb_ok ?a" using ok by (simp add: cb_ok_def)
  have "cb_value ?a j = (if j = i then take_bit (8 * ?n) v else cb_value a j)" if j: "j < m_capacity a" for j
  proof -
    consider "j = i" | "j < i" | "i < j" by linarith
    then show ?thesis
    proof cases
      case 1
      then show ?thesis using f le_value_bytes[of v ?n] by (simp add: cb_value_def)
    next
      case 2
      then have "(j + 1) * ?n \<le> i * ?n" by (intro mult_le_mono1) simp
      then have "j * ?n + ?n \<le> ?b" by simp
      then have "take ?n (drop (j * ?n) ?A) = take ?n (drop (j * ?n) (m_array a))" using f by (simp add: take_drop)
      then show ?thesis using 2 by (simp add: cb_value_def)
    next
      case 3
      then have "(i + 1) * ?n \<le> j * ?n" by (intro mult_le_mono1) simp
      then have "?b + ?n \<le> j * ?n" by simp
      then have "?b - j * ?n = 0" "drop (j * ?n) (take ?b (m_array a)) = []" using f 3 by simp_all
      then have "take ?n (drop (j * ?n) ?A) = take ?n (drop (j * ?n) (m_array a))"
        using f \<open>?b + ?n \<le> j * ?n\<close> by (simp add: min_def)
      then show ?thesis using 3 by (simp add: cb_value_def)
    qed
  qed
  then have "cb_list ?a = (cb_list a)[i := take_bit (8 * ?n) v]" by (intro nth_equalityI) (auto simp: cb_list_def nth_list_update)
  then show ?thesis using that[OF s ok'] by simp
qed

lemma set_value:
  assumes ok: "cb_ok a" and i: "i < m_capacity a" and v: "fits (m_bytes_per_element a) v"
  obtains a' where "set_value_at a i v = Some a'" and "cb_ok a'" and "cb_list a' = (cb_list a)[i := v]"
    and "m_capacity a' = m_capacity a" "m_bytes_per_element a' = m_bytes_per_element a"
  by (rule set_value_truncated[OF ok i, of v]) (use that v in \<open>simp add: fits_def\<close>)

lemma length_cb_list [simp]: "length (cb_list a) = m_capacity a"
  by (simp add: cb_list_def)

text \<open>What is kept by the operations on the elements.\<close>

definition same_shape :: "CByteArray \<Rightarrow> CByteArray \<Rightarrow> bool" where
  "same_shape a a' \<longleftrightarrow> cb_ok a' \<and> m_capacity a' = m_capacity a \<and> m_bytes_per_element a' = m_bytes_per_element a"

definition all_fit :: "CByteArray \<Rightarrow> bool" where
  "all_fit a \<longleftrightarrow> (\<forall>v \<in> set (cb_list a). fits (m_bytes_per_element a) v)"

lemma set_value_step:
  assumes "cb_ok a" "i < m_capacity a" "fits (m_bytes_per_element a) v"
  shows "\<exists>a'. set_value_at a i v = Some a' \<and> same_shape a a' \<and> cb_list a' = (cb_list a)[i := v]"
  using set_value[OF assms] by (auto simp: same_shape_def)

lemma swap_values_ok:
  assumes ok: "cb_ok a" and fit: "all_fit a" and i: "i < m_capacity a" "j < m_capacity a"
  shows "\<exists>a'. swap_values a i j = Some a' \<and> same_shape a a' \<and> cb_list a' = (cb_list a)[i := cb_list a ! j, j := cb_list a ! i]"
proof -
  have v: "fits (m_bytes_per_element a) (cb_list a ! j)" "fits (m_bytes_per_element a) (cb_list a ! i)" using fit i by (simp_all add: all_fit_def)
  obtain a1 where a1: "set_value_at a i (cb_list a ! j) = Some a1" "cb_ok a1" "cb_list a1 = (cb_list a)[i := cb_list a ! j]"
      "m_capacity a1 = m_capacity a" "m_bytes_per_element a1 = m_bytes_per_element a"
    by (rule set_value[OF ok i(1) v(1)])
  have "j < m_capacity a1" "fits (m_bytes_per_element a1) (cb_list a ! i)" using a1(4,5) i v by simp_all
  from set_value[OF a1(2) this] obtain a2 where a2: "set_value_at a1 j (cb_list a ! i) = Some a2" "cb_ok a2"
      "cb_list a2 = (cb_list a1)[j := cb_list a ! i]" "m_capacity a2 = m_capacity a1" "m_bytes_per_element a2 = m_bytes_per_element a1" by blast
  then show ?thesis using a1 get_value[OF ok] i by (simp add: swap_values_def same_shape_def)
qed

lemma set_values_ok:
  "cb_ok a \<Longrightarrow> i + length vs = m_capacity a \<Longrightarrow> \<forall>v \<in> set vs. fits (m_bytes_per_element a) v \<Longrightarrow>
    \<exists>a'. set_values a i vs = Some a' \<and> same_shape a a' \<and> cb_list a' = take i (cb_list a) @ vs"
proof (induction vs arbitrary: a i)
  case Nil
  then show ?case by (simp add: same_shape_def)
next
  case (Cons v vs)
  obtain a1 where a1: "set_value_at a i v = Some a1" "cb_ok a1" "cb_list a1 = (cb_list a)[i := v]"
      "m_capacity a1 = m_capacity a" "m_bytes_per_element a1 = m_bytes_per_element a"
    by (rule set_value[OF Cons.prems(1), of i v]) (use Cons.prems in simp_all)
  obtain a2 where "set_values a1 (i + 1) vs = Some a2" "same_shape a1 a2" "cb_list a2 = take (i + 1) (cb_list a1) @ vs"
    using Cons.IH[OF a1(2), of "i + 1"] Cons.prems a1(4,5) by auto
  moreover have "take (i + 1) (cb_list a1) = take i (cb_list a) @ [v]" using a1(3) Cons.prems(2) by (simp add: take_Suc_conv_app_nth)
  ultimately show ?case using a1 by (simp add: same_shape_def)
qed

lemma new_array_ok: "0 < n \<Longrightarrow> n \<le> 8 \<Longrightarrow> \<exists>a. new_cbyte_array junk n c = Some a \<and> cb_ok a \<and> m_capacity a = c \<and> m_bytes_per_element a = n"
  by (simp add: new_cbyte_array_def cb_ok_def)

section \<open>The permutations of one array\<close>

text \<open>A generator that draws from the interval it is asked for.\<close>

definition valid_draw :: "('g \<Rightarrow> nat \<Rightarrow> nat \<Rightarrow> nat \<times> 'g) \<Rightarrow> bool" where
  "valid_draw draw \<longleftrightarrow> (\<forall>g a b. a \<le> b \<longrightarrow> a \<le> fst (draw g a b) \<and> fst (draw g a b) \<le> b)"

text \<open>The pair of a key.\<close>

definition as_pair :: "64 word \<Rightarrow> int \<times> int" where
  "as_pair v = (sint v + 1, (sint v + 1) * 10)"

lemma fits_of_nat: "k < 2 ^ (8 * n) \<Longrightarrow> fits n (of_nat k)"
  by (simp add: fits_def take_bit_of_nat take_bit_nat_eq_self)

lemma as_pair_of_nat: "k < 2 ^ 63 \<Longrightarrow> as_pair (of_nat k) = (int k + 1, (int k + 1) * 10)"
  by (simp add: as_pair_def signed_of_nat signed_take_bit_int_eq_self)

lemma permutation_bytes_ok:
  assumes "sz \<le> 2 ^ 63"
  shows "0 < permutation_bytes sz" "permutation_bytes sz \<le> 8" "sz \<le> 2 ^ (8 * permutation_bytes sz)"
proof -
  let ?b = "bit_len (sz - 1)"
  show "0 < permutation_bytes sz" by (simp add: permutation_bytes_def)
  have "sz - 1 < 2 ^ 63" using assms by (cases sz) auto
  then have "?b \<le> 63" by (rule bit_len_le)
  then show "permutation_bytes sz \<le> 8" by (simp add: permutation_bytes_def bytes_for_def)
  have "?b \<le> 8 * permutation_bytes sz" by (simp add: permutation_bytes_def bytes_for_def)
  then have "(2::nat) ^ ?b \<le> 2 ^ (8 * permutation_bytes sz)" by (intro power_increasing) simp_all
  then show "sz \<le> 2 ^ (8 * permutation_bytes sz)" using bit_len_upper[of "sz - 1"] by linarith
qed

lemma mset_take_step:
  assumes "j < i" "i < length L"
  shows "mset (take (Suc i) (L[i := L ! j, j := x])) = add_mset x (mset (take i L))"
proof -
  have "take (Suc i) (L[i := L ! j, j := x]) = (take i L)[j := x] @ [L ! j]"
    using assms by (intro nth_equalityI) (auto simp: nth_append nth_list_update less_Suc_eq)
  then have "mset (take (Suc i) (L[i := L ! j, j := x])) = add_mset (L ! j) (mset ((take i L)[j := x]))" by simp
  also have "\<dots> = add_mset x (mset (take i L))"
    using assms by (simp add: mset_update) (metis add_mset_commute insert_DiffM length_take min.absorb2 less_imp_le nth_mem nth_take set_mset_mset)
  finally show ?thesis .
qed

lemma compressed_loop_ok:
  assumes draw: "valid_draw draw"
  shows "cb_ok a \<Longrightarrow> 0 < i \<Longrightarrow> i + n = m_capacity a \<Longrightarrow> m_capacity a \<le> 2 ^ (8 * m_bytes_per_element a) \<Longrightarrow> m_capacity a \<le> 2 ^ 63 \<Longrightarrow>
    mset (take i (cb_list a)) = mset (map of_nat [0..<i]) \<Longrightarrow> length A = m_capacity a \<Longrightarrow> \<forall>t<i. A ! t = as_pair (cb_list a ! t) \<Longrightarrow>
    \<exists>a'. compressed_loop draw g i n a = Some a' \<and> same_shape a a' \<and> mset (cb_list a') = mset (map of_nat [0..<m_capacity a])
      \<and> legacy_loop draw g i n A = map as_pair (cb_list a')"
proof (induction n arbitrary: a g i A)
  case 0
  have "A = map as_pair (cb_list a)" using 0 by (intro nth_equalityI) auto
  then show ?case using 0 by (simp add: same_shape_def)
next
  case (Suc n)
  obtain j g' where dr: "draw g 0 (i - 1) = (j, g')" by force
  have "fst (draw g 0 (i - 1)) \<le> i - 1" using draw by (simp add: valid_draw_def)
  then have j: "j < i" using dr Suc.prems(2) by simp
  have i: "i < m_capacity a" using Suc.prems(3) by simp
  let ?L = "cb_list a"
  have fit: "fits (m_bytes_per_element a) (of_nat k)" if "k < m_capacity a" for k using that Suc.prems(4) by (intro fits_of_nat) simp
  have "?L ! j \<in># mset (take i ?L)" using j i by (simp add: in_set_conv_nth) (metis nth_take)
  then obtain k where k: "k < i" "?L ! j = of_nat k" unfolding Suc.prems(6) by auto
  obtain a1 where a1: "set_value_at a i (?L ! j) = Some a1" "cb_ok a1" "cb_list a1 = ?L[i := ?L ! j]"
      "m_capacity a1 = m_capacity a" "m_bytes_per_element a1 = m_bytes_per_element a"
    by (rule set_value[OF Suc.prems(1) i, of "?L ! j"]) (use fit k i in simp_all)
  obtain a2 where a2: "set_value_at a1 j (of_nat i) = Some a2" "cb_ok a2" "cb_list a2 = (cb_list a1)[j := of_nat i]"
      "m_capacity a2 = m_capacity a" "m_bytes_per_element a2 = m_bytes_per_element a"
    by (rule set_value[OF a1(2), of j "of_nat i"]) (use fit a1 j i in simp_all)
  have L: "cb_list a2 = ?L[i := ?L ! j, j := of_nat i]" using a1(3) a2(3) by simp
  let ?A = "A[i := A ! j, j := (int (i + 1), int (i + 1) * 10)]"
  have "mset (take (i + 1) (cb_list a2)) = mset (map of_nat [0..<i + 1])"
    unfolding L using mset_take_step[OF j, of ?L "of_nat i"] i Suc.prems(6) by simp
  moreover have "as_pair (of_nat i) = (int (i + 1), int (i + 1) * 10)" using as_pair_of_nat[of i] i Suc.prems(5) by simp
  then have "\<forall>t<i + 1. ?A ! t = as_pair (cb_list a2 ! t)" unfolding L using Suc.prems(7,8) j i by (auto simp: nth_list_update less_Suc_eq)
  ultimately obtain a' where "compressed_loop draw g' (i + 1) n a2 = Some a'" "same_shape a2 a'"
      "mset (cb_list a') = mset (map of_nat [0..<m_capacity a])" "legacy_loop draw g' (i + 1) n ?A = map as_pair (cb_list a')"
    using Suc.IH[OF a2(2), of "i + 1" ?A g'] Suc.prems(3-5,7) a2(4,5) by auto
  moreover have "get_value_at a j = Some (?L ! j)" using get_value[OF Suc.prems(1), of j] j i by simp
  ultimately show ?case using dr a1(1) a2 by (simp add: same_shape_def)
qed

lemma compressed_permutation_ok:
  assumes "valid_draw draw" and "0 < sz" "sz \<le> 2 ^ 63"
  obtains a where "compressed_permutation junk draw seeded seed sz = Some a" and "cb_ok a" "m_capacity a = sz"
    and "mset (cb_list a) = mset (map of_nat [0..<sz])"
    and "legacy_permutation draw seeded seed sz = Some (map as_pair (cb_list a))"
proof -
  note b = permutation_bytes_ok[OF assms(3)]
  obtain a0 where a0: "new_cbyte_array junk (permutation_bytes sz) sz = Some a0" "cb_ok a0" "m_capacity a0 = sz" "m_bytes_per_element a0 = permutation_bytes sz"
    using new_array_ok[OF b(1,2)] by blast
  obtain a1 where a1: "set_value_at a0 0 0 = Some a1" "cb_ok a1" "cb_list a1 = (cb_list a0)[0 := 0]" "m_capacity a1 = sz" "m_bytes_per_element a1 = permutation_bytes sz"
    by (rule set_value[OF a0(2), of 0 0]) (use a0 assms(2) fits_of_nat[of 0] in simp_all)
  have c0: "cb_list a1 ! 0 = 0" using a1(3) a0(3) assms(2) by simp
  then have t: "take 1 (cb_list a1) = [0]" using a1(4) assms(2) by (simp add: take_Suc_conv_app_nth)
  have p0: "as_pair 0 = (1, 10)" using as_pair_of_nat[of 0] by simp
  obtain a where a: "compressed_loop draw (seeded seed) 1 (sz - 1) a1 = Some a" "same_shape a1 a" "mset (cb_list a) = mset (map of_nat [0..<sz])"
      "legacy_loop draw (seeded seed) 1 (sz - 1) ((replicate sz (0, 0))[0 := (1, 10)]) = map as_pair (cb_list a)"
    using compressed_loop_ok[OF assms(1) a1(2), of 1 "sz - 1" "(replicate sz (0, 0))[0 := (1, 10)]" "seeded seed"] a1(4,5) b(3) assms t c0 p0
    by auto
  show ?thesis
    by (rule that[of a]) (use a a0(1) a1 assms(2) in \<open>simp_all add: compressed_permutation_def do_permutation_def legacy_permutation_def same_shape_def\<close>)
qed

section \<open>The parallel permutation\<close>

lemma bucket_ranges_all:
  "concat (map (\<lambda>(x, y). [x..<y]) (bucket_ranges step md i s n)) = [s..<s + n * step + (min (i + n) md - min i md)]"
proof (induction n arbitrary: i s)
  case (Suc n)
  define e where "e = s + step + (if i < md then 1 else 0)"
  have len: "e + (n * step + (min (i + 1 + n) md - min (i + 1) md)) = s + Suc n * step + (min (i + Suc n) md - min i md)"
    by (auto simp: e_def min_def)
  have "bucket_ranges step md i s (Suc n) = (s, e) # bucket_ranges step md (i + 1) e n" by (simp add: e_def Let_def)
  moreover have "concat (map (\<lambda>(x, y). [x..<y]) (bucket_ranges step md (i + 1) e n)) = [e..<e + (n * step + (min (i + 1 + n) md - min (i + 1) md))]"
    using Suc[of "i + 1" e] by (simp only: add.assoc)
  moreover have "[s..<e] @ [e..<e + m] = [s..<e + m]" for m by (rule upt_add_eq_append[symmetric]) (simp add: e_def)
  ultimately show ?case unfolding len[symmetric] by (simp only: list.map concat.simps prod.case)
qed simp

lemma length_bucket_ranges: "length (bucket_ranges step md i s n) = n"
  by (induction n arbitrary: i s) (simp_all add: Let_def)

lemma create_partition_ok:
  assumes "valid_draw draw" and "0 < nb"
  shows "length stores = nb \<Longrightarrow> create_partition draw nb g xs stores = (stores', g') \<Longrightarrow>
    length stores' = nb \<and> mset (concat stores') = mset (concat stores) + mset xs"
proof (induction xs arbitrary: g stores)
  case (Cons i xs)
  obtain t g1 where dr: "draw g 0 (nb - 1) = (t, g1)" by force
  have "fst (draw g 0 (nb - 1)) \<le> nb - 1" using assms(1) by (simp add: valid_draw_def)
  then have t: "t < length stores" using dr Cons.prems(1) assms(2) by simp
  have "concat (stores[t := stores ! t @ [i]]) = concat (take t stores) @ (stores ! t @ [i]) @ concat (drop (Suc t) stores)"
    using t by (simp add: upd_conv_take_nth_drop)
  moreover have "concat stores = concat (take t stores) @ stores ! t @ concat (drop (Suc t) stores)"
    using t by (metis concat.simps(2) concat_append id_take_nth_drop)
  ultimately have "mset (concat (stores[t := stores ! t @ [i]])) = add_mset i (mset (concat stores))" by simp
  then show ?case using Cons.IH[of "stores[t := stores ! t @ [i]]" g1] Cons.prems dr by simp
qed simp

text \<open>The chunks of all buckets together are the ranges of all buckets together.\<close>

lemma mset_concat_map: "mset (concat (map f xs)) = (\<Sum>x\<leftarrow>xs. mset (f x))"
  by (induction xs) auto

lemma mset_concat_nth: "length ys = n \<Longrightarrow> mset (concat ys) = (\<Sum>t\<leftarrow>[0..<n]. mset (ys ! t))"
  using mset_concat_map[of "(!) ys" "[0..<n]"] by (metis map_nth)

lemma image_mset_sum_list: "image_mset h (\<Sum>x\<leftarrow>xs. f x) = (\<Sum>x\<leftarrow>xs. image_mset h (f x))"
  by (induction xs) auto

lemma mset_transpose:
  assumes "\<forall>b<n. length (S b) = n"
  shows "mset (concat (map (\<lambda>t. concat (map (\<lambda>b. S b ! t) [0..<n])) [0..<n])) = mset (concat (map (\<lambda>b. concat (S b)) [0..<n]))"
proof -
  have "mset (concat (map (\<lambda>t. concat (map (\<lambda>b. S b ! t) [0..<n])) [0..<n])) = (\<Sum>t\<leftarrow>[0..<n]. \<Sum>b\<leftarrow>[0..<n]. mset (S b ! t))"
    by (simp only: mset_concat_map)
  also have "\<dots> = (\<Sum>b\<leftarrow>[0..<n]. \<Sum>t\<leftarrow>[0..<n]. mset (S b ! t))"
    unfolding interv_sum_list_conv_sum_set_nat by (rule sum.swap)
  also have "(\<Sum>t\<leftarrow>[0..<n]. mset (S b ! t)) = mset (concat (S b))" if "b < n" for b
    using mset_concat_nth[of "S b" n] assms that by simp
  then have "(\<Sum>b\<leftarrow>[0..<n]. \<Sum>t\<leftarrow>[0..<n]. mset (S b ! t)) = (\<Sum>b\<leftarrow>[0..<n]. mset (concat (S b)))"
    by (intro arg_cong[of _ _ sum_list] map_cong) auto
  finally show ?thesis by (simp only: mset_concat_map)
qed

lemma local_swaps_ok:
  assumes "valid_draw draw"
  shows "cb_ok a \<Longrightarrow> all_fit a \<Longrightarrow> i + n < m_capacity a \<Longrightarrow>
    \<exists>a'. local_swaps draw g i n a = Some a' \<and> same_shape a a' \<and> mset (cb_list a') = mset (cb_list a)"
proof (induction n arbitrary: a g i)
  case 0
  then show ?case by (simp add: same_shape_def)
next
  case (Suc n)
  obtain j g' where dr: "draw g i (m_capacity a - 1) = (j, g')" by force
  have "fst (draw g i (m_capacity a - 1)) \<le> m_capacity a - 1" using assms Suc.prems(3) by (simp add: valid_draw_def)
  then have ij: "i < m_capacity a" "j < m_capacity a" using dr Suc.prems(3) by simp_all
  obtain a1 where a1: "swap_values a i j = Some a1" "same_shape a a1" "cb_list a1 = (cb_list a)[i := cb_list a ! j, j := cb_list a ! i]"
    using swap_values_ok[OF Suc.prems(1,2) ij] by blast
  have ms: "mset (cb_list a1) = mset (cb_list a)" unfolding a1(3) by (rule mset_swap) (use ij in simp_all)
  then have "all_fit a1" using Suc.prems(2) a1(2) by (simp add: all_fit_def same_shape_def flip: set_mset_mset)
  then obtain a2 where "local_swaps draw g' (i + 1) n a1 = Some a2" "same_shape a1 a2" "mset (cb_list a2) = mset (cb_list a1)"
    using Suc.IH[of a1 "i + 1" g'] a1(2) Suc.prems(3) by (auto simp: same_shape_def)
  then show ?case using dr a1(1,2) ms by (simp add: same_shape_def)
qed

lemma local_permutation_ok:
  assumes draw: "valid_draw draw" and n: "0 < n" "n \<le> 8" and small: "\<forall>k \<in> set (concat chunks). k < 2 ^ (8 * n)"
  shows "\<exists>a. local_permutation junk draw n g chunks = Some a \<and> cb_ok a \<and> m_bytes_per_element a = n \<and> m_capacity a = length (concat chunks)
    \<and> mset (cb_list a) = mset (map of_nat (concat chunks))"
proof -
  let ?vs = "concat chunks"
  obtain a0 where a0: "new_cbyte_array junk n (length ?vs) = Some a0" "cb_ok a0" "m_capacity a0 = length ?vs" "m_bytes_per_element a0 = n"
    using new_array_ok[OF n] by blast
  have fit: "\<forall>v \<in> set (map of_nat ?vs). fits n v" using small fits_of_nat by auto
  obtain a1 where a1: "set_values a0 0 (map of_nat ?vs) = Some a1" "same_shape a0 a1" "cb_list a1 = map of_nat ?vs"
    using set_values_ok[OF a0(2), of 0 "map of_nat ?vs"] a0(3,4) fit by auto
  have "all_fit a1" using fit a1(2,3) a0(4) by (simp add: all_fit_def same_shape_def)
  show ?thesis
  proof (cases "2 \<le> length ?vs")
    case True
    then obtain a2 where "local_swaps draw g 0 (length ?vs - 2) a1 = Some a2" "same_shape a1 a2" "mset (cb_list a2) = mset (cb_list a1)"
    proof -
      have "0 + (length ?vs - 2) < m_capacity a1" "cb_ok a1" using True a1(2) a0(3) unfolding same_shape_def by linarith+
      from local_swaps_ok[OF draw this(2) \<open>all_fit a1\<close> this(1), of g] show ?thesis using that by blast
    qed
    then show ?thesis using a0 a1 True by (auto simp: local_permutation_def Let_def same_shape_def)
  next
    case False
    then show ?thesis using a0 a1 by (auto simp: local_permutation_def Let_def same_shape_def)
  qed
qed

section \<open>Merge\<close>

lemma merge_widths_same:
  "\<forall>a \<in> set as. m_bytes_per_element a = n \<Longrightarrow> b = 0 \<or> b = n \<Longrightarrow>
    merge_widths (map Some as) c b = Some (c + sum_list (map m_capacity as), if as = [] then b else n)"
  by (induction as arbitrary: c b) (auto simp: add.assoc)

definition array_values :: "nat \<Rightarrow> nat \<Rightarrow> 8 word list \<Rightarrow> 64 word list" where
  "array_values n c A = map (\<lambda>i. le_value (take n (drop (i * n) A))) [0..<c]"

lemma array_values_append:
  assumes "length A = n * c"
  shows "array_values n (c + d) (A @ B) = array_values n c A @ array_values n d B"
proof (rule nth_equalityI)
  fix i assume "i < length (array_values n (c + d) (A @ B))"
  then have i: "i < c + d" by (simp add: array_values_def)
  show "array_values n (c + d) (A @ B) ! i = (array_values n c A @ array_values n d B) ! i"
  proof (cases "i < c")
    case True
    then have "(i + 1) * n \<le> c * n" by (intro mult_le_mono1) simp
    then have "i * n + n \<le> length A" using assms by (simp add: mult.commute)
    then show ?thesis using True by (simp add: array_values_def nth_append)
  next
    case False
    then obtain j where j: "i = c + j" using le_Suc_ex[of c i] by auto
    have d: "drop (i * n) (A @ B) = drop (j * n) B" using assms by (simp add: j algebra_simps)
    have "array_values n (c + d) (A @ B) ! i = le_value (take n (drop (i * n) (A @ B)))"
      using i by (simp add: array_values_def del: drop_append take_append)
    also have "\<dots> = (array_values n c A @ array_values n d B) ! i" unfolding d using i j by (simp add: array_values_def nth_append)
    finally show ?thesis .
  qed
qed (simp add: array_values_def)

lemma merge_bytes_ok:
  "\<forall>a \<in> set as. cb_ok a \<and> m_bytes_per_element a = n \<Longrightarrow>
    length (merge_bytes n (map Some as)) = n * sum_list (map m_capacity as)
    \<and> array_values n (sum_list (map m_capacity as)) (merge_bytes n (map Some as)) = concat (map cb_list as)"
proof (induction as)
  case (Cons a as)
  have a: "length (m_array a) = n * m_capacity a" using Cons.prems by (simp add: cb_ok_def)
  have "array_values n (m_capacity a) (m_array a) = cb_list a" using Cons.prems by (simp add: array_values_def cb_list_def cb_value_def)
  then show ?case using Cons a array_values_append[OF a] by (simp add: distrib_left)
qed (simp add: array_values_def)

lemma cbyte_merge_ok:
  assumes n: "0 < n" "n \<le> 8" and as: "\<forall>a \<in> set as. cb_ok a \<and> m_bytes_per_element a = n" "as \<noteq> []"
  shows "\<exists>a. cbyte_merge junk (map Some as) = Some a \<and> cb_ok a \<and> m_capacity a = sum_list (map m_capacity as) \<and> cb_list a = concat (map cb_list as)"
proof -
  let ?c = "sum_list (map m_capacity as)" and ?A = "merge_bytes n (map Some as)"
  note m = merge_bytes_ok[OF as(1)]
  have w: "merge_widths (map Some as) 0 0 = Some (?c, n)" using merge_widths_same[of as n 0 0] as by simp
  let ?a = "\<lparr>m_bytes_per_element = n, m_capacity = ?c, m_array = ?A\<rparr>"
  have "cbyte_merge junk (map Some as) = Some ?a" using w n m by (simp add: cbyte_merge_def new_cbyte_array_def Let_def)
  moreover have "cb_list ?a = array_values n ?c ?A" unfolding cb_list_def cb_value_def array_values_def by simp
  then have "cb_list ?a = concat (map cb_list as)" using m by simp
  moreover have "cb_ok ?a" using n m by (simp add: cb_ok_def)
  ultimately show ?thesis by simp
qed

section \<open>The parallel permutation as a whole\<close>

lemma those_map_ok: "\<forall>x \<in> set xs. f x = Some (h x) \<Longrightarrow> those (map f xs) = Some (map h xs)"
  by (induction xs) auto

lemma parallel_permutation_ok:
  assumes draw: "valid_draw draw" and sz: "0 < sz" "sz \<le> 2 ^ 63" and buckets: "0 < no_buckets"
  obtains a where "parallel_permutation junk draw seeded sz no_buckets seed = Some a" and "cb_ok a" "m_capacity a = sz"
    and "mset (cb_list a) = mset (map of_nat [0..<sz])"
proof -
  define nb where "nb = min no_buckets sz"
  have nb: "0 < nb" using sz(1) buckets by (simp add: nb_def)
  note bytes = permutation_bytes_ok[OF sz(2)]
  define rs where "rs = bucket_ranges (sz div nb) (sz mod nb) 0 0 nb"
  define gen where "gen b = seeded ((seed + b + b) mod 2 ^ 64)" for b
  define parts where "parts = map (\<lambda>b. create_partition draw nb (gen b) [fst (rs ! b)..<snd (rs ! b)] (replicate nb [])) [0..<nb]"
  define S where "S b = fst (parts ! b)" for b
  define chunks where "chunks t = map (\<lambda>b. S b ! t) [0..<nb]" for t
  have part: "length (S b) = nb \<and> mset (concat (S b)) = mset [fst (rs ! b)..<snd (rs ! b)]" if "b < nb" for b
  proof -
    obtain S' g' where "create_partition draw nb (gen b) [fst (rs ! b)..<snd (rs ! b)] (replicate nb []) = (S', g')" by force
    then show ?thesis using create_partition_ok[OF draw nb, of "replicate nb []"] that by (simp add: S_def parts_def)
  qed
  have "mset (concat (map (\<lambda>t. concat (chunks t)) [0..<nb])) = mset (concat (map (\<lambda>b. concat (S b)) [0..<nb]))"
    unfolding chunks_def by (rule mset_transpose) (use part in blast)
  also have "\<dots> = (\<Sum>b\<leftarrow>[0..<nb]. mset [fst (rs ! b)..<snd (rs ! b)])"
    unfolding mset_concat_map by (intro arg_cong[of _ _ sum_list] map_cong) (use part in auto)
  also have "\<dots> = mset (concat (map (\<lambda>(x, y). [x..<y]) rs))"
  proof -
    have "rs = map ((!) rs) [0..<nb]" using length_bucket_ranges[of "sz div nb" "sz mod nb" 0 0 nb] unfolding rs_def by (metis map_nth)
    then have "map (\<lambda>(x, y). [x..<y]) rs = map (\<lambda>b. [fst (rs ! b)..<snd (rs ! b)]) [0..<nb]" by (metis (no_types, lifting) case_prod_beta list.map_comp map_eq_conv o_apply)
    then show ?thesis by (simp only: mset_concat_map)
  qed
  also have "concat (map (\<lambda>(x, y). [x..<y]) rs) = [0..<sz]"
    unfolding rs_def bucket_ranges_all using nb by simp
  finally have all: "mset (concat (map (\<lambda>t. concat (chunks t)) [0..<nb])) = mset [0..<sz]" .
  have small: "k < sz" if "t < nb" "k \<in> set (concat (chunks t))" for t k
  proof -
    have "k \<in># mset (concat (map (\<lambda>t. concat (chunks t)) [0..<nb]))" using that by auto
    then show ?thesis unfolding all by simp
  qed
  define loc where "loc t = local_permutation junk draw (permutation_bytes sz) (snd (parts ! t)) (chunks t)" for t
  define P where "P t = the (loc t)" for t
  have P: "loc t = Some (P t) \<and> cb_ok (P t) \<and> m_bytes_per_element (P t) = permutation_bytes sz
      \<and> m_capacity (P t) = length (concat (chunks t)) \<and> mset (cb_list (P t)) = mset (map of_nat (concat (chunks t)))" if t: "t < nb" for t
  proof -
    have "\<forall>k \<in> set (concat (chunks t)). k < 2 ^ (8 * permutation_bytes sz)" using small[OF t] bytes(3) by (meson less_le_trans)
    from local_permutation_ok[OF draw bytes(1,2) this, of junk "snd (parts ! t)"] show ?thesis by (auto simp: P_def loc_def)
  qed
  have th: "those (map loc [0..<nb]) = Some (map P [0..<nb])" by (rule those_map_ok) (use P in auto)
  obtain a where a: "cbyte_merge junk (map Some (map P [0..<nb])) = Some a" "cb_ok a"
      "m_capacity a = sum_list (map m_capacity (map P [0..<nb]))" "cb_list a = concat (map cb_list (map P [0..<nb]))"
    using cbyte_merge_ok[OF bytes(1,2), of "map P [0..<nb]" junk] P nb by auto
  have run: "parallel_permutation junk draw seeded sz no_buckets seed = Some a"
    using nb th a(1) by (simp add: parallel_permutation_def Let_def gen_def[abs_def] loc_def[abs_def] chunks_def[abs_def] S_def[abs_def] parts_def rs_def flip: nb_def)
  have "mset (cb_list a) = (\<Sum>t\<leftarrow>[0..<nb]. mset (cb_list (P t)))" unfolding a(4) by (simp add: mset_concat_map o_def)
  also have "\<dots> = (\<Sum>t\<leftarrow>[0..<nb]. image_mset of_nat (mset (concat (chunks t))))"
    by (intro arg_cong[of _ _ sum_list] map_cong) (use P in auto)
  also have "\<dots> = image_mset of_nat (mset (concat (map (\<lambda>t. concat (chunks t)) [0..<nb])))"
    by (simp only: mset_concat_map image_mset_sum_list)
  also have "\<dots> = mset (map of_nat [0..<sz])" unfolding all by (simp only: mset_map)
  finally have ms: "mset (cb_list a) = mset (map of_nat [0..<sz])" .
  then have "m_capacity a = sz" by (metis diff_zero length_cb_list length_map length_upt mset_eq_length)
  then show ?thesis by (intro that[OF run a(2) _ ms])
qed

section \<open>What the readers of an array get\<close>

text \<open>The pairs of the keys 1 to \<open>n\<close>.\<close>

definition key_pairs :: "nat \<Rightarrow> (int \<times> int) list" where
  "key_pairs n = map (\<lambda>k. (int k, int k * 10)) [1..<n + 1]"

lemma pairs_of_permutation:
  assumes "mset xs = mset (map of_nat [0..<n])" and "n \<le> 2 ^ 63"
  shows "mset (map as_pair xs) = mset (key_pairs n)"
proof -
  have "mset (map as_pair xs) = image_mset as_pair (mset (map of_nat [0..<n]))" using assms(1) by simp
  also have "\<dots> = mset (map (\<lambda>k. as_pair (of_nat k)) [0..<n])" by (simp add: multiset.map_comp o_def)
  also have "map (\<lambda>k. as_pair (of_nat k)) [0..<n] = key_pairs n"
  proof -
    have "[1..<n + 1] = map Suc [0..<n]" by (simp add: map_Suc_upt)
    then show ?thesis using as_pair_of_nat assms(2) by (simp add: key_pairs_def o_def)
  qed
  finally show ?thesis .
qed

lemma permutation_get_nth: "cb_ok a \<Longrightarrow> i < m_capacity a \<Longrightarrow> permutation_get a i = Some (as_pair (cb_list a ! i))"
  by (simp add: permutation_get_def get_value as_pair_def Let_def)

lemma view_get_nth:
  "cb_ok a \<Longrightarrow> s + l \<le> m_capacity a \<Longrightarrow> permutation_view a s l = Some w \<Longrightarrow> i < l \<Longrightarrow> view_get w i = Some (as_pair (cb_list a ! (s + i)))"
  by (auto simp: permutation_view_def view_get_def view_key_def view_size_def get_value as_pair_def)

section \<open>Properties\<close>

text \<open>C36. Writing an integer to a position of a byte array and reading it back gives the low bytes an element has,
  the integer itself when it fits, and leaves every other position as it was.\<close>

theorem cbyte_roundtrip:
  assumes "cb_ok a" and "i < m_capacity a" and "j < m_capacity a"
  shows "\<exists>a'. set_value_at a i v = Some a' \<and> cb_ok a' \<and>
    get_value_at a' j = (if j = i then Some (take_bit (8 * m_bytes_per_element a) v) else get_value_at a j)"
proof -
  obtain a' where "set_value_at a i v = Some a'" "cb_ok a'" "cb_list a' = (cb_list a)[i := take_bit (8 * m_bytes_per_element a) v]"
      "m_capacity a' = m_capacity a"
    by (rule set_value_truncated[OF assms(1,2)])
  then show ?thesis using get_value[OF assms(1,3)] get_value[of a' j] assms(2,3) by auto
qed

definition three_bytes :: CByteArray where
  "three_bytes = \<lparr>m_bytes_per_element = 1, m_capacity = 3, m_array = [5, 6, 7]\<rparr>"

theorem cbyte_roundtrip_witness:
  "\<exists>a a'. set_value_at three_bytes 1 300 = Some a \<and> get_value_at a 1 = Some 44
    \<and> set_value_at three_bytes 1 9 = Some a' \<and> get_value_at a' 1 = Some 9 \<and> get_value_at a 2 = Some 7"
proof -
  have ok: "cb_ok three_bytes" by (simp add: cb_ok_def three_bytes_def)
  have i: "1 < m_capacity three_bytes" "2 < m_capacity three_bytes" by (simp_all add: three_bytes_def)
  have "get_value_at three_bytes 2 = Some 7" by (simp add: get_value_at_def three_bytes_def)
  moreover have "take_bit (8 * m_bytes_per_element three_bytes) (300 :: 64 word) = 44" "take_bit (8 * m_bytes_per_element three_bytes) (9 :: 64 word) = 9"
    by (simp_all add: three_bytes_def)
  ultimately show ?thesis
    using cbyte_roundtrip[OF ok i(1,1), of 300] cbyte_roundtrip[OF ok i(1,2), of 300] cbyte_roundtrip[OF ok i(1,1), of 9] by auto
qed

text \<open>C30. The compressed permutation, in as many bytes as the size needs, gives at every position the pair the legacy
  one holds there for the same generator, and these are the pairs of the keys 1 to \<open>sz\<close>, each of them once.\<close>

theorem compressed_equals_legacy:
  assumes "valid_draw draw" and "0 < sz" and "sz \<le> 2 ^ 63"
  shows "\<exists>a A. compressed_permutation junk draw seeded seed sz = Some a \<and> legacy_permutation draw seeded seed sz = Some A
    \<and> length A = sz \<and> (\<forall>i < sz. permutation_get a i = Some (A ! i)) \<and> mset A = mset (key_pairs sz)"
proof -
  obtain a where a: "compressed_permutation junk draw seeded seed sz = Some a" "cb_ok a" "m_capacity a = sz"
      "mset (cb_list a) = mset (map of_nat [0..<sz])" "legacy_permutation draw seeded seed sz = Some (map as_pair (cb_list a))"
    by (rule compressed_permutation_ok[OF assms])
  then show ?thesis using permutation_get_nth[OF a(2)] pairs_of_permutation[OF a(4) assms(3)] by auto
qed

text \<open>A generator that always draws the upper bound.\<close>

definition draw_last :: "unit \<Rightarrow> nat \<Rightarrow> nat \<Rightarrow> nat \<times> unit" where
  "draw_last g x y = (y, g)"

lemma draw_last_valid: "valid_draw draw_last"
  by (simp add: valid_draw_def draw_last_def)

theorem compressed_equals_legacy_witness:
  "\<exists>a. compressed_permutation 0 draw_last (\<lambda>_. ()) 1 3 = Some a \<and> permutation_get a 0 = Some (2, 20) \<and> permutation_get a 2 = Some (1, 10)"
proof -
  have "legacy_permutation draw_last (\<lambda>_. ()) 1 3 = Some [(2, 20), (3, 30), (1, 10)]"
    by (simp add: legacy_permutation_def draw_last_def eval_nat_numeral)
  then show ?thesis using compressed_equals_legacy[OF draw_last_valid, of 3 0 "\<lambda>_. ()" 1] by force
qed

text \<open>C28. The parallel permutation returns, and a view of it reads the pairs of the keys 1 to \<open>sz\<close>, each of them once,
  whatever the generators of the buckets draw and for every number of buckets.\<close>

theorem parallel_permutation_complete:
  assumes "valid_draw draw" and "0 < sz" and "sz \<le> 2 ^ 63" and "0 < no_buckets"
  shows "\<exists>a w. parallel_permutation junk draw seeded sz no_buckets seed = Some a \<and> permutation_view a 0 sz = Some w \<and> view_size w = sz
    \<and> (\<exists>ps. those (map (view_get w) [0..<sz]) = Some ps \<and> mset ps = mset (key_pairs sz))"
proof -
  obtain a where a: "parallel_permutation junk draw seeded sz no_buckets seed = Some a" "cb_ok a" "m_capacity a = sz"
      "mset (cb_list a) = mset (map of_nat [0..<sz])"
    by (rule parallel_permutation_ok[OF assms])
  obtain w where w: "permutation_view a 0 sz = Some w" "view_size w = sz" using a(3) by (simp add: permutation_view_def view_size_def)
  have "those (map (view_get w) [0..<sz]) = Some (map (\<lambda>i. as_pair (cb_list a ! i)) [0..<sz])"
    by (rule those_map_ok) (use view_get_nth[OF a(2) _ w(1)] a(3) in auto)
  also have "map (\<lambda>i. as_pair (cb_list a ! i)) [0..<sz] = map as_pair (cb_list a)" using a(3) by (intro nth_equalityI) auto
  finally show ?thesis using a(1) w pairs_of_permutation[OF a(4) assms(3)] by blast
qed

theorem parallel_permutation_complete_witness:
  "\<exists>a w ps. parallel_permutation 0 draw_last (\<lambda>_. ()) 5 2 1 = Some a \<and> permutation_view a 0 5 = Some w
    \<and> those (map (view_get w) [0..<5]) = Some ps \<and> mset ps = {#(1, 10), (2, 20), (3, 30), (4, 40), (5, 50)#}"
proof -
  have "mset (key_pairs 5) = {#(1, 10), (2, 20), (3, 30), (4, 40), (5, 50)#}" by (simp add: key_pairs_def upt_rec)
  then show ?thesis using parallel_permutation_complete[OF draw_last_valid, of 5 2 0 "\<lambda>_. ()" 1] by fastforce
qed

end
