(* ===== verification/RMA_Storage.thy ===== *)
theory RMA_Storage
  imports Static_Index Rewired_Memory Interface
begin

text \<open>
  The storage of the rewired memory array, \<open>pma/adaptive/int3/storage.cpp\<close>: the arrays of keys and
  values, split in segments of the same capacity, and the cardinality of each segment. The
  elements of an even segment are at its end, those of an odd segment at its start, so that the
  elements of a pair of segments are contiguous.

  \<open>m_keys\<close> and \<open>m_values\<close> are the cells of the address range of the arrays, in address order. When
  the arrays are rewired, that range is the virtual memory of a \<open>BufferedRewiredMemory\<close>, buffers
  included; its bookkeeping is \<open>m_memory_keys\<close> (its contents are the cells themselves, so its own
  cells are of type \<open>unit\<close>). \<open>ps\<close> is the size of a memory page of the system, \<open>junk\<close> the content of
  a cell fresh from \<open>posix_memalign\<close>. \<open>None\<close> is an exception or a failed assertion.

  The number of elements and of segments are \<open>uint32_t\<close> and wrap around (\<open>u32\<close>), as does their product in
  \<open>storage_capacity\<close>. The capacity and the sizes of the segments are \<open>uint16_t\<close>: \<open>storage_shape\<close> bounds the
  capacity by \<open>2 ^ 16\<close>, and an operation writes a size only after comparing it with the capacity.
\<close>

record Storage =
  m_keys :: "int list"
  m_values :: "int list"
  m_segment_sizes :: "nat list"
  m_segment_capacity :: nat
  m_cardinality :: nat
  m_number_segments :: nat
  m_pages_per_extent :: nat
  m_memory_keys :: "unit BufferedRewiredMemory option"
  m_memory_values :: "unit BufferedRewiredMemory option"
  m_memory_sizes :: "unit RewiredMemory option"

text \<open>\<open>memcpy\<close> of \<open>ms\<close> to the cells from position \<open>n\<close>.\<close>

definition splice :: "'a list \<Rightarrow> nat \<Rightarrow> 'a list \<Rightarrow> 'a list" where
  "splice xs n ms = take n xs @ ms @ drop (n + length ms) xs"

definition write_cells :: "'a list \<Rightarrow> nat \<Rightarrow> 'a list \<Rightarrow> 'a list option" where
  "write_cells xs n ms = (if n + length ms \<le> length xs then Some (splice xs n ms) else None)"

section \<open>Properties of the storage\<close>

definition pow2_ceil :: "nat \<Rightarrow> nat" where
  "pow2_ceil x = 2 ^ ceil_log 2 x"

definition segments_per_extent :: "nat \<Rightarrow> Storage \<Rightarrow> nat" where
  "segments_per_extent ps st = m_pages_per_extent st * ps div (m_segment_capacity st * 8)"

definition number_extents :: "Storage \<Rightarrow> nat" where
  "number_extents st = (case m_memory_keys st of
       Some m \<Rightarrow> get_allocated_extents (m_instance m) - get_total_buffers m
     | None \<Rightarrow> 1)"

definition storage_height :: "Storage \<Rightarrow> nat" where
  "storage_height st = bit_len (m_number_segments st)"

definition hyperheight :: "Storage \<Rightarrow> nat" where
  "hyperheight st = ceil_log 2 (m_number_segments st) + 1"

definition storage_capacity :: "Storage \<Rightarrow> nat" where
  "storage_capacity st = u32 (m_number_segments st * m_segment_capacity st)"

definition get_minimum :: "Storage \<Rightarrow> nat \<Rightarrow> int option" where
  "get_minimum st segment_id =
     (if \<not> segment_id < m_number_segments st \<or> m_segment_sizes st ! segment_id = 0 then None
      else Some (if even segment_id
        then m_keys st ! ((segment_id + 1) * m_segment_capacity st - m_segment_sizes st ! segment_id)
        else m_keys st ! (segment_id * m_segment_capacity st)))"

definition storage_footprint :: "Storage \<Rightarrow> nat" where
  "storage_footprint st =
     (case m_memory_keys st of Some m \<Rightarrow> get_allocated_memory_size (m_instance m) | None \<Rightarrow> storage_capacity st * 8)
     + (case m_memory_values st of Some m \<Rightarrow> get_allocated_memory_size (m_instance m) | None \<Rightarrow> storage_capacity st * 8)
     + (case m_memory_sizes st of Some m \<Rightarrow> get_allocated_memory_size m | None \<Rightarrow> storage_capacity st * 2)"

section \<open>Allocation\<close>

record Workspace =
  w_keys :: "int list"
  w_values :: "int list"
  w_sizes :: "nat list"
  w_memory_keys :: "unit BufferedRewiredMemory option"
  w_memory_values :: "unit BufferedRewiredMemory option"
  w_memory_sizes :: "unit RewiredMemory option"

text \<open>The number of extents for so many bytes, rounded up.\<close>

definition extents_for :: "nat \<Rightarrow> nat \<Rightarrow> nat" where
  "extents_for extent_size bytes = bytes div extent_size + (if bytes mod extent_size \<noteq> 0 then 1 else 0)"

definition alloc_workspace :: "nat \<Rightarrow> int \<Rightarrow> Storage \<Rightarrow> nat \<Rightarrow> Workspace option" where
  "alloc_workspace ps junk st num_segments =
     (let extent_size = m_pages_per_extent st * ps;
          elts_space_required_bytes = num_segments * m_segment_capacity st * 8;
          card_space_required_bytes = max 2 num_segments * 2
      in if extent_size \<le> elts_space_required_bytes then
           let elts_num_extents = elts_space_required_bytes div extent_size in
           if elts_space_required_bytes mod extent_size \<noteq> 0 then None
           else
             let card_num_extents = (if extent_size < card_space_required_bytes
                   then extents_for extent_size card_space_required_bytes else 1)
             in do { mk \<leftarrow> new_buffered ps [] (m_pages_per_extent st) elts_num_extents;
                     mv \<leftarrow> new_buffered ps [] (m_pages_per_extent st) elts_num_extents;
                     ms \<leftarrow> new_rewired ps [] (m_pages_per_extent st) card_num_extents
                             (get_max_memory (m_instance mk) * 2 div 8);
                     Some \<lparr>w_keys = replicate (elts_space_required_bytes div 8) 0,
                           w_values = replicate (elts_space_required_bytes div 8) 0,
                           w_sizes = (replicate (get_allocated_memory_size ms div 2) 0)[1 := 0],
                           w_memory_keys = Some mk, w_memory_values = Some mv, w_memory_sizes = Some ms\<rparr> }
         else Some \<lparr>w_keys = replicate (num_segments * m_segment_capacity st) junk,
                    w_values = replicate (num_segments * m_segment_capacity st) junk,
                    w_sizes = (replicate (max 2 num_segments) (nat (junk mod 2 ^ 16)))[1 := 0],
                    w_memory_keys = None, w_memory_values = None, w_memory_sizes = None\<rparr>)"

definition set_workspace :: "Workspace \<Rightarrow> Storage \<Rightarrow> Storage" where
  "set_workspace w st = st\<lparr>m_keys := w_keys w, m_values := w_values w, m_segment_sizes := w_sizes w,
     m_memory_keys := w_memory_keys w, m_memory_values := w_memory_values w, m_memory_sizes := w_memory_sizes w\<rparr>"

definition new_storage :: "nat \<Rightarrow> int \<Rightarrow> nat \<Rightarrow> nat \<Rightarrow> Storage option" where
  "new_storage ps junk segment_size pages_per_extent =
     (if 2 ^ 16 - 1 < pow2_ceil segment_size then None
      else if pow2_ceil segment_size < 32 then None
      else if pow2_ceil pages_per_extent \<noteq> pages_per_extent then None
      else if ps mod (pow2_ceil segment_size * 8) \<noteq> 0 then None
      else
        let st = \<lparr>m_keys = [], m_values = [], m_segment_sizes = [], m_segment_capacity = pow2_ceil segment_size,
                  m_cardinality = 0, m_number_segments = 1, m_pages_per_extent = pages_per_extent,
                  m_memory_keys = None, m_memory_values = None, m_memory_sizes = None\<rparr>
        in do { w \<leftarrow> alloc_workspace ps junk st 1; Some (set_workspace w st) })"

text \<open>The cells of the address range after its memory was extended: the ones added read as zero.\<close>

definition grow_cells :: "'a \<Rightarrow> nat \<Rightarrow> 'a list \<Rightarrow> 'a list" where
  "grow_cells z n xs = xs @ replicate (n - length xs) z"

definition storage_extend :: "nat \<Rightarrow> Storage \<Rightarrow> nat \<Rightarrow> Storage option" where
  "storage_extend ps st num_segments_to_add = do {
     mk \<leftarrow> m_memory_keys st;
     mv \<leftarrow> m_memory_values st;
     ms \<leftarrow> m_memory_sizes st;
     let bytes_per_segment = m_segment_capacity st * 8;
     let bytes_per_extent = m_pages_per_extent st * ps;
     let num_segments_before = m_number_segments st;
     let num_segments_after = m_number_segments st + num_segments_to_add;
     let elts_num_extents_current = extents_for bytes_per_extent (num_segments_before * bytes_per_segment);
     let elts_num_extents_total = extents_for bytes_per_extent (num_segments_after * bytes_per_segment);
     let elts_num_extents_required = elts_num_extents_total - elts_num_extents_current;
     let sizes_num_extents_current = extents_for bytes_per_extent (num_segments_before * 2);
     let sizes_num_extents_total = extents_for bytes_per_extent (num_segments_after * 2);
     let sizes_preallocated_extents = get_allocated_extents ms;
     let sizes_num_extents_required = (if sizes_preallocated_extents < sizes_num_extents_total
           then min (sizes_num_extents_total - sizes_num_extents_current)
                    (sizes_num_extents_total - sizes_preallocated_extents) else 0);
     (mk, mv) \<leftarrow> (if 0 < elts_num_extents_required
        then do { mk \<leftarrow> extend_buffered [] mk elts_num_extents_required;
                  mv \<leftarrow> extend_buffered [] mv elts_num_extents_required; Some (mk, mv) }
        else Some (mk, mv));
     ms \<leftarrow> (if 0 < sizes_num_extents_required then extend_memory [] ms sizes_num_extents_required else Some ms);
     Some (st\<lparr>m_keys := grow_cells 0 (get_allocated_memory_size (m_instance mk) div 8) (m_keys st),
              m_values := grow_cells 0 (get_allocated_memory_size (m_instance mv) div 8) (m_values st),
              m_segment_sizes := grow_cells 0 (get_allocated_memory_size ms div 2) (m_segment_sizes st),
              m_memory_keys := Some mk, m_memory_values := Some mv, m_memory_sizes := Some ms,
              m_number_segments := u32 num_segments_after\<rparr>) }"

definition storage_shrink :: "nat \<Rightarrow> Storage \<Rightarrow> nat \<Rightarrow> Storage option" where
  "storage_shrink ps st num_segments_to_remove =
     (if num_segments_to_remove = 0 then Some st else do {
        mk \<leftarrow> m_memory_keys st;
        mv \<leftarrow> m_memory_values st;
        ms \<leftarrow> m_memory_sizes st;
        if num_segments_to_remove mod segments_per_extent ps st \<noteq> 0 then None
        else if \<not> num_segments_to_remove < m_number_segments st then None
        else do {
          let num_segments_after = m_number_segments st - num_segments_to_remove;
          let elts_num_extents_to_release = m_number_segments st div segments_per_extent ps st
                - num_segments_after div segments_per_extent ps st;
          (mk, mv) \<leftarrow> (if 0 < elts_num_extents_to_release
             then do { mk \<leftarrow> shrink_buffered mk elts_num_extents_to_release;
                       mv \<leftarrow> shrink_buffered mv elts_num_extents_to_release; Some (mk, mv) }
             else Some (mk, mv));
          Some (st\<lparr>m_memory_keys := Some mk, m_memory_values := Some mv, m_number_segments := u32 num_segments_after\<rparr>) } })"

section \<open>Insertion in a segment\<close>

text \<open>The loops that open a cell, on the cells of an array from position \<open>b\<close>: the one of the even
  segments moves smaller keys one cell to the left, the one of the odd segments moves greater keys
  one cell to the right.\<close>

function open_left :: "int list \<Rightarrow> nat \<Rightarrow> nat \<Rightarrow> int \<Rightarrow> nat \<Rightarrow> int list \<times> nat" where
  "open_left keys b stop key i =
     (if i < stop \<and> keys ! (b + i + 1) < key
      then open_left (keys[b + i := keys ! (b + i + 1)]) b stop key (i + 1) else (keys, i))"
  by pat_completeness auto
termination by (relation "measure (\<lambda>(keys, b, stop, key, i). stop - i)") auto

declare open_left.simps [simp del]

fun open_right :: "int list \<Rightarrow> nat \<Rightarrow> int \<Rightarrow> nat \<Rightarrow> int list \<times> nat" where
  "open_right keys b key 0 = (keys, 0)"
| "open_right keys b key (Suc i) =
     (if keys ! (b + i) > key then open_right (keys[b + Suc i := keys ! (b + i)]) b key i else (keys, Suc i))"

text \<open>\<open>for (j = start; j < stop; j++) xs[j] = xs[j + 1]\<close> and \<open>for (j = start; j > stop; j--) xs[j] = xs[j - 1]\<close>.\<close>

definition shift_left :: "'a list \<Rightarrow> nat \<Rightarrow> nat \<Rightarrow> nat \<Rightarrow> 'a list" where
  "shift_left xs b start stop = foldl (\<lambda>xs j. xs[b + j := xs ! (b + j + 1)]) xs [start..<stop]"

definition shift_right :: "'a list \<Rightarrow> nat \<Rightarrow> nat \<Rightarrow> nat \<Rightarrow> 'a list" where
  "shift_right xs b start stop = foldl (\<lambda>xs j. xs[b + j := xs ! (b + j - 1)]) xs (rev [stop + 1..<start + 1])"

text \<open>The result of \<open>insert\<close>: the new storage, whether the key is the new minimum, the predecessor and
  the successor.\<close>

definition storage_insert :: "Storage \<Rightarrow> nat \<Rightarrow> int \<Rightarrow> int \<Rightarrow> (Storage \<times> bool \<times> int \<times> int) option" where
  "storage_insert st segment_id key val =
     (if \<not> m_segment_sizes st ! segment_id < m_segment_capacity st then None
      else
        let cap = m_segment_capacity st;
            b = segment_id * cap;
            sz = m_segment_sizes st ! segment_id;
            (keys, vals, i, is_min, is_max) =
              (if even segment_id then
                 let stop = cap - 1; start = cap - sz - 1;
                     (keys, i) = open_left (m_keys st) b stop key start;
                     vals = (shift_left (m_values st) b start i)[b + i := val]
                 in (keys[b + i := key], vals, i, i = start, i = stop)
               else
                 let (keys, i) = open_right (m_keys st) b key sz;
                     vals = (shift_right (m_values st) b sz i)[b + i := val]
                 in (keys[b + i := key], vals, i, i = 0, i = sz))
        in Some (st\<lparr>m_keys := keys, m_values := vals,
                    m_segment_sizes := (m_segment_sizes st)[segment_id := sz + 1],
                    m_cardinality := u32 (m_cardinality st + 1)\<rparr>,
                 is_min,
                 if is_min then INT64_MIN else keys ! (b + i - 1),
                 if is_max then INT64_MAX else keys ! (b + i + 1)))"

end
