(* ===== verification/RMA_Storage_Proofs.thy ===== *)
theory RMA_Storage_Proofs
  imports RMA_Storage
begin

text \<open>
  Facts on the storage of the rewired memory array: what the loops of the insertion do to the cells
  of a segment, the content of a segment as a list of pairs, and the insertion as an insertion in
  that list.
\<close>

section \<open>Opening a cell\<close>

lemma nth_second: "n = length A \<Longrightarrow> (A @ x # y # T) ! (n + 1) = y"
  by (simp add: nth_append)

lemma update_at: "n = length A \<Longrightarrow> (A @ x # T)[n := z] = A @ z # T"
  by simp

text \<open>The cells \<open>x # ks\<close> after the first \<open>p\<close> of \<open>ks\<close> were moved one cell to the left.\<close>

lemma open_left_cells:
  assumes "length P = b + i" and "length ks = stop - i" and "i \<le> stop"
  shows "open_left (P @ x # ks @ S) b stop key i =
    (let p = length (takeWhile (\<lambda>y. y < key) ks)
     in (P @ take p ks @ (x # ks) ! p # drop p ks @ S, i + p))"
  using assms
proof (induction ks arbitrary: P x i)
  case Nil
  then show ?case by (simp add: open_left.simps[of "P @ x # S" b i key i])
next
  case (Cons y ks)
  have i: "i < stop" using Cons.prems by auto
  have nth: "(P @ x # (y # ks) @ S) ! (b + i + 1) = y" using Cons.prems(1) by (simp add: nth_append)
  have upd: "(P @ x # (y # ks) @ S)[b + i := y] = (P @ [y]) @ y # ks @ S"
    using Cons.prems(1) by (simp add: list_update_append)
  show ?case
  proof (cases "y < key")
    case True
    have "open_left (P @ x # (y # ks) @ S) b stop key i = open_left ((P @ [y]) @ y # ks @ S) b stop key (i + 1)"
      using open_left.simps[of "P @ x # (y # ks) @ S" b stop key i] i nth upd True by simp
    also have "\<dots> = (let p = length (takeWhile (\<lambda>y. y < key) ks)
        in ((P @ [y]) @ take p ks @ (y # ks) ! p # drop p ks @ S, i + 1 + p))"
      using Cons.prems i by (intro Cons.IH) auto
    finally show ?thesis using True by (simp add: Let_def)
  next
    case False
    then show ?thesis using open_left.simps[of "P @ x # (y # ks) @ S" b stop key i] nth by simp
  qed
qed

lemma open_right_cells:
  assumes "length P = b" and "length ks = i"
  shows "open_right (P @ ks @ x # S) b key i =
    (let q = i - length (takeWhile (\<lambda>y. key < y) (rev ks))
     in (P @ take q ks @ (ks @ [x]) ! q # drop q ks @ S, q))"
  using assms
proof (induction ks arbitrary: x i S rule: rev_induct)
  case Nil
  then show ?case by simp
next
  case (snoc y ks)
  then obtain n where n: "i = Suc n" "length ks = n" by auto
  have nth: "(P @ (ks @ [y]) @ x # S) ! (b + n) = y" using snoc.prems n by (simp add: nth_append)
  have upd: "(P @ (ks @ [y]) @ x # S)[b + Suc n := y] = P @ ks @ y # y # S"
    using snoc.prems n by (simp add: list_update_append)
  show ?case
  proof (cases "key < y")
    case True
    have "open_right (P @ (ks @ [y]) @ x # S) b key i = open_right (P @ ks @ y # (y # S)) b key n"
      using n nth upd True by simp
    also have "\<dots> = (let q = n - length (takeWhile (\<lambda>y. key < y) (rev ks))
        in (P @ take q ks @ (ks @ [y]) ! q # drop q ks @ y # S, q))"
      using snoc.prems n by (intro snoc.IH) auto
    finally show ?thesis using True n by (simp add: Let_def nth_append)
  next
    case False
    then show ?thesis using n nth snoc.prems by (simp add: Let_def nth_append)
  qed
qed

lemma sorted_takeWhile_rev:
  fixes ks :: "int list"
  assumes "sorted ks"
  shows "length ks - length (takeWhile (\<lambda>y. key < y) (rev ks)) = length (takeWhile (\<lambda>y. y \<le> key) ks)"
  using assms
proof (induction ks rule: rev_induct)
  case (snoc y ks)
  show ?case
  proof (cases "key < y")
    case True
    have "takeWhile (\<lambda>y. y \<le> key) (ks @ [y]) = takeWhile (\<lambda>y. y \<le> key) ks"
      using True by (induction ks) auto
    then show ?thesis using True snoc by (simp add: sorted_append)
  next
    case False
    then have "takeWhile (\<lambda>y. y \<le> key) (ks @ [y]) = ks @ [y]"
      using snoc.prems by (intro takeWhile_eq_all_conv[THEN iffD2]) (auto simp: sorted_append)
    then show ?thesis using False by simp
  qed
qed simp

lemma shift_left_cells:
  assumes "length P = b + start" and "p \<le> length vs"
  shows "shift_left (P @ x # vs @ S) b start (start + p) = P @ take p vs @ (x # vs) ! p # drop p vs @ S"
  using assms(2)
proof (induction p)
  case 0
  then show ?case by (simp add: shift_left_def)
next
  case (Suc p)
  let ?xs = "P @ take p vs @ (x # vs) ! p # drop p vs @ S"
  have d: "drop p vs = vs ! p # drop (Suc p) vs" using Suc.prems by (simp add: Cons_nth_drop_Suc)
  have xs: "?xs = (P @ take p vs) @ (x # vs) ! p # vs ! p # drop (Suc p) vs @ S" by (simp add: d)
  have len: "length (P @ take p vs) = b + (start + p)" using assms(1) Suc.prems by simp
  have nth: "?xs ! (b + (start + p) + 1) = vs ! p" unfolding xs by (rule nth_second) (rule len[symmetric])
  have upd: "?xs[b + (start + p) := vs ! p] = (P @ take p vs) @ vs ! p # vs ! p # drop (Suc p) vs @ S"
    unfolding xs by (rule update_at) (rule len[symmetric])
  have "shift_left (P @ x # vs @ S) b start (start + Suc p) =
      (shift_left (P @ x # vs @ S) b start (start + p))[b + (start + p) := shift_left (P @ x # vs @ S) b start (start + p) ! (b + (start + p) + 1)]"
    by (simp add: shift_left_def)
  also have "\<dots> = ?xs[b + (start + p) := vs ! p]" using Suc nth by simp
  finally show ?case unfolding upd using Suc.prems by (simp add: take_Suc_conv_app_nth)
qed

lemma shift_right_cells:
  assumes "length P = b" and "length vs = q + n"
  shows "shift_right (P @ vs @ x # S) b (q + n) q = P @ take q vs @ (vs @ [x]) ! q # drop q vs @ S"
  using assms(2)
proof (induction n arbitrary: vs x S)
  case 0
  then show ?case by (simp add: shift_right_def nth_append)
next
  case (Suc n)
  then obtain vs' y where vs: "vs = vs' @ [y]" "length vs' = q + n"
    by (metis add_Suc_right length_Suc_conv_rev)
  have nth: "(P @ vs @ x # S) ! (b + (q + n)) = y" using assms(1) vs by (simp add: nth_append)
  have upd: "(P @ vs @ x # S)[b + Suc (q + n) := y] = P @ vs' @ y # y # S"
    using assms(1) vs by (simp add: list_update_append)
  have "shift_right (P @ vs @ x # S) b (q + Suc n) q = shift_right ((P @ vs @ x # S)[b + Suc (q + n) := (P @ vs @ x # S) ! (b + (q + n))]) b (q + n) q"
    by (simp add: shift_right_def)
  also have "\<dots> = shift_right (P @ vs' @ y # (y # S)) b (q + n) q" using nth upd by simp
  also have "\<dots> = P @ take q vs' @ (vs' @ [y]) ! q # drop q vs' @ y # S" using vs by (intro Suc.IH) simp
  finally show ?case using vs by (simp add: nth_append)
qed

section \<open>Segments\<close>

definition seg_start :: "Storage \<Rightarrow> nat \<Rightarrow> nat" where
  "seg_start st s = (if even s then (s + 1) * m_segment_capacity st - m_segment_sizes st ! s else s * m_segment_capacity st)"

definition seg_keys :: "Storage \<Rightarrow> nat \<Rightarrow> int list" where
  "seg_keys st s = take (m_segment_sizes st ! s) (drop (seg_start st s) (m_keys st))"

definition seg_vals :: "Storage \<Rightarrow> nat \<Rightarrow> int list" where
  "seg_vals st s = take (m_segment_sizes st ! s) (drop (seg_start st s) (m_values st))"

text \<open>The shape of a storage: cells for all the segments, no segment over its capacity, and the
  cardinality the sum of those of the segments.\<close>

definition storage_ok :: "Storage \<Rightarrow> bool" where
  "storage_ok st \<longleftrightarrow> 0 < m_segment_capacity st \<and> m_segment_capacity st < 2 ^ 16
     \<and> m_number_segments st * m_segment_capacity st \<le> length (m_keys st)
     \<and> m_number_segments st * m_segment_capacity st \<le> length (m_values st)
     \<and> m_number_segments st \<le> length (m_segment_sizes st)
     \<and> (\<forall>s<m_number_segments st. m_segment_sizes st ! s \<le> m_segment_capacity st)
     \<and> m_cardinality st = sum_list (take (m_number_segments st) (m_segment_sizes st))"

text \<open>Where a key goes in the keys of a segment: before the equal ones in an even segment, after
  them in an odd one.\<close>

definition insert_pos :: "nat \<Rightarrow> int \<Rightarrow> int list \<Rightarrow> nat" where
  "insert_pos s key ks = (if even s then length (takeWhile (\<lambda>y. y < key) ks) else length (takeWhile (\<lambda>y. y \<le> key) ks))"

lemma insert_pos_le: "insert_pos s key ks \<le> length ks"
  by (simp add: insert_pos_def length_takeWhile_le)

lemma segment_fits:
  assumes "s < n"
  shows "s * c + c \<le> n * (c :: nat)"
  using mult_le_mono1[of "Suc s" n c] assms by simp

lemma storage_ok_segment:
  assumes "storage_ok st" and "s < m_number_segments st"
  shows "s * m_segment_capacity st + m_segment_capacity st \<le> length (m_keys st)"
    and "s * m_segment_capacity st + m_segment_capacity st \<le> length (m_values st)"
    and "m_segment_sizes st ! s \<le> m_segment_capacity st"
  using assms segment_fits[OF assms(2), of "m_segment_capacity st"] by (auto simp: storage_ok_def)

lemma seg_bounds:
  assumes "storage_ok st" and "s < m_number_segments st"
  shows "s * m_segment_capacity st \<le> seg_start st s"
    and "seg_start st s + m_segment_sizes st ! s \<le> s * m_segment_capacity st + m_segment_capacity st"
  using storage_ok_segment(3)[OF assms] by (auto simp: seg_start_def)

lemma length_seg [simp]:
  assumes "storage_ok st" and "s < m_number_segments st"
  shows "length (seg_keys st s) = m_segment_sizes st ! s" and "length (seg_vals st s) = m_segment_sizes st ! s"
  using seg_bounds[OF assms] storage_ok_segment[OF assms] by (auto simp: seg_keys_def seg_vals_def)

lemma slice_split: "n + m \<le> length xs \<Longrightarrow> xs = take n xs @ take m (drop n xs) @ drop (n + m) xs"
  by (metis append_take_drop_id drop_drop add.commute)

section \<open>The insertion\<close>

lemma nth_around:
  assumes "length A = n" and "p \<le> length ks"
  shows "p \<noteq> 0 \<Longrightarrow> (A @ take p ks @ key # drop p ks @ S) ! (n + p - 1) = ks ! (p - 1)"
    and "p \<noteq> length ks \<Longrightarrow> (A @ take p ks @ key # drop p ks @ S) ! (n + p + 1) = ks ! p"
  using assms by (auto simp: nth_append)

lemma storage_insert_cells:
  fixes st :: Storage and s :: nat and key val :: int
  assumes ok: "storage_ok st" and s: "s < m_number_segments st"
    and room: "m_segment_sizes st ! s < m_segment_capacity st" and srt: "sorted (seg_keys st s)"
  defines "sz \<equiv> m_segment_sizes st ! s" and "ks \<equiv> seg_keys st s" and "vs \<equiv> seg_vals st s"
  defines "n \<equiv> (if even s then seg_start st s - 1 else seg_start st s)"
  defines "p \<equiv> insert_pos s key ks"
  shows "storage_insert st s key val = Some (st\<lparr>
      m_keys := take n (m_keys st) @ (take p ks @ key # drop p ks) @ drop (n + Suc sz) (m_keys st),
      m_values := take n (m_values st) @ (take p vs @ val # drop p vs) @ drop (n + Suc sz) (m_values st),
      m_segment_sizes := (m_segment_sizes st)[s := sz + 1], m_cardinality := u32 (m_cardinality st + 1)\<rparr>,
    p = 0, if p = 0 then INT64_MIN else ks ! (p - 1), if p = sz then INT64_MAX else ks ! p)"
proof (cases "even s")
  case True
  let ?c = "m_segment_capacity st"
  let ?b = "s * ?c" and ?start = "?c - sz - 1"
  have n: "n = ?b + ?start" and st0: "seg_start st s = Suc n"
    using True room by (auto simp: n_def seg_start_def sz_def)
  have lk: "n + Suc sz \<le> length (m_keys st)" and lv: "n + Suc sz \<le> length (m_values st)"
    using storage_ok_segment[OF ok s] n room by (auto simp: sz_def)
  have ks: "length ks = sz" and vs: "length vs = sz" by (simp_all add: ks_def vs_def sz_def ok s)
  have k: "m_keys st = take n (m_keys st) @ m_keys st ! n # ks @ drop (n + Suc sz) (m_keys st)"
    using lk slice_split[of n "Suc sz" "m_keys st"]
    by (simp add: ks_def seg_keys_def st0 sz_def Cons_nth_drop_Suc[symmetric, of n])
  have v: "m_values st = take n (m_values st) @ m_values st ! n # vs @ drop (n + Suc sz) (m_values st)"
    using lv slice_split[of n "Suc sz" "m_values st"]
    by (simp add: vs_def seg_vals_def st0 sz_def Cons_nth_drop_Suc[symmetric, of n])
  have p: "p = length (takeWhile (\<lambda>y. y < key) ks)" "p \<le> sz"
    using True insert_pos_le[of s key ks] ks by (simp_all add: p_def insert_pos_def)
  have o: "open_left (m_keys st) ?b (?c - 1) key ?start =
      (take n (m_keys st) @ take p ks @ (m_keys st ! n # ks) ! p # drop p ks @ drop (n + Suc sz) (m_keys st), ?start + p)"
    using open_left_cells[of "take n (m_keys st)" ?b ?start ks "?c - 1" "m_keys st ! n" "drop (n + Suc sz) (m_keys st)" key]
      k lk n ks room p by (simp add: Let_def sz_def)
  have sh: "shift_left (m_values st) ?b ?start (?start + p) =
      take n (m_values st) @ take p vs @ (m_values st ! n # vs) ! p # drop p vs @ drop (n + Suc sz) (m_values st)"
    using shift_left_cells[of "take n (m_values st)" ?b ?start p vs "m_values st ! n" "drop (n + Suc sz) (m_values st)"]
      v lv n vs p by simp
  have lenk: "?b + (?start + p) = length (take n (m_keys st) @ take p ks)" using lk n ks p by simp
  have lenv: "?b + (?start + p) = length (take n (m_values st) @ take p vs)" using lv n vs p by simp
  have uk: "(take n (m_keys st) @ take p ks @ x # T)[?b + (?start + p) := z] = take n (m_keys st) @ take p ks @ z # T" for x T z
    using update_at[OF lenk, of x T z] by simp
  have uv: "(take n (m_values st) @ take p vs @ x # T)[?b + (?start + p) := z] = take n (m_values st) @ take p vs @ z # T" for x T z
    using update_at[OF lenv, of x T z] by simp
  let ?k = "take n (m_keys st) @ take p ks @ key # drop p ks @ drop (n + Suc sz) (m_keys st)"
  have pre: "p \<noteq> 0 \<Longrightarrow> ?k ! (?b + (?start + p) - 1) = ks ! (p - 1)"
    using nth_around(1)[of "take n (m_keys st)" n p ks] lk ks p(2) unfolding n by (simp add: add.assoc)
  have suc: "p \<noteq> sz \<Longrightarrow> ?k ! (?b + (?start + p) + 1) = ks ! p"
    using nth_around(2)[of "take n (m_keys st)" n p ks] lk ks p(2) unfolding n by (simp add: add.assoc)
  have ends: "(?start + p = ?start) = (p = 0)" "(?start + p = ?c - 1) = (p = sz)"
    using room[folded sz_def] p(2) by auto
  have low: "(if p = 0 then INT64_MIN else ?k ! (?b + (?start + p) - 1)) = (if p = 0 then INT64_MIN else ks ! (p - 1))"
    by (rule if_cong[OF refl refl]) (rule pre)
  have high: "(if p = sz then INT64_MAX else ?k ! (?b + (?start + p) + 1)) = (if p = sz then INT64_MAX else ks ! p)"
    by (rule if_cong[OF refl refl]) (rule suc)
  show ?thesis
    using room[folded sz_def]
    by (simp only: storage_insert_def Let_def sz_def[symmetric] True o sh uk uv if_True prod.case not_True_eq_False if_False
          simp_thms ends low high append_assoc append_Cons)
next
  case False
  let ?c = "m_segment_capacity st"
  have n: "n = s * ?c" and st0: "seg_start st s = n" using False by (simp_all add: n_def seg_start_def)
  have lk: "n + Suc sz \<le> length (m_keys st)" and lv: "n + Suc sz \<le> length (m_values st)"
    using storage_ok_segment[OF ok s] n room by (auto simp: sz_def)
  have ks: "length ks = sz" and vs: "length vs = sz" by (simp_all add: ks_def vs_def sz_def ok s)
  have k: "m_keys st = take n (m_keys st) @ ks @ m_keys st ! (n + sz) # drop (n + Suc sz) (m_keys st)"
    using lk slice_split[of n sz "m_keys st"]
    by (simp add: ks_def seg_keys_def st0 sz_def Cons_nth_drop_Suc)
  have v: "m_values st = take n (m_values st) @ vs @ m_values st ! (n + sz) # drop (n + Suc sz) (m_values st)"
    using lv slice_split[of n sz "m_values st"]
    by (simp add: vs_def seg_vals_def st0 sz_def Cons_nth_drop_Suc)
  have p: "p = length (takeWhile (\<lambda>y. y \<le> key) ks)" "p \<le> sz"
    using False insert_pos_le[of s key ks] ks by (simp_all add: p_def insert_pos_def)
  have q: "sz - length (takeWhile (\<lambda>y. key < y) (rev ks)) = p"
    using sorted_takeWhile_rev[of ks key] srt p ks by (simp add: ks_def)
  have o: "open_right (m_keys st) n key sz =
      (take n (m_keys st) @ take p ks @ (ks @ [m_keys st ! (n + sz)]) ! p # drop p ks @ drop (n + Suc sz) (m_keys st), p)"
    using open_right_cells[of "take n (m_keys st)" n ks sz "m_keys st ! (n + sz)" "drop (n + Suc sz) (m_keys st)" key]
      k lk ks q by (simp add: Let_def)
  have sh: "shift_right (m_values st) n sz p =
      take n (m_values st) @ take p vs @ (vs @ [m_values st ! (n + sz)]) ! p # drop p vs @ drop (n + Suc sz) (m_values st)"
    using shift_right_cells[of "take n (m_values st)" n vs p "sz - p" "m_values st ! (n + sz)" "drop (n + Suc sz) (m_values st)"]
      v lv vs p by simp
  have lenk: "n + p = length (take n (m_keys st) @ take p ks)" using lk ks p by simp
  have lenv: "n + p = length (take n (m_values st) @ take p vs)" using lv vs p by simp
  have uk: "(take n (m_keys st) @ take p ks @ x # T)[n + p := z] = take n (m_keys st) @ take p ks @ z # T" for x T z
    using update_at[OF lenk, of x T z] by simp
  have uv: "(take n (m_values st) @ take p vs @ x # T)[n + p := z] = take n (m_values st) @ take p vs @ z # T" for x T z
    using update_at[OF lenv, of x T z] by simp
  let ?k = "take n (m_keys st) @ take p ks @ key # drop p ks @ drop (n + Suc sz) (m_keys st)"
  have pre: "p \<noteq> 0 \<Longrightarrow> ?k ! (n + p - 1) = ks ! (p - 1)"
    using nth_around(1)[of "take n (m_keys st)" n p ks] lk ks p(2) by simp
  have suc: "p \<noteq> sz \<Longrightarrow> ?k ! (n + p + 1) = ks ! p"
    using nth_around(2)[of "take n (m_keys st)" n p ks] lk ks p(2) by simp
  show ?thesis
    using room[folded sz_def] p(2) pre suc
    by (simp only: storage_insert_def Let_def sz_def[symmetric] n[symmetric] False o sh uk uv if_True prod.case not_True_eq_False if_False
          simp_thms) auto
qed

text \<open>Overwriting a slice of a list: the slice reads as written, the disjoint ones as before.\<close>

lemma length_splice [simp]: "n + length ms \<le> length xs \<Longrightarrow> length (splice xs n ms) = length xs"
  by (simp add: splice_def)

lemma nth_splice:
  assumes "n + length ms \<le> length xs" and "j < length xs"
  shows "splice xs n ms ! j = (if n \<le> j \<and> j < n + length ms then ms ! (j - n) else xs ! j)"
  using assms by (auto simp: splice_def nth_append not_less)

lemma slice_splice_same:
  assumes "n + length ms \<le> length xs"
  shows "take (length ms) (drop n (splice xs n ms)) = ms"
  using assms by (simp add: splice_def)

lemma slice_splice_other:
  assumes "n + length ms \<le> length xs" and "a + m \<le> n \<or> n + length ms \<le> a" and "a + m \<le> length xs"
  shows "take m (drop a (splice xs n ms)) = take m (drop a xs)"
  using assms by (intro nth_equalityI) (auto simp: nth_splice)

lemma different_segments:
  assumes "t \<noteq> s"
  shows "t * c + c \<le> s * c \<or> s * c + c \<le> t * (c :: nat)"
proof (cases "t < s")
  case True
  then show ?thesis by (simp add: segment_fits)
next
  case False
  then show ?thesis using assms segment_fits[of s t c] by simp
qed

lemma storage_insert_segments:
  fixes st :: Storage and s :: nat and key val :: int
  assumes ok: "storage_ok st" and s: "s < m_number_segments st"
    and room: "m_segment_sizes st ! s < m_segment_capacity st" and srt: "sorted (seg_keys st s)"
    and few: "m_cardinality st + 1 < 2 ^ 32"
  defines "ks \<equiv> seg_keys st s" and "vs \<equiv> seg_vals st s"
  defines "p \<equiv> insert_pos s key ks"
  obtains st' where "storage_insert st s key val =
      Some (st', p = 0, if p = 0 then INT64_MIN else ks ! (p - 1), if p = length ks then INT64_MAX else ks ! p)"
    and "seg_keys st' s = take p ks @ key # drop p ks" and "seg_vals st' s = take p vs @ val # drop p vs"
    and "\<And>t. t < m_number_segments st \<Longrightarrow> t \<noteq> s \<Longrightarrow> seg_keys st' t = seg_keys st t \<and> seg_vals st' t = seg_vals st t"
    and "storage_ok st'" and "m_number_segments st' = m_number_segments st"
    and "m_segment_capacity st' = m_segment_capacity st" and "m_cardinality st' = m_cardinality st + 1"
    and "m_segment_sizes st' = (m_segment_sizes st)[s := m_segment_sizes st ! s + 1]"
    and "length (m_keys st') = length (m_keys st)" and "length (m_values st') = length (m_values st)"
    and "m_pages_per_extent st' = m_pages_per_extent st" and "m_memory_keys st' = m_memory_keys st"
    and "m_memory_values st' = m_memory_values st" and "m_memory_sizes st' = m_memory_sizes st"
proof -
  let ?c = "m_segment_capacity st"
  define sz where "sz = m_segment_sizes st ! s"
  define n where "n = (if even s then seg_start st s - 1 else seg_start st s)"
  define mk where "mk = take p ks @ key # drop p ks"
  define mv where "mv = take p vs @ val # drop p vs"
  define st' where "st' = st\<lparr>m_keys := splice (m_keys st) n mk, m_values := splice (m_values st) n mv,
      m_segment_sizes := (m_segment_sizes st)[s := sz + 1], m_cardinality := u32 (m_cardinality st + 1)\<rparr>"
  have len: "length ks = sz" "length vs = sz" by (simp_all add: ks_def vs_def sz_def ok s)
  have p: "p \<le> sz" using insert_pos_le[of s key ks] len by (simp add: p_def)
  have lm: "length mk = Suc sz" "length mv = Suc sz" using len p by (simp_all add: mk_def mv_def)
  have nb: "s * ?c \<le> n" "n + Suc sz \<le> s * ?c + ?c" "n = (if even s then (s + 1) * ?c - Suc sz else s * ?c)"
    using room by (auto simp: n_def seg_start_def sz_def)
  have lk: "n + Suc sz \<le> length (m_keys st)" and lv: "n + Suc sz \<le> length (m_values st)"
    using storage_ok_segment[OF ok s] nb by auto
  have sl: "s < length (m_segment_sizes st)" using ok s by (auto simp: storage_ok_def)
  have spl: "splice (m_keys st) n mk = take n (m_keys st) @ (take p ks @ key # drop p ks) @ drop (n + Suc sz) (m_keys st)"
      "splice (m_values st) n mv = take n (m_values st) @ (take p vs @ val # drop p vs) @ drop (n + Suc sz) (m_values st)"
    unfolding splice_def lm by (simp_all add: mk_def mv_def)
  have ins: "storage_insert st s key val =
      Some (st', p = 0, if p = 0 then INT64_MIN else ks ! (p - 1), if p = length ks then INT64_MAX else ks ! p)"
    using storage_insert_cells[OF ok s room srt, of key val, folded sz_def ks_def vs_def n_def, folded p_def]
    by (simp only: st'_def spl len)
  have here: "seg_start st' s = n" "m_segment_sizes st' ! s = Suc sz"
    using nb(3) sl by (simp_all add: st'_def seg_start_def)
  have other: "seg_keys st' t = seg_keys st t \<and> seg_vals st' t = seg_vals st t"
    if t: "t < m_number_segments st" "t \<noteq> s" for t
  proof -
    have start: "seg_start st' t = seg_start st t" "m_segment_sizes st' ! t = m_segment_sizes st ! t"
      using t by (simp_all add: st'_def seg_start_def)
    have apart: "seg_start st t + m_segment_sizes st ! t \<le> n \<or> n + Suc sz \<le> seg_start st t"
      using different_segments[OF t(2), of ?c] seg_bounds[OF ok t(1)] nb(1,2) by linarith
    have ends: "seg_start st t + m_segment_sizes st ! t \<le> length (m_keys st)"
        "seg_start st t + m_segment_sizes st ! t \<le> length (m_values st)"
      using storage_ok_segment[OF ok t(1)] seg_bounds[OF ok t(1)] by linarith+
    show ?thesis
      using slice_splice_other[of n mk "m_keys st" "seg_start st t" "m_segment_sizes st ! t"]
        slice_splice_other[of n mv "m_values st" "seg_start st t" "m_segment_sizes st ! t"] lk lv lm apart ends start
      by (simp add: seg_keys_def seg_vals_def) (simp add: st'_def)
  qed
  have "sum_list (take (m_number_segments st) (m_segment_sizes st')) = m_cardinality st + 1"
    using ok s sl by (simp add: st'_def storage_ok_def sz_def take_update_swap sum_list_update)
  then have ok': "storage_ok st'"
    using ok few lk lv lm room sl by (auto simp: storage_ok_def st'_def sz_def nth_list_update u32_id)
  show ?thesis
  proof (rule that[OF ins])
    show "seg_keys st' s = take p ks @ key # drop p ks"
      using slice_splice_same[of n mk "m_keys st"] lk lm here by (simp add: seg_keys_def mk_def[symmetric]) (simp add: st'_def)
    show "seg_vals st' s = take p vs @ val # drop p vs"
      using slice_splice_same[of n mv "m_values st"] lv lm here by (simp add: seg_vals_def mv_def[symmetric]) (simp add: st'_def)
  qed (use few other ok' lk lv lm in \<open>simp_all add: st'_def sz_def u32_id\<close>)
qed

section \<open>The removal\<close>

lemma shift_right_splice:
  assumes "b + i < length xs" and "m \<le> i"
  shows "shift_right xs b i m = splice xs (b + m) (xs ! (b + m) # take (i - m) (drop (b + m) xs))"
proof -
  define vs where "vs = take i (drop b xs)"
  have len: "length (take b xs) = b" "length vs = m + (i - m)" using assms by (simp_all add: vs_def)
  have xs: "xs = take b xs @ vs @ xs ! (b + i) # drop (b + i + 1) xs"
    using slice_split[of b i xs] assms(1) by (simp add: vs_def Cons_nth_drop_Suc)
  have "shift_right xs b (m + (i - m)) m = shift_right (take b xs @ vs @ xs ! (b + i) # drop (b + i + 1) xs) b (m + (i - m)) m"
    using xs by simp
  also have "\<dots> = take b xs @ take m vs @ (vs @ [xs ! (b + i)]) ! m # drop m vs @ drop (b + i + 1) xs"
    by (rule shift_right_cells[OF len])
  also have "(vs @ [xs ! (b + i)]) ! m = xs ! (b + m)"
    using assms len by (cases "m = i") (simp_all add: nth_append vs_def)
  also have "drop m vs = take (i - m) (drop (b + m) xs)" by (simp add: vs_def drop_take add.commute)
  finally show ?thesis using assms by (simp add: splice_def vs_def take_add min_def)
qed

lemma shift_left_splice:
  assumes "b + e < length xs" and "i \<le> e"
  shows "shift_left xs b i e = splice xs (b + i) (take (e - i) (drop (b + i + 1) xs))"
proof -
  define vs where "vs = take (e - i) (drop (b + i + 1) xs)"
  have len: "length (take (b + i) xs) = b + i" "length vs = e - i" using assms by (simp_all add: vs_def)
  have xs: "xs = take (b + i) xs @ xs ! (b + i) # vs @ drop (b + e + 1) xs"
    using slice_split[of "b + i" "e - i + 1" xs] assms by (simp add: vs_def Cons_nth_drop_Suc[symmetric, of "b + i"])
  have "shift_left xs b i (i + (e - i)) = shift_left (take (b + i) xs @ xs ! (b + i) # vs @ drop (b + e + 1) xs) b i (i + (e - i))"
    using xs by simp
  also have "\<dots> = take (b + i) xs @ take (e - i) vs @ (xs ! (b + i) # vs) ! (e - i) # drop (e - i) vs @ drop (b + e + 1) xs"
    by (rule shift_left_cells[OF len(1)]) (simp add: len)
  also have "(xs ! (b + i) # vs) ! (e - i) = xs ! (b + e)"
  proof (cases "e - i")
    case 0
    then show ?thesis using assms by simp
  next
    case (Suc d)
    then have "e = i + Suc d" by simp
    then show ?thesis using assms by (simp add: vs_def add.assoc)
  qed
  finally have "shift_left xs b i e = take (b + i) xs @ vs @ xs ! (b + e) # drop (b + e + 1) xs" using assms len by simp
  also have "xs ! (b + e) # drop (b + e + 1) xs = drop (b + i + length vs) xs"
    using assms len by (simp add: Cons_nth_drop_Suc)
  finally show ?thesis unfolding splice_def vs_def .
qed

lemma remove_cells_right:
  assumes "k < sz" and "n + sz \<le> length xs"
  defines "ks \<equiv> take sz (drop n xs)"
  shows "take (sz - 1) (drop (n + 1) (splice xs n (xs ! n # take k (drop n xs)))) = take k ks @ drop (k + 1) ks"
  using assms(1,2) by (intro nth_equalityI) (auto simp: ks_def nth_splice nth_append nth_Cons' less_diff_conv)

lemma remove_cells_left:
  assumes "k < sz" and "n + sz \<le> length xs"
  defines "ks \<equiv> take sz (drop n xs)"
  shows "take (sz - 1) (drop n (splice xs (n + k) (take (sz - 1 - k) (drop (n + k + 1) xs)))) = take k ks @ drop (k + 1) ks"
  using assms(1,2) by (intro nth_equalityI) (auto simp: ks_def nth_splice nth_append less_diff_conv)

text \<open>The storage after the removal of the element \<open>k\<close> of a segment.\<close>

definition removed :: "Storage \<Rightarrow> nat \<Rightarrow> nat \<Rightarrow> Storage" where
  "removed st s k =
     (let b = s * m_segment_capacity st; sz = m_segment_sizes st ! s; m = m_segment_capacity st - sz
      in st\<lparr>m_keys := (if even s then shift_right (m_keys st) b (m + k) m else shift_left (m_keys st) b k (sz - 1)),
            m_values := (if even s then shift_right (m_values st) b (m + k) m else shift_left (m_values st) b k (sz - 1)),
            m_segment_sizes := (m_segment_sizes st)[s := sz - 1], m_cardinality := m_cardinality st - 1\<rparr>)"

lemma removed_segments:
  fixes st :: Storage and s k :: nat
  assumes ok: "storage_ok st" and s: "s < m_number_segments st" and k: "k < m_segment_sizes st ! s"
  shows "seg_keys (removed st s k) s = take k (seg_keys st s) @ drop (k + 1) (seg_keys st s)"
    and "seg_vals (removed st s k) s = take k (seg_vals st s) @ drop (k + 1) (seg_vals st s)"
    and "\<And>t. t < m_number_segments st \<Longrightarrow> t \<noteq> s \<Longrightarrow>
      seg_keys (removed st s k) t = seg_keys st t \<and> seg_vals (removed st s k) t = seg_vals st t"
    and "storage_ok (removed st s k)"
proof -
  let ?c = "m_segment_capacity st"
  define sz where "sz = m_segment_sizes st ! s"
  define b where "b = s * ?c"
  define n where "n = seg_start st s"
  note bounds = storage_ok_segment[OF ok s]
  have sl: "s < length (m_segment_sizes st)" using ok s by (auto simp: storage_ok_def)
  have fit: "n + sz \<le> length (m_keys st)" "n + sz \<le> length (m_values st)"
    using seg_bounds[OF ok s] bounds by (simp_all add: n_def sz_def)
  have inside: "b \<le> n" "n + sz \<le> b + ?c" using seg_bounds[OF ok s] by (simp_all add: n_def sz_def b_def)
  have n: "n = (if even s then b + (?c - sz) else b)" using bounds(3) by (simp add: n_def seg_start_def b_def sz_def add.commute)
  define w where "w xs = (if even s then splice xs n (xs ! n # take k (drop n xs))
      else splice xs (n + k) (take (sz - 1 - k) (drop (n + k + 1) xs)))" for xs :: "int list"
  have cells: "(if even s then shift_right xs b (?c - sz + k) (?c - sz) else shift_left xs b k (sz - 1)) = w xs"
    if "n + sz \<le> length xs" for xs :: "int list"
    using that k n shift_right_splice[of b "?c - sz + k" xs "?c - sz"] shift_left_splice[of b "sz - 1" xs k]
    by (auto simp: w_def sz_def)
  have st': "removed st s k = st\<lparr>m_keys := w (m_keys st), m_values := w (m_values st),
      m_segment_sizes := (m_segment_sizes st)[s := sz - 1], m_cardinality := m_cardinality st - 1\<rparr>"
    unfolding removed_def Let_def sz_def[symmetric] b_def[symmetric] cells[OF fit(1)] cells[OF fit(2)] by (rule refl)
  have size': "m_segment_sizes (removed st s k) ! s = sz - 1" using sl by (simp add: st')
  have start': "seg_start (removed st s k) s = (if even s then n + 1 else n)"
    using sl k bounds(3) by (auto simp: st' seg_start_def n_def sz_def)
  have own: "take (sz - 1) (drop (if even s then n + 1 else n) (w xs)) = take k (take sz (drop n xs)) @ drop (k + 1) (take sz (drop n xs))"
    if "n + sz \<le> length xs" for xs
    using remove_cells_right[of k sz n xs] remove_cells_left[of k sz n xs] that k by (simp add: w_def sz_def)
  show "seg_keys (removed st s k) s = take k (seg_keys st s) @ drop (k + 1) (seg_keys st s)"
    using own[OF fit(1)] unfolding seg_keys_def size' start' by (simp add: st' n_def sz_def)
  show "seg_vals (removed st s k) s = take k (seg_vals st s) @ drop (k + 1) (seg_vals st s)"
    using own[OF fit(2)] unfolding seg_vals_def size' start' by (simp add: st' n_def sz_def)
  have wlen: "length (w xs) = length xs" if "n + sz \<le> length xs" for xs
    using that k by (auto simp: w_def sz_def)
  have wother: "take m (drop a (w xs)) = take m (drop a xs)"
    if "n + sz \<le> length xs" "a + m \<le> n \<or> n + sz \<le> a" "a + m \<le> length xs" for xs a m
    using that k slice_splice_other[of n "xs ! n # take k (drop n xs)" xs a m]
      slice_splice_other[of "n + k" "take (sz - 1 - k) (drop (n + k + 1) xs)" xs a m]
    by (auto simp: w_def sz_def)
  show "seg_keys (removed st s k) t = seg_keys st t \<and> seg_vals (removed st s k) t = seg_vals st t"
    if t: "t < m_number_segments st" "t \<noteq> s" for t
  proof -
    have same: "seg_start (removed st s k) t = seg_start st t" "m_segment_sizes (removed st s k) ! t = m_segment_sizes st ! t"
      using t by (simp_all add: st' seg_start_def)
    have apart: "seg_start st t + m_segment_sizes st ! t \<le> n \<or> n + sz \<le> seg_start st t"
      using different_segments[OF t(2), of ?c] seg_bounds[OF ok t(1)] inside unfolding b_def by linarith
    have ends: "seg_start st t + m_segment_sizes st ! t \<le> length (m_keys st)"
        "seg_start st t + m_segment_sizes st ! t \<le> length (m_values st)"
      using storage_ok_segment[OF ok t(1)] seg_bounds[OF ok t(1)] by linarith+
    show ?thesis using wother[OF fit(1) apart ends(1)] wother[OF fit(2) apart ends(2)]
      unfolding seg_keys_def seg_vals_def same by (simp add: st')
  qed
  have "sum_list (take (m_number_segments st) ((m_segment_sizes st)[s := sz - 1])) = m_cardinality st - 1"
    using ok s sl k by (simp add: storage_ok_def sz_def take_update_swap sum_list_update)
  then show "storage_ok (removed st s k)"
    using ok sl k bounds(3) wlen[OF fit(1)] wlen[OF fit(2)] by (auto simp: storage_ok_def st' sz_def nth_list_update)
qed

end
