(* ===== verification/Weights.thy ===== *)
theory Weights
  imports Detector
begin

text \<open>
  The weights of the adaptive rebalancing, \<open>pma/adaptive/int3/weights.cpp\<close>: out of the entries of
  the detector for a window of segments, the intervals of elements that are being hammered with
  insertions (weight 1) or deletions (weight -1).

  \<open>cards\<close> are the cardinalities of the segments of the window, \<open>find_key\<close> is the search of a key in
  one of them, the position of the key or -1. The prefix sums are exact: the 32-bit ones of the code
  overflow with \<open>2 ^ 31\<close> elements in a window.
\<close>

section \<open>Intervals\<close>

record Interval =
  m_start :: nat
  m_length :: nat
  m_weight :: int
  m_associated_segment :: int

definition s32 :: "int \<Rightarrow> int" where
  "s32 x = (x + 2 ^ 31) mod 2 ^ 32 - 2 ^ 31"

definition mk_interval :: "nat \<Rightarrow> nat \<Rightarrow> int \<Rightarrow> int \<Rightarrow> Interval" where
  "mk_interval start len weight associated_segment = \<lparr>m_start = start mod 2 ^ 32, m_length = len mod 2 ^ 16,
     m_weight = s16 weight, m_associated_segment = s32 associated_segment\<rparr>"

text \<open>The subtraction of \<open>size_t\<close>.\<close>

definition size_sub :: "nat \<Rightarrow> nat \<Rightarrow> nat" where
  "size_sub a b = (a + 2 ^ 64 - b) mod 2 ^ 64"

section \<open>Cardinalities\<close>

fun prefix_sums :: "nat \<Rightarrow> nat list \<Rightarrow> nat list" where
  "prefix_sums acc [] = []"
| "prefix_sums acc (c # cs) = (acc + c) # prefix_sums (acc + c) cs"

definition prefix_sum_cardinalities :: "nat list \<Rightarrow> nat list" where
  "prefix_sum_cardinalities cards = prefix_sums 0 cards"

definition get_cardinality_upto_incl :: "nat list \<Rightarrow> nat \<Rightarrow> nat" where
  "get_cardinality_upto_incl cards segment_id = prefix_sum_cardinalities cards ! segment_id"

definition get_cardinality_upto_excl :: "nat list \<Rightarrow> nat \<Rightarrow> nat" where
  "get_cardinality_upto_excl cards segment_id =
     (if 0 < segment_id then get_cardinality_upto_incl cards (segment_id - 1) else 0)"

section \<open>Selection\<close>

definition swap_at :: "'a list \<Rightarrow> nat \<Rightarrow> nat \<Rightarrow> 'a list" where
  "swap_at A i j = A[i := A ! j, j := A ! i]"

definition partition_step :: "int \<Rightarrow> int list \<times> nat \<times> nat \<Rightarrow> nat \<Rightarrow> int list \<times> nat \<times> nat" where
  "partition_step pivot = (\<lambda>(A, i_lt, i_eq) i_gt.
     if A ! i_gt = pivot then (swap_at A i_eq i_gt, i_lt, i_eq + 1)
     else if A ! i_gt < pivot then (swap_at (swap_at A i_lt i_gt) i_eq i_gt, i_lt + 1, i_eq + 1)
     else (A, i_lt, i_eq))"

definition partition_array :: "int list \<Rightarrow> nat \<Rightarrow> int list \<times> nat" where
  "partition_array A len =
     (let A = swap_at A 0 (len div 2); pivot = A ! 0;
          (A, i_lt, i_eq) = foldl (partition_step pivot) (A, 0, 1) [1..<len]
      in (A, i_lt))"

lemma partition_step_lt: "fst (snd (foldl (partition_step pivot) (A, i, j) xs)) \<le> i + length xs"
proof (induction xs rule: rev_induct)
  case (snoc x xs)
  then show ?case by (auto simp: partition_step_def split: prod.splits)
qed simp

lemma partition_lt: "1 < len \<Longrightarrow> snd (partition_array A len) < len"
proof -
  let ?A = "swap_at A 0 (len div 2)"
  assume "1 < len"
  moreover have "fst (snd (foldl (partition_step (?A ! 0)) (?A, 0, 1) [1..<len])) \<le> 0 + length [1..<len]"
    by (rule partition_step_lt)
  moreover have "snd (partition_array A len) = fst (snd (foldl (partition_step (?A ! 0)) (?A, 0, 1) [1..<len]))"
    by (simp add: partition_array_def Let_def split: prod.splits)
  ultimately show ?thesis by simp
qed

text \<open>\<open>A\<close> is the address of the current part, \<open>len\<close> its length.\<close>

function rank_loop :: "int list \<Rightarrow> nat \<Rightarrow> nat \<Rightarrow> int" where
  "rank_loop A len rk =
     (if 1 < len then
        let (A, p) = partition_array A len in
        if p = rk then A ! p
        else if rk < p then rank_loop A p rk
        else rank_loop (drop (p + 1) A) (len - (p + 1)) (rk - (p + 1))
      else A ! 0)"
  by pat_completeness auto
termination
  by (relation "measure (\<lambda>(A, len, rk). len)") (use partition_lt in \<open>auto simp: prod_eq_iff\<close>)

declare rank_loop.simps [simp del]

definition rank :: "int list \<Rightarrow> nat \<Rightarrow> int option" where
  "rank ts position =
     (if position < length ts then Some (rank_loop ts (length ts) position) else None)"

section \<open>Detection\<close>

definition fetch_detector_keys :: "Section list \<Rightarrow> int list" where
  "fetch_detector_keys sections = concat (map (\<lambda>s. filter (\<lambda>v. v \<noteq> 0) (timestamps s)) sections)"

text \<open>The timestamp from which a segment counts as hammered.\<close>

definition select_threshold :: "double \<Rightarrow> nat \<Rightarrow> int list \<Rightarrow> int option" where
  "select_threshold threshold modulus ts =
     (if 0 < length ts then
        let rank_position = \<lfloor>dmul threshold (of_nat (length ts))\<rfloor>;
            rank_max = max 0 (int (length ts) - int modulus)
        in rank ts (nat (min rank_position rank_max))
      else Some (2 ^ 63 - 1))"

text \<open>The weight of a segment, or 0 when it is to be ignored. A head outside the ring, which no detector
  with a modulus up to \<open>2 ^ 15\<close> has, reads another word: here an unspecified one.\<close>

definition hammered_weight :: "Knobs \<Rightarrow> int \<Rightarrow> Section \<Rightarrow> int" where
  "hammered_weight knobs threshold s =
     (if timestamps s ! (if 0 \<le> head s then nat (head s) else length (timestamps s)) < threshold then 0
      else if int (m_segment_threshold knobs) < count_segment s then 1
      else if count_segment s < - int (m_segment_threshold knobs) then - 1 else 0)"

text \<open>The hammered elements of a segment: all of them, or two around the point of the last updates;
  then cut at the end of the window, and never empty.\<close>

definition hammered_range :: "Knobs \<Rightarrow> (nat \<Rightarrow> int \<Rightarrow> int) \<Rightarrow> nat list \<Rightarrow> nat \<Rightarrow> Section \<Rightarrow> int \<Rightarrow> nat \<times> nat" where
  "hammered_range knobs find_key cards i s weight =
     (let base = get_cardinality_upto_excl cards i;
          len = cards ! i;
          seqt = int (m_sequence_threshold knobs);
          total = get_cardinality_upto_incl cards (length cards - 1);
          (base, len) =
            (if 0 < weight \<and> seqt \<le> count_bwd s \<or> weight < 0 \<and> count_bwd s \<le> - seqt then
               let pos_hammered = find_key i (key_bwd s) in
               if pos_hammered \<noteq> - 1
               then (base + nat (if 0 < pos_hammered then pos_hammered - 1 else pos_hammered), 2) else (base, len)
             else if 0 < weight \<and> seqt \<le> count_fwd s \<or> weight < 0 \<and> count_bwd s \<le> - seqt then
               let pos_hammered = find_key i (key_fwd s) in
               if pos_hammered \<noteq> - 1 then (base + nat pos_hammered, 2) else (base, len)
             else (base, len));
          len = (if total < base + len then size_sub total base else len)
      in if len = 0 then (if total \<le> base then size_sub total 1 else base, 1) else (base, len))"

record Weights =
  m_output :: "Interval list"
  m_balance :: int
  w_detector :: Detector
  m_output_released :: bool

definition detect_segment ::
  "Knobs \<Rightarrow> (nat \<Rightarrow> int \<Rightarrow> int) \<Rightarrow> nat list \<Rightarrow> nat \<Rightarrow> int \<Rightarrow> Weights \<Rightarrow> nat \<Rightarrow> Weights option" where
  "detect_segment knobs find_key cards segment_start threshold w i =
     (let s = m_buffer (w_detector w) ! (segment_start + i);
          weight = hammered_weight knobs threshold s
      in if weight = 0 then Some w
      else
        let (base, len) = hammered_range knobs find_key cards i s weight;
            out = m_output w
        in if out \<noteq> [] \<and> base \<le> m_start (last out) + m_length (last out) then
             let predecessor = last out;
                 merged = predecessor\<lparr>m_length := size_sub (base + len) (m_start predecessor) mod 2 ^ 16\<rparr>
             in if m_weight predecessor \<noteq> weight then do {
                  d \<leftarrow> clear_section (w_detector w) (segment_start + i);
                  Some (w\<lparr>m_output := butlast out @ [merged\<lparr>m_weight := 0\<rparr>],
                          m_balance := m_balance w - m_weight predecessor, w_detector := d\<rparr>) }
                else Some (w\<lparr>m_output := butlast out @ [merged]\<rparr>)
           else Some (w\<lparr>m_output := out @ [mk_interval base len weight (int i)], m_balance := m_balance w + weight\<rparr>))"

fun detect_hammered ::
  "Knobs \<Rightarrow> (nat \<Rightarrow> int \<Rightarrow> int) \<Rightarrow> nat list \<Rightarrow> nat \<Rightarrow> int \<Rightarrow> Weights \<Rightarrow> nat list \<Rightarrow> Weights option" where
  "detect_hammered knobs find_key cards segment_start threshold w [] = Some w"
| "detect_hammered knobs find_key cards segment_start threshold w (i # is) = do {
     w \<leftarrow> detect_segment knobs find_key cards segment_start threshold w i;
     detect_hammered knobs find_key cards segment_start threshold w is }"

fun remove_neutral_from :: "nat \<Rightarrow> Weights \<Rightarrow> nat \<Rightarrow> Weights option" where
  "remove_neutral_from segment_start w 0 = Some w"
| "remove_neutral_from segment_start w (Suc i) =
     (let entry = m_output w ! i in
      if m_weight entry = 0 then do {
        d \<leftarrow> (if 0 \<le> m_associated_segment entry
             then clear_section (w_detector w) (segment_start + nat (m_associated_segment entry)) else Some (w_detector w));
        remove_neutral_from segment_start
          (w\<lparr>m_output := take i (m_output w) @ drop (i + 1) (m_output w), w_detector := d\<rparr>) i }
      else remove_neutral_from segment_start w i)"

definition remove_neutral :: "nat \<Rightarrow> Weights \<Rightarrow> Weights option" where
  "remove_neutral segment_start w = remove_neutral_from segment_start w (length (m_output w))"

text \<open>The constructor; the detector is an argument and, with the entries it cleared, in the result.\<close>

definition new_weights :: "Knobs \<Rightarrow> Detector \<Rightarrow> nat list \<Rightarrow> (nat \<Rightarrow> int \<Rightarrow> int) \<Rightarrow> nat \<Rightarrow> nat \<Rightarrow> Weights option" where
  "new_weights knobs d sizes find_key segment_start segment_length =
     (let threshold = m_rank_threshold knobs in
      if threshold \<le> 0 \<or> 1 < threshold then None
      else if detector_capacity d < segment_start + segment_length then None
      else
        let sections = take segment_length (drop segment_start (m_buffer d));
            cards = take segment_length (drop segment_start sizes)
        in do {
          sel \<leftarrow> select_threshold threshold (m_modulus d) (fetch_detector_keys sections);
          w \<leftarrow> detect_hammered knobs find_key cards segment_start sel
                 \<lparr>m_output = [], m_balance = 0, w_detector = d, m_output_released = False\<rparr> [0..<segment_length];
          remove_neutral segment_start w })"

definition release :: "Weights \<Rightarrow> (Weights \<times> Interval list) option" where
  "release w = (if m_output_released w then None else Some (w\<lparr>m_output_released := True, m_output := []\<rparr>, m_output w))"

end
