(* ===== verification/Weights_Proofs.thy ===== *)
theory Weights_Proofs
  imports Weights "HOL-Library.Multiset"
begin

text \<open>
  Facts on the weights: the selection is that of the sorted timestamps, and the intervals found are
  disjoint, in order and inside of the window.
\<close>

section \<open>Selection\<close>

lemma length_swap_at [simp]: "length (swap_at A i j) = length A"
  by (simp add: swap_at_def)

lemma nth_swap_at:
  assumes "i < length A" and "j < length A"
  shows "swap_at A i j ! k = (if k = j then A ! i else if k = i then A ! j else A ! k)"
  using assms by (simp add: swap_at_def nth_list_update)

lemma mset_swap_at: "i < length A \<Longrightarrow> j < length A \<Longrightarrow> mset (swap_at A i j) = mset A"
  using mset_swap[of j A i] by (simp add: swap_at_def)

lemma drop_swap_at: "i < n \<Longrightarrow> j < n \<Longrightarrow> drop n (swap_at A i j) = drop n A"
  by (simp add: swap_at_def)

text \<open>The parts during the partition of the first \<open>len\<close> elements: less than the pivot, equal, greater, not seen.\<close>

definition parts_ok :: "int list \<Rightarrow> nat \<Rightarrow> int \<Rightarrow> nat \<Rightarrow> int list \<times> nat \<times> nat \<Rightarrow> bool" where
  "parts_ok A0 len pivot g = (\<lambda>(A, l, e).
     mset A = mset A0 \<and> drop len A = drop len A0 \<and> l < e \<and> e \<le> g
     \<and> (\<forall>j<l. A ! j < pivot) \<and> (\<forall>j. l \<le> j \<and> j < e \<longrightarrow> A ! j = pivot) \<and> (\<forall>j. e \<le> j \<and> j < g \<longrightarrow> pivot < A ! j))"

lemma parts_ok_step:
  assumes "parts_ok A0 len pivot g x" and "g < len" and "len \<le> length A0"
  shows "parts_ok A0 len pivot (g + 1) (partition_step pivot x g)"
proof -
  obtain A l e where x: "x = (A, l, e)" by (cases x)
  note p = assms(1)[unfolded parts_ok_def x prod.case]
  have len: "length A = length A0" using p by (metis size_mset)
  have b: "l < length A" "e < length A" "g < length A" "l < len" "e < len" using p assms(2,3) len by linarith+
  consider (eq) "A ! g = pivot" | (lt) "A ! g < pivot" | (gt) "pivot < A ! g" by linarith
  then show ?thesis
  proof cases
    case eq
    then show ?thesis using p b assms(2)
      by (auto simp: x parts_ok_def partition_step_def nth_swap_at mset_swap_at drop_swap_at less_Suc_eq)
  next
    case lt
    have l: "A ! l = pivot" using p by simp
    show ?thesis using p b assms(2) lt l
      by (auto simp: x parts_ok_def partition_step_def nth_swap_at mset_swap_at drop_swap_at less_Suc_eq)
  next
    case gt
    then show ?thesis using p b by (auto simp: x parts_ok_def partition_step_def less_Suc_eq)
  qed
qed

lemma parts_ok_fold:
  assumes "parts_ok A0 len pivot 1 x" and "1 \<le> g" and "g \<le> len" and "len \<le> length A0"
  shows "parts_ok A0 len pivot g (foldl (partition_step pivot) x [1..<g])"
  using assms(2,3)
proof (induction g)
  case (Suc g)
  show ?case
  proof (cases "g = 0")
    case True
    then show ?thesis using assms(1) by simp
  next
    case False
    then have "parts_ok A0 len pivot g (foldl (partition_step pivot) x [1..<g])" using Suc by simp
    from parts_ok_step[OF this _ assms(4)] show ?thesis using Suc.prems False by simp
  qed
qed simp

lemma partition_array_parts:
  assumes "1 < len" and "len \<le> length A"
  obtains B p where "partition_array A len = (B, p)" and "p < len" and "length B = length A"
    and "mset (take len B) = mset (take len A)"
    and "\<And>j. j < p \<Longrightarrow> B ! j < B ! p" and "\<And>j. p < j \<Longrightarrow> j < len \<Longrightarrow> B ! p \<le> B ! j"
proof -
  let ?A = "swap_at A 0 (len div 2)"
  obtain B l e where f: "foldl (partition_step (?A ! 0)) (?A, 0, 1) [1..<len] = (B, l, e)" by (metis prod_cases3)
  have h: "0 < length A" "len div 2 < length A" "len div 2 < len" using assms by auto
  have "parts_ok A len (?A ! 0) 1 (?A, 0, 1)"
    using assms mset_swap_at[OF h(1,2)] drop_swap_at[of 0 len "len div 2" A] h by (auto simp: parts_ok_def)
  from parts_ok_fold[OF this, of len] assms
  have p: "parts_ok A len (?A ! 0) len (B, l, e)" unfolding f by simp
  then have m: "mset B = mset A" "drop len B = drop len A" by (simp_all add: parts_ok_def)
  have "mset (take len B) + mset (drop len B) = mset (take len A) + mset (drop len A)"
    using m(1) by (metis append_take_drop_id mset_append)
  then have t: "mset (take len B) = mset (take len A)" using m(2) by simp
  have piv: "B ! l = ?A ! 0" using p by (simp add: parts_ok_def)
  show ?thesis
  proof (rule that[of B l])
    show "partition_array A len = (B, l)" using f by (simp add: partition_array_def Let_def)
    show "l < len" using p by (simp add: parts_ok_def)
    show "length B = length A" using m(1) by (metis size_mset)
    show "B ! j < B ! l" if "j < l" for j using p that piv by (simp add: parts_ok_def)
    show "B ! l \<le> B ! j" if "l < j" "j < len" for j
      using p that piv by (cases "j < e") (auto simp: parts_ok_def not_less dest!: spec[of _ j])
  qed (rule t)
qed

lemma sort_around:
  assumes "mset A = mset (L @ x # R)" and "\<And>y. y \<in> set L \<Longrightarrow> y \<le> x" and "\<And>y. y \<in> set R \<Longrightarrow> x \<le> y"
  shows "sort (A :: int list) = sort L @ x # sort R"
proof (rule properties_for_sort)
  show "mset (sort L @ x # sort R) = mset A" using assms(1) by simp
  show "sorted (sort L @ x # sort R)" using assms(2,3) by (force simp: sorted_append)
qed

lemma rank_loop_sorted:
  assumes "rk < len" and "len \<le> length A"
  shows "rank_loop A len rk = sort (take len A) ! rk"
  using assms
proof (induction A len rk rule: rank_loop.induct)
  case (1 A len rk)
  show ?case
  proof (cases "1 < len")
    case False
    then have "len = 1" using 1 by simp
    then show ?thesis using rank_loop.simps[of A len rk] 1 by (cases A) simp_all
  next
    case True
    obtain B p where p: "partition_array A len = (B, p)" "p < len" "length B = length A"
        "mset (take len B) = mset (take len A)"
        "\<And>j. j < p \<Longrightarrow> B ! j < B ! p" "\<And>j. p < j \<Longrightarrow> j < len \<Longrightarrow> B ! p \<le> B ! j"
      using partition_array_parts[OF True "1.prems"(2)] by metis
    let ?R = "take (len - (p + 1)) (drop (p + 1) B)"
    have split: "take len B = take p B @ B ! p # ?R"
    proof -
      have "take len B = take p (take len B) @ take len B ! p # drop (Suc p) (take len B)"
        by (rule id_take_nth_drop) (use p(2,3) "1.prems"(2) in simp)
      also have "take p (take len B) = take p B" using p(2) by (simp add: min_def)
      also have "take len B ! p = B ! p" using p(2) by simp
      also have "drop (Suc p) (take len B) = ?R" by (simp add: drop_take)
      finally show ?thesis .
    qed
    have le: "y \<le> B ! p" if y: "y \<in> set (take p B)" for y
      using y p(2,3,5) "1.prems"(2) by (auto simp: in_set_conv_nth intro: less_imp_le)
    have ge: "B ! p \<le> y" if y: "y \<in> set ?R" for y
    proof -
      obtain j where "j < len - (p + 1)" "y = B ! (p + 1 + j)"
        using y p(3) "1.prems"(2) by (auto simp: in_set_conv_nth)
      then show ?thesis using p(6)[of "p + 1 + j"] by simp
    qed
    have srt: "sort (take len A) = sort (take p B) @ B ! p # sort ?R"
      by (rule sort_around) (use p(4) split le ge in auto)
    have lp: "length (take p B) = p" using p "1.prems"(2) by simp
    consider (eq) "p = rk" | (lt) "rk < p" | (gt) "p < rk" by linarith
    then show ?thesis
    proof cases
      case eq
      then show ?thesis using rank_loop.simps[of A len rk] True p(1) srt lp by (simp add: nth_append)
    next
      case lt
      have "rank_loop B p rk = sort (take p B) ! rk"
        using "1.IH"(1)[OF True p(1)[symmetric] refl _ lt lt] lt p "1.prems"(2) by simp
      then show ?thesis using rank_loop.simps[of A len rk] True p(1) srt lt lp by (simp add: nth_append)
    next
      case gt
      have "rank_loop (drop (p + 1) B) (len - (p + 1)) (rk - (p + 1)) = sort ?R ! (rk - (p + 1))"
        using "1.IH"(2)[OF True p(1)[symmetric] refl] gt p "1.prems" by simp
      then show ?thesis using rank_loop.simps[of A len rk] True p(1) srt gt lp by (simp add: nth_append)
    qed
  qed
qed

lemma rank_sorted: "k < length ts \<Longrightarrow> rank ts k = Some (sort ts ! k)"
  by (simp add: rank_def rank_loop_sorted)

lemma select_threshold_some:
  assumes "0 < modulus"
  obtains x where "select_threshold threshold modulus ts = Some x"
proof (cases "ts = []")
  case False
  have "nat (min r (max 0 (int (length ts) - int modulus))) < length ts" for r
    using assms False by (cases ts) auto
  then show ?thesis using that False by (auto simp: select_threshold_def Let_def rank_sorted)
qed (use that in \<open>simp add: select_threshold_def\<close>)

section \<open>Cardinalities\<close>

lemma nth_prefix_sums: "i < length cs \<Longrightarrow> prefix_sums acc cs ! i = acc + sum_list (take (i + 1) cs)"
  by (induction cs arbitrary: acc i) (auto simp: nth_Cons split: nat.splits)

lemma upto_incl: "i < length cards \<Longrightarrow> get_cardinality_upto_incl cards i = sum_list (take (i + 1) cards)"
  by (simp add: get_cardinality_upto_incl_def prefix_sum_cardinalities_def nth_prefix_sums)

lemma upto_excl: "i \<le> length cards \<Longrightarrow> get_cardinality_upto_excl cards i = sum_list (take i cards)"
  by (cases i) (auto simp: get_cardinality_upto_excl_def upto_incl)

lemma size_sub_le: "b \<le> a \<Longrightarrow> a < 2 ^ 64 \<Longrightarrow> size_sub a b = a - b"
proof -
  assume "b \<le> a" "a < 2 ^ 64"
  then have "a + 2 ^ 64 - b = (a - b) + 2 ^ 64" "a - b < 2 ^ 64" by linarith+
  then show ?thesis unfolding size_sub_def by (metis mod_add_self2 mod_less)
qed

section \<open>Intervals\<close>

text \<open>A window the detection is for: some elements, fewer than a 16-bit length can count.\<close>

definition window_ok :: "(nat \<Rightarrow> int \<Rightarrow> int) \<Rightarrow> nat list \<Rightarrow> bool" where
  "window_ok find_key cards \<longleftrightarrow> cards \<noteq> [] \<and> 0 < sum_list cards \<and> sum_list cards < 2 ^ 16 \<and> length cards < 2 ^ 31
     \<and> (\<forall>i<length cards. \<forall>k. - 1 \<le> find_key i k \<and> find_key i k \<le> int (cards ! i))"

lemma hammered_range_bounds:
  assumes win: "window_ok find_key cards" and i: "i < length cards"
  defines "e \<equiv> sum_list (take i cards)" and "T \<equiv> sum_list cards"
  obtains b l where "hammered_range knobs find_key cards i s weight = (b, l)"
    and "min e (T - 1) \<le> b" and "b \<le> T - 1" and "1 \<le> l" and "b + l \<le> T" and "b \<le> e + cards ! i"
proof -
  let ?c = "cards ! i"
  have tot: "get_cardinality_upto_incl cards (length cards - 1) = T"
    using win by (simp add: upto_incl window_ok_def T_def)
  have ex: "get_cardinality_upto_excl cards i = e" using i by (simp add: upto_excl e_def)
  have le: "e + ?c \<le> T"
  proof -
    have "sum_list cards = sum_list (take i cards @ cards ! i # drop (Suc i) cards)"
      by (rule arg_cong[OF id_take_nth_drop[OF i]])
    then show ?thesis by (simp add: e_def T_def)
  qed
  have t: "0 < T" "T < 2 ^ 64" using win by (simp_all add: window_ok_def T_def)
  have key: "- 1 \<le> find_key i k" "find_key i k \<le> int ?c" for k using win i by (auto simp: window_ok_def)
  define first where "first b l \<longleftrightarrow> (b = e \<and> l = ?c) \<or> (l = 2 \<and> e \<le> b \<and> b \<le> e + ?c)" for b l :: nat
  have fin: "\<exists>b' l'. (let l2 = (if T < b + l then size_sub T b else l)
        in if l2 = 0 then (if T \<le> b then size_sub T 1 else b, 1) else (b, l2)) = (b', l')
      \<and> min e (T - 1) \<le> b' \<and> b' \<le> T - 1 \<and> 1 \<le> l' \<and> b' + l' \<le> T \<and> b' \<le> e + ?c"
    if f: "first b l" for b l
  proof -
    have "b \<le> T" using f le by (auto simp: first_def)
    then have sub: "size_sub T b = T - b" "size_sub T 1 = T - 1" using t by (simp_all add: size_sub_le)
    show ?thesis using f le t by (auto simp: first_def sub sub(2)[unfolded One_nat_def] Let_def)
  qed
  have f1: "first (e + nat (if 0 < find_key i k then find_key i k - 1 else find_key i k)) 2"
      "first (e + nat (find_key i k)) 2" if "find_key i k \<noteq> - 1" for k
    using key[of k] that by (auto simp: first_def)
  have f0: "first e ?c" by (simp add: first_def)
  let ?seqt = "int (m_sequence_threshold knobs)"
  define X where "X = (if 0 < weight \<and> ?seqt \<le> count_bwd s \<or> weight < 0 \<and> count_bwd s \<le> - ?seqt then
               let pos_hammered = find_key i (key_bwd s) in
               if pos_hammered \<noteq> - 1
               then (e + nat (if 0 < pos_hammered then pos_hammered - 1 else pos_hammered), 2) else (e, ?c)
             else if 0 < weight \<and> ?seqt \<le> count_fwd s \<or> weight < 0 \<and> count_bwd s \<le> - ?seqt then
               let pos_hammered = find_key i (key_fwd s) in
               if pos_hammered \<noteq> - 1 then (e + nat pos_hammered, 2) else (e, ?c)
             else (e, ?c))"
  have "first (fst X) (snd X)"
    using f0 f1[of "key_bwd s"] f1[of "key_fwd s"] unfolding X_def Let_def by (simp split: if_split)
  then obtain b l where bl: "X = (b, l)" and f: "first b l" by (cases X) auto
  from fin[OF f] show ?thesis
    using that unfolding hammered_range_def Let_def tot ex bl[unfolded X_def Let_def] prod.case
    by auto
qed

definition Interval_end :: "Interval \<Rightarrow> nat" where
  "Interval_end x = m_start x + m_length x"

text \<open>The intervals after the first segments of the window, with \<open>e\<close> elements: inside of the window of
  \<open>T\<close> elements, apart from each other, the last one starting before the next segment.\<close>

definition intervals_ok :: "nat \<Rightarrow> nat \<Rightarrow> nat \<Rightarrow> Weights \<Rightarrow> bool" where
  "intervals_ok T i e w \<longleftrightarrow>
     (\<forall>x\<in>set (m_output w). 1 \<le> m_length x \<and> Interval_end x \<le> T \<and> m_weight x \<in> {- 1, 0, 1}
        \<and> 0 \<le> m_associated_segment x \<and> m_associated_segment x < int i)
     \<and> sorted_wrt (\<lambda>x y. Interval_end x < m_start y) (m_output w)
     \<and> (m_output w \<noteq> [] \<longrightarrow> m_start (last (m_output w)) \<le> min e (T - 1))
     \<and> m_balance w = sum_list (map m_weight (m_output w)) \<and> m_output_released w = False"

lemma hammered_weight_values: "hammered_weight knobs threshold s \<in> {- 1, 0, 1}"
  by (simp add: hammered_weight_def)

lemma mk_interval_exact:
  assumes "b < 2 ^ 32" and "l < 2 ^ 16" and "weight \<in> {- 1, 0, 1}" and "i < 2 ^ 31"
  shows "mk_interval b l weight (int i) = \<lparr>m_start = b, m_length = l, m_weight = weight, m_associated_segment = int i\<rparr>"
  using assms by (auto simp: mk_interval_def s16_def s32_def)

lemma intervals_ok_mono:
  "intervals_ok T i e w \<Longrightarrow> i \<le> i' \<Longrightarrow> e \<le> e' \<Longrightarrow> intervals_ok T i' e' w"
  by (force simp: intervals_ok_def)

lemma intervals_ok_append:
  assumes ok: "intervals_ok T i e w" and x: "1 \<le> m_length x" "Interval_end x \<le> T" "m_weight x \<in> {- 1, 0, 1}" "m_associated_segment x = int i"
    and after: "m_output w \<noteq> [] \<Longrightarrow> Interval_end (last (m_output w)) < m_start x"
    and e: "m_start x \<le> min e' (T - 1)"
  shows "intervals_ok T (i + 1) e' (w\<lparr>m_output := m_output w @ [x], m_balance := m_balance w + m_weight x\<rparr>)"
proof -
  have "Interval_end y < m_start x" if "y \<in> set (m_output w)" for y
  proof (cases "m_output w" rule: rev_cases)
    case (snoc xs p)
    have p: "Interval_end p < m_start x" "Interval_end y < m_start p \<or> y = p"
      using after ok that snoc by (auto simp: intervals_ok_def sorted_wrt_append)
    then show ?thesis by (auto simp: Interval_end_def)
  qed (use that in simp)
  then show ?thesis using ok x e by (auto simp: intervals_ok_def sorted_wrt_append)
qed

lemma intervals_ok_merge:
  assumes ok: "intervals_ok T i e w" and out: "m_output w = xs @ [p]"
    and q: "m_start q = m_start p" "1 \<le> m_length q" "Interval_end q \<le> T" "m_weight q \<in> {- 1, 0, 1}"
      "m_associated_segment q = m_associated_segment p"
    and e: "e \<le> e'" and bal: "bal = m_balance w - m_weight p + m_weight q"
  shows "intervals_ok T (i + 1) e' (w\<lparr>m_output := xs @ [q], m_balance := bal\<rparr>)"
  using ok out q e bal by (force simp: intervals_ok_def sorted_wrt_append)

lemma detect_segment_ok:
  assumes win: "window_ok find_key cards" and i: "i < length cards"
    and ok: "intervals_ok (sum_list cards) i (sum_list (take i cards)) w"
    and cap: "segment_start + length cards \<le> detector_capacity (w_detector w)"
  obtains w' where "detect_segment knobs find_key cards segment_start threshold w i = Some w'"
    and "intervals_ok (sum_list cards) (i + 1) (sum_list (take (i + 1) cards)) w'"
    and "detector_capacity (w_detector w') = detector_capacity (w_detector w)"
proof -
  let ?T = "sum_list cards"
  let ?e = "sum_list (take i cards)"
  let ?e' = "sum_list (take (i + 1) cards)"
  let ?s = "m_buffer (w_detector w) ! (segment_start + i)"
  define weight where "weight = hammered_weight knobs threshold ?s"
  have e': "?e' = ?e + cards ! i" using i by (simp add: take_Suc_conv_app_nth)
  have weight: "weight \<in> {- 1, 0, 1}" unfolding weight_def by (rule hammered_weight_values)
  show ?thesis
  proof (cases "weight = 0")
    case True
    show ?thesis
      by (rule that[of w]) (use True ok e' in \<open>auto simp: detect_segment_def Let_def weight_def intro: intervals_ok_mono\<close>)
  next
    case False
    obtain b l where r: "hammered_range knobs find_key cards i ?s weight = (b, l)"
      and b: "min ?e (?T - 1) \<le> b" "b \<le> ?T - 1" "1 \<le> l" "b + l \<le> ?T" "b \<le> ?e'"
      using hammered_range_bounds[OF win i, of knobs ?s weight] unfolding e' by metis
    have T: "0 < ?T" "?T < 2 ^ 16" "length cards < 2 ^ 31" using win by (simp_all add: window_ok_def)
    show ?thesis
    proof (cases "m_output w \<noteq> [] \<and> b \<le> m_start (last (m_output w)) + m_length (last (m_output w))")
      case merge: True
      then obtain xs p where out: "m_output w = xs @ [p]" by (cases "m_output w" rule: rev_cases) auto
      define q where "q = p\<lparr>m_length := b + l - m_start p\<rparr>"
      have p: "m_start p \<le> min ?e (?T - 1)" "m_weight p \<in> {- 1, 0, 1}" using ok out by (auto simp: intervals_ok_def)
      have q: "size_sub (b + l) (m_start p) mod 2 ^ 16 = b + l - m_start p" "Interval_end q = b + l" "1 \<le> m_length q"
        using p b T by (auto simp: size_sub_le q_def Interval_end_def)
      let ?w = "\<lambda>w q bal. w\<lparr>m_output := xs @ [q], m_balance := bal\<rparr>"
      show ?thesis
      proof (cases "m_weight p = weight")
        case True
        have "intervals_ok ?T (i + 1) ?e' (?w w q (m_balance w))"
          by (rule intervals_ok_merge[OF ok out]) (use p q b e' in \<open>auto simp: q_def\<close>)
        then show ?thesis
          by (intro that[of "w\<lparr>m_output := xs @ [q]\<rparr>"])
            (use True False merge out q r in \<open>simp_all add: detect_segment_def Let_def weight_def[symmetric] q_def intervals_ok_def\<close>)
      next
        case differ: False
        obtain d where d: "clear_section (w_detector w) (segment_start + i) = Some d" "detector_capacity d = detector_capacity (w_detector w)"
          using cap i by (auto simp: clear_section_def detector_capacity_def)
        have "intervals_ok ?T (i + 1) ?e' (?w w (q\<lparr>m_weight := 0\<rparr>) (m_balance w - m_weight p))"
          by (rule intervals_ok_merge[OF ok out]) (use p q b e' in \<open>auto simp: q_def Interval_end_def\<close>)
        then show ?thesis
          by (intro that[of "w\<lparr>m_output := xs @ [q\<lparr>m_weight := 0\<rparr>], m_balance := m_balance w - m_weight p, w_detector := d\<rparr>"])
            (use differ False merge out q r d in \<open>simp_all add: detect_segment_def Let_def weight_def[symmetric] q_def intervals_ok_def\<close>)
      qed
    next
      case apart: False
      define x where "x = mk_interval b l weight (int i)"
      have x: "x = \<lparr>m_start = b, m_length = l, m_weight = weight, m_associated_segment = int i\<rparr>"
        unfolding x_def by (rule mk_interval_exact) (use b T i weight in auto)
      have "intervals_ok ?T (i + 1) ?e' (w\<lparr>m_output := m_output w @ [x], m_balance := m_balance w + m_weight x\<rparr>)"
        by (rule intervals_ok_append[OF ok]) (use x b apart weight in \<open>auto simp: Interval_end_def\<close>)
      then show ?thesis
        by (intro that[of "w\<lparr>m_output := m_output w @ [x], m_balance := m_balance w + m_weight x\<rparr>"])
          (use False r x x_def in \<open>simp_all add: detect_segment_def Let_def weight_def[symmetric] if_not_P[OF apart]\<close>)
    qed
  qed
qed

lemma detect_hammered_ok:
  assumes win: "window_ok find_key cards"
    and ok: "intervals_ok (sum_list cards) i (sum_list (take i cards)) w" and i: "i \<le> length cards"
    and cap: "segment_start + length cards \<le> detector_capacity (w_detector w)"
  obtains w' where "detect_hammered knobs find_key cards segment_start threshold w [i..<length cards] = Some w'"
    and "intervals_ok (sum_list cards) (length cards) (sum_list cards) w'"
    and "detector_capacity (w_detector w') = detector_capacity (w_detector w)"
  using ok i cap
proof (induction "length cards - i" arbitrary: i w thesis)
  case 0
  then show ?case using "0.prems"(1)[of w] by simp
next
  case (Suc n)
  then have i: "i < length cards" by simp
  obtain w1 where w1: "detect_segment knobs find_key cards segment_start threshold w i = Some w1"
      "intervals_ok (sum_list cards) (i + 1) (sum_list (take (i + 1) cards)) w1"
      "detector_capacity (w_detector w1) = detector_capacity (w_detector w)"
    using detect_segment_ok[OF win i Suc.prems(2,4)] by metis
  have n: "n = length cards - (i + 1)" using Suc by simp
  obtain w2 where w2: "detect_hammered knobs find_key cards segment_start threshold w1 [i + 1..<length cards] = Some w2"
      "intervals_ok (sum_list cards) (length cards) (sum_list cards) w2"
      "detector_capacity (w_detector w2) = detector_capacity (w_detector w1)"
    by (rule Suc.hyps(1)[OF n _ w1(2)]) (use i Suc.prems(4) w1(3) in auto)
  show ?case using Suc.prems(1)[of w2] w1 w2 upt_conv_Cons[OF i] by simp
qed

lemma remove_neutral_from_filter:
  assumes "n \<le> length (m_output w)" and "\<forall>x\<in>set (m_output w). segment_start + nat (m_associated_segment x) < detector_capacity (w_detector w)"
  obtains d where "remove_neutral_from segment_start w n =
      Some (w\<lparr>m_output := filter (\<lambda>x. m_weight x \<noteq> 0) (take n (m_output w)) @ drop n (m_output w), w_detector := d\<rparr>)"
    and "detector_capacity d = detector_capacity (w_detector w)"
  using assms
proof (induction n arbitrary: w thesis)
  case 0
  then show ?case using "0.prems"(1)[of "w_detector w"] by simp
next
  case (Suc n)
  let ?x = "m_output w ! n"
  have n: "n < length (m_output w)" using Suc.prems(2) by simp
  have x: "?x \<in> set (m_output w)" using n by simp
  have dr: "drop n (m_output w) = ?x # drop (Suc n) (m_output w)" using n by (simp add: Cons_nth_drop_Suc)
  have tk: "take (Suc n) (m_output w) = take n (m_output w) @ [?x]" using n by (simp add: take_Suc_conv_app_nth)
  show ?case
  proof (cases "m_weight ?x = 0")
    case True
    obtain d where d: "(if 0 \<le> m_associated_segment ?x
             then clear_section (w_detector w) (segment_start + nat (m_associated_segment ?x)) else Some (w_detector w)) = Some d"
        "detector_capacity d = detector_capacity (w_detector w)"
      using Suc.prems(3) x by (cases "0 \<le> m_associated_segment ?x") (auto simp: clear_section_def detector_capacity_def)
    let ?w = "w\<lparr>m_output := take n (m_output w) @ drop (n + 1) (m_output w), w_detector := d\<rparr>"
    obtain d' where "remove_neutral_from segment_start ?w n =
        Some (?w\<lparr>m_output := filter (\<lambda>x. m_weight x \<noteq> 0) (take n (m_output ?w)) @ drop n (m_output ?w), w_detector := d'\<rparr>)"
        "detector_capacity d' = detector_capacity (w_detector ?w)"
      by (rule Suc.IH[of ?w]) (use n d(2) Suc.prems(3) in \<open>auto dest: in_set_takeD in_set_dropD\<close>)
    then show ?thesis using Suc.prems(1)[of d'] True d n tk by (simp add: min_def)
  next
    case False
    obtain d' where "remove_neutral_from segment_start w n =
        Some (w\<lparr>m_output := filter (\<lambda>x. m_weight x \<noteq> 0) (take n (m_output w)) @ drop n (m_output w), w_detector := d'\<rparr>)"
        "detector_capacity d' = detector_capacity (w_detector w)"
      by (rule Suc.IH[of w]) (use n Suc.prems(3) in auto)
    then show ?thesis using Suc.prems(1)[of d'] False tk dr by simp
  qed
qed

text \<open>The weights a rebalancing works on: intervals of elements of the window, apart from each other,
  hammered either by insertions or deletions, and the balance of their signs.\<close>

definition weights_ok :: "nat \<Rightarrow> Interval list \<Rightarrow> int \<Rightarrow> bool" where
  "weights_ok n xs bal \<longleftrightarrow>
     (\<forall>x\<in>set xs. 1 \<le> m_length x \<and> m_start x + m_length x \<le> n \<and> m_weight x \<in> {- 1, 1})
     \<and> sorted_wrt (\<lambda>x y. m_start x + m_length x < m_start y) xs \<and> bal = sum_list (map m_weight xs)"

lemma sum_list_filter_neutral: "sum_list (map f (filter (\<lambda>x. f x \<noteq> 0) xs)) = sum_list (map f xs)"
  by (induction xs) auto

lemma new_weights_ok:
  assumes cards: "cards = take segment_length (drop segment_start sizes)" "length cards = segment_length"
    and win: "window_ok find_key cards" and thr: "0 < m_rank_threshold knobs" "m_rank_threshold knobs \<le> 1"
    and cap: "segment_start + segment_length \<le> detector_capacity d" and modulus: "0 < m_modulus d"
  obtains w where "new_weights knobs d sizes find_key segment_start segment_length = Some w"
    and "weights_ok (sum_list cards) (m_output w) (m_balance w)" and "m_output_released w = False"
    and "\<forall>x\<in>set (m_output w). 0 \<le> m_associated_segment x \<and> m_associated_segment x < int segment_length"
    and "detector_capacity (w_detector w) = detector_capacity d"
proof -
  let ?ts = "fetch_detector_keys (take segment_length (drop segment_start (m_buffer d)))"
  let ?w0 = "\<lparr>m_output = [], m_balance = 0, w_detector = d, m_output_released = False\<rparr>"
  obtain x where x: "select_threshold (m_rank_threshold knobs) (m_modulus d) ?ts = Some x"
    using select_threshold_some[OF modulus] by metis
  have "intervals_ok (sum_list cards) 0 (sum_list (take 0 cards)) ?w0" by (simp add: intervals_ok_def)
  then obtain w1 where w1: "detect_hammered knobs find_key cards segment_start x ?w0 [0..<segment_length] = Some w1"
      "intervals_ok (sum_list cards) segment_length (sum_list cards) w1"
      "detector_capacity (w_detector w1) = detector_capacity d"
    using detect_hammered_ok[OF win, of 0 ?w0 segment_start knobs x] cards(2) cap by auto
  have assoc: "\<forall>x\<in>set (m_output w1). segment_start + nat (m_associated_segment x) < detector_capacity (w_detector w1)"
  proof
    fix x assume "x \<in> set (m_output w1)"
    then have "0 \<le> m_associated_segment x" "m_associated_segment x < int segment_length" using w1(2) by (auto simp: intervals_ok_def)
    then show "segment_start + nat (m_associated_segment x) < detector_capacity (w_detector w1)" using w1(3) cap by linarith
  qed
  obtain d' where d': "remove_neutral segment_start w1 = Some (w1\<lparr>m_output := filter (\<lambda>x. m_weight x \<noteq> 0) (m_output w1), w_detector := d'\<rparr>)"
      "detector_capacity d' = detector_capacity (w_detector w1)"
    using remove_neutral_from_filter[OF le_refl assoc] by (auto simp: remove_neutral_def)
  show ?thesis
  proof (rule that)
    show "new_weights knobs d sizes find_key segment_start segment_length =
        Some (w1\<lparr>m_output := filter (\<lambda>x. m_weight x \<noteq> 0) (m_output w1), w_detector := d'\<rparr>)"
      using thr cap x w1(1) d'(1) by (simp add: new_weights_def Let_def cards(1)[symmetric])
  qed (use w1(2,3) d'(2) in \<open>auto simp: weights_ok_def intervals_ok_def sum_list_filter_neutral Interval_end_def sorted_wrt_filter\<close>)
qed

end
