(* ===== verification/Adaptive.thy ===== *)
theory Adaptive
  imports Weights Density_Bounds "HOL-Library.Signed_Division"
begin

text \<open>
  The adaptive rebalancing, \<open>pma/adaptive/int3/adaptive_rebalancing.cpp\<close>: it splits the segments of a
  window recursively, deciding how many elements go to each half according to the hammered
  intervals, and emits partitions: cardinalities to spread evenly over so many segments.

  \<open>log2d\<close> is the function \<open>log2\<close> of the C library on the numbers of segments. \<open>None\<close> is a failed
  assertion or an exception. Cardinalities stay under \<open>2 ^ 31\<close>, the range of the code's \<open>int\<close>.
\<close>

section \<open>Data\<close>

record Partition =
  p_cardinality :: nat
  p_segments :: nat

definition mk_partition :: "nat \<Rightarrow> nat \<Rightarrow> Partition" where
  "mk_partition cardinality segments = \<lparr>p_cardinality = cardinality mod 2 ^ 32, p_segments = segments mod 2 ^ 32\<rparr>"

record Optimum =
  o_cardinality :: int
  o_weights_index :: int
  o_weights_balance :: int

record AdaptiveRebalancing =
  ar_height :: nat
  ar_segment_capacity :: nat
  ar_densities :: DensityBounds

type_synonym AR_Output = "Partition list \<times> MoveDetectorInfo option"

definition get_density :: "AdaptiveRebalancing \<Rightarrow> double \<Rightarrow> (double \<times> double) option" where
  "get_density ar node_height = thresholds_dec (ar_densities ar) (ar_height ar) node_height"

definition emit :: "AdaptiveRebalancing \<Rightarrow> nat \<Rightarrow> nat \<Rightarrow> AR_Output \<Rightarrow> AR_Output option" where
  "emit ar cardinality number_of_segments out =
     (if number_of_segments \<le> cardinality \<and> cardinality \<le> number_of_segments * ar_segment_capacity ar
      then Some (fst out @ [mk_partition cardinality number_of_segments], snd out) else None)"

definition move_detector_info :: "int \<Rightarrow> nat \<Rightarrow> AR_Output \<Rightarrow> AR_Output option" where
  "move_detector_info segment_id destination out =
     (case snd out of
        Some info \<Rightarrow> if 0 \<le> segment_id
          then do { info \<leftarrow> move_section info (nat segment_id) destination; Some (fst out, Some info) } else Some out
      | None \<Rightarrow> Some out)"

section \<open>The split point\<close>

text \<open>The two \<open>do\<close> loops, then the loop that alternates them.\<close>

function walk_left :: "Interval list \<Rightarrow> int \<Rightarrow> int \<Rightarrow> int \<Rightarrow> int \<Rightarrow> int \<times> int" where
  "walk_left W target i j balance_left =
     (let balance_left = balance_left + m_weight (W ! nat i)
      in if balance_left \<noteq> target \<and> i + 1 \<le> j then walk_left W target (i + 1) j balance_left else (i + 1, balance_left))"
  by pat_completeness auto
termination by (relation "measure (\<lambda>(W, target, i, j, b). nat (j - i))") auto

function walk_right :: "Interval list \<Rightarrow> int \<Rightarrow> int \<Rightarrow> int \<Rightarrow> int \<Rightarrow> int \<times> int" where
  "walk_right W target i j balance_right =
     (let balance_right = balance_right + m_weight (W ! nat j)
      in if balance_right \<noteq> target \<and> i \<le> j - 1 then walk_right W target i (j - 1) balance_right else (j - 1, balance_right))"
  by pat_completeness auto
termination by (relation "measure (\<lambda>(W, target, i, j, b). nat (j - i))") auto

declare walk_left.simps [simp del] walk_right.simps [simp del]

lemma walk_left_bounds: "i \<le> j \<Longrightarrow> i < fst (walk_left W target i j b) \<and> fst (walk_left W target i j b) \<le> j + 1"
proof (induction W target i j b rule: walk_left.induct)
  case (1 W target i j b)
  then show ?case by (simp add: walk_left.simps[of W target i j b] Let_def) (auto dest: "1.IH"[OF refl])
qed

lemma walk_right_bounds: "i \<le> j \<Longrightarrow> fst (walk_right W target i j b) < j \<and> i - 1 \<le> fst (walk_right W target i j b)"
proof (induction W target i j b rule: walk_right.induct)
  case (1 W target i j b)
  then show ?case by (simp add: walk_right.simps[of W target i j b] Let_def) (auto dest: "1.IH"[OF refl])
qed

function split_loop :: "Interval list \<Rightarrow> int \<Rightarrow> int \<Rightarrow> int \<Rightarrow> int \<Rightarrow> int \<Rightarrow> bool \<Rightarrow> int \<times> int \<times> bool" where
  "split_loop W target i j balance_left balance_right move_left =
     (if i \<le> j then
        if move_left then
          let (i, balance_left) = walk_left W target i j balance_left
          in split_loop W target i j balance_left balance_right False
        else
          let (j, balance_right) = walk_right W target i j balance_right
          in split_loop W target i j balance_left balance_right True
      else (i, balance_left, move_left))"
  by pat_completeness auto
termination
proof (relation "measure (\<lambda>(W, target, i, j, bl, br, mv). nat (j + 1 - i))")
  fix W :: "Interval list" and target i j bl br y z :: int and mv :: bool and x :: "int \<times> int"
  assume "i \<le> j"
  show "mv \<Longrightarrow> x = walk_left W target i j bl \<Longrightarrow> (y, z) = x \<Longrightarrow>
      ((W, target, y, j, z, br, False), W, target, i, j, bl, br, mv) \<in> measure (\<lambda>(W, target, i, j, bl, br, mv). nat (j + 1 - i))"
    using walk_left_bounds[OF \<open>i \<le> j\<close>, of W target bl] by (auto simp: prod_eq_iff)
  show "\<not> mv \<Longrightarrow> x = walk_right W target i j br \<Longrightarrow> (y, z) = x \<Longrightarrow>
      ((W, target, i, y, bl, z, True), W, target, i, j, bl, br, mv) \<in> measure (\<lambda>(W, target, i, j, bl, br, mv). nat (j + 1 - i))"
    using walk_right_bounds[OF \<open>i \<le> j\<close>, of W target br] by (auto simp: prod_eq_iff)
qed simp

declare split_loop.simps [simp del]

definition find_split_point :: "Interval list \<Rightarrow> int \<Rightarrow> (int \<times> int) option" where
  "find_split_point W balance_total =
     (if W = [] then None
      else
        let (i, balance_left, move_left) = split_loop W (balance_total sdiv 2) 0 (int (length W) - 1) 0 0 True
        in Some (if \<not> move_left then i - 1 else i, balance_left))"

section \<open>The optimum\<close>

text \<open>The result narrows to an \<open>int\<close>. The two bounds are \<open>int\<close> too, exact for starts below \<open>2 ^ 31\<close>, more
  than the elements of any window.\<close>

definition rebalancing_paro :: "Interval list \<Rightarrow> int \<Rightarrow> nat \<Rightarrow> int option" where
  "rebalancing_paro W index_split cardinality =
     (if index_split < 0 then Some (int (m_start (W ! 0) div 2))
      else
        let base_left = m_start (W ! nat index_split) + m_length (W ! nat index_split)
        in if index_split + 1 = int (length W) then Some (s32 (int (base_left + cardinality div 2)))
        else
          let base_right = m_start (W ! nat (index_split + 1))
          in if base_left \<le> base_right then Some (s32 (int (base_left + (base_right - base_left) div 2))) else None)"

definition rebalancing_sparu :: "Interval list \<Rightarrow> int \<Rightarrow> nat \<Rightarrow> int option" where
  "rebalancing_sparu W index_split cardinality =
     (if 0 \<le> index_split \<and> index_split < int (length W) then
        let w = W ! nat index_split;
            card_left = m_start w + m_length w;
            card_right = size_sub cardinality (m_start w)
        in Some (int (if m_weight w < 0
             then if card_left < card_right then m_start w else card_left
             else if card_left < card_right then card_left else m_start w))
      else None)"

definition find_optimum :: "Interval list \<Rightarrow> int \<Rightarrow> nat \<Rightarrow> Optimum option" where
  "find_optimum W balance cardinality = do {
     (index, left_balance) \<leftarrow> find_split_point W balance;
     if even (length W) then do {
       card_left \<leftarrow> rebalancing_paro W index cardinality;
       Some \<lparr>o_cardinality = card_left, o_weights_index = index, o_weights_balance = left_balance\<rparr> }
     else do {
       card_left \<leftarrow> rebalancing_sparu W index cardinality;
       Some (if card_left < int (m_start (W ! nat index))
         then \<lparr>o_cardinality = card_left, o_weights_index = index - 1,
               o_weights_balance = left_balance - m_weight (W ! nat index)\<rparr>
         else \<lparr>o_cardinality = card_left, o_weights_index = index, o_weights_balance = left_balance\<rparr>) } }"

section \<open>The thresholds\<close>

definition w_end :: "Interval \<Rightarrow> int" where
  "w_end w = int (m_start w) + int (m_length w)"

text \<open>A hammered section is cut at \<open>objective\<close> and its right or left part kept.\<close>

definition keep_right :: "Interval \<Rightarrow> int \<Rightarrow> nat \<Rightarrow> Interval" where
  "keep_right w objective part = w\<lparr>m_start := nat (objective mod 2 ^ 32), m_length := part mod 2 ^ 16\<rparr>"

definition keep_left :: "Interval \<Rightarrow> nat \<Rightarrow> Interval" where
  "keep_left w part = w\<lparr>m_length := part mod 2 ^ 16\<rparr>"

function lower_loop :: "Interval list \<Rightarrow> int \<Rightarrow> nat \<Rightarrow> int \<Rightarrow> nat \<times> int" where
  "lower_loop W objective idx_split weight_balance =
     (if idx_split < length W then
        let w = W ! idx_split in
        if int (m_start w) < objective then
          if w_end w < objective then lower_loop W objective (idx_split + 1) (weight_balance + m_weight w)
          else (idx_split, weight_balance + m_weight w)
        else (idx_split - 1, weight_balance)
      else (idx_split, weight_balance))"
  by pat_completeness auto
termination by (relation "measure (\<lambda>(W, objective, idx, b). length W - idx)") auto

declare lower_loop.simps [simp del]

text \<open>The last part of \<open>ensure_lower_threshold\<close>, from the index found.\<close>

definition ensure_lower_found :: "int \<Rightarrow> int \<Rightarrow> Interval list \<Rightarrow> nat \<Rightarrow> int \<Rightarrow> Interval list \<times> Optimum" where
  "ensure_lower_found lmin lmax W idx weight_balance =
     (let mk = (\<lambda>objective idx_split bal. \<lparr>o_cardinality = objective, o_weights_index = idx_split, o_weights_balance = bal\<rparr>)
      in if idx < length W then
        let w = W ! idx; w_start = int (m_start w) in
        if w_start < lmin \<and> lmin < w_end w then
          if w_end w \<le> lmax then
            (W, mk (if 0 \<le> weight_balance then w_end w
                    else if idx + 1 < length W \<and> int (m_start (W ! (idx + 1))) < lmax
                      then int (m_start (W ! (idx + 1))) else lmax) (int idx) weight_balance)
          else
            let sect_left_part = nat (lmin - w_start); sect_right_part = nat (w_end w - lmin) in
            if sect_left_part < sect_right_part
            then (W[idx := keep_right w lmin sect_right_part], mk lmin (int idx - 1) (weight_balance - m_weight w))
            else (W[idx := keep_left w sect_left_part], mk lmin (int idx) weight_balance)
        else (W, mk lmin (int idx) weight_balance)
      else (W, mk (if weight_balance < 0 then lmax else lmin) (int idx - 1) weight_balance))"

definition ensure_lower_threshold :: "int \<Rightarrow> int \<Rightarrow> Interval list \<Rightarrow> Optimum \<Rightarrow> (Interval list \<times> Optimum) option" where
  "ensure_lower_threshold lmin lmax W current =
     (let mk = (\<lambda>objective idx_split bal. \<lparr>o_cardinality = objective, o_weights_index = idx_split, o_weights_balance = bal\<rparr>);
          search = (\<lambda>idx bal. if 0 \<le> idx
            then case lower_loop W lmin (nat (idx + 1)) bal of (i, b) \<Rightarrow> Some (ensure_lower_found lmin lmax W i b)
            else None);
          idx_split = o_weights_index current;
          weight_balance = o_weights_balance current
      in if idx_split = - 1 then
           if W = [] then None
           else
             let w = W ! 0; w_start = int (m_start w) in
             if w_end w < lmin then search 0 (weight_balance + m_weight w)
             else if w_start < lmin then
               if w_end w \<le> lmax then
                 let weight_balance = weight_balance + m_weight w
                 in Some (W, mk (if weight_balance < 0
                      then if 1 < length W \<and> int (m_start (W ! 1)) < lmax then int (m_start (W ! 1)) else lmax
                      else w_end w) 0 weight_balance)
               else
                 let sect_left_part = nat (lmin - w_start); sect_right_part = nat (w_end w - lmin) in
                 if sect_left_part < sect_right_part
                 then Some (W[0 := keep_right w lmin sect_right_part], mk lmin (- 1) weight_balance)
                 else Some (W[0 := keep_left w sect_left_part], mk lmin 0 (weight_balance + m_weight w))
             else search idx_split weight_balance
         else search idx_split weight_balance)"

function upper_loop :: "Interval list \<Rightarrow> int \<Rightarrow> int \<Rightarrow> int \<Rightarrow> int \<times> int" where
  "upper_loop W objective idx_split balance_delta =
     (if 0 \<le> idx_split \<and> objective \<le> int (m_start (W ! nat idx_split))
      then upper_loop W objective (idx_split - 1) (balance_delta + m_weight (W ! nat idx_split))
      else (idx_split, balance_delta))"
  by pat_completeness auto
termination by (relation "measure (\<lambda>(W, objective, idx, b). nat (idx + 1))") auto

declare upper_loop.simps [simp del]

definition ensure_upper_threshold :: "int \<Rightarrow> int \<Rightarrow> Interval list \<Rightarrow> Optimum \<Rightarrow> Interval list \<times> Optimum" where
  "ensure_upper_threshold lmin lmax W current =
     (let mk = (\<lambda>objective idx_split delta. \<lparr>o_cardinality = objective, o_weights_index = idx_split,
            o_weights_balance = o_weights_balance current - delta\<rparr>);
          (idx_split, balance_delta) = upper_loop W lmax (o_weights_index current) 0
      in if 0 \<le> idx_split then
           let w = W ! nat idx_split; w_start = int (m_start w) in
           if lmax < w_end w then
             if lmin \<le> w_start then
               let balance_delta = balance_delta + m_weight w; idx_split = idx_split - 1
               in (W, mk (if 0 \<le> balance_delta then w_start
                          else if 0 \<le> idx_split then max (w_end (W ! nat idx_split)) lmin else lmin)
                      idx_split balance_delta)
             else
               let sect_left_part = nat (lmax - w_start); sect_right_part = nat (w_end w - lmax) in
               if sect_left_part < sect_right_part
               then (W[nat idx_split := keep_right w lmax sect_right_part], mk lmax (idx_split - 1) (balance_delta + m_weight w))
               else (W[nat idx_split := keep_left w sect_left_part], mk lmax idx_split balance_delta)
           else (W, mk (if balance_delta < 0 then max lmin (w_end w) else lmax) idx_split balance_delta)
         else (W, mk (if balance_delta < 0 then lmin else lmax) idx_split balance_delta))"

text \<open>The elements a window of so many segments is to hold: the thresholds of its height, and at least
  one element per segment.\<close>

definition window_limits :: "(nat \<Rightarrow> double) \<Rightarrow> AdaptiveRebalancing \<Rightarrow> nat \<Rightarrow> (int \<times> int) option" where
  "window_limits log2d ar num_segments = do {
     (rho, theta) \<leftarrow> get_density ar (dadd (log2d num_segments) 1);
     let window_capacity = d_of_nat (num_segments * ar_segment_capacity ar);
     Some (max \<lceil>dmul rho window_capacity\<rceil> (int num_segments), \<lfloor>dmul theta window_capacity\<rfloor>) }"

definition validate_thresholds ::
  "(nat \<Rightarrow> double) \<Rightarrow> AdaptiveRebalancing \<Rightarrow> nat \<Rightarrow> Interval list \<Rightarrow> nat \<Rightarrow> Optimum \<Rightarrow> (Interval list \<times> Optimum) option" where
  "validate_thresholds log2d ar part_length W opt_cardinality opt = do {
     (size_min_left, size_max_left) \<leftarrow> window_limits log2d ar (part_length div 2 + part_length mod 2);
     (size_min_right, size_max_right) \<leftarrow> window_limits log2d ar (part_length div 2);
     let cardinality_min = max size_min_left (int opt_cardinality - size_max_right);
     let cardinality_max = min size_max_left (int opt_cardinality - size_min_right);
     if \<not> cardinality_min \<le> cardinality_max then None
     else if o_cardinality opt < cardinality_min
       then ensure_lower_threshold cardinality_min cardinality_max W opt
     else if cardinality_max < o_cardinality opt
       then Some (ensure_upper_threshold cardinality_min cardinality_max W opt)
     else Some (W, opt) }"

section \<open>The recursion\<close>

definition shift_interval :: "int \<Rightarrow> Interval \<Rightarrow> Interval" where
  "shift_interval W_offset w = w\<lparr>m_start := nat ((int (m_start w) - W_offset) mod 2 ^ 32)\<rparr>"

text \<open>A window of no segments with weights ends at an assertion on the height, \<open>log2(0) + 1\<close>.\<close>

function recursion ::
  "(nat \<Rightarrow> double) \<Rightarrow> AdaptiveRebalancing \<Rightarrow> nat \<Rightarrow> nat \<Rightarrow> Interval list \<Rightarrow> int \<Rightarrow> nat \<Rightarrow> AR_Output \<Rightarrow> AR_Output option" where
  "recursion log2d ar part_start part_length W balance cardinality out =
     (if part_length = 1 then do {
        out \<leftarrow> emit ar cardinality 1 out;
        if W \<noteq> [] then move_detector_info (m_associated_segment (W ! 0)) part_start out else Some out }
      else if W = [] then emit ar cardinality part_length out
      else if part_length = 2 \<and> length W = 1 \<and> m_length (W ! 0) = ar_segment_capacity ar then do {
        out \<leftarrow> emit ar cardinality part_length out;
        out \<leftarrow> move_detector_info (m_associated_segment (W ! 0)) part_start out;
        move_detector_info (m_associated_segment (W ! 0)) (part_start + 1) out }
      else if part_length = 0 then None
      else do {
        opt_left \<leftarrow> find_optimum W balance cardinality;
        (W, opt_left) \<leftarrow> validate_thresholds log2d ar part_length W cardinality opt_left;
        let w_left_sz = nat (o_weights_index opt_left + 1);
        let part_left_sz = part_length div 2 + part_length mod 2;
        out \<leftarrow> recursion log2d ar part_start part_left_sz (take w_left_sz W) (o_weights_balance opt_left)
                 (nat (o_cardinality opt_left)) out;
        recursion log2d ar (part_start + part_left_sz) (part_length div 2)
          (map (shift_interval (o_cardinality opt_left)) (drop w_left_sz W))
          (balance - o_weights_balance opt_left) (size_sub cardinality (nat (o_cardinality opt_left))) out })"
  by pat_completeness auto
termination
proof (relation "measure (\<lambda>(log2d, ar, part_start, part_length, W, balance, cardinality, out). part_length)")
  have "n div 2 + n mod 2 < n" if "n \<noteq> 1" "n \<noteq> 0" for n :: nat using that by presburger
  then show "((log2d, ar, part_start, part_left_sz, take w_left_sz W2, o_weights_balance opt2, nat (o_cardinality opt2), out),
      log2d, ar, part_start, part_length, W, balance, cardinality, out)
      \<in> measure (\<lambda>(log2d, ar, part_start, part_length, W, balance, cardinality, out). part_length)"
    if "part_length \<noteq> 1" "part_length \<noteq> 0" "part_left_sz = part_length div 2 + part_length mod 2"
    for log2d ar part_start part_length part_left_sz w_left_sz W W2 balance cardinality opt2 and out :: AR_Output
    using that by simp
qed auto

declare recursion.simps [simp del]

text \<open>The constructor followed by \<open>release\<close>: the partitions and the registered relocations.\<close>

definition adaptive_rebalancing ::
  "(nat \<Rightarrow> double) \<Rightarrow> AdaptiveRebalancing \<Rightarrow> Interval list \<Rightarrow> int \<Rightarrow> nat \<Rightarrow> nat \<Rightarrow> MoveDetectorInfo option \<Rightarrow> AR_Output option" where
  "adaptive_rebalancing log2d ar weights balance num_partitions cardinality info =
     recursion log2d ar 0 num_partitions weights balance cardinality ([], info)"

end
