(* ===== verification/Adaptive_Proofs.thy ===== *)
theory Adaptive_Proofs
  imports Adaptive Weights_Proofs
begin

text \<open>
  The adaptive rebalancing returns: for thresholds that can be split, the recursion meets no failed
  assertion and the partitions it emits cover the window, hold all its elements and fit in their
  segments.
\<close>

section \<open>Intervals in order\<close>

definition ordered :: "Interval list \<Rightarrow> bool" where
  "ordered W \<longleftrightarrow> sorted_wrt (\<lambda>x y. m_start x + m_length x \<le> m_start y) W
     \<and> (\<forall>x\<in>set W. m_start x < 2 ^ 32 \<and> m_length x < 2 ^ 16)"

lemma ordered_nth:
  "ordered W \<Longrightarrow> i < j \<Longrightarrow> j < length W \<Longrightarrow> m_start (W ! i) + m_length (W ! i) \<le> m_start (W ! j)"
  by (auto simp: ordered_def sorted_wrt_iff_nth_less)

lemma ordered_start_le: "ordered W \<Longrightarrow> i \<le> j \<Longrightarrow> j < length W \<Longrightarrow> m_start (W ! i) \<le> m_start (W ! j)"
  using ordered_nth[of W i j] by (cases "i = j") auto

lemma ordered_w_end: "ordered W \<Longrightarrow> i < j \<Longrightarrow> j < length W \<Longrightarrow> w_end (W ! i) \<le> int (m_start (W ! j))"
  using ordered_nth[of W i j] by (simp add: w_end_def)

lemma ordered_take: "ordered W \<Longrightarrow> ordered (take n W)"
  by (auto simp: ordered_def intro: sorted_wrt_take dest: in_set_takeD)

lemma ordered_drop: "ordered W \<Longrightarrow> ordered (drop n W)"
  by (auto simp: ordered_def intro: sorted_wrt_drop dest: in_set_dropD)

text \<open>A section of an ordered list may be narrowed.\<close>

lemma ordered_narrow:
  assumes "ordered W" and "i < length W" and "m_start (W ! i) \<le> m_start x" and "m_start x + m_length x \<le> m_start (W ! i) + m_length (W ! i)"
    and "m_start x < 2 ^ 32" and "m_length x < 2 ^ 16"
  shows "ordered (W[i := x])"
proof -
  have "m_start (W[i := x] ! a) + m_length (W[i := x] ! a) \<le> m_start (W[i := x] ! b)" if "a < b" "b < length W" for a b
    using ordered_nth[OF assms(1) that] ordered_nth[OF assms(1), of i b] ordered_nth[OF assms(1), of a i] assms(2-4) that
    by (auto simp: nth_list_update)
  moreover have "m_start y < 2 ^ 32 \<and> m_length y < 2 ^ 16" if "y \<in> set (W[i := x])" for y
    using that set_update_subset_insert[of W i x] assms(1,5,6) by (auto simp: ordered_def)
  ultimately show ?thesis by (simp add: ordered_def sorted_wrt_iff_nth_less)
qed

text \<open>What a split point has to be: an index of the weights, or -1, and a cardinality that leaves the
  starts of the weights after it on the right.\<close>

definition split_at :: "Interval list \<Rightarrow> Optimum \<Rightarrow> bool" where
  "split_at W opt \<longleftrightarrow> - 1 \<le> o_weights_index opt \<and> o_weights_index opt < int (length W)
     \<and> (\<forall>k<length W. o_weights_index opt < int k \<longrightarrow> o_cardinality opt \<le> int (m_start (W ! k)))"

section \<open>The optimum\<close>

lemma split_loop_range:
  assumes "i \<le> j + 1"
  shows "split_loop W target i j bl br mv = (i', bl', mv') \<Longrightarrow> i \<le> i' \<and> i' \<le> j + 1 \<and> (mv \<and> \<not> mv' \<and> i \<le> j \<longrightarrow> i < i')"
  using assms
proof (induction W target i j bl br mv rule: split_loop.induct)
  case (1 W target i j bl br mv)
  show ?case
  proof (cases "i \<le> j")
    case False
    then show ?thesis using "1.prems" split_loop.simps[of W target i j bl br mv] by simp
  next
    case ij: True
    show ?thesis
    proof (cases mv)
      case True
      obtain a b where w: "walk_left W target i j bl = (a, b)" by fastforce
      have bd: "i < a" "a \<le> j + 1" using walk_left_bounds[OF ij, of W target bl] w by simp_all
      have "split_loop W target a j b br False = (i', bl', mv')"
        using "1.prems"(1) split_loop.simps[of W target i j bl br mv] ij True w by simp
      from "1.IH"(1)[OF ij True w[symmetric] refl this bd(2)] show ?thesis using bd by linarith
    next
      case False
      obtain a b where w: "walk_right W target i j br = (a, b)" by fastforce
      have bd: "a < j" "i - 1 \<le> a" using walk_right_bounds[OF ij, of W target br] w by simp_all
      have s: "split_loop W target i a bl b True = (i', bl', mv')"
        using "1.prems"(1) split_loop.simps[of W target i j bl br mv] ij False w by simp
      have "i \<le> a + 1" using bd by linarith
      from "1.IH"(2)[OF ij False w[symmetric] refl s this] show ?thesis using bd False by linarith
    qed
  qed
qed

lemma split_loop_first:
  assumes "i \<le> j" and "split_loop W target i j bl br True = (i', bl', mv')"
  shows "i < i'" and "i' \<le> j + 1" and "mv' \<longrightarrow> i' \<le> j"
proof -
  obtain a b where w: "walk_left W target i j bl = (a, b)" by fastforce
  have bd: "i < a" "a \<le> j + 1" using walk_left_bounds[OF assms(1), of W target bl] w by simp_all
  have s: "split_loop W target a j b br False = (i', bl', mv')"
    using assms(2) split_loop.simps[of W target i j bl br True] assms(1) w by simp
  show "i < i'" "i' \<le> j + 1" using split_loop_range[OF bd(2) s] bd by linarith+
  show "mv' \<longrightarrow> i' \<le> j"
  proof (cases "a \<le> j")
    case False
    then show ?thesis using s split_loop.simps[of W target a j b br False] by simp
  next
    case True
    obtain c d where w2: "walk_right W target a j br = (c, d)" by fastforce
    have bd2: "c < j" "a - 1 \<le> c" using walk_right_bounds[OF True, of W target br] w2 by simp_all
    have "split_loop W target a c b d True = (i', bl', mv')"
      using s split_loop.simps[of W target a j b br False] True w2 by simp
    from split_loop_range[OF _ this] show ?thesis using bd2 by linarith
  qed
qed

lemma find_split_point_some:
  assumes "W \<noteq> []"
  obtains i b where "find_split_point W bal = Some (i, b)" and "0 \<le> i" and "i < int (length W)"
proof -
  obtain i b mv where s: "split_loop W (bal sdiv 2) 0 (int (length W) - 1) 0 0 True = (i, b, mv)" by (metis prod_cases3)
  have "0 \<le> int (length W) - 1" using assms by (cases W) auto
  from split_loop_first[OF this s] show ?thesis
    using that[of "if \<not> mv then i - 1 else i" b] assms s by (auto simp: find_split_point_def)
qed

lemma s32_le:
  assumes "0 \<le> x"
  shows "s32 x \<le> x"
proof -
  have "(x + 2 ^ 31) mod 2 ^ 32 \<le> x + 2 ^ 31" by (rule zmod_le_nonneg_dividend) (use assms in simp)
  then show ?thesis by (simp add: s32_def)
qed

lemma find_optimum_some:
  assumes "ordered W" and "W \<noteq> []"
  obtains opt where "find_optimum W bal c0 = Some opt" and "split_at W opt" and "0 \<le> o_weights_index opt"
proof -
  obtain i b where f: "find_split_point W bal = Some (i, b)" "0 \<le> i" "i < int (length W)"
    using find_split_point_some[OF assms(2)] .
  let ?w = "W ! nat i"
  have later: "m_start ?w + m_length ?w \<le> m_start (W ! k)" if "i < int k" "k < length W" for k
    by (rule ordered_nth[OF assms(1)]) (use f that in auto)
  show ?thesis
  proof (cases "even (length W)")
    case True
    have "\<exists>c. rebalancing_paro W i c0 = Some c \<and> (\<forall>k<length W. i < int k \<longrightarrow> c \<le> int (m_start (W ! k)))"
    proof (cases "i + 1 = int (length W)")
      case last: True
      then show ?thesis using f by (auto simp: rebalancing_paro_def Let_def)
    next
      case False
      then have n: "nat (i + 1) < length W" "i < int (nat (i + 1))" using f by auto
      let ?l = "m_start ?w + m_length ?w" and ?r = "m_start (W ! nat (i + 1))"
      have r: "?r \<le> m_start (W ! k)" if "i < int k" "k < length W" for k
        by (rule ordered_start_le[OF assms(1)]) (use f that in auto)
      have l: "?l \<le> ?r" by (rule later[OF n(2,1)])
      then have p: "rebalancing_paro W i c0 = Some (s32 (int (?l + (?r - ?l) div 2)))"
        using f False by (simp add: rebalancing_paro_def Let_def)
      have "?l + (?r - ?l) div 2 \<le> ?r" using l by linarith
      then have "s32 (int (?l + (?r - ?l) div 2)) \<le> int (m_start (W ! k))" if "i < int k" "k < length W" for k
        using r[OF that] s32_le[of "int (?l + (?r - ?l) div 2)"] by linarith
      then show ?thesis using p by blast
    qed
    then obtain c where "rebalancing_paro W i c0 = Some c" "\<forall>k<length W. i < int k \<longrightarrow> c \<le> int (m_start (W ! k))" by blast
    then show ?thesis using that f True by (auto simp: find_optimum_def split_at_def)
  next
    case False
    obtain c where c: "rebalancing_sparu W i c0 = Some (int c)" "c = m_start ?w \<or> c = m_start ?w + m_length ?w"
      using f by (auto simp: rebalancing_sparu_def Let_def)
    have "int c \<le> int (m_start (W ! k))" if "i < int k" "k < length W" for k using later[OF that] c(2) by auto
    moreover have "\<not> int c < int (m_start ?w)" using c(2) by auto
    ultimately show ?thesis using that f False c(1) by (auto simp: find_optimum_def split_at_def)
  qed
qed

section \<open>The thresholds\<close>

text \<open>The result of the correction of a split point: within the limits, for the same weights, some of
  them narrowed.\<close>

definition corrected :: "int \<Rightarrow> int \<Rightarrow> Interval list \<Rightarrow> Interval list \<times> Optimum \<Rightarrow> bool" where
  "corrected lmin lmax W r \<longleftrightarrow> (case r of (W', opt) \<Rightarrow> split_at W' opt \<and> ordered W' \<and> length W' = length W
     \<and> map m_associated_segment W' = map m_associated_segment W \<and> lmin \<le> o_cardinality opt \<and> o_cardinality opt \<le> lmax)"

lemma map_update_same: "f x = f (xs ! i) \<Longrightarrow> map f (xs[i := x]) = map f xs"
  by (metis list_update_id map_update)

lemma keep_right_narrow:
  assumes "ordered W" and "i < length W" and "int (m_start (W ! i)) < obj" and "obj < w_end (W ! i)" and "obj < 2 ^ 32"
  defines "x \<equiv> keep_right (W ! i) obj (nat (w_end (W ! i) - obj))"
  shows "ordered (W[i := x])" and "int (m_start x) = obj" and "m_associated_segment x = m_associated_segment (W ! i)"
proof -
  have b: "m_length (W ! i) < 2 ^ 16" using assms(1,2) by (auto simp: ordered_def)
  have x: "m_start x = nat obj" "m_length x = nat (w_end (W ! i) - obj)"
    using assms(3-5) b by (auto simp: x_def keep_right_def w_end_def)
  show "ordered (W[i := x])"
    by (rule ordered_narrow[OF assms(1,2)]) (use x assms(3-5) b in \<open>auto simp: w_end_def\<close>)
  show "int (m_start x) = obj" using x assms(3) by simp
qed (simp add: x_def keep_right_def)

lemma keep_left_narrow:
  assumes "ordered W" and "i < length W" and "int (m_start (W ! i)) < obj" and "obj < w_end (W ! i)"
  defines "x \<equiv> keep_left (W ! i) (nat (obj - int (m_start (W ! i))))"
  shows "ordered (W[i := x])" and "m_associated_segment x = m_associated_segment (W ! i)"
proof -
  have b: "m_length (W ! i) < 2 ^ 16" "m_start (W ! i) < 2 ^ 32" using assms(1,2) by (auto simp: ordered_def)
  have x: "m_start x = m_start (W ! i)" "m_length x = nat (obj - int (m_start (W ! i)))"
    using assms(3,4) b by (auto simp: x_def keep_left_def w_end_def)
  show "ordered (W[i := x])"
    by (rule ordered_narrow[OF assms(1,2)]) (use x assms(3,4) b in \<open>auto simp: w_end_def\<close>)
qed (simp add: x_def keep_left_def)

lemma lower_loop_result:
  shows "ordered W \<Longrightarrow> lower_loop W obj idx b = (i, b') \<Longrightarrow> 1 \<le> idx \<Longrightarrow> idx \<le> length W \<Longrightarrow>
    i \<le> length W \<and> (\<forall>k<length W. i < k \<longrightarrow> obj \<le> int (m_start (W ! k)))"
proof (induction W obj idx b arbitrary: i b' rule: lower_loop.induct)
  case (1 W obj idx b)
  note ord = "1.prems"(1)
  show ?case
  proof (cases "idx < length W")
    case False
    then show ?thesis using "1.prems" lower_loop.simps[of W obj idx b] by simp
  next
    case lt: True
    show ?thesis
    proof (cases "int (m_start (W ! idx)) < obj")
      case False
      then have "obj \<le> int (m_start (W ! k))" if "idx \<le> k" "k < length W" for k
        using ordered_start_le[OF ord that] by linarith
      then show ?thesis using False lt "1.prems" lower_loop.simps[of W obj idx b] by auto
    next
      case start: True
      show ?thesis
      proof (cases "w_end (W ! idx) < obj")
        case True
        then have "lower_loop W obj (idx + 1) (b + m_weight (W ! idx)) = (i, b')"
          using "1.prems"(2) lower_loop.simps[of W obj idx b] lt start by (simp add: Let_def)
        from "1.IH"[OF lt refl start True ord this] lt show ?thesis by simp
      next
        case False
        then have "obj \<le> int (m_start (W ! k))" if "idx < k" "k < length W" for k
          using ordered_w_end[OF ord that] by linarith
        then show ?thesis using False start lt "1.prems" lower_loop.simps[of W obj idx b] by (auto simp: Let_def)
      qed
    qed
  qed
qed

lemma ensure_lower_found_ok:
  assumes ord: "ordered W" and i: "i \<le> length W" and later: "\<forall>k<length W. i < k \<longrightarrow> lmin \<le> int (m_start (W ! k))"
    and lim: "lmin \<le> lmax" "lmin < 2 ^ 32"
  shows "corrected lmin lmax W (ensure_lower_found lmin lmax W i b)"
proof (cases "i < length W")
  case False
  then show ?thesis using ord i lim by (auto simp: ensure_lower_found_def corrected_def split_at_def)
next
  case il: True
  let ?w = "W ! i"
  show ?thesis
  proof (cases "int (m_start ?w) < lmin \<and> lmin < w_end ?w")
    case False
    then show ?thesis using ord il lim later by (auto simp: ensure_lower_found_def corrected_def split_at_def Let_def)
  next
    case over: True
    show ?thesis
    proof (cases "w_end ?w \<le> lmax")
      case True
      define c where "c = (if 0 \<le> b then w_end ?w else if i + 1 < length W \<and> int (m_start (W ! (i + 1))) < lmax
        then int (m_start (W ! (i + 1))) else lmax)"
      have next_start: "w_end ?w \<le> int (m_start (W ! k)) \<and> int (m_start (W ! (i + 1))) \<le> int (m_start (W ! k))"
        if "i < k" "k < length W" for k
        using ordered_w_end[OF ord that] ordered_start_le[OF ord _ that(2), of "i + 1"] that by simp
      have c: "c \<le> int (m_start (W ! k))" if k: "i < k" "k < length W" for k
        using next_start[OF k] k by (auto simp: c_def)
      have cl: "lmin \<le> c" "c \<le> lmax" using next_start[of "i + 1"] True over lim(1) by (auto simp: c_def)
      have "ensure_lower_found lmin lmax W i b =
          (W, \<lparr>o_cardinality = c, o_weights_index = int i, o_weights_balance = b\<rparr>)"
        using True il over by (simp add: ensure_lower_found_def Let_def c_def)
      then show ?thesis using ord il c cl by (simp add: corrected_def split_at_def)
    next
      case False
      note r = keep_right_narrow[OF ord il conjunct1[OF over] conjunct2[OF over] lim(2)]
      note l = keep_left_narrow[OF ord il conjunct1[OF over] conjunct2[OF over]]
      show ?thesis using False over il lim later r l
        by (auto simp: ensure_lower_found_def corrected_def split_at_def Let_def map_update_same nth_list_update)
    qed
  qed
qed

lemma ensure_lower_ok:
  assumes "ordered W" and "split_at W opt" and "0 \<le> o_weights_index opt" and "lmin \<le> lmax" and "lmin < 2 ^ 32"
  obtains r where "ensure_lower_threshold lmin lmax W opt = Some r" and "corrected lmin lmax W r"
proof -
  let ?n = "nat (o_weights_index opt + 1)"
  obtain i b where l: "lower_loop W lmin ?n (o_weights_balance opt) = (i, b)" by fastforce
  have "1 \<le> ?n" "?n \<le> length W" using assms(2,3) by (auto simp: split_at_def)
  from lower_loop_result[OF assms(1) l this] have "corrected lmin lmax W (ensure_lower_found lmin lmax W i b)"
    using assms(1,4,5) by (intro ensure_lower_found_ok) auto
  moreover have "ensure_lower_threshold lmin lmax W opt = Some (ensure_lower_found lmin lmax W i b)"
    using assms(3) l by (simp add: ensure_lower_threshold_def Let_def)
  ultimately show ?thesis using that by blast
qed

lemma upper_loop_result:
  "upper_loop W obj idx b = (i, b') \<Longrightarrow> - 1 \<le> idx \<Longrightarrow>
    - 1 \<le> i \<and> i \<le> idx \<and> (0 \<le> i \<longrightarrow> int (m_start (W ! nat i)) < obj) \<and> (\<forall>k. i < int k \<and> int k \<le> idx \<longrightarrow> obj \<le> int (m_start (W ! k)))"
proof (induction W obj idx b arbitrary: i b' rule: upper_loop.induct)
  case (1 W obj idx b)
  show ?case
  proof (cases "0 \<le> idx \<and> obj \<le> int (m_start (W ! nat idx))")
    case False
    then show ?thesis using "1.prems" upper_loop.simps[of W obj idx b] by auto
  next
    case True
    then have "upper_loop W obj (idx - 1) (b + m_weight (W ! nat idx)) = (i, b')"
      using "1.prems"(1) upper_loop.simps[of W obj idx b] by simp
    from "1.IH"[OF True this] True have ih: "- 1 \<le> i" "i \<le> idx - 1" "0 \<le> i \<longrightarrow> int (m_start (W ! nat i)) < obj"
        "\<forall>k. i < int k \<and> int k \<le> idx - 1 \<longrightarrow> obj \<le> int (m_start (W ! k))" by auto
    have "obj \<le> int (m_start (W ! k))" if "i < int k" "int k \<le> idx" for k
    proof (cases "int k = idx")
      case True
      then have "k = nat idx" by simp
      then show ?thesis using \<open>0 \<le> idx \<and> _\<close> by simp
    next
      case False
      then show ?thesis using ih(4) that by simp
    qed
    then show ?thesis using ih(1-3) by simp
  qed
qed

lemma ensure_upper_ok:
  assumes ord: "ordered W" and at: "split_at W opt" and lim: "lmin \<le> lmax" "lmax < o_cardinality opt" "lmax < 2 ^ 32"
  shows "corrected lmin lmax W (ensure_upper_threshold lmin lmax W opt)"
proof -
  obtain i b where l: "upper_loop W lmax (o_weights_index opt) 0 = (i, b)" by fastforce
  have i: "- 1 \<le> i" "i < int (length W)" "0 \<le> i \<longrightarrow> int (m_start (W ! nat i)) < lmax"
    using upper_loop_result[OF l] at by (auto simp: split_at_def)
  have later: "lmax \<le> int (m_start (W ! k))" if k: "i < int k" "k < length W" for k
  proof (cases "int k \<le> o_weights_index opt")
    case True
    then show ?thesis using upper_loop_result[OF l] at k by (auto simp: split_at_def)
  next
    case False
    then have "o_cardinality opt \<le> int (m_start (W ! k))" using at k by (auto simp: split_at_def)
    then show ?thesis using lim by linarith
  qed
  show ?thesis
  proof (cases "0 \<le> i")
    case False
    then have "i = - 1" using i by simp
    then show ?thesis using l ord lim later by (force simp: ensure_upper_threshold_def corrected_def split_at_def Let_def)
  next
    case i0: True
    let ?w = "W ! nat i"
    have il: "nat i < length W" and st: "int (m_start ?w) < lmax" using i i0 by auto
    show ?thesis
    proof (cases "lmax < w_end ?w")
      case False
      then show ?thesis using l i0 i ord lim later
        by (fastforce simp: ensure_upper_threshold_def corrected_def split_at_def Let_def)
    next
      case over: True
      show ?thesis
      proof (cases "lmin \<le> int (m_start ?w)")
        case True
        define d where "d = b + m_weight ?w"
        define c where "c = (if 0 \<le> d then int (m_start ?w) else if 0 \<le> i - 1 then max (w_end (W ! nat (i - 1))) lmin else lmin)"
        have "0 \<le> i - 1 \<Longrightarrow> w_end (W ! nat (i - 1)) \<le> int (m_start ?w)"
          using i0 i by (intro ordered_w_end[OF ord]) auto
        then have c: "lmin \<le> c" "c \<le> int (m_start ?w)" using True by (auto simp: c_def)
        have ck: "c \<le> int (m_start (W ! k))" if k: "i - 1 < int k" "k < length W" for k
        proof -
          have "nat i \<le> k" using k(1) by linarith
          from ordered_start_le[OF ord this k(2)] show ?thesis using c by linarith
        qed
        have "ensure_upper_threshold lmin lmax W opt =
            (W, \<lparr>o_cardinality = c, o_weights_index = i - 1, o_weights_balance = o_weights_balance opt - d\<rparr>)"
          using True over l i0 by (simp add: ensure_upper_threshold_def Let_def c_def d_def)
        moreover have "c \<le> lmax" using c st by linarith
        ultimately show ?thesis using ord i i0 c ck by (auto simp: corrected_def split_at_def)
      next
        case False
        note r = keep_right_narrow[OF ord il st over lim(3)]
        note lf = keep_left_narrow[OF ord il st over]
        show ?thesis
        proof (cases "nat (lmax - int (m_start ?w)) < nat (w_end ?w - lmax)")
          case True
          have "lmax \<le> int (m_start (W[nat i := keep_right ?w lmax (nat (w_end ?w - lmax))] ! k))"
            if "i - 1 < int k" "k < length W" for k
            using later[of k] r(2) that by (cases "k = nat i") auto
          then show ?thesis using True False over l i0 i lim r(1,3)
            by (auto simp: ensure_upper_threshold_def corrected_def split_at_def Let_def map_update_same)
        next
          case keep: False
          have "lmax \<le> int (m_start (W[nat i := keep_left ?w (nat (lmax - int (m_start ?w)))] ! k))"
            if "i < int k" "k < length W" for k
            using later[OF that] that i0 by (cases "k = nat i") auto
          then show ?thesis using keep False over l i0 i lim lf
            by (auto simp: ensure_upper_threshold_def corrected_def split_at_def Let_def map_update_same)
        qed
      qed
    qed
  qed
qed

section \<open>The recursion\<close>

definition lim_lo :: "(nat \<Rightarrow> double) \<Rightarrow> AdaptiveRebalancing \<Rightarrow> nat \<Rightarrow> int" where
  "lim_lo log2d ar n = fst (the (window_limits log2d ar n))"

definition lim_hi :: "(nat \<Rightarrow> double) \<Rightarrow> AdaptiveRebalancing \<Rightarrow> nat \<Rightarrow> int" where
  "lim_hi log2d ar n = snd (the (window_limits log2d ar n))"

text \<open>Thresholds that can be split, for windows of up to \<open>N\<close> segments: those of the two halves of a
  window admit all the cardinalities the ones of the window do.\<close>

definition thresholds_split :: "(nat \<Rightarrow> double) \<Rightarrow> AdaptiveRebalancing \<Rightarrow> nat \<Rightarrow> bool" where
  "thresholds_split log2d ar N \<longleftrightarrow> N * ar_segment_capacity ar < 2 ^ 31
     \<and> (\<forall>n\<in>{1..N}. window_limits log2d ar n \<noteq> None \<and> lim_lo log2d ar n \<le> lim_hi log2d ar n
          \<and> lim_hi log2d ar n \<le> int (n * ar_segment_capacity ar))
     \<and> (\<forall>n\<in>{2..N}. lim_lo log2d ar (n div 2 + n mod 2) + lim_lo log2d ar (n div 2) \<le> lim_lo log2d ar n
          \<and> lim_hi log2d ar n \<le> lim_hi log2d ar (n div 2 + n mod 2) + lim_hi log2d ar (n div 2))"

definition within_limits :: "(nat \<Rightarrow> double) \<Rightarrow> AdaptiveRebalancing \<Rightarrow> nat \<Rightarrow> nat \<Rightarrow> bool" where
  "within_limits log2d ar n c \<longleftrightarrow> lim_lo log2d ar n \<le> int c \<and> int c \<le> lim_hi log2d ar n"

text \<open>Partitions of \<open>n\<close> segments with \<open>c\<close> elements.\<close>

definition partitions_ok :: "nat \<Rightarrow> nat \<Rightarrow> nat \<Rightarrow> Partition list \<Rightarrow> bool" where
  "partitions_ok cap n c ps \<longleftrightarrow> sum_list (map p_segments ps) = n \<and> sum_list (map p_cardinality ps) = c
     \<and> (\<forall>p\<in>set ps. 1 \<le> p_segments p \<and> p_segments p \<le> p_cardinality p \<and> p_cardinality p \<le> p_segments p * cap)"

lemma partitions_ok_append:
  "partitions_ok cap n c ps \<Longrightarrow> partitions_ok cap n' c' qs \<Longrightarrow> partitions_ok cap (n + n') (c + c') (ps @ qs)"
  by (auto simp: partitions_ok_def)

text \<open>The relocations registered for the weights of a part of the window.\<close>

definition info_room :: "MoveDetectorInfo option \<Rightarrow> nat \<Rightarrow> bool" where
  "info_room info k \<longleftrightarrow> (\<forall>i. info = Some i \<longrightarrow> length (m_registered_segments i) + k \<le> m_registered_segments_capacity i)"

text \<open>At most \<open>k\<close> relocations were added, of segments in \<open>A\<close> to segments of the part.\<close>

definition info_step :: "MoveDetectorInfo option \<Rightarrow> MoveDetectorInfo option \<Rightarrow> nat \<Rightarrow> int set \<Rightarrow> nat \<Rightarrow> nat \<Rightarrow> bool" where
  "info_step info info' k A start n \<longleftrightarrow>
     (case info of None \<Rightarrow> info' = None
      | Some i \<Rightarrow> \<exists>rs. info' = Some (i\<lparr>m_registered_segments := m_registered_segments i @ rs\<rparr>)
          \<and> length rs \<le> k \<and> (\<forall>(src, dst)\<in>set rs. start \<le> dst \<and> dst < start + n \<and> int src \<in> A))"

lemma info_step_refl: "info_step info info k A start n"
  by (auto simp: info_step_def split: option.splits intro!: exI[of _ "[]"])

lemma info_step_mono: "info_step info info' k A start n \<Longrightarrow> k \<le> k' \<Longrightarrow> info_step info info' k' A start n"
  by (fastforce simp: info_step_def split: option.splits)

lemma info_room_mono: "info_room info k \<Longrightarrow> k' \<le> k \<Longrightarrow> info_room info k'"
  by (fastforce simp: info_room_def)

lemma info_step_room:
  "info_step info info' k A start n \<Longrightarrow> info_room info (k + k') \<Longrightarrow> info_room info' k'"
  by (auto simp: info_step_def info_room_def split: option.splits)

lemma info_step_trans:
  assumes "info_step i0 i1 k A s n" and "info_step i1 i2 k' B (s + n) m" and "A \<union> B \<subseteq> C"
  shows "info_step i0 i2 (k + k') C s (n + m)"
proof (cases i0)
  case None
  then show ?thesis using assms by (simp add: info_step_def)
next
  case (Some i)
  obtain rs where rs: "i1 = Some (i\<lparr>m_registered_segments := m_registered_segments i @ rs\<rparr>)" "length rs \<le> k"
      "\<forall>(src, dst)\<in>set rs. s \<le> dst \<and> dst < s + n \<and> int src \<in> A"
    using assms(1) Some by (auto simp: info_step_def)
  obtain qs where qs: "i2 = Some (i\<lparr>m_registered_segments := m_registered_segments i @ rs @ qs\<rparr>)" "length qs \<le> k'"
      "\<forall>(src, dst)\<in>set qs. s + n \<le> dst \<and> dst < s + n + m \<and> int src \<in> B"
    using assms(2) rs(1) by (auto simp: info_step_def)
  have all: "\<forall>(src, dst)\<in>set (rs @ qs). s \<le> dst \<and> dst < s + (n + m) \<and> int src \<in> C"
  proof (rule ballI)
    fix x assume "x \<in> set (rs @ qs)"
    then consider "x \<in> set rs" | "x \<in> set qs" by auto
    then show "case x of (src, dst) \<Rightarrow> s \<le> dst \<and> dst < s + (n + m) \<and> int src \<in> C"
    proof cases
      case 1
      from bspec[OF rs(3) this] show ?thesis using assms(3) by (cases x) auto
    next
      case 2
      from bspec[OF qs(3) this] show ?thesis using assms(3) by (cases x) auto
    qed
  qed
  have len: "length (rs @ qs) \<le> k + k'" using rs(2) qs(2) by simp
  show ?thesis
    unfolding info_step_def Some option.case qs(1)
    by (intro exI[of _ "rs @ qs"] conjI refl) (rule len, rule all)
qed

lemma move_detector_info_ok:
  assumes "info_room (snd out) 1" and "seg \<in> A"
  obtains info where "move_detector_info seg dst out = Some (fst out, info)" and "info_step (snd out) info 1 A dst 1"
proof (cases "snd out")
  case None
  then show ?thesis using that[of None] by (cases out) (auto simp: move_detector_info_def info_step_def)
next
  case (Some i)
  have room: "length (m_registered_segments i) < m_registered_segments_capacity i"
    using assms Some by (auto simp: info_room_def)
  show ?thesis
  proof (cases "0 \<le> seg \<and> nat seg \<noteq> dst")
    case True
    show ?thesis
      by (rule that[of "Some (i\<lparr>m_registered_segments := m_registered_segments i @ [(nat seg, dst)]\<rparr>)"])
        (use True room Some assms(2) in \<open>auto simp: move_detector_info_def move_section_def info_step_def intro!: exI[of _ "[(nat seg, dst)]"]\<close>)
  next
    case False
    show ?thesis
      by (rule that[of "Some i"])
        (use False room Some info_step_refl[of "Some i"] in \<open>auto simp: move_detector_info_def move_section_def prod_eq_iff\<close>)
  qed
qed

lemma mk_partition_exact: "c < 2 ^ 31 \<Longrightarrow> n < 2 ^ 31 \<Longrightarrow> mk_partition c n = \<lparr>p_cardinality = c, p_segments = n\<rparr>"
  by (simp add: mk_partition_def)

lemma emit_ok:
  assumes "1 \<le> n" and "n \<le> c" and "c \<le> n * ar_segment_capacity ar" and "n * ar_segment_capacity ar < 2 ^ 31"
  obtains ps where "emit ar c n out = Some (fst out @ ps, snd out)" and "partitions_ok (ar_segment_capacity ar) n c ps"
proof
  show "emit ar c n out = Some (fst out @ [\<lparr>p_cardinality = c, p_segments = n\<rparr>], snd out)"
    using assms by (simp add: emit_def mk_partition_exact)
qed (use assms in \<open>simp add: partitions_ok_def\<close>)

lemma window_limits_lower: "window_limits log2d ar n \<noteq> None \<Longrightarrow> int n \<le> lim_lo log2d ar n"
  by (auto simp: lim_lo_def window_limits_def Let_def split: bind_splits)

lemma thresholds_splitD:
  assumes "thresholds_split log2d ar N" and "1 \<le> n" and "n \<le> N"
  shows "window_limits log2d ar n = Some (lim_lo log2d ar n, lim_hi log2d ar n)" and "int n \<le> lim_lo log2d ar n"
    and "lim_lo log2d ar n \<le> lim_hi log2d ar n" and "lim_hi log2d ar n \<le> int (n * ar_segment_capacity ar)"
    and "n * ar_segment_capacity ar < 2 ^ 31"
proof -
  show w: "window_limits log2d ar n = Some (lim_lo log2d ar n, lim_hi log2d ar n)"
    using assms by (auto simp: thresholds_split_def lim_lo_def lim_hi_def)
  then show "int n \<le> lim_lo log2d ar n" by (intro window_limits_lower) simp
  show "lim_lo log2d ar n \<le> lim_hi log2d ar n" "lim_hi log2d ar n \<le> int (n * ar_segment_capacity ar)"
    using assms by (auto simp: thresholds_split_def)
  have "n * ar_segment_capacity ar \<le> N * ar_segment_capacity ar" using assms(3) by (rule mult_le_mono1)
  moreover have "N * ar_segment_capacity ar < 2 ^ 31" using assms(1) by (simp add: thresholds_split_def)
  ultimately show "n * ar_segment_capacity ar < 2 ^ 31" by (rule le_less_trans)
qed

lemma validate_ok:
  assumes thr: "thresholds_split log2d ar N" and n: "2 \<le> n" "n \<le> N" and c: "within_limits log2d ar n c"
    and W: "ordered W" "split_at W opt" "0 \<le> o_weights_index opt"
  obtains W' opt' where "validate_thresholds log2d ar n W c opt = Some (W', opt')"
    and "split_at W' opt'" and "ordered W'" and "length W' = length W"
    and "map m_associated_segment W' = map m_associated_segment W"
    and "0 \<le> o_cardinality opt'" and "o_cardinality opt' \<le> int c"
    and "within_limits log2d ar (n div 2 + n mod 2) (nat (o_cardinality opt'))"
    and "within_limits log2d ar (n div 2) (c - nat (o_cardinality opt'))"
proof -
  let ?l = "n div 2 + n mod 2" and ?r = "n div 2"
  have lr: "1 \<le> ?l" "?l \<le> N" "1 \<le> ?r" "?r \<le> N" using n by presburger+
  note tl = thresholds_splitD[OF thr lr(1,2)] and tr = thresholds_splitD[OF thr lr(3,4)]
  let ?ll = "lim_lo log2d ar ?l" and ?lh = "lim_hi log2d ar ?l" and ?rl = "lim_lo log2d ar ?r" and ?rh = "lim_hi log2d ar ?r"
  have sp: "?ll + ?rl \<le> int c" "int c \<le> ?lh + ?rh"
  proof -
    have "\<forall>n\<in>{2..N}. lim_lo log2d ar (n div 2 + n mod 2) + lim_lo log2d ar (n div 2) \<le> lim_lo log2d ar n
          \<and> lim_hi log2d ar n \<le> lim_hi log2d ar (n div 2 + n mod 2) + lim_hi log2d ar (n div 2)"
      using thr unfolding thresholds_split_def by (elim conjE)
    then have "?ll + ?rl \<le> lim_lo log2d ar n \<and> lim_hi log2d ar n \<le> ?lh + ?rh" by (rule bspec) (use n in simp)
    then show "?ll + ?rl \<le> int c" "int c \<le> ?lh + ?rh" using c by (auto simp: within_limits_def)
  qed
  define lmin where "lmin = max ?ll (int c - ?rh)"
  define lmax where "lmax = min ?lh (int c - ?rl)"
  have lim: "lmin \<le> lmax" using sp tl(3) tr(3) by (simp add: lmin_def lmax_def)
  have big: "lmin < 2 ^ 32" "lmax < 2 ^ 32"
  proof -
    note tl(4)
    also have "int (?l * ar_segment_capacity ar) < int (2 ^ 31)" using tl(5) by (simp only: of_nat_less_iff)
    also have "int (2 ^ 31) < 2 ^ 32" by simp
    finally have "?lh < 2 ^ 32" .
    then have "lmax < 2 ^ 32" by (simp add: lmax_def)
    with lim show "lmin < 2 ^ 32" "lmax < 2 ^ 32" by linarith+
  qed
  have v: "validate_thresholds log2d ar n W c opt =
      (if o_cardinality opt < lmin then ensure_lower_threshold lmin lmax W opt
       else if lmax < o_cardinality opt then Some (ensure_upper_threshold lmin lmax W opt) else Some (W, opt))"
    using lim by (simp only: validate_thresholds_def tl(1) tr(1) bind.bind_lunit prod.case Let_def
        lmin_def[symmetric] lmax_def[symmetric] simp_thms if_False not_True_eq_False)
  obtain r where r: "validate_thresholds log2d ar n W c opt = Some r" "corrected lmin lmax W r"
  proof (cases "o_cardinality opt < lmin")
    case True
    then show ?thesis using ensure_lower_ok[OF W lim big(1)] that v by metis
  next
    case False
    show ?thesis
    proof (cases "lmax < o_cardinality opt")
      case True
      then show ?thesis using ensure_upper_ok[OF W(1,2) lim True big(2)] that v False by simp
    next
      case right: False
      then show ?thesis using that[of "(W, opt)"] v False W by (simp add: corrected_def)
    qed
  qed
  obtain W' opt' where [simp]: "r = (W', opt')" by (cases r)
  have o: "lmin \<le> o_cardinality opt'" "o_cardinality opt' \<le> lmax" using r(2) by (simp_all add: corrected_def)
  have pos: "0 \<le> o_cardinality opt'" "o_cardinality opt' \<le> int c"
    using o tl(2) tr(2) by (auto simp: lmin_def lmax_def)
  show ?thesis
    by (rule that[of W' opt']) (use r pos o in \<open>auto simp: corrected_def within_limits_def lmin_def lmax_def\<close>)
qed

lemma ordered_shift:
  assumes "ordered W" and "0 \<le> c" and "\<forall>x\<in>set W. c \<le> int (m_start x)"
  shows "ordered (map (shift_interval c) W)" and "map m_associated_segment (map (shift_interval c) W) = map m_associated_segment W"
proof -
  have s: "m_start (shift_interval c x) + nat c = m_start x" "m_length (shift_interval c x) = m_length x" if "x \<in> set W" for x
  proof -
    have "c \<le> int (m_start x)" "m_start x < 2 ^ 32" using assms that by (auto simp: ordered_def)
    then have "(int (m_start x) - c) mod 2 ^ 32 = int (m_start x) - c" using assms(2) by (intro mod_pos_pos_trivial) auto
    then show "m_start (shift_interval c x) + nat c = m_start x" using \<open>c \<le> int (m_start x)\<close> assms(2)
      by (simp add: shift_interval_def)
    show "m_length (shift_interval c x) = m_length x" by (simp add: shift_interval_def)
  qed
  have "m_start (shift_interval c (W ! i)) + m_length (shift_interval c (W ! i)) \<le> m_start (shift_interval c (W ! j))"
    if "i < j" "j < length W" for i j
    using ordered_nth[OF assms(1) that] s[of "W ! i"] s[of "W ! j"] that by simp
  moreover have "m_start (shift_interval c x) < 2 ^ 32 \<and> m_length (shift_interval c x) < 2 ^ 16" if "x \<in> set W" for x
  proof -
    have "m_start x < 2 ^ 32" "m_length x < 2 ^ 16" using assms(1) that by (auto simp: ordered_def)
    then show ?thesis using s[OF that] by linarith
  qed
  ultimately show "ordered (map (shift_interval c) W)" by (simp add: ordered_def sorted_wrt_iff_nth_less)
qed (simp add: shift_interval_def)

lemma recursion_ok:
  assumes thr: "thresholds_split log2d ar N"
  shows "1 \<le> n \<Longrightarrow> n \<le> N \<Longrightarrow> ordered W \<Longrightarrow> within_limits log2d ar n c \<Longrightarrow> info_room (snd out) (2 * length W) \<Longrightarrow>
    \<exists>ps info. recursion log2d ar start n W bal c out = Some (fst out @ ps, info)
      \<and> partitions_ok (ar_segment_capacity ar) n c ps \<and> info_step (snd out) info (2 * length W) (m_associated_segment ` set W) start n"
proof (induction n arbitrary: start W bal c out rule: less_induct)
  case (less n)
  note n = less.prems(1,2) and W = less.prems(3) and c = less.prems(4) and room = less.prems(5)
  note t = thresholds_splitD[OF thr n]
  have nc: "n \<le> c" "c \<le> n * ar_segment_capacity ar"
    using c t(2,4) unfolding within_limits_def by linarith+
  obtain qs where e: "emit ar c n out = Some (fst out @ qs, snd out)" "partitions_ok (ar_segment_capacity ar) n c qs"
    using emit_ok[OF n(1) nc t(5)] by metis
  let ?o = "(fst out @ qs, snd out)"
  let ?A = "m_associated_segment ` set W"
  show ?case
  proof (cases "W = []")
    case True
    then show ?thesis using recursion.simps[of log2d ar start n W bal c out] e info_step_refl[of "snd out" "2 * length W" "m_associated_segment ` set W" start n]
      by (cases "n = 1") auto
  next
    case W1: False
    let ?seg = "m_associated_segment (W ! 0)"
    have W0: "?seg \<in> ?A" using W1 by (cases W) auto
    have two: "1 \<le> 2 * length W" "1 \<le> 2 * length W" using W1 by (auto simp: Suc_le_eq)
    consider (base) "n = 1" | (special) "n = 2 \<and> length W = 1 \<and> m_length (W ! 0) = ar_segment_capacity ar"
      | (adaptive) "n \<noteq> 1" "\<not> (n = 2 \<and> length W = 1 \<and> m_length (W ! 0) = ar_segment_capacity ar)" by blast
    then show ?thesis
    proof cases
      case base
      obtain info where "move_detector_info ?seg start ?o = Some (fst ?o, info)" "info_step (snd ?o) info 1 ?A start 1"
        using move_detector_info_ok[of ?o ?seg ?A start] W0 info_room_mono[OF room two(2)] by auto
      then show ?thesis
        using recursion.simps[of log2d ar start n W bal c out] e base W1 two info_step_mono[of "snd out" info 1 ?A start 1] by auto
    next
      case special
      obtain i1 where i1: "move_detector_info ?seg start ?o = Some (fst ?o, i1)" "info_step (snd ?o) i1 1 ?A start 1"
        using move_detector_info_ok[of ?o ?seg ?A start] W0 info_room_mono[OF room two(2)] by auto
      have "info_room i1 1" by (rule info_step_room[OF i1(2)]) (use room special in \<open>simp add: numeral_2_eq_2\<close>)
      then obtain i2 where i2: "move_detector_info ?seg (start + 1) (fst ?o, i1) = Some (fst ?o, i2)" "info_step i1 i2 1 ?A (start + 1) 1"
        using move_detector_info_ok[of "(fst ?o, i1)" ?seg ?A "start + 1"] W0 by auto
      have "info_step (snd out) i2 (2 * length W) ?A start n"
        using info_step_trans[OF i1(2) i2(2), of ?A] special by (simp add: numeral_2_eq_2)
      moreover have "recursion log2d ar start n W bal c out = Some (fst out @ qs, i2)"
        using recursion.simps[of log2d ar start n W bal c out] e special W1 i1(1) i2(1) by auto
      ultimately show ?thesis using e(2) by blast
    next
      case adaptive
      then have n2: "2 \<le> n" using n by linarith
      let ?l = "n div 2 + n mod 2" and ?r = "n div 2"
      have lr: "1 \<le> ?l" "?l < n" "1 \<le> ?r" "?r < n" "?l + ?r = n" using n2 by presburger+
      obtain opt where opt: "find_optimum W bal c = Some opt" "split_at W opt" "0 \<le> o_weights_index opt"
        using find_optimum_some[OF W W1] by metis
      obtain W' opt' where v: "validate_thresholds log2d ar n W c opt = Some (W', opt')" "split_at W' opt'" "ordered W'"
          "length W' = length W" "map m_associated_segment W' = map m_associated_segment W"
          "0 \<le> o_cardinality opt'" "o_cardinality opt' \<le> int c"
          "within_limits log2d ar ?l (nat (o_cardinality opt'))" "within_limits log2d ar ?r (c - nat (o_cardinality opt'))"
        using validate_ok[OF thr n2 n(2) c W opt(2,3)] by metis
      define cl where "cl = nat (o_cardinality opt')"
      define k where "k = nat (o_weights_index opt' + 1)"
      define U where "U = take k W'"
      define V where "V = map (shift_interval (o_cardinality opt')) (drop k W')"
      have k: "k \<le> length W'" using v(2) by (auto simp: split_at_def k_def)
      have later: "\<forall>x\<in>set (drop k W'). o_cardinality opt' \<le> int (m_start x)"
        using v(2) by (fastforce simp: split_at_def k_def in_set_conv_nth)
      have oU: "ordered U" unfolding U_def by (rule ordered_take[OF v(3)])
      have oV: "ordered V" "map m_associated_segment V = map m_associated_segment (drop k W')"
        unfolding V_def using ordered_shift[OF ordered_drop[OF v(3)] v(6) later] by auto
      have len: "length U + length V = length W" using k v(4) by (simp add: U_def V_def)
      have assoc: "m_associated_segment ` set U \<union> m_associated_segment ` set V \<subseteq> m_associated_segment ` set W"
      proof -
        have "m_associated_segment ` set V = m_associated_segment ` set (drop k W')" using oV(2) by (metis list.set_map)
        moreover have "m_associated_segment ` set W' = m_associated_segment ` set W" using v(5) by (metis list.set_map)
        ultimately show ?thesis using set_take_subset[of k W'] set_drop_subset[of k W'] unfolding U_def by blast
      qed
      obtain ps1 info1 where L: "recursion log2d ar start ?l U (o_weights_balance opt') cl out = Some (fst out @ ps1, info1)"
          "partitions_ok (ar_segment_capacity ar) ?l cl ps1" "info_step (snd out) info1 (2 * length U) (m_associated_segment ` set U) start ?l"
        using less.IH[OF lr(2,1) _ oU v(8)[folded cl_def] info_room_mono[OF room], of start "o_weights_balance opt'"] len lr n by fastforce
      have room2: "info_room info1 (2 * length V)" by (rule info_step_room[OF L(3)]) (use room len[symmetric] in simp)
      have sub: "size_sub c cl = c - cl"
        by (rule size_sub_le) (use v(6,7) nc t(5) in \<open>auto simp: cl_def\<close>)
      obtain ps2 info2 where R: "recursion log2d ar (start + ?l) ?r V (bal - o_weights_balance opt') (c - cl) (fst out @ ps1, info1) =
            Some ((fst out @ ps1) @ ps2, info2)"
          "partitions_ok (ar_segment_capacity ar) ?r (c - cl) ps2" "info_step info1 info2 (2 * length V) (m_associated_segment ` set V) (start + ?l) ?r"
        using less.IH[OF lr(4,3) _ oV(1) v(9)[folded cl_def], of "(fst out @ ps1, info1)" "start + ?l" "bal - o_weights_balance opt'"] room2 lr n by fastforce
      have "partitions_ok (ar_segment_capacity ar) n c (ps1 @ ps2)"
        using partitions_ok_append[OF L(2) R(2)] lr(5) v(6,7) by (simp add: cl_def)
      moreover have "info_step (snd out) info2 (2 * length W) ?A start n"
        using info_step_trans[OF L(3) R(3) assoc] len[symmetric] lr(5) by simp
      moreover have "recursion log2d ar start n W bal c out = Some (fst out @ (ps1 @ ps2), info2)"
        using recursion.simps[of log2d ar start n W bal c out] adaptive(1) W1 n2 opt(1) v(1) L(1) R(1) sub
        by (simp add: U_def V_def k_def cl_def if_not_P[OF adaptive(2)[unfolded One_nat_def]])
      ultimately show ?thesis by blast
    qed
  qed
qed

end
