(* ===== verification/Rewiring_Spread.thy ===== *)
theory Rewiring_Spread
  imports RMA_Storage Adaptive Static_Index
begin

text \<open>
  The spread of a window with memory rewiring, \<open>pma/adaptive/int3/spread_with_rewiring.cpp\<close>: extent by
  extent, from the last, the elements are copied from the right to their final position. An extent
  whose elements were not all read yet is written in a buffer, and exchanged with its buffer by
  rewiring when they have been.

  Pointers are positions in the cells of \<open>m_keys\<close> and \<open>m_values\<close>, which cover the address range of the
  arrays with its buffers; rewiring two extents exchanges their cells. \<open>None\<close> is a failed assertion,
  an exception, an access outside of the arrays or a loop that does not end.
\<close>

section \<open>Cells\<close>

definition cell :: "'a list \<Rightarrow> int \<Rightarrow> 'a option" where
  "cell xs i = (if 0 \<le> i \<and> i < int (length xs) then Some (xs ! nat i) else None)"

definition set_cell :: "'a list \<Rightarrow> int \<Rightarrow> 'a \<Rightarrow> 'a list option" where
  "set_cell xs i x = (if 0 \<le> i \<and> i < int (length xs) then Some (xs[nat i := x]) else None)"

definition copy_cells :: "'a list \<Rightarrow> int \<Rightarrow> int \<Rightarrow> int \<Rightarrow> 'a list option" where
  "copy_cells xs dst src n =
     (if 0 \<le> n \<and> 0 \<le> dst \<and> 0 \<le> src \<and> dst + n \<le> int (length xs) \<and> src + n \<le> int (length xs)
      then Some (take (nat dst) xs @ take (nat n) (drop (nat src) xs) @ drop (nat (dst + n)) xs) else None)"

definition swap_cells :: "'a list \<Rightarrow> int \<Rightarrow> int \<Rightarrow> int \<Rightarrow> 'a list option" where
  "swap_cells xs a b n = do {
     ys \<leftarrow> copy_cells xs a b n;
     if 0 \<le> b \<and> b + n \<le> int (length xs)
     then Some (take (nat b) ys @ take (nat n) (drop (nat a) xs) @ drop (nat (b + n)) ys) else None }"

section \<open>State\<close>

record SpreadWithRewiring =
  sw_storage :: Storage
  sw_index :: StaticIndex
  sw_window_start :: nat
  sw_window_length :: nat
  sw_segments_per_extent :: nat
  sw_partitions :: "Partition list"
  sw_position :: int
  sw_extents_to_rewire :: "(int \<times> int \<times> int) list"
  sw_partition_id :: nat
  sw_partition_offset :: nat
  sw_insert :: bool
  sw_insert_key :: int
  sw_insert_value :: int
  sw_insert_to_segment :: int
  sw_insert_predecessor :: int
  sw_insert_successor :: int

definition sw_capacity :: "SpreadWithRewiring \<Rightarrow> int" where
  "sw_capacity w = int (m_segment_capacity (sw_storage w))"

section \<open>Current position\<close>

definition reset_current_position :: "SpreadWithRewiring \<Rightarrow> SpreadWithRewiring" where
  "reset_current_position w =
     (let window_end = sw_window_start w + sw_window_length w
      in w\<lparr>sw_position := int (window_end - 1) * sw_capacity w + int (m_segment_sizes (sw_storage w) ! (window_end - 1))\<rparr>)"

text \<open>The capacity and the segments of an extent are powers of two: the divisions of doubles are exact.\<close>

definition position2segment :: "SpreadWithRewiring \<Rightarrow> int \<Rightarrow> int" where
  "position2segment w position = position div sw_capacity w"

definition position2extent :: "SpreadWithRewiring \<Rightarrow> int \<Rightarrow> int" where
  "position2extent w position =
     position2segment w (position - int (sw_window_start w) * sw_capacity w) div int (sw_segments_per_extent w)"

definition extent2segment :: "SpreadWithRewiring \<Rightarrow> int \<Rightarrow> int" where
  "extent2segment w extent = int (sw_window_start w) + extent * int (sw_segments_per_extent w)"

definition get_current_extent :: "SpreadWithRewiring \<Rightarrow> int" where
  "get_current_extent w = position2extent w (sw_position w - 1)"

definition get_offset :: "SpreadWithRewiring \<Rightarrow> int \<Rightarrow> int" where
  "get_offset w extent = int (sw_window_start w) * sw_capacity w + extent * int (sw_segments_per_extent w) * sw_capacity w"

section \<open>Current partition\<close>

definition segment_cardinality :: "Partition \<Rightarrow> nat \<Rightarrow> nat" where
  "segment_cardinality p i =
     p_cardinality p div p_segments p + (if i < p_cardinality p mod p_segments p then 1 else 0)"

definition get_partition_current :: "Partition list \<Rightarrow> nat \<Rightarrow> nat \<Rightarrow> nat" where
  "get_partition_current ps partition_id partition_offset =
     (if length ps \<le> partition_id then 0 else segment_cardinality (ps ! partition_id) partition_offset)"

definition get_partition_next :: "Partition list \<Rightarrow> nat \<Rightarrow> nat \<Rightarrow> nat" where
  "get_partition_next ps partition_id partition_offset =
     (if length ps \<le> partition_id then 0
      else if p_segments (ps ! partition_id) \<le> partition_offset + 1 then
        if length ps \<le> partition_id + 1 then 0 else segment_cardinality (ps ! (partition_id + 1)) 0
      else segment_cardinality (ps ! partition_id) (partition_offset + 1))"

function move_forwards_by :: "Partition list \<Rightarrow> nat \<Rightarrow> nat \<Rightarrow> nat \<Rightarrow> nat \<times> nat" where
  "move_forwards_by ps partition_id partition_offset N =
     (if N = 0 \<or> length ps \<le> partition_id then (partition_id, partition_offset)
      else
        let max_step = p_segments (ps ! partition_id) - partition_offset; step = min max_step N
        in if max_step \<le> step then move_forwards_by ps (partition_id + 1) 0 (N - step)
        else move_forwards_by ps partition_id (partition_offset + step) (N - step))"
  by pat_completeness auto
termination by (relation "measure (\<lambda>(ps, i, j, N). (length ps - i) + N)") (auto simp: min_def split: if_splits)

function move_backwards_by :: "Partition list \<Rightarrow> nat \<Rightarrow> nat \<Rightarrow> nat \<Rightarrow> nat \<times> nat" where
  "move_backwards_by ps partition_id partition_offset N =
     (if N = 0 \<or> partition_id = 0 \<and> partition_offset = 0 then (partition_id, partition_offset)
      else
        let step = min N (partition_offset + 1)
        in if partition_offset < step then
          if 0 < partition_id then move_backwards_by ps (partition_id - 1) (p_segments (ps ! (partition_id - 1)) - 1) (N - step)
          else move_backwards_by ps partition_id 0 (N - step)
        else move_backwards_by ps partition_id (partition_offset - step) (N - step))"
  by pat_completeness auto
termination by (relation "measure (\<lambda>(ps, i, j, N). N)") auto

declare move_forwards_by.simps [simp del] move_backwards_by.simps [simp del]

definition move_current_partition_by :: "int \<Rightarrow> SpreadWithRewiring \<Rightarrow> SpreadWithRewiring" where
  "move_current_partition_by N w =
     (case (if 0 \<le> N then move_forwards_by (sw_partitions w) (sw_partition_id w) (sw_partition_offset w) (nat N)
            else move_backwards_by (sw_partitions w) (sw_partition_id w) (sw_partition_offset w) (nat (- N)))
      of (i, j) \<Rightarrow> w\<lparr>sw_partition_id := i, sw_partition_offset := j\<rparr>)"

definition reset_current_partition :: "SpreadWithRewiring \<Rightarrow> SpreadWithRewiring" where
  "reset_current_partition w =
     (let i = length (sw_partitions w) - 1
      in move_current_partition_by (- 1)
           (w\<lparr>sw_partition_id := i, sw_partition_offset := p_segments (sw_partitions w ! i) - 1\<rparr>))"

definition new_spread :: "Storage \<Rightarrow> StaticIndex \<Rightarrow> nat \<Rightarrow> nat \<Rightarrow> Partition list \<Rightarrow> SpreadWithRewiring option" where
  "new_spread st idx window_start window_length partitions = do {
     mk \<leftarrow> m_memory_keys st;
     Some (reset_current_partition (reset_current_position
       \<lparr>sw_storage = st, sw_index = idx, sw_window_start = window_start, sw_window_length = window_length,
        sw_segments_per_extent = get_extent_size (m_instance mk) div (m_segment_capacity st * 8),
        sw_partitions = partitions, sw_position = 0, sw_extents_to_rewire = [], sw_partition_id = 0, sw_partition_offset = 0,
        sw_insert = False, sw_insert_key = - 1, sw_insert_value = - 1, sw_insert_to_segment = - 1,
        sw_insert_predecessor = - 1, sw_insert_successor = - 1\<rparr>)) }"

definition set_element_to_insert :: "int \<Rightarrow> int \<Rightarrow> SpreadWithRewiring \<Rightarrow> SpreadWithRewiring option" where
  "set_element_to_insert key val w =
     (if sw_insert w then None else Some (w\<lparr>sw_insert := True, sw_insert_key := key, sw_insert_value := val\<rparr>))"

definition set_absolute_position :: "int \<Rightarrow> SpreadWithRewiring \<Rightarrow> SpreadWithRewiring" where
  "set_absolute_position position w = w\<lparr>sw_position := position\<rparr>"

section \<open>Rewiring\<close>

text \<open>A buffer for the keys and one for the values, as positions of cells; the arrays grow with the
  memory.\<close>

definition acquire_free_space :: "SpreadWithRewiring \<Rightarrow> (int \<times> int \<times> SpreadWithRewiring) option" where
  "acquire_free_space w = do {
     let st = sw_storage w;
     mk \<leftarrow> m_memory_keys st;
     (ak, mk) \<leftarrow> acquire_buffer [] mk;
     mv \<leftarrow> m_memory_values st;
     (av, mv) \<leftarrow> acquire_buffer [] mv;
     Some (ak div 8, av div 8, w\<lparr>sw_storage := st\<lparr>m_memory_keys := Some mk, m_memory_values := Some mv,
       m_keys := grow_cells 0 (get_allocated_memory_size (m_instance mk) div 8) (m_keys st),
       m_values := grow_cells 0 (get_allocated_memory_size (m_instance mv) div 8) (m_values st)\<rparr>\<rparr>) }"

definition rewire_keys :: "int \<Rightarrow> int \<Rightarrow> Storage \<Rightarrow> Storage option" where
  "rewire_keys addr1 addr2 st = do {
     mk \<leftarrow> m_memory_keys st;
     mk \<leftarrow> swap_and_release mk (addr1 * 8) (addr2 * 8);
     keys \<leftarrow> swap_cells (m_keys st) addr1 addr2 (int (get_extent_size (m_instance mk) div 8));
     Some (st\<lparr>m_memory_keys := Some mk, m_keys := keys\<rparr>) }"

definition rewire_values :: "int \<Rightarrow> int \<Rightarrow> Storage \<Rightarrow> Storage option" where
  "rewire_values addr1 addr2 st = do {
     mv \<leftarrow> m_memory_values st;
     mv \<leftarrow> swap_and_release mv (addr1 * 8) (addr2 * 8);
     vals \<leftarrow> swap_cells (m_values st) addr1 addr2 (int (get_extent_size (m_instance mv) div 8));
     Some (st\<lparr>m_memory_values := Some mv, m_values := vals\<rparr>) }"

fun reclaim_extents :: "int \<Rightarrow> (int \<times> int \<times> int) list \<Rightarrow> SpreadWithRewiring \<Rightarrow> SpreadWithRewiring option" where
  "reclaim_extents current [] w = Some (w\<lparr>sw_extents_to_rewire := []\<rparr>)"
| "reclaim_extents current ((extent_id, keys_src, values_src) # rs) w =
     (if current < extent_id then do {
        st \<leftarrow> rewire_keys (get_offset w extent_id) keys_src (sw_storage w);
        st \<leftarrow> rewire_values (get_offset w extent_id) values_src st;
        reclaim_extents current rs (w\<lparr>sw_storage := st\<rparr>) }
      else Some (w\<lparr>sw_extents_to_rewire := (extent_id, keys_src, values_src) # rs\<rparr>))"

definition reclaim_past_extents :: "SpreadWithRewiring \<Rightarrow> SpreadWithRewiring option" where
  "reclaim_past_extents w = reclaim_extents (get_current_extent w) (sw_extents_to_rewire w) w"

section \<open>Insertion of the new element\<close>

text \<open>\<open>output\<close> are the positions to write the keys and the values to. The elements greater than the new
  one move one cell to the right, from the last of \<open>j\<close>.\<close>

fun merge_shift :: "int \<Rightarrow> int \<times> int \<Rightarrow> int \<Rightarrow> int list \<times> int list \<Rightarrow> nat \<Rightarrow> ((int list \<times> int list) \<times> nat) option" where
  "merge_shift new_key output input cells 0 = Some (cells, 0)"
| "merge_shift new_key output input cells (Suc j) = do {
     k \<leftarrow> cell (fst cells) (input + int j);
     if new_key < k then do {
       v \<leftarrow> cell (snd cells) (input + int j);
       keys \<leftarrow> set_cell (fst cells) (fst output + int (Suc j)) k;
       vals \<leftarrow> set_cell (snd cells) (snd output + int (Suc j)) v;
       merge_shift new_key output input (keys, vals) j }
     else Some (cells, Suc j) }"

definition merge_to_insert ::
  "int \<times> int \<Rightarrow> int \<Rightarrow> nat \<Rightarrow> int \<Rightarrow> int \<Rightarrow> int \<Rightarrow> int \<Rightarrow> SpreadWithRewiring \<Rightarrow> SpreadWithRewiring option" where
  "merge_to_insert output input input_to_copy output_segment_id output_lhs_start output_rhs_start output_rhs_end w =
     (if \<not> sw_insert w then None else do {
        let st = sw_storage w;
        ((keys, vals), j) \<leftarrow> (if input_to_copy = 0 then Some ((m_keys st, m_values st), 0)
             else merge_shift (sw_insert_key w) output input (m_keys st, m_values st) input_to_copy);
        keys \<leftarrow> set_cell keys (fst output + int j) (sw_insert_key w);
        vals \<leftarrow> set_cell vals (snd output + int j) (sw_insert_value w);
        keys \<leftarrow> copy_cells keys (fst output) input (int j);
        vals \<leftarrow> copy_cells vals (snd output) input (int j);
        let insert_position = int j;
        predecessor \<leftarrow> (if insert_position = output_lhs_start \<or> insert_position = output_rhs_start then Some INT64_MIN
           else if 0 < insert_position then cell keys (fst output + insert_position - 1) else Some (sw_insert_predecessor w));
        successor \<leftarrow> (if insert_position = output_rhs_start - 1 \<or> insert_position = output_rhs_end - 1 then Some INT64_MAX
           else cell keys (fst output + insert_position + 1));
        Some (w\<lparr>sw_storage := st\<lparr>m_keys := keys, m_values := vals\<rparr>,
                sw_insert_to_segment := output_segment_id + (if output_rhs_start \<le> insert_position then 1 else 0),
                sw_insert_predecessor := predecessor, sw_insert_successor := successor, sw_insert := False\<rparr>) })"

section \<open>Spreading\<close>

text \<open>The part of the input still to copy: an even segment, the first cell of its run of elements and
  the length of the run.\<close>

record Input =
  in_segment_id :: int
  in_start :: int
  in_run_sz :: int

definition run_start :: "SpreadWithRewiring \<Rightarrow> int \<Rightarrow> int" where
  "run_start w segment_id = segment_id * sw_capacity w + sw_capacity w - int (m_segment_sizes (sw_storage w) ! nat segment_id)"

text \<open>The end of an iteration of the copy: once a run is over, the one before it.\<close>

definition next_run :: "Input \<Rightarrow> SpreadWithRewiring \<Rightarrow> (Input \<times> SpreadWithRewiring) option" where
  "next_run input w =
     (if in_run_sz input \<noteq> 0 then Some (input, w)
      else if odd (in_segment_id input) then None
      else do {
        let seg = in_segment_id input - 2;
        let sizes = m_segment_sizes (sw_storage w);
        input \<leftarrow> (if int (sw_window_start w) \<le> seg then
             let run_sz = int (sizes ! nat seg + sizes ! (nat seg + 1))
             in if 0 < run_sz \<and> run_sz \<le> 2 * sw_capacity w
                then Some \<lparr>in_segment_id = seg, in_start = run_start w seg, in_run_sz = run_sz\<rparr> else None
           else Some \<lparr>in_segment_id = seg, in_start = int (sw_window_start w) * sw_capacity w, in_run_sz = 0\<rparr>);
        predecessor \<leftarrow> (if sw_insert_predecessor w = - 1 \<and> sw_insert_successor w \<noteq> - 1 then
             if 0 < in_run_sz input then cell (m_keys (sw_storage w)) (in_start input + in_run_sz input - 1) else Some INT64_MIN
           else Some (sw_insert_predecessor w));
        Some (input, w\<lparr>sw_insert_predecessor := predecessor\<rparr>) })"

text \<open>One iteration: the elements copied from the input and those written.\<close>

definition copy_chunk ::
  "int \<times> int \<Rightarrow> int \<Rightarrow> int \<Rightarrow> int \<Rightarrow> Input \<Rightarrow> int \<Rightarrow> SpreadWithRewiring \<Rightarrow> (int \<times> int \<times> SpreadWithRewiring) option" where
  "copy_chunk output lhs rhs output_segment_id input output_run_sz w = do {
     let elements_to_copy = min output_run_sz (in_run_sz input);
     insert \<leftarrow> (if sw_insert w then
          if in_run_sz input = 0 then Some True
          else map_option (\<lambda>k. k \<le> sw_insert_key w)
                 (cell (m_keys (sw_storage w)) (in_start input + in_run_sz input - elements_to_copy))
        else Some False);
     if insert then
       let input_copied = max 0 (elements_to_copy - 1); output_copied = input_copied + 1;
           output_copy_offset = output_run_sz - output_copied
       in if output_copy_offset < 0 then None
       else do {
         w \<leftarrow> merge_to_insert (fst output + output_copy_offset, snd output + output_copy_offset) (in_start input + (in_run_sz input - input_copied)) (nat input_copied)
                output_segment_id (- output_copy_offset) (lhs - output_copy_offset) (lhs + rhs - output_copy_offset) w;
         Some (input_copied, output_copied, w) }
     else do {
       let st = sw_storage w;
       let offset = output_run_sz - elements_to_copy;
       let src = in_start input + (in_run_sz input - elements_to_copy);
       keys \<leftarrow> copy_cells (m_keys st) (fst output + offset) src elements_to_copy;
       vals \<leftarrow> copy_cells (m_values st) (snd output + offset) src elements_to_copy;
       Some (elements_to_copy, elements_to_copy, w\<lparr>sw_storage := st\<lparr>m_keys := keys, m_values := vals\<rparr>\<rparr>) } }"

text \<open>The loop that fills a pair of segments. An iteration that writes nothing is repeated forever.\<close>

function fill_run ::
  "int \<times> int \<Rightarrow> int \<Rightarrow> int \<Rightarrow> int \<Rightarrow> int \<Rightarrow> Input \<times> SpreadWithRewiring \<Rightarrow> (Input \<times> SpreadWithRewiring) option" where
  "fill_run output lhs rhs output_segment_id output_run_sz iw =
     (if output_run_sz \<le> 0 then Some iw
      else do {
        (input_copied, output_copied, w) \<leftarrow> copy_chunk output lhs rhs output_segment_id (fst iw) output_run_sz (snd iw);
        if output_copied \<le> 0 then None
        else do {
          iw \<leftarrow> next_run ((fst iw)\<lparr>in_run_sz := in_run_sz (fst iw) - input_copied\<rparr>) w;
          fill_run output lhs rhs output_segment_id (output_run_sz - output_copied) iw } })"
  by pat_completeness auto
termination by (relation "measure (\<lambda>(output, lhs, rhs, seg, n, iw). nat n)") auto

declare fill_run.simps [simp del]

text \<open>A pair of output segments, \<open>rel\<close> the first one relative to the extent.\<close>

definition spread_pair :: "int \<times> int \<Rightarrow> int \<Rightarrow> nat \<Rightarrow> Input \<times> SpreadWithRewiring \<Rightarrow> (Input \<times> SpreadWithRewiring) option" where
  "spread_pair destination extent_id rel iw = do {
     let w = snd iw;
     let lhs = int (get_partition_current (sw_partitions w) (sw_partition_id w) (sw_partition_offset w));
     let rhs = int (get_partition_next (sw_partitions w) (sw_partition_id w) (sw_partition_offset w));
     if sw_capacity w < lhs \<or> sw_capacity w < rhs then None
     else do {
       let displacement = int rel * sw_capacity w + (sw_capacity w - lhs);
       let output = (fst destination + displacement, snd destination + displacement);
       let segment = nat (extent2segment w extent_id) + rel;
       (input, w) \<leftarrow> fill_run output lhs rhs (int segment) (lhs + rhs) iw;
       k1 \<leftarrow> cell (m_keys (sw_storage w)) (fst output);
       idx \<leftarrow> set_separator_key (sw_index w) segment k1;
       k2 \<leftarrow> cell (m_keys (sw_storage w)) (fst output + lhs);
       idx \<leftarrow> set_separator_key idx (segment + 1) k2;
       Some (input, move_current_partition_by (- 2) (w\<lparr>sw_index := idx\<rparr>)) } }"

fun spread_pairs :: "int \<times> int \<Rightarrow> int \<Rightarrow> nat list \<Rightarrow> Input \<times> SpreadWithRewiring \<Rightarrow> (Input \<times> SpreadWithRewiring) option" where
  "spread_pairs destination extent_id [] iw = Some iw"
| "spread_pairs destination extent_id (rel # rels) iw = do {
     iw \<leftarrow> spread_pair destination extent_id rel iw;
     spread_pairs destination extent_id rels iw }"

text \<open>The first segments of the pairs of an extent, from the last: \<open>n - 2\<close>, \<open>n - 4\<close> and so on. For one
  segment per extent the subtraction gives -1 and there is none.\<close>

definition extent_pairs :: "nat \<Rightarrow> nat list" where
  "extent_pairs n = rev (map (\<lambda>i. n mod 2 + 2 * i) [0..<n div 2])"

definition spread_elements :: "int \<times> int \<Rightarrow> int \<Rightarrow> SpreadWithRewiring \<Rightarrow> SpreadWithRewiring option" where
  "spread_elements destination extent_id w = do {
     let seg = ((sw_position w - 1) mod 2 ^ 64) div (2 * sw_capacity w) * 2;
     let start = run_start w seg;
     let run_sz = sw_position w - start;
     if \<not> (0 < run_sz \<and> run_sz \<le> 2 * sw_capacity w) then None
     else do {
       (input, w) \<leftarrow> spread_pairs destination extent_id (extent_pairs (sw_segments_per_extent w))
                       (\<lparr>in_segment_id = seg, in_start = start, in_run_sz = run_sz\<rparr>, w);
       Some (w\<lparr>sw_position := in_start input + in_run_sz input\<rparr>) } }"

definition spread_extent :: "nat \<Rightarrow> SpreadWithRewiring \<Rightarrow> SpreadWithRewiring option" where
  "spread_extent extent_id w =
     (if \<not> extent_id < sw_window_length w div sw_segments_per_extent w then None
      else do {
        w \<leftarrow> (if get_current_extent w < int extent_id then spread_elements (get_offset w (int extent_id), get_offset w (int extent_id)) (int extent_id) w
             else do {
               (buffer_keys, buffer_values, w) \<leftarrow> acquire_free_space w;
               spread_elements (buffer_keys, buffer_values) (int extent_id)
                 (w\<lparr>sw_extents_to_rewire := sw_extents_to_rewire w @ [(int extent_id, buffer_keys, buffer_values)]\<rparr>) });
        reclaim_past_extents w })"

fun spread_extents :: "nat \<Rightarrow> SpreadWithRewiring \<Rightarrow> SpreadWithRewiring option" where
  "spread_extents 0 w = Some w"
| "spread_extents (Suc i) w = do { w \<leftarrow> spread_extent i w; spread_extents i w }"

definition buffers_released :: "Storage \<Rightarrow> bool" where
  "buffers_released st \<longleftrightarrow>
     (case (m_memory_keys st, m_memory_values st) of
        (Some mk, Some mv) \<Rightarrow> get_used_buffers mk = Some 0 \<and> get_used_buffers mv = Some 0 | _ \<Rightarrow> False)"

definition spread_window :: "SpreadWithRewiring \<Rightarrow> SpreadWithRewiring option" where
  "spread_window w =
     (if sw_window_length w mod sw_segments_per_extent w \<noteq> 0 \<or> sw_window_length w div sw_segments_per_extent w = 0
         \<or> \<not> buffers_released (sw_storage w) then None
      else do {
        w \<leftarrow> spread_extents (sw_window_length w div sw_segments_per_extent w) w;
        if buffers_released (sw_storage w) then Some w else None })"

text \<open>The sizes of the segments, partition after partition.\<close>

fun write_sizes :: "nat \<Rightarrow> nat \<Rightarrow> Partition list \<Rightarrow> nat \<Rightarrow> nat list \<Rightarrow> nat list option" where
  "write_sizes capacity segment_end [] segment_id sizes = (if segment_id < segment_end then None else Some sizes)"
| "write_sizes capacity segment_end (p # ps) segment_id sizes =
     (if segment_id < segment_end then
        let xs = map (segment_cardinality p) [0..<p_segments p]
        in if p_segments p = 0 \<or> length sizes < segment_id + p_segments p \<or> (\<exists>x\<in>set xs. capacity < x) then None
        else write_sizes capacity segment_end ps (segment_id + p_segments p)
               (take segment_id sizes @ xs @ drop (segment_id + p_segments p) sizes)
      else Some sizes)"

definition update_segment_sizes :: "SpreadWithRewiring \<Rightarrow> SpreadWithRewiring option" where
  "update_segment_sizes w = do {
     let st = sw_storage w;
     sizes \<leftarrow> write_sizes (m_segment_capacity st) (sw_window_start w + sw_window_length w) (sw_partitions w)
       (sw_window_start w) (m_segment_sizes st);
     Some (w\<lparr>sw_storage := st\<lparr>m_segment_sizes := sizes\<rparr>\<rparr>) }"

definition finalize_insert :: "Knobs \<Rightarrow> Detector \<Rightarrow> SpreadWithRewiring \<Rightarrow> (Detector \<times> SpreadWithRewiring) option" where
  "finalize_insert knobs d w =
     (if sw_insert_to_segment w = - 1 then Some (d, w)
      else if \<not> (int (sw_window_start w) \<le> sw_insert_to_segment w
          \<and> sw_insert_to_segment w < int (sw_window_start w + sw_window_length w)) then None
      else if sw_insert_predecessor w = - 1 \<or> sw_insert_successor w = - 1 then None
      else do {
        d \<leftarrow> detector_insert knobs d (nat (sw_insert_to_segment w)) (sw_insert_predecessor w) (sw_insert_successor w);
        Some (d, w\<lparr>sw_storage := (sw_storage w)\<lparr>m_cardinality := u32 (m_cardinality (sw_storage w) + 1)\<rparr>\<rparr>) })"

definition spread_execute :: "Knobs \<Rightarrow> Detector \<Rightarrow> SpreadWithRewiring \<Rightarrow> (Detector \<times> SpreadWithRewiring) option" where
  "spread_execute knobs d w = do {
     w \<leftarrow> spread_window w;
     w \<leftarrow> update_segment_sizes w;
     finalize_insert knobs d w }"

end
