(* ===== verification/RMA.thy ===== *)
theory RMA
  imports Rewiring_Spread
begin

text \<open>
  The rewired memory array, \<open>pma/adaptive/int3/packed_memory_array.cpp\<close>: its state, searches, insertions
  and removals, and the rebalances they start.

  The environment gives the size of a memory page, the content of fresh memory and the function
  \<open>log2\<close> of the C library. The memory pool only provides workspaces, which are lists here. \<open>None\<close> is
  a failed assertion, an exception, an access out of bounds or a loop that does not end.

  The index is built with the exact height \<open>ceil_log\<close>: the array has one segment at first and is doubled or
  halved, and for a power of two of segments the quotient of logarithms the code takes in doubles is the
  exact height at every level, whatever the node size (\<open>heights_exact_pow2\<close>).
\<close>

section \<open>State\<close>

record Env =
  e_page_size :: nat
  e_junk :: int
  e_log2 :: "nat \<Rightarrow> double"

record PackedMemoryArray =
  m_index :: StaticIndex
  m_storage :: Storage
  m_knobs :: Knobs
  m_detector :: Detector
  m_density_bounds0 :: CachedDensityBounds
  m_density_bounds1 :: CachedDensityBounds
  m_primary_densities :: bool

datatype RebalanceOperation = REBALANCE | RESIZE | RESIZE_REBALANCE

record RebalanceMetadata =
  md_operation :: RebalanceOperation
  md_window_start :: nat
  md_window_length :: nat
  md_cardinality_after :: nat
  md_is_insert :: bool
  md_insert_key :: int
  md_insert_value :: int
  md_insert_segment :: int
  md_apma_partitions :: "Partition list"

text \<open>\<open>bounds0\<close> are the thresholds the configuration gives.\<close>

definition new_pma :: "Env \<Rightarrow> CachedDensityBounds \<Rightarrow> nat \<Rightarrow> nat \<Rightarrow> nat \<Rightarrow> PackedMemoryArray option" where
  "new_pma env bounds0 btree_block_size pma_segment_size pages_per_extent = do {
     idx \<leftarrow> new_index ceil_log (e_junk env) btree_block_size 1;
     st \<leftarrow> new_storage (e_page_size env) (e_junk env) pma_segment_size pages_per_extent;
     bounds1 \<leftarrow> new_cached 0 (3 / 4) (3 / 4) 1;
     Some \<lparr>m_index = idx, m_storage = st, m_knobs = new_knobs, m_detector = new_detector 1 8,
           m_density_bounds0 = bounds0, m_density_bounds1 = bounds1, m_primary_densities = False\<rparr> }"

section \<open>Properties\<close>

definition pma_size :: "PackedMemoryArray \<Rightarrow> nat" where
  "pma_size p = m_cardinality (m_storage p)"

definition pma_empty :: "PackedMemoryArray \<Rightarrow> bool" where
  "pma_empty p \<longleftrightarrow> m_cardinality (m_storage p) = 0"

definition get_thresholds :: "PackedMemoryArray \<Rightarrow> CachedDensityBounds" where
  "get_thresholds p = (if m_primary_densities p then m_density_bounds1 p else m_density_bounds0 p)"

definition get_thresholds_at :: "PackedMemoryArray \<Rightarrow> nat \<Rightarrow> (double \<times> double) option" where
  "get_thresholds_at p height =
     (if 1 \<le> height \<and> height \<le> hyperheight (m_storage p) then thresholds_cached (get_thresholds p) height else None)"

definition set_thresholds :: "PackedMemoryArray \<Rightarrow> nat \<Rightarrow> PackedMemoryArray option" where
  "set_thresholds p height =
     (if m_primary_densities p then do {
        (_, c) \<leftarrow> thresholds_tree (m_density_bounds1 p) height height; Some (p\<lparr>m_density_bounds1 := c\<rparr>) }
      else do { (_, c) \<leftarrow> thresholds_tree (m_density_bounds0 p) height height; Some (p\<lparr>m_density_bounds0 := c\<rparr>) })"

definition balanced_thresholds_cutoff :: "nat \<Rightarrow> PackedMemoryArray \<Rightarrow> nat" where
  "balanced_thresholds_cutoff ps p = 64 * segments_per_extent ps (m_storage p)"

definition set_thresholds_for :: "nat \<Rightarrow> PackedMemoryArray \<Rightarrow> RebalanceMetadata \<Rightarrow> PackedMemoryArray option" where
  "set_thresholds_for ps p action =
     (if md_operation action = RESIZE \<or> md_operation action = RESIZE_REBALANCE
      then set_thresholds (p\<lparr>m_primary_densities := balanced_thresholds_cutoff ps p < md_window_length action\<rparr>)
             (ceil_log 2 (md_window_length action) + 1)
      else Some p)"

definition pma_memory_footprint :: "nat \<Rightarrow> PackedMemoryArray \<Rightarrow> nat" where
  "pma_memory_footprint sizeof_pma p = sizeof_pma + memory_footprint (m_index p) + storage_footprint (m_storage p)
     + detector_capacity (m_detector p) * sizeof_entry (m_detector p) * 8"

section \<open>Find\<close>

text \<open>\<open>for (i = start; i < stop; i++) if (keys[i] == key) break;\<close>\<close>

fun scan_key :: "int list \<Rightarrow> nat \<Rightarrow> int \<Rightarrow> nat \<Rightarrow> nat \<Rightarrow> nat option" where
  "scan_key keys b key start 0 = None"
| "scan_key keys b key start (Suc n) =
     (if keys ! (b + start) = key then Some start else scan_key keys b key (Suc start) n)"

definition find_position :: "Storage \<Rightarrow> nat \<Rightarrow> int \<Rightarrow> int" where
  "find_position st segment_id key =
     (if key = INT64_MIN then 0
      else
        let sz = m_segment_sizes st ! segment_id
        in if key = INT64_MAX then int sz
        else
          let cap = m_segment_capacity st; sz = min sz cap;
              start = (if even segment_id then cap - sz else 0)
          in case scan_key (m_keys st) (segment_id * cap) key start sz of
               Some i \<Rightarrow> int i - int start
             | None \<Rightarrow> - 1)"

definition pma_find :: "PackedMemoryArray \<Rightarrow> int \<Rightarrow> int option" where
  "pma_find p key =
     (if pma_empty p then Some (- 1)
      else do {
        segment_id \<leftarrow> index_find (m_index p) key;
        let st = m_storage p;
        let cap = m_segment_capacity st;
        let sz = m_segment_sizes st ! segment_id;
        let start = (if even segment_id then cap - sz else 0);
        Some (case scan_key (m_keys st) (segment_id * cap) key start sz of
            Some i \<Rightarrow> m_values st ! (segment_id * cap + i)
          | None \<Rightarrow> - 1) })"

section \<open>Spread without rewiring\<close>

text \<open>Elements are read to and written from lists of keys and values.\<close>

definition spread_insert_unsafe :: "int list \<Rightarrow> int list \<Rightarrow> int \<Rightarrow> int \<Rightarrow> int list \<times> int list \<times> nat" where
  "spread_insert_unsafe keys_from values_from new_key new_value =
     (let i = length (takeWhile (\<lambda>k. k < new_key) keys_from)
      in (take i keys_from @ new_key # drop i keys_from, take i values_from @ new_value # drop i values_from, i))"

record Loaded =
  l_keys :: "int list"
  l_values :: "int list"
  l_position :: nat
  l_insert_position :: int
  l_insert :: bool

definition load_insert :: "RebalanceMetadata \<Rightarrow> int list \<Rightarrow> int list \<Rightarrow> Loaded \<Rightarrow> Loaded" where
  "load_insert action keys_from values_from l =
     (let (ks, vs, i) = spread_insert_unsafe keys_from values_from (md_insert_key action) (md_insert_value action)
      in l\<lparr>l_keys := l_keys l @ ks, l_values := l_values l @ vs, l_position := l_position l + i,
           l_insert_position := int (l_position l + i), l_insert := False\<rparr>)"

definition load_pair :: "RebalanceMetadata \<Rightarrow> Storage \<Rightarrow> Loaded \<Rightarrow> nat \<Rightarrow> Loaded" where
  "load_pair action st l i =
     (let ws = md_window_start action; cap = m_segment_capacity st;
          left = m_segment_sizes st ! (ws + i - 1); len = left + m_segment_sizes st ! (ws + i);
          offset = ws * cap + cap * i - left;
          keys_from = take len (drop offset (m_keys st)); values_from = take len (drop offset (m_values st));
          new_key_segment = (if md_is_insert action then md_insert_segment action - int ws else - 1)
      in if new_key_segment = int i \<or> new_key_segment = int i - 1 then load_insert action keys_from values_from l
      else l\<lparr>l_keys := l_keys l @ keys_from, l_values := l_values l @ values_from,
             l_position := (if l_insert l then l_position l + len else l_position l)\<rparr>)"

text \<open>The pairs start at the indices \<open>i - 1\<close>, for \<open>i = 1, 3, ...\<close> under the length of the window.\<close>

definition pair_indices :: "nat \<Rightarrow> nat list" where
  "pair_indices n = map (\<lambda>i. 2 * i + 1) [0..<n div 2]"

definition spread_load :: "RebalanceMetadata \<Rightarrow> Storage \<Rightarrow> Loaded \<times> Storage" where
  "spread_load action st =
     (let l = foldl (load_pair action st)
            \<lparr>l_keys = [], l_values = [], l_position = 0, l_insert_position = - 1, l_insert = md_is_insert action\<rparr>
            (pair_indices (md_window_length action));
          l = (if l_insert l then load_insert action [] [] l else l)
      in (l, if md_is_insert action then st\<lparr>m_cardinality := u32 (m_cardinality st + 1)\<rparr> else st))"

record DetectorRecord =
  d_position :: int
  d_predecessor :: int
  d_successor :: int

definition spread_create_detector_record :: "int list \<Rightarrow> nat \<Rightarrow> int \<Rightarrow> DetectorRecord" where
  "spread_create_detector_record keys sz position =
     (if position < 0 then \<lparr>d_position = - 1, d_predecessor = INT64_MIN, d_successor = INT64_MAX\<rparr>
      else \<lparr>d_position = position,
            d_predecessor = (if 0 < position then keys ! nat (position - 1) else INT64_MIN),
            d_successor = (if position < int sz - 1 then keys ! nat (position + 1) else INT64_MAX)\<rparr>)"

definition in_record :: "DetectorRecord option \<Rightarrow> nat \<Rightarrow> bool" where
  "in_record r cardinality \<longleftrightarrow> (case r of Some d \<Rightarrow> 0 \<le> d_position d \<and> d_position d < int cardinality | None \<Rightarrow> False)"

definition record_insertion :: "nat \<Rightarrow> DetectorRecord option \<Rightarrow> nat \<Rightarrow> PackedMemoryArray \<Rightarrow> PackedMemoryArray option" where
  "record_insertion segment_id r cardinality p =
     (if in_record r cardinality then do {
        d \<leftarrow> r;
        det \<leftarrow> detector_insert (m_knobs p) (m_detector p) segment_id (d_predecessor d) (d_successor d);
        Some (p\<lparr>m_detector := det\<rparr>) }
      else Some p)"

definition set_separator :: "nat \<Rightarrow> int \<Rightarrow> PackedMemoryArray \<Rightarrow> PackedMemoryArray option" where
  "set_separator segment_id key p = do {
     idx \<leftarrow> set_separator_key (m_index p) segment_id key; Some (p\<lparr>m_index := idx\<rparr>) }"

text \<open>Writing \<open>n\<close> elements from the front of the lists to the cells from \<open>pos\<close>.\<close>

definition write_elements :: "nat \<Rightarrow> nat \<Rightarrow> int list \<times> int list \<Rightarrow> PackedMemoryArray \<Rightarrow> PackedMemoryArray option" where
  "write_elements pos n from p =
     (if length (fst from) < n \<or> length (snd from) < n then None
      else do {
        let st = m_storage p;
        keys \<leftarrow> write_cells (m_keys st) pos (take n (fst from));
        vals \<leftarrow> write_cells (m_values st) pos (take n (snd from));
        Some (p\<lparr>m_storage := st\<lparr>m_keys := keys, m_values := vals\<rparr>\<rparr>) })"

definition set_sizes :: "nat \<Rightarrow> nat list \<Rightarrow> PackedMemoryArray \<Rightarrow> PackedMemoryArray option" where
  "set_sizes segment_id sizes p = do {
     sizes \<leftarrow> write_cells (m_segment_sizes (m_storage p)) segment_id sizes;
     Some (p\<lparr>m_storage := (m_storage p)\<lparr>m_segment_sizes := sizes\<rparr>\<rparr>) }"

definition spread_save_segment ::
  "nat \<Rightarrow> int list \<times> int list \<Rightarrow> nat \<Rightarrow> DetectorRecord option \<Rightarrow> PackedMemoryArray \<Rightarrow> PackedMemoryArray option" where
  "spread_save_segment segment_id from cardinality r p =
     (if cardinality = 0 then None
      else do {
        let cap = m_segment_capacity (m_storage p);
        p \<leftarrow> write_elements (segment_id * cap + (if even segment_id then cap - cardinality else 0)) cardinality from p;
        p \<leftarrow> set_separator segment_id (fst from ! 0) p;
        p \<leftarrow> set_sizes segment_id [cardinality] p;
        record_insertion segment_id r cardinality p })"

definition drop_elements :: "nat \<Rightarrow> int list \<times> int list \<Rightarrow> int list \<times> int list" where
  "drop_elements n from = (drop n (fst from), drop n (snd from))"

text \<open>The pairs of segments of a partition; \<open>i\<close> is the index of the second of the pair.\<close>

fun save_pairs ::
  "nat \<Rightarrow> nat \<Rightarrow> nat \<Rightarrow> nat list \<Rightarrow> int list \<times> int list \<Rightarrow> PackedMemoryArray \<Rightarrow> ((int list \<times> int list) \<times> PackedMemoryArray) option" where
  "save_pairs window_start card_per_segment odd_segments [] from p = Some (from, p)"
| "save_pairs window_start card_per_segment odd_segments (i # is) from p = do {
     let cap = m_segment_capacity (m_storage p);
     let card_left = card_per_segment + (if i - 1 < odd_segments then 1 else 0);
     let card_right = card_per_segment + (if i < odd_segments then 1 else 0);
     let len = card_left + card_right;
     if length (fst from) \<le> card_left then None
     else do {
       p \<leftarrow> set_separator (window_start + i - 1) (fst from ! 0) p;
       p \<leftarrow> set_separator (window_start + i) (fst from ! card_left) p;
       p \<leftarrow> write_elements (window_start * cap + i * cap - card_left) len from p;
       save_pairs window_start card_per_segment odd_segments is (drop_elements len from) p } }"

text \<open>The detector record of a partition of several segments: the segment the new element goes to.\<close>

definition record_position :: "nat \<Rightarrow> nat \<Rightarrow> nat \<Rightarrow> nat" where
  "record_position card_per_segment odd_segments position =
     (let odd_segments_threshold = odd_segments * (card_per_segment + 1)
      in if position < odd_segments_threshold then position div (card_per_segment + 1)
      else odd_segments + (position - odd_segments_threshold) div card_per_segment)"

text \<open>An odd number of remaining segments fails the assertion before the pairs are copied, so that
  the copy of a last segment at an even position is not reached.\<close>

definition spread_save_window ::
  "nat \<Rightarrow> nat \<Rightarrow> int list \<times> int list \<Rightarrow> nat \<Rightarrow> DetectorRecord option \<Rightarrow> PackedMemoryArray \<Rightarrow> PackedMemoryArray option" where
  "spread_save_window window_start window_length from cardinality r p = do {
     let card_per_segment = cardinality div window_length;
     let odd_segments = cardinality mod window_length;
     let segment_id = (case r of Some d \<Rightarrow> record_position card_per_segment odd_segments (nat (d_position d)) | None \<Rightarrow> 0);
     p \<leftarrow> (if in_record r cardinality \<and> window_length \<le> segment_id then None
          else record_insertion (window_start + segment_id) r cardinality p);
     let cap = m_segment_capacity (m_storage p);
     if cap < card_per_segment + (if 0 < odd_segments then 1 else 0) then None
     else do {
       p \<leftarrow> set_sizes window_start
              (replicate odd_segments (card_per_segment + 1) @ replicate (window_length - odd_segments) card_per_segment) p;
       (window_start, window_length, odd_segments, from, p) \<leftarrow> (if odd window_start then do {
            let this_card = card_per_segment + odd_segments;
            p \<leftarrow> write_elements (window_start * cap) this_card from p;
            p \<leftarrow> set_separator window_start (m_keys (m_storage p) ! (window_start * cap)) p;
            Some (window_start + 1, window_length - 1, odd_segments - 1, drop_elements this_card from, p) }
          else Some (window_start, window_length, odd_segments, from, p));
       if odd window_length then None
       else do {
         (from, p) \<leftarrow> save_pairs window_start card_per_segment odd_segments (pair_indices window_length) from p;
         Some p } } }"

fun spread_partitions ::
  "nat \<Rightarrow> Partition list \<Rightarrow> int list \<times> int list \<Rightarrow> DetectorRecord option \<Rightarrow> PackedMemoryArray \<Rightarrow> (nat \<times> PackedMemoryArray) option" where
  "spread_partitions segment_id [] from r p = Some (segment_id, p)"
| "spread_partitions segment_id (part # parts) from r p =
     (if p_segments part = 0 then None
      else do {
        let len = p_cardinality part;
        p \<leftarrow> (if p_segments part = 1 then spread_save_segment segment_id from len r p
             else spread_save_window segment_id (p_segments part) from len r p);
        let r = (case r of
             Some d \<Rightarrow> if d_position d - int len < 0 then None else Some (d\<lparr>d_position := d_position d - int len\<rparr>)
           | None \<Rightarrow> None);
        spread_partitions (segment_id + p_segments part) parts (drop_elements len from) r p })"

definition spread_local :: "RebalanceMetadata \<Rightarrow> PackedMemoryArray \<Rightarrow> PackedMemoryArray option" where
  "spread_local action p = do {
     let (l, st) = spread_load action (m_storage p);
     let r = (if md_is_insert action
        then Some (spread_create_detector_record (l_keys l) (md_cardinality_after action) (l_insert_position l)) else None);
     (segment_end, p) \<leftarrow> spread_partitions (md_window_start action) (md_apma_partitions action)
                         (l_keys l, l_values l) r (p\<lparr>m_storage := st\<rparr>);
     if segment_end - md_window_start action \<noteq> md_window_length action then None
     else Some (if md_window_length action = m_number_segments (m_storage p) then p\<lparr>m_detector := clear_all (m_detector p)\<rparr> else p) }"

section \<open>Resize\<close>

text \<open>The input of a resize, in the old arrays: a segment, its first element not yet read and how many
  are left in it.\<close>

record ResizeInput =
  z_segment_id :: nat
  z_size :: nat
  z_start :: nat
  z_odd :: bool
  z_insert :: bool

definition resize_start :: "Storage \<Rightarrow> bool \<Rightarrow> ResizeInput option" where
  "resize_start old do_insert =
     (let cap = m_segment_capacity old
      in if m_segment_sizes old ! 0 = 0 then
           if do_insert then None
           else Some \<lparr>z_segment_id = 1, z_size = m_segment_sizes old ! 1, z_start = cap, z_odd = True, z_insert = do_insert\<rparr>
         else Some \<lparr>z_segment_id = 0, z_size = m_segment_sizes old ! 0, z_start = cap - m_segment_sizes old ! 0,
                    z_odd = False, z_insert = do_insert\<rparr>)"

text \<open>The end of an iteration: once a segment is over, the next one that is not empty.\<close>

definition resize_next :: "Storage \<Rightarrow> ResizeInput \<Rightarrow> ResizeInput option" where
  "resize_next old z =
     (if z_size z \<noteq> 0 then Some z
      else
        let n = m_number_segments old; cap = m_segment_capacity old; i = z_segment_id z + 1; is_odd = (\<not> z_odd z);
            enter = (\<lambda>i is_odd sz. Some (z\<lparr>z_segment_id := i, z_odd := is_odd, z_size := sz,
                    z_start := i * cap + (if is_odd then 0 else cap - sz)\<rparr>))
        in if n \<le> i then if i \<le> n + 1 then Some (z\<lparr>z_segment_id := i, z_odd := is_odd\<rparr>) else None
        else if m_segment_sizes old ! i \<noteq> 0 then enter i is_odd (m_segment_sizes old ! i)
        else if z_insert z then None
        else if n \<le> i + 1 then enter (i + 1) (\<not> is_odd) 0
        else if m_segment_sizes old ! (i + 1) = 0 then None
        else enter (i + 1) (\<not> is_odd) (m_segment_sizes old ! (i + 1)))"

text \<open>The loop that fills the output segment \<open>j\<close>: \<open>pos\<close> is the next cell to write, \<open>first\<close> the first.\<close>

function resize_fill ::
  "RebalanceMetadata \<Rightarrow> Storage \<Rightarrow> nat \<Rightarrow> nat \<Rightarrow> nat \<Rightarrow> nat \<Rightarrow> ResizeInput \<times> PackedMemoryArray \<Rightarrow> (ResizeInput \<times> PackedMemoryArray) option" where
  "resize_fill action old j first pos elements_to_copy zp =
     (if elements_to_copy = 0 \<or> m_segment_capacity old < elements_to_copy then None
      else if z_size (fst zp) = 0 \<and> \<not> (elements_to_copy = 1 \<and> j = md_window_length action - 1) then None
      else do {
        let z = fst zp;
        let cpy1 = min elements_to_copy (z_size z);
        let merge = (z_insert z \<and> (z_size z = 0 \<or> md_insert_key action \<le> m_keys old ! (z_start z + cpy1 - 1)));
        let input_copied = (if merge then cpy1 - 1 else cpy1);
        let output_copied = (if merge then input_copied + 1 else cpy1);
        let keys_from = take input_copied (drop (z_start z) (m_keys old));
        let values_from = take input_copied (drop (z_start z) (m_values old));
        p \<leftarrow> (if merge then do {
             let (ks, vs, position) = spread_insert_unsafe keys_from values_from (md_insert_key action) (md_insert_value action);
             let st = m_storage (snd zp);
             p \<leftarrow> write_elements pos output_copied (ks, vs) ((snd zp)\<lparr>m_storage := st\<lparr>m_cardinality := u32 (m_cardinality st + 1)\<rparr>\<rparr>);
             if position = 0 \<and> pos = first then set_separator j (md_insert_key action) p else Some p }
           else write_elements pos output_copied (keys_from, values_from) (snd zp));
        if output_copied = 0 then None
        else do {
          z \<leftarrow> resize_next old (z\<lparr>z_size := z_size z - input_copied, z_start := z_start z + input_copied, z_insert := z_insert z \<and> \<not> merge\<rparr>);
          if elements_to_copy \<le> output_copied then Some (z, p)
          else resize_fill action old j first (pos + output_copied) (elements_to_copy - output_copied) (z, p) } })"
  by pat_completeness auto
termination by (relation "measure (\<lambda>(action, old, j, first, pos, n, zp). n)") auto

declare resize_fill.simps [simp del]

text \<open>An insertion in the segment \<open>j\<close> after it was filled.\<close>

definition resize_insert :: "RebalanceMetadata \<Rightarrow> nat \<Rightarrow> PackedMemoryArray \<Rightarrow> PackedMemoryArray option" where
  "resize_insert action j p = do {
     (st, is_min, predecessor, successor) \<leftarrow> storage_insert (m_storage p) j (md_insert_key action) (md_insert_value action);
     det \<leftarrow> detector_insert (m_knobs p) (m_detector p) j predecessor successor;
     let p = p\<lparr>m_storage := st, m_detector := det\<rparr>;
     if is_min then set_separator j (md_insert_key action) p else Some p }"

definition resize_segment ::
  "RebalanceMetadata \<Rightarrow> Storage \<Rightarrow> nat \<Rightarrow> nat \<Rightarrow> ResizeInput \<times> PackedMemoryArray \<Rightarrow> (ResizeInput \<times> PackedMemoryArray) option" where
  "resize_segment action old j elements_to_copy zp = do {
     let cap = m_segment_capacity old;
     let first = j * cap + (if odd j then 0 else cap - elements_to_copy);
     p \<leftarrow> set_sizes j [elements_to_copy] (snd zp);
     p \<leftarrow> (if 0 < z_size (fst zp) then set_separator j (m_keys old ! z_start (fst zp)) p else Some p);
     (z, p) \<leftarrow> resize_fill action old j first first elements_to_copy (fst zp, p);
     if z_insert z \<and> md_insert_key action < m_keys (m_storage p) ! (first + elements_to_copy - 1)
     then do { p \<leftarrow> resize_insert action j p; Some (z\<lparr>z_insert := False\<rparr>, p) }
     else Some (z, p) }"

fun resize_segments ::
  "RebalanceMetadata \<Rightarrow> Storage \<Rightarrow> nat \<Rightarrow> nat list \<Rightarrow> ResizeInput \<times> PackedMemoryArray \<Rightarrow> (ResizeInput \<times> PackedMemoryArray) option" where
  "resize_segments action old j [] zp = Some zp"
| "resize_segments action old j (n # ns) zp = do {
     zp \<leftarrow> resize_segment action old j n zp; resize_segments action old (j + 1) ns zp }"

text \<open>The cardinalities of the segments, as \<open>partition_state\<close> goes through the partitions.\<close>

fun partition_cardinalities :: "Partition list \<Rightarrow> nat list" where
  "partition_cardinalities [] = []"
| "partition_cardinalities (p # ps) = map (segment_cardinality p) [0..<p_segments p] @ partition_cardinalities ps"

definition pma_resize :: "Env \<Rightarrow> RebalanceMetadata \<Rightarrow> PackedMemoryArray \<Rightarrow> PackedMemoryArray option" where
  "pma_resize env action p = do {
     let num_segments = md_window_length action;
     let old = m_storage p;
     w \<leftarrow> alloc_workspace (e_page_size env) (e_junk env) old num_segments;
     idx \<leftarrow> rebuild ceil_log (e_junk env) (m_index p) num_segments;
     let cards = partition_cardinalities (md_apma_partitions action);
     z \<leftarrow> resize_start old (md_is_insert action);
     if length cards < num_segments then None
     else do {
       (z, p) \<leftarrow> resize_segments action old 0 (take num_segments cards) (z, p\<lparr>m_storage := set_workspace w old, m_index := idx\<rparr>);
       p \<leftarrow> (if z_insert z then resize_insert action (num_segments - 1) p else Some p);
       Some (p\<lparr>m_storage := (m_storage p)\<lparr>m_number_segments := u32 num_segments\<rparr>\<rparr>) } }"

section \<open>Resize with rewiring\<close>

definition run_spread_with_rewiring ::
  "RebalanceMetadata \<Rightarrow> nat \<Rightarrow> nat \<Rightarrow> int option \<Rightarrow> PackedMemoryArray \<Rightarrow> PackedMemoryArray option" where
  "run_spread_with_rewiring action window_start window_length position p = do {
     w \<leftarrow> new_spread (m_storage p) (m_index p) window_start window_length (md_apma_partitions action);
     w \<leftarrow> (if md_is_insert action then set_element_to_insert (md_insert_key action) (md_insert_value action) w else Some w);
     let w = (case position of Some x \<Rightarrow> set_absolute_position x w | None \<Rightarrow> w);
     (det, w) \<leftarrow> spread_execute (m_knobs p) (m_detector p) w;
     Some (p\<lparr>m_storage := sw_storage w, m_index := sw_index w, m_detector := det\<rparr>) }"

definition resize_rebalance :: "Env \<Rightarrow> RebalanceMetadata \<Rightarrow> PackedMemoryArray \<Rightarrow> PackedMemoryArray option" where
  "resize_rebalance env action p = do {
     let before = m_number_segments (m_storage p);
     let after = md_window_length action;
     st \<leftarrow> (if before < after then storage_extend (e_page_size env) (m_storage p) (after - before) else Some (m_storage p));
     idx \<leftarrow> rebuild ceil_log (e_junk env) (m_index p) after;
     let start_position = int (before - 1) * int (m_segment_capacity st) + int (m_segment_sizes st ! (before - 1));
     p \<leftarrow> run_spread_with_rewiring action 0 after (Some start_position) (p\<lparr>m_storage := st, m_index := idx\<rparr>);
     st \<leftarrow> (if after < before then storage_shrink (e_page_size env) (m_storage p) (before - after) else Some (m_storage p));
     Some (p\<lparr>m_storage := st\<rparr>) }"

section \<open>Rebalance\<close>

definition do_rebalance :: "Env \<Rightarrow> RebalanceMetadata \<Rightarrow> PackedMemoryArray \<Rightarrow> PackedMemoryArray option" where
  "do_rebalance env action p =
     (case md_operation action of
        REBALANCE \<Rightarrow>
          if md_window_length action < segments_per_extent (e_page_size env) (m_storage p) then spread_local action p
          else run_spread_with_rewiring action (md_window_start action) (md_window_length action) None p
      | RESIZE_REBALANCE \<Rightarrow>
          resize_rebalance env action (p\<lparr>m_detector := detector_resize (m_detector p) (md_window_length action)\<rparr>)
      | RESIZE \<Rightarrow> pma_resize env action (p\<lparr>m_detector := detector_resize (m_detector p) (md_window_length action)\<rparr>))"

record Window =
  win_length :: nat
  win_id :: nat
  win_start :: int
  win_cardinality :: nat
  win_height :: nat
  win_left :: int
  win_right :: int
  win_rho :: double
  win_theta :: double
  win_density :: double

text \<open>One step up the calibrator tree; the cardinalities of the segments the window gains are added.\<close>

definition widen_window :: "PackedMemoryArray \<Rightarrow> Window \<Rightarrow> Window option" where
  "widen_window p w = do {
     let st = m_storage p;
     let height = win_height w + 1;
     let len = win_length w * 2;
     let id = win_id w div 2;
     let start = min (int (id * len)) (int (m_number_segments st) - int len);
     (rho, theta) \<leftarrow> get_thresholds_at p height;
     if start < 0 then None
     else do {
       let lefts = [start..win_left w];
       let rights = [win_right w..start + int len - 1];
       let c = win_cardinality w + sum_list (map (\<lambda>i. m_segment_sizes st ! nat i) (lefts @ rights));
       Some \<lparr>win_length = len, win_id = id, win_start = start, win_cardinality = c, win_height = height,
             win_left = min (win_left w) (start - 1), win_right = max (win_right w) (start + int len),
             win_rho = rho, win_theta = theta, win_density = ddiv (d_of_nat c) (d_of_nat (len * m_segment_capacity st))\<rparr> } }"

function widen_loop :: "PackedMemoryArray \<Rightarrow> bool \<Rightarrow> Window \<Rightarrow> Window option" where
  "widen_loop p is_insertion w =
     (if storage_height (m_storage p) \<le> win_height w then Some w
      else do {
        w' \<leftarrow> widen_window p w;
        if (is_insertion \<and> win_theta w' < win_density w' \<or> \<not> is_insertion \<and> win_density w' < win_rho w')
        then widen_loop p is_insertion w' else Some w' })"
  by pat_completeness auto
termination
  by (relation "measure (\<lambda>(p, i, w). storage_height (m_storage p) - win_height w)")
    (auto simp: widen_window_def Let_def split: bind_splits if_splits)

declare widen_loop.simps [simp del]

text \<open>The window to rebalance: its start, length and cardinality, or a resize and the cardinality.\<close>

definition rebalance_find_window :: "PackedMemoryArray \<Rightarrow> nat \<Rightarrow> bool \<Rightarrow> (nat \<times> nat \<times> nat \<times> bool) option" where
  "rebalance_find_window p segment_id is_insertion =
     (let st = m_storage p;
          c = (if is_insertion then m_segment_capacity st + 1 else m_segment_sizes st ! segment_id);
          w = \<lparr>win_length = 1, win_id = segment_id, win_start = int segment_id, win_cardinality = c, win_height = 1,
               win_left = int segment_id - 1, win_right = int segment_id + 1, win_rho = 0, win_theta = 1,
               win_density = ddiv (d_of_nat c) (d_of_nat (m_segment_capacity st))\<rparr>
      in if \<not> segment_id < m_number_segments st then None
      else do {
        w \<leftarrow> (if 1 < storage_height st then widen_loop p is_insertion w else Some w);
        if is_insertion \<and> win_density w \<le> win_theta w \<or> \<not> is_insertion \<and> win_rho w \<le> win_density w
        then Some (nat (win_start w), win_length w, win_cardinality w, False)
        else Some (0, 0, u32 (m_cardinality st + (if is_insertion then 1 else 0)), True) })"

text \<open>A division of doubles, of numbers given as integers, rounded up and down.\<close>

definition ceil_div :: "double \<Rightarrow> double \<Rightarrow> nat" where
  "ceil_div a b = nat \<lceil>ddiv a b\<rceil>"

definition floor_div :: "double \<Rightarrow> double \<Rightarrow> nat" where
  "floor_div a b = nat \<lfloor>ddiv a b\<rfloor>"

definition segment_target :: "PackedMemoryArray \<Rightarrow> double" where
  "segment_target p = dmul (get_upper_threshold_root (m_density_bounds1 p)) (d_of_nat (m_segment_capacity (m_storage p)))"

definition plan_insert :: "nat \<Rightarrow> PackedMemoryArray \<Rightarrow> nat \<Rightarrow> (RebalanceOperation \<times> nat) option" where
  "plan_insert ps p cardinality_after =
     (let st = m_storage p; spe = segments_per_extent ps st;
          ideal_number_of_segments = max (ceil_div (d_of_nat cardinality_after) (segment_target p)) (u32 (m_number_segments st + 1))
      in if ideal_number_of_segments < balanced_thresholds_cutoff ps p then
           let n = u32 (m_number_segments st * 2) in Some (if spe < n then RESIZE_REBALANCE else RESIZE, n)
         else
           let num_extents = ceil_div (d_of_nat ideal_number_of_segments) (d_of_nat spe)
           in if num_extents < number_extents st then None
           else Some (RESIZE_REBALANCE, (if num_extents = number_extents st then num_extents + 1 else num_extents) * spe))"

definition plan_remove :: "nat \<Rightarrow> PackedMemoryArray \<Rightarrow> nat \<Rightarrow> (RebalanceOperation \<times> nat) option" where
  "plan_remove ps p cardinality_after =
     (let st = m_storage p; spe = segments_per_extent ps st; density_threshold = balanced_thresholds_cutoff ps p;
          ideal_number_of_segments = floor_div (d_of_nat cardinality_after) (segment_target p);
          num_extents = floor_div (d_of_nat ideal_number_of_segments) (d_of_nat spe)
      in if number_extents st < num_extents then None
      else
        let num_extents = (if num_extents = number_extents st then num_extents - 1 else num_extents)
        in if num_extents * spe \<le> density_threshold then
             if density_threshold < m_number_segments st then Some (RESIZE_REBALANCE, density_threshold)
             else Some (RESIZE, m_number_segments st div 2)
           else
             case m_memory_keys st of
               None \<Rightarrow> Some (RESIZE, num_extents * spe)
             | Some mk \<Rightarrow>
                 if 2 * num_extents \<le> size_sub (get_allocated_extents (m_instance mk)) num_extents + get_total_buffers mk
                 then Some (RESIZE, num_extents * spe) else Some (RESIZE_REBALANCE, num_extents * spe))"

definition rebalance_plan :: "nat \<Rightarrow> PackedMemoryArray \<Rightarrow> bool \<Rightarrow> nat \<Rightarrow> nat \<Rightarrow> nat \<Rightarrow> bool \<Rightarrow> RebalanceMetadata option" where
  "rebalance_plan ps p is_insert window_start window_length cardinality_after resize = do {
     (operation, start, len) \<leftarrow>
       (if \<not> resize then Some (REBALANCE, window_start, window_length)
        else map_option (\<lambda>(operation, len). (operation, 0, len))
               (if is_insert then plan_insert ps p cardinality_after else plan_remove ps p cardinality_after));
     Some \<lparr>md_operation = operation, md_window_start = start, md_window_length = len,
           md_cardinality_after = cardinality_after, md_is_insert = is_insert, md_insert_key = - 1,
           md_insert_value = - 1, md_insert_segment = - 1, md_apma_partitions = []\<rparr> }"

text \<open>The partitions of the window. The weights see the new element as already inserted; the
  relocations of the detector take place at the end, in the destructor of \<open>MoveDetectorInfo\<close>.\<close>

definition rebalance_run_apma ::
  "Env \<Rightarrow> PackedMemoryArray \<Rightarrow> RebalanceMetadata \<Rightarrow> (PackedMemoryArray \<times> RebalanceMetadata) option" where
  "rebalance_run_apma env p action = do {
     let st = m_storage p;
     let sizes = (if md_is_insert action
        then (m_segment_sizes st)[nat (md_insert_segment action) := m_segment_sizes st ! nat (md_insert_segment action) + 1]
        else m_segment_sizes st);
     let window_start = md_window_start action;
     let window_length = (if md_operation action = REBALANCE then md_window_length action else m_number_segments st);
     weights \<leftarrow> new_weights (m_knobs p) (m_detector p) sizes
       (\<lambda>i. find_position (st\<lparr>m_segment_sizes := sizes\<rparr>) (window_start + i)) window_start window_length;
     (weights, intervals) \<leftarrow> release weights;
     let p = p\<lparr>m_detector := w_detector weights\<rparr>;
     info \<leftarrow> (if md_operation action = REBALANCE
        then map_option Some (move_info_resize new_move_info (2 * length intervals)) else Some None);
     p \<leftarrow> set_thresholds_for (e_page_size env) p action;
     (partitions, info) \<leftarrow> adaptive_rebalancing (e_log2 env)
       \<lparr>ar_height = get_calibrator_tree_height (get_thresholds p), ar_segment_capacity = m_segment_capacity st,
        ar_densities = densities (get_thresholds p)\<rparr>
       intervals (m_balance weights) (md_window_length action) (md_cardinality_after action) info;
     det \<leftarrow> (case info of Some i \<Rightarrow> move_sections i window_start (m_detector p) | None \<Rightarrow> Some (m_detector p));
     Some (p\<lparr>m_detector := det\<rparr>, action\<lparr>md_apma_partitions := partitions\<rparr>) }"

definition rebalance :: "Env \<Rightarrow> PackedMemoryArray \<Rightarrow> nat \<Rightarrow> (int \<times> int) option \<Rightarrow> PackedMemoryArray option" where
  "rebalance env p segment_id new_element = do {
     (window_start, window_length, cardinality, do_resize) \<leftarrow> rebalance_find_window p segment_id (new_element \<noteq> None);
     metadata \<leftarrow> rebalance_plan (e_page_size env) p (new_element \<noteq> None) window_start window_length cardinality do_resize;
     let metadata = (case new_element of
          Some (key, val) \<Rightarrow> metadata\<lparr>md_insert_key := key, md_insert_value := val, md_insert_segment := int segment_id\<rparr>
        | None \<Rightarrow> metadata);
     (p, metadata) \<leftarrow> rebalance_run_apma env p metadata;
     do_rebalance env metadata p }"

section \<open>Insert\<close>

definition insert_empty :: "PackedMemoryArray \<Rightarrow> int \<Rightarrow> int \<Rightarrow> PackedMemoryArray option" where
  "insert_empty p key val =
     (if \<not> pma_empty p \<or> storage_capacity (m_storage p) = 0 then None
      else do {
        p \<leftarrow> set_separator 0 key p;
        let st = m_storage p;
        let pos = m_segment_capacity st - 1;
        Some (p\<lparr>m_storage := st\<lparr>m_segment_sizes := (m_segment_sizes st)[0 := 1],
                m_keys := (m_keys st)[pos := key], m_values := (m_values st)[pos := val], m_cardinality := 1\<rparr>\<rparr>) })"

definition insert_common :: "Env \<Rightarrow> PackedMemoryArray \<Rightarrow> nat \<Rightarrow> int \<Rightarrow> int \<Rightarrow> PackedMemoryArray option" where
  "insert_common env p segment_id key val =
     (if pma_empty p \<or> \<not> segment_id < m_number_segments (m_storage p) then None
      else if m_segment_sizes (m_storage p) ! segment_id = m_segment_capacity (m_storage p)
        then rebalance env p segment_id (Some (key, val))
      else do {
        (st, minimum_updated, predecessor, successor) \<leftarrow> storage_insert (m_storage p) segment_id key val;
        det \<leftarrow> detector_insert (m_knobs p) (m_detector p) segment_id predecessor successor;
        let p = p\<lparr>m_storage := st, m_detector := det\<rparr>;
        if minimum_updated then set_separator segment_id key p else Some p })"

definition pma_insert :: "Env \<Rightarrow> PackedMemoryArray \<Rightarrow> int \<Rightarrow> int \<Rightarrow> PackedMemoryArray option" where
  "pma_insert env p key val =
     (if pma_empty p then insert_empty p key val
      else do { segment \<leftarrow> index_find (m_index p) key; insert_common env p segment key val })"

section \<open>Remove\<close>

text \<open>The removal of the element at the position \<open>i\<close> of a segment; the value, the predecessor and the
  successor of the key.\<close>

definition remove_even :: "PackedMemoryArray \<Rightarrow> nat \<Rightarrow> nat \<Rightarrow> (int \<times> int \<times> int \<times> PackedMemoryArray) option" where
  "remove_even p segment_id i = do {
     let st = m_storage p;
     let cap = m_segment_capacity st;
     let b = segment_id * cap;
     let sz = m_segment_sizes st ! segment_id;
     let imin = cap - sz;
     let predecessor = (if imin < i then m_keys st ! (b + i - 1) else INT64_MIN);
     let successor = (if i < cap - 1 then m_keys st ! (b + i + 1) else INT64_MAX);
     let st' = st\<lparr>m_keys := shift_right (m_keys st) b i imin, m_values := shift_right (m_values st) b i imin,
                  m_segment_sizes := (m_segment_sizes st)[segment_id := sz - 1], m_cardinality := m_cardinality st - 1\<rparr>;
     let p = p\<lparr>m_storage := st'\<rparr>;
     p \<leftarrow> (if i = imin then
          if m_cardinality st' = 0 then set_separator 0 INT64_MIN p
          else set_separator segment_id (m_keys st' ! (b + imin + 1)) p
        else Some p);
     Some (m_values st ! (b + i), predecessor, successor, p) }"

definition remove_odd :: "PackedMemoryArray \<Rightarrow> nat \<Rightarrow> nat \<Rightarrow> (int \<times> int \<times> int \<times> PackedMemoryArray) option" where
  "remove_odd p segment_id i = do {
     let st = m_storage p;
     let b = segment_id * m_segment_capacity st;
     let sz = m_segment_sizes st ! segment_id;
     let predecessor = (if 0 < i then m_keys st ! (b + i - 1) else INT64_MIN);
     let successor = (if i < sz - 1 then m_keys st ! (b + i + 1) else INT64_MAX);
     let st' = st\<lparr>m_keys := shift_left (m_keys st) b i (sz - 1), m_values := shift_left (m_values st) b i (sz - 1),
                  m_segment_sizes := (m_segment_sizes st)[segment_id := sz - 1], m_cardinality := m_cardinality st - 1\<rparr>;
     let p = p\<lparr>m_storage := st'\<rparr>;
     p \<leftarrow> (if i = 0 \<and> 0 < sz - 1 then set_separator segment_id (m_keys st' ! b) p else Some p);
     Some (m_values st ! (b + i), predecessor, successor, p) }"

text \<open>After a removal: the array is halved when it is large and sparse, a segment under the lower
  threshold is rebalanced.\<close>

definition remove_rebalance :: "Env \<Rightarrow> PackedMemoryArray \<Rightarrow> nat \<Rightarrow> PackedMemoryArray option" where
  "remove_rebalance env p segment_id = do {
     let st = m_storage p;
     let ps = e_page_size env;
     if 2 * balanced_thresholds_cutoff ps p \<le> m_number_segments st
         \<and> d_of_nat (m_cardinality st) < dmul (1 / 2) (d_of_nat (storage_capacity st))
     then do {
       plan \<leftarrow> rebalance_plan ps p False 0 0 (m_cardinality st) True;
       (p, plan) \<leftarrow> rebalance_run_apma env p plan;
       do_rebalance env plan p }
     else if 1 < m_number_segments st then do {
       (rho, theta) \<leftarrow> get_thresholds_at p 1;
       let minimum_size = max (nat \<lfloor>dmul rho (d_of_nat (m_segment_capacity st))\<rfloor>) 1;
       if m_segment_sizes st ! segment_id < minimum_size then rebalance env p segment_id None else Some p }
     else Some p }"

definition pma_remove :: "Env \<Rightarrow> PackedMemoryArray \<Rightarrow> int \<Rightarrow> (int \<times> PackedMemoryArray) option" where
  "pma_remove env p key =
     (if pma_empty p then Some (- 1, p)
      else do {
        segment_id \<leftarrow> index_find (m_index p) key;
        let st = m_storage p;
        let cap = m_segment_capacity st;
        let sz = m_segment_sizes st ! segment_id;
        let start = (if even segment_id then cap - sz else 0);
        if sz = 0 then None
        else
          case scan_key (m_keys st) (segment_id * cap) key start sz of
            None \<Rightarrow> Some (- 1, p)
          | Some i \<Rightarrow> do {
              (val, predecessor, successor, p) \<leftarrow> (if even segment_id then remove_even p segment_id i else remove_odd p segment_id i);
              if val \<noteq> - 1 then do {
                det \<leftarrow> detector_remove (m_knobs p) (m_detector p) segment_id predecessor successor;
                p \<leftarrow> remove_rebalance env (p\<lparr>m_detector := det\<rparr>) segment_id;
                Some (val, p) }
              else Some (val, p) } })"

end
