(* ===== verification/RMA_Proofs.thy ===== *)
theory RMA_Proofs
  imports RMA RMA_Storage_Proofs Adaptive_Proofs Static_Index_Properties Detector_Properties
begin

text \<open>
  Facts on the rewired memory array: its abstraction to an ordered list of pairs, the invariant of its
  state, and what the searches, the insertions and the removals do to the list.
\<close>

section \<open>Elements\<close>

definition seg_elems :: "Storage \<Rightarrow> nat \<Rightarrow> (int \<times> int) list" where
  "seg_elems st s = zip (seg_keys st s) (seg_vals st s)"

definition elems :: "Storage \<Rightarrow> (int \<times> int) list" where
  "elems st = concat (map (seg_elems st) [0..<m_number_segments st])"

text \<open>The elements around a segment.\<close>

definition elems_before :: "Storage \<Rightarrow> nat \<Rightarrow> (int \<times> int) list" where
  "elems_before st s = concat (map (seg_elems st) [0..<s])"

definition elems_after :: "Storage \<Rightarrow> nat \<Rightarrow> (int \<times> int) list" where
  "elems_after st s = concat (map (seg_elems st) [Suc s..<m_number_segments st])"

lemma elems_split: "s < m_number_segments st \<Longrightarrow> elems st = elems_before st s @ seg_elems st s @ elems_after st s"
proof -
  assume s: "s < m_number_segments st"
  then have "[0..<m_number_segments st] = [0..<s] @ s # [Suc s..<m_number_segments st]"
    using upt_add_eq_append[of 0 s "m_number_segments st - s"] by (simp add: upt_conv_Cons)
  then show ?thesis by (simp add: elems_def elems_before_def elems_after_def)
qed

text \<open>The cells of a storage, without its contents: fresh from the allocator, not even the size of its
  only segment is set.\<close>

definition storage_shape :: "Storage \<Rightarrow> bool" where
  "storage_shape st \<longleftrightarrow> 0 < m_segment_capacity st \<and> m_segment_capacity st < 2 ^ 16
     \<and> m_number_segments st * m_segment_capacity st \<le> length (m_keys st)
     \<and> m_number_segments st * m_segment_capacity st \<le> length (m_values st)
     \<and> m_number_segments st \<le> length (m_segment_sizes st)"

lemma storage_ok_shape: "storage_ok st \<Longrightarrow> storage_shape st"
  by (simp add: storage_ok_def storage_shape_def)

text \<open>The state: a storage of the right shape and, unless the array is empty, then of one segment, its
  elements in order, no empty segment, and an index with the minimum of each segment.\<close>

definition rma_ok :: "PackedMemoryArray \<Rightarrow> bool" where
  "rma_ok p \<longleftrightarrow>
     (let st = m_storage p; n = m_number_segments st
      in storage_shape st \<and> 0 < n \<and> index_ok (m_index p) n
         \<and> detector_capacity (m_detector p) = n \<and> detector_ok (m_detector p)
         \<and> (if m_cardinality st = 0 then n = 1
            else storage_ok st \<and> sorted (map fst (elems st))
              \<and> (\<forall>s<n. 0 < m_segment_sizes st ! s \<and> get_separator_key (m_index p) s = Some (hd (seg_keys st s)))))"

text \<open>The segments, cells of a segment and pages of an extent.\<close>

definition dims :: "PackedMemoryArray \<Rightarrow> nat \<times> nat \<times> nat" where
  "dims p = (m_number_segments (m_storage p), m_segment_capacity (m_storage p), m_pages_per_extent (m_storage p))"

text \<open>The elements of the array.\<close>

definition contents :: "PackedMemoryArray \<Rightarrow> (int \<times> int) list" where
  "contents p = (if m_cardinality (m_storage p) = 0 then [] else elems (m_storage p))"

lemma rma_okD:
  assumes "rma_ok p"
  shows "storage_shape (m_storage p)" "0 < m_number_segments (m_storage p)" "index_ok (m_index p) (m_number_segments (m_storage p))"
    "detector_capacity (m_detector p) = m_number_segments (m_storage p)" "detector_ok (m_detector p)"
  using assms by (simp_all add: rma_ok_def Let_def)

lemma rma_ok_elems:
  assumes "rma_ok p" and "m_cardinality (m_storage p) \<noteq> 0"
  shows "storage_ok (m_storage p)" "sorted (map fst (elems (m_storage p)))"
    and "\<forall>s<m_number_segments (m_storage p). 0 < m_segment_sizes (m_storage p) ! s
      \<and> get_separator_key (m_index p) s = Some (hd (seg_keys (m_storage p) s))"
  using assms by (simp_all add: rma_ok_def Let_def)

lemma length_seg_elems [simp]:
  assumes "storage_ok st" and "s < m_number_segments st"
  shows "length (seg_elems st s) = m_segment_sizes st ! s"
  using assms by (simp add: seg_elems_def)

lemma map_fst_seg_elems [simp]:
  assumes "storage_ok st" and "s < m_number_segments st"
  shows "map fst (seg_elems st s) = seg_keys st s" and "map snd (seg_elems st s) = seg_vals st s"
  using length_seg[OF assms] by (simp_all add: seg_elems_def)

lemma length_elems: "storage_ok st \<Longrightarrow> length (elems st) = m_cardinality st"
proof -
  assume ok: "storage_ok st"
  let ?n = "m_number_segments st"
  have "length (elems st) = sum_list (map (\<lambda>s. length (seg_elems st s)) [0..<?n])"
    by (simp add: elems_def length_concat comp_def)
  also have "\<dots> = sum_list (map ((!) (m_segment_sizes st)) [0..<?n])"
    by (rule arg_cong[of _ _ sum_list], rule map_cong[OF refl]) (use ok in simp)
  also have "map ((!) (m_segment_sizes st)) [0..<?n] = take ?n (m_segment_sizes st)"
    using ok by (intro nth_equalityI) (auto simp: storage_ok_def)
  finally show ?thesis using ok by (simp add: storage_ok_def)
qed

lemma elems_empty: "storage_ok st \<Longrightarrow> m_cardinality st = 0 \<longleftrightarrow> elems st = []"
  using length_elems[of st] by auto

lemma seg_keys_sorted:
  assumes "storage_ok st" and "s < m_number_segments st" and "sorted (map fst (elems st))"
  shows "sorted (seg_keys st s)"
  using assms(3) map_fst_seg_elems(1)[OF assms(1,2)] by (simp add: elems_split[OF assms(2)] sorted_append)

section \<open>Routing\<close>

text \<open>The separators of an array that is not empty are the minima of its segments, in order.\<close>

definition separators :: "Storage \<Rightarrow> int list" where
  "separators st = map (\<lambda>s. hd (seg_keys st s)) [0..<m_number_segments st]"

lemma seg_hd:
  assumes "storage_ok st" and "s < m_number_segments st" and "0 < m_segment_sizes st ! s"
  shows "seg_keys st s \<noteq> []" and "hd (seg_keys st s) \<in> fst ` set (seg_elems st s)"
proof -
  show ne: "seg_keys st s \<noteq> []" using length_seg(1)[OF assms(1,2)] assms(3) by auto
  have "hd (seg_keys st s) \<in> set (map fst (seg_elems st s))"
    unfolding map_fst_seg_elems(1)[OF assms(1,2)] using ne by simp
  then show "hd (seg_keys st s) \<in> fst ` set (seg_elems st s)" by simp
qed

lemma segments_in_order:
  assumes "storage_ok st" and "sorted (map fst (elems st))" and "s < t" and "t < m_number_segments st"
    and "x \<in> set (seg_elems st s)" and "y \<in> set (seg_elems st t)"
  shows "fst x \<le> fst y"
proof -
  have s: "s < m_number_segments st" using assms by simp
  have "y \<in> set (elems_after st s)" using assms(3,4,6) by (auto simp: elems_after_def)
  then show ?thesis using assms(2,5) unfolding elems_split[OF s] by (auto simp: sorted_append)
qed

lemma separators_sorted:
  assumes "storage_ok st" and "sorted (map fst (elems st))" and "\<forall>s<m_number_segments st. 0 < m_segment_sizes st ! s"
  shows "sorted (separators st)"
proof -
  have "hd (seg_keys st i) \<le> hd (seg_keys st j)" if ij: "i < j" "j < m_number_segments st" for i j
  proof -
    have i: "i < m_number_segments st" using ij by simp
    obtain x where x: "x \<in> set (seg_elems st i)" "hd (seg_keys st i) = fst x"
      using seg_hd(2)[OF assms(1) i] assms(3) i by (meson imageE)
    obtain y where y: "y \<in> set (seg_elems st j)" "hd (seg_keys st j) = fst y"
      using seg_hd(2)[OF assms(1) ij(2)] assms(3) ij by (meson imageE)
    show ?thesis using segments_in_order[OF assms(1,2) ij x(1) y(1)] x(2) y(2) by simp
  qed
  then show ?thesis by (auto simp: separators_def sorted_wrt_iff_nth_less)
qed

lemma length_takeWhile_tl:
  assumes "ks \<noteq> []"
  shows "length (takeWhile P (tl ks)) < length ks"
  using length_takeWhile_le[of P "tl ks"] assms by (cases ks) auto

lemma rma_searches:
  assumes "rma_ok p" and "m_cardinality (m_storage p) \<noteq> 0"
  shows "index_find (m_index p) k = Some (if k \<le> hd (separators (m_storage p)) then 0
      else length (takeWhile (\<lambda>x. x \<le> k) (tl (separators (m_storage p)))))"
    and "find_first (m_index p) k = Some (length (takeWhile (\<lambda>x. x < k) (tl (separators (m_storage p)))))"
    and "find_last (m_index p) k = Some (length (takeWhile (\<lambda>x. x \<le> k) (tl (separators (m_storage p)))))"
proof -
  let ?ks = "separators (m_storage p)"
  have len: "length ?ks = m_number_segments (m_storage p)" by (simp add: separators_def)
  have "index_ok (m_index p) (length ?ks)" using assms(1) by (simp add: rma_ok_def Let_def len)
  moreover have "sorted ?ks" using rma_ok_elems[OF assms] by (intro separators_sorted) auto
  moreover have "\<forall>j<length ?ks. get_separator_key (m_index p) j = Some (?ks ! j)"
    using rma_ok_elems(3)[OF assms] by (simp add: separators_def)
  ultimately show "index_find (m_index p) k = Some (if k \<le> hd ?ks then 0 else length (takeWhile (\<lambda>x. x \<le> k) (tl ?ks)))"
      "find_first (m_index p) k = Some (length (takeWhile (\<lambda>x. x < k) (tl ?ks)))"
      "find_last (m_index p) k = Some (length (takeWhile (\<lambda>x. x \<le> k) (tl ?ks)))"
    using static_index.searches[of "m_index p" ?ks k] by blast+
qed

text \<open>The segment \<open>find\<close> routes a key to: the key is not less than the elements before it and not greater
  than those after it; when the key is in the array, it is in that segment.\<close>

lemma routed_segment:
  assumes ok: "rma_ok p" and ne: "m_cardinality (m_storage p) \<noteq> 0"
  obtains s where "index_find (m_index p) k = Some s" and "s < m_number_segments (m_storage p)"
    and "\<forall>x\<in>set (elems_before (m_storage p) s). fst x \<le> k" and "\<forall>x\<in>set (elems_after (m_storage p) s). k \<le> fst x"
    and "k \<in> fst ` set (elems (m_storage p)) \<Longrightarrow> k \<in> fst ` set (seg_elems (m_storage p) s)"
proof -
  let ?st = "m_storage p"
  let ?n = "m_number_segments ?st" and ?ks = "separators ?st"
  note st = rma_ok_elems(1)[OF ok ne] and srt = rma_ok_elems(2)[OF ok ne]
  have sizes: "\<forall>s<?n. 0 < m_segment_sizes ?st ! s" using rma_ok_elems(3)[OF ok ne] by blast
  have len: "length ?ks = ?n" and nth: "\<And>j. j < ?n \<Longrightarrow> ?ks ! j = hd (seg_keys ?st j)" by (simp_all add: separators_def)
  have ksne: "?ks \<noteq> []" using rma_okD(2)[OF ok] len by auto
  have ks: "sorted ?ks" using separators_sorted[OF st srt sizes] .
  define s where "s = (if k \<le> hd ?ks then 0 else length (takeWhile (\<lambda>x. x \<le> k) (tl ?ks)))"
  have s: "s < ?n" using length_takeWhile_tl[OF ksne, of "\<lambda>x. x \<le> k"] len rma_okD(2)[OF ok] by (simp add: s_def)
  have low: "?ks ! s \<le> k" if "0 < s"
  proof -
    have "s - 1 < length (takeWhile (\<lambda>x. x \<le> k) (tl ?ks))" using that by (simp add: s_def split: if_splits)
    then have "tl ?ks ! (s - 1) \<le> k" using nth_mem set_takeWhileD takeWhile_nth by metis
    then show ?thesis using that s len by (simp add: nth_tl)
  qed
  have high: "k \<le> ?ks ! j \<and> (?ks ! j = k \<longrightarrow> k = hd ?ks)" if j: "s < j" "j < ?n" for j
  proof -
    have sj: "?ks ! Suc s \<le> ?ks ! j" using ks j len by (simp add: sorted_nth_mono)
    show ?thesis
    proof (cases "k \<le> hd ?ks")
      case True
      then have "?ks ! 0 \<le> ?ks ! j" using ks j len by (intro sorted_nth_mono) auto
      then show ?thesis using True ksne by (simp add: hd_conv_nth)
    next
      case False
      have "s < length (tl ?ks)" using j len by simp
      then have "\<not> tl ?ks ! s \<le> k" using nth_length_takeWhile[of "\<lambda>x. x \<le> k" "tl ?ks"] False by (simp add: s_def)
      then show ?thesis using sj j len by (simp add: nth_tl)
    qed
  qed
  have first: "fst y = ?ks ! t" if "y = hd (seg_elems ?st t)" "t < ?n" for y t
    using that nth[of t] map_fst_seg_elems(1)[OF st that(2)] sizes length_seg_elems[OF st that(2)]
    by (metis hd_map length_greater_0_conv)
  have firstm: "hd (seg_elems ?st t) \<in> set (seg_elems ?st t)" if "t < ?n" for t
    using sizes length_seg_elems[OF st that] that by (metis hd_in_set length_greater_0_conv)
  have before: "\<forall>x\<in>set (elems_before ?st s). fst x \<le> k"
  proof
    fix x assume "x \<in> set (elems_before ?st s)"
    then obtain t where t: "t < s" "x \<in> set (seg_elems ?st t)" by (auto simp: elems_before_def)
    have "fst x \<le> ?ks ! s"
      using segments_in_order[OF st srt t(1) s t(2) firstm[OF s]] first[OF refl s] by simp
    then show "fst x \<le> k" using low t(1) by simp
  qed
  have seg_min: "?ks ! t \<le> fst x" if "x \<in> set (seg_elems ?st t)" "t < ?n" for t x
  proof -
    have "sorted (map fst (seg_elems ?st t))" using seg_keys_sorted[OF st that(2) srt] map_fst_seg_elems(1)[OF st that(2)] by simp
    then have "fst (hd (seg_elems ?st t)) \<le> fst x" using that(1) by (cases "seg_elems ?st t") auto
    then show ?thesis using first[OF refl that(2)] by simp
  qed
  have after: "\<forall>x\<in>set (elems_after ?st s). k \<le> fst x"
  proof
    fix x assume "x \<in> set (elems_after ?st s)"
    then obtain t where t: "s < t" "t < ?n" "x \<in> set (seg_elems ?st t)" by (auto simp: elems_after_def Suc_le_eq)
    then show "k \<le> fst x" using high[of t] seg_min[OF t(3,2)] by linarith
  qed
  show ?thesis
  proof (rule that[of s])
    show "index_find (m_index p) k = Some s" using rma_searches(1)[OF ok ne] by (simp add: s_def)
    show "k \<in> fst ` set (seg_elems ?st s)" if k: "k \<in> fst ` set (elems ?st)"
    proof -
      obtain x t where x: "x \<in> set (seg_elems ?st t)" "t < ?n" "fst x = k" using k by (auto simp: elems_def)
      consider "t = s" | "s < t" | "t < s" by linarith
      then show ?thesis
      proof cases
        case 2
        then have "?ks ! t = k" using high[OF 2 x(2)] seg_min[OF x(1,2)] x(3) by simp
        then have "k = hd ?ks" using high[OF 2 x(2)] by simp
        then have "s = 0" by (simp add: s_def)
        then show ?thesis using first[OF refl s] firstm[OF s] \<open>k = hd ?ks\<close> ksne by (metis hd_conv_nth image_eqI)
      next
        case 3
        then have "?ks ! s = k"
          using segments_in_order[OF st srt 3 s x(1) firstm[OF s]] first[OF refl s] low x(3) by simp
        then show ?thesis using first[OF refl s] firstm[OF s] by (metis image_eqI)
      qed (use x in auto)
    qed
  qed (use s before after in auto)
qed

section \<open>Find\<close>

lemma scan_key_slice:
  assumes "b + start + n \<le> length keys"
  shows "scan_key keys b key start n =
    (let xs = take n (drop (b + start) keys)
     in if key \<in> set xs then Some (start + length (takeWhile (\<lambda>x. x \<noteq> key) xs)) else None)"
  using assms
proof (induction n arbitrary: start)
  case (Suc n)
  have d: "drop (b + start) keys = keys ! (b + start) # drop (b + Suc start) keys"
    using Suc.prems by (simp add: Cons_nth_drop_Suc)
  show ?case using Suc.IH[of "Suc start"] Suc.prems by (simp add: d Let_def)
qed simp

text \<open>The search in a segment, and the value at the position it returns.\<close>

lemma scan_segment:
  fixes st :: Storage and s :: nat and key :: int
  assumes ok: "storage_ok st" and s: "s < m_number_segments st"
  defines "cap \<equiv> m_segment_capacity st" and "sz \<equiv> m_segment_sizes st ! s" and "i \<equiv> length (takeWhile (\<lambda>x. x \<noteq> key) (seg_keys st s))"
  defines "start \<equiv> (if even s then cap - sz else 0)"
  shows "scan_key (m_keys st) (s * cap) key start sz = (if key \<in> set (seg_keys st s) then Some (start + i) else None)"
    and "seg_start st s = s * cap + start"
    and "key \<in> set (seg_keys st s) \<Longrightarrow> i < sz \<and> seg_keys st s ! i = key \<and> m_values st ! (s * cap + (start + i)) = seg_vals st s ! i"
proof -
  note b = storage_ok_segment[OF ok s]
  show st0: "seg_start st s = s * cap + start" using b(3) by (simp add: seg_start_def start_def cap_def sz_def add.commute)
  have fit: "s * cap + start + sz \<le> length (m_keys st)" "s * cap + start + sz \<le> length (m_values st)"
    using b by (auto simp: start_def cap_def sz_def)
  have ks: "take sz (drop (s * cap + start) (m_keys st)) = seg_keys st s" by (simp add: seg_keys_def st0 sz_def)
  show "scan_key (m_keys st) (s * cap) key start sz = (if key \<in> set (seg_keys st s) then Some (start + i) else None)"
    using scan_key_slice[OF fit(1)] by (simp add: ks Let_def i_def)
  assume key: "key \<in> set (seg_keys st s)"
  have len: "length (seg_keys st s) = sz" using ok s by (simp add: sz_def)
  have "i \<noteq> sz"
  proof
    assume "i = sz"
    then have "takeWhile (\<lambda>x. x \<noteq> key) (seg_keys st s) = seg_keys st s"
      using takeWhile_eq_take[of "\<lambda>x. x \<noteq> key" "seg_keys st s"] len by (simp add: i_def)
    then show False using key by (auto simp: takeWhile_eq_all_conv)
  qed
  then have il: "i < sz" using length_takeWhile_le[of "\<lambda>x. x \<noteq> key" "seg_keys st s"] len by (simp add: i_def)
  then have "seg_keys st s ! i = key" using nth_length_takeWhile[of "\<lambda>x. x \<noteq> key" "seg_keys st s"] len by (simp add: i_def)
  moreover have "m_values st ! (s * cap + (start + i)) = seg_vals st s ! i"
    using il fit(2) by (simp add: seg_vals_def st0 sz_def[symmetric] add.assoc)
  ultimately show "i < sz \<and> seg_keys st s ! i = key \<and> m_values st ! (s * cap + (start + i)) = seg_vals st s ! i" using il by blast
qed

lemma pma_find_elems:
  assumes ok: "rma_ok p"
  obtains v where "pma_find p key = Some v"
    and "if key \<in> fst ` set (contents p) then (key, v) \<in> set (contents p) else v = - 1"
proof (cases "m_cardinality (m_storage p) = 0")
  case True
  then show ?thesis using that[of "- 1"] by (simp add: pma_find_def pma_empty_def contents_def)
next
  case False
  let ?st = "m_storage p"
  note st = rma_ok_elems(1)[OF ok False]
  have cont: "contents p = elems ?st" using False by (simp add: contents_def)
  obtain s where s: "index_find (m_index p) key = Some s" "s < m_number_segments ?st"
      "key \<in> fst ` set (elems ?st) \<Longrightarrow> key \<in> fst ` set (seg_elems ?st s)"
    using routed_segment[OF ok False, of key] by metis
  note sc = scan_segment(1)[OF st s(2), of key] scan_segment(3)[OF st s(2), of key]
  have keys: "fst ` set (seg_elems ?st s) = set (seg_keys ?st s)"
    using map_fst_seg_elems(1)[OF st s(2)] by (metis list.set_map)
  have sub: "set (seg_elems ?st s) \<subseteq> set (elems ?st)" using elems_split[OF s(2)] by auto
  show ?thesis
  proof (cases "key \<in> set (seg_keys ?st s)")
    case True
    let ?i = "length (takeWhile (\<lambda>x. x \<noteq> key) (seg_keys ?st s))"
    have "pma_find p key = Some (seg_vals ?st s ! ?i)"
      using False s(1) sc True by (simp add: pma_find_def pma_empty_def Let_def)
    moreover have "(key, seg_vals ?st s ! ?i) \<in> set (seg_elems ?st s)"
      using sc(2)[OF True] length_seg[OF st s(2)] by (auto simp: seg_elems_def set_zip intro!: exI[of _ ?i])
    ultimately show ?thesis using that sub unfolding cont by (metis fst_conv image_eqI subsetD)
  next
    case nf: False
    then have "pma_find p key = Some (- 1)"
      using False s(1) sc(1) by (simp add: pma_find_def pma_empty_def Let_def)
    then show ?thesis by (rule that) (use s(3) keys nf cont in auto)
  qed
qed

section \<open>Insert\<close>

lemma sorted_insert_pos:
  fixes ks :: "int list"
  assumes "sorted ks"
  shows "\<forall>x\<in>set (take (insert_pos s key ks) ks). x \<le> key" and "\<forall>x\<in>set (drop (insert_pos s key ks) ks). key \<le> x"
proof -
  let ?P = "if even s then (\<lambda>y. y < key) else (\<lambda>y. y \<le> key)"
  have t: "take (insert_pos s key ks) ks = takeWhile ?P ks" and d: "drop (insert_pos s key ks) ks = dropWhile ?P ks"
    by (cases "even s"; simp add: insert_pos_def flip: takeWhile_eq_take dropWhile_eq_drop)+
  show "\<forall>x\<in>set (take (insert_pos s key ks) ks). x \<le> key"
    unfolding t by (cases "even s") (auto dest: set_takeWhileD simp: less_imp_le)
  show "\<forall>x\<in>set (drop (insert_pos s key ks) ks). key \<le> x"
    unfolding d using assms by (induction ks) auto
qed

lemma zip_insert_at:
  assumes "length ks = length vs" and "p \<le> length ks"
  shows "zip (take p ks @ k # drop p ks) (take p vs @ v # drop p vs) = take p (zip ks vs) @ (k, v) # drop p (zip ks vs)"
  using assms by (simp add: take_zip drop_zip)

lemma seg_elems_cong:
  "seg_keys st' t = seg_keys st t \<Longrightarrow> seg_vals st' t = seg_vals st t \<Longrightarrow> seg_elems st' t = seg_elems st t"
  by (simp add: seg_elems_def)

text \<open>What a change of one segment does to the elements.\<close>

lemma elems_change_segment:
  assumes s: "s < m_number_segments st" and n: "m_number_segments st' = m_number_segments st"
    and other: "\<And>t. t < m_number_segments st \<Longrightarrow> t \<noteq> s \<Longrightarrow> seg_elems st' t = seg_elems st t"
  shows "elems st' = elems_before st s @ seg_elems st' s @ elems_after st s"
proof -
  have "elems_before st' s = elems_before st s"
    unfolding elems_before_def by (rule arg_cong[of _ _ concat], rule map_cong[OF refl]) (use s other in auto)
  moreover have "elems_after st' s = elems_after st s"
    unfolding elems_after_def n by (rule arg_cong[of _ _ concat], rule map_cong[OF refl]) (use s other in auto)
  ultimately show ?thesis using elems_split[of s st'] s n by simp
qed

lemma detector_update_some:
  assumes "detector_ok d" and "segment < detector_capacity d"
  obtains d' where "detector_update knobs inc d segment pre suc = Some d'" and "detector_capacity d' = detector_capacity d"
    and "detector_ok d \<longrightarrow> detector_ok d'"
  using detector_update_total[OF assms] by blast

lemma insert_nonfull:
  assumes ok: "rma_ok p" and ne: "m_cardinality (m_storage p) \<noteq> 0" and f: "index_find (m_index p) key = Some s"
    and room: "m_segment_sizes (m_storage p) ! s < m_segment_capacity (m_storage p)" and few: "m_cardinality (m_storage p) + 1 < 2 ^ 32"
  obtains p' where "pma_insert env p key val = Some p'" and "rma_ok p'"
    and "mset (elems (m_storage p')) = add_mset (key, val) (mset (elems (m_storage p)))"
    and "dims p' = dims p" and "m_cardinality (m_storage p') = m_cardinality (m_storage p) + 1"
proof -
  let ?st = "m_storage p"
  let ?n = "m_number_segments ?st"
  note st = rma_ok_elems(1)[OF ok ne] and srt = rma_ok_elems(2)[OF ok ne]
  have sizes: "\<forall>s<?n. 0 < m_segment_sizes ?st ! s \<and> get_separator_key (m_index p) s = Some (hd (seg_keys ?st s))"
    by (rule rma_ok_elems(3)[OF ok ne])
  have s: "s < ?n" and before: "\<forall>x\<in>set (elems_before ?st s). fst x \<le> key" and after: "\<forall>x\<in>set (elems_after ?st s). key \<le> fst x"
    using routed_segment[OF ok ne, of key] f by (metis option.inject)+
  define ks where "ks = seg_keys ?st s"
  define vs where "vs = seg_vals ?st s"
  define q where "q = insert_pos s key ks"
  have ksrt: "sorted ks" using seg_keys_sorted[OF st s srt] by (simp add: ks_def)
  obtain st' where ins: "storage_insert ?st s key val =
      Some (st', q = 0, if q = 0 then INT64_MIN else ks ! (q - 1), if q = length ks then INT64_MAX else ks ! q)"
    and seg: "seg_keys st' s = take q ks @ key # drop q ks" "seg_vals st' s = take q vs @ val # drop q vs"
    and other: "\<And>t. t < ?n \<Longrightarrow> t \<noteq> s \<Longrightarrow> seg_keys st' t = seg_keys ?st t \<and> seg_vals st' t = seg_vals ?st t"
    and ok': "storage_ok st'" and n': "m_number_segments st' = ?n" and card': "m_cardinality st' = m_cardinality ?st + 1"
    and sz': "m_segment_sizes st' = (m_segment_sizes ?st)[s := m_segment_sizes ?st ! s + 1]"
    and cap': "m_segment_capacity st' = m_segment_capacity ?st" and pages': "m_pages_per_extent st' = m_pages_per_extent ?st"
    using storage_insert_segments[OF st s room _ few, of key val] ksrt unfolding ks_def vs_def q_def by metis
  have len: "length ks = m_segment_sizes ?st ! s" "length vs = m_segment_sizes ?st ! s"
    unfolding ks_def vs_def by (simp_all add: st s)
  have ql: "q \<le> length ks" unfolding q_def by (rule insert_pos_le)
  have E: "seg_elems st' s = take q (seg_elems ?st s) @ (key, val) # drop q (seg_elems ?st s)"
    unfolding seg_elems_def seg ks_def[symmetric] vs_def[symmetric] by (rule zip_insert_at) (use len ql in auto)
  have els: "elems st' = elems_before ?st s @ seg_elems st' s @ elems_after ?st s"
    by (rule elems_change_segment[OF s n']) (use other in \<open>auto intro: seg_elems_cong\<close>)
  have ms: "mset (elems st') = add_mset (key, val) (mset (elems ?st))"
  proof -
    have "mset (seg_elems ?st s) = mset (take q (seg_elems ?st s)) + mset (drop q (seg_elems ?st s))"
      by (metis append_take_drop_id mset_append)
    then show ?thesis by (simp add: els E elems_split[OF s])
  qed
  have srt': "sorted (map fst (elems st'))"
  proof -
    have k: "map fst (seg_elems st' s) = take q ks @ key # drop q ks"
      using map_fst_seg_elems(1)[OF ok', of s] n' s seg by simp
    have ks_map: "map fst (seg_elems ?st s) = ks" using map_fst_seg_elems(1)[OF st s] by (simp add: ks_def)
    have seg_srt: "sorted (take q ks @ key # drop q ks)"
      using ksrt sorted_insert_pos[OF ksrt, of s key] sorted_append[of "take q ks" "drop q ks"]
      by (fastforce simp: sorted_append q_def)
    have old: "sorted (map fst (elems_before ?st s) @ ks @ map fst (elems_after ?st s))"
      using srt by (simp add: elems_split[OF s] ks_map)
    have "set (take q ks) \<union> set (drop q ks) = set ks" by (metis append_take_drop_id set_append)
    then have ins_set: "set (take q ks @ key # drop q ks) = insert key (set ks)" by auto
    have L: "\<forall>x\<in>fst ` set (elems_before ?st s). \<forall>y\<in>insert key (set ks) \<union> fst ` set (elems_after ?st s). x \<le> y"
      using old before by (auto simp: sorted_append)
    have R: "\<forall>x\<in>insert key (set ks). \<forall>y\<in>fst ` set (elems_after ?st s). x \<le> y"
      using old after by (auto simp: sorted_append)
    show ?thesis
      unfolding els map_append k sorted_append[of "map fst (elems_before ?st s)"] sorted_append[of "take q ks @ key # drop q ks"]
        set_append[of "take q ks @ key # drop q ks"] ins_set set_map
      using old seg_srt L R by (simp add: sorted_append)
  qed
  have cap: "s < detector_capacity (m_detector p)" using rma_okD(4)[OF ok] s by simp
  obtain det where det: "detector_insert (m_knobs p) (m_detector p) s (if q = 0 then INT64_MIN else ks ! (q - 1))
        (if q = length ks then INT64_MAX else ks ! q) = Some det"
      "detector_capacity det = detector_capacity (m_detector p)" "detector_ok (m_detector p) \<longrightarrow> detector_ok det"
    unfolding detector_insert_def by (rule detector_update_some[OF rma_okD(5)[OF ok] cap])
  let ?p = "p\<lparr>m_storage := st', m_detector := det\<rparr>"
  have nonempty: "\<forall>t<?n. 0 < m_segment_sizes st' ! t" using sizes sz' s st by (auto simp: nth_list_update storage_ok_def)
  have ok_of: "rma_ok (?p\<lparr>m_index := idx\<rparr>)"
    if "index_ok idx ?n" "\<forall>t<?n. get_separator_key idx t = Some (hd (seg_keys st' t))" for idx
    using that ok' n' srt' det(2,3) rma_okD(2,4,5)[OF ok] nonempty card' storage_ok_shape[OF ok'] by (simp add: rma_ok_def Let_def)
  have base: "pma_insert env p key val = (if q = 0 then set_separator s key ?p else Some ?p)"
    using f ne s room ins det(1) by (simp add: pma_insert_def insert_common_def pma_empty_def Let_def)
  show ?thesis
  proof (cases "q = 0")
    case True
    obtain idx where idx: "set_separator_key (m_index p) s key = Some idx" "index_ok idx ?n"
        "\<forall>l<?n. get_separator_key idx l = (if l = s then Some key else get_separator_key (m_index p) l)"
      using static_index.set_get[OF rma_okD(3)[OF ok] s, of key] by blast
    have "hd (seg_keys st' s) = key" using seg(1) True by simp
    then have "\<forall>t<?n. get_separator_key idx t = Some (hd (seg_keys st' t))" using idx(3) other sizes by auto
    then have "rma_ok (?p\<lparr>m_index := idx\<rparr>)" by (rule ok_of[OF idx(2)])
    moreover have "pma_insert env p key val = Some (?p\<lparr>m_index := idx\<rparr>)"
      using base True idx(1) by (simp add: set_separator_def)
    ultimately show ?thesis using that[of "?p\<lparr>m_index := idx\<rparr>"] ms n' cap' pages' card' by (simp add: dims_def)
  next
    case False
    then have "hd (seg_keys st' s) = hd ks" using seg(1) ql by (cases ks) auto
    then have "hd (seg_keys st' t) = hd (seg_keys ?st t)" if "t < ?n" for t
      using other[of t] that by (cases "t = s") (simp_all add: ks_def)
    then have "\<forall>t<?n. get_separator_key (m_index p) t = Some (hd (seg_keys st' t))" using sizes by auto
    then have "rma_ok (?p\<lparr>m_index := m_index p\<rparr>)" by (rule ok_of[OF rma_okD(3)[OF ok]])
    then have "rma_ok ?p" by (simp add: rma_ok_def)
    then show ?thesis using that[of ?p] base False ms n' cap' pages' card' by (simp add: dims_def)
  qed
qed

lemma insert_empty_ok:
  assumes ok: "rma_ok p" and e: "m_cardinality (m_storage p) = 0"
  obtains p' where "pma_insert env p key val = Some p'" and "rma_ok p'" and "contents p' = [(key, val)]" and "dims p' = dims p"
proof -
  let ?st = "m_storage p"
  let ?c = "m_segment_capacity ?st"
  have n: "m_number_segments ?st = 1" using ok e by (simp add: rma_ok_def Let_def)
  note st = rma_okD(1)[OF ok]
  have c: "0 < ?c" "?c \<le> length (m_keys ?st)" "?c \<le> length (m_values ?st)" "m_segment_sizes ?st \<noteq> []" "?c < 2 ^ 16"
    using st n by (auto simp: storage_shape_def)
  obtain idx where idx: "set_separator_key (m_index p) 0 key = Some idx" "index_ok idx 1"
      "\<forall>l<1. get_separator_key idx l = (if l = 0 then Some key else get_separator_key (m_index p) l)"
    using static_index.set_get[of "m_index p" 1 0 key] rma_okD(3)[OF ok] n by auto
  define st' where "st' = ?st\<lparr>m_segment_sizes := (m_segment_sizes ?st)[0 := 1], m_keys := (m_keys ?st)[?c - 1 := key],
      m_values := (m_values ?st)[?c - 1 := val], m_cardinality := 1\<rparr>"
  have s0: "m_segment_sizes st' ! 0 = 1" "seg_start st' 0 = ?c - 1" using c(4) by (simp_all add: st'_def seg_start_def)
  have one: "take 1 (drop (?c - 1) (xs[?c - 1 := x])) = [x]" if "?c \<le> length xs" for xs and x :: int
    using that c(1) by (simp add: take_Suc_conv_app_nth hd_drop_conv_nth Cons_nth_drop_Suc[symmetric, of "?c - 1"])
  have keys: "seg_keys st' 0 = [key]" unfolding seg_keys_def s0 using one[OF c(2)] by (simp add: st'_def)
  have vals: "seg_vals st' 0 = [val]" unfolding seg_vals_def s0 using one[OF c(3)] by (simp add: st'_def)
  have els: "elems st' = [(key, val)]" using n keys vals by (simp add: elems_def seg_elems_def st'_def)
  have ok': "storage_ok st'" using st n c by (cases "m_segment_sizes ?st") (auto simp: storage_ok_def storage_shape_def st'_def)
  have "pma_insert env p key val = Some (p\<lparr>m_index := idx, m_storage := st'\<rparr>)"
    using e c(1,5) n idx(1)
    by (simp add: pma_insert_def insert_empty_def pma_empty_def storage_capacity_def u32_id set_separator_def st'_def Let_def)
  moreover have "rma_ok (p\<lparr>m_index := idx, m_storage := st'\<rparr>)"
    using ok' els idx(2,3) n keys s0 rma_okD(4,5)[OF ok] storage_ok_shape[OF ok'] by (simp add: rma_ok_def Let_def st'_def)
  ultimately show ?thesis using that els by (simp add: contents_def dims_def st'_def)
qed

text \<open>The array is empty, or the segment of the key has a free cell.\<close>

definition has_room :: "PackedMemoryArray \<Rightarrow> int \<Rightarrow> bool" where
  "has_room p key \<longleftrightarrow> m_cardinality (m_storage p) = 0
     \<or> (\<forall>s. index_find (m_index p) key = Some s \<longrightarrow> m_segment_sizes (m_storage p) ! s < m_segment_capacity (m_storage p))"

lemma pma_insert_room:
  assumes ok: "rma_ok p" and room: "has_room p key" and few: "pma_size p + 1 < 2 ^ 32"
  obtains p' where "pma_insert env p key val = Some p'" and "rma_ok p'"
    and "mset (contents p') = add_mset (key, val) (mset (contents p))" and "dims p' = dims p"
proof (cases "m_cardinality (m_storage p) = 0")
  case True
  obtain p' where "pma_insert env p key val = Some p'" "rma_ok p'" "contents p' = [(key, val)]" "dims p' = dims p"
    using insert_empty_ok[OF ok True] by metis
  then show ?thesis using that True by (simp add: contents_def)
next
  case False
  obtain s where s: "index_find (m_index p) key = Some s" using routed_segment[OF ok False, of key] by metis
  have r: "m_segment_sizes (m_storage p) ! s < m_segment_capacity (m_storage p)" using room False s by (simp add: has_room_def)
  obtain p' where "pma_insert env p key val = Some p'" "rma_ok p'" "dims p' = dims p"
      "mset (elems (m_storage p')) = add_mset (key, val) (mset (elems (m_storage p)))"
      "m_cardinality (m_storage p') = m_cardinality (m_storage p) + 1"
    using insert_nonfull[OF ok False s r] few unfolding pma_size_def by metis
  then show ?thesis using that False by (simp add: contents_def)
qed

lemma length_contents: "rma_ok p \<Longrightarrow> length (contents p) = m_cardinality (m_storage p)"
  using rma_ok_elems(1)[of p] length_elems by (auto simp: contents_def)

text \<open>In an array of one segment.\<close>

lemma one_segment_room:
  assumes ok: "rma_ok p" and d: "dims p = (1, cap, ppe)" and c: "length (contents p) < cap"
  shows "has_room p key"
proof (cases "m_cardinality (m_storage p) = 0")
  case False
  have n: "m_number_segments (m_storage p) = 1" "m_segment_capacity (m_storage p) = cap" using d by (simp_all add: dims_def)
  note st = rma_ok_elems(1)[OF ok False]
  have "m_segment_sizes (m_storage p) ! 0 = length (contents p)"
    using length_seg_elems[OF st, of 0] n False by (simp add: contents_def elems_def)
  moreover have "s = 0" if "index_find (m_index p) key = Some s" for s
    using routed_segment[OF ok False, of key] that n(1) by (metis less_one option.inject)
  ultimately show ?thesis using c n by (auto simp: has_room_def)
qed (simp add: has_room_def)

section \<open>Remove\<close>

lemma seg_hd_cell:
  assumes "storage_ok st" and "s < m_number_segments st" and "0 < m_segment_sizes st ! s"
  shows "hd (seg_keys st s) = m_keys st ! seg_start st s"
proof -
  have "seg_start st s < length (m_keys st)"
    using seg_bounds[OF assms(1,2)] storage_ok_segment[OF assms(1,2)] assms(3) by linarith
  then show ?thesis using assms(3) by (simp add: seg_keys_def hd_drop_conv_nth)
qed

lemma removed_simps [simp]:
  "m_number_segments (removed st s k) = m_number_segments st"
  "m_segment_capacity (removed st s k) = m_segment_capacity st"
  "m_cardinality (removed st s k) = m_cardinality st - 1"
  "m_segment_sizes (removed st s k) = (m_segment_sizes st)[s := m_segment_sizes st ! s - 1]"
  "m_pages_per_extent (removed st s k) = m_pages_per_extent st"
  by (simp_all add: removed_def Let_def)

text \<open>The removal of the element \<open>k\<close> of a segment, up to the rebalance.\<close>

lemma remove_at:
  assumes ok: "rma_ok p" and ne: "m_cardinality (m_storage p) \<noteq> 0" and s: "s < m_number_segments (m_storage p)" and k: "k < m_segment_sizes (m_storage p) ! s"
  defines "i \<equiv> (if even s then m_segment_capacity (m_storage p) - m_segment_sizes (m_storage p) ! s + k else k)"
  assumes left: "m_number_segments (m_storage p) = 1 \<or> 1 < m_segment_sizes (m_storage p) ! s"
  obtains pre suc idx where "(if even s then remove_even p s i else remove_odd p s i) =
      Some (seg_vals (m_storage p) s ! k, pre, suc, p\<lparr>m_storage := removed (m_storage p) s k, m_index := idx\<rparr>)"
    and "rma_ok (p\<lparr>m_storage := removed (m_storage p) s k, m_index := idx\<rparr>)"
    and "mset (elems (m_storage p)) = add_mset (seg_elems (m_storage p) s ! k) (mset (elems (removed (m_storage p) s k)))"
proof -
  let ?st = "m_storage p"
  let ?n = "m_number_segments ?st" and ?st' = "removed (m_storage p) s k" and ?c = "m_segment_capacity (m_storage p)"
  note st = rma_ok_elems(1)[OF ok ne] and srt = rma_ok_elems(2)[OF ok ne]
  note rs = removed_segments[OF st s k]
  have sizes: "\<forall>s<?n. 0 < m_segment_sizes ?st ! s \<and> get_separator_key (m_index p) s = Some (hd (seg_keys ?st s))"
    by (rule rma_ok_elems(3)[OF ok ne])
  have sl: "s < length (m_segment_sizes ?st)" using st s by (auto simp: storage_ok_def)
  have els: "elems ?st' = elems_before ?st s @ seg_elems ?st' s @ elems_after ?st s"
    by (rule elems_change_segment) (use s rs(3) in \<open>auto intro: seg_elems_cong\<close>)
  have E: "seg_elems ?st' s = take k (seg_elems ?st s) @ drop (k + 1) (seg_elems ?st s)"
    unfolding seg_elems_def rs(1,2) using length_seg[OF st s] k by (simp add: take_zip drop_zip)
  have Es: "seg_elems ?st s = take k (seg_elems ?st s) @ seg_elems ?st s ! k # drop (k + 1) (seg_elems ?st s)"
    using id_take_nth_drop[of k "seg_elems ?st s"] length_seg_elems[OF st s] k by simp
  have ms: "mset (elems ?st) = add_mset (seg_elems ?st s ! k) (mset (elems ?st'))"
    unfolding elems_split[OF s] els E by (subst Es) simp
  have srt': "sorted (map fst (elems ?st'))"
  proof -
    have "elems ?st = (elems_before ?st s @ take k (seg_elems ?st s)) @ seg_elems ?st s ! k # drop (k + 1) (seg_elems ?st s) @ elems_after ?st s"
      unfolding elems_split[OF s] by (subst Es) simp
    then have "sorted (map fst ((elems_before ?st s @ take k (seg_elems ?st s)) @ drop (k + 1) (seg_elems ?st s) @ elems_after ?st s))"
      using srt by (simp add: sorted_append)
    then show ?thesis by (simp add: els E)
  qed
  have vcell: "m_values ?st ! (s * ?c + i) = seg_vals ?st s ! k"
    using seg_bounds[OF st s] storage_ok_segment[OF st s] k scan_segment(2)[OF st s]
    by (auto simp: seg_vals_def i_def add.assoc)
  have hd': "m_keys ?st' ! seg_start ?st' s = hd (seg_keys ?st' s)" if "1 < m_segment_sizes ?st ! s"
    using seg_hd_cell[OF rs(4), of s] s sl that by simp
  have hd_same: "hd (seg_keys ?st' s) = hd (seg_keys ?st s)" if "0 < k"
    using rs(1) that length_seg(1)[OF st s] k by (cases "seg_keys ?st s"; cases k) auto
  define key0 where "key0 = (if even s \<and> m_cardinality ?st = 1 then INT64_MIN else m_keys ?st' ! (s * ?c + (if even s then ?c - m_segment_sizes ?st ! s + 1 else 0)))"
  define t where "t = (if even s \<and> m_cardinality ?st = 1 then 0 else s)"
  define sep where "sep \<longleftrightarrow> k = 0 \<and> (even s \<or> 1 < m_segment_sizes ?st ! s)"
  have "t < ?n" using s by (simp add: t_def)
  then obtain idx0 where idx0: "set_separator_key (m_index p) t key0 = Some idx0" "index_ok idx0 ?n"
      "\<forall>l<?n. get_separator_key idx0 l = (if l = t then Some key0 else get_separator_key (m_index p) l)"
    using static_index.set_get[OF rma_okD(3)[OF ok], of t key0] by blast
  define idx where "idx = (if sep then idx0 else m_index p)"
  obtain pre suc where run: "(if even s then remove_even p s i else remove_odd p s i) =
      Some (seg_vals ?st s ! k, pre, suc, p\<lparr>m_storage := ?st', m_index := idx\<rparr>)"
  proof (cases "even s")
    case True
    then have "removed ?st s k = ?st\<lparr>m_keys := shift_right (m_keys ?st) (s * ?c) i (?c - m_segment_sizes ?st ! s),
        m_values := shift_right (m_values ?st) (s * ?c) i (?c - m_segment_sizes ?st ! s),
        m_segment_sizes := (m_segment_sizes ?st)[s := m_segment_sizes ?st ! s - 1], m_cardinality := m_cardinality ?st - 1\<rparr>"
      by (simp add: removed_def Let_def i_def)
    then show ?thesis using True vcell idx0(1) that ne
      by (cases "k = 0"; cases "m_cardinality ?st = 1")
        (auto simp: remove_even_def Let_def set_separator_def i_def idx_def sep_def key0_def t_def)
  next
    case False
    then have "removed ?st s k = ?st\<lparr>m_keys := shift_left (m_keys ?st) (s * ?c) i (m_segment_sizes ?st ! s - 1),
        m_values := shift_left (m_values ?st) (s * ?c) i (m_segment_sizes ?st ! s - 1),
        m_segment_sizes := (m_segment_sizes ?st)[s := m_segment_sizes ?st ! s - 1], m_cardinality := m_cardinality ?st - 1\<rparr>"
      by (simp add: removed_def Let_def i_def)
    then show ?thesis using False vcell idx0(1) that
      by (cases "k = 0 \<and> 1 < m_segment_sizes ?st ! s")
        (auto simp: remove_odd_def Let_def set_separator_def i_def idx_def sep_def key0_def t_def)
  qed
  have "rma_ok (p\<lparr>m_storage := ?st', m_index := idx\<rparr>)"
  proof (cases "m_cardinality ?st = 1")
    case True
    have "?n = 1"
    proof (rule ccontr)
      assume "?n \<noteq> 1"
      then have "1 < m_segment_sizes ?st ! s" using left by simp
      then show False using length_elems[OF st] True elems_split[OF s] length_seg_elems[OF st s] by simp
    qed
    then show ?thesis using rs(4) srt' True idx0(2) rma_okD(2,3,4,5)[OF ok] storage_ok_shape[OF rs(4)] by (simp add: rma_ok_def Let_def idx_def)
  next
    case False
    have sz: "1 < m_segment_sizes ?st ! s"
    proof (rule ccontr)
      assume "\<not> ?thesis"
      then have "?n = 1" "m_segment_sizes ?st ! s = 1" using left k by auto
      then show False using False length_elems[OF st] s length_seg_elems[OF st s] by (simp add: elems_def)
    qed
    have k0: "key0 = hd (seg_keys ?st' s)" "t = s"
    proof -
      have "m_segment_sizes ?st ! s \<le> ?c" by (rule storage_ok_segment(3)[OF st s])
      then have "seg_start ?st' s = s * ?c + (if even s then ?c - m_segment_sizes ?st ! s + 1 else 0)"
        using sl sz by (auto simp: seg_start_def)
      then show "key0 = hd (seg_keys ?st' s)" using hd'[OF sz] False by (simp add: key0_def)
      show "t = s" using False by (simp add: t_def)
    qed
    have "get_separator_key idx l = Some (hd (seg_keys ?st' l))" if l: "l < ?n" for l
    proof (cases "l = s")
      case True
      then show ?thesis using idx0(3) k0 sz sizes s hd_same by (cases "k = 0") (auto simp: idx_def sep_def)
    next
      case False
      then show ?thesis using idx0(3) k0(2) sizes l rs(3)[OF l] by (auto simp: idx_def)
    qed
    moreover have "index_ok idx ?n" using idx0(2) rma_okD(3)[OF ok] by (simp add: idx_def)
    moreover have "\<forall>l<?n. 0 < m_segment_sizes ?st' ! l" using sizes sz sl by (auto simp: nth_list_update)
    ultimately show ?thesis using rs(4) srt' False ne rma_okD(2,4,5)[OF ok] storage_ok_shape[OF rs(4)] by (simp add: rma_ok_def Let_def)
  qed
  then show ?thesis using that run ms by blast
qed

lemma rma_ok_detector:
  assumes "rma_ok p" and "detector_capacity d = detector_capacity (m_detector p)" and "detector_ok (m_detector p) \<longrightarrow> detector_ok d"
  shows "rma_ok (p\<lparr>m_detector := d\<rparr>)"
  using assms by (simp add: rma_ok_def Let_def)

text \<open>The search of \<open>pma_remove\<close>: the segment and the position of the element to remove.\<close>

lemma remove_search:
  assumes ok: "rma_ok p" and ne: "m_cardinality (m_storage p) \<noteq> 0"
  obtains s where "index_find (m_index p) key = Some s" and "s < m_number_segments (m_storage p)"
    and "pma_remove env p key =
      (if key \<in> fst ` set (contents p) then
         let st = m_storage p; k = length (takeWhile (\<lambda>x. x \<noteq> key) (seg_keys st s));
             i = (if even s then m_segment_capacity st - m_segment_sizes st ! s + k else k)
         in (if even s then remove_even p s i else remove_odd p s i) \<bind> (\<lambda>(val, predecessor, successor, p).
              if val \<noteq> - 1 then
                detector_remove (m_knobs p) (m_detector p) s predecessor successor \<bind> (\<lambda>det.
                remove_rebalance env (p\<lparr>m_detector := det\<rparr>) s \<bind> (\<lambda>p. Some (val, p)))
              else Some (val, p))
       else Some (- 1, p))"
    and "key \<in> fst ` set (contents p) \<Longrightarrow>
      (let st = m_storage p; k = length (takeWhile (\<lambda>x. x \<noteq> key) (seg_keys st s))
       in k < m_segment_sizes st ! s \<and> seg_elems st s ! k = (key, seg_vals st s ! k))"
proof -
  let ?st = "m_storage p"
  note st = rma_ok_elems(1)[OF ok ne]
  have cont: "contents p = elems ?st" using ne by (simp add: contents_def)
  obtain s where s: "index_find (m_index p) key = Some s" "s < m_number_segments ?st"
      "key \<in> fst ` set (elems ?st) \<Longrightarrow> key \<in> fst ` set (seg_elems ?st s)"
    using routed_segment[OF ok ne, of key] by metis
  have keys: "fst ` set (seg_elems ?st s) = set (seg_keys ?st s)"
    using map_fst_seg_elems(1)[OF st s(2)] by (metis list.set_map)
  have sub: "set (seg_elems ?st s) \<subseteq> set (elems ?st)" using elems_split[OF s(2)] by auto
  have iff: "key \<in> fst ` set (contents p) \<longleftrightarrow> key \<in> set (seg_keys ?st s)" using s(3) keys image_mono[OF sub, of fst] unfolding cont by blast
  have sz: "m_segment_sizes ?st ! s \<noteq> 0" using rma_ok_elems(3)[OF ok ne] s(2) by auto
  note sc1 = scan_segment(1)[OF st s(2), of key] and sc3 = scan_segment(3)[OF st s(2), of key]
  show ?thesis
  proof (rule that[OF s(1,2)])
    show "pma_remove env p key =
      (if key \<in> fst ` set (contents p) then
         let st = m_storage p; k = length (takeWhile (\<lambda>x. x \<noteq> key) (seg_keys st s));
             i = (if even s then m_segment_capacity st - m_segment_sizes st ! s + k else k)
         in (if even s then remove_even p s i else remove_odd p s i) \<bind> (\<lambda>(val, predecessor, successor, p).
              if val \<noteq> - 1 then
                detector_remove (m_knobs p) (m_detector p) s predecessor successor \<bind> (\<lambda>det.
                remove_rebalance env (p\<lparr>m_detector := det\<rparr>) s \<bind> (\<lambda>p. Some (val, p)))
              else Some (val, p))
       else Some (- 1, p))"
      unfolding iff using ne s(1) sz sc1 by (simp add: pma_remove_def pma_empty_def Let_def)
    show "let st = m_storage p; k = length (takeWhile (\<lambda>x. x \<noteq> key) (seg_keys st s))
       in k < m_segment_sizes st ! s \<and> seg_elems st s ! k = (key, seg_vals st s ! k)"
      if "key \<in> fst ` set (contents p)"
      using sc3 that length_seg[OF st s(2)] unfolding iff by (simp add: Let_def seg_elems_def)
  qed
qed

lemma pma_remove_absent:
  assumes ok: "rma_ok p" and "key \<notin> fst ` set (contents p)"
  shows "pma_remove env p key = Some (- 1, p)"
proof (cases "m_cardinality (m_storage p) = 0")
  case True
  then show ?thesis by (simp add: pma_remove_def pma_empty_def)
next
  case False
  then show ?thesis using remove_search[OF ok False, of key env] assms(2) by metis
qed

text \<open>The segment of a key keeps its minimum size when it loses an element, and the array is not large enough
  to be halved: no rebalance takes place.\<close>

definition stays_balanced :: "Env \<Rightarrow> PackedMemoryArray \<Rightarrow> int \<Rightarrow> bool" where
  "stays_balanced env p key \<longleftrightarrow>
     (let st = m_storage p in
      m_number_segments st < 2 * balanced_thresholds_cutoff (e_page_size env) p
      \<and> (m_number_segments st = 1 \<or>
         (case (get_thresholds_at p 1, index_find (m_index p) key) of
            (Some (rho, theta), Some s) \<Rightarrow>
              max (nat \<lfloor>dmul rho (d_of_nat (m_segment_capacity st))\<rfloor>) 1 < m_segment_sizes st ! s
          | _ \<Rightarrow> False)))"

lemma one_segment_balanced:
  assumes "dims p = (1, cap, ppe)" and "0 < e_page_size env * ppe div (cap * 8)"
  shows "stays_balanced env p key"
  using assms by (simp add: stays_balanced_def dims_def Let_def balanced_thresholds_cutoff_def segments_per_extent_def mult.commute)

lemma remove_rebalance_skip:
  fixes p :: PackedMemoryArray and idx :: StaticIndex and k s :: nat and d :: Detector
  defines "q \<equiv> p\<lparr>m_storage := removed (m_storage p) s k, m_index := idx, m_detector := d\<rparr>"
  assumes bal: "stays_balanced env p key" and f: "index_find (m_index p) key = Some s" and sl: "s < length (m_segment_sizes (m_storage p))"
  shows "remove_rebalance env q s = Some q"
proof -
  have cut: "balanced_thresholds_cutoff ps q = balanced_thresholds_cutoff ps p" for ps
    by (simp add: balanced_thresholds_cutoff_def segments_per_extent_def q_def)
  have th: "get_thresholds_at q 1 = get_thresholds_at p 1"
    by (simp add: get_thresholds_at_def get_thresholds_def hyperheight_def q_def)
  have st: "m_number_segments (m_storage q) = m_number_segments (m_storage p)"
      "m_segment_capacity (m_storage q) = m_segment_capacity (m_storage p)"
      "m_segment_sizes (m_storage q) ! s = m_segment_sizes (m_storage p) ! s - 1"
    using sl by (simp_all add: q_def)
  have small: "\<not> 2 * balanced_thresholds_cutoff (e_page_size env) q \<le> m_number_segments (m_storage q)"
    using bal by (simp add: stays_balanced_def Let_def cut st)
  show ?thesis
  proof (cases "m_number_segments (m_storage p) = 1")
    case True
    then show ?thesis using small by (simp add: remove_rebalance_def Let_def st)
  next
    case False
    then obtain rho theta where r: "get_thresholds_at p 1 = Some (rho, theta)"
        "max (nat \<lfloor>dmul rho (d_of_nat (m_segment_capacity (m_storage p)))\<rfloor>) 1 < m_segment_sizes (m_storage p) ! s"
      using bal f by (auto simp: stays_balanced_def Let_def split: option.splits)
    then have "\<not> m_segment_sizes (m_storage p) ! s - 1 < max (nat \<lfloor>dmul rho (d_of_nat (m_segment_capacity (m_storage p)))\<rfloor>) 1"
      by linarith
    then show ?thesis using small th r(1) by (simp add: remove_rebalance_def Let_def st)
  qed
qed

lemma pma_remove_elems:
  assumes ok: "rma_ok p" and key: "key \<in> fst ` set (contents p)" and bal: "stays_balanced env p key"
  obtains v p' where "pma_remove env p key = Some (v, p')" and "rma_ok p'"
    and "mset (contents p) = add_mset (key, v) (mset (contents p'))"
    and "dims p' = dims p" and "v = - 1 \<Longrightarrow> m_detector p' = m_detector p"
proof -
  let ?st = "m_storage p"
  have ne: "m_cardinality ?st \<noteq> 0" using key unfolding contents_def by (metis empty_iff image_empty list.set(1))
  note st = rma_ok_elems(1)[OF ok ne]
  obtain s where s: "index_find (m_index p) key = Some s" "s < m_number_segments ?st" and
    rem: "pma_remove env p key =
      (if key \<in> fst ` set (contents p) then
         let st = m_storage p; k = length (takeWhile (\<lambda>x. x \<noteq> key) (seg_keys st s));
             i = (if even s then m_segment_capacity st - m_segment_sizes st ! s + k else k)
         in (if even s then remove_even p s i else remove_odd p s i) \<bind> (\<lambda>(val, predecessor, successor, p).
              if val \<noteq> - 1 then
                detector_remove (m_knobs p) (m_detector p) s predecessor successor \<bind> (\<lambda>det.
                remove_rebalance env (p\<lparr>m_detector := det\<rparr>) s \<bind> (\<lambda>p. Some (val, p)))
              else Some (val, p))
       else Some (- 1, p))" and
    pos: "key \<in> fst ` set (contents p) \<Longrightarrow>
      (let st = m_storage p; k = length (takeWhile (\<lambda>x. x \<noteq> key) (seg_keys st s))
       in k < m_segment_sizes st ! s \<and> seg_elems st s ! k = (key, seg_vals st s ! k))"
    using remove_search[OF ok ne, of key env] by blast
  define k where "k = length (takeWhile (\<lambda>x. x \<noteq> key) (seg_keys ?st s))"
  have k: "k < m_segment_sizes ?st ! s" "seg_elems ?st s ! k = (key, seg_vals ?st s ! k)"
    using pos[OF key] by (simp_all add: Let_def k_def)
  have left: "m_number_segments ?st = 1 \<or> 1 < m_segment_sizes ?st ! s"
    using bal s(1) by (auto simp: stays_balanced_def Let_def split: option.splits)
  obtain pre suc idx where run: "(if even s then remove_even p s (if even s then m_segment_capacity ?st - m_segment_sizes ?st ! s + k else k)
        else remove_odd p s (if even s then m_segment_capacity ?st - m_segment_sizes ?st ! s + k else k)) =
      Some (seg_vals ?st s ! k, pre, suc, p\<lparr>m_storage := removed ?st s k, m_index := idx\<rparr>)"
    and ok': "rma_ok (p\<lparr>m_storage := removed ?st s k, m_index := idx\<rparr>)"
    and ms: "mset (elems ?st) = add_mset (seg_elems ?st s ! k) (mset (elems (removed ?st s k)))"
    using remove_at[OF ok ne s(2) k(1) left] by blast
  let ?q = "p\<lparr>m_storage := removed ?st s k, m_index := idx\<rparr>" and ?v = "seg_vals ?st s ! k"
  have cont: "mset (contents p) = add_mset (key, ?v) (mset (contents q))" if "m_storage q = removed ?st s k" for q
    using that ms ne k(2) elems_empty[OF removed_segments(4)[OF st s(2) k(1)]] by (simp add: contents_def)
  have base: "pma_remove env p key = (if ?v \<noteq> - 1 then
      detector_remove (m_knobs ?q) (m_detector ?q) s pre suc \<bind> (\<lambda>det. remove_rebalance env (?q\<lparr>m_detector := det\<rparr>) s \<bind> (\<lambda>p. Some (?v, p)))
      else Some (?v, ?q))"
    using rem key run by (simp only: Let_def k_def[symmetric] if_True bind.bind_lunit prod.case)
  show ?thesis
  proof (cases "?v = - 1")
    case True
    show ?thesis by (rule that[of ?v ?q]) (use base True ok' cont in \<open>auto simp: dims_def\<close>)
  next
    case False
    have cap: "s < detector_capacity (m_detector p)" using rma_okD(4)[OF ok] s(2) by simp
    obtain det where det: "detector_remove (m_knobs p) (m_detector p) s pre suc = Some det"
        "detector_capacity det = detector_capacity (m_detector p)" "detector_ok (m_detector p) \<longrightarrow> detector_ok det"
      unfolding detector_remove_def by (rule detector_update_some[OF rma_okD(5)[OF ok] cap])
    have sl: "s < length (m_segment_sizes ?st)" using st s(2) by (auto simp: storage_ok_def)
    have "pma_remove env p key = Some (?v, ?q\<lparr>m_detector := det\<rparr>)"
      using base False det(1) remove_rebalance_skip[OF bal s(1) sl, where k = k and idx = idx and d = det] by simp
    moreover have "rma_ok (?q\<lparr>m_detector := det\<rparr>)" by (rule rma_ok_detector[OF ok']) (use det in simp_all)
    ultimately show ?thesis using that[of ?v "?q\<lparr>m_detector := det\<rparr>"] False cont by (simp add: dims_def)
  qed
qed

section \<open>The constructor\<close>

lemma new_storage_ok:
  fixes ps ss ppe :: nat
  defines "cap \<equiv> pow2_ceil ss"
  assumes cap: "32 \<le> cap" "cap < 2 ^ 16" and ppe: "pow2_ceil ppe = ppe" "0 < ppe"
    and ps: "0 < ps" "ps \<le> 2 ^ 33" "ps mod (cap * 8) = 0"
  obtains st where "new_storage ps junk ss ppe = Some st" and "storage_shape st" and "m_number_segments st = 1"
    and "m_cardinality st = 0" and "m_segment_capacity st = cap" and "m_pages_per_extent st = ppe"
proof -
  define st0 where "st0 = \<lparr>m_keys = [], m_values = [], m_segment_sizes = [], m_segment_capacity = cap,
    m_cardinality = 0, m_number_segments = 1, m_pages_per_extent = ppe,
    m_memory_keys = None, m_memory_values = None, m_memory_sizes = None\<rparr>"
  have "cap * 8 \<le> ps" using ps(1,3) by (meson dvd_imp_le dvd_eq_mod_eq_0)
  have "\<exists>w. alloc_workspace ps junk st0 1 = Some w \<and> cap \<le> length (w_keys w) \<and> cap \<le> length (w_values w) \<and> 1 \<le> length (w_sizes w)"
  proof (cases "ppe * ps \<le> cap * 8")
    case True
    have "ps \<le> ppe * ps" using ppe(2) by simp
    then have e: "ppe * ps = cap * 8" "ppe * ps = ps" using True \<open>cap * 8 \<le> ps\<close> by linarith+
    have one: "ppe = 1" using e(2) ps(1) by simp
    show ?thesis using cap ps e one
      by (simp add: alloc_workspace_def Let_def st0_def new_buffered_def new_rewired_def get_max_memory_def
        get_allocated_memory_size_def get_extent_size_def get_allocated_extents_def)
  next
    case False
    then show ?thesis by (simp add: alloc_workspace_def Let_def st0_def)
  qed
  then obtain w where w: "alloc_workspace ps junk st0 1 = Some w" "cap \<le> length (w_keys w)" "cap \<le> length (w_values w)"
      "1 \<le> length (w_sizes w)" by blast
  have "new_storage ps junk ss ppe = Some (set_workspace w st0)"
    using cap ppe(1) ps(3) w(1) by (simp add: new_storage_def st0_def[symmetric] cap_def[symmetric] del: One_nat_def)
  then show ?thesis by (rule that) (use w cap in \<open>simp_all add: storage_shape_def set_workspace_def st0_def\<close>)
qed

lemma new_pma_rma_ok:
  assumes B: "1 < B" "B < 2 ^ 16" and cap: "32 \<le> pow2_ceil ss" "pow2_ceil ss < 2 ^ 16" and ppe: "pow2_ceil ppe = ppe" "0 < ppe"
    and ps: "0 < e_page_size env" "e_page_size env \<le> 2 ^ 33" "e_page_size env mod (pow2_ceil ss * 8) = 0"
  obtains p where "new_pma env b0 B ss ppe = Some p" and "rma_ok p" and "contents p = []"
    and "dims p = (1, pow2_ceil ss, ppe)"
proof -
  obtain idx where idx: "new_index ceil_log (e_junk env) B 1 = Some idx" "index_ok idx 1"
    using new_index_ok[OF B, of 1 ceil_log "e_junk env"] B by auto
  obtain st where st: "new_storage (e_page_size env) (e_junk env) ss ppe = Some st" "storage_shape st" "m_number_segments st = 1"
      "m_cardinality st = 0" "m_segment_capacity st = pow2_ceil ss" "m_pages_per_extent st = ppe"
    using new_storage_ok[OF cap ppe ps] by blast
  obtain b1 where b1: "new_cached 0 (3 / 4) (3 / 4) 1 = Some b1"
    by (simp add: new_cached_def new_density_bounds_def)
  show ?thesis
    by (rule that[of "\<lparr>m_index = idx, m_storage = st, m_knobs = new_knobs, m_detector = new_detector 1 8,
           m_density_bounds0 = b0, m_density_bounds1 = b1, m_primary_densities = False\<rparr>"])
      (use idx st b1 new_detector_ok[of 8 1] in \<open>simp_all add: new_pma_def rma_ok_def contents_def dims_def new_detector_def detector_capacity_def\<close>)
qed

end
