(* ===== verification/RMA_Properties.thy ===== *)
theory RMA_Properties
  imports RMA_Proofs
begin

text \<open>
  The properties of the rewired memory array and of the parts of its adaptive rebalancing.
\<close>

section \<open>An array to apply the properties to\<close>

definition small_env :: Env where
  "small_env = \<lparr>e_page_size = 4096, e_junk = 7, e_log2 = (\<lambda>n. if n = 1 then 0 else 1)\<rparr>"

definition small_bounds :: CachedDensityBounds where
  "small_bounds = \<lparr>m_density_bounds = \<lparr>rho_0 = 1 / 2, rho_h = 3 / 4, theta_h = 3 / 4, theta_0 = 1\<rparr>, m_cached_densities = []\<rparr>"

lemma small_pow2 [simp]: "pow2_ceil 64 = 64" "pow2_ceil (Suc 0) = Suc 0"
  by (simp_all add: pow2_ceil_def ceil_log.simps div_up_def)

lemma small_array:
  obtains p where "new_pma small_env small_bounds 64 64 1 = Some p" and "rma_ok p" and "contents p = []" and "dims p = (1, 64, 1)"
  by (rule new_pma_rma_ok[of 64 64 1 small_env small_bounds]) (simp_all add: small_env_def)

lemma empty_small: "rma_ok p \<Longrightarrow> contents p = [] \<Longrightarrow> pma_size p + 1 < 2 ^ 32"
  using length_contents[of p] by (simp add: pma_size_def)

lemma small_inserted:
  obtains p p' where "new_pma small_env small_bounds 64 64 1 = Some p" and "pma_insert small_env p 5 50 = Some p'"
    and "rma_ok p'" and "mset (contents p') = {#(5, 50)#}" and "dims p' = (1, 64, 1)"
proof -
  obtain p where p: "new_pma small_env small_bounds 64 64 1 = Some p" "rma_ok p" "contents p = []" "dims p = (1, 64, 1)"
    by (rule small_array)
  have "has_room p 5" by (rule one_segment_room[OF p(2,4)]) (simp add: p(3))
  then show ?thesis using pma_insert_room[OF p(2), of 5 small_env 50] that p empty_small[OF p(2,3)] by (metis mset.simps(1))
qed

section \<open>The array\<close>

text \<open>C8. The constructor: with a node size of 2 or more, a segment size that rounds up to a power of
  two from 32 to \<open>2 ^ 15\<close>, a power of two of pages per extent and a page that is a multiple of the
  segment, it returns an empty array of one segment that satisfies the invariant of the type.\<close>

theorem rma_new_type:
  assumes "1 < B" and "B < 2 ^ 16" and "32 \<le> pow2_ceil ss" and "pow2_ceil ss < 2 ^ 16" and "pow2_ceil ppe = ppe" and "0 < ppe"
    and "0 < e_page_size env" and "e_page_size env \<le> 2 ^ 33" and "e_page_size env mod (pow2_ceil ss * 8) = 0"
  shows "\<exists>p. new_pma env b0 B ss ppe = Some p \<and> rma_ok p \<and> contents p = [] \<and> dims p = (1, pow2_ceil ss, ppe)
    \<and> pma_size p = 0 \<and> pma_empty p"
proof -
  obtain p where p: "new_pma env b0 B ss ppe = Some p" "rma_ok p" "contents p = []" "dims p = (1, pow2_ceil ss, ppe)"
    using new_pma_rma_ok[OF assms] by blast
  then show ?thesis using length_contents[OF p(2)] by (simp add: pma_size_def pma_empty_def)
qed

theorem rma_new_type_witness:
  "\<exists>p. new_pma small_env small_bounds 64 64 1 = Some p \<and> rma_ok p \<and> contents p = [] \<and> dims p = (1, 64, 1)
    \<and> pma_size p = 0 \<and> pma_empty p"
  using rma_new_type[of 64 64 1 small_env small_bounds] by (simp add: small_env_def)

text \<open>C1. An insertion that finds a free cell in the segment of its key, or an empty array, returns an
  array that satisfies the invariant again, ordered, with the new pair and every old one and no
  other, and of the same segments; the number of elements is kept in 32 bits.\<close>

theorem rma_insert_correct:
  assumes "rma_ok p" and "has_room p key" and "pma_size p < 2 ^ 32 - 1"
  shows "\<exists>p'. pma_insert env p key val = Some p' \<and> rma_ok p' \<and> sorted (map fst (contents p'))
    \<and> mset (contents p') = add_mset (key, val) (mset (contents p)) \<and> pma_size p' = pma_size p + 1 \<and> dims p' = dims p"
proof -
  obtain p' where p': "pma_insert env p key val = Some p'" "rma_ok p'"
      "mset (contents p') = add_mset (key, val) (mset (contents p))" "dims p' = dims p"
    using pma_insert_room[OF assms(1,2)] assms(3) by (metis less_diff_conv)
  have "length (contents p') = length (contents p) + 1" using arg_cong[OF p'(3), of size] by simp
  moreover have "sorted (map fst (contents p'))" using rma_ok_elems(2)[OF p'(2)] by (simp add: contents_def)
  ultimately show ?thesis using p' length_contents[OF assms(1)] length_contents[OF p'(2)] by (simp add: pma_size_def)
qed

theorem rma_insert_correct_witness:
  "\<exists>p p' p''. new_pma small_env small_bounds 64 64 1 = Some p \<and> pma_insert small_env p 5 50 = Some p'
    \<and> pma_insert small_env p' 3 30 = Some p'' \<and> mset (contents p'') = {#(3, 30), (5, 50)#} \<and> sorted (map fst (contents p''))"
proof -
  obtain p p' where p: "new_pma small_env small_bounds 64 64 1 = Some p" "pma_insert small_env p 5 50 = Some p'"
      "rma_ok p'" "mset (contents p') = {#(5, 50)#}" "dims p' = (1, 64, 1)"
    by (rule small_inserted)
  have "length (contents p') = 1" using arg_cong[OF p(4), of size] by simp
  then have "has_room p' 3" by (intro one_segment_room[OF p(3,5)]) simp
  then show ?thesis using rma_insert_correct[OF p(3), of 3 small_env 30] p length_contents[OF p(3)] by (auto simp: pma_size_def)
qed

text \<open>C4. A search returns, for a key of the array, the value of one of its pairs with that key, and -1
  for any other key.\<close>

theorem rma_find_correct:
  assumes "rma_ok p"
  shows "\<exists>v. pma_find p key = Some v
    \<and> (if key \<in> fst ` set (contents p) then (key, v) \<in> set (contents p) else v = - 1)"
  using pma_find_elems[OF assms, of key] by blast

theorem rma_find_correct_witness:
  "\<exists>p p'. new_pma small_env small_bounds 64 64 1 = Some p \<and> pma_insert small_env p 5 50 = Some p'
    \<and> pma_find p' 5 = Some 50 \<and> pma_find p' 4 = Some (- 1)"
proof -
  obtain p p' where p: "new_pma small_env small_bounds 64 64 1 = Some p" "pma_insert small_env p 5 50 = Some p'"
      "rma_ok p'" "mset (contents p') = {#(5, 50)#}"
    by (rule small_inserted)
  have "set (contents p') = {(5, 50)}" using arg_cong[OF p(4), of set_mset] by simp
  then show ?thesis using rma_find_correct[OF p(3), of 5] rma_find_correct[OF p(3), of 4] p(1,2) by auto
qed

text \<open>C5. A removal of a key of the array that starts no rebalance returns the value of one of its pairs
  with that key, and the array without that pair, which satisfies the invariant again.\<close>

theorem rma_remove_correct:
  assumes "rma_ok p" and "key \<in> fst ` set (contents p)" and "stays_balanced env p key"
  shows "\<exists>v p'. pma_remove env p key = Some (v, p') \<and> rma_ok p' \<and> sorted (map fst (contents p'))
    \<and> mset (contents p) = add_mset (key, v) (mset (contents p')) \<and> pma_size p = pma_size p' + 1 \<and> dims p' = dims p"
proof -
  obtain v p' where p': "pma_remove env p key = Some (v, p')" "rma_ok p'"
      "mset (contents p) = add_mset (key, v) (mset (contents p'))" "dims p' = dims p"
    using pma_remove_elems[OF assms] by metis
  have "length (contents p) = length (contents p') + 1" using arg_cong[OF p'(3), of size] by simp
  moreover have "sorted (map fst (contents p'))" using rma_ok_elems(2)[OF p'(2)] by (simp add: contents_def)
  ultimately show ?thesis using p' length_contents[OF assms(1)] length_contents[OF p'(2)] by (simp add: pma_size_def)
qed

lemma small_balanced: "dims p = (1, 64, 1) \<Longrightarrow> stays_balanced small_env p key"
  by (erule one_segment_balanced[where cap = 64 and ppe = 1]) (simp add: small_env_def)

theorem rma_remove_correct_witness:
  "\<exists>p p' p''. new_pma small_env small_bounds 64 64 1 = Some p \<and> pma_insert small_env p 5 50 = Some p'
    \<and> pma_remove small_env p' 5 = Some (50, p'') \<and> contents p'' = [] \<and> rma_ok p''"
proof -
  obtain p p' where p: "new_pma small_env small_bounds 64 64 1 = Some p" "pma_insert small_env p 5 50 = Some p'"
      "rma_ok p'" "mset (contents p') = {#(5, 50)#}" "dims p' = (1, 64, 1)"
    by (rule small_inserted)
  have "set (contents p') = {(5, 50)}" using arg_cong[OF p(4), of set_mset] by simp
  then obtain v p'' where r: "pma_remove small_env p' 5 = Some (v, p'')" "rma_ok p''"
      "mset (contents p') = add_mset (5, v) (mset (contents p''))"
    using rma_remove_correct[OF p(3) _ small_balanced[OF p(5)], of 5] by auto
  then show ?thesis using p by auto
qed

text \<open>The result -1 of a removal is ambiguous: it is returned with the array as it was for a key that
  is not there, and for a key whose pairs all have the value -1, when the pair was removed; in that
  case the detector does not see the removal.\<close>

theorem rma_remove_minus_one:
  assumes "rma_ok p" and "\<forall>v. (key, v) \<in> set (contents p) \<longrightarrow> v = - 1"
    and "key \<in> fst ` set (contents p) \<Longrightarrow> stays_balanced env p key"
  shows "\<exists>p'. pma_remove env p key = Some (- 1, p') \<and> m_detector p' = m_detector p \<and> rma_ok p'
    \<and> (if key \<in> fst ` set (contents p) then mset (contents p) = add_mset (key, - 1) (mset (contents p')) else p' = p)"
proof (cases "key \<in> fst ` set (contents p)")
  case True
  obtain v p' where p': "pma_remove env p key = Some (v, p')" "rma_ok p'"
      "mset (contents p) = add_mset (key, v) (mset (contents p'))" "v = - 1 \<Longrightarrow> m_detector p' = m_detector p"
    using pma_remove_elems[OF assms(1) True assms(3)[OF True]] by metis
  have "(key, v) \<in> set (contents p)" using p'(3) by (metis set_mset_mset union_single_eq_member)
  then have "v = - 1" using assms(2) by blast
  then show ?thesis using p' True by auto
next
  case False
  then show ?thesis using pma_remove_absent[OF assms(1) False] assms(1) by auto
qed

theorem rma_remove_minus_one_witness:
  "\<exists>p p' p''. new_pma small_env small_bounds 64 64 1 = Some p \<and> pma_insert small_env p 5 (- 1) = Some p'
    \<and> pma_remove small_env p' 5 = Some (- 1, p'') \<and> contents p'' = [] \<and> pma_remove small_env p 5 = Some (- 1, p)"
proof -
  obtain p where p: "new_pma small_env small_bounds 64 64 1 = Some p" "rma_ok p" "contents p = []" "dims p = (1, 64, 1)"
    by (rule small_array)
  have "has_room p 5" by (rule one_segment_room[OF p(2,4)]) (simp add: p(3))
  then obtain p' where p': "pma_insert small_env p 5 (- 1) = Some p'" "rma_ok p'" "mset (contents p') = {#(5, - 1)#}" "dims p' = dims p"
    using pma_insert_room[OF p(2), of 5 small_env "- 1"] p(3) empty_small[OF p(2,3)] by (metis mset.simps(1))
  have s: "set (contents p') = {(5, - 1)}" using arg_cong[OF p'(3), of set_mset] by simp
  have "stays_balanced small_env p' 5" by (rule small_balanced) (simp add: p'(4) p(4))
  then show ?thesis
    using rma_remove_minus_one[OF p'(2), of 5 small_env] rma_remove_minus_one[OF p(2), of 5 small_env] p p' s by auto
qed

section \<open>Weights and partitions\<close>

text \<open>C10. The selection of the \<open>k\<close>-th timestamp, by partitioning in place, equals sorting them all and
  taking the one at position \<open>k\<close>; past the last one it throws.\<close>

theorem weights_rank_equivalence:
  "rank ts k = (if k < length ts then Some (sort ts ! k) else None)"
  using rank_sorted[of k ts] by (simp add: rank_def)

text \<open>C9. The weights of a window of segments, not all of them empty: whatever the detector has
  recorded, the constructor returns intervals of elements of the window, none of them empty, apart
  from each other and in order, with weights 1 and -1 whose sum is the balance, each of a segment of
  the window.\<close>

theorem weights_intervals_invariant:
  assumes "cards = take segment_length (drop segment_start sizes)" and "length cards = segment_length"
    and "window_ok find_key cards" and "0 < m_rank_threshold knobs" and "m_rank_threshold knobs \<le> 1"
    and "segment_start + segment_length \<le> detector_capacity d" and "0 < m_modulus d"
  shows "\<exists>w w' xs. new_weights knobs d sizes find_key segment_start segment_length = Some w \<and> release w = Some (w', xs)
    \<and> release w' = None \<and> weights_ok (sum_list cards) xs (m_balance w)
    \<and> (\<forall>x\<in>set xs. 0 \<le> m_associated_segment x \<and> m_associated_segment x < int segment_length)
    \<and> detector_capacity (w_detector w) = detector_capacity d"
proof -
  obtain w where "new_weights knobs d sizes find_key segment_start segment_length = Some w"
    "weights_ok (sum_list cards) (m_output w) (m_balance w)" "m_output_released w = False"
    "\<forall>x\<in>set (m_output w). 0 \<le> m_associated_segment x \<and> m_associated_segment x < int segment_length"
    "detector_capacity (w_detector w) = detector_capacity d"
    using new_weights_ok[OF assms] by metis
  then show ?thesis by (simp add: release_def)
qed

theorem weights_intervals_invariant_witness:
  "\<exists>w w' xs. new_weights new_knobs (new_detector 4 8) [9, 2, 3, 4] (\<lambda>i k. - 1) 1 3 = Some w \<and> release w = Some (w', xs)
    \<and> release w' = None \<and> weights_ok 9 xs (m_balance w)
    \<and> (\<forall>x\<in>set xs. 0 \<le> m_associated_segment x \<and> m_associated_segment x < int 3)
    \<and> detector_capacity (w_detector w) = 4"
  using weights_intervals_invariant[of "[2, 3, 4]" 3 1 "[9, 2, 3, 4]" "\<lambda>i k. - 1" new_knobs "new_detector 4 8"] rnd_positive[of "99 / 100"]
    rnd_mono[of "99 / 100" 1]
  by (simp add: new_knobs_def window_ok_def nth_Cons' new_detector_def detector_capacity_def)

text \<open>C6. The adaptive rebalancing, on thresholds that can be split, ends and returns partitions of exactly
  the segments of the window and the elements to spread, each with at least one element and at most
  the capacity of its segments; the relocations it registers move entries of hammered segments to
  segments of the window.\<close>

theorem adaptive_partitions_valid:
  assumes "thresholds_split log2d ar N" and "1 \<le> n" and "n \<le> N" and "ordered W" and "within_limits log2d ar n c"
    and "info_room info (2 * length W)"
  shows "\<exists>ps info'. adaptive_rebalancing log2d ar W bal n c info = Some (ps, info')
    \<and> partitions_ok (ar_segment_capacity ar) n c ps
    \<and> info_step info info' (2 * length W) (m_associated_segment ` set W) 0 n"
  using recursion_ok[OF assms(1-5), of "([], info)" 0 bal] assms(6) by (simp add: adaptive_rebalancing_def)

definition small_ar :: AdaptiveRebalancing where
  "small_ar = \<lparr>ar_height = 2, ar_segment_capacity = 64, ar_densities = densities small_bounds\<rparr>"

lemma small_rnd: "rnd (1 / 2) = 1 / 2" "rnd (1 / 4) = 1 / 4" "rnd (3 / 4) = 3 / 4" "rnd 2 = 2" "rnd 64 = 64" "rnd 128 = 128" "rnd 96 = 96"
    "rnd 32 = 32"
  using rnd_dyadic[of 1 1] rnd_dyadic[of 1 2] rnd_dyadic[of 3 2] rnd_of_nat[of 2] rnd_of_nat[of 64] rnd_of_nat[of 128] rnd_of_nat[of 96]
    rnd_of_nat[of 32]
  by simp_all

lemma small_limits:
  "window_limits (e_log2 small_env) small_ar 1 = Some (32, 64)" "window_limits (e_log2 small_env) small_ar 2 = Some (96, 96)"
  by (simp_all add: window_limits_def get_density_def thresholds_dec_def small_env_def small_ar_def small_bounds_def densities_def
    scaled_def dadd_def dsub_def dmul_def ddiv_def d_of_nat_def small_rnd Let_def)

lemma small_thresholds: "thresholds_split (e_log2 small_env) small_ar 2"
proof -
  have "{1..2} = {1, 2 :: nat}" "{2..2} = {2 :: nat}" by auto
  then show ?thesis using small_limits by (simp add: thresholds_split_def lim_lo_def lim_hi_def small_ar_def del: One_nat_def)
qed

theorem adaptive_partitions_valid_witness:
  "\<exists>ps info'. adaptive_rebalancing (e_log2 small_env) small_ar
      [\<lparr>m_start = 40, m_length = 2, m_weight = 1, m_associated_segment = 0\<rparr>] 1 2 96 None = Some (ps, info')
    \<and> partitions_ok 64 2 96 ps"
  using adaptive_partitions_valid[OF small_thresholds, of 2 "[\<lparr>m_start = 40, m_length = 2, m_weight = 1, m_associated_segment = 0\<rparr>]" 96 None 1]
    small_limits
  by (simp add: ordered_def within_limits_def lim_lo_def lim_hi_def info_room_def) (auto simp: small_ar_def)

end
