(* ===== verification/RMA_Spread_Proofs.thy ===== *)
theory RMA_Spread_Proofs
  imports RMA_Proofs
begin

text \<open>
  Facts on the spread without rewiring: the segments of a window after their elements were written, the
  partitions one after the other, and the elements loaded from the window before.
\<close>

section \<open>Writing segments\<close>

lemma slice_splice_inside:
  assumes "n + length ms \<le> length xs" and "n \<le> a" and "a + m \<le> n + length ms"
  shows "take m (drop a (splice xs n ms)) = take m (drop (a - n) ms)"
  using assms by (intro nth_equalityI) (auto simp: nth_splice)

text \<open>What a spread does not change.\<close>

definition same_frame :: "PackedMemoryArray \<Rightarrow> PackedMemoryArray \<Rightarrow> bool" where
  "same_frame p q \<longleftrightarrow> dims q = dims p \<and> m_cardinality (m_storage q) = m_cardinality (m_storage p)
     \<and> length (m_keys (m_storage q)) = length (m_keys (m_storage p))
     \<and> length (m_values (m_storage q)) = length (m_values (m_storage p))
     \<and> length (m_segment_sizes (m_storage q)) = length (m_segment_sizes (m_storage p))
     \<and> detector_capacity (m_detector q) = detector_capacity (m_detector p) \<and> (detector_ok (m_detector p) \<longrightarrow> detector_ok (m_detector q))
     \<and> m_knobs q = m_knobs p \<and> m_density_bounds0 q = m_density_bounds0 p \<and> m_density_bounds1 q = m_density_bounds1 p
     \<and> m_primary_densities q = m_primary_densities p \<and> m_memory_keys (m_storage q) = m_memory_keys (m_storage p)"

text \<open>The segments from \<open>a\<close> to \<open>b\<close> get the sizes \<open>ss\<close>; those before \<open>c\<close> already hold the elements \<open>xs\<close>, with
  their separators in the index. The other segments are the same.\<close>

definition spread_part :: "PackedMemoryArray \<Rightarrow> PackedMemoryArray \<Rightarrow> nat \<Rightarrow> nat \<Rightarrow> nat \<Rightarrow> nat list \<Rightarrow> (int \<times> int) list \<Rightarrow> bool" where
  "spread_part p q a c b ss xs \<longleftrightarrow> same_frame p q \<and> index_ok (m_index q) (m_number_segments (m_storage p))
     \<and> a \<le> c \<and> c \<le> b \<and> b \<le> m_number_segments (m_storage p) \<and> b = a + length ss
     \<and> (\<forall>x\<in>set ss. 0 < x \<and> x \<le> m_segment_capacity (m_storage p))
     \<and> (\<forall>t<m_number_segments (m_storage p). (a \<le> t \<and> t < b \<longrightarrow> m_segment_sizes (m_storage q) ! t = ss ! (t - a))
          \<and> (t < a \<or> b \<le> t \<longrightarrow> m_segment_sizes (m_storage q) ! t = m_segment_sizes (m_storage p) ! t
               \<and> seg_elems (m_storage q) t = seg_elems (m_storage p) t
               \<and> get_separator_key (m_index q) t = get_separator_key (m_index p) t)
          \<and> (a \<le> t \<and> t < c \<longrightarrow> get_separator_key (m_index q) t = Some (fst (hd (seg_elems (m_storage q) t)))))
     \<and> concat (map (seg_elems (m_storage q)) [a..<c]) = xs"

definition spread_to :: "PackedMemoryArray \<Rightarrow> PackedMemoryArray \<Rightarrow> nat \<Rightarrow> nat \<Rightarrow> (int \<times> int) list \<Rightarrow> bool" where
  "spread_to p q a b xs \<longleftrightarrow> (\<exists>ss. spread_part p q a b b ss xs)"

text \<open>The states the spread works on.\<close>

definition spread_ready :: "PackedMemoryArray \<Rightarrow> bool" where
  "spread_ready p \<longleftrightarrow> storage_shape (m_storage p) \<and> index_ok (m_index p) (m_number_segments (m_storage p))
     \<and> detector_capacity (m_detector p) = m_number_segments (m_storage p) \<and> detector_ok (m_detector p)
     \<and> (\<forall>t<m_number_segments (m_storage p). m_segment_sizes (m_storage p) ! t \<le> m_segment_capacity (m_storage p))"

lemma same_frame_refl [simp]: "same_frame p p"
  by (simp add: same_frame_def)

lemma same_frame_trans: "same_frame p q \<Longrightarrow> same_frame q r \<Longrightarrow> same_frame p r"
  by (simp add: same_frame_def)

lemma same_frameD:
  assumes "same_frame p q"
  shows "m_number_segments (m_storage q) = m_number_segments (m_storage p)"
    and "m_segment_capacity (m_storage q) = m_segment_capacity (m_storage p)"
  using assms by (simp_all add: same_frame_def dims_def)

lemma spread_part_ready:
  assumes "spread_ready p" and "spread_part p q a c b ss xs"
  shows "spread_ready q"
proof -
  have f: "same_frame p q" using assms(2) by (simp add: spread_part_def)
  have "m_segment_sizes (m_storage q) ! t \<le> m_segment_capacity (m_storage p)" if t: "t < m_number_segments (m_storage p)" for t
  proof (cases "a \<le> t \<and> t < b")
    case True
    then have "ss ! (t - a) \<in> set ss" using assms(2) by (auto simp: spread_part_def)
    then show ?thesis using assms(2) True t by (auto simp: spread_part_def)
  next
    case False
    then show ?thesis using assms t by (auto simp: spread_part_def spread_ready_def)
  qed
  then show ?thesis
    using assms same_frameD[OF f] f by (simp add: spread_ready_def storage_shape_def spread_part_def same_frame_def)
qed

lemma spread_to_refl: "spread_ready p \<Longrightarrow> a \<le> m_number_segments (m_storage p) \<Longrightarrow> spread_to p p a a []"
  by (auto simp: spread_to_def spread_part_def spread_ready_def intro!: exI[of _ "[]"])

lemma spread_to_trans:
  assumes "spread_to p q a b xs" and "spread_to q r b c ys"
  shows "spread_to p r a c (xs @ ys)"
proof -
  let ?n = "m_number_segments (m_storage p)"
  obtain ss where ss: "spread_part p q a b b ss xs" using assms(1) by (auto simp: spread_to_def)
  obtain ts where ts: "spread_part q r b c c ts ys" using assms(2) by (auto simp: spread_to_def)
  note s = ss[unfolded spread_part_def] and t = ts[unfolded spread_part_def]
  have f: "same_frame p q" "same_frame q r" using s t by blast+
  note fd = same_frameD[OF f(1)]
  have ord: "a \<le> b" "b \<le> c" "c \<le> ?n" "b = a + length ss" "c = b + length ts" using s t fd by auto
  have left: "m_segment_sizes (m_storage r) ! u = m_segment_sizes (m_storage q) ! u \<and> seg_elems (m_storage r) u = seg_elems (m_storage q) u
      \<and> get_separator_key (m_index r) u = get_separator_key (m_index q) u" if "u < b" "u < ?n" for u
    using t that fd by auto
  have elems: "concat (map (seg_elems (m_storage r)) [a..<b]) = xs"
  proof -
    have "map (seg_elems (m_storage r)) [a..<b] = map (seg_elems (m_storage q)) [a..<b]" using left ord by (intro map_cong[OF refl]) auto
    moreover have "concat (map (seg_elems (m_storage q)) [a..<b]) = xs" using s by blast
    ultimately show ?thesis by (simp only:)
  qed
  have cut: "[a..<c] = [a..<b] @ [b..<c]" using upt_add_eq_append[OF ord(1), of "c - b"] ord(2) by simp
  have "concat (map (seg_elems (m_storage r)) [b..<c]) = ys" using t by blast
  then have all: "concat (map (seg_elems (m_storage r)) [a..<c]) = xs @ ys" by (simp only: cut map_append concat_append elems)
  have "\<forall>u<?n. (a \<le> u \<and> u < c \<longrightarrow> m_segment_sizes (m_storage r) ! u = (ss @ ts) ! (u - a))
          \<and> (u < a \<or> c \<le> u \<longrightarrow> m_segment_sizes (m_storage r) ! u = m_segment_sizes (m_storage p) ! u
               \<and> seg_elems (m_storage r) u = seg_elems (m_storage p) u
               \<and> get_separator_key (m_index r) u = get_separator_key (m_index p) u)
          \<and> (a \<le> u \<and> u < c \<longrightarrow> get_separator_key (m_index r) u = Some (fst (hd (seg_elems (m_storage r) u))))"
  proof (intro allI impI)
    fix u assume u: "u < ?n"
    consider "u < a" | "a \<le> u" "u < b" | "b \<le> u" "u < c" | "c \<le> u" by linarith
    then show "(a \<le> u \<and> u < c \<longrightarrow> m_segment_sizes (m_storage r) ! u = (ss @ ts) ! (u - a))
          \<and> (u < a \<or> c \<le> u \<longrightarrow> m_segment_sizes (m_storage r) ! u = m_segment_sizes (m_storage p) ! u
               \<and> seg_elems (m_storage r) u = seg_elems (m_storage p) u
               \<and> get_separator_key (m_index r) u = get_separator_key (m_index p) u)
          \<and> (a \<le> u \<and> u < c \<longrightarrow> get_separator_key (m_index r) u = Some (fst (hd (seg_elems (m_storage r) u))))"
    proof cases
      case 1
      then have "m_segment_sizes (m_storage q) ! u = m_segment_sizes (m_storage p) ! u" "seg_elems (m_storage q) u = seg_elems (m_storage p) u"
          "get_separator_key (m_index q) u = get_separator_key (m_index p) u" using s u by blast+
      then show ?thesis using 1 left[of u] u ord(1) by simp
    next
      case 2
      then have "m_segment_sizes (m_storage q) ! u = ss ! (u - a)" "get_separator_key (m_index q) u = Some (fst (hd (seg_elems (m_storage q) u)))"
        using s u by blast+
      moreover have "u - a < length ss" using 2 ord(4) by linarith
      ultimately show ?thesis using 2 left[of u] u ord(2) by (simp add: nth_append)
    next
      case 3
      then have "m_segment_sizes (m_storage r) ! u = ts ! (u - b)" "get_separator_key (m_index r) u = Some (fst (hd (seg_elems (m_storage r) u)))"
        using t u unfolding fd by blast+
      moreover have "\<not> u - a < length ss" "u - a - length ss = u - b" using 3 ord(1,4) by linarith+
      ultimately show ?thesis using 3 ord(1) by (simp add: nth_append)
    next
      case 4
      then have "m_segment_sizes (m_storage q) ! u = m_segment_sizes (m_storage p) ! u" "seg_elems (m_storage q) u = seg_elems (m_storage p) u"
          "get_separator_key (m_index q) u = get_separator_key (m_index p) u" using s u ord(2) by (meson le_trans)+
      moreover have "m_segment_sizes (m_storage r) ! u = m_segment_sizes (m_storage q) ! u" "seg_elems (m_storage r) u = seg_elems (m_storage q) u"
          "get_separator_key (m_index r) u = get_separator_key (m_index q) u" using t u 4 unfolding fd by blast+
      ultimately show ?thesis using 4 by simp
    qed
  qed
  moreover have "same_frame p r" using same_frame_trans[OF f] .
  moreover have "index_ok (m_index r) ?n" using t fd by simp
  moreover have "\<forall>x\<in>set (ss @ ts). 0 < x \<and> x \<le> m_segment_capacity (m_storage p)" using s t fd by auto
  ultimately have "spread_part p r a c c (ss @ ts) (xs @ ys)" using ord all unfolding spread_part_def by simp
  then show ?thesis unfolding spread_to_def by blast
qed

section \<open>One segment\<close>

text \<open>Writing a run of cells that holds the segments from \<open>t\<close> to \<open>u\<close>, whose sizes are set.\<close>

lemma write_segments:
  fixes st :: Storage and n :: nat and ks vs :: "int list"
  assumes shape: "storage_shape st" and sizes: "\<forall>s<m_number_segments st. m_segment_sizes st ! s \<le> m_segment_capacity st"
    and len: "length vs = length ks" and fit: "n + length ks \<le> m_number_segments st * m_segment_capacity st"
    and s: "s < m_number_segments st"
  defines "st' \<equiv> st\<lparr>m_keys := splice (m_keys st) n ks, m_values := splice (m_values st) n vs\<rparr>"
  shows "n \<le> seg_start st s \<Longrightarrow> seg_start st s + m_segment_sizes st ! s \<le> n + length ks \<Longrightarrow>
      seg_elems st' s = take (m_segment_sizes st ! s) (drop (seg_start st s - n) (zip ks vs))"
    and "seg_start st s + m_segment_sizes st ! s \<le> n \<or> n + length ks \<le> seg_start st s \<Longrightarrow> seg_elems st' s = seg_elems st s"
proof -
  let ?z = "m_segment_sizes st ! s"
  have lens: "n + length ks \<le> length (m_keys st)" "n + length vs \<le> length (m_values st)"
    using shape fit len by (simp_all add: storage_shape_def)
  have same: "seg_start st' s = seg_start st s" "m_segment_sizes st' ! s = ?z" by (simp_all add: st'_def seg_start_def)
  have sz: "?z \<le> m_segment_capacity st" using sizes s by simp
  have "seg_start st s + ?z \<le> s * m_segment_capacity st + m_segment_capacity st" using sz by (auto simp: seg_start_def)
  then have "seg_start st s + ?z \<le> m_number_segments st * m_segment_capacity st"
    using segment_fits[OF s, of "m_segment_capacity st"] by linarith
  then have fits: "seg_start st s + ?z \<le> length (m_keys st)" "seg_start st s + ?z \<le> length (m_values st)"
    using shape by (simp_all add: storage_shape_def)
  show "seg_elems st' s = take ?z (drop (seg_start st s - n) (zip ks vs))"
    if "n \<le> seg_start st s" "seg_start st s + ?z \<le> n + length ks"
    using slice_splice_inside[OF lens(1), of "seg_start st s" ?z] slice_splice_inside[OF lens(2), of "seg_start st s" ?z] that len
    unfolding seg_elems_def seg_keys_def seg_vals_def same by (simp add: st'_def take_zip drop_zip)
  show "seg_elems st' s = seg_elems st s" if "seg_start st s + ?z \<le> n \<or> n + length ks \<le> seg_start st s"
    using slice_splice_other[OF lens(1) _ fits(1)] slice_splice_other[OF lens(2) _ fits(2)] that len
    unfolding seg_elems_def seg_keys_def seg_vals_def same by (simp add: st'_def)
qed


lemma record_insertion_frame:
  assumes "detector_ok (m_detector p)" and "segment < detector_capacity (m_detector p)"
  obtains det where "record_insertion segment r c p = Some (p\<lparr>m_detector := det\<rparr>)"
    and "detector_capacity det = detector_capacity (m_detector p)" and "detector_ok (m_detector p) \<longrightarrow> detector_ok det"
proof (cases "in_record r c")
  case False
  then show ?thesis using that[of "m_detector p"] by (simp add: record_insertion_def)
next
  case True
  then obtain d where d: "r = Some d" by (auto simp: in_record_def split: option.splits)
  obtain det where "detector_insert (m_knobs p) (m_detector p) segment (d_predecessor d) (d_successor d) = Some det"
      "detector_capacity det = detector_capacity (m_detector p)" "detector_ok (m_detector p) \<longrightarrow> detector_ok det"
    unfolding detector_insert_def by (rule detector_update_some[OF assms])
  then show ?thesis using that True d by (simp add: record_insertion_def)
qed

lemma different_starts:
  assumes "t \<noteq> s" and "m_segment_sizes st ! t \<le> m_segment_capacity st" and "z \<le> m_segment_capacity st"
    and "n = (if even s then (s + 1) * m_segment_capacity st - z else s * m_segment_capacity st)"
  shows "seg_start st t + m_segment_sizes st ! t \<le> n \<or> n + z \<le> seg_start st t"
proof -
  let ?c = "m_segment_capacity st"
  have a: "t * ?c \<le> seg_start st t" "seg_start st t + m_segment_sizes st ! t \<le> (t + 1) * ?c" using assms(2) by (auto simp: seg_start_def)
  have b: "s * ?c \<le> n" "n + z \<le> (s + 1) * ?c" using assms(3,4) by auto
  consider "t + 1 \<le> s" | "s + 1 \<le> t" using assms(1) by linarith
  then show ?thesis
  proof cases
    case 1
    then show ?thesis using a b mult_le_mono1[OF 1, of ?c] by linarith
  next
    case 2
    then show ?thesis using a b mult_le_mono1[OF 2, of ?c] by linarith
  qed
qed

lemma save_segment_ok:
  assumes ready: "spread_ready p" and s: "s < m_number_segments (m_storage p)"
    and c: "0 < c" "c \<le> m_segment_capacity (m_storage p)" "c \<le> length ks" and len: "length vs = length ks"
  obtains q where "spread_save_segment s (ks, vs) c r p = Some q" and "spread_to p q s (s + 1) (take c (zip ks vs))"
proof -
  let ?st = "m_storage p"
  let ?n = "m_number_segments ?st" and ?cap = "m_segment_capacity (m_storage p)"
  have shape: "storage_shape ?st" and idx: "index_ok (m_index p) ?n" and det: "detector_capacity (m_detector p) = ?n"
    and sizes: "\<forall>t<?n. m_segment_sizes ?st ! t \<le> ?cap"
    using ready by (auto simp: spread_ready_def)
  define n where "n = s * ?cap + (if even s then ?cap - c else 0)"
  have n: "n = (if even s then (s + 1) * ?cap - c else s * ?cap)" using c(2) by (simp add: n_def add.commute)
  have lim: "n + c \<le> ?n * ?cap" using segment_fits[OF s, of ?cap] c(2) by (simp add: n_def)
  obtain idx' where idx': "set_separator_key (m_index p) s (ks ! 0) = Some idx'" "index_ok idx' ?n"
      "\<forall>l<?n. get_separator_key idx' l = (if l = s then Some (ks ! 0) else get_separator_key (m_index p) l)"
    using static_index.set_get[OF idx s] by blast
  define st0 where "st0 = ?st\<lparr>m_segment_sizes := (m_segment_sizes ?st)[s := c]\<rparr>"
  define st' where "st' = ?st\<lparr>m_keys := splice (m_keys ?st) n (take c ks), m_values := splice (m_values ?st) n (take c vs),
    m_segment_sizes := (m_segment_sizes ?st)[s := c]\<rparr>"
  have st': "st' = st0\<lparr>m_keys := splice (m_keys st0) n (take c ks), m_values := splice (m_values st0) n (take c vs)\<rparr>"
    by (rule Storage.equality) (simp_all add: st'_def st0_def)
  have lt: "length (take c ks) = c" "length (take c vs) = c" using c(3) len by simp_all
  have sl: "s < length (m_segment_sizes ?st)" using shape s by (simp add: storage_shape_def)
  have sz1: "splice (m_segment_sizes ?st) s [c] = (m_segment_sizes ?st)[s := c]"
    using sl by (intro nth_equalityI) (auto simp: nth_splice nth_list_update nth_Cons')
  obtain det' where det': "record_insertion s r c (p\<lparr>m_index := idx', m_storage := st'\<rparr>) = Some (p\<lparr>m_index := idx', m_storage := st', m_detector := det'\<rparr>)"
      "detector_capacity det' = detector_capacity (m_detector p)" "detector_ok (m_detector p) \<longrightarrow> detector_ok det'"
    using record_insertion_frame[of "p\<lparr>m_index := idx', m_storage := st'\<rparr>" s r c] det s ready by (auto simp: spread_ready_def)
  let ?q = "p\<lparr>m_index := idx', m_storage := st', m_detector := det'\<rparr>"
  have lk: "n + c \<le> length (m_keys ?st)" "n + c \<le> length (m_values ?st)" using lim shape by (simp_all add: storage_shape_def)
  have run: "spread_save_segment s (ks, vs) c r p = Some ?q"
    using c len lk sl idx'(1) det'(1) sz1
    by (simp add: spread_save_segment_def write_elements_def write_cells_def set_separator_def set_sizes_def Let_def
        n_def[symmetric] st'_def lt del: length_take)
  have shape0: "storage_shape st0" "\<forall>t<m_number_segments st0. m_segment_sizes st0 ! t \<le> m_segment_capacity st0"
    using shape sizes c(2) by (auto simp: st0_def storage_shape_def nth_list_update[OF sl])
  have start0: "seg_start st0 s = n" "m_segment_sizes st0 ! s = c" using n sl by (simp_all add: st0_def seg_start_def)
  have w: "length (take c vs) = length (take c ks)" "n + length (take c ks) \<le> m_number_segments st0 * m_segment_capacity st0"
    using lim unfolding lt by (simp_all add: st0_def)
  have dims0: "m_number_segments st0 = ?n" "m_segment_capacity st0 = ?cap" by (simp_all add: st0_def)
  have own: "seg_elems st' s = take c (zip ks vs)"
    using write_segments(1)[OF shape0 w, of s] s start0 c(3) len by (simp add: dims0 st' take_zip)
  have other: "m_segment_sizes st' ! t = m_segment_sizes ?st ! t \<and> seg_elems st' t = seg_elems ?st t" if t: "t < ?n" "t \<noteq> s" for t
  proof -
    have "seg_start st0 t + m_segment_sizes st0 ! t \<le> n \<or> n + c \<le> seg_start st0 t"
      by (rule different_starts[OF t(2)]) (use n c(2) shape0(2) t(1) in \<open>simp_all add: dims0\<close>)
    then have "seg_elems st' t = seg_elems st0 t"
      using write_segments(2)[OF shape0 w, of t] t(1) c(3) by (simp add: dims0 st')
    moreover have "seg_elems st0 t = seg_elems ?st t" using t(2) by (simp add: st0_def seg_elems_def seg_keys_def seg_vals_def seg_start_def)
    ultimately show ?thesis using t(2) by (simp add: st'_def)
  qed
  have frame: "same_frame p ?q"
    using det' lk c(3) len by (simp add: same_frame_def dims_def st'_def)
  have key: "ks ! 0 = fst (hd (seg_elems st' s))"
    using own c(1,3) len by (cases ks; cases vs; cases c) auto
  have "spread_part p ?q s (s + 1) (s + 1) [c] (take c (zip ks vs))"
    unfolding spread_part_def using frame idx' s c own other key sl by (auto simp: st'_def le_less_Suc_eq)
  then show ?thesis using that run by (auto simp: spread_to_def)
qed


section \<open>Several segments\<close>

lemma record_position_less:
  assumes "0 < wl" and "wl \<le> c" and "pos < c"
  shows "record_position (c div wl) (c mod wl) pos < wl"
proof -
  let ?q = "c div wl" and ?o = "c mod wl"
  have q: "0 < ?q" using assms(1,2) by (simp add: div_greater_zero_iff)
  have o: "?o < wl" using assms(1) by simp
  have c: "c = ?o * (?q + 1) + (wl - ?o) * ?q"
  proof -
    have "?o * (?q + 1) + (wl - ?o) * ?q = (?o + (wl - ?o)) * ?q + ?o" by (simp add: distrib_right)
    also have "\<dots> = c" using o by simp
    finally show ?thesis by simp
  qed
  show ?thesis
  proof (cases "pos < ?o * (?q + 1)")
    case True
    then have "pos div (?q + 1) < ?o" by (simp add: less_mult_imp_div_less)
    then show ?thesis using True o by (simp add: record_position_def Let_def)
  next
    case False
    then have "pos - ?o * (?q + 1) < (wl - ?o) * ?q" using c assms(3) by linarith
    then have "(pos - ?o * (?q + 1)) div ?q < wl - ?o" by (simp add: less_mult_imp_div_less)
    then show ?thesis using False by (simp add: record_position_def Let_def)
  qed
qed

text \<open>The sizes of the segments of a partition.\<close>

definition even_sizes :: "nat \<Rightarrow> nat \<Rightarrow> nat list" where
  "even_sizes c wl = replicate (c mod wl) (c div wl + 1) @ replicate (wl - c mod wl) (c div wl)"

lemma even_sizes:
  assumes "0 < wl"
  shows "length (even_sizes c wl) = wl" and "sum_list (even_sizes c wl) = c"
    and "j < wl \<Longrightarrow> even_sizes c wl ! j = c div wl + (if j < c mod wl then 1 else 0)"
proof -
  have o: "c mod wl < wl" using assms by simp
  show "length (even_sizes c wl) = wl" using o by (simp add: even_sizes_def)
  have "c mod wl * (c div wl + 1) + (wl - c mod wl) * (c div wl) = (c mod wl + (wl - c mod wl)) * (c div wl) + c mod wl"
    by (simp add: distrib_right)
  then show "sum_list (even_sizes c wl) = c" using o by (simp add: even_sizes_def sum_list_replicate)
  show "j < wl \<Longrightarrow> even_sizes c wl ! j = c div wl + (if j < c mod wl then 1 else 0)" using o by (simp add: even_sizes_def nth_append)
qed

lemma even_sizes_bounds:
  assumes "0 < wl" and "wl \<le> c" and "c \<le> wl * cap" and "x \<in> set (even_sizes c wl)"
  shows "0 < x" and "x \<le> cap" and "c div wl + (if 0 < c mod wl then 1 else 0) \<le> cap"
proof -
  have q: "0 < c div wl" using assms(1,2) by (simp add: div_greater_zero_iff)
  show b: "c div wl + (if 0 < c mod wl then 1 else 0) \<le> cap"
  proof (cases "c mod wl = 0")
    case True
    then show ?thesis using assms(1) div_le_mono[OF assms(3), of wl] by simp
  next
    case False
    have "wl * (c div wl) + c mod wl = c" by simp
    then have "wl * (c div wl) < wl * cap" using assms(3) False by linarith
    then show ?thesis using False by simp
  qed
  show "0 < x" using assms(4) q by (auto simp: even_sizes_def)
  show "x \<le> cap" using assms(4) b by (auto simp: even_sizes_def split: if_splits)
qed

text \<open>A pair of adjacent segments, the first one even, is one run of cells.\<close>

lemma save_pair:
  assumes part: "spread_part p0 p a t b ss xs" and ready: "spread_ready p0" and t: "even t" "t + 1 < b" "a \<le> t"
    and cl: "cl = ss ! (t - a)" and cr: "cr = ss ! (t + 1 - a)" and len: "length vs = length ks" "cl + cr \<le> length ks"
  obtains q q1 q2 where "set_separator t (ks ! 0) p = Some q1" and "set_separator (t + 1) (ks ! cl) q1 = Some q2"
    and "write_elements ((t + 1) * m_segment_capacity (m_storage p) - cl) (cl + cr) (ks, vs) q2 = Some q"
    and "spread_part p0 q a (t + 2) b ss (xs @ take (cl + cr) (zip ks vs))" and "cl < length ks"
proof -
  let ?st = "m_storage p"
  let ?n = "m_number_segments (m_storage p0)" and ?cap = "m_segment_capacity (m_storage p0)"
  note s = part[unfolded spread_part_def]
  have f: "same_frame p0 p" using s by blast
  note fd = same_frameD[OF f]
  have ord: "b \<le> ?n" "b = a + length ss" using s by blast+
  have cin: "cl \<in> set ss" "cr \<in> set ss" using t ord(2) by (auto simp: cl cr)
  have pos: "\<forall>x\<in>set ss. 0 < x \<and> x \<le> ?cap" using s by blast
  have c: "0 < cl" "cl \<le> ?cap" "0 < cr" "cr \<le> ?cap" using pos cin by blast+
  have tn: "t < ?n" "t + 1 < ?n" using t ord by linarith+
  have old: "\<forall>u<?n. (a \<le> u \<and> u < b \<longrightarrow> m_segment_sizes ?st ! u = ss ! (u - a))" using s by blast
  have zt: "m_segment_sizes ?st ! t = cl" "m_segment_sizes ?st ! (t + 1) = cr" using old t tn by (simp_all add: cl cr)
  have rdy: "spread_ready p" using spread_part_ready[OF ready part] .
  then have shape: "storage_shape ?st" and sizes: "\<forall>u<m_number_segments ?st. m_segment_sizes ?st ! u \<le> m_segment_capacity ?st"
    by (simp_all add: spread_ready_def)
  have idx: "index_ok (m_index p) ?n" using s by blast
  define n where "n = (t + 1) * ?cap - cl"
  have st_t: "seg_start ?st t = n" "seg_start ?st (t + 1) = n + cl"
    using t(1) zt c(2) by (simp_all add: seg_start_def fd n_def)
  have lim: "n + (cl + cr) \<le> ?n * ?cap" using segment_fits[OF tn(2), of ?cap] c by (simp add: n_def)
  obtain i1 where i1: "set_separator_key (m_index p) t (ks ! 0) = Some i1" "index_ok i1 ?n"
      "\<forall>l<?n. get_separator_key i1 l = (if l = t then Some (ks ! 0) else get_separator_key (m_index p) l)"
    using static_index.set_get[OF idx tn(1)] by blast
  obtain i2 where i2: "set_separator_key i1 (t + 1) (ks ! cl) = Some i2" "index_ok i2 ?n"
      "\<forall>l<?n. get_separator_key i2 l = (if l = t + 1 then Some (ks ! cl) else get_separator_key i1 l)"
    using static_index.set_get[OF i1(2) tn(2)] by blast
  let ?ks = "take (cl + cr) ks" and ?vs = "take (cl + cr) vs"
  have lt: "length ?ks = cl + cr" "length ?vs = cl + cr" using len by simp_all
  define st' where "st' = ?st\<lparr>m_keys := splice (m_keys ?st) n ?ks, m_values := splice (m_values ?st) n ?vs\<rparr>"
  let ?q = "p\<lparr>m_index := i2, m_storage := st'\<rparr>"
  have lk: "n + (cl + cr) \<le> length (m_keys ?st)" "n + (cl + cr) \<le> length (m_values ?st)"
    using lim shape by (simp_all add: storage_shape_def fd)
  have w: "length ?vs = length ?ks" "n + length ?ks \<le> m_number_segments ?st * m_segment_capacity ?st" using lim unfolding lt by (simp_all add: fd)
  have n0: "m_number_segments ?st = ?n" "m_segment_capacity ?st = ?cap" using fd by simp_all
  have zl: "length (zip ks vs) = length ks" using len by simp
  have e1: "seg_elems st' t = take cl (zip ks vs)"
    using write_segments(1)[OF shape sizes w, of t] tn zt st_t c unfolding n0 lt st'_def[symmetric] by (simp add: take_zip min_def)
  have e2: "seg_elems st' (t + 1) = take cr (drop cl (zip ks vs))"
    using write_segments(1)[OF shape sizes w, of "t + 1"] tn zt st_t c unfolding n0 lt st'_def[symmetric]
    by (simp add: take_zip drop_zip take_drop min_def add.commute)
  have other: "seg_elems st' u = seg_elems ?st u" if u: "u < ?n" "u \<noteq> t" "u \<noteq> t + 1" for u
  proof -
    have zu: "m_segment_sizes ?st ! u \<le> ?cap" using sizes u(1) by (simp add: fd)
    have "u * ?cap \<le> seg_start ?st u" "seg_start ?st u + m_segment_sizes ?st ! u \<le> (u + 1) * ?cap"
      using zu by (auto simp: seg_start_def fd)
    moreover have "t * ?cap \<le> n" "n + (cl + cr) \<le> (t + 2) * ?cap" using c by (simp_all add: n_def)
    moreover have "(u + 1) * ?cap \<le> t * ?cap \<or> (t + 2) * ?cap \<le> u * ?cap" 
    proof (cases "u < t")
      case True
      then show ?thesis using mult_le_mono1[of "u + 1" t ?cap] by simp
    next
      case False
      then show ?thesis using mult_le_mono1[of "t + 2" u ?cap] u(2,3) by simp
    qed
    ultimately have "seg_start ?st u + m_segment_sizes ?st ! u \<le> n \<or> n + (cl + cr) \<le> seg_start ?st u" by linarith
    then show ?thesis using write_segments(2)[OF shape sizes w, of u] u(1) unfolding n0 lt st'_def[symmetric] by simp
  qed
  have frame: "same_frame p ?q" using lk lt by (simp add: same_frame_def dims_def st'_def)
  have zl: "length (zip ks vs) = length ks" using len by simp
  have h0: "fst (hd (zip ks vs)) = ks ! 0" using len c by (cases ks; cases vs) auto
  have sep: "get_separator_key i2 t = Some (fst (hd (seg_elems st' t)))" "get_separator_key i2 (t + 1) = Some (fst (hd (seg_elems st' (t + 1))))"
    using i1(3) i2(3) tn c len h0 unfolding e1 e2 by (simp_all add: hd_drop_conv_nth)
  have cut: "[a..<t + 2] = [a..<t] @ [t, t + 1]" using t(3) by simp
  have meq: "map (seg_elems st') [a..<t] = map (seg_elems ?st) [a..<t]" using other tn by (intro map_cong[OF refl]) auto
  have xsq: "concat (map (seg_elems ?st) [a..<t]) = xs" using s by blast
  have all: "concat (map (seg_elems st') [a..<t + 2]) = xs @ take (cl + cr) (zip ks vs)"
    by (simp only: cut map_append concat_append meq xsq list.map concat.simps e1 e2 append_Nil2 take_add)
  have same: "m_segment_sizes st' = m_segment_sizes ?st" by (simp add: st'_def)
  have "\<forall>u<?n. (a \<le> u \<and> u < b \<longrightarrow> m_segment_sizes st' ! u = ss ! (u - a))
          \<and> (u < a \<or> b \<le> u \<longrightarrow> m_segment_sizes st' ! u = m_segment_sizes (m_storage p0) ! u
               \<and> seg_elems st' u = seg_elems (m_storage p0) u \<and> get_separator_key i2 u = get_separator_key (m_index p0) u)
          \<and> (a \<le> u \<and> u < t + 2 \<longrightarrow> get_separator_key i2 u = Some (fst (hd (seg_elems st' u))))"
  proof (intro allI impI)
    fix u assume u: "u < ?n"
    consider "u = t" | "u = t + 1" | "u \<noteq> t" "u \<noteq> t + 1" by blast
    then show "(a \<le> u \<and> u < b \<longrightarrow> m_segment_sizes st' ! u = ss ! (u - a))
          \<and> (u < a \<or> b \<le> u \<longrightarrow> m_segment_sizes st' ! u = m_segment_sizes (m_storage p0) ! u
               \<and> seg_elems st' u = seg_elems (m_storage p0) u \<and> get_separator_key i2 u = get_separator_key (m_index p0) u)
          \<and> (a \<le> u \<and> u < t + 2 \<longrightarrow> get_separator_key i2 u = Some (fst (hd (seg_elems st' u))))"
    proof cases
      case 1
      then show ?thesis using sep zt t by (simp add: same cl)
    next
      case 2
      then show ?thesis using sep zt t by (simp add: same cr)
    next
      case 3
      have "get_separator_key i2 u = get_separator_key (m_index p) u" "seg_elems st' u = seg_elems ?st u" using 3 u i1(3) i2(3) other by simp_all
      moreover have "a \<le> u \<and> u < t \<longrightarrow> get_separator_key (m_index p) u = Some (fst (hd (seg_elems ?st u)))" using s u by blast
      moreover have "u < a \<or> b \<le> u \<longrightarrow> m_segment_sizes ?st ! u = m_segment_sizes (m_storage p0) ! u
               \<and> seg_elems ?st u = seg_elems (m_storage p0) u \<and> get_separator_key (m_index p) u = get_separator_key (m_index p0) u" using s u by blast
      moreover have "a \<le> u \<and> u < b \<longrightarrow> m_segment_sizes ?st ! u = ss ! (u - a)" using s u by blast
      ultimately show ?thesis using 3 by (auto simp: same)
    qed
  qed
  then have "spread_part p0 ?q a (t + 2) b ss (xs @ take (cl + cr) (zip ks vs))"
    using same_frame_trans[OF f frame] i2(2) t ord pos all unfolding spread_part_def by simp
  moreover have "set_separator t (ks ! 0) p = Some (p\<lparr>m_index := i1\<rparr>)" "set_separator (t + 1) (ks ! cl) (p\<lparr>m_index := i1\<rparr>) = Some (p\<lparr>m_index := i2\<rparr>)"
    using i1(1) i2(1) by (simp_all add: set_separator_def)
  moreover have "write_elements ((t + 1) * m_segment_capacity (m_storage p) - cl) (cl + cr) (ks, vs) (p\<lparr>m_index := i2\<rparr>) = Some ?q"
    using lk len lt by (simp add: write_elements_def write_cells_def Let_def st'_def n_def fd del: length_take)
  moreover have "cl < length ks" using len c by simp
  ultimately show ?thesis using that by blast
qed


lemma save_pairs_ok:
  assumes ready: "spread_ready p0" and a: "even a" and ss: "length ss = 2 * m"
    and odd: "\<forall>j<2 * m. ss ! j = cps + (if j < od then 1 else 0)"
  shows "spread_part p0 p a (a + 2 * j) (a + 2 * m) ss xs \<Longrightarrow> j \<le> m \<Longrightarrow> length vs = length ks \<Longrightarrow>
    sum_list (drop (2 * j) ss) \<le> length ks \<Longrightarrow>
    \<exists>from' q. save_pairs a cps od (map (\<lambda>i. 2 * i + 1) [j..<m]) (ks, vs) p = Some (from', q)
      \<and> spread_part p0 q a (a + 2 * m) (a + 2 * m) ss (xs @ take (sum_list (drop (2 * j) ss)) (zip ks vs))"
proof (induction "m - j" arbitrary: j p xs ks vs)
  case 0
  then show ?case using ss by simp
next
  case (Suc k)
  have j: "j < m" using Suc.hyps(2) by simp
  define cl where "cl = ss ! (2 * j)"
  define cr where "cr = ss ! (2 * j + 1)"
  define rest where "rest = sum_list (drop (2 * (j + 1)) ss)"
  have d: "drop (2 * j) ss = cl # cr # drop (2 * (j + 1)) ss"
    using j ss Cons_nth_drop_Suc[of "2 * j" ss] Cons_nth_drop_Suc[of "2 * j + 1" ss] by (simp add: cl_def cr_def)
  have tot: "sum_list (drop (2 * j) ss) = (cl + cr) + rest" by (simp add: d rest_def)
  have n: "a + 2 * m \<le> m_number_segments (m_storage p0)" "same_frame p0 p" using Suc.prems(1) by (simp_all add: spread_part_def)
  note fd = same_frameD[OF n(2)]
  have t: "even (a + 2 * j)" "a + 2 * j + 1 < a + 2 * m" "a \<le> a + 2 * j" using a j by simp_all
  have len: "length vs = length ks" "cl + cr \<le> length ks" using Suc.prems(3,4) tot by simp_all
  have e: "cl = ss ! (a + 2 * j - a)" "cr = ss ! (a + 2 * j + 1 - a)" by (simp_all add: cl_def cr_def)
  obtain q q1 q2 where q: "set_separator (a + 2 * j) (ks ! 0) p = Some q1" "set_separator (a + 2 * j + 1) (ks ! cl) q1 = Some q2"
      "write_elements ((a + 2 * j + 1) * m_segment_capacity (m_storage p) - cl) (cl + cr) (ks, vs) q2 = Some q"
      "spread_part p0 q a (a + 2 * j + 2) (a + 2 * m) ss (xs @ take (cl + cr) (zip ks vs))" "cl < length ks"
    by (rule save_pair[OF Suc.prems(1) ready t e len])
  have "j + 1 \<le> m" "k = m - (j + 1)" using Suc.hyps(2) by simp_all
  moreover have "spread_part p0 q a (a + 2 * (j + 1)) (a + 2 * m) ss (xs @ take (cl + cr) (zip ks vs))" using q(4) by simp
  moreover have "length (drop (cl + cr) vs) = length (drop (cl + cr) ks)" "sum_list (drop (2 * (j + 1)) ss) \<le> length (drop (cl + cr) ks)"
    using len Suc.prems(4) tot by (simp_all add: rest_def)
  ultimately obtain from' r where r: "save_pairs a cps od (map (\<lambda>i. 2 * i + 1) [j + 1..<m]) (drop (cl + cr) ks, drop (cl + cr) vs) q = Some (from', r)"
      "spread_part p0 r a (a + 2 * m) (a + 2 * m) ss ((xs @ take (cl + cr) (zip ks vs)) @ take rest (zip (drop (cl + cr) ks) (drop (cl + cr) vs)))"
    using Suc.hyps(1)[of "j + 1" q "xs @ take (cl + cr) (zip ks vs)" "drop (cl + cr) vs" "drop (cl + cr) ks"] unfolding rest_def by blast
  have split: "take (sum_list (drop (2 * j) ss)) (zip ks vs) = take (cl + cr) (zip ks vs) @ take rest (zip (drop (cl + cr) ks) (drop (cl + cr) vs))"
    unfolding tot take_add by (simp add: drop_zip)
  have cards: "cps + (if 2 * j + 1 - 1 < od then 1 else 0) = cl" "cps + (if 2 * j + 1 < od then 1 else 0) = cr"
    using odd j by (simp_all add: cl_def cr_def)
  have base: "a * m_segment_capacity (m_storage q2) + (2 * j + 1) * m_segment_capacity (m_storage q2) - cl
      = (a + 2 * j + 1) * m_segment_capacity (m_storage p) - cl"
    using q(1,2) by (auto simp: set_separator_def distrib_right split: Option.bind_splits)
  have ix: "a + (2 * j + 1) - 1 = a + 2 * j" "a + (2 * j + 1) = a + 2 * j + 1" by simp_all
  have cap: "m_segment_capacity (m_storage p) = m_segment_capacity (m_storage q2)"
    using q(1,2) by (auto simp: set_separator_def split: Option.bind_splits)
  have "\<not> length ks \<le> cl" using q(5) by simp
  then have "save_pairs a cps od (map (\<lambda>i. 2 * i + 1) [j..<m]) (ks, vs) p = Some (from', r)"
    unfolding upt_conv_Cons[OF j] list.map save_pairs.simps Let_def drop_elements_def fst_conv snd_conv cards ix cap base
    using q(1-3) r(1) by (simp only: if_False bind.bind_lunit base cap add_diff_cancel_right' Suc_eq_plus1)
  then show ?case using r(2) split by auto
qed


lemma spread_save_window_run:
  fixes r :: "DetectorRecord option" and c wl :: nat
  defines "pos \<equiv> case r of Some d \<Rightarrow> record_position (c div wl) (c mod wl) (nat (d_position d)) | None \<Rightarrow> 0"
  assumes "even a" and "even wl" and "in_record r c \<Longrightarrow> pos < wl" and "record_insertion (a + pos) r c p = Some p1"
    and "c div wl + (if 0 < c mod wl then 1 else 0) \<le> m_segment_capacity (m_storage p1)"
    and "set_sizes a (even_sizes c wl) p1 = Some p2"
    and "save_pairs a (c div wl) (c mod wl) (pair_indices wl) from p2 = Some (from', q)"
  shows "spread_save_window a wl from c r p = Some q"
proof -
  have "\<not> (in_record r c \<and> wl \<le> pos)" using assms(4) by auto
  moreover have "\<not> m_segment_capacity (m_storage p1) < c div wl + (if 0 < c mod wl then 1 else 0)" using assms(6) by linarith
  moreover have "\<not> odd a" "\<not> odd wl" using assms(2,3) by simp_all
  ultimately show ?thesis using assms(5,7,8)
    unfolding spread_save_window_def Let_def pos_def[symmetric] even_sizes_def[symmetric]
    by (simp only: if_False bind.bind_lunit prod.case)
qed

lemma save_window_ok:
  assumes ready: "spread_ready p" and a: "even a" and wl: "0 < wl" "even wl" "a + wl \<le> m_number_segments (m_storage p)"
    and c: "wl \<le> c" "c \<le> wl * m_segment_capacity (m_storage p)" "c \<le> length ks" and len: "length vs = length ks"
  obtains q where "spread_save_window a wl (ks, vs) c r p = Some q" and "spread_to p q a (a + wl) (take c (zip ks vs))"
proof -
  let ?st = "m_storage p"
  let ?n = "m_number_segments ?st" and ?cap = "m_segment_capacity (m_storage p)"
  let ?pos = "case r of Some d \<Rightarrow> record_position (c div wl) (c mod wl) (nat (d_position d)) | None \<Rightarrow> 0"
  obtain m where m: "wl = 2 * m" using wl(2) by (auto elim: evenE)
  have posl: "?pos < wl" if rc: "in_record r c"
  proof -
    obtain d where d: "r = Some d" "nat (d_position d) < c" using rc by (auto simp: in_record_def split: option.splits)
    then show ?thesis using record_position_less[OF wl(1) c(1) d(2)] by simp
  qed
  obtain det where det: "record_insertion (a + ?pos) r c p = Some (p\<lparr>m_detector := det\<rparr>)"
      "detector_capacity det = detector_capacity (m_detector p)" "detector_ok (m_detector p) \<longrightarrow> detector_ok det"
  proof (cases "in_record r c")
    case True
    then have "a + ?pos < detector_capacity (m_detector p)" "detector_ok (m_detector p)" using posl wl(3) ready by (simp_all add: spread_ready_def)
    then show ?thesis using that record_insertion_frame by metis
  next
    case False
    then show ?thesis using that[of "m_detector p"] by (simp add: record_insertion_def)
  qed
  define ss where "ss = even_sizes c wl"
  have lss: "length ss = wl" "sum_list ss = c" using even_sizes(1,2)[OF wl(1)] by (simp_all add: ss_def)
  have bounds: "\<forall>x\<in>set ss. 0 < x \<and> x \<le> ?cap" "c div wl + (if 0 < c mod wl then 1 else 0) \<le> ?cap"
  proof -
    show "\<forall>x\<in>set ss. 0 < x \<and> x \<le> ?cap" using even_sizes_bounds(1,2)[OF wl(1) c(1,2)] by (simp add: ss_def)
    have "ss \<noteq> []" using lss wl(1) by auto
    then show "c div wl + (if 0 < c mod wl then 1 else 0) \<le> ?cap"
      using even_sizes_bounds(3)[OF wl(1) c(1,2), of "hd ss"] by (simp add: ss_def)
  qed
  have shape: "storage_shape ?st" using ready by (simp add: spread_ready_def)
  have fit: "a + length ss \<le> length (m_segment_sizes ?st)" using shape wl(3) lss by (simp add: storage_shape_def)
  define st1 where "st1 = ?st\<lparr>m_segment_sizes := splice (m_segment_sizes ?st) a ss\<rparr>"
  let ?p2 = "p\<lparr>m_detector := det, m_storage := st1\<rparr>"
  have s1: "m_segment_sizes st1 ! t = (if a \<le> t \<and> t < a + wl then ss ! (t - a) else m_segment_sizes ?st ! t)" if "t < ?n" for t
    using nth_splice[OF fit, of t] that shape by (simp add: st1_def storage_shape_def lss)
  have e1: "seg_elems st1 t = seg_elems ?st t" if "t < ?n" "t < a \<or> a + wl \<le> t" for t
    using s1[OF that(1)] that(2) by (auto simp: seg_elems_def seg_keys_def seg_vals_def seg_start_def st1_def)
  have part: "spread_part p ?p2 a (a + 2 * 0) (a + 2 * m) ss []"
    unfolding spread_part_def using ready bounds(1) wl(3) lss s1 e1 det fit
    by (auto simp: same_frame_def dims_def m spread_ready_def) (simp_all add: st1_def)
  have odd: "\<forall>j<2 * m. ss ! j = c div wl + (if j < c mod wl then 1 else 0)"
    using even_sizes(3)[OF wl(1)] by (simp add: ss_def m)
  have "length ss = 2 * m" using lss m by simp
  then obtain from' q where q: "save_pairs a (c div wl) (c mod wl) (map (\<lambda>i. 2 * i + 1) [0..<m]) (ks, vs) ?p2 = Some (from', q)"
      "spread_part p q a (a + 2 * m) (a + 2 * m) ss ([] @ take (sum_list (drop (2 * 0) ss)) (zip ks vs))"
    using save_pairs_ok[OF ready a _ odd part _ len] c(3) lss(2) by auto
  have sizes: "set_sizes a (even_sizes c wl) (p\<lparr>m_detector := det\<rparr>) = Some ?p2"
    using fit by (simp add: set_sizes_def write_cells_def st1_def flip: ss_def)
  have "save_pairs a (c div wl) (c mod wl) (pair_indices wl) (ks, vs) ?p2 = Some (from', q)" using q(1) by (simp add: pair_indices_def m)
  then have "spread_save_window a wl (ks, vs) c r p = Some q"
    by (intro spread_save_window_run[OF a wl(2) _ det(1) _ sizes]) (use bounds(2) posl in simp_all)
  then show ?thesis using that q(2) lss(2) m by (auto simp: spread_to_def)
qed

section \<open>The partitions of a window\<close>

text \<open>Partitions of one segment, or of an even number of segments from an even one, that have room for their
  elements and at least one element for each segment.\<close>

fun partitions_fit :: "nat \<Rightarrow> nat \<Rightarrow> Partition list \<Rightarrow> bool" where
  "partitions_fit cap segment_id [] \<longleftrightarrow> True"
| "partitions_fit cap segment_id (part # parts) \<longleftrightarrow>
     (p_segments part = 1 \<or> even segment_id \<and> even (p_segments part)) \<and> 0 < p_segments part
     \<and> p_segments part \<le> p_cardinality part \<and> p_cardinality part \<le> p_segments part * cap
     \<and> partitions_fit cap (segment_id + p_segments part) parts"

lemma spread_partition_ok:
  assumes ready: "spread_ready p" and n: "segment_id + p_segments part \<le> m_number_segments (m_storage p)"
    and fit: "partitions_fit (m_segment_capacity (m_storage p)) segment_id (part # parts)"
    and len: "length vs = length ks" "p_cardinality part \<le> length ks"
  obtains q where "(if p_segments part = 1 then spread_save_segment segment_id (ks, vs) (p_cardinality part) r p
      else spread_save_window segment_id (p_segments part) (ks, vs) (p_cardinality part) r p) = Some q"
    and "spread_to p q segment_id (segment_id + p_segments part) (take (p_cardinality part) (zip ks vs))"
proof (cases "p_segments part = 1")
  case True
  have s: "segment_id < m_number_segments (m_storage p)" "0 < p_cardinality part" "p_cardinality part \<le> m_segment_capacity (m_storage p)"
    using n fit True by simp_all
  obtain q where "spread_save_segment segment_id (ks, vs) (p_cardinality part) r p = Some q"
      "spread_to p q segment_id (segment_id + 1) (take (p_cardinality part) (zip ks vs))"
    by (rule save_segment_ok[OF ready s len(2,1)])
  then show ?thesis using that True by simp
next
  case False
  then have s: "even segment_id" "0 < p_segments part" "even (p_segments part)"
    "p_segments part \<le> p_cardinality part" "p_cardinality part \<le> p_segments part * m_segment_capacity (m_storage p)"
    using fit by simp_all
  obtain q where "spread_save_window segment_id (p_segments part) (ks, vs) (p_cardinality part) r p = Some q"
      "spread_to p q segment_id (segment_id + p_segments part) (take (p_cardinality part) (zip ks vs))"
    by (rule save_window_ok[OF ready s(1-3) n s(4,5) len(2,1)])
  then show ?thesis using that False by simp
qed

lemma spread_to_same_frame: "spread_to p q a b xs \<Longrightarrow> same_frame p q"
  by (auto simp: spread_to_def spread_part_def)

lemma spread_to_ready: "spread_ready p \<Longrightarrow> spread_to p q a b xs \<Longrightarrow> spread_ready q"
  by (auto simp: spread_to_def dest: spread_part_ready)

lemma spread_partitions_ok:
  "spread_ready p \<Longrightarrow> partitions_fit (m_segment_capacity (m_storage p)) segment_id parts \<Longrightarrow>
    segment_id + sum_list (map p_segments parts) \<le> m_number_segments (m_storage p) \<Longrightarrow>
    length vs = length ks \<Longrightarrow> sum_list (map p_cardinality parts) \<le> length ks \<Longrightarrow>
    \<exists>q. spread_partitions segment_id parts (ks, vs) r p = Some (segment_id + sum_list (map p_segments parts), q)
      \<and> spread_to p q segment_id (segment_id + sum_list (map p_segments parts)) (take (sum_list (map p_cardinality parts)) (zip ks vs))"
proof (induction parts arbitrary: segment_id ks vs r p)
  case Nil
  then show ?case by (simp add: spread_to_refl)
next
  case (Cons part parts)
  let ?n = "p_segments part" and ?c = "p_cardinality part"
  have n: "segment_id + ?n \<le> m_number_segments (m_storage p)" "?c \<le> length ks" using Cons.prems(3,5) by simp_all
  obtain p1 where p1: "(if ?n = 1 then spread_save_segment segment_id (ks, vs) ?c r p
      else spread_save_window segment_id ?n (ks, vs) ?c r p) = Some p1"
      "spread_to p p1 segment_id (segment_id + ?n) (take ?c (zip ks vs))"
    by (rule spread_partition_ok[OF Cons.prems(1) n(1) Cons.prems(2,4) n(2)])
  note fd = same_frameD[OF spread_to_same_frame[OF p1(2)]]
  define r' where "r' = (case r of
             Some d \<Rightarrow> if d_position d - int ?c < 0 then None else Some (d\<lparr>d_position := d_position d - int ?c\<rparr>)
           | None \<Rightarrow> None)"
  have pre: "partitions_fit (m_segment_capacity (m_storage p1)) (segment_id + ?n) parts"
      "segment_id + ?n + sum_list (map p_segments parts) \<le> m_number_segments (m_storage p1)"
      "length (drop ?c vs) = length (drop ?c ks)" "sum_list (map p_cardinality parts) \<le> length (drop ?c ks)"
    using Cons.prems n by (simp_all add: fd)
  obtain q where q: "spread_partitions (segment_id + ?n) parts (drop ?c ks, drop ?c vs) r' p1
        = Some (segment_id + ?n + sum_list (map p_segments parts), q)"
      "spread_to p1 q (segment_id + ?n) (segment_id + ?n + sum_list (map p_segments parts))
        (take (sum_list (map p_cardinality parts)) (zip (drop ?c ks) (drop ?c vs)))"
    using Cons.IH[OF spread_to_ready[OF Cons.prems(1) p1(2)] pre, of r'] by blast
  have "take (?c + sum_list (map p_cardinality parts)) (zip ks vs)
      = take ?c (zip ks vs) @ take (sum_list (map p_cardinality parts)) (zip (drop ?c ks) (drop ?c vs))"
    by (simp add: take_add drop_zip)
  moreover have "spread_partitions segment_id (part # parts) (ks, vs) r p = Some (segment_id + ?n + sum_list (map p_segments parts), q)"
  proof -
    have "?n \<noteq> 0" using Cons.prems(2) by simp
    then show ?thesis unfolding spread_partitions.simps Let_def drop_elements_def fst_conv snd_conv r'_def[symmetric]
      using p1(1) q(1) by (simp only: if_False bind.bind_lunit)
  qed
  ultimately show ?case using spread_to_trans[OF p1(2) q(2)] by (simp add: add.assoc)
qed

section \<open>Loading a window\<close>

lemma pair_slice:
  assumes "storage_shape st" and "even t" and "t + 1 < m_number_segments st"
    and "m_segment_sizes st ! t \<le> m_segment_capacity st" and "m_segment_sizes st ! (t + 1) \<le> m_segment_capacity st"
  defines "len \<equiv> m_segment_sizes st ! t + m_segment_sizes st ! (t + 1)" and "n \<equiv> (t + 1) * m_segment_capacity st - m_segment_sizes st ! t"
  shows "zip (take len (drop n (m_keys st))) (take len (drop n (m_values st))) = seg_elems st t @ seg_elems st (t + 1)"
    and "length (take len (drop n (m_keys st))) = len" and "length (take len (drop n (m_values st))) = len"
proof -
  let ?c = "m_segment_capacity st" and ?a = "m_segment_sizes st ! t" and ?b = "m_segment_sizes st ! (t + 1)"
  have lim: "(t + 1) * ?c + ?c \<le> m_number_segments st * ?c" using segment_fits[OF assms(3)] .
  then have l: "n + len \<le> length (m_keys st)" "n + len \<le> length (m_values st)"
    using assms(1,4,5) by (auto simp: len_def n_def storage_shape_def)
  then show "length (take len (drop n (m_keys st))) = len" "length (take len (drop n (m_values st))) = len" by simp_all
  have st: "seg_start st t = n" "seg_start st (t + 1) = n + ?a" using assms(2,4) by (simp_all add: seg_start_def n_def)
  show "zip (take len (drop n (m_keys st))) (take len (drop n (m_values st))) = seg_elems st t @ seg_elems st (t + 1)"
    unfolding seg_elems_def seg_keys_def seg_vals_def st len_def take_add using l by (simp add: add.commute len_def)
qed

text \<open>The new pair among the elements of the two segments it is loaded with.\<close>

definition insert_before :: "int \<times> int \<Rightarrow> (int \<times> int) list \<Rightarrow> (int \<times> int) list" where
  "insert_before kv xs = takeWhile (\<lambda>x. fst x < fst kv) xs @ kv # dropWhile (\<lambda>x. fst x < fst kv) xs"

definition window_elems :: "Storage \<Rightarrow> nat \<Rightarrow> nat \<Rightarrow> (int \<times> int) list" where
  "window_elems st a b = concat (map (seg_elems st) [a..<b])"

lemma window_elems_add: "a \<le> b \<Longrightarrow> b \<le> c \<Longrightarrow> window_elems st a c = window_elems st a b @ window_elems st b c"
  using upt_add_eq_append[of a b "c - b"] by (simp add: window_elems_def)

lemma window_elems_pair: "window_elems st t (t + 2) = seg_elems st t @ seg_elems st (t + 1)"
  by (simp add: window_elems_def)

lemma window_elems_refl [simp]: "window_elems st a a = []"
  by (simp add: window_elems_def)

lemma elems_window:
  assumes "a \<le> b" and "b \<le> m_number_segments st"
  shows "elems st = window_elems st 0 a @ window_elems st a b @ window_elems st b (m_number_segments st)"
  using assms window_elems_add[of 0 a b st] window_elems_add[of 0 b "m_number_segments st" st]
  by (simp add: elems_def window_elems_def)

lemma takeWhile_map_length: "length (takeWhile P (map f xs)) = length (takeWhile (\<lambda>x. P (f x)) xs)"
  by (induction xs) auto

lemma insert_unsafe_zip:
  assumes "length ks = length vs"
  obtains ks' vs' i where "spread_insert_unsafe ks vs k v = (ks', vs', i)" and "length ks' = length vs'"
    and "zip ks' vs' = insert_before (k, v) (zip ks vs)"
proof -
  let ?i = "length (takeWhile (\<lambda>x. x < k) ks)"
  have ks: "ks = map fst (zip ks vs)" using assms by simp
  have i: "?i = length (takeWhile (\<lambda>x. fst x < k) (zip ks vs))"
    using takeWhile_map_length[of "\<lambda>x. x < k" fst "zip ks vs"] unfolding ks[symmetric] .
  have le: "?i \<le> length ks" by (rule length_takeWhile_le)
  have "zip (take ?i ks @ k # drop ?i ks) (take ?i vs @ v # drop ?i vs) = insert_before (k, v) (zip ks vs)"
    unfolding zip_insert_at[OF assms le] unfolding i insert_before_def by (simp flip: takeWhile_eq_take dropWhile_eq_drop)
  then show ?thesis using that assms by (simp add: spread_insert_unsafe_def Let_def)
qed

text \<open>The state of the load after the first \<open>m\<close> pairs of the window.\<close>

definition loaded :: "RebalanceMetadata \<Rightarrow> Storage \<Rightarrow> nat \<Rightarrow> Loaded" where
  "loaded action st m = foldl (load_pair action st)
     \<lparr>l_keys = [], l_values = [], l_position = 0, l_insert_position = - 1, l_insert = md_is_insert action\<rparr>
     (map (\<lambda>i. 2 * i + 1) [0..<m])"

text \<open>The elements it holds: those of the segments, with the new pair in its own pair of segments.\<close>

definition with_insertion :: "RebalanceMetadata \<Rightarrow> Storage \<Rightarrow> nat \<Rightarrow> nat \<Rightarrow> (int \<times> int) list" where
  "with_insertion action st a b =
     (let t = nat (md_insert_segment action) - nat (md_insert_segment action) mod 2
      in if md_is_insert action \<and> a \<le> t \<and> t + 2 \<le> b
      then window_elems st a t @ insert_before (md_insert_key action, md_insert_value action) (window_elems st t (t + 2)) @ window_elems st (t + 2) b
      else window_elems st a b)"

lemma pair_of_segment:
  assumes "even a" and "int a \<le> s"
  shows "s - int a = int (2 * m + 1) \<or> s - int a = int (2 * m + 1) - 1 \<longleftrightarrow> nat s - nat s mod 2 = a + 2 * m"
proof -
  obtain S where S: "s = int S" using assms(2) by (metis nat_0_le of_nat_0_le_iff order_trans)
  obtain b where b: "a = 2 * b" using assms(1) by (auto elim: evenE)
  have "S - S mod 2 = 2 * (S div 2)" by (simp add: minus_mod_eq_mult_div)
  moreover have "S div 2 = b + m \<longleftrightarrow> S = 2 * (b + m) \<or> S = 2 * (b + m) + 1" by presburger
  ultimately show ?thesis using assms(2) unfolding S b nat_int by auto
qed

lemma even_gap:
  fixes s t u :: nat
  assumes "even t" and "even u" and "t \<le> s" and "s < t + 2"
  shows "t + 2 \<le> u \<longleftrightarrow> t < u" and "t + 2 \<le> u + 2 \<longleftrightarrow> t \<le> u" and "u \<le> s \<longleftrightarrow> u \<le> t" and "u + 2 \<le> s \<longleftrightarrow> u < t"
proof -
  obtain x where "t = 2 * x" using assms(1) by (rule evenE)
  moreover obtain y where "u = 2 * y" using assms(2) by (rule evenE)
  ultimately show "t + 2 \<le> u \<longleftrightarrow> t < u" "t + 2 \<le> u + 2 \<longleftrightarrow> t \<le> u" "u \<le> s \<longleftrightarrow> u \<le> t" "u + 2 \<le> s \<longleftrightarrow> u < t"
    using assms(3,4) by auto
qed

lemma loaded_ok:
  assumes shape: "storage_shape st" and sizes: "\<forall>t<m_number_segments st. m_segment_sizes st ! t \<le> m_segment_capacity st"
    and ev: "even (md_window_start action)" and seg: "md_is_insert action \<Longrightarrow> int (md_window_start action) \<le> md_insert_segment action"
  shows "md_window_start action + 2 * m \<le> m_number_segments st \<Longrightarrow>
    length (l_keys (loaded action st m)) = length (l_values (loaded action st m))
    \<and> zip (l_keys (loaded action st m)) (l_values (loaded action st m))
      = with_insertion action st (md_window_start action) (md_window_start action + 2 * m)
    \<and> (l_insert (loaded action st m) \<longleftrightarrow> md_is_insert action \<and> md_window_start action + 2 * m \<le> nat (md_insert_segment action))"
proof (induction m)
  case 0
  then show ?case using seg by (auto simp: loaded_def with_insertion_def Let_def)
next
  case (Suc m)
  let ?a = "md_window_start action" and ?kv = "(md_insert_key action, md_insert_value action)"
  let ?s = "nat (md_insert_segment action)"
  define t where "t = ?s - ?s mod 2"
  define u where "u = ?a + 2 * m"
  define l where "l = loaded action st m"
  have u: "even u" "u + 1 < m_number_segments st" using ev Suc.prems by (simp_all add: u_def)
  have sz: "m_segment_sizes st ! u \<le> m_segment_capacity st" "m_segment_sizes st ! (u + 1) \<le> m_segment_capacity st" using sizes u(2) by simp_all
  note pair = pair_slice[OF shape u sz]
  have IH: "length (l_keys l) = length (l_values l)" "zip (l_keys l) (l_values l) = with_insertion action st ?a u"
      "l_insert l \<longleftrightarrow> md_is_insert action \<and> u \<le> ?s"
    using Suc by (simp_all add: l_def u_def)
  have step: "loaded action st (Suc m) = load_pair action st l (2 * m + 1)" by (simp add: loaded_def l_def)
  define len where "len = m_segment_sizes st ! u + m_segment_sizes st ! (u + 1)"
  define n where "n = (u + 1) * m_segment_capacity st - m_segment_sizes st ! u"
  define ks where "ks = take len (drop n (m_keys st))"
  define vs where "vs = take len (drop n (m_values st))"
  have zip: "zip ks vs = window_elems st u (u + 2)" "length ks = length vs"
    unfolding ks_def vs_def len_def n_def window_elems_pair using pair by (simp_all only:)
  have hit: "(if md_is_insert action then md_insert_segment action - int ?a else - 1) = int (2 * m + 1)
      \<or> (if md_is_insert action then md_insert_segment action - int ?a else - 1) = int (2 * m + 1) - 1
    \<longleftrightarrow> md_is_insert action \<and> t = u"
    using pair_of_segment[OF ev, of "md_insert_segment action" m] seg unfolding t_def u_def by (cases "md_is_insert action") simp_all
  have run: "load_pair action st l (2 * m + 1) = (if md_is_insert action \<and> t = u then load_insert action ks vs l
      else l\<lparr>l_keys := l_keys l @ ks, l_values := l_values l @ vs,
             l_position := (if l_insert l then l_position l + len else l_position l)\<rparr>)"
  proof -
    have e: "?a + (2 * m + 1) - 1 = u" "u + 1 - 1 = u" "?a + (2 * m + 1) = u + 1"
      "?a * m_segment_capacity st + m_segment_capacity st * (2 * m + 1) - m_segment_sizes st ! u = n"
      by (simp_all add: u_def n_def algebra_simps)
    show ?thesis unfolding load_pair_def Let_def hit ks_def vs_def by (simp only: e len_def[symmetric])
  qed
  have uS: "?a + 2 * Suc m = u + 2" by (simp add: u_def)
  have tu: "even t" "t \<le> ?s" "?s < t + 2" by (auto simp: t_def) 
  have au: "?a \<le> u" by (simp add: u_def)
  have W: "with_insertion action st ?a b = (if md_is_insert action \<and> ?a \<le> t \<and> t + 2 \<le> b
      then window_elems st ?a t @ insert_before ?kv (window_elems st t (t + 2)) @ window_elems st (t + 2) b
      else window_elems st ?a b)" for b by (simp add: with_insertion_def Let_def t_def)
  have le: "t + 2 \<le> u \<longleftrightarrow> t < u" "t + 2 \<le> u + 2 \<longleftrightarrow> t \<le> u" "u \<le> ?s \<longleftrightarrow> u \<le> t" "u + 2 \<le> ?s \<longleftrightarrow> u < t"
    using even_gap[OF tu(1) u(1) tu(2,3)] by blast+
  show ?case
  proof (cases "md_is_insert action \<and> t = u")
    case True
    obtain ks' vs' i where i: "spread_insert_unsafe ks vs (md_insert_key action) (md_insert_value action) = (ks', vs', i)"
        "length ks' = length vs'" "zip ks' vs' = insert_before ?kv (zip ks vs)"
      by (rule insert_unsafe_zip[OF zip(2)])
    show ?thesis unfolding uS unfolding step run using True i IH zip au le
      by (simp add: load_insert_def W)
  next
    case False
    have "with_insertion action st ?a (u + 2) = with_insertion action st ?a u @ window_elems st u (u + 2)"
    proof (cases "md_is_insert action \<and> ?a \<le> t \<and> t + 2 \<le> u")
      case True
      then have "t + 2 \<le> u + 2" by linarith
      then show ?thesis using True window_elems_add[of "t + 2" u "u + 2" st] unfolding W by (simp del: add_2_eq_Suc')
    next
      case no: False
      then have "\<not> (md_is_insert action \<and> ?a \<le> t \<and> t + 2 \<le> u + 2)" using False le by auto
      then show ?thesis using no window_elems_add[of ?a u "u + 2" st] au unfolding W by (simp only: if_False append_assoc)
    qed
    moreover have "zip (l_keys l @ ks) (l_values l @ vs) = zip (l_keys l) (l_values l) @ zip ks vs" using IH(1) by simp
    moreover have "md_is_insert action \<and> u \<le> ?s \<longleftrightarrow> md_is_insert action \<and> u + 2 \<le> ?s" using False le by auto
    ultimately show ?thesis unfolding uS unfolding step run if_not_P[OF False] using IH zip by simp
  qed
qed

text \<open>A rebalance without rewiring: an aligned window, partitions for it, and the new pair, if any, in it.\<close>

definition local_action :: "RebalanceMetadata \<Rightarrow> PackedMemoryArray \<Rightarrow> bool" where
  "local_action action p \<longleftrightarrow>
     even (md_window_start action) \<and> even (md_window_length action)
     \<and> md_window_start action + md_window_length action \<le> m_number_segments (m_storage p)
     \<and> (md_is_insert action \<longrightarrow> int (md_window_start action) \<le> md_insert_segment action
          \<and> md_insert_segment action < int (md_window_start action + md_window_length action))
     \<and> partitions_fit (m_segment_capacity (m_storage p)) (md_window_start action) (md_apma_partitions action)
     \<and> sum_list (map p_segments (md_apma_partitions action)) = md_window_length action
     \<and> sum_list (map p_cardinality (md_apma_partitions action))
        = (\<Sum>s\<leftarrow>[md_window_start action..<md_window_start action + md_window_length action]. m_segment_sizes (m_storage p) ! s)
          + (if md_is_insert action then 1 else 0)"

definition counted :: "RebalanceMetadata \<Rightarrow> PackedMemoryArray \<Rightarrow> PackedMemoryArray" where
  "counted action p = (if md_is_insert action
     then p\<lparr>m_storage := (m_storage p)\<lparr>m_cardinality := u32 (m_cardinality (m_storage p) + 1)\<rparr>\<rparr> else p)"

lemma counted_simps [simp]:
  "dims (counted action p) = dims p" "m_index (counted action p) = m_index p" "m_detector (counted action p) = m_detector p"
  "m_number_segments (m_storage (counted action p)) = m_number_segments (m_storage p)"
  "m_segment_capacity (m_storage (counted action p)) = m_segment_capacity (m_storage p)"
  "m_segment_sizes (m_storage (counted action p)) = m_segment_sizes (m_storage p)"
  "seg_elems (m_storage (counted action p)) = seg_elems (m_storage p)"
  "spread_ready (counted action p) = spread_ready p"
  by (auto simp: counted_def dims_def seg_elems_def seg_keys_def seg_vals_def seg_start_def spread_ready_def storage_shape_def intro!: ext)

lemma length_insert_before [simp]: "length (insert_before kv xs) = length xs + 1"
proof -
  have "length (takeWhile (\<lambda>x. fst x < fst kv) xs @ dropWhile (\<lambda>x. fst x < fst kv) xs) = length xs" by simp
  then show ?thesis by (simp only: insert_before_def length_append length_Cons)
qed

lemma length_seg_elems_ready:
  assumes "spread_ready p" and "s < m_number_segments (m_storage p)"
  shows "length (seg_elems (m_storage p) s) = m_segment_sizes (m_storage p) ! s"
proof -
  let ?st = "m_storage p"
  have "m_segment_sizes ?st ! s \<le> m_segment_capacity ?st" using assms by (simp add: spread_ready_def)
  then have "seg_start ?st s + m_segment_sizes ?st ! s \<le> s * m_segment_capacity ?st + m_segment_capacity ?st" by (auto simp: seg_start_def)
  then have "seg_start ?st s + m_segment_sizes ?st ! s \<le> m_number_segments ?st * m_segment_capacity ?st"
    using segment_fits[OF assms(2), of "m_segment_capacity ?st"] by linarith
  then have "seg_start ?st s + m_segment_sizes ?st ! s \<le> length (m_keys ?st)" "seg_start ?st s + m_segment_sizes ?st ! s \<le> length (m_values ?st)"
    using assms(1) by (auto simp: spread_ready_def storage_shape_def)
  then show ?thesis by (simp add: seg_elems_def seg_keys_def seg_vals_def)
qed

lemma length_window_elems:
  assumes "spread_ready p" and "b \<le> m_number_segments (m_storage p)"
  shows "length (window_elems (m_storage p) a b) = (\<Sum>s\<leftarrow>[a..<b]. m_segment_sizes (m_storage p) ! s)"
proof -
  have "length (window_elems (m_storage p) a b) = (\<Sum>s\<leftarrow>[a..<b]. length (seg_elems (m_storage p) s))"
    by (simp add: window_elems_def length_concat comp_def)
  also have "\<dots> = (\<Sum>s\<leftarrow>[a..<b]. m_segment_sizes (m_storage p) ! s)"
    by (rule arg_cong[of _ _ sum_list], rule map_cong[OF refl]) (use assms length_seg_elems_ready in auto)
  finally show ?thesis .
qed

lemma length_with_insertion:
  assumes "local_action action p" and "spread_ready p"
  defines "a \<equiv> md_window_start action" and "b \<equiv> md_window_start action + md_window_length action"
  shows "length (with_insertion action (m_storage p) a b) = length (window_elems (m_storage p) a b) + (if md_is_insert action then 1 else 0)"
proof (cases "md_is_insert action")
  case False
  then show ?thesis by (simp add: with_insertion_def Let_def)
next
  case True
  define s where "s = nat (md_insert_segment action)"
  have s: "a \<le> s" "s < b" using assms(1) True by (auto simp: local_action_def s_def a_def b_def nat_less_iff le_nat_iff)
  define t where "t = s - s mod 2"
  have ev: "even a" "even b" using assms(1) by (auto simp: local_action_def a_def b_def)
  have tu: "even t" "t \<le> s" "s < t + 2" by (auto simp: t_def)
  have t: "a \<le> t" "t + 2 \<le> b" using even_gap[OF tu(1) ev(1) tu(2,3)] even_gap[OF tu(1) ev(2) tu(2,3)] s by linarith+
  then have "window_elems (m_storage p) a b = window_elems (m_storage p) a t @ window_elems (m_storage p) t (t + 2) @ window_elems (m_storage p) (t + 2) b"
    using window_elems_add[of a t b "m_storage p"] window_elems_add[of t "t + 2" b "m_storage p"] by simp
  then show ?thesis using True t by (simp add: with_insertion_def Let_def flip: s_def t_def)
qed

lemma spread_load_ok:
  assumes ready: "spread_ready p" and act: "local_action action p"
  defines "b \<equiv> md_window_start action + md_window_length action"
  obtains l where "spread_load action (m_storage p) = (l, m_storage (counted action p))"
    and "length (l_keys l) = length (l_values l)"
    and "zip (l_keys l) (l_values l) = with_insertion action (m_storage p) (md_window_start action) b"
proof -
  let ?a = "md_window_start action" and ?m = "md_window_length action div 2"
  have w: "?a + 2 * ?m = b" "even ?a" "b \<le> m_number_segments (m_storage p)"
    using act by (simp_all add: local_action_def b_def)
  have shape: "storage_shape (m_storage p)" "\<forall>t<m_number_segments (m_storage p). m_segment_sizes (m_storage p) ! t \<le> m_segment_capacity (m_storage p)"
    using ready by (simp_all add: spread_ready_def)
  have seg: "int ?a \<le> md_insert_segment action" "\<not> b \<le> nat (md_insert_segment action)" if i: "md_is_insert action"
    using act i by (auto simp: local_action_def b_def nat_less_iff)
  define l where "l = loaded action (m_storage p) ?m"
  have l: "length (l_keys l) = length (l_values l)" "zip (l_keys l) (l_values l) = with_insertion action (m_storage p) ?a b"
      "l_insert l \<longleftrightarrow> md_is_insert action \<and> b \<le> nat (md_insert_segment action)"
    using loaded_ok[OF shape w(2) seg(1), of ?m] w(1,3) unfolding l_def by simp_all
  have "\<not> l_insert l" using l(3) seg(2) by blast
  then have "spread_load action (m_storage p) = (l, m_storage (counted action p))"
    unfolding spread_load_def pair_indices_def loaded_def[symmetric] l_def[symmetric] Let_def by (simp add: counted_def)
  then show ?thesis using that l by blast
qed

text \<open>What it does: the window holds its elements again, with the new pair, in segments that are not empty.\<close>

lemma spread_local_to:
  assumes ready: "spread_ready p" and act: "local_action action p"
  defines "a \<equiv> md_window_start action" and "b \<equiv> md_window_start action + md_window_length action"
  obtains q q' where "spread_local action p = Some q'"
    and "spread_to (counted action p) q a b (with_insertion action (m_storage p) a b)"
    and "q' = q \<or> q' = q\<lparr>m_detector := clear_all (m_detector q)\<rparr>"
proof -
  obtain l where l: "spread_load action (m_storage p) = (l, m_storage (counted action p))" "length (l_keys l) = length (l_values l)"
      "zip (l_keys l) (l_values l) = with_insertion action (m_storage p) a b"
    using spread_load_ok[OF ready act] unfolding a_def b_def by blast
  have bn: "b \<le> m_number_segments (m_storage p)" using act by (simp add: local_action_def b_def)
  have "length (l_keys l) = length (zip (l_keys l) (l_values l))" using l(2) by simp
  also have "\<dots> = sum_list (map p_cardinality (md_apma_partitions action))"
    unfolding l(3) using length_with_insertion[OF act ready] length_window_elems[OF ready bn, of a] act
    by (simp add: local_action_def a_def b_def)
  finally have len: "length (l_keys l) = sum_list (map p_cardinality (md_apma_partitions action))" .
  define r where "r = (if md_is_insert action
        then Some (spread_create_detector_record (l_keys l) (md_cardinality_after action) (l_insert_position l)) else None)"
  have segs: "a + sum_list (map p_segments (md_apma_partitions action)) = b" using act by (simp add: local_action_def a_def b_def)
  have fit: "partitions_fit (m_segment_capacity (m_storage (counted action p))) a (md_apma_partitions action)"
    using act by (simp add: local_action_def a_def)
  obtain q where q: "spread_partitions a (md_apma_partitions action) (l_keys l, l_values l) r (counted action p) = Some (b, q)"
      "spread_to (counted action p) q a b (take (length (l_keys l)) (zip (l_keys l) (l_values l)))"
    using spread_partitions_ok[OF _ fit, of "l_values l" "l_keys l" r] ready bn l(2) len unfolding segs by auto
  have c: "p\<lparr>m_storage := m_storage (counted action p)\<rparr> = counted action p" by (simp add: counted_def)
  let ?q' = "if md_window_length action = m_number_segments (m_storage q) then q\<lparr>m_detector := clear_all (m_detector q)\<rparr> else q"
  have "spread_local action p = Some ?q'"
    using q(1) unfolding spread_local_def l(1) Let_def prod.case c r_def[symmetric] a_def[symmetric] by (simp add: a_def b_def)
  moreover have "?q' = q \<or> ?q' = q\<lparr>m_detector := clear_all (m_detector q)\<rparr>" by simp
  moreover have "take (length (l_keys l)) (zip (l_keys l) (l_values l)) = with_insertion action (m_storage p) a b"
    using l(2) by (simp flip: l(3))
  ultimately show ?thesis using that q(2) by (simp only:)
qed

section \<open>The array after a spread\<close>

text \<open>The array before it: its elements are in order, and the segments outside of the window are as the
  invariant of the type has them. Those of the window may be empty, as a removal may leave them.\<close>

definition spreadable :: "PackedMemoryArray \<Rightarrow> nat \<Rightarrow> nat \<Rightarrow> bool" where
  "spreadable p a b \<longleftrightarrow> spread_ready p \<and> storage_ok (m_storage p) \<and> sorted (map fst (elems (m_storage p)))
     \<and> m_cardinality (m_storage p) + 1 < 2 ^ 32 \<and> a < b \<and> b \<le> m_number_segments (m_storage p)
     \<and> (\<forall>s<m_number_segments (m_storage p). s < a \<or> b \<le> s \<longrightarrow> 0 < m_segment_sizes (m_storage p) ! s
          \<and> get_separator_key (m_index p) s = Some (hd (seg_keys (m_storage p) s)))"

lemma hd_seg_keys:
  assumes "spread_ready p" and "s < m_number_segments (m_storage p)" and "0 < m_segment_sizes (m_storage p) ! s"
  shows "hd (seg_keys (m_storage p) s) = fst (hd (seg_elems (m_storage p) s))"
proof -
  have l: "0 < length (seg_elems (m_storage p) s)" using length_seg_elems_ready[OF assms(1,2)] assms(3) by simp
  then obtain k ks v vs where "seg_keys (m_storage p) s = k # ks" "seg_vals (m_storage p) s = v # vs"
    unfolding seg_elems_def by (cases "seg_keys (m_storage p) s"; cases "seg_vals (m_storage p) s") auto
  then show ?thesis by (simp add: seg_elems_def)
qed

lemma length_elems_ready:
  assumes "spread_ready p"
  shows "length (elems (m_storage p)) = sum_list (take (m_number_segments (m_storage p)) (m_segment_sizes (m_storage p)))"
proof -
  let ?n = "m_number_segments (m_storage p)"
  have "map ((!) (m_segment_sizes (m_storage p))) [0..<?n] = take ?n (m_segment_sizes (m_storage p))"
    using assms by (intro nth_equalityI) (auto simp: spread_ready_def storage_shape_def)
  then show ?thesis using length_window_elems[OF assms order.refl, of 0] by (simp add: elems_def window_elems_def)
qed

lemma window_elems_cong:
  "(\<And>t. a \<le> t \<Longrightarrow> t < b \<Longrightarrow> seg_elems st' t = seg_elems st t) \<Longrightarrow> window_elems st' a b = window_elems st a b"
  unfolding window_elems_def by (rule arg_cong[of _ _ concat], rule map_cong[OF refl]) simp

lemma respread:
  assumes p: "spreadable p a b" and to: "spread_to (counted action p) q a b ys"
    and srt: "sorted (map fst (window_elems (m_storage p) 0 a @ ys @ window_elems (m_storage p) b (m_number_segments (m_storage p))))"
    and len: "length ys = length (window_elems (m_storage p) a b) + (if md_is_insert action then 1 else 0)"
  shows "rma_ok q" and "dims q = dims p" and "m_cardinality (m_storage q) \<noteq> 0"
    and "elems (m_storage q) = window_elems (m_storage p) 0 a @ ys @ window_elems (m_storage p) b (m_number_segments (m_storage p))"
proof -
  let ?st = "m_storage p"
  let ?n = "m_number_segments (m_storage p)"
  have ready: "spread_ready p" and ab: "a < b" "b \<le> ?n" and out: "\<And>s. s < ?n \<Longrightarrow> s < a \<or> b \<le> s \<Longrightarrow> 0 < m_segment_sizes ?st ! s
          \<and> get_separator_key (m_index p) s = Some (hd (seg_keys ?st s))"
    using p unfolding spreadable_def by blast+
  have rq: "spread_ready q" using spread_to_ready[OF _ to] ready by simp
  have frame: "same_frame (counted action p) q" by (rule spread_to_same_frame[OF to])
  note fd = same_frameD[OF frame, simplified]
  obtain ss where ss: "spread_part (counted action p) q a b b ss ys" using to by (auto simp: spread_to_def)
  note s = ss[unfolded spread_part_def, simplified]
  have outside: "m_segment_sizes (m_storage q) ! t = m_segment_sizes ?st ! t" "seg_elems (m_storage q) t = seg_elems ?st t"
      "get_separator_key (m_index q) t = get_separator_key (m_index p) t" if "t < ?n" "t < a \<or> b \<le> t" for t
    using s that by blast+
  have win: "window_elems (m_storage q) a b = ys" unfolding window_elems_def using s by blast
  have W: "window_elems (m_storage q) 0 a = window_elems ?st 0 a" "window_elems (m_storage q) b ?n = window_elems ?st b ?n"
    by (rule window_elems_cong, rule outside(2); use ab in simp)+
  show el: "elems (m_storage q) = window_elems ?st 0 a @ ys @ window_elems ?st b ?n"
    using elems_window[of a b "m_storage q"] ab by (simp add: fd W win)
  have all: "length (elems (m_storage q)) = length (elems ?st) + (if md_is_insert action then 1 else 0)"
    unfolding el using elems_window[of a b ?st] ab len by simp
  have "m_cardinality (m_storage q) = m_cardinality (m_storage (counted action p))" using frame by (simp add: same_frame_def)
  also have "\<dots> = length (elems (m_storage q))" using all length_elems[of ?st] p by (simp add: counted_def spreadable_def u32_id)
  finally have card: "m_cardinality (m_storage q) = length (elems (m_storage q))" .
  have ok: "storage_ok (m_storage q)"
    using rq card length_elems_ready[OF rq] by (simp add: storage_ok_def spread_ready_def storage_shape_def)
  have sizes: "0 < m_segment_sizes (m_storage q) ! t" if t: "t < ?n" for t
  proof (cases "t < a \<or> b \<le> t")
    case True
    then show ?thesis using outside(1)[OF t True] out[OF t True] by simp
  next
    case False
    then have "t - a < length ss" "m_segment_sizes (m_storage q) ! t = ss ! (t - a)" using s t by (auto simp: not_less)
    then show ?thesis using s nth_mem by fastforce
  qed
  have sep: "get_separator_key (m_index q) t = Some (hd (seg_keys (m_storage q) t))" if t: "t < ?n" for t
  proof -
    have h: "hd (seg_keys (m_storage q) t) = fst (hd (seg_elems (m_storage q) t))"
      using hd_seg_keys[OF rq] t sizes[OF t] by (simp add: fd)
    show ?thesis
    proof (cases "t < a \<or> b \<le> t")
      case True
      then show ?thesis using outside[OF t True] out[OF t True] h hd_seg_keys[OF ready t] by simp
    next
      case False
      then show ?thesis using s t h by (simp add: not_less)
    qed
  qed
  have ne: "m_cardinality (m_storage q) \<noteq> 0"
  proof -
    have "0 < length (seg_elems (m_storage q) a)" using length_seg_elems_ready[OF rq] sizes[of a] ab by (simp add: fd)
    then have "elems (m_storage q) \<noteq> []" using elems_split[of a "m_storage q"] ab by (auto simp: fd)
    then show ?thesis using card by simp
  qed
  then show "m_cardinality (m_storage q) \<noteq> 0" .
  have "detector_ok (m_detector p) \<longrightarrow> detector_ok (m_detector q)" using frame by (simp add: same_frame_def)
  then show "rma_ok q"
    using rq ok ne sizes sep srt el p ab by (simp add: rma_ok_def fd spread_ready_def spreadable_def)
  show "dims q = dims p" using frame by (simp add: same_frame_def)
qed

lemma mset_insert_before: "mset (insert_before kv ys) = add_mset kv (mset ys)"
proof -
  have "mset (takeWhile (\<lambda>x. fst x < fst kv) ys @ dropWhile (\<lambda>x. fst x < fst kv) ys) = mset ys" by simp
  then show ?thesis unfolding insert_before_def mset_append mset.simps by simp
qed

text \<open>The elements of the window in order again, where the new key is between those of the other segments.\<close>

lemma insert_before_sorted:
  assumes "sorted (map fst (xs @ ys @ zs))" and "\<forall>x\<in>set xs. fst x \<le> k" and "\<forall>x\<in>set zs. k \<le> fst x"
  shows "sorted (map fst (xs @ insert_before (k, v) ys @ zs))"
proof -
  have y: "sorted (map fst ys)" using assms(1) by (simp add: sorted_append)
  have m: "set (takeWhile (\<lambda>x. fst x < k) ys) \<subseteq> set ys" "set (dropWhile (\<lambda>x. fst x < k) ys) \<subseteq> set ys"
    by (auto dest: set_takeWhileD set_dropWhileD)
  have t: "\<forall>x\<in>set (takeWhile (\<lambda>x. fst x < k) ys). fst x < k" by (auto dest: set_takeWhileD)
  have d: "\<forall>x\<in>set (dropWhile (\<lambda>x. fst x < k) ys). k \<le> fst x" using y by (induction ys) auto
  have "sorted (map fst (takeWhile (\<lambda>x. fst x < k) ys @ dropWhile (\<lambda>x. fst x < k) ys))" using y by simp
  then have "sorted (map fst (insert_before (k, v) ys))"
    using t d unfolding insert_before_def map_append sorted_append by auto
  moreover have "set (insert_before (k, v) ys) = insert (k, v) (set ys)"
    using arg_cong[OF mset_insert_before[of "(k, v)" ys], of set_mset] by simp
  ultimately show ?thesis using assms unfolding map_append sorted_append by auto
qed

lemma window_split_at:
  assumes "a \<le> t" and "t + 2 \<le> b" and "b \<le> n"
  shows "window_elems st 0 a @ window_elems st a t = window_elems st 0 t" and "window_elems st (t + 2) b @ window_elems st b n = window_elems st (t + 2) n"
    and "window_elems st 0 n = window_elems st 0 t @ window_elems st t (t + 2) @ window_elems st (t + 2) n"
  using assms window_elems_add[of 0 a t st] window_elems_add[of "t + 2" b n st] window_elems_add[of 0 t n st] window_elems_add[of t "t + 2" n st]
  by simp_all

lemma elems_before_window: "elems_before st s = window_elems st 0 s"
  by (simp add: elems_before_def window_elems_def)

lemma elems_after_window: "elems_after st s = window_elems st (Suc s) (m_number_segments st)"
  by (simp add: elems_after_def window_elems_def)

lemma elems_all_window: "elems st = window_elems st 0 (m_number_segments st)"
  by (simp add: elems_def window_elems_def)

text \<open>The elements of the array with those of the window as the spread loads them.\<close>

lemma with_insertion_elems:
  assumes act: "local_action action p" and srt: "sorted (map fst (elems (m_storage p)))"
    and key: "md_is_insert action \<Longrightarrow> (\<forall>x\<in>set (elems_before (m_storage p) (nat (md_insert_segment action))). fst x \<le> md_insert_key action)
      \<and> (\<forall>x\<in>set (elems_after (m_storage p) (nat (md_insert_segment action))). md_insert_key action \<le> fst x)"
  defines "a \<equiv> md_window_start action" and "b \<equiv> md_window_start action + md_window_length action"
  defines "xs \<equiv> window_elems (m_storage p) 0 a @ with_insertion action (m_storage p) a b
    @ window_elems (m_storage p) b (m_number_segments (m_storage p))"
  shows "sorted (map fst xs)"
    and "mset xs = (if md_is_insert action then {#(md_insert_key action, md_insert_value action)#} else {#}) + mset (elems (m_storage p))"
proof -
  let ?st = "m_storage p" and ?n = "m_number_segments (m_storage p)"
  have ab: "a \<le> b" "b \<le> ?n" using act by (simp_all add: local_action_def a_def b_def)
  have "sorted (map fst xs) \<and> mset xs = (if md_is_insert action then {#(md_insert_key action, md_insert_value action)#} else {#}) + mset (elems ?st)"
  proof (cases "md_is_insert action")
    case False
    then have "xs = elems ?st" using elems_window[OF ab] by (simp add: xs_def with_insertion_def Let_def)
    then show ?thesis using False srt by simp
  next
    case True
    define s where "s = nat (md_insert_segment action)"
    define t where "t = s - s mod 2"
    have s: "a \<le> s" "s < b" using act True by (auto simp: local_action_def s_def a_def b_def nat_less_iff le_nat_iff)
    have ev: "even a" "even b" using act by (auto simp: local_action_def a_def b_def)
    have tu: "even t" "t \<le> s" "s < t + 2" by (auto simp: t_def)
    have t: "a \<le> t" "t + 2 \<le> b" using even_gap[OF tu(1) ev(1) tu(2,3)] even_gap[OF tu(1) ev(2) tu(2,3)] s by linarith+
    have xs: "xs = window_elems ?st 0 t @ insert_before (md_insert_key action, md_insert_value action) (window_elems ?st t (t + 2))
        @ window_elems ?st (t + 2) ?n"
      using window_split_at(1,2)[OF t ab(2), of ?st] True t unfolding xs_def with_insertion_def Let_def s_def[symmetric] t_def[symmetric] by simp
    have el: "elems ?st = window_elems ?st 0 t @ window_elems ?st t (t + 2) @ window_elems ?st (t + 2) ?n"
      unfolding elems_all_window by (rule window_split_at(3)[OF t ab(2)])
    have "set (window_elems ?st 0 t) \<subseteq> set (elems_before ?st s)" "set (window_elems ?st (t + 2) ?n) \<subseteq> set (elems_after ?st s)"
      using tu by (force simp: elems_before_window elems_after_window window_elems_def)+
    then have "\<forall>x\<in>set (window_elems ?st 0 t). fst x \<le> md_insert_key action" "\<forall>x\<in>set (window_elems ?st (t + 2) ?n). md_insert_key action \<le> fst x"
      using key True unfolding s_def by blast+
    then show ?thesis using insert_before_sorted srt True unfolding xs el by (simp add: mset_insert_before)
  qed
  then show "sorted (map fst xs)"
    and "mset xs = (if md_is_insert action then {#(md_insert_key action, md_insert_value action)#} else {#}) + mset (elems ?st)" by blast+
qed

lemma clear_all_ok: "detector_ok d \<Longrightarrow> detector_ok (clear_all d)"
  by (auto simp: detector_ok_def clear_all_def zero_section_ok)

lemma rma_ok_clear_all: "rma_ok p \<Longrightarrow> rma_ok (p\<lparr>m_detector := clear_all (m_detector p)\<rparr>)"
  using clear_all_ok[of "m_detector p"] by (auto simp: rma_ok_def Let_def) (simp_all add: clear_all_def detector_capacity_def)

lemma spread_local_ok:
  assumes p: "spreadable p (md_window_start action) (md_window_start action + md_window_length action)" and act: "local_action action p"
    and key: "md_is_insert action \<Longrightarrow> (\<forall>x\<in>set (elems_before (m_storage p) (nat (md_insert_segment action))). fst x \<le> md_insert_key action)
      \<and> (\<forall>x\<in>set (elems_after (m_storage p) (nat (md_insert_segment action))). md_insert_key action \<le> fst x)"
  obtains q where "spread_local action p = Some q" and "rma_ok q" and "dims q = dims p"
    and "mset (contents q) = (if md_is_insert action then {#(md_insert_key action, md_insert_value action)#} else {#}) + mset (elems (m_storage p))"
proof -
  let ?a = "md_window_start action" and ?b = "md_window_start action + md_window_length action"
  have ready: "spread_ready p" and srt: "sorted (map fst (elems (m_storage p)))" using p by (simp_all add: spreadable_def)
  obtain q q' where q: "spread_local action p = Some q'"
      "spread_to (counted action p) q ?a ?b (with_insertion action (m_storage p) ?a ?b)"
      "q' = q \<or> q' = q\<lparr>m_detector := clear_all (m_detector q)\<rparr>"
    by (rule spread_local_to[OF ready act])
  note e = with_insertion_elems[OF act srt key]
  note r = respread[OF p q(2) e(1) length_with_insertion[OF act ready]]
  have "rma_ok q'" using r(1) q(3) rma_ok_clear_all[of q] by auto
  moreover have "m_storage q' = m_storage q" using q(3) by auto
  moreover from this have "dims q' = dims p" using r(2) by (simp add: dims_def)
  ultimately show ?thesis using that q(1) r(3,4) e(2) by (simp add: contents_def)
qed

section \<open>The partitions of the adaptive rebalancing\<close>

text \<open>The partitions of a window of a power of two of segments are of one segment, or of an even number of
  segments from an even one, since the recursion halves the window.\<close>

fun partitions_aligned :: "nat \<Rightarrow> Partition list \<Rightarrow> bool" where
  "partitions_aligned segment_id [] \<longleftrightarrow> True"
| "partitions_aligned segment_id (part # parts) \<longleftrightarrow>
     (p_segments part = 1 \<or> even segment_id \<and> even (p_segments part)) \<and> partitions_aligned (segment_id + p_segments part) parts"

lemma partitions_aligned_append:
  "partitions_aligned a (ps @ qs) \<longleftrightarrow> partitions_aligned a ps \<and> partitions_aligned (a + sum_list (map p_segments ps)) qs"
  by (induction ps arbitrary: a) (auto simp: add.assoc)

lemma move_detector_info_partitions: "move_detector_info s d out = Some out' \<Longrightarrow> fst out' = fst out"
  by (auto simp: move_detector_info_def split: option.splits if_splits Option.bind_splits)

lemma emit_partitions:
  "emit ar c n out = Some out' \<Longrightarrow> fst out' = fst out @ [mk_partition c n]"
  by (auto simp: emit_def split: if_splits)

lemma power_of_two_halves:
  assumes "(2 :: nat) ^ k \<noteq> 1"
  obtains l where "k = Suc l" and "(2 :: nat) ^ k div 2 + 2 ^ k mod 2 = 2 ^ l" and "(2 :: nat) ^ k div 2 = 2 ^ l"
  using assms by (cases k) simp_all

lemma recursion_aligned:
  "k < 32 \<Longrightarrow> 2 ^ k dvd a \<Longrightarrow> recursion log2d ar start (2 ^ k) W bal c out = Some out' \<Longrightarrow>
    \<exists>ps. fst out' = fst out @ ps \<and> partitions_aligned a ps \<and> sum_list (map p_segments ps) = 2 ^ k"
proof (induction k arbitrary: a start W bal c out out')
  case 0
  then have "recursion log2d ar start 1 W bal c out = Some out'" by simp
  then obtain o1 where "emit ar c 1 out = Some o1" "fst out' = fst o1"
    unfolding recursion.simps[of log2d ar start 1]
    by (auto dest!: move_detector_info_partitions split: if_splits Option.bind_splits)
  then show ?case using emit_partitions[of ar c 1 out o1] by (simp add: mk_partition_def)
next
  case (Suc k)
  let ?n = "(2 :: nat) ^ Suc k"
  have n: "?n \<noteq> 1" "?n \<noteq> 0" "?n mod 2 ^ 32 = ?n" "?n div 2 + ?n mod 2 = 2 ^ k" "?n div 2 = 2 ^ k"
    using Suc.prems(1) power_strict_increasing[of "Suc k" 32 "2 :: nat"] by simp_all
  have ev: "even a" "even ?n" "2 ^ k dvd a" "2 ^ k dvd a + 2 ^ k" using Suc.prems(2) by (auto elim: dvd_mult_left)
  note run = Suc.prems(3)[unfolded recursion.simps[of log2d ar start "2 ^ Suc k"] n(4,5), unfolded if_not_P[OF n(1)] if_not_P[OF n(2)]]
  have whole: ?case if e: "emit ar c ?n out = Some o1" "fst out' = fst o1" for o1
    using emit_partitions[OF e(1)] e(2) ev n(3) by (intro exI[of _ "[mk_partition c ?n]"]) (simp add: mk_partition_def)
  show ?case
  proof (cases "W = []")
    case True
    then have "emit ar c ?n out = Some out'" using run by simp
    then show ?thesis using whole by blast
  next
    case W: False
    show ?thesis
    proof (cases "?n = 2 \<and> length W = 1 \<and> m_length (W ! 0) = ar_segment_capacity ar")
      case True
      then obtain o1 o2 where "emit ar c ?n out = Some o1" "move_detector_info (m_associated_segment (W ! 0)) start o1 = Some o2"
          "move_detector_info (m_associated_segment (W ! 0)) (start + 1) o2 = Some out'"
        using run W by (auto split: Option.bind_splits)
      then show ?thesis using whole[of o1] by (auto dest!: move_detector_info_partitions)
    next
      case False
      obtain U V bl br cl cr o1 where "recursion log2d ar start (2 ^ k) U bl cl out = Some o1"
          and "recursion log2d ar (start + 2 ^ k) (2 ^ k) V br cr o1 = Some out'"
        using run[unfolded if_not_P[OF W] if_not_P[OF False]] by (auto simp: Let_def split: Option.bind_splits)
      moreover from this obtain ps qs where "fst o1 = fst out @ ps" "partitions_aligned a ps" "sum_list (map p_segments ps) = 2 ^ k"
          "fst out' = fst o1 @ qs" "partitions_aligned (a + 2 ^ k) qs" "sum_list (map p_segments qs) = 2 ^ k"
        using Suc.IH[OF _ ev(3)] Suc.IH[OF _ ev(4)] Suc.prems(1) by (metis Suc_lessD)
      ultimately show ?thesis by (intro exI[of _ "ps @ qs"]) (simp add: partitions_aligned_append)
    qed
  qed
qed

lemma partitions_fit_aligned:
  "partitions_aligned a ps \<Longrightarrow> \<forall>p\<in>set ps. 1 \<le> p_segments p \<and> p_segments p \<le> p_cardinality p \<and> p_cardinality p \<le> p_segments p * cap \<Longrightarrow>
    partitions_fit cap a ps"
  by (induction ps arbitrary: a) auto

end
