(* ===== verification/RMA_Rebalance_Proofs.thy ===== *)
theory RMA_Rebalance_Proofs
  imports RMA_Spread_Proofs
begin

text \<open>
  The rebalance of an insertion in a full segment: the window it finds, the partitions of the window, and
  the spread of its elements, for the windows that are not rewired.
\<close>

section \<open>The window\<close>

text \<open>The sizes of the segments, the new element included.\<close>

definition sizes_with :: "Storage \<Rightarrow> nat \<Rightarrow> nat list" where
  "sizes_with st s = (m_segment_sizes st)[s := m_segment_sizes st ! s + 1]"

text \<open>The window after \<open>j\<close> steps up the tree.\<close>

definition window_at :: "PackedMemoryArray \<Rightarrow> nat \<Rightarrow> nat \<Rightarrow> Window \<Rightarrow> bool" where
  "window_at p s j w \<longleftrightarrow> win_length w = 2 ^ j \<and> win_height w = j + 1 \<and> win_id w = s div 2 ^ j
     \<and> win_start w = int (s div 2 ^ j * 2 ^ j) \<and> win_left w = win_start w - 1 \<and> win_right w = win_start w + 2 ^ j
     \<and> win_cardinality w = (\<Sum>i\<leftarrow>[s div 2 ^ j * 2 ^ j..<s div 2 ^ j * 2 ^ j + 2 ^ j]. sizes_with (m_storage p) s ! i)"

lemma window_inside:
  fixes s h j :: nat
  assumes "s < 2 ^ h" and "j \<le> h"
  shows "s div 2 ^ j * 2 ^ j \<le> s" and "s < s div 2 ^ j * 2 ^ j + 2 ^ j" and "s div 2 ^ j * 2 ^ j + 2 ^ j \<le> 2 ^ h"
proof -
  show le: "s div 2 ^ j * 2 ^ j \<le> s" by simp
  show "s < s div 2 ^ j * 2 ^ j + 2 ^ j" using mod_less_divisor[of "2 ^ j" s] div_mult_mod_eq[of s "2 ^ j"] by (metis add_strict_left_mono zero_less_numeral zero_less_power)
  obtain d where d: "(2 :: nat) ^ h = 2 ^ j * d" using assms(2) by (metis le_imp_power_dvd dvdE)
  have "s div 2 ^ j < d" using assms(1) unfolding d by (simp add: less_mult_imp_div_less mult.commute)
  then have "(s div 2 ^ j + 1) * 2 ^ j \<le> d * 2 ^ j" by (intro mult_le_mono1) simp
  then show "s div 2 ^ j * 2 ^ j + 2 ^ j \<le> 2 ^ h" unfolding d by (simp add: mult.commute add.commute)
qed

lemma upt_three: "a \<le> b \<Longrightarrow> b \<le> c \<Longrightarrow> c \<le> d \<Longrightarrow> [a..<d] = [a..<b] @ [b..<c] @ [c..<d]"
  using upt_add_eq_append[of a b "d - b"] upt_add_eq_append[of b c "d - c"] by simp

lemma sum_upto_nat:
  "(\<Sum>i\<leftarrow>[int a..int b - 1]. f (nat i)) = (\<Sum>i\<leftarrow>[a..<b]. (f i :: nat))"
proof -
  have "[int a..int b - 1] = map int [a..<b]"
  proof (induction b)
    case (Suc b)
    show ?case
    proof (cases "a \<le> b")
      case True
      then have "[int a..int (Suc b) - 1] = [int a..int b - 1] @ [int b]" using upto_rec2[of "int a" "int b"] by simp
      then show ?thesis using True Suc by simp
    qed simp
  qed simp
  then show ?thesis by (simp add: comp_def)
qed

lemma widen_window_at:
  assumes n: "m_number_segments (m_storage p) = 2 ^ h" "s < 2 ^ h" and j: "Suc j \<le> h" and w: "window_at p s j w"
    and full: "length (m_segment_sizes (m_storage p)) \<ge> 2 ^ h"
    and run: "widen_window p w = Some w'"
  shows "window_at p s (Suc j) w'"
proof -
  let ?st = "m_storage p"
  let ?a = "s div 2 ^ j * 2 ^ j" and ?A = "s div 2 ^ Suc j * 2 ^ Suc j"
  note old = window_inside[OF n(2) Suc_leD[OF j]] and new = window_inside[OF n(2) j]
  have id: "win_id w div 2 = s div 2 ^ Suc j" using w unfolding power_Suc2 div_mult2_eq by (simp add: window_at_def)
  have sub: "?A \<le> ?a" "?a + 2 ^ j \<le> ?A + 2 ^ Suc j"
  proof -
    have le: "s div 2 ^ Suc j * 2 \<le> s div 2 ^ j" "s div 2 ^ j \<le> s div 2 ^ Suc j * 2 + 1"
      unfolding power_Suc2 div_mult2_eq by simp_all
    have "s div 2 ^ Suc j * 2 * 2 ^ j \<le> s div 2 ^ j * 2 ^ j" "s div 2 ^ j * 2 ^ j \<le> (s div 2 ^ Suc j * 2 + 1) * 2 ^ j"
      using mult_le_mono1[OF le(1)] mult_le_mono1[OF le(2)] by blast+
    then show "?A \<le> ?a" "?a + 2 ^ j \<le> ?A + 2 ^ Suc j" by (simp_all add: algebra_simps)
  qed
  have len: "win_length w * 2 = 2 ^ Suc j" using w by (simp add: window_at_def)
  have start: "min (int (win_id w div 2 * 2 ^ Suc j)) (int (m_number_segments ?st) - int (2 ^ Suc j)) = int ?A"
  proof -
    have "int ?A \<le> int (2 ^ h) - int (2 ^ Suc j)" using new(3) by linarith
    then show ?thesis unfolding id n(1) by (simp only: min_def if_True)
  qed
  have lr: "win_left w = int ?a - 1" "win_right w = int (?a + 2 ^ j)" "int ?A + int (2 ^ Suc j) - 1 = int (?A + 2 ^ Suc j) - 1"
    using w by (simp_all add: window_at_def)
  define c where "c = win_cardinality w + sum_list (map (\<lambda>i. m_segment_sizes ?st ! nat i)
    ([int ?A..int ?a - 1] @ [int (?a + 2 ^ j)..int (?A + 2 ^ Suc j) - 1]))"
  have w': "win_length w' = 2 ^ Suc j" "win_height w' = Suc j + 1" "win_id w' = s div 2 ^ Suc j" "win_start w' = int ?A" "win_cardinality w' = c"
    "win_left w' = min (int ?a - 1) (int ?A - 1)" "win_right w' = max (int (?a + 2 ^ j)) (int ?A + int (2 ^ Suc j))"
    using run w unfolding widen_window_def Let_def len start unfolding id lr c_def
    by (auto simp: window_at_def split: Option.bind_splits if_splits)
  have same: "sizes_with ?st s ! i = m_segment_sizes ?st ! i" if "i < ?a \<or> ?a + 2 ^ j \<le> i" for i
  proof -
    have "i \<noteq> s" using that old(1,2) by linarith
    then show ?thesis by (simp add: sizes_with_def)
  qed
  have "c = (\<Sum>i\<leftarrow>[?a..<?a + 2 ^ j]. sizes_with ?st s ! i) + ((\<Sum>i\<leftarrow>[?A..<?a]. m_segment_sizes ?st ! i)
      + (\<Sum>i\<leftarrow>[?a + 2 ^ j..<?A + 2 ^ Suc j]. m_segment_sizes ?st ! i))"
    using w unfolding c_def window_at_def map_append sum_list_append sum_upto_nat by simp
  also have "(\<Sum>i\<leftarrow>[?A..<?a]. m_segment_sizes ?st ! i) = (\<Sum>i\<leftarrow>[?A..<?a]. sizes_with ?st s ! i)"
    by (rule arg_cong[of _ _ sum_list], rule map_cong[OF refl]) (simp add: same)
  also have "(\<Sum>i\<leftarrow>[?a + 2 ^ j..<?A + 2 ^ Suc j]. m_segment_sizes ?st ! i) = (\<Sum>i\<leftarrow>[?a + 2 ^ j..<?A + 2 ^ Suc j]. sizes_with ?st s ! i)"
    by (rule arg_cong[of _ _ sum_list], rule map_cong[OF refl]) (simp add: same)
  also have "(\<Sum>i\<leftarrow>[?a..<?a + 2 ^ j]. sizes_with ?st s ! i) + ((\<Sum>i\<leftarrow>[?A..<?a]. sizes_with ?st s ! i)
      + (\<Sum>i\<leftarrow>[?a + 2 ^ j..<?A + 2 ^ Suc j]. sizes_with ?st s ! i)) = (\<Sum>i\<leftarrow>[?A..<?A + 2 ^ Suc j]. sizes_with ?st s ! i)"
  proof -
    have "[?A..<?A + 2 ^ Suc j] = [?A..<?a] @ [?a..<?a + 2 ^ j] @ [?a + 2 ^ j..<?A + 2 ^ Suc j]"
      by (rule upt_three) (use sub in linarith)+
    then show ?thesis by simp
  qed
  finally have c: "c = (\<Sum>i\<leftarrow>[?A..<?A + 2 ^ Suc j]. sizes_with ?st s ! i)" .
  have "int ?A \<le> int ?a" "int (?a + 2 ^ j) \<le> int (?A + 2 ^ Suc j)" using sub by (simp_all only: of_nat_le_iff)
  then have "min (int ?a - 1) (int ?A - 1) = int ?A - 1" "max (int (?a + 2 ^ j)) (int ?A + int (2 ^ Suc j)) = int ?A + int (2 ^ Suc j)"
    by linarith+
  then have "win_left w' = int ?A - 1" "win_right w' = int ?A + 2 ^ Suc j" using w'(6,7) by (simp_all only: of_nat_power of_nat_numeral)
  then show ?thesis using w'(1-5) c unfolding window_at_def by (simp only: simp_thms)
qed

lemma widen_loop_at:
  assumes n: "m_number_segments (m_storage p) = 2 ^ h" "s < 2 ^ h" and full: "length (m_segment_sizes (m_storage p)) \<ge> 2 ^ h"
  shows "j \<le> h \<Longrightarrow> window_at p s j w \<Longrightarrow> widen_loop p ins w = Some w' \<Longrightarrow> \<exists>k. j \<le> k \<and> k \<le> h \<and> (j < h \<longrightarrow> j < k) \<and> window_at p s k w'"
proof (induction "h - j" arbitrary: j w)
  case 0
  have "storage_height (m_storage p) \<le> win_height w"
    using 0 n by (simp add: storage_height_def bit_len_power window_at_def)
  then have "w' = w" using 0 by (simp add: widen_loop.simps[of p ins w])
  then show ?case using 0 by auto
next
  case (Suc d)
  have j: "Suc j \<le> h" using Suc.hyps(2) by simp
  have "\<not> storage_height (m_storage p) \<le> win_height w"
    using Suc.prems(2) j n by (simp add: storage_height_def bit_len_power window_at_def)
  then obtain w1 where w1: "widen_window p w = Some w1" "widen_loop p ins w1 = Some w' \<or> w' = w1"
    using Suc.prems(3) unfolding widen_loop.simps[of p ins w] by (auto split: Option.bind_splits if_splits)
  have at: "window_at p s (Suc j) w1" by (rule widen_window_at[OF n j Suc.prems(2) full w1(1)])
  from w1(2) show ?case
  proof
    assume "widen_loop p ins w1 = Some w'"
    moreover have "d = h - Suc j" using Suc.hyps(2) by simp
    ultimately obtain k where "Suc j \<le> k" "k \<le> h" "window_at p s k w'" using Suc.hyps(1)[of "Suc j" w1] j at by blast
    then show ?thesis by (intro exI[of _ k]) simp
  next
    assume "w' = w1"
    then show ?thesis using at j by (intro exI[of _ "Suc j"]) simp
  qed
qed

text \<open>The window found for an insertion in a full segment: a power of two of segments, aligned, with that
  segment, and its cardinality that of its segments and the new element.\<close>

lemma find_window_insert:
  assumes n: "m_number_segments (m_storage p) = 2 ^ h" "0 < h" "s < 2 ^ h" and len: "length (m_segment_sizes (m_storage p)) \<ge> 2 ^ h"
    and full: "m_segment_sizes (m_storage p) ! s = m_segment_capacity (m_storage p)"
    and run: "rebalance_find_window p s True = Some (a, l, c, False)"
  obtains k where "0 < k" and "k \<le> h" and "l = 2 ^ k" and "2 ^ k dvd a" and "a \<le> s" and "s < a + l" and "a + l \<le> 2 ^ h"
    and "c = (\<Sum>i\<leftarrow>[a..<a + l]. sizes_with (m_storage p) s ! i)"
proof -
  let ?c = "m_segment_capacity (m_storage p) + 1"
  let ?w = "\<lparr>win_length = 1, win_id = s, win_start = int s, win_cardinality = ?c, win_height = 1,
               win_left = int s - 1, win_right = int s + 1, win_rho = 0, win_theta = 1,
               win_density = ddiv (d_of_nat ?c) (d_of_nat (m_segment_capacity (m_storage p)))\<rparr>"
  have "window_at p s 0 ?w" using len n full by (simp add: window_at_def sizes_with_def)
  moreover have "1 < storage_height (m_storage p)" using n by (simp add: storage_height_def bit_len_power)
  then obtain w where w: "widen_loop p True ?w = Some w" "a = nat (win_start w)" "l = win_length w" "c = win_cardinality w"
    using run n unfolding rebalance_find_window_def Let_def by (auto split: Option.bind_splits if_splits)
  ultimately obtain k where k: "k \<le> h" "0 < k" "window_at p s k w" using widen_loop_at[OF n(1,3) len, of 0 ?w True w] n(2) by blast
  have "a = s div 2 ^ k * 2 ^ k" "l = 2 ^ k" using k(3) unfolding w(2,3) window_at_def by (simp_all only: nat_int)
  then show ?thesis using that[OF k(2,1)] window_inside[OF n(3) k(1)] k(3) w by (simp add: window_at_def)
qed

section \<open>The partitions of the window\<close>

lemma scan_key_range: "scan_key keys b key start n = Some i \<Longrightarrow> start \<le> i \<and> i < start + n"
proof (induction n arbitrary: start)
  case (Suc n)
  show ?case using Suc.prems Suc.IH[of "Suc start"] by (fastforce split: if_splits)
qed simp

lemma find_position_range:
  "- 1 \<le> find_position st s key \<and> find_position st s key \<le> int (m_segment_sizes st ! s)"
proof -
  have "- 1 \<le> int i - int (if even s then m_segment_capacity st - min (m_segment_sizes st ! s) (m_segment_capacity st) else 0)
      \<and> int i - int (if even s then m_segment_capacity st - min (m_segment_sizes st ! s) (m_segment_capacity st) else 0) \<le> int (m_segment_sizes st ! s)"
    if "scan_key keys b key (if even s then m_segment_capacity st - min (m_segment_sizes st ! s) (m_segment_capacity st) else 0)
        (min (m_segment_sizes st ! s) (m_segment_capacity st)) = Some i" for keys b i
    using scan_key_range[OF that] by auto
  then show ?thesis unfolding find_position_def Let_def by (auto split: option.splits)
qed

lemma clear_section_detector: "clear_section d s = Some d' \<Longrightarrow> (detector_ok d \<longrightarrow> detector_ok d')"
  using clear_section_ok by blast

lemma detect_hammered_detector:
  "detect_hammered knobs find_key cards a thr w is = Some w' \<Longrightarrow> (detector_ok (w_detector w) \<longrightarrow> detector_ok (w_detector w'))"
proof (induction "is" arbitrary: w)
  case (Cons i "is")
  then obtain w1 where w1: "detect_segment knobs find_key cards a thr w i = Some w1"
      "detect_hammered knobs find_key cards a thr w1 is = Some w'" by (auto split: Option.bind_splits)
  have "detector_ok (w_detector w) \<longrightarrow> detector_ok (w_detector w1)"
    using w1(1) by (auto simp: detect_segment_def Let_def dest: clear_section_detector split: if_splits prod.splits Option.bind_splits)
  then show ?case using Cons.IH[OF w1(2)] by simp
qed simp

lemma remove_neutral_detector:
  "remove_neutral_from a w n = Some w' \<Longrightarrow> (detector_ok (w_detector w) \<longrightarrow> detector_ok (w_detector w'))"
  by (induction n arbitrary: w) (auto simp: Let_def dest: clear_section_detector split: if_splits Option.bind_splits)

lemma new_weights_detector:
  "new_weights knobs d sizes find_key a n = Some w \<Longrightarrow> (detector_ok d \<longrightarrow> detector_ok (w_detector w))"
  by (auto simp: new_weights_def Let_def remove_neutral_def dest!: detect_hammered_detector remove_neutral_detector split: if_splits Option.bind_splits)

lemma gather_sections_some:
  "\<forall>(src, dst)\<in>set rs. src < length buffer \<Longrightarrow>
    \<exists>xs buffer'. gather_sections modulus rs buffer = Some (xs, buffer') \<and> length buffer' = length buffer \<and> length xs = length rs
      \<and> set xs \<union> set buffer' \<subseteq> insert (zero_section modulus) (set buffer)"
proof (induction rs arbitrary: buffer)
  case (Cons r rs)
  obtain src dst where r: "r = (src, dst)" by force
  have "set (buffer[src := zero_section modulus]) \<subseteq> insert (zero_section modulus) (set buffer)" by (rule set_update_subset_insert)
  then show ?case using r Cons.prems Cons.IH[of "buffer[src := zero_section modulus]"] by fastforce
qed auto

lemma scatter_sections_some:
  "\<forall>(src, dst)\<in>set rs. dst < length buffer \<Longrightarrow> length xs = length rs \<Longrightarrow>
    \<exists>buffer'. scatter_sections rs xs buffer = Some buffer' \<and> length buffer' = length buffer
      \<and> set buffer' \<subseteq> set xs \<union> set buffer"
proof (induction rs arbitrary: buffer xs)
  case (Cons r rs)
  obtain src dst y ys where r: "r = (src, dst)" "xs = y # ys" using Cons.prems(2) by (cases r; cases xs) auto
  have "set (buffer[dst := y]) \<subseteq> insert y (set buffer)" by (rule set_update_subset_insert)
  then show ?case using r Cons.prems Cons.IH[of "buffer[dst := y]" ys] by fastforce
qed auto

lemma move_sections_some:
  assumes "\<forall>(src, dst)\<in>set (m_registered_segments i). a + src < detector_capacity d \<and> a + dst < detector_capacity d" and "a \<le> detector_capacity d"
  obtains d' where "move_sections i a d = Some d'" and "detector_capacity d' = detector_capacity d" and "detector_ok d \<longrightarrow> detector_ok d'"
proof -
  let ?rs = "m_registered_segments i"
  have b: "\<forall>(src, dst)\<in>set ?rs. src < length (drop a (m_buffer d))" "\<forall>(src, dst)\<in>set ?rs. dst < length (drop a (m_buffer d))"
    using assms(1) by (auto simp: detector_capacity_def)
  obtain xs w where g: "gather_sections (m_modulus d) ?rs (drop a (m_buffer d)) = Some (xs, w)" "length w = length (drop a (m_buffer d))" "length xs = length ?rs"
      "set xs \<union> set w \<subseteq> insert (zero_section (m_modulus d)) (set (drop a (m_buffer d)))"
    using gather_sections_some[OF b(1)] by blast
  obtain w' where w': "scatter_sections ?rs xs w = Some w'" "length w' = length w" "set w' \<subseteq> set xs \<union> set w"
    using scatter_sections_some[of ?rs w xs] b(2) g(2,3) by auto
  let ?d = "d\<lparr>m_buffer := take a (m_buffer d) @ w'\<rparr>"
  have "set (m_buffer ?d) \<subseteq> insert (zero_section (m_modulus d)) (set (m_buffer d))"
    unfolding Detector.select_convs Detector.update_convs
    using w'(3) g(4) set_take_subset[of a "m_buffer d"] set_drop_subset[of a "m_buffer d"]
    by (simp add: le_sup_iff) blast
  then have "detector_ok d \<longrightarrow> detector_ok ?d" using zero_section_ok[of "m_modulus d"] by (auto simp: detector_ok_def)
  moreover have "detector_capacity ?d = detector_capacity d" using w'(2) g(2) assms(2) by (simp add: detector_capacity_def)
  ultimately show ?thesis using that g(1) w'(1) by (simp add: move_sections_def)
qed

text \<open>The thresholds the partitions are for.\<close>

definition window_thresholds :: "PackedMemoryArray \<Rightarrow> AdaptiveRebalancing" where
  "window_thresholds p = \<lparr>ar_height = get_calibrator_tree_height (get_thresholds p),
     ar_segment_capacity = m_segment_capacity (m_storage p), ar_densities = densities (get_thresholds p)\<rparr>"

lemma weights_ordered:
  assumes "weights_ok c xs bal" and "c < 2 ^ 16"
  shows "ordered xs"
proof -
  have "sorted_wrt (\<lambda>x y. m_start x + m_length x \<le> m_start y) xs"
    using assms(1) sorted_wrt_mono_rel[of xs "\<lambda>x y. m_start x + m_length x < m_start y" "\<lambda>x y. m_start x + m_length x \<le> m_start y"]
    by (auto simp: weights_ok_def)
  moreover have "m_start x < 2 ^ 32 \<and> m_length x < 2 ^ 16" if "x \<in> set xs" for x
  proof -
    have "m_start x + m_length x \<le> c" using assms(1) that by (auto simp: weights_ok_def)
    then show ?thesis using assms(2) by simp
  qed
  ultimately show ?thesis by (simp add: ordered_def)
qed

lemma slice_of_upt: "a + l \<le> length xs \<Longrightarrow> take l (drop a xs) = map ((!) xs) [a..<a + l]"
  by (intro nth_equalityI) auto

text \<open>The weights of the window, with the new element counted in its segment.\<close>

lemma window_weights_ok:
  assumes knobs: "0 < m_rank_threshold (m_knobs p)" "m_rank_threshold (m_knobs p) \<le> 1"
    and det: "detector_capacity (m_detector p) = m_number_segments (m_storage p)" "detector_ok (m_detector p)"
    and win: "a + l \<le> m_number_segments (m_storage p)" "a + l \<le> length (m_segment_sizes (m_storage p))" "1 \<le> l" "l < 2 ^ 31"
    and c: "c = (\<Sum>i\<leftarrow>[a..<a + l]. sizes_with (m_storage p) s ! i)" "c < 2 ^ 16" "l \<le> c"
  defines "sizes \<equiv> sizes_with (m_storage p) s"
  obtains w where "new_weights (m_knobs p) (m_detector p) sizes
      (\<lambda>i. find_position ((m_storage p)\<lparr>m_segment_sizes := sizes\<rparr>) (a + i)) a l = Some w"
    and "release w = Some (w\<lparr>m_output_released := True, m_output := []\<rparr>, m_output w)"
    and "weights_ok c (m_output w) (m_balance w)" and "\<forall>x\<in>set (m_output w). 0 \<le> m_associated_segment x \<and> m_associated_segment x < int l"
    and "detector_capacity (w_detector w) = detector_capacity (m_detector p)" and "detector_ok (m_detector p) \<longrightarrow> detector_ok (w_detector w)"
proof -
  let ?st = "m_storage p"
  define cards where "cards = take l (drop a sizes)"
  define fk where "fk = (\<lambda>i. find_position (?st\<lparr>m_segment_sizes := sizes\<rparr>) (a + i))"
  have len: "a + l \<le> length sizes" using win(2) by (simp add: sizes_def sizes_with_def)
  have lc: "length cards = l" "sum_list cards = c" using len c(1) slice_of_upt[OF len] by (simp_all add: cards_def sizes_def)
  have win_ok: "window_ok fk cards"
  proof -
    have "fk i key \<le> int (cards ! i) \<and> - 1 \<le> fk i key" if "i < l" for i key
      using find_position_range[of "?st\<lparr>m_segment_sizes := sizes\<rparr>" "a + i" key] that len by (simp add: fk_def cards_def)
    then show ?thesis using lc win(3,4) c(2,3) by (auto simp: window_ok_def)
  qed
  obtain w where w: "new_weights (m_knobs p) (m_detector p) sizes fk a l = Some w" "weights_ok c (m_output w) (m_balance w)"
      "m_output_released w = False" "\<forall>x\<in>set (m_output w). 0 \<le> m_associated_segment x \<and> m_associated_segment x < int l"
      "detector_capacity (w_detector w) = detector_capacity (m_detector p)"
    by (rule new_weights_ok[OF cards_def lc(1) win_ok knobs _ detector_okD[OF det(2)], unfolded lc(2)]) (use win(1) det(1) in simp)
  have "release w = Some (w\<lparr>m_output_released := True, m_output := []\<rparr>, m_output w)" using w(3) by (simp add: release_def)
  then show ?thesis using that[OF w(1)[unfolded fk_def]] w(2,4,5) new_weights_detector[OF w(1)] by blast
qed

lemma run_apma_ok:
  assumes knobs: "0 < m_rank_threshold (m_knobs p)" "m_rank_threshold (m_knobs p) \<le> 1"
    and det: "detector_capacity (m_detector p) = m_number_segments (m_storage p)" "detector_ok (m_detector p)"
    and win: "l = 2 ^ k" "2 ^ k dvd a" "a \<le> s" "s < a + l" "a + l \<le> m_number_segments (m_storage p)" "a + l \<le> length (m_segment_sizes (m_storage p))"
    and c: "c = (\<Sum>i\<leftarrow>[a..<a + l]. sizes_with (m_storage p) s ! i)" "c < 2 ^ 16"
    and thr: "thresholds_split (e_log2 env) (window_thresholds p) l" "within_limits (e_log2 env) (window_thresholds p) l c"
    and cap: "0 < m_segment_capacity (m_storage p)"
    and act: "md_operation action = REBALANCE" "md_window_start action = a" "md_window_length action = l" "md_cardinality_after action = c"
      "md_is_insert action" "md_insert_segment action = int s"
  obtains d ps where "rebalance_run_apma env p action = Some (p\<lparr>m_detector := d\<rparr>, action\<lparr>md_apma_partitions := ps\<rparr>)"
    and "detector_capacity d = detector_capacity (m_detector p)" and "detector_ok (m_detector p) \<longrightarrow> detector_ok d"
    and "partitions_fit (m_segment_capacity (m_storage p)) a ps" and "sum_list (map p_segments ps) = l" and "sum_list (map p_cardinality ps) = c"
proof -
  let ?st = "m_storage p"
  define sizes where "sizes = sizes_with ?st s"
  have "l * 1 \<le> l * m_segment_capacity ?st" using cap by (intro mult_le_mono2) simp
  moreover have l1: "1 \<le> l" using win(1) by simp
  moreover have "l * m_segment_capacity ?st < 2 ^ 31" using thresholds_splitD(5)[OF thr(1) l1 order.refl] by (simp add: window_thresholds_def)
  ultimately have l: "1 \<le> l" "l < 2 ^ 31" by linarith+
  have lo: "l \<le> c"
  proof -
    have "int l \<le> lim_lo (e_log2 env) (window_thresholds p) l" by (rule thresholds_splitD(2)[OF thr(1) l(1) order.refl])
    then show ?thesis using thr(2) unfolding within_limits_def by linarith
  qed
  let ?fk = "\<lambda>i. find_position (?st\<lparr>m_segment_sizes := sizes\<rparr>) (a + i)"
  obtain w where w: "new_weights (m_knobs p) (m_detector p) sizes ?fk a l = Some w"
      "release w = Some (w\<lparr>m_output_released := True, m_output := []\<rparr>, m_output w)" "weights_ok c (m_output w) (m_balance w)"
      "\<forall>x\<in>set (m_output w). 0 \<le> m_associated_segment x \<and> m_associated_segment x < int l"
      "detector_capacity (w_detector w) = detector_capacity (m_detector p)" "detector_ok (m_detector p) \<longrightarrow> detector_ok (w_detector w)"
    unfolding sizes_def by (rule window_weights_ok[OF knobs det win(5,6) l c lo])
  define xs where "xs = m_output w"
  let ?w' = "w\<lparr>m_output_released := True, m_output := []\<rparr>"
  have rel: "release w = Some (?w', xs)" using w(2) by (simp add: xs_def)
  let ?i = "new_move_info\<lparr>m_registered_segments_capacity := 2 * length xs\<rparr>"
  have info: "move_info_resize new_move_info (2 * length xs) = Some ?i" by (simp add: move_info_resize_def new_move_info_def)
  have room: "info_room (Some ?i) (2 * length xs)" by (simp add: info_room_def new_move_info_def)
  obtain ps info' where ps: "adaptive_rebalancing (e_log2 env) (window_thresholds p) xs (m_balance w) l c (Some ?i) = Some (ps, info')"
      "partitions_ok (m_segment_capacity ?st) l c ps" "info_step (Some ?i) info' (2 * length xs) (m_associated_segment ` set xs) 0 l"
    using recursion_ok[OF thr(1) l(1) order.refl weights_ordered[OF w(3) c(2)] thr(2), of "([], Some ?i)" 0 "m_balance w"] room
    by (auto simp: adaptive_rebalancing_def window_thresholds_def xs_def)
  have "(2 :: nat) ^ k < 2 ^ 31" using l(2) win(1) by simp
  then have k: "k < 32" using power_less_imp_less_exp[of "2 :: nat" k 31] by simp
  have "partitions_aligned a ps"
    using recursion_aligned[OF k win(2), of "e_log2 env" "window_thresholds p" 0 xs "m_balance w" c "([], Some ?i)" "(ps, info')"] ps(1)
    by (simp add: adaptive_rebalancing_def win(1))
  then have fit: "partitions_fit (m_segment_capacity ?st) a ps" using partitions_fit_aligned ps(2) by (simp add: partitions_ok_def)
  obtain rs where rs: "info' = Some (?i\<lparr>m_registered_segments := rs\<rparr>)" "\<forall>(src, dst)\<in>set rs. dst < l \<and> int src \<in> m_associated_segment ` set xs"
    using ps(3) by (auto simp: info_step_def new_move_info_def)
  have "\<forall>(src, dst)\<in>set rs. a + src < detector_capacity (w_detector w) \<and> a + dst < detector_capacity (w_detector w)"
    using rs(2) w(4,5) win(5) det(1) by (fastforce simp: xs_def)
  then obtain d where d: "move_sections (?i\<lparr>m_registered_segments := rs\<rparr>) a (w_detector w) = Some d"
      "detector_capacity d = detector_capacity (w_detector w)" "detector_ok (w_detector w) \<longrightarrow> detector_ok d"
    using move_sections_some[of "?i\<lparr>m_registered_segments := rs\<rparr>" a "w_detector w"] w(5) win(5) det(1) by auto
  have sz: "(m_segment_sizes ?st)[s := Suc (m_segment_sizes ?st ! s)] = sizes" by (simp add: sizes_def sizes_with_def)
  have thp: "get_thresholds (p\<lparr>m_detector := x\<rparr>) = get_thresholds p" for x by (simp add: get_thresholds_def)
  have "rebalance_run_apma env p action = Some (p\<lparr>m_detector := d\<rparr>, action\<lparr>md_apma_partitions := ps\<rparr>)"
    using w(1) rel info ps(1) rs(1) d(1) act
    unfolding rebalance_run_apma_def Let_def
    by (simp add: sz set_thresholds_for_def thp flip: window_thresholds_def)
  then show ?thesis
    by (rule that) (use d(2,3) w(5,6) fit ps(2) in \<open>simp_all add: partitions_ok_def\<close>)
qed

section \<open>The rebalance\<close>

text \<open>An insertion in the full segment \<open>s\<close> that finds the window of \<open>l\<close> segments from \<open>a\<close>, not rewired, of
  \<open>c\<close> elements with the new one, and thresholds that can be split for it.\<close>

definition local_window :: "Env \<Rightarrow> PackedMemoryArray \<Rightarrow> nat \<Rightarrow> nat \<Rightarrow> nat \<Rightarrow> nat \<Rightarrow> bool" where
  "local_window env p s a l c \<longleftrightarrow> m_segment_sizes (m_storage p) ! s = m_segment_capacity (m_storage p)
     \<and> rebalance_find_window p s True = Some (a, l, c, False) \<and> l < segments_per_extent (e_page_size env) (m_storage p) \<and> c < 2 ^ 16
     \<and> (\<exists>h>0. m_number_segments (m_storage p) = 2 ^ h)
     \<and> 0 < m_rank_threshold (m_knobs p) \<and> m_rank_threshold (m_knobs p) \<le> 1
     \<and> thresholds_split (e_log2 env) (window_thresholds p) l \<and> within_limits (e_log2 env) (window_thresholds p) l c"

lemma sum_sizes_with:
  assumes "a \<le> s" and "s < a + l" and "a + l \<le> length (m_segment_sizes st)"
  shows "(\<Sum>i\<leftarrow>[a..<a + l]. sizes_with st s ! i) = (\<Sum>i\<leftarrow>[a..<a + l]. m_segment_sizes st ! i) + 1"
proof -
  have cut: "[a..<a + l] = [a..<s] @ [s..<Suc s] @ [Suc s..<a + l]" by (rule upt_three) (use assms in linarith)+
  have o: "map ((!) (sizes_with st s)) [a..<s] = map ((!) (m_segment_sizes st)) [a..<s]"
    "map ((!) (sizes_with st s)) [Suc s..<a + l] = map ((!) (m_segment_sizes st)) [Suc s..<a + l]"
    by (simp_all add: sizes_with_def)
  have "sizes_with st s ! s = m_segment_sizes st ! s + 1" using assms by (simp add: sizes_with_def)
  then show ?thesis unfolding cut map_append sum_list_append o by simp
qed

lemma rebalance_local_ok:
  assumes ok: "rma_ok p" and ne: "m_cardinality (m_storage p) \<noteq> 0" and few: "m_cardinality (m_storage p) + 1 < 2 ^ 32"
    and s: "s < m_number_segments (m_storage p)" and win: "local_window env p s a l c"
    and key: "\<forall>x\<in>set (elems_before (m_storage p) s). fst x \<le> key" "\<forall>x\<in>set (elems_after (m_storage p) s). key \<le> fst x"
  obtains q where "rebalance env p s (Some (key, val)) = Some q" and "rma_ok q" and "dims q = dims p"
    and "mset (contents q) = add_mset (key, val) (mset (contents p))"
proof -
  let ?st = "m_storage p" and ?n = "m_number_segments (m_storage p)"
  note w = win[unfolded local_window_def]
  note o = rma_okD[OF ok] and e = rma_ok_elems[OF ok ne]
  obtain h where h: "0 < h" "?n = 2 ^ h" using w by blast
  have run: "rebalance_find_window p s True = Some (a, l, c, False)" and full: "m_segment_sizes ?st ! s = m_segment_capacity ?st" using w by blast+
  have len: "2 ^ h \<le> length (m_segment_sizes ?st)" using o(1) h(2) by (simp add: storage_shape_def)
  obtain k where k: "0 < k" "k \<le> h" "l = 2 ^ k" "2 ^ k dvd a" "a \<le> s" "s < a + l" "a + l \<le> 2 ^ h"
      "c = (\<Sum>i\<leftarrow>[a..<a + l]. sizes_with ?st s ! i)"
    by (rule find_window_insert[OF h(2,1) s[unfolded h(2)] len full run])
  define action where "action = \<lparr>md_operation = REBALANCE, md_window_start = a, md_window_length = l, md_cardinality_after = c,
    md_is_insert = True, md_insert_key = key, md_insert_value = val, md_insert_segment = int s, md_apma_partitions = []\<rparr>"
  have b: "a + l \<le> ?n" "a + l \<le> length (m_segment_sizes ?st)" using k(7) h(2) len by simp_all
  obtain d ps where d: "rebalance_run_apma env p action = Some (p\<lparr>m_detector := d\<rparr>, action\<lparr>md_apma_partitions := ps\<rparr>)"
      "detector_capacity d = detector_capacity (m_detector p)" "detector_ok (m_detector p) \<longrightarrow> detector_ok d"
      "partitions_fit (m_segment_capacity ?st) a ps" "sum_list (map p_segments ps) = l" "sum_list (map p_cardinality ps) = c"
    by (rule run_apma_ok[of p l k a s c env action]) (use w o k b in \<open>simp_all add: action_def storage_shape_def\<close>)
  let ?p = "p\<lparr>m_detector := d\<rparr>" and ?action = "action\<lparr>md_apma_partitions := ps\<rparr>"
  have ev: "even a" "even l" using k(1,3,4) by (auto elim: dvd_trans[rotated])
  have c: "c = (\<Sum>i\<leftarrow>[a..<a + l]. m_segment_sizes ?st ! i) + 1" using sum_sizes_with[OF k(5,6) b(2)] k(8) by simp
  have act: "local_action ?action ?p" using d(4-6) ev b k(5,6) c by (simp add: local_action_def action_def)
  have sz: "\<forall>t<?n. m_segment_sizes ?st ! t \<le> m_segment_capacity ?st" using e(1) by (simp add: storage_ok_def)
  have pre: "spreadable ?p a (a + l)"
    using o e sz b d(2,3) k(1,3) few by (simp add: spreadable_def spread_ready_def)
  obtain q where q: "spread_local ?action ?p = Some q" "rma_ok q" "dims q = dims ?p"
      "mset (contents q) = (if md_is_insert ?action then {#(md_insert_key ?action, md_insert_value ?action)#} else {#}) + mset (elems (m_storage ?p))"
    by (rule spread_local_ok[OF _ act]) (use pre key in \<open>simp_all add: action_def\<close>)
  have "do_rebalance env ?action ?p = Some q" using q(1) w by (simp add: do_rebalance_def action_def)
  then have "rebalance env p s (Some (key, val)) = Some q"
    using run d(1) by (simp add: rebalance_def rebalance_plan_def action_def)
  then show ?thesis using that q ne by (simp add: action_def dims_def contents_def)
qed

lemma pma_insert_full:
  assumes ok: "rma_ok p" and ne: "m_cardinality (m_storage p) \<noteq> 0" and few: "m_cardinality (m_storage p) + 1 < 2 ^ 32"
    and win: "index_find (m_index p) key = Some s" "local_window env p s a l c"
  obtains q where "pma_insert env p key val = Some q" and "rma_ok q" and "dims q = dims p"
    and "mset (contents q) = add_mset (key, val) (mset (contents p))"
proof -
  obtain s' where s': "index_find (m_index p) key = Some s'" "s' < m_number_segments (m_storage p)"
      "\<forall>x\<in>set (elems_before (m_storage p) s'). fst x \<le> key" "\<forall>x\<in>set (elems_after (m_storage p) s'). key \<le> fst x"
    by (rule routed_segment[OF ok ne])
  then have s: "s' = s" using win(1) by simp
  obtain q where "rebalance env p s (Some (key, val)) = Some q" "rma_ok q" "dims q = dims p"
      "mset (contents q) = add_mset (key, val) (mset (contents p))"
    by (rule rebalance_local_ok[OF ok ne few s'(2)[unfolded s] win(2) s'(3,4)[unfolded s]])
  then show ?thesis using that win s'(2) ne s
    by (simp add: pma_insert_def pma_empty_def insert_common_def local_window_def)
qed

end
