(* ===== verification/RMA_Rebalance_Properties.thy ===== *)
theory RMA_Rebalance_Properties
  imports RMA_Rebalance_Proofs RMA_Properties
begin

text \<open>
  The property of the insertions that rebalance a window of segments.
\<close>

section \<open>Two segments, the first one full\<close>

definition two_segments :: "StaticIndex \<Rightarrow> PackedMemoryArray" where
  "two_segments idx = \<lparr>m_index = idx,
     m_storage = \<lparr>m_keys = [1, 2, 3, 4, 9, 0, 0, 0], m_values = [10, 20, 30, 40, 90, 0, 0, 0], m_segment_sizes = [4, 1],
       m_segment_capacity = 4, m_cardinality = 5, m_number_segments = 2, m_pages_per_extent = 1,
       m_memory_keys = None, m_memory_values = None, m_memory_sizes = None\<rparr>,
     m_knobs = new_knobs, m_detector = new_detector 2 8,
     m_density_bounds0 = small_bounds\<lparr>m_cached_densities := [(1 / 2, 1), (3 / 4, 3 / 4)]\<rparr>,
     m_density_bounds1 = small_bounds, m_primary_densities = False\<rparr>"

lemma two_segments_index:
  obtains idx idx' where "new_index ceil_log 7 64 2 = Some idx" and "load_keys set_separator_key idx 0 [1, 9] = Some idx'" and "index_ok idx' 2"
    and "get_separator_key idx' 0 = Some 1" and "get_separator_key idx' 1 = Some 9"
proof -
  obtain idx where idx: "new_index ceil_log 7 64 2 = Some idx" "index_ok idx 2" using new_index_ok[of 64 2 ceil_log 7] by auto
  obtain idx' where "load_keys set_separator_key idx 0 [1, 9] = Some idx'" "index_ok idx' (length [1, 9 :: int])"
      "\<forall>l < length [1, 9 :: int]. get_separator_key idx' l = Some ([1, 9] ! l)"
    using static_index.load_all[of idx "[1, 9]"] idx(2) by (auto simp: numeral_2_eq_2)
  then show ?thesis using that[OF idx(1)] by (auto simp: numeral_2_eq_2)
qed

lemma two_segments_elems: "elems (m_storage (two_segments idx)) = [(1, 10), (2, 20), (3, 30), (4, 40), (9, 90)]"
  by (simp add: elems_def seg_elems_def seg_keys_def seg_vals_def seg_start_def two_segments_def upt_rec)

lemma two_segments_ok:
  assumes "index_ok idx 2" and "get_separator_key idx 0 = Some 1" and "get_separator_key idx 1 = Some 9"
  shows "rma_ok (two_segments idx)"
proof -
  have "\<forall>s<2. 0 < [4, 1 :: nat] ! s \<and> [4, 1 :: nat] ! s \<le> 4 \<and> get_separator_key idx s = Some (hd (seg_keys (m_storage (two_segments idx)) s))"
    using assms by (auto simp: less_2_cases_iff seg_keys_def seg_start_def two_segments_def)
  then show ?thesis using assms(1) two_segments_elems[of idx] new_detector_ok[of 8 2]
    by (simp add: rma_ok_def storage_ok_def storage_shape_def two_segments_def new_detector_def detector_capacity_def)
qed

lemma two_rnd: "rnd 4 = 4" "rnd 6 = 6" "rnd 8 = 8" "rnd 3 = 3"
  using rnd_of_nat[of 4] rnd_of_nat[of 6] rnd_of_nat[of 8] rnd_of_nat[of 3] by simp_all

lemma two_segments_limits:
  "window_limits (e_log2 small_env) (window_thresholds (two_segments idx)) 1 = Some (2, 4)"
  "window_limits (e_log2 small_env) (window_thresholds (two_segments idx)) 2 = Some (6, 6)"
  by (simp_all add: small_rnd two_rnd window_limits_def get_density_def thresholds_dec_def small_env_def small_bounds_def densities_def two_segments_def
    window_thresholds_def get_thresholds_def get_calibrator_tree_height_def scaled_def dadd_def dsub_def dmul_def ddiv_def d_of_nat_def Let_def)

lemma two_segments_window: "local_window small_env (two_segments idx) 0 0 2 6"
proof -
  have "{1..2} = {1, 2 :: nat}" "{2..2} = {2 :: nat}" by auto
  then have "thresholds_split (e_log2 small_env) (window_thresholds (two_segments idx)) 2"
    using two_segments_limits[of idx]
    by (simp add: thresholds_split_def lim_lo_def lim_hi_def window_thresholds_def two_segments_def del: One_nat_def)
  moreover have "within_limits (e_log2 small_env) (window_thresholds (two_segments idx)) 2 6"
    using two_segments_limits[of idx] by (simp add: within_limits_def lim_lo_def lim_hi_def)
  moreover have "rebalance_find_window (two_segments idx) 0 True = Some (0, 2, 6, False)"
    using rnd_dyadic[of 3 2] rnd_of_nat[of 6] rnd_of_nat[of 8]
    by (simp add: rebalance_find_window_def widen_loop.simps widen_window_def two_segments_def storage_height_def bit_len.simps
      get_thresholds_at_def get_thresholds_def hyperheight_def thresholds_cached_def ceil_log.simps div_up_def ddiv_def d_of_nat_def Let_def upto.simps)
  moreover have "0 < m_rank_threshold new_knobs" "m_rank_threshold new_knobs \<le> 1"
    using rnd_positive[of "99 / 100"] rnd_mono[of "99 / 100" 1] by (simp_all add: new_knobs_def)
  ultimately show ?thesis
    by (simp add: local_window_def two_segments_def segments_per_extent_def small_env_def exI[of _ 1])
qed

section \<open>The property\<close>

text \<open>C2. An insertion into a full segment, where the rebalance finds a window of a power of two of segments that is
  smaller than an extent: it returns an array that satisfies the invariant again, of the same segments,
  ordered, with the new pair and every old one and no other. The window, its weights and partitions
  and the spread of its elements are those the code computes; the number of elements is kept in 32 bits.\<close>

theorem rma_insert_full_correct:
  assumes "rma_ok p" and "contents p \<noteq> []" and "index_find (m_index p) key = Some s" and "local_window env p s a l c"
    and "pma_size p < 2 ^ 32 - 1"
  shows "\<exists>p'. pma_insert env p key val = Some p' \<and> rma_ok p' \<and> sorted (map fst (contents p'))
    \<and> mset (contents p') = add_mset (key, val) (mset (contents p)) \<and> pma_size p' = pma_size p + 1 \<and> dims p' = dims p"
proof -
  have "m_cardinality (m_storage p) \<noteq> 0" using assms(2) by (auto simp: contents_def split: if_splits)
  then obtain q where q: "pma_insert env p key val = Some q" "rma_ok q" "dims q = dims p"
      "mset (contents q) = add_mset (key, val) (mset (contents p))"
    using pma_insert_full[OF assms(1) _ _ assms(3,4)] assms(5) unfolding pma_size_def by (metis less_diff_conv)
  have "length (contents q) = length (contents p) + 1" using arg_cong[OF q(4), of size] by simp
  moreover have "sorted (map fst (contents q))" using rma_ok_elems(2)[OF q(2)] by (simp add: contents_def)
  ultimately show ?thesis using q length_contents[OF assms(1)] length_contents[OF q(2)] by (simp add: pma_size_def)
qed

theorem rma_insert_full_correct_witness:
  "\<exists>idx idx' p'. new_index ceil_log 7 64 2 = Some idx \<and> load_keys set_separator_key idx 0 [1, 9] = Some idx'
    \<and> pma_insert small_env (two_segments idx') 5 7 = Some p' \<and> rma_ok p' \<and> dims p' = (2, 4, 1)
    \<and> mset (contents p') = {#(1, 10), (2, 20), (3, 30), (4, 40), (5, 7), (9, 90)#}"
proof -
  obtain idx idx' where idx: "new_index ceil_log 7 64 2 = Some idx" "load_keys set_separator_key idx 0 [1, 9] = Some idx'" "index_ok idx' 2"
      "get_separator_key idx' 0 = Some 1" "get_separator_key idx' 1 = Some 9"
    by (rule two_segments_index)
  note ok = two_segments_ok[OF idx(3-5)]
  have c: "contents (two_segments idx') = [(1, 10), (2, 20), (3, 30), (4, 40), (9, 90)]"
    using two_segments_elems[of idx'] by (simp add: contents_def two_segments_def)
  have "separators (m_storage (two_segments idx')) = [1, 9]"
    by (simp add: separators_def seg_keys_def seg_start_def two_segments_def upt_rec)
  then have "index_find (m_index (two_segments idx')) 5 = Some 0"
    using rma_searches(1)[OF ok, of 5] by (simp add: two_segments_def)
  then show ?thesis
    using rma_insert_full_correct[OF ok _ _ two_segments_window, of 5 7] idx(1,2) c by (auto simp: two_segments_def dims_def pma_size_def)
qed

end
