(* ===== verification/RMA_Resize_Proofs.thy ===== *)
theory RMA_Resize_Proofs
  imports RMA_Rebalance_Proofs
begin

text \<open>
  The resize that copies all the elements to new arrays: what the loop over the segments has read and
  written, and the state after it.
\<close>

section \<open>The input\<close>

definition input_elems :: "Storage \<Rightarrow> ResizeInput \<Rightarrow> (int \<times> int) list" where
  "input_elems old z = take (z_size z) (drop (z_start z) (zip (m_keys old) (m_values old)))
     @ window_elems old (Suc (z_segment_id z)) (m_number_segments old)"

text \<open>The elements still to write: those not read yet, with the new pair if it was not written.\<close>

definition pending :: "RebalanceMetadata \<Rightarrow> Storage \<Rightarrow> ResizeInput \<Rightarrow> (int \<times> int) list" where
  "pending action old z = (if z_insert z then insert_before (md_insert_key action, md_insert_value action) (input_elems old z) else input_elems old z)"

definition input_ok :: "Storage \<Rightarrow> ResizeInput \<Rightarrow> bool" where
  "input_ok old z \<longleftrightarrow> z_odd z = odd (z_segment_id z)
     \<and> (if z_size z = 0 then m_number_segments old \<le> z_segment_id z \<and> z_segment_id z \<le> m_number_segments old + 1
          \<and> (z_insert z \<longrightarrow> z_segment_id z = m_number_segments old)
        else z_segment_id z < m_number_segments old \<and> seg_start old (z_segment_id z) \<le> z_start z
          \<and> z_start z + z_size z = seg_start old (z_segment_id z) + m_segment_sizes old ! z_segment_id z)"

text \<open>The arrays that are read: no segment is empty.\<close>

definition readable :: "Storage \<Rightarrow> bool" where
  "readable old \<longleftrightarrow> storage_ok old \<and> 0 < m_number_segments old \<and> sorted (map fst (elems old)) \<and> (\<forall>t<m_number_segments old. 0 < m_segment_sizes old ! t)"

lemma resize_seg_start:
  "i * m_segment_capacity old + (if odd i then 0 else m_segment_capacity old - m_segment_sizes old ! i) = seg_start old i"
  if "m_segment_sizes old ! i \<le> m_segment_capacity old"
  using that by (simp add: seg_start_def add.commute)

lemma seg_elems_zip: "seg_elems st t = take (m_segment_sizes st ! t) (drop (seg_start st t) (zip (m_keys st) (m_values st)))"
  by (simp add: seg_elems_def seg_keys_def seg_vals_def take_zip drop_zip)

lemma resize_next_ok:
  assumes old: "readable old" and odd: "z_odd z = odd (z_segment_id z)" and id: "z_segment_id z \<le> m_number_segments old"
    and in_seg: "0 < z_size z \<Longrightarrow> input_ok old z" and ins: "z_segment_id z = m_number_segments old \<Longrightarrow> \<not> z_insert z"
  obtains z' where "resize_next old z = Some z'" and "input_ok old z'" and "input_elems old z' = input_elems old z" and "z_insert z' = z_insert z"
proof -
  let ?n = "m_number_segments old" and ?i = "z_segment_id z + 1"
  have ok: "storage_ok old" "\<And>t. t < ?n \<Longrightarrow> 0 < m_segment_sizes old ! t" using old by (auto simp: readable_def)
  consider "0 < z_size z" | "z_size z = 0" "?n \<le> ?i" | "z_size z = 0" "?i < ?n" by linarith
  then show ?thesis
  proof cases
    case 1
    then show ?thesis using that[of z] in_seg by (simp add: resize_next_def)
  next
    case 2
    have "z_insert z \<Longrightarrow> ?i = ?n" using ins id 2 by (cases "z_segment_id z = ?n") auto
    then show ?thesis using that[of "z\<lparr>z_segment_id := ?i, z_odd := \<not> z_odd z\<rparr>"] id odd 2
      by (simp add: resize_next_def Let_def input_ok_def input_elems_def window_elems_def)
  next
    case 3
    have sz: "m_segment_sizes old ! ?i \<noteq> 0" "m_segment_sizes old ! ?i \<le> m_segment_capacity old"
      using ok(2)[of ?i] storage_ok_segment(3)[OF ok(1), of ?i] 3 by simp_all
    define z' where "z' = z\<lparr>z_segment_id := ?i, z_odd := \<not> z_odd z, z_size := m_segment_sizes old ! ?i, z_start := seg_start old ?i\<rparr>"
    have run: "resize_next old z = Some z'"
      using 3 sz odd resize_seg_start[OF sz(2)] by (simp add: resize_next_def Let_def z'_def del: One_nat_def)
    have "window_elems old ?i ?n = seg_elems old ?i @ window_elems old (Suc ?i) ?n"
      using 3 by (simp add: window_elems_def upt_conv_Cons)
    then have "input_elems old z' = input_elems old z" using 3 by (simp add: input_elems_def z'_def seg_elems_zip)
    moreover have "input_ok old z'" using 3 sz odd by (simp add: input_ok_def z'_def)
    ultimately show ?thesis using that[OF run] by (simp add: z'_def)
  qed
qed

section \<open>Filling a segment\<close>

lemma splice_splice:
  assumes "n + length ms + length ns \<le> length xs"
  shows "splice (splice xs n ms) (n + length ms) ns = splice xs n (ms @ ns)"
  using assms by (intro nth_equalityI) (auto simp: nth_splice nth_append)

lemma insert_before_prefix:
  assumes "m < length ys" and "k \<le> fst (ys ! m)"
  shows "insert_before (k, v) ys = insert_before (k, v) (take m ys) @ drop m ys"
proof -
  have "dropWhile (\<lambda>x. fst x < k) ys = dropWhile (\<lambda>x. fst x < k) (take m ys) @ drop m ys"
    and "takeWhile (\<lambda>x. fst x < k) ys = takeWhile (\<lambda>x. fst x < k) (take m ys)"
  proof -
    have d: "drop m ys = ys ! m # drop (Suc m) ys" using assms(1) by (simp add: Cons_nth_drop_Suc)
    have y: "ys = take m ys @ drop m ys" by simp
    show "dropWhile (\<lambda>x. fst x < k) ys = dropWhile (\<lambda>x. fst x < k) (take m ys) @ drop m ys"
      by (subst y, cases "\<forall>x\<in>set (take m ys). fst x < k") (use assms(2) d in \<open>auto simp: dropWhile_append1 dropWhile_append2 dropWhile_append3\<close>)
    show "takeWhile (\<lambda>x. fst x < k) ys = takeWhile (\<lambda>x. fst x < k) (take m ys)"
      by (subst y, cases "\<forall>x\<in>set (take m ys). fst x < k") (use assms(2) d in \<open>auto simp: takeWhile_append1 takeWhile_append2 takeWhile_tail intro: takeWhile_eq_all_conv[THEN iffD2, symmetric]\<close>)
  qed
  then show ?thesis by (simp add: insert_before_def)
qed

lemma insert_before_suffix:
  assumes "sorted (map fst ys)" and "0 < m" and "m \<le> length ys" and "fst (ys ! (m - 1)) < k"
  shows "insert_before (k, v) ys = take m ys @ insert_before (k, v) (drop m ys)"
proof -
  have "fst x < k" if x: "x \<in> set (take m ys)" for x
  proof -
    obtain i where i: "i < m" "x = ys ! i" using x assms(3) unfolding in_set_conv_nth by auto
    have "map fst ys ! i \<le> map fst ys ! (m - 1)" using assms(1) by (rule sorted_nth_mono) (use i assms(2,3) in simp_all)
    then show ?thesis using i assms by simp
  qed
  then have "takeWhile (\<lambda>x. fst x < k) (take m ys @ drop m ys) = take m ys @ takeWhile (\<lambda>x. fst x < k) (drop m ys)"
    "dropWhile (\<lambda>x. fst x < k) (take m ys @ drop m ys) = dropWhile (\<lambda>x. fst x < k) (drop m ys)"
    by (rule takeWhile_append2 dropWhile_append2, blast)+
  then show ?thesis by (simp add: insert_before_def)
qed

text \<open>The next chunk: what the loop copies from the segment it reads, with the new pair or without it.\<close>

lemma input_chunk:
  assumes old: "readable old" and z: "input_ok old z" "0 < z_size z" and m: "m \<le> z_size z"
  defines "z' \<equiv> z\<lparr>z_size := z_size z - m, z_start := z_start z + m\<rparr>"
  shows "take m (drop (z_start z) (m_keys old)) = map fst (take m (input_elems old z))"
    and "take m (drop (z_start z) (m_values old)) = map snd (take m (input_elems old z))"
    and "input_elems old z' = drop m (input_elems old z)" and "m \<le> length (input_elems old z)"
    and "0 < m \<Longrightarrow> m_keys old ! (z_start z + m - 1) = fst (input_elems old z ! (m - 1))"
proof -
  let ?c = "zip (m_keys old) (m_values old)"
  let ?i = "z_segment_id z"
  have ok: "storage_ok old" and i: "?i < m_number_segments old" using old z by (auto simp: readable_def input_ok_def)
  have e: "z_start z + z_size z = seg_start old ?i + m_segment_sizes old ! ?i" using z by (simp add: input_ok_def)
  have fits: "z_start z + z_size z \<le> length (m_keys old)" "z_start z + z_size z \<le> length (m_values old)"
    using e seg_bounds[OF ok i] storage_ok_segment[OF ok i] by linarith+
  have len: "length (take (z_size z) (drop (z_start z) ?c)) = z_size z" using fits by simp
  have t: "take m (input_elems old z) = take m (drop (z_start z) ?c)" using m len unfolding input_elems_def by (simp add: min_absorb1)
  have c: "map fst ?c = take (length (m_values old)) (m_keys old)" "map snd ?c = take (length (m_keys old)) (m_values old)"
    by (simp_all add: map_fst_zip_take map_snd_zip_take min_def)
  show k: "take m (drop (z_start z) (m_keys old)) = map fst (take m (input_elems old z))"
    unfolding t take_map[symmetric] drop_map[symmetric] c using fits m by (intro nth_equalityI) auto
  show "take m (drop (z_start z) (m_values old)) = map snd (take m (input_elems old z))"
    unfolding t take_map[symmetric] drop_map[symmetric] c using fits m by (intro nth_equalityI) auto
  show "input_elems old z' = drop m (input_elems old z)"
    using len m by (simp add: input_elems_def z'_def drop_take add.commute)
  show l: "m \<le> length (input_elems old z)" using len m unfolding input_elems_def length_append by linarith
  show "m_keys old ! (z_start z + m - 1) = fst (input_elems old z ! (m - 1))" if "0 < m"
    using arg_cong[OF k, of "\<lambda>xs. xs ! (m - 1)"] that fits m l by simp
qed

lemma input_elems_sorted:
  assumes old: "readable old" and z: "input_ok old z"
  shows "sorted (map fst (input_elems old z))"
proof (cases "z_size z = 0")
  case True
  then show ?thesis using z by (simp add: input_ok_def input_elems_def window_elems_def)
next
  case False
  let ?i = "z_segment_id z" and ?n = "m_number_segments old"
  have i: "?i < ?n" and e: "z_start z + z_size z = seg_start old ?i + m_segment_sizes old ! ?i" using z False by (auto simp: input_ok_def)
  define d where "d = z_start z - seg_start old ?i"
  have d: "z_start z = seg_start old ?i + d" "m_segment_sizes old ! ?i = d + z_size z" using z e False by (simp_all add: d_def input_ok_def)
  have "input_elems old z = drop d (seg_elems old ?i) @ window_elems old (Suc ?i) ?n"
    by (simp add: input_elems_def seg_elems_zip d drop_take add.commute)
  then have "elems old = (window_elems old 0 ?i @ take d (seg_elems old ?i)) @ input_elems old z"
    using elems_split[OF i] by (simp add: elems_before_window elems_after_window)
  moreover have "sorted (map fst (elems old))" using old by (simp add: readable_def)
  ultimately show ?thesis by (metis map_append sorted_append)
qed

text \<open>The state after the pairs \<open>W\<close> were written from \<open>pos\<close> on, \<open>c\<close> of them new.\<close>

definition filled :: "Storage \<Rightarrow> nat \<Rightarrow> (int \<times> int) list \<Rightarrow> nat \<Rightarrow> Storage" where
  "filled st pos W c = st\<lparr>m_keys := splice (m_keys st) pos (map fst W), m_values := splice (m_values st) pos (map snd W),
     m_cardinality := m_cardinality st + c\<rparr>"

text \<open>Whether the new pair is the next one to write.\<close>

definition inserts_first :: "RebalanceMetadata \<Rightarrow> Storage \<Rightarrow> ResizeInput \<Rightarrow> bool" where
  "inserts_first action old z \<longleftrightarrow> z_insert z \<and> (input_elems old z = [] \<or> md_insert_key action \<le> fst (hd (input_elems old z)))"

definition new_in :: "ResizeInput \<Rightarrow> ResizeInput \<Rightarrow> nat" where
  "new_in z z' = (if z_insert z \<and> \<not> z_insert z' then 1 else 0)"

lemma pending_cases:
  assumes old: "readable old" and z: "input_ok old z" and k: "1 \<le> k" "k \<le> length (pending action old z)"
  obtains (last) "z_size z = 0" and "z_insert z" and "k = 1" and "input_elems old z = []"
  | (merge) "0 < z_size z" and "z_insert z" and "md_insert_key action \<le> m_keys old ! (z_start z + min k (z_size z) - 1)"
  | (copy) "0 < z_size z" and "\<not> (z_insert z \<and> md_insert_key action \<le> m_keys old ! (z_start z + min k (z_size z) - 1))"
proof (cases "z_size z = 0")
  case True
  then have "input_elems old z = []" using z by (simp add: input_elems_def input_ok_def window_elems_def)
  then show ?thesis using True k last by (auto simp: pending_def insert_before_def split: if_splits)
qed (use merge copy in auto)

lemma write_pairs:
  assumes "pos + length W \<le> length (m_keys (m_storage p))" and "pos + length W \<le> length (m_values (m_storage p))"
  shows "write_elements pos (length W) (map fst W, map snd W) p = Some (p\<lparr>m_storage := filled (m_storage p) pos W 0\<rparr>)"
  using assms by (simp add: write_elements_def write_cells_def filled_def Let_def)

lemma set_separator_if:
  assumes "index_ok (m_index p) n" and "j < n"
  obtains idx where "(if c then set_separator j key p else Some p) = Some (p\<lparr>m_index := idx\<rparr>)" and "index_ok idx n"
    and "\<And>t. t < n \<Longrightarrow> get_separator_key idx t = (if t = j \<and> c then Some key else get_separator_key (m_index p) t)"
proof (cases c)
  case True
  obtain idx where "set_separator_key (m_index p) j key = Some idx" "index_ok idx n"
      "\<forall>l<n. get_separator_key idx l = (if l = j then Some key else get_separator_key (m_index p) l)"
    using static_index.set_get[OF assms] by blast
  then show ?thesis using that True by (simp add: set_separator_def)
next
  case False
  then show ?thesis using that[of "m_index p"] assms by simp
qed

lemma insert_unsafe_pairs:
  "spread_insert_unsafe (map fst xs) (map snd xs) k v
    = (map fst (insert_before (k, v) xs), map snd (insert_before (k, v) xs), length (takeWhile (\<lambda>x. x < k) (map fst xs)))"
proof -
  have "length (takeWhile (\<lambda>x. x < k) (map fst xs)) = length (takeWhile (\<lambda>x. fst x < k) xs)" by (rule takeWhile_map_length)
  then show ?thesis
    by (simp add: spread_insert_unsafe_def insert_before_def take_map drop_map flip: takeWhile_eq_take dropWhile_eq_drop)
qed

text \<open>One iteration.\<close>

lemma fill_step:
  assumes old: "readable old" and z: "input_ok old z" and k: "1 \<le> k" "k \<le> m_segment_capacity old" "k \<le> length (pending action old z)"
    and last: "k = length (pending action old z) \<Longrightarrow> j = md_window_length action - 1"
    and idx: "index_ok (m_index p) n" "j < n" and few: "z_insert z \<longrightarrow> m_cardinality (m_storage p) + 1 < 2 ^ 32"
    and fit: "pos + k \<le> length (m_keys (m_storage p))" "pos + k \<le> length (m_values (m_storage p))"
  obtains m z' idx' where "0 < m" and "m \<le> k" and "input_ok old z'" and "pending action old z' = drop m (pending action old z)"
    and "z_insert z' \<longrightarrow> z_insert z" and "index_ok idx' n"
    and "\<And>t. t < n \<Longrightarrow> get_separator_key idx' t
      = (if t = j \<and> pos = first \<and> inserts_first action old z then Some (md_insert_key action) else get_separator_key (m_index p) t)"
    and "let p' = p\<lparr>m_storage := filled (m_storage p) pos (take m (pending action old z)) (new_in z z'), m_index := idx'\<rparr>
      in resize_fill action old j first pos k (z, p)
        = (if k \<le> m then Some (z', p') else resize_fill action old j first (pos + m) (k - m) (z', p'))"
proof -
  let ?kv = "(md_insert_key action, md_insert_value action)"
  let ?inp = "input_elems old z"
  from old z k(1,3) show ?thesis
  proof (cases rule: pending_cases)
    case last
    have pend: "pending action old z = [?kv]" using last by (simp add: pending_def insert_before_def)
    have j: "j = md_window_length action - 1" using assms(6) pend last(3) by simp
    have idn: "z_segment_id z = m_number_segments old" and odd: "z_odd z = odd (z_segment_id z)" using z last by (auto simp: input_ok_def)
    define z0 where "z0 = z\<lparr>z_insert := False\<rparr>"
    obtain z' where z': "resize_next old z0 = Some z'" "input_ok old z'" "input_elems old z' = input_elems old z0" "z_insert z' = z_insert z0"
      by (rule resize_next_ok[OF old, of z0]) (use idn odd last in \<open>simp_all add: z0_def\<close>)
    have z0: "z\<lparr>z_size := 0, z_start := z_start z, z_insert := False\<rparr> = z0" using last(1) by (simp add: z0_def)
    have pend': "pending action old z' = []" using z'(3,4) last by (simp add: pending_def z0_def input_elems_def)
    have ifst: "inserts_first action old z" using last by (simp add: inserts_first_def)
    have u: "u32 (m_cardinality (m_storage p) + 1) = m_cardinality (m_storage p) + 1" using few last(2) by (simp add: u32_id)
    let ?p = "p\<lparr>m_storage := (m_storage p)\<lparr>m_cardinality := m_cardinality (m_storage p) + 1\<rparr>\<rparr>"
    let ?q = "p\<lparr>m_storage := filled (m_storage p) pos [?kv] 1\<rparr>"
    have w: "write_elements pos 1 ([fst ?kv], [snd ?kv]) ?p = Some ?q"
      using write_pairs[of pos "[?kv]" ?p] fit last(3) by (simp add: filled_def)
    obtain idx' where i: "(if pos = first then set_separator j (md_insert_key action) ?q else Some ?q) = Some (?q\<lparr>m_index := idx'\<rparr>)" "index_ok idx' n"
        "\<And>t. t < n \<Longrightarrow> get_separator_key idx' t
          = (if t = j \<and> pos = first then Some (md_insert_key action) else get_separator_key (m_index ?q) t)"
      by (rule set_separator_if[of ?q n j "pos = first" "md_insert_key action"]) (use idx in simp_all)
    have "resize_fill action old j first pos k (z, p) = Some (z', ?q\<lparr>m_index := idx'\<rparr>)"
      unfolding resize_fill.simps[of action old j first pos k "(z, p)"] using last k(2) j w i(1) z'(1) z0 u
      by (simp add: spread_insert_unsafe_def Let_def del: One_nat_def)
    moreover have "new_in z z' = 1" using last z'(4) by (simp add: new_in_def z0_def)
    ultimately show ?thesis using that[of 1 z' idx'] last(3) z' pend pend' i(2,3) ifst by (simp add: z0_def)
  next
    case merge
    define m where "m = min k (z_size z)"
    define z0 where "z0 = z\<lparr>z_size := z_size z - (m - 1), z_start := z_start z + (m - 1), z_insert := False\<rparr>"
    define W where "W = insert_before ?kv (take (m - 1) ?inp)"
    have m: "0 < m" "m \<le> k" "m \<le> z_size z" "m - 1 \<le> z_size z" "m - 1 + 1 = m" using k(1) merge by (auto simp: m_def)
    note c = input_chunk[OF old z merge(1) m(4)] and cm = input_chunk[OF old z merge(1) m(3)]
    have key: "md_insert_key action \<le> fst (?inp ! (m - 1))" using merge(3) cm(5)[OF m(1)] by (simp add: m_def)
    have lm: "m - 1 < length ?inp" using cm(4) m(1) by linarith
    have pend: "pending action old z = W @ drop (m - 1) ?inp" using insert_before_prefix[OF lm key, of "md_insert_value action"] merge(2) by (simp add: pending_def W_def)
    have lW: "length W = m" using lm m(1) by (simp add: W_def)
    have tW: "take m (pending action old z) = W" "drop m (pending action old z) = drop (m - 1) ?inp" unfolding pend using lW by simp_all
    have z0_ok: "input_ok old z0" using z merge m(1,3) by (auto simp: input_ok_def z0_def)
    have nx: "resize_next old z0 = Some z0" using m(1,3) by (simp add: resize_next_def z0_def)
    have "input_elems old z0 = input_elems old (z\<lparr>z_size := z_size z - (m - 1), z_start := z_start z + (m - 1)\<rparr>)" by (simp add: input_elems_def z0_def)
    then have pend0: "pending action old z0 = drop (m - 1) ?inp" using c(3) by (simp add: pending_def z0_def)
    obtain ks vs i where u: "spread_insert_unsafe (map fst (take (m - 1) ?inp)) (map snd (take (m - 1) ?inp)) (fst ?kv) (snd ?kv) = (ks, vs, i)"
        "ks = map fst W" "vs = map snd W" "i = length (takeWhile (\<lambda>x. x < fst ?kv) (map fst (take (m - 1) ?inp)))"
      using insert_unsafe_pairs[of "take (m - 1) ?inp" "fst ?kv" "snd ?kv"] by (auto simp: W_def)
    have ifst: "i = 0 \<longleftrightarrow> inserts_first action old z"
      using lm key m(1) merge(2) unfolding u(4) inserts_first_def by (cases ?inp; cases "m - 1") (auto simp: not_less)
    have uc: "u32 (m_cardinality (m_storage p) + 1) = m_cardinality (m_storage p) + 1" using few merge(2) by (simp add: u32_id)
    let ?p = "p\<lparr>m_storage := (m_storage p)\<lparr>m_cardinality := m_cardinality (m_storage p) + 1\<rparr>\<rparr>"
    let ?q = "p\<lparr>m_storage := filled (m_storage p) pos W 1\<rparr>"
    have w: "write_elements pos m (ks, vs) ?p = Some ?q"
      using write_pairs[of pos W ?p] fit m(2) unfolding lW u(2,3) by (simp add: filled_def)
    obtain idx' where ix: "(if i = 0 \<and> pos = first then set_separator j (md_insert_key action) ?q else Some ?q) = Some (?q\<lparr>m_index := idx'\<rparr>)" "index_ok idx' n"
        "\<And>t. t < n \<Longrightarrow> get_separator_key idx' t
          = (if t = j \<and> (i = 0 \<and> pos = first) then Some (md_insert_key action) else get_separator_key (m_index ?q) t)"
      by (rule set_separator_if[of ?q n j "i = 0 \<and> pos = first" "md_insert_key action"]) (use idx in simp_all)
    have "resize_fill action old j first pos k (z, p) = (if k \<le> m then Some (z0, ?q\<lparr>m_index := idx'\<rparr>)
        else resize_fill action old j first (pos + m) (k - m) (z0, ?q\<lparr>m_index := idx'\<rparr>))"
      unfolding resize_fill.simps[of action old j first pos k "(z, p)"] using merge k(1,2) w u(1) ix(1) nx m(1,5) c(1,2) uc
      by (simp add: Let_def m_def[symmetric] z0_def del: One_nat_def)
    moreover have "new_in z z0 = 1" using merge by (simp add: new_in_def z0_def)
    ultimately show ?thesis using that[of m z0 idx'] m z0_ok pend0 tW ix(2,3) ifst merge(2) by (auto simp: z0_def)
  next
    case copy
    define m where "m = min k (z_size z)"
    define z0 where "z0 = z\<lparr>z_size := z_size z - m, z_start := z_start z + m\<rparr>"
    have m: "0 < m" "m \<le> k" "m \<le> z_size z" using k(1) copy by (auto simp: m_def)
    note c = input_chunk[OF old z copy(1) m(3), folded z0_def]
    have id: "z_segment_id z < m_number_segments old" "z_odd z = odd (z_segment_id z)" using z copy(1) by (auto simp: input_ok_def)
    obtain z' where z': "resize_next old z0 = Some z'" "input_ok old z'" "input_elems old z' = input_elems old z0" "z_insert z' = z_insert z0"
    proof (rule resize_next_ok[OF old, of z0])
      show "input_ok old z0" if "0 < z_size z0" using that z copy(1) by (auto simp: input_ok_def z0_def)
    qed (use id in \<open>simp_all add: z0_def\<close>)
    have zi: "z_insert z' = z_insert z" using z'(4) by (simp add: z0_def)
    have key: "fst (?inp ! (m - 1)) < md_insert_key action" if "z_insert z" using copy(2) that c(5)[OF m(1)] by (simp add: m_def)
    have pend: "pending action old z = take m ?inp @ pending action old z'"
      using insert_before_suffix[OF input_elems_sorted[OF old z] m(1) c(4) key, of "md_insert_value action"] c(3) z'(3) zi
      by (simp add: pending_def)
    have lW: "length (take m ?inp) = m" using c(4) by simp
    have tW: "take m (pending action old z) = take m ?inp" "drop m (pending action old z) = pending action old z'" unfolding pend using lW by simp_all
    have nofst: "\<not> inserts_first action old z"
    proof
      assume "inserts_first action old z"
      then have i: "z_insert z" "?inp \<noteq> []" "md_insert_key action \<le> fst (hd ?inp)" using c(4) m(1) by (auto simp: inserts_first_def)
      have "map fst ?inp ! 0 \<le> map fst ?inp ! (m - 1)" by (rule sorted_nth_mono[OF input_elems_sorted[OF old z]]) (use c(4) m(1) in simp_all)
      then show False using i key c(4) m(1) by (simp add: hd_conv_nth)
    qed
    let ?q = "p\<lparr>m_storage := filled (m_storage p) pos (take m ?inp) 0\<rparr>"
    have w: "write_elements pos m (map fst (take m ?inp), map snd (take m ?inp)) p = Some ?q"
      using write_pairs[of pos "take m ?inp" p] fit m(2) unfolding lW by simp
    have no: "(z_insert z \<and> (z_size z = 0 \<or> md_insert_key action \<le> m_keys old ! (z_start z + m - 1))) = False"
      using copy by (simp add: m_def)
    have "resize_fill action old j first pos k (z, p) = (if k \<le> m then Some (z', ?q) else resize_fill action old j first (pos + m) (k - m) (z', ?q))"
      unfolding resize_fill.simps[of action old j first pos k "(z, p)"] fst_conv snd_conv Let_def m_def[symmetric] no
      using copy(1) k(1,2) w z'(1) m c(1,2)
      by (simp add: Let_def m_def[symmetric] z0_def del: One_nat_def)
    moreover have "new_in z z' = 0" using zi by (simp add: new_in_def)
    ultimately show ?thesis using that[of m z' "m_index p"] m z'(2) tW zi idx(1) nofst by auto
  qed
qed

lemma filled_filled:
  assumes "pos + length V + length W \<le> length (m_keys st)" and "pos + length V + length W \<le> length (m_values st)"
  shows "filled (filled st pos V c) (pos + length V) W d = filled st pos (V @ W) (c + d)"
  using assms splice_splice[of pos "map fst V" "map fst W" "m_keys st"] splice_splice[of pos "map snd V" "map snd W" "m_values st"]
  by (simp add: filled_def)

lemma filled_simps [simp]:
  "m_segment_sizes (filled st pos W c) = m_segment_sizes st" "m_segment_capacity (filled st pos W c) = m_segment_capacity st"
  "m_number_segments (filled st pos W c) = m_number_segments st" "m_cardinality (filled st pos W c) = m_cardinality st + c"
  "m_pages_per_extent (filled st pos W c) = m_pages_per_extent st"
  by (simp_all add: filled_def)

lemma filled_lengths:
  assumes "pos + length W \<le> length (m_keys st)" and "pos + length W \<le> length (m_values st)"
  shows "length (m_keys (filled st pos W c)) = length (m_keys st)" "length (m_values (filled st pos W c)) = length (m_values st)"
  using assms by (simp_all add: filled_def)

lemma resize_fill_ok:
  assumes old: "readable old" and idx: "j < n"
  shows "input_ok old z \<Longrightarrow> 1 \<le> k \<Longrightarrow> k \<le> m_segment_capacity old \<Longrightarrow> k \<le> length (pending action old z) \<Longrightarrow>
    (k = length (pending action old z) \<Longrightarrow> j = md_window_length action - 1) \<Longrightarrow> index_ok (m_index p) n \<Longrightarrow> first \<le> pos \<Longrightarrow>
    pos + k \<le> length (m_keys (m_storage p)) \<Longrightarrow> pos + k \<le> length (m_values (m_storage p)) \<Longrightarrow>
    (z_insert z \<longrightarrow> m_cardinality (m_storage p) + 1 < 2 ^ 32) \<Longrightarrow>
    \<exists>z' idx'. resize_fill action old j first pos k (z, p)
        = Some (z', p\<lparr>m_storage := filled (m_storage p) pos (take k (pending action old z)) (new_in z z'), m_index := idx'\<rparr>)
      \<and> input_ok old z' \<and> pending action old z' = drop k (pending action old z) \<and> (z_insert z' \<longrightarrow> z_insert z) \<and> index_ok idx' n
      \<and> (\<forall>t<n. get_separator_key idx' t
          = (if t = j \<and> pos = first \<and> inserts_first action old z then Some (md_insert_key action) else get_separator_key (m_index p) t))"
proof (induction k arbitrary: z p pos rule: less_induct)
  case (less k)
  let ?P = "pending action old z"
  obtain m z1 idx1 where s: "0 < m" "m \<le> k" "input_ok old z1" "pending action old z1 = drop m ?P" "z_insert z1 \<longrightarrow> z_insert z" "index_ok idx1 n"
      "\<And>t. t < n \<Longrightarrow> get_separator_key idx1 t
        = (if t = j \<and> pos = first \<and> inserts_first action old z then Some (md_insert_key action) else get_separator_key (m_index p) t)"
      "let p' = p\<lparr>m_storage := filled (m_storage p) pos (take m ?P) (new_in z z1), m_index := idx1\<rparr>
      in resize_fill action old j first pos k (z, p)
        = (if k \<le> m then Some (z1, p') else resize_fill action old j first (pos + m) (k - m) (z1, p'))"
    by (rule fill_step[OF old less.prems(1-5) less.prems(6) idx less.prems(10) less.prems(8,9), of first]) blast+
  define p1 where "p1 = p\<lparr>m_storage := filled (m_storage p) pos (take m ?P) (new_in z z1), m_index := idx1\<rparr>"
  have run: "resize_fill action old j first pos k (z, p)
      = (if k \<le> m then Some (z1, p1) else resize_fill action old j first (pos + m) (k - m) (z1, p1))"
    using s(8) by (simp only: p1_def Let_def)
  show ?case
  proof (cases "k \<le> m")
    case True
    then have "m = k" using s(2) by simp
    then show ?thesis using run s(3-7) True unfolding p1_def by (intro exI[of _ z1] exI[of _ idx1]) auto
  next
    case False
    have lm: "length (take m ?P) = m" using False less.prems(4) by simp
    have l1: "length (m_keys (m_storage p1)) = length (m_keys (m_storage p))" "length (m_values (m_storage p1)) = length (m_values (m_storage p))"
      using filled_lengths[of pos "take m ?P" "m_storage p"] False less.prems(8,9) lm by (simp_all add: p1_def)
    obtain z' idx' where r: "resize_fill action old j first (pos + m) (k - m) (z1, p1)
          = Some (z', p1\<lparr>m_storage := filled (m_storage p1) (pos + m) (take (k - m) (drop m ?P)) (new_in z1 z'), m_index := idx'\<rparr>)"
        "input_ok old z'" "pending action old z' = drop (k - m) (drop m ?P)" "z_insert z' \<longrightarrow> z_insert z1" "index_ok idx' n"
        "\<forall>t<n. get_separator_key idx' t = (if t = j \<and> pos + m = first \<and> inserts_first action old z1 then Some (md_insert_key action) else get_separator_key (m_index p1) t)"
    proof -
      have "\<exists>z' idx'. resize_fill action old j first (pos + m) (k - m) (z1, p1)
          = Some (z', p1\<lparr>m_storage := filled (m_storage p1) (pos + m) (take (k - m) (pending action old z1)) (new_in z1 z'), m_index := idx'\<rparr>)
        \<and> input_ok old z' \<and> pending action old z' = drop (k - m) (pending action old z1) \<and> (z_insert z' \<longrightarrow> z_insert z1) \<and> index_ok idx' n
        \<and> (\<forall>t<n. get_separator_key idx' t
            = (if t = j \<and> pos + m = first \<and> inserts_first action old z1 then Some (md_insert_key action) else get_separator_key (m_index p1) t))"
      proof (rule less.IH)
        show "k - m = length (pending action old z1) \<Longrightarrow> j = md_window_length action - 1"
          using less.prems(4,5) False s(4) by simp
        show "index_ok (m_index p1) n" using s(6) by (simp add: p1_def)
        show "z_insert z1 \<longrightarrow> m_cardinality (m_storage p1) + 1 < 2 ^ 32" using s(5) less.prems(10) by (simp add: p1_def new_in_def)
      qed (use False s(1-4) less.prems(3,4,7-9) l1 in simp_all)
      then show ?thesis using that unfolding s(4) by blast
    qed
    have "filled (m_storage p1) (pos + m) (take (k - m) (drop m ?P)) (new_in z1 z') = filled (m_storage p) pos (take k ?P) (new_in z z')"
    proof -
      have "take m ?P @ take (k - m) (drop m ?P) = take k ?P" using False take_add[of m "k - m" ?P] by simp
      moreover have "new_in z z1 + new_in z1 z' = new_in z z'" using s(5) r(4) unfolding new_in_def by (cases "z_insert z"; cases "z_insert z1"; cases "z_insert z'") simp_all
      ultimately show ?thesis
        using filled_filled[of pos "take m ?P" "take (k - m) (drop m ?P)" "m_storage p" "new_in z z1" "new_in z1 z'"] lm False less.prems(4,8,9)
        by (simp add: p1_def)
    qed
    then have "resize_fill action old j first pos k (z, p)
        = Some (z', p\<lparr>m_storage := filled (m_storage p) pos (take k ?P) (new_in z z'), m_index := idx'\<rparr>)"
      using run r(1) False by (simp add: p1_def)
    moreover have "pending action old z' = drop k ?P" using r(3) False by simp
    moreover have "pos + m \<noteq> first" using less.prems(7) s(1) by simp
    ultimately show ?thesis using r(2,4,5,6) s(5,7) by (intro exI[of _ z'] exI[of _ idx']) (auto simp: p1_def)
  qed
qed

section \<open>The segments\<close>

lemma pending_sorted:
  assumes "readable old" and "input_ok old z"
  shows "sorted (map fst (pending action old z))"
  using input_elems_sorted[OF assms] insert_before_sorted[of "[]" "input_elems old z" "[]"] by (simp add: pending_def)

lemma hd_pending:
  assumes "pending action old z \<noteq> []"
  shows "fst (hd (pending action old z)) = (if inserts_first action old z then md_insert_key action else fst (hd (input_elems old z)))"
proof (cases "input_elems old z")
  case Nil
  then show ?thesis using assms by (auto simp: pending_def inserts_first_def insert_before_def split: if_splits)
next
  case (Cons x xs)
  then show ?thesis by (auto simp: pending_def inserts_first_def insert_before_def not_le)
qed

text \<open>The first \<open>j\<close> segments of the new arrays hold the elements \<open>xs\<close>, with their separators.\<close>

definition resized_to :: "Storage \<Rightarrow> nat \<Rightarrow> PackedMemoryArray \<Rightarrow> nat \<Rightarrow> (int \<times> int) list \<Rightarrow> bool" where
  "resized_to old n p j xs \<longleftrightarrow> m_segment_capacity (m_storage p) = m_segment_capacity old
     \<and> storage_shape ((m_storage p)\<lparr>m_number_segments := n\<rparr>) \<and> index_ok (m_index p) n \<and> j \<le> n
     \<and> (\<forall>t<j. 0 < m_segment_sizes (m_storage p) ! t \<and> m_segment_sizes (m_storage p) ! t \<le> m_segment_capacity old
         \<and> get_separator_key (m_index p) t = Some (fst (hd (seg_elems (m_storage p) t))))
     \<and> window_elems (m_storage p) 0 j = xs"

lemma filled_segments:
  fixes st :: Storage
  assumes shape: "storage_shape (st\<lparr>m_number_segments := n\<rparr>)" and j: "j < n" and sizes: "\<forall>t<j. m_segment_sizes st ! t \<le> m_segment_capacity st"
    and W: "length W \<le> m_segment_capacity st"
  defines "first \<equiv> j * m_segment_capacity st + (if odd j then 0 else m_segment_capacity st - length W)"
  defines "st1 \<equiv> st\<lparr>m_segment_sizes := (m_segment_sizes st)[j := length W]\<rparr>"
  shows "seg_elems (filled st1 first W d) j = W" and "\<And>t. t < j \<Longrightarrow> seg_elems (filled st1 first W d) t = seg_elems st t"
    and "first + length W \<le> length (m_keys st)" and "first + length W \<le> length (m_values st)"
proof -
  let ?c = "m_segment_capacity st"
  define st2 where "st2 = st1\<lparr>m_number_segments := Suc j\<rparr>"
  have sl: "j < length (m_segment_sizes st)" using shape j by (simp add: storage_shape_def)
  have "Suc j * ?c \<le> n * ?c" using j by (intro mult_le_mono1) simp
  then have len: "Suc j * ?c \<le> length (m_keys st)" "Suc j * ?c \<le> length (m_values st)" using shape by (auto simp: storage_shape_def)
  have lim: "first + length W \<le> Suc j * ?c" using W by (simp add: first_def)
  then show "first + length W \<le> length (m_keys st)" "first + length W \<le> length (m_values st)" using len by linarith+
  have shape2: "storage_shape st2" using shape len sl by (simp add: storage_shape_def st2_def st1_def)
  have sizes2: "\<forall>s<m_number_segments st2. m_segment_sizes st2 ! s \<le> m_segment_capacity st2"
    using sizes W sl by (auto simp: st2_def st1_def nth_list_update less_Suc_eq)
  have cong: "seg_elems (filled st1 first W d) t = seg_elems (st2\<lparr>m_keys := splice (m_keys st2) first (map fst W), m_values := splice (m_values st2) first (map snd W)\<rparr>) t" for t
    by (simp add: seg_elems_def seg_keys_def seg_vals_def seg_start_def filled_def st2_def)
  have start: "seg_start st2 j = first" "m_segment_sizes st2 ! j = length W" using sl W by (auto simp: st2_def st1_def seg_start_def first_def)
  have lw: "length (map snd W) = length (map fst W)" "first + length (map fst W) \<le> m_number_segments st2 * m_segment_capacity st2"
    using lim by (simp_all add: st2_def st1_def)
  note w = write_segments[OF shape2 sizes2 lw]
  show "seg_elems (filled st1 first W d) j = W"
    unfolding cong using w(1)[of j] start by (simp add: st2_def zip_map_fst_snd)
  show "seg_elems (filled st1 first W d) t = seg_elems st t" if t: "t < j" for t
  proof -
    have "seg_start st2 t + m_segment_sizes st2 ! t \<le> first \<or> first + length W \<le> seg_start st2 t"
      by (rule different_starts[of t j]) (use t sizes W in \<open>auto simp: st2_def st1_def first_def\<close>)
    then have "seg_elems (filled st1 first W d) t = seg_elems st2 t" unfolding cong using w(2)[of t] t by (simp add: st2_def)
    also have "\<dots> = seg_elems st t" using t by (simp add: seg_elems_def seg_keys_def seg_vals_def seg_start_def st2_def st1_def)
    finally show ?thesis .
  qed
qed

lemma set_size_run:
  assumes "j < length (m_segment_sizes (m_storage p))"
  shows "set_sizes j [c] p = Some (p\<lparr>m_storage := (m_storage p)\<lparr>m_segment_sizes := (m_segment_sizes (m_storage p))[j := c]\<rparr>\<rparr>)"
proof -
  have "splice (m_segment_sizes (m_storage p)) j [c] = (m_segment_sizes (m_storage p))[j := c]"
    using assms by (intro nth_equalityI) (auto simp: nth_splice nth_list_update nth_Cons')
  then show ?thesis using assms by (simp add: set_sizes_def write_cells_def)
qed

text \<open>No key is smaller than the last one written once the new pair is still to be written.\<close>

lemma new_pair_later:
  assumes old: "readable old" and z: "input_ok old z" and pend: "pending action old z' = drop c (pending action old z)" "z_insert z'"
    and c: "0 < c" "c \<le> length (pending action old z)"
  shows "fst (take c (pending action old z) ! (c - 1)) \<le> md_insert_key action"
proof -
  let ?P = "pending action old z"
  have "(md_insert_key action, md_insert_value action) \<in> set (pending action old z')" using pend(2) by (simp add: pending_def insert_before_def)
  then obtain i where i: "c \<le> i" "i < length ?P" "?P ! i = (md_insert_key action, md_insert_value action)"
    unfolding pend(1) in_set_conv_nth by (metis length_drop less_diff_conv le_add1 nth_drop add.commute c(2))
  have "map fst ?P ! (c - 1) \<le> map fst ?P ! i" by (rule sorted_nth_mono[OF pending_sorted[OF old z]]) (use i in simp_all)
  then show ?thesis using i c by simp
qed

lemma resize_segment_ok:
  assumes old: "readable old" and z: "input_ok old z" and p: "resized_to old n p j xs" and j: "j < n" "n = md_window_length action"
    and c: "1 \<le> c" "c \<le> m_segment_capacity old" "c \<le> length (pending action old z)" "c = length (pending action old z) \<Longrightarrow> j = n - 1"
    and few: "z_insert z \<longrightarrow> m_cardinality (m_storage p) + 1 < 2 ^ 32"
  obtains z' st' idx' where "resize_segment action old j c (z, p) = Some (z', p\<lparr>m_storage := st', m_index := idx'\<rparr>)"
    and "input_ok old z'" and "pending action old z' = drop c (pending action old z)" and "z_insert z' \<longrightarrow> z_insert z"
    and "resized_to old n (p\<lparr>m_storage := st', m_index := idx'\<rparr>) (Suc j) (xs @ take c (pending action old z))"
    and "m_cardinality st' = m_cardinality (m_storage p) + new_in z z'" and "m_number_segments st' = m_number_segments (m_storage p)"
    and "m_pages_per_extent st' = m_pages_per_extent (m_storage p)"
proof -
  let ?st = "m_storage p" and ?P = "pending action old z"
  define W where "W = take c ?P"
  have lW: "length W = c" using c(3) by (simp add: W_def)
  have cap: "m_segment_capacity ?st = m_segment_capacity old" and shape: "storage_shape (?st\<lparr>m_number_segments := n\<rparr>)"
    and ix: "index_ok (m_index p) n" and segs: "\<forall>t<j. 0 < m_segment_sizes ?st ! t \<and> m_segment_sizes ?st ! t \<le> m_segment_capacity old
         \<and> get_separator_key (m_index p) t = Some (fst (hd (seg_elems ?st t)))" and xs: "window_elems ?st 0 j = xs"
    using p by (auto simp: resized_to_def)
  have sl: "j < length (m_segment_sizes ?st)" using shape j by (simp add: storage_shape_def)
  define first where "first = j * m_segment_capacity old + (if odd j then 0 else m_segment_capacity old - c)"
  define st1 where "st1 = ?st\<lparr>m_segment_sizes := (m_segment_sizes ?st)[j := c]\<rparr>"
  have f: "seg_elems (filled st1 first W d) j = W" "\<And>t. t < j \<Longrightarrow> seg_elems (filled st1 first W d) t = seg_elems ?st t"
    "first + c \<le> length (m_keys ?st)" "first + c \<le> length (m_values ?st)" for d
    using filled_segments[OF shape j(1), of W] segs c(2) unfolding lW cap first_def[symmetric] st1_def[symmetric] by auto
  let ?p1 = "p\<lparr>m_storage := st1\<rparr>"
  have run1: "set_sizes j [c] p = Some ?p1" using set_size_run[OF sl] by (simp add: st1_def)
  obtain idx1 where i1: "(if 0 < z_size z then set_separator j (m_keys old ! z_start z) ?p1 else Some ?p1) = Some (?p1\<lparr>m_index := idx1\<rparr>)" "index_ok idx1 n"
      "\<And>t. t < n \<Longrightarrow> get_separator_key idx1 t = (if t = j \<and> 0 < z_size z then Some (m_keys old ! z_start z) else get_separator_key (m_index ?p1) t)"
    by (rule set_separator_if[of ?p1 n j "0 < z_size z" "m_keys old ! z_start z"]) (use ix j in simp_all)
  let ?p2 = "?p1\<lparr>m_index := idx1\<rparr>"
  have "\<exists>z' idx'. resize_fill action old j first first c (z, ?p2)
        = Some (z', ?p2\<lparr>m_storage := filled (m_storage ?p2) first (take c ?P) (new_in z z'), m_index := idx'\<rparr>)
      \<and> input_ok old z' \<and> pending action old z' = drop c ?P \<and> (z_insert z' \<longrightarrow> z_insert z) \<and> index_ok idx' n
      \<and> (\<forall>t<n. get_separator_key idx' t
          = (if t = j \<and> first = first \<and> inserts_first action old z then Some (md_insert_key action) else get_separator_key (m_index ?p2) t))"
    by (rule resize_fill_ok[OF old j(1) z c(1-3)]) (use c(4) j i1(2) f(3,4) few in \<open>simp_all add: st1_def\<close>)
  then obtain z' idx' where r: "resize_fill action old j first first c (z, ?p2) = Some (z', ?p2\<lparr>m_storage := filled st1 first W (new_in z z'), m_index := idx'\<rparr>)"
      "input_ok old z'" "pending action old z' = drop c ?P" "z_insert z' \<longrightarrow> z_insert z" "index_ok idx' n"
      "\<And>t. t < n \<Longrightarrow> get_separator_key idx' t = (if t = j \<and> inserts_first action old z then Some (md_insert_key action) else get_separator_key idx1 t)"
    unfolding W_def by auto
  define st' where "st' = filled st1 first W (new_in z z')"
  have last: "m_keys st' ! (first + c - 1) = fst (W ! (c - 1))"
  proof -
    have e: "first + c - 1 - first = c - 1" "first \<le> first + c - 1" "first + c - 1 < first + c" using c(1) by simp_all
    show ?thesis using f(3) lW c(1) nth_splice[of first "map fst W" "m_keys st1" "first + c - 1"] unfolding e(1)
      by (simp add: st'_def filled_def st1_def e(2,3) del: One_nat_def)
  qed
  have "\<not> (z_insert z' \<and> md_insert_key action < m_keys st' ! (first + c - 1))"
    using new_pair_later[OF old z r(3)] c(1,3) unfolding last W_def by auto
  then have run: "resize_segment action old j c (z, p) = Some (z', p\<lparr>m_storage := st', m_index := idx'\<rparr>)"
    using run1 i1(1) r(1) by (cases "0 < z_size z"; cases "z_insert z'") (simp_all add: resize_segment_def Let_def first_def[symmetric] st'_def[symmetric])
  have sep: "get_separator_key idx' j = Some (fst (hd W))"
  proof -
    have ne: "?P \<noteq> []" "hd W = hd ?P" using c(1,3) by (auto simp: W_def)
    have "fst (hd (input_elems old z)) = m_keys old ! z_start z" "0 < z_size z" if "\<not> inserts_first action old z"
    proof -
      have inp: "input_elems old z \<noteq> []" using that ne(1) by (auto simp: pending_def inserts_first_def split: if_splits)
      show pos: "0 < z_size z"
      proof (rule ccontr)
        assume "\<not> 0 < z_size z"
        then show False using inp z by (simp add: input_elems_def input_ok_def window_elems_def)
      qed
      show "fst (hd (input_elems old z)) = m_keys old ! z_start z" using input_chunk(5)[OF old z pos, of 1] pos inp by (simp add: hd_conv_nth)
    qed
    then show ?thesis using r(6)[OF j(1)] i1(3)[OF j(1)] hd_pending[OF ne(1)] ne(2) by auto
  qed
  have "resized_to old n (p\<lparr>m_storage := st', m_index := idx'\<rparr>) (Suc j) (xs @ W)"
  proof -
    have "window_elems st' 0 j = xs" using xs window_elems_cong[of 0 j st' ?st] f(2) by (simp add: st'_def)
    then have w: "window_elems st' 0 (Suc j) = xs @ W" using f(1) by (simp add: window_elems_def st'_def)
    have sh: "storage_shape (st'\<lparr>m_number_segments := n\<rparr>)"
      using shape filled_lengths[of first W st1] f(3,4) lW by (simp add: storage_shape_def st'_def) (simp add: st1_def)
    have "0 < m_segment_sizes st' ! t \<and> m_segment_sizes st' ! t \<le> m_segment_capacity old
         \<and> get_separator_key idx' t = Some (fst (hd (seg_elems st' t)))" if "t < Suc j" for t
    proof (cases "t = j")
      case True
      then show ?thesis using sep f(1) c(1,2) sl by (simp add: st'_def st1_def)
    next
      case False
      then show ?thesis using that segs f(2)[of t] r(6)[of t] i1(3)[of t] j(1) by (simp add: st'_def st1_def)
    qed
    then show ?thesis using w sh r(5) j(1) cap by (simp add: resized_to_def) (simp add: st'_def st1_def)
  qed
  then show ?thesis using that[OF run r(2-4)] by (simp add: W_def st'_def st1_def)
qed

lemma resize_segments_ok:
  assumes old: "readable old" and n: "n = md_window_length action"
  shows "input_ok old z \<Longrightarrow> resized_to old n p j xs \<Longrightarrow> j + length cs = n \<Longrightarrow> \<forall>c\<in>set cs. 1 \<le> c \<and> c \<le> m_segment_capacity old \<Longrightarrow>
    sum_list cs = length (pending action old z) \<Longrightarrow> (z_insert z \<longrightarrow> m_cardinality (m_storage p) + 1 < 2 ^ 32) \<Longrightarrow>
    \<exists>z' st' idx'. resize_segments action old j cs (z, p) = Some (z', p\<lparr>m_storage := st', m_index := idx'\<rparr>) \<and> pending action old z' = []
      \<and> resized_to old n (p\<lparr>m_storage := st', m_index := idx'\<rparr>) n (xs @ pending action old z)
      \<and> m_cardinality st' = m_cardinality (m_storage p) + (if z_insert z then 1 else 0) \<and> \<not> z_insert z'
      \<and> m_pages_per_extent st' = m_pages_per_extent (m_storage p)"
proof (induction cs arbitrary: z p j xs)
  case Nil
  have st: "p\<lparr>m_storage := m_storage p, m_index := m_index p\<rparr> = p" by simp
  have "pending action old z = []" using Nil.prems by simp
  moreover from this have "\<not> z_insert z" by (auto simp: pending_def insert_before_def split: if_splits)
  ultimately show ?case using Nil.prems by (intro exI[of _ z] exI[of _ "m_storage p"] exI[of _ "m_index p"]) simp
next
  case (Cons c cs)
  let ?P = "pending action old z"
  have c: "1 \<le> c" "c \<le> m_segment_capacity old" "c \<le> length ?P" using Cons.prems(4,5) by auto
  have last: "j = n - 1" if e: "c = length ?P"
  proof (cases cs)
    case Nil
    then show ?thesis using Cons.prems(3) by simp
  next
    case (Cons c' cs')
    then show ?thesis using Cons.prems(4,5) e by auto
  qed
  obtain z1 st1 idx1 where s: "resize_segment action old j c (z, p) = Some (z1, p\<lparr>m_storage := st1, m_index := idx1\<rparr>)" "input_ok old z1"
      "pending action old z1 = drop c ?P" "z_insert z1 \<longrightarrow> z_insert z"
      "resized_to old n (p\<lparr>m_storage := st1, m_index := idx1\<rparr>) (Suc j) (xs @ take c ?P)"
      "m_cardinality st1 = m_cardinality (m_storage p) + new_in z z1" "m_pages_per_extent st1 = m_pages_per_extent (m_storage p)"
    by (rule resize_segment_ok[OF old Cons.prems(1,2) _ n c last]) (use Cons.prems(3,6) in simp_all)
  let ?p1 = "p\<lparr>m_storage := st1, m_index := idx1\<rparr>"
  obtain z' st' idx' where r: "resize_segments action old (Suc j) cs (z1, ?p1) = Some (z', ?p1\<lparr>m_storage := st', m_index := idx'\<rparr>)"
      "pending action old z' = []" "resized_to old n (?p1\<lparr>m_storage := st', m_index := idx'\<rparr>) n ((xs @ take c ?P) @ pending action old z1)"
      "m_cardinality st' = m_cardinality st1 + (if z_insert z1 then 1 else 0)" "\<not> z_insert z'" "m_pages_per_extent st' = m_pages_per_extent st1"
  proof -
    have "Suc j + length cs = n" "\<forall>c\<in>set cs. 1 \<le> c \<and> c \<le> m_segment_capacity old" "sum_list cs = length (pending action old z1)"
      using Cons.prems(3-5) s(3) by auto
    moreover have "z_insert z1 \<longrightarrow> m_cardinality (m_storage ?p1) + 1 < 2 ^ 32" using s(4,6) Cons.prems(6) by (simp add: new_in_def)
    ultimately show ?thesis using Cons.IH[OF s(2,5)] that by auto
  qed
  have "new_in z z1 + (if z_insert z1 then 1 else 0) = (if z_insert z then 1 else 0)"
    using s(4) unfolding new_in_def by (cases "z_insert z"; cases "z_insert z1") simp_all
  moreover have "(xs @ take c ?P) @ pending action old z1 = xs @ ?P" unfolding s(3) by simp
  ultimately show ?case using s(1,6,7) r by (intro exI[of _ z'] exI[of _ st'] exI[of _ idx']) simp
qed

section \<open>The new array\<close>

lemma partition_cardinalities_ok:
  "\<forall>q\<in>set ps. 1 \<le> p_segments q \<and> p_segments q \<le> p_cardinality q \<and> p_cardinality q \<le> p_segments q * cap \<Longrightarrow>
    length (partition_cardinalities ps) = sum_list (map p_segments ps) \<and> sum_list (partition_cardinalities ps) = sum_list (map p_cardinality ps)
    \<and> (\<forall>c\<in>set (partition_cardinalities ps). 1 \<le> c \<and> c \<le> cap)"
proof (induction ps)
  case (Cons q ps)
  let ?w = "p_segments q" and ?c = "p_cardinality q"
  have q: "0 < ?w" "?w \<le> ?c" "?c \<le> ?w * cap" using Cons.prems by auto
  have e: "map (segment_cardinality q) [0..<?w] = even_sizes ?c ?w"
    by (rule nth_equalityI) (use even_sizes(1)[OF q(1), of ?c] even_sizes(3)[OF q(1)] in \<open>simp_all add: segment_cardinality_def\<close>)
  have "1 \<le> x \<and> x \<le> cap" if "x \<in> set (even_sizes ?c ?w)" for x using even_sizes_bounds[OF q that] by simp
  then show ?case using Cons even_sizes[OF q(1), of ?c] by (auto simp: e)
qed simp

lemma resized_rma_ok:
  assumes to: "resized_to old n p n xs" and n: "0 < n" and srt: "sorted (map fst xs)" and card: "m_cardinality (m_storage p) = length xs"
    and det: "detector_capacity (m_detector p) = n" "detector_ok (m_detector p)"
  defines "q \<equiv> p\<lparr>m_storage := (m_storage p)\<lparr>m_number_segments := n\<rparr>\<rparr>"
  shows "rma_ok q" and "elems (m_storage q) = xs" and "m_cardinality (m_storage q) \<noteq> 0"
proof -
  let ?st = "m_storage q"
  have cong: "seg_elems ?st t = seg_elems (m_storage p) t" "seg_keys ?st t = seg_keys (m_storage p) t" for t
    by (simp_all add: q_def seg_elems_def seg_keys_def seg_vals_def seg_start_def)
  have segs: "0 < m_segment_sizes ?st ! t \<and> m_segment_sizes ?st ! t \<le> m_segment_capacity ?st
      \<and> get_separator_key (m_index q) t = Some (fst (hd (seg_elems ?st t)))" if "t < n" for t
    using to that unfolding cong by (simp add: resized_to_def q_def)
  have shape: "storage_shape ?st" and ix: "index_ok (m_index q) n" using to by (simp_all add: resized_to_def q_def)
  have ready: "spread_ready q" using shape ix segs det by (simp add: spread_ready_def) (simp add: q_def)
  have w: "window_elems (m_storage p) 0 n = xs" using to by (simp add: resized_to_def)
  show el: "elems ?st = xs" unfolding elems_all_window w[symmetric] using window_elems_cong[of 0 n ?st "m_storage p"] cong(1) by (simp add: q_def)
  have "length xs = sum_list (take n (m_segment_sizes ?st))" using length_elems_ready[OF ready] unfolding el by (simp add: q_def)
  then have ok: "storage_ok ?st" using shape segs card by (simp add: storage_ok_def storage_shape_def) (simp add: q_def)
  have "0 < length xs"
  proof -
    have "0 < length (seg_elems ?st 0)" using length_seg_elems_ready[OF ready, of 0] segs[OF n] n by (simp add: q_def)
    moreover have "elems ?st = elems_before ?st 0 @ seg_elems ?st 0 @ elems_after ?st 0" using n by (intro elems_split) (simp add: q_def)
    ultimately show ?thesis unfolding el[symmetric] by simp
  qed
  then show ne: "m_cardinality ?st \<noteq> 0" using card by (simp add: q_def)
  have "get_separator_key (m_index q) t = Some (hd (seg_keys ?st t))" if "t < n" for t
    using hd_seg_keys[OF ready, of t] segs[OF that] that by (simp add: q_def)
  then show "rma_ok q" using shape ix det ok srt segs ne n unfolding rma_ok_def Let_def el by (simp add: q_def)
qed

text \<open>The new arrays: not rewired, or of one extent.\<close>

lemma alloc_small_ok:
  assumes cap: "0 < m_segment_capacity st" and n: "0 < n" and ext: "0 < m_pages_per_extent st" "0 < ps"
    and small: "n * m_segment_capacity st * 8 \<le> m_pages_per_extent st * ps" "m_pages_per_extent st * ps \<le> 2 ^ 33"
  obtains w where "alloc_workspace ps junk st n = Some w" and "n * m_segment_capacity st \<le> length (w_keys w)"
    and "n * m_segment_capacity st \<le> length (w_values w)" and "n \<le> length (w_sizes w)"
proof (cases "m_pages_per_extent st * ps \<le> n * m_segment_capacity st * 8")
  case False
  then show ?thesis using that by (simp add: alloc_workspace_def Let_def)
next
  case True
  let ?e = "m_pages_per_extent st * ps"
  have e: "?e = n * m_segment_capacity st * 8" using True small(1) by simp
  have "n * 1 \<le> n * m_segment_capacity st" using cap by (intro mult_le_mono2) simp
  then have b: "n * 8 \<le> ?e" unfolding e by simp
  have m: "\<not> ?e < max 2 n * 2" "0 < ?e" using b n ext by auto
  then show ?thesis using that e ext small(2) b
    by (simp add: alloc_workspace_def Let_def new_buffered_def new_rewired_def get_max_memory_def
        get_allocated_memory_size_def get_extent_size_def get_allocated_extents_def mult.commute[of ps])
qed

lemma pma_resize_ok:
  assumes ok: "rma_ok p" and ne: "m_cardinality (m_storage p) \<noteq> 0"
    and act: "md_is_insert action" "n = md_window_length action" "partitions_ok (m_segment_capacity (m_storage p)) n
      (m_cardinality (m_storage p) + 1) (md_apma_partitions action)"
    and n: "0 < n" "n < 2 ^ 31" "n \<le> m_node_size (m_index p) ^ 8" and few: "m_cardinality (m_storage p) + 1 < 2 ^ 32"
    and ext: "0 < m_pages_per_extent (m_storage p)" "0 < e_page_size env"
      "n * m_segment_capacity (m_storage p) * 8 \<le> m_pages_per_extent (m_storage p) * e_page_size env"
      "m_pages_per_extent (m_storage p) * e_page_size env \<le> 2 ^ 33"
    and det: "detector_capacity (m_detector p') = n" "detector_ok (m_detector p')"
    and p': "m_storage p' = m_storage p" "m_index p' = m_index p"
  obtains q where "pma_resize env action p' = Some q" and "rma_ok q" and "m_cardinality (m_storage q) \<noteq> 0"
    and "elems (m_storage q) = insert_before (md_insert_key action, md_insert_value action) (elems (m_storage p))"
    and "dims q = (n, m_segment_capacity (m_storage p), m_pages_per_extent (m_storage p))"
proof -
  let ?old = "m_storage p"
  note o = rma_okD[OF ok] and e = rma_ok_elems[OF ok ne]
  have old: "readable ?old" using e o(2) by (simp add: readable_def)
  have cap: "0 < m_segment_capacity ?old" "m_segment_capacity ?old < 2 ^ 16" using o(1) by (simp_all add: storage_shape_def)
  obtain w where w: "alloc_workspace (e_page_size env) (e_junk env) ?old n = Some w" "n * m_segment_capacity ?old \<le> length (w_keys w)"
      "n * m_segment_capacity ?old \<le> length (w_values w)" "n \<le> length (w_sizes w)"
    by (rule alloc_small_ok[OF cap(1) n(1) ext])
  obtain idx where idx: "rebuild ceil_log (e_junk env) (m_index p) n = Some idx" "index_ok idx n"
    using rebuild_index[of "m_index p" n ceil_log "e_junk env"] o(3) n by (auto simp: index_ok_def)
  let ?cs = "partition_cardinalities (md_apma_partitions action)"
  have cs: "length ?cs = n" "sum_list ?cs = m_cardinality ?old + 1" "\<forall>c\<in>set ?cs. 1 \<le> c \<and> c \<le> m_segment_capacity ?old"
    using partition_cardinalities_ok[of "md_apma_partitions action" "m_segment_capacity ?old"] act(3) by (simp_all add: partitions_ok_def)
  let ?z = "\<lparr>z_segment_id = 0, z_size = m_segment_sizes ?old ! 0, z_start = m_segment_capacity ?old - m_segment_sizes ?old ! 0,
                    z_odd = False, z_insert = True\<rparr>"
  have s0: "0 < m_segment_sizes ?old ! 0" "m_segment_sizes ?old ! 0 \<le> m_segment_capacity ?old"
    using e(3) o(2) storage_ok_segment(3)[OF e(1), of 0] by auto
  have z: "resize_start ?old True = Some ?z" "input_ok ?old ?z" using s0 o(2) by (simp_all add: resize_start_def input_ok_def seg_start_def)
  have "input_elems ?old ?z = elems ?old"
    using o(2) by (simp add: input_elems_def elems_all_window window_elems_def upt_conv_Cons seg_elems_zip seg_start_def)
  then have pend: "pending action ?old ?z = insert_before (md_insert_key action, md_insert_value action) (elems ?old)" by (simp add: pending_def)
  let ?p = "p'\<lparr>m_storage := set_workspace w ?old, m_index := idx\<rparr>"
  have to0: "resized_to ?old n ?p 0 []"
    using w idx(2) cap by (simp add: resized_to_def set_workspace_def storage_shape_def)
  have sum: "sum_list ?cs = length (pending action ?old ?z)" unfolding cs(2) pend using length_elems[OF e(1)] by simp
  obtain z' st idx' where r: "resize_segments action ?old 0 ?cs (?z, ?p) = Some (z', ?p\<lparr>m_storage := st, m_index := idx'\<rparr>)"
      "resized_to ?old n (?p\<lparr>m_storage := st, m_index := idx'\<rparr>) n (pending action ?old ?z)"
      "m_cardinality st = m_cardinality ?old + 1" "\<not> z_insert z'" "m_pages_per_extent st = m_pages_per_extent ?old"
    using resize_segments_ok[OF old act(2) z(2) to0 _ cs(3) sum] cs(1) few by (auto simp: set_workspace_def)
  let ?q = "?p\<lparr>m_storage := st, m_index := idx'\<rparr>"
  let ?r = "?q\<lparr>m_storage := (m_storage ?q)\<lparr>m_number_segments := n\<rparr>\<rparr>"
  have run: "pma_resize env action p' = Some ?r"
    using w(1) idx(1) z(1) r(1,4) act(1,2) cs(1) p' u32_id[of n] n(2) by (simp add: pma_resize_def Let_def)
  have card: "m_cardinality (m_storage ?q) = length (pending action ?old ?z)"
    using r(3) length_elems[OF e(1)] unfolding pend by simp
  note res = resized_rma_ok[OF r(2) n(1) pending_sorted[OF old z(2)] card]
  have cq: "m_segment_capacity st = m_segment_capacity ?old" using r(2) by (simp add: resized_to_def)
  show ?thesis by (rule that[OF run]) (use res det r(5) cq pend in \<open>simp_all add: dims_def\<close>)
qed

section \<open>The rebalance\<close>

lemma set_thresholds_for_frame:
  assumes "set_thresholds_for ps p action = Some p1"
  shows "m_storage p1 = m_storage p" and "m_index p1 = m_index p"
    and "set_thresholds_for ps (p\<lparr>m_detector := x\<rparr>) action = Some (p1\<lparr>m_detector := x\<rparr>)"
  using assms unfolding set_thresholds_for_def set_thresholds_def balanced_thresholds_cutoff_def
  by (auto split: if_splits Option.bind_splits prod.splits)

text \<open>The partitions of the new array; the relocations of the detector are not asked for.\<close>

lemma run_apma_resize_ok:
  assumes knobs: "0 < m_rank_threshold (m_knobs p)" "m_rank_threshold (m_knobs p) \<le> 1"
    and ok: "rma_ok p" "m_cardinality (m_storage p) \<noteq> 0" and s: "s < m_number_segments (m_storage p)"
    and c: "c = m_cardinality (m_storage p) + 1" "c < 2 ^ 16"
    and p1: "set_thresholds_for (e_page_size env) p action = Some p1"
    and thr: "thresholds_split (e_log2 env) (window_thresholds p1) n" "within_limits (e_log2 env) (window_thresholds p1) n c" "1 \<le> n"
    and act: "md_operation action = RESIZE" "md_window_start action = 0" "md_window_length action = n" "md_cardinality_after action = c"
      "md_is_insert action" "md_insert_segment action = int s"
  obtains d ps where "rebalance_run_apma env p action = Some (p1\<lparr>m_detector := d\<rparr>, action\<lparr>md_apma_partitions := ps\<rparr>)"
    and "detector_ok (m_detector p) \<longrightarrow> detector_ok d" and "partitions_ok (m_segment_capacity (m_storage p)) n c ps"
proof -
  let ?st = "m_storage p" and ?l = "m_number_segments (m_storage p)"
  define sizes where "sizes = sizes_with ?st s"
  note o = rma_okD[OF ok(1)] and e = rma_ok_elems[OF ok]
  have len: "?l \<le> length (m_segment_sizes ?st)" using o(1) by (simp add: storage_shape_def)
  have sum: "m_cardinality ?st = (\<Sum>i\<leftarrow>[0..<0 + ?l]. m_segment_sizes ?st ! i)"
  proof -
    have "take ?l (m_segment_sizes ?st) = map ((!) (m_segment_sizes ?st)) [0..<?l]" using slice_of_upt[of 0 ?l "m_segment_sizes ?st"] len by simp
    then show ?thesis using e(1) by (simp add: storage_ok_def)
  qed
  have cw: "c = (\<Sum>i\<leftarrow>[0..<0 + ?l]. sizes_with ?st s ! i)" using sum_sizes_with[of 0 s ?l ?st] s len sum c(1) by simp
  have lc: "?l \<le> c"
  proof -
    have "sum_list (map (\<lambda>i. 1) [0..<?l]) \<le> (\<Sum>i\<leftarrow>[0..<?l]. m_segment_sizes ?st ! i)" by (rule sum_list_mono) (use e(3) in auto)
    then show ?thesis using sum c(1) by (simp add: sum_list_triv)
  qed
  have l31: "?l < 2 ^ 31" "1 \<le> ?l" using lc c(2) o(2) by simp_all
  let ?fk = "\<lambda>i. find_position (?st\<lparr>m_segment_sizes := sizes\<rparr>) (0 + i)"
  obtain w where w: "new_weights (m_knobs p) (m_detector p) sizes ?fk 0 ?l = Some w"
      "release w = Some (w\<lparr>m_output_released := True, m_output := []\<rparr>, m_output w)" "weights_ok c (m_output w) (m_balance w)"
      "detector_ok (m_detector p) \<longrightarrow> detector_ok (w_detector w)"
    unfolding sizes_def by (rule window_weights_ok[OF knobs o(4,5) _ _ l31(2,1) cw c(2) lc]) (use len in simp_all)
  note p1e = set_thresholds_for_frame[OF p1]
  have st1: "m_storage p1 = ?st" by (rule p1e(1))
  obtain ps info' where ps: "adaptive_rebalancing (e_log2 env) (window_thresholds p1) (m_output w) (m_balance w) n c None = Some (ps, info')"
      "partitions_ok (m_segment_capacity ?st) n c ps" "info_step None info' (2 * length (m_output w)) (m_associated_segment ` set (m_output w)) 0 n"
    using recursion_ok[OF thr(1,3) order.refl weights_ordered[OF w(3) c(2)] thr(2), of "([], None)" 0 "m_balance w"]
    by (auto simp: adaptive_rebalancing_def window_thresholds_def st1 info_room_def)
  have "info' = None" using ps(3) by (simp add: info_step_def)
  moreover have "(m_segment_sizes ?st)[s := Suc (m_segment_sizes ?st ! s)] = sizes" by (simp add: sizes_def sizes_with_def)
  moreover have "get_thresholds (p1\<lparr>m_detector := x\<rparr>) = get_thresholds p1" for x by (simp add: get_thresholds_def)
  ultimately have "rebalance_run_apma env p action = Some (p1\<lparr>m_detector := w_detector w\<rparr>, action\<lparr>md_apma_partitions := ps\<rparr>)"
    using w(1,2) ps(1) p1e(3)[of "w_detector w"] act st1
    unfolding rebalance_run_apma_def Let_def by (simp flip: window_thresholds_def) (simp add: window_thresholds_def st1)
  then show ?thesis by (rule that[OF _ w(4) ps(2)])
qed

text \<open>An insertion in the full segment \<open>s\<close> for which the whole array is copied to \<open>n\<close> segments of at most an
  extent, with thresholds that can be split for it.\<close>

definition resizing :: "Env \<Rightarrow> PackedMemoryArray \<Rightarrow> nat \<Rightarrow> nat \<Rightarrow> bool" where
  "resizing env p s n \<longleftrightarrow>
     (let st = m_storage p; c = m_cardinality st + 1; ps = e_page_size env
      in m_segment_sizes st ! s = m_segment_capacity st \<and> rebalance_find_window p s True = Some (0, 0, c, True)
        \<and> plan_insert ps p c = Some (RESIZE, n) \<and> m_pages_per_extent st * ps \<le> 2 ^ 33 \<and> n \<le> m_node_size (m_index p) ^ 8 \<and> c < 2 ^ 16
        \<and> 0 < m_rank_threshold (m_knobs p) \<and> m_rank_threshold (m_knobs p) \<le> 1
        \<and> (\<exists>p1. set_thresholds (p\<lparr>m_primary_densities := balanced_thresholds_cutoff ps p < n\<rparr>) (ceil_log 2 n + 1) = Some p1
             \<and> thresholds_split (e_log2 env) (window_thresholds p1) n \<and> within_limits (e_log2 env) (window_thresholds p1) n c))"

lemma index_okD_31: "index_ok idx n \<Longrightarrow> n < 2 ^ 31"
  by (simp add: index_ok_def)

lemma plan_resize:
  assumes "plan_insert ps p c = Some (RESIZE, n)" and "m_number_segments (m_storage p) < 2 ^ 31"
  shows "n = m_number_segments (m_storage p) * 2" and "n \<le> segments_per_extent ps (m_storage p)"
  using assms u32_id[of "m_number_segments (m_storage p) * 2"] unfolding plan_insert_def Let_def by (auto split: if_splits)

lemma rebalance_resize_ok:
  assumes ok: "rma_ok p" and ne: "m_cardinality (m_storage p) \<noteq> 0" and s: "s < m_number_segments (m_storage p)" and win: "resizing env p s n"
  obtains q where "rebalance env p s (Some (key, val)) = Some q" and "rma_ok q"
    and "contents q = insert_before (key, val) (contents p)"
    and "dims q = (2 * m_number_segments (m_storage p), m_segment_capacity (m_storage p), m_pages_per_extent (m_storage p))"
proof -
  let ?st = "m_storage p" and ?ps = "e_page_size env"
  let ?c = "m_cardinality ?st + 1"
  note o = rma_okD[OF ok]
  have find: "rebalance_find_window p s True = Some (0, 0, ?c, True)" and plan: "plan_insert ?ps p ?c = Some (RESIZE, n)"
    and ext: "m_pages_per_extent ?st * ?ps \<le> 2 ^ 33" and node: "n \<le> m_node_size (m_index p) ^ 8" and c: "?c < 2 ^ 16"
    and knobs: "0 < m_rank_threshold (m_knobs p)" "m_rank_threshold (m_knobs p) \<le> 1"
    using win by (auto simp: resizing_def Let_def)
  obtain p1 where p1: "set_thresholds (p\<lparr>m_primary_densities := balanced_thresholds_cutoff ?ps p < n\<rparr>) (ceil_log 2 n + 1) = Some p1"
      "thresholds_split (e_log2 env) (window_thresholds p1) n" "within_limits (e_log2 env) (window_thresholds p1) n ?c"
    using win by (auto simp: resizing_def Let_def)
  note pl = plan_resize[OF plan index_okD_31[OF o(3)]]
  have n: "0 < n" using pl(1) o(2) by simp
  have cap: "0 < m_segment_capacity ?st" using o(1) by (simp add: storage_shape_def)
  have fits: "n * m_segment_capacity ?st * 8 \<le> m_pages_per_extent ?st * ?ps"
  proof -
    have "n * (m_segment_capacity ?st * 8) \<le> segments_per_extent ?ps ?st * (m_segment_capacity ?st * 8)" using pl(2) by (rule mult_le_mono1)
    also have "\<dots> \<le> m_pages_per_extent ?st * ?ps" unfolding segments_per_extent_def by (rule div_times_less_eq_dividend)
    finally show ?thesis by (simp only: mult.assoc)
  qed
  have pos: "0 < m_pages_per_extent ?st" "0 < ?ps" using fits n cap by (auto intro!: Nat.gr0I)
  define action where "action = \<lparr>md_operation = RESIZE, md_window_start = 0, md_window_length = n, md_cardinality_after = ?c,
    md_is_insert = True, md_insert_key = key, md_insert_value = val, md_insert_segment = int s, md_apma_partitions = []\<rparr>"
  have t: "set_thresholds_for ?ps p action = Some p1" using p1(1) by (simp add: set_thresholds_for_def action_def)
  note f = set_thresholds_for_frame[OF t]
  have n31: "n < 2 ^ 31"
  proof -
    have "1 \<le> n" using n by simp
    have "n * 1 \<le> n * m_segment_capacity ?st" using cap by (intro mult_le_mono2) simp
    moreover have "n * m_segment_capacity ?st < 2 ^ 31"
      using thresholds_splitD(5)[OF p1(2) \<open>1 \<le> n\<close> order.refl] f(1) by (simp add: window_thresholds_def)
    ultimately show ?thesis by linarith
  qed
  obtain d ps where d: "rebalance_run_apma env p action = Some (p1\<lparr>m_detector := d\<rparr>, action\<lparr>md_apma_partitions := ps\<rparr>)"
      "detector_ok (m_detector p) \<longrightarrow> detector_ok d" "partitions_ok (m_segment_capacity ?st) n ?c ps"
    by (rule run_apma_resize_ok[OF knobs ok ne s refl c t p1(2,3)]) (use n in \<open>simp_all add: action_def\<close>)
  let ?action = "action\<lparr>md_apma_partitions := ps\<rparr>"
  let ?p = "p1\<lparr>m_detector := detector_resize d n\<rparr>"
  obtain q where q: "pma_resize env ?action ?p = Some q" "rma_ok q" "m_cardinality (m_storage q) \<noteq> 0"
      "elems (m_storage q) = insert_before (md_insert_key ?action, md_insert_value ?action) (elems ?st)"
      "dims q = (n, m_segment_capacity ?st, m_pages_per_extent ?st)"
    by (rule pma_resize_ok[OF ok ne _ _ _ n n31 node _ pos fits ext, of ?action ?p])
      (use d(2,3) f(1,2) o(5) c detector_ok_resize[of d n] in \<open>simp_all add: action_def detector_resize_def detector_capacity_def\<close>)
  have "rebalance env p s (Some (key, val)) = Some q"
    using find plan d(1) q(1) by (simp add: rebalance_def rebalance_plan_def do_rebalance_def action_def)
  then show ?thesis using that q ne pl(1) by (simp add: action_def contents_def mult.commute)
qed

lemma pma_insert_resize:
  assumes ok: "rma_ok p" and ne: "m_cardinality (m_storage p) \<noteq> 0"
    and win: "index_find (m_index p) key = Some s" "resizing env p s n"
  obtains q where "pma_insert env p key val = Some q" and "rma_ok q" and "contents q = insert_before (key, val) (contents p)"
    and "dims q = (2 * m_number_segments (m_storage p), m_segment_capacity (m_storage p), m_pages_per_extent (m_storage p))"
proof -
  obtain s' where s': "index_find (m_index p) key = Some s'" "s' < m_number_segments (m_storage p)"
    by (rule routed_segment[OF ok ne])
  then have s: "s < m_number_segments (m_storage p)" using win(1) by simp
  have full: "m_segment_sizes (m_storage p) ! s = m_segment_capacity (m_storage p)" using win(2) by (simp add: resizing_def Let_def)
  obtain q where q: "rebalance env p s (Some (key, val)) = Some q" "rma_ok q" "contents q = insert_before (key, val) (contents p)"
      "dims q = (2 * m_number_segments (m_storage p), m_segment_capacity (m_storage p), m_pages_per_extent (m_storage p))"
    by (rule rebalance_resize_ok[OF ok ne s win(2)])
  then show ?thesis using that win(1) s ne full by (simp add: pma_insert_def pma_empty_def insert_common_def)
qed

end
