(* ===== verification/RMA_Resize_Properties.thy ===== *)
theory RMA_Resize_Properties
  imports RMA_Resize_Proofs RMA_Properties
begin

text \<open>
  The property of the insertions that double the array.
\<close>

section \<open>One segment, full\<close>

definition resize_bounds :: CachedDensityBounds where
  "resize_bounds = \<lparr>m_density_bounds = \<lparr>rho_0 = 1 / 4, rho_h = 1 / 2, theta_h = 3 / 4, theta_0 = 1\<rparr>, m_cached_densities = [(1 / 4, 1)]\<rparr>"

definition full_segment :: "StaticIndex \<Rightarrow> PackedMemoryArray" where
  "full_segment idx = \<lparr>m_index = idx,
     m_storage = \<lparr>m_keys = [1, 2, 3, 9], m_values = [10, 20, 30, 90], m_segment_sizes = [4],
       m_segment_capacity = 4, m_cardinality = 4, m_number_segments = 1, m_pages_per_extent = 1,
       m_memory_keys = None, m_memory_values = None, m_memory_sizes = None\<rparr>,
     m_knobs = new_knobs, m_detector = new_detector 1 8,
     m_density_bounds0 = resize_bounds, m_density_bounds1 = small_bounds, m_primary_densities = False\<rparr>"

lemma full_segment_index:
  obtains idx idx' where "new_index ceil_log 7 64 1 = Some idx" and "set_separator_key idx 0 1 = Some idx'" and "index_ok idx' 1"
    and "get_separator_key idx' 0 = Some 1"
proof -
  obtain idx where idx: "new_index ceil_log 7 64 1 = Some idx" "index_ok idx 1" using new_index_ok[of 64 1 ceil_log 7] by auto
  obtain idx' where i: "set_separator_key idx 0 1 = Some idx'" "index_ok idx' 1" "\<forall>l<1. get_separator_key idx' l = (if l = 0 then Some 1 else get_separator_key idx l)"
    using static_index.set_get[OF idx(2), of 0 1] by auto
  show ?thesis by (rule that[OF idx(1) i(1,2)]) (use i in simp)
qed

lemma full_segment_elems: "elems (m_storage (full_segment idx)) = [(1, 10), (2, 20), (3, 30), (9, 90)]"
  by (simp add: elems_def seg_elems_def seg_keys_def seg_vals_def seg_start_def full_segment_def upt_rec)

lemma full_segment_ok:
  assumes "index_ok idx 1" and "get_separator_key idx 0 = Some 1"
  shows "rma_ok (full_segment idx)"
  using assms full_segment_elems[of idx] new_detector_ok[of 8 1]
  by (simp add: rma_ok_def storage_ok_def storage_shape_def seg_keys_def seg_start_def full_segment_def new_detector_def detector_capacity_def)

lemma four_rnd: "rnd 1 = 1" "rnd 3 = 3" "rnd 4 = 4" "rnd 5 = 5" "rnd 6 = 6" "rnd 8 = 8"
  using rnd_of_nat[of 1] rnd_of_nat[of 3] rnd_of_nat[of 4] rnd_of_nat[of 5] rnd_of_nat[of 6] rnd_of_nat[of 8] by simp_all

lemma full_segment_resizing:
  assumes "1 < m_node_size idx"
  shows "resizing small_env (full_segment idx) 0 2"
proof -
  define p1 where "p1 = (full_segment idx)\<lparr>m_density_bounds0 := resize_bounds\<lparr>m_cached_densities := [(1 / 4, 1), (1 / 2, 3 / 4)]\<rparr>\<rparr>"
  have lim: "window_limits (e_log2 small_env) (window_thresholds p1) 1 = Some (1, 4)"
    "window_limits (e_log2 small_env) (window_thresholds p1) 2 = Some (4, 6)"
    by (simp_all add: small_rnd four_rnd window_limits_def get_density_def thresholds_dec_def small_env_def resize_bounds_def densities_def
      full_segment_def p1_def window_thresholds_def get_thresholds_def get_calibrator_tree_height_def scaled_def dadd_def dsub_def dmul_def
      ddiv_def d_of_nat_def Let_def)
  have set: "{1..2} = {1, 2 :: nat}" "{2..2} = {2 :: nat}" by auto
  have split: "thresholds_split (e_log2 small_env) (window_thresholds p1) 2"
    using lim unfolding thresholds_split_def set
    by (simp add: lim_lo_def lim_hi_def window_thresholds_def full_segment_def p1_def del: One_nat_def)
  have within: "within_limits (e_log2 small_env) (window_thresholds p1) 2 5" using lim by (simp add: within_limits_def lim_lo_def lim_hi_def)
  have thr: "set_thresholds ((full_segment idx)\<lparr>m_primary_densities := False\<rparr>) 2 = Some p1"
    by (simp add: small_rnd four_rnd set_thresholds_def thresholds_tree_def rebuild_cached_densities_def thresholds_int_def full_segment_def resize_bounds_def p1_def
      scaled_def dadd_def dsub_def dmul_def ddiv_def d_of_nat_def Let_def upt_rec)
  have spe: "segments_per_extent 4096 (m_storage (full_segment idx)) = 128" by (simp add: segments_per_extent_def full_segment_def)
  have find: "rebalance_find_window (full_segment idx) 0 True = Some (0, 0, 5, True)"
    using rnd_dyadic[of 5 2] by (simp add: u32_def rebalance_find_window_def full_segment_def storage_height_def bit_len.simps ddiv_def d_of_nat_def four_rnd Let_def)
  have target: "segment_target (full_segment idx) = 3"
    by (simp add: segment_target_def get_upper_threshold_root_def full_segment_def small_bounds_def dmul_def d_of_nat_def four_rnd)
  have "rnd (5 / 3) \<le> 2" using rnd_mono[of "5 / 3" 2] small_rnd(4) by simp
  then have "\<lceil>rnd (5 / 3)\<rceil> \<le> 2" by (simp add: ceiling_le_iff)
  then have "ceil_div (d_of_nat 5) 3 \<le> 2" by (simp add: ceil_div_def ddiv_def d_of_nat_def four_rnd nat_le_iff)
  then have plan: "plan_insert 4096 (full_segment idx) 5 = Some (RESIZE, 2)"
    unfolding plan_insert_def Let_def target spe balanced_thresholds_cutoff_def by (simp add: full_segment_def u32_def)
  have rank: "0 < m_rank_threshold new_knobs" "m_rank_threshold new_knobs \<le> 1"
    using rnd_positive[of "99 / 100"] rnd_mono[of "99 / 100" 1] by (simp_all add: new_knobs_def)
  have "2 \<le> m_node_size idx ^ 8" using self_le_power[of "m_node_size idx" 8] assms by simp
  moreover have "\<exists>p1. set_thresholds ((full_segment idx)\<lparr>m_primary_densities := balanced_thresholds_cutoff 4096 (full_segment idx) < 2\<rparr>) (ceil_log 2 2 + 1) = Some p1
      \<and> thresholds_split (e_log2 small_env) (window_thresholds p1) 2 \<and> within_limits (e_log2 small_env) (window_thresholds p1) 2 5"
  proof -
    have "(balanced_thresholds_cutoff 4096 (full_segment idx) < 2) = False" "ceil_log 2 2 + 1 = 2"
      by (simp_all add: balanced_thresholds_cutoff_def spe ceil_log.simps div_up_def)
    then show ?thesis using thr split within by metis
  qed
  moreover have "e_page_size small_env = 4096" by (simp add: small_env_def)
  ultimately show ?thesis
    using find plan rank unfolding resizing_def Let_def by (simp add: full_segment_def)
qed

section \<open>The property\<close>

text \<open>C3. An insertion into a full segment for which the whole array is copied to one of twice the segments, not
  larger than an extent: it returns an array that satisfies the invariant, of twice the segments, whose
  elements are the old ones in order with the new pair before those of the same or a greater key. The
  window, the number of segments, the weights, the partitions and the copy are those the code computes.\<close>

theorem rma_insert_resize_correct:
  assumes "rma_ok p" and "contents p \<noteq> []" and "index_find (m_index p) key = Some s" and "resizing env p s n"
  shows "\<exists>p'. pma_insert env p key val = Some p' \<and> rma_ok p' \<and> contents p' = insert_before (key, val) (contents p)
    \<and> sorted (map fst (contents p')) \<and> pma_size p' = pma_size p + 1
    \<and> dims p' = (2 * m_number_segments (m_storage p), m_segment_capacity (m_storage p), m_pages_per_extent (m_storage p))"
proof -
  have "m_cardinality (m_storage p) \<noteq> 0" using assms(2) by (auto simp: contents_def split: if_splits)
  then obtain q where q: "pma_insert env p key val = Some q" "rma_ok q" "contents q = insert_before (key, val) (contents p)"
      "dims q = (2 * m_number_segments (m_storage p), m_segment_capacity (m_storage p), m_pages_per_extent (m_storage p))"
    using pma_insert_resize[OF assms(1) _ assms(3,4)] by metis
  have "m_cardinality (m_storage q) \<noteq> 0" using arg_cong[OF q(3), of length] by (auto simp: contents_def split: if_splits)
  then have "sorted (map fst (contents q))" using rma_ok_elems(2)[OF q(2)] by (simp add: contents_def)
  then show ?thesis using q length_contents[OF assms(1)] length_contents[OF q(2)] by (simp add: pma_size_def)
qed

theorem rma_insert_resize_correct_witness:
  "\<exists>idx idx' p'. new_index ceil_log 7 64 1 = Some idx \<and> set_separator_key idx 0 1 = Some idx'
    \<and> pma_insert small_env (full_segment idx') 5 7 = Some p' \<and> rma_ok p' \<and> dims p' = (2, 4, 1)
    \<and> contents p' = [(1, 10), (2, 20), (3, 30), (5, 7), (9, 90)]"
proof -
  obtain idx idx' where idx: "new_index ceil_log 7 64 1 = Some idx" "set_separator_key idx 0 1 = Some idx'" "index_ok idx' 1"
      "get_separator_key idx' 0 = Some 1"
    by (rule full_segment_index)
  note ok = full_segment_ok[OF idx(3,4)]
  have c: "contents (full_segment idx') = [(1, 10), (2, 20), (3, 30), (9, 90)]"
    using full_segment_elems[of idx'] by (simp add: contents_def full_segment_def)
  have "separators (m_storage (full_segment idx')) = [1]"
    by (simp add: separators_def seg_keys_def seg_start_def full_segment_def upt_rec)
  then have "index_find (m_index (full_segment idx')) 5 = Some 0"
    using rma_searches(1)[OF ok, of 5] by (simp add: full_segment_def)
  moreover have "1 < m_node_size idx'" using idx(3) by (simp add: index_ok_def)
  ultimately show ?thesis
    using rma_insert_resize_correct[OF ok _ _ full_segment_resizing, of 5 7] idx(1,2) c
    by (auto simp: full_segment_def dims_def insert_before_def)
qed

end
