(* ===== verification/RMA_Scan.thy ===== *)
theory RMA_Scan
  imports RMA
begin

text \<open>
  The scans of the rewired memory array: the iterator, \<open>pma/adaptive/int3/iterator.cpp\<close>, and the sum of
  a range, \<open>pma/adaptive/int3/sum.cpp\<close>. Positions are indices of the arrays of keys and values.
\<close>

section \<open>The bounds of an interval\<close>

text \<open>\<open>while (offset < stop && keys[offset] < key_min) offset++;\<close>\<close>

fun skip_less :: "int list \<Rightarrow> int \<Rightarrow> nat \<Rightarrow> nat \<Rightarrow> nat" where
  "skip_less keys key_min offset 0 = offset"
| "skip_less keys key_min offset (Suc n) =
     (if keys ! offset < key_min then skip_less keys key_min (Suc offset) n else offset)"

record Lower =
  lb_segment_id :: nat
  lb_offset :: nat
  lb_stop :: nat
  lb_notfound :: bool

definition segment_begin :: "Storage \<Rightarrow> nat \<Rightarrow> nat" where
  "segment_begin st segment_id =
     (if even segment_id then (segment_id + 1) * m_segment_capacity st - m_segment_sizes st ! segment_id
      else segment_id * m_segment_capacity st)"

text \<open>The first element of the interval, from a segment on.\<close>

function lower_search :: "Storage \<Rightarrow> int \<Rightarrow> nat \<Rightarrow> Lower" where
  "lower_search st key_min segment_id =
     (let start = segment_begin st segment_id; sz = m_segment_sizes st ! segment_id; stop = start + sz;
          offset = skip_less (m_keys st) key_min start sz
      in if offset = stop then
           if segment_id + 1 < m_number_segments st then lower_search st key_min (segment_id + 1)
           else \<lparr>lb_segment_id = segment_id + 1, lb_offset = offset, lb_stop = stop, lb_notfound = True\<rparr>
         else \<lparr>lb_segment_id = segment_id, lb_offset = offset, lb_stop = stop, lb_notfound = False\<rparr>)"
  by pat_completeness auto
termination by (relation "measure (\<lambda>(st, k, i). m_number_segments st - i)") auto

text \<open>\<open>while (offset >= stop && keys[offset] > key_max) offset--;\<close>, from \<open>stop + n - 1\<close>. The result is one
  more than the offset.\<close>

fun skip_greater :: "int list \<Rightarrow> int \<Rightarrow> int \<Rightarrow> nat \<Rightarrow> int" where
  "skip_greater keys key_max stop 0 = stop"
| "skip_greater keys key_max stop (Suc n) =
     (if keys ! nat (stop + int n) > key_max then skip_greater keys key_max stop n else stop + int n + 1)"

text \<open>One more than the last element of the interval, from a segment backwards to \<open>first_id\<close>. In an
  even segment the loop also looks at the cell before the first element.\<close>

function upper_search :: "Storage \<Rightarrow> int \<Rightarrow> nat \<Rightarrow> nat \<Rightarrow> int" where
  "upper_search st key_max first_id segment_id =
     (let cap = int (m_segment_capacity st); sz = m_segment_sizes st ! segment_id;
          stop = (if even segment_id then int (segment_id + 1) * cap - 1 - int sz else int segment_id * cap);
          upto = skip_greater (m_keys st) key_max stop (if even segment_id then sz + 1 else sz)
      in if upto - 1 < stop \<and> first_id < segment_id then upper_search st key_max first_id (segment_id - 1) else upto)"
  by pat_completeness auto
termination by (relation "measure (\<lambda>(st, k, a, i). i)") auto

declare lower_search.simps [simp del] upper_search.simps [simp del]

section \<open>Iterator\<close>

record Iterator =
  it_next_segment :: nat
  it_offset :: nat
  it_stop :: nat
  it_index_max :: nat

definition empty_iterator :: Iterator where
  "empty_iterator = \<lparr>it_next_segment = 0, it_offset = 0, it_stop = 0, it_index_max = 0\<rparr>"

definition new_iterator :: "Storage \<Rightarrow> nat \<Rightarrow> nat \<Rightarrow> int \<Rightarrow> int \<Rightarrow> Iterator option" where
  "new_iterator st segment_start segment_end key_min key_max =
     (if segment_end < segment_start then None
      else if m_number_segments st \<le> segment_end then Some empty_iterator
      else
        let l = lower_search st key_min segment_start;
            next_segment = lb_segment_id l + 1;
            whole = (even (lb_segment_id l) \<and> next_segment < m_number_segments st);
            stop = (if whole then next_segment * m_segment_capacity st + m_segment_sizes st ! next_segment else lb_stop l);
            it = \<lparr>it_next_segment = (if whole then next_segment + 1 else next_segment), it_offset = lb_offset l,
                  it_stop = stop, it_index_max = 0\<rparr>
        in if lb_notfound l \<or> m_keys st ! lb_offset l > key_max then Some (it\<lparr>it_stop := 0\<rparr>)
        else
          let upto = upper_search st key_max (lb_segment_id l) segment_end
          in if upto - 1 < int (lb_offset l) then Some (it\<lparr>it_stop := 0\<rparr>)
          else Some (it\<lparr>it_index_max := nat upto, it_stop := min (nat upto) stop\<rparr>))"

definition next_sequence :: "Storage \<Rightarrow> Iterator \<Rightarrow> Iterator" where
  "next_sequence st it =
     (let segment1 = it_next_segment it; cap = m_segment_capacity st in
      if segment1 < m_number_segments st then
        if even segment1 then
          let segment2 = segment1 + 1; stop = segment2 * cap
          in it\<lparr>it_offset := segment1 * cap + cap - m_segment_sizes st ! segment1,
                it_stop := (if segment2 < m_number_segments st then min (stop + m_segment_sizes st ! segment2) (it_index_max it)
                            else min stop (it_index_max it)),
                it_next_segment := segment1 + 2\<rparr>
        else it\<lparr>it_offset := segment1 * cap, it_stop := min (it_index_max it) (segment1 * cap + m_segment_sizes st ! segment1),
                it_next_segment := segment1 + 1\<rparr>
      else it)"

definition it_hasNext :: "Iterator \<Rightarrow> bool" where
  "it_hasNext it \<longleftrightarrow> it_offset it < it_stop it"

definition it_next :: "Storage \<Rightarrow> Iterator \<Rightarrow> (int \<times> int) \<times> Iterator" where
  "it_next st it =
     (let it' = it\<lparr>it_offset := it_offset it + 1\<rparr>
      in ((m_keys st ! it_offset it, m_values st ! it_offset it),
          if it_stop it' \<le> it_offset it' then next_sequence st it' else it'))"

definition pma_find_range :: "PackedMemoryArray \<Rightarrow> int \<Rightarrow> int \<Rightarrow> Iterator option" where
  "pma_find_range p key_min key_max =
     (if pma_empty p then Some empty_iterator
      else do {
        a \<leftarrow> find_first (m_index p) key_min;
        b \<leftarrow> find_last (m_index p) key_max;
        new_iterator (m_storage p) a b key_min key_max })"

definition pma_iterator :: "PackedMemoryArray \<Rightarrow> Iterator option" where
  "pma_iterator p =
     (if pma_empty p then Some empty_iterator
      else new_iterator (m_storage p) 0 (m_number_segments (m_storage p) - 1) INT64_MIN INT64_MAX)"

text \<open>What a client reads with \<open>while (it.hasNext()) it.next()\<close>, up to a number of elements.\<close>

fun it_read :: "Storage \<Rightarrow> nat \<Rightarrow> Iterator \<Rightarrow> (int \<times> int) list" where
  "it_read st 0 it = []"
| "it_read st (Suc n) it = (if it_hasNext it then let (x, it') = it_next st it in x # it_read st n it' else [])"

section \<open>Sum\<close>

text \<open>The runs of a pair of segments that the sum adds up; a run that adds nothing is repeated forever.\<close>

function sum_runs :: "Storage \<Rightarrow> nat \<Rightarrow> nat \<Rightarrow> nat \<Rightarrow> nat \<Rightarrow> SumResult \<Rightarrow> SumResult option" where
  "sum_runs st endpos segment_id offset stop acc =
     (if endpos \<le> offset then Some acc
      else
        let xs = [offset..<stop];
            acc = acc\<lparr>m_num_elements := m_num_elements acc + (stop - offset),
              m_sum_keys := sum64 (m_sum_keys acc) (map (\<lambda>i. m_keys st ! i) xs),
              m_sum_values := sum64 (m_sum_values acc) (map (\<lambda>i. m_values st ! i) xs)\<rparr>;
            segment_id = segment_id + 1 + (if even segment_id then 1 else 0)
        in if segment_id < m_number_segments st then
             let size_lhs = m_segment_sizes st ! segment_id; size_rhs = m_segment_sizes st ! (segment_id + 1);
                 offset = (segment_id + 1) * m_segment_capacity st - size_lhs
             in sum_runs st endpos segment_id offset (min endpos (offset + size_lhs + size_rhs)) acc
           else if endpos \<le> max offset stop then Some acc else None)"
  by pat_completeness auto
termination by (relation "measure (\<lambda>(st, e, i, a, b, s). m_number_segments st - i)") auto

declare sum_runs.simps [simp del]

definition do_sum :: "Storage \<Rightarrow> nat \<Rightarrow> nat \<Rightarrow> int \<Rightarrow> int \<Rightarrow> SumResult option" where
  "do_sum st segment_start segment_end key_min key_max =
     (if m_cardinality st = 0 \<or> key_max < key_min \<or> segment_end < segment_start then Some empty_sum
      else if m_number_segments st \<le> segment_start then None
      else
        let l = lower_search st key_min segment_start; segment_id = lb_segment_id l; offset = lb_offset l;
            stop = (if even segment_id \<and> segment_id < m_number_segments st - 1
              then (segment_id + 1) * m_segment_capacity st + m_segment_sizes st ! (segment_id + 1) else lb_stop l)
        in if lb_notfound l \<or> m_keys st ! offset > key_max then Some empty_sum
        else if \<not> segment_end < m_number_segments st then None
        else
          let upto = upper_search st key_max segment_id segment_end
          in if upto \<le> int offset then Some empty_sum
          else do {
            acc \<leftarrow> sum_runs st (nat upto) segment_id offset (min stop (nat upto)) (empty_sum\<lparr>m_first_key := m_keys st ! offset\<rparr>);
            Some (acc\<lparr>m_last_key := m_keys st ! (nat upto - 1)\<rparr>) })"

definition pma_sum :: "PackedMemoryArray \<Rightarrow> int \<Rightarrow> int \<Rightarrow> SumResult option" where
  "pma_sum p key_min key_max = do {
     a \<leftarrow> find_first (m_index p) key_min;
     b \<leftarrow> find_last (m_index p) key_max;
     do_sum (m_storage p) a b key_min key_max }"

end
