(* ===== verification/RMA_Scan_Proofs.thy ===== *)
theory RMA_Scan_Proofs
  imports RMA_Scan RMA_Proofs
begin

text \<open>
  Facts on the scans of the rewired memory array: the cells of its elements in order, the cells that the
  searches for the bounds of an interval find, and the runs that the iterator and the sum go through.
\<close>

section \<open>The cells of the elements\<close>

definition seg_cells :: "Storage \<Rightarrow> nat \<Rightarrow> nat list" where
  "seg_cells st s = [seg_start st s..<seg_start st s + m_segment_sizes st ! s]"

definition cells_from :: "Storage \<Rightarrow> nat \<Rightarrow> nat list" where
  "cells_from st s = concat (map (seg_cells st) [s..<m_number_segments st])"

definition pair_at :: "Storage \<Rightarrow> nat \<Rightarrow> int \<times> int" where
  "pair_at st c = (m_keys st ! c, m_values st ! c)"

lemma cells_from_Cons: "s < m_number_segments st \<Longrightarrow> cells_from st s = seg_cells st s @ cells_from st (s + 1)"
  by (simp add: cells_from_def upt_conv_Cons)

lemma cells_from_end [simp]: "m_number_segments st \<le> s \<Longrightarrow> cells_from st s = []"
  by (simp add: cells_from_def)

lemma segment_begin_start: "segment_begin st s = seg_start st s"
  by (simp add: segment_begin_def seg_start_def)

lemma seg_elems_cells:
  assumes "storage_ok st" and "s < m_number_segments st"
  shows "seg_elems st s = map (pair_at st) (seg_cells st s)"
proof (rule nth_equalityI)
  show len: "length (seg_elems st s) = length (map (pair_at st) (seg_cells st s))" using assms by (simp add: seg_cells_def)
  fix i assume "i < length (seg_elems st s)"
  then have "i < m_segment_sizes st ! s" using assms by simp
  then show "seg_elems st s ! i = map (pair_at st) (seg_cells st s) ! i"
    using seg_bounds[OF assms] storage_ok_segment[OF assms] by (simp add: seg_elems_def seg_keys_def seg_vals_def seg_cells_def pair_at_def)
qed

lemma elems_cells:
  assumes "storage_ok st"
  shows "elems st = map (pair_at st) (cells_from st 0)"
proof -
  have "map (seg_elems st) [0..<m_number_segments st] = map (map (pair_at st) \<circ> seg_cells st) [0..<m_number_segments st]"
    by (rule map_cong[OF refl]) (use assms seg_elems_cells in auto)
  then show ?thesis by (simp only: elems_def cells_from_def map_concat list.map_comp)
qed

lemma seg_cells_bounds:
  assumes "storage_ok st" and "s < m_number_segments st" and "c \<in> set (seg_cells st s)"
  shows "s * m_segment_capacity st \<le> c" and "c < (s + 1) * m_segment_capacity st"
  using assms(3) seg_bounds[OF assms(1,2)] by (auto simp: seg_cells_def)

lemma cells_from_lower:
  assumes "storage_ok st" and "c \<in> set (cells_from st s)"
  shows "s * m_segment_capacity st \<le> c"
proof -
  obtain t where t: "s \<le> t" "t < m_number_segments st" "c \<in> set (seg_cells st t)" using assms(2) by (auto simp: cells_from_def)
  then show ?thesis using seg_cells_bounds(1)[OF assms(1) t(2,3)] mult_le_mono1[OF t(1), of "m_segment_capacity st"] by linarith
qed

lemma cells_sorted:
  assumes "storage_ok st"
  shows "sorted (cells_from st s)"
proof (induction "m_number_segments st - s" arbitrary: s)
  case (Suc n)
  then have s: "s < m_number_segments st" by simp
  have "c \<le> d" if "c \<in> set (seg_cells st s)" "d \<in> set (cells_from st (s + 1))" for c d
    using seg_cells_bounds(2)[OF assms s that(1)] cells_from_lower[OF assms that(2)] by simp
  moreover have "sorted (cells_from st (s + 1))" using Suc by simp
  ultimately show ?case unfolding cells_from_Cons[OF s] by (auto simp: sorted_append seg_cells_def)
qed simp

lemma sorted_last: "sorted xs \<Longrightarrow> x \<in> set xs \<Longrightarrow> x \<le> last xs"
  by (induction xs) auto

section \<open>Runs\<close>

text \<open>The end of the run of cells that starts in a segment: an even segment and the next one are adjacent.
  The segment after the run.\<close>

definition run_end :: "Storage \<Rightarrow> nat \<Rightarrow> nat" where
  "run_end st s = (if even s \<and> s + 1 < m_number_segments st
     then (s + 1) * m_segment_capacity st + m_segment_sizes st ! (s + 1) else seg_start st s + m_segment_sizes st ! s)"

definition after_run :: "Storage \<Rightarrow> nat \<Rightarrow> nat" where
  "after_run st s = (if even s then s + 2 else s + 1)"

lemma run_end_bounds:
  assumes "storage_ok st" and "s < m_number_segments st"
  shows "seg_start st s + m_segment_sizes st ! s \<le> run_end st s" and "run_end st s \<le> after_run st s * m_segment_capacity st"
proof -
  note b = storage_ok_segment(3)[OF assms]
  show "seg_start st s + m_segment_sizes st ! s \<le> run_end st s" using b by (auto simp: run_end_def seg_start_def)
  show "run_end st s \<le> after_run st s * m_segment_capacity st"
    using b seg_bounds[OF assms] storage_ok_segment(3)[OF assms(1), of "s + 1"] by (auto simp: run_end_def after_run_def)
qed

lemma cells_from_run:
  assumes ok: "storage_ok st" and s: "s < m_number_segments st" and o: "seg_start st s \<le> o'" "o' \<le> seg_start st s + m_segment_sizes st ! s"
  shows "[o'..<seg_start st s + m_segment_sizes st ! s] @ cells_from st (s + 1) = [o'..<run_end st s] @ cells_from st (after_run st s)"
proof (cases "even s \<and> s + 1 < m_number_segments st")
  case True
  have e: "seg_start st s + m_segment_sizes st ! s = (s + 1) * m_segment_capacity st"
    using True storage_ok_segment(3)[OF ok s] by (simp add: seg_start_def)
  have n: "seg_start st (s + 1) = (s + 1) * m_segment_capacity st" using True by (simp add: seg_start_def)
  have "[o'..<(s + 1) * m_segment_capacity st] @ seg_cells st (s + 1) = [o'..<run_end st s]"
    using True o(2) upt_add_eq_append[of o' "(s + 1) * m_segment_capacity st" "m_segment_sizes st ! (s + 1)"]
    unfolding e seg_cells_def n by (simp add: run_end_def)
  then show ?thesis using True cells_from_Cons[of "s + 1" st] by (simp add: e after_run_def)
qed (auto simp: run_end_def after_run_def)

section \<open>The lower bound\<close>

lemma skip_less_result:
  "skip_less keys k c n = c + length (takeWhile (\<lambda>i. keys ! i < k) [c..<c + n])"
  by (induction n arbitrary: c) (auto simp: upt_conv_Cons simp del: upt_Suc)

lemma lower_search_result:
  assumes ok: "storage_ok st"
  shows "s < m_number_segments st \<Longrightarrow>
    (if lb_notfound (lower_search st k s) then dropWhile (\<lambda>c. m_keys st ! c < k) (cells_from st s) = []
     else let l = lower_search st k s; t = lb_segment_id l in
       s \<le> t \<and> t < m_number_segments st \<and> seg_start st t \<le> lb_offset l \<and> lb_offset l < lb_stop l
       \<and> lb_stop l = seg_start st t + m_segment_sizes st ! t
       \<and> dropWhile (\<lambda>c. m_keys st ! c < k) (cells_from st s) = [lb_offset l..<lb_stop l] @ cells_from st (t + 1))"
proof (induction st k s rule: lower_search.induct)
  case (1 st k s)
  let ?P = "\<lambda>c. m_keys st ! c < k"
  define a where "a = seg_start st s"
  define e where "e = a + m_segment_sizes st ! s"
  define j where "j = length (takeWhile ?P [a..<e])"
  have off: "skip_less (m_keys st) k a (m_segment_sizes st ! s) = a + j" by (simp add: skip_less_result j_def e_def)
  have jl: "a + j \<le> e" using length_takeWhile_le[of ?P "[a..<e]"] by (simp add: j_def e_def)
  have cs: "cells_from st s = [a..<e] @ cells_from st (s + 1)" using cells_from_Cons[OF "1.prems"] by (simp add: seg_cells_def a_def e_def)
  have dw: "dropWhile ?P [a..<e] = [a + j..<e]" unfolding dropWhile_eq_drop j_def[symmetric] by simp
  note ls = lower_search.simps[of st k s, unfolded segment_begin_start, folded a_def, unfolded Let_def off, folded e_def]
  show ?case
  proof (cases "a + j = e")
    case True
    then have all: "dropWhile ?P (cells_from st s) = dropWhile ?P (cells_from st (s + 1))"
      using dw unfolding cs by (simp add: dropWhile_append)
    show ?thesis
    proof (cases "s + 1 < m_number_segments st")
      case t: True
      have ih: "if lb_notfound (lower_search st k (s + 1)) then dropWhile ?P (cells_from st (s + 1)) = []
        else let l = lower_search st k (s + 1); t = lb_segment_id l in
          s + 1 \<le> t \<and> t < m_number_segments st \<and> seg_start st t \<le> lb_offset l \<and> lb_offset l < lb_stop l
          \<and> lb_stop l = seg_start st t + m_segment_sizes st ! t
          \<and> dropWhile ?P (cells_from st (s + 1)) = [lb_offset l..<lb_stop l] @ cells_from st (t + 1)"
        using "1.IH"[OF refl refl refl refl _ t t] True
        by (simp add: segment_begin_start a_def[symmetric] e_def[symmetric] off)
      have "lower_search st k s = lower_search st k (s + 1)" using ls True t by simp
      then show ?thesis using ih all by (simp add: Let_def split: if_splits)
    next
      case False
      then show ?thesis using ls True all by simp
    qed
  next
    case False
    then have lt: "a + j < e" using jl by simp
    have "dropWhile ?P (cells_from st s) = [a + j..<e] @ cells_from st (s + 1)"
      using dw dropWhile_eq_Nil_conv[of ?P "[a..<e]"] lt unfolding cs by (simp only: dropWhile_append) auto
    then show ?thesis using ls False lt "1.prems" by (simp add: Let_def a_def e_def)
  qed
qed


section \<open>The upper bound\<close>

lemma skip_greater_result:
  fixes keys :: "int list" and k stop :: int
  defines "r n \<equiv> skip_greater keys k stop n"
  shows "stop \<le> r n \<and> r n \<le> stop + int n \<and> (\<forall>j. r n \<le> j \<and> j < stop + int n \<longrightarrow> k < keys ! nat j)
    \<and> (stop < r n \<longrightarrow> keys ! nat (r n - 1) \<le> k)"
proof (induction n)
  case (Suc n)
  show ?case
  proof (cases "k < keys ! nat (stop + int n)")
    case True
    have "k < keys ! nat j" if "r n \<le> j" "j < stop + int (Suc n)" for j
      using that True Suc.IH by (cases "j = stop + int n") auto
    then show ?thesis using True Suc.IH by (simp add: r_def)
  next
    case False
    then show ?thesis by (simp add: r_def)
  qed
qed (simp add: r_def)

text \<open>In a segment with an element of the interval the search ends, at the last one.\<close>

lemma upper_search_result:
  assumes ok: "storage_ok st" and e: "e < m_number_segments st" and srt: "sorted (seg_keys st e)"
    and c: "c0 \<in> set (seg_cells st e)" "m_keys st ! c0 \<le> k"
  obtains hi where "\<And>f. upper_search st k f e = int hi" and "c0 < hi" and "hi \<le> seg_start st e + m_segment_sizes st ! e"
    and "hi - 1 \<in> set (seg_cells st e)"
    and "\<forall>c\<in>set (seg_cells st e). c < hi \<longleftrightarrow> m_keys st ! c \<le> k"
proof -
  let ?a = "seg_start st e" and ?z = "m_segment_sizes st ! e"
  define stop where "stop = (if even e then int (e + 1) * int (m_segment_capacity st) - 1 - int ?z else int e * int (m_segment_capacity st))"
  define n where "n = (if even e then ?z + 1 else ?z)"
  have z: "?z \<le> m_segment_capacity st" by (rule storage_ok_segment(3)[OF ok e])
  have zs: "?z \<le> (e + 1) * m_segment_capacity st" using z by simp
  have stop: "stop = (if even e then int ?a - 1 else int ?a)"
    using zs by (auto simp: stop_def seg_start_def of_nat_diff algebra_simps)
  have fin: "stop + int n = int (?a + ?z)" by (simp add: stop n_def)
  define r where "r = skip_greater (m_keys st) k stop n"
  note sk = skip_greater_result[of stop "m_keys st" k n, folded r_def]
  have in_seg: "?a \<le> c0" "c0 < ?a + ?z" using c(1) by (auto simp: seg_cells_def)
  have r0: "int c0 < r"
  proof (rule ccontr)
    assume "\<not> ?thesis"
    then have "k < m_keys st ! nat (int c0)" using sk in_seg(2) fin by (metis not_less of_nat_less_iff)
    then show False using c(2) by simp
  qed
  have up: "upper_search st k f e = r" for f
    using r0 in_seg(1) stop upper_search.simps[of st k f e, unfolded Let_def, folded stop_def n_def r_def] by (simp split: if_splits)
  have mono: "m_keys st ! i \<le> m_keys st ! j" if "?a \<le> i" "i \<le> j" "j < ?a + ?z" for i j
  proof -
    have len: "?a + ?z \<le> length (m_keys st)" using seg_bounds[OF ok e] storage_ok_segment[OF ok e] by linarith
    have "seg_keys st e ! (i - ?a) \<le> seg_keys st e ! (j - ?a)" by (rule sorted_nth_mono[OF srt]) (use that e ok in auto)
    then show ?thesis using that len by (simp add: seg_keys_def)
  qed
  show ?thesis
  proof (rule that[of "nat r"])
    show "upper_search st k f e = int (nat r)" for f using up r0 by auto
    show "c0 < nat r" using r0 by auto
    show "nat r - 1 \<in> set (seg_cells st e)" using r0 in_seg sk fin by (auto simp: seg_cells_def)
    show "nat r \<le> ?a + ?z" using sk fin by linarith
    show "\<forall>c\<in>set (seg_cells st e). c < nat r \<longleftrightarrow> m_keys st ! c \<le> k"
    proof (intro ballI iffI)
      fix c assume c: "c \<in> set (seg_cells st e)"
      then have b: "?a \<le> c" "c < ?a + ?z" by (auto simp: seg_cells_def)
      show "m_keys st ! c \<le> k" if "c < nat r"
      proof -
        have "stop < r" using that b stop by (auto split: if_splits)
        then have "m_keys st ! nat (r - 1) \<le> k" using sk by blast
        moreover have "m_keys st ! c \<le> m_keys st ! nat (r - 1)" by (rule mono) (use that b sk fin in linarith)+
        ultimately show ?thesis by simp
      qed
      show "c < nat r" if "m_keys st ! c \<le> k"
      proof (rule ccontr)
        assume "\<not> ?thesis"
        then have "k < m_keys st ! nat (int c)" using sk b(2) fin r0 by (metis nat_le_eq_zle nat_less_iff not_less of_nat_0_le_iff of_nat_less_iff zero_less_nat_eq)
        then show False using that by simp
      qed
    qed
  qed
qed

section \<open>Reading the iterator\<close>

text \<open>The cells an iterator still reads, of a run that ends at \<open>E\<close> and the segments after it.\<close>

definition it_cells :: "Storage \<Rightarrow> Iterator \<Rightarrow> nat \<Rightarrow> nat list" where
  "it_cells st it E = takeWhile (\<lambda>c. c < it_index_max it) ([it_offset it..<E] @ cells_from st (it_next_segment it))"

definition it_ok :: "Storage \<Rightarrow> Iterator \<Rightarrow> nat \<Rightarrow> bool" where
  "it_ok st it E \<longleftrightarrow> it_stop it = min E (it_index_max it) \<and> it_offset it \<le> E \<and> E \<le> it_next_segment it * m_segment_capacity st
     \<and> (it_offset it < E \<or> m_number_segments st \<le> it_next_segment it)"

lemma next_sequence_result:
  assumes "storage_ok st" and "it_next_segment it < m_number_segments st"
  defines "s \<equiv> it_next_segment it"
  shows "next_sequence st it = it\<lparr>it_offset := seg_start st s, it_stop := min (run_end st s) (it_index_max it), it_next_segment := after_run st s\<rparr>"
proof -
  have "m_segment_sizes st ! s \<le> (s + 1) * m_segment_capacity st"
    using storage_ok_segment(3)[OF assms(1), of s] assms(2) by (simp add: s_def)
  then show ?thesis using assms(2)
    by (auto simp: next_sequence_def Let_def seg_start_def run_end_def after_run_def min.commute s_def)
qed

lemma it_read_cells:
  assumes ok: "storage_ok st" and sizes: "\<forall>s<m_number_segments st. 0 < m_segment_sizes st ! s"
  shows "it_ok st it E \<Longrightarrow> length (it_cells st it E) \<le> m \<Longrightarrow> it_read st m it = map (pair_at st) (it_cells st it E)"
proof (induction m arbitrary: it E)
  case (Suc m)
  note inv = Suc.prems(1)[unfolded it_ok_def]
  let ?o = "it_offset it" and ?M = "it_index_max it" and ?s = "it_next_segment it"
  show ?case
  proof (cases "it_cells st it E")
    case Nil
    then have "\<not> (?o < E \<and> ?o < ?M)" by (auto simp: it_cells_def upt_conv_Cons)
    then show ?thesis using inv Nil by (auto simp: it_hasNext_def)
  next
    case (Cons c cs)
    have oE: "?o < E"
    proof (rule ccontr)
      assume "\<not> ?o < E"
      then have "it_cells st it E = []" using inv by (auto simp: it_cells_def)
      then show False using Cons by simp
    qed
    then have full: "it_cells st it E = (if ?o < ?M then ?o # takeWhile (\<lambda>c. c < ?M) ([?o + 1..<E] @ cells_from st ?s) else [])"
      by (simp add: it_cells_def upt_conv_Cons)
    then have oM: "?o < ?M" and cs: "cs = takeWhile (\<lambda>c. c < ?M) ([?o + 1..<E] @ cells_from st ?s)" and c: "c = ?o"
      using Cons by (auto split: if_splits)
    define it' where "it' = it\<lparr>it_offset := ?o + 1\<rparr>"
    obtain it2 E2 where next_it: "snd (it_next st it) = it2" "it_ok st it2 E2" "it_cells st it2 E2 = cs"
    proof (cases "it_stop it \<le> ?o + 1")
      case False
      then have "snd (it_next st it) = it'" by (simp add: it_next_def it'_def Let_def)
      moreover have "it_ok st it' E" using inv False by (auto simp: it_ok_def it'_def)
      ultimately show ?thesis using that cs by (simp add: it_cells_def it'_def)
    next
      case True
      then have e: "min E ?M = ?o + 1" using inv oE oM by linarith
      have nx: "snd (it_next st it) = next_sequence st it'" using True by (simp add: it_next_def it'_def Let_def)
      show ?thesis
      proof (cases "?s < m_number_segments st")
        case False
        then have "next_sequence st it' = it'" by (simp add: next_sequence_def it'_def Let_def)
        moreover have "it_ok st it' E" using inv e False by (auto simp: it_ok_def it'_def)
        ultimately show ?thesis using that nx cs by (simp add: it_cells_def it'_def)
      next
        case s: True
        define it2 where "it2 = it'\<lparr>it_offset := seg_start st ?s, it_stop := min (run_end st ?s) ?M, it_next_segment := after_run st ?s\<rparr>"
        have n2: "next_sequence st it' = it2" using next_sequence_result[OF ok, of it'] s by (simp add: it2_def it'_def)
        have run: "[seg_start st ?s..<run_end st ?s] @ cells_from st (after_run st ?s) = cells_from st ?s"
          using cells_from_run[OF ok s order_refl le_add1] cells_from_Cons[OF s] by (simp add: seg_cells_def)
        have "it_ok st it2 (run_end st ?s)"
          using run_end_bounds[OF ok s] sizes s by (auto simp: it_ok_def it2_def it'_def)
        moreover have "it_cells st it2 (run_end st ?s) = cs"
        proof -
          have "it_cells st it2 (run_end st ?s) = takeWhile (\<lambda>c. c < ?M) (cells_from st ?s)"
            by (simp add: it_cells_def it2_def it'_def run)
          also have "\<dots> = cs"
          proof (cases "E = ?o + 1")
            case False
            then have M: "?M = ?o + 1" "?o + 1 < E" using e oE by linarith+
            have "takeWhile (\<lambda>c. c < ?M) (cells_from st ?s) = []"
            proof (cases "cells_from st ?s")
              case (Cons x xs)
              then have "?s * m_segment_capacity st \<le> x" using cells_from_lower[OF ok, of x ?s] by simp
              then show ?thesis using Cons M inv by simp
            qed simp
            moreover have "cs = []" using M by (simp add: cs upt_conv_Cons)
            ultimately show ?thesis by simp
          qed (simp add: cs)
          finally show ?thesis .
        qed
        ultimately show ?thesis using that nx n2 by simp
      qed
    qed
    have "it_read st m it2 = map (pair_at st) cs" using Suc.IH[OF next_it(2)] next_it(3) Suc.prems(2) Cons by simp
    moreover have "it_hasNext it" using inv oE oM by (simp add: it_hasNext_def)
    moreover have "it_next st it = (pair_at st ?o, it2)" using next_it(1) by (auto simp: it_next_def pair_at_def Let_def)
    ultimately show ?thesis using Cons c by simp
  qed
qed simp


section \<open>Intervals\<close>

lemma filter_sorted_range:
  fixes f :: "'a \<Rightarrow> int"
  assumes "sorted (map f cs)"
  shows "filter (\<lambda>c. mn \<le> f c \<and> f c \<le> mx) cs = takeWhile (\<lambda>c. f c \<le> mx) (dropWhile (\<lambda>c. f c < mn) cs)"
  using assms
proof (induction cs)
  case (Cons c cs)
  show ?case
  proof (cases "f c < mn")
    case False
    have low: "\<forall>x\<in>set cs. mn \<le> f x" using Cons.prems False by force
    then have dw: "dropWhile (\<lambda>c. f c < mn) cs = cs" by (cases cs) auto
    show ?thesis
    proof (cases "f c \<le> mx")
      case True
      then show ?thesis using Cons False dw by auto
    next
      case big: False
      then have "\<forall>x\<in>set cs. \<not> f x \<le> mx" using Cons.prems by force
      then show ?thesis using big False by (auto simp: filter_empty_conv)
    qed
  qed (use Cons in auto)
qed simp

text \<open>The cells of an interval of keys, in order.\<close>

definition range_cells :: "Storage \<Rightarrow> int \<Rightarrow> int \<Rightarrow> nat list" where
  "range_cells st mn mx = takeWhile (\<lambda>c. m_keys st ! c \<le> mx) (dropWhile (\<lambda>c. m_keys st ! c < mn) (cells_from st 0))"

lemma range_cells_elems:
  assumes "storage_ok st" and "sorted (map fst (elems st))"
  shows "in_range mn mx (elems st) = map (pair_at st) (range_cells st mn mx)"
proof -
  let ?cs = "cells_from st 0"
  have keys: "map fst (elems st) = map (\<lambda>c. m_keys st ! c) ?cs" by (simp add: elems_cells[OF assms(1)] comp_def pair_at_def)
  have "in_range mn mx (elems st) = map (pair_at st) (filter (\<lambda>c. mn \<le> m_keys st ! c \<and> m_keys st ! c \<le> mx) ?cs)"
    by (simp add: in_range_def elems_cells[OF assms(1)] filter_map comp_def pair_at_def)
  then show ?thesis
    using filter_sorted_range[of "\<lambda>c. m_keys st ! c" ?cs mn mx] assms(2) by (simp add: keys range_cells_def)
qed

lemma cells_in_order:
  assumes "storage_ok st" and "sorted (map fst (elems st))" and "s < t" and "t < m_number_segments st"
    and "c \<in> set (seg_cells st s)" and "d \<in> set (seg_cells st t)"
  shows "c < d" and "m_keys st ! c \<le> m_keys st ! d"
proof -
  have s: "s < m_number_segments st" using assms(3,4) by simp
  have "(s + 1) * m_segment_capacity st \<le> t * m_segment_capacity st" using assms(3) by (intro mult_le_mono1) simp
  then show "c < d" using seg_cells_bounds(2)[OF assms(1) s assms(5)] seg_cells_bounds(1)[OF assms(1,4,6)] by linarith
  show "m_keys st ! c \<le> m_keys st ! d"
    using segments_in_order[OF assms(1-4), of "pair_at st c" "pair_at st d"] assms(5,6)
    by (simp add: seg_elems_cells[OF assms(1) s] seg_elems_cells[OF assms(1,4)] pair_at_def)
qed

lemma first_cell:
  assumes "storage_ok st" and "s < m_number_segments st" and "0 < m_segment_sizes st ! s"
  shows "seg_start st s \<in> set (seg_cells st s)" and "m_keys st ! seg_start st s = separators st ! s"
  using assms seg_hd_cell[OF assms] by (simp_all add: seg_cells_def separators_def)

text \<open>The segment where \<open>find_first\<close> starts: all the keys before it are less than the lower bound.\<close>

lemma lower_segment:
  assumes ok: "rma_ok p" and ne: "m_cardinality (m_storage p) \<noteq> 0"
  obtains a where "find_first (m_index p) mn = Some a" and "a < m_number_segments (m_storage p)"
    and "dropWhile (\<lambda>c. m_keys (m_storage p) ! c < mn) (cells_from (m_storage p) 0) = dropWhile (\<lambda>c. m_keys (m_storage p) ! c < mn) (cells_from (m_storage p) a)"
    and "a = length (takeWhile (\<lambda>x. x < mn) (tl (separators (m_storage p))))"
proof -
  let ?st = "m_storage p"
  let ?n = "m_number_segments ?st" and ?ks = "separators ?st"
  note st = rma_ok_elems(1)[OF ok ne] and srt = rma_ok_elems(2)[OF ok ne]
  have len: "length ?ks = ?n" by (simp add: separators_def)
  then have ksne: "?ks \<noteq> []" using rma_okD(2)[OF ok] by auto
  define a where "a = length (takeWhile (\<lambda>x. x < mn) (tl ?ks))"
  have a: "a < ?n" using length_takeWhile_tl[OF ksne, of "\<lambda>x. x < mn"] len by (simp add: a_def)
  have split: "cells_from ?st 0 = concat (map (seg_cells ?st) [0..<a]) @ cells_from ?st a"
    using a upt_add_eq_append[of 0 a "?n - a"] by (simp add: cells_from_def flip: map_append concat_append)
  have "\<forall>c\<in>set (concat (map (seg_cells ?st) [0..<a])). m_keys ?st ! c < mn"
  proof
    fix c assume "c \<in> set (concat (map (seg_cells ?st) [0..<a]))"
    then obtain s where s: "s < a" "c \<in> set (seg_cells ?st s)" by auto
    have sz: "0 < m_segment_sizes ?st ! a" using rma_ok_elems(3)[OF ok ne] a by blast
    have "a - 1 < length (takeWhile (\<lambda>x. x < mn) (tl ?ks))" using s(1) by (simp add: a_def)
    then have "tl ?ks ! (a - 1) < mn" using nth_mem set_takeWhileD takeWhile_nth by metis
    then have "?ks ! a < mn" using s(1) a len by (simp add: nth_tl)
    then show "m_keys ?st ! c < mn"
      using cells_in_order(2)[OF st srt s(1) a s(2) first_cell(1)[OF st a sz]] first_cell(2)[OF st a sz] by simp
  qed
  then have "dropWhile (\<lambda>c. m_keys ?st ! c < mn) (cells_from ?st 0) = dropWhile (\<lambda>c. m_keys ?st ! c < mn) (cells_from ?st a)"
    unfolding split dropWhile_append by simp
  then show ?thesis using that[of a] a rma_searches(2)[OF ok ne] by (simp add: a_def)
qed

text \<open>From the segment of \<open>find_last\<close> the backward search finds the end of the interval.\<close>

lemma upper_segment:
  assumes ok: "rma_ok p" and ne: "m_cardinality (m_storage p) \<noteq> 0"
  obtains e where "find_last (m_index p) mx = Some e" and "e < m_number_segments (m_storage p)"
    and "\<And>c0. c0 \<in> set (cells_from (m_storage p) 0) \<Longrightarrow> m_keys (m_storage p) ! c0 \<le> mx \<Longrightarrow>
      \<exists>hi. (\<forall>f. upper_search (m_storage p) mx f e = int hi) \<and> c0 < hi \<and> hi - 1 \<in> set (cells_from (m_storage p) 0)
        \<and> (\<forall>c\<in>set (cells_from (m_storage p) 0). c < hi \<longleftrightarrow> m_keys (m_storage p) ! c \<le> mx)"
    and "e = length (takeWhile (\<lambda>x. x \<le> mx) (tl (separators (m_storage p))))"
proof -
  let ?st = "m_storage p"
  let ?n = "m_number_segments ?st" and ?ks = "separators ?st"
  note st = rma_ok_elems(1)[OF ok ne] and srt = rma_ok_elems(2)[OF ok ne]
  have sizes: "\<forall>s<?n. 0 < m_segment_sizes ?st ! s" using rma_ok_elems(3)[OF ok ne] by blast
  have ks: "sorted ?ks" using separators_sorted[OF st srt sizes] .
  have len: "length ?ks = ?n" by (simp add: separators_def)
  then have ksne: "?ks \<noteq> []" using rma_okD(2)[OF ok] by auto
  define e where "e = length (takeWhile (\<lambda>x. x \<le> mx) (tl ?ks))"
  have e: "e < ?n" using length_takeWhile_tl[OF ksne, of "\<lambda>x. x \<le> mx"] len by (simp add: e_def)
  have low: "?ks ! e \<le> mx" if "0 < e"
  proof -
    have "e - 1 < length (takeWhile (\<lambda>x. x \<le> mx) (tl ?ks))" using that by (simp add: e_def)
    then have "tl ?ks ! (e - 1) \<le> mx" using nth_mem set_takeWhileD takeWhile_nth by metis
    then show ?thesis using that e len by (simp add: nth_tl)
  qed
  have high: "mx < m_keys ?st ! c" if u: "e < u" "u < ?n" "c \<in> set (seg_cells ?st u)" for u c
  proof -
    have "e < length (tl ?ks)" using u len by simp
    then have "\<not> tl ?ks ! e \<le> mx" using nth_length_takeWhile[of "\<lambda>x. x \<le> mx" "tl ?ks"] by (simp add: e_def)
    then have "mx < ?ks ! (e + 1)" using u len by (simp add: nth_tl)
    moreover have "?ks ! (e + 1) \<le> ?ks ! u" using ks u len by (intro sorted_nth_mono) auto
    moreover have "?ks ! u \<le> m_keys ?st ! c"
    proof -
      have "sorted (seg_keys ?st u)" by (rule seg_keys_sorted[OF st u(2) srt])
      moreover have "m_keys ?st ! c \<in> set (seg_keys ?st u)"
        using u(3) unfolding map_fst_seg_elems(1)[OF st u(2), symmetric] seg_elems_cells[OF st u(2)] by (auto simp: pair_at_def)
      moreover have "?ks ! u = hd (seg_keys ?st u)" using u(2) by (simp add: separators_def)
      ultimately show ?thesis by (cases "seg_keys ?st u") auto
    qed
    ultimately show ?thesis by linarith
  qed
  have bound: "\<exists>hi. (\<forall>f. upper_search ?st mx f e = int hi) \<and> c0 < hi \<and> hi - 1 \<in> set (cells_from ?st 0)
      \<and> (\<forall>c\<in>set (cells_from ?st 0). c < hi \<longleftrightarrow> m_keys ?st ! c \<le> mx)"
    if c0: "c0 \<in> set (cells_from ?st 0)" "m_keys ?st ! c0 \<le> mx" for c0
  proof -
    obtain t where t: "t < ?n" "c0 \<in> set (seg_cells ?st t)" using c0(1) by (auto simp: cells_from_def)
    have te: "t \<le> e" using high[OF _ t] c0(2) by (metis leI not_le)
    obtain c1 where c1: "c1 \<in> set (seg_cells ?st e)" "m_keys ?st ! c1 \<le> mx" "c0 \<le> c1"
    proof (cases "t = e")
      case False
      have sz: "0 < m_segment_sizes ?st ! e" using sizes e by blast
      have lt: "t < e" using te False by simp
      show ?thesis
        using that[OF first_cell(1)[OF st e sz]] first_cell(2)[OF st e sz] low lt
          cells_in_order(1)[OF st srt lt e t(2) first_cell(1)[OF st e sz]] by simp
    qed (use that t c0 in auto)
    obtain hi where hi: "\<And>f. upper_search ?st mx f e = int hi" "c1 < hi" "hi \<le> seg_start ?st e + m_segment_sizes ?st ! e"
        "\<forall>c\<in>set (seg_cells ?st e). c < hi \<longleftrightarrow> m_keys ?st ! c \<le> mx"
        "hi - 1 \<in> set (seg_cells ?st e)"
      using upper_search_result[OF st e seg_keys_sorted[OF st e srt] c1(1,2)] by metis
    have "hi - 1 \<in> set (cells_from ?st 0)" using hi(5) e by (auto simp: cells_from_def)
    moreover
    have "c < hi \<longleftrightarrow> m_keys ?st ! c \<le> mx" if c: "c \<in> set (cells_from ?st 0)" for c
    proof -
      obtain u where u: "u < ?n" "c \<in> set (seg_cells ?st u)" using c by (auto simp: cells_from_def)
      consider "u = e" | "u < e" | "e < u" by linarith
      then show ?thesis
      proof cases
        case 2
        show ?thesis using cells_in_order[OF st srt 2 e u(2) c1(1)] c1(2) hi(2) by simp
      next
        case 3
        have "(e + 1) * m_segment_capacity ?st \<le> u * m_segment_capacity ?st" using 3 by (intro mult_le_mono1) simp
        then have "hi \<le> c" using hi(3) seg_bounds(2)[OF st e] seg_cells_bounds(1)[OF st u] by simp
        then show ?thesis using high[OF 3 u] by simp
      qed (use hi u in auto)
    qed
    ultimately show ?thesis using hi(1,2) c1(3) by auto
  qed
  show ?thesis using that[of e, OF _ e bound] rma_searches(3)[OF ok ne] by (simp add: e_def)
qed

text \<open>The two bounds together: the searches from the segments \<open>a\<close> and \<open>e\<close> find the cells of the interval.\<close>

definition interval_at :: "Storage \<Rightarrow> int \<Rightarrow> int \<Rightarrow> nat \<Rightarrow> nat \<Rightarrow> bool" where
  "interval_at st mn mx a e \<longleftrightarrow> a \<le> e \<and> e < m_number_segments st
     \<and> (let l = lower_search st mn a; t = lb_segment_id l; r = range_cells st mn mx in
        if lb_notfound l \<or> mx < m_keys st ! lb_offset l then r = []
        else \<exists>hi. (\<forall>f. upper_search st mx f e = int hi)
           \<and> t < m_number_segments st \<and> seg_start st t \<le> lb_offset l \<and> lb_offset l < lb_stop l \<and> lb_offset l < hi
           \<and> lb_stop l = seg_start st t + m_segment_sizes st ! t
           \<and> r = takeWhile (\<lambda>c. c < hi) ([lb_offset l..<lb_stop l] @ cells_from st (t + 1)) \<and> hi = last r + 1 \<and> hd r = lb_offset l)"

lemma interval_at_found:
  fixes st :: Storage and mn mx :: int and a e :: nat
  defines "l \<equiv> lower_search st mn a" and "r \<equiv> range_cells st mn mx"
  assumes "interval_at st mn mx a e" and "\<not> (lb_notfound l \<or> mx < m_keys st ! lb_offset l)"
  obtains hi where "\<forall>f. upper_search st mx f e = int hi" and "lb_segment_id l < m_number_segments st"
    and "seg_start st (lb_segment_id l) \<le> lb_offset l" and "lb_offset l < lb_stop l" and "lb_offset l < hi"
    and "lb_stop l = seg_start st (lb_segment_id l) + m_segment_sizes st ! lb_segment_id l"
    and "r = takeWhile (\<lambda>c. c < hi) ([lb_offset l..<lb_stop l] @ cells_from st (lb_segment_id l + 1))"
    and "hi = last r + 1" and "hd r = lb_offset l"
  using assms(3) unfolding interval_at_def Let_def l_def[symmetric] r_def[symmetric] if_not_P[OF assms(4)] by blast

lemma interval_bounds:
  assumes ok: "rma_ok p" and ne: "m_cardinality (m_storage p) \<noteq> 0" and le: "mn \<le> mx"
  obtains a e where "find_first (m_index p) mn = Some a" and "find_last (m_index p) mx = Some e"
    and "interval_at (m_storage p) mn mx a e"
proof -
  let ?st = "m_storage p"
  let ?P = "\<lambda>c. m_keys ?st ! c < mn"
  note st = rma_ok_elems(1)[OF ok ne]
  obtain a where a: "find_first (m_index p) mn = Some a" "a < m_number_segments ?st"
      "dropWhile ?P (cells_from ?st 0) = dropWhile ?P (cells_from ?st a)"
      "a = length (takeWhile (\<lambda>x. x < mn) (tl (separators ?st)))"
    using lower_segment[OF ok ne, of mn] by blast
  obtain e where e: "find_last (m_index p) mx = Some e" "e < m_number_segments ?st"
      "e = length (takeWhile (\<lambda>x. x \<le> mx) (tl (separators ?st)))"
    and up: "\<And>c0. c0 \<in> set (cells_from ?st 0) \<Longrightarrow> m_keys ?st ! c0 \<le> mx \<Longrightarrow> \<exists>hi. (\<forall>f. upper_search ?st mx f e = int hi) \<and> c0 < hi
        \<and> hi - 1 \<in> set (cells_from ?st 0)
        \<and> (\<forall>c\<in>set (cells_from ?st 0). c < hi \<longleftrightarrow> m_keys ?st ! c \<le> mx)"
    using upper_segment[OF ok ne, of mx] by blast
  have ae: "a \<le> e"
    unfolding a(4) e(3)
  proof (rule le_takeWhile_length)
    show "length (takeWhile (\<lambda>x. x < mn) (tl (separators ?st))) \<le> length (tl (separators ?st))" by (rule length_takeWhile_le)
    fix i assume "i < length (takeWhile (\<lambda>x. x < mn) (tl (separators ?st)))"
    then have "tl (separators ?st) ! i < mn" using nth_mem set_takeWhileD takeWhile_nth by metis
    then show "tl (separators ?st) ! i \<le> mx" using le by simp
  qed
  define l where "l = lower_search ?st mn a"
  note lo = lower_search_result[OF st a(2), of mn, folded l_def]
  have empty: "range_cells ?st mn mx = []" if "lb_notfound l \<or> mx < m_keys ?st ! lb_offset l"
  proof (cases "lb_notfound l")
    case True
    then have "dropWhile ?P (cells_from ?st a) = []" using lo by (simp only: if_True)
    then show ?thesis unfolding range_cells_def a(3) by (simp only: takeWhile.simps(1))
  next
    case False
    then show ?thesis using that lo unfolding range_cells_def a(3) by (simp add: Let_def upt_conv_Cons)
  qed
  have found: "\<exists>hi. (\<forall>f. upper_search ?st mx f e = int hi)
        \<and> (let t = lb_segment_id l; r = range_cells ?st mn mx in
           t < m_number_segments ?st \<and> seg_start ?st t \<le> lb_offset l \<and> lb_offset l < lb_stop l \<and> lb_offset l < hi
           \<and> lb_stop l = seg_start ?st t + m_segment_sizes ?st ! t
           \<and> r = takeWhile (\<lambda>c. c < hi) ([lb_offset l..<lb_stop l] @ cells_from ?st (t + 1)) \<and> hi = last r + 1 \<and> hd r = lb_offset l)"
    if f: "\<not> (lb_notfound l \<or> mx < m_keys ?st ! lb_offset l)"
  proof -
    let ?t = "lb_segment_id l"
    let ?D = "[lb_offset l..<lb_stop l] @ cells_from ?st (?t + 1)"
    have b: "?t < m_number_segments ?st" "seg_start ?st ?t \<le> lb_offset l" "lb_offset l < lb_stop l"
        "lb_stop l = seg_start ?st ?t + m_segment_sizes ?st ! ?t" and d: "dropWhile ?P (cells_from ?st 0) = ?D"
      using lo f a(3) by (simp_all add: Let_def)
    have sub: "set ?D \<subseteq> set (cells_from ?st 0)" unfolding d[symmetric] by (auto dest: set_dropWhileD)
    have lo_in: "lb_offset l \<in> set (cells_from ?st 0)" using sub b(3) by auto
    have key: "m_keys ?st ! lb_offset l \<le> mx" using f by simp
    obtain hi where hi: "\<forall>f. upper_search ?st mx f e = int hi" "lb_offset l < hi" "hi - 1 \<in> set (cells_from ?st 0)"
        "\<forall>c\<in>set (cells_from ?st 0). c < hi \<longleftrightarrow> m_keys ?st ! c \<le> mx"
      using up[OF lo_in key] by blast
    define r where "r = range_cells ?st mn mx"
    have r: "r = takeWhile (\<lambda>c. c < hi) ?D"
      unfolding r_def range_cells_def d by (rule takeWhile_cong[OF refl]) (use hi(4) sub in blast)
    have hd: "r = lb_offset l # tl r" using r b(3) hi(2) by (simp add: upt_conv_Cons)
    have srtD: "sorted ?D" using sorted_dropWhile[OF cells_sorted[OF st, of 0]] unfolding d[symmetric] .
    have "hi - 1 \<in> set ?D"
    proof (rule ccontr)
      assume out: "hi - 1 \<notin> set ?D"
      define pre where "pre = takeWhile ?P (cells_from ?st 0)"
      have cs: "cells_from ?st 0 = pre @ ?D" unfolding d[symmetric] pre_def by simp
      have "sorted (pre @ ?D)" "hi - 1 \<in> set pre \<union> set ?D"
        using cells_sorted[OF st, of 0] hi(3) unfolding cs by (simp_all only: set_append)
      moreover have "lb_offset l \<in> set ?D" using b(3) by simp
      ultimately have "hi - 1 \<le> lb_offset l" using out sorted_append[of pre ?D] by blast
      then have "hi - 1 = lb_offset l" using hi(2) by simp
      then show False using out b(3) by simp
    qed
    then obtain xs ys where D: "?D = xs @ (hi - 1) # ys" by (meson split_list)
    have "\<forall>x\<in>set xs. x < hi" using srtD hi(2) unfolding D by (auto simp: sorted_append)
    then have "hi - 1 \<in> set r" unfolding r D using hi(2) by (simp add: takeWhile_append)
    moreover have "sorted r" unfolding r using srtD by (rule sorted_takeWhile)
    moreover have "\<forall>x\<in>set r. x < hi" unfolding r by (auto dest: set_takeWhileD)
    ultimately have "last r = hi - 1"
      by (metis Suc_pred' antisym empty_iff hi(2) last_in_set less_Suc_eq_le list.set(1) not_less_zero sorted_last zero_less_iff_neq_zero)
    then have "hi = last r + 1" using hi(2) by simp
    moreover have "hd r = lb_offset l" using hd by (metis list.sel(1))
    ultimately show ?thesis using hi(1,2) b r by (auto simp: Let_def r_def intro!: exI[of _ hi])
  qed
  have "interval_at ?st mn mx a e"
  proof (cases "lb_notfound l \<or> mx < m_keys ?st ! lb_offset l")
    case True
    then show ?thesis using ae e(2) empty[OF True] unfolding interval_at_def l_def[symmetric] Let_def by (simp only: if_True simp_thms)
  next
    case False
    then show ?thesis using ae e(2) found[OF False] unfolding interval_at_def l_def[symmetric] Let_def by (simp only: if_False simp_thms)
  qed
  then show ?thesis using that[OF a(1) e(1)] by blast
qed

section \<open>The iterator of an interval\<close>

lemma it_read_stopped: "it_stop it = 0 \<Longrightarrow> it_read st m it = []"
  by (cases m) (simp_all add: it_hasNext_def)

lemma find_range_reads:
  assumes ok: "rma_ok p" and le: "mn \<le> mx"
  obtains it where "pma_find_range p mn mx = Some it"
    and "\<And>m. length (in_range mn mx (contents p)) \<le> m \<Longrightarrow> it_read (m_storage p) m it = in_range mn mx (contents p)"
proof (cases "m_cardinality (m_storage p) = 0")
  case True
  show ?thesis
  proof (rule that[of empty_iterator])
    show "pma_find_range p mn mx = Some empty_iterator" using True by (simp add: pma_find_range_def pma_empty_def)
    show "it_read (m_storage p) m empty_iterator = in_range mn mx (contents p)" for m
      using it_read_stopped[of empty_iterator] True by (simp add: empty_iterator_def contents_def in_range_def)
  qed
next
  case ne: False
  let ?st = "m_storage p"
  note st = rma_ok_elems(1)[OF ok ne] and srt = rma_ok_elems(2)[OF ok ne]
  have sizes: "\<forall>s<m_number_segments ?st. 0 < m_segment_sizes ?st ! s" using rma_ok_elems(3)[OF ok ne] by blast
  have range: "in_range mn mx (contents p) = map (pair_at ?st) (range_cells ?st mn mx)"
    using range_cells_elems[OF st srt] ne by (simp add: contents_def)
  obtain a e where fl: "find_first (m_index p) mn = Some a" "find_last (m_index p) mx = Some e" and at: "interval_at ?st mn mx a e"
    using interval_bounds[OF ok ne le] by metis
  have ae: "a \<le> e" "e < m_number_segments ?st" using at by (simp_all add: interval_at_def)
  define l where "l = lower_search ?st mn a"
  have run: "pma_find_range p mn mx = new_iterator ?st a e mn mx" using ne fl by (simp add: pma_find_range_def pma_empty_def)
  show ?thesis
  proof (cases "lb_notfound l \<or> mx < m_keys ?st ! lb_offset l")
    case True
    obtain it where it: "new_iterator ?st a e mn mx = Some it" "it_stop it = 0"
      using ae True by (simp add: new_iterator_def Let_def flip: l_def)
    have "range_cells ?st mn mx = []" using at True by (simp add: interval_at_def Let_def flip: l_def)
    then show ?thesis using that[of it] run range it by (simp add: it_read_stopped)
  next
    case False
    let ?t = "lb_segment_id l"
    obtain hi where hi: "\<forall>f. upper_search ?st mx f e = int hi" "?t < m_number_segments ?st" "seg_start ?st ?t \<le> lb_offset l"
        "lb_offset l < lb_stop l" "lb_offset l < hi" "lb_stop l = seg_start ?st ?t + m_segment_sizes ?st ! ?t"
        "range_cells ?st mn mx = takeWhile (\<lambda>c. c < hi) ([lb_offset l..<lb_stop l] @ cells_from ?st (?t + 1))"
      using interval_at_found[OF at False[unfolded l_def]] unfolding l_def by metis
    define nx where "nx = (if even ?t \<and> ?t + 1 < m_number_segments ?st then ?t + 2 else ?t + 1)"
    define it where "it = \<lparr>it_next_segment = nx, it_offset = lb_offset l, it_stop = min hi (run_end ?st ?t), it_index_max = hi\<rparr>"
    have new: "new_iterator ?st a e mn mx = Some it"
      using ae False hi(1,5,6) by (auto simp: new_iterator_def Let_def it_def nx_def run_end_def not_less not_le simp flip: l_def)
    have nxc: "cells_from ?st nx = cells_from ?st (after_run ?st ?t)" using hi(2) by (auto simp: nx_def after_run_def)
    have "it_cells ?st it (run_end ?st ?t) = range_cells ?st mn mx"
      using cells_from_run[OF st hi(2,3)] hi(4,6,7) by (simp add: it_cells_def it_def nxc)
    moreover have "it_ok ?st it (run_end ?st ?t)"
    proof -
      have "run_end ?st ?t \<le> nx * m_segment_capacity ?st"
        using run_end_bounds(2)[OF st hi(2)] seg_bounds(2)[OF st hi(2)] by (auto simp: nx_def run_end_def after_run_def split: if_splits)
      then show ?thesis using run_end_bounds(1)[OF st hi(2)] hi(4,6) by (simp add: it_ok_def it_def min.commute)
    qed
    ultimately have "it_read ?st m it = in_range mn mx (contents p)" if "length (in_range mn mx (contents p)) \<le> m" for m
      using it_read_cells[OF st sizes, of it "run_end ?st ?t" m] that range by simp
    then show ?thesis using that new run by simp
  qed
qed

section \<open>The sum of an interval\<close>

definition add_cells :: "Storage \<Rightarrow> SumResult \<Rightarrow> nat list \<Rightarrow> SumResult" where
  "add_cells st acc cs = acc\<lparr>m_num_elements := m_num_elements acc + length cs,
     m_sum_keys := sum64 (m_sum_keys acc) (map (\<lambda>i. m_keys st ! i) cs),
     m_sum_values := sum64 (m_sum_values acc) (map (\<lambda>i. m_values st ! i) cs)\<rparr>"

lemma add_cells_append: "add_cells st (add_cells st acc xs) ys = add_cells st acc (xs @ ys)"
  by (simp add: add_cells_def)

lemma sum_runs_result:
  assumes ok: "storage_ok st" and sizes: "\<forall>s<m_number_segments st. 0 < m_segment_sizes st ! s"
    and pairs: "even (m_number_segments st) \<or> m_number_segments st = 1"
  shows "s < m_number_segments st \<Longrightarrow> o' < hi \<Longrightarrow> o' < run_end st s \<Longrightarrow>
    hi - 1 \<in> set ([o'..<run_end st s] @ cells_from st (after_run st s)) \<Longrightarrow>
    sum_runs st hi s o' (min (run_end st s) hi) acc
      = Some (add_cells st acc (takeWhile (\<lambda>c. c < hi) ([o'..<run_end st s] @ cells_from st (after_run st s))))"
proof (induction "m_number_segments st - s" arbitrary: s o' acc rule: less_induct)
  case less
  let ?E = "run_end st s" and ?nx = "after_run st s"
  let ?acc = "add_cells st acc [o'..<min ?E hi]"
  note s = less.prems(1) and oh = less.prems(2) and oE = less.prems(3) and lst = less.prems(4)
  have nx: "s + 1 + (if even s then 1 else 0) = ?nx" by (simp add: after_run_def)
  have unfold: "sum_runs st hi s o' (min ?E hi) acc =
     (if ?nx < m_number_segments st then
        sum_runs st hi ?nx (seg_start st ?nx) (min hi (seg_start st ?nx + m_segment_sizes st ! ?nx + m_segment_sizes st ! (?nx + 1))) ?acc
      else if hi \<le> max o' (min ?E hi) then Some ?acc else None)"
  proof -
    have "even ?nx" by (simp add: after_run_def)
    then show ?thesis using oh unfolding sum_runs.simps[of st hi s o'] Let_def nx by (simp add: add_cells_def seg_start_def)
  qed
  have tail_ge: "?E \<le> c" if "c \<in> set (cells_from st ?nx)" for c
    using cells_from_lower[OF ok that] run_end_bounds(2)[OF ok s] by simp
  show ?case
  proof (cases "hi \<le> ?E")
    case True
    have "takeWhile (\<lambda>c. c < hi) (cells_from st ?nx) = []" using tail_ge True by (cases "cells_from st ?nx") force+
    moreover have "[o'..<?E] = [o'..<hi] @ [hi..<?E]" using True oh upt_add_eq_append[of o' hi "?E - hi"] by simp
    ultimately have cells: "takeWhile (\<lambda>c. c < hi) ([o'..<?E] @ cells_from st ?nx) = [o'..<hi]"
      using oh True by (cases "hi = ?E") (simp_all add: takeWhile_append upt_conv_Cons)
    show ?thesis
    proof (cases "?nx < m_number_segments st")
      case False
      then show ?thesis using unfold True cells oh by (simp add: min_def)
    next
      case n: True
      have "?E \<le> seg_start st ?nx" using run_end_bounds(2)[OF ok s] seg_bounds(1)[OF ok n] by simp
      then have "sum_runs st hi ?nx (seg_start st ?nx) x ?acc = Some ?acc" for x
        using True sum_runs.simps[of st hi ?nx "seg_start st ?nx" x ?acc] by simp
      then show ?thesis using unfold True cells n by (simp add: min_def)
    qed
  next
    case False
    then have Eh: "?E < hi" by simp
    have inn: "hi - 1 \<in> set (cells_from st ?nx)" using lst Eh by auto
    then have n: "?nx < m_number_segments st" by (metis cells_from_end empty_iff leI list.set(1))
    have even_nx: "even ?nx" by (simp add: after_run_def)
    have n1: "?nx + 1 < m_number_segments st"
    proof (rule ccontr)
      assume "\<not> ?thesis"
      then have "m_number_segments st = ?nx + 1" using n by simp
      then show False using pairs even_nx by (auto simp: after_run_def split: if_splits)
    qed
    have E2: "seg_start st ?nx + m_segment_sizes st ! ?nx + m_segment_sizes st ! (?nx + 1) = run_end st ?nx"
      using even_nx n1 storage_ok_segment(3)[OF ok n] by (simp add: run_end_def seg_start_def)
    have run: "[seg_start st ?nx..<run_end st ?nx] @ cells_from st (after_run st ?nx) = cells_from st ?nx"
      using cells_from_run[OF ok n order_refl le_add1] cells_from_Cons[OF n] by (simp add: seg_cells_def)
    have dec: "m_number_segments st - ?nx < m_number_segments st - s" using s by (auto simp: after_run_def)
    have h1: "seg_start st ?nx < hi"
    proof -
      have "seg_start st ?nx \<le> hi - 1"
        using inn cells_sorted[OF ok, of ?nx] run sizes n run_end_bounds(1)[OF ok n]
        by (metis add_diff_cancel_left' append_Cons dual_order.strict_trans1 less_add_same_cancel1 order_le_less set_ConsD sorted_simps(2) upt_conv_Cons)
      then show ?thesis using Eh by linarith
    qed
    have h2: "seg_start st ?nx < run_end st ?nx" using run_end_bounds(1)[OF ok n] sizes n by force
    have "sum_runs st hi s o' (min ?E hi) acc = sum_runs st hi ?nx (seg_start st ?nx) (min (run_end st ?nx) hi) ?acc"
      unfolding unfold E2 using n by (simp add: min.commute)
    also have "\<dots> = Some (add_cells st ?acc (takeWhile (\<lambda>c. c < hi) (cells_from st ?nx)))"
      using less.hyps[OF dec n h1 h2] inn unfolding run by blast
    also have "\<dots> = Some (add_cells st acc (takeWhile (\<lambda>c. c < hi) ([o'..<?E] @ cells_from st ?nx)))"
      using Eh by (simp add: add_cells_append takeWhile_append)
    finally show ?thesis .
  qed
qed

lemma pma_sum_range:
  assumes ok: "rma_ok p" and le: "mn \<le> mx" and pairs: "even (m_number_segments (m_storage p)) \<or> m_number_segments (m_storage p) = 1"
  shows "pma_sum p mn mx = Some (range_sum (in_range mn mx (contents p)))"
proof (cases "m_cardinality (m_storage p) = 0")
  case True
  let ?ks = "[m_key_minimum (m_index p)]"
  have n: "m_number_segments (m_storage p) = 1" using ok True by (simp add: rma_ok_def Let_def)
  have "index_ok (m_index p) (length ?ks)" using rma_okD(3)[OF ok] n by simp
  then have "find_first (m_index p) mn = Some 0" "find_last (m_index p) mx = Some 0"
    using searches_ok[of "m_index p" ?ks mn] searches_ok[of "m_index p" ?ks mx] get_separator_ok[of "m_index p" 1 0] by simp_all
  then show ?thesis using True by (simp add: pma_sum_def do_sum_def contents_def in_range_def range_sum_def)
next
  case ne: False
  let ?st = "m_storage p"
  let ?r = "range_cells ?st mn mx"
  note st = rma_ok_elems(1)[OF ok ne] and srt = rma_ok_elems(2)[OF ok ne]
  have sizes: "\<forall>s<m_number_segments ?st. 0 < m_segment_sizes ?st ! s" using rma_ok_elems(3)[OF ok ne] by blast
  have range: "in_range mn mx (contents p) = map (pair_at ?st) ?r"
    using range_cells_elems[OF st srt] ne by (simp add: contents_def)
  obtain a e where fl: "find_first (m_index p) mn = Some a" "find_last (m_index p) mx = Some e" and at: "interval_at ?st mn mx a e"
    using interval_bounds[OF ok ne le] by metis
  have ae: "a \<le> e" "e < m_number_segments ?st" using at by (simp_all add: interval_at_def)
  define l where "l = lower_search ?st mn a"
  have run: "pma_sum p mn mx = do_sum ?st a e mn mx" using fl by (simp add: pma_sum_def)
  have pre: "\<not> (m_cardinality ?st = 0 \<or> mx < mn \<or> e < a)" "\<not> m_number_segments ?st \<le> a" using ne le ae by auto
  show ?thesis
  proof (cases "lb_notfound l \<or> mx < m_keys ?st ! lb_offset l")
    case True
    have "do_sum ?st a e mn mx = Some empty_sum" using pre True by (auto simp: do_sum_def Let_def simp flip: l_def)
    moreover have "?r = []" using at True by (simp add: interval_at_def Let_def flip: l_def)
    ultimately show ?thesis using run range by (simp add: range_sum_def)
  next
    case False
    let ?t = "lb_segment_id l"
    obtain hi where hi: "\<forall>f. upper_search ?st mx f e = int hi" "?t < m_number_segments ?st" "seg_start ?st ?t \<le> lb_offset l"
        "lb_offset l < lb_stop l" "lb_offset l < hi" "lb_stop l = seg_start ?st ?t + m_segment_sizes ?st ! ?t"
        "?r = takeWhile (\<lambda>c. c < hi) ([lb_offset l..<lb_stop l] @ cells_from ?st (?t + 1))" "hi = last ?r + 1" "hd ?r = lb_offset l"
      using interval_at_found[OF at False[unfolded l_def]] unfolding l_def by metis
    have rne: "?r \<noteq> []" using hi(4,5,7) by (simp add: upt_conv_Cons)
    have r: "?r = takeWhile (\<lambda>c. c < hi) ([lb_offset l..<run_end ?st ?t] @ cells_from ?st (after_run ?st ?t))"
      using cells_from_run[OF st hi(2,3)] hi(4,6,7) by simp
    have stop: "(if even ?t \<and> ?t < m_number_segments ?st - 1
        then (?t + 1) * m_segment_capacity ?st + m_segment_sizes ?st ! (?t + 1) else lb_stop l) = run_end ?st ?t"
      using hi(2,6) by (auto simp: run_end_def)
    have lst: "hi - 1 \<in> set ([lb_offset l..<run_end ?st ?t] @ cells_from ?st (after_run ?st ?t))"
    proof -
      have "last ?r = hi - 1" using hi(8) by simp
      then have "hi - 1 \<in> set ?r" using last_in_set[OF rne] by simp
      then show ?thesis unfolding r by (rule set_takeWhileD[THEN conjunct1])
    qed
    have oE: "lb_offset l < run_end ?st ?t" using run_end_bounds(1)[OF st hi(2)] hi(4,6) by simp
    have "sum_runs ?st hi ?t (lb_offset l) (min (run_end ?st ?t) hi) (empty_sum\<lparr>m_first_key := m_keys ?st ! lb_offset l\<rparr>)
        = Some (add_cells ?st (empty_sum\<lparr>m_first_key := m_keys ?st ! lb_offset l\<rparr>) ?r)"
      using sum_runs_result[OF st sizes pairs hi(2,5) oE lst] unfolding r .
    then have "do_sum ?st a e mn mx = Some (add_cells ?st (empty_sum\<lparr>m_first_key := m_keys ?st ! lb_offset l\<rparr>) ?r\<lparr>m_last_key := m_keys ?st ! (hi - 1)\<rparr>)"
      using pre False ae(2) hi(1,5) stop unfolding do_sum_def Let_def l_def[symmetric] by simp
    also have "\<dots> = Some (range_sum (map (pair_at ?st) ?r))"
      using rne hi(8,9) by (simp add: range_sum_def add_cells_def empty_sum_def hd_map last_map pair_at_def comp_def sum64_0)
    finally show ?thesis using run range by simp
  qed
qed

end
