(* ===== verification/RMA_Scan_Properties.thy ===== *)
theory RMA_Scan_Properties
  imports RMA_Scan_Proofs RMA_Properties
begin

text \<open>
  The properties of the scans of the rewired memory array: what a client reads from an iterator and the
  sum of a range, over the list of the elements.
\<close>

text \<open>C7. A scan of the interval from \<open>mn\<close> to \<open>mx\<close>: the search of the bounds ends and returns an iterator, and
  the client that asks it for elements until \<open>hasNext\<close> is false gets all the pairs of the array in the
  interval, in key order, each once, and after them no more, however long it goes on.\<close>

theorem rma_scan_complete:
  assumes "rma_ok p" and "mn \<le> mx"
  shows "\<exists>it. pma_find_range p mn mx = Some it
    \<and> (\<forall>m \<ge> length (in_range mn mx (contents p)). it_read (m_storage p) m it = in_range mn mx (contents p))"
  using find_range_reads[OF assms] by blast

theorem rma_scan_complete_witness:
  "\<exists>p p' it. new_pma small_env small_bounds 64 64 1 = Some p \<and> pma_insert small_env p 5 50 = Some p'
    \<and> pma_find_range p' 3 9 = Some it \<and> it_read (m_storage p') 7 it = [(5, 50)]"
proof -
  obtain p p' where p: "new_pma small_env small_bounds 64 64 1 = Some p" "pma_insert small_env p 5 50 = Some p'"
      "rma_ok p'" "mset (contents p') = {#(5, 50)#}"
    by (rule small_inserted)
  have "contents p' = [(5, 50)]" using p(4) by simp
  then show ?thesis using rma_scan_complete[OF p(3), of 3 9] p(1,2) by (auto simp: in_range_def)
qed

text \<open>C11. The sum of a range, for an array of one segment or an even number of them, is the aggregate of
  the pairs in the range: the first and the last key, the number of elements and the sums of keys
  and values, added up in 64 bits, so exact when they fit; for
  a range without elements it is the result with all fields zero.\<close>

theorem rma_sum_correct:
  assumes "rma_ok p" and "mn \<le> mx" and "even (m_number_segments (m_storage p)) \<or> m_number_segments (m_storage p) = 1"
  shows "pma_sum p mn mx = Some (range_sum (in_range mn mx (contents p)))"
  using pma_sum_range[OF assms] .

theorem rma_sum_correct_witness:
  "\<exists>p p'. new_pma small_env small_bounds 64 64 1 = Some p \<and> pma_insert small_env p 5 50 = Some p'
    \<and> pma_sum p' 3 9 = Some \<lparr>m_first_key = 5, m_last_key = 5, m_num_elements = 1, m_sum_keys = 5, m_sum_values = 50\<rparr>
    \<and> pma_sum p' 6 9 = Some empty_sum"
proof -
  obtain p p' where p: "new_pma small_env small_bounds 64 64 1 = Some p" "pma_insert small_env p 5 50 = Some p'"
      "rma_ok p'" "mset (contents p') = {#(5, 50)#}" "dims p' = (1, 64, 1)"
    by (rule small_inserted)
  have c: "contents p' = [(5, 50)]" using p(4) by simp
  have "m_number_segments (m_storage p') = 1" using p(5) by (simp add: dims_def)
  then show ?thesis
    using rma_sum_correct[OF p(3), of 3 9] rma_sum_correct[OF p(3), of 6 9] p(1,2) c by (simp add: in_range_def range_sum_def)
qed

end
