(* ===== verification/ABTree.thy ===== *)
theory ABTree
  imports Interface
begin

text \<open>
  The (a,b)-tree (\<open>abtree/abtree.cpp\<close>): inner nodes with separator keys and children, leaves with sorted pairs,
  the leaves linked in key order.

  A node is a value, since it is reachable through its parent only; a leaf also has an address, for the links.
  The number of valid keys, children and pairs of a node is the length of its lists. \<open>h\<close> is the height of a node
  over the leaves: \<open>height - 1 - depth\<close>, and a node is a leaf when \<open>h = 0\<close>, as in \<open>is_leaf (depth)\<close>.
  \<open>None\<close> is a failed assertion, an exception, or an access to memory that is not initialised or was freed.
\<close>

section \<open>State\<close>

datatype Node = Leaf nat "(int \<times> int) list" | InternalNode "int list" "Node list"

record Bounds =
  intnode_a :: nat
  intnode_b :: nat
  leaf_a :: nat
  leaf_b :: nat

text \<open>The links of the leaves and the counters of the allocated nodes; the address of the next new leaf.\<close>

record Memory =
  m_next :: "nat \<Rightarrow> nat option"
  m_previous :: "nat \<Rightarrow> nat option"
  m_fresh :: nat
  num_nodes_allocated :: nat
  num_leaves_allocated :: nat

record ABTree =
  bounds :: Bounds
  root :: Node
  cardinality :: int
  height :: nat
  memory :: Memory

fun node_N :: "Node \<Rightarrow> nat" where
  "node_N (Leaf l es) = length es"
| "node_N (InternalNode ks cs) = length cs"

definition create_leaf :: "Memory \<Rightarrow> nat \<times> Memory" where
  "create_leaf m =
     (let l = m_fresh m
      in (l, m\<lparr>m_next := (m_next m)(l := None), m_previous := (m_previous m)(l := None), m_fresh := l + 1,
              num_leaves_allocated := num_leaves_allocated m + 1\<rparr>))"

definition create_internal_node :: "Memory \<Rightarrow> Memory" where
  "create_internal_node m = m\<lparr>num_nodes_allocated := num_nodes_allocated m + 1\<rparr>"

definition validate_bounds :: "Bounds \<Rightarrow> bool" where
  "validate_bounds B \<longleftrightarrow> 1 < intnode_a B \<and> 2 * intnode_a B - 1 \<le> intnode_b B \<and> 1 < leaf_a B \<and> 2 * leaf_a B - 1 \<le> leaf_b B"

definition new_abtree :: "nat \<Rightarrow> nat \<Rightarrow> nat \<Rightarrow> nat \<Rightarrow> ABTree option" where
  "new_abtree iA iB lA lB =
     (let B = \<lparr>intnode_a = iA, intnode_b = iB, leaf_a = lA, leaf_b = lB\<rparr>;
          (l, m) = create_leaf \<lparr>m_next = (\<lambda>_. None), m_previous = (\<lambda>_. None), m_fresh = 0, num_nodes_allocated = 0, num_leaves_allocated = 0\<rparr>
      in if validate_bounds B then Some \<lparr>bounds = B, root = Leaf l [], cardinality = 0, height = 1, memory = m\<rparr> else None)"

definition get_lowerbound :: "Bounds \<Rightarrow> nat \<Rightarrow> nat" where
  "get_lowerbound B h = (if h = 0 then leaf_a B else intnode_a B)"

definition get_upperbound :: "Bounds \<Rightarrow> nat \<Rightarrow> nat" where
  "get_upperbound B h = (if h = 0 then leaf_b B else intnode_b B)"

definition abtree_size :: "ABTree \<Rightarrow> int" where
  "abtree_size t = cardinality t"

text \<open>The sizes in bytes of the nodes, with the same or different sizes for leaves and inner nodes.\<close>

definition abtree_memory_footprint :: "bool \<Rightarrow> ABTree \<Rightarrow> nat" where
  "abtree_memory_footprint common_memsize t =
     (let inode = 8 + 8 * (2 * intnode_b (bounds t) + 1); leaf = 24 + 8 * (2 * leaf_b (bounds t))
      in num_nodes_allocated (memory t) * (if common_memsize then max inode leaf else inode)
         + num_leaves_allocated (memory t) * (if common_memsize then max inode leaf else leaf))"

section \<open>Insert\<close>

text \<open>The links of a new leaf \<open>l2\<close> after \<open>l1\<close>.\<close>

definition link_after :: "nat \<Rightarrow> nat \<Rightarrow> Memory \<Rightarrow> Memory" where
  "link_after l1 l2 m =
     (let nx = m_next m l1;
          m = m\<lparr>m_next := (m_next m)(l2 := nx)\<rparr>;
          m = (case nx of Some n \<Rightarrow> m\<lparr>m_previous := (m_previous m)(n := Some l2)\<rparr> | None \<Rightarrow> m)
      in m\<lparr>m_previous := (m_previous m)(l2 := Some l1), m_next := (m_next m)(l1 := Some l2)\<rparr>)"

text \<open>The two halves of a child and the pivot between them.\<close>

fun split_child :: "Bounds \<Rightarrow> nat \<Rightarrow> Node \<Rightarrow> Memory \<Rightarrow> (Node \<times> int \<times> Node \<times> Memory) option" where
  "split_child B 0 (Leaf l1 es) m =
     (let thres = (length es + 1) div 2; (l2, m) = create_leaf m
      in if leaf_b B < length es \<or> length es - thres < leaf_a B \<or> thres < leaf_a B then None
         else Some (Leaf l1 (take thres es), fst (es ! thres), Leaf l2 (drop thres es), link_after l1 l2 m))"
| "split_child B (Suc h) (InternalNode ks cs) m =
     (let thres = length cs div 2
      in if length cs - (thres + 1) < intnode_a B \<or> thres + 1 < intnode_a B then None
         else Some (InternalNode (take thres ks) (take (thres + 1) cs), ks ! thres,
                InternalNode (drop (thres + 1) ks) (drop (thres + 1) cs), create_internal_node m))"
| "split_child B _ _ m = None"

text \<open>\<open>h\<close> is the height of the child.\<close>

fun split :: "Bounds \<Rightarrow> Node \<Rightarrow> nat \<Rightarrow> nat \<Rightarrow> Memory \<Rightarrow> (Node \<times> Memory) option" where
  "split B (InternalNode ks cs) child_index h m =
     (if length cs \<le> child_index \<or> intnode_b B < length cs then None
      else do {
        (n1, pivot, n2, m) \<leftarrow> split_child B h (cs ! child_index) m;
        Some (InternalNode (take child_index ks @ pivot # drop child_index ks)
                (take child_index cs @ n1 # n2 # drop (child_index + 1) cs), m) })"
| "split B (Leaf l es) child_index h m = None"

definition split_root :: "ABTree \<Rightarrow> ABTree option" where
  "split_root t = do {
     (r, m) \<leftarrow> split (bounds t) (InternalNode [] [root t]) 0 (height t - 1) (create_internal_node (memory t));
     Some (t\<lparr>root := r, height := height t + 1, memory := m\<rparr>) }"

text \<open>The position of a key after the pairs that are not greater, from the right.\<close>

definition leaf_insert :: "(int \<times> int) list \<Rightarrow> int \<Rightarrow> int \<Rightarrow> (int \<times> int) list" where
  "leaf_insert es key val =
     (let i = length es - length (takeWhile (\<lambda>e. key < fst e) (rev es)) in take i es @ (key, val) # drop i es)"

text \<open>The first separator that satisfies the test, or the last child.\<close>

definition find_child :: "(int \<Rightarrow> bool) \<Rightarrow> int list \<Rightarrow> nat" where
  "find_child skip ks = length (takeWhile skip ks)"

fun insert_node :: "Bounds \<Rightarrow> nat \<Rightarrow> Node \<Rightarrow> int \<Rightarrow> int \<Rightarrow> Memory \<Rightarrow> (Node \<times> Memory) option" where
  "insert_node B 0 (Leaf l es) key val m =
     (if length es < leaf_b B then Some (Leaf l (leaf_insert es key val), m) else None)"
| "insert_node B (Suc h) (InternalNode ks cs) key val m =
     (if cs = [] then None
      else
        let i = find_child (\<lambda>k. k < key) ks
        in if h = 0 \<and> node_N (cs ! i) = leaf_b B then do {
             (inode, m) \<leftarrow> split B (InternalNode ks cs) i h m;
             case inode of
               InternalNode ks cs \<Rightarrow> do {
                 let i = (if ks ! i < key then i + 1 else i);
                 (c, m) \<leftarrow> insert_node B h (cs ! i) key val m;
                 Some (InternalNode ks (cs[i := c]), m) }
             | Leaf _ _ \<Rightarrow> None }
           else if h \<noteq> 0 \<and> node_N (cs ! i) = intnode_b B then do {
             (c, m) \<leftarrow> insert_node B h (cs ! i) key val m;
             if intnode_b B < node_N c then split B (InternalNode ks (cs[i := c])) i h m
             else Some (InternalNode ks (cs[i := c]), m) }
           else do {
             (c, m) \<leftarrow> insert_node B h (cs ! i) key val m;
             Some (InternalNode ks (cs[i := c]), m) })"
| "insert_node B _ _ key val m = None"

definition abtree_insert :: "ABTree \<Rightarrow> int \<Rightarrow> int \<Rightarrow> ABTree option" where
  "abtree_insert t key val = do {
     t \<leftarrow> (if height t = 1 \<and> node_N (root t) = leaf_b (bounds t) then split_root t else Some t);
     (r, m) \<leftarrow> insert_node (bounds t) (height t - 1) (root t) key val (memory t);
     let t = t\<lparr>root := r, memory := m, cardinality := cardinality t + 1\<rparr>;
     if 1 < height t \<and> intnode_b (bounds t) < node_N (root t) then split_root t else Some t }"

section \<open>Rebalance\<close>

definition delete_leaf :: "Memory \<Rightarrow> Memory" where
  "delete_leaf m = m\<lparr>num_leaves_allocated := num_leaves_allocated m - 1\<rparr>"

definition delete_internal_node :: "Memory \<Rightarrow> Memory" where
  "delete_internal_node m = m\<lparr>num_nodes_allocated := num_nodes_allocated m - 1\<rparr>"

text \<open>The leaf \<open>l1\<close> is followed by the one after \<open>l2\<close>.\<close>

definition unlink :: "nat \<Rightarrow> nat \<Rightarrow> Memory \<Rightarrow> Memory" where
  "unlink l1 l2 m =
     (let nx = m_next m l2; m = m\<lparr>m_next := (m_next m)(l1 := nx)\<rparr>
      in case nx of Some n \<Rightarrow> m\<lparr>m_previous := (m_previous m)(n := Some l1)\<rparr> | None \<Rightarrow> m)"

fun merge_children :: "Bounds \<Rightarrow> nat \<Rightarrow> Node \<Rightarrow> int \<Rightarrow> Node \<Rightarrow> Memory \<Rightarrow> (Node \<times> Memory) option" where
  "merge_children B 0 (Leaf l1 es1) pivot (Leaf l2 es2) m =
     (if length es1 + length es2 \<le> leaf_b B then Some (Leaf l1 (es1 @ es2), delete_leaf (unlink l1 l2 m)) else None)"
| "merge_children B (Suc h) (InternalNode ks1 cs1) pivot (InternalNode ks2 cs2) m =
     (if length cs1 + length cs2 + 1 \<le> intnode_b B \<and> cs1 \<noteq> [] \<and> cs2 \<noteq> []
      then Some (InternalNode (ks1 @ pivot # ks2) (cs1 @ cs2), delete_internal_node m) else None)"
| "merge_children B _ _ pivot _ m = None"

text \<open>\<open>is_root\<close> is \<open>node == root\<close>.\<close>

fun merge :: "Bounds \<Rightarrow> bool \<Rightarrow> Node \<Rightarrow> nat \<Rightarrow> nat \<Rightarrow> Memory \<Rightarrow> (Node \<times> Memory) option" where
  "merge B is_root (InternalNode ks cs) child_index h m =
     (if length cs \<le> child_index + 1 then None
      else do {
        (n, m) \<leftarrow> merge_children B h (cs ! child_index) (ks ! child_index) (cs ! (child_index + 1)) m;
        if length cs < intnode_a B \<and> \<not> is_root then None
        else Some (InternalNode (take child_index ks @ drop (child_index + 1) ks)
               (take child_index cs @ n # drop (child_index + 2) cs), m) })"
| "merge B is_root (Leaf l es) child_index h m = None"

text \<open>The children after \<open>need\<close> of their elements moved right, and the pivot between them. The loop that shifts a leaf
  also copies cells before its arrays when \<open>need\<close> is 2 or more, to positions that are then overwritten.\<close>

fun shift_right_children :: "nat \<Rightarrow> nat \<Rightarrow> Node \<Rightarrow> int \<Rightarrow> Node \<Rightarrow> (Node \<times> int \<times> Node) option" where
  "shift_right_children 0 need (Leaf l1 es1) pivot (Leaf l2 es2) =
     (let n = length es1 - need; es2 = drop n es1 @ es2 in Some (Leaf l1 (take n es1), fst (hd es2), Leaf l2 es2))"
| "shift_right_children (Suc h) need (InternalNode ks1 cs1) pivot (InternalNode ks2 cs2) =
     (let n = length cs1 - need
      in if n = 0 \<or> cs2 = [] then None
         else Some (InternalNode (take (n - 1) ks1) (take n cs1), ks1 ! (n - 1),
                InternalNode (drop n ks1 @ pivot # ks2) (drop n cs1 @ cs2)))"
| "shift_right_children _ need _ pivot _ = None"

fun rotate_right :: "Bounds \<Rightarrow> Node \<Rightarrow> nat \<Rightarrow> nat \<Rightarrow> nat \<Rightarrow> Node option" where
  "rotate_right B (InternalNode ks cs) child_index h need =
     (if child_index = 0 \<or> length cs \<le> child_index \<or> need = 0 \<or> node_N (cs ! (child_index - 1)) < need
         \<or> get_upperbound B h < node_N (cs ! child_index) + need then None
      else do {
        (n1, pivot, n2) \<leftarrow> shift_right_children h need (cs ! (child_index - 1)) (ks ! (child_index - 1)) (cs ! child_index);
        Some (InternalNode (ks[child_index - 1 := pivot]) (cs[child_index - 1 := n1, child_index := n2])) })"
| "rotate_right B (Leaf l es) child_index h need = None"

text \<open>Moved left. For inner nodes, the loop over the elements after the first one does not advance the
  position it writes to: with more than one of them, children are left uninitialised.\<close>

fun shift_left_children :: "nat \<Rightarrow> nat \<Rightarrow> Node \<Rightarrow> int \<Rightarrow> Node \<Rightarrow> (Node \<times> int \<times> Node) option" where
  "shift_left_children 0 need (Leaf l1 es1) pivot (Leaf l2 es2) =
     Some (Leaf l1 (es1 @ take need es2), fst (if need < length es2 then es2 ! need else es2 ! 0), Leaf l2 (drop need es2))"
| "shift_left_children (Suc h) need (InternalNode ks1 cs1) pivot (InternalNode ks2 cs2) =
     (if cs1 = [] \<or> need = 0 \<or> 2 < need \<or> length cs2 \<le> need then None
      else Some (InternalNode (ks1 @ pivot # take (need - 1) ks2) (cs1 @ take need cs2), ks2 ! (need - 1),
             InternalNode (drop need ks2) (drop need cs2)))"
| "shift_left_children _ need _ pivot _ = None"

fun rotate_left :: "Bounds \<Rightarrow> Node \<Rightarrow> nat \<Rightarrow> nat \<Rightarrow> nat \<Rightarrow> Node option" where
  "rotate_left B (InternalNode ks cs) child_index h need =
     (if length cs \<le> child_index + 1 \<or> get_upperbound B h < node_N (cs ! child_index) + need
         \<or> node_N (cs ! (child_index + 1)) < need then None
      else do {
        (n1, pivot, n2) \<leftarrow> shift_left_children h need (cs ! child_index) (ks ! child_index) (cs ! (child_index + 1));
        Some (InternalNode (ks[child_index := pivot]) (cs[child_index := n1, child_index + 1 := n2])) })"
| "rotate_left B (Leaf l es) child_index h need = None"

definition within_bounds :: "Bounds \<Rightarrow> nat \<Rightarrow> Node \<Rightarrow> bool" where
  "within_bounds B h n \<longleftrightarrow> get_lowerbound B h \<le> node_N n \<and> node_N n \<le> get_upperbound B h"

text \<open>The merge of a child with a sibling, and \<open>validate_bounds (node, depth)\<close> of the result.\<close>

definition merge_checked :: "Bounds \<Rightarrow> bool \<Rightarrow> Node \<Rightarrow> nat \<Rightarrow> nat \<Rightarrow> Memory \<Rightarrow> (Node \<times> Memory) option" where
  "merge_checked B is_root node child_index h m = do {
     (node, m) \<leftarrow> merge B is_root node child_index h m;
     case node of
       InternalNode ks cs \<Rightarrow> if within_bounds B h (cs ! child_index) then Some (node, m) else None
     | Leaf _ _ \<Rightarrow> None }"

fun rebalance_lb :: "Bounds \<Rightarrow> bool \<Rightarrow> Node \<Rightarrow> nat \<Rightarrow> nat \<Rightarrow> Memory \<Rightarrow> (Node \<times> Memory) option" where
  "rebalance_lb B is_root (InternalNode ks cs) child_index h m =
     (let N = length cs; node = InternalNode ks cs; lowerbound = get_lowerbound B h; child_sz = node_N (cs ! child_index);
          need = lowerbound - child_sz;
          left = (if 0 < child_index then node_N (cs ! (child_index - 1)) else 0);
          right = (if child_index < N - 1 then node_N (cs ! (child_index + 1)) else 0);
          keep = map_option (\<lambda>n. (n, m))
      in if N \<le> 1 \<and> \<not> is_root \<or> N \<le> child_index then None
         else if lowerbound \<le> child_sz then Some (node, m)
         else if is_root \<and> N \<le> 1 then Some (node, m)
         else if 0 < child_index \<and> lowerbound + need + 1 \<le> left then keep (rotate_right B node child_index h (need + 1))
         else if child_index < N - 1 \<and> lowerbound + need + 1 \<le> right then keep (rotate_left B node child_index h (need + 1))
         else if 0 < child_index \<and> lowerbound + need \<le> left then keep (rotate_right B node child_index h need)
         else if child_index < N - 1 \<and> lowerbound + need \<le> right then keep (rotate_left B node child_index h need)
         else if child_index < N - 1 then merge_checked B is_root node child_index h m
         else if child_index = 0 then None
         else merge_checked B is_root node (child_index - 1) h m)"
| "rebalance_lb B is_root (Leaf l es) child_index h m = None"

section \<open>Remove (single element)\<close>

text \<open>The value that was pair_removed, or -1, and the pairs left.\<close>

definition leaf_remove :: "(int \<times> int) list \<Rightarrow> int \<Rightarrow> int \<times> (int \<times> int) list" where
  "leaf_remove es key =
     (let N = length es
      in if es = [] then (- 1, es)
         else if fst (es ! (N - 1)) = key then (snd (es ! (N - 1)), take (N - 1) es)
         else if key < fst (es ! (N - 1)) then
           let i = length (takeWhile (\<lambda>e. fst e < key) es)
           in if i < N \<and> fst (es ! i) = key then (snd (es ! i), take i es @ drop (i + 1) es) else (- 1, es)
         else (- 1, es))"

text \<open>The removal in a subtree: the value, the minimum left (\<open>omin\<close>, asked for by \<open>want_min\<close>), the node and the memory.\<close>

fun remove_node :: "Bounds \<Rightarrow> nat \<Rightarrow> bool \<Rightarrow> Node \<Rightarrow> int \<Rightarrow> bool \<Rightarrow> Memory \<Rightarrow> (int \<times> int \<times> Node \<times> Memory) option" where
  "remove_node B 0 is_root (Leaf l es) key want_min m =
     (let (val, es) = leaf_remove es key in Some (val, if es = [] then - 1 else fst (hd es), Leaf l es, m))"
| "remove_node B (Suc h) is_root (InternalNode ks cs) key want_min m =
     (if cs = [] then None
      else
        let i = find_child (\<lambda>k. k < key) ks
        in if \<not> want_min \<and> i < length ks \<and> ks ! i = key then do {
             (val, newkey, c, m) \<leftarrow> remove_node B h False (cs ! (i + 1)) key True m;
             (n, m) \<leftarrow> rebalance_lb B is_root (InternalNode (ks[i := newkey]) (cs[i + 1 := c])) (i + 1) h m;
             Some (val, - 1, n, m) }
           else if node_N (cs ! i) \<le> get_lowerbound B h then do {
             (val, omin, c, m) \<leftarrow> remove_node B h False (cs ! i) key want_min m;
             (n, m) \<leftarrow> rebalance_lb B is_root (InternalNode ks (cs[i := c])) i h m;
             Some (val, omin, n, m) }
           else do {
             (val, omin, c, m) \<leftarrow> remove_node B h False (cs ! i) key want_min m;
             Some (val, omin, InternalNode ks (cs[i := c]), m) })"
| "remove_node B _ is_root _ key want_min m = None"

definition abtree_remove :: "ABTree \<Rightarrow> int \<Rightarrow> (int \<times> ABTree) option" where
  "abtree_remove t key = do {
     (val, omin, r, m) \<leftarrow> remove_node (bounds t) (height t - 1) True (root t) key False (memory t);
     let t = t\<lparr>root := r, memory := m\<rparr>;
     if 0 \<le> val then
       let t = t\<lparr>cardinality := cardinality t - 1\<rparr>
       in if node_N (root t) = 1 \<and> 1 < height t then
            (case root t of
               InternalNode ks (c # cs) \<Rightarrow> Some (val, t\<lparr>root := c, height := height t - 1, memory := delete_internal_node (memory t)\<rparr>)
             | _ \<Rightarrow> None)
          else Some (val, t)
     else Some (val, t) }"

section \<open>Find (single element)\<close>

text \<open>The leaf reached by the descent that skips the separators with \<open>skip\<close>; an inner node has to have \<open>least\<close> children.\<close>

fun find_leaf :: "nat \<Rightarrow> (int \<Rightarrow> bool) \<Rightarrow> nat \<Rightarrow> Node \<Rightarrow> (nat \<times> (int \<times> int) list) option" where
  "find_leaf least skip 0 (Leaf l es) = Some (l, es)"
| "find_leaf least skip (Suc h) (InternalNode ks cs) =
     (if length cs < least then None else find_leaf least skip h (cs ! find_child skip ks))"
| "find_leaf least skip _ _ = None"

definition abtree_find :: "ABTree \<Rightarrow> int \<Rightarrow> int option" where
  "abtree_find t key = do {
     (l, es) \<leftarrow> find_leaf 2 (\<lambda>k. k \<le> key) (height t - 1) (root t);
     let i = length (takeWhile (\<lambda>e. fst e < key) es);
     Some (if i < length es \<and> fst (es ! i) = key then snd (es ! i) else - 1) }"

fun rightmost_leaf :: "nat \<Rightarrow> Node \<Rightarrow> (int \<times> int) list option" where
  "rightmost_leaf 0 (Leaf l es) = Some es"
| "rightmost_leaf (Suc h) (InternalNode ks cs) = (if cs = [] then None else rightmost_leaf h (last cs))"
| "rightmost_leaf _ _ = None"

definition key_max :: "ABTree \<Rightarrow> int option" where
  "key_max t =
     (if cardinality t = 0 then Some (- 1)
      else do { es \<leftarrow> rightmost_leaf (height t - 1) (root t); if es = [] then None else Some (fst (last es)) })"

section \<open>Iterator\<close>

text \<open>The pairs of the leaf at an address that is in the tree; the memory of any other was freed.\<close>

fun leaves :: "Node \<Rightarrow> (nat \<times> (int \<times> int) list) list" where
  "leaves (Leaf l es) = [(l, es)]"
| "leaves (InternalNode ks cs) = concat (map leaves cs)"

definition leaf_at :: "ABTree \<Rightarrow> nat \<Rightarrow> (int \<times> int) list option" where
  "leaf_at t l = map_of (leaves (root t)) l"

record ABIterator =
  it_max :: int
  it_block :: "nat option"
  it_pos :: nat

definition abit_hasNext :: "ABIterator \<Rightarrow> bool" where
  "abit_hasNext it \<longleftrightarrow> it_block it \<noteq> None"

text \<open>Reading the pair at a position of a leaf.\<close>

definition entry_at :: "ABTree \<Rightarrow> nat \<Rightarrow> nat \<Rightarrow> (int \<times> int) option" where
  "entry_at t l pos = do { es \<leftarrow> leaf_at t l; if pos < length es then Some (es ! pos) else None }"

definition create_iterator :: "ABTree \<Rightarrow> int \<Rightarrow> nat option \<Rightarrow> nat \<Rightarrow> ABIterator option" where
  "create_iterator t mx block pos =
     (case block of
        None \<Rightarrow> Some \<lparr>it_max = mx, it_block = None, it_pos = 0\<rparr>
      | Some l \<Rightarrow> do {
          (k, v) \<leftarrow> entry_at t l pos;
          Some (if mx < k then \<lparr>it_max = mx, it_block = None, it_pos = 0\<rparr> else \<lparr>it_max = mx, it_block = block, it_pos = pos\<rparr>) })"

definition abit_next :: "ABTree \<Rightarrow> ABIterator \<Rightarrow> ((int \<times> int) \<times> ABIterator) option" where
  "abit_next t it =
     (case it_block it of
        None \<Rightarrow> Some ((- 1, - 1), it)
      | Some l \<Rightarrow> do {
          es \<leftarrow> leaf_at t l;
          kv \<leftarrow> entry_at t l (it_pos it);
          let (block, pos) = (if length es - 1 \<le> it_pos it then (m_next (memory t) l, 0) else (Some l, it_pos it + 1));
          block \<leftarrow> (case block of
              None \<Rightarrow> Some None
            | Some b \<Rightarrow> map_option (\<lambda>(k, v). if it_max it < k then None else Some b) (entry_at t b pos));
          Some (kv, it\<lparr>it_block := block, it_pos := pos\<rparr>) })"

definition leaf_scan :: "ABTree \<Rightarrow> nat \<Rightarrow> (int \<times> int) list \<Rightarrow> int \<Rightarrow> int \<Rightarrow> ABIterator option" where
  "leaf_scan t l es mn mx =
     (if es = [] then create_iterator t mx None 0
      else if fst (last es) < mn then
        case m_next (memory t) l of
          None \<Rightarrow> create_iterator t mx None 0
        | Some l2 \<Rightarrow> do {
            (k, v) \<leftarrow> entry_at t l2 0;
            if mn \<le> k then create_iterator t mx (Some l2) 0 else create_iterator t mx None 0 }
      else if mx < fst (hd es) then create_iterator t mx None 0
      else create_iterator t mx (Some l) (length (takeWhile (\<lambda>e. fst e < mn) es)))"

definition abtree_find_range :: "ABTree \<Rightarrow> int \<Rightarrow> int \<Rightarrow> ABIterator option" where
  "abtree_find_range t mn mx =
     (if mx < mn then create_iterator t mx None 0
      else do {
        (l, es) \<leftarrow> find_leaf 1 (\<lambda>k. k < mn) (height t - 1) (root t);
        leaf_scan t l es mn mx })"

section \<open>Sum\<close>

text \<open>The pairs of one leaf from the position \<open>i\<close>; the position after the last one.\<close>

definition sum_leaf :: "(int \<times> int) list \<Rightarrow> nat \<Rightarrow> int \<Rightarrow> SumResult \<Rightarrow> nat \<times> SumResult" where
  "sum_leaf es i mx r =
     (let xs = takeWhile (\<lambda>e. fst e \<le> mx) (drop i es)
      in (i + length xs, r\<lparr>m_sum_keys := sum64 (m_sum_keys r) (map fst xs), m_sum_values := sum64 (m_sum_values r) (map snd xs),
            m_num_elements := m_num_elements r + length xs\<rparr>))"

partial_function (option) sum_leaves :: "ABTree \<Rightarrow> int \<Rightarrow> nat \<Rightarrow> nat \<Rightarrow> SumResult \<Rightarrow> SumResult option" where
  "sum_leaves t mx l i r = do {
     es \<leftarrow> leaf_at t l;
     let (i, r) = sum_leaf es i mx r;
     r \<leftarrow> (if i = 0 then None else Some (r\<lparr>m_last_key := fst (es ! (i - 1))\<rparr>));
     case (if length es \<le> i then m_next (memory t) l else None) of
       None \<Rightarrow> Some r
     | Some l2 \<Rightarrow> do { (k, v) \<leftarrow> entry_at t l2 0; if mx < k then Some r else sum_leaves t mx l2 0 r } }"

definition abtree_sum :: "ABTree \<Rightarrow> int \<Rightarrow> int \<Rightarrow> SumResult option" where
  "abtree_sum t mn mx =
     (if mx < mn \<or> cardinality t = 0 then Some empty_sum
      else do {
        (l, es) \<leftarrow> find_leaf 1 (\<lambda>k. k < mn) (height t - 1) (root t);
        if es = [] then None
        else do {
          block \<leftarrow> (if fst (last es) < mn then
              case m_next (memory t) l of
                None \<Rightarrow> Some None
              | Some l2 \<Rightarrow> do { (k, v) \<leftarrow> entry_at t l2 0; Some (if k < mn then None else Some l2) }
            else Some (Some l));
          case block of
            None \<Rightarrow> Some empty_sum
          | Some l \<Rightarrow> do {
              es \<leftarrow> leaf_at t l;
              if es = [] then None
              else if mx < fst (hd es) then Some empty_sum
              else do {
                let i = length (takeWhile (\<lambda>e. fst e < mn) es);
                if length es \<le> i then None
                else sum_leaves t mx l i (empty_sum\<lparr>m_first_key := fst (es ! i)\<rparr>) } } } })"

section \<open>Checks\<close>

text \<open>\<open>False\<close> is the exception \<open>range_error\<close>.\<close>

fun validate_rec :: "Bounds \<Rightarrow> bool \<Rightarrow> nat \<Rightarrow> Node \<Rightarrow> bool" where
  "validate_rec B is_root 0 (Leaf l es) \<longleftrightarrow> (is_root \<or> leaf_a B \<le> length es) \<and> length es \<le> leaf_b B"
| "validate_rec B is_root (Suc h) (InternalNode ks cs) \<longleftrightarrow>
     (if is_root then cs \<noteq> [] else intnode_a B \<le> length cs) \<and> length cs \<le> intnode_b B \<and> list_all (validate_rec B False h) cs"
| "validate_rec B is_root _ _ \<longleftrightarrow> False"

definition abtree_validate :: "ABTree \<Rightarrow> bool" where
  "abtree_validate t = validate_rec (bounds t) True (height t - 1) (root t)"

text \<open>The keys of a leaf, none less than the ones before it.\<close>

fun keys_from :: "int \<Rightarrow> int list \<Rightarrow> bool" where
  "keys_from minimum [] \<longleftrightarrow> True"
| "keys_from minimum (k # ks) \<longleftrightarrow> minimum \<le> k \<and> keys_from k ks"

text \<open>The minimum a child is checked with is the separator before the one to its left.\<close>

fun sanity_check :: "Bounds \<Rightarrow> bool \<Rightarrow> nat \<Rightarrow> int \<Rightarrow> Node \<Rightarrow> bool" where
  "sanity_check B is_root 0 minimum (Leaf l es) \<longleftrightarrow>
     (leaf_a B \<le> length es \<or> is_root) \<and> length es \<le> leaf_b B \<and> keys_from minimum (map fst es)"
| "sanity_check B is_root (Suc h) minimum (InternalNode ks cs) \<longleftrightarrow>
     (intnode_a B \<le> length cs \<or> is_root) \<and> length cs \<le> intnode_b B
     \<and> list_all (\<lambda>i. let minimum = (if i \<le> 1 then minimum else ks ! (i - 2))
                    in sanity_check B False h minimum (cs ! i) \<and> (0 < i \<longrightarrow> minimum \<le> ks ! (i - 1))) [0..<length cs]"
| "sanity_check B is_root _ minimum _ \<longleftrightarrow> False"

definition abtree_sanity_check :: "ABTree \<Rightarrow> bool" where
  "abtree_sanity_check t = sanity_check (bounds t) True (height t - 1) INT64_MIN (root t)"

end
