(* ===== verification/ABTree_Proofs.thy ===== *)
theory ABTree_Proofs
  imports ABTree
begin

text \<open>
  The (a,b)-tree as a sorted list of pairs (\<open>pairs\<close>), its shape, and the links and counters of its memory: what the
  splits, rotations and merges do to two siblings, to their parent, and the insertion and removal to the tree.
\<close>

section \<open>Shape\<close>

fun pairs :: "Node \<Rightarrow> (int \<times> int) list" where
  "pairs (Leaf l es) = es"
| "pairs (InternalNode ks cs) = concat (map pairs cs)"

definition all_pairs :: "Node list \<Rightarrow> (int \<times> int) list" where
  "all_pairs cs = concat (map pairs cs)"

definition min_key :: "Node \<Rightarrow> int" where
  "min_key n = fst (hd (pairs n))"

text \<open>The separators of the children.\<close>

definition seps :: "Node list \<Rightarrow> int list" where
  "seps cs = tl (map min_key cs)"

fun shape :: "Bounds \<Rightarrow> nat \<Rightarrow> Node \<Rightarrow> bool" where
  "shape B 0 (Leaf l es) = True"
| "shape B (Suc h) (InternalNode ks cs) = (cs \<noteq> [] \<and> ks = seps cs \<and> (\<forall>c\<in>set cs. shape B h c \<and> within_bounds B h c))"
| "shape B _ _ = False"

definition ab_bounds_ok :: "Bounds \<Rightarrow> bool" where
  "ab_bounds_ok B \<longleftrightarrow> 1 < intnode_a B \<and> 2 * intnode_a B \<le> intnode_b B \<and> 1 < leaf_a B \<and> 2 * leaf_a B \<le> leaf_b B"

lemma ab_bounds_okD:
  assumes "ab_bounds_ok B"
  shows "1 < get_lowerbound B h" and "2 * get_lowerbound B h \<le> get_upperbound B h"
  using assms by (auto simp: ab_bounds_ok_def get_lowerbound_def get_upperbound_def)

lemma all_pairs_simps [simp]:
  "all_pairs [] = []" "all_pairs (c # cs) = pairs c @ all_pairs cs" "all_pairs (xs @ ys) = all_pairs xs @ all_pairs ys"
  by (simp_all add: all_pairs_def)

lemma pairs_internal [simp]: "pairs (InternalNode ks cs) = all_pairs cs"
  by (simp add: all_pairs_def)

declare pairs.simps(2) [simp del]

lemma shapeE:
  assumes "shape B (Suc h) n"
  obtains cs where "n = InternalNode (seps cs) cs" and "cs \<noteq> []" and "\<forall>c\<in>set cs. shape B h c \<and> within_bounds B h c"
  using assms by (cases n) auto

lemma shape_leafE: "shape B 0 n \<Longrightarrow> (\<And>l es. n = Leaf l es \<Longrightarrow> thesis) \<Longrightarrow> thesis"
  by (cases n) auto

text \<open>A node of the tree that is not the root has elements.\<close>

lemma pairs_nonempty:
  assumes "ab_bounds_ok B"
  shows "shape B h n \<Longrightarrow> 0 < node_N n \<Longrightarrow> pairs n \<noteq> []"
proof (induction h arbitrary: n)
  case (Suc h)
  then obtain cs where cs: "n = InternalNode (seps cs) cs" "cs \<noteq> []" "\<forall>c\<in>set cs. shape B h c \<and> within_bounds B h c" by (auto elim: shapeE)
  then obtain c cs' where c: "cs = c # cs'" by (cases cs) auto
  have "0 < node_N c" using cs(3) c ab_bounds_okD(1)[OF assms, of h] by (simp add: within_bounds_def)
  then show ?case using Suc.IH[of c] cs c by simp
qed (auto elim: shape_leafE)

lemma within_nonempty:
  assumes "ab_bounds_ok B" and "shape B h n" and "within_bounds B h n"
  shows "pairs n \<noteq> []"
  using pairs_nonempty[OF assms(1,2)] ab_bounds_okD(1)[OF assms(1), of h] assms(3) by (simp add: within_bounds_def)

text \<open>The separators after a change of the children.\<close>

lemma length_seps [simp]: "length (seps cs) = length cs - 1"
  by (simp add: seps_def)

lemma nth_seps: "Suc i < length cs \<Longrightarrow> seps cs ! i = min_key (cs ! Suc i)"
  by (simp add: seps_def nth_tl)

lemma seps_insert:
  assumes "i < length cs" and "min_key n1 = min_key (cs ! i) \<or> i = 0"
  shows "seps (take i cs @ n1 # n2 # drop (i + 1) cs) = take i (seps cs) @ min_key n2 # drop i (seps cs)"
proof (cases i)
  case 0
  then show ?thesis using assms by (cases cs) (auto simp: seps_def)
next
  case (Suc j)
  then obtain c cs' where cs: "cs = c # cs'" using assms by (cases cs) auto
  have "take (Suc j) (map min_key cs') = take j (map min_key cs') @ [min_key (cs' ! j)]" using assms Suc cs by (simp add: take_Suc_conv_app_nth)
  then show ?thesis using assms Suc cs by (simp add: seps_def take_map drop_map)
qed

lemma seps_update:
  assumes "i < length cs"
  shows "seps (cs[i := c]) = (if i = 0 then seps cs else (seps cs)[i - 1 := min_key c])"
  using assms by (cases cs; cases i) (auto simp: seps_def map_update)

lemma seps_update_same:
  assumes "i < length cs" and "i = 0 \<or> min_key c = min_key (cs ! i)"
  shows "seps (cs[i := c]) = seps cs"
proof (cases i)
  case (Suc j)
  then have "(seps cs)[j := min_key c] = seps cs" using assms nth_seps[of j cs] by (auto simp: list_update_same_conv)
  then show ?thesis using assms Suc by (simp add: seps_update)
qed (use assms in \<open>simp add: seps_update\<close>)

lemma seps_merge:
  assumes "i + 1 < length cs" and "min_key n = min_key (cs ! i) \<or> i = 0"
  shows "seps (take i cs @ n # drop (i + 2) cs) = take i (seps cs) @ drop (i + 1) (seps cs)"
proof (cases i)
  case 0
  then show ?thesis using assms by (cases cs) (auto simp: seps_def drop_Suc tl_drop drop_map)
next
  case (Suc j)
  then obtain c cs' where cs: "cs = c # cs'" using assms by (cases cs) auto
  have "take (Suc j) (map min_key cs') = take j (map min_key cs') @ [min_key (cs' ! j)]" using assms Suc cs by (simp add: take_Suc_conv_app_nth)
  then show ?thesis using assms Suc cs by (simp add: seps_def take_map drop_map)
qed

lemma seps_append:
  assumes "cs \<noteq> []"
  shows "seps (cs @ ds) = seps cs @ map min_key ds"
  using assms by (simp add: seps_def)

lemma split_at_child:
  assumes "i < length cs"
  shows "cs = take i cs @ cs ! i # drop (i + 1) cs" and "all_pairs cs = all_pairs (take i cs) @ pairs (cs ! i) @ all_pairs (drop (i + 1) cs)"
proof -
  show e: "cs = take i cs @ cs ! i # drop (i + 1) cs" using assms by (simp add: id_take_nth_drop)
  show "all_pairs cs = all_pairs (take i cs) @ pairs (cs ! i) @ all_pairs (drop (i + 1) cs)" by (subst e) simp
qed

lemma all_pairs_update: "i < length cs \<Longrightarrow> all_pairs (cs[i := c]) = all_pairs (take i cs) @ pairs c @ all_pairs (drop (i + 1) cs)"
  by (simp add: upd_conv_take_nth_drop)

section \<open>Memory\<close>

fun leaf_ids :: "Node \<Rightarrow> nat list" where
  "leaf_ids (Leaf l es) = [l]"
| "leaf_ids (InternalNode ks cs) = concat (map leaf_ids cs)"

fun inner_nodes :: "Node \<Rightarrow> nat" where
  "inner_nodes (Leaf l es) = 0"
| "inner_nodes (InternalNode ks cs) = Suc (sum_list (map inner_nodes cs))"

definition all_ids :: "Node list \<Rightarrow> nat list" where
  "all_ids cs = concat (map leaf_ids cs)"

definition all_inner :: "Node list \<Rightarrow> nat" where
  "all_inner cs = sum_list (map inner_nodes cs)"

text \<open>The leaves are linked, from the one after \<open>p\<close> to the one before \<open>n\<close>.\<close>

fun linked :: "Memory \<Rightarrow> nat option \<Rightarrow> nat list \<Rightarrow> nat option \<Rightarrow> bool" where
  "linked m p [] n = True"
| "linked m p (l # ls) n = (m_previous m l = p \<and> m_next m l = (if ls = [] then n else Some (hd ls)) \<and> linked m (Some l) ls n)"

definition mem_ok :: "Memory \<Rightarrow> nat list \<Rightarrow> nat \<Rightarrow> bool" where
  "mem_ok m ls k \<longleftrightarrow> distinct ls \<and> (\<forall>l\<in>set ls. l < m_fresh m) \<and> linked m None ls None
     \<and> num_leaves_allocated m = length ls \<and> num_nodes_allocated m = k"

text \<open>A change of some siblings of the tree, with the memory right whatever is around them.\<close>

definition framed :: "Memory \<Rightarrow> Node list \<Rightarrow> Memory \<Rightarrow> Node list \<Rightarrow> bool" where
  "framed m cs m' cs' \<longleftrightarrow> (\<forall>A D k. mem_ok m (A @ all_ids cs @ D) (k + all_inner cs) \<longrightarrow> mem_ok m' (A @ all_ids cs' @ D) (k + all_inner cs'))"

lemma all_ids_simps [simp]:
  "all_ids [] = []" "all_ids (c # cs) = leaf_ids c @ all_ids cs" "all_ids (xs @ ys) = all_ids xs @ all_ids ys"
  by (simp_all add: all_ids_def)

lemma all_inner_simps [simp]:
  "all_inner [] = 0" "all_inner (c # cs) = inner_nodes c + all_inner cs" "all_inner (xs @ ys) = all_inner xs + all_inner ys"
  by (simp_all add: all_inner_def)

lemma node_memory [simp]: "leaf_ids (InternalNode ks cs) = all_ids cs" "inner_nodes (InternalNode ks cs) = Suc (all_inner cs)"
  by (simp_all add: all_ids_def all_inner_def)

declare leaf_ids.simps(2) [simp del] inner_nodes.simps(2) [simp del]

lemma framed_refl: "framed m cs m cs"
  by (simp add: framed_def)

lemma framed_same: "all_ids cs' = all_ids cs \<Longrightarrow> all_inner cs' = all_inner cs \<Longrightarrow> framed m cs m cs'"
  by (simp add: framed_def)

lemma framed_trans: "framed m cs m1 cs1 \<Longrightarrow> framed m1 cs1 m2 cs2 \<Longrightarrow> framed m cs m2 cs2"
  by (simp add: framed_def)

lemma framed_context:
  assumes "framed m cs m' cs'"
  shows "framed m (X @ cs @ Y) m' (X @ cs' @ Y)"
  unfolding framed_def
proof (intro allI impI)
  fix A D k assume "mem_ok m (A @ all_ids (X @ cs @ Y) @ D) (k + all_inner (X @ cs @ Y))"
  then have "mem_ok m ((A @ all_ids X) @ all_ids cs @ (all_ids Y @ D)) ((k + all_inner X + all_inner Y) + all_inner cs)" by (simp add: ac_simps)
  then have "mem_ok m' ((A @ all_ids X) @ all_ids cs' @ (all_ids Y @ D)) ((k + all_inner X + all_inner Y) + all_inner cs')"
    using assms unfolding framed_def by blast
  then show "mem_ok m' (A @ all_ids (X @ cs' @ Y) @ D) (k + all_inner (X @ cs' @ Y))" by (simp add: ac_simps)
qed

lemma framed_node:
  assumes "framed m cs m' cs'"
  shows "framed m [InternalNode ks cs] m' [InternalNode ks' cs']"
  unfolding framed_def
proof (intro allI impI)
  fix A D k assume "mem_ok m (A @ all_ids [InternalNode ks cs] @ D) (k + all_inner [InternalNode ks cs])"
  then have "mem_ok m (A @ all_ids cs @ D) (Suc k + all_inner cs)" by simp
  then have "mem_ok m' (A @ all_ids cs' @ D) (Suc k + all_inner cs')" using assms unfolding framed_def by blast
  then show "mem_ok m' (A @ all_ids [InternalNode ks' cs'] @ D) (k + all_inner [InternalNode ks' cs'])" by simp
qed

lemma framed_child:
  assumes "framed m [cs ! i] m' [c]" and "i < length cs"
  shows "framed m [InternalNode ks cs] m' [InternalNode ks' (cs[i := c])]"
  using framed_node[OF framed_context[OF assms(1), of "take i cs" "drop (i + 1) cs"]] split_at_child(1)[OF assms(2)] assms(2)
  by (simp add: upd_conv_take_nth_drop)

lemma linked_append:
  "linked m p (A @ D) n \<longleftrightarrow> linked m p A (if D = [] then n else Some (hd D)) \<and> linked m (if A = [] then p else Some (last A)) D n"
  by (induction A arbitrary: p) auto

lemma linked_cong:
  "(\<And>l. l \<in> set ls \<Longrightarrow> m_previous m' l = m_previous m l \<and> m_next m' l = m_next m l) \<Longrightarrow> linked m' p ls n = linked m p ls n"
  by (induction ls arbitrary: p) auto

lemma create_leaf_fresh:
  assumes "create_leaf m = (l, m')"
  shows "l = m_fresh m" and "m_fresh m' = m_fresh m + 1" and "num_leaves_allocated m' = num_leaves_allocated m + 1"
    and "num_nodes_allocated m' = num_nodes_allocated m"
    and "\<And>x. x \<noteq> l \<Longrightarrow> m_next m' x = m_next m x \<and> m_previous m' x = m_previous m x"
  using assms by (auto simp: create_leaf_def Let_def)

lemma link_after_simps [simp]:
  "m_fresh (link_after l1 l2 m) = m_fresh m" "num_leaves_allocated (link_after l1 l2 m) = num_leaves_allocated m"
  "num_nodes_allocated (link_after l1 l2 m) = num_nodes_allocated m"
  by (simp_all add: link_after_def Let_def split: option.split)

lemma link_after_fields:
  "m_next (link_after l1 l2 m) x = (if x = l1 then Some l2 else if x = l2 then m_next m l1 else m_next m x)"
  "m_previous (link_after l1 l2 m) x = (if x = l2 then Some l1 else if m_next m l1 = Some x then Some l2 else m_previous m x)"
  by (auto simp: link_after_def Let_def split: option.split)

text \<open>A new leaf between two others.\<close>

lemma linked_new_leaf:
  assumes ok: "linked m None (A @ l1 # D) None" "distinct (A @ l1 # D)" "l2 \<notin> set (A @ l1 # D)"
  shows "linked (link_after l1 l2 m) None (A @ l1 # l2 # D) None"
proof -
  let ?m = "link_after l1 l2 m"
  have o: "linked m None A (Some l1)" "m_previous m l1 = (if A = [] then None else Some (last A))"
      "m_next m l1 = (if D = [] then None else Some (hd D))" "linked m (Some l1) D None"
    using ok(1) by (simp_all add: linked_append)
  have out: "l1 \<notin> set A" "l1 \<notin> set D" "set A \<inter> set D = {}" using ok(2) by auto
  have hd: "m_next m l1 = Some x \<longleftrightarrow> D \<noteq> [] \<and> x = hd D" for x using o(3) by auto
  have a: "linked ?m None A (Some l1)"
  proof -
    have "m_previous ?m x = m_previous m x \<and> m_next ?m x = m_next m x" if "x \<in> set A" for x
      using that ok(3) out by (cases D) (auto simp: link_after_fields hd)
    then show ?thesis using o(1) linked_cong[of A ?m m] by blast
  qed
  have b: "linked ?m (Some l2) D None"
  proof (cases D)
    case (Cons d D')
    have "m_previous ?m x = m_previous m x \<and> m_next ?m x = m_next m x" if "x \<in> set D'" for x
      using that ok(2,3) out Cons by (auto simp: link_after_fields hd)
    then have "linked ?m (Some d) D' None" using o(4) Cons linked_cong[of D' ?m m "Some d"] by simp
    then show ?thesis using o(4) Cons ok(3) out by (auto simp: link_after_fields hd)
  qed simp
  show ?thesis using a b o(2,3) ok(3) out by (auto simp: linked_append link_after_fields hd)
qed

lemma unlink_simps [simp]:
  "m_fresh (unlink l1 l2 m) = m_fresh m" "num_leaves_allocated (unlink l1 l2 m) = num_leaves_allocated m"
  "num_nodes_allocated (unlink l1 l2 m) = num_nodes_allocated m"
  by (simp_all add: unlink_def Let_def split: option.split)

lemma unlink_fields:
  "m_next (unlink l1 l2 m) x = (if x = l1 then m_next m l2 else m_next m x)"
  "m_previous (unlink l1 l2 m) x = (if m_next m l2 = Some x then Some l1 else m_previous m x)"
  by (auto simp: unlink_def Let_def split: option.split)

lemma linked_unlink:
  assumes ok: "linked m None (A @ l1 # l2 # D) None" "distinct (A @ l1 # l2 # D)"
  shows "linked (unlink l1 l2 m) None (A @ l1 # D) None"
proof -
  let ?m = "unlink l1 l2 m"
  have o: "linked m None A (Some l1)" "m_previous m l1 = (if A = [] then None else Some (last A))"
      "m_next m l2 = (if D = [] then None else Some (hd D))" "linked m (Some l2) D None"
    using ok(1) by (simp_all add: linked_append)
  have out: "l1 \<notin> set A" "l1 \<notin> set D" "set A \<inter> set D = {}" using ok(2) by auto
  have hd: "m_next m l2 = Some x \<longleftrightarrow> D \<noteq> [] \<and> x = hd D" for x using o(3) by auto
  have a: "linked ?m None A (Some l1)"
  proof -
    have "m_previous ?m x = m_previous m x \<and> m_next ?m x = m_next m x" if "x \<in> set A" for x
      using that out by (cases D) (auto simp: unlink_fields hd)
    then show ?thesis using o(1) linked_cong[of A ?m m] by blast
  qed
  have b: "linked ?m (Some l1) D None"
  proof (cases D)
    case (Cons d D')
    have "m_previous ?m x = m_previous m x \<and> m_next ?m x = m_next m x" if "x \<in> set D'" for x
      using that ok(2) out Cons by (auto simp: unlink_fields hd)
    then have "linked ?m (Some d) D' None" using o(4) Cons linked_cong[of D' ?m m "Some d"] by simp
    then show ?thesis using o(4) Cons out by (auto simp: unlink_fields hd)
  qed simp
  show ?thesis using a b o(2,3) out by (auto simp: linked_append unlink_fields hd)
qed

lemma framed_split_leaf:
  assumes "create_leaf m = (l2, m1)"
  shows "framed m [Leaf l1 es] (link_after l1 l2 m1) [Leaf l1 es1, Leaf l2 es2]"
  unfolding framed_def
proof (intro allI impI)
  fix A D k assume "mem_ok m (A @ all_ids [Leaf l1 es] @ D) (k + all_inner [Leaf l1 es])"
  then have ok: "distinct (A @ l1 # D)" "\<forall>l\<in>set (A @ l1 # D). l < m_fresh m" "linked m None (A @ l1 # D) None"
      "num_leaves_allocated m = length (A @ l1 # D)" "num_nodes_allocated m = k" by (simp_all add: mem_ok_def)
  note c = create_leaf_fresh[OF assms]
  have new: "l2 \<notin> set (A @ l1 # D)" using ok(2) c(1) by auto
  have "m_previous m1 x = m_previous m x \<and> m_next m1 x = m_next m x" if "x \<in> set (A @ l1 # D)" for x
    using c(5)[of x] new that by auto
  then have "linked m1 None (A @ l1 # D) None" using ok(3) linked_cong[of "A @ l1 # D" m1 m None None] by blast
  from linked_new_leaf[OF this ok(1) new]
  have "linked (link_after l1 l2 m1) None (A @ l1 # l2 # D) None" .
  then show "mem_ok (link_after l1 l2 m1) (A @ all_ids [Leaf l1 es1, Leaf l2 es2] @ D) (k + all_inner [Leaf l1 es1, Leaf l2 es2])"
    using ok new c by (auto simp: mem_ok_def less_Suc_eq)
qed

lemma framed_merge_leaves: "framed m [Leaf l1 es1, Leaf l2 es2] (delete_leaf (unlink l1 l2 m)) [Leaf l1 es]"
  unfolding framed_def
proof (intro allI impI)
  fix A D k assume "mem_ok m (A @ all_ids [Leaf l1 es1, Leaf l2 es2] @ D) (k + all_inner [Leaf l1 es1, Leaf l2 es2])"
  then have ok: "distinct (A @ l1 # l2 # D)" "\<forall>l\<in>set (A @ l1 # l2 # D). l < m_fresh m" "linked m None (A @ l1 # l2 # D) None"
      "num_leaves_allocated m = length (A @ l1 # l2 # D)" "num_nodes_allocated m = k" by (simp_all add: mem_ok_def)
  have "linked (delete_leaf (unlink l1 l2 m)) None (A @ l1 # D) None"
    using linked_unlink[OF ok(3,1)] linked_cong[of "A @ l1 # D" "delete_leaf (unlink l1 l2 m)" "unlink l1 l2 m"] by (simp add: delete_leaf_def)
  then show "mem_ok (delete_leaf (unlink l1 l2 m)) (A @ all_ids [Leaf l1 es] @ D) (k + all_inner [Leaf l1 es])"
    using ok by (auto simp: mem_ok_def delete_leaf_def)
qed

lemma framed_counters:
  "framed m [InternalNode ks (cs1 @ cs2)] (create_internal_node m) [InternalNode ks1 cs1, InternalNode ks2 cs2]"
  "framed m [InternalNode ks1 cs1, InternalNode ks2 cs2] (delete_internal_node m) [InternalNode ks (cs1 @ cs2)]"
proof -
  have c: "linked (create_internal_node m) p ls n = linked m p ls n" "linked (delete_internal_node m) p ls n = linked m p ls n" for p ls n
    by (rule linked_cong, simp add: create_internal_node_def delete_internal_node_def)+
  show "framed m [InternalNode ks (cs1 @ cs2)] (create_internal_node m) [InternalNode ks1 cs1, InternalNode ks2 cs2]"
    using c(1) by (auto simp: framed_def mem_ok_def) (auto simp: create_internal_node_def)
  show "framed m [InternalNode ks1 cs1, InternalNode ks2 cs2] (delete_internal_node m) [InternalNode ks (cs1 @ cs2)]"
    using c(2) by (auto simp: framed_def mem_ok_def) (auto simp: delete_internal_node_def)
qed

section \<open>Two siblings\<close>

lemma min_key_append: "pairs n @ R = pairs c @ R' \<Longrightarrow> pairs n \<noteq> [] \<Longrightarrow> pairs c \<noteq> [] \<Longrightarrow> min_key n = min_key c"
  by (cases "pairs n"; cases "pairs c") (auto simp: min_key_def)

lemma shape_children_append:
  assumes "cs1 \<noteq> []" and "cs2 \<noteq> []"
  shows "seps (cs1 @ cs2) = seps cs1 @ min_key (hd cs2) # seps cs2" and "take (length cs1 - 1) (seps (cs1 @ cs2)) = seps cs1"
    and "drop (length cs1) (seps (cs1 @ cs2)) = seps cs2" and "seps (cs1 @ cs2) ! (length cs1 - 1) = min_key (hd cs2)"
proof -
  show e: "seps (cs1 @ cs2) = seps cs1 @ min_key (hd cs2) # seps cs2"
    using assms by (cases cs2) (simp_all add: seps_def)
  show "take (length cs1 - 1) (seps (cs1 @ cs2)) = seps cs1" "seps (cs1 @ cs2) ! (length cs1 - 1) = min_key (hd cs2)"
    unfolding e by (simp_all add: nth_append)
  show "drop (length cs1) (seps (cs1 @ cs2)) = seps cs2" unfolding e using assms(1) by (cases cs1) simp_all
qed

lemma min_key_internal:
  assumes "ab_bounds_ok B" and "shape B (Suc h) (InternalNode ks cs)"
  shows "min_key (InternalNode ks cs) = min_key (hd cs)"
proof -
  obtain c cs' where c: "cs = c # cs'" "shape B h c" "within_bounds B h c" using assms(2) by (cases cs) auto
  then show ?thesis using within_nonempty[OF assms(1) c(2,3)] by (simp add: min_key_def)
qed

text \<open>An internal node cut in two.\<close>

lemma shape_cut:
  assumes B: "ab_bounds_ok B" and n: "shape B (Suc h) (InternalNode ks (cs1 @ cs2))" and ne: "cs1 \<noteq> []" "cs2 \<noteq> []"
  shows "shape B (Suc h) (InternalNode (take (length cs1 - 1) ks) cs1)" and "shape B (Suc h) (InternalNode (drop (length cs1) ks) cs2)"
    and "ks ! (length cs1 - 1) = min_key (InternalNode (drop (length cs1) ks) cs2)"
proof -
  have ks: "ks = seps (cs1 @ cs2)" using n by simp
  note e = shape_children_append[OF ne, folded ks]
  show "shape B (Suc h) (InternalNode (take (length cs1 - 1) ks) cs1)" unfolding e(2) using n ne by simp
  show s2: "shape B (Suc h) (InternalNode (drop (length cs1) ks) cs2)" unfolding e(3) using n ne by simp
  show "ks ! (length cs1 - 1) = min_key (InternalNode (drop (length cs1) ks) cs2)"
    using e(4) min_key_internal[OF B s2] by simp
qed

lemma shape_joined:
  assumes B: "ab_bounds_ok B" and n1: "shape B (Suc h) (InternalNode ks1 cs1)" and n2: "shape B (Suc h) (InternalNode ks2 cs2)"
  shows "shape B (Suc h) (InternalNode (ks1 @ min_key (InternalNode ks2 cs2) # ks2) (cs1 @ cs2))"
proof -
  have "cs1 \<noteq> []" "cs2 \<noteq> []" "ks1 = seps cs1" "ks2 = seps cs2" using n1 n2 by auto
  then show ?thesis using shape_children_append(1)[of cs1 cs2] min_key_internal[OF B n2] n1 n2 by auto
qed

lemma split_child_ok:
  assumes B: "ab_bounds_ok B" and c: "shape B h c" and full: "if h = 0 then node_N c = leaf_b B else node_N c = intnode_b B + 1"
  obtains n1 n2 m' where "split_child B h c m = Some (n1, min_key n2, n2, m')" and "shape B h n1" and "shape B h n2"
    and "within_bounds B h n1" and "within_bounds B h n2" and "pairs n1 @ pairs n2 = pairs c" and "framed m [c] m' [n1, n2]"
    and "h = 0 \<Longrightarrow> node_N n1 < leaf_b B" and "h = 0 \<Longrightarrow> node_N n2 < leaf_b B"
proof (cases h)
  case 0
  obtain l es where c': "c = Leaf l es" using c 0 by (auto elim: shape_leafE)
  obtain l2 m1 where m1: "create_leaf m = (l2, m1)" by force
  let ?t = "(length es + 1) div 2"
  have b: "1 < leaf_a B" "2 * leaf_a B \<le> leaf_b B" "length es = leaf_b B" using B full 0 c' by (auto simp: ab_bounds_ok_def)
  have s: "leaf_a B \<le> ?t" "leaf_a B \<le> length es - ?t" "?t < length es" "length es - ?t < length es" using b by linarith+
  have p: "fst (es ! ?t) = min_key (Leaf l2 (drop ?t es))" using s(3) by (simp add: min_key_def hd_drop_conv_nth)
  show ?thesis
    by (rule that[of "Leaf l (take ?t es)" "Leaf l2 (drop ?t es)" "link_after l l2 m1"])
      (use 0 c' m1 b s p framed_split_leaf[OF m1] in \<open>auto simp: Let_def within_bounds_def get_lowerbound_def get_upperbound_def\<close>)
next
  case (Suc h')
  obtain cs where c': "c = InternalNode (seps cs) cs" "cs \<noteq> []" using c Suc by (auto elim: shapeE)
  let ?t = "length cs div 2"
  have b: "1 < intnode_a B" "2 * intnode_a B \<le> intnode_b B" "length cs = intnode_b B + 1" using B full Suc c' by (auto simp: ab_bounds_ok_def)
  have s: "intnode_a B \<le> ?t + 1" "intnode_a B \<le> length cs - (?t + 1)" "?t + 1 \<le> intnode_b B" "length cs - (?t + 1) \<le> intnode_b B" "?t + 1 < length cs"
    using b by linarith+
  define cs1 cs2 where cs12: "cs1 = take (?t + 1) cs" "cs2 = drop (?t + 1) cs"
  have l: "length cs1 = ?t + 1" "length cs2 = length cs - (?t + 1)" "cs = cs1 @ cs2" "cs1 \<noteq> []" "cs2 \<noteq> []" using s(5) by (auto simp: cs12)
  have sh: "shape B (Suc h') (InternalNode (seps cs) (cs1 @ cs2))" using c Suc c' l(3) by simp
  note cut = shape_cut[OF B sh l(4,5)]
  let ?n1 = "InternalNode (take ?t (seps cs)) cs1" and ?n2 = "InternalNode (drop (?t + 1) (seps cs)) cs2"
  have run: "split_child B h c m = Some (?n1, min_key ?n2, ?n2, create_internal_node m)"
    using Suc c' s cut(3) l(1) unfolding cs12[symmetric] by (simp add: Let_def cs12)
  have fr: "framed m [c] (create_internal_node m) [?n1, ?n2]" using framed_counters(1)[of m "seps cs" cs1 cs2] c' l(3) by simp
  have w: "within_bounds B h ?n1" "within_bounds B h ?n2" using l(1,2) s Suc by (simp_all add: within_bounds_def get_lowerbound_def get_upperbound_def)
  have sp: "shape B h ?n1" "shape B h ?n2" using cut(1,2) l(1) Suc by (simp_all only: diff_add_inverse2)
  have pp: "pairs ?n1 @ pairs ?n2 = pairs c" unfolding c'(1) using l(3) by (simp flip: all_pairs_simps(3))
  show ?thesis by (rule that[OF run sp w pp fr]) (simp_all add: Suc)
qed

lemma shift_right_ok:
  assumes B: "ab_bounds_ok B" and c1: "shape B h c1" and c2: "shape B h c2" "0 < node_N c2" and need: "0 < need" "need < node_N c1"
  obtains n1 n2 where "shift_right_children h need c1 (min_key c2) c2 = Some (n1, min_key n2, n2)" and "shape B h n1" and "shape B h n2"
    and "node_N n1 = node_N c1 - need" and "node_N n2 = node_N c2 + need" and "pairs n1 @ pairs n2 = pairs c1 @ pairs c2"
    and "framed m [c1, c2] m [n1, n2]"
proof (cases h)
  case 0
  obtain l1 es1 l2 es2 where c: "c1 = Leaf l1 es1" "c2 = Leaf l2 es2" using c1 c2(1) 0 by (auto elim!: shape_leafE)
  let ?n = "length es1 - need"
  show ?thesis
    by (rule that[of "Leaf l1 (take ?n es1)" "Leaf l2 (drop ?n es1 @ es2)"])
      (use 0 c need in \<open>auto simp: Let_def min_key_def framed_same\<close>)
next
  case (Suc h')
  obtain cs1 cs2 where c: "c1 = InternalNode (seps cs1) cs1" "c2 = InternalNode (seps cs2) cs2" "cs1 \<noteq> []" "cs2 \<noteq> []"
    using c1 c2(1) Suc by (metis shapeE)
  let ?n = "length cs1 - need"
  define ds1 ds2 where ds: "ds1 = take ?n cs1" "ds2 = drop ?n cs1"
  have l: "length ds1 = ?n" "length ds2 = need" "cs1 = ds1 @ ds2" "ds1 \<noteq> []" "ds2 \<noteq> []" using need c by (auto simp: ds)
  have sh: "shape B (Suc h') (InternalNode (seps cs1) (ds1 @ ds2))" using c1 c(1) Suc l(3) by simp
  note cut = shape_cut[OF B sh l(4,5), unfolded l(1)]
  let ?n1 = "InternalNode (take (?n - 1) (seps cs1)) ds1" and ?n2 = "InternalNode (drop ?n (seps cs1) @ min_key c2 # seps cs2) (ds2 @ cs2)"
  have j: "shape B (Suc h') ?n2" using shape_joined[OF B cut(2), of "seps cs2" cs2] c2(1) c(2) Suc by simp
  have "min_key ?n2 = min_key (InternalNode (drop ?n (seps cs1)) ds2)" using min_key_internal[OF B j] min_key_internal[OF B cut(2)] l(5) by simp
  then have run: "shift_right_children h need c1 (min_key c2) c2 = Some (?n1, min_key ?n2, ?n2)"
    using Suc c cut(3) l(4) unfolding c by (simp add: Let_def ds)
  have fr: "framed m [c1, c2] m [?n1, ?n2]" unfolding c(1,2) l(3) by (rule framed_same) simp_all
  have sp: "shape B h ?n1" "shape B h ?n2" using cut(1) j Suc by (simp_all only:)
  have nn: "node_N ?n1 = node_N c1 - need" "node_N ?n2 = node_N c2 + need" using l(1,2) unfolding c(1,2) by simp_all
  have pp: "pairs ?n1 @ pairs ?n2 = pairs c1 @ pairs c2" unfolding c(1,2) pairs_internal l(3) by simp
  show ?thesis by (rule that[OF run sp nn pp fr])
qed

lemma shift_left_ok:
  assumes B: "ab_bounds_ok B" and c1: "shape B h c1" "0 < node_N c1" and c2: "shape B h c2" and need: "0 < need" "need \<le> 2" "need < node_N c2"
  obtains n1 n2 where "shift_left_children h need c1 (min_key c2) c2 = Some (n1, min_key n2, n2)" and "shape B h n1" and "shape B h n2"
    and "node_N n1 = node_N c1 + need" and "node_N n2 = node_N c2 - need" and "pairs n1 @ pairs n2 = pairs c1 @ pairs c2"
    and "framed m [c1, c2] m [n1, n2]"
proof (cases h)
  case 0
  obtain l1 es1 l2 es2 where c: "c1 = Leaf l1 es1" "c2 = Leaf l2 es2" using c1 c2 0 by (auto elim!: shape_leafE)
  show ?thesis
    by (rule that[of "Leaf l1 (es1 @ take need es2)" "Leaf l2 (drop need es2)"])
      (use 0 c need in \<open>auto simp: Let_def min_key_def framed_same hd_drop_conv_nth\<close>)
next
  case (Suc h')
  obtain cs1 cs2 where c: "c1 = InternalNode (seps cs1) cs1" "c2 = InternalNode (seps cs2) cs2" "cs1 \<noteq> []" "cs2 \<noteq> []"
    using c1(1) c2 Suc by (metis shapeE)
  define ds1 ds2 where ds: "ds1 = take need cs2" "ds2 = drop need cs2"
  have l: "length ds1 = need" "length ds2 = length cs2 - need" "cs2 = ds1 @ ds2" "ds1 \<noteq> []" "ds2 \<noteq> []" using need c by (auto simp: ds)
  have sh: "shape B (Suc h') (InternalNode (seps cs2) (ds1 @ ds2))" using c2 c(2) Suc l(3) by simp
  note cut = shape_cut[OF B sh l(4,5), unfolded l(1)]
  let ?d = "InternalNode (take (need - 1) (seps cs2)) ds1"
  let ?n1 = "InternalNode (seps cs1 @ min_key c2 # take (need - 1) (seps cs2)) (cs1 @ ds1)" and ?n2 = "InternalNode (drop need (seps cs2)) ds2"
  have "min_key c2 = min_key ?d" using min_key_internal[OF B sh] min_key_internal[OF B cut(1)] l(3,4) c(2) by simp
  then have j: "shape B (Suc h') ?n1" using shape_joined[OF B _ cut(1), of "seps cs1" cs1] c1(1) c(1) Suc by simp
  have run: "shift_left_children h need c1 (min_key c2) c2 = Some (?n1, min_key ?n2, ?n2)"
    using cut(3) need c(3) unfolding Suc c(1,2) ds by (simp add: Let_def)
  have fr: "framed m [c1, c2] m [?n1, ?n2]" unfolding c(1,2) by (rule framed_same) (simp_all add: l(3))
  have sp: "shape B h ?n1" "shape B h ?n2" using cut(2) j Suc by (simp_all only:)
  have nn: "node_N ?n1 = node_N c1 + need" "node_N ?n2 = node_N c2 - need" using l(1,2) unfolding c(1,2) by simp_all
  have pp: "pairs ?n1 @ pairs ?n2 = pairs c1 @ pairs c2" unfolding c(1,2) pairs_internal l(3) by simp
  show ?thesis by (rule that[OF run sp nn pp fr])
qed

lemma merge_children_ok:
  assumes B: "ab_bounds_ok B" and c1: "shape B h c1" "0 < node_N c1" and c2: "shape B h c2" "0 < node_N c2"
    and fit: "node_N c1 + node_N c2 < get_upperbound B h"
  obtains n m' where "merge_children B h c1 (min_key c2) c2 m = Some (n, m')" and "shape B h n" and "node_N n = node_N c1 + node_N c2"
    and "pairs n = pairs c1 @ pairs c2" and "framed m [c1, c2] m' [n]"
proof (cases h)
  case 0
  obtain l1 es1 l2 es2 where c: "c1 = Leaf l1 es1" "c2 = Leaf l2 es2" using c1 c2 0 by (auto elim!: shape_leafE)
  show ?thesis
    by (rule that[of "Leaf l1 (es1 @ es2)" "delete_leaf (unlink l1 l2 m)"])
      (use 0 c fit framed_merge_leaves in \<open>auto simp: get_upperbound_def\<close>)
next
  case (Suc h')
  obtain cs1 cs2 where c: "c1 = InternalNode (seps cs1) cs1" "c2 = InternalNode (seps cs2) cs2" "cs1 \<noteq> []" "cs2 \<noteq> []"
    using c1(1) c2(1) Suc by (metis shapeE)
  let ?n = "InternalNode (seps cs1 @ min_key c2 # seps cs2) (cs1 @ cs2)"
  have sh: "shape B (Suc h') (InternalNode (seps cs1) cs1)" "shape B (Suc h') (InternalNode (seps cs2) cs2)"
    using c1(1) c2(1) unfolding c(1,2) Suc .
  have j: "shape B (Suc h') ?n" using shape_joined[OF B sh] unfolding c(2)[symmetric] .
  have run: "merge_children B h c1 (min_key c2) c2 m = Some (?n, delete_internal_node m)"
    using c(3,4) fit unfolding Suc c(1,2) by (simp add: get_upperbound_def)
  have fr: "framed m [c1, c2] (delete_internal_node m) [?n]" unfolding c(1,2) by (rule framed_counters(2))
  have sp: "shape B h ?n" using j Suc by (simp only:)
  have nn: "node_N ?n = node_N c1 + node_N c2" "pairs ?n = pairs c1 @ pairs c2" unfolding c(1,2) by simp_all
  show ?thesis by (rule that[OF run sp nn fr])
qed

end
