(* ===== verification/ABTree_Update_Proofs.thy ===== *)
theory ABTree_Update_Proofs
  imports ABTree_Proofs
begin

text \<open>
  The updates of the (a,b)-tree: a parent after a rotation or a merge of its children, the rebalance of a child that
  has one element too few, and the insertion and removal in a subtree, up to the root.
\<close>

section \<open>The parent\<close>

text \<open>The children, all of the right shape and all but the one at \<open>i\<close> within their bounds.\<close>

definition all_but :: "Bounds \<Rightarrow> nat \<Rightarrow> nat set \<Rightarrow> Node list \<Rightarrow> bool" where
  "all_but B h I cs \<longleftrightarrow> (\<forall>j<length cs. shape B h (cs ! j) \<and> (j \<notin> I \<longrightarrow> within_bounds B h (cs ! j)))"

lemma two_siblings:
  assumes "j + 1 < length cs"
  shows "cs = take j cs @ cs ! j # cs ! (j + 1) # drop (j + 2) cs" and "cs[j := n1, j + 1 := n2] = take j cs @ n1 # n2 # drop (j + 2) cs"
proof -
  show e: "cs = take j cs @ cs ! j # cs ! (j + 1) # drop (j + 2) cs"
    using id_take_nth_drop[of j cs] Cons_nth_drop_Suc[of "j + 1" cs] assms by simp
  have "(take j cs @ cs ! j # cs ! (j + 1) # drop (j + 2) cs)[j := n1, j + 1 := n2] = take j cs @ n1 # n2 # drop (j + 2) cs"
    using assms by (simp add: list_update_append)
  then show "cs[j := n1, j + 1 := n2] = take j cs @ n1 # n2 # drop (j + 2) cs" using e by simp
qed

lemma rotated_ok:
  assumes B: "ab_bounds_ok B" and j: "j + 1 < length cs" and cs: "all_but B h {j, j + 1} cs" and c1: "0 < node_N (cs ! j)"
    and n: "shape B h n1" "shape B h n2" "within_bounds B h n1" "within_bounds B h n2" "pairs n1 @ pairs n2 = pairs (cs ! j) @ pairs (cs ! (j + 1))"
    and fr: "framed m [cs ! j, cs ! (j + 1)] m' [n1, n2]"
  defines "cs' \<equiv> cs[j := n1, j + 1 := n2]"
  shows "(seps cs)[j := min_key n2] = seps cs'" and "shape B (Suc h) (InternalNode (seps cs') cs')" and "all_pairs cs' = all_pairs cs"
    and "framed m [InternalNode (seps cs) cs] m' [InternalNode (seps cs') cs']"
proof -
  note e = two_siblings[OF j]
  have "shape B h (cs ! j)" using cs j by (simp add: all_but_def)
  then have mk: "min_key n1 = min_key (cs ! j)"
    using min_key_append[OF n(5)] within_nonempty[OF B n(1,3)] pairs_nonempty[OF B _ c1] by blast
  show "(seps cs)[j := min_key n2] = seps cs'"
    using seps_update[of j cs n1] seps_update[of "j + 1" "cs[j := n1]" n2] seps_update_same[of j cs n1] mk j by (simp add: cs'_def)
  have "shape B h c \<and> within_bounds B h c" if "c \<in> set cs'" for c
  proof -
    obtain k where k: "k < length cs" "c = cs' ! k" using \<open>c \<in> set cs'\<close> by (auto simp: in_set_conv_nth cs'_def)
    consider "k = j + 1" | "k = j" | "k \<notin> {j, j + 1}" by auto
    then show ?thesis by cases (use k n j cs in \<open>simp_all add: cs'_def all_but_def\<close>)
  qed
  moreover have "cs' \<noteq> []" using j by (auto simp: cs'_def)
  ultimately show "shape B (Suc h) (InternalNode (seps cs') cs')" by simp
  have f: "framed m cs m' cs'" using framed_context[OF fr, of "take j cs" "drop (j + 2) cs"] e unfolding cs'_def by (metis append_Cons append_Nil)
  show "all_pairs cs' = all_pairs cs" unfolding cs'_def e(2) using arg_cong[OF e(1), of all_pairs] n(5) by simp
  show "framed m [InternalNode (seps cs) cs] m' [InternalNode (seps cs') cs']" by (rule framed_node[OF f])
qed

lemma merged_ok:
  assumes B: "ab_bounds_ok B" and j: "j + 1 < length cs" and cs: "all_but B h {j, j + 1} cs" and c1: "0 < node_N (cs ! j)"
    and n: "shape B h n" "within_bounds B h n" "pairs n = pairs (cs ! j) @ pairs (cs ! (j + 1))"
    and fr: "framed m [cs ! j, cs ! (j + 1)] m' [n]"
  defines "cs' \<equiv> take j cs @ n # drop (j + 2) cs"
  shows "take j (seps cs) @ drop (j + 1) (seps cs) = seps cs'" and "shape B (Suc h) (InternalNode (seps cs') cs')" and "all_pairs cs' = all_pairs cs"
    and "framed m [InternalNode (seps cs) cs] m' [InternalNode (seps cs') cs']" and "length cs' = length cs - 1" and "cs' ! j = n"
proof -
  note e = two_siblings(1)[OF j]
  have "shape B h (cs ! j)" using cs j by (simp add: all_but_def)
  then have mk: "min_key n = min_key (cs ! j)"
    using min_key_append[of n "[]" "cs ! j" "pairs (cs ! (j + 1))"] n(3) within_nonempty[OF B n(1,2)] pairs_nonempty[OF B _ c1] by simp
  show "take j (seps cs) @ drop (j + 1) (seps cs) = seps cs'" using seps_merge[OF j, of n] mk by (simp add: cs'_def)
  have "shape B h c \<and> within_bounds B h c" if x: "c \<in> set cs'" for c
  proof -
    consider "c = n" | "c \<in> set (take j cs)" | "c \<in> set (drop (j + 2) cs)" using x by (auto simp: cs'_def)
    then show ?thesis
    proof cases
      case 2
      then obtain k where "k < j" "c = cs ! k" using j by (auto simp: in_set_conv_nth)
      then show ?thesis using cs j by (simp add: all_but_def)
    next
      case 3
      then obtain k where k: "k < length (drop (j + 2) cs)" "c = drop (j + 2) cs ! k" unfolding in_set_conv_nth by blast
      then have "j + 2 + k < length cs" "c = cs ! (j + 2 + k)" by simp_all
      then show ?thesis using cs by (simp add: all_but_def)
    qed (use n in simp)
  qed
  then show "shape B (Suc h) (InternalNode (seps cs') cs')" by (simp add: cs'_def)
  have f: "framed m cs m' cs'" using framed_context[OF fr, of "take j cs" "drop (j + 2) cs"] e unfolding cs'_def by (metis append_Cons append_Nil)
  show "all_pairs cs' = all_pairs cs" unfolding cs'_def using arg_cong[OF e, of all_pairs] n(3) by simp
  show "framed m [InternalNode (seps cs) cs] m' [InternalNode (seps cs') cs']" by (rule framed_node[OF f])
  show "length cs' = length cs - 1" "cs' ! j = n" using j by (simp_all add: cs'_def nth_append)
qed

lemma rebalance_lb_ok:
  assumes B: "ab_bounds_ok B" and cs: "all_but B h {i} cs" and i: "i < length cs" and len: "2 \<le> length cs" "is_root \<or> intnode_a B \<le> length cs"
    and sz: "get_lowerbound B h \<le> node_N (cs ! i) + 1" "node_N (cs ! i) \<le> get_upperbound B h"
  obtains cs' m' where "rebalance_lb B is_root (InternalNode (seps cs) cs) i h m = Some (InternalNode (seps cs') cs', m')"
    and "shape B (Suc h) (InternalNode (seps cs') cs')" and "length cs' \<le> length cs" and "length cs \<le> length cs' + 1"
    and "all_pairs cs' = all_pairs cs" and "framed m [InternalNode (seps cs) cs] m' [InternalNode (seps cs') cs']"
proof -
  let ?lo = "get_lowerbound B h" and ?up = "get_upperbound B h" and ?N = "length cs"
  note b = ab_bounds_okD[OF B, of h]
  have sh: "shape B h (cs ! j)" if "j < ?N" for j using cs that by (simp add: all_but_def)
  have wi: "?lo \<le> node_N (cs ! j)" "node_N (cs ! j) \<le> ?up" if "j < ?N" "j \<noteq> i" for j
    using cs that by (simp_all add: all_but_def within_bounds_def)
  have pos: "0 < node_N (cs ! j)" if "j < ?N" for j using wi[OF that] sz(1) b(1) that by (cases "j = i") auto
  have weak: "all_but B h {j, j + 1} cs" if "i \<in> {j, j + 1}" for j using cs that by (auto simp: all_but_def)
  have piv: "seps cs ! j = min_key (cs ! (j + 1))" if "j + 1 < ?N" for j using nth_seps[of j cs] that by simp
  show ?thesis
  proof (cases "?lo \<le> node_N (cs ! i)")
    case True
    have "shape B h c \<and> within_bounds B h c" if c: "c \<in> set cs" for c
    proof -
      obtain j where j: "j < ?N" "c = cs ! j" using c by (auto simp: in_set_conv_nth)
      then show ?thesis using sh[OF j(1)] wi[OF j(1)] True sz(2) by (cases "j = i") (auto simp: within_bounds_def)
    qed
    then have "shape B (Suc h) (InternalNode (seps cs) cs)" using i by auto
    moreover have "rebalance_lb B is_root (InternalNode (seps cs) cs) i h m = Some (InternalNode (seps cs) cs, m)"
      using True len i by (simp add: Let_def)
    ultimately show ?thesis using that framed_refl by simp
  next
    case False
    then have need: "?lo - node_N (cs ! i) = 1" "node_N (cs ! i) + 1 = ?lo" using sz(1) by linarith+
    let ?left = "if 0 < i then node_N (cs ! (i - 1)) else 0" and ?right = "if i < ?N - 1 then node_N (cs ! (i + 1)) else 0"
    have right: "\<exists>cs' . rotate_right B (InternalNode (seps cs) cs) i h k = Some (InternalNode (seps cs') cs')
        \<and> shape B (Suc h) (InternalNode (seps cs') cs') \<and> length cs' = ?N \<and> all_pairs cs' = all_pairs cs
        \<and> framed m [InternalNode (seps cs) cs] m [InternalNode (seps cs') cs']"
      if k: "0 < i" "0 < k" "k \<le> 2" "?lo + k \<le> node_N (cs ! (i - 1))" for k
    proof -
      define j where "j = i - 1"
      have j: "i = j + 1" "j + 1 < ?N" "j < ?N" using k(1) i by (simp_all add: j_def)
      have "?lo + k \<le> node_N (cs ! j)" using k(4) by (simp add: j_def)
      then have kl: "k < node_N (cs ! j)" using b(1) by simp
      obtain n1 n2 where n: "shift_right_children h k (cs ! j) (min_key (cs ! (j + 1))) (cs ! (j + 1)) = Some (n1, min_key n2, n2)"
          "shape B h n1" "shape B h n2" "node_N n1 = node_N (cs ! j) - k" "node_N n2 = node_N (cs ! (j + 1)) + k"
          "pairs n1 @ pairs n2 = pairs (cs ! j) @ pairs (cs ! (j + 1))" "framed m [cs ! j, cs ! (j + 1)] m [n1, n2]"
        by (rule shift_right_ok[OF B sh[OF j(3)] sh[OF j(2)] pos[OF j(2)] k(2) kl])
      have up: "node_N (cs ! (j + 1)) + k \<le> ?up" using need(2) j(1) k(3) b by auto
      have w: "within_bounds B h n1" "within_bounds B h n2"
        using n(4,5) wi[of j] j need(2) k b up \<open>?lo + k \<le> node_N (cs ! j)\<close> by (auto simp: within_bounds_def)
      note r = rotated_ok[OF B j(2) weak pos[OF j(3)] n(2,3) w n(6,7)]
      have "rotate_right B (InternalNode (seps cs) cs) i h k = Some (InternalNode (seps (cs[j := n1, j + 1 := n2])) (cs[j := n1, j + 1 := n2]))"
        using n(1) piv[OF j(2)] j k(2) kl up r(1) by simp
      then show ?thesis using r j(1) by (intro exI[of _ "cs[j := n1, j + 1 := n2]"]) simp
    qed
    have left: "\<exists>cs' . rotate_left B (InternalNode (seps cs) cs) i h k = Some (InternalNode (seps cs') cs')
        \<and> shape B (Suc h) (InternalNode (seps cs') cs') \<and> length cs' = ?N \<and> all_pairs cs' = all_pairs cs
        \<and> framed m [InternalNode (seps cs) cs] m [InternalNode (seps cs') cs']"
      if k: "i + 1 < ?N" "0 < k" "k \<le> 2" "?lo + k \<le> node_N (cs ! (i + 1))" for k
    proof -
      have kl: "k < node_N (cs ! (i + 1))" using k(4) b(1) by simp
      obtain n1 n2 where n: "shift_left_children h k (cs ! i) (min_key (cs ! (i + 1))) (cs ! (i + 1)) = Some (n1, min_key n2, n2)"
          "shape B h n1" "shape B h n2" "node_N n1 = node_N (cs ! i) + k" "node_N n2 = node_N (cs ! (i + 1)) - k"
          "pairs n1 @ pairs n2 = pairs (cs ! i) @ pairs (cs ! (i + 1))" "framed m [cs ! i, cs ! (i + 1)] m [n1, n2]"
        by (rule shift_left_ok[OF B sh[OF i] pos[OF i] sh[OF k(1)] k(2,3) kl])
      have up: "node_N (cs ! i) + k \<le> ?up" using need(2) k(3) b by auto
      have w: "within_bounds B h n1" "within_bounds B h n2"
        using n(4,5) wi[of "i + 1"] need(2) k b up by (auto simp: within_bounds_def)
      note r = rotated_ok[OF B k(1) weak pos[OF i] n(2,3) w n(6,7)]
      have "rotate_left B (InternalNode (seps cs) cs) i h k = Some (InternalNode (seps (cs[i := n1, i + 1 := n2])) (cs[i := n1, i + 1 := n2]))"
        using n(1) piv[OF k(1)] k kl up r(1) by simp
      then show ?thesis using r by (intro exI[of _ "cs[i := n1, i + 1 := n2]"]) simp
    qed
    have mrg: "\<exists>cs' m'. merge_checked B is_root (InternalNode (seps cs) cs) j h m = Some (InternalNode (seps cs') cs', m')
        \<and> shape B (Suc h) (InternalNode (seps cs') cs') \<and> length cs' = ?N - 1 \<and> all_pairs cs' = all_pairs cs
        \<and> framed m [InternalNode (seps cs) cs] m' [InternalNode (seps cs') cs']"
      if j: "j + 1 < ?N" "i \<in> {j, j + 1}" "node_N (cs ! j) + node_N (cs ! (j + 1)) + 1 = 2 * ?lo" for j
    proof -
      have jl: "j < ?N" using j(1) by simp
      have fit: "node_N (cs ! j) + node_N (cs ! (j + 1)) < ?up" using j(3) b by linarith
      obtain n m' where n: "merge_children B h (cs ! j) (min_key (cs ! (j + 1))) (cs ! (j + 1)) m = Some (n, m')" "shape B h n"
          "node_N n = node_N (cs ! j) + node_N (cs ! (j + 1))" "pairs n = pairs (cs ! j) @ pairs (cs ! (j + 1))" "framed m [cs ! j, cs ! (j + 1)] m' [n]"
        by (rule merge_children_ok[OF B sh[OF jl] pos[OF jl] sh[OF j(1)] pos[OF j(1)] fit])
      have w: "within_bounds B h n" using n(3) j(3) b fit by (simp add: within_bounds_def)
      note r = merged_ok[OF B j(1) weak[OF j(2)] pos[OF jl] n(2) w n(4,5)]
      have "merge_checked B is_root (InternalNode (seps cs) cs) j h m
          = Some (InternalNode (seps (take j cs @ n # drop (j + 2) cs)) (take j cs @ n # drop (j + 2) cs), m')"
        using n(1) piv[OF j(1)] j(1) len(2) r(1,6) w by (auto simp: merge_checked_def)
      then show ?thesis using r(2-5) by blast
    qed
    have run: "rebalance_lb B is_root (InternalNode (seps cs) cs) i h m =
        (if 0 < i \<and> ?lo + 2 \<le> ?left then map_option (\<lambda>n. (n, m)) (rotate_right B (InternalNode (seps cs) cs) i h 2)
         else if i < ?N - 1 \<and> ?lo + 2 \<le> ?right then map_option (\<lambda>n. (n, m)) (rotate_left B (InternalNode (seps cs) cs) i h 2)
         else if 0 < i \<and> ?lo + 1 \<le> ?left then map_option (\<lambda>n. (n, m)) (rotate_right B (InternalNode (seps cs) cs) i h 1)
         else if i < ?N - 1 \<and> ?lo + 1 \<le> ?right then map_option (\<lambda>n. (n, m)) (rotate_left B (InternalNode (seps cs) cs) i h 1)
         else if i < ?N - 1 then merge_checked B is_root (InternalNode (seps cs) cs) i h m
         else if i = 0 then None else merge_checked B is_root (InternalNode (seps cs) cs) (i - 1) h m)"
      using False need(1) len i by (simp only: rebalance_lb.simps Let_def) (simp add: numeral_2_eq_2 del: rotate_right.simps rotate_left.simps)
    let ?R2 = "0 < i \<and> ?lo + 2 \<le> ?left" and ?L2 = "i < ?N - 1 \<and> ?lo + 2 \<le> ?right"
    let ?R1 = "0 < i \<and> ?lo + 1 \<le> ?left" and ?L1 = "i < ?N - 1 \<and> ?lo + 1 \<le> ?right"
    consider (r2) "?R2" | (l2) "\<not> ?R2" "?L2" | (r1) "\<not> ?R2" "\<not> ?L2" "?R1" | (l1) "\<not> ?R2" "\<not> ?L2" "\<not> ?R1" "?L1"
      | (m) "\<not> ?R2" "\<not> ?L2" "\<not> ?R1" "\<not> ?L1" by blast
    then show ?thesis
    proof cases
      case r2
      then have k: "0 < i" "?lo + 2 \<le> node_N (cs ! (i - 1))" by auto
      obtain cs' where "rotate_right B (InternalNode (seps cs) cs) i h 2 = Some (InternalNode (seps cs') cs')"
          "shape B (Suc h) (InternalNode (seps cs') cs')" "length cs' = ?N" "all_pairs cs' = all_pairs cs"
          "framed m [InternalNode (seps cs) cs] m [InternalNode (seps cs') cs']" using right[OF k(1) _ _ k(2)] by auto
      then show ?thesis using that[of cs' m] run[unfolded if_P[OF r2]] by simp
    next
      case l2
      then have k: "i + 1 < ?N" "?lo + 2 \<le> node_N (cs ! (i + 1))" by auto
      obtain cs' where "rotate_left B (InternalNode (seps cs) cs) i h 2 = Some (InternalNode (seps cs') cs')"
          "shape B (Suc h) (InternalNode (seps cs') cs')" "length cs' = ?N" "all_pairs cs' = all_pairs cs"
          "framed m [InternalNode (seps cs) cs] m [InternalNode (seps cs') cs']" using left[OF k(1) _ _ k(2)] by auto
      then show ?thesis using that[of cs' m] run[unfolded if_not_P[OF l2(1)] if_P[OF l2(2)]] by simp
    next
      case r1
      then have k: "0 < i" "?lo + 1 \<le> node_N (cs ! (i - 1))" by auto
      obtain cs' where "rotate_right B (InternalNode (seps cs) cs) i h 1 = Some (InternalNode (seps cs') cs')"
          "shape B (Suc h) (InternalNode (seps cs') cs')" "length cs' = ?N" "all_pairs cs' = all_pairs cs"
          "framed m [InternalNode (seps cs) cs] m [InternalNode (seps cs') cs']" using right[OF k(1) _ _ k(2)] by auto
      then show ?thesis using that[of cs' m] run[unfolded if_not_P[OF r1(1)] if_not_P[OF r1(2)] if_P[OF r1(3)]] by simp
    next
      case l1
      then have k: "i + 1 < ?N" "?lo + 1 \<le> node_N (cs ! (i + 1))" by auto
      obtain cs' where "rotate_left B (InternalNode (seps cs) cs) i h 1 = Some (InternalNode (seps cs') cs')"
          "shape B (Suc h) (InternalNode (seps cs') cs')" "length cs' = ?N" "all_pairs cs' = all_pairs cs"
          "framed m [InternalNode (seps cs) cs] m [InternalNode (seps cs') cs']" using left[OF k(1) _ _ k(2)] by auto
      then show ?thesis using that[of cs' m] run[unfolded if_not_P[OF l1(1)] if_not_P[OF l1(2)] if_not_P[OF l1(3)] if_P[OF l1(4)]] by simp
    next
      case m
      note run = run[unfolded if_not_P[OF m(1)] if_not_P[OF m(2)] if_not_P[OF m(3)] if_not_P[OF m(4)]]
      obtain j where j: "j + 1 < ?N" "i \<in> {j, j + 1}" "node_N (cs ! j) + node_N (cs ! (j + 1)) + 1 = 2 * ?lo"
          "rebalance_lb B is_root (InternalNode (seps cs) cs) i h m = merge_checked B is_root (InternalNode (seps cs) cs) j h m"
      proof (cases "i < ?N - 1")
        case True
        then have i1: "i + 1 < ?N" by simp
        then have "node_N (cs ! (i + 1)) = ?lo" using m(4) True wi(1)[OF i1] by simp
        then show ?thesis using need(2) by (intro that[OF i1 _ _ run[unfolded if_P[OF True]]]) simp_all
      next
        case F: False
        then have "0 < i" using i len(1) by linarith
        then have i1: "i - 1 < ?N" "i - 1 \<noteq> i" "i \<noteq> 0" using i by simp_all
        then have eq: "node_N (cs ! (i - 1)) = ?lo" using m(3) wi(1)[OF i1(1,2)] by simp
        note run1 = run[unfolded if_not_P[OF F] if_not_P[OF i1(3)]]
        show ?thesis using need(2) i i1(3) eq by (intro that[OF _ _ _ run1]) simp_all
      qed
      obtain cs' m' where "merge_checked B is_root (InternalNode (seps cs) cs) j h m = Some (InternalNode (seps cs') cs', m')"
          "shape B (Suc h) (InternalNode (seps cs') cs')" "length cs' = ?N - 1" "all_pairs cs' = all_pairs cs"
          "framed m [InternalNode (seps cs) cs] m' [InternalNode (seps cs') cs']" using mrg[OF j(1-3)] by auto
      then show ?thesis using that[of cs' m'] j(1,4) by simp
    qed
  qed
qed

end
