(* ===== verification/ABTree_Change_Proofs.thy ===== *)
theory ABTree_Change_Proofs
  imports ABTree_Update_Proofs
begin

text \<open>
  The insertion and the removal of a pair in a subtree and in the whole tree: both keep the shape, the order of the
  pairs, the links of the leaves and the counters of the allocated nodes.
\<close>

section \<open>The child on the way to a key\<close>

lemma all_but_shape:
  assumes "all_but B h {i} cs" and "i < length cs" and "within_bounds B h (cs ! i)"
  shows "shape B (Suc h) (InternalNode (seps cs) cs)"
proof -
  have "shape B h (cs ! j) \<and> within_bounds B h (cs ! j)" if "j < length cs" for j
    using assms that by (cases "j = i") (auto simp: all_but_def)
  then show ?thesis using assms(2) by (auto simp: in_set_conv_nth)
qed

lemma all_but_update:
  assumes "shape B (Suc h) (InternalNode (seps cs) cs)" and "shape B h c"
  shows "all_but B h {i} (cs[i := c])"
  unfolding all_but_def
proof (intro allI impI)
  fix j assume j: "j < length (cs[i := c])"
  show "shape B h (cs[i := c] ! j) \<and> (j \<notin> {i} \<longrightarrow> within_bounds B h (cs[i := c] ! j))"
    using assms j by (cases "j = i") auto
qed

lemma sorted_appendD:
  assumes "sorted (map fst (xs @ ys))"
  shows "sorted (map fst xs)" and "sorted (map fst ys)" and "\<And>x y. x \<in> set xs \<Longrightarrow> y \<in> set ys \<Longrightarrow> fst x \<le> fst y"
  using assms by (auto simp: sorted_append)

lemma sorted_child:
  assumes "sorted (map fst (all_pairs cs))" and "i < length cs"
  shows "sorted (map fst (pairs (cs ! i)))"
proof -
  have "sorted (map fst (all_pairs (take i cs) @ pairs (cs ! i) @ all_pairs (drop (i + 1) cs)))"
    using assms split_at_child(2)[OF assms(2)] by simp
  then show ?thesis using sorted_appendD(1,2) by blast
qed

lemma min_key_le:
  assumes "sorted (map fst (pairs n))" and "e \<in> set (pairs n)"
  shows "min_key n \<le> fst e"
  using assms by (cases "pairs n") (auto simp: min_key_def)

lemma find_child_ok:
  assumes ne: "cs \<noteq> []" "\<forall>c\<in>set cs. pairs c \<noteq> []" and so: "sorted (map fst (all_pairs cs))" and down: "\<And>x y. skip y \<Longrightarrow> x \<le> y \<Longrightarrow> skip x"
  defines "i \<equiv> find_child skip (seps cs)"
  shows "i < length cs" and "\<forall>e\<in>set (all_pairs (take i cs)). skip (fst e)" and "\<forall>e\<in>set (all_pairs (drop (i + 1) cs)). \<not> skip (fst e)"
    and "0 < i \<Longrightarrow> skip (min_key (cs ! i))" and "i + 1 < length cs \<Longrightarrow> \<not> skip (min_key (cs ! (i + 1)))"
proof -
  have le: "i \<le> length (seps cs)" unfolding i_def find_child_def by (rule length_takeWhile_le)
  then show i: "i < length cs" using ne(1) by (cases cs) auto
  show sk: "skip (min_key (cs ! i))" if "0 < i"
  proof -
    have "i - 1 < length (takeWhile skip (seps cs))" using that by (simp add: i_def find_child_def)
    then have "skip (seps cs ! (i - 1))" by (metis nth_mem set_takeWhileD takeWhile_nth)
    then show ?thesis using nth_seps[of "i - 1" cs] that i by simp
  qed
  show nsk: "\<not> skip (min_key (cs ! (i + 1)))" if "i + 1 < length cs"
  proof -
    have "\<not> skip (seps cs ! i)" using nth_length_takeWhile[of skip "seps cs"] that by (simp add: i_def find_child_def)
    then show ?thesis using nth_seps[of i cs] that by simp
  qed
  note e = split_at_child(2)[OF i]
  have s1: "sorted (map fst (all_pairs (take i cs) @ (pairs (cs ! i) @ all_pairs (drop (i + 1) cs))))" using so e by simp
  show "\<forall>e\<in>set (all_pairs (take i cs)). skip (fst e)"
  proof
    fix e assume e: "e \<in> set (all_pairs (take i cs))"
    then have "0 < i" by (cases i) auto
    moreover have "hd (pairs (cs ! i)) \<in> set (pairs (cs ! i) @ all_pairs (drop (i + 1) cs))" using ne(2) i by simp
    then have "fst e \<le> min_key (cs ! i)" unfolding min_key_def using sorted_appendD(3)[OF s1 e] by blast
    ultimately show "skip (fst e)" using sk down by blast
  qed
  show "\<forall>e\<in>set (all_pairs (drop (i + 1) cs)). \<not> skip (fst e)"
  proof
    fix e assume e: "e \<in> set (all_pairs (drop (i + 1) cs))"
    then have l: "i + 1 < length cs" by (cases "i + 1 < length cs") auto
    have d: "drop (i + 1) cs = cs ! (i + 1) # drop (i + 2) cs" using Cons_nth_drop_Suc[OF l] by simp
    have "sorted (map fst (pairs (cs ! (i + 1)) @ all_pairs (drop (i + 2) cs)))"
      using sorted_appendD(2)[OF sorted_appendD(2)[OF s1]] d by simp
    moreover have p: "pairs (cs ! (i + 1)) \<noteq> []" using ne(2) l by simp
    ultimately have "min_key (cs ! (i + 1)) \<le> fst e" using e d by (cases "pairs (cs ! (i + 1))") (auto simp: min_key_def)
    then show "\<not> skip (fst e)" using nsk[OF l] down by blast
  qed
qed

lemma shape_children:
  assumes "ab_bounds_ok B" and "shape B (Suc h) (InternalNode (seps cs) cs)"
  shows "cs \<noteq> []" and "\<forall>c\<in>set cs. pairs c \<noteq> []" and "\<And>i. i < length cs \<Longrightarrow> shape B h (cs ! i) \<and> within_bounds B h (cs ! i)"
  using assms within_nonempty[OF assms(1), of h] by auto

section \<open>Insertion\<close>

definition inserted :: "int \<Rightarrow> int \<Rightarrow> (int \<times> int) list \<Rightarrow> (int \<times> int) list \<Rightarrow> bool" where
  "inserted key val es es' \<longleftrightarrow>
     (\<exists>A D. es = A @ D \<and> es' = A @ (key, val) # D \<and> (\<forall>e\<in>set A. fst e \<le> key) \<and> (\<forall>e\<in>set D. key \<le> fst e))"

lemma inserted_sorted: "inserted key val es es' \<Longrightarrow> sorted (map fst es) \<Longrightarrow> sorted (map fst es')"
  by (auto simp: inserted_def sorted_append)

lemma inserted_mset: "inserted key val es es' \<Longrightarrow> mset es' = add_mset (key, val) (mset es)"
  by (auto simp: inserted_def)

lemma inserted_context:
  assumes "inserted key val es es'" and "\<forall>e\<in>set L. fst e \<le> key" and "\<forall>e\<in>set R. key \<le> fst e"
  shows "inserted key val (L @ es @ R) (L @ es' @ R)"
proof -
  obtain A D where "es = A @ D" "es' = A @ (key, val) # D" "\<forall>e\<in>set A. fst e \<le> key" "\<forall>e\<in>set D. key \<le> fst e"
    using assms(1) by (auto simp: inserted_def)
  then show ?thesis unfolding inserted_def using assms by (intro exI[of _ "L @ A"] exI[of _ "D @ R"]) auto
qed

text \<open>The least key does not change when it is smaller than the new one.\<close>

lemma inserted_min_key:
  assumes "inserted key val (pairs c) (pairs c')" and "min_key c < key" and "pairs c \<noteq> []"
  shows "min_key c' = min_key c"
proof -
  obtain A D where a: "pairs c = A @ D" "pairs c' = A @ (key, val) # D" "\<forall>e\<in>set D. key \<le> fst e" using assms(1) by (auto simp: inserted_def)
  have "A \<noteq> []" using assms(2,3) a by (cases D) (auto simp: min_key_def)
  then show ?thesis using a by (simp add: min_key_def)
qed

lemma leaf_insert_inserted:
  assumes "sorted (map fst es)"
  shows "inserted key val es (leaf_insert es key val)"
proof -
  let ?w = "takeWhile (\<lambda>e. key < fst e) (rev es)" and ?d = "dropWhile (\<lambda>e. key < fst e) (rev es)"
  have e: "es = rev ?d @ rev ?w" by (metis rev_append rev_rev_ident takeWhile_dropWhile_id)
  let ?i = "length es - length ?w"
  have l: "length (rev ?d) = ?i" using arg_cong[OF e, of length] by simp
  have t: "take ?i es = rev ?d" "drop ?i es = rev ?w" by (subst (2) e; simp add: l[symmetric])+
  have "\<forall>e\<in>set (rev ?d). fst e \<le> key"
  proof (cases ?d)
    case Nil
    then show ?thesis by (simp only: list.set rev.simps) simp
  next
    case (Cons d ds)
    then have d: "fst d \<le> key" using hd_dropWhile[of "\<lambda>e. key < fst e" "rev es"] by (metis linorder_not_less list.distinct(1) list.sel(1))
    have "sorted (map fst (rev ?d))" using assms e sorted_appendD(1) by metis
    then show ?thesis using d Cons by (auto simp: sorted_append)
  qed
  moreover have "\<forall>e\<in>set (rev ?w). key \<le> fst e" using set_takeWhileD by fastforce
  ultimately show ?thesis unfolding inserted_def leaf_insert_def Let_def t using e by blast
qed

lemma split_ok:
  assumes B: "ab_bounds_ok B" and cs: "all_but B h {i} cs" and i: "i < length cs" and len: "length cs \<le> intnode_b B"
    and full: "if h = 0 then node_N (cs ! i) = leaf_b B else node_N (cs ! i) = intnode_b B + 1"
  obtains n1 n2 cs' m' where "split B (InternalNode (seps cs) cs) i h m = Some (InternalNode (seps cs') cs', m')"
    and "cs' = take i cs @ n1 # n2 # drop (i + 1) cs" and "seps cs' = take i (seps cs) @ min_key n2 # drop i (seps cs)"
    and "shape B (Suc h) (InternalNode (seps cs') cs')" and "all_pairs cs' = all_pairs cs"
    and "framed m [InternalNode (seps cs) cs] m' [InternalNode (seps cs') cs']"
    and "h = 0 \<Longrightarrow> node_N n1 < leaf_b B" and "h = 0 \<Longrightarrow> node_N n2 < leaf_b B"
proof -
  have sh: "shape B h (cs ! i)" using cs i by (simp add: all_but_def)
  obtain n1 n2 m' where n: "split_child B h (cs ! i) m = Some (n1, min_key n2, n2, m')" "shape B h n1" "shape B h n2"
      "within_bounds B h n1" "within_bounds B h n2" "pairs n1 @ pairs n2 = pairs (cs ! i)" "framed m [cs ! i] m' [n1, n2]"
      "h = 0 \<Longrightarrow> node_N n1 < leaf_b B" "h = 0 \<Longrightarrow> node_N n2 < leaf_b B"
    by (rule split_child_ok[OF B sh full, where m = m]) blast
  define cs' where "cs' = take i cs @ n1 # n2 # drop (i + 1) cs"
  have "0 < node_N (cs ! i)" using full B by (auto simp: ab_bounds_ok_def split: if_splits)
  then have mk: "min_key n1 = min_key (cs ! i)"
    using min_key_append[of n1 "pairs n2" "cs ! i" "[]"] n(6) within_nonempty[OF B n(2,4)] pairs_nonempty[OF B sh] by simp
  have se: "seps cs' = take i (seps cs) @ min_key n2 # drop i (seps cs)"
    unfolding cs'_def by (rule seps_insert[OF i]) (simp add: mk)
  have run: "split B (InternalNode (seps cs) cs) i h m = Some (InternalNode (seps cs') cs', m')"
    using n(1) i len unfolding se by (simp add: cs'_def)
  have "shape B h c \<and> within_bounds B h c" if x: "c \<in> set cs'" for c
  proof -
    consider "c = n1" | "c = n2" | "c \<in> set (take i cs)" | "c \<in> set (drop (i + 1) cs)" using x by (auto simp: cs'_def)
    then show ?thesis
    proof cases
      case 3
      then obtain k where "k < i" "c = cs ! k" by (auto simp: in_set_conv_nth)
      then show ?thesis using cs i by (simp add: all_but_def)
    next
      case 4
      then obtain k where k: "k < length (drop (i + 1) cs)" "c = drop (i + 1) cs ! k" unfolding in_set_conv_nth by blast
      then have "i + 1 + k < length cs" "c = cs ! (i + 1 + k)" by simp_all
      then show ?thesis using cs by (simp add: all_but_def)
    qed (use n in simp_all)
  qed
  then have sp: "shape B (Suc h) (InternalNode (seps cs') cs')" by (simp add: cs'_def)
  have pp: "all_pairs cs' = all_pairs cs" using split_at_child(2)[OF i] n(6) by (simp add: cs'_def)
  have "framed m (take i cs @ [cs ! i] @ drop (i + 1) cs) m' (take i cs @ [n1, n2] @ drop (i + 1) cs)" by (rule framed_context[OF n(7)])
  then have "framed m cs m' cs'" using split_at_child(1)[OF i] by (simp add: cs'_def)
  note fr = framed_node[OF this]
  show ?thesis by (rule that[OF run cs'_def se sp pp fr n(8,9)])
qed

text \<open>A new separator at the position of the search is the next one to compare with.\<close>

lemma find_child_split:
  "find_child skip (take (find_child skip ks) ks @ p # drop (find_child skip ks) ks) = (if skip p then find_child skip ks + 1 else find_child skip ks)"
proof -
  define w d where wd: "w = takeWhile skip ks" "d = dropWhile skip ks"
  have t: "take (length w) ks = w" "drop (length w) ks = d" unfolding wd by (rule takeWhile_eq_take[symmetric], rule dropWhile_eq_drop[symmetric])
  have all: "\<forall>k\<in>set w. skip k" unfolding wd by (auto dest: set_takeWhileD)
  have d: "takeWhile skip d = []" unfolding wd by (induction ks) auto
  have "takeWhile skip (w @ p # d) = w @ takeWhile skip (p # d)" using all by simp
  then show ?thesis unfolding find_child_def wd(1)[symmetric] t using d by simp
qed

lemma insert_child:
  assumes B: "ab_bounds_ok B" and cs: "shape B (Suc h) (InternalNode (seps cs) cs)" and so: "sorted (map fst (all_pairs cs))"
    and i: "i = find_child (\<lambda>k. k < key) (seps cs)" and c: "shape B h c" "inserted key val (pairs (cs ! i)) (pairs c)" "framed m [cs ! i] m' [c]"
  shows "seps (cs[i := c]) = seps cs" and "all_but B h {i} (cs[i := c])" and "inserted key val (all_pairs cs) (all_pairs (cs[i := c]))"
    and "framed m [InternalNode (seps cs) cs] m' [InternalNode (seps cs) (cs[i := c])]"
proof -
  note ch = shape_children[OF B cs]
  have fc: "i < length cs" "\<forall>e\<in>set (all_pairs (take i cs)). fst e < key" "\<forall>e\<in>set (all_pairs (drop (i + 1) cs)). \<not> fst e < key"
      "0 < i \<Longrightarrow> min_key (cs ! i) < key"
    using find_child_ok[OF ch(1,2) so, of "\<lambda>k. k < key"] unfolding i by auto
  have "0 < i \<Longrightarrow> min_key c = min_key (cs ! i)" using inserted_min_key[OF c(2) fc(4)] ch(2) fc(1) by simp
  then show "seps (cs[i := c]) = seps cs" using seps_update_same[OF fc(1), of c] by (cases "i = 0") auto
  show "all_but B h {i} (cs[i := c])" by (rule all_but_update[OF cs c(1)])
  show "inserted key val (all_pairs cs) (all_pairs (cs[i := c]))"
    unfolding all_pairs_update[OF fc(1)] unfolding split_at_child(2)[OF fc(1)] using inserted_context[OF c(2)] fc(2,3) by fastforce
  show "framed m [InternalNode (seps cs) cs] m' [InternalNode (seps cs) (cs[i := c])]" by (rule framed_child[OF c(3) fc(1)])
qed

lemma insert_node_leaf:
  assumes "sorted (map fst es)" and "length es < leaf_b B"
  shows "insert_node B 0 (Leaf l es) key val m = Some (Leaf l (leaf_insert es key val), m)"
    and "length (leaf_insert es key val) = length es + 1" and "inserted key val es (leaf_insert es key val)"
    and "framed m [Leaf l es] m [Leaf l (leaf_insert es key val)]"
proof -
  show i: "inserted key val es (leaf_insert es key val)" by (rule leaf_insert_inserted[OF assms(1)])
  show "length (leaf_insert es key val) = length es + 1" using inserted_mset[OF i] by (metis Suc_eq_plus1 size_add_mset size_mset)
qed (use assms(2) in \<open>simp_all add: framed_same\<close>)

lemma insert_node_ok:
  assumes B: "ab_bounds_ok B"
  shows "shape B h n \<Longrightarrow> (if h = 0 then node_N n < leaf_b B else node_N n \<le> intnode_b B) \<Longrightarrow> sorted (map fst (pairs n))
    \<Longrightarrow> \<exists>n' m'. insert_node B h n key val m = Some (n', m') \<and> shape B h n' \<and> node_N n \<le> node_N n' \<and> node_N n' \<le> node_N n + 1
          \<and> inserted key val (pairs n) (pairs n') \<and> framed m [n] m' [n']"
proof (induction h arbitrary: n m)
  case 0
  then obtain l es where n: "n = Leaf l es" by (auto elim: shape_leafE)
  have e: "sorted (map fst es)" "length es < leaf_b B" using 0 n by simp_all
  show ?case unfolding n by (rule exI[of _ "Leaf l (leaf_insert es key val)"], rule exI[of _ m]) (simp add: insert_node_leaf[OF e] e)
next
  case (Suc h)
  let ?find = "find_child (\<lambda>k. k < key)"
  from Suc.prems(1) obtain cs where n: "n = InternalNode (seps cs) cs" by (rule shapeE)
  have cs: "shape B (Suc h) (InternalNode (seps cs) cs)" and so: "sorted (map fst (all_pairs cs))" and len: "length cs \<le> intnode_b B"
    using Suc.prems n by simp_all
  note ch = shape_children[OF B cs]
  define i where i: "i = ?find (seps cs)"
  have il: "i < length cs" unfolding i by (rule find_child_ok(1)[OF ch(1,2) so]) simp
  have child: "\<exists>c m'. insert_node B h (ds ! j) key val m0 = Some (c, m') \<and> node_N c \<le> node_N (ds ! j) + 1 \<and> node_N (ds ! j) \<le> node_N c
      \<and> seps (ds[j := c]) = seps ds \<and> all_but B h {j} (ds[j := c]) \<and> inserted key val (all_pairs ds) (all_pairs (ds[j := c]))
      \<and> framed m0 [InternalNode (seps ds) ds] m' [InternalNode (seps ds) (ds[j := c])]"
    if ds: "shape B (Suc h) (InternalNode (seps ds) ds)" "sorted (map fst (all_pairs ds))" "j = ?find (seps ds)" "h = 0 \<longrightarrow> node_N (ds ! j) < leaf_b B"
    for ds j m0
  proof -
    note dh = shape_children[OF B ds(1)]
    have jl: "j < length ds" unfolding ds(3) by (rule find_child_ok(1)[OF dh(1,2) ds(2)]) simp
    have "if h = 0 then node_N (ds ! j) < leaf_b B else node_N (ds ! j) \<le> intnode_b B"
      using ds(4) dh(3)[OF jl] by (auto simp: within_bounds_def get_upperbound_def)
    from Suc.IH[OF _ this sorted_child[OF ds(2) jl], of m0] dh(3)[OF jl]
    obtain c m' where c: "insert_node B h (ds ! j) key val m0 = Some (c, m')" "shape B h c" "node_N (ds ! j) \<le> node_N c" "node_N c \<le> node_N (ds ! j) + 1"
        "inserted key val (pairs (ds ! j)) (pairs c)" "framed m0 [ds ! j] m' [c]" by blast
    show ?thesis using insert_child[OF B ds(1-3) c(2,5,6)] c(1,3,4) by blast
  qed
  show ?case
  proof (cases "h = 0 \<and> node_N (cs ! i) = leaf_b B")
    case True
    then have full: "if h = 0 then node_N (cs ! i) = leaf_b B else node_N (cs ! i) = intnode_b B + 1" by simp
    have "all_but B h {i} cs" using ch(3) by (simp add: all_but_def)
    from split_ok[OF B this il len full, where m = m] obtain n1 n2 ds m1 where d: "split B (InternalNode (seps cs) cs) i h m = Some (InternalNode (seps ds) ds, m1)"
        "ds = take i cs @ n1 # n2 # drop (i + 1) cs" "seps ds = take i (seps cs) @ min_key n2 # drop i (seps cs)"
        "shape B (Suc h) (InternalNode (seps ds) ds)" "all_pairs ds = all_pairs cs"
        "framed m [InternalNode (seps cs) cs] m1 [InternalNode (seps ds) ds]" "node_N n1 < leaf_b B" "node_N n2 < leaf_b B" using True by metis
    define j where j: "j = (if seps ds ! i < key then i + 1 else i)"
    have "seps ds ! i = min_key n2" unfolding d(3) using il by (simp add: nth_append)
    then have jf: "j = ?find (seps ds)" using find_child_split[of "\<lambda>k. k < key" "seps cs" "min_key n2"] unfolding d(3) j i by simp
    have "node_N (ds ! j) < leaf_b B" using d(2,7,8) il by (simp add: j nth_append)
    have "length ds = length cs + 1" using d(2) il by simp
    then have "j < length ds" using il by (simp add: j)
    with child[OF d(4) _ jf, of m1] so d(5) \<open>node_N (ds ! j) < leaf_b B\<close> obtain c m' where c: "insert_node B h (ds ! j) key val m1 = Some (c, m')" "node_N c \<le> node_N (ds ! j) + 1"
        "node_N (ds ! j) \<le> node_N c" "seps (ds[j := c]) = seps ds" "all_but B h {j} (ds[j := c])" "inserted key val (all_pairs ds) (all_pairs (ds[j := c]))"
        "framed m1 [InternalNode (seps ds) ds] m' [InternalNode (seps ds) (ds[j := c])]" by auto
    have "within_bounds B h c"
      using c(2,3) shape_children(3)[OF B d(4) \<open>j < length ds\<close>] \<open>node_N (ds ! j) < leaf_b B\<close> True by (simp add: within_bounds_def get_upperbound_def)
    then have sp: "shape B (Suc h) (InternalNode (seps ds) (ds[j := c]))"
      using all_but_shape[OF c(5)] \<open>j < length ds\<close> c(4) by simp
    have run: "insert_node B (Suc h) n key val m = Some (InternalNode (seps ds) (ds[j := c]), m')"
      using True d(1) c(1) ch(1) unfolding n insert_node.simps Let_def i[symmetric] by (simp add: j[symmetric])
    have fr: "framed m [n] m' [InternalNode (seps ds) (ds[j := c])]" unfolding n by (rule framed_trans[OF d(6) c(7)])
    show ?thesis by (rule exI[of _ "InternalNode (seps ds) (ds[j := c])"], rule exI[of _ m'])
        (use run sp fr c(6) d(5) n \<open>length ds = length cs + 1\<close> in \<open>simp del: shape.simps\<close>)
  next
    case notfull: False
    have "h = 0 \<longrightarrow> node_N (cs ! i) < leaf_b B" using notfull ch(3)[OF il] by (auto simp: within_bounds_def get_upperbound_def)
    from child[OF cs so i this, of m] obtain c m1 where c: "insert_node B h (cs ! i) key val m = Some (c, m1)" "node_N c \<le> node_N (cs ! i) + 1"
        "node_N (cs ! i) \<le> node_N c" "seps (cs[i := c]) = seps cs" "all_but B h {i} (cs[i := c])" "inserted key val (all_pairs cs) (all_pairs (cs[i := c]))"
        "framed m [InternalNode (seps cs) cs] m1 [InternalNode (seps cs) (cs[i := c])]" by blast
    let ?ds = "cs[i := c]"
    have il': "i < length ?ds" "?ds ! i = c" using il by simp_all
    show ?thesis
    proof (cases "h \<noteq> 0 \<and> node_N (cs ! i) = intnode_b B \<and> intnode_b B < node_N c")
      case True
      then have full: "if h = 0 then node_N (?ds ! i) = leaf_b B else node_N (?ds ! i) = intnode_b B + 1" using c(2) il' by simp
      have len': "length ?ds \<le> intnode_b B" using len by simp
      from split_ok[OF B c(5) il'(1) len' full, where m = m1] obtain n1 n2 es m' where
          d: "split B (InternalNode (seps ?ds) ?ds) i h m1 = Some (InternalNode (seps es) es, m')"
          "es = take i ?ds @ n1 # n2 # drop (i + 1) ?ds" "shape B (Suc h) (InternalNode (seps es) es)" "all_pairs es = all_pairs ?ds"
          "framed m1 [InternalNode (seps ?ds) ?ds] m' [InternalNode (seps es) es]" by metis
      have run: "insert_node B (Suc h) n key val m = Some (InternalNode (seps es) es, m')"
        using True d(1) c(1,4) ch(1) unfolding n insert_node.simps Let_def i[symmetric] by (simp del: split.simps)
      have fr: "framed m [n] m' [InternalNode (seps es) es]" unfolding n using framed_trans[OF c(7)] d(5) c(4) by simp
      have "length es = length cs + 1" using d(2) il by simp
      then show ?thesis using run d(3) fr c(6) d(4) n by (intro exI[of _ "InternalNode (seps es) es"] exI[of _ m']) (simp del: shape.simps)
    next
      case fits: False
      have "within_bounds B h c" using c(2,3) ch(3)[OF il] notfull fits
        by (cases "h = 0") (auto simp: within_bounds_def get_upperbound_def)
      then have sp: "shape B (Suc h) (InternalNode (seps cs) ?ds)" using all_but_shape[OF c(5) il'(1)] c(4) il' by simp
      have run: "insert_node B (Suc h) n key val m = Some (InternalNode (seps cs) ?ds, m1)"
        using fits notfull c(1) ch(1) unfolding n insert_node.simps Let_def i[symmetric] by (auto simp del: split.simps)
      show ?thesis using run sp c(6,7) n by (intro exI[of _ "InternalNode (seps cs) ?ds"] exI[of _ m1]) (simp del: shape.simps)
    qed
  qed
qed

section \<open>Removal\<close>

text \<open>A pair with the key is taken out.\<close>

definition pair_removed :: "int \<Rightarrow> int \<Rightarrow> (int \<times> int) list \<Rightarrow> (int \<times> int) list \<Rightarrow> bool" where
  "pair_removed key val es es' \<longleftrightarrow> (\<exists>A D. es = A @ (key, val) # D \<and> es' = A @ D)"

lemma removed_sorted: "pair_removed key val es es' \<Longrightarrow> sorted (map fst es) \<Longrightarrow> sorted (map fst es')"
  by (auto simp: pair_removed_def sorted_append)

lemma removed_mset: "pair_removed key val es es' \<Longrightarrow> mset es = add_mset (key, val) (mset es')"
  by (auto simp: pair_removed_def)

lemma removed_length: "pair_removed key val es es' \<Longrightarrow> length es = length es' + 1"
  by (auto simp: pair_removed_def)

lemma removed_context: "pair_removed key val es es' \<Longrightarrow> pair_removed key val (L @ es @ R) (L @ es' @ R)"
  unfolding pair_removed_def by (metis append.assoc append_Cons)

lemma removed_min_key:
  assumes "pair_removed key val (pairs c) (pairs c')" and "min_key c \<noteq> key"
  shows "min_key c' = min_key c"
proof -
  obtain A D where a: "pairs c = A @ (key, val) # D" "pairs c' = A @ D" using assms(1) by (auto simp: pair_removed_def)
  then have "A \<noteq> []" using assms(2) by (cases A) (auto simp: min_key_def)
  then show ?thesis using a by (simp add: min_key_def)
qed

lemma leaf_remove_ok:
  assumes so: "sorted (map fst es)"
  shows "key \<in> fst ` set es \<Longrightarrow> \<exists>val es'. leaf_remove es key = (val, es') \<and> pair_removed key val es es'"
    and "key \<notin> fst ` set es \<Longrightarrow> leaf_remove es key = (- 1, es)"
proof -
  let ?i = "length (takeWhile (\<lambda>e. fst e < key) es)"
  have at: "\<exists>val es'. leaf_remove es key = (val, es') \<and> pair_removed key val es es'"
    if r: "leaf_remove es key = (snd (es ! i), take i es @ drop (i + 1) es)" "i < length es" "fst (es ! i) = key" for i
    unfolding pair_removed_def r(1) using id_take_nth_drop[OF r(2)] r(3) by (metis Suc_eq_plus1 prod.collapse)
  show "key \<notin> fst ` set es \<Longrightarrow> leaf_remove es key = (- 1, es)"
  proof -
    assume k: "key \<notin> fst ` set es"
    have "fst (es ! j) \<noteq> key" if "j < length es" for j using k that by (metis imageI nth_mem)
    then show ?thesis by (auto simp: leaf_remove_def Let_def)
  qed
  show "key \<in> fst ` set es \<Longrightarrow> \<exists>val es'. leaf_remove es key = (val, es') \<and> pair_removed key val es es'"
  proof -
    assume k: "key \<in> fst ` set es"
    then have ne: "es \<noteq> []" by auto
    then have l: "length es - 1 < length es" by (cases es) auto
    have last: "fst e \<le> fst (es ! (length es - 1))" if e: "e \<in> set es" for e
    proof -
      obtain j where "j < length es" "e = es ! j" using e by (metis in_set_conv_nth)
      then show ?thesis using sorted_nth_mono[OF so, of j "length es - 1"] l by simp
    qed
    show ?thesis
    proof (cases "fst (es ! (length es - 1)) = key")
      case True
      then show ?thesis using at[of "length es - 1"] l ne by (simp add: leaf_remove_def Let_def)
    next
      case False
      then have lt: "key < fst (es ! (length es - 1))" using last k by fastforce
      obtain e where e: "e \<in> set es" "fst e = key" using k by auto
      have il: "?i < length es"
      proof (rule ccontr)
        assume "\<not> ?thesis"
        then have "takeWhile (\<lambda>e. fst e < key) es = es" by (metis length_takeWhile_le linorder_not_less nle_le takeWhile_eq_take take_all_iff)
        then show False using e set_takeWhileD[of e "\<lambda>e. fst e < key" es] by auto
      qed
      have "\<not> fst (es ! ?i) < key" using nth_length_takeWhile[OF il] .
      moreover obtain j where j: "j < length es" "es ! j = e" using e(1) by (auto simp: in_set_conv_nth)
      have "?i \<le> j"
      proof (rule ccontr)
        assume "\<not> ?thesis"
        then have "j < length (takeWhile (\<lambda>e. fst e < key) es)" by simp
        then have "fst (es ! j) < key" by (metis nth_mem set_takeWhileD takeWhile_nth)
        then show False using e(2) j(2) by simp
      qed
      then have "fst (es ! ?i) \<le> fst (es ! j)" using sorted_nth_mono[OF so, of ?i j] j(1) by simp
      ultimately have "fst (es ! ?i) = key" using e(2) j(2) by simp
      then show ?thesis using at[of ?i] il lt False ne by (simp add: leaf_remove_def Let_def)
    qed
  qed
qed

lemma rebalance_lb_same:
  assumes "2 \<le> length cs" and "i < length cs" and "get_lowerbound B h \<le> node_N (cs ! i)"
  shows "rebalance_lb B is_root (InternalNode ks cs) i h m = Some (InternalNode ks cs, m)"
  using assms by (simp add: Let_def)

text \<open>The rebalance of the parent after one of its children lost an element.\<close>

lemma remove_child:
  assumes B: "ab_bounds_ok B" and cs: "shape B (Suc h) (InternalNode (seps cs) cs)" and i: "i < length cs"
    and len: "2 \<le> length cs" "is_root \<or> intnode_a B \<le> length cs"
    and c: "shape B h c" "node_N c \<le> node_N (cs ! i)" "node_N (cs ! i) \<le> node_N c + 1" "pair_removed key val (pairs (cs ! i)) (pairs c)" "framed m [cs ! i] m' [c]"
  obtains n' m'' where "rebalance_lb B is_root (InternalNode (seps (cs[i := c])) (cs[i := c])) i h m' = Some (n', m'')"
    and "shape B (Suc h) n'" and "node_N n' \<le> length cs" and "length cs \<le> node_N n' + 1" and "pairs n' = all_pairs (cs[i := c])"
    and "pair_removed key val (all_pairs cs) (pairs n')" and "framed m [InternalNode (seps cs) cs] m'' [n']"
proof -
  let ?ds = "cs[i := c]"
  note w = shape_children(3)[OF B cs i]
  have ds: "all_but B h {i} ?ds" "i < length ?ds" "2 \<le> length ?ds" "is_root \<or> intnode_a B \<le> length ?ds"
      "get_lowerbound B h \<le> node_N (?ds ! i) + 1" "node_N (?ds ! i) \<le> get_upperbound B h"
    using all_but_update[OF cs c(1)] i len w c(2,3) by (auto simp: within_bounds_def)
  obtain es m'' where e: "rebalance_lb B is_root (InternalNode (seps ?ds) ?ds) i h m' = Some (InternalNode (seps es) es, m'')"
      "shape B (Suc h) (InternalNode (seps es) es)" "length es \<le> length ?ds" "length ?ds \<le> length es + 1" "all_pairs es = all_pairs ?ds"
      "framed m' [InternalNode (seps ?ds) ?ds] m'' [InternalNode (seps es) es]"
    by (rule rebalance_lb_ok[OF B ds, where m = m'])
  have fr: "framed m [InternalNode (seps cs) cs] m'' [InternalNode (seps es) es]" by (rule framed_trans[OF framed_child[OF c(5) i] e(6)])
  have rem: "pair_removed key val (all_pairs cs) (all_pairs ?ds)"
    unfolding all_pairs_update[OF i] unfolding split_at_child(2)[OF i] by (rule removed_context[OF c(4)])
  show ?thesis by (rule that[OF e(1,2) _ _ _ _ fr]) (use e(3-5) rem in simp_all)
qed

text \<open>What the removal of a key does to a node.\<close>

definition removal :: "int \<Rightarrow> bool \<Rightarrow> nat \<Rightarrow> Bounds \<Rightarrow> Node \<Rightarrow> Memory \<Rightarrow> int \<times> int \<times> Node \<times> Memory \<Rightarrow> bool" where
  "removal key want_min h B n m = (\<lambda>(val, omin, n', m'). shape B h n' \<and> node_N n' \<le> node_N n \<and> node_N n \<le> node_N n' + 1
     \<and> (want_min \<longrightarrow> omin = min_key n') \<and> framed m [n] m' [n']
     \<and> (if key \<in> fst ` set (pairs n) then pair_removed key val (pairs n) (pairs n') else val = - 1 \<and> n' = n \<and> m' = m))"

lemma remove_node_leaf:
  assumes so: "sorted (map fst es)" and mn: "want_min \<longrightarrow> key = min_key (Leaf l es) \<and> 2 \<le> length es"
  shows "\<exists>r. remove_node B 0 is_root (Leaf l es) key want_min m = Some r \<and> removal key want_min 0 B (Leaf l es) m r"
proof (cases "key \<in> fst ` set es")
  case True
  then obtain val es' where r: "leaf_remove es key = (val, es')" "pair_removed key val es es'" using leaf_remove_ok(1)[OF so] by blast
  have "want_min \<longrightarrow> es' \<noteq> []" using mn removed_length[OF r(2)] by auto
  then show ?thesis using r True removed_length[OF r(2)] by (auto simp: removal_def min_key_def framed_same)
next
  case False
  then have "\<not> want_min" using mn by (cases es) (auto simp: min_key_def)
  then show ?thesis using leaf_remove_ok(2)[OF so False] False by (simp add: removal_def framed_refl)
qed

lemma remove_node_ok:
  assumes B: "ab_bounds_ok B"
  shows "shape B h n \<Longrightarrow> sorted (map fst (pairs n)) \<Longrightarrow> h \<noteq> 0 \<longrightarrow> 2 \<le> node_N n \<and> (is_root \<or> intnode_a B \<le> node_N n)
    \<Longrightarrow> want_min \<longrightarrow> key = min_key n \<and> 2 \<le> node_N n
    \<Longrightarrow> \<exists>r. remove_node B h is_root n key want_min m = Some r \<and> removal key want_min h B n m r"
proof (induction h arbitrary: n m is_root want_min)
  case 0
  then obtain l es where n: "n = Leaf l es" by (auto elim: shape_leafE)
  show ?case using 0 remove_node_leaf[of es want_min key l] unfolding n by simp
next
  case (Suc h)
  from Suc.prems(1) obtain cs where n: "n = InternalNode (seps cs) cs" by (rule shapeE)
  have cs: "shape B (Suc h) (InternalNode (seps cs) cs)" and so: "sorted (map fst (all_pairs cs))"
      and len: "2 \<le> length cs" "is_root \<or> intnode_a B \<le> length cs" using Suc.prems n by simp_all
  note ch = shape_children[OF B cs]
  define i where i: "i = find_child (\<lambda>k. k < key) (seps cs)"
  have fc: "i < length cs" "\<forall>e\<in>set (all_pairs (take i cs)). fst e < key" "\<forall>e\<in>set (all_pairs (drop (i + 1) cs)). \<not> fst e < key"
      "0 < i \<Longrightarrow> min_key (cs ! i) < key"
    using find_child_ok[OF ch(1,2) so, of "\<lambda>k. k < key"] unfolding i by auto
  have child: "\<exists>r. remove_node B h False (cs ! j) key w m = Some r \<and> removal key w h B (cs ! j) m r"
    if j: "j < length cs" "w \<longrightarrow> key = min_key (cs ! j)" for j w
  proof -
    have "2 \<le> node_N (cs ! j)" "h \<noteq> 0 \<longrightarrow> intnode_a B \<le> node_N (cs ! j)"
      using ch(3)[OF j(1)] ab_bounds_okD(1)[OF B, of h] by (auto simp: within_bounds_def get_lowerbound_def split: if_splits)
    then show ?thesis using Suc.IH[OF _ sorted_child[OF so j(1)], of False w m] ch(3)[OF j(1)] j(2) by blast
  qed
  have inhd: "min_key (cs ! j) \<in> fst ` set (pairs (cs ! j))" if "j < length cs" for j using ch(2) that by (simp add: min_key_def)
  show ?case
  proof (cases "\<not> want_min \<and> i < length (seps cs) \<and> seps cs ! i = key")
    case True
    then have j: "i + 1 < length cs" by auto
    then have key: "key = min_key (cs ! (i + 1))" using True nth_seps[of i cs] by simp
    from child[OF j, of True] key obtain val c m1 where c: "remove_node B h False (cs ! (i + 1)) key True m = Some (val, min_key c, c, m1)"
        "shape B h c" "node_N c \<le> node_N (cs ! (i + 1))" "node_N (cs ! (i + 1)) \<le> node_N c + 1"
        "pair_removed key val (pairs (cs ! (i + 1))) (pairs c)" "framed m [cs ! (i + 1)] m1 [c]"
      using inhd[OF j] by (auto simp: removal_def)
    obtain n' m' where r: "rebalance_lb B is_root (InternalNode (seps (cs[i + 1 := c])) (cs[i + 1 := c])) (i + 1) h m1 = Some (n', m')"
        "shape B (Suc h) n'" "node_N n' \<le> length cs" "length cs \<le> node_N n' + 1"
        "pair_removed key val (all_pairs cs) (pairs n')" "framed m [InternalNode (seps cs) cs] m' [n']"
      by (rule remove_child[OF B cs j len c(2-6)])
    have "seps (cs[i + 1 := c]) = (seps cs)[i := min_key c]" using seps_update[OF j, of c] by simp
    then have run: "remove_node B (Suc h) is_root n key want_min m = Some (val, - 1, n', m')"
      using True c(1) r(1) ch(1) unfolding n remove_node.simps Let_def i[symmetric] by (simp del: rebalance_lb.simps)
    have "key \<in> fst ` set (pairs n)" using inhd[OF j] key split_at_child(2)[OF j] n by auto
    then show ?thesis using run r True n by (simp add: removal_def)
  next
    case below: False
    have i0: "i = 0" "key = min_key (cs ! i)" if w: want_min
    proof -
      have hd: "min_key n = min_key (cs ! 0)" using min_key_internal[OF B cs] ch(1) n by (simp add: hd_conv_nth)
      have k: "key = min_key n" using Suc.prems(4) w by simp
      show "i = 0"
      proof (rule ccontr)
        assume "i \<noteq> 0"
        moreover have "pairs (cs ! 0) \<noteq> []" using ch(1,2) by (cases cs) auto
        moreover have "take i cs = cs ! 0 # tl (take i cs)" using ch(1) \<open>i \<noteq> 0\<close> by (cases cs; cases i) auto
        ultimately have "pairs (cs ! 0) \<noteq> []" "cs ! 0 \<in> set (take i cs)" by (auto intro: list.set_intros(1) elim: ssubst)
        then have "hd (pairs (cs ! 0)) \<in> set (all_pairs (take i cs))" by (auto simp: all_pairs_def intro!: bexI[of _ "cs ! 0"])
        then show False using fc(2) k hd by (auto simp: min_key_def)
      qed
      then show "key = min_key (cs ! i)" using k hd by simp
    qed
    have only: "key \<in> fst ` set (all_pairs cs) \<longleftrightarrow> key \<in> fst ` set (pairs (cs ! i))"
    proof
      assume k: "key \<in> fst ` set (all_pairs cs)"
      show "key \<in> fst ` set (pairs (cs ! i))"
      proof (cases want_min)
        case True
        then show ?thesis using i0(2) inhd[OF fc(1)] by simp
      next
        case False
        have "key \<notin> fst ` set (all_pairs (drop (i + 1) cs))"
        proof (cases "i + 1 < length cs")
          case True
          then have d: "drop (i + 1) cs = cs ! (i + 1) # drop (i + 2) cs" using Cons_nth_drop_Suc[OF True] by simp
          have "all_pairs cs = (all_pairs (take i cs) @ pairs (cs ! i)) @ all_pairs (drop (i + 1) cs)" using split_at_child(2)[OF fc(1)] by simp
          then have s: "sorted (map fst (all_pairs (drop (i + 1) cs)))" using so sorted_appendD(2) by metis
          obtain p ps where p: "pairs (cs ! (i + 1)) = p # ps" using ch(2) True by (metis list.exhaust nth_mem)
          have np: "fst p \<noteq> key" using below False True nth_seps[of i cs] p by (simp add: min_key_def)
          define R where "R = ps @ all_pairs (drop (i + 2) cs)"
          have e: "all_pairs (drop (i + 1) cs) = p # R" using d p by (simp add: R_def)
          have "key < fst p" using fc(3) np unfolding e by auto
          moreover have "\<forall>x\<in>set R. fst p \<le> fst x" using s unfolding e by simp
          ultimately show ?thesis unfolding e by force
        qed simp
        moreover have "key \<notin> fst ` set (all_pairs (take i cs))" using fc(2) by auto
        ultimately show ?thesis using k split_at_child(2)[OF fc(1)] by auto
      qed
    qed (use split_at_child(2)[OF fc(1)] in auto)
    from child[OF fc(1), of want_min] i0 obtain val omin c m1 where c: "remove_node B h False (cs ! i) key want_min m = Some (val, omin, c, m1)"
        "removal key want_min h B (cs ! i) m (val, omin, c, m1)" by auto
    have run: "remove_node B (Suc h) is_root n key want_min m = (if node_N (cs ! i) \<le> get_lowerbound B h
        then rebalance_lb B is_root (InternalNode (seps cs) (cs[i := c])) i h m1 \<bind> (\<lambda>(n, m). Some (val, omin, n, m))
        else Some (val, omin, InternalNode (seps cs) (cs[i := c]), m1))"
      using below c(1) ch(1) unfolding n remove_node.simps Let_def i[symmetric] by (auto simp del: rebalance_lb.simps)
    show ?thesis
    proof (cases "key \<in> fst ` set (pairs (cs ! i))")
      case False
      then have same: "c = cs ! i" "m1 = m" "val = - 1" "\<not> want_min" using c(2) i0(2) inhd[OF fc(1)] by (auto simp: removal_def)
      have "rebalance_lb B is_root (InternalNode (seps cs) cs) i h m = Some (InternalNode (seps cs) cs, m)"
        by (rule rebalance_lb_same[OF len(1) fc(1)]) (use ch(3)[OF fc(1)] in \<open>simp add: within_bounds_def\<close>)
      then have "remove_node B (Suc h) is_root n key want_min m = Some (- 1, omin, n, m)" using run same n by (simp del: rebalance_lb.simps)
      then show ?thesis using Suc.prems(1) same only False n by (simp add: removal_def framed_refl)
    next
      case True
      then have d: "shape B h c" "node_N c \<le> node_N (cs ! i)" "node_N (cs ! i) \<le> node_N c + 1"
          "pair_removed key val (pairs (cs ! i)) (pairs c)" "framed m [cs ! i] m1 [c]" and om: "want_min \<longrightarrow> omin = min_key c"
        using c(2) by (auto simp: removal_def)
      obtain n' m' where r: "rebalance_lb B is_root (InternalNode (seps (cs[i := c])) (cs[i := c])) i h m1 = Some (n', m')"
          "shape B (Suc h) n'" "node_N n' \<le> length cs" "length cs \<le> node_N n' + 1" "pairs n' = all_pairs (cs[i := c])"
          "pair_removed key val (all_pairs cs) (pairs n')" "framed m [InternalNode (seps cs) cs] m' [n']"
        by (rule remove_child[OF B cs fc(1) len d])
      have "0 < i \<Longrightarrow> min_key c = min_key (cs ! i)" using removed_min_key[OF d(4)] fc(4) by simp
      then have se: "seps (cs[i := c]) = seps cs" using seps_update_same[OF fc(1), of c] by (cases "i = 0") auto
      have run': "remove_node B (Suc h) is_root n key want_min m = Some (val, omin, n', m')"
      proof (cases "node_N (cs ! i) \<le> get_lowerbound B h")
        case False
        have "rebalance_lb B is_root (InternalNode (seps cs) (cs[i := c])) i h m1 = Some (InternalNode (seps cs) (cs[i := c]), m1)"
          by (rule rebalance_lb_same) (use len(1) fc(1) False d(3) in simp_all)
        then show ?thesis using run r(1) se False by (simp del: rebalance_lb.simps)
      qed (use run r(1) se in \<open>simp del: rebalance_lb.simps\<close>)
      have "want_min \<longrightarrow> omin = min_key n'"
      proof
        assume w: want_min
        have "0 < node_N c" using d(3) ch(3)[OF fc(1)] ab_bounds_okD(1)[OF B, of h] by (auto simp: within_bounds_def)
        then have "pairs c \<noteq> []" by (rule pairs_nonempty[OF B d(1)])
        then have "min_key n' = min_key c" using i0(1)[OF w] fc(1) unfolding min_key_def r(5) by (simp add: all_pairs_update)
        then show "omin = min_key n'" using om w by simp
      qed
      then show ?thesis using run' r(2-4,6,7) True only n by (simp add: removal_def)
    qed
  qed
qed

end
