(* ===== verification/ABTree_Tree_Proofs.thy ===== *)
theory ABTree_Tree_Proofs
  imports ABTree_Change_Proofs
begin

text \<open>
  The whole (a,b)-tree: its invariant, kept by the constructor, the insertion and the removal, where the root is split
  or replaced by its only child.
\<close>

definition abtree_pairs :: "ABTree \<Rightarrow> (int \<times> int) list" where
  "abtree_pairs t = pairs (root t)"

text \<open>The bounds of the root: it may have fewer elements than the other nodes.\<close>

definition root_ok :: "Bounds \<Rightarrow> nat \<Rightarrow> Node \<Rightarrow> bool" where
  "root_ok B h r \<longleftrightarrow> shape B h r \<and> node_N r \<le> get_upperbound B h \<and> (h = 0 \<or> 2 \<le> node_N r)"

definition abtree_ok :: "ABTree \<Rightarrow> bool" where
  "abtree_ok t \<longleftrightarrow> ab_bounds_ok (bounds t) \<and> 1 \<le> height t \<and> root_ok (bounds t) (height t - 1) (root t) \<and> sorted (map fst (abtree_pairs t))
     \<and> cardinality t = length (abtree_pairs t) \<and> mem_ok (memory t) (leaf_ids (root t)) (inner_nodes (root t))"

lemma framed_root: "framed m [r] m' [r'] \<Longrightarrow> mem_ok m (leaf_ids r) (inner_nodes r) \<Longrightarrow> mem_ok m' (leaf_ids r') (inner_nodes r')"
  unfolding framed_def by (drule spec[of _ "[]"], drule spec[of _ "[]"], drule spec[of _ 0]) simp

lemma framed_wrap:
  "framed m [c] (create_internal_node m) [InternalNode ks [c]]" "framed m [InternalNode ks [c]] (delete_internal_node m) [c]"
proof -
  have c: "linked (create_internal_node m) p ls n = linked m p ls n" "linked (delete_internal_node m) p ls n = linked m p ls n" for p ls n
    by (rule linked_cong, simp add: create_internal_node_def delete_internal_node_def)+
  show "framed m [c] (create_internal_node m) [InternalNode ks [c]]"
    using c(1) by (auto simp: framed_def mem_ok_def) (auto simp: create_internal_node_def)
  show "framed m [InternalNode ks [c]] (delete_internal_node m) [c]"
    using c(2) by (auto simp: framed_def mem_ok_def) (auto simp: delete_internal_node_def)
qed

lemma seps_single [simp]: "seps [c] = []"
  by (simp add: seps_def)

text \<open>A root that is full, or has one child too many, gets a parent and a sibling.\<close>

lemma split_root_ok:
  assumes B: "ab_bounds_ok B" and r: "shape B h r" and full: "if h = 0 then node_N r = leaf_b B else node_N r = intnode_b B + 1"
  obtains r' m' where "split B (InternalNode [] [r]) 0 h (create_internal_node m) = Some (r', m')" and "shape B (Suc h) r'" and "node_N r' = 2"
    and "pairs r' = pairs r" and "framed m [r] m' [r']"
proof -
  have a: "all_but B h {0} [r]" "(0::nat) < length [r]" "length [r] \<le> intnode_b B"
      "if h = 0 then node_N ([r] ! 0) = leaf_b B else node_N ([r] ! 0) = intnode_b B + 1"
    using r B full by (simp_all add: all_but_def ab_bounds_ok_def)
  obtain n1 n2 cs m' where s: "split B (InternalNode (seps [r]) [r]) 0 h (create_internal_node m) = Some (InternalNode (seps cs) cs, m')"
      "cs = take 0 [r] @ n1 # n2 # drop (0 + 1) [r]" "shape B (Suc h) (InternalNode (seps cs) cs)" "all_pairs cs = all_pairs [r]"
      "framed (create_internal_node m) [InternalNode (seps [r]) [r]] m' [InternalNode (seps cs) cs]"
    by (rule split_ok[OF B a, where m = "create_internal_node m"]) blast
  have fr: "framed m [r] m' [InternalNode (seps cs) cs]" by (rule framed_trans[OF framed_wrap(1) s(5)[unfolded seps_single]])
  show ?thesis by (rule that[OF s(1)[unfolded seps_single] s(3) _ _ fr]) (use s(2,4) in simp_all)
qed

lemma abtree_okI:
  assumes "ab_bounds_ok B" and "root_ok B h r" and "sorted (map fst (pairs r))" and "mem_ok m (leaf_ids r) (inner_nodes r)" and "c = int (length (pairs r))"
  shows "abtree_ok \<lparr>bounds = B, root = r, cardinality = c, height = Suc h, memory = m\<rparr>"
  using assms by (simp add: abtree_ok_def abtree_pairs_def)

lemma abtree_insert_ok:
  assumes ok: "abtree_ok t"
  obtains t' where "abtree_insert t key val = Some t'" and "abtree_ok t'" and "bounds t' = bounds t" and "inserted key val (abtree_pairs t) (abtree_pairs t')"
proof -
  obtain B r c h m where t: "t = \<lparr>bounds = B, root = r, cardinality = c, height = Suc h, memory = m\<rparr>"
    using ok by (cases t; cases "height t") (auto simp: abtree_ok_def)
  have B: "ab_bounds_ok B" and r: "root_ok B h r" and so: "sorted (map fst (pairs r))" and c: "c = int (length (pairs r))"
      and m: "mem_ok m (leaf_ids r) (inner_nodes r)" using ok by (simp_all add: abtree_ok_def t abtree_pairs_def)
  have b: "2 \<le> intnode_b B" using B by (simp add: ab_bounds_ok_def)
  obtain h1 r1 m1 where s: "(if height t = 1 \<and> node_N (root t) = leaf_b (bounds t) then split_root t else Some t)
      = Some \<lparr>bounds = B, root = r1, cardinality = c, height = Suc h1, memory = m1\<rparr>"
      "shape B h1 r1" "if h1 = 0 then node_N r1 < leaf_b B else node_N r1 \<le> intnode_b B" "h1 = 0 \<or> 2 \<le> node_N r1" "pairs r1 = pairs r" "framed m [r] m1 [r1]"
  proof (cases "h = 0 \<and> node_N r = leaf_b B")
    case True
    then have full: "if h = 0 then node_N r = leaf_b B else node_N r = intnode_b B + 1" and sh: "shape B h r" using r by (simp_all add: root_ok_def)
    obtain r' m' where "split B (InternalNode [] [r]) 0 h (create_internal_node m) = Some (r', m')" "shape B (Suc h) r'" "node_N r' = 2"
        "pairs r' = pairs r" "framed m [r] m' [r']"
      by (rule split_root_ok[OF B sh full, where m = m])
    then show ?thesis using that[of r' "Suc h" m'] True b by (simp add: t split_root_def)
  next
    case False
    then have "if h = 0 then node_N r < leaf_b B else node_N r \<le> intnode_b B" using r by (cases "h = 0") (auto simp: root_ok_def get_upperbound_def)
    then show ?thesis using that[of r h m] r False by (auto simp: t root_ok_def framed_refl)
  qed
  have so1: "sorted (map fst (pairs r1))" using so s(5) by simp
  from insert_node_ok[OF B s(2,3) so1, of key val m1] obtain r2 m2 where i: "insert_node B h1 r1 key val m1 = Some (r2, m2)" "shape B h1 r2"
      "node_N r1 \<le> node_N r2" "node_N r2 \<le> node_N r1 + 1" "inserted key val (pairs r1) (pairs r2)" "framed m1 [r1] m2 [r2]" by blast
  have fr: "framed m [r] m2 [r2]" by (rule framed_trans[OF s(6) i(6)])
  have ins: "inserted key val (pairs r) (pairs r2)" using i(5) s(5) by simp
  have len: "length (pairs r2) = length (pairs r) + 1" using inserted_mset[OF ins] by (metis Suc_eq_plus1 size_add_mset size_mset)
  have run: "abtree_insert t key val = (if 1 < Suc h1 \<and> intnode_b B < node_N r2
      then split_root \<lparr>bounds = B, root = r2, cardinality = c + 1, height = Suc h1, memory = m2\<rparr>
      else Some \<lparr>bounds = B, root = r2, cardinality = c + 1, height = Suc h1, memory = m2\<rparr>)"
    unfolding abtree_insert_def s(1) by (simp add: i(1))
  have rest: "sorted (map fst (pairs r2))" "c + 1 = int (length (pairs r2))" using inserted_sorted[OF ins so] len c by simp_all
  show ?thesis
  proof (cases "h1 \<noteq> 0 \<and> intnode_b B < node_N r2")
    case True
    then have full: "if h1 = 0 then node_N r2 = leaf_b B else node_N r2 = intnode_b B + 1" using i(4) s(3) by simp
    obtain r' m' where r': "split B (InternalNode [] [r2]) 0 h1 (create_internal_node m2) = Some (r', m')" "shape B (Suc h1) r'" "node_N r' = 2"
        "pairs r' = pairs r2" "framed m2 [r2] m' [r']"
      by (rule split_root_ok[OF B i(2) full, where m = m2])
    have "abtree_ok \<lparr>bounds = B, root = r', cardinality = c + 1, height = Suc (Suc h1), memory = m'\<rparr>"
      by (rule abtree_okI[OF B _ _ framed_root[OF framed_trans[OF fr r'(5)] m]]) (use r' rest b in \<open>simp_all add: root_ok_def get_upperbound_def\<close>)
    moreover have "abtree_insert t key val = Some \<lparr>bounds = B, root = r', cardinality = c + 1, height = Suc (Suc h1), memory = m'\<rparr>"
      unfolding run using True r'(1) by (simp add: split_root_def)
    ultimately show ?thesis using that ins r'(4) by (simp add: t abtree_pairs_def)
  next
    case False
    have "root_ok B h1 r2" using i(2-4) s(3,4) False by (auto simp: root_ok_def get_upperbound_def)
    from abtree_okI[OF B this rest(1) framed_root[OF fr m] rest(2)]
    have "abtree_ok \<lparr>bounds = B, root = r2, cardinality = c + 1, height = Suc h1, memory = m2\<rparr>" .
    moreover have "abtree_insert t key val = Some \<lparr>bounds = B, root = r2, cardinality = c + 1, height = Suc h1, memory = m2\<rparr>"
      unfolding run using False by auto
    ultimately show ?thesis using that ins by (simp add: t abtree_pairs_def)
  qed
qed

lemma abtree_remove_ok:
  assumes ok: "abtree_ok t" and nonneg: "\<forall>e\<in>set (abtree_pairs t). 0 \<le> snd e"
  obtains val t' where "abtree_remove t key = Some (val, t')" and "abtree_ok t'" and "bounds t' = bounds t"
    and "if key \<in> fst ` set (abtree_pairs t) then pair_removed key val (abtree_pairs t) (abtree_pairs t') else val = - 1 \<and> t' = t"
proof -
  obtain B r c h m where t: "t = \<lparr>bounds = B, root = r, cardinality = c, height = Suc h, memory = m\<rparr>"
    using ok by (cases t; cases "height t") (auto simp: abtree_ok_def)
  have B: "ab_bounds_ok B" and r: "root_ok B h r" and so: "sorted (map fst (pairs r))" and c: "c = int (length (pairs r))"
      and m: "mem_ok m (leaf_ids r) (inner_nodes r)" using ok by (simp_all add: abtree_ok_def t abtree_pairs_def)
  have "\<exists>x. remove_node B h True r key False m = Some x \<and> removal key False h B r m x"
    by (rule remove_node_ok[OF B _ so]) (use r in \<open>auto simp: root_ok_def\<close>)
  then obtain val omin r1 m1 where x: "remove_node B h True r key False m = Some (val, omin, r1, m1)" "removal key False h B r m (val, omin, r1, m1)"
    by (metis prod_cases4)
  show ?thesis
  proof (cases "key \<in> fst ` set (pairs r)")
    case False
    then have "val = - 1" "r1 = r" "m1 = m" using x(2) by (simp_all add: removal_def)
    then show ?thesis using that[of "- 1" t] x(1) ok False by (simp add: abtree_remove_def t abtree_pairs_def)
  next
    case True
    then have y: "shape B h r1" "node_N r1 \<le> node_N r" "node_N r \<le> node_N r1 + 1" "pair_removed key val (pairs r) (pairs r1)" "framed m [r] m1 [r1]"
      using x(2) by (simp_all add: removal_def)
    have v: "0 \<le> val" using y(4) nonneg unfolding pair_removed_def abtree_pairs_def t by auto
    have rest: "sorted (map fst (pairs r1))" "c - 1 = int (length (pairs r1))"
      using removed_sorted[OF y(4) so] removed_length[OF y(4)] c by simp_all
    show ?thesis
    proof (cases "node_N r1 = 1 \<and> h \<noteq> 0")
      case one: True
      then obtain h' where h: "h = Suc h'" by (cases h) auto
      obtain cs where cs: "r1 = InternalNode (seps cs) cs" using y(1) unfolding h by (rule shapeE)
      with one obtain d where d: "cs = [d]" by (cases cs) auto
      have sd: "shape B h' d" "within_bounds B h' d" using y(1) cs d h by simp_all
      have "root_ok B h' d" using sd ab_bounds_okD(1)[OF B, of h'] by (auto simp: root_ok_def within_bounds_def)
      moreover have "pairs r1 = pairs d" using cs d by simp
      moreover have "framed m [r] (delete_internal_node m1) [d]" using framed_trans[OF y(5)] framed_wrap(2) cs d by blast
      ultimately have "abtree_ok \<lparr>bounds = B, root = d, cardinality = c - 1, height = Suc h', memory = delete_internal_node m1\<rparr>"
        using abtree_okI[OF B _ _ framed_root[OF _ m]] rest by simp
      moreover have "abtree_remove t key = Some (val, \<lparr>bounds = B, root = d, cardinality = c - 1, height = Suc h', memory = delete_internal_node m1\<rparr>)"
        using x(1) v one h cs d by (simp add: abtree_remove_def t)
      ultimately show ?thesis using that True y(4) \<open>pairs r1 = pairs d\<close> by (simp add: t abtree_pairs_def)
    next
      case False
      have "root_ok B h r1" using y(1-3) r False by (auto simp: root_ok_def)
      from abtree_okI[OF B this rest(1) framed_root[OF y(5) m] rest(2)]
      have "abtree_ok \<lparr>bounds = B, root = r1, cardinality = c - 1, height = Suc h, memory = m1\<rparr>" .
      moreover have "abtree_remove t key = Some (val, \<lparr>bounds = B, root = r1, cardinality = c - 1, height = Suc h, memory = m1\<rparr>)"
        using x(1) v False by (auto simp: abtree_remove_def t)
      ultimately show ?thesis using that True y(4) by (simp add: t abtree_pairs_def)
    qed
  qed
qed

lemma new_abtree_ok:
  assumes "1 < iA" and "2 * iA \<le> iB" and "1 < lA" and "2 * lA \<le> lB"
  obtains t where "new_abtree iA iB lA lB = Some t" and "abtree_ok t" and "abtree_pairs t = []"
proof -
  obtain l m where c: "create_leaf \<lparr>m_next = (\<lambda>_. None), m_previous = (\<lambda>_. None), m_fresh = 0, num_nodes_allocated = 0, num_leaves_allocated = 0\<rparr> = (l, m)"
    by force
  have m: "l = 0" "mem_ok m [l] 0" using c by (auto simp: create_leaf_def Let_def mem_ok_def)
  have v: "2 * iA - 1 \<le> iB" "2 * lA - 1 \<le> lB" using assms(2,4) by linarith+
  show ?thesis using that[of "\<lparr>bounds = \<lparr>intnode_a = iA, intnode_b = iB, leaf_a = lA, leaf_b = lB\<rparr>, root = Leaf l [], cardinality = 0, height = 1, memory = m\<rparr>"]
      assms c m v by (simp add: new_abtree_def validate_bounds_def abtree_ok_def root_ok_def ab_bounds_ok_def abtree_pairs_def)
qed

end
