(* ===== verification/ABTree_Scan_Proofs.thy ===== *)
theory ABTree_Scan_Proofs
  imports ABTree_Tree_Proofs
begin

text \<open>
  The reads of the (a,b)-tree: the descent to a leaf, the leaves in the order of their links, the iterator and the sum.
\<close>

section \<open>The leaves\<close>

definition concat_leaves :: "(nat \<times> (int \<times> int) list) list \<Rightarrow> (int \<times> int) list" where
  "concat_leaves ls = concat (map snd ls)"

lemma concat_leaves_simps [simp]:
  "concat_leaves [] = []" "concat_leaves (p # ls) = snd p @ concat_leaves ls" "concat_leaves (xs @ ys) = concat_leaves xs @ concat_leaves ys"
  by (simp_all add: concat_leaves_def)

definition all_leaves :: "Node list \<Rightarrow> (nat \<times> (int \<times> int) list) list" where
  "all_leaves cs = concat (map leaves cs)"

lemma all_leaves_simps [simp]:
  "all_leaves [] = []" "all_leaves (c # cs) = leaves c @ all_leaves cs" "all_leaves (xs @ ys) = all_leaves xs @ all_leaves ys"
  by (simp_all add: all_leaves_def)

lemma leaves_internal [simp]: "leaves (InternalNode ks cs) = all_leaves cs"
  by (simp add: all_leaves_def)

declare leaves.simps(2) [simp del]

lemma pairs_leaves: "pairs n = concat_leaves (leaves n)"
proof (induction n)
  case (InternalNode ks cs)
  then have "all_pairs cs = concat_leaves (all_leaves cs)" by (induction cs) auto
  then show ?case by simp
qed simp

lemma all_pairs_leaves: "all_pairs cs = concat_leaves (all_leaves cs)"
  by (induction cs) (simp_all add: pairs_leaves)

lemma ids_leaves: "leaf_ids n = map fst (leaves n)"
proof (induction n)
  case (InternalNode ks cs)
  then have "all_ids cs = map fst (all_leaves cs)" by (induction cs) auto
  then show ?case by simp
qed simp

lemma leaves_nonempty:
  assumes "ab_bounds_ok B"
  shows "shape B h n \<Longrightarrow> within_bounds B h n \<Longrightarrow> (l, es) \<in> set (leaves n) \<Longrightarrow> es \<noteq> []"
proof (induction h arbitrary: n)
  case 0
  then show ?case using ab_bounds_okD(1)[OF assms, of 0] by (elim shape_leafE) (auto simp: within_bounds_def)
next
  case (Suc h)
  from Suc.prems(1) obtain cs where "n = InternalNode (seps cs) cs" "\<forall>c\<in>set cs. shape B h c \<and> within_bounds B h c" by (rule shapeE)
  then show ?case using Suc.IH Suc.prems(3) by (auto simp: all_leaves_def)
qed

text \<open>A leaf of the tree, with those before and after it.\<close>

definition leaf_in :: "ABTree \<Rightarrow> (nat \<times> (int \<times> int) list) list \<Rightarrow> nat \<Rightarrow> (int \<times> int) list \<Rightarrow> (nat \<times> (int \<times> int) list) list \<Rightarrow> bool" where
  "leaf_in t LA l es LD \<longleftrightarrow> leaves (root t) = LA @ (l, es) # LD"

lemma leaf_inD:
  assumes ok: "abtree_ok t" and at: "leaf_in t LA l es LD"
  shows "leaf_at t l = Some es" and "m_next (memory t) l = (case LD of [] \<Rightarrow> None | (l2, es2) # ls \<Rightarrow> Some l2)"
    and "abtree_pairs t = concat_leaves LA @ es @ concat_leaves LD"
proof -
  have ids: "leaf_ids (root t) = map fst LA @ l # map fst LD" using at by (simp add: leaf_in_def ids_leaves)
  have m: "mem_ok (memory t) (leaf_ids (root t)) (inner_nodes (root t))" using ok by (simp add: abtree_ok_def)
  have "l \<notin> fst ` set LA" using m unfolding mem_ok_def ids by auto
  then have "map_of LA l = None" by (simp add: map_of_eq_None_iff)
  then show "leaf_at t l = Some es" using at by (simp add: leaf_at_def leaf_in_def map_add_def)
  show "m_next (memory t) l = (case LD of [] \<Rightarrow> None | (l2, es2) # ls \<Rightarrow> Some l2)"
    using m unfolding mem_ok_def ids linked_append by (cases LD) auto
  show "abtree_pairs t = concat_leaves LA @ es @ concat_leaves LD" using at by (simp add: leaf_in_def abtree_pairs_def pairs_leaves)
qed

lemma leaf_in_next: "leaf_in t LA l es ((l2, es2) # LD) \<Longrightarrow> leaf_in t (LA @ [(l, es)]) l2 es2 LD"
  by (simp add: leaf_in_def)

lemma leaf_in_nonempty:
  assumes ok: "abtree_ok t" and at: "leaf_in t LA l es LD" and "es = []"
  shows "LA = []" and "LD = []"
proof -
  have B: "ab_bounds_ok (bounds t)" and r: "shape (bounds t) (height t - 1) (root t)" using ok by (simp_all add: abtree_ok_def root_ok_def)
  have "height t - 1 = 0"
  proof (rule ccontr)
    assume "height t - 1 \<noteq> 0"
    then obtain h where h: "height t - 1 = Suc h" by (cases "height t - 1") auto
    obtain cs where cs: "root t = InternalNode (seps cs) cs" "\<forall>c\<in>set cs. shape (bounds t) h c \<and> within_bounds (bounds t) h c"
      using r unfolding h by (rule shapeE)
    have "(l, es) \<in> set (all_leaves cs)" using at cs(1) by (simp add: leaf_in_def)
    then obtain c where "c \<in> set cs" "(l, es) \<in> set (leaves c)" by (auto simp: all_leaves_def)
    then show False using leaves_nonempty[OF B] cs(2) assms(3) by blast
  qed
  then obtain l' es' where "root t = Leaf l' es'" using r by (auto elim: shape_leafE)
  then show "LA = []" "LD = []" using at by (auto simp: leaf_in_def Cons_eq_append_conv)
qed

section \<open>The descent\<close>

lemma descend_ok:
  assumes B: "ab_bounds_ok B" and least: "least \<le> 2" and down: "\<forall>x y. skip y \<longrightarrow> x \<le> y \<longrightarrow> skip x"
  shows "shape B h n \<Longrightarrow> sorted (map fst (pairs n)) \<Longrightarrow> h = 0 \<or> 2 \<le> node_N n
    \<Longrightarrow> \<exists>LA l es LD. find_leaf least skip h n = Some (l, es) \<and> leaves n = LA @ (l, es) # LD
        \<and> (\<forall>e\<in>set (concat_leaves LA). skip (fst e)) \<and> (\<forall>e\<in>set (concat_leaves LD). \<not> skip (fst e)) \<and> (LA \<noteq> [] \<longrightarrow> es \<noteq> [] \<and> skip (fst (hd es)))"
proof (induction h arbitrary: n)
  case 0
  then obtain l es where "n = Leaf l es" by (auto elim: shape_leafE)
  then show ?case by (intro exI[of _ "[]"] exI[of _ l] exI[of _ es]) simp
next
  case (Suc h)
  from Suc.prems(1) obtain cs where n: "n = InternalNode (seps cs) cs" by (rule shapeE)
  have cs: "shape B (Suc h) (InternalNode (seps cs) cs)" and so: "sorted (map fst (all_pairs cs))" using Suc.prems n by simp_all
  note ch = shape_children[OF B cs]
  define i where i: "i = find_child skip (seps cs)"
  have dn: "\<And>x y. skip y \<Longrightarrow> x \<le> y \<Longrightarrow> skip x" using down by blast
  have fc: "i < length cs" "\<forall>e\<in>set (all_pairs (take i cs)). skip (fst e)" "\<forall>e\<in>set (all_pairs (drop (i + 1) cs)). \<not> skip (fst e)"
      "0 < i \<Longrightarrow> skip (min_key (cs ! i))"
    using find_child_ok[OF ch(1,2) so, of skip] dn unfolding i by blast+
  have w: "h = 0 \<or> 2 \<le> node_N (cs ! i)" using ch(3)[OF fc(1)] ab_bounds_okD(1)[OF B, of h] by (auto simp: within_bounds_def)
  from Suc.IH[OF _ sorted_child[OF so fc(1)] w] ch(3)[OF fc(1)] obtain LA l es LD where r: "find_leaf least skip h (cs ! i) = Some (l, es)"
      "leaves (cs ! i) = LA @ (l, es) # LD" "\<forall>e\<in>set (concat_leaves LA). skip (fst e)" "\<forall>e\<in>set (concat_leaves LD). \<not> skip (fst e)"
      "LA \<noteq> [] \<longrightarrow> es \<noteq> [] \<and> skip (fst (hd es))" by blast
  let ?LA = "all_leaves (take i cs) @ LA" and ?LD = "LD @ all_leaves (drop (i + 1) cs)"
  have l: "leaves n = ?LA @ (l, es) # ?LD" using arg_cong[OF split_at_child(1)[OF fc(1)], of all_leaves] r(2) n by simp
  have run: "find_leaf least skip (Suc h) n = Some (l, es)" using r(1) Suc.prems(3) least n by (simp add: i)
  have a: "\<forall>e\<in>set (concat_leaves ?LA). skip (fst e)" using r(3) fc(2) by (auto simp: all_pairs_leaves)
  have d: "\<forall>e\<in>set (concat_leaves ?LD). \<not> skip (fst e)" using r(4) fc(3) by (auto simp: all_pairs_leaves)
  have "es \<noteq> [] \<and> skip (fst (hd es))" if ne: "?LA \<noteq> []"
  proof (cases "LA = []")
    case True
    then have "0 < i" using ne by (cases i) auto
    have "es \<noteq> []" using leaves_nonempty[OF B] ch(3)[OF fc(1)] r(2) by (metis in_set_conv_decomp)
    then have "min_key (cs ! i) = fst (hd es)" using True r(2) by (simp add: min_key_def pairs_leaves)
    then show ?thesis using fc(4)[OF \<open>0 < i\<close>] \<open>es \<noteq> []\<close> by simp
  qed (use r(5) in simp)
  then show ?case using run l a d by blast
qed

lemma abtree_descend:
  assumes ok: "abtree_ok t" and least: "least \<le> 2" and down: "\<forall>x y. skip y \<longrightarrow> x \<le> y \<longrightarrow> skip x"
  obtains LA l es LD where "find_leaf least skip (height t - 1) (root t) = Some (l, es)" and "leaf_in t LA l es LD"
    and "\<forall>e\<in>set (concat_leaves LA). skip (fst e)" and "\<forall>e\<in>set (concat_leaves LD). \<not> skip (fst e)"
    and "LA \<noteq> [] \<Longrightarrow> es \<noteq> [] \<and> skip (fst (hd es))"
proof -
  have "ab_bounds_ok (bounds t)" "shape (bounds t) (height t - 1) (root t)" "sorted (map fst (pairs (root t)))" "height t - 1 = 0 \<or> 2 \<le> node_N (root t)"
    using ok by (auto simp: abtree_ok_def root_ok_def abtree_pairs_def)
  from descend_ok[of _ least skip, OF this(1) least down this(2-4)] show ?thesis using that unfolding leaf_in_def by blast
qed

text \<open>In a sorted list, the pairs that satisfy a test that is closed downwards are a prefix.\<close>

lemma position_in_leaf:
  assumes "sorted (map fst es)"
  shows "i < length (takeWhile (\<lambda>e. fst e < mn) es) \<Longrightarrow> fst (es ! i) < mn"
    and "length (takeWhile (\<lambda>e. fst e < mn) es) < length es \<Longrightarrow> mn \<le> fst (es ! length (takeWhile (\<lambda>e. fst e < mn) es))"
    and "dropWhile (\<lambda>e. fst e < mn) es = drop (length (takeWhile (\<lambda>e. fst e < mn) es)) es"
    and "es \<noteq> [] \<Longrightarrow> mn \<le> fst (last es) \<Longrightarrow> length (takeWhile (\<lambda>e. fst e < mn) es) < length es"
proof -
  let ?w = "takeWhile (\<lambda>e. fst e < mn) es"
  show "fst (es ! i) < mn" if "i < length ?w" using that by (metis nth_mem set_takeWhileD takeWhile_nth)
  show "mn \<le> fst (es ! length ?w)" if "length ?w < length es" using nth_length_takeWhile[OF that] by simp
  show "dropWhile (\<lambda>e. fst e < mn) es = drop (length ?w) es" by (rule dropWhile_eq_drop)
  show "length ?w < length es" if "es \<noteq> []" "mn \<le> fst (last es)"
  proof (rule ccontr)
    assume "\<not> ?thesis"
    then have "?w = es" by (metis length_takeWhile_le linorder_not_less nle_le takeWhile_eq_take take_all_iff)
    then show False using that last_in_set[OF that(1)] set_takeWhileD[of "last es" "\<lambda>e. fst e < mn" es] by (metis linorder_not_less)
  qed
qed

text \<open>The pairs of a range, from the position of the first one.\<close>

lemma in_range_parts:
  assumes "sorted (map fst (as @ bs))" and "\<forall>e\<in>set as. fst e < mn" and "\<forall>e\<in>set bs. mn \<le> fst e"
  shows "in_range mn mx (as @ bs) = takeWhile (\<lambda>e. fst e \<le> mx) bs"
proof -
  have "filter (\<lambda>(k, v). mn \<le> k \<and> k \<le> mx) as = []" using assms(2) by (auto simp: filter_empty_conv)
  moreover have "sorted (map fst bs) \<Longrightarrow> \<forall>e\<in>set bs. mn \<le> fst e \<Longrightarrow> filter (\<lambda>(k, v). mn \<le> k \<and> k \<le> mx) bs = takeWhile (\<lambda>e. fst e \<le> mx) bs"
  proof (induction bs)
    case (Cons b bs)
    show ?case
    proof (cases "fst b \<le> mx")
      case False
      then have "\<forall>e\<in>set bs. \<not> fst e \<le> mx" using Cons.prems(1) by fastforce
      then show ?thesis using False by (auto simp: filter_empty_conv)
    qed (use Cons in auto)
  qed simp
  ultimately show ?thesis using assms(1,3) sorted_appendD(2) by (simp add: in_range_def sorted_append)
qed

lemma abtree_sorted: "abtree_ok t \<Longrightarrow> sorted (map fst (abtree_pairs t))"
  by (simp add: abtree_ok_def)

section \<open>Find\<close>

lemma abtree_find_ok:
  assumes ok: "abtree_ok t"
  shows "key \<in> fst ` set (abtree_pairs t) \<Longrightarrow> \<exists>v. abtree_find t key = Some v \<and> (key, v) \<in> set (abtree_pairs t)"
    and "key \<notin> fst ` set (abtree_pairs t) \<Longrightarrow> abtree_find t key = Some (- 1)"
proof -
  have down: "\<forall>x y. (y::int) \<le> key \<longrightarrow> x \<le> y \<longrightarrow> x \<le> key" by simp
  obtain LA l es LD where d: "find_leaf 2 (\<lambda>k. k \<le> key) (height t - 1) (root t) = Some (l, es)" "leaf_in t LA l es LD"
      "\<forall>e\<in>set (concat_leaves LA). fst e \<le> key" "\<forall>e\<in>set (concat_leaves LD). \<not> fst e \<le> key" "LA \<noteq> [] \<Longrightarrow> es \<noteq> [] \<and> fst (hd es) \<le> key"
    by (rule abtree_descend[OF ok le_refl down]) blast
  note p = leaf_inD(3)[OF ok d(2)]
  let ?i = "length (takeWhile (\<lambda>e. fst e < key) es)"
  have so: "sorted (map fst (concat_leaves LA @ es @ concat_leaves LD))" using abtree_sorted[OF ok] p by simp
  have ses: "sorted (map fst es)" using so by (simp add: sorted_append)
  have run: "abtree_find t key = Some (if ?i < length es \<and> fst (es ! ?i) = key then snd (es ! ?i) else - 1)"
    using d(1) by (simp add: abtree_find_def Let_def)
  have here: "?i < length es \<and> fst (es ! ?i) = key" if k: "key \<in> fst ` set (abtree_pairs t)"
  proof -
    have "key \<in> fst ` set es"
    proof -
      have "key \<in> fst ` set (concat_leaves LA) \<or> key \<in> fst ` set es" using k d(4) unfolding p by auto
      moreover have "key \<in> fst ` set es" if a: "key \<in> fst ` set (concat_leaves LA)"
      proof -
        have "LA \<noteq> []" using a by (cases LA) auto
        then have es: "es \<noteq> []" "fst (hd es) \<le> key" using d(5) by simp_all
        have "\<forall>x\<in>set (concat_leaves LA). \<forall>y\<in>set es. fst x \<le> fst y" using so by (auto simp: sorted_append)
        then have "key \<le> fst (hd es)" using a es(1) by force
        then have "fst (hd es) = key" using es(2) by simp
        then show ?thesis using hd_in_set[OF es(1)] by blast
      qed
      ultimately show ?thesis by blast
    qed
    then obtain e where "e \<in> set es" "fst e = key" by auto
    then obtain A x D where es: "es = A @ (key, x) # D" by (metis prod.collapse split_list)
    then have "key \<le> fst (last es)" using ses by (cases D rule: rev_cases) (auto simp: sorted_append)
    then have il: "?i < length es" using position_in_leaf(4)[OF ses, of key] es by simp
    have "?i \<le> length A"
    proof (rule ccontr)
      assume "\<not> ?thesis"
      then have "fst (es ! length A) < key" using position_in_leaf(1)[OF ses, of "length A" key] by simp
      then show False using es by simp
    qed
    moreover have a: "length A < length es" "es ! length A = (key, x)" using es by simp_all
    ultimately have "fst (es ! ?i) \<le> fst (es ! length A)" using sorted_nth_mono[OF ses, of ?i "length A"] il by simp
    then have "fst (es ! ?i) \<le> key" using a(2) by simp
    then show ?thesis using il position_in_leaf(2)[OF ses il] by simp
  qed
  show "\<exists>v. abtree_find t key = Some v \<and> (key, v) \<in> set (abtree_pairs t)" if "key \<in> fst ` set (abtree_pairs t)"
  proof -
    have h: "?i < length es" "fst (es ! ?i) = key" using here[OF that] by simp_all
    have "es ! ?i \<in> set (abtree_pairs t)" using h(1) unfolding p by simp
    then have "(fst (es ! ?i), snd (es ! ?i)) \<in> set (abtree_pairs t)" by simp
    then have k: "(key, snd (es ! ?i)) \<in> set (abtree_pairs t)" by (simp only: h(2))
    have "abtree_find t key = Some (snd (es ! ?i))" unfolding run using h by simp
    then show ?thesis using k by blast
  qed
  show "abtree_find t key = Some (- 1)" if "key \<notin> fst ` set (abtree_pairs t)"
  proof -
    have "\<not> (?i < length es \<and> fst (es ! ?i) = key)" 
    proof
      assume h: "?i < length es \<and> fst (es ! ?i) = key"
      then have "es ! ?i \<in> set (abtree_pairs t)" unfolding p by simp
      then have "fst (es ! ?i) \<in> fst ` set (abtree_pairs t)" by (rule imageI)
      then have "key \<in> fst ` set (abtree_pairs t)" by (simp only: conjunct2[OF h])
      with that show False by contradiction
    qed
    then show ?thesis unfolding run by (simp only: if_False)
  qed
qed

lemma rightmost_leaf_ok:
  assumes B: "ab_bounds_ok B"
  shows "shape B h n \<Longrightarrow> h = 0 \<or> 2 \<le> node_N n \<Longrightarrow> pairs n \<noteq> [] \<Longrightarrow> \<exists>es. rightmost_leaf h n = Some es \<and> es \<noteq> [] \<and> last es = last (pairs n)"
proof (induction h arbitrary: n)
  case 0
  then show ?case by (elim shape_leafE) simp
next
  case (Suc h)
  from Suc.prems(1) obtain cs where n: "n = InternalNode (seps cs) cs" by (rule shapeE)
  have cs: "shape B (Suc h) (InternalNode (seps cs) cs)" using Suc.prems n by simp
  note ch = shape_children[OF B cs]
  have c: "shape B h (last cs)" "within_bounds B h (last cs)" "pairs (last cs) \<noteq> []" using ch cs by simp_all
  have "h = 0 \<or> 2 \<le> node_N (last cs)" using c(2) ab_bounds_okD(1)[OF B, of h] by (auto simp: within_bounds_def)
  moreover have "last (pairs n) = last (pairs (last cs))" using c(3) ch(1) n by (cases cs rule: rev_cases) simp_all
  ultimately show ?case using Suc.IH[OF c(1) _ c(3)] ch(1) n by simp
qed

lemma key_max_ok:
  assumes ok: "abtree_ok t"
  shows "key_max t = Some (if abtree_pairs t = [] then - 1 else fst (last (abtree_pairs t)))"
proof -
  have r: "ab_bounds_ok (bounds t)" "shape (bounds t) (height t - 1) (root t)" "height t - 1 = 0 \<or> 2 \<le> node_N (root t)" and c: "cardinality t = length (abtree_pairs t)"
    using ok by (auto simp: abtree_ok_def root_ok_def)
  then show ?thesis using rightmost_leaf_ok[OF r] by (auto simp: key_max_def abtree_pairs_def)
qed

section \<open>Iterator\<close>

text \<open>The iterator to its end.\<close>

partial_function (option) abit_drain :: "ABTree \<Rightarrow> ABIterator \<Rightarrow> (int \<times> int) list option" where
  "abit_drain t it =
     (if abit_hasNext it then do { (kv, it') \<leftarrow> abit_next t it; xs \<leftarrow> abit_drain t it'; Some (kv # xs) } else Some [])"

lemma abit_drain_end [simp]: "it_block it = None \<Longrightarrow> abit_drain t it = Some []"
  by (subst abit_drain.simps) (simp add: abit_hasNext_def)

lemma abit_drain_ok:
  assumes ok: "abtree_ok t"
  shows "leaf_in t LA l es LD \<Longrightarrow> pos < length es \<Longrightarrow> it_block it = Some l \<or> it_block it = None \<Longrightarrow> it_pos it = pos \<Longrightarrow> it_max it = mx
    \<Longrightarrow> (it_block it = None \<longleftrightarrow> mx < fst (es ! pos)) \<Longrightarrow> abit_drain t it = Some (takeWhile (\<lambda>e. fst e \<le> mx) (drop pos es @ concat_leaves LD))"
proof (induction "length (drop pos es @ concat_leaves LD)" arbitrary: LA l es LD pos it rule: less_induct)
  case less
  note at = leaf_inD[OF ok less.prems(1)]
  have dr: "drop pos es = es ! pos # drop (pos + 1) es" using Cons_nth_drop_Suc[OF less.prems(2)] by simp
  show ?case
  proof (cases "mx < fst (es ! pos)")
    case True
    then show ?thesis using less.prems(6) dr by simp
  next
    case False
    then have b: "it_block it = Some l" using less.prems(3,6) by simp
    have kv: "entry_at t l pos = Some (es ! pos)" using at(1) less.prems(2) by (simp add: entry_at_def)
    obtain it' where it': "abit_next t it = Some (es ! pos, it')" "abit_drain t it' = Some (takeWhile (\<lambda>e. fst e \<le> mx) (drop (pos + 1) es @ concat_leaves LD))"
    proof (cases "pos + 1 < length es")
      case True
      then have c: "\<not> length es - 1 \<le> pos" and kv2: "entry_at t l (pos + 1) = Some (es ! (pos + 1))" using at(1) by (auto simp: entry_at_def)
      let ?it = "it\<lparr>it_block := (if mx < fst (es ! (pos + 1)) then None else Some l), it_pos := pos + 1\<rparr>"
      have "abit_next t it = Some (es ! pos, ?it)"
        unfolding abit_next_def b using c kv kv2 at(1) less.prems(4,5) by (simp add: split_beta)
      moreover have "abit_drain t ?it = Some (takeWhile (\<lambda>e. fst e \<le> mx) (drop (pos + 1) es @ concat_leaves LD))"
        by (rule less.hyps[OF _ less.prems(1)]) (use True less.prems(5) dr in auto)
      ultimately show ?thesis using that by blast
    next
      case last: False
      then have c: "length es - 1 \<le> pos" and de: "drop (pos + 1) es = []" by simp_all
      show ?thesis
      proof (cases LD)
        case Nil
        have "abit_next t it = Some (es ! pos, it\<lparr>it_block := None, it_pos := 0\<rparr>)"
          unfolding abit_next_def b using c kv at(1,2) less.prems(4) Nil by simp
        then show ?thesis using that de Nil by simp
      next
        case (Cons p LD')
        obtain l2 es2 where p: "p = (l2, es2)" by force
        have at2: "leaf_in t (LA @ [(l, es)]) l2 es2 LD'" using leaf_in_next less.prems(1) Cons p by simp
        have ne: "0 < length es2" using leaf_in_nonempty(1)[OF ok at2] by auto
        have kv2: "entry_at t l2 0 = Some (es2 ! 0)" using leaf_inD(1)[OF ok at2] ne by (simp add: entry_at_def)
        let ?it = "it\<lparr>it_block := (if mx < fst (es2 ! 0) then None else Some l2), it_pos := 0\<rparr>"
        have "abit_next t it = Some (es ! pos, ?it)"
          unfolding abit_next_def b using c kv kv2 at(1,2) less.prems(4,5) Cons p by (simp add: split_beta)
        moreover have "abit_drain t ?it = Some (takeWhile (\<lambda>e. fst e \<le> mx) (drop 0 es2 @ concat_leaves LD'))"
          by (rule less.hyps[OF _ at2 ne]) (use less.prems(2,5) Cons p in auto)
        ultimately show ?thesis using that de Cons p by simp
      qed
    qed
    have "abit_drain t it = Some (es ! pos # takeWhile (\<lambda>e. fst e \<le> mx) (drop (pos + 1) es @ concat_leaves LD))"
      by (subst abit_drain.simps) (simp add: abit_hasNext_def b it')
    then show ?thesis using dr False by simp
  qed
qed

text \<open>Where a scan from \<open>mn\<close> starts: in the leaf of the descent, in the next one, or nowhere.\<close>

lemma scan_start:
  assumes ok: "abtree_ok t"
  obtains (empty) l where "find_leaf 1 (\<lambda>k. k < mn) (height t - 1) (root t) = Some (l, [])" and "abtree_pairs t = []"
  | (at_end) l es where "find_leaf 1 (\<lambda>k. k < mn) (height t - 1) (root t) = Some (l, es)" and "es \<noteq> []" and "fst (last es) < mn"
      and "m_next (memory t) l = None" and "\<forall>e\<in>set (abtree_pairs t). fst e < mn"
  | (after) l es l2 LA es2 LD where "find_leaf 1 (\<lambda>k. k < mn) (height t - 1) (root t) = Some (l, es)" and "es \<noteq> []" and "fst (last es) < mn"
      and "m_next (memory t) l = Some l2" and "leaf_in t LA l2 es2 LD" and "es2 \<noteq> []" and "mn \<le> fst (hd es2)"
      and "\<And>mx. in_range mn mx (abtree_pairs t) = takeWhile (\<lambda>e. fst e \<le> mx) (es2 @ concat_leaves LD)"
  | (here) l es LA LD where "find_leaf 1 (\<lambda>k. k < mn) (height t - 1) (root t) = Some (l, es)" and "es \<noteq> []" and "mn \<le> fst (last es)"
      and "leaf_in t LA l es LD"
      and "\<And>mx. in_range mn mx (abtree_pairs t)
          = takeWhile (\<lambda>e. fst e \<le> mx) (drop (length (takeWhile (\<lambda>e. fst e < mn) es)) es @ concat_leaves LD)"
proof -
  have down: "\<forall>x y. (y::int) < mn \<longrightarrow> x \<le> y \<longrightarrow> x < mn" by simp
  obtain LA l es LD where d: "find_leaf 1 (\<lambda>k. k < mn) (height t - 1) (root t) = Some (l, es)" "leaf_in t LA l es LD"
      "\<forall>e\<in>set (concat_leaves LA). fst e < mn" "\<forall>e\<in>set (concat_leaves LD). \<not> fst e < mn"
    by (rule abtree_descend[OF ok _ down, of 1]) auto
  have ge: "\<forall>e\<in>set (concat_leaves LD). mn \<le> fst e" using d(4) by (simp add: not_less)
  note p = leaf_inD[OF ok d(2)]
  have so: "sorted (map fst (concat_leaves LA @ es @ concat_leaves LD))" using abtree_sorted[OF ok] p(3) by simp
  have ses: "sorted (map fst es)" using so by (simp add: sorted_append)
  consider "es = []" | "es \<noteq> []" "fst (last es) < mn" "LD = []" | q LD' where "es \<noteq> []" "fst (last es) < mn" "LD = q # LD'"
    | "es \<noteq> []" "mn \<le> fst (last es)" by (metis linorder_not_less neq_Nil_conv)
  then show ?thesis
  proof cases
    case 1
    then show ?thesis using empty d(1) leaf_in_nonempty[OF ok d(2)] p(3) by simp
  next
    case 2
    then have "\<forall>e\<in>set es. fst e < mn" using ses by (cases es rule: rev_cases) (auto simp: sorted_append)
    then show ?thesis using at_end[OF d(1)] 2 p(2,3) d(3) by auto
  next
    case 3
    obtain l2 es2 where q: "q = (l2, es2)" by force
    have at2: "leaf_in t (LA @ [(l, es)]) l2 es2 LD'" using leaf_in_next d(2) 3(3) q by simp
    have ne: "es2 \<noteq> []" using leaf_in_nonempty(1)[OF ok at2] by auto
    have lt: "\<forall>e\<in>set es. fst e < mn" using 3 ses by (cases es rule: rev_cases) (auto simp: sorted_append)
    have e: "abtree_pairs t = (concat_leaves LA @ es) @ (es2 @ concat_leaves LD')" using p(3) 3(3) q by simp
    have "in_range mn mx (abtree_pairs t) = takeWhile (\<lambda>e. fst e \<le> mx) (es2 @ concat_leaves LD')" for mx
      unfolding e by (rule in_range_parts) (use so lt d(3) ge 3(3) q in auto)
    moreover have "mn \<le> fst (hd es2)" using ge 3(3) q ne by simp
    ultimately show ?thesis using after[OF d(1) 3(1,2) _ at2 ne] p(2) 3(3) q by simp
  next
    case 4
    let ?i = "length (takeWhile (\<lambda>e. fst e < mn) es)"
    have il: "?i < length es" using position_in_leaf(4)[OF ses] 4 by blast
    have e: "abtree_pairs t = (concat_leaves LA @ take ?i es) @ (drop ?i es @ concat_leaves LD)" using p(3) by simp
    have ti: "\<forall>e\<in>set (take ?i es). fst e < mn" using set_takeWhileD[of _ "\<lambda>e. fst e < mn" es] by (metis takeWhile_eq_take)
    have "mn \<le> fst (es ! ?i)" using position_in_leaf(2)[OF ses il] .
    moreover have "sorted (map fst (drop ?i es))" using ses by (simp add: sorted_wrt_drop flip: drop_map)
    moreover have "drop ?i es = es ! ?i # drop (Suc ?i) es" using Cons_nth_drop_Suc[OF il] by (rule sym)
    ultimately have di: "\<forall>e\<in>set (drop ?i es). mn \<le> fst e" by auto
    have "in_range mn mx (abtree_pairs t) = takeWhile (\<lambda>e. fst e \<le> mx) (drop ?i es @ concat_leaves LD)" for mx
    proof -
      have s: "sorted (map fst ((concat_leaves LA @ take ?i es) @ (drop ?i es @ concat_leaves LD)))" using abtree_sorted[OF ok] unfolding e .
      have "\<forall>e\<in>set (concat_leaves LA @ take ?i es). fst e < mn" "\<forall>e\<in>set (drop ?i es @ concat_leaves LD). mn \<le> fst e"
        unfolding set_append using ti di d(3) ge by blast+
      then show ?thesis unfolding e by (rule in_range_parts[OF s])
    qed
    then show ?thesis using here[OF d(1) 4 d(2)] by blast
  qed
qed

lemma takeWhile_stop:
  fixes mx :: int
  assumes "i < length es" and "mx < fst (es ! i)"
  shows "takeWhile (\<lambda>e. fst e \<le> mx) (drop i es @ R) = []"
  unfolding Cons_nth_drop_Suc[OF assms(1), symmetric] using assms(2) by simp

lemma create_iterator_ok:
  assumes ok: "abtree_ok t" and at: "leaf_in t LA l es LD" and pos: "pos < length es"
  shows "\<exists>it. create_iterator t mx (Some l) pos = Some it \<and> abit_drain t it = Some (takeWhile (\<lambda>e. fst e \<le> mx) (drop pos es @ concat_leaves LD))"
proof -
  have kv: "entry_at t l pos = Some (es ! pos)" using leaf_inD(1)[OF ok at] pos by (simp add: entry_at_def)
  show ?thesis
  proof (cases "mx < fst (es ! pos)")
    case True
    then have "takeWhile (\<lambda>e. fst e \<le> mx) (drop pos es @ concat_leaves LD) = []"
      by (rule takeWhile_stop[OF pos])
    then show ?thesis using True kv by (simp add: create_iterator_def split_beta)
  next
    case False
    have "abit_drain t \<lparr>it_max = mx, it_block = Some l, it_pos = pos\<rparr> = Some (takeWhile (\<lambda>e. fst e \<le> mx) (drop pos es @ concat_leaves LD))"
      by (rule abit_drain_ok[OF ok at pos]) (use False in simp_all)
    then show ?thesis using False kv by (simp add: create_iterator_def split_beta)
  qed
qed

lemma create_iterator_end: "\<exists>it. create_iterator t mx None 0 = Some it \<and> abit_drain t it = Some []"
  by (simp add: create_iterator_def)

lemma abtree_find_range_ok:
  assumes ok: "abtree_ok t"
  shows "\<exists>it. abtree_find_range t mn mx = Some it \<and> abit_drain t it = Some (in_range mn mx (abtree_pairs t))"
proof (cases "mx < mn")
  case True
  then have "in_range mn mx (abtree_pairs t) = []" by (auto simp: in_range_def filter_empty_conv)
  then show ?thesis using True create_iterator_end by (simp add: abtree_find_range_def)
next
  case False
  show ?thesis
  proof (cases rule: scan_start[OF ok, of mn, case_names empty at_end after here])
    case (empty l)
    then show ?thesis using create_iterator_end False by (simp add: abtree_find_range_def leaf_scan_def in_range_def)
  next
    case (at_end l es)
    then have "in_range mn mx (abtree_pairs t) = []" by (auto simp: in_range_def filter_empty_conv)
    then show ?thesis using create_iterator_end False at_end by (simp add: abtree_find_range_def leaf_scan_def)
  next
    case (after l es l2 LA es2 LD)
    then have kv: "entry_at t l2 0 = Some (hd es2)" using leaf_inD(1)[OF ok after(5)] by (simp add: entry_at_def hd_conv_nth)
    have "0 < length es2" using after(6) by simp
    from create_iterator_ok[OF ok after(5) this] show ?thesis
      using False after kv by (simp add: abtree_find_range_def leaf_scan_def split_beta)
  next
    case (here l es LA LD)
    let ?i = "length (takeWhile (\<lambda>e. fst e < mn) es)"
    have ses: "sorted (map fst es)" using abtree_sorted[OF ok] leaf_inD(3)[OF ok here(4)] by (simp add: sorted_append)
    have il: "?i < length es" using position_in_leaf(4)[OF ses here(2,3)] .
    show ?thesis
    proof (cases "mx < fst (hd es)")
      case True
      have "fst (hd es) \<le> fst (es ! ?i)" using sorted_nth_mono[OF ses, of 0 ?i] il by (simp add: hd_conv_nth here(2))
      then have "mx < fst (es ! ?i)" using True by linarith
      then have "in_range mn mx (abtree_pairs t) = []" unfolding here(5) by (rule takeWhile_stop[OF il])
      moreover have "abtree_find_range t mn mx = create_iterator t mx None 0" using True False here(1-3) by (simp add: abtree_find_range_def leaf_scan_def)
      ultimately show ?thesis using create_iterator_end by simp
    next
      case h: False
      have "abtree_find_range t mn mx = create_iterator t mx (Some l) ?i" using h False here(1-3) by (simp add: abtree_find_range_def leaf_scan_def)
      then show ?thesis using create_iterator_ok[OF ok here(4) il] here(5) by simp
    qed
  qed
qed

section \<open>Sum\<close>

text \<open>A sum extended by some pairs, the last of them last.\<close>

definition sum_add :: "SumResult \<Rightarrow> (int \<times> int) list \<Rightarrow> int \<Rightarrow> SumResult" where
  "sum_add r xs k = r\<lparr>m_sum_keys := sum64 (m_sum_keys r) (map fst xs), m_sum_values := sum64 (m_sum_values r) (map snd xs),
     m_num_elements := m_num_elements r + length xs, m_last_key := k\<rparr>"

lemma sum_add_append: "sum_add (sum_add r xs k) ys j = sum_add r (xs @ ys) j"
  by (simp add: sum_add_def)

lemma sum_leaves_step:
  fixes r :: SumResult
  assumes at: "leaf_at t l = Some es" and i: "i < length es" and first: "0 < i \<or> fst (es ! 0) \<le> mx"
  defines "xs \<equiv> takeWhile (\<lambda>e. fst e \<le> mx) (drop i es)"
  defines "r' \<equiv> sum_add (r::SumResult) xs (if xs = [] then fst (es ! (i - 1)) else fst (last xs))"
  shows "sum_leaves t mx l i r = (case (if length es \<le> i + length xs then m_next (memory t) l else None) of
       None \<Rightarrow> Some r' | Some l2 \<Rightarrow> entry_at t l2 0 \<bind> (\<lambda>(k, v). if mx < k then Some r' else sum_leaves t mx l2 0 r'))"
proof -
  have dr: "drop i es = es ! i # drop (Suc i) es" using Cons_nth_drop_Suc[OF i] by simp
  have pos: "i + length xs \<noteq> 0" unfolding xs_def dr using first by (cases "i = 0") auto
  have last: "fst (es ! (i + length xs - 1)) = (if xs = [] then fst (es ! (i - 1)) else fst (last xs))"
  proof (cases "xs = []")
    case False
    then have l: "length xs - 1 < length xs" by (cases xs) auto
    then have "last xs = drop i es ! (length xs - 1)" using takeWhile_nth[of "length xs - 1" "\<lambda>e. fst e \<le> mx" "drop i es"] False
      by (simp add: last_conv_nth xs_def)
    moreover have "i + (length xs - 1) = i + length xs - 1" using False by (cases xs) auto
    ultimately show ?thesis using False i by simp
  qed simp
  have "(if i + length xs = 0 then None else Some (r\<lparr>m_sum_keys := sum64 (m_sum_keys r) (map fst xs), m_sum_values := sum64 (m_sum_values r) (map snd xs),
            m_num_elements := m_num_elements r + length xs, m_last_key := fst (es ! (i + length xs - 1))\<rparr>)) = Some r'"
    using pos last by (simp add: r'_def sum_add_def)
  then show ?thesis by (subst sum_leaves.simps) (simp add: at sum_leaf_def xs_def[symmetric])
qed

lemma sum_leaves_ok:
  assumes ok: "abtree_ok t"
  shows "leaf_in t LA l es LD \<Longrightarrow> i < length es \<Longrightarrow> 0 < i \<or> fst (es ! 0) \<le> mx
    \<Longrightarrow> sum_leaves t mx l i r = Some (let xs = takeWhile (\<lambda>e. fst e \<le> mx) (drop i es @ concat_leaves LD)
        in sum_add r xs (if xs = [] then fst (es ! (i - 1)) else fst (last xs)))"
proof (induction LD arbitrary: LA l es i r)
  case Nil
  note at = leaf_inD[OF ok Nil.prems(1)]
  show ?case unfolding sum_leaves_step[OF at(1) Nil.prems(2,3)] using at(2) by (simp add: Let_def)
next
  case (Cons p LD)
  note at = leaf_inD[OF ok Cons.prems(1)]
  obtain l2 es2 where p: "p = (l2, es2)" by force
  define xs where xs: "xs = takeWhile (\<lambda>e. fst e \<le> mx) (drop i es)"
  define r' where r': "r' = sum_add r xs (if xs = [] then fst (es ! (i - 1)) else fst (last xs))"
  have at2: "leaf_in t (LA @ [(l, es)]) l2 es2 LD" using leaf_in_next Cons.prems(1) p by simp
  have ne: "0 < length es2" using leaf_in_nonempty(1)[OF ok at2] by auto
  have kv: "entry_at t l2 0 = Some (es2 ! 0)" using leaf_inD(1)[OF ok at2] ne by (simp add: entry_at_def)
  note step = sum_leaves_step[OF at(1) Cons.prems(2,3), of r, folded xs r']
  show ?case
  proof (cases "length es \<le> i + length xs")
    case False
    have "xs \<noteq> drop i es" using False Cons.prems(2) by (metis add_diff_inverse_nat length_drop linorder_not_less order_less_imp_le order_refl not_less_iff_gr_or_eq)
    then have "\<exists>e\<in>set (drop i es). \<not> fst e \<le> mx" by (metis takeWhile_eq_all_conv xs)
    then have "takeWhile (\<lambda>e. fst e \<le> mx) (drop i es @ concat_leaves (p # LD)) = xs" unfolding xs by (metis takeWhile_append1)
    then show ?thesis unfolding step using False r' by (simp add: Let_def)
  next
    case True
    have "length xs \<le> length (drop i es)" unfolding xs by (rule length_takeWhile_le)
    then have all: "xs = drop i es" using True unfolding xs by (metis Cons.prems(2) add_diff_inverse_nat length_drop nat_add_left_cancel_le order_antisym order_less_imp_not_less take_all_iff takeWhile_eq_take)
    then have nx: "xs \<noteq> []" "\<forall>e\<in>set xs. fst e \<le> mx" using Cons.prems(2) set_takeWhileD[of _ "\<lambda>e. fst e \<le> mx" "drop i es", folded xs] by auto
    have tw: "takeWhile (\<lambda>e. fst e \<le> mx) (drop i es @ R) = xs @ takeWhile (\<lambda>e. fst e \<le> mx) R" for R using nx(2) all by simp
    show ?thesis
    proof (cases "mx < fst (es2 ! 0)")
      case m: True
      have "takeWhile (\<lambda>e. fst e \<le> mx) (concat_leaves (p # LD)) = []" using takeWhile_stop[OF ne m] p by simp
      then show ?thesis unfolding step tw using True m at(2) p kv nx(1) by (simp add: r' split_beta Let_def)
    next
      case m: False
      define ys where ys: "ys = takeWhile (\<lambda>e. fst e \<le> mx) (es2 @ concat_leaves LD)"
      have "es2 = es2 ! 0 # drop 1 es2" using Cons_nth_drop_Suc[OF ne] by simp
      then have yn: "ys \<noteq> []" unfolding ys using m by (metis append_Cons drop0 linorder_not_less list.distinct(1) takeWhile.simps(2))
      have "sum_leaves t mx l2 0 r' = Some (sum_add r' ys (fst (last ys)))"
        using Cons.IH[OF at2 ne, of r'] m yn by (simp add: Let_def flip: ys)
      moreover have "takeWhile (\<lambda>e. fst e \<le> mx) (drop i es @ concat_leaves (p # LD)) = xs @ ys" unfolding tw ys p by simp
      ultimately show ?thesis unfolding step using True m at(2) p kv nx(1) yn by (simp add: r' split_beta sum_add_append Let_def)
    qed
  qed
qed

lemma add_pairs_range_sum:
  "xs \<noteq> [] \<Longrightarrow> sum_add (empty_sum\<lparr>m_first_key := fst (hd xs)\<rparr>) xs (fst (last xs)) = range_sum xs"
  by (simp add: sum_add_def empty_sum_def range_sum_def sum64_0)

text \<open>The sum over the pairs of the range; with none, its sums and its count are zero, whatever its first and last keys.\<close>

lemma abtree_sum_ok:
  assumes ok: "abtree_ok t"
  shows "\<exists>r. abtree_sum t mn mx = Some r \<and> m_num_elements r = length (in_range mn mx (abtree_pairs t))
    \<and> m_sum_keys r = s64 (sum_list (map fst (in_range mn mx (abtree_pairs t)))) \<and> m_sum_values r = s64 (sum_list (map snd (in_range mn mx (abtree_pairs t))))
    \<and> (in_range mn mx (abtree_pairs t) \<noteq> [] \<longrightarrow> r = range_sum (in_range mn mx (abtree_pairs t)))"
proof -
  have card: "cardinality t = 0 \<longleftrightarrow> abtree_pairs t = []" using ok by (simp add: abtree_ok_def)
  have zero: ?thesis if "abtree_sum t mn mx = Some empty_sum" "in_range mn mx (abtree_pairs t) = []"
    using that by (simp add: empty_sum_def)
  have at: ?thesis if at: "leaf_in t LA l es LD" and run: "abtree_sum t mn mx = (if mx < fst (hd es) then Some empty_sum
      else sum_leaves t mx l i (empty_sum\<lparr>m_first_key := fst (es ! i)\<rparr>))" and il: "i < length es" and le: "fst (hd es) \<le> fst (es ! i)"
      and rng: "in_range mn mx (abtree_pairs t) = takeWhile (\<lambda>e. fst e \<le> mx) (drop i es @ concat_leaves LD)" for LA l es LD i
  proof (cases "mx < fst (hd es)")
    case True
    then have "in_range mn mx (abtree_pairs t) = []" unfolding rng using takeWhile_stop[OF il] le by (metis order_less_le_trans)
    then show ?thesis using zero run True by simp
  next
    case False
    define xs where xs: "xs = takeWhile (\<lambda>e. fst e \<le> mx) (drop i es @ concat_leaves LD)"
    have "es \<noteq> []" using il by auto
    then have "0 < i \<or> fst (es ! 0) \<le> mx" using False by (simp add: hd_conv_nth)
    then have r: "abtree_sum t mn mx = Some (sum_add (empty_sum\<lparr>m_first_key := fst (es ! i)\<rparr>) xs (if xs = [] then fst (es ! (i - 1)) else fst (last xs)))"
      using run False sum_leaves_ok[OF ok at il] by (simp add: Let_def xs)
    have "hd xs = es ! i" if "xs \<noteq> []"
      using that Cons_nth_drop_Suc[OF il] unfolding xs by (metis append_Cons list.sel(1) takeWhile.simps(2))
    then have "xs \<noteq> [] \<Longrightarrow> sum_add (empty_sum\<lparr>m_first_key := fst (es ! i)\<rparr>) xs (fst (last xs)) = range_sum xs" using add_pairs_range_sum by metis
    then show ?thesis unfolding r rng xs[symmetric] by (auto simp: sum_add_def empty_sum_def sum64_0)
  qed
  show ?thesis
  proof (cases "mx < mn \<or> cardinality t = 0")
    case True
    then have "in_range mn mx (abtree_pairs t) = []" using card by (auto simp: in_range_def filter_empty_conv)
    then show ?thesis using zero True by (simp add: abtree_sum_def)
  next
    case False
    show ?thesis
    proof (cases rule: scan_start[OF ok, of mn, case_names empty at_end after here])
      case (empty l)
      then show ?thesis using False card by simp
    next
      case (at_end l es)
      then have "in_range mn mx (abtree_pairs t) = []" by (auto simp: in_range_def filter_empty_conv)
      then show ?thesis using zero False at_end by (simp add: abtree_sum_def)
    next
      case (after l es l2 LA es2 LD)
      have a2: "leaf_at t l2 = Some es2" by (rule leaf_inD(1)[OF ok after(5)])
      have kv: "entry_at t l2 0 = Some (hd es2)" using a2 after(6) by (simp add: entry_at_def hd_conv_nth)
      have tw: "takeWhile (\<lambda>e. fst e < mn) es2 = []" using after(6,7) by (cases es2) auto
      have "abtree_sum t mn mx = (if mx < fst (hd es2) then Some empty_sum else sum_leaves t mx l2 0 (empty_sum\<lparr>m_first_key := fst (es2 ! 0)\<rparr>))"
        using False after(1-4,6,7) kv a2 tw by (auto simp: abtree_sum_def split_beta Let_def)
      then show ?thesis by (rule at[OF after(5)]) (use after(6,8) in \<open>simp_all add: hd_conv_nth\<close>)
    next
      case (here l es LA LD)
      let ?i = "length (takeWhile (\<lambda>e. fst e < mn) es)"
      have a: "leaf_at t l = Some es" by (rule leaf_inD(1)[OF ok here(4)])
      have ses: "sorted (map fst es)" using abtree_sorted[OF ok] leaf_inD(3)[OF ok here(4)] by (simp add: sorted_append)
      have il: "?i < length es" using position_in_leaf(4)[OF ses here(2,3)] .
      have le: "fst (hd es) \<le> fst (es ! ?i)" using sorted_nth_mono[OF ses, of 0 ?i] il by (simp add: hd_conv_nth here(2))
      have "abtree_sum t mn mx = (if mx < fst (hd es) then Some empty_sum else sum_leaves t mx l ?i (empty_sum\<lparr>m_first_key := fst (es ! ?i)\<rparr>))"
        using False here(1-3) a il by (auto simp: abtree_sum_def Let_def)
      then show ?thesis by (rule at[OF here(4)]) (use il le here(5) in simp_all)
    qed
  qed
qed

end
