(* ===== verification/ABTree_Load.thy ===== *)
theory ABTree_Load
  imports ABTree Static_Index
begin

text \<open>
  The bulk load of the (a,b)-tree (\<open>ABTree::initialize_from_array\<close> and \<open>load\<close>): the pairs are cut in leaves of
  nearly the same size, and each complete node is passed on to the node under construction one level above.

  \<open>srt\<close> is \<open>std::sort\<close> by key: any function that sorts. \<open>levels_for\<close> is the number of levels of inner nodes the code
  computes from the number of leaves, \<open>ceil (log (num_leaves) / log (intnode_b))\<close> in floating point.
\<close>

text \<open>The separators and children of the node under construction, if any. Its first key is not stored in it.\<close>

record NodeState =
  ns_node :: "(int list \<times> Node list) option"
  ns_first_key :: int
  ns_fill_factor :: nat
  ns_index :: nat
  ns_bbpoint :: nat

definition empty_state :: NodeState where
  "empty_state = \<lparr>ns_node = None, ns_first_key = 0, ns_fill_factor = 0, ns_index = 0, ns_bbpoint = 0\<rparr>"

text \<open>The fill factors of the levels below the root, from the last one up.\<close>

fun fill_levels :: "Bounds \<Rightarrow> nat \<Rightarrow> nat \<Rightarrow> NodeState list \<Rightarrow> NodeState list" where
  "fill_levels B 0 num_children levels =
     levels[0 := (levels ! 0)\<lparr>ns_fill_factor := intnode_b B, ns_bbpoint := 1\<rparr>]"
| "fill_levels B (Suc l) num_children levels =
     (let num_nodes = div_up num_children (intnode_b B)
      in fill_levels B l num_nodes
           (levels[Suc l := (levels ! Suc l)\<lparr>ns_fill_factor := num_children div num_nodes, ns_bbpoint := num_children mod num_nodes\<rparr>]))"

text \<open>A child with its least key, given to the node under construction at a level.\<close>

fun propagate :: "Bounds \<Rightarrow> nat \<Rightarrow> Node \<Rightarrow> int \<Rightarrow> bool \<Rightarrow> NodeState list \<times> Memory \<Rightarrow> (NodeState list \<times> Memory) option" where
  "propagate B level child key is_last (levels, m) =
     (let current = levels ! level
      in case ns_node current of
           None \<Rightarrow>
             if level \<noteq> 0 \<and> is_last then None
             else Some (levels[level := current\<lparr>ns_node := Some ([], [child]), ns_first_key := key\<rparr>], create_internal_node m)
         | Some (ks, cs) \<Rightarrow>
             if ns_index current < ns_bbpoint current \<and> length cs = ns_fill_factor current + 1
                \<or> ns_bbpoint current \<le> ns_index current \<and> length cs = ns_fill_factor current then
               case level of
                 0 \<Rightarrow> None
               | Suc l \<Rightarrow>
                   if is_last then None
                   else do {
                     (levels, m) \<leftarrow> propagate B l (InternalNode ks cs) (ns_first_key current) is_last (levels, m);
                     let current = levels ! level;
                     Some (levels[level := current\<lparr>ns_index := ns_index current + 1, ns_node := Some ([], [child]), ns_first_key := key\<rparr>],
                           create_internal_node m) }
             else if 0 < length cs \<and> length cs < intnode_b B then
               let ks = ks @ [key]; cs = cs @ [child]; levels = levels[level := current\<lparr>ns_node := Some (ks, cs)\<rparr>]
               in case level of
                    0 \<Rightarrow> Some (levels, m)
                  | Suc l \<Rightarrow> if is_last then propagate B l (InternalNode ks cs) (ns_first_key current) is_last (levels, m) else Some (levels, m)
             else None)"

text \<open>A leaf with the number of elements that is recorded in it.\<close>

definition close_leaf :: "nat \<Rightarrow> nat \<Rightarrow> (int \<times> int) list \<Rightarrow> (Node \<times> int) option" where
  "close_leaf N l es = (if es = [] \<or> length es < N then None else Some (Leaf l (take N es), fst (hd es)))"

text \<open>The links of a new leaf after the current one.\<close>

definition link_next :: "nat \<Rightarrow> nat \<Rightarrow> Memory \<Rightarrow> Memory" where
  "link_next l1 l2 m = m\<lparr>m_previous := (m_previous m)(l2 := Some l1), m_next := (m_next m)(l1 := Some l2)\<rparr>"

text \<open>The elements from the position \<open>i\<close> on, the current leaf being \<open>l\<close> with \<open>es\<close>.\<close>

fun load_leaves :: "Bounds \<Rightarrow> nat \<Rightarrow> nat \<Rightarrow> nat \<Rightarrow> nat \<Rightarrow> (int \<times> int) list \<Rightarrow> nat \<Rightarrow> (int \<times> int) list \<Rightarrow> NodeState list \<times> Memory
    \<Rightarrow> (NodeState list \<times> Memory) option" where
  "load_leaves B level leaf_ff bbpoint i [] l es s = do {
     (leaf, key) \<leftarrow> close_leaf leaf_ff l es;
     propagate B level leaf key True s }"
| "load_leaves B level leaf_ff bbpoint i (x # xs) l es s = do {
     (l, es, s) \<leftarrow>
       (if i < bbpoint \<and> leaf_ff < length es \<or> bbpoint \<le> i \<and> leaf_ff \<le> length es then do {
          (leaf, key) \<leftarrow> close_leaf (if i \<le> bbpoint then leaf_ff + 1 else leaf_ff) l es;
          (levels, m) \<leftarrow> propagate B level leaf key False s;
          let (l2, m) = create_leaf m;
          Some (l2, [], (levels, link_next l l2 m)) }
        else Some (l, es, s));
     if length es < leaf_b B then load_leaves B level leaf_ff bbpoint (i + 1) xs l (es @ [x]) s else None }"

definition initialize_from_array :: "((int \<times> int) list \<Rightarrow> (int \<times> int) list) \<Rightarrow> (nat \<Rightarrow> nat \<Rightarrow> nat) \<Rightarrow> Bounds \<Rightarrow> (int \<times> int) list \<Rightarrow> bool \<Rightarrow> Memory
    \<Rightarrow> (Node \<times> nat \<times> Memory) option" where
  "initialize_from_array srt levels_for B elements do_sort m =
     (let elements = (if do_sort then srt elements else elements); sz = length elements; (l, m) = create_leaf m
      in if sz \<le> leaf_b B then Some (Leaf l elements, 1, m)
         else
           let num_leaves = div_up sz (leaf_b B); leaf_ff = sz div num_leaves; leaf_ff_mod = sz mod num_leaves;
               num_levels = levels_for (intnode_b B) num_leaves;
               levels = fill_levels B (num_levels - 1) num_leaves (replicate num_levels empty_state)
           in if num_levels = 0 then None
              else do {
                (levels, m) \<leftarrow> load_leaves B (num_levels - 1) leaf_ff (leaf_ff_mod * (leaf_ff + 1)) 0 elements l [] (levels, m);
                (ks, cs) \<leftarrow> ns_node (levels ! 0);
                Some (InternalNode ks cs, num_levels + 1, m) })"

text \<open>The constructor with elements, which it sorts.\<close>

definition new_abtree_from :: "((int \<times> int) list \<Rightarrow> (int \<times> int) list) \<Rightarrow> (nat \<Rightarrow> nat \<Rightarrow> nat) \<Rightarrow> nat \<Rightarrow> nat \<Rightarrow> nat \<Rightarrow> nat
    \<Rightarrow> (int \<times> int) list \<Rightarrow> ABTree option" where
  "new_abtree_from srt levels_for iA iB lA lB elements =
     (let B = \<lparr>intnode_a = iA, intnode_b = iB, leaf_a = lA, leaf_b = lB\<rparr>
      in if validate_bounds B then do {
           (r, h, m) \<leftarrow> initialize_from_array srt levels_for B elements True
              \<lparr>m_next = (\<lambda>_. None), m_previous = (\<lambda>_. None), m_fresh = 0, num_nodes_allocated = 0, num_leaves_allocated = 0\<rparr>;
           Some \<lparr>bounds = B, root = r, cardinality = int (length elements), height = h, memory = m\<rparr> }
         else None)"

text \<open>The test of the order stops at the first pair that is out of order.\<close>

fun in_order :: "(int \<times> int) list \<Rightarrow> bool" where
  "in_order (x # y # xs) \<longleftrightarrow> fst x \<le> fst y \<and> in_order (y # xs)"
| "in_order _ \<longleftrightarrow> True"

definition abtree_load :: "((int \<times> int) list \<Rightarrow> (int \<times> int) list) \<Rightarrow> (nat \<Rightarrow> nat \<Rightarrow> nat) \<Rightarrow> ABTree \<Rightarrow> (int \<times> int) list \<Rightarrow> ABTree option" where
  "abtree_load srt levels_for t elements =
     (if cardinality t > 0 \<or> node_N (root t) \<noteq> 0 then None
      else do {
        (r, h, m) \<leftarrow> initialize_from_array srt levels_for (bounds t) elements (\<not> in_order elements)
          (if height t = 1 then delete_leaf (memory t) else delete_internal_node (memory t));
        Some (t\<lparr>root := r, cardinality := int (length elements), height := (if h = 1 then height t else h), memory := m\<rparr>) })"

end
