(* ===== verification/ABTree_Load_Proofs.thy ===== *)
theory ABTree_Load_Proofs
  imports ABTree_Load ABTree_Scan_Proofs
begin

text \<open>
  The bulk load builds a tree that satisfies the invariant: a level of the nodes under construction knows how many
  children it has received by the position of its current node, and the last child completes every level.
\<close>

declare leaves.simps(2) [simp del]

section \<open>Nearly equal parts\<close>

text \<open>The size of the part \<open>i\<close>, and of all the parts before it.\<close>

definition part_size :: "nat \<Rightarrow> nat \<Rightarrow> nat \<Rightarrow> nat" where
  "part_size ff bb i = (if i < bb then ff + 1 else ff)"

definition part_start :: "nat \<Rightarrow> nat \<Rightarrow> nat \<Rightarrow> nat" where
  "part_start ff bb i = i * ff + min i bb"

lemma part_start_0 [simp]: "part_start ff bb 0 = 0"
  by (simp add: part_start_def)

lemma part_start_Suc: "part_start ff bb (Suc i) = part_start ff bb i + part_size ff bb i"
  by (auto simp: part_start_def part_size_def)

lemma part_start_mono: "i \<le> j \<Longrightarrow> part_start ff bb i \<le> part_start ff bb j"
  by (induction j) (auto simp: part_start_Suc le_Suc_eq)

lemma part_start_less: "part_start ff bb i < part_start ff bb j \<Longrightarrow> i < j"
  using part_start_mono[of j i ff bb] by (meson not_less)

lemma fair_parts:
  assumes "2 \<le> k" and "(k - 1) * b < n" and "n \<le> k * b" and "2 * a \<le> b"
  shows "a \<le> n div k" and "part_size (n div k) (n mod k) i \<le> b" and "part_start (n div k) (n mod k) k = n" and "part_size (n div k) (n mod k) (k - 1) = n div k"
proof -
  have k: "0 < k" using assms(1) by simp
  have "a * k \<le> n"
  proof -
    have "k \<le> 2 * (k - 1)" using assms(1) by simp
    then have "a * k \<le> a * (2 * (k - 1))" by (rule mult_le_mono2)
    also have "\<dots> = (k - 1) * (2 * a)" by simp
    also have "\<dots> \<le> (k - 1) * b" using assms(4) by (rule mult_le_mono2)
    finally show ?thesis using assms(2) by simp
  qed
  then show "a \<le> n div k" using k by (simp add: less_eq_div_iff_mult_less_eq)
  have e: "n div k * k + n mod k = n" by simp
  show "part_size (n div k) (n mod k) i \<le> b"
  proof (cases "n mod k = 0")
    case True
    then have "n div k * k \<le> k * b" using assms(3) e by linarith
    then have "n div k \<le> b" using k by (metis mult.commute mult_le_cancel2)
    then show ?thesis using k True by (simp add: part_size_def)
  next
    case False
    then have "n div k * k < k * b" using assms(3) e by linarith
    then have "n div k < b" by (metis mult.commute mult_less_cancel2)
    then show ?thesis by (simp add: part_size_def)
  qed
  show "part_start (n div k) (n mod k) k = n" using mod_less_divisor[OF k, of n] by (simp add: part_start_def min_absorb2 mult.commute)
  have "n mod k < k" using k by simp
  then show "part_size (n div k) (n mod k) (k - 1) = n div k" by (simp add: part_size_def)
qed

section \<open>The levels under construction\<close>

definition kids :: "NodeState \<Rightarrow> Node list" where
  "kids st = (case ns_node st of None \<Rightarrow> [] | Some (ks, cs) \<Rightarrow> cs)"

definition built :: "NodeState \<Rightarrow> nat" where
  "built st = (case ns_node st of None \<Rightarrow> 0 | Some (ks, cs) \<Rightarrow> Suc (all_inner cs))"

text \<open>A level that has received \<open>j\<close> children of height \<open>h\<close>.\<close>

definition level_ok :: "Bounds \<Rightarrow> nat \<Rightarrow> NodeState \<Rightarrow> nat \<Rightarrow> bool" where
  "level_ok B h st j \<longleftrightarrow>
     (if j = 0 then ns_node st = None \<and> ns_index st = 0
      else \<exists>cs. ns_node st = Some (seps cs, cs) \<and> cs \<noteq> [] \<and> ns_first_key st = min_key (hd cs) \<and> (\<forall>c\<in>set cs. shape B h c \<and> within_bounds B h c)
        \<and> j = part_start (ns_fill_factor st) (ns_bbpoint st) (ns_index st) + length cs
        \<and> length cs \<le> part_size (ns_fill_factor st) (ns_bbpoint st) (ns_index st))"

definition sizes_ok :: "Bounds \<Rightarrow> NodeState \<Rightarrow> bool" where
  "sizes_ok B st \<longleftrightarrow> intnode_a B \<le> ns_fill_factor st \<and> (\<forall>i. part_size (ns_fill_factor st) (ns_bbpoint st) i \<le> intnode_b B)"

text \<open>The levels from the root down to \<open>l\<close>, which has received \<open>j\<close> children.\<close>

fun tower :: "Bounds \<Rightarrow> nat \<Rightarrow> NodeState list \<Rightarrow> nat \<Rightarrow> nat \<Rightarrow> bool" where
  "tower B H lv 0 j \<longleftrightarrow> level_ok B H (lv ! 0) j \<and> ns_fill_factor (lv ! 0) = intnode_b B \<and> ns_bbpoint (lv ! 0) = 1"
| "tower B H lv (Suc l) j \<longleftrightarrow> level_ok B (H - Suc l) (lv ! Suc l) j \<and> sizes_ok B (lv ! Suc l) \<and> tower B H lv l (ns_index (lv ! Suc l))"

text \<open>All the children a level receives, \<open>n0\<close> for the root.\<close>

fun expected :: "nat \<Rightarrow> NodeState list \<Rightarrow> nat \<Rightarrow> nat" where
  "expected n0 lv 0 = n0"
| "expected n0 lv (Suc l) = part_start (ns_fill_factor (lv ! Suc l)) (ns_bbpoint (lv ! Suc l)) (expected n0 lv l)"

fun levels_content :: "NodeState list \<Rightarrow> nat \<Rightarrow> (nat \<times> (int \<times> int) list) list" where
  "levels_content lv 0 = all_leaves (kids (lv ! 0))"
| "levels_content lv (Suc l) = levels_content lv l @ all_leaves (kids (lv ! Suc l))"

fun all_built :: "NodeState list \<Rightarrow> nat \<Rightarrow> nat" where
  "all_built lv 0 = built (lv ! 0)"
| "all_built lv (Suc l) = all_built lv l + built (lv ! Suc l)"

lemma levels_cong:
  assumes "\<And>k. k \<le> l \<Longrightarrow> lv' ! k = lv ! k"
  shows "tower B H lv' l j = tower B H lv l j" and "expected n0 lv' l = expected n0 lv l" and "levels_content lv' l = levels_content lv l" and "all_built lv' l = all_built lv l"
  using assms by (induction l arbitrary: j) auto

lemma total_cong:
  assumes "\<And>k. k \<le> l \<Longrightarrow> ns_fill_factor (lv' ! k) = ns_fill_factor (lv ! k) \<and> ns_bbpoint (lv' ! k) = ns_bbpoint (lv ! k)"
  shows "expected n0 lv' l = expected n0 lv l"
  using assms by (induction l) auto

lemma total_ge: "ab_bounds_ok B \<Longrightarrow> tower B H lv l j \<Longrightarrow> 2 \<le> n0 \<Longrightarrow> 2 \<le> expected n0 lv l"
proof (induction l arbitrary: j)
  case (Suc l)
  then have "2 \<le> expected n0 lv l" "2 \<le> ns_fill_factor (lv ! Suc l)" by (auto simp: sizes_ok_def ab_bounds_ok_def)
  then have "2 * 2 \<le> expected n0 lv l * ns_fill_factor (lv ! Suc l)" by (rule mult_le_mono)
  then show ?case by (simp add: part_start_def)
qed simp

text \<open>The test of the code that the current node is complete.\<close>

lemma level_full:
  "ns_index st < ns_bbpoint st \<and> length cs = ns_fill_factor st + 1 \<or> ns_bbpoint st \<le> ns_index st \<and> length cs = ns_fill_factor st
    \<longleftrightarrow> length cs = part_size (ns_fill_factor st) (ns_bbpoint st) (ns_index st)"
  by (auto simp: part_size_def)

lemma level_okE:
  assumes "level_ok B h st j" and "0 < j"
  obtains cs where "ns_node st = Some (seps cs, cs)" and "cs \<noteq> []" and "ns_first_key st = min_key (hd cs)" and "\<forall>c\<in>set cs. shape B h c \<and> within_bounds B h c"
    and "j = part_start (ns_fill_factor st) (ns_bbpoint st) (ns_index st) + length cs" and "length cs \<le> part_size (ns_fill_factor st) (ns_bbpoint st) (ns_index st)"
  using assms by (auto simp: level_ok_def)

text \<open>A new node with its first child, and one more child.\<close>

lemma level_ok_new:
  assumes "shape B h child" and "within_bounds B h child" and "0 < part_size (ns_fill_factor st) (ns_bbpoint st) i"
  shows "level_ok B h (st\<lparr>ns_index := i, ns_node := Some ([], [child]), ns_first_key := min_key child\<rparr>) (part_start (ns_fill_factor st) (ns_bbpoint st) i + 1)"
  using assms by (auto simp: level_ok_def intro!: exI[of _ "[child]"])

lemma level_ok_first:
  assumes "shape B h child" and "within_bounds B h child" and "0 < part_size (ns_fill_factor st) (ns_bbpoint st) 0" and "ns_index st = 0"
  shows "level_ok B h (st\<lparr>ns_node := Some ([], [child]), ns_first_key := min_key child\<rparr>) 1"
  using assms by (auto simp: level_ok_def intro!: exI[of _ "[child]"])

lemma level_ok_add:
  assumes st: "ns_node st = Some (seps cs, cs)" "cs \<noteq> []" "ns_first_key st = min_key (hd cs)" "\<forall>c\<in>set cs. shape B h c \<and> within_bounds B h c"
    and child: "shape B h child" "within_bounds B h child" and fit: "length cs < part_size (ns_fill_factor st) (ns_bbpoint st) (ns_index st)"
  shows "level_ok B h (st\<lparr>ns_node := Some (seps cs @ [min_key child], cs @ [child])\<rparr>) (part_start (ns_fill_factor st) (ns_bbpoint st) (ns_index st) + length cs + 1)"
  using assms by (auto simp: level_ok_def seps_append intro!: exI[of _ "cs @ [child]"])

text \<open>A complete node.\<close>

lemma node_complete:
  assumes B: "ab_bounds_ok B" and cs: "cs \<noteq> []" "\<forall>c\<in>set cs. shape B h c \<and> within_bounds B h c" and len: "intnode_a B \<le> length cs" "length cs \<le> intnode_b B"
  shows "shape B (Suc h) (InternalNode (seps cs) cs)" and "within_bounds B (Suc h) (InternalNode (seps cs) cs)" and "min_key (InternalNode (seps cs) cs) = min_key (hd cs)"
proof -
  show s: "shape B (Suc h) (InternalNode (seps cs) cs)" using cs by simp
  show "within_bounds B (Suc h) (InternalNode (seps cs) cs)" using len by (simp add: within_bounds_def get_lowerbound_def get_upperbound_def)
  show "min_key (InternalNode (seps cs) cs) = min_key (hd cs)" by (rule min_key_internal[OF B s])
qed

lemma propagate_ok:
  assumes B: "ab_bounds_ok B" and n0: "n0 \<le> intnode_b B"
  shows "tower B H lv l j \<Longrightarrow> l < length lv \<Longrightarrow> l \<le> H \<Longrightarrow> j + 1 < expected n0 lv l \<Longrightarrow> shape B (H - l) child \<Longrightarrow> within_bounds B (H - l) child
    \<Longrightarrow> \<exists>lv' d. propagate B l child (min_key child) False (lv, m) = Some (lv', m\<lparr>num_nodes_allocated := num_nodes_allocated m + d\<rparr>)
      \<and> length lv' = length lv \<and> (\<forall>k>l. lv' ! k = lv ! k) \<and> (\<forall>k. ns_fill_factor (lv' ! k) = ns_fill_factor (lv ! k) \<and> ns_bbpoint (lv' ! k) = ns_bbpoint (lv ! k))
      \<and> tower B H lv' l (j + 1) \<and> levels_content lv' l = levels_content lv l @ leaves child \<and> all_built lv l + inner_nodes child + d = all_built lv' l"
proof (induction l arbitrary: lv j child m)
  case 0
  let ?st = "lv ! 0"
  have st: "level_ok B H ?st j" "ns_fill_factor ?st = intnode_b B" "ns_bbpoint ?st = 1" and j: "j + 1 < intnode_b B" using 0 n0 by simp_all
  show ?case
  proof (cases "j = 0")
    case True
    then have n: "ns_node ?st = None" "ns_index ?st = 0" using st(1) by (simp_all add: level_ok_def)
    have l: "level_ok B H (?st\<lparr>ns_node := Some ([], [child]), ns_first_key := min_key child\<rparr>) 1"
      using level_ok_first[of B H child ?st] 0 n st(2,3) by (simp add: part_size_def)
    show ?thesis
      by (rule exI[of _ "lv[0 := ?st\<lparr>ns_node := Some ([], [child]), ns_first_key := min_key child\<rparr>]"], rule exI[of _ 1])
        (use n l st True 0(2) in \<open>auto simp: create_internal_node_def kids_def built_def nth_list_update\<close>)
  next
    case False
    then obtain cs where cs: "ns_node ?st = Some (seps cs, cs)" "cs \<noteq> []" "ns_first_key ?st = min_key (hd cs)" "\<forall>c\<in>set cs. shape B H c \<and> within_bounds B H c"
        "j = part_start (ns_fill_factor ?st) (ns_bbpoint ?st) (ns_index ?st) + length cs" "length cs \<le> part_size (ns_fill_factor ?st) (ns_bbpoint ?st) (ns_index ?st)"
      using level_okE[OF st(1)] by blast
    have i0: "ns_index ?st = 0"
    proof (rule ccontr)
      assume "ns_index ?st \<noteq> 0"
      then have "part_start (intnode_b B) 1 1 \<le> part_start (ns_fill_factor ?st) (ns_bbpoint ?st) (ns_index ?st)"
        unfolding st(2,3) by (intro part_start_mono) simp
      then show False using cs(5) j by (simp add: part_start_def)
    qed
    have len: "length cs = j" using cs(5) i0 by simp
    have l: "level_ok B H (?st\<lparr>ns_node := Some (seps cs @ [min_key child], cs @ [child])\<rparr>) (j + 1)"
      using level_ok_add[OF cs(1-4), of child] 0(5,6) i0 len j st(2,3) by (simp add: part_size_def)
    show ?thesis
      by (rule exI[of _ "lv[0 := ?st\<lparr>ns_node := Some (seps cs @ [min_key child], cs @ [child])\<rparr>]"], rule exI[of _ 0])
        (use cs(1,2) l st i0 len j 0(2) in \<open>auto simp: kids_def built_def nth_list_update\<close>)
  qed
next
  case (Suc l)
  let ?st = "lv ! Suc l" and ?h = "H - Suc l"
  have st: "level_ok B ?h ?st j" "sizes_ok B ?st" and tw: "tower B H lv l (ns_index ?st)" using Suc.prems(1) by simp_all
  have pos: "1 < part_size (ns_fill_factor ?st) (ns_bbpoint ?st) i" for i using st(2) B by (auto simp: sizes_ok_def part_size_def ab_bounds_ok_def)
  have Hl: "Suc ?h = H - l" using Suc.prems(3) by simp
  have ch: "shape B ?h child" "within_bounds B ?h child" using Suc.prems(5,6) .
  show ?case
  proof (cases "j = 0")
    case True
    then have n: "ns_node ?st = None" "ns_index ?st = 0" using st(1) by (simp_all add: level_ok_def)
    let ?new = "?st\<lparr>ns_node := Some ([], [child]), ns_first_key := min_key child\<rparr>"
    have l: "level_ok B ?h ?new 1"
      using level_ok_first[OF ch, of ?st] pos[of 0] n by simp
    have c: "lv[Suc l := ?new] ! k = lv ! k" if "k \<le> l" for k using that by simp
    show ?thesis
      by (rule exI[of _ "lv[Suc l := ?new]"], rule exI[of _ 1])
        (use n l st tw True Suc.prems(2) in \<open>auto simp: levels_cong[OF c] create_internal_node_def kids_def built_def sizes_ok_def nth_list_update\<close>)
  next
    case False
    then obtain cs where cs: "ns_node ?st = Some (seps cs, cs)" "cs \<noteq> []" "ns_first_key ?st = min_key (hd cs)" "\<forall>c\<in>set cs. shape B ?h c \<and> within_bounds B ?h c"
        "j = part_start (ns_fill_factor ?st) (ns_bbpoint ?st) (ns_index ?st) + length cs" "length cs \<le> part_size (ns_fill_factor ?st) (ns_bbpoint ?st) (ns_index ?st)"
      using level_okE[OF st(1)] by blast
    show ?thesis
    proof (cases "length cs = part_size (ns_fill_factor ?st) (ns_bbpoint ?st) (ns_index ?st)")
      case full: True
      have "intnode_a B \<le> length cs" "length cs \<le> intnode_b B" using full st(2) by (auto simp: sizes_ok_def part_size_def)
      note node = node_complete[OF B cs(2,4) this]
      have js: "j = part_start (ns_fill_factor ?st) (ns_bbpoint ?st) (Suc (ns_index ?st))" using cs(5) full by (simp add: part_start_Suc)
      have idx: "ns_index ?st + 1 < expected n0 lv l"
        by (rule part_start_less[of "ns_fill_factor ?st" "ns_bbpoint ?st"]) (use Suc.prems(4) js in simp)
      have hl: "l < length lv" "l \<le> H" using Suc.prems(2,3) by simp_all
      have k: "ns_first_key ?st = min_key (InternalNode (seps cs) cs)" using cs(3) node(3) by (rule trans[OF _ sym])
      from Suc.IH[OF tw hl idx node(1,2)[unfolded Hl], where m = m] obtain lv1 d where
          r: "propagate B l (InternalNode (seps cs) cs) (ns_first_key ?st) False (lv, m) = Some (lv1, m\<lparr>num_nodes_allocated := num_nodes_allocated m + d\<rparr>)"
          "length lv1 = length lv" "\<forall>k>l. lv1 ! k = lv ! k" "\<forall>k. ns_fill_factor (lv1 ! k) = ns_fill_factor (lv ! k) \<and> ns_bbpoint (lv1 ! k) = ns_bbpoint (lv ! k)"
          "tower B H lv1 l (ns_index ?st + 1)" "levels_content lv1 l = levels_content lv l @ all_leaves cs" "all_built lv l + Suc (all_inner cs) + d = all_built lv1 l"
        unfolding k leaves_internal node_memory(2) by blast
      let ?new = "?st\<lparr>ns_index := Suc (ns_index ?st), ns_node := Some ([], [child]), ns_first_key := min_key child\<rparr>"
      have l: "level_ok B ?h ?new (j + 1)" using level_ok_new[OF ch, of ?st "Suc (ns_index ?st)"] pos[of "Suc (ns_index ?st)"] js by simp
      have c: "lv1[Suc l := ?new] ! k = lv1 ! k" if "k \<le> l" for k using that by simp
      have same: "lv1 ! Suc l = ?st" using r(3) by simp
      have run: "propagate B (Suc l) child (min_key child) False (lv, m)
          = Some (lv1[Suc l := ?new], m\<lparr>num_nodes_allocated := num_nodes_allocated m + (d + 1)\<rparr>)"
        unfolding propagate.simps[of B "Suc l"] Let_def cs(1) option.case prod.case level_full if_P[OF full] using r(1) same
        by (simp add: create_internal_node_def)
      show ?thesis
        by (rule exI[of _ "lv1[Suc l := ?new]"], rule exI[of _ "d + 1"])
          (use run l st(2) r same cs(1) Suc.prems(2) in \<open>auto simp: levels_cong[OF c] kids_def built_def sizes_ok_def nth_list_update simp del: propagate.simps\<close>)
    next
      case fit: False
      then have lt: "length cs < part_size (ns_fill_factor ?st) (ns_bbpoint ?st) (ns_index ?st)" using cs(6) by simp
      then have "length cs < intnode_b B" using st(2) by (metis order_less_le_trans sizes_ok_def)
      let ?new = "?st\<lparr>ns_node := Some (seps cs @ [min_key child], cs @ [child])\<rparr>"
      have l: "level_ok B ?h ?new (j + 1)" using level_ok_add[OF cs(1-4) ch lt] cs(5) by simp
      have c: "lv[Suc l := ?new] ! k = lv ! k" if "k \<le> l" for k using that by simp
      have run: "propagate B (Suc l) child (min_key child) False (lv, m) = Some (lv[Suc l := ?new], m)"
        unfolding propagate.simps[of B "Suc l"] Let_def cs(1) option.case prod.case level_full if_not_P[OF fit] using \<open>length cs < intnode_b B\<close> cs(2)
        by simp
      show ?thesis
        by (rule exI[of _ "lv[Suc l := ?new]"], rule exI[of _ 0])
          (use run l st(2) tw cs(1) Suc.prems(2) in \<open>auto simp: levels_cong[OF c] kids_def built_def sizes_ok_def nth_list_update simp del: propagate.simps\<close>)
    qed
  qed
qed

text \<open>The last child completes its node, and the nodes of the levels above.\<close>

lemma propagate_last:
  assumes B: "ab_bounds_ok B" and n0: "2 \<le> n0" "n0 \<le> intnode_b B"
  shows "tower B H lv l j \<Longrightarrow> l < length lv \<Longrightarrow> l \<le> H \<Longrightarrow> j + 1 = expected n0 lv l \<Longrightarrow> shape B (H - l) child \<Longrightarrow> within_bounds B (H - l) child
    \<Longrightarrow> \<exists>lv' cs. propagate B l child (min_key child) True (lv, m) = Some (lv', m) \<and> ns_node (lv' ! 0) = Some (seps cs, cs) \<and> length cs = n0
      \<and> (\<forall>c\<in>set cs. shape B H c \<and> within_bounds B H c) \<and> all_leaves cs = levels_content lv l @ leaves child \<and> Suc (all_inner cs) = all_built lv l + inner_nodes child"
proof (induction l arbitrary: lv j child)
  case 0
  let ?st = "lv ! 0"
  have st: "level_ok B H ?st j" "ns_fill_factor ?st = intnode_b B" "ns_bbpoint ?st = 1" and j: "j + 1 = n0" "0 < j" using 0 n0 by simp_all
  obtain cs where cs: "ns_node ?st = Some (seps cs, cs)" "cs \<noteq> []" "\<forall>c\<in>set cs. shape B H c \<and> within_bounds B H c"
      "j = part_start (ns_fill_factor ?st) (ns_bbpoint ?st) (ns_index ?st) + length cs"
    using level_okE[OF st(1) j(2)] by metis
  have i0: "ns_index ?st = 0"
  proof (rule ccontr)
    assume "ns_index ?st \<noteq> 0"
    then have "part_start (intnode_b B) 1 1 \<le> part_start (ns_fill_factor ?st) (ns_bbpoint ?st) (ns_index ?st)"
      unfolding st(2,3) by (intro part_start_mono) simp
    then show False using cs(4) j n0 by (simp add: part_start_def)
  qed
  have len: "length cs = j" using cs(4) i0 by simp
  show ?case
    by (rule exI[of _ "lv[0 := ?st\<lparr>ns_node := Some (seps cs @ [min_key child], cs @ [child])\<rparr>]"], rule exI[of _ "cs @ [child]"])
      (use cs(1-3) st i0 len j 0(2,5,6) n0 in \<open>auto simp: kids_def built_def seps_append\<close>)
next
  case (Suc l)
  let ?st = "lv ! Suc l" and ?h = "H - Suc l" and ?n = "expected n0 lv l"
  have st: "level_ok B ?h ?st j" "sizes_ok B ?st" and tw: "tower B H lv l (ns_index ?st)" using Suc.prems(1) by simp_all
  have ff: "2 \<le> ns_fill_factor ?st" using st(2) B by (auto simp: sizes_ok_def ab_bounds_ok_def)
  let ?start = "part_start (ns_fill_factor ?st) (ns_bbpoint ?st)" and ?size = "part_size (ns_fill_factor ?st) (ns_bbpoint ?st)"
  have two: "2 \<le> ?size i" for i using ff by (simp add: part_size_def)
  have tot: "j + 1 = ?start ?n" using Suc.prems(4) by simp
  have "2 \<le> ?n" by (rule total_ge[OF B tw n0(1)])
  then have "?start 2 \<le> ?start ?n" by (rule part_start_mono)
  moreover have "2 \<le> ?start 2" using ff by (simp add: part_start_def)
  ultimately have j0: "0 < j" using tot by simp
  obtain cs where cs: "ns_node ?st = Some (seps cs, cs)" "cs \<noteq> []" "ns_first_key ?st = min_key (hd cs)" "\<forall>c\<in>set cs. shape B ?h c \<and> within_bounds B ?h c"
      "j = ?start (ns_index ?st) + length cs" "length cs \<le> ?size (ns_index ?st)"
    using level_okE[OF st(1) j0] by blast
  note next_start = part_start_Suc[of "ns_fill_factor ?st" "ns_bbpoint ?st"]
  have before: "?start i < ?start ?n \<Longrightarrow> i < ?n" for i by (rule part_start_less)
  have after: "Suc i < ?n \<Longrightarrow> ?start (Suc i) + 2 \<le> ?start ?n" for i
    using part_start_mono[of "Suc (Suc i)" ?n "ns_fill_factor ?st" "ns_bbpoint ?st"] next_start[of "Suc i"] two[of "Suc i"] by linarith
  have fit: "length cs \<noteq> ?size (ns_index ?st)"
  proof
    assume "length cs = ?size (ns_index ?st)"
    then have js: "j = ?start (Suc (ns_index ?st))" using cs(5) next_start[of "ns_index ?st"] by linarith
    then have "Suc (ns_index ?st) < ?n" using tot before[of "Suc (ns_index ?st)"] by linarith
    then show False using after[of "ns_index ?st"] js tot by linarith
  qed
  let ?cs = "cs @ [child]"
  have le: "length ?cs \<le> ?size (ns_index ?st)" using fit cs(6) by simp
  have "ns_index ?st < ?n" using tot cs(5) before[of "ns_index ?st"] by linarith
  moreover have "?n \<le> Suc (ns_index ?st)"
  proof (rule ccontr)
    assume "\<not> ?thesis"
    then have "?start (Suc (ns_index ?st)) + 2 \<le> ?start ?n" by (intro after) simp
    moreover have "length ?cs = length cs + 1" by simp
    ultimately show False using le cs(5) tot next_start[of "ns_index ?st"] by linarith
  qed
  ultimately have idx: "ns_index ?st + 1 = ?n" by simp
  have "?n = Suc (ns_index ?st)" using idx by simp
  then have "j + 1 = ?start (Suc (ns_index ?st))" using tot by simp
  moreover have "length ?cs = length cs + 1" by simp
  ultimately have full: "length ?cs = ?size (ns_index ?st)" using cs(5) next_start[of "ns_index ?st"] by linarith
  have len: "intnode_a B \<le> length ?cs" "length ?cs \<le> intnode_b B" using full st(2) by (auto simp: sizes_ok_def part_size_def)
  have nc: "?cs \<noteq> []" "\<forall>c\<in>set ?cs. shape B ?h c \<and> within_bounds B ?h c" using cs(4) Suc.prems(5,6) by auto
  note node = node_complete[OF B nc len]
  have Hl: "Suc ?h = H - l" using Suc.prems(3) by simp
  have hl: "l < length lv" "l \<le> H" using Suc.prems(2,3) by simp_all
  have ks: "seps ?cs = seps cs @ [min_key child]" using cs(2) by (simp add: seps_append)
  have k: "ns_first_key ?st = min_key (InternalNode (seps ?cs) ?cs)" using cs(2,3) node(3) by simp
  define lv1 where lv1: "lv1 = lv[Suc l := ?st\<lparr>ns_node := Some (seps ?cs, ?cs)\<rparr>]"
  have c: "\<And>k. k \<le> l \<Longrightarrow> lv1 ! k = lv ! k" by (simp add: lv1)
  have tw1: "tower B H lv1 l (ns_index ?st)" and tot1: "ns_index ?st + 1 = expected n0 lv1 l"
    using tw idx by (simp_all add: levels_cong[OF c])
  have len1: "l < length lv1" using hl by (simp add: lv1)
  from Suc.IH[OF tw1 len1 hl(2) tot1 node(1,2)[unfolded Hl]] obtain lv' ds where
      r: "propagate B l (InternalNode (seps ?cs) ?cs) (ns_first_key ?st) True (lv1, m) = Some (lv', m)" "ns_node (lv' ! 0) = Some (seps ds, ds)" "length ds = n0"
      "\<forall>c\<in>set ds. shape B H c \<and> within_bounds B H c" "all_leaves ds = levels_content lv1 l @ all_leaves ?cs" "Suc (all_inner ds) = all_built lv1 l + Suc (all_inner ?cs)"
    unfolding k leaves_internal node_memory(2) by blast
  have lt: "length cs < intnode_b B" using len(2) by simp
  have run: "propagate B (Suc l) child (min_key child) True (lv, m) = Some (lv', m)"
    unfolding propagate.simps[of B "Suc l"] Let_def cs(1) option.case prod.case level_full if_not_P[OF fit] using lt cs(2) r(1)
    by (simp add: ks lv1 del: propagate.simps)
  show ?case
    by (rule exI[of _ lv'], rule exI[of _ ds]) (use run r cs(1) in \<open>simp add: levels_cong[OF c] kids_def built_def del: propagate.simps\<close>)
qed

section \<open>The fill factors\<close>

lemma fill_levels_ok:
  assumes B: "ab_bounds_ok B"
  shows "\<forall>st\<in>set lv. ns_node st = None \<and> ns_index st = 0 \<Longrightarrow> l < length lv \<Longrightarrow> intnode_b B ^ l < n \<Longrightarrow> n \<le> intnode_b B ^ Suc l
    \<Longrightarrow> \<exists>n0. 2 \<le> n0 \<and> n0 \<le> intnode_b B \<and> length (fill_levels B l n lv) = length lv \<and> (\<forall>k>l. fill_levels B l n lv ! k = lv ! k)
      \<and> tower B H (fill_levels B l n lv) l 0 \<and> expected n0 (fill_levels B l n lv) l = n \<and> levels_content (fill_levels B l n lv) l = [] \<and> all_built (fill_levels B l n lv) l = 0"
proof (induction l arbitrary: n lv)
  case 0
  then show ?case by (intro exI[of _ n]) (auto simp: level_ok_def kids_def built_def)
next
  case (Suc l)
  let ?b = "intnode_b B"
  have b: "0 < ?b" "2 * intnode_a B \<le> ?b" "1 < ?b" using B by (auto simp: ab_bounds_ok_def)
  define k where k: "k = div_up n ?b"
  have n: "0 < n" using Suc.prems(3) by simp
  have k1: "?b ^ l < k"
  proof (rule ccontr)
    assume "\<not> ?thesis"
    then have "k * ?b \<le> ?b ^ l * ?b" by (intro mult_le_mono1) simp
    moreover have "n \<le> k * ?b" unfolding k by (rule div_up_mult_ge[OF n b(1)])
    moreover have "?b ^ l * ?b < n" using Suc.prems(3) by (simp add: mult.commute)
    ultimately show False by linarith
  qed
  have k2: "k \<le> ?b ^ Suc l" unfolding k using Suc.prems(4) by (intro div_up_least n b(1)) (simp add: mult.commute)
  have "1 \<le> ?b ^ l" using b(1) by simp
  then have two: "2 \<le> k" using k1 by linarith
  have "(k - 1) * ?b = k * ?b - ?b" by (simp add: diff_mult_distrib)
  then have "(k - 1) * ?b < n" using div_up_mult_less[OF n b(1)] n unfolding k[symmetric] by linarith
  note fair = fair_parts[OF two this _ b(2)]
  have le: "n \<le> k * ?b" unfolding k by (rule div_up_mult_ge[OF n b(1)])
  let ?st = "(lv ! Suc l)\<lparr>ns_fill_factor := n div k, ns_bbpoint := n mod k\<rparr>"
  let ?lv = "lv[Suc l := ?st]"
  have st: "ns_node ?st = None" "ns_index ?st = 0" using Suc.prems(1,2) nth_mem[OF Suc.prems(2)] by simp_all
  have e: "\<forall>st\<in>set ?lv. ns_node st = None \<and> ns_index st = 0" using Suc.prems(1) st set_update_subset_insert[of lv "Suc l" ?st] by blast
  have "l < length ?lv" using Suc.prems(2) by simp
  from Suc.IH[OF e this k1 k2] obtain n0 where f: "2 \<le> n0" "n0 \<le> ?b" "length (fill_levels B l k ?lv) = length ?lv" "\<forall>j>l. fill_levels B l k ?lv ! j = ?lv ! j"
      "tower B H (fill_levels B l k ?lv) l 0" "expected n0 (fill_levels B l k ?lv) l = k" "levels_content (fill_levels B l k ?lv) l = []" "all_built (fill_levels B l k ?lv) l = 0" by blast
  have r: "fill_levels B (Suc l) n lv = fill_levels B l k ?lv" by (simp add: k Let_def)
  have same: "fill_levels B l k ?lv ! Suc l = ?st" using f(4) Suc.prems(2) by simp
  have "sizes_ok B ?st" using fair(1,2)[OF le] by (simp add: sizes_ok_def)
  then show ?case unfolding r
    by (intro exI[of _ n0]) (use f st same fair(3)[OF le] in \<open>auto simp: level_ok_def kids_def built_def\<close>)
qed

section \<open>The leaves\<close>

lemma mem_ok_built: "mem_ok (m\<lparr>num_nodes_allocated := num_nodes_allocated m + d\<rparr>) ls (k + d) = mem_ok m ls k"
  using linked_cong[of ls "m\<lparr>num_nodes_allocated := num_nodes_allocated m + d\<rparr>" m None None] by (simp add: mem_ok_def)

lemma mem_ok_next_leaf:
  assumes ok: "mem_ok m (ls @ [l]) k" and new: "create_leaf m = (l2, m2)"
  shows "mem_ok (link_next l l2 m2) (ls @ [l, l2]) k"
proof -
  note c = create_leaf_fresh[OF new]
  have nx: "m_next m2 l2 = None" using new by (auto simp: create_leaf_def Let_def)
  have o: "distinct (ls @ [l])" "\<forall>x\<in>set (ls @ [l]). x < m_fresh m" "linked m None (ls @ [l]) None" "num_leaves_allocated m = length ls + 1" "num_nodes_allocated m = k"
    using ok by (simp_all add: mem_ok_def)
  have out: "l2 \<notin> set (ls @ [l])" using o(2) c(1) by auto
  have "linked (link_next l l2 m2) None ls (Some l)"
  proof -
    have "linked m None ls (Some l)" using o(3) by (simp add: linked_append)
    moreover have "m_previous (link_next l l2 m2) x = m_previous m x \<and> m_next (link_next l l2 m2) x = m_next m x" if "x \<in> set ls" for x
      using that out o(1) c(5)[of x] by (auto simp: link_next_def)
    ultimately show ?thesis using linked_cong[of ls "link_next l l2 m2" m] by blast
  qed
  moreover have "m_previous m2 l = (if ls = [] then None else Some (last ls))" using o(3) out c(5)[of l] by (auto simp: linked_append)
  ultimately have "linked (link_next l l2 m2) None (ls @ [l, l2]) None" using out nx by (auto simp: linked_append link_next_def)
  then show ?thesis using o out c by (auto simp: mem_ok_def link_next_def less_Suc_eq)
qed

text \<open>The end of a leaf is where its part of the elements ends.\<close>

lemma leaf_full:
  assumes ff: "0 < ff" and es: "length es \<le> part_size ff bb c" and i: "i = part_start ff bb c + length es"
  shows "(i < bb * (ff + 1) \<and> ff < length es \<or> bb * (ff + 1) \<le> i \<and> ff \<le> length es) \<longleftrightarrow> length es = part_size ff bb c"
    and "length es = part_size ff bb c \<Longrightarrow> (if i \<le> bb * (ff + 1) then ff + 1 else ff) = length es"
proof -
  have a: "c < bb \<Longrightarrow> part_start ff bb c = c * (ff + 1)" and b: "bb \<le> c \<Longrightarrow> part_start ff bb c = c * ff + bb" by (simp_all add: part_start_def)
  have lt: "c < bb \<Longrightarrow> c * (ff + 1) + (ff + 1) \<le> bb * (ff + 1)" by (metis Suc_eq_plus1 Suc_leI add.commute mult_Suc mult_le_mono1)
  have ge: "bb \<le> c \<Longrightarrow> bb * (ff + 1) \<le> c * ff + bb" using mult_le_mono1[of bb c ff] by simp
  show "(i < bb * (ff + 1) \<and> ff < length es \<or> bb * (ff + 1) \<le> i \<and> ff \<le> length es) \<longleftrightarrow> length es = part_size ff bb c"
  proof (cases "c < bb")
    case True
    then have "length es \<le> ff + 1" "i = c * (ff + 1) + length es" "c * (ff + 1) + (ff + 1) \<le> bb * (ff + 1)" "part_size ff bb c = ff + 1"
      using es i a lt by (simp_all add: part_size_def)
    then show ?thesis by linarith
  next
    case False
    then have "length es \<le> ff" "bb * (ff + 1) \<le> c * ff + bb" "i = c * ff + bb + length es" "part_size ff bb c = ff"
      using es i b ge by (simp_all add: part_size_def)
    then show ?thesis by linarith
  qed
  show "(if i \<le> bb * (ff + 1) then ff + 1 else ff) = length es" if "length es = part_size ff bb c"
  proof (cases "c < bb")
    case True
    then have "length es = ff + 1" "i = c * (ff + 1) + length es" "c * (ff + 1) + (ff + 1) \<le> bb * (ff + 1)" using that i a lt by (simp_all add: part_size_def)
    then show ?thesis by simp
  next
    case False
    then have "length es = ff" "bb * (ff + 1) \<le> c * ff + bb" "i = c * ff + bb + length es" using that i b ge by (simp_all add: part_size_def)
    then have "\<not> i \<le> bb * (ff + 1)" using ff by linarith
    then show ?thesis using \<open>length es = ff\<close> by simp
  qed
qed

text \<open>The loop over the elements, from the leaf \<open>c\<close> on.\<close>

lemma load_leaves_ok:
  assumes B: "ab_bounds_ok B" and n0: "2 \<le> n0" "n0 \<le> intnode_b B" and sz: "leaf_a B \<le> ff" "\<And>i. part_size ff bb i \<le> leaf_b B" "part_size ff bb (k - 1) = ff"
  shows "i = part_start ff bb c + length es \<Longrightarrow> length es \<le> part_size ff bb c \<Longrightarrow> es \<noteq> [] \<or> xs \<noteq> [] \<Longrightarrow> i + length xs = part_start ff bb k \<Longrightarrow> c < k
    \<Longrightarrow> tower B H lv H c \<Longrightarrow> H < length lv \<Longrightarrow> expected n0 lv H = k
    \<Longrightarrow> mem_ok m (map fst (levels_content lv H) @ [l]) (all_built lv H)
    \<Longrightarrow> \<exists>lv' m' cs. load_leaves B H ff (bb * (ff + 1)) i xs l es (lv, m) = Some (lv', m') \<and> ns_node (lv' ! 0) = Some (seps cs, cs) \<and> length cs = n0
      \<and> (\<forall>c\<in>set cs. shape B H c \<and> within_bounds B H c) \<and> all_pairs cs = concat_leaves (levels_content lv H) @ es @ xs \<and> mem_ok m' (all_ids cs) (Suc (all_inner cs))"
proof (induction xs arbitrary: i c es lv m l)
  have ff: "2 \<le> ff" using sz(1) B by (simp add: ab_bounds_ok_def)
  have leaf: "shape B 0 (Leaf l es)" "within_bounds B 0 (Leaf l es)" "min_key (Leaf l es) = fst (hd es)" if "length es = part_size ff bb c" for l es c
    using that sz(1) sz(2)[of c] by (auto simp: within_bounds_def get_lowerbound_def get_upperbound_def part_size_def min_key_def)
  {
    case Nil
    have st: "part_start ff bb c + length es = part_start ff bb k" using Nil.prems by simp
    have ck: "c = k - 1"
    proof (rule ccontr)
      assume "c \<noteq> k - 1"
      then have "Suc (Suc c) \<le> k" using Nil.prems(5) by simp
      then have "part_start ff bb (Suc (Suc c)) \<le> part_start ff bb k" by (rule part_start_mono)
      then have "part_size ff bb (Suc c) = 0" using st Nil.prems(2) part_start_Suc[of ff bb c] part_start_Suc[of ff bb "Suc c"] by linarith
      then show False using ff by (simp add: part_size_def split: if_splits)
    qed
    then have "part_start ff bb (Suc c) = part_start ff bb k" using Nil.prems(5) by simp
    then have len: "length es = part_size ff bb c" using st part_start_Suc[of ff bb c] by linarith
    then have N: "length es = ff" using sz(3) ck by simp
    have ne: "es \<noteq> []" using Nil.prems(3) by simp
    note lf = leaf[OF len, of l]
    have hh: "shape B (H - H) (Leaf l es)" "within_bounds B (H - H) (Leaf l es)" using lf(1,2) by simp_all
    have e: "c + 1 = expected n0 lv H" using ck Nil.prems(5,8) by simp
    from propagate_last[OF B n0 Nil.prems(6,7) le_refl e hh, of m] obtain lv' cs where
        r: "propagate B H (Leaf l es) (fst (hd es)) True (lv, m) = Some (lv', m)" "ns_node (lv' ! 0) = Some (seps cs, cs)" "length cs = n0"
        "\<forall>c\<in>set cs. shape B H c \<and> within_bounds B H c" "all_leaves cs = levels_content lv H @ [(l, es)]" "Suc (all_inner cs) = all_built lv H"
      using lf(3) by auto
    have "all_ids cs = map fst (levels_content lv H) @ [l]" using r(5) ids_leaves[of "InternalNode [] cs"] by simp
    then have mm: "mem_ok m (all_ids cs) (Suc (all_inner cs))" using Nil.prems(9) r(6) by simp
    have run: "load_leaves B H ff (bb * (ff + 1)) i [] l es (lv, m) = Some (lv', m)"
      using r(1) ne N by (simp add: close_leaf_def del: propagate.simps)
    show ?case using run r(2-5) mm by (intro exI[of _ lv'] exI[of _ m] exI[of _ cs]) (simp add: all_pairs_leaves)
  next
    case (Cons x xs)
    note full = leaf_full[of ff es bb c i, OF _ Cons.prems(2,1)]
    have ff0: "0 < ff" using ff by simp
    show ?case
    proof (cases "length es = part_size ff bb c")
      case True
      note lf = leaf[OF True, of l]
      have hh: "shape B (H - H) (Leaf l es)" "within_bounds B (H - H) (Leaf l es)" using lf(1,2) by simp_all
      have ist: "i = part_start ff bb (Suc c)" using Cons.prems(1) True by (simp add: part_start_Suc)
      have ck: "Suc c < k" by (rule part_start_less[of ff bb]) (use ist Cons.prems(4) in simp)
      then have e: "c + 1 < expected n0 lv H" using Cons.prems(8) by simp
      from propagate_ok[OF B n0(2) Cons.prems(6,7) le_refl e hh, where m = m] obtain lv1 d where
          r: "propagate B H (Leaf l es) (fst (hd es)) False (lv, m) = Some (lv1, m\<lparr>num_nodes_allocated := num_nodes_allocated m + d\<rparr>)"
          "length lv1 = length lv" "\<forall>k. ns_fill_factor (lv1 ! k) = ns_fill_factor (lv ! k) \<and> ns_bbpoint (lv1 ! k) = ns_bbpoint (lv ! k)"
          "tower B H lv1 H (Suc c)" "levels_content lv1 H = levels_content lv H @ [(l, es)]" "all_built lv H + d = all_built lv1 H"
        using lf(3) by auto
      obtain l2 m2 where m2: "create_leaf (m\<lparr>num_nodes_allocated := num_nodes_allocated m + d\<rparr>) = (l2, m2)" by force
      have "mem_ok (m\<lparr>num_nodes_allocated := num_nodes_allocated m + d\<rparr>) (map fst (levels_content lv H) @ [l]) (all_built lv1 H)"
        using Cons.prems(9) mem_ok_built[of m d _ "all_built lv H"] r(6) by simp
      from mem_ok_next_leaf[OF this m2] have mm: "mem_ok (link_next l l2 m2) (map fst (levels_content lv1 H) @ [l2]) (all_built lv1 H)" using r(5) by simp
      have tot: "expected n0 lv1 H = k" using Cons.prems(8) total_cong[of H lv1 lv n0] r(3) by simp
      have ne: "es \<noteq> []" using True ff by (auto simp: part_size_def split: if_splits)
      have c: "close_leaf (if i \<le> bb * (ff + 1) then ff + 1 else ff) l es = Some (Leaf l es, fst (hd es))"
        unfolding full(2)[OF ff0 True] using ne by (simp add: close_leaf_def)
      have "1 \<le> part_size ff bb (Suc c)" "i + 1 + length xs = part_start ff bb k" "i + 1 = part_start ff bb (Suc c) + length [x]"
        using ff Cons.prems(4) ist by (simp_all add: part_size_def)
      with Cons.IH[of "i + 1" "Suc c" "[x]" lv1 "link_next l l2 m2" l2] ck r(2,4) tot mm Cons.prems(7) obtain lv' m' cs where
          z: "load_leaves B H ff (bb * (ff + 1)) (i + 1) xs l2 [x] (lv1, link_next l l2 m2) = Some (lv', m')" "ns_node (lv' ! 0) = Some (seps cs, cs)" "length cs = n0"
          "\<forall>c\<in>set cs. shape B H c \<and> within_bounds B H c" "all_pairs cs = concat_leaves (levels_content lv1 H) @ [x] @ xs" "mem_ok m' (all_ids cs) (Suc (all_inner cs))"
        by auto
      have "0 < leaf_b B" using B by (simp add: ab_bounds_ok_def)
      then have run: "load_leaves B H ff (bb * (ff + 1)) i (x # xs) l es (lv, m) = Some (lv', m')"
        unfolding load_leaves.simps if_P[OF iffD2[OF full(1)[OF ff0] True]] c using r(1) m2 z(1) by (simp del: propagate.simps)
      show ?thesis using run z(2-6) r(5) by (intro exI[of _ lv'] exI[of _ m'] exI[of _ cs]) simp
    next
      case False
      then have lt: "length es < part_size ff bb c" using Cons.prems(2) by simp
      then have lb: "length es < leaf_b B" using sz(2)[of c] by linarith
      have "i + 1 = part_start ff bb c + length (es @ [x])" "length (es @ [x]) \<le> part_size ff bb c" "i + 1 + length xs = part_start ff bb k"
        using Cons.prems(1,4) lt by simp_all
      with Cons.IH[of "i + 1" c "es @ [x]" lv m l] Cons.prems(5-9) obtain lv' m' cs where
          z: "load_leaves B H ff (bb * (ff + 1)) (i + 1) xs l (es @ [x]) (lv, m) = Some (lv', m')" "ns_node (lv' ! 0) = Some (seps cs, cs)" "length cs = n0"
          "\<forall>c\<in>set cs. shape B H c \<and> within_bounds B H c" "all_pairs cs = concat_leaves (levels_content lv H) @ (es @ [x]) @ xs" "mem_ok m' (all_ids cs) (Suc (all_inner cs))"
        by auto
      have nf: "\<not> (i < bb * (ff + 1) \<and> ff < length es \<or> bb * (ff + 1) \<le> i \<and> ff \<le> length es)" using full(1)[OF ff0] False by blast
      have run: "load_leaves B H ff (bb * (ff + 1)) i (x # xs) l es (lv, m) = Some (lv', m')"
        unfolding load_leaves.simps if_not_P[OF nf] using z(1) lb by simp
      show ?thesis using run z(2-6) by (intro exI[of _ lv'] exI[of _ m'] exI[of _ cs]) simp
    qed
  }
qed

section \<open>The load\<close>

lemma create_leaf_ok:
  assumes "mem_ok m [] k" and "create_leaf m = (l, m')"
  shows "mem_ok m' [l] k"
  using assms by (auto simp: mem_ok_def create_leaf_def Let_def)

lemma initialize_from_array_ok:
  assumes B: "ab_bounds_ok B" and lf: "\<forall>k>1. levels_for (intnode_b B) k = ceil_log (intnode_b B) k" and m: "mem_ok m [] 0"
    and es: "es = (if do_sort then srt elements else elements)"
  obtains r h m' where "initialize_from_array srt levels_for B elements do_sort m = Some (r, Suc h, m')" and "root_ok B h r" and "pairs r = es"
    and "mem_ok m' (leaf_ids r) (inner_nodes r)"
proof -
  obtain l m1 where m1: "create_leaf m = (l, m1)" by force
  have ok1: "mem_ok m1 [l] 0" by (rule create_leaf_ok[OF m m1])
  have b: "1 < leaf_b B" "2 * leaf_a B \<le> leaf_b B" "1 < intnode_b B" using B by (auto simp: ab_bounds_ok_def)
  show ?thesis
  proof (cases "length es \<le> leaf_b B")
    case True
    have "root_ok B 0 (Leaf l es)" using True by (simp add: root_ok_def get_upperbound_def)
    moreover have "initialize_from_array srt levels_for B elements do_sort m = Some (Leaf l es, Suc 0, m1)"
      using True m1 unfolding initialize_from_array_def es[symmetric] by (simp add: Let_def)
    ultimately show ?thesis using that[of "Leaf l es" 0 m1] ok1 by simp
  next
    case False
    define k where k: "k = div_up (length es) (leaf_b B)"
    let ?n = "length es"
    have n: "0 < ?n" "0 < leaf_b B" using False b(1) by linarith+
    have le: "?n \<le> k * leaf_b B" unfolding k by (rule div_up_mult_ge[OF n])
    have two: "2 \<le> k"
    proof (rule ccontr)
      assume "\<not> ?thesis"
      then have "k * leaf_b B \<le> 1 * leaf_b B" by (intro mult_le_mono1) simp
      then show False using le False by linarith
    qed
    have "(k - 1) * leaf_b B = k * leaf_b B - leaf_b B" by (simp add: diff_mult_distrib)
    then have "(k - 1) * leaf_b B < ?n" using div_up_mult_less[OF n] n(1) unfolding k[symmetric] by linarith
    note fair = fair_parts[OF two this le b(2)]
    define H where H: "H = ceil_log (intnode_b B) k - 1"
    have L: "ceil_log (intnode_b B) k = Suc H" "intnode_b B ^ H < k" "k \<le> intnode_b B ^ Suc H"
      using ceil_log_lower[OF b(3), of k] ceil_log_upper[OF b(3), of k] two by (auto simp: H)
    have rp: "\<forall>st\<in>set (replicate (Suc H) empty_state). ns_node st = None \<and> ns_index st = 0" "H < length (replicate (Suc H) empty_state)"
      by (auto simp: empty_state_def)
    define lv where lv: "lv = fill_levels B H k (replicate (Suc H) empty_state)"
    from fill_levels_ok[OF B rp L(2,3)] obtain n0 where f: "2 \<le> n0" "n0 \<le> intnode_b B" "length lv = Suc H"
        "tower B H lv H 0" "expected n0 lv H = k" "levels_content lv H = []" "all_built lv H = 0" unfolding lv by fastforce
    have pre: "0 = part_start (?n div k) (?n mod k) 0 + length ([] :: (int \<times> int) list)" "length ([] :: (int \<times> int) list) \<le> part_size (?n div k) (?n mod k) 0"
        "[] \<noteq> [] \<or> es \<noteq> []" "0 + ?n = part_start (?n div k) (?n mod k) k" "0 < k" "H < length lv" "mem_ok m1 (map fst (levels_content lv H) @ [l]) (all_built lv H)"
      using n fair(3) two f(3,6,7) ok1 by auto
    from load_leaves_ok[OF B f(1,2) fair(1,2,4) pre(1-5) f(4) pre(6) f(5) pre(7)] obtain lv' m' cs where
        z: "load_leaves B H (?n div k) (?n mod k * (?n div k + 1)) 0 es l [] (lv, m1) = Some (lv', m')" "ns_node (lv' ! 0) = Some (seps cs, cs)" "length cs = n0"
        "\<forall>c\<in>set cs. shape B H c \<and> within_bounds B H c" "all_pairs cs = es" "mem_ok m' (all_ids cs) (Suc (all_inner cs))"
      using f(6) by auto
    have ne: "cs \<noteq> []" using z(3) f(1) by auto
    have lk: "levels_for (intnode_b B) k = Suc H" using lf two L(1) by simp
    have run: "initialize_from_array srt levels_for B elements do_sort m = Some (InternalNode (seps cs) cs, Suc (Suc H), m')"
      unfolding initialize_from_array_def es[symmetric] m1 using False z(1,2) lk by (simp add: Let_def k[symmetric] lv[symmetric, simplified])
    show ?thesis by (rule that[OF run]) (use z ne f(1,2) in \<open>simp_all add: root_ok_def get_upperbound_def\<close>)
  qed
qed

lemma in_order_sorted: "in_order es \<longleftrightarrow> sorted (map fst es)"
  by (induction es rule: in_order.induct) auto

lemma new_abtree_from_ok:
  assumes B: "1 < iA" "2 * iA \<le> iB" "1 < lA" "2 * lA \<le> lB" and lf: "\<forall>k>1. levels_for iB k = ceil_log iB k"
    and srt: "mset (srt elements) = mset elements" "sorted (map fst (srt elements))"
  obtains t where "new_abtree_from srt levels_for iA iB lA lB elements = Some t" and "abtree_ok t" and "abtree_pairs t = srt elements"
proof -
  let ?B = "\<lparr>intnode_a = iA, intnode_b = iB, leaf_a = lA, leaf_b = lB\<rparr>"
  let ?m = "\<lparr>m_next = (\<lambda>_. None), m_previous = (\<lambda>_. None), m_fresh = 0, num_nodes_allocated = 0, num_leaves_allocated = 0\<rparr>"
  have ok: "ab_bounds_ok ?B" using B by (simp add: ab_bounds_ok_def)
  have v: "validate_bounds ?B" using B by (auto simp: validate_bounds_def)
  have m: "mem_ok ?m [] 0" by (simp add: mem_ok_def)
  have lf': "\<forall>k>1. levels_for (intnode_b ?B) k = ceil_log (intnode_b ?B) k" using lf by simp
  obtain r h m' where r: "initialize_from_array srt levels_for ?B elements True ?m = Some (r, Suc h, m')" "root_ok ?B h r" "pairs r = (if True then srt elements else elements)"
      "mem_ok m' (leaf_ids r) (inner_nodes r)"
    by (rule initialize_from_array_ok[where srt = srt and levels_for = levels_for and elements = elements and do_sort = True, OF ok lf' m refl])
  have len: "length (pairs r) = length elements" using r(3) srt(1) by (metis mset_eq_length)
  have "abtree_ok \<lparr>bounds = ?B, root = r, cardinality = int (length elements), height = Suc h, memory = m'\<rparr>"
    by (rule abtree_okI[OF ok r(2) _ r(4)]) (use r(3) srt(2) len in simp_all)
  moreover have "new_abtree_from srt levels_for iA iB lA lB elements = Some \<lparr>bounds = ?B, root = r, cardinality = int (length elements), height = Suc h, memory = m'\<rparr>"
    using v r(1) by (simp add: new_abtree_from_def)
  ultimately show ?thesis using that r(3) by (simp add: abtree_pairs_def)
qed

lemma abtree_load_ok:
  assumes ok: "abtree_ok t" and empty: "abtree_pairs t = []" and lf: "\<forall>k>1. levels_for (intnode_b (bounds t)) k = ceil_log (intnode_b (bounds t)) k"
    and srt: "mset (srt elements) = mset elements" "sorted (map fst (srt elements))"
  obtains t' where "abtree_load srt levels_for t elements = Some t'" and "abtree_ok t'" and "bounds t' = bounds t"
    and "abtree_pairs t' = (if sorted (map fst elements) then elements else srt elements)"
proof -
  let ?B = "bounds t" and ?es = "if \<not> in_order elements then srt elements else elements"
  have B: "ab_bounds_ok ?B" and r0: "root_ok ?B (height t - 1) (root t)" and h0: "1 \<le> height t" and c: "cardinality t = 0"
      and m: "mem_ok (memory t) (leaf_ids (root t)) (inner_nodes (root t))"
    using ok empty by (simp_all add: abtree_ok_def)
  have h: "height t = 1"
  proof (rule ccontr)
    assume "height t \<noteq> 1"
    then have "2 \<le> node_N (root t)" using r0 h0 by (auto simp: root_ok_def)
    then have "pairs (root t) \<noteq> []" using pairs_nonempty[OF B, of "height t - 1" "root t"] r0 by (auto simp: root_ok_def)
    then show False using empty by (simp add: abtree_pairs_def)
  qed
  then obtain l where root: "root t = Leaf l []" using r0 empty by (auto simp: root_ok_def abtree_pairs_def elim: shape_leafE)
  have "mem_ok (delete_leaf (memory t)) [] 0" using m root by (simp add: mem_ok_def delete_leaf_def)
  from initialize_from_array_ok[where srt = srt and levels_for = levels_for and elements = elements and do_sort = "\<not> in_order elements", OF B lf this refl]
  obtain r h' m' where r: "initialize_from_array srt levels_for ?B elements (\<not> in_order elements) (delete_leaf (memory t)) = Some (r, Suc h', m')"
      "root_ok ?B h' r" "pairs r = ?es" "mem_ok m' (leaf_ids r) (inner_nodes r)" by blast
  let ?t = "t\<lparr>root := r, cardinality := int (length elements), height := Suc h', memory := m'\<rparr>"
  have len: "length (pairs r) = length elements" using r(3) srt(1) by (metis mset_eq_length)
  have so: "sorted (map fst ?es)" using srt(2) by (simp add: in_order_sorted)
  have "abtree_ok ?t" using B r(2,4) so len unfolding abtree_ok_def abtree_pairs_def by (simp add: r(3))
  moreover have "abtree_load srt levels_for t elements = Some ?t" using c root h r(1) by (simp add: abtree_load_def)
  ultimately show ?thesis using that r(3) by (simp add: abtree_pairs_def in_order_sorted)
qed

end
