(* ===== verification/ABTree_Properties.thy ===== *)
theory ABTree_Properties
  imports ABTree_Load_Proofs
begin

text \<open>
  The properties of the (a,b)-tree, the interpretation of the interface of the experiments on it, and the checks of
  the code (\<open>validate\<close>, \<open>sanity_check\<close>), which the invariant implies.
\<close>

section \<open>The interface\<close>

interpretation abtree: pma_interface abtree_ok abtree_pairs abtree_insert "\<lambda>t k. the (abtree_find t k)" "\<lambda>t. nat (abtree_size t)" "\<lambda>k. True" "2 ^ 63"
proof
  fix t :: ABTree and k v :: int
  show "abtree_ok t \<Longrightarrow> sorted (map fst (abtree_pairs t))" by (rule abtree_sorted)
  show "abtree_ok t \<Longrightarrow> nat (abtree_size t) = length (abtree_pairs t)" by (simp add: abtree_size_def abtree_ok_def)
  show "\<exists>t'. abtree_insert t k v = Some t' \<and> abtree_ok t' \<and> mset (abtree_pairs t') = add_mset (k, v) (mset (abtree_pairs t))" if "abtree_ok t"
    by (rule abtree_insert_ok[OF that, of k v]) (use inserted_mset in blast)
  show "the (abtree_find t k) = (case map_of (abtree_pairs t) k of None \<Rightarrow> - 1 | Some v \<Rightarrow> v)"
    if ok: "abtree_ok t" and d: "distinct (map fst (abtree_pairs t))"
  proof (cases "k \<in> fst ` set (abtree_pairs t)")
    case True
    then obtain v where "abtree_find t k = Some v" "(k, v) \<in> set (abtree_pairs t)" using abtree_find_ok(1)[OF ok] by blast
    then show ?thesis using d by simp
  next
    case False
    then have "map_of (abtree_pairs t) k = None" by (simp add: map_of_eq_None_iff)
    then show ?thesis using abtree_find_ok(2)[OF ok False] by simp
  qed
qed

section \<open>The checks and the size\<close>

lemma validate_rec_ok:
  assumes B: "ab_bounds_ok B"
  shows "shape B h n \<Longrightarrow> within_bounds B h n \<Longrightarrow> validate_rec B False h n"
proof (induction h arbitrary: n)
  case 0
  then show ?case by (elim shape_leafE) (auto simp: within_bounds_def get_lowerbound_def get_upperbound_def)
next
  case (Suc h)
  from Suc.prems(1) obtain cs where "n = InternalNode (seps cs) cs" "\<forall>c\<in>set cs. shape B h c \<and> within_bounds B h c" by (rule shapeE)
  then show ?case using Suc by (auto simp: within_bounds_def get_lowerbound_def get_upperbound_def list_all_iff)
qed

lemma abtree_validate_ok:
  assumes ok: "abtree_ok t"
  shows "abtree_validate t"
proof -
  have B: "ab_bounds_ok (bounds t)" and r: "root_ok (bounds t) (height t - 1) (root t)" using ok by (simp_all add: abtree_ok_def)
  show ?thesis
  proof (cases "height t - 1")
    case 0
    then show ?thesis using r by (auto simp: abtree_validate_def root_ok_def get_upperbound_def elim: shape_leafE)
  next
    case (Suc h)
    have s: "shape (bounds t) (Suc h) (root t)" using r Suc by (simp add: root_ok_def)
    obtain cs where cs: "root t = InternalNode (seps cs) cs" "cs \<noteq> []" "\<forall>c\<in>set cs. shape (bounds t) h c \<and> within_bounds (bounds t) h c" by (rule shapeE[OF s])
    moreover have "length cs \<le> intnode_b (bounds t)" using r cs(1) unfolding Suc by (simp add: root_ok_def get_upperbound_def)
    ultimately show ?thesis using Suc validate_rec_ok[OF B] by (simp add: abtree_validate_def list_all_iff)
  qed
qed

lemma keys_from_sorted: "keys_from mn ks \<longleftrightarrow> sorted (mn # ks)"
  by (induction mn ks rule: keys_from.induct) fastforce+

lemma sanity_check_ok:
  assumes B: "ab_bounds_ok B"
  shows "shape B h n \<Longrightarrow> node_N n \<le> get_upperbound B h \<Longrightarrow> is_root \<or> get_lowerbound B h \<le> node_N n \<Longrightarrow> sorted (mn # map fst (pairs n))
    \<Longrightarrow> sanity_check B is_root h mn n"
proof (induction h arbitrary: n mn is_root)
  case 0
  then show ?case by (elim shape_leafE) (auto simp: get_lowerbound_def get_upperbound_def keys_from_sorted)
next
  case (Suc h)
  from Suc.prems(1) obtain cs where n: "n = InternalNode (seps cs) cs" by (rule shapeE)
  have cs: "shape B (Suc h) (InternalNode (seps cs) cs)" and so: "sorted (map fst (all_pairs cs))" and mn: "\<forall>e\<in>set (all_pairs cs). mn \<le> fst e"
    using Suc.prems n by auto
  note ch = shape_children[OF B cs]
  have child: "sanity_check B False h mi (cs ! i) \<and> (0 < i \<longrightarrow> mi \<le> seps cs ! (i - 1))" if i: "i < length cs" and mi: "mi = (if i \<le> 1 then mn else seps cs ! (i - 2))" for i mi
  proof -
    have le: "mi \<le> fst e" if e: "e \<in> set (pairs (cs ! i))" for e
    proof (cases "i \<le> 1")
      case True
      then show ?thesis using mn e split_at_child(2)[OF i] mi by auto
    next
      case False
      then obtain k where k: "i = Suc (Suc k)" by (cases i; cases "i - 1") auto
      have mk: "mi = min_key (cs ! (i - 1))" using mi False k i nth_seps[of k cs] by simp
      have "cs ! (i - 1) \<in> set (take i cs)" using i False by (auto simp: in_set_conv_nth intro!: exI[of _ "i - 1"])
      moreover have "pairs (cs ! (i - 1)) \<noteq> []" using ch(2) i by simp
      ultimately have "hd (pairs (cs ! (i - 1))) \<in> set (all_pairs (take i cs))" by (auto simp: all_pairs_def intro!: bexI[of _ "cs ! (i - 1)"])
      moreover have "sorted (map fst (all_pairs (take i cs) @ (pairs (cs ! i) @ all_pairs (drop (i + 1) cs))))" using so split_at_child(2)[OF i] by simp
      moreover have "e \<in> set (pairs (cs ! i) @ all_pairs (drop (i + 1) cs))" using e by simp
      ultimately show ?thesis using sorted_appendD(3) mk unfolding min_key_def by blast
    qed
    have w: "shape B h (cs ! i)" "within_bounds B h (cs ! i)" using ch(3)[OF i] by simp_all
    have "sorted (mi # map fst (pairs (cs ! i)))" using sorted_child[OF so i] le by auto
    then have "sanity_check B False h mi (cs ! i)" using Suc.IH[OF w(1)] w(2) by (simp add: within_bounds_def)
    moreover have "mi \<le> seps cs ! (i - 1)" if "0 < i"
    proof -
      have "hd (pairs (cs ! i)) \<in> set (pairs (cs ! i))" using ch(2) i by simp
      then show ?thesis using le nth_seps[of "i - 1" cs] that i by (simp add: min_key_def)
    qed
    ultimately show ?thesis by blast
  qed
  have "list_all (\<lambda>i. let minimum = (if i \<le> 1 then mn else seps cs ! (i - 2))
      in sanity_check B False h minimum (cs ! i) \<and> (0 < i \<longrightarrow> minimum \<le> seps cs ! (i - 1))) [0..<length cs]"
    unfolding list_all_iff Let_def using child[OF _ refl] by simp
  then show ?case using Suc.prems(2,3) n by (auto simp: get_lowerbound_def get_upperbound_def Let_def)
qed

text \<open>The number of pairs of a node that is not the root grows with the height.\<close>

lemma pairs_ge:
  assumes B: "ab_bounds_ok B"
  shows "shape B h n \<Longrightarrow> within_bounds B h n \<Longrightarrow> leaf_a B * intnode_a B ^ h \<le> length (pairs n)"
proof (induction h arbitrary: n)
  case 0
  then show ?case by (elim shape_leafE) (simp add: within_bounds_def get_lowerbound_def)
next
  case (Suc h)
  from Suc.prems(1) obtain cs where n: "n = InternalNode (seps cs) cs" "\<forall>c\<in>set cs. shape B h c \<and> within_bounds B h c" by (rule shapeE)
  have "length ds * (leaf_a B * intnode_a B ^ h) \<le> length (all_pairs ds)" if "set ds \<subseteq> set cs" for ds
    using that n(2) Suc.IH by (induction ds) (auto intro!: add_mono)
  then have "length cs * (leaf_a B * intnode_a B ^ h) \<le> length (all_pairs cs)" by blast
  moreover have "intnode_a B * (leaf_a B * intnode_a B ^ h) \<le> length cs * (leaf_a B * intnode_a B ^ h)"
    using Suc.prems(2) n(1) by (intro mult_le_mono1) (simp add: within_bounds_def get_lowerbound_def)
  ultimately have "intnode_a B * (leaf_a B * intnode_a B ^ h) \<le> length (all_pairs cs)" by (rule order_trans[rotated])
  then show ?case using n(1) by (simp add: ac_simps)
qed

lemma abtree_size_ge:
  assumes ok: "abtree_ok t" and h: "1 < height t"
  shows "2 * leaf_a (bounds t) * intnode_a (bounds t) ^ (height t - 2) \<le> length (abtree_pairs t)"
proof -
  let ?B = "bounds t"
  have B: "ab_bounds_ok ?B" using ok by (simp add: abtree_ok_def)
  obtain h' where h': "height t - 1 = Suc h'" "height t - 2 = h'" using h by (cases "height t - 1") auto
  have "root_ok ?B (Suc h') (root t)" using ok h' by (simp add: abtree_ok_def)
  then have s: "shape ?B (Suc h') (root t)" "2 \<le> node_N (root t)" by (simp_all add: root_ok_def)
  obtain cs where cs: "root t = InternalNode (seps cs) cs" "\<forall>c\<in>set cs. shape ?B h' c \<and> within_bounds ?B h' c" by (rule shapeE[OF s(1)])
  obtain c d ds where c: "cs = c # d # ds" using s(2) cs(1) by (cases cs; cases "tl cs") auto
  have "leaf_a ?B * intnode_a ?B ^ h' \<le> length (pairs c)" "leaf_a ?B * intnode_a ?B ^ h' \<le> length (pairs d)" using pairs_ge[OF B] cs(2) c by simp_all
  then show ?thesis using cs(1) c h'(2) by (simp add: abtree_pairs_def)
qed

section \<open>Properties\<close>

text \<open>C13. An insertion into any tree that satisfies the invariant returns, puts the pair at a place in key order between
  the other pairs, and keeps the invariant: the bounds and separators of all nodes, the links of the leaves and the
  counters, through the splits of a leaf, of inner nodes and of the root.\<close>

theorem abtree_insert_correct:
  assumes "abtree_ok t"
  shows "\<exists>t'. abtree_insert t key val = Some t' \<and> abtree_ok t' \<and> bounds t' = bounds t \<and> inserted key val (abtree_pairs t) (abtree_pairs t')"
  by (rule abtree_insert_ok[OF assms, of key val]) blast

lemma five_pairs_tree:
  obtains t where "Option.bind (new_abtree 2 4 2 4) (\<lambda>t. do_inserts abtree_insert t [(4, 40), (1, 10), (3, 30), (2, 20), (5, 50)]) = Some t"
    and "abtree_ok t" and "abtree_pairs t = [(1, 10), (2, 20), (3, 30), (4, 40), (5, 50)]"
proof -
  obtain t0 where t0: "new_abtree 2 4 2 4 = Some t0" "abtree_ok t0" "abtree_pairs t0 = []" by (rule new_abtree_ok[of 2 4 2 4]) simp_all
  then show ?thesis using abtree.do_inserts_from_empty[of t0 "[(4, 40), (1, 10), (3, 30), (2, 20), (5, 50)]"] that by (auto simp: sort_key_def)
qed

theorem abtree_insert_correct_witness:
  "\<exists>t t'. Option.bind (new_abtree 2 4 2 4) (\<lambda>t. do_inserts abtree_insert t [(4, 40), (1, 10), (3, 30), (2, 20), (5, 50)]) = Some t
     \<and> abtree_insert t 3 33 = Some t' \<and> inserted 3 33 [(1, 10), (2, 20), (3, 30), (4, 40), (5, 50)] (abtree_pairs t')"
proof -
  obtain t where t: "Option.bind (new_abtree 2 4 2 4) (\<lambda>t. do_inserts abtree_insert t [(4, 40), (1, 10), (3, 30), (2, 20), (5, 50)]) = Some t"
      "abtree_ok t" "abtree_pairs t = [(1, 10), (2, 20), (3, 30), (4, 40), (5, 50)]" by (rule five_pairs_tree)
  then show ?thesis using abtree_insert_correct[OF t(2), of 3 33] by auto
qed

text \<open>C14. A removal from a tree whose values are not negative takes out exactly one pair with the key, whose value it
  returns, or returns -1 and changes nothing when there is none; it keeps the invariant through every rotation and
  merge, and the replacement of a root with one child.\<close>

theorem abtree_remove_correct:
  assumes "abtree_ok t" and "\<forall>e\<in>set (abtree_pairs t). 0 \<le> snd e"
  shows "\<exists>val t'. abtree_remove t key = Some (val, t') \<and> abtree_ok t' \<and> bounds t' = bounds t
    \<and> (if key \<in> fst ` set (abtree_pairs t) then pair_removed key val (abtree_pairs t) (abtree_pairs t') else val = - 1 \<and> t' = t)"
  by (rule abtree_remove_ok[OF assms, of key]) blast

theorem abtree_remove_correct_witness:
  "\<exists>t val t'. Option.bind (new_abtree 2 4 2 4) (\<lambda>t. do_inserts abtree_insert t [(4, 40), (1, 10), (3, 30), (2, 20), (5, 50)]) = Some t
     \<and> abtree_remove t 1 = Some (val, t') \<and> pair_removed 1 val [(1, 10), (2, 20), (3, 30), (4, 40), (5, 50)] (abtree_pairs t')"
proof -
  obtain t where t: "Option.bind (new_abtree 2 4 2 4) (\<lambda>t. do_inserts abtree_insert t [(4, 40), (1, 10), (3, 30), (2, 20), (5, 50)]) = Some t"
      "abtree_ok t" "abtree_pairs t = [(1, 10), (2, 20), (3, 30), (4, 40), (5, 50)]" by (rule five_pairs_tree)
  then show ?thesis using abtree_remove_correct[OF t(2), of 1] by auto
qed

text \<open>C16. The iterator of a range ends, and has then given exactly the pairs of the tree in the range, in key order,
  following the links of the leaves.\<close>

theorem abtree_range_complete:
  assumes "abtree_ok t"
  shows "\<exists>it. abtree_find_range t mn mx = Some it \<and> abit_drain t it = Some (in_range mn mx (abtree_pairs t))"
  by (rule abtree_find_range_ok[OF assms])

theorem abtree_range_complete_witness:
  "\<exists>t it. Option.bind (new_abtree 2 4 2 4) (\<lambda>t. do_inserts abtree_insert t [(4, 40), (1, 10), (3, 30), (2, 20), (5, 50)]) = Some t
     \<and> abtree_find_range t 2 4 = Some it \<and> abit_drain t it = Some [(2, 20), (3, 30), (4, 40)]"
proof -
  obtain t where t: "Option.bind (new_abtree 2 4 2 4) (\<lambda>t. do_inserts abtree_insert t [(4, 40), (1, 10), (3, 30), (2, 20), (5, 50)]) = Some t"
      "abtree_ok t" "abtree_pairs t = [(1, 10), (2, 20), (3, 30), (4, 40), (5, 50)]" by (rule five_pairs_tree)
  then show ?thesis using abtree_range_complete[OF t(2), of 2 4] by (auto simp: in_range_def)
qed

text \<open>C17. The sum of a range returns the aggregate of the pairs in the range, the sums added up in 64 bits, so exact when
  they fit; when there is none, its count and its sums are zero.\<close>

theorem abtree_sum_correct:
  assumes "abtree_ok t"
  shows "\<exists>r. abtree_sum t mn mx = Some r \<and> m_num_elements r = length (in_range mn mx (abtree_pairs t))
    \<and> m_sum_keys r = s64 (sum_list (map fst (in_range mn mx (abtree_pairs t)))) \<and> m_sum_values r = s64 (sum_list (map snd (in_range mn mx (abtree_pairs t))))
    \<and> (in_range mn mx (abtree_pairs t) \<noteq> [] \<longrightarrow> r = range_sum (in_range mn mx (abtree_pairs t)))"
  by (rule abtree_sum_ok[OF assms])

theorem abtree_sum_correct_witness:
  "\<exists>t. Option.bind (new_abtree 2 4 2 4) (\<lambda>t. do_inserts abtree_insert t [(4, 40), (1, 10), (3, 30), (2, 20), (5, 50)]) = Some t
     \<and> abtree_sum t 2 4 = Some \<lparr>m_first_key = 2, m_last_key = 4, m_num_elements = 3, m_sum_keys = 9, m_sum_values = 90\<rparr>"
proof -
  obtain t where t: "Option.bind (new_abtree 2 4 2 4) (\<lambda>t. do_inserts abtree_insert t [(4, 40), (1, 10), (3, 30), (2, 20), (5, 50)]) = Some t"
      "abtree_ok t" "abtree_pairs t = [(1, 10), (2, 20), (3, 30), (4, 40), (5, 50)]" by (rule five_pairs_tree)
  then show ?thesis using abtree_sum_correct[OF t(2), of 2 4] by (auto simp: in_range_def range_sum_def)
qed

text \<open>C18. The insertion loop of the experiments on a new tree stores any batch of distinct keys: the iterator of all keys
  lists the pairs in key order, a lookup returns the value of the key or -1, and the largest key is known.\<close>

theorem abtree_batch_insert:
  assumes "1 < iA" and "2 * iA \<le> iB" and "1 < lA" and "2 * lA \<le> lB" and "distinct (map fst ps)" and "length ps \<le> 2 ^ 63"
    and "\<forall>e\<in>set ps. mn \<le> fst e \<and> fst e \<le> mx"
  shows "\<exists>t t' it. new_abtree iA iB lA lB = Some t \<and> do_inserts abtree_insert t ps = Some t' \<and> abtree_size t' = int (length ps)
    \<and> abtree_find_range t' mn mx = Some it \<and> abit_drain t' it = Some (sort_key fst ps)
    \<and> (\<forall>k. abtree_find t' k = Some (case map_of ps k of None \<Rightarrow> - 1 | Some v \<Rightarrow> v))
    \<and> key_max t' = Some (if ps = [] then - 1 else fst (last (sort_key fst ps)))"
proof -
  obtain t where t: "new_abtree iA iB lA lB = Some t" "abtree_ok t" "abtree_pairs t = []" by (rule new_abtree_ok[OF assms(1-4)])
  obtain t' where t': "do_inserts abtree_insert t ps = Some t'" "abtree_ok t'" "abtree_pairs t' = sort_key fst ps" "nat (abtree_size t') = length ps"
      "\<forall>k. the (abtree_find t' k) = (case map_of ps k of None \<Rightarrow> - 1 | Some v \<Rightarrow> v)"
    using abtree.do_inserts_from_empty[OF t(2,3) assms(5) _ assms(6)] by auto
  have "in_range mn mx (abtree_pairs t') = sort_key fst ps" unfolding t'(3) in_range_def by (rule filter_True) (use assms(7) in fastforce)
  then obtain it where it: "abtree_find_range t' mn mx = Some it" "abit_drain t' it = Some (sort_key fst ps)" using abtree_find_range_ok[OF t'(2), of mn mx] by auto
  have "abtree_find t' k \<noteq> None" for k using abtree_find_ok[OF t'(2), of k] by (cases "k \<in> fst ` set (abtree_pairs t')") auto
  then have f: "\<forall>k. abtree_find t' k = Some (case map_of ps k of None \<Rightarrow> - 1 | Some v \<Rightarrow> v)" using t'(5) by (metis option.collapse)
  have "sort_key fst ps = [] \<longleftrightarrow> ps = []" by (metis length_0_conv length_sort)
  then have "key_max t' = Some (if ps = [] then - 1 else fst (last (sort_key fst ps)))" using key_max_ok[OF t'(2)] t'(3) by simp
  moreover have "abtree_size t' = int (length ps)" using t'(2,3) by (simp add: abtree_size_def abtree_ok_def)
  ultimately show ?thesis using t(1) t'(1) it f by blast
qed

theorem abtree_batch_insert_witness:
  "\<exists>t t' it. new_abtree 2 4 2 4 = Some t \<and> do_inserts abtree_insert t [(7, 70), (2, 20), (9, 90), (4, 40), (1, 10), (8, 80)] = Some t'
     \<and> abtree_find_range t' 0 10 = Some it \<and> abit_drain t' it = Some [(1, 10), (2, 20), (4, 40), (7, 70), (8, 80), (9, 90)] \<and> abtree_find t' 4 = Some 40"
  using abtree_batch_insert[of 2 4 2 4 "[(7, 70), (2, 20), (9, 90), (4, 40), (1, 10), (8, 80)]" 0 10] by (auto simp: sort_key_def)

text \<open>C15. The bulk load of an empty tree, with leaves and inner nodes of nearly equal sizes, satisfies the invariant and holds
  the pairs as given when they are sorted, and otherwise as \<open>std::sort\<close> leaves them, provided that the number of
  levels computed in floating point is the exact one.\<close>

theorem abtree_load_correct:
  assumes "abtree_ok t" and "abtree_pairs t = []" and "\<forall>k>1. levels_for (intnode_b (bounds t)) k = ceil_log (intnode_b (bounds t)) k"
    and "mset (srt elements) = mset elements" and "sorted (map fst (srt elements))"
  shows "\<exists>t'. abtree_load srt levels_for t elements = Some t' \<and> abtree_ok t' \<and> bounds t' = bounds t
    \<and> abtree_pairs t' = (if sorted (map fst elements) then elements else srt elements)"
  by (rule abtree_load_ok[where srt = srt and levels_for = levels_for and elements = elements, OF assms]) blast

theorem abtree_load_correct_witness:
  "\<exists>t t'. new_abtree 2 4 2 4 = Some t \<and> abtree_load (sort_key fst) ceil_log t [(7, 70), (2, 20), (9, 90), (4, 40), (1, 10), (8, 80)] = Some t'
     \<and> abtree_ok t' \<and> abtree_pairs t' = [(1, 10), (2, 20), (4, 40), (7, 70), (8, 80), (9, 90)]"
proof -
  obtain t where t: "new_abtree 2 4 2 4 = Some t" "abtree_ok t" "abtree_pairs t = []" by (rule new_abtree_ok[of 2 4 2 4]) simp_all
  then show ?thesis using abtree_load_correct[OF t(2,3), of ceil_log "sort_key fst" "[(7, 70), (2, 20), (9, 90), (4, 40), (1, 10), (8, 80)]"]
    by (auto simp: sort_key_def)
qed

text \<open>C33. The invariant implies the checks of the code on every node, the memory footprint counts exactly the nodes of the
  tree, and the height is logarithmic: the number of pairs grows with a power of the lower bound of the nodes.\<close>

theorem abtree_invariant_checks:
  assumes "abtree_ok t" and "\<forall>e\<in>set (abtree_pairs t). INT64_MIN \<le> fst e"
  shows "abtree_validate t \<and> abtree_sanity_check t
    \<and> abtree_memory_footprint False t = inner_nodes (root t) * (16 + 16 * intnode_b (bounds t)) + length (leaves (root t)) * (24 + 16 * leaf_b (bounds t))
    \<and> (1 < height t \<longrightarrow> 2 * leaf_a (bounds t) * intnode_a (bounds t) ^ (height t - 2) \<le> length (abtree_pairs t))"
proof -
  have B: "ab_bounds_ok (bounds t)" and r: "root_ok (bounds t) (height t - 1) (root t)" and m: "mem_ok (memory t) (leaf_ids (root t)) (inner_nodes (root t))"
    using assms(1) by (simp_all add: abtree_ok_def)
  have "abtree_sanity_check t" unfolding abtree_sanity_check_def
    by (rule sanity_check_ok[OF B]) (use r assms abtree_sorted[OF assms(1)] in \<open>simp_all add: root_ok_def abtree_pairs_def\<close>)
  moreover have "abtree_memory_footprint False t = inner_nodes (root t) * (16 + 16 * intnode_b (bounds t)) + length (leaves (root t)) * (24 + 16 * leaf_b (bounds t))"
    using m by (simp add: abtree_memory_footprint_def mem_ok_def ids_leaves Let_def)
  ultimately show ?thesis using abtree_validate_ok[OF assms(1)] abtree_size_ge[OF assms(1)] by blast
qed

theorem abtree_invariant_checks_witness:
  "\<exists>t. Option.bind (new_abtree 2 4 2 4) (\<lambda>t. do_inserts abtree_insert t [(4, 40), (1, 10), (3, 30), (2, 20), (5, 50)]) = Some t
     \<and> abtree_validate t \<and> abtree_sanity_check t"
proof -
  obtain t where t: "Option.bind (new_abtree 2 4 2 4) (\<lambda>t. do_inserts abtree_insert t [(4, 40), (1, 10), (3, 30), (2, 20), (5, 50)]) = Some t"
      "abtree_ok t" "abtree_pairs t = [(1, 10), (2, 20), (3, 30), (4, 40), (5, 50)]" by (rule five_pairs_tree)
  then show ?thesis using abtree_invariant_checks[OF t(2)] by (auto simp: INT64_MIN_def)
qed

lemma tight_leaf_full:
  assumes "leaf_b B < 2 * leaf_a B"
  shows "leaf_b B < length es + length ps \<Longrightarrow> length es \<le> leaf_b B
    \<Longrightarrow> do_inserts abtree_insert \<lparr>bounds = B, root = Leaf l es, cardinality = c, height = 1, memory = m\<rparr> ps = None"
proof (induction ps arbitrary: es c)
  case (Cons p ps)
  obtain k v where p: "p = (k, v)" by force
  show ?case
  proof (cases "length es = leaf_b B")
    case True
    obtain l2 m2 where m2: "create_leaf (create_internal_node m) = (l2, m2)" by force
    have "length es - (length es + 1) div 2 < leaf_a B" using True assms by linarith
    then have "abtree_insert \<lparr>bounds = B, root = Leaf l es, cardinality = c, height = 1, memory = m\<rparr> k v = None"
      using True m2 by (simp add: abtree_insert_def split_root_def Let_def)
    then show ?thesis using p by simp
  next
    case False
    then have "length es < leaf_b B" using Cons.prems(2) by simp
    moreover have "length (leaf_insert es k v) = length es + 1"
      using length_takeWhile_le[of "\<lambda>e. k < fst e" "rev es"] by (simp add: leaf_insert_def Let_def)
    ultimately show ?thesis using Cons.IH[of "leaf_insert es k v" "c + 1"] Cons.prems(1) p False by (simp add: abtree_insert_def)
  qed
qed simp

text \<open>C34. The constructor accepts an upper bound of the leaves of \<open>2 * lA - 1\<close>, with which the split of a full leaf violates
  its own assertion: no sequence of more than \<open>2 * lA - 1\<close> insertions returns.\<close>

theorem abtree_tight_bounds_fail:
  assumes "1 < iA" and "2 * iA \<le> iB" and "1 < lA" and "2 * lA \<le> length ps"
  shows "\<exists>t. new_abtree iA iB lA (2 * lA - 1) = Some t \<and> do_inserts abtree_insert t ps = None"
proof -
  obtain l m where c: "create_leaf \<lparr>m_next = (\<lambda>_. None), m_previous = (\<lambda>_. None), m_fresh = 0, num_nodes_allocated = 0, num_leaves_allocated = 0\<rparr> = (l, m)"
    by force
  let ?B = "\<lparr>intnode_a = iA, intnode_b = iB, leaf_a = lA, leaf_b = 2 * lA - 1\<rparr>"
  have "2 * iA - 1 \<le> iB" using assms(2) by simp
  then have "new_abtree iA iB lA (2 * lA - 1) = Some \<lparr>bounds = ?B, root = Leaf l [], cardinality = 0, height = 1, memory = m\<rparr>"
    using assms(1,3) c by (simp add: new_abtree_def validate_bounds_def)
  moreover have "do_inserts abtree_insert \<lparr>bounds = ?B, root = Leaf l [], cardinality = 0, height = 1, memory = m\<rparr> ps = None"
    by (rule tight_leaf_full) (use assms(3,4) in auto)
  ultimately show ?thesis by blast
qed

theorem abtree_tight_bounds_fail_witness:
  "\<exists>t. new_abtree 2 4 2 3 = Some t \<and> do_inserts abtree_insert t [(1, 10), (2, 20), (3, 30), (4, 40)] = None"
  using abtree_tight_bounds_fail[of 2 4 2 "[(1, 10), (2, 20), (3, 30), (4, 40)]"] by simp

section \<open>Two behaviours of the code\<close>

text \<open>The sum of a gap inside a leaf has no elements, but the first key after the range and the last one before it.\<close>

lemma abtree_sum_gap:
  "Option.bind (new_abtree 2 4 2 4) (\<lambda>t. Option.bind (do_inserts abtree_insert t [(1, 10), (9, 90)]) (\<lambda>t. abtree_sum t 4 6))
     = Some \<lparr>m_first_key = 9, m_last_key = 1, m_num_elements = 0, m_sum_keys = 0, m_sum_values = 0\<rparr>"
  by code_simp (subst sum_leaves.simps, code_simp)

text \<open>The removal of a pair with a negative value is not counted.\<close>

lemma abtree_remove_negative:
  "Option.bind (new_abtree 2 4 2 4) (\<lambda>t. Option.bind (do_inserts abtree_insert t [(1, -5)]) (\<lambda>t. map_option (\<lambda>(v, t). (v, abtree_size t, abtree_pairs t)) (abtree_remove t 1)))
     = Some (- 5, 1, [])"
  by code_simp

end
