(* ===== verification/Spec2Isabelle.thy ===== *)
theory Spec2Isabelle
  imports Prelude Doubles Montes Montes_Proofs Interface Montes_Wrapper Montes_Properties
    Raizes Raizes_Proofs Raizes_Properties
    Circular_Array Density_Bounds Static_Index Static_Index_Proofs Static_Index_Properties
    Rewired_Memory Rewired_Proofs Rewired_Properties Detector Detector_Properties
    Dense_Array Dense_Array_Properties Sequential Sequential_Proofs Sequential_Properties
    Random_Permutation Random_Permutation_Properties
    RMA_Storage RMA_Storage_Proofs Weights Weights_Proofs Adaptive Adaptive_Proofs Rewiring_Spread
    RMA RMA_Proofs RMA_Properties RMA_Spread_Proofs RMA_Rebalance_Proofs RMA_Rebalance_Properties
    RMA_Resize_Proofs RMA_Resize_Properties RMA_Scan RMA_Scan_Proofs RMA_Scan_Properties
    ABTree ABTree_Proofs ABTree_Update_Proofs ABTree_Change_Proofs ABTree_Tree_Proofs ABTree_Scan_Proofs
    ABTree_Load ABTree_Load_Proofs ABTree_Properties
begin

text \<open>
  A verification development for the repository \<open>rma\<close> (packed memory arrays with rewired memory): the
  packed memory arrays it compares and the parts they are built from.

  \<^bold>\<open>The program.\<close> A packed memory array keeps its elements in key order in an array with gaps, cut into
  segments; insertions and deletions shift elements inside of a segment, and when a segment overflows
  or a window becomes sparse, a window of segments around it is spread evenly (or adaptively) again, or
  the whole array is resized. \<open>src/pma/adaptive/int3\<close> is the array of the repository: its segments are
  found through a static index (\<open>src/pma/generic/static_index.cpp\<close>), its cells live in extents of rewired
  memory (\<open>src/rewired_memory.cpp\<close>, \<open>src/buffered_rewired_memory.cpp\<close>), the thresholds of its windows come
  from \<open>src/pma/density_bounds.cpp\<close>, and its adaptive rebalancing from a detector of hammered segments
  (\<open>src/pma/adaptive/int1/detector.cpp\<close>), weights and a recursive split. \<open>src/pma/external\<close> has arrays by
  other authors, in C, behind the wrappers of \<open>src/pma/external.cpp\<close>; all of them implement the interface
  \<open>src/pma/interface.hpp\<close>, which the experiments drive.

  \<^bold>\<open>Conventions.\<close> A machine integer is an \<open>int\<close> or \<open>nat\<close>, with the wrap-around written out where it can
  happen: the 32-bit numbers of elements and segments (\<open>u32\<close>), the 64-bit sums of the scans (\<open>s64\<close>, where the
  overflow of a signed integer is the two's complement one of the compiled code), the fields of the detector (\<open>s16\<close>),
  the balance and the intervals of the adaptive rebalancing (\<open>s32\<close>, \<open>size_sub\<close>, \<open>mk_interval\<close>, \<open>mk_partition\<close>). Exact
  although narrower in the code, each stated where it is defined: prefix sums of a window (32 bits), capacity and
  sizes of segments (16 bits, bounded by the constructor and by comparisons), entries of the page map (32 bits). A \<open>double\<close> is a rational with the rounding of IEEE 754
  applied by every operation (\<open>Doubles\<close>). An array is a list, an allocated but not initialised cell holds
  the parameter \<open>junk\<close>. \<open>None\<close> is a failed assertion, an exception, an access out of bounds or a loop that
  does not end; assertions are taken as enabled, as in the debug build. Loops are recursive functions
  with a termination proof or, where ending depends on the data (descents of the index, links of the leaves of an
  (a,b)-tree, loops of the external arrays), partial functions with \<open>None\<close> for a loop that does not end, so that
  ending is part of the properties; none needs fuel. Only \<open>it_read\<close>, what a client reads from an iterator, counts its
  calls.

  \<^bold>\<open>Theories.\<close>
  \<^item> \<open>Prelude\<close>, \<open>Doubles\<close>: shared lemmas on lists; floating-point numbers with their rounding lemmas.
  \<^item> \<open>Interface\<close>: the contract \<open>pma_interface\<close> (a locale) of the container the experiments use, and their
    insertion loop, proved once over the contract; interpreted by the arrays below.
  \<^item> \<open>Montes\<close>, \<open>Montes_Proofs\<close>, \<open>Montes_Wrapper\<close>, \<open>Montes_Properties\<close>: \<open>src/pma/external/montes/pma.c\<close> and the class
    \<open>PMA_Montes\<close>: all operations; the invariant \<open>montes_inv\<close> and the abstraction \<open>montes_elems\<close>.
  \<^item> \<open>Raizes\<close>, \<open>Raizes_Proofs\<close>, \<open>Raizes_Properties\<close>: \<open>src/pma/external/raizes/pkd_mem_arr.c\<close>, likewise; a run in which
    a removal loses another element.
  \<^item> \<open>Circular_Array\<close>: the ring buffer \<open>src/circular_array.hpp\<close> refines a list.
  \<^item> \<open>Density_Bounds\<close>: the thresholds of the windows, their bounds and their monotonicity under rounding;
    the cache is transparent.
  \<^item> \<open>Static_Index\<close>, \<open>_Proofs\<close>, \<open>_Properties\<close>: the implicit B+ tree of separator keys; the locale \<open>segment_index\<close>
    is what the arrays rely on, interpreted on the model of the tree.
  \<^item> \<open>Dense_Array\<close>, \<open>Dense_Array_Properties\<close>: \<open>src/abtree/dense_array.cpp\<close>: sorted arrays under a static index, with a delta
    that a build merges.
  \<^item> \<open>Sequential\<close>, \<open>Sequential_Proofs\<close>, \<open>Sequential_Properties\<close>: \<open>src/pma/sequential/pma_v4.cpp\<close>, the array with a binary search
    in place of an index: rows of elements, the rebalance with its thresholds, insertion, scans and sums.
  \<^item> \<open>ABTree\<close>, \<open>ABTree_Load\<close>: \<open>src/abtree/abtree.cpp\<close>, the (a,b)-tree the arrays are compared with: insertion with its
    splits, removal with its rotations and merges, searches, the iterator and sum over the linked leaves, the bulk
    load, the checks. \<open>ABTree_Proofs\<close> has the shape of the tree (\<open>shape\<close>) and the change of a piece of the linked leaves
    (\<open>framed\<close>), \<open>ABTree_Update_Proofs\<close> the rebalance of a child, \<open>ABTree_Change_Proofs\<close> insertion and removal in a subtree,
    \<open>ABTree_Tree_Proofs\<close> the invariant \<open>abtree_ok\<close> of the whole tree, \<open>ABTree_Scan_Proofs\<close> the reads, \<open>ABTree_Load_Proofs\<close> the
    bulk load, \<open>ABTree_Properties\<close> the interpretation of the interface and the properties.
  \<^item> \<open>Random_Permutation\<close>, \<open>Random_Permutation_Properties\<close>: the keys of the experiments (\<open>src/distribution\<close>): arrays of
    integers of a few bytes, views of them, and the legacy, compressed and parallel random permutations.
  \<^item> \<open>Rewired_Memory\<close>, \<open>_Proofs\<close>, \<open>_Properties\<close>: extents, their page table and the buffers of a rewiring; the memory
    read through the page table refines a list of extents.
  \<^item> \<open>Detector\<close>, \<open>Detector_Properties\<close>: the detector, its ring of timestamps and its counters, the relocation of
    its entries.
  \<^item> \<open>Weights\<close>, \<open>Weights_Proofs\<close>: the hammered intervals of a window (\<open>weights.cpp\<close>), with the selection of the
    threshold in place.
  \<^item> \<open>Adaptive\<close>, \<open>Adaptive_Proofs\<close>: the recursion that gives the partitions of a window
    (\<open>adaptive_rebalancing.cpp\<close>).
  \<^item> \<open>RMA_Storage\<close>, \<open>RMA_Storage_Proofs\<close>: \<open>storage.cpp\<close>: allocation, extension and the insertion into a segment;
    elements of even segments are stored at the end of their cells, those of odd ones at the start.
  \<^item> \<open>Rewiring_Spread\<close>: the spread through buffers of rewired memory (\<open>spread_with_rewiring.cpp\<close>).
  \<^item> \<open>RMA\<close>, \<open>RMA_Proofs\<close>, \<open>RMA_Properties\<close>: \<open>packed_memory_array.cpp\<close>: the state, searches, insertion, removal,
    the choice of the window and the rebalances; the invariant \<open>rma_ok\<close> and the abstraction \<open>contents\<close>.
  \<^item> \<open>RMA_Spread_Proofs\<close>, \<open>RMA_Rebalance_Proofs\<close>, \<open>RMA_Rebalance_Properties\<close>: the rebalance of a window that is
    not rewired: the elements loaded with the new pair among them, the segments and pairs of segments
    written, the window found for a full segment and its partitions, up to the insertion as a whole.
  \<^item> \<open>RMA_Resize_Proofs\<close>, \<open>RMA_Resize_Properties\<close>: the copy of the whole array to twice the segments: what the
    copying loops have read and written, the new index and sizes, up to the insertion as a whole.
  \<^item> \<open>RMA_Scan\<close>, \<open>RMA_Scan_Proofs\<close>, \<open>RMA_Scan_Properties\<close>: \<open>iterator.cpp\<close> and \<open>sum.cpp\<close>, over the cells of the elements.
  \<^bold>\<open>What the theorems show.\<close> Each container is abstracted to the list of its pairs in key order; the
  insertions add exactly one pair, the removals remove exactly one, the searches and scans agree with
  the list, and every operation keeps the invariant. The parts have their own contracts: the index returns
  prefix lengths of the separators, the memory refines a list of extents, the weights are disjoint
  intervals, the partitions account for all segments and elements of the window. Error theorems state
  what the code does where it fails: counts that go stale, removals that lose elements, results that
  cannot be told from errors, counters that drift.

  \<^bold>\<open>Bounds.\<close> The index: node sizes under \<open>2 ^ 16\<close>, up to \<open>2 ^ 31\<close> segments in a tree of eight levels, the widths
  of its fields. Its height goes through a quotient of logarithms in doubles, which is the argument \<open>levels\<close>: it
  exceeds the height by one for some powers of the node size, and the assertion that then fails is part of
  \<open>index_build_correct\<close>; the properties of the index and of the dense array assume exact heights (\<open>heights_exact\<close>),
  which \<open>heights_exact_pow2\<close> shows for the powers of two of segments of the rewired memory array. That array counts
  fewer than \<open>2 ^ 32\<close> elements, and its detector has at most \<open>2 ^ 15\<close> timestamps in an entry (8 in the constructor). The weights: windows of fewer than \<open>2 ^ 16\<close> elements, the width of an interval's length.
  The adaptive recursion: thresholds that admit a split of every window (\<open>thresholds_split\<close>), and fewer than
  \<open>2 ^ 31\<close> cells. \<open>log2\<close> of the C library is an argument. The (a,b)-tree: \<open>2 a \<le> b\<close> for inner nodes and leaves (\<open>ab_bounds_ok\<close>),
  below which the splits fail (\<open>abtree_tight_bounds_fail\<close>), and for the bulk load the exact number of levels.

  \<^bold>\<open>Not modelled.\<close> Threads, timing, hardware counters, the database, the command line and the third-party
  trees; dumps and segment statistics; the release of memory. The other arrays of the repository (the
  earlier versions \<open>int1\<close> and \<open>int2\<close>, \<open>bh07_v2\<close>, the arrays with a dynamic index, the remaining external ones)
  are predecessors or competitors of \<open>int3\<close> and share the parts modelled here; they have no model of their own.
  Of the (a,b)-tree, the removal of an interval, the permutation of the addresses of the leaves and the statistics
  are left out. Of the array \<open>int3\<close>, the properties of
  insertions cover those that find a free cell, those that rebalance a window smaller than an extent, in
  arrays of a power of two of segments, and those that double an array of at most half an extent; those of
  removals the ones that start no rebalance. The resizes of larger arrays and the spread with rewiring are modelled, and the parts below them (weights, partitions, index, memory) are
  proved on their own.
\<close>

end
